(* ===== verification/Prelude.thy ===== *)
theory Prelude
  imports Main "HOL-Library.Word" "HOL-Library.Multiset"
begin

text \<open>
  Shared vocabulary of the development: names for the machine integer types of the server,
  little-endian byte views of integers (the \<open>memcpy\<close> idiom of the sources), the
  swap-with-last-and-pop idiom, and the generic list lemmas the components use.
\<close>

unbundle bit_operations_syntax

type_synonym u8 = "8 word"
type_synonym u16 = "16 word"
type_synonym u32 = "32 word"
type_synonym u64 = "64 word"

named_theorems codec_simps \<open>byte views of integers\<close>
named_theorems inv_intros \<open>preservation of component invariants\<close>

section \<open>Little-endian byte views\<close>

text \<open>\<open>std::memcpy\<close> of an integer into a byte buffer on a little-endian host, and back.\<close>

definition bytes16 :: "u16 \<Rightarrow> u8 list" where
  "bytes16 w = [ucast w, ucast (drop_bit 8 w)]"

definition bytes32 :: "u32 \<Rightarrow> u8 list" where
  "bytes32 w = [ucast w, ucast (drop_bit 8 w), ucast (drop_bit 16 w), ucast (drop_bit 24 w)]"

definition word16 :: "u8 \<Rightarrow> u8 \<Rightarrow> u16" where
  "word16 a b = ucast a OR push_bit 8 (ucast b)"

definition word32 :: "u8 \<Rightarrow> u8 \<Rightarrow> u8 \<Rightarrow> u8 \<Rightarrow> u32" where
  "word32 a b c d =
     ucast a OR push_bit 8 (ucast b) OR push_bit 16 (ucast c) OR push_bit 24 (ucast d)"

lemma word16_bytes [codec_simps]: "word16 (ucast w) (ucast (drop_bit 8 w)) = w"
  unfolding word16_def
  by (rule bit_word_eqI) (auto simp: bit_simps)

lemma word32_bytes [codec_simps]:
  "word32 (ucast w) (ucast (drop_bit 8 w)) (ucast (drop_bit 16 w)) (ucast (drop_bit 24 w)) = w"
  unfolding word32_def
proof (rule bit_word_eqI)
  fix n
  assume "n < LENGTH(32)"
  then consider "n < 8" | "8 \<le> n" "n < 16" | "16 \<le> n" "n < 24" | "24 \<le> n" "n < 32"
    by force
  then show "bit (ucast (ucast w :: u8) OR push_bit 8 (ucast (ucast (drop_bit 8 w) :: u8)) OR
      push_bit 16 (ucast (ucast (drop_bit 16 w) :: u8)) OR
      push_bit 24 (ucast (ucast (drop_bit 24 w) :: u8)) :: u32) n = bit w n"
    by cases (auto simp: bit_simps)
qed

lemma bytes16_word [codec_simps]: "bytes16 (word16 a b) = [a, b]"
  unfolding word16_def bytes16_def
  by (auto intro!: bit_word_eqI simp: bit_simps impossible_bit)

lemma bytes32_word [codec_simps]: "bytes32 (word32 a b c d) = [a, b, c, d]"
  unfolding word32_def bytes32_def
  by (auto intro!: bit_word_eqI simp: bit_simps impossible_bit)

lemma length_bytes16 [simp]: "length (bytes16 w) = 2"
  by (simp add: bytes16_def)

lemma length_bytes32 [simp]: "length (bytes32 w) = 4"
  by (simp add: bytes32_def)

section \<open>Lists updated in place\<close>

text \<open>\<open>std::memcpy\<close> of a byte string into a buffer at an offset.\<close>

definition blit :: "'a list \<Rightarrow> nat \<Rightarrow> 'a list \<Rightarrow> 'a list" where
  "blit buf off xs = take off buf @ xs @ drop (off + length xs) buf"

lemma length_blit [simp]: "off + length xs \<le> length buf \<Longrightarrow> length (blit buf off xs) = length buf"
  by (simp add: blit_def)

lemma blit_Nil [simp]: "blit buf off [] = buf"
  by (simp add: blit_def)

lemma take_blit_le: "n \<le> off \<Longrightarrow> off \<le> length buf \<Longrightarrow> take n (blit buf off xs) = take n buf"
  by (simp add: blit_def min_def)

lemma take_blit: "off \<le> length buf \<Longrightarrow> take (off + length xs) (blit buf off xs) = take off buf @ xs"
  by (simp add: blit_def)

lemma drop_blit:
  "off \<le> length buf \<Longrightarrow> drop off (blit buf off xs) = xs @ drop (off + length xs) buf"
  by (simp add: blit_def)

lemma nth_blit:
  assumes "off + length xs \<le> length buf" and "i < length buf"
  shows "blit buf off xs ! i =
    (if i < off then buf ! i else if i < off + length xs then xs ! (i - off) else buf ! i)"
  using assms by (auto simp: blit_def nth_append)

text \<open>
  \<open>*it = v.back(); v.pop_back()\<close> with \<open>it = std::find(...)\<close>: removal of the first occurrence
  by overwriting it with the last element.
\<close>

fun find_index :: "'a \<Rightarrow> 'a list \<Rightarrow> nat option" where
  "find_index x [] = None"
| "find_index x (y # ys) = (if x = y then Some 0 else map_option Suc (find_index x ys))"

definition swap_pop :: "'a \<Rightarrow> 'a list \<Rightarrow> 'a list" where
  "swap_pop x xs = (case find_index x xs of None \<Rightarrow> xs | Some i \<Rightarrow> butlast (xs[i := last xs]))"

lemma find_index_None [simp]: "find_index x xs = None \<longleftrightarrow> x \<notin> set xs"
  by (induction xs) auto

lemma find_index_Some: "find_index x xs = Some i \<Longrightarrow> i < length xs \<and> xs ! i = x"
  by (induction xs arbitrary: i) (auto split: if_splits)

lemma mset_swap_pop: "mset (swap_pop x xs) = mset xs - {#x#}"
proof (cases "find_index x xs")
  case None
  moreover from this have "x \<notin> set xs" by simp
  ultimately show ?thesis by (simp add: swap_pop_def diff_single_trivial del: find_index_None)
next
  case (Some i)
  then have i: "i < length xs" "xs ! i = x" by (auto dest: find_index_Some)
  then have ne: "xs \<noteq> []" by auto
  have "mset (butlast (xs[i := last xs])) + {#last (xs[i := last xs])#} = mset (xs[i := last xs])"
    using ne by (metis append_butlast_last_id list_update_nonempty mset.simps(1) mset.simps(2)
        mset_append)
  moreover have "last (xs[i := last xs]) = last xs"
    using i ne by (simp add: last_list_update)
  moreover have "mset (xs[i := last xs]) = mset xs - {#x#} + {#last xs#}"
    using i by (simp add: mset_update)
  ultimately show ?thesis using Some by (simp add: swap_pop_def)
qed

lemma set_swap_pop: "distinct xs \<Longrightarrow> set (swap_pop x xs) = set xs - {x}"
  by (metis mset_remove1 mset_swap_pop set_mset_mset set_remove1_eq)

lemma distinct_swap_pop: "distinct xs \<Longrightarrow> distinct (swap_pop x xs)"
  by (metis distinct_remove1 mset_eq_imp_distinct_iff mset_remove1 mset_swap_pop)

lemma find_SomeD: "List.find P xs = Some x \<Longrightarrow> x \<in> set xs \<and> P x"
  by (induction xs) (auto split: if_split_asm)

lemma find_NoneD: "List.find P xs = None \<Longrightarrow> x \<in> set xs \<Longrightarrow> \<not> P x"
  by (induction xs) (auto split: if_split_asm)

section \<open>Characters\<close>

text \<open>\<open>tolower\<close> and \<open>toupper\<close> of the C locale.\<close>

definition to_lower :: "char \<Rightarrow> char" where
  "to_lower c = (let n = of_char c :: nat in if 65 \<le> n \<and> n \<le> 90 then char_of (n + 32) else c)"

definition to_upper :: "char \<Rightarrow> char" where
  "to_upper c = (let n = of_char c :: nat in if 97 \<le> n \<and> n \<le> 122 then char_of (n - 32) else c)"

abbreviation to_lower_copy :: "string \<Rightarrow> string" where
  "to_lower_copy s \<equiv> map to_lower s"

lemma of_char_to_lower:
  "(of_char (to_lower c) :: nat) =
     (let n = of_char c in if 65 \<le> n \<and> n \<le> 90 then n + 32 else n)"
  by (simp add: to_lower_def Let_def)

lemma to_lower_idem [simp]: "to_lower (to_lower c) = to_lower c"
proof -
  have "\<not> (65 \<le> (of_char (to_lower c) :: nat) \<and> (of_char (to_lower c) :: nat) \<le> 90)"
    by (simp add: of_char_to_lower Let_def)
  then show ?thesis unfolding to_lower_def [of "to_lower c"] Let_def by (simp only: if_False)
qed

end
