(* ===== verification/Positions.thy ===== *)
theory Positions
  imports Prelude
begin

text \<open>
  Map coordinates and directions: \<open>src/src/position.h\<close>, \<open>src/src/position.cpp\<close> and the two
  direction routines of \<open>src/src/tools.cpp\<close>. Coordinates are kept at their width (16, 16 and 8
  bits); differences of coordinates are computed, as in the sources, in a wider signed type in
  which they cannot overflow, hence as \<open>int\<close>.
\<close>

section \<open>Directions\<close>

datatype direction =
  DIRECTION_NORTH | DIRECTION_EAST | DIRECTION_SOUTH | DIRECTION_WEST
| DIRECTION_SOUTHWEST | DIRECTION_SOUTHEAST | DIRECTION_NORTHWEST | DIRECTION_NORTHEAST
| DIRECTION_NONE

definition DIRECTION_DIAGONAL_MASK :: u8 where
  "DIRECTION_DIAGONAL_MASK = 4"

text \<open>The numeric value of an enumerator.\<close>

fun direction_value :: "direction \<Rightarrow> u8" where
  "direction_value DIRECTION_NORTH = 0"
| "direction_value DIRECTION_EAST = 1"
| "direction_value DIRECTION_SOUTH = 2"
| "direction_value DIRECTION_WEST = 3"
| "direction_value DIRECTION_SOUTHWEST = DIRECTION_DIAGONAL_MASK OR 0"
| "direction_value DIRECTION_SOUTHEAST = DIRECTION_DIAGONAL_MASK OR 1"
| "direction_value DIRECTION_NORTHWEST = DIRECTION_DIAGONAL_MASK OR 2"
| "direction_value DIRECTION_NORTHEAST = DIRECTION_DIAGONAL_MASK OR 3"
| "direction_value DIRECTION_NONE = 8"

text \<open>The stream operator on directions prints nothing for \<open>DIRECTION_NONE\<close>.\<close>

fun direction_name :: "direction \<Rightarrow> string" where
  "direction_name DIRECTION_NORTH = ''North''"
| "direction_name DIRECTION_EAST = ''East''"
| "direction_name DIRECTION_WEST = ''West''"
| "direction_name DIRECTION_SOUTH = ''South''"
| "direction_name DIRECTION_SOUTHWEST = ''South-West''"
| "direction_name DIRECTION_SOUTHEAST = ''South-East''"
| "direction_name DIRECTION_NORTHWEST = ''North-West''"
| "direction_name DIRECTION_NORTHEAST = ''North-East''"
| "direction_name DIRECTION_NONE = []"

lemma diagonal_iff_mask:
  "direction_value d AND DIRECTION_DIAGONAL_MASK \<noteq> 0 \<longleftrightarrow>
     d \<in> {DIRECTION_SOUTHWEST, DIRECTION_SOUTHEAST, DIRECTION_NORTHWEST, DIRECTION_NORTHEAST}"
  by (cases d) (simp_all add: DIRECTION_DIAGONAL_MASK_def)

section \<open>Positions\<close>

datatype position = Position (pos_x: u16) (pos_y: u16) (pos_z: u8)

definition getX :: "position \<Rightarrow> int" where "getX p = uint (pos_x p)"
definition getY :: "position \<Rightarrow> int" where "getY p = uint (pos_y p)"
definition getZ :: "position \<Rightarrow> int" where "getZ p = uint (pos_z p)"

definition getOffsetX :: "position \<Rightarrow> position \<Rightarrow> int" where
  "getOffsetX p1 p2 = getX p1 - getX p2"

definition getOffsetY :: "position \<Rightarrow> position \<Rightarrow> int" where
  "getOffsetY p1 p2 = getY p1 - getY p2"

definition getOffsetZ :: "position \<Rightarrow> position \<Rightarrow> int" where
  "getOffsetZ p1 p2 = getZ p1 - getZ p2"

definition getDistanceX :: "position \<Rightarrow> position \<Rightarrow> int" where
  "getDistanceX p1 p2 = \<bar>getOffsetX p1 p2\<bar>"

definition getDistanceY :: "position \<Rightarrow> position \<Rightarrow> int" where
  "getDistanceY p1 p2 = \<bar>getOffsetY p1 p2\<bar>"

definition getDistanceZ :: "position \<Rightarrow> position \<Rightarrow> int" where
  "getDistanceZ p1 p2 = \<bar>getOffsetZ p1 p2\<bar>"

text \<open>The two-dimensional and the three-dimensional \<open>areInRange\<close>.\<close>

definition areInRange :: "int \<Rightarrow> int \<Rightarrow> position \<Rightarrow> position \<Rightarrow> bool" where
  "areInRange deltax deltay p1 p2 \<longleftrightarrow>
     getDistanceX p1 p2 \<le> deltax \<and> getDistanceY p1 p2 \<le> deltay"

definition areInRange3 :: "int \<Rightarrow> int \<Rightarrow> int \<Rightarrow> position \<Rightarrow> position \<Rightarrow> bool" where
  "areInRange3 deltax deltay deltaz p1 p2 \<longleftrightarrow>
     getDistanceX p1 p2 \<le> deltax \<and> getDistanceY p1 p2 \<le> deltay \<and> getDistanceZ p1 p2 \<le> deltaz"

lemmas offset_defs = getX_def getY_def getZ_def getOffsetX_def getOffsetY_def getOffsetZ_def
lemmas distance_defs = offset_defs getDistanceX_def getDistanceY_def getDistanceZ_def

definition position_lt :: "position \<Rightarrow> position \<Rightarrow> bool" where
  "position_lt a p =
     (if pos_z a < pos_z p then True
      else if pos_z a > pos_z p then False
      else if pos_y a < pos_y p then True
      else if pos_y a > pos_y p then False
      else if pos_x a < pos_x p then True
      else if pos_x a > pos_x p then False
      else False)"

text \<open>\<open>operator>\<close> is written as the negation of \<open>operator<\<close>.\<close>

definition position_gt :: "position \<Rightarrow> position \<Rightarrow> bool" where
  "position_gt a p = (\<not> position_lt a p)"

definition position_add :: "position \<Rightarrow> position \<Rightarrow> position" where
  "position_add a p = Position (pos_x a + pos_x p) (pos_y a + pos_y p) (pos_z a + pos_z p)"

definition position_sub :: "position \<Rightarrow> position \<Rightarrow> position" where
  "position_sub a p = Position (pos_x a - pos_x p) (pos_y a - pos_y p) (pos_z a - pos_z p)"

text \<open>
  \<open>std::map<Position, ...>\<close> orders its keys with \<open>operator<\<close>: the library's order on positions
  is that operator, and the instance proof is its strict total order property.
\<close>

instantiation position :: linorder
begin

definition less_position :: "position \<Rightarrow> position \<Rightarrow> bool" where
  "less_position a b = position_lt a b"

definition less_eq_position :: "position \<Rightarrow> position \<Rightarrow> bool" where
  "less_eq_position a b = (a = b \<or> position_lt a b)"

instance
proof
  fix x y z :: position
  show "x < y \<longleftrightarrow> x \<le> y \<and> \<not> y \<le> x"
    by (auto simp: less_position_def less_eq_position_def position_lt_def split: if_splits)
  show "x \<le> x"
    by (simp add: less_eq_position_def)
  show "x \<le> z" if "x \<le> y" "y \<le> z"
    using that by (auto simp: less_eq_position_def position_lt_def split: if_splits)
  show "x = y" if "x \<le> y" "y \<le> x"
    using that by (auto simp: less_eq_position_def position_lt_def split: if_splits)
  show "x \<le> y \<or> y \<le> x"
    by (cases x; cases y) (auto simp: less_eq_position_def position_lt_def)
qed

end

section \<open>Moving and aiming\<close>

fun getNextPosition :: "direction \<Rightarrow> position \<Rightarrow> position" where
  "getNextPosition DIRECTION_NORTH (Position x y z) = Position x (y - 1) z"
| "getNextPosition DIRECTION_SOUTH (Position x y z) = Position x (y + 1) z"
| "getNextPosition DIRECTION_WEST (Position x y z) = Position (x - 1) y z"
| "getNextPosition DIRECTION_EAST (Position x y z) = Position (x + 1) y z"
| "getNextPosition DIRECTION_SOUTHWEST (Position x y z) = Position (x - 1) (y + 1) z"
| "getNextPosition DIRECTION_NORTHWEST (Position x y z) = Position (x - 1) (y - 1) z"
| "getNextPosition DIRECTION_NORTHEAST (Position x y z) = Position (x + 1) (y - 1) z"
| "getNextPosition DIRECTION_SOUTHEAST (Position x y z) = Position (x + 1) (y + 1) z"
| "getNextPosition DIRECTION_NONE pos = pos"

definition getDirectionTo :: "position \<Rightarrow> position \<Rightarrow> bool \<Rightarrow> direction" where
  "getDirectionTo from to extended =
     (if from = to then DIRECTION_NONE
      else
        let x_offset0 = getOffsetX from to;
            dir = (if x_offset0 < 0 then DIRECTION_EAST else DIRECTION_WEST);
            x_offset = (if x_offset0 < 0 then \<bar>x_offset0\<bar> else x_offset0);
            y_offset = getOffsetY from to
        in if y_offset \<ge> 0 then
             (if y_offset > x_offset then DIRECTION_NORTH
              else if y_offset = x_offset \<and> extended then
                (if dir = DIRECTION_EAST then DIRECTION_NORTHEAST else DIRECTION_NORTHWEST)
              else dir)
           else
             let y_offset' = \<bar>y_offset\<bar> in
             (if y_offset' > x_offset then DIRECTION_SOUTH
              else if y_offset' = x_offset \<and> extended then
                (if dir = DIRECTION_EAST then DIRECTION_SOUTHEAST else DIRECTION_SOUTHWEST)
              else dir))"

text \<open>The number of king moves between two positions of one floor.\<close>

definition chebyshev :: "position \<Rightarrow> position \<Rightarrow> nat" where
  "chebyshev p q = nat (max (getDistanceX p q) (getDistanceY p q))"

text \<open>Taking \<open>n\<close> steps, each in the direction of the target.\<close>

fun walkTowards :: "nat \<Rightarrow> position \<Rightarrow> position \<Rightarrow> position" where
  "walkTowards 0 from to = from"
| "walkTowards (Suc n) from to =
     walkTowards n (getNextPosition (getDirectionTo from to True) from) to"

text \<open>The displacement of a direction.\<close>

fun dir_dx :: "direction \<Rightarrow> int" where
  "dir_dx d = (if d \<in> {DIRECTION_EAST, DIRECTION_NORTHEAST, DIRECTION_SOUTHEAST} then 1
     else if d \<in> {DIRECTION_WEST, DIRECTION_NORTHWEST, DIRECTION_SOUTHWEST} then -1 else 0)"

fun dir_dy :: "direction \<Rightarrow> int" where
  "dir_dy d = (if d \<in> {DIRECTION_SOUTH, DIRECTION_SOUTHWEST, DIRECTION_SOUTHEAST} then 1
     else if d \<in> {DIRECTION_NORTH, DIRECTION_NORTHWEST, DIRECTION_NORTHEAST} then -1 else 0)"

lemma coordinate_range: "0 \<le> getX p" "getX p < 65536" "0 \<le> getY p" "getY p < 65536"
  using uint_bounded [of "pos_x p"] uint_bounded [of "pos_y p"] by (simp_all add: getX_def getY_def)

lemma uint16_succ: "uint (x::u16) + 1 < 65536 \<Longrightarrow> uint (x + 1) = uint x + 1"
  using uint_bounded [of x] by (simp add: uint_word_ariths)

lemma uint16_pred: "1 \<le> uint (x::u16) \<Longrightarrow> uint (x - 1) = uint x - 1"
  by uint_arith

lemma position_eqI: "getX p = getX q \<Longrightarrow> getY p = getY q \<Longrightarrow> pos_z p = pos_z q \<Longrightarrow> p = q"
  by (cases p; cases q) (auto simp: getX_def getY_def intro: unsigned_word_eqI)

lemma getX_next:
  "0 \<le> getX p + dir_dx d \<Longrightarrow> getX p + dir_dx d < 65536 \<Longrightarrow>
     getX (getNextPosition d p) = getX p + dir_dx d"
  by (cases p; cases d) (simp_all add: getX_def uint16_succ uint16_pred)

lemma getY_next:
  "0 \<le> getY p + dir_dy d \<Longrightarrow> getY p + dir_dy d < 65536 \<Longrightarrow>
     getY (getNextPosition d p) = getY p + dir_dy d"
  by (cases p; cases d) (simp_all add: getY_def uint16_succ uint16_pred)

lemma step_z [simp]: "pos_z (getNextPosition d p) = pos_z p"
  by (cases p; cases d) simp_all

text \<open>The direction of a target follows the signs of the two differences.\<close>

lemma getDirectionTo_dx:
  assumes "getX p \<noteq> getX q \<or> getY p \<noteq> getY q"
  shows "dir_dx (getDirectionTo p q True) =
    (if \<bar>getY q - getY p\<bar> > \<bar>getX q - getX p\<bar> then 0 else sgn (getX q - getX p))"
  using assms by (auto simp: getDirectionTo_def Let_def getOffsetX_def getOffsetY_def)

lemma getDirectionTo_dy:
  assumes "getX p \<noteq> getX q \<or> getY p \<noteq> getY q"
  shows "dir_dy (getDirectionTo p q True) =
    (if \<bar>getX q - getX p\<bar> > \<bar>getY q - getY p\<bar> then 0 else sgn (getY q - getY p))"
  using assms by (auto simp: getDirectionTo_def Let_def getOffsetX_def getOffsetY_def)

lemma chebyshev_0_iff: "pos_z p = pos_z q \<Longrightarrow> chebyshev p q = 0 \<longleftrightarrow> p = q"
  by (auto simp: chebyshev_def getDistanceX_def getDistanceY_def getOffsetX_def getOffsetY_def
      intro: position_eqI)

lemma cheb_step:
  fixes X Y :: int
  assumes "X \<noteq> 0 \<or> Y \<noteq> 0"
  defines "sx \<equiv> (if \<bar>Y\<bar> > \<bar>X\<bar> then 0 else sgn X)" and "sy \<equiv> (if \<bar>X\<bar> > \<bar>Y\<bar> then 0 else sgn Y)"
  shows "Suc (nat (max \<bar>X - sx\<bar> \<bar>Y - sy\<bar>)) = nat (max \<bar>X\<bar> \<bar>Y\<bar>)"
proof -
  have "max \<bar>X - sx\<bar> \<bar>Y - sy\<bar> + 1 = max \<bar>X\<bar> \<bar>Y\<bar>"
    using assms(1) unfolding sx_def sy_def
    by (cases "X = 0"; cases "Y = 0"; cases "X < 0"; cases "Y < 0") (simp_all add: sgn_if max_def)
  then show ?thesis by linarith
qed
text \<open>One step towards the target is one king move closer, and does not wrap around.\<close>

lemma step_closer:
  assumes "p \<noteq> q" and "pos_z p = pos_z q"
  shows "Suc (chebyshev (getNextPosition (getDirectionTo p q True) p) q) = chebyshev p q"
proof -
  let ?d = "getDirectionTo p q True"
  have ne: "getX p \<noteq> getX q \<or> getY p \<noteq> getY q"
    using assms position_eqI by blast
  note r = coordinate_range [of p] coordinate_range [of q]
  have dx: "getX (getNextPosition ?d p) = getX p + dir_dx ?d"
    using r unfolding getDirectionTo_dx [OF ne] by (subst getX_next) (auto simp: sgn_if getDirectionTo_dx [OF ne] simp del: dir_dx.simps)
  have dy: "getY (getNextPosition ?d p) = getY p + dir_dy ?d"
    using r unfolding getDirectionTo_dy [OF ne] by (subst getY_next) (auto simp: sgn_if getDirectionTo_dy [OF ne] simp del: dir_dy.simps)
  have swap: "\<bar>a + s - b\<bar> = \<bar>b - a - s\<bar>" "\<bar>a - b\<bar> = \<bar>b - a\<bar>" for a b s :: int
    by simp_all
  have "Suc (chebyshev (getNextPosition ?d p) q) =
      Suc (nat (max \<bar>getX q - getX p - dir_dx ?d\<bar> \<bar>getY q - getY p - dir_dy ?d\<bar>))"
    unfolding chebyshev_def getDistanceX_def getDistanceY_def getOffsetX_def getOffsetY_def dx dy swap(1) ..
  also have "\<dots> = nat (max \<bar>getX q - getX p\<bar> \<bar>getY q - getY p\<bar>)"
    unfolding getDirectionTo_dx [OF ne] getDirectionTo_dy [OF ne]
    by (rule cheb_step) (use ne in auto)
  also have "\<dots> = chebyshev p q"
    unfolding chebyshev_def getDistanceX_def getDistanceY_def getOffsetX_def getOffsetY_def
    by (simp only: swap(2) [of "getX p"] swap(2) [of "getY p"])
  finally show ?thesis .
qed

lemma walkTowards_reaches:
  "pos_z p = pos_z q \<Longrightarrow> walkTowards (chebyshev p q) p q = q"
proof (induction "chebyshev p q" arbitrary: p)
  case 0
  then show ?case by (metis chebyshev_0_iff walkTowards.simps(1))
next
  case (Suc n)
  let ?p' = "getNextPosition (getDirectionTo p q True) p"
  have c: "chebyshev p q = Suc n" using Suc.hyps(2) by simp
  then have "p \<noteq> q" by (auto simp: chebyshev_def distance_defs)
  then have "chebyshev ?p' q = n" using step_closer [of p q] Suc.prems c by simp
  then have "walkTowards n ?p' q = q" using Suc.hyps(1) [of ?p'] Suc.prems by simp
  then show ?case by (simp add: c)
qed

section \<open>Properties\<close>

text \<open>Following the extended direction towards a position of the same floor arrives after exactly
  as many steps as the larger coordinate difference, and no step crosses the edge of the map.\<close>

theorem getDirectionTo_leads_to_target:
  assumes "pos_z p = pos_z q"
  shows "walkTowards (chebyshev p q) p q = q \<and>
    (\<forall>n. n < chebyshev p q \<longrightarrow> walkTowards n p q \<noteq> q)"
proof (intro conjI allI impI)
  show "walkTowards (chebyshev p q) p q = q" by (rule walkTowards_reaches [OF assms])
  fix n
  show "n < chebyshev p q \<Longrightarrow> walkTowards n p q \<noteq> q"
    using assms
  proof (induction n arbitrary: p)
    case 0
    then show ?case by (auto simp: chebyshev_def distance_defs)
  next
    case (Suc n)
    then have "p \<noteq> q" by (auto simp: chebyshev_def distance_defs)
    with step_closer [of p q] Suc show ?case by simp
  qed
qed

lemma getDirectionTo_leads_to_target_witness:
  "walkTowards (chebyshev (Position 0 65535 7) (Position 3 65530 7)) (Position 0 65535 7) (Position 3 65530 7)
     = Position 3 65530 7 \<and> chebyshev (Position 0 65535 7) (Position 3 65530 7) = 5"
  using getDirectionTo_leads_to_target [of "Position 0 65535 7" "Position 3 65530 7"]
  by (simp add: chebyshev_def distance_defs)

text \<open>The order on positions is by floor, then row, then column; the greater-than operator is its
  negation and so also holds between equal positions.\<close>

theorem position_gt_is_ge:
  "position_gt a b \<longleftrightarrow> b < a \<or> a = b"
  using linorder_less_linear [of a b] by (auto simp: position_gt_def less_position_def [symmetric])

end
