(* ===== verification/NetworkMessage.thy ===== *)
theory NetworkMessage
  imports Prelude Positions
begin

text \<open>
  The message buffer of the protocol, \<open>src/src/networkmessage.h\<close> and \<open>networkmessage.cpp\<close>. Length and
  position keep their 16 bits. An access outside the fixed buffer array is \<open>None\<close>; the first
  property says which operations ever get there.
\<close>

definition NETWORKMESSAGE_MAXSIZE :: nat where "NETWORKMESSAGE_MAXSIZE = 24590"
definition HEADER_LENGTH :: nat where "HEADER_LENGTH = 2"
definition CHECKSUM_LENGTH :: nat where "CHECKSUM_LENGTH = 4"
definition XTEA_MULTIPLE :: nat where "XTEA_MULTIPLE = 8"
definition INITIAL_BUFFER_POSITION :: u16 where "INITIAL_BUFFER_POSITION = 8"

definition MAX_BODY_LENGTH :: nat where
  "MAX_BODY_LENGTH = NETWORKMESSAGE_MAXSIZE - HEADER_LENGTH - CHECKSUM_LENGTH - XTEA_MULTIPLE"

definition MAX_PROTOCOL_BODY_LENGTH :: nat where
  "MAX_PROTOCOL_BODY_LENGTH = MAX_BODY_LENGTH - 10"

lemmas size_defs = NETWORKMESSAGE_MAXSIZE_def HEADER_LENGTH_def CHECKSUM_LENGTH_def XTEA_MULTIPLE_def
  INITIAL_BUFFER_POSITION_def MAX_BODY_LENGTH_def MAX_PROTOCOL_BODY_LENGTH_def

record net_message =
  info_length :: u16
  info_position :: u16
  info_overrun :: bool
  msg_buffer :: "u8 list"

section \<open>Memory\<close>

definition memread :: "u8 list \<Rightarrow> nat \<Rightarrow> nat \<Rightarrow> u8 list option" where
  "memread buf off n = (if off + n \<le> length buf then Some (take n (drop off buf)) else None)"

definition memwrite :: "u8 list \<Rightarrow> nat \<Rightarrow> u8 list \<Rightarrow> u8 list option" where
  "memwrite buf off bs = (if off + length bs \<le> length buf then Some (blit buf off bs) else None)"

section \<open>Reading\<close>

definition reset_message :: "'a net_message_scheme \<Rightarrow> 'a net_message_scheme" where
  "reset_message m = m\<lparr>info_length := 0, info_position := INITIAL_BUFFER_POSITION, info_overrun := False\<rparr>"

definition canRead :: "int \<Rightarrow> 'a net_message_scheme \<Rightarrow> bool \<times> 'a net_message_scheme" where
  "canRead n m =
     (if uint (info_position m) + n > uint (info_length m) + 8
         \<or> n \<ge> int NETWORKMESSAGE_MAXSIZE - uint (info_position m)
      then (False, m\<lparr>info_overrun := True\<rparr>)
      else (True, m))"

text \<open>The common part of \<open>getByte\<close> and \<open>get<T>\<close>: \<open>n\<close> bytes, or nothing when the message ends.\<close>

definition get_raw :: "nat \<Rightarrow> 'a net_message_scheme \<Rightarrow> (u8 list option \<times> 'a net_message_scheme) option" where
  "get_raw n m =
     (case canRead (int n) m of
        (False, m') \<Rightarrow> Some (None, m')
      | (True, m') \<Rightarrow>
          (case memread (msg_buffer m') (unat (info_position m')) n of
             None \<Rightarrow> None
           | Some bs \<Rightarrow> Some (Some bs, m'\<lparr>info_position := info_position m' + of_nat n\<rparr>)))"

definition getByte :: "'a net_message_scheme \<Rightarrow> (u8 \<times> 'a net_message_scheme) option" where
  "getByte m = map_option (\<lambda>(r, m'). (case r of Some [b] \<Rightarrow> b | _ \<Rightarrow> 0, m')) (get_raw 1 m)"

definition get16 :: "'a net_message_scheme \<Rightarrow> (u16 \<times> 'a net_message_scheme) option" where
  "get16 m = map_option (\<lambda>(r, m'). (case r of Some [a, b] \<Rightarrow> word16 a b | _ \<Rightarrow> 0, m')) (get_raw 2 m)"

definition get32 :: "'a net_message_scheme \<Rightarrow> (u32 \<times> 'a net_message_scheme) option" where
  "get32 m = map_option (\<lambda>(r, m'). (case r of Some [a, b, c, d] \<Rightarrow> word32 a b c d | _ \<Rightarrow> 0, m')) (get_raw 4 m)"

definition getPreviousByte :: "'a net_message_scheme \<Rightarrow> (u8 \<times> 'a net_message_scheme) option" where
  "getPreviousByte m =
     (let p = info_position m - 1 in
      case memread (msg_buffer m) (unat p) 1 of
        Some [b] \<Rightarrow> Some (b, m\<lparr>info_position := p\<rparr>) | _ \<Rightarrow> None)"

definition getString :: "u16 \<Rightarrow> 'a net_message_scheme \<Rightarrow> (u8 list \<times> 'a net_message_scheme) option" where
  "getString stringLen m =
     Option.bind (if stringLen = 0 then get16 m else Some (stringLen, m))
       (\<lambda>(n, m'). map_option (\<lambda>(r, m''). (case r of Some bs \<Rightarrow> bs | None \<Rightarrow> [], m'')) (get_raw (unat n) m'))"

definition getPosition :: "'a net_message_scheme \<Rightarrow> (position \<times> 'a net_message_scheme) option" where
  "getPosition m =
     Option.bind (get16 m) (\<lambda>(x, m1). Option.bind (get16 m1) (\<lambda>(y, m2).
       map_option (\<lambda>(z, m3). (Position x y z, m3)) (getByte m2)))"

definition skipBytes :: "16 word \<Rightarrow> 'a net_message_scheme \<Rightarrow> 'a net_message_scheme" where
  "skipBytes cnt m = m\<lparr>info_position := info_position m + cnt\<rparr>"

definition setBufferPosition :: "u16 \<Rightarrow> 'a net_message_scheme \<Rightarrow> bool \<times> 'a net_message_scheme" where
  "setBufferPosition pos m =
     (if unat pos < NETWORKMESSAGE_MAXSIZE - unat INITIAL_BUFFER_POSITION
      then (True, m\<lparr>info_position := pos + INITIAL_BUFFER_POSITION\<rparr>) else (False, m))"

definition getLengthHeader :: "'a net_message_scheme \<Rightarrow> u16" where
  "getLengthHeader m = word16 (msg_buffer m ! 0) (msg_buffer m ! 1)"

section \<open>Writing\<close>

text \<open>The sum is taken in the 64 bits of \<open>size_t\<close>, where it may wrap around.\<close>

definition canAdd :: "u64 \<Rightarrow> 'a net_message_scheme \<Rightarrow> bool" where
  "canAdd n m \<longleftrightarrow> n + ucast (info_position m) < of_nat MAX_BODY_LENGTH"

definition put_raw :: "u8 list \<Rightarrow> 'a net_message_scheme \<Rightarrow> 'a net_message_scheme option" where
  "put_raw bs m =
     map_option (\<lambda>buf. m\<lparr>msg_buffer := buf, info_position := info_position m + of_nat (length bs),
                        info_length := info_length m + of_nat (length bs)\<rparr>)
       (memwrite (msg_buffer m) (unat (info_position m)) bs)"

definition add_raw :: "u8 list \<Rightarrow> 'a net_message_scheme \<Rightarrow> 'a net_message_scheme option" where
  "add_raw bs m = (if \<not> canAdd (of_nat (length bs)) m then Some m else put_raw bs m)"

definition addByte :: "u8 \<Rightarrow> 'a net_message_scheme \<Rightarrow> 'a net_message_scheme option" where
  "addByte v = add_raw [v]"

definition add16 :: "u16 \<Rightarrow> 'a net_message_scheme \<Rightarrow> 'a net_message_scheme option" where
  "add16 v = add_raw (bytes16 v)"

definition add32 :: "u32 \<Rightarrow> 'a net_message_scheme \<Rightarrow> 'a net_message_scheme option" where
  "add32 v = add_raw (bytes32 v)"

definition addBytes :: "u8 list \<Rightarrow> 'a net_message_scheme \<Rightarrow> 'a net_message_scheme option" where
  "addBytes bs m = (if \<not> canAdd (of_nat (length bs)) m \<or> length bs > 8192 then Some m else put_raw bs m)"

definition addString :: "u8 list \<Rightarrow> 'a net_message_scheme \<Rightarrow> 'a net_message_scheme option" where
  "addString value m =
     (if \<not> canAdd (of_nat (length value) + 2) m \<or> length value > 8192 then Some m
      else Option.bind (add16 (of_nat (length value)) m) (put_raw value))"

text \<open>Padding goes behind the position, which stays.\<close>

definition addPaddingBytes :: "u64 \<Rightarrow> 'a net_message_scheme \<Rightarrow> 'a net_message_scheme option" where
  "addPaddingBytes n m =
     (if \<not> canAdd n m then Some m
      else map_option (\<lambda>buf. m\<lparr>msg_buffer := buf, info_length := info_length m + ucast n\<rparr>)
        (memwrite (msg_buffer m) (unat (info_position m)) (replicate (unat n) 0x33)))"

text \<open>A floating point number is written as its precision and a number of 32 bits, here an argument.\<close>

definition addDouble :: "u32 \<Rightarrow> u8 \<Rightarrow> 'a net_message_scheme \<Rightarrow> 'a net_message_scheme option" where
  "addDouble scaled precision m = Option.bind (addByte precision m) (add32 scaled)"

definition addPosition :: "position \<Rightarrow> 'a net_message_scheme \<Rightarrow> 'a net_message_scheme option" where
  "addPosition pos m =
     Option.bind (add16 (pos_x pos) m) (\<lambda>m1. Option.bind (add16 (pos_y pos) m1) (addByte (pos_z pos)))"

text \<open>What the item types tell about an item on the wire.\<close>

record item_wire =
  clientId :: u16
  stackable :: bool
  isSplash :: bool
  isFluidContainer :: bool

definition fluidMap :: "u8 list" where
  "fluidMap = [0, 1, 5, 3, 6, 8, 9, 2]"

definition addItem ::
  "(u16 \<Rightarrow> item_wire) \<Rightarrow> u16 \<Rightarrow> u8 \<Rightarrow> 'a net_message_scheme \<Rightarrow> 'a net_message_scheme option" where
  "addItem items itemId cnt m =
     (let it = items itemId in
      Option.bind (add16 (clientId it) m) (\<lambda>m1.
        if stackable it then addByte cnt m1
        else if isSplash it \<or> isFluidContainer it then addByte (fluidMap ! unat (cnt AND 7)) m1
        else Some m1))"

definition addItemId :: "(u16 \<Rightarrow> item_wire) \<Rightarrow> u16 \<Rightarrow> 'a net_message_scheme \<Rightarrow> 'a net_message_scheme option" where
  "addItemId items itemId = add16 (clientId (items itemId))"

section \<open>No access outside the buffer\<close>

definition buffer_ok :: "'a net_message_scheme \<Rightarrow> bool" where
  "buffer_ok m \<longleftrightarrow> length (msg_buffer m) = NETWORKMESSAGE_MAXSIZE"

lemma canRead_frame [simp]:
  "msg_buffer (snd (canRead n m)) = msg_buffer m" "info_position (snd (canRead n m)) = info_position m"
  "info_length (snd (canRead n m)) = info_length m"
  by (simp_all add: canRead_def)

lemma uint_as_nat: "uint (w :: u16) = int (unat w)"
  by simp

lemma canRead_iff:
  "fst (canRead (int n) m) \<longleftrightarrow> unat (info_position m) + n \<le> unat (info_length m) + 8 \<and>
     unat (info_position m) + n < NETWORKMESSAGE_MAXSIZE"
  unfolding canRead_def uint_as_nat by (auto simp del: int_nat_eq of_nat_unat)

lemma get_raw_eq:
  "get_raw n m =
     (if fst (canRead (int n) m) then
        map_option (\<lambda>bs. (Some bs, m\<lparr>info_position := info_position m + of_nat n\<rparr>))
          (memread (msg_buffer m) (unat (info_position m)) n)
      else Some (None, m\<lparr>info_overrun := True\<rparr>))"
  by (auto simp: get_raw_def canRead_def split: option.split)

lemma get_raw_total:
  assumes "buffer_ok m"
  shows "\<exists>r m'. get_raw n m = Some (r, m') \<and> msg_buffer m' = msg_buffer m"
  using assms by (auto simp: get_raw_eq canRead_iff memread_def buffer_ok_def)

text \<open>The outcome of an operation: it stays inside the buffer and leaves its size alone.\<close>

definition safe_get :: "('b \<times> 'a net_message_scheme) option \<Rightarrow> bool" where
  "safe_get r \<longleftrightarrow> (\<exists>v m. r = Some (v, m) \<and> buffer_ok m)"

definition safe_put :: "'a net_message_scheme option \<Rightarrow> bool" where
  "safe_put r \<longleftrightarrow> (\<exists>m. r = Some m \<and> buffer_ok m)"

lemma safe_get_raw [inv_intros]: "buffer_ok m \<Longrightarrow> safe_get (get_raw n m)"
  using get_raw_total [of m n] by (auto simp: safe_get_def buffer_ok_def)

lemma safe_get_map [inv_intros]:
  "safe_get r \<Longrightarrow> safe_get (map_option (\<lambda>(v, m). (f v, m)) r)"
  by (auto simp: safe_get_def)

lemma safe_get_bind [inv_intros]:
  "safe_get r \<Longrightarrow> (\<And>v m. buffer_ok m \<Longrightarrow> safe_get (f v m)) \<Longrightarrow> safe_get (Option.bind r (\<lambda>(v, m). f v m))"
  by (auto simp: safe_get_def)

lemma safe_getByte [inv_intros]: "buffer_ok m \<Longrightarrow> safe_get (getByte m)"
  unfolding getByte_def by (intro inv_intros)

lemma safe_get16 [inv_intros]: "buffer_ok m \<Longrightarrow> safe_get (get16 m)"
  unfolding get16_def by (intro inv_intros)

lemma safe_get32 [inv_intros]: "buffer_ok m \<Longrightarrow> safe_get (get32 m)"
  unfolding get32_def by (intro inv_intros)

lemma safe_getString [inv_intros]: "buffer_ok m \<Longrightarrow> safe_get (getString n m)"
proof -
  assume b: "buffer_ok m"
  then have "safe_get (if n = 0 then get16 m else Some (n, m))"
    using safe_get16 [OF b] by (cases "n = 0") (simp_all add: safe_get_def)
  then show ?thesis unfolding getString_def by (intro inv_intros)
qed

lemma safe_getPosition [inv_intros]: "buffer_ok m \<Longrightarrow> safe_get (getPosition m)"
  unfolding getPosition_def by (intro inv_intros)

text \<open>The sum of a size and a position; only sizes near the end of the range wrap around.\<close>

lemma unat_pos64: "unat (ucast (w :: u16) :: u64) = unat w"
  using unsigned_less [of w, where 'a = nat] by (simp add: unsigned_ucast_eq take_bit_nat_eq_self)

lemma unat_canAdd: "unat ((n :: u64) + ucast (pos :: u16)) =
    (if unat n + unat pos < 2 ^ 64 then unat n + unat pos else unat n + unat pos - 2 ^ 64)"
proof -
  have u: "unat (n + ucast pos) = (unat n + unat pos) mod 2 ^ 64" by (simp add: unat_word_ariths unat_pos64)
  have "unat pos < 2 ^ 16" "unat n < 2 ^ 64"
    using unsigned_less [of pos, where 'a = nat] unsigned_less [of n, where 'a = nat] by simp_all
  then have "unat n + unat pos < 2 ^ 64 + 2 ^ 64" by simp
  then show ?thesis
    unfolding u by (cases "unat n + unat pos < 2 ^ 64") (simp, subst le_mod_geq, simp_all)
qed

lemma canAdd_iff: "canAdd n m \<longleftrightarrow> unat n + unat (info_position m) < MAX_BODY_LENGTH \<or>
    2 ^ 64 \<le> unat n + unat (info_position m) \<and> unat n + unat (info_position m) < 2 ^ 64 + MAX_BODY_LENGTH"
  unfolding canAdd_def word_less_nat_alt unat_canAdd by (auto simp: size_defs)

lemma canAdd_small:
  assumes "n < 2 ^ 63"
  shows "canAdd (of_nat n) m \<longleftrightarrow> n + unat (info_position m) < MAX_BODY_LENGTH"
proof -
  have "unat (of_nat n :: u64) = n" using assms by (simp add: unat_of_nat)
  moreover have "unat (info_position m) < 65536" using unsigned_less [of "info_position m", where 'a = nat] by simp
  then have "\<not> 2 ^ 64 \<le> n + unat (info_position m)" using assms by simp
  ultimately show ?thesis unfolding canAdd_iff by metis
qed

lemma canAdd_string:
  assumes "length s \<le> 8192"
  shows "canAdd (of_nat (length s) + 2) m \<longleftrightarrow> length s + 2 + unat (info_position m) < MAX_BODY_LENGTH"
proof -
  have e: "of_nat (length s) + 2 = (of_nat (length s + 2) :: u64)" by simp
  have b: "length s + 2 < 2 ^ 63" using assms by simp
  show ?thesis unfolding e by (rule canAdd_small [OF b])
qed

lemma safe_put_raw: "buffer_ok m \<Longrightarrow> canAdd (of_nat (length bs)) m \<Longrightarrow> length bs \<le> 8192 \<Longrightarrow> safe_put (put_raw bs m)"
  by (simp add: safe_put_def put_raw_def memwrite_def buffer_ok_def canAdd_small size_defs)

lemma safe_add_raw: "buffer_ok m \<Longrightarrow> length bs \<le> 8192 \<Longrightarrow> safe_put (add_raw bs m)"
  using safe_put_raw [of m bs] by (auto simp: add_raw_def safe_put_def)

lemma safe_put_bind [inv_intros]:
  "safe_put r \<Longrightarrow> (\<And>m. buffer_ok m \<Longrightarrow> safe_put (f m)) \<Longrightarrow> safe_put (Option.bind r f)"
  by (auto simp: safe_put_def)

lemma safe_add [inv_intros]:
  "buffer_ok m \<Longrightarrow> safe_put (addByte b m)" "buffer_ok m \<Longrightarrow> safe_put (add16 w m)"
  "buffer_ok m \<Longrightarrow> safe_put (add32 d m)"
  unfolding addByte_def add16_def add32_def by (rule safe_add_raw; simp add: bytes16_def bytes32_def)+

lemma safe_addBytes [inv_intros]: "buffer_ok m \<Longrightarrow> safe_put (addBytes bs m)"
  using safe_put_raw [of m bs] by (auto simp: addBytes_def safe_put_def)

lemma addPaddingBytes_leaves:
  assumes "buffer_ok m"
  shows "addPaddingBytes n m = None \<longleftrightarrow>
    2 ^ 64 \<le> unat n + unat (info_position m) \<and> unat n + unat (info_position m) < 2 ^ 64 + MAX_BODY_LENGTH"
  using assms by (auto simp: addPaddingBytes_def memwrite_def buffer_ok_def canAdd_iff size_defs)

lemma getPreviousByte_leaves:
  assumes "buffer_ok m"
  shows "getPreviousByte m = None \<longleftrightarrow> info_position m = 0 \<or> NETWORKMESSAGE_MAXSIZE < unat (info_position m)"
proof (cases "info_position m = 0")
  case True
  then show ?thesis using assms by (simp add: getPreviousByte_def memread_def buffer_ok_def size_defs Let_def unsigned_minus_1_eq_mask mask_eq_exp_minus_1)
next
  case False
  then have u: "unat (info_position m - 1) + 1 = unat (info_position m)" by (simp add: unat_minus_one unat_gt_0)
  show ?thesis
  proof (cases "unat (info_position m) \<le> NETWORKMESSAGE_MAXSIZE")
    case True
    then have "length (take 1 (drop (unat (info_position m - 1)) (msg_buffer m))) = 1"
      using assms u by (simp add: buffer_ok_def size_defs)
    then obtain b where "take 1 (drop (unat (info_position m - 1)) (msg_buffer m)) = [b]" by (auto simp: length_Suc_conv simp del: length_take)
    then show ?thesis using True False assms u by (simp add: getPreviousByte_def memread_def buffer_ok_def Let_def)
  qed (use False assms u in \<open>simp add: getPreviousByte_def memread_def buffer_ok_def Let_def\<close>)
qed

lemma getPreviousByte_keeps: "getPreviousByte m = Some (b, m') \<Longrightarrow> buffer_ok m \<Longrightarrow> buffer_ok m'"
  by (auto simp: getPreviousByte_def Let_def buffer_ok_def split: option.splits list.splits)

lemma addPaddingBytes_keeps: "addPaddingBytes n m = Some m' \<Longrightarrow> buffer_ok m \<Longrightarrow> buffer_ok m'"
  by (auto simp: addPaddingBytes_def memwrite_def buffer_ok_def split: if_splits)

lemma safe_iff: "(\<And>v m'. g m = Some (v, m') \<Longrightarrow> buffer_ok m') \<Longrightarrow> safe_get (g m) \<longleftrightarrow> g m \<noteq> None"
  "(\<And>m'. f m = Some m' \<Longrightarrow> buffer_ok m') \<Longrightarrow> safe_put (f m) \<longleftrightarrow> f m \<noteq> None"
  by (auto simp: safe_get_def safe_put_def)

lemma safe_addDouble [inv_intros]: "buffer_ok m \<Longrightarrow> safe_put (addDouble d b m)"
  unfolding addDouble_def by (intro inv_intros)

lemma safe_addPosition [inv_intros]: "buffer_ok m \<Longrightarrow> safe_put (addPosition p m)"
  unfolding addPosition_def by (intro inv_intros)

lemma safe_addItem [inv_intros]: "buffer_ok m \<Longrightarrow> safe_put (addItem its i c m)"
  unfolding addItem_def Let_def
  by (intro safe_put_bind inv_intros) (auto intro: inv_intros, auto simp: safe_put_def)

lemma put_raw_fits:
  assumes "unat (info_position m) + length bs \<le> NETWORKMESSAGE_MAXSIZE" and "buffer_ok m"
  shows "put_raw bs m = Some (m\<lparr>msg_buffer := blit (msg_buffer m) (unat (info_position m)) bs,
    info_position := info_position m + of_nat (length bs), info_length := info_length m + of_nat (length bs)\<rparr>)"
  using assms by (simp add: put_raw_def memwrite_def buffer_ok_def)

lemma safe_addString [inv_intros]: "buffer_ok m \<Longrightarrow> safe_put (addString s m)"
proof -
  assume b: "buffer_ok m"
  show ?thesis
  proof (cases "canAdd (of_nat (length s) + 2) m \<and> length s \<le> 8192")
    case True
    then have l: "unat (info_position m) + length s + 2 < 24576"
      using canAdd_string [of s m] by (simp add: size_defs)
    then obtain m' where m': "add16 (of_nat (length s)) m = Some m'" "buffer_ok m'"
      "info_position m' = info_position m + 2"
      using b put_raw_fits [OF _ b, of "bytes16 (of_nat (length s))"] 
      using canAdd_small [of 2 m] by (auto simp: add16_def add_raw_def size_defs buffer_ok_def)
    have "unat (info_position m') = unat (info_position m) + 2"
      using l unfolding m'(3) by (simp add: unat_word_ariths)
    then have "safe_put (put_raw s m')"
      using l m'(2) put_raw_fits [OF _ m'(2), of s] by (auto simp: safe_put_def buffer_ok_def size_defs)
    then show ?thesis using True m'(1) by (simp add: addString_def)
  next
    case False
    then show ?thesis using b by (auto simp: addString_def safe_put_def)
  qed
qed

text \<open>C34: The operations that read and write a message never touch memory outside its fixed buffer, whatever the recorded
  length and position are, and a value that does not fit is dropped. Two do under one condition each: \<open>getPreviousByte\<close>
  leaves the buffer exactly when the position is 0 or behind the end of the buffer, and \<open>addPaddingBytes\<close> exactly when the
  number of bytes is so large that its sum with the position wraps around to less than the longest body.\<close>

theorem message_operations_stay_in_buffer:
  assumes "buffer_ok m"
  shows "safe_get (getByte m) \<and> safe_get (get16 m) \<and> safe_get (get32 m) \<and> safe_get (getString n m) \<and>
    safe_get (getPosition m) \<and> safe_put (addByte b m) \<and> safe_put (add16 w m) \<and> safe_put (add32 d m) \<and>
    safe_put (addBytes bs m) \<and> safe_put (addString s m) \<and> safe_put (addDouble d b m) \<and>
    safe_put (addPosition p m) \<and> safe_put (addItem its i c m) \<and> safe_put (addItemId its i m) \<and>
    (safe_get (getPreviousByte m) \<longleftrightarrow> info_position m \<noteq> 0 \<and> unat (info_position m) \<le> NETWORKMESSAGE_MAXSIZE) \<and>
    (safe_put (addPaddingBytes k m) \<longleftrightarrow>
       \<not> (2 ^ 64 \<le> unat k + unat (info_position m) \<and> unat k + unat (info_position m) < 2 ^ 64 + MAX_BODY_LENGTH))"
proof -
  have "safe_get (getPreviousByte m) \<longleftrightarrow> getPreviousByte m \<noteq> None"
    by (rule safe_iff(1)) (rule getPreviousByte_keeps [OF _ assms])
  moreover have "safe_put (addPaddingBytes k m) \<longleftrightarrow> addPaddingBytes k m \<noteq> None"
    by (rule safe_iff(2)) (rule addPaddingBytes_keeps [OF _ assms])
  moreover have "safe_put (addItemId its i m)" unfolding addItemId_def by (intro inv_intros assms)
  ultimately show ?thesis
    unfolding getPreviousByte_leaves [OF assms] addPaddingBytes_leaves [OF assms] not_le [symmetric]
    using assms by (intro conjI inv_intros) (simp_all add: not_le not_less)
qed

definition fresh_message :: net_message where
  "fresh_message = \<lparr>info_length = 0, info_position = INITIAL_BUFFER_POSITION, info_overrun = False,
     msg_buffer = replicate NETWORKMESSAGE_MAXSIZE 0\<rparr>"

lemma message_operations_stay_in_buffer_witness:
  "safe_get (getString 65535 (fresh_message\<lparr>info_position := 65530, info_length := 65535\<rparr>)) \<and>
   \<not> safe_get (getPreviousByte (fresh_message\<lparr>info_position := 65530, info_length := 65535\<rparr>))"
  using message_operations_stay_in_buffer [of "fresh_message\<lparr>info_position := 65530, info_length := 65535\<rparr>" 65535 0 0 0 "[]" "[]"
      "Position 0 0 0" "\<lambda>_. \<lparr>clientId = 0, stackable = False, isSplash = False, isFluidContainer = False\<rparr>" 0 0 0]
  by (simp add: buffer_ok_def fresh_message_def size_defs)

section \<open>Bodies of messages\<close>

text \<open>The bytes written so far, and the bytes not read yet.\<close>

definition body :: "'a net_message_scheme \<Rightarrow> u8 list" where
  "body m = take (unat (info_length m)) (drop 8 (msg_buffer m))"

definition unread :: "'a net_message_scheme \<Rightarrow> u8 list" where
  "unread m = drop (unat (info_position m)) (take (unat (info_length m) + 8) (msg_buffer m))"

definition writing :: "'a net_message_scheme \<Rightarrow> bool" where
  "writing m \<longleftrightarrow> buffer_ok m \<and> unat (info_position m) = 8 + unat (info_length m) \<and>
     unat (info_position m) < MAX_BODY_LENGTH"

definition reading :: "'a net_message_scheme \<Rightarrow> bool" where
  "reading m \<longleftrightarrow> buffer_ok m \<and> unat (info_position m) \<le> 8 + unat (info_length m) \<and>
     8 + unat (info_length m) < NETWORKMESSAGE_MAXSIZE"

lemma length_body: "buffer_ok m \<Longrightarrow> unat (info_length m) + 8 \<le> NETWORKMESSAGE_MAXSIZE \<Longrightarrow> length (body m) = unat (info_length m)"
  by (simp add: body_def buffer_ok_def)

lemma writing_fresh: "writing fresh_message \<and> body fresh_message = []"
  by (simp add: writing_def fresh_message_def buffer_ok_def body_def size_defs)

lemma unat_add16: "unat (a::u16) + n < 65536 \<Longrightarrow> unat (a + of_nat n) = unat a + n"
  by (simp add: unat_word_ariths unat_of_nat)

lemma put_raw_body:
  assumes "writing m" and "unat (info_position m) + length bs < MAX_BODY_LENGTH"
  shows "\<exists>m'. put_raw bs m = Some m' \<and> writing m' \<and> body m' = body m @ bs \<and>
    info_position m' = info_position m + of_nat (length bs)"
proof -
  let ?p = "unat (info_position m)"
  have p: "?p = 8 + unat (info_length m)" "?p + length bs < 24576" "length (msg_buffer m) = 24590" "buffer_ok m"
    using assms by (auto simp: writing_def buffer_ok_def size_defs)
  have u: "unat (info_position m + of_nat (length bs)) = ?p + length bs"
    "unat (info_length m + of_nat (length bs)) = unat (info_length m) + length bs"
    using p by (simp_all add: unat_add16)
  have "drop 8 (blit (msg_buffer m) ?p bs) = take (unat (info_length m)) (drop 8 (msg_buffer m)) @ bs @ drop (?p + length bs) (msg_buffer m)"
    using p by (simp add: blit_def drop_take)
  moreover have "length (take (unat (info_length m)) (drop 8 (msg_buffer m))) = unat (info_length m)"
    using p by simp
  ultimately have "take (unat (info_length m) + length bs) (drop 8 (blit (msg_buffer m) ?p bs)) = body m @ bs"
    by (simp add: body_def)
  then show ?thesis
    using p u put_raw_fits [of m bs] by (simp add: writing_def buffer_ok_def size_defs body_def)
qed

lemma add_raw_body:
  assumes "writing m" and "unat (info_position m) + length bs < MAX_BODY_LENGTH"
  shows "\<exists>m'. add_raw bs m = Some m' \<and> writing m' \<and> body m' = body m @ bs \<and>
    info_position m' = info_position m + of_nat (length bs)"
  using put_raw_body [OF assms] assms(2) by (simp add: add_raw_def canAdd_small size_defs add.commute)

lemma get_raw_unread:
  assumes "reading m" and "unread m = bs @ rest"
  shows "\<exists>m'. get_raw (length bs) m = Some (Some bs, m') \<and> reading m' \<and> unread m' = rest \<and>
    info_length m' = info_length m \<and> info_overrun m' = info_overrun m"
proof -
  let ?p = "unat (info_position m)" and ?l = "unat (info_length m)"
  have r: "?p \<le> 8 + ?l" "8 + ?l < 24590" "length (msg_buffer m) = 24590"
    using assms(1) by (simp_all add: reading_def buffer_ok_def size_defs)
  have "length (unread m) = ?l + 8 - ?p" using r by (simp add: unread_def)
  then have n: "?p + length bs \<le> ?l + 8" using assms(2) r by simp
  have u: "unat (info_position m + of_nat (length bs)) = ?p + length bs"
    using n r by (simp add: unat_add16)
  have c: "fst (canRead (int (length bs)) m)"
    using n r by (simp add: canRead_iff size_defs)
  have "take (length bs) (drop ?p (msg_buffer m)) = take (length bs) (unread m)"
    using n by (simp add: unread_def drop_take min_def)
  then have b: "take (length bs) (drop ?p (msg_buffer m)) = bs" using assms(2) by simp
  have "drop (?p + length bs) (take (?l + 8) (msg_buffer m)) = drop (length bs) (unread m)"
    by (simp add: unread_def add.commute)
  then have "drop (?p + length bs) (take (?l + 8) (msg_buffer m)) = rest" using assms(2) by simp
  then show ?thesis using c b n r u
    by (simp add: get_raw_eq memread_def reading_def unread_def buffer_ok_def size_defs)
qed

section \<open>What is written is read back\<close>

datatype net_field = NByte u8 | N16 u16 | N32 u32 | NString "u8 list" | NPosition position

fun write_net :: "net_field \<Rightarrow> net_message \<Rightarrow> net_message option" where
  "write_net (NByte v) = addByte v"
| "write_net (N16 v) = add16 v"
| "write_net (N32 v) = add32 v"
| "write_net (NString s) = addString s"
| "write_net (NPosition p) = addPosition p"

text \<open>Reading a field of the same kind.\<close>

fun read_net :: "net_field \<Rightarrow> net_message \<Rightarrow> (net_field \<times> net_message) option" where
  "read_net (NByte _) m = map_option (\<lambda>(v, m). (NByte v, m)) (getByte m)"
| "read_net (N16 _) m = map_option (\<lambda>(v, m). (N16 v, m)) (get16 m)"
| "read_net (N32 _) m = map_option (\<lambda>(v, m). (N32 v, m)) (get32 m)"
| "read_net (NString _) m = map_option (\<lambda>(v, m). (NString v, m)) (getString 0 m)"
| "read_net (NPosition _) m = map_option (\<lambda>(v, m). (NPosition v, m)) (getPosition m)"

fun write_all :: "net_field list \<Rightarrow> net_message \<Rightarrow> net_message option" where
  "write_all [] m = Some m"
| "write_all (f # fs) m = Option.bind (write_net f m) (write_all fs)"

fun read_all :: "net_field list \<Rightarrow> net_message \<Rightarrow> (net_field list \<times> net_message) option" where
  "read_all [] m = Some ([], m)"
| "read_all (f # fs) m =
     Option.bind (read_net f m) (\<lambda>(v, m1). map_option (\<lambda>(vs, m2). (v # vs, m2)) (read_all fs m1))"

text \<open>The bytes of a field on the wire.\<close>

fun field_bytes :: "net_field \<Rightarrow> u8 list" where
  "field_bytes (NByte v) = [v]"
| "field_bytes (N16 v) = bytes16 v"
| "field_bytes (N32 v) = bytes32 v"
| "field_bytes (NString s) = bytes16 (of_nat (length s)) @ s"
| "field_bytes (NPosition (Position x y z)) = bytes16 x @ bytes16 y @ [z]"

fun field_ok :: "net_field \<Rightarrow> bool" where
  "field_ok (NString s) = (length s \<le> 8192)"
| "field_ok _ = True"

text \<open>An operation appends bytes to the body, and an operation consumes bytes.\<close>

definition appends :: "(net_message \<Rightarrow> net_message option) \<Rightarrow> u8 list \<Rightarrow> bool" where
  "appends f bs \<longleftrightarrow> (\<forall>m. writing m \<and> unat (info_position m) + length bs < MAX_BODY_LENGTH \<longrightarrow>
     (\<exists>m'. f m = Some m' \<and> writing m' \<and> body m' = body m @ bs \<and>
        info_position m' = info_position m + of_nat (length bs)))"

definition consumes :: "(net_message \<Rightarrow> ('b \<times> net_message) option) \<Rightarrow> u8 list \<Rightarrow> 'b \<Rightarrow> bool" where
  "consumes f bs v \<longleftrightarrow> (\<forall>m rest. reading m \<and> unread m = bs @ rest \<longrightarrow>
     (\<exists>m'. f m = Some (v, m') \<and> reading m' \<and> unread m' = rest \<and> info_overrun m' = info_overrun m))"

lemma appends_add_raw: "appends (add_raw bs) bs"
  using add_raw_body unfolding appends_def by blast

lemma appends_put_raw: "appends (put_raw bs) bs"
  using put_raw_body unfolding appends_def by blast

lemma appends_bind:
  assumes "appends f bs" and "appends g cs"
  shows "appends (\<lambda>m. Option.bind (f m) g) (bs @ cs)"
  unfolding appends_def
proof (intro allI impI)
  fix m :: net_message assume m: "writing m \<and> unat (info_position m) + length (bs @ cs) < MAX_BODY_LENGTH"
  then obtain m1 where m1: "f m = Some m1" "writing m1" "body m1 = body m @ bs"
    "info_position m1 = info_position m + of_nat (length bs)"
    using assms(1) unfolding appends_def by fastforce
  have "unat (info_position m1) = unat (info_position m) + length bs"
    using m unfolding m1(4) by (intro unat_add16) (simp add: size_defs)
  then obtain m2 where "g m1 = Some m2" "writing m2" "body m2 = body m1 @ cs"
    "info_position m2 = info_position m1 + of_nat (length cs)"
    using assms(2) m m1(2) unfolding appends_def by fastforce
  then show "\<exists>m'. Option.bind (f m) g = Some m' \<and> writing m' \<and> body m' = body m @ bs @ cs \<and>
      info_position m' = info_position m + of_nat (length (bs @ cs))"
    using m1 by simp
qed

lemma appends_addString:
  assumes "length s \<le> 8192"
  shows "appends (addString s) (bytes16 (of_nat (length s)) @ s)"
  using appends_bind [OF appends_add_raw [of "bytes16 (of_nat (length s))"] appends_put_raw [of s]] assms
  by (simp add: appends_def addString_def add16_def canAdd_string [OF assms] add.commute)

lemma appends_write_net: "field_ok f \<Longrightarrow> appends (write_net f) (field_bytes f)"
proof (cases f)
  case (NPosition p)
  show ?thesis
    unfolding NPosition using appends_bind [OF appends_add_raw [of "bytes16 (pos_x p)"]
        appends_bind [OF appends_add_raw [of "bytes16 (pos_y p)"] appends_add_raw [of "[pos_z p]"]]]
    by (cases p) (simp add: appends_def addPosition_def add16_def addByte_def)
qed (use appends_add_raw appends_addString in \<open>simp_all add: addByte_def add16_def add32_def\<close>)

lemma appends_write_all: "\<forall>f \<in> set fs. field_ok f \<Longrightarrow> appends (write_all fs) (concat (map field_bytes fs))"
proof (induction fs)
  case Nil
  then show ?case by (simp add: appends_def)
next
  case (Cons f fs)
  then show ?case
    using appends_bind [OF appends_write_net [of f], of "write_all fs"] by (simp add: appends_def)
qed

lemma consumes_raw: "length bs = n \<Longrightarrow> consumes (get_raw n) bs (Some bs)"
  using get_raw_unread unfolding consumes_def by blast

lemma consumes_map: "consumes f bs v \<Longrightarrow> consumes (\<lambda>m. map_option (\<lambda>(v, m). (h v, m)) (f m)) bs (h v)"
  by (fastforce simp: consumes_def)

lemma consumes_bind:
  assumes "consumes f bs v" and "consumes (g v) cs w"
  shows "consumes (\<lambda>m. Option.bind (f m) (\<lambda>(v, m). g v m)) (bs @ cs) w"
  using assms by (fastforce simp: consumes_def)

lemma consumes_getByte: "consumes getByte [b] b"
  using consumes_map [OF consumes_raw [of "[b]" 1], of "\<lambda>r. case r of Some [b] \<Rightarrow> b | _ \<Rightarrow> 0"]
  by (simp add: consumes_def getByte_def)

lemma consumes_get16: "consumes get16 (bytes16 w) w"
  using consumes_map [OF consumes_raw [of "bytes16 w" 2], of "\<lambda>r. case r of Some [a, b] \<Rightarrow> word16 a b | _ \<Rightarrow> 0"]
  by (simp add: consumes_def get16_def bytes16_def word16_bytes)

lemma consumes_get32: "consumes get32 (bytes32 w) w"
  using consumes_map [OF consumes_raw [of "bytes32 w" 4],
      of "\<lambda>r. case r of Some [a, b, c, d] \<Rightarrow> word32 a b c d | _ \<Rightarrow> 0"]
  by (simp add: consumes_def get32_def bytes32_def word32_bytes)

lemma consumes_getString:
  assumes "length s < 65536"
  shows "consumes (getString 0) (bytes16 (of_nat (length s)) @ s) s"
proof -
  have "unat (of_nat (length s) :: u16) = length s" using assms by (simp add: unat_of_nat)
  then have "consumes (\<lambda>m. map_option (\<lambda>(r, m). (case r of Some bs \<Rightarrow> bs | None \<Rightarrow> [], m))
      (get_raw (unat (of_nat (length s) :: u16)) m)) s s"
    using consumes_map [OF consumes_raw [OF refl, of s], of "\<lambda>r. case r of Some bs \<Rightarrow> bs | None \<Rightarrow> []"] by simp
  from consumes_bind [OF consumes_get16, where g = "\<lambda>n m. map_option (\<lambda>(r, m). (case r of Some bs \<Rightarrow> bs | None \<Rightarrow> [], m)) (get_raw (unat n) m)", OF this]
  show ?thesis by (simp add: consumes_def getString_def)
qed

lemma consumes_getPosition: "consumes getPosition (bytes16 x @ bytes16 y @ [z]) (Position x y z)"
  unfolding getPosition_def
  by (rule consumes_bind [where v = x, OF consumes_get16], rule consumes_bind [where v = y, OF consumes_get16],
      rule consumes_map [OF consumes_getByte])

lemma consumes_read_net: "field_ok f \<Longrightarrow> consumes (read_net f) (field_bytes f) f"
proof (cases f)
  case (NPosition p)
  then show ?thesis using consumes_map [OF consumes_getPosition, of NPosition] by (cases p) (simp add: consumes_def)
qed (use consumes_map [OF consumes_getByte, of NByte] consumes_map [OF consumes_get16, of N16]
    consumes_map [OF consumes_get32, of N32] consumes_map [OF consumes_getString, of _ NString]
    in \<open>simp_all add: consumes_def\<close>)

lemma consumes_read_all: "\<forall>f \<in> set fs. field_ok f \<Longrightarrow> consumes (read_all fs) (concat (map field_bytes fs)) fs"
proof (induction fs)
  case Nil
  then show ?case by (simp add: consumes_def)
next
  case (Cons f fs)
  then show ?case
    using consumes_bind [where g = "\<lambda>v m. map_option (\<lambda>(vs, m2). (v # vs, m2)) (read_all fs m)", OF consumes_read_net [of f]
        consumes_map [where h = "(#) f"]]
    by (simp add: consumes_def)
qed

lemma unread_from_start: "unread (m\<lparr>info_position := INITIAL_BUFFER_POSITION\<rparr>) = body m"
  by (simp add: unread_def body_def INITIAL_BUFFER_POSITION_def drop_take)

text \<open>Values written one after the other into a fresh message, as long as they fit, are read back
  from its start in the same order and without an overrun: bytes, 16 and 32 bit numbers,
  positions, and strings up to 8192 bytes.\<close>

theorem message_roundtrip:
  assumes "\<forall>f \<in> set fs. field_ok f" and "8 + length (concat (map field_bytes fs)) < MAX_BODY_LENGTH"
  shows "\<exists>m m'. write_all fs fresh_message = Some m \<and> body m = concat (map field_bytes fs) \<and>
    read_all fs (reset_message m\<lparr>info_length := info_length m\<rparr>) = Some (fs, m') \<and> \<not> info_overrun m'"
proof -
  have "unat (info_position fresh_message) = 8" by (simp add: fresh_message_def INITIAL_BUFFER_POSITION_def)
  then obtain m where m: "write_all fs fresh_message = Some m" "writing m" "body m = concat (map field_bytes fs)"
    using appends_write_all [OF assms(1)] assms(2) writing_fresh unfolding appends_def by fastforce
  let ?m = "reset_message m\<lparr>info_length := info_length m\<rparr>"
  have eq: "?m = m\<lparr>info_position := INITIAL_BUFFER_POSITION, info_overrun := False\<rparr>"
    by (simp add: reset_message_def)
  have "reading ?m" using m(2) by (simp add: eq reading_def writing_def buffer_ok_def size_defs)
  moreover have "unread ?m = concat (map field_bytes fs) @ []"
    using m(3) unread_from_start [of m] by (simp add: eq unread_def)
  ultimately obtain m' where "read_all fs ?m = Some (fs, m')" "info_overrun m' = info_overrun ?m"
    using consumes_read_all [OF assms(1)] unfolding consumes_def by blast
  then show ?thesis using m by (simp add: eq)
qed

lemma message_roundtrip_witness:
  "\<exists>m m'. write_all [NByte 3, NString [72, 105], NPosition (Position 100 200 7)] fresh_message = Some m \<and>
    read_all [NByte 3, NString [72, 105], NPosition (Position 100 200 7)] (reset_message m\<lparr>info_length := info_length m\<rparr>)
      = Some ([NByte 3, NString [72, 105], NPosition (Position 100 200 7)], m')"
  using message_roundtrip [of "[NByte 3, NString [72, 105], NPosition (Position 100 200 7)]"]
  by (fastforce simp: size_defs)

end
