(* ===== verification/Xtea.thy ===== *)
theory Xtea
  imports Prelude
begin

text \<open>
  The packet cipher, \<open>src/src/xtea.cpp\<close>. Memory from the data pointer on is a byte list; a
  loop that reads past its end is the value \<open>None\<close>. The round loop is outermost in the code and
  the block loop innermost, and the model keeps that order.
\<close>

section \<open>Key schedule\<close>

definition delta :: u32 where
  "delta = 0x9E3779B9"

text \<open>
  The loop of \<open>expand_key\<close>: \<open>n\<close> pairs of round keys are left to be written. The two indices are
  masked to two bits, so they stay inside the four words of the key.
\<close>

fun expand_loop :: "nat \<Rightarrow> u32 \<Rightarrow> u32 \<Rightarrow> u32 list \<Rightarrow> u32 list" where
  "expand_loop 0 sm next_sum k = []"
| "expand_loop (Suc n) sm next_sum k =
     (sm + k ! unat (sm AND 3)) #
     (next_sum + k ! unat (drop_bit 11 next_sum AND 3)) #
     expand_loop n next_sum (next_sum + delta) k"

definition expand_key :: "u32 list \<Rightarrow> u32 list" where
  "expand_key k = expand_loop 32 0 (0 + delta) k"

lemma length_expand_loop: "length (expand_loop n s t k) = 2 * n"
  by (induction n s t k rule: expand_loop.induct) simp_all

lemma length_expand_key [simp]: "length (expand_key k) = 64"
  by (simp add: expand_key_def length_expand_loop)

section \<open>One round on one block\<close>

definition mix :: "u32 \<Rightarrow> u32" where
  "mix v = (push_bit 4 v XOR drop_bit 5 v) + v"

fun enc_step :: "u32 \<Rightarrow> u32 \<Rightarrow> u32 \<times> u32 \<Rightarrow> u32 \<times> u32" where
  "enc_step k0 k1 (left, right) =
     (let left' = left + (mix right XOR k0);
          right' = right + (mix left' XOR k1)
      in (left', right'))"

fun dec_step :: "u32 \<Rightarrow> u32 \<Rightarrow> u32 \<times> u32 \<Rightarrow> u32 \<times> u32" where
  "dec_step k1 k0 (left, right) =
     (let right' = right - (mix left XOR k1);
          left' = left - (mix right' XOR k0)
      in (left', right'))"

lemma dec_enc_step [simp]: "dec_step k1 k0 (enc_step k0 k1 b) = b"
  by (cases b) (simp add: Let_def)

lemma enc_dec_step [simp]: "enc_step k0 k1 (dec_step k1 k0 b) = b"
  by (cases b) (simp add: Let_def)

section \<open>The block loop\<close>

text \<open>
  \<open>for (it = data, last = data + length; it < last; it += 8)\<close>: every block of 8 bytes is read as
  two little-endian words, transformed, and written back. A last block that starts before
  \<open>last\<close> and ends behind the memory is an access out of bounds.
\<close>

fun xtea_pass :: "(u32 \<times> u32 \<Rightarrow> u32 \<times> u32) \<Rightarrow> nat \<Rightarrow> u8 list \<Rightarrow> u8 list option" where
  "xtea_pass f n mem =
     (if n = 0 then Some mem
      else case mem of
        a0 # a1 # a2 # a3 # b0 # b1 # b2 # b3 # rest \<Rightarrow>
          (case f (word32 a0 a1 a2 a3, word32 b0 b1 b2 b3) of (left, right) \<Rightarrow>
             map_option (\<lambda>out. bytes32 left @ bytes32 right @ out) (xtea_pass f (n - 8) rest))
      | _ \<Rightarrow> None)"

declare xtea_pass.simps [simp del]

lemma xtea_pass_0 [simp]: "xtea_pass f 0 mem = Some mem"
  by (subst xtea_pass.simps) simp

lemma xtea_pass_block:
  "0 < n \<Longrightarrow> xtea_pass f n (a0 # a1 # a2 # a3 # b0 # b1 # b2 # b3 # rest) =
     (case f (word32 a0 a1 a2 a3, word32 b0 b1 b2 b3) of (left, right) \<Rightarrow>
        map_option (\<lambda>out. bytes32 left @ bytes32 right @ out) (xtea_pass f (n - 8) rest))"
  by (subst xtea_pass.simps) simp

text \<open>A list of at least eight bytes, cut after its first block.\<close>

lemma block_cases:
  assumes "8 \<le> length mem"
  obtains a0 a1 a2 a3 b0 b1 b2 b3 rest where "mem = a0 # a1 # a2 # a3 # b0 # b1 # b2 # b3 # rest"
  using assms by (auto simp: numeral_eq_Suc Suc_le_length_iff)

lemma xtea_pass_short: "0 < n \<Longrightarrow> length mem < 8 \<Longrightarrow> xtea_pass f n mem = None"
  by (subst xtea_pass.simps) (auto split: list.split)

lemma xtea_pass_unfold_block:
  "0 < n \<Longrightarrow> xtea_pass f n (bytes32 l @ bytes32 r @ rest) =
     (case f (l, r) of (l', r') \<Rightarrow>
        map_option (\<lambda>out. bytes32 l' @ bytes32 r' @ out) (xtea_pass f (n - 8) rest))"
  by (simp add: bytes32_def xtea_pass_block word32_bytes split: prod.split)

lemma block_split:
  assumes "8 \<le> length mem"
  obtains l r rest where "mem = bytes32 l @ bytes32 r @ rest" and "length mem = 8 + length rest"
proof -
  obtain a0 a1 a2 a3 b0 b1 b2 b3 rest where
    m: "mem = a0 # a1 # a2 # a3 # b0 # b1 # b2 # b3 # rest" using assms by (rule block_cases)
  show ?thesis
    by (rule that [of "word32 a0 a1 a2 a3" "word32 b0 b1 b2 b3" rest])
      (simp_all add: m bytes32_word)
qed

lemma xtea_pass_Some_iff: "(\<exists>c. xtea_pass f n mem = Some c) \<longleftrightarrow> 8 * ((n + 7) div 8) \<le> length mem"
proof (induction n arbitrary: mem rule: less_induct)
  case (less n)
  show ?case
  proof (cases "n = 0 \<or> length mem < 8")
    case True
    have "8 \<le> 8 * ((n + 7) div 8)" if "0 < n" using that by simp
    with True show ?thesis by (cases "n = 0") (auto simp: xtea_pass_short)
  next
    case False
    then have "8 \<le> length mem" by simp
    then obtain l r rest where m: "mem = bytes32 l @ bytes32 r @ rest" by (rule block_split)
    have "8 * ((n + 7) div 8) \<le> 8 + length rest \<longleftrightarrow> 8 * ((n - 8 + 7) div 8) \<le> length rest"
      using False by (cases "n \<le> 8") (auto simp: le_div_geq)
    with less.IH [of "n - 8" rest] False show ?thesis
      by (auto simp: m xtea_pass_unfold_block split: prod.split)
  qed
qed

lemma xtea_pass_frame:
  "xtea_pass f n mem = Some c \<Longrightarrow> n mod 8 = 0 \<Longrightarrow> length c = length mem \<and> drop n c = drop n mem"
proof (induction n arbitrary: mem c rule: less_induct)
  case (less n)
  show ?case
  proof (cases "n = 0")
    case True
    with less.prems show ?thesis by simp
  next
    case False
    then have "8 \<le> length mem" using less.prems by (metis not_le option.distinct(1) xtea_pass_short neq0_conv)
    then obtain l r rest where m: "mem = bytes32 l @ bytes32 r @ rest" by (rule block_split)
    obtain l' r' where f: "f (l, r) = (l', r')" by (cases "f (l, r)")
    from less.prems(1) False obtain out where
      o: "xtea_pass f (n - 8) rest = Some out" and c: "c = bytes32 l' @ bytes32 r' @ out"
      by (auto simp: m xtea_pass_unfold_block f)
    have n8: "8 \<le> n" "(n - 8) mod 8 = 0" using False less.prems(2) by presburger+
    with less.IH [OF _ o] False show ?thesis
      by (auto simp: m c)
  qed
qed

lemma xtea_pass_inverse:
  assumes inv: "\<And>b. g (f b) = b"
  shows "xtea_pass f n mem = Some c \<Longrightarrow> xtea_pass g n c = Some mem"
proof (induction n arbitrary: mem c rule: less_induct)
  case (less n)
  show ?case
  proof (cases "n = 0")
    case True
    with less.prems show ?thesis by simp
  next
    case False
    then have "8 \<le> length mem" using less.prems by (metis not_le option.distinct(1) xtea_pass_short neq0_conv)
    then obtain l r rest where m: "mem = bytes32 l @ bytes32 r @ rest" by (rule block_split)
    obtain l' r' where f: "f (l, r) = (l', r')" by (cases "f (l, r)")
    from less.prems False obtain out where
      o: "xtea_pass f (n - 8) rest = Some out" and c: "c = bytes32 l' @ bytes32 r' @ out"
      by (auto simp: m xtea_pass_unfold_block f)
    have "g (l', r') = (l, r)" using inv [of "(l, r)"] f by simp
    with less.IH [OF _ o] False show ?thesis by (simp add: m c xtea_pass_unfold_block)
  qed
qed

section \<open>Encryption and decryption\<close>

text \<open>
  The round loop. Round keys are consumed in pairs; \<open>decrypt\<close> walks the same array from its end,
  so it is given the reversed list. The arrays have 64 entries; a single left-over entry would be
  an access out of bounds.
\<close>

fun encrypt_rounds :: "u32 list \<Rightarrow> nat \<Rightarrow> u8 list \<Rightarrow> u8 list option" where
  "encrypt_rounds [] n mem = Some mem"
| "encrypt_rounds [k0] n mem = None"
| "encrypt_rounds (k0 # k1 # ks) n mem =
     (case xtea_pass (enc_step k0 k1) n mem of
        None \<Rightarrow> None | Some mem' \<Rightarrow> encrypt_rounds ks n mem')"

fun decrypt_rounds :: "u32 list \<Rightarrow> nat \<Rightarrow> u8 list \<Rightarrow> u8 list option" where
  "decrypt_rounds [] n mem = Some mem"
| "decrypt_rounds [k1] n mem = None"
| "decrypt_rounds (k1 # k0 # ks) n mem =
     (case xtea_pass (dec_step k1 k0) n mem of
        None \<Rightarrow> None | Some mem' \<Rightarrow> decrypt_rounds ks n mem')"

definition encrypt :: "u8 list \<Rightarrow> nat \<Rightarrow> u32 list \<Rightarrow> u8 list option" where
  "encrypt data n k = encrypt_rounds k n data"

definition decrypt :: "u8 list \<Rightarrow> nat \<Rightarrow> u32 list \<Rightarrow> u8 list option" where
  "decrypt data n k = decrypt_rounds (rev k) n data"

lemma encrypt_rounds_frame:
  "encrypt_rounds ks n mem = Some c \<Longrightarrow> n mod 8 = 0 \<Longrightarrow> length c = length mem \<and> drop n c = drop n mem"
  by (induction ks n mem rule: encrypt_rounds.induct)
    (auto split: option.splits dest: xtea_pass_frame)

lemma encrypt_rounds_total:
  "even (length ks) \<Longrightarrow> n mod 8 = 0 \<Longrightarrow> n \<le> length mem \<Longrightarrow> \<exists>c. encrypt_rounds ks n mem = Some c"
proof (induction ks n mem rule: encrypt_rounds.induct)
  case (3 k0 k1 ks n mem)
  have "8 * ((n + 7) div 8) \<le> length mem" using "3.prems" by auto
  then obtain m where m: "xtea_pass (enc_step k0 k1) n mem = Some m" using xtea_pass_Some_iff by blast
  with "3.prems" "3.IH" [OF m] show ?case by (auto dest: xtea_pass_frame)
qed simp_all

lemma decrypt_rounds_append:
  "even (length ks) \<Longrightarrow> decrypt_rounds (ks @ ks') n mem =
     (case decrypt_rounds ks n mem of None \<Rightarrow> None | Some m \<Rightarrow> decrypt_rounds ks' n m)"
  by (induction ks n mem rule: decrypt_rounds.induct) (auto split: option.splits)

lemma decrypt_encrypt_rounds:
  "even (length ks) \<Longrightarrow> encrypt_rounds ks n mem = Some c \<Longrightarrow> decrypt_rounds (rev ks) n c = Some mem"
proof (induction ks n mem rule: encrypt_rounds.induct)
  case (3 k0 k1 ks n mem)
  then obtain m where m: "xtea_pass (enc_step k0 k1) n mem = Some m"
    and e: "encrypt_rounds ks n m = Some c" by (auto split: option.splits)
  have "decrypt_rounds (rev ks) n c = Some m" using 3 m e by simp
  moreover have "xtea_pass (dec_step k1 k0) n m = Some mem"
    by (rule xtea_pass_inverse [OF _ m]) simp
  ultimately show ?case using "3.prems"(1) by (simp add: decrypt_rounds_append)
qed simp_all

section \<open>Block-wise reference\<close>

text \<open>
  The textbook cipher encrypts one block after the other, each through all its rounds. The code
  runs each round over the whole buffer first.
\<close>

fun encrypt_block :: "u32 list \<Rightarrow> u32 \<times> u32 \<Rightarrow> u32 \<times> u32" where
  "encrypt_block (k0 # k1 # ks) b = encrypt_block ks (enc_step k0 k1 b)"
| "encrypt_block _ b = b"

lemma xtea_pass_compose:
  "xtea_pass f n mem = Some m \<Longrightarrow> xtea_pass g n m = xtea_pass (\<lambda>b. g (f b)) n mem"
proof (induction n arbitrary: mem m rule: less_induct)
  case (less n)
  show ?case
  proof (cases "n = 0")
    case True
    with less.prems show ?thesis by simp
  next
    case False
    then have "8 \<le> length mem" using less.prems by (metis not_le option.distinct(1) xtea_pass_short neq0_conv)
    then obtain l r rest where mm: "mem = bytes32 l @ bytes32 r @ rest" by (rule block_split)
    obtain l' r' where f: "f (l, r) = (l', r')" by (cases "f (l, r)")
    from less.prems False obtain out where
      o: "xtea_pass f (n - 8) rest = Some out" and c: "m = bytes32 l' @ bytes32 r' @ out"
      by (auto simp: mm xtea_pass_unfold_block f)
    with less.IH [OF _ o] False show ?thesis
      by (simp add: mm c xtea_pass_unfold_block f)
  qed
qed

lemma xtea_pass_id: "8 * ((n + 7) div 8) \<le> length mem \<Longrightarrow> xtea_pass (\<lambda>b. b) n mem = Some mem"
  using xtea_pass_Some_iff [of "\<lambda>b. b" n mem] xtea_pass_compose [of "\<lambda>b. b" n mem _ "\<lambda>b. b"]
    xtea_pass_inverse [of "\<lambda>b. b" "\<lambda>b. b" n mem] by force

lemma encrypt_block_Cons: "encrypt_block (k0 # k1 # ks) = (\<lambda>b. encrypt_block ks (enc_step k0 k1 b))"
  by (rule ext) simp

lemma encrypt_block_Nil: "encrypt_block [] = (\<lambda>b. b)"
  by (rule ext) simp

lemma encrypt_rounds_blockwise:
  "even (length ks) \<Longrightarrow> 8 * ((n + 7) div 8) \<le> length mem \<Longrightarrow>
     encrypt_rounds ks n mem = xtea_pass (encrypt_block ks) n mem"
proof (induction ks n mem rule: encrypt_rounds.induct)
  case (3 k0 k1 ks n mem)
  obtain m where m: "xtea_pass (enc_step k0 k1) n mem = Some m"
    using "3.prems"(2) xtea_pass_Some_iff by blast
  have "\<exists>c. xtea_pass (encrypt_block (k0 # k1 # ks)) n mem = Some c"
    using "3.prems" by (simp only: xtea_pass_Some_iff)
  with xtea_pass_compose [OF m, of "encrypt_block ks"]
  have "\<exists>c. xtea_pass (encrypt_block ks) n m = Some c" by (simp add: encrypt_block_Cons)
  then have "8 * ((n + 7) div 8) \<le> length m" by (simp only: xtea_pass_Some_iff)
  with "3.prems" "3.IH" [OF m] m xtea_pass_compose [OF m, of "encrypt_block ks"]
  show ?case by (simp add: encrypt_block_Cons)
qed (simp_all add: xtea_pass_id encrypt_block_Nil)

text \<open>Bytes behind the processed part do not matter.\<close>

lemma xtea_pass_append:
  "length xs = n \<Longrightarrow> n mod 8 = 0 \<Longrightarrow> xtea_pass f n (xs @ ys) = map_option (\<lambda>c. c @ ys) (xtea_pass f n xs)"
proof (induction n arbitrary: xs rule: less_induct)
  case (less n)
  show ?case
  proof (cases "n = 0")
    case False
    then have "8 \<le> n" using less.prems(2) by presburger
    then obtain l r rest where m: "xs = bytes32 l @ bytes32 r @ rest" using less.prems(1) block_split by metis
    have "(n - 8) mod 8 = 0" using \<open>8 \<le> n\<close> less.prems(2) by presburger
    then have "xtea_pass f (n - 8) (rest @ ys) = map_option (\<lambda>c. c @ ys) (xtea_pass f (n - 8) rest)"
      using less.IH [of "n - 8" rest] less.prems(1) \<open>8 \<le> n\<close> by (simp add: m)
    then show ?thesis using False
      by (simp add: m xtea_pass_unfold_block option.map_comp comp_def split: prod.split)
  qed (use less.prems in simp)
qed

lemma encrypt_rounds_append:
  "length xs = n \<Longrightarrow> n mod 8 = 0 \<Longrightarrow>
     encrypt_rounds ks n (xs @ ys) = map_option (\<lambda>c. c @ ys) (encrypt_rounds ks n xs)"
proof (induction ks n xs rule: encrypt_rounds.induct)
  case (3 k0 k1 ks n xs)
  then show ?case
    using xtea_pass_frame [of "enc_step k0 k1" n xs] by (auto simp: xtea_pass_append split: option.splits)
qed simp_all

lemma decrypt_rounds_append_mem:
  "length xs = n \<Longrightarrow> n mod 8 = 0 \<Longrightarrow>
     decrypt_rounds ks n (xs @ ys) = map_option (\<lambda>c. c @ ys) (decrypt_rounds ks n xs)"
proof (induction ks n xs rule: decrypt_rounds.induct)
  case (3 k0 k1 ks n xs)
  then show ?case
    using xtea_pass_frame [of "dec_step k0 k1" n xs] by (auto simp: xtea_pass_append split: option.splits)
qed simp_all

lemma encrypt_then_decrypt:
  assumes "length xs = n" "n mod 8 = 0" "even (length ks)"
  shows "\<exists>c. (\<forall>ys. encrypt (xs @ ys) n ks = Some (c @ ys) \<and> decrypt (c @ ys) n ks = Some (xs @ ys)) \<and>
    length c = n"
proof -
  obtain c where c: "encrypt_rounds ks n xs = Some c"
    using encrypt_rounds_total [OF assms(3,2)] assms(1) by auto
  have l: "length c = n" using encrypt_rounds_frame [OF c assms(2)] assms(1) by simp
  then show ?thesis
    using c decrypt_encrypt_rounds [OF assms(3) c] assms(1,2)
    by (intro exI [of _ c]) (simp add: encrypt_def decrypt_def encrypt_rounds_append decrypt_rounds_append_mem)
qed

section \<open>The cipher on a buffer\<close>

text \<open>C39: with the schedule of any key and a length that is a multiple of eight and within the buffer,
  encryption runs, keeps the buffer's length and everything behind the encrypted part, and
  decryption gives the original buffer back.\<close>

theorem xtea_roundtrip:
  assumes "n mod 8 = 0" and "n \<le> length data"
  shows "\<exists>c. encrypt data n (expand_key k) = Some c \<and> length c = length data \<and>
    drop n c = drop n data \<and> decrypt c n (expand_key k) = Some data"
proof -
  have e: "even (length (expand_key k))" by simp
  from encrypt_rounds_total [OF e assms] obtain c where c: "encrypt_rounds (expand_key k) n data = Some c" ..
  then show ?thesis
    using encrypt_rounds_frame [OF c assms(1)] decrypt_encrypt_rounds [OF e c]
    by (simp add: encrypt_def decrypt_def)
qed

lemma xtea_roundtrip_witness:
  "\<exists>c. encrypt [1, 2, 3, 4, 5, 6, 7, 8, 9] 8 (expand_key [11, 12, 13, 14]) = Some c \<and> length c = 9 \<and>
    decrypt c 8 (expand_key [11, 12, 13, 14]) = Some [1, 2, 3, 4, 5, 6, 7, 8, 9]"
  using xtea_roundtrip [of 8 "[1, 2, 3, 4, 5, 6, 7, 8, 9]" "[11, 12, 13, 14]"] by auto

text \<open>The loop nest of the code, rounds outside and blocks inside, computes the textbook cipher:
  every block of eight bytes goes through all 32 rounds on its own. It reads past the buffer
  exactly when the last block, started inside the length, ends behind the buffer.\<close>

theorem encrypt_is_blockwise:
  "encrypt data n (expand_key k) =
     (if 8 * ((n + 7) div 8) \<le> length data then xtea_pass (encrypt_block (expand_key k)) n data else None)"
proof (cases "8 * ((n + 7) div 8) \<le> length data")
  case True
  then show ?thesis using encrypt_rounds_blockwise [of "expand_key k" n data] by (simp add: encrypt_def)
next
  case False
  have "2 \<le> length (expand_key k)" by simp
  then obtain k0 k1 ks where "expand_key k = k0 # k1 # ks"
    by (metis Suc_le_length_iff numeral_2_eq_2)
  moreover have "xtea_pass (enc_step k0 k1) n data = None"
    using False xtea_pass_Some_iff [of "enc_step k0 k1" n data] by auto
  ultimately show ?thesis using False by (simp add: encrypt_def)
qed

end
