(* ===== verification/Protocol.thy ===== *)
theory Protocol
  imports NetworkMessage Xtea
begin

text \<open>
  Framing of messages: the Adler checksum of \<open>src/src/tools.cpp\<close>, output messages
  (\<open>outputmessage.h\<close>), and the send and receive paths of \<open>protocol.cpp\<close>. An access outside a buffer
  and a failed assertion are \<open>None\<close>.
\<close>

section \<open>Checksum\<close>

definition adler :: u32 where "adler = 65521"

fun adler_chunk :: "u8 list \<Rightarrow> u32 \<Rightarrow> u32 \<Rightarrow> u32 \<times> u32" where
  "adler_chunk [] a b = (a, b)"
| "adler_chunk (x # data) a b = (let a' = a + ucast x; b' = b + a' in adler_chunk data a' b')"

function adler_loop :: "u8 list \<Rightarrow> u32 \<Rightarrow> u32 \<Rightarrow> u32 \<times> u32" where
  "adler_loop data a b =
     (if data = [] then (a, b)
      else let tmp = (if length data > 5552 then 5552 else length data)
           in case adler_chunk (take tmp data) a b of
                (a', b') \<Rightarrow> adler_loop (drop tmp data) (a' mod adler) (b' mod adler))"
  by pat_completeness auto
termination by (relation "measure (\<lambda>(data, a, b). length data)") auto

declare adler_loop.simps [simp del]

definition adlerChecksum :: "u8 list \<Rightarrow> u32" where
  "adlerChecksum data =
     (if length data > NETWORKMESSAGE_MAXSIZE then 0
      else case adler_loop data 1 0 of (a, b) \<Rightarrow> push_bit 16 b OR a)"

text \<open>The checksum by its definition: two sums modulo 65521.\<close>

fun adler_sums :: "u8 list \<Rightarrow> nat \<Rightarrow> nat \<Rightarrow> nat \<times> nat" where
  "adler_sums [] a b = (a, b)"
| "adler_sums (x # xs) a b =
     adler_sums xs ((a + unat x) mod 65521) ((b + (a + unat x)) mod 65521)"

fun plain_sums :: "u8 list \<Rightarrow> nat \<Rightarrow> nat \<Rightarrow> nat \<times> nat" where
  "plain_sums [] a b = (a, b)"
| "plain_sums (x # xs) a b = plain_sums xs (a + unat x) (b + (a + unat x))"

lemma unat_byte_le: "unat (x :: u8) \<le> 255"
  using unsigned_less [of x, where 'a = nat] by simp

text \<open>The 32-bit sums of a chunk do not wrap around: 5552 is the largest length for which that holds.\<close>

lemma adler_chunk_plain:
  "2 * unat b + 2 * length xs * unat a + 255 * length xs * (length xs + 1) < 2 ^ 33 \<Longrightarrow>
   unat a + 255 * length xs < 2 ^ 32 \<Longrightarrow>
     (case adler_chunk xs a b of (a', b') \<Rightarrow> (unat a', unat b')) = plain_sums xs (unat a) (unat b)"
proof (induction xs arbitrary: a b)
  case (Cons x xs)
  let ?n = "length xs" and ?a = "a + ucast x :: u32"
  have x: "unat (ucast x :: u32) = unat x" "unat x \<le> 255"
    using unat_byte_le [of x] by (simp_all add: unsigned_ucast_eq take_bit_nat_eq_self)
  have ua: "unat ?a = unat a + unat x" using Cons.prems(2) x by (simp add: unat_word_ariths)
  have bound: "2 * (unat b + (unat a + unat x)) + 2 * ?n * (unat a + unat x) + 255 * ?n * (?n + 1) < 2 ^ 33"
  proof -
    have "2 * (unat x * (?n + 1)) \<le> 2 * (255 * (?n + 1))" using x(2) by (intro mult_le_mono) simp_all
    then show ?thesis using Cons.prems(1) by (simp add: algebra_simps)
  qed
  then have ub: "unat (b + ?a) = unat b + (unat a + unat x)"
    using ua by (simp add: unat_word_ariths)
  have h: "2 * unat (b + ?a) + 2 * ?n * unat ?a + 255 * ?n * (?n + 1) < 2 ^ 33" "unat ?a + 255 * ?n < 2 ^ 32"
    using bound Cons.prems(2) x(2) unfolding ua ub by simp_all
  show ?case using Cons.IH [OF h] by (simp add: Let_def ua ub)
qed simp

lemma plain_sums_mod:
  "a mod 65521 = a' mod 65521 \<Longrightarrow> b mod 65521 = b' mod 65521 \<Longrightarrow>
   (case plain_sums xs a b of (p, q) \<Rightarrow> (p mod 65521, q mod 65521)) =
   (case adler_sums xs a' b' of (p, q) \<Rightarrow> (p mod 65521, q mod (65521::nat)))"
proof (induction xs arbitrary: a b a' b')
  case (Cons x xs)
  have "(a + unat x) mod 65521 = (a' + unat x) mod 65521 mod 65521"
    "(b + (a + unat x)) mod 65521 = (b' + (a' + unat x)) mod 65521 mod 65521"
    unfolding mod_mod_trivial by (intro mod_add_cong Cons.prems refl)+
  from Cons.IH [OF this] show ?case by simp
qed simp

lemma adler_sums_bound: "a < 65521 \<Longrightarrow> b < 65521 \<Longrightarrow> fst (adler_sums xs a b) < 65521 \<and> snd (adler_sums xs a b) < 65521"
  by (induction xs arbitrary: a b) simp_all

lemma adler_sums_append: "adler_sums (xs @ ys) a b = (case adler_sums xs a b of (a', b') \<Rightarrow> adler_sums ys a' b')"
  by (induction xs arbitrary: a b) simp_all

lemma adler_chunk_sums:
  assumes "unat a < 65521" "unat b < 65521" "length xs \<le> 5552"
  shows "(case adler_chunk xs a b of (a', b') \<Rightarrow> (unat (a' mod adler), unat (b' mod adler))) =
    adler_sums xs (unat a) (unat b)"
proof -
  let ?n = "length xs"
  have "?n * unat a \<le> 5552 * 65520" "?n * (?n + 1) \<le> 5552 * 5553"
    using mult_le_mono [of ?n 5552 "unat a" 65520] mult_le_mono [of ?n 5552 "?n + 1" 5553] assms by simp_all
  then have "(case adler_chunk xs a b of (a', b') \<Rightarrow> (unat a', unat b')) = plain_sums xs (unat a) (unat b)"
    using assms by (intro adler_chunk_plain) (simp_all add: algebra_simps)
  with plain_sums_mod [of "unat a" "unat a" "unat b" "unat b" xs] adler_sums_bound [OF assms(1,2), of xs]
  show ?thesis
    by (simp add: adler_def unat_mod split: prod.splits)
qed

lemma adler_loop_sums:
  "unat a < 65521 \<Longrightarrow> unat b < 65521 \<Longrightarrow>
     (case adler_loop data a b of (a', b') \<Rightarrow> (unat a', unat b')) = adler_sums data (unat a) (unat b)"
proof (induction data a b rule: adler_loop.induct)
  case (1 data a b)
  show ?case
  proof (cases "data = []")
    case False
    let ?tmp = "if length data > 5552 then 5552 else length data"
    obtain a' b' where c: "adler_chunk (take ?tmp data) a b = (a', b')" by force
    have s: "(unat (a' mod adler), unat (b' mod adler)) = adler_sums (take ?tmp data) (unat a) (unat b)"
      using adler_chunk_sums [of a b "take ?tmp data"] 1 c by simp
    have "unat (a' mod adler) < 65521" "unat (b' mod adler) < 65521"
      by (simp_all add: adler_def unat_mod)
    from "1.IH" [OF False refl c [symmetric] this]
    have "(case adler_loop data a b of (a', b') \<Rightarrow> (unat a', unat b')) =
        adler_sums (drop ?tmp data) (unat (a' mod adler)) (unat (b' mod adler))"
      using False c by (subst adler_loop.simps) (simp add: Let_def)
    then show ?thesis
      using adler_sums_append [of "take ?tmp data" "drop ?tmp data" "unat a" "unat b"] s [symmetric] by simp
  qed (simp add: adler_loop.simps)
qed

text \<open>The checksum, computed with 32-bit sums that are only reduced every 5552 bytes, is the Adler-32
  value of its input; inputs longer than a message give zero.\<close>

theorem adlerChecksum_is_adler32:
  "unat (adlerChecksum data) =
     (if length data > NETWORKMESSAGE_MAXSIZE then 0
      else snd (adler_sums data 1 0) * 65536 + fst (adler_sums data 1 0))"
proof -
  obtain a b where ab: "adler_loop data 1 0 = (a, b)" by force
  have s: "(unat a, unat b) = adler_sums data 1 0"
    using adler_loop_sums [of 1 0 data] ab by simp
  then have ab': "unat a = fst (adler_sums data 1 0)" "unat b = snd (adler_sums data 1 0)"
    by (metis fst_conv, metis snd_conv)
  have lt: "unat a < 65521" "unat b < 65521"
    unfolding ab' using adler_sums_bound [of 1 0 data] by simp_all
  have "push_bit 16 b OR a = push_bit 16 b + a"
  proof (rule disjunctive_add [symmetric])
    fix n
    show "\<not> bit (push_bit 16 b) n \<or> \<not> bit a n"
    proof (cases "n < 16")
      case False
      have "a < 2 ^ 16" using lt(1) by (simp add: word_less_nat_alt)
      then have "take_bit 16 a = a"
        by (simp add: take_bit_eq_mod word_less_nat_alt word_unat_eq_iff unat_mod)
      then have "\<not> bit a n" using False by (metis bit_take_bit_iff not_less)
      then show ?thesis by simp
    qed (simp add: bit_simps)
  qed
  moreover have "unat (push_bit 16 b) = unat b * 65536"
    using lt(2) by (simp add: push_bit_eq_mult unat_word_ariths)
  ultimately have "unat (push_bit 16 b OR a) = unat b * 65536 + unat a"
    using lt by (simp add: unat_word_ariths)
  then show ?thesis using ab ab' by (simp add: adlerChecksum_def)
qed

section \<open>Output messages\<close>

record out_message = net_message +
  outputBufferStart :: u16

definition getOutputMessage :: out_message where
  "getOutputMessage = \<lparr>info_length = 0, info_position = INITIAL_BUFFER_POSITION, info_overrun = False,
     msg_buffer = replicate NETWORKMESSAGE_MAXSIZE 0, outputBufferStart = INITIAL_BUFFER_POSITION\<rparr>"

text \<open>A header of the given bytes; the length grows by the header's size.\<close>

definition add_header :: "u8 list \<Rightarrow> out_message \<Rightarrow> out_message option" where
  "add_header bs m =
     (if \<not> unat (outputBufferStart m) \<ge> length bs then None
      else let start = outputBufferStart m - of_nat (length bs) in
        map_option (\<lambda>buf. m\<lparr>outputBufferStart := start, msg_buffer := buf,
                           info_length := info_length m + of_nat (length bs)\<rparr>)
          (memwrite (msg_buffer m) (unat start) bs))"

definition writeMessageLength :: "out_message \<Rightarrow> out_message option" where
  "writeMessageLength m = add_header (bytes16 (info_length m)) m"

definition addCryptoHeader :: "bool \<Rightarrow> out_message \<Rightarrow> out_message option" where
  "addCryptoHeader addChecksum m =
     Option.bind
       (if addChecksum then
          Option.bind (memread (msg_buffer m) (unat (outputBufferStart m)) (unat (info_length m)))
            (\<lambda>bs. add_header (bytes32 (adlerChecksum bs)) m)
        else Some m)
       writeMessageLength"

text \<open>\<open>append\<close> copies the body of another message and does not check for room.\<close>

definition append_message :: "'a net_message_scheme \<Rightarrow> out_message \<Rightarrow> out_message option" where
  "append_message msg m =
     (let msgLen = info_length msg in
      Option.bind (memread (msg_buffer msg) 8 (unat msgLen)) (\<lambda>bs.
        map_option (\<lambda>buf. m\<lparr>msg_buffer := buf, info_length := info_length m + msgLen,
                           info_position := info_position m + msgLen\<rparr>)
          (memwrite (msg_buffer m) (unat (info_position m)) bs)))"

text \<open>The bytes that are given to the socket.\<close>

definition wire_bytes :: "out_message \<Rightarrow> u8 list option" where
  "wire_bytes m = memread (msg_buffer m) (unat (outputBufferStart m)) (unat (info_length m))"

section \<open>Sending\<close>

definition XTEA_encrypt :: "u32 list \<Rightarrow> out_message \<Rightarrow> out_message option" where
  "XTEA_encrypt key msg =
     (let paddingBytes = ucast (info_length msg) mod 8 in
      Option.bind (if paddingBytes \<noteq> 0 then addPaddingBytes (8 - paddingBytes) msg else Some msg)
        (\<lambda>msg1. let start = unat (outputBufferStart msg1) in
           map_option (\<lambda>c. msg1\<lparr>msg_buffer := take start (msg_buffer msg1) @ c\<rparr>)
             (encrypt (drop start (msg_buffer msg1)) (unat (info_length msg1)) key)))"

record protocol_flags =
  encryptionEnabled :: bool
  checksumEnabled :: bool
  rawMessages :: bool
  protocol_key :: "u32 list"

definition onSendMessage :: "protocol_flags \<Rightarrow> out_message \<Rightarrow> out_message option" where
  "onSendMessage p msg =
     (if \<not> rawMessages p then
        Option.bind (writeMessageLength msg) (\<lambda>msg1.
          if encryptionEnabled p then
            Option.bind (XTEA_encrypt (protocol_key p) msg1) (addCryptoHeader (checksumEnabled p))
          else Some msg1)
      else Some msg)"

section \<open>Receiving\<close>

text \<open>\<open>((length - 6) & 7) != 0\<close> is computed in signed integers; a negative length that passes does not exist.\<close>

definition XTEA_decrypt :: "u32 list \<Rightarrow> net_message \<Rightarrow> (bool \<times> net_message) option" where
  "XTEA_decrypt key msg =
     (if (uint (info_length msg) - 6) AND 7 \<noteq> 0 then Some (False, msg)
      else let pos = unat (info_position msg) in
        Option.bind (decrypt (drop pos (msg_buffer msg)) (nat (uint (info_length msg) - 6)) key) (\<lambda>c.
          Option.bind (get16 (msg\<lparr>msg_buffer := take pos (msg_buffer msg) @ c\<rparr>)) (\<lambda>(innerLength, msg1).
            if unat innerLength + 8 > unat (info_length msg1) then Some (False, msg1)
            else Some (True, msg1\<lparr>info_length := innerLength\<rparr>))))"

text \<open>\<open>onRecvMessage\<close>: the message handed to the protocol's packet parser, if any.\<close>

definition onRecvMessage :: "protocol_flags \<Rightarrow> net_message \<Rightarrow> (net_message option \<times> net_message) option" where
  "onRecvMessage p msg =
     (if encryptionEnabled p then
        map_option (\<lambda>(ok, msg'). (if ok then Some msg' else None, msg')) (XTEA_decrypt (protocol_key p) msg)
      else Some (Some msg, msg))"

text \<open>The size check of \<open>Connection::parseHeader\<close>, and what the asynchronous read of the body leaves in
  the connection's message.\<close>

definition header_size_ok :: "u16 \<Rightarrow> bool" where
  "header_size_ok sz \<longleftrightarrow> \<not> (sz = 0 \<or> unat sz \<ge> NETWORKMESSAGE_MAXSIZE - 16)"

definition receive_body :: "u16 \<Rightarrow> u8 list \<Rightarrow> net_message \<Rightarrow> net_message option" where
  "receive_body sz bs msg =
     map_option (\<lambda>buf. msg\<lparr>info_length := sz + of_nat HEADER_LENGTH, info_position := 2, msg_buffer := buf\<rparr>)
       (memwrite (msg_buffer msg) HEADER_LENGTH bs)"

text \<open>The checksum part of \<open>Connection::parsePacket\<close>; the flag says whether it matched.\<close>

definition check_checksum :: "net_message \<Rightarrow> (bool \<times> net_message) option" where
  "check_checksum msg =
     (let len = uint (info_length msg) - uint (info_position msg) - int CHECKSUM_LENGTH in
      Option.bind
        (if len > 0 then map_option adlerChecksum
             (memread (msg_buffer msg) (unat (info_position msg) + CHECKSUM_LENGTH) (nat len))
         else Some 0)
        (\<lambda>checksum. map_option (\<lambda>(recvChecksum, msg1).
           if recvChecksum \<noteq> checksum then (False, skipBytes (- of_nat CHECKSUM_LENGTH) msg1) else (True, msg1))
           (get32 msg)))"

section \<open>Buffers of a protocol\<close>

text \<open>
  \<open>getOutputBuffer\<close>: the current buffer of a protocol, the messages it passed to its connection, in
  order. A message is dropped when the connection has expired.
\<close>

record protocol_out =
  outputBuffer :: "out_message option"
  sent_messages :: "out_message list"

definition protocol_send :: "bool \<Rightarrow> out_message \<Rightarrow> protocol_out \<Rightarrow> protocol_out" where
  "protocol_send connected msg p =
     (if connected then p\<lparr>sent_messages := sent_messages p @ [msg]\<rparr> else p)"

definition getOutputBuffer :: "bool \<Rightarrow> int \<Rightarrow> protocol_out \<Rightarrow> out_message \<times> protocol_out" where
  "getOutputBuffer connected sz p =
     (case outputBuffer p of
        None \<Rightarrow> (getOutputMessage, p\<lparr>outputBuffer := Some getOutputMessage\<rparr>)
      | Some buf \<Rightarrow>
          if uint (info_length buf) + sz > int MAX_PROTOCOL_BODY_LENGTH then
            (getOutputMessage, (protocol_send connected buf p)\<lparr>outputBuffer := Some getOutputMessage\<rparr>)
          else (buf, p))"

section \<open>From a body to the wire\<close>

lemma add_header_fits:
  assumes "length bs \<le> unat (outputBufferStart m)" "unat (outputBufferStart m) \<le> 8" "buffer_ok m"
  shows "\<exists>m'. add_header bs m = Some m' \<and> unat (outputBufferStart m') = unat (outputBufferStart m) - length bs \<and>
    msg_buffer m' = blit (msg_buffer m) (unat (outputBufferStart m) - length bs) bs \<and> buffer_ok m' \<and>
    info_length m' = info_length m + of_nat (length bs) \<and> info_position m' = info_position m"
proof -
  have "unat (outputBufferStart m - of_nat (length bs)) = unat (outputBufferStart m) - length bs"
    using assms(1,2) by (simp add: unat_sub word_le_nat_alt unat_of_nat)
  then show ?thesis using assms by (simp add: add_header_def memwrite_def buffer_ok_def size_defs Let_def)
qed

text \<open>An output message from its start: where it starts, its length, and the memory from there on.\<close>

definition out_at :: "nat \<Rightarrow> nat \<Rightarrow> u8 list \<Rightarrow> out_message \<Rightarrow> bool" where
  "out_at s n view m \<longleftrightarrow> buffer_ok m \<and> unat (outputBufferStart m) = s \<and> unat (info_length m) = n \<and>
     drop s (msg_buffer m) = view"

lemma drop_blit_before: "k \<le> off \<Longrightarrow> off \<le> length buf \<Longrightarrow> drop k (blit buf off xs) = blit (drop k buf) (off - k) xs"
  by (simp add: blit_def drop_take)

lemma header_step:
  assumes "out_at s n view m" "length bs \<le> s" "s \<le> 8" "n + length bs < 65536"
  shows "\<exists>m'. add_header bs m = Some m' \<and> out_at (s - length bs) (n + length bs) (bs @ view) m' \<and>
    info_position m' = info_position m"
proof -
  from add_header_fits [of bs m] assms obtain m' where m': "add_header bs m = Some m'"
    "unat (outputBufferStart m') = s - length bs" "msg_buffer m' = blit (msg_buffer m) (s - length bs) bs"
    "buffer_ok m'" "info_length m' = info_length m + of_nat (length bs)" "info_position m' = info_position m"
    unfolding out_at_def by blast
  have "unat (info_length m') = n + length bs"
    using assms(1,4) unfolding m'(5) by (simp add: out_at_def unat_add16)
  moreover have "drop (s - length bs) (msg_buffer m') = bs @ view"
    using assms unfolding m'(3) by (subst drop_blit) (auto simp: out_at_def buffer_ok_def size_defs)
  ultimately show ?thesis using m' by (simp add: out_at_def)
qed

lemma padding_count:
  fixes l :: u16
  shows "(ucast l mod 8 :: u64) = 0 \<longleftrightarrow> unat l mod 8 = 0" and "8 - (ucast l mod 8 :: u64) = of_nat (8 - unat l mod 8)"
proof -
  have u: "unat (ucast l mod 8 :: u64) = unat l mod 8" by (simp add: unat_mod unat_pos64)
  then show "(ucast l mod 8 :: u64) = 0 \<longleftrightarrow> unat l mod 8 = 0" by (simp add: unat_eq_0 [symmetric])
  have "unat l mod 8 \<le> 8" by (simp add: less_imp_le)
  then have "(of_nat (8 - unat l mod 8) :: u64) = 8 - of_nat (unat l mod 8)" by (simp add: of_nat_diff)
  also have "of_nat (unat l mod 8) = (ucast l mod 8 :: u64)" by (simp add: u [symmetric])
  finally show "8 - (ucast l mod 8 :: u64) = of_nat (8 - unat l mod 8)" by simp
qed

lemma padding_step:
  assumes "out_at 6 (2 + n) (hdr @ bs @ post) m" "length hdr = 2" "length bs = n"
    and "unat (info_position m) = 8 + n" "n \<le> MAX_PROTOCOL_BODY_LENGTH"
  shows "\<exists>pad post' msg1. (if (2 + n) mod 8 \<noteq> 0 then addPaddingBytes (of_nat (8 - (2 + n) mod 8)) m else Some m) = Some msg1 \<and>
    out_at 6 (2 + n + length pad) (hdr @ bs @ pad @ post') msg1 \<and> (2 + n + length pad) mod 8 = 0 \<and>
    2 + n + length pad \<le> 24568"
proof (cases "(2 + n) mod 8 = 0")
  case True
  then show ?thesis using assms(1,5) by (intro exI [of _ "[]"] exI [of _ post] exI [of _ m]) (simp add: size_defs)
next
  case False
  define k where "k = 8 - (2 + n) mod 8"
  let ?pad = "replicate k 0x33 :: u8 list"
  have e: "(2 + n + k) mod 8 = 0" unfolding k_def by presburger
  have n: "n \<le> 24566" "length (msg_buffer m) = 24590" using assms(1,5) by (simp_all add: size_defs out_at_def buffer_ok_def)
  have le: "2 + n + k \<le> 24568" using n(1) False unfolding k_def by presburger
  have k: "k + (8 + n) < 24576" using le by simp
  then have cut: "ucast (of_nat k :: u64) = (of_nat k :: u16)" "unat (of_nat k :: u64) = k"
    by (simp_all add: unsigned_of_nat take_bit_nat_eq_self)
  obtain m1 where m1: "addPaddingBytes (of_nat k) m = Some m1" "msg_buffer m1 = blit (msg_buffer m) (8 + n) ?pad"
    "info_length m1 = info_length m + of_nat k" "outputBufferStart m1 = outputBufferStart m" "buffer_ok m1"
    using assms(4) n k by (auto simp: addPaddingBytes_def canAdd_small memwrite_def size_defs buffer_ok_def cut)
  have "drop 6 (msg_buffer m1) = blit (hdr @ bs @ post) (2 + n) ?pad"
    using assms(1) n k unfolding m1(2) by (simp add: drop_blit_before out_at_def)
  also have "\<dots> = hdr @ bs @ ?pad @ drop k post" using assms(2,3) by (simp add: blit_def)
  finally have d: "drop 6 (msg_buffer m1) = hdr @ bs @ ?pad @ drop k post" .
  have "unat (info_length m1) = 2 + n + k"
    using assms(1) k unfolding m1(3) by (subst unat_add16) (simp_all add: out_at_def)
  then have "out_at 6 (2 + n + length ?pad) (hdr @ bs @ ?pad @ drop k post) m1"
    using m1(4,5) d assms(1) by (simp add: out_at_def)
  then show ?thesis using False e le m1(1) unfolding k_def [symmetric]
    by (intro exI [of _ ?pad] exI [of _ "drop k post"] exI [of _ m1]) simp
qed

lemma encrypt_step:
  assumes "out_at 6 e (plain @ post) m" "length plain = e" "e mod 8 = 0" "even (length ks)"
  shows "\<exists>cipher m'.
    map_option (\<lambda>c. m\<lparr>msg_buffer := take 6 (msg_buffer m) @ c\<rparr>) (encrypt (drop 6 (msg_buffer m)) (unat (info_length m)) ks) = Some m' \<and>
    out_at 6 e (cipher @ post) m' \<and> length cipher = e \<and> (\<forall>ys. decrypt (cipher @ ys) e ks = Some (plain @ ys))"
proof -
  obtain c where c: "\<forall>ys. encrypt (plain @ ys) e ks = Some (c @ ys) \<and> decrypt (c @ ys) e ks = Some (plain @ ys)"
    "length c = e"
    using encrypt_then_decrypt [OF assms(2,3,4)] by blast
  let ?m' = "m\<lparr>msg_buffer := take 6 (msg_buffer m) @ c @ post\<rparr>"
  have l: "length (msg_buffer m) = 24590" "drop 6 (msg_buffer m) = plain @ post"
    using assms(1) by (simp_all add: out_at_def buffer_ok_def size_defs)
  have "e + length post = 24584" using arg_cong [OF l(2), of length] l(1) assms(2) by simp
  then have "out_at 6 e (c @ post) ?m'"
    using assms(1) l c(2) by (simp add: out_at_def buffer_ok_def size_defs)
  then show ?thesis using c l assms(1) by (intro exI [of _ c] exI [of _ ?m']) (simp add: out_at_def)
qed

lemma unat_of_nat_self: "of_nat (unat (w :: u16)) = w"
  by simp

lemma crypto_header_step:
  assumes "out_at 6 e (cipher @ post) m" "length cipher = e" "e \<le> 24568"
  shows "\<exists>m'. addCryptoHeader True m = Some m' \<and>
    wire_bytes m' = Some (bytes16 (of_nat (e + 4)) @ bytes32 (adlerChecksum cipher) @ cipher)"
proof -
  have l: "length (msg_buffer m) = 24590" "drop 6 (msg_buffer m) = cipher @ post"
    "unat (outputBufferStart m) = 6" "unat (info_length m) = e"
    using assms(1) by (simp_all add: out_at_def buffer_ok_def size_defs)
  have r: "memread (msg_buffer m) (unat (outputBufferStart m)) (unat (info_length m)) = Some cipher"
    using l assms(2,3) by (simp add: memread_def)
  obtain m1 where m1: "add_header (bytes32 (adlerChecksum cipher)) m = Some m1"
    "out_at 2 (e + 4) (bytes32 (adlerChecksum cipher) @ cipher @ post) m1"
    using header_step [OF assms(1), of "bytes32 (adlerChecksum cipher)"] assms(3) by auto
  have len: "info_length m1 = of_nat (e + 4)"
    using m1(2) unat_of_nat_self [of "info_length m1"] by (simp add: out_at_def)
  obtain m2 where m2: "writeMessageLength m1 = Some m2"
    "out_at 0 (e + 6) (bytes16 (info_length m1) @ bytes32 (adlerChecksum cipher) @ cipher @ post) m2"
    using header_step [OF m1(2), of "bytes16 (info_length m1)"] assms(3)
    by (auto simp: writeMessageLength_def add.commute)
  have "wire_bytes m2 = Some (bytes16 (of_nat (e + 4)) @ bytes32 (adlerChecksum cipher) @ cipher)"
    using m2(2) assms(2,3) by (simp add: wire_bytes_def out_at_def memread_def buffer_ok_def size_defs len)
  then show ?thesis using r m1(1) m2(1) by (simp add: addCryptoHeader_def)
qed

lemma send_path:
  assumes "writing m" "outputBufferStart m = INITIAL_BUFFER_POSITION"
    and "unat (info_length m) \<le> MAX_PROTOCOL_BODY_LENGTH"
    and "\<not> rawMessages p" "encryptionEnabled p" "checksumEnabled p" "even (length (protocol_key p))"
  shows "\<exists>cipher pad m' e. onSendMessage p m = Some m' \<and>
    wire_bytes m' = Some (bytes16 (of_nat (e + 4)) @ bytes32 (adlerChecksum cipher) @ cipher) \<and>
    length cipher = e \<and> e mod 8 = 0 \<and> e \<le> 24568 \<and> e = 2 + unat (info_length m) + length pad \<and>
    (\<forall>ys. decrypt (cipher @ ys) e (protocol_key p) = Some (bytes16 (info_length m) @ body m @ pad @ ys))"
proof -
  let ?n = "unat (info_length m)"
  define post where "post = drop (8 + ?n) (msg_buffer m)"
  have w: "buffer_ok m" "unat (info_position m) = 8 + ?n" "unat (info_position m) < 24576"
    using assms(1) by (simp_all add: writing_def size_defs)
  have lb: "length (body m) = ?n" using w by (intro length_body) (simp_all add: size_defs)
  have "drop 8 (msg_buffer m) = body m @ post"
    using append_take_drop_id [of ?n "drop 8 (msg_buffer m)"] by (simp add: body_def post_def add.commute)
  then have o: "out_at 8 ?n (body m @ post) m" using w(1) assms(2) by (simp add: out_at_def size_defs)
  obtain m1 where m1: "writeMessageLength m = Some m1"
    "out_at 6 (2 + ?n) (bytes16 (info_length m) @ body m @ post) m1" "info_position m1 = info_position m"
    using header_step [OF o, of "bytes16 (info_length m)"] w by (auto simp: writeMessageLength_def)
  obtain pad post' msg1 where p1: "(if (2 + ?n) mod 8 \<noteq> 0 then addPaddingBytes (of_nat (8 - (2 + ?n) mod 8)) m1 else Some m1) = Some msg1"
    "out_at 6 (2 + ?n + length pad) (bytes16 (info_length m) @ body m @ pad @ post') msg1"
    "(2 + ?n + length pad) mod 8 = 0" "2 + ?n + length pad \<le> 24568"
    using padding_step [OF m1(2) _ lb _ assms(3)] m1(3) w(2) by auto
  let ?e = "2 + ?n + length pad"
  have o1: "out_at 6 ?e ((bytes16 (info_length m) @ body m @ pad) @ post') msg1" using p1(2) by simp
  have l: "length (bytes16 (info_length m) @ body m @ pad) = ?e" using lb by simp
  obtain cipher m2 where m2:
    "map_option (\<lambda>c. msg1\<lparr>msg_buffer := take 6 (msg_buffer msg1) @ c\<rparr>)
       (encrypt (drop 6 (msg_buffer msg1)) (unat (info_length msg1)) (protocol_key p)) = Some m2"
    "out_at 6 ?e (cipher @ post') m2" "length cipher = ?e"
    "\<forall>ys. decrypt (cipher @ ys) ?e (protocol_key p) = Some ((bytes16 (info_length m) @ body m @ pad) @ ys)"
    using encrypt_step [OF o1 l p1(3) assms(7)] by blast
  obtain m3 where m3: "addCryptoHeader True m2 = Some m3"
    "wire_bytes m3 = Some (bytes16 (of_nat (?e + 4)) @ bytes32 (adlerChecksum cipher) @ cipher)"
    using crypto_header_step [OF m2(2,3) p1(4)] by blast
  have "unat (info_length m1) = 2 + ?n" "unat (outputBufferStart msg1) = 6"
    using m1(2) o1 by (simp_all add: out_at_def)
  then have "XTEA_encrypt (protocol_key p) m1 = Some m2"
    using m2(1) by (simp only: XTEA_encrypt_def Let_def padding_count p1(1) Option.bind.simps)
  then have "onSendMessage p m = Some m3"
    using assms(4-6) m1(1) m3(1) by (simp add: onSendMessage_def)
  then show ?thesis using m3(2) m2(3,4) p1(3,4)
    by (intro exI [of _ cipher] exI [of _ pad] exI [of _ m3] exI [of _ ?e]) simp
qed

section \<open>From the wire to a body\<close>

lemma mask7: "(int n) AND 7 = int (n mod 8)"
proof -
  have "(int n) AND mask 3 = take_bit 3 (int n)" by (simp add: take_bit_eq_mask)
  then show ?thesis by (simp add: mask_eq_exp_minus_1 take_bit_eq_mod zmod_int)
qed

lemma get_at:
  assumes "drop (unat (info_position m)) (msg_buffer m) = bs @ rest" "length bs = n" "buffer_ok m"
    and "unat (info_position m) + n \<le> unat (info_length m) + 8" "unat (info_position m) + n < NETWORKMESSAGE_MAXSIZE"
  shows "get_raw n m = Some (Some bs, m\<lparr>info_position := info_position m + of_nat n\<rparr>)"
  using assms by (auto simp: get_raw_eq canRead_iff memread_def buffer_ok_def)

lemma get32_at:
  assumes "drop (unat (info_position m)) (msg_buffer m) = bytes32 w @ rest" "buffer_ok m"
    and "unat (info_position m) + 4 \<le> unat (info_length m) + 8" "unat (info_position m) + 4 < NETWORKMESSAGE_MAXSIZE"
  shows "get32 m = Some (w, m\<lparr>info_position := info_position m + 4\<rparr>)"
  unfolding get32_def get_at [OF assms(1) length_bytes32 assms(2-4)] by (simp add: bytes32_def word32_bytes)

lemma get16_at:
  assumes "drop (unat (info_position m)) (msg_buffer m) = bytes16 w @ rest" "buffer_ok m"
    and "unat (info_position m) + 2 \<le> unat (info_length m) + 8" "unat (info_position m) + 2 < NETWORKMESSAGE_MAXSIZE"
  shows "get16 m = Some (w, m\<lparr>info_position := info_position m + 2\<rparr>)"
  unfolding get16_def get_at [OF assms(1) length_bytes16 assms(2-4)] by (simp add: bytes16_def word16_bytes)

lemma checksum_accepts:
  assumes "buffer_ok m" "info_position m = 2" "unat (info_length m) = e + 6" "0 < e" "e \<le> 24568"
    and "drop 2 (msg_buffer m) = bytes32 (adlerChecksum cipher) @ cipher @ junk" "length cipher = e"
  shows "check_checksum m = Some (True, m\<lparr>info_position := 6\<rparr>)"
proof -
  have d6: "drop 6 (msg_buffer m) = cipher @ junk"
    using arg_cong [OF assms(6), of "drop 4"] by (simp add: drop_drop)
  have l: "length (msg_buffer m) = 24590" using assms(1) by (simp add: buffer_ok_def size_defs)
  have u: "uint (info_length m) = int (e + 6)" using assms(3) by (simp only: uint_as_nat)
  have "memread (msg_buffer m) (2 + CHECKSUM_LENGTH) e = Some cipher"
    using assms(5,7) d6 l by (simp add: memread_def size_defs)
  moreover have "get32 m = Some (adlerChecksum cipher, m\<lparr>info_position := 6\<rparr>)"
    using get32_at [of m "adlerChecksum cipher" "cipher @ junk"] assms by (simp add: size_defs)
  ultimately show ?thesis using assms(2,4) by (simp add: check_checksum_def u size_defs)
qed

lemma decrypt_accepts:
  assumes "buffer_ok m" "info_position m = 6" "unat (info_length m) = e + 6" "e mod 8 = 0" "e \<le> 24568"
    and "drop 6 (msg_buffer m) = cipher @ junk" "length cipher = e"
    and "decrypt (cipher @ junk) e ks = Some (bytes16 n @ bs @ pad @ junk)" "length bs = unat n" "e = 2 + unat n + length pad"
  shows "\<exists>m'. XTEA_decrypt ks m = Some (True, m') \<and> body m' = bs \<and> info_position m' = 8 \<and> info_length m' = n \<and>
    buffer_ok m' \<and> info_overrun m' = info_overrun m"
proof -
  have l: "length (msg_buffer m) = 24590" using assms(1) by (simp add: buffer_ok_def size_defs)
  have u: "uint (info_length m) - 6 = int e" using assms(3) by (simp only: uint_as_nat)
  let ?m1 = "m\<lparr>msg_buffer := take 6 (msg_buffer m) @ bytes16 n @ bs @ pad @ junk\<rparr>"
  have "e + length junk = 24584" using arg_cong [OF assms(6), of length] l assms(7) by simp
  then have b1: "buffer_ok ?m1" using l assms(9,10) by (simp add: buffer_ok_def size_defs)
  have d: "drop 6 (msg_buffer ?m1) = bytes16 n @ bs @ pad @ junk" using l by simp
  have g: "get16 ?m1 = Some (n, ?m1\<lparr>info_position := 8\<rparr>)"
    using get16_at [of ?m1 n "bs @ pad @ junk"] d b1 assms(2,3,10) by (simp add: size_defs)
  have c: "(uint (info_length m) - 6) AND 7 = 0" "nat (uint (info_length m) - 6) = e" "unat (info_position m) = 6"
    unfolding u mask7 using assms(2,4) by simp_all
  have le: "\<not> unat n + 8 > unat (info_length m)" using assms(3,10) by simp
  have "XTEA_decrypt ks m = Some (True, ?m1\<lparr>info_position := 8, info_length := n\<rparr>)"
    unfolding XTEA_decrypt_def Let_def c assms(6,8) using g le by simp
  moreover have "drop 8 (msg_buffer ?m1) = bs @ pad @ junk"
    using l by simp
  ultimately show ?thesis using assms(9) b1 by (simp add: body_def buffer_ok_def)
qed

text \<open>C14: what is sent is received. A message body of any size up to the protocol's limit, sent with
  encryption and checksum, gives a packet whose header announces its size; a connection that
  reads such a packet accepts the size and the checksum, decrypts with the same key, and hands
  the very same body to the packet parser, whatever its buffer held before.\<close>

theorem sent_message_is_received:
  assumes "writing m" "outputBufferStart m = INITIAL_BUFFER_POSITION"
    and "unat (info_length m) \<le> MAX_PROTOCOL_BODY_LENGTH"
    and "\<not> rawMessages p" "encryptionEnabled p" "checksumEnabled p" "even (length (protocol_key p))"
    and "buffer_ok r"
  shows "\<exists>m' sz bs r1 r2 r3 r4. onSendMessage p m = Some m' \<and> wire_bytes m' = Some (bytes16 sz @ bs) \<and>
    header_size_ok sz \<and> length bs = unat sz \<and>
    receive_body sz bs r = Some r1 \<and> check_checksum r1 = Some (True, r2) \<and>
    onRecvMessage p r2 = Some (Some r3, r4) \<and> body r3 = body m \<and> info_position r3 = INITIAL_BUFFER_POSITION"
proof -
  obtain cipher pad m' e where s: "onSendMessage p m = Some m'"
    "wire_bytes m' = Some (bytes16 (of_nat (e + 4)) @ bytes32 (adlerChecksum cipher) @ cipher)"
    "length cipher = e" "e mod 8 = 0" "e \<le> 24568" "e = 2 + unat (info_length m) + length pad"
    "\<forall>ys. decrypt (cipher @ ys) e (protocol_key p) = Some (bytes16 (info_length m) @ body m @ pad @ ys)"
    using send_path [OF assms(1-7)] by (elim exE conjE) (rule that; assumption)
  let ?sz = "of_nat (e + 4) :: u16" and ?bs = "bytes32 (adlerChecksum cipher) @ cipher"
  have sz: "unat ?sz = e + 4" using s(5) by (subst unat_of_nat) simp
  have l: "length (msg_buffer r) = 24590" using assms(8) by (simp add: buffer_ok_def size_defs)
  have lm: "length (body m) = unat (info_length m)"
    using assms(1) by (intro length_body) (simp_all add: writing_def size_defs)
  have szn: "?sz \<noteq> 0" using sz by auto
  let ?r1 = "r\<lparr>info_length := ?sz + of_nat HEADER_LENGTH, info_position := 2, msg_buffer := blit (msg_buffer r) 2 ?bs\<rparr>"
  let ?junk = "drop (2 + length ?bs) (msg_buffer r)"
  have r1: "receive_body ?sz ?bs r = Some ?r1"
    using l s(3,5) by (simp add: receive_body_def memwrite_def size_defs)
  have ok1: "buffer_ok ?r1" using l s(3,5) by (simp add: buffer_ok_def size_defs)
  have len1: "unat (info_length ?r1) = e + 6"
    using s(5) sz unat_add16 [of ?sz 2] by (simp add: HEADER_LENGTH_def)
  have d1: "drop 2 (msg_buffer ?r1) = bytes32 (adlerChecksum cipher) @ cipher @ ?junk"
    using l by (simp add: drop_blit)
  have r2: "check_checksum ?r1 = Some (True, ?r1\<lparr>info_position := 6\<rparr>)"
    by (rule checksum_accepts [OF ok1 _ len1 _ s(5) d1 s(3)]) (use s(6) in simp_all)
  have d2: "drop 6 (msg_buffer (?r1\<lparr>info_position := 6\<rparr>)) = cipher @ ?junk"
    using arg_cong [OF d1, of "drop 4"] by (simp add: drop_drop)
  obtain r3 where r3: "XTEA_decrypt (protocol_key p) (?r1\<lparr>info_position := 6\<rparr>) = Some (True, r3)"
    "body r3 = body m" "info_position r3 = 8"
    using decrypt_accepts [OF _ _ _ s(4,5) d2 s(3) s(7) [rule_format] lm s(6)] ok1 len1 by (auto simp: buffer_ok_def)
  have "onRecvMessage p (?r1\<lparr>info_position := 6\<rparr>) = Some (Some r3, r3)"
    using assms(5) r3(1) by (simp add: onRecvMessage_def)
  moreover have "header_size_ok ?sz" using sz szn s(5) by (simp add: header_size_ok_def size_defs)
  moreover have "length ?bs = unat ?sz" using sz s(3) by simp
  ultimately show ?thesis using s(1,2) r1 r2 r3(2,3) by (metis INITIAL_BUFFER_POSITION_def)
qed

definition greeting :: out_message where
  "greeting = getOutputMessage\<lparr>info_length := 3, info_position := 11,
     msg_buffer := replicate 8 0 @ [10, 20, 30] @ replicate (NETWORKMESSAGE_MAXSIZE - 11) 0\<rparr>"

lemma sent_message_is_received_witness:
  "\<exists>m' sz bs r1 r2 r3 r4.
     onSendMessage \<lparr>encryptionEnabled = True, checksumEnabled = True, rawMessages = False, protocol_key = expand_key [1, 2, 3, 4]\<rparr> greeting = Some m' \<and>
     wire_bytes m' = Some (bytes16 sz @ bs) \<and> receive_body sz bs fresh_message = Some r1 \<and>
     check_checksum r1 = Some (True, r2) \<and>
     onRecvMessage \<lparr>encryptionEnabled = True, checksumEnabled = True, rawMessages = False, protocol_key = expand_key [1, 2, 3, 4]\<rparr> r2
       = Some (Some r3, r4) \<and> body r3 = [10, 20, 30]"
proof -
  have "writing greeting" "outputBufferStart greeting = INITIAL_BUFFER_POSITION" "body greeting = [10, 20, 30]"
    "unat (info_length greeting) \<le> MAX_PROTOCOL_BODY_LENGTH" "buffer_ok fresh_message"
    by (simp_all add: writing_def greeting_def buffer_ok_def size_defs getOutputMessage_def fresh_message_def body_def)
  then show ?thesis
    using sent_message_is_received [of greeting "\<lparr>encryptionEnabled = True, checksumEnabled = True, rawMessages = False, protocol_key = expand_key [1, 2, 3, 4]\<rparr>" fresh_message]
    by (simp del: ex_simps) blast
qed

end
