(* ===== verification/Autosend.thy ===== *)
theory Autosend
  imports Protocol
begin

text \<open>
  The autosend pool, \<open>src/src/outputmessage.cpp\<close>: protocols whose output buffer is flushed every ten
  milliseconds. Protocols are numbers; the scheduler is the number of pending calls of \<open>sendAll\<close>.
\<close>

record autosend =
  bufferedProtocols :: "nat list"
  pendingSendAll :: nat
  proto_out :: "nat \<Rightarrow> protocol_out"

definition scheduleSendAll :: "autosend \<Rightarrow> autosend" where
  "scheduleSendAll s = s\<lparr>pendingSendAll := pendingSendAll s + 1\<rparr>"

definition flush_protocol :: "(nat \<Rightarrow> bool) \<Rightarrow> nat \<Rightarrow> autosend \<Rightarrow> autosend" where
  "flush_protocol connected p s =
     (case outputBuffer (proto_out s p) of
        None \<Rightarrow> s
      | Some msg \<Rightarrow> s\<lparr>proto_out := (proto_out s)(p := (protocol_send (connected p) msg (proto_out s p))\<lparr>outputBuffer := None\<rparr>)\<rparr>)"

definition sendAll :: "(nat \<Rightarrow> bool) \<Rightarrow> autosend \<Rightarrow> autosend" where
  "sendAll connected s =
     (let s1 = fold (flush_protocol connected) (bufferedProtocols s) s
      in if bufferedProtocols s1 \<noteq> [] then scheduleSendAll s1 else s1)"

definition addProtocolToAutosend :: "nat \<Rightarrow> autosend \<Rightarrow> autosend" where
  "addProtocolToAutosend p s =
     (let s1 = (if bufferedProtocols s = [] then scheduleSendAll s else s)
      in s1\<lparr>bufferedProtocols := bufferedProtocols s1 @ [p]\<rparr>)"

definition removeProtocolFromAutosend :: "nat \<Rightarrow> autosend \<Rightarrow> autosend" where
  "removeProtocolFromAutosend p s = s\<lparr>bufferedProtocols := swap_pop p (bufferedProtocols s)\<rparr>"

text \<open>A protocol fetches its buffer and writes into it.\<close>

definition write_output :: "bool \<Rightarrow> nat \<Rightarrow> int \<Rightarrow> (out_message \<Rightarrow> out_message) \<Rightarrow> autosend \<Rightarrow> autosend" where
  "write_output connected p sz f s =
     (case getOutputBuffer connected sz (proto_out s p) of
        (buf, po) \<Rightarrow> s\<lparr>proto_out := (proto_out s)(p := po\<lparr>outputBuffer := Some (f buf)\<rparr>)\<rparr>)"

inductive autosend_step :: "autosend \<Rightarrow> autosend \<Rightarrow> bool" where
  as_add: "autosend_step s (addProtocolToAutosend p s)"
| as_remove: "autosend_step s (removeProtocolFromAutosend p s)"
| as_write: "autosend_step s (write_output connected p sz f s)"
| as_fire: "pendingSendAll s = Suc n \<Longrightarrow> autosend_step s (sendAll connected (s\<lparr>pendingSendAll := n\<rparr>))"

definition no_protocols :: autosend where
  "no_protocols = \<lparr>bufferedProtocols = [], pendingSendAll = 0, proto_out = (\<lambda>_. \<lparr>outputBuffer = None, sent_messages = []\<rparr>)\<rparr>"

definition pool_inv :: "autosend \<Rightarrow> bool" where
  "pool_inv s \<longleftrightarrow> (bufferedProtocols s \<noteq> [] \<longrightarrow> 0 < pendingSendAll s)"

lemma flush_fields [simp]:
  "bufferedProtocols (flush_protocol connected p s) = bufferedProtocols s"
  "pendingSendAll (flush_protocol connected p s) = pendingSendAll s"
  by (simp_all add: flush_protocol_def split: option.split)

lemma fold_flush_fields [simp]:
  "bufferedProtocols (fold (flush_protocol connected) ps s) = bufferedProtocols s"
  "pendingSendAll (fold (flush_protocol connected) ps s) = pendingSendAll s"
  by (induction ps arbitrary: s) simp_all

lemma flush_buffer:
  "outputBuffer (proto_out (flush_protocol connected q s) p) = (if p = q then None else outputBuffer (proto_out s p))"
  by (simp add: flush_protocol_def split: option.split)

lemma flush_sent:
  "sent_messages (proto_out (flush_protocol connected q s) p) =
     sent_messages (proto_out s p) @
     (if p = q \<and> connected p then (case outputBuffer (proto_out s p) of None \<Rightarrow> [] | Some m \<Rightarrow> [m]) else [])"
  by (simp add: flush_protocol_def protocol_send_def split: option.split)

lemma fold_flush_buffers:
  "outputBuffer (proto_out (fold (flush_protocol connected) ps s) p) =
     (if p \<in> set ps then None else outputBuffer (proto_out s p))"
  by (induction ps arbitrary: s) (simp_all add: flush_buffer)

lemma fold_flush_sent:
  "sent_messages (proto_out (fold (flush_protocol connected) ps s) p) =
     sent_messages (proto_out s p) @
     (if p \<in> set ps \<and> connected p then (case outputBuffer (proto_out s p) of None \<Rightarrow> [] | Some m \<Rightarrow> [m]) else [])"
  by (induction ps arbitrary: s) (auto simp add: flush_sent flush_buffer)

lemma autosend_step_inv: "autosend_step s s' \<Longrightarrow> pool_inv s \<Longrightarrow> pool_inv s'"
proof (induction rule: autosend_step.induct)
  case (as_remove s p)
  have "swap_pop p (bufferedProtocols s) \<noteq> [] \<Longrightarrow> bufferedProtocols s \<noteq> []"
    by (auto simp: swap_pop_def)
  with as_remove show ?case by (simp add: pool_inv_def removeProtocolFromAutosend_def)
qed (auto simp: pool_inv_def addProtocolToAutosend_def scheduleSendAll_def sendAll_def write_output_def Let_def
    split: prod.split)

text \<open>Whatever protocols come, go and write, as long as one is in the pool a flush is scheduled, and
  a flush passes every buffered message of a connected pool member to its connection, once, and
  empties its buffer.\<close>

theorem autosend_flushes:
  assumes "autosend_step\<^sup>*\<^sup>* no_protocols s"
  shows "(bufferedProtocols s \<noteq> [] \<longrightarrow> 0 < pendingSendAll s) \<and>
    (\<forall>p connected. p \<in> set (bufferedProtocols s) \<longrightarrow> connected p \<longrightarrow>
       outputBuffer (proto_out (sendAll connected s) p) = None \<and>
       sent_messages (proto_out (sendAll connected s) p) =
         sent_messages (proto_out s p) @ (case outputBuffer (proto_out s p) of None \<Rightarrow> [] | Some m \<Rightarrow> [m]))"
proof -
  have "pool_inv s"
    using assms by (induction rule: rtranclp_induct) (auto simp: pool_inv_def no_protocols_def dest: autosend_step_inv)
  then show ?thesis
    by (auto simp: pool_inv_def sendAll_def Let_def scheduleSendAll_def fold_flush_buffers fold_flush_sent)
qed

lemma autosend_flushes_witness:
  "0 < pendingSendAll (addProtocolToAutosend 3 no_protocols)"
proof -
  have "bufferedProtocols (addProtocolToAutosend 3 no_protocols) \<noteq> []"
    by (simp add: addProtocolToAutosend_def Let_def)
  then show ?thesis using autosend_flushes [OF r_into_rtranclp [of autosend_step, OF as_add [of no_protocols 3]]] by blast
qed

text \<open>The number of scheduled flushes is not bounded by one: whenever the pool runs empty and is
  filled again before the pending flush fires, one more flush stays scheduled from then on.\<close>

theorem autosend_can_pile_up:
  "\<exists>s. autosend_step\<^sup>*\<^sup>* no_protocols s \<and> pendingSendAll s = n \<and> bufferedProtocols s = []"
proof (induction n)
  case 0
  then show ?case by (intro exI [of _ no_protocols]) (simp add: no_protocols_def)
next
  case (Suc n)
  then obtain s where s: "autosend_step\<^sup>*\<^sup>* no_protocols s" "pendingSendAll s = n" "bufferedProtocols s = []" by blast
  let ?s = "removeProtocolFromAutosend 0 (addProtocolToAutosend 0 s)"
  have "autosend_step\<^sup>*\<^sup>* no_protocols ?s"
    using s(1) as_add as_remove by (meson rtranclp.rtrancl_into_rtrancl)
  moreover have "pendingSendAll ?s = Suc n \<and> bufferedProtocols ?s = []"
    using s by (simp add: addProtocolToAutosend_def removeProtocolFromAutosend_def scheduleSendAll_def swap_pop_def)
  ultimately show ?case by blast
qed

end
