(* ===== verification/Ban.thy ===== *)
theory Ban
  imports Prelude
begin

text \<open>
  Admission of connections, \<open>src/src/ban.cpp\<close>: the flood protection per IP address and the ban
  lookups. The clock and the answers of the database are arguments; the statements handed to
  the database tasks are values.
\<close>

section \<open>Flood protection\<close>

record connect_block =
  lastAttempt :: u64
  blockTime :: u64
  block_count :: u32

type_synonym ip_connect_map = "u32 \<rightharpoonup> connect_block"

definition acceptConnection :: "u64 \<Rightarrow> u32 \<Rightarrow> ip_connect_map \<Rightarrow> bool \<times> ip_connect_map" where
  "acceptConnection currentTime clientIP m =
     (case m clientIP of
        None \<Rightarrow> (True, m(clientIP \<mapsto> \<lparr>lastAttempt = currentTime, blockTime = 0, block_count = 1\<rparr>))
      | Some cb \<Rightarrow>
          if blockTime cb > currentTime then
            (False, m(clientIP \<mapsto> cb\<lparr>blockTime := blockTime cb + 250\<rparr>))
          else
            let timeDiff = sint (currentTime - lastAttempt cb);
                cb1 = cb\<lparr>lastAttempt := currentTime\<rparr>
            in if timeDiff \<le> 5000 then
                 let n = block_count cb1 + 1 in
                 if n > 5 then
                   let cb2 = cb1\<lparr>block_count := 0\<rparr> in
                   if timeDiff \<le> 500 then
                     (False, m(clientIP \<mapsto> cb2\<lparr>blockTime := currentTime + 3000\<rparr>))
                   else (True, m(clientIP \<mapsto> cb2))
                 else (True, m(clientIP \<mapsto> cb1\<lparr>block_count := n\<rparr>))
               else (True, m(clientIP \<mapsto> cb1\<lparr>block_count := 1\<rparr>)))"

text \<open>A sequence of attempts, each with its time and address.\<close>

fun attempts :: "(u64 \<times> u32) list \<Rightarrow> ip_connect_map \<Rightarrow> bool list \<times> ip_connect_map" where
  "attempts [] m = ([], m)"
| "attempts ((t, ip) # as) m =
     (case acceptConnection t ip m of (ok, m') \<Rightarrow>
        case attempts as m' of (oks, m'') \<Rightarrow> (ok # oks, m''))"

section \<open>Ban lookups\<close>

record ban_info =
  bannedBy :: string
  ban_reason :: string
  ban_expiresAt :: int

text \<open>A row of the answer to the select statement.\<close>

record ban_row =
  row_reason :: string
  row_expires_at :: int
  row_banned_at :: int
  row_banned_by :: u32
  row_name :: string

datatype ban_task =
  InsertHistory u32 string int int u32 \<comment> \<open>account, reason, banned at, expired at, banned by\<close>
| DeleteAccountBan u32
| DeleteIpBan u32

definition isAccountBanned ::
  "(u32 \<Rightarrow> ban_row option) \<Rightarrow> int \<Rightarrow> u32 \<Rightarrow> ban_info \<Rightarrow> bool \<times> ban_info \<times> ban_task list" where
  "isAccountBanned select now accountId banInfo =
     (case select accountId of
        None \<Rightarrow> (False, banInfo, [])
      | Some row \<Rightarrow>
          let expiresAt = row_expires_at row in
          if expiresAt \<noteq> 0 \<and> now > expiresAt then
            (False, banInfo,
             [InsertHistory accountId (row_reason row) (row_banned_at row) expiresAt (row_banned_by row),
              DeleteAccountBan accountId])
          else
            (True, banInfo\<lparr>ban_expiresAt := expiresAt, ban_reason := row_reason row, bannedBy := row_name row\<rparr>, []))"

definition isIpBanned ::
  "(u32 \<Rightarrow> ban_row option) \<Rightarrow> int \<Rightarrow> u32 \<Rightarrow> ban_info \<Rightarrow> bool \<times> ban_info \<times> ban_task list" where
  "isIpBanned select now clientIP banInfo =
     (if clientIP = 0 then (False, banInfo, [])
      else case select clientIP of
        None \<Rightarrow> (False, banInfo, [])
      | Some row \<Rightarrow>
          let expiresAt = row_expires_at row in
          if expiresAt \<noteq> 0 \<and> now > expiresAt then (False, banInfo, [DeleteIpBan clientIP])
          else
            (True, banInfo\<lparr>ban_expiresAt := expiresAt, ban_reason := row_reason row, bannedBy := row_name row\<rparr>, []))"

definition isPlayerNamelocked :: "(u32 \<Rightarrow> unit option) \<Rightarrow> u32 \<Rightarrow> bool" where
  "isPlayerNamelocked select playerId = (select playerId \<noteq> None)"

section \<open>Lemmas\<close>

lemma attempts_Cons [simp]:
  "fst (attempts ((t, ip) # as) m) =
     fst (acceptConnection t ip m) # fst (attempts as (snd (acceptConnection t ip m)))"
  "snd (attempts ((t, ip) # as) m) = snd (attempts as (snd (acceptConnection t ip m)))"
  by (simp_all add: case_prod_beta)

declare attempts.simps(2) [simp del]

lemma accept_other_ip: "ip' \<noteq> ip \<Longrightarrow> snd (acceptConnection t ip m) ip' = m ip'"
  by (auto simp: acceptConnection_def Let_def split: option.split)

text \<open>The counter stays within the limit.\<close>

definition counts_ok :: "ip_connect_map \<Rightarrow> bool" where
  "counts_ok m \<longleftrightarrow> (\<forall>ip cb. m ip = Some cb \<longrightarrow> block_count cb \<le> 5)"

lemma accept_counts_ok [inv_intros]: "counts_ok m \<Longrightarrow> counts_ok (snd (acceptConnection t ip m))"
  unfolding counts_ok_def acceptConnection_def Let_def
  by (auto split: option.split if_split_asm simp: not_less)

lemma attempts_counts_ok [inv_intros]: "counts_ok m \<Longrightarrow> counts_ok (snd (attempts as m))"
proof (induction as arbitrary: m)
  case (Cons a as)
  then show ?case by (cases a) (simp add: accept_counts_ok)
qed simp

text \<open>The clock of an attempt, as a number, without wrap-around.\<close>

lemma timeDiff_eq:
  assumes "s \<le> (t :: u64)" and "uint t < 2 ^ 63"
  shows "sint (t - s) = uint t - uint s"
proof -
  have u: "uint (t - s) = uint t - uint s"
    using assms(1) by (simp add: uint_sub_if' word_le_def)
  moreover have "0 \<le> uint s" by simp
  ultimately have "uint (t - s) < 2 ^ 63" using assms(2) by linarith
  then have "sint (t - s) = uint (t - s)"
    by (simp add: sint_uint signed_take_bit_eq_if_positive bit_iff_odd take_bit_int_eq_self)
  with u show ?thesis by simp
qed


text \<open>The two outcomes of an attempt at a known address whose block is over.\<close>

lemma accept_fresh: "m ip = None \<Longrightarrow>
    acceptConnection t ip m = (True, m(ip \<mapsto> \<lparr>lastAttempt = t, blockTime = 0, block_count = 1\<rparr>))"
  by (simp add: acceptConnection_def)

lemma accept_blocked: "m ip = Some cb \<Longrightarrow> t < blockTime cb \<Longrightarrow>
    acceptConnection t ip m = (False, m(ip \<mapsto> cb\<lparr>blockTime := blockTime cb + 250\<rparr>))"
  by (simp add: acceptConnection_def)

lemma accept_slow:
  assumes "m ip = Some cb" "\<not> t < blockTime cb" "lastAttempt cb \<le> t" "uint t < 2 ^ 63"
    and "500 < uint t - uint (lastAttempt cb)"
  shows "\<exists>n. acceptConnection t ip m = (True, m(ip \<mapsto> cb\<lparr>lastAttempt := t, block_count := n\<rparr>))"
  using assms timeDiff_eq [OF assms(3,4)] unfolding acceptConnection_def Let_def by auto

lemma accept_counting:
  assumes "m ip = Some cb" "\<not> t < blockTime cb" "lastAttempt cb \<le> t" "uint t < 2 ^ 63"
    and "uint t - uint (lastAttempt cb) \<le> 5000" "block_count cb < 5"
  shows "acceptConnection t ip m = (True, m(ip \<mapsto> cb\<lparr>lastAttempt := t, block_count := block_count cb + 1\<rparr>))"
proof -
  have "\<not> block_count cb + 1 > 5" using assms(6) by (simp add: not_less inc_le)
  then show ?thesis using assms timeDiff_eq [OF assms(3,4)] unfolding acceptConnection_def Let_def by simp
qed

lemma accept_flood:
  assumes "m ip = Some cb" "\<not> t < blockTime cb" "lastAttempt cb \<le> t" "uint t < 2 ^ 63"
    and "uint t - uint (lastAttempt cb) \<le> 500" "block_count cb = 5"
  shows "acceptConnection t ip m =
    (False, m(ip \<mapsto> cb\<lparr>lastAttempt := t, block_count := 0, blockTime := t + 3000\<rparr>))"
  using assms timeDiff_eq [OF assms(3,4)] unfolding acceptConnection_def Let_def by simp

section \<open>Properties\<close>

text \<open>Times that go forward, at most \<open>d\<close> milliseconds apart, and before the year 292 million.\<close>

fun paced :: "(int \<Rightarrow> bool) \<Rightarrow> u64 \<Rightarrow> u64 list \<Rightarrow> bool" where
  "paced P s [] = True"
| "paced P s (t # ts) = (s \<le> t \<and> uint t < 2 ^ 63 \<and> P (uint t - uint s) \<and> paced P t ts)"

abbreviation from_ip :: "u32 \<Rightarrow> u64 list \<Rightarrow> (u64 \<times> u32) list" where
  "from_ip ip ts \<equiv> map (\<lambda>t. (t, ip)) ts"

definition block_at :: "u64 \<Rightarrow> u32 \<Rightarrow> connect_block" where
  "block_at t n = \<lparr>lastAttempt = t, blockTime = 0, block_count = n\<rparr>"

lemma count_at:
  "n < 5 \<Longrightarrow> s \<le> t \<Longrightarrow> uint t < 2 ^ 63 \<Longrightarrow> uint t - uint s \<le> 500 \<Longrightarrow>
     acceptConnection t ip (m(ip \<mapsto> block_at s n)) = (True, m(ip \<mapsto> block_at t (n + 1)))"
  using accept_counting [of "m(ip \<mapsto> block_at s n)" ip "block_at s n" t] by (simp add: block_at_def)

text \<open>The attempts of one address among those of all, and the answers to them.\<close>

definition times_of :: "u32 \<Rightarrow> (u64 \<times> u32) list \<Rightarrow> u64 list" where
  "times_of ip as = map fst (filter (\<lambda>(t, a). a = ip) as)"

definition answers_to :: "u32 \<Rightarrow> (u64 \<times> u32) list \<Rightarrow> ip_connect_map \<Rightarrow> bool list" where
  "answers_to ip as m = map snd (filter (\<lambda>((t, a), ok). a = ip) (zip as (fst (attempts as m))))"

lemma answers_are_separate:
  "m ip = m' ip \<Longrightarrow> answers_to ip as m = fst (attempts (from_ip ip (times_of ip as)) m')"
proof (induction as arbitrary: m m')
  case (Cons x as)
  obtain t a where x: "x = (t, a)" by (cases x)
  show ?case
  proof (cases "a = ip")
    case True
    have "fst (acceptConnection t ip m) = fst (acceptConnection t ip m')"
      "snd (acceptConnection t ip m) ip = snd (acceptConnection t ip m') ip"
      using Cons.prems by (simp_all add: acceptConnection_def Let_def split: option.split)
    with Cons.IH [of "snd (acceptConnection t ip m)" "snd (acceptConnection t ip m')"] show ?thesis
      by (simp add: x True answers_to_def times_of_def)
  next
    case False
    then have "snd (acceptConnection t a m) ip = m' ip" using Cons.prems by (simp add: accept_other_ip)
    with Cons.IH [of "snd (acceptConnection t a m)" m'] False show ?thesis
      by (simp add: x answers_to_def times_of_def)
  qed
qed (simp add: answers_to_def times_of_def)

text \<open>Each attempt comes before the end of the block, which each moves by a quarter of a second.\<close>

fun within :: "int \<Rightarrow> u64 list \<Rightarrow> bool" where
  "within end [] = True"
| "within end (t # ts) = (uint t < end \<and> within (end + 250) ts)"

lemma blocked_all_along:
  assumes "m ip = Some cb" and "within (uint (blockTime cb)) ts" and "uint (blockTime cb) + 250 * int (length ts) < 2 ^ 64"
    and "block_count cb = 0"
  shows "fst (attempts (from_ip ip (ts @ [t])) m) = replicate (length ts) False @ [uint (blockTime cb) + 250 * int (length ts) \<le> uint t]"
  using assms
proof (induction ts arbitrary: m cb)
  case Nil
  then show ?case by (simp add: acceptConnection_def Let_def word_less_def not_less)
next
  case (Cons s ts)
  define cb' where "cb' = cb\<lparr>blockTime := blockTime cb + 250\<rparr>"
  have u: "uint (blockTime cb') = uint (blockTime cb) + 250"
    using Cons.prems(3) by (simp add: cb'_def uint_word_ariths)
  have a: "acceptConnection s ip m = (False, m(ip \<mapsto> cb'))"
    using Cons.prems(1,2) by (simp add: accept_blocked word_less_def cb'_def)
  have "fst (attempts (from_ip ip (ts @ [t])) (m(ip \<mapsto> cb'))) =
      replicate (length ts) False @ [uint (blockTime cb') + 250 * int (length ts) \<le> uint t]"
    by (rule Cons.IH) (use Cons.prems u in \<open>simp_all add: cb'_def\<close>)
  then show ?case by (simp add: a u add.assoc)
qed

text \<open>C33: Six attempts of a new address, each within half a second of the one before, are a flood: the first five are
  accepted, the sixth is refused and blocks the address for three seconds. Every attempt before the end of the block is
  refused and puts off the end by a quarter of a second; the next attempt is accepted exactly when it does not come before
  the end put off so, as long as that end fits into 64 bits. Whatever other addresses do meanwhile changes nothing.\<close>

theorem flood_is_refused:
  assumes "m ip = None" and "times_of ip as = [t1, t2, t3, t4, t5, t6] @ ts @ [t]"
    and "paced (\<lambda>d. d \<le> 500) t1 [t2, t3, t4, t5, t6]"
    and "within (uint t6 + 3000) ts" and "uint t6 + 3000 + 250 * int (length ts) < 2 ^ 64"
  shows "answers_to ip as m = [True, True, True, True, True, False] @ replicate (length ts) False @
    [uint t6 + 3000 + 250 * int (length ts) \<le> uint t]"
proof -
  have e: "uint (t6 + 3000) = uint t6 + 3000" using assms(5) by (simp add: uint_word_ariths)
  have "acceptConnection t1 ip m = (True, m(ip \<mapsto> block_at t1 1))"
    using assms(1) by (simp add: accept_fresh block_at_def)
  moreover have "acceptConnection t2 ip (m(ip \<mapsto> block_at t1 1)) = (True, m(ip \<mapsto> block_at t2 2))"
    "acceptConnection t3 ip (m(ip \<mapsto> block_at t2 2)) = (True, m(ip \<mapsto> block_at t3 3))"
    "acceptConnection t4 ip (m(ip \<mapsto> block_at t3 3)) = (True, m(ip \<mapsto> block_at t4 4))"
    "acceptConnection t5 ip (m(ip \<mapsto> block_at t4 4)) = (True, m(ip \<mapsto> block_at t5 5))"
    using assms(3) by (simp_all add: count_at)
  moreover define cb where "cb = (block_at t5 5)\<lparr>lastAttempt := t6, block_count := 0, blockTime := t6 + 3000\<rparr>"
  have "acceptConnection t6 ip (m(ip \<mapsto> block_at t5 5)) = (False, m(ip \<mapsto> cb))"
    using assms(3) accept_flood [of "m(ip \<mapsto> block_at t5 5)" ip "block_at t5 5" t6]
    by (simp add: block_at_def cb_def)
  moreover have "fst (attempts (from_ip ip (ts @ [t])) (m(ip \<mapsto> cb))) =
      replicate (length ts) False @ [uint t6 + 3000 + 250 * int (length ts) \<le> uint t]"
    using blocked_all_along [of "m(ip \<mapsto> cb)" ip cb ts t] assms(4,5) e by (simp add: cb_def)
  ultimately show ?thesis using answers_are_separate [of m ip m as] assms(2) by simp
qed

text \<open>Three attempts during the block put off its end from 4500 to 5250.\<close>

lemma flood_is_refused_witness:
  "answers_to 9 [(1000, 9), (1100, 9), (1200, 9), (1250, 8), (1300, 9), (1400, 9), (1500, 9), (1600, 9), (4600, 9), (4900, 9), (4950, 8), (5250, 9)]
     Map.empty = [True, True, True, True, True, False, False, False, False, True]"
  using flood_is_refused [of Map.empty 9
    "[(1000, 9), (1100, 9), (1200, 9), (1250, 8), (1300, 9), (1400, 9), (1500, 9), (1600, 9), (4600, 9), (4900, 9), (4950, 8), (5250, 9)]"
    1000 1100 1200 1300 1400 1500 "[1600, 4600, 4900]" 5250]
  by (simp add: times_of_def)

text \<open>A patient client is never refused: when an unknown address waits more than half a second
  between attempts, all of them are accepted.\<close>

theorem patient_client_is_accepted:
  assumes "m ip = None" and "paced (\<lambda>d. 500 < d) t ts"
  shows "\<forall>ok \<in> set (fst (attempts (from_ip ip (t # ts)) m)). ok"
proof -
  have "\<forall>ok \<in> set (fst (attempts (from_ip ip ts) m)). ok"
    if "m ip = Some cb" "blockTime cb = 0" "lastAttempt cb = t" for m cb
    using that assms(2)
  proof (induction ts arbitrary: m cb t)
    case (Cons t' ts)
    obtain n where a: "acceptConnection t' ip m = (True, m(ip \<mapsto> cb\<lparr>lastAttempt := t', block_count := n\<rparr>))"
      using accept_slow [of m ip cb t'] Cons.prems by auto
    let ?cb = "cb\<lparr>lastAttempt := t', block_count := n\<rparr>"
    have "\<forall>ok \<in> set (fst (attempts (from_ip ip ts) (m(ip \<mapsto> ?cb)))). ok"
      by (rule Cons.IH [of _ ?cb t']) (use Cons.prems in simp_all)
    then show ?case by (simp add: a)
  qed simp
  from this [of "m(ip \<mapsto> block_at t 1)" "block_at t 1"] show ?thesis
    using assms(1) by (simp add: accept_fresh block_at_def)
qed

lemma patient_client_is_accepted_witness:
  "False \<notin> set (fst (attempts (from_ip 9 [1000, 1501, 2002]) Map.empty))"
  using patient_client_is_accepted [of Map.empty 9 1000 "[1501, 2002]"] by auto

end
