(* ===== verification/OrderedMap.thy ===== *)
theory OrderedMap
  imports Prelude
begin

text \<open>
  \<open>std::map\<close>: association lists in ascending order of their keys, so that iteration has the order
  of the sources. The laws of the four operations are stated as the interface \<open>ordered_map\<close>.
\<close>

type_synonym ('k, 'v) omap = "('k \<times> 'v) list"

definition omap_ok :: "('k::linorder, 'v) omap \<Rightarrow> bool" where
  "omap_ok m \<longleftrightarrow> sorted_wrt (<) (map fst m)"

abbreviation omap_find :: "('k, 'v) omap \<Rightarrow> 'k \<Rightarrow> 'v option" where
  "omap_find m \<equiv> map_of m"

text \<open>\<open>m[k] = v\<close>\<close>

fun omap_put :: "'k::linorder \<Rightarrow> 'v \<Rightarrow> ('k, 'v) omap \<Rightarrow> ('k, 'v) omap" where
  "omap_put k v [] = [(k, v)]"
| "omap_put k v ((k', v') # m) =
     (if k < k' then (k, v) # (k', v') # m
      else if k = k' then (k, v) # m
      else (k', v') # omap_put k v m)"

text \<open>\<open>m.emplace(k, v)\<close>: nothing happens when the key is there.\<close>

definition omap_emplace :: "'k::linorder \<Rightarrow> 'v \<Rightarrow> ('k, 'v) omap \<Rightarrow> bool \<times> ('k, 'v) omap" where
  "omap_emplace k v m = (case omap_find m k of Some _ \<Rightarrow> (False, m) | None \<Rightarrow> (True, omap_put k v m))"

definition omap_erase :: "'k \<Rightarrow> ('k, 'v) omap \<Rightarrow> ('k, 'v) omap" where
  "omap_erase k m = filter (\<lambda>(k', _). k' \<noteq> k) m"

text \<open>Updating every value in iteration order.\<close>

definition omap_values :: "('k \<Rightarrow> 'v \<Rightarrow> 'w) \<Rightarrow> ('k, 'v) omap \<Rightarrow> ('k, 'w) omap" where
  "omap_values f m = map (\<lambda>(k, v). (k, f k v)) m"

lemma omap_find_put [simp]: "omap_find (omap_put k v m) = (omap_find m)(k \<mapsto> v)"
  by (induction k v m rule: omap_put.induct) (auto simp: fun_eq_iff)

lemma omap_find_erase [simp]: "omap_find (omap_erase k m) = (omap_find m)(k := None)"
  by (induction m) (auto simp: omap_erase_def fun_eq_iff)

lemma omap_find_emplace:
  "omap_emplace k v m = (ok, m') \<Longrightarrow>
     (if ok then omap_find m k = None \<and> omap_find m' = (omap_find m)(k \<mapsto> v) else omap_find m k \<noteq> None \<and> m' = m)"
  by (auto simp: omap_emplace_def split: option.splits)

lemma omap_find_values [simp]: "omap_find (omap_values f m) k = map_option (f k) (omap_find m k)"
  by (induction m) (auto simp: omap_values_def)

lemma keys_put: "set (map fst (omap_put k v m)) = insert k (set (map fst m))"
  by (induction k v m rule: omap_put.induct) auto

lemma omap_ok_put [simp]: "omap_ok m \<Longrightarrow> omap_ok (omap_put k v m)"
proof (induction k v m rule: omap_put.induct)
  case (2 k v k' v' m)
  then show ?case using keys_put [of k v m] by (auto simp: omap_ok_def)
qed (simp add: omap_ok_def)

lemma omap_ok_erase [simp]: "omap_ok m \<Longrightarrow> omap_ok (omap_erase k m)"
  by (induction m) (auto simp: omap_ok_def omap_erase_def)

lemma omap_ok_emplace: "omap_ok m \<Longrightarrow> omap_ok (snd (omap_emplace k v m))"
  by (auto simp: omap_emplace_def split: option.split)

lemma omap_ok_Nil [simp]: "omap_ok []"
  by (simp add: omap_ok_def)

lemma omap_values_keys [simp]: "map fst (omap_values f m) = map fst m"
  by (induction m) (auto simp: omap_values_def)

lemma omap_ok_values [simp]: "omap_ok (omap_values f m) = omap_ok m"
  by (simp add: omap_ok_def)

lemma omap_distinct: "omap_ok m \<Longrightarrow> distinct (map fst m)"
  by (simp add: omap_ok_def strict_sorted_iff)

lemma omap_mem_iff: "omap_ok m \<Longrightarrow> (k, v) \<in> set m \<longleftrightarrow> omap_find m k = Some v"
  using omap_distinct [of m] by (metis map_of_SomeD map_of_is_SomeI)

section \<open>What clients rely on\<close>

text \<open>A store of values under keys; its clients keep properties of all entries.\<close>

locale keyed_store =
  fixes find :: "'m \<Rightarrow> 'k \<Rightarrow> 'v option"
    and put :: "'k \<Rightarrow> 'v \<Rightarrow> 'm \<Rightarrow> 'm"
    and erase :: "'k \<Rightarrow> 'm \<Rightarrow> 'm"
  assumes find_put: "find (put k v m) = (find m)(k \<mapsto> v)"
    and find_erase: "find (erase k m) = (find m)(k := None)"
begin

definition every :: "('k \<Rightarrow> 'v \<Rightarrow> bool) \<Rightarrow> 'm \<Rightarrow> bool" where
  "every P m \<longleftrightarrow> (\<forall>k v. find m k = Some v \<longrightarrow> P k v)"

lemma everyD: "every P m \<Longrightarrow> find m k = Some v \<Longrightarrow> P k v"
  by (simp add: every_def)

lemma every_put: "every P m \<Longrightarrow> P k v \<Longrightarrow> every P (put k v m)"
  by (simp add: every_def find_put)

lemma every_erase: "every P m \<Longrightarrow> every P (erase k m)"
  by (simp add: every_def find_erase)

text \<open>A field of the values that no two entries share.\<close>

definition unique_by :: "('v \<Rightarrow> 'o) \<Rightarrow> 'm \<Rightarrow> bool" where
  "unique_by f m \<longleftrightarrow> (\<forall>k v k' v'. find m k = Some v \<longrightarrow> find m k' = Some v' \<longrightarrow> f v = f v' \<longrightarrow> k = k')"

lemma unique_put_new:
  "unique_by f m \<Longrightarrow> (\<And>k' v'. find m k' = Some v' \<Longrightarrow> f v' \<noteq> f v) \<Longrightarrow> unique_by f (put k v m)"
  unfolding unique_by_def find_put by (auto split: if_splits) metis+

lemma unique_put_same:
  "unique_by f m \<Longrightarrow> find m k = Some w \<Longrightarrow> f v = f w \<Longrightarrow> unique_by f (put k v m)"
  unfolding unique_by_def find_put by (auto split: if_splits)

lemma unique_erase: "unique_by f m \<Longrightarrow> unique_by f (erase k m)"
  unfolding unique_by_def find_erase by (auto split: if_splits)

end

interpretation om: keyed_store "map_of :: ('k::linorder, 'v) omap \<Rightarrow> 'k \<Rightarrow> 'v option" omap_put omap_erase
  by unfold_locales simp_all

end
