(* ===== verification/Wildcard.thy ===== *)
theory Wildcard
  imports Prelude "HOL-Library.AList"
begin

text \<open>
  The index of online player names, \<open>src/src/wildcardtree.cpp\<close>: a tree of characters whose
  break points mark the ends of the stored names. The children of a node are an
  association list (the \<open>std::map\<close> of the sources; its key order is never observed, since
  \<open>begin()\<close> is read only when there is one child). Pointers into the tree that the code walks
  down and back up are the recursion here.
\<close>

datatype wildcard_result = FOUND string | PLAYERWITHTHISNAMEISNOTONLINE | NAMEISTOOAMBIGUOUS

datatype wnode = WNode (breakpoint: bool) (children: "(char \<times> wnode) list")

lemma child_size: "(ch, c) \<in> set (children t) \<Longrightarrow> size c < size t"
  using size_list_estimation' [of "(ch, c)" "children t" "size c" "size_prod (\<lambda>_. 0) size"]
  by (cases t) auto

definition getChild :: "wnode \<Rightarrow> char \<Rightarrow> wnode option" where
  "getChild t ch = map_of (children t) ch"

definition setChild :: "wnode \<Rightarrow> char \<Rightarrow> wnode \<Rightarrow> wnode" where
  "setChild t ch c = WNode (breakpoint t) (AList.update ch c (children t))"

definition eraseChild :: "wnode \<Rightarrow> char \<Rightarrow> wnode" where
  "eraseChild t ch = WNode (breakpoint t) (AList.delete ch (children t))"

text \<open>The child \<open>addChild\<close> returns a reference to.\<close>

definition addChild :: "wnode \<Rightarrow> char \<Rightarrow> bool \<Rightarrow> wnode" where
  "addChild t ch bp =
     (case getChild t ch of
        Some child \<Rightarrow> if bp \<and> \<not> breakpoint child then WNode True (children child) else child
      | None \<Rightarrow> WNode bp [])"

text \<open>
  \<open>insert\<close>: all characters but the last are added without, the last with a break point. For the
  empty string \<open>length - 1\<close> wraps around and the loop reads behind the string: no result.
\<close>

fun insert_name :: "wnode \<Rightarrow> string \<Rightarrow> wnode option" where
  "insert_name t [] = None"
| "insert_name t [ch] = Some (setChild t ch (addChild t ch True))"
| "insert_name t (ch # chs) = map_option (setChild t ch) (insert_name (addChild t ch False) chs)"

text \<open>
  \<open>remove\<close>: the walk down returns when a character has no child; on the way back a child is
  erased when it has neither children nor a break point, and the first that stays ends the walk
  (a parent of a node that stays has a child). The root is never erased.
\<close>

definition prunable :: "wnode \<Rightarrow> bool" where
  "prunable t \<longleftrightarrow> children t = [] \<and> \<not> breakpoint t"

fun remove_name :: "wnode \<Rightarrow> string \<Rightarrow> wnode option" where
  "remove_name t [] = Some (WNode False (children t))"
| "remove_name t (ch # chs) =
     (case getChild t ch of
        None \<Rightarrow> None
      | Some child \<Rightarrow>
          (case remove_name child chs of
             None \<Rightarrow> None
           | Some child' \<Rightarrow>
               Some (if prunable child' then eraseChild t ch else setChild t ch child')))"

definition remove_str :: "wnode \<Rightarrow> string \<Rightarrow> wnode" where
  "remove_str t str = (case remove_name t str of None \<Rightarrow> t | Some t' \<Rightarrow> t')"

text \<open>\<open>findOne\<close>: down the query, then down the only branch until a leaf.\<close>

fun descend :: "wnode \<Rightarrow> string \<Rightarrow> wnode option" where
  "descend t [] = Some t"
| "descend t (ch # chs) = (case getChild t ch of None \<Rightarrow> None | Some c \<Rightarrow> descend c chs)"

function complete :: "wnode \<Rightarrow> string \<Rightarrow> wildcard_result" where
  "complete t result =
     (case children t of
        [] \<Rightarrow> FOUND result
      | [(ch, c)] \<Rightarrow>
          if breakpoint t then NAMEISTOOAMBIGUOUS else complete c (result @ [ch])
      | _ \<Rightarrow> NAMEISTOOAMBIGUOUS)"
  by pat_completeness auto
termination
  by (relation "measure (\<lambda>(t, _). size t)") (auto intro!: child_size)

declare complete.simps [simp del]

definition findOne :: "wnode \<Rightarrow> string \<Rightarrow> wildcard_result" where
  "findOne t query =
     (case descend t query of
        None \<Rightarrow> PLAYERWITHTHISNAMEISNOTONLINE
      | Some cur \<Rightarrow> complete cur query)"

section \<open>The names a tree holds\<close>

fun has_name :: "wnode \<Rightarrow> string \<Rightarrow> bool" where
  "has_name t [] = breakpoint t"
| "has_name t (ch # chs) = (case getChild t ch of None \<Rightarrow> False | Some c \<Rightarrow> has_name c chs)"

definition names :: "wnode \<Rightarrow> string set" where
  "names t = {s. has_name t s}"

text \<open>
  Well-formed trees: no key twice, and a node without children carries a break point, the root
  apart.
\<close>

function wf_node :: "wnode \<Rightarrow> bool" where
  "wf_node t \<longleftrightarrow> distinct (map fst (children t)) \<and>
     list_all (\<lambda>(ch, c). wf_node c \<and> \<not> prunable c) (children t)"
  by pat_completeness auto
termination
  by (relation "measure size") (auto intro: child_size)

declare wf_node.simps [simp del]

definition empty_tree :: wnode where
  "empty_tree = WNode False []"

lemma getChild_mem: "getChild t ch = Some c \<Longrightarrow> (ch, c) \<in> set (children t)"
  by (simp add: getChild_def map_of_SomeD)

lemma getChild_size [simp]: "getChild t ch = Some c \<Longrightarrow> size c < size t"
  by (blast dest: getChild_mem intro: child_size)

lemma getChild_setChild [simp]:
  "getChild (setChild t ch c) ch' = (if ch' = ch then Some c else getChild t ch')"
  by (simp add: getChild_def setChild_def update_conv')

lemma getChild_eraseChild:
  "getChild (eraseChild t ch) ch' = (if ch' = ch then None else getChild t ch')"
  by (simp add: getChild_def eraseChild_def delete_conv')

lemma breakpoint_setChild [simp]:
  "breakpoint (setChild t ch c) = breakpoint t" "breakpoint (eraseChild t ch) = breakpoint t"
  by (simp_all add: setChild_def eraseChild_def)

lemma setChild_not_prunable [simp]: "\<not> prunable (setChild t ch c)"
  by (cases "children t") (auto simp: prunable_def setChild_def)

lemma has_name_setChild:
  "has_name (setChild t ch c) s =
     (case s of [] \<Rightarrow> breakpoint t | x # xs \<Rightarrow> if x = ch then has_name c xs else has_name t s)"
  by (cases s) auto

lemma has_name_eraseChild:
  "has_name (eraseChild t ch) s =
     (case s of [] \<Rightarrow> breakpoint t | x # xs \<Rightarrow> if x = ch then False else has_name t s)"
  by (cases s) (auto simp: getChild_eraseChild)

lemma has_name_WNode [simp]:
  "has_name (WNode b (children t)) s = (if s = [] then b else has_name t s)"
  by (cases s) (auto simp: getChild_def)

lemma has_name_addChild:
  "has_name (addChild t ch bp) s \<longleftrightarrow> (bp \<and> s = []) \<or> has_name t (ch # s)"
  by (cases s) (auto simp: addChild_def getChild_def split: option.splits)

subsection \<open>Operations on the set of names\<close>

lemma has_name_insert:
  "insert_name t s = Some t' \<Longrightarrow> has_name t' u \<longleftrightarrow> u = s \<or> has_name t u"
proof (induction t s arbitrary: t' u rule: insert_name.induct)
  case (2 t ch)
  then show ?case
    using has_name_addChild [of t ch True] has_name_addChild [of t ch True "[]"]
    by (cases u) (auto split: if_splits)
next
  case (3 t ch v va)
  then obtain t1 where t1: "insert_name (addChild t ch False) (v # va) = Some t1"
    and t': "t' = setChild t ch t1" by auto
  show ?case
    using "3.IH" [OF t1] has_name_addChild [of t ch False]
    by (cases u) (auto simp: t' has_name_setChild)
qed simp

lemma insert_name_total: "s \<noteq> [] \<Longrightarrow> \<exists>t'. insert_name t s = Some t'"
  by (induction t s rule: insert_name.induct) auto

lemma has_name_prunable: "prunable t \<Longrightarrow> \<not> has_name t s"
  by (cases s) (auto simp: prunable_def getChild_def)

lemma has_name_remove:
  "remove_name t s = Some t' \<Longrightarrow> has_name t' u \<longleftrightarrow> u \<noteq> s \<and> has_name t u"
proof (induction t s arbitrary: t' u rule: remove_name.induct)
  case (1 t)
  then show ?case by (cases u) (auto simp: getChild_def)
next
  case (2 t ch chs)
  then obtain c c' where c: "getChild t ch = Some c" "remove_name c chs = Some c'"
    and t': "t' = (if prunable c' then eraseChild t ch else setChild t ch c')"
    by (auto split: option.splits)
  show ?case
    using has_name_prunable [of c'] "2.IH" [OF c]
    by (cases u) (auto simp: t' getChild_eraseChild c)
qed

lemma remove_name_None: "remove_name t s = None \<Longrightarrow> \<not> has_name t s"
  by (induction t s rule: remove_name.induct) (auto split: option.splits)

lemma names_remove_str: "names (remove_str t s) = names t - {s}"
  by (auto simp: names_def remove_str_def has_name_remove dest: remove_name_None split: option.splits)

subsection \<open>Well-formedness is kept\<close>

lemma wf_node_iff:
  "wf_node t \<longleftrightarrow> distinct (map fst (children t)) \<and>
     (\<forall>ch c. getChild t ch = Some c \<longrightarrow> wf_node c \<and> \<not> prunable c)"
proof (cases "distinct (map fst (children t))")
  case True
  then have "getChild t ch = Some c \<longleftrightarrow> (ch, c) \<in> set (children t)" for ch c
    by (simp add: getChild_def map_of_eq_Some_iff)
  with True show ?thesis by (subst wf_node.simps) (auto simp: list_all_iff)
qed (simp add: wf_node.simps [of t])

lemma wf_node_child: "wf_node t \<Longrightarrow> getChild t ch = Some c \<Longrightarrow> wf_node c \<and> \<not> prunable c"
  by (simp add: wf_node_iff [of t])

lemma wf_node_setChild: "wf_node t \<Longrightarrow> wf_node c \<Longrightarrow> \<not> prunable c \<Longrightarrow> wf_node (setChild t ch c)"
  unfolding wf_node_iff [of t] wf_node_iff [of "setChild t ch c"] getChild_setChild
  by (auto simp: setChild_def distinct_update)

lemma wf_node_eraseChild: "wf_node t \<Longrightarrow> wf_node (eraseChild t ch)"
  unfolding wf_node_iff [of t] wf_node_iff [of "eraseChild t ch"] getChild_eraseChild
  by (auto simp: eraseChild_def distinct_delete)

lemma wf_node_breakpoint: "wf_node t \<Longrightarrow> wf_node (WNode b (children t))"
  unfolding wf_node_iff [of t] wf_node_iff [of "WNode b (children t)"]
  by (simp add: getChild_def)

lemma wf_node_leaf: "wf_node (WNode b [])"
  unfolding wf_node_iff [of "WNode b []"] by (simp add: getChild_def)

lemma wf_node_addChild: "wf_node t \<Longrightarrow> wf_node (addChild t ch bp)"
  by (auto simp: addChild_def wf_node_leaf wf_node_breakpoint dest: wf_node_child split: option.splits)

lemma prunable_addChild_True: "\<not> prunable (addChild t ch True)"
  by (auto simp: addChild_def prunable_def split: option.splits)

lemma wf_node_insert: "wf_node t \<Longrightarrow> insert_name t s = Some t' \<Longrightarrow> wf_node t' \<and> \<not> prunable t'"
  by (induction t s arbitrary: t' rule: insert_name.induct)
    (auto intro!: wf_node_setChild wf_node_addChild simp: prunable_addChild_True)

lemma wf_node_remove: "wf_node t \<Longrightarrow> remove_name t s = Some t' \<Longrightarrow> wf_node t'"
proof (induction t s arbitrary: t' rule: remove_name.induct)
  case (2 t ch chs)
  then obtain c c' where c: "getChild t ch = Some c" "remove_name c chs = Some c'"
    and t': "t' = (if prunable c' then eraseChild t ch else setChild t ch c')"
    by (auto split: option.splits)
  have "wf_node c'" using "2.IH" [OF c(1) _ c(2)] "2.prems"(1) c(1) wf_node_child by blast
  with "2.prems"(1) show ?case by (auto simp: t' intro: wf_node_setChild wf_node_eraseChild)
qed (auto intro: wf_node_breakpoint)

lemma wf_node_remove_str: "wf_node t \<Longrightarrow> wf_node (remove_str t s)"
  by (auto simp: remove_str_def intro: wf_node_remove split: option.splits)

section \<open>Completion\<close>

text \<open>Below every node that pruning would keep there is a name.\<close>

lemma wf_node_inhabited: "wf_node t \<Longrightarrow> \<not> prunable t \<Longrightarrow> \<exists>s. has_name t s"
proof (induction t rule: measure_induct_rule [of size])
  case (less t)
  show ?case
  proof (cases "breakpoint t")
    case True
    then show ?thesis by (intro exI [of _ "[]"]) simp
  next
    case False
    with less.prems obtain ch c cs where cs: "children t = (ch, c) # cs"
      by (cases "children t") (auto simp: prunable_def)
    then have c: "getChild t ch = Some c" by (simp add: getChild_def)
    with less wf_node_child obtain s where "has_name c s" by (metis getChild_size)
    then show ?thesis by (intro exI [of _ "ch # s"]) (simp add: c)
  qed
qed

lemma complete_spec:
  "wf_node t \<Longrightarrow> \<not> prunable t \<Longrightarrow>
     (case complete t q of
        FOUND r \<Rightarrow> \<exists>s. r = q @ s \<and> names t = {s}
      | NAMEISTOOAMBIGUOUS \<Rightarrow> \<exists>s s'. s \<noteq> s' \<and> {s, s'} \<subseteq> names t
      | PLAYERWITHTHISNAMEISNOTONLINE \<Rightarrow> False)"
proof (induction t q rule: complete.induct)
  case (1 t q)
  consider (leaf) "children t = []" | (one) ch c where "children t = [(ch, c)]"
    | (more) ch c ch' c' cs where "children t = (ch, c) # (ch', c') # cs"
    by (metis list.exhaust surj_pair)
  then show ?case
  proof cases
    case leaf
    then have "has_name t s \<longleftrightarrow> s = []" for s
      using "1.prems" by (cases s) (auto simp: getChild_def prunable_def)
    with leaf show ?thesis by (subst complete.simps) (auto simp: names_def)
  next
    case one
    then have g: "getChild t ch' = (if ch' = ch then Some c else None)" for ch'
      by (simp add: getChild_def)
    then have c: "wf_node c" "\<not> prunable c" using "1.prems"(1) wf_node_child by (metis, metis)
    show ?thesis
    proof (cases "breakpoint t")
      case True
      from wf_node_inhabited [OF c] obtain s where "has_name c s" ..
      with True g have "{[], ch # s} \<subseteq> names t" "[] \<noteq> ch # s" by (auto simp: names_def)
      moreover have "complete t q = NAMEISTOOAMBIGUOUS"
        by (subst complete.simps) (simp add: one True)
      ultimately show ?thesis
        by (simp only: wildcard_result.case) (intro exI [of _ "[]"] exI [of _ "ch # s"] conjI)
    next
      case False
      have n: "names t = (#) ch ` names c"
      proof (rule set_eqI)
        fix s show "s \<in> names t \<longleftrightarrow> s \<in> (#) ch ` names c"
          using False by (cases s) (auto simp: names_def g split: option.splits)
      qed
      have "complete t q = complete c (q @ [ch])"
        by (subst complete.simps) (simp add: one False)
      note eq = this
      note IH = "1.IH" [OF one _ _ False c]
      show ?thesis
      proof (cases "complete c (q @ [ch])")
        case (FOUND r)
        with IH obtain s where "r = q @ ch # s" "names c = {s}" by auto
        with FOUND show ?thesis by (auto simp: eq n)
      next
        case NAMEISTOOAMBIGUOUS
        with IH obtain s s' where "s \<noteq> s'" "{s, s'} \<subseteq> names c" by auto
        then have "ch # s \<noteq> ch # s'" "{ch # s, ch # s'} \<subseteq> names t" by (auto simp: n)
        then have "\<exists>u u'. u \<noteq> u' \<and> {u, u'} \<subseteq> names t"
          by (intro exI [of _ "ch # s"] exI [of _ "ch # s'"] conjI)
        then show ?thesis by (simp add: eq NAMEISTOOAMBIGUOUS)
      qed (use IH in simp)
    qed
  next
    case more
    then have g: "getChild t ch = Some c" by (simp add: getChild_def)
    have ne: "ch \<noteq> ch'" using "1.prems"(1) more by (simp add: wf_node_iff [of t])
    with more have g': "getChild t ch' = Some c'" by (simp add: getChild_def)
    obtain s s' where "has_name c s" "has_name c' s'"
      using wf_node_inhabited wf_node_child "1.prems"(1) g g' by metis
    with g g' ne have "{ch # s, ch' # s'} \<subseteq> names t" "ch # s \<noteq> ch' # s'" by (auto simp: names_def)
    moreover have "complete t q = NAMEISTOOAMBIGUOUS" by (subst complete.simps) (simp add: more)
    ultimately show ?thesis
      by (simp only: wildcard_result.case) (intro exI [of _ "ch # s"] exI [of _ "ch' # s'"] conjI)
  qed
qed

section \<open>Lookup by prefix\<close>

lemma has_name_descend: "has_name t (q @ s) \<longleftrightarrow> (case descend t q of None \<Rightarrow> False | Some c \<Rightarrow> has_name c s)"
  by (induction t q rule: descend.induct) (auto split: option.splits)

lemma wf_node_descend:
  "wf_node t \<Longrightarrow> descend t q = Some c \<Longrightarrow> wf_node c \<and> (q \<noteq> [] \<longrightarrow> \<not> prunable c)"
proof (induction t q rule: descend.induct)
  case (2 t ch chs)
  then obtain d where d: "getChild t ch = Some d" "descend d chs = Some c" by (auto split: option.splits)
  with "2.IH" [OF d(1)] wf_node_child [OF "2.prems"(1) d(1)] show ?case by (cases chs) auto
qed simp

text \<open>
  The names that start with a query decide the answer. The one exception is the empty query on
  the empty tree, which finds the empty name.
\<close>

lemma findOne_spec:
  assumes "wf_node t" and "q \<noteq> [] \<or> \<not> prunable t"
  shows "case findOne t q of
      FOUND r \<Rightarrow> {u \<in> names t. take (length q) u = q} = {r}
    | PLAYERWITHTHISNAMEISNOTONLINE \<Rightarrow> {u \<in> names t. take (length q) u = q} = {}
    | NAMEISTOOAMBIGUOUS \<Rightarrow>
        \<exists>u u'. u \<noteq> u' \<and> {u, u'} \<subseteq> {u \<in> names t. take (length q) u = q}"
proof -
  have split: "{u \<in> names t. take (length q) u = q} = (\<lambda>s. q @ s) ` {s. has_name t (q @ s)}"
    by (auto simp: names_def image_iff) (metis append_take_drop_id)
  show ?thesis
  proof (cases "descend t q")
    case None
    then show ?thesis by (simp add: findOne_def split has_name_descend)
  next
    case (Some c)
    with assms wf_node_descend have c: "wf_node c" "\<not> prunable c"
      by (metis, metis descend.simps(1) option.inject)
    have n: "{s. has_name t (q @ s)} = names c" by (simp add: has_name_descend Some names_def)
    have f: "findOne t q = complete c q" by (simp add: findOne_def Some)
    note spec = complete_spec [OF c, of q]
    show ?thesis unfolding f split n
    proof (cases "complete c q")
      case NAMEISTOOAMBIGUOUS
      with spec obtain s s' where "s \<noteq> s'" "{s, s'} \<subseteq> names c" by auto
      then have "q @ s \<noteq> q @ s'" "{q @ s, q @ s'} \<subseteq> (\<lambda>s. q @ s) ` names c" by auto
      then show "case complete c q of
          FOUND r \<Rightarrow> (\<lambda>s. q @ s) ` names c = {r}
        | PLAYERWITHTHISNAMEISNOTONLINE \<Rightarrow> (\<lambda>s. q @ s) ` names c = {}
        | NAMEISTOOAMBIGUOUS \<Rightarrow> \<exists>u u'. u \<noteq> u' \<and> {u, u'} \<subseteq> (\<lambda>s. q @ s) ` names c"
        unfolding NAMEISTOOAMBIGUOUS wildcard_result.case by blast
    qed (use spec in auto)
  qed
qed

end
