(* ===== verification/PlayerIndex.thy ===== *)
theory PlayerIndex
  imports Wildcard
begin

text \<open>
  The registry of online players, from \<open>src/src/game.cpp\<close>: the maps by lower-case name, by
  account-wide identifier and by creature identifier, kept beside the wildcard tree, and the
  lookups over them. The tree is used through the interface \<open>name_index\<close>, which the wildcard
  tree of \<open>Wildcard\<close> implements.
\<close>

section \<open>What the registry needs of a name index\<close>

locale name_index =
  fixes ins :: "'t \<Rightarrow> string \<Rightarrow> 't option"
    and del :: "'t \<Rightarrow> string \<Rightarrow> 't"
    and find :: "'t \<Rightarrow> string \<Rightarrow> wildcard_result"
    and nms :: "'t \<Rightarrow> string set"
    and ok :: "'t \<Rightarrow> bool"
  assumes ins_total: "ok t \<Longrightarrow> s \<noteq> [] \<Longrightarrow> \<exists>t'. ins t s = Some t'"
    and ins_nms: "ok t \<Longrightarrow> ins t s = Some t' \<Longrightarrow> nms t' = insert s (nms t)"
    and ins_ok: "ok t \<Longrightarrow> ins t s = Some t' \<Longrightarrow> ok t'"
    and del_nms: "ok t \<Longrightarrow> del t s = nms_del \<Longrightarrow> nms nms_del = nms t - {s}"
    and del_ok: "ok t \<Longrightarrow> ok (del t s)"
    and find_found: "ok t \<Longrightarrow> find t q = FOUND r \<Longrightarrow>
      {u \<in> nms t. take (length q) u = q} = {r} \<or> nms t = {} \<and> r = []"
    and find_none: "ok t \<Longrightarrow> find t q = PLAYERWITHTHISNAMEISNOTONLINE \<Longrightarrow>
      {u \<in> nms t. take (length q) u = q} = {}"
    and find_many: "ok t \<Longrightarrow> find t q = NAMEISTOOAMBIGUOUS \<Longrightarrow>
      \<exists>u u'. u \<noteq> u' \<and> {u, u'} \<subseteq> {u \<in> nms t. take (length q) u = q}"
begin

text \<open>A found name is decided by the set of names alone, for a query that is not empty.\<close>

lemma find_cases:
  assumes "ok t" and "nms t \<noteq> {}"
  shows "find t q =
    (if {u \<in> nms t. take (length q) u = q} = {} then PLAYERWITHTHISNAMEISNOTONLINE
     else if \<exists>r. {u \<in> nms t. take (length q) u = q} = {r}
     then FOUND (the_elem {u \<in> nms t. take (length q) u = q})
     else NAMEISTOOAMBIGUOUS)"
proof (cases "find t q")
  case (FOUND r)
  with find_found [OF assms(1) FOUND] assms(2) show ?thesis by auto
next
  case PLAYERWITHTHISNAMEISNOTONLINE
  with find_none [OF assms(1) this] show ?thesis by simp
next
  case NAMEISTOOAMBIGUOUS
  define M where "M = {u \<in> nms t. take (length q) u = q}"
  from find_many [OF assms(1) NAMEISTOOAMBIGUOUS] obtain u u' where
    u: "u \<noteq> u'" "u \<in> M" "u' \<in> M" unfolding M_def by blast
  then have "M \<noteq> {}" "\<not> (\<exists>r. M = {r})" by auto
  with NAMEISTOOAMBIGUOUS show ?thesis unfolding M_def by (simp only: if_False)
qed

end

definition tree_ok :: "wnode \<Rightarrow> bool" where
  "tree_ok t \<longleftrightarrow> wf_node t \<and> \<not> breakpoint t"

lemma prunable_empty: "wf_node t \<Longrightarrow> \<not> breakpoint t \<Longrightarrow> prunable t \<longleftrightarrow> names t = {}"
  using wf_node_inhabited has_name_prunable by (auto simp: names_def)

lemma breakpoint_insert: "insert_name t s = Some t' \<Longrightarrow> breakpoint t' = breakpoint t"
  by (induction t s arbitrary: t' rule: insert_name.induct) auto

lemma breakpoint_remove: "\<not> breakpoint t \<Longrightarrow> \<not> breakpoint (remove_str t s)"
  by (cases s) (auto simp: remove_str_def split: option.splits if_splits)

lemma findOne_empty: "prunable t \<Longrightarrow> findOne t q = (if q = [] then FOUND [] else PLAYERWITHTHISNAMEISNOTONLINE)"
  by (cases q) (auto simp: findOne_def prunable_def getChild_def complete.simps)

interpretation wt: name_index insert_name remove_str findOne names tree_ok
proof
  fix t t' :: wnode and s q r :: string and d :: wnode
  show "\<exists>t'. insert_name t s = Some t'" if "s \<noteq> []" using that by (rule insert_name_total)
  show "names t' = insert s (names t)" if "insert_name t s = Some t'"
    using has_name_insert [OF that] by (auto simp: names_def)
  show "tree_ok t'" if "tree_ok t" "insert_name t s = Some t'"
    using that wf_node_insert breakpoint_insert by (auto simp: tree_ok_def)
  show "names d = names t - {s}" if "remove_str t s = d" using names_remove_str that by blast
  show "tree_ok (remove_str t s)" if "tree_ok t"
    using that wf_node_remove_str breakpoint_remove by (auto simp: tree_ok_def)
  show "{u \<in> names t. take (length q) u = q} = {r} \<or> names t = {} \<and> r = []"
    if "tree_ok t" "findOne t q = FOUND r"
    using that findOne_spec [of t q] findOne_empty [of t q] prunable_empty [of t]
    by (cases "prunable t") (auto simp: tree_ok_def split: if_splits)
  show "{u \<in> names t. take (length q) u = q} = {}"
    if "tree_ok t" "findOne t q = PLAYERWITHTHISNAMEISNOTONLINE"
    using that findOne_spec [of t q] findOne_empty [of t q] prunable_empty [of t]
    by (cases "prunable t") (auto simp: tree_ok_def split: if_splits)
  show "\<exists>u u'. u \<noteq> u' \<and> {u, u'} \<subseteq> {u \<in> names t. take (length q) u = q}"
    if "tree_ok t" "findOne t q = NAMEISTOOAMBIGUOUS"
    using that findOne_spec [of t q] findOne_empty [of t q]
    by (cases "prunable t") (auto simp: tree_ok_def split: if_splits)
qed

section \<open>The registry\<close>

record player_ref =
  p_id :: u32
  p_guid :: u32
  p_name :: string

record registry =
  mappedPlayerNames :: "string \<rightharpoonup> player_ref"
  mappedPlayerGuids :: "u32 \<rightharpoonup> player_ref"
  wildcardTree :: wnode
  players :: "u32 \<rightharpoonup> player_ref"

definition empty_registry :: registry where
  "empty_registry = \<lparr>mappedPlayerNames = Map.empty, mappedPlayerGuids = Map.empty,
     wildcardTree = empty_tree, players = Map.empty\<rparr>"

definition PLAYER_NAME_LENGTH :: nat where
  "PLAYER_NAME_LENGTH = 25"

text \<open>An empty name makes the insertion into the tree read out of bounds: no result.\<close>

definition addPlayer :: "registry \<Rightarrow> player_ref \<Rightarrow> registry option" where
  "addPlayer g p =
     (let lowercase_name = to_lower_copy (p_name p) in
      case insert_name (wildcardTree g) lowercase_name of
        None \<Rightarrow> None
      | Some t \<Rightarrow> Some (g\<lparr>
          mappedPlayerNames := (mappedPlayerNames g)(lowercase_name \<mapsto> p),
          mappedPlayerGuids := (mappedPlayerGuids g)(p_guid p \<mapsto> p),
          wildcardTree := t,
          players := (players g)(p_id p \<mapsto> p)\<rparr>))"

definition removePlayer :: "registry \<Rightarrow> player_ref \<Rightarrow> registry" where
  "removePlayer g p =
     (let lowercase_name = to_lower_copy (p_name p) in
      g\<lparr>mappedPlayerNames := (mappedPlayerNames g)(lowercase_name := None),
        mappedPlayerGuids := (mappedPlayerGuids g)(p_guid p := None),
        wildcardTree := remove_str (wildcardTree g) lowercase_name,
        players := (players g)(p_id p := None)\<rparr>)"

definition getPlayerByID :: "registry \<Rightarrow> u32 \<Rightarrow> player_ref option" where
  "getPlayerByID g i = (if i = 0 then None else players g i)"

definition getPlayerByName :: "registry \<Rightarrow> string \<Rightarrow> player_ref option" where
  "getPlayerByName g s = (if s = [] then None else mappedPlayerNames g (to_lower_copy s))"

definition getPlayerByGUID :: "registry \<Rightarrow> u32 \<Rightarrow> player_ref option" where
  "getPlayerByGUID g guid = (if guid = 0 then None else mappedPlayerGuids g guid)"

datatype lookup_error = NotOnline | TooAmbiguous

definition getPlayerByNameWildcard :: "registry \<Rightarrow> string \<Rightarrow> lookup_error + player_ref" where
  "getPlayerByNameWildcard g s =
     (if length s = 0 \<or> length s > PLAYER_NAME_LENGTH then Inl NotOnline
      else if last s = CHR ''~'' then
        (case findOne (wildcardTree g) (to_lower_copy (butlast s)) of
           PLAYERWITHTHISNAMEISNOTONLINE \<Rightarrow> Inl NotOnline
         | NAMEISTOOAMBIGUOUS \<Rightarrow> Inl TooAmbiguous
         | FOUND result \<Rightarrow>
             (case getPlayerByName g result of None \<Rightarrow> Inl NotOnline | Some p \<Rightarrow> Inr p))
      else (case getPlayerByName g s of None \<Rightarrow> Inl NotOnline | Some p \<Rightarrow> Inr p))"

section \<open>Consistency of the registry\<close>

definition registry_inv :: "registry \<Rightarrow> bool" where
  "registry_inv g \<longleftrightarrow>
     tree_ok (wildcardTree g) \<and>
     names (wildcardTree g) = dom (mappedPlayerNames g) \<and>
     (\<forall>n p. mappedPlayerNames g n = Some p \<longrightarrow> n \<noteq> [] \<and> to_lower_copy (p_name p) = n) \<and>
     ran (mappedPlayerGuids g) = ran (mappedPlayerNames g) \<and>
     ran (players g) = ran (mappedPlayerNames g) \<and>
     (\<forall>k p. mappedPlayerGuids g k = Some p \<longrightarrow> p_guid p = k) \<and>
     (\<forall>k p. players g k = Some p \<longrightarrow> p_id p = k)"

text \<open>A player not yet online under its name, identifier or account-wide identifier.\<close>

definition fresh_player :: "registry \<Rightarrow> player_ref \<Rightarrow> bool" where
  "fresh_player g p \<longleftrightarrow> p_name p \<noteq> [] \<and> mappedPlayerNames g (to_lower_copy (p_name p)) = None \<and>
     mappedPlayerGuids g (p_guid p) = None \<and> players g (p_id p) = None"

definition online :: "registry \<Rightarrow> player_ref set" where
  "online g = ran (players g)"

lemma registry_inv_empty: "registry_inv empty_registry"
proof -
  have "names empty_tree = {}"
    unfolding names_def empty_tree_def by (auto simp: has_name_prunable prunable_def)
  then show ?thesis
    by (simp add: registry_inv_def empty_registry_def tree_ok_def empty_tree_def wf_node_leaf)
qed

lemma addPlayer_inv [inv_intros]:
  assumes "registry_inv g" and "fresh_player g p" and "addPlayer g p = Some g'"
  shows "registry_inv g' \<and> online g' = insert p (online g)"
proof -
  from assms(3) obtain t where t: "insert_name (wildcardTree g) (to_lower_copy (p_name p)) = Some t"
    and g': "g' = g\<lparr>mappedPlayerNames := (mappedPlayerNames g)(to_lower_copy (p_name p) \<mapsto> p),
          mappedPlayerGuids := (mappedPlayerGuids g)(p_guid p \<mapsto> p), wildcardTree := t,
          players := (players g)(p_id p \<mapsto> p)\<rparr>"
    by (auto simp: addPlayer_def Let_def split: option.splits)
  have ok: "tree_ok (wildcardTree g)" using assms(1) by (simp add: registry_inv_def)
  show ?thesis
    using assms(1,2) wt.ins_ok [OF ok t] wt.ins_nms [OF ok t]
    by (auto simp: g' registry_inv_def fresh_player_def online_def)
qed

lemma ran_upd_None:
  "inj_on m (dom m) \<Longrightarrow> m k = Some v \<Longrightarrow> ran (m(k := None)) = ran m - {v}"
proof -
  assume "inj_on m (dom m)" and k: "m k = Some v"
  then have only: "j = k" if "m j = Some v" for j
    using that by (metis domI inj_onD)
  show ?thesis
  proof (intro set_eqI iffI)
    fix x assume "x \<in> ran (m(k := None))"
    then obtain j where "j \<noteq> k" "m j = Some x" by (auto simp: ran_def split: if_splits)
    then show "x \<in> ran m - {v}" using only by (auto simp: ran_def)
  next
    fix x assume "x \<in> ran m - {v}"
    then obtain j where j: "m j = Some x" "x \<noteq> v" by (auto simp: ran_def)
    with k have "j \<noteq> k" by auto
    with j show "x \<in> ran (m(k := None))" by (auto simp: ran_def)
  qed
qed

lemma removePlayer_inv [inv_intros]:
  assumes inv: "registry_inv g" and p: "p \<in> online g"
  shows "registry_inv (removePlayer g p) \<and> online (removePlayer g p) = online g - {p}"
proof -
  let ?n = "to_lower_copy (p_name p)"
  have inj: "inj_on (mappedPlayerNames g) (dom (mappedPlayerNames g))"
    "inj_on (mappedPlayerGuids g) (dom (mappedPlayerGuids g))"
    "inj_on (players g) (dom (players g))"
    using inv by (auto simp: registry_inv_def inj_on_def dom_def) metis+
  have rans: "p \<in> ran (mappedPlayerNames g)" "p \<in> ran (mappedPlayerGuids g)" "p \<in> ran (players g)"
    using inv p by (auto simp: registry_inv_def online_def)
  then have at: "mappedPlayerNames g ?n = Some p" "mappedPlayerGuids g (p_guid p) = Some p"
    "players g (p_id p) = Some p"
    using inv by (auto simp: registry_inv_def ran_def)
  have ok: "tree_ok (wildcardTree g)" using inv by (simp add: registry_inv_def)
  show ?thesis
    using inv wt.del_ok [OF ok, of ?n] wt.del_nms [OF ok refl, of ?n]
    by (auto simp: removePlayer_def Let_def registry_inv_def online_def
        ran_upd_None [OF inj(1) at(1)] ran_upd_None [OF inj(2) at(2)] ran_upd_None [OF inj(3) at(3)])
qed

text \<open>A name found by the lookup of names is an online player of that name, and back.\<close>

lemma getPlayerByName_iff:
  "registry_inv g \<Longrightarrow> getPlayerByName g s = Some p \<longleftrightarrow>
     p \<in> online g \<and> to_lower_copy (p_name p) = to_lower_copy s"
  by (auto simp: getPlayerByName_def registry_inv_def online_def ran_def)

section \<open>Lookup by a prefix ending in a tilde\<close>

definition online_with_prefix :: "registry \<Rightarrow> string \<Rightarrow> player_ref set" where
  "online_with_prefix g q =
     {p \<in> online g. take (length q) (to_lower_copy (p_name p)) = to_lower_copy q}"

lemma online_with_prefix_names:
  assumes "registry_inv g"
  shows "{u \<in> names (wildcardTree g). take (length q) u = to_lower_copy q} =
    (\<lambda>p. to_lower_copy (p_name p)) ` online_with_prefix g q"
  using assms by (force simp: online_with_prefix_def registry_inv_def online_def ran_def dom_def)

lemma online_names_inj:
  "registry_inv g \<Longrightarrow> inj_on (\<lambda>p. to_lower_copy (p_name p)) (online g)"
  by (intro inj_onI) (metis getPlayerByName_iff option.inject)

lemma getPlayerByName_of_online:
  "registry_inv g \<Longrightarrow> p \<in> online g \<Longrightarrow> getPlayerByName g (to_lower_copy (p_name p)) = Some p"
  using getPlayerByName_iff [of g "to_lower_copy (p_name p)" p] by (simp add: comp_def)

lemma getPlayerByName_Nil [simp]: "getPlayerByName g [] = None"
  by (simp add: getPlayerByName_def)

lemma wildcard_lookup:
  assumes inv: "registry_inv g" and len: "length q < PLAYER_NAME_LENGTH"
  shows "getPlayerByNameWildcard g (q @ ''~'') =
    (if online_with_prefix g q = {} then Inl NotOnline
     else if \<exists>p. online_with_prefix g q = {p} then Inr (the_elem (online_with_prefix g q))
     else Inl TooAmbiguous)"
proof -
  let ?f = "\<lambda>p. to_lower_copy (p_name p)" and ?M = "online_with_prefix g q"
  let ?find = "findOne (wildcardTree g) (to_lower_copy q)"
  have res: "getPlayerByNameWildcard g (q @ ''~'') =
      (case ?find of
         PLAYERWITHTHISNAMEISNOTONLINE \<Rightarrow> Inl NotOnline
       | NAMEISTOOAMBIGUOUS \<Rightarrow> Inl TooAmbiguous
       | FOUND result \<Rightarrow>
           (case getPlayerByName g result of None \<Rightarrow> Inl NotOnline | Some p \<Rightarrow> Inr p))"
    using len by (simp add: getPlayerByNameWildcard_def)
  have ok: "tree_ok (wildcardTree g)" using inv by (simp add: registry_inv_def)
  have names: "{u \<in> names (wildcardTree g). take (length (to_lower_copy q)) u = to_lower_copy q} = ?f ` ?M"
    using online_with_prefix_names [OF inv] by simp
  have sub: "?M \<subseteq> online g" by (auto simp: online_with_prefix_def)
  have inj: "inj_on ?f ?M" using online_names_inj [OF inv] sub by (rule inj_on_subset)
  show ?thesis
  proof (cases ?find)
    case (FOUND r)
    from wt.find_found [OF ok FOUND] consider "?f ` ?M = {r}" | "?f ` ?M = {}" "r = []"
      unfolding names [symmetric] by auto
    then show ?thesis
    proof cases
      case 1
      then obtain p where "p \<in> ?M" and r: "r = ?f p" by blast
      moreover have "p' = p" if "p' \<in> ?M" for p'
        using that 1 r \<open>p \<in> ?M\<close> inj_onD [OF inj, of p' p] by blast
      ultimately have p: "?M = {p}" "r = ?f p" by blast+
      with sub have "getPlayerByName g r = Some p" using getPlayerByName_of_online [OF inv] by simp
      with p FOUND res show ?thesis by simp
    qed (use FOUND res in simp)
  next
    case PLAYERWITHTHISNAMEISNOTONLINE
    with wt.find_none [OF ok this] res show ?thesis unfolding names by simp
  next
    case NAMEISTOOAMBIGUOUS
    from wt.find_many [OF ok this] obtain u u' where "u \<noteq> u'" "u \<in> ?f ` ?M" "u' \<in> ?f ` ?M"
      unfolding names by blast
    then have "?M \<noteq> {}" "\<not> (\<exists>p. ?M = {p})" by auto
    with NAMEISTOOAMBIGUOUS res show ?thesis by simp
  qed
qed

section \<open>Properties\<close>

text \<open>Looking up a query followed by a tilde, in a consistent registry, returns the one online
  player whose name starts with the query (ignoring case); it reports that nobody is online under
  that name when there is no such player, and ambiguity when there are several.\<close>

theorem wildcard_lookup_finds_the_only_match:
  assumes "registry_inv g" and "length q < PLAYER_NAME_LENGTH"
  shows "(getPlayerByNameWildcard g (q @ ''~'') = Inr p \<longleftrightarrow> online_with_prefix g q = {p}) \<and>
    (getPlayerByNameWildcard g (q @ ''~'') = Inl NotOnline \<longleftrightarrow> online_with_prefix g q = {})"
proof (cases "\<exists>r. online_with_prefix g q = {r}")
  case True
  then obtain r where r: "online_with_prefix g q = {r}" ..
  have "getPlayerByNameWildcard g (q @ ''~'') = Inr r"
    unfolding wildcard_lookup [OF assms] r by simp
  then show ?thesis using r by auto
next
  case False
  then have "online_with_prefix g q \<noteq> {p}" by blast
  with False show ?thesis unfolding wildcard_lookup [OF assms] by simp
qed

definition bob :: player_ref where "bob = \<lparr>p_id = 1, p_guid = 7, p_name = ''Bob''\<rparr>"

definition with_bob :: registry where "with_bob = the (addPlayer empty_registry bob)"

lemma with_bob_inv: "registry_inv with_bob \<and> online with_bob = {bob}"
proof -
  have "addPlayer empty_registry bob \<noteq> None" by code_simp
  then have "addPlayer empty_registry bob = Some with_bob" by (simp add: with_bob_def)
  moreover have "fresh_player empty_registry bob" by code_simp
  ultimately show ?thesis
    using addPlayer_inv [OF registry_inv_empty, of bob with_bob]
    by (simp add: online_def empty_registry_def)
qed

theorem wildcard_lookup_finds_the_only_match_witness:
  "getPlayerByNameWildcard with_bob ''bO~'' = Inr bob"
proof -
  have "online_with_prefix with_bob ''bO'' = {bob}"
  proof -
    have "to_lower_copy ''bO'' = ''bo''" "to_lower_copy (p_name bob) = ''bob''" by code_simp+
    then show ?thesis using with_bob_inv unfolding online_with_prefix_def by auto
  qed
  then show ?thesis
    using wildcard_lookup_finds_the_only_match [of with_bob "''bO''" bob] with_bob_inv
    by (simp add: PLAYER_NAME_LENGTH_def)
qed

end
