(* ===== verification/Chat.thy ===== *)
theory Chat
  imports OrderedMap PlayerIndex
begin

text \<open>
  Chat channels, \<open>src/src/chat.cpp\<close>: normal, guild, party and private channels, who is in them and
  who hears what. A pointer to a player is the player's reference; a party is a number. The
  channel scripts are arguments: their verdict on joining, entering and speaking. What the server
  sends to clients is a list of notices.
\<close>

section \<open>Data\<close>

definition CHANNEL_GUILD :: u16 where "CHANNEL_GUILD = 0"
definition CHANNEL_PARTY :: u16 where "CHANNEL_PARTY = 1"
definition CHANNEL_PRIVATE :: u16 where "CHANNEL_PRIVATE = 0xFFFF"
definition TALKTYPE_CHANNEL_Y :: u8 where "TALKTYPE_CHANNEL_Y = 7"
definition TALKTYPE_CHANNEL_O :: u8 where "TALKTYPE_CHANNEL_O = 15"

text \<open>The player as the chat sees it.\<close>

record guild_ref =
  guild_id :: u32
  guild_name :: string
  guild_motd :: string

record chatter =
  who :: player_ref
  chat_guild :: "guild_ref option"
  chat_rank_level :: "u8 option"
  chat_party :: "nat option"
  premium :: bool
  female :: bool

record channel =
  ch_id :: u16
  ch_name :: string
  users :: "(u32, player_ref) omap"
  canJoinEvent :: int
  onJoinEvent :: int
  onLeaveEvent :: int
  onSpeakEvent :: int
  publicChannel :: bool

record private_channel = channel +
  invites :: "(u32, player_ref) omap"
  ch_owner :: u32

text \<open>The scripts of the channels: an event identifier and a player give a verdict; the speak event may
  change the type of the message.\<close>

record scripts =
  run_canJoin :: "int \<Rightarrow> chatter \<Rightarrow> bool"
  run_onJoin :: "int \<Rightarrow> chatter \<Rightarrow> bool"
  run_onSpeak :: "int \<Rightarrow> chatter \<Rightarrow> u8 \<Rightarrow> string \<Rightarrow> bool \<times> u8"

datatype notice =
  TextNotice player_ref string
| ClosePrivate player_ref u16
| ChannelNotice player_ref string u8 u16 \<comment> \<open>to, text, type, channel\<close>
| Speech player_ref player_ref u8 string u16 \<comment> \<open>to, from, type, text, channel\<close>
| ScheduleMotd u32

record chat =
  normalChannels :: "(u16, channel) omap"
  privateChannels :: "(u16, private_channel) omap"
  partyChannels :: "(nat, channel) omap"
  guildChannels :: "(u32, channel) omap"

definition no_channels :: chat where
  "no_channels = \<lparr>normalChannels = [], privateChannels = [], partyChannels = [], guildChannels = []\<rparr>"

definition new_channel :: "u16 \<Rightarrow> string \<Rightarrow> channel" where
  "new_channel i n = \<lparr>ch_id = i, ch_name = n, users = [], canJoinEvent = -1, onJoinEvent = -1,
     onLeaveEvent = -1, onSpeakEvent = -1, publicChannel = False\<rparr>"

definition new_private :: "u16 \<Rightarrow> string \<Rightarrow> private_channel" where
  "new_private i n = \<lparr>ch_id = i, ch_name = n, users = [], canJoinEvent = -1, onJoinEvent = -1,
     onLeaveEvent = -1, onSpeakEvent = -1, publicChannel = False, invites = [], ch_owner = 0\<rparr>"

section \<open>One channel\<close>

definition executeCanJoinEvent :: "scripts \<Rightarrow> 'a channel_scheme \<Rightarrow> chatter \<Rightarrow> bool" where
  "executeCanJoinEvent sc c p = (if canJoinEvent c = -1 then True else run_canJoin sc (canJoinEvent c) p)"

definition executeOnJoinEvent :: "scripts \<Rightarrow> 'a channel_scheme \<Rightarrow> chatter \<Rightarrow> bool" where
  "executeOnJoinEvent sc c p = (if onJoinEvent c = -1 then True else run_onJoin sc (onJoinEvent c) p)"

definition executeOnSpeakEvent :: "scripts \<Rightarrow> 'a channel_scheme \<Rightarrow> chatter \<Rightarrow> u8 \<Rightarrow> string \<Rightarrow> bool \<times> u8" where
  "executeOnSpeakEvent sc c p ty text =
     (if onSpeakEvent c = -1 then (True, ty) else run_onSpeak sc (onSpeakEvent c) p ty text)"

definition addUser :: "scripts \<Rightarrow> chatter \<Rightarrow> 'a channel_scheme \<Rightarrow> bool \<times> 'a channel_scheme \<times> notice list" where
  "addUser sc p c =
     (if omap_find (users c) (p_id (who p)) \<noteq> None then (False, c, [])
      else if \<not> executeOnJoinEvent sc c p then (False, c, [])
      else
        (True, c\<lparr>users := omap_put (p_id (who p)) (who p) (users c)\<rparr>,
         if ch_id c = CHANNEL_GUILD \<and> (case chat_guild p of Some g \<Rightarrow> guild_motd g \<noteq> [] | None \<Rightarrow> False)
         then [ScheduleMotd (p_id (who p))] else []))"

definition removeUser :: "player_ref \<Rightarrow> 'a channel_scheme \<Rightarrow> bool \<times> 'a channel_scheme" where
  "removeUser p c =
     (if omap_find (users c) (p_id p) = None then (False, c)
      else (True, c\<lparr>users := omap_erase (p_id p) (users c)\<rparr>))"

definition hasUser :: "player_ref \<Rightarrow> 'a channel_scheme \<Rightarrow> bool" where
  "hasUser p c = (omap_find (users c) (p_id p) \<noteq> None)"

definition sendToAll :: "string \<Rightarrow> u8 \<Rightarrow> 'a channel_scheme \<Rightarrow> notice list" where
  "sendToAll msg ty c = map (\<lambda>(_, u). ChannelNotice u msg ty (ch_id c)) (users c)"

definition talk :: "player_ref \<Rightarrow> u8 \<Rightarrow> string \<Rightarrow> 'a channel_scheme \<Rightarrow> bool \<times> notice list" where
  "talk fromPlayer ty text c =
     (if omap_find (users c) (p_id fromPlayer) = None then (False, [])
      else (True, map (\<lambda>(_, u). Speech u fromPlayer ty text (ch_id c)) (users c)))"

section \<open>Private channels\<close>

definition isInvited :: "u32 \<Rightarrow> private_channel \<Rightarrow> bool" where
  "isInvited guid c = (if guid = ch_owner c then True else omap_find (invites c) guid \<noteq> None)"

definition removeInvite :: "u32 \<Rightarrow> private_channel \<Rightarrow> bool \<times> private_channel" where
  "removeInvite guid c = (omap_find (invites c) guid \<noteq> None, c\<lparr>invites := omap_erase guid (invites c)\<rparr>)"

definition invitePlayer :: "chatter \<Rightarrow> player_ref \<Rightarrow> private_channel \<Rightarrow> private_channel \<times> notice list" where
  "invitePlayer player invitee c =
     (case omap_emplace (p_guid invitee) invitee (invites c) of (inserted, m) \<Rightarrow>
        if \<not> inserted then (c, [])
        else (c\<lparr>invites := m\<rparr>,
          [TextNotice invitee (p_name (who player) @ '' invites you to '' @
             (if female player then ''her'' else ''his'') @ '' private chat channel.''),
           TextNotice (who player) (p_name invitee @ '' has been invited.'')]))"

definition excludePlayer :: "player_ref \<Rightarrow> player_ref \<Rightarrow> private_channel \<Rightarrow> private_channel \<times> notice list" where
  "excludePlayer player excluded c =
     (case removeInvite (p_guid excluded) c of (removed, c1) \<Rightarrow>
        if \<not> removed then (c, [])
        else (snd (removeUser excluded c1),
          [TextNotice player (p_name excluded @ '' has been excluded.''), ClosePrivate excluded (ch_id c)]))"

definition closeChannel :: "private_channel \<Rightarrow> notice list" where
  "closeChannel c = map (\<lambda>(_, u). ClosePrivate u (ch_id c)) (users c)"

section \<open>All channels\<close>

text \<open>A pointer to a channel inside one of the maps.\<close>

datatype channel_ref = NormalRef u16 | PrivateRef u16 | PartyRef nat | GuildRef u32 | DummyPrivate

definition getPrivateChannel :: "chatter \<Rightarrow> chat \<Rightarrow> u16 option" where
  "getPrivateChannel p c =
     map_option fst (List.find (\<lambda>(_, ch). ch_owner ch = p_guid (who p)) (privateChannels c))"

definition getChannel :: "scripts \<Rightarrow> chatter \<Rightarrow> u16 \<Rightarrow> chat \<Rightarrow> channel_ref option" where
  "getChannel sc p channelId c =
     (if channelId = CHANNEL_GUILD then
        (case chat_guild p of
           None \<Rightarrow> None
         | Some g \<Rightarrow> if omap_find (guildChannels c) (guild_id g) \<noteq> None then Some (GuildRef (guild_id g)) else None)
      else if channelId = CHANNEL_PARTY then
        (case chat_party p of
           None \<Rightarrow> None
         | Some party \<Rightarrow> if omap_find (partyChannels c) party \<noteq> None then Some (PartyRef party) else None)
      else
        (case omap_find (normalChannels c) channelId of
           Some ch \<Rightarrow> if \<not> executeCanJoinEvent sc ch p then None else Some (NormalRef channelId)
         | None \<Rightarrow>
             (case omap_find (privateChannels c) channelId of
                Some ch \<Rightarrow> if isInvited (p_guid (who p)) ch then Some (PrivateRef channelId) else None
              | None \<Rightarrow> None)))"

text \<open>The first free slot, \<open>for (i = 100; i < 10000; ++i)\<close>.\<close>

fun free_slot :: "nat \<Rightarrow> u16 \<Rightarrow> (u16, private_channel) omap \<Rightarrow> u16 option" where
  "free_slot 0 i m = None"
| "free_slot (Suc n) i m = (if omap_find m i = None then Some i else free_slot n (i + 1) m)"

definition own_channel :: "chatter \<Rightarrow> u16 \<Rightarrow> private_channel" where
  "own_channel p i = (new_private i (p_name (who p) @ [CHR 0x27] @ ''s Channel''))\<lparr>ch_owner := p_guid (who p)\<rparr>"

definition createChannel :: "scripts \<Rightarrow> chatter \<Rightarrow> u16 \<Rightarrow> chat \<Rightarrow> channel_ref option \<times> chat" where
  "createChannel sc p channelId c =
     (if getChannel sc p channelId c \<noteq> None then (None, c)
      else if channelId = CHANNEL_GUILD then
        (case chat_guild p of
           Some g \<Rightarrow>
             (Some (GuildRef (guild_id g)),
              c\<lparr>guildChannels := snd (omap_emplace (guild_id g) (new_channel channelId (guild_name g)) (guildChannels c))\<rparr>)
         | None \<Rightarrow> (None, c))
      else if channelId = CHANNEL_PARTY then
        (case chat_party p of
           Some party \<Rightarrow>
             (Some (PartyRef party),
              c\<lparr>partyChannels := snd (omap_emplace party (new_channel channelId ''Party'') (partyChannels c))\<rparr>)
         | None \<Rightarrow> (None, c))
      else if channelId = CHANNEL_PRIVATE then
        (if \<not> premium p \<or> getPrivateChannel p c \<noteq> None then (None, c)
         else (case free_slot 9900 100 (privateChannels c) of
             None \<Rightarrow> (None, c)
           | Some i \<Rightarrow>
               (Some (PrivateRef i),
                c\<lparr>privateChannels := omap_put i
                    (own_channel p i)
                    (privateChannels c)\<rparr>)))
      else (None, c))"

definition deleteChannel :: "chatter \<Rightarrow> u16 \<Rightarrow> chat \<Rightarrow> bool \<times> chat \<times> notice list" where
  "deleteChannel p channelId c =
     (if channelId = CHANNEL_GUILD then
        (case chat_guild p of
           None \<Rightarrow> (False, c, [])
         | Some g \<Rightarrow> if omap_find (guildChannels c) (guild_id g) = None then (False, c, [])
                    else (True, c\<lparr>guildChannels := omap_erase (guild_id g) (guildChannels c)\<rparr>, []))
      else if channelId = CHANNEL_PARTY then
        (case chat_party p of
           None \<Rightarrow> (False, c, [])
         | Some party \<Rightarrow> if omap_find (partyChannels c) party = None then (False, c, [])
                    else (True, c\<lparr>partyChannels := omap_erase party (partyChannels c)\<rparr>, []))
      else
        (case omap_find (privateChannels c) channelId of
           None \<Rightarrow> (False, c, [])
         | Some ch \<Rightarrow> (True, c\<lparr>privateChannels := omap_erase channelId (privateChannels c)\<rparr>, closeChannel ch)))"

text \<open>Operations on the channel a pointer refers to.\<close>

definition on_channel ::
  "(channel \<Rightarrow> 'r \<times> channel \<times> notice list) \<Rightarrow> (private_channel \<Rightarrow> 'r \<times> private_channel \<times> notice list) \<Rightarrow>
   channel_ref \<Rightarrow> chat \<Rightarrow> ('r \<times> chat \<times> notice list) option" where
  "on_channel f g r c =
     (case r of
        NormalRef i \<Rightarrow> map_option (\<lambda>ch. case f ch of (b, ch', ns) \<Rightarrow> (b, c\<lparr>normalChannels := omap_put i ch' (normalChannels c)\<rparr>, ns))
          (omap_find (normalChannels c) i)
      | PrivateRef i \<Rightarrow> map_option (\<lambda>ch. case g ch of (b, ch', ns) \<Rightarrow> (b, c\<lparr>privateChannels := omap_put i ch' (privateChannels c)\<rparr>, ns))
          (omap_find (privateChannels c) i)
      | PartyRef i \<Rightarrow> map_option (\<lambda>ch. case f ch of (b, ch', ns) \<Rightarrow> (b, c\<lparr>partyChannels := omap_put i ch' (partyChannels c)\<rparr>, ns))
          (omap_find (partyChannels c) i)
      | GuildRef i \<Rightarrow> map_option (\<lambda>ch. case f ch of (b, ch', ns) \<Rightarrow> (b, c\<lparr>guildChannels := omap_put i ch' (guildChannels c)\<rparr>, ns))
          (omap_find (guildChannels c) i)
      | DummyPrivate \<Rightarrow> None)"

definition addUserToChannel :: "scripts \<Rightarrow> chatter \<Rightarrow> u16 \<Rightarrow> chat \<Rightarrow> channel_ref option \<times> chat \<times> notice list" where
  "addUserToChannel sc p channelId c =
     (case getChannel sc p channelId c of
        None \<Rightarrow> (None, c, [])
      | Some r \<Rightarrow>
          (case on_channel (addUser sc p) (addUser sc p) r c of
             None \<Rightarrow> (None, c, [])
           | Some (ok, c', ns) \<Rightarrow> (if ok then Some r else None, c', ns)))"

definition channel_owner :: "channel_ref \<Rightarrow> chat \<Rightarrow> u32" where
  "channel_owner r c =
     (case r of PrivateRef i \<Rightarrow> (case omap_find (privateChannels c) i of Some ch \<Rightarrow> ch_owner ch | None \<Rightarrow> 0) | _ \<Rightarrow> 0)"

definition leaveChannel :: "player_ref \<Rightarrow> channel_ref \<Rightarrow> chat \<Rightarrow> (bool \<times> chat \<times> notice list) option" where
  "leaveChannel p r c =
     on_channel (\<lambda>ch. case removeUser p ch of (b, ch') \<Rightarrow> (b, ch', [])) (\<lambda>ch. case removeUser p ch of (b, ch') \<Rightarrow> (b, ch', [])) r c"

definition removeUserFromChannel :: "scripts \<Rightarrow> chatter \<Rightarrow> u16 \<Rightarrow> chat \<Rightarrow> bool \<times> chat \<times> notice list" where
  "removeUserFromChannel sc p channelId c =
     (case getChannel sc p channelId c of
        None \<Rightarrow> (False, c, [])
      | Some r \<Rightarrow>
          (case leaveChannel (who p) r c of
             None \<Rightarrow> (False, c, [])
           | Some (left, c1, ns) \<Rightarrow>
               if \<not> left then (False, c1, ns)
               else if channel_owner r c1 = p_guid (who p) then
                 (case deleteChannel p channelId c1 of (_, c2, ns2) \<Rightarrow> (True, c2, ns @ ns2))
               else (True, c1, ns)))"

text \<open>The loop over the private channels: invitation and membership go, and so does an own channel.\<close>

definition forget_player :: "player_ref \<Rightarrow> private_channel \<Rightarrow> private_channel" where
  "forget_player p ch = snd (removeUser p (snd (removeInvite (p_guid p) ch)))"

fun forget_private :: "player_ref \<Rightarrow> (u16, private_channel) omap \<Rightarrow> (u16, private_channel) omap \<times> notice list" where
  "forget_private p [] = ([], [])"
| "forget_private p ((k, ch) # m) =
     (let ch' = forget_player p ch;
          (m', ns) = forget_private p m
      in if ch_owner ch' = p_guid p then (m', closeChannel ch' @ ns) else ((k, ch') # m', ns))"

definition removeUserFromAllChannels :: "player_ref \<Rightarrow> chat \<Rightarrow> chat \<times> notice list" where
  "removeUserFromAllChannels p c =
     (case forget_private p (privateChannels c) of (m, ns) \<Rightarrow>
        (c\<lparr>normalChannels := omap_values (\<lambda>_ ch. snd (removeUser p ch)) (normalChannels c),
           partyChannels := omap_values (\<lambda>_ ch. snd (removeUser p ch)) (partyChannels c),
           guildChannels := omap_values (\<lambda>_ ch. snd (removeUser p ch)) (guildChannels c),
           privateChannels := m\<rparr>, ns))"

definition talkToChannel :: "scripts \<Rightarrow> chatter \<Rightarrow> u8 \<Rightarrow> string \<Rightarrow> u16 \<Rightarrow> chat \<Rightarrow> bool \<times> notice list" where
  "talkToChannel sc p ty text channelId c =
     (case getChannel sc p channelId c of
        None \<Rightarrow> (False, [])
      | Some r \<Rightarrow>
          let ty1 = (if channelId = CHANNEL_GUILD then
                       (case chat_rank_level p of
                          Some level \<Rightarrow> if level > 1 then TALKTYPE_CHANNEL_O else TALKTYPE_CHANNEL_Y
                        | None \<Rightarrow> TALKTYPE_CHANNEL_Y)
                     else if channelId = CHANNEL_PRIVATE \<or> channelId = CHANNEL_PARTY then TALKTYPE_CHANNEL_Y
                     else ty)
          in (case on_channel
                (\<lambda>ch. case executeOnSpeakEvent sc ch p ty1 text of (ok, ty2) \<Rightarrow>
                   (if ok then talk (who p) ty2 text ch else (False, []), ch, []))
                (\<lambda>ch. case executeOnSpeakEvent sc ch p ty1 text of (ok, ty2) \<Rightarrow>
                   (if ok then talk (who p) ty2 text ch else (False, []), ch, [])) r c of
              None \<Rightarrow> (False, []) | Some (res, _, _) \<Rightarrow> res))"

definition find_or_create :: "scripts \<Rightarrow> chatter \<Rightarrow> u16 \<Rightarrow> chat \<Rightarrow> channel_ref list \<times> chat" where
  "find_or_create sc p channelId c =
     (case getChannel sc p channelId c of
        Some r \<Rightarrow> ([r], c)
      | None \<Rightarrow>
          (case createChannel sc p channelId c of
             (Some r, c') \<Rightarrow> ([r], c') | (None, c') \<Rightarrow> ([], c')))"

definition getChannelList :: "scripts \<Rightarrow> chatter \<Rightarrow> chat \<Rightarrow> channel_ref list \<times> chat" where
  "getChannelList sc p c =
     (let (l1, c1) = (if chat_guild p \<noteq> None then find_or_create sc p CHANNEL_GUILD c else ([], c));
          (l2, c2) = (if chat_party p \<noteq> None then find_or_create sc p CHANNEL_PARTY c1 else ([], c1));
          l3 = List.map_filter (\<lambda>(k, _). getChannel sc p k c2) (normalChannels c2);
          l4 = map (\<lambda>(k, _). PrivateRef k) (filter (\<lambda>(_, ch). isInvited (p_guid (who p)) ch) (privateChannels c2));
          hasPrivate = list_ex (\<lambda>(_, ch). ch_owner ch = p_guid (who p)) (privateChannels c2);
          l = l1 @ l2 @ l3 @ l4
      in (if \<not> hasPrivate \<and> premium p then DummyPrivate # l else l, c2))"

definition getGuildChannelById :: "u32 \<Rightarrow> chat \<Rightarrow> channel option" where
  "getGuildChannelById guildId c = omap_find (guildChannels c) guildId"

definition getChannelById :: "u16 \<Rightarrow> chat \<Rightarrow> channel option" where
  "getChannelById channelId c = omap_find (normalChannels c) channelId"

text \<open>
  \<open>load\<close>: a row of the channel list with the events of its script: \<open>None\<close> without a script, \<open>Some None\<close>
  when the script cannot be loaded.
\<close>

record channel_row =
  row_id :: u16
  row_channel_name :: string
  row_public :: bool
  row_script :: "(int \<times> int \<times> int \<times> int) option option" \<comment> \<open>speak, can join, join, leave\<close>

definition set_events :: "(int \<times> int \<times> int \<times> int) option option \<Rightarrow> channel \<Rightarrow> channel" where
  "set_events s ch =
     (case s of
        Some (Some (spk, can, join, leave)) \<Rightarrow>
          ch\<lparr>onSpeakEvent := spk, canJoinEvent := can, onJoinEvent := join, onLeaveEvent := leave\<rparr>
      | _ \<Rightarrow> ch)"

text \<open>The former users enter again, which the new scripts may refuse; what is known of a user comes from \<open>info\<close>.\<close>

definition readd_users :: "scripts \<Rightarrow> (player_ref \<Rightarrow> chatter) \<Rightarrow> (u32, player_ref) omap \<Rightarrow> channel \<Rightarrow> channel" where
  "readd_users sc info old ch = fold (\<lambda>(_, u) ch. fst (snd (addUser sc (info u) ch))) old ch"

definition load_row :: "scripts \<Rightarrow> (player_ref \<Rightarrow> chatter) \<Rightarrow> channel_row \<Rightarrow> chat \<Rightarrow> chat" where
  "load_row sc info row c =
     (case omap_find (normalChannels c) (row_id row) of
        Some ch \<Rightarrow>
          let ch1 = set_events (row_script row) (ch\<lparr>publicChannel := row_public row, ch_name := row_channel_name row\<rparr>);
              ch2 = readd_users sc info (users ch1) (ch1\<lparr>users := []\<rparr>)
          in c\<lparr>normalChannels := omap_put (row_id row) ch2 (normalChannels c)\<rparr>
      | None \<Rightarrow>
          let ch = set_events (row_script row) ((new_channel (row_id row) (row_channel_name row))\<lparr>publicChannel := row_public row\<rparr>)
          in c\<lparr>normalChannels := omap_put (row_id row) ch (normalChannels c)\<rparr>)"

definition load :: "scripts \<Rightarrow> (player_ref \<Rightarrow> chatter) \<Rightarrow> channel_row list option \<Rightarrow> chat \<Rightarrow> bool \<times> chat" where
  "load sc info rows c =
     (case rows of None \<Rightarrow> (False, c) | Some rs \<Rightarrow> (True, fold (load_row sc info) rs c))"

section \<open>Requests of players\<close>

definition playerCreatePrivateChannel :: "scripts \<Rightarrow> chatter \<Rightarrow> chat \<Rightarrow> chat" where
  "playerCreatePrivateChannel sc p c =
     (if \<not> premium p then c
      else case createChannel sc p CHANNEL_PRIVATE c of
        (None, c1) \<Rightarrow> c1
      | (Some r, c1) \<Rightarrow> (case on_channel (addUser sc p) (addUser sc p) r c1 of None \<Rightarrow> c1 | Some (_, c2, _) \<Rightarrow> c2))"

definition playerChannelInvite :: "chatter \<Rightarrow> player_ref option \<Rightarrow> chat \<Rightarrow> chat \<times> notice list" where
  "playerChannelInvite p invitee c =
     (case getPrivateChannel p c of
        None \<Rightarrow> (c, [])
      | Some i \<Rightarrow>
          (case invitee of
             None \<Rightarrow> (c, [])
           | Some q \<Rightarrow>
               if who p = q then (c, [])
               else (case omap_find (privateChannels c) i of
                   None \<Rightarrow> (c, [])
                 | Some ch \<Rightarrow> (case invitePlayer p q ch of (ch', ns) \<Rightarrow>
                     (c\<lparr>privateChannels := omap_put i ch' (privateChannels c)\<rparr>, ns)))))"

definition playerChannelExclude :: "chatter \<Rightarrow> player_ref option \<Rightarrow> chat \<Rightarrow> chat \<times> notice list" where
  "playerChannelExclude p excluded c =
     (case getPrivateChannel p c of
        None \<Rightarrow> (c, [])
      | Some i \<Rightarrow>
          (case excluded of
             None \<Rightarrow> (c, [])
           | Some q \<Rightarrow>
               if who p = q then (c, [])
               else (case omap_find (privateChannels c) i of
                   None \<Rightarrow> (c, [])
                 | Some ch \<Rightarrow> (case excludePlayer (who p) q ch of (ch', ns) \<Rightarrow>
                     (c\<lparr>privateChannels := omap_put i ch' (privateChannels c)\<rparr>, ns)))))"

section \<open>Invariant\<close>

text \<open>
  A private channel has its number in the private range, and everyone in it is one of the players \<open>known\<close>, and its owner or
  invited. Further down, the players known are those in the game.
\<close>

definition private_ok :: "player_ref set \<Rightarrow> u16 \<Rightarrow> private_channel \<Rightarrow> bool" where
  "private_ok known k ch \<longleftrightarrow> 100 \<le> k \<and> k < 10000 \<and> ch_id ch = k \<and> omap_ok (users ch) \<and>
     (\<forall>i u. omap_find (users ch) i = Some u \<longrightarrow> p_id u = i \<and> u \<in> known \<and> isInvited (p_guid u) ch)"

definition private_inv :: "player_ref set \<Rightarrow> (u16, private_channel) omap \<Rightarrow> bool" where
  "private_inv known m \<longleftrightarrow> omap_ok m \<and> om.every (private_ok known) m \<and> om.unique_by ch_owner m"

lemma private_ok_mono: "private_ok known k ch \<Longrightarrow> known \<subseteq> known' \<Longrightarrow> private_ok known' k ch"
  by (auto simp: private_ok_def)

lemma private_inv_mono: "private_inv known m \<Longrightarrow> known \<subseteq> known' \<Longrightarrow> private_inv known' m"
  using private_ok_mono unfolding private_inv_def om.every_def by blast

lemma private_inv_put:
  assumes "private_inv known m" "omap_find m k = Some ch" "private_ok known k ch'" "ch_owner ch' = ch_owner ch"
  shows "private_inv known (omap_put k ch' m)"
  using assms(1) om.every_put [of "private_ok known" m k ch'] assms(3) om.unique_put_same [of ch_owner m k ch ch', OF _ assms(2,4)]
  by (simp add: private_inv_def)

lemma private_inv_erase: "private_inv known m \<Longrightarrow> private_inv known (omap_erase k m)"
  unfolding private_inv_def by (blast intro: om.every_erase om.unique_erase omap_ok_erase)

lemma private_invD: "private_inv known m \<Longrightarrow> omap_find m k = Some ch \<Longrightarrow> private_ok known k ch"
  unfolding private_inv_def by (blast dest: om.everyD)

lemma owner_simps [simp]:
  fixes ch :: private_channel
  shows "ch_owner (fst (snd (addUser sc p ch))) = ch_owner ch"
    "ch_owner (snd (removeUser q ch)) = ch_owner ch"
    "ch_owner (snd (removeInvite g ch)) = ch_owner ch"
    "ch_owner (fst (excludePlayer q' q ch)) = ch_owner ch"
  by (simp_all add: addUser_def removeUser_def removeInvite_def excludePlayer_def case_prod_beta)

lemma addUser_private:
  assumes "private_ok known k ch" "isInvited (p_guid (who p)) ch" "who p \<in> known"
  shows "private_ok known k (fst (snd (addUser sc p ch)))"
  using assms by (auto simp: addUser_def private_ok_def isInvited_def)

lemma removeUser_private:
  assumes "private_ok known k ch"
  shows "private_ok known k (snd (removeUser p ch))"
  using assms by (auto simp: removeUser_def private_ok_def isInvited_def)

lemma invitePlayer_isInvited: "isInvited g ch \<Longrightarrow> isInvited g (fst (invitePlayer p q ch))"
  by (auto simp: invitePlayer_def omap_emplace_def isInvited_def split: option.split if_split_asm)

lemma invitePlayer_fields:
  "users (fst (invitePlayer p q ch)) = users ch" "ch_id (fst (invitePlayer p q ch)) = ch_id ch"
  "ch_owner (fst (invitePlayer p q ch)) = ch_owner ch"
  by (simp_all add: invitePlayer_def case_prod_beta)

lemma invitePlayer_private: "private_ok known k ch \<Longrightarrow> private_ok known k (fst (invitePlayer p q ch))"
  unfolding private_ok_def invitePlayer_fields by (blast intro: invitePlayer_isInvited)

lemma removeUser_gone: "\<not> hasUser p (snd (removeUser p ch))"
  by (simp add: removeUser_def hasUser_def)

text \<open>Without the invitation, and out of the channel.\<close>

lemma forget_player_private:
  assumes "private_ok known k ch" "inj_on p_guid known" "p \<in> known"
  shows "private_ok (known - {p}) k (forget_player p ch)"
  unfolding private_ok_def
proof (intro conjI allI impI)
  show "100 \<le> k" "k < 10000" "ch_id (forget_player p ch) = k" "omap_ok (users (forget_player p ch))"
    using assms(1) by (simp_all add: private_ok_def forget_player_def removeUser_def removeInvite_def)
next
  fix i u assume "omap_find (users (forget_player p ch)) i = Some u"
  then have u: "omap_find (users ch) i = Some u" "i \<noteq> p_id p"
    by (auto simp: forget_player_def removeUser_def removeInvite_def split: if_split_asm)
  then have k: "p_id u = i" "u \<in> known" "isInvited (p_guid u) ch" using assms(1) by (auto simp: private_ok_def)
  then have "p_guid u \<noteq> p_guid p" using u(2) assms(2,3) inj_onD by metis
  with k u(2) show "p_id u = i" "u \<in> known - {p}" "isInvited (p_guid u) (forget_player p ch)"
    by (auto simp: forget_player_def removeUser_def removeInvite_def isInvited_def split: if_split_asm)
qed

lemma forget_player_owner [simp]: "ch_owner (forget_player p ch) = ch_owner ch"
  by (simp add: forget_player_def removeUser_def removeInvite_def)

lemma excludePlayer_private:
  assumes "private_ok known k ch" "inj_on p_guid known" "q \<in> known"
  shows "private_ok known k (fst (excludePlayer p q ch))"
proof -
  have "fst (excludePlayer p q ch) = ch \<or> fst (excludePlayer p q ch) = forget_player q ch"
    by (simp add: excludePlayer_def forget_player_def case_prod_beta)
  then show ?thesis using assms(1) private_ok_mono [OF forget_player_private [OF assms]] by auto
qed

lemma forget_private_find:
  "omap_ok m \<Longrightarrow> omap_find (fst (forget_private p m)) k =
     (case omap_find m k of None \<Rightarrow> None
      | Some ch \<Rightarrow> if ch_owner ch = p_guid p then None else Some (forget_player p ch))"
proof (induction m)
  case (Cons a m)
  obtain k' ch where a: "a = (k', ch)" by force
  have "omap_ok m" "k' \<notin> fst ` set m" using Cons.prems by (auto simp: omap_ok_def a)
  then have "omap_find m k' = None" by (simp add: map_of_eq_None_iff)
  then show ?case using Cons.IH [OF \<open>omap_ok m\<close>]
    by (auto simp: a Let_def case_prod_beta split: option.splits)
qed simp

lemma forget_private_keys: "k \<in> set (map fst (fst (forget_private p m))) \<Longrightarrow> k \<in> set (map fst m)"
proof (induction m)
  case (Cons a m)
  then show ?case by (cases a) (simp add: Let_def case_prod_beta split: if_split_asm, blast)
qed simp

lemma forget_private_ok: "omap_ok m \<Longrightarrow> omap_ok (fst (forget_private p m))"
proof (induction m)
  case (Cons a m)
  obtain k ch where a: "a = (k, ch)" by force
  have "\<forall>x \<in> set (map fst (fst (forget_private p m))). k < x"
    using Cons.prems forget_private_keys [of _ p m] unfolding omap_ok_def a list.map sorted_wrt.simps fst_conv
    by blast
  then show ?case using Cons by (simp add: omap_ok_def a Let_def case_prod_beta)
qed simp

lemma forget_private_inv:
  assumes "private_inv known m" "inj_on p_guid known" "p \<in> known"
  shows "private_inv (known - {p}) (fst (forget_private p m))"
proof -
  have o: "omap_ok m" "om.every (private_ok known) m" "om.unique_by ch_owner m"
    using assms(1) by (simp_all add: private_inv_def)
  note f = forget_private_find [OF o(1), of p]
  have "om.every (private_ok (known - {p})) (fst (forget_private p m))"
    unfolding om.every_def f
    using forget_player_private [OF _ assms(2,3)] om.everyD [OF o(2)] by (auto split: option.splits if_split_asm)
  moreover have "om.unique_by ch_owner (fst (forget_private p m))"
    unfolding om.unique_by_def f
  proof (intro allI impI)
    fix k v k' v'
    assume "(case omap_find m k of None \<Rightarrow> None | Some ch \<Rightarrow> if ch_owner ch = p_guid p then None else Some (forget_player p ch)) = Some v"
      "(case omap_find m k' of None \<Rightarrow> None | Some ch \<Rightarrow> if ch_owner ch = p_guid p then None else Some (forget_player p ch)) = Some v'"
      "ch_owner v = ch_owner v'"
    then obtain w w' where "omap_find m k = Some w" "omap_find m k' = Some w'" "ch_owner w = ch_owner w'"
      by (auto split: option.splits if_split_asm)
    then show "k = k'" using o(3) unfolding om.unique_by_def by blast
  qed
  ultimately show ?thesis using forget_private_ok [OF o(1)] by (simp add: private_inv_def)
qed

lemma getPrivateChannel_Some:
  assumes "getPrivateChannel p c = Some i" "omap_ok (privateChannels c)"
  shows "\<exists>ch. omap_find (privateChannels c) i = Some ch \<and> ch_owner ch = p_guid (who p)"
proof -
  obtain x where x: "List.find (\<lambda>(_, ch). ch_owner ch = p_guid (who p)) (privateChannels c) = Some x" "fst x = i"
    using assms(1) by (auto simp: getPrivateChannel_def)
  then have "x \<in> set (privateChannels c)" "ch_owner (snd x) = p_guid (who p)"
    by (auto dest: find_SomeD)
  then show ?thesis using x(2) omap_mem_iff [OF assms(2), of i "snd x"] by (metis prod.collapse)
qed

lemma getPrivateChannel_None:
  "getPrivateChannel p c = None \<Longrightarrow> omap_find (privateChannels c) k = Some ch \<Longrightarrow> ch_owner ch \<noteq> p_guid (who p)"
  by (auto simp: getPrivateChannel_def find_None_iff dest!: map_of_SomeD)

lemma free_slot_Some:
  "free_slot n i m = Some j \<Longrightarrow> unat i + n \<le> 10000 \<Longrightarrow> omap_find m j = None \<and> i \<le> j \<and> j < 10000"
proof (induction n i m rule: free_slot.induct)
  case (2 n i m)
  show ?case
  proof (cases "omap_find m i = None")
    case True
    then show ?thesis using 2 by (auto simp: word_less_nat_alt)
  next
    case False
    have "unat (i + 1) = unat i + 1" using "2.prems"(2) by (simp add: unat_word_ariths)
    then show ?thesis using 2 False by (auto simp: word_le_nat_alt)
  qed
qed simp

lemma createChannel_privateChannels:
  "privateChannels (snd (createChannel sc p channelId c)) =
     (if getChannel sc p channelId c = None \<and> channelId = CHANNEL_PRIVATE \<and> premium p \<and> getPrivateChannel p c = None
      then (case free_slot 9900 100 (privateChannels c) of None \<Rightarrow> privateChannels c
        | Some i \<Rightarrow> omap_put i (own_channel p i) (privateChannels c))
      else privateChannels c)"
  by (cases "getChannel sc p channelId c")
    (auto simp: createChannel_def CHANNEL_PRIVATE_def CHANNEL_GUILD_def CHANNEL_PARTY_def split: option.split)

lemma createChannel_private:
  assumes "private_inv known (privateChannels c)"
  shows "private_inv known (privateChannels (snd (createChannel sc p channelId c)))"
proof (cases "getPrivateChannel p c = None \<and> free_slot 9900 100 (privateChannels c) \<noteq> None")
  case True
  then obtain i where i: "free_slot 9900 100 (privateChannels c) = Some i" "getPrivateChannel p c = None" by blast
  from free_slot_Some [OF i(1)] have "omap_find (privateChannels c) i = None" "100 \<le> i" "i < 10000" by simp_all
  define ch where "ch = own_channel p i"
  have "private_ok known i ch" using \<open>100 \<le> i\<close> \<open>i < 10000\<close> by (simp add: private_ok_def new_private_def ch_def own_channel_def)
  moreover have "ch_owner v \<noteq> ch_owner ch" if "omap_find (privateChannels c) k = Some v" for k v
    using getPrivateChannel_None [OF i(2) that] by (simp add: ch_def own_channel_def new_private_def)
  ultimately have "private_inv known (omap_put i ch (privateChannels c))"
    using assms om.every_put [of "private_ok known" "privateChannels c" i ch]
      om.unique_put_new [of ch_owner "privateChannels c" ch i]
    unfolding private_inv_def by (blast intro: omap_ok_put)
  then show ?thesis using assms i(1) unfolding createChannel_privateChannels ch_def by simp
next
  case False
  then show ?thesis using assms unfolding createChannel_privateChannels by (auto split: option.split)
qed

section \<open>Every operation keeps the invariant\<close>

lemma on_channel_private:
  assumes "on_channel f g r c = Some (b, c', ns)" and "private_inv known (privateChannels c)"
    and "\<And>i ch. r = PrivateRef i \<Longrightarrow> omap_find (privateChannels c) i = Some ch \<Longrightarrow>
      private_ok known i (fst (snd (g ch))) \<and> ch_owner (fst (snd (g ch))) = ch_owner ch"
  shows "private_inv known (privateChannels c')"
proof (cases r)
  case (PrivateRef i)
  then obtain ch where ch: "omap_find (privateChannels c) i = Some ch"
    "privateChannels c' = omap_put i (fst (snd (g ch))) (privateChannels c)"
    using assms(1) by (fastforce simp: on_channel_def case_prod_beta)
  then show ?thesis using private_inv_put [OF assms(2) ch(1)] assms(3) [OF PrivateRef ch(1)] by simp
qed (use assms(1,2) in \<open>auto simp: on_channel_def case_prod_beta\<close>)

lemma getChannel_PrivateRef:
  assumes "getChannel sc p k c = Some (PrivateRef i)"
  shows "i = k \<and> (\<exists>ch. omap_find (privateChannels c) k = Some ch \<and> isInvited (p_guid (who p)) ch)"
  using assms by (auto simp: getChannel_def split: if_split_asm option.split_asm)

lemma addUserToChannel_private:
  assumes "private_inv known (privateChannels c)" "who p \<in> known"
  shows "private_inv known (privateChannels (fst (snd (addUserToChannel sc p k c))))"
proof (cases "getChannel sc p k c")
  case (Some r)
  show ?thesis
  proof (cases "on_channel (addUser sc p) (addUser sc p) r c")
    case (Some res)
    obtain b c' ns where res: "res = (b, c', ns)" by (cases res)
    have "private_inv known (privateChannels c')"
      by (rule on_channel_private [OF Some [unfolded res] assms(1)])
        (use \<open>getChannel sc p k c = Some r\<close> getChannel_PrivateRef [of sc p k c] private_invD [OF assms(1)]
          addUser_private [OF _ _ assms(2)] in auto)
    then show ?thesis using Some \<open>getChannel sc p k c = Some r\<close> by (simp add: addUserToChannel_def res)
  qed (use Some assms(1) in \<open>simp add: addUserToChannel_def\<close>)
qed (use assms(1) in \<open>simp add: addUserToChannel_def\<close>)

lemma deleteChannel_private:
  "private_inv known (privateChannels c) \<Longrightarrow> private_inv known (privateChannels (fst (snd (deleteChannel p k c))))"
  by (simp add: deleteChannel_def private_inv_erase split: option.split)

lemma leaveChannel_private:
  "leaveChannel p r c = Some (b, c', ns) \<Longrightarrow> private_inv known (privateChannels c) \<Longrightarrow>
     private_inv known (privateChannels c')"
  unfolding leaveChannel_def
  by (erule on_channel_private) (auto simp: case_prod_beta removeUser_private dest: private_invD)

lemma removeUserFromChannel_private:
  assumes "private_inv known (privateChannels c)"
  shows "private_inv known (privateChannels (fst (snd (removeUserFromChannel sc p k c))))"
  using assms leaveChannel_private [of "who p" _ c _ _ _ known] deleteChannel_private [of known]
  by (auto simp: removeUserFromChannel_def case_prod_beta split: option.split prod.split)

lemma removeUserFromAllChannels_private:
  assumes "private_inv known (privateChannels c)" "inj_on p_guid known" "p \<in> known"
  shows "private_inv (known - {p}) (privateChannels (fst (removeUserFromAllChannels p c)))"
  using forget_private_inv [OF assms] by (simp add: removeUserFromAllChannels_def case_prod_beta)

lemma find_or_create_private:
  "private_inv known (privateChannels c) \<Longrightarrow> private_inv known (privateChannels (snd (find_or_create sc p k c)))"
  using createChannel_private [of known c sc p k] by (auto simp: find_or_create_def split: option.split prod.split)

lemma getChannelList_private:
  assumes "private_inv known (privateChannels c)"
  shows "private_inv known (privateChannels (snd (getChannelList sc p c)))"
  using assms find_or_create_private [of known] by (simp add: getChannelList_def Let_def case_prod_beta)

lemma load_row_private: "privateChannels (load_row sc info row c) = privateChannels c"
  by (simp add: load_row_def Let_def split: option.split)

lemma load_private: "privateChannels (snd (load sc info rows c)) = privateChannels c"
proof -
  have "privateChannels (fold (load_row sc info) rs c) = privateChannels c" for rs c
    by (induction rs arbitrary: c) (simp_all add: load_row_private)
  then show ?thesis by (simp add: load_def split: option.split)
qed

lemma playerCreatePrivateChannel_private:
  assumes "private_inv known (privateChannels c)" "who p \<in> known"
  shows "private_inv known (privateChannels (playerCreatePrivateChannel sc p c))"
proof (cases "premium p \<and> fst (createChannel sc p CHANNEL_PRIVATE c) \<noteq> None")
  case True
  then obtain r c1 where cr: "createChannel sc p CHANNEL_PRIVATE c = (Some r, c1)"
    by (cases "createChannel sc p CHANNEL_PRIVATE c") auto
  then obtain i where r: "r = PrivateRef i" "c1 = c\<lparr>privateChannels := omap_put i (own_channel p i) (privateChannels c)\<rparr>"
    by (auto simp: createChannel_def CHANNEL_PRIVATE_def CHANNEL_GUILD_def CHANNEL_PARTY_def split: if_split_asm option.split_asm)
  have inv1: "private_inv known (privateChannels c1)" using createChannel_private [OF assms(1), of sc p CHANNEL_PRIVATE] cr by simp
  show ?thesis
  proof (cases "on_channel (addUser sc p) (addUser sc p) r c1")
    case (Some res)
    obtain b c2 ns where res: "res = (b, c2, ns)" by (cases res)
    have "private_inv known (privateChannels c2)"
    proof (rule on_channel_private [OF Some [unfolded res] inv1])
      fix j ch assume j: "r = PrivateRef j" "omap_find (privateChannels c1) j = Some ch"
      then have "isInvited (p_guid (who p)) ch" using r by (auto simp: isInvited_def own_channel_def)
      then show "private_ok known j (fst (snd (addUser sc p ch))) \<and> ch_owner (fst (snd (addUser sc p ch))) = ch_owner ch"
        using addUser_private [OF private_invD [OF inv1 j(2)] _ assms(2)] by simp
    qed
    then show ?thesis using True cr Some by (simp add: playerCreatePrivateChannel_def res)
  qed (use True cr inv1 in \<open>simp add: playerCreatePrivateChannel_def\<close>)
next
  case False
  then show ?thesis using assms(1) createChannel_private [OF assms(1), of sc p CHANNEL_PRIVATE]
    by (auto simp: playerCreatePrivateChannel_def split: prod.split option.split)
qed

lemma playerChannelInvite_private:
  assumes "private_inv known (privateChannels c)"
  shows "private_inv known (privateChannels (fst (playerChannelInvite p q c)))"
  using assms private_inv_put [OF assms] private_invD [OF assms] invitePlayer_private invitePlayer_fields(3)
  by (simp add: playerChannelInvite_def case_prod_beta split: option.split)

lemma playerChannelExclude_private:
  assumes "private_inv known (privateChannels c)" "inj_on p_guid known" "set_option q \<subseteq> known"
  shows "private_inv known (privateChannels (fst (playerChannelExclude p q c)))"
proof -
  have "private_inv known (omap_put i (fst (excludePlayer (who p) q' ch)) (privateChannels c))"
    if "omap_find (privateChannels c) i = Some ch" "q = Some q'" for i ch q'
    using private_inv_put [OF assms(1) that(1) excludePlayer_private [OF private_invD [OF assms(1) that(1)] assms(2)]]
      assms(3) that(2) by simp
  then show ?thesis using assms(1) by (simp add: playerChannelExclude_def case_prod_beta split: option.split)
qed

section \<open>Reachable states\<close>

text \<open>
  A state is the set of players in the game and the channels. A player logs in only when nobody with the same global
  identifier is in the game (\<open>protocolgame.cpp\<close>, 138; the server can be configured to allow it, see below), each time with
  a reference of its own; a player who connects again to a character in the game, and one who leaves it, is removed from all
  channels.
\<close>

inductive chat_step :: "scripts \<Rightarrow> player_ref set \<times> chat \<Rightarrow> player_ref set \<times> chat \<Rightarrow> bool" for sc :: scripts where
  step_login: "p_guid p \<notin> p_guid ` on \<Longrightarrow> chat_step sc (on, c) (insert p on, c)"
| step_logout: "p \<in> on \<Longrightarrow> chat_step sc (on, c) (on - {p}, fst (removeUserFromAllChannels p c))"
| step_reconnect: "p \<in> on \<Longrightarrow> chat_step sc (on, c) (on, fst (removeUserFromAllChannels p c))"
| step_open: "who p \<in> on \<Longrightarrow> chat_step sc (on, c) (on, fst (snd (addUserToChannel sc p k c)))"
| step_close: "chat_step sc (on, c) (on, fst (snd (removeUserFromChannel sc p k c)))"
| step_create: "chat_step sc (on, c) (on, snd (createChannel sc p k c))"
| step_create_private: "who p \<in> on \<Longrightarrow> chat_step sc (on, c) (on, playerCreatePrivateChannel sc p c)"
| step_delete: "chat_step sc (on, c) (on, fst (snd (deleteChannel p k c)))"
| step_list: "chat_step sc (on, c) (on, snd (getChannelList sc p c))"
| step_invite: "chat_step sc (on, c) (on, fst (playerChannelInvite p q c))"
| step_exclude: "set_option q \<subseteq> on \<Longrightarrow> chat_step sc (on, c) (on, fst (playerChannelExclude p q c))"
| step_load: "chat_step sc (on, c) (on, snd (load sc info rows c))"

abbreviation chat_reach :: "scripts \<Rightarrow> player_ref set \<times> chat \<Rightarrow> bool" where
  "chat_reach sc \<equiv> (chat_step sc)\<^sup>*\<^sup>* ({}, no_channels)"

definition chat_ok :: "player_ref set \<times> chat \<Rightarrow> bool" where
  "chat_ok s \<longleftrightarrow> inj_on p_guid (fst s) \<and> private_inv (fst s) (privateChannels (snd s))"

lemma chat_step_ok:
  assumes "chat_step sc s s'" "chat_ok s"
  shows "chat_ok s'"
  using assms
proof cases
  case (step_login p on c)
  then show ?thesis using assms(2) private_inv_mono [of on "privateChannels c" "insert p on"] by (auto simp: chat_ok_def)
next
  case (step_logout p on c)
  then show ?thesis using assms(2) removeUserFromAllChannels_private [of on c p] by (auto simp: chat_ok_def inj_on_diff)
next
  case (step_reconnect p on c)
  then show ?thesis using assms(2) private_inv_mono [OF removeUserFromAllChannels_private [of on c p]] by (auto simp: chat_ok_def)
qed (simp_all add: chat_ok_def addUserToChannel_private removeUserFromChannel_private
      createChannel_private playerCreatePrivateChannel_private deleteChannel_private getChannelList_private
      playerChannelInvite_private playerChannelExclude_private load_private)

lemma chat_reach_ok: "chat_reach sc s \<Longrightarrow> chat_ok s"
proof (induction rule: rtranclp_induct)
  case base
  then show ?case by (simp add: chat_ok_def no_channels_def private_inv_def om.every_def om.unique_by_def)
next
  case (step s s')
  then show ?case using chat_step_ok by blast
qed

section \<open>Properties\<close>

text \<open>C16: In every state that is reached by players logging in, with no two of the same character at a time, leaving, and
  using the channels: what is said in a private channel is heard by players in the game that are its owner or invited to it
  and by nobody else, and only the owner and the invited can speak there.\<close>

theorem private_channel_is_private:
  assumes "chat_reach sc (on, c)"
    and "omap_find (privateChannels c) k = Some ch" and "omap_find (normalChannels c) k = None"
    and "talkToChannel sc p ty text k c = (ok, ns)"
  shows "(\<forall>n \<in> set ns. \<exists>u ty'. n = Speech u (who p) ty' text k \<and> u \<in> on \<and> isInvited (p_guid u) ch) \<and>
    (\<not> isInvited (p_guid (who p)) ch \<longrightarrow> \<not> ok \<and> ns = [])"
proof -
  have ch: "private_ok on k ch"
    using chat_reach_ok [OF assms(1)] private_invD [OF _ assms(2)] by (auto simp: chat_ok_def)
  then have k: "k \<noteq> CHANNEL_GUILD" "k \<noteq> CHANNEL_PARTY" "ch_id ch = k"
    by (auto simp: private_ok_def CHANNEL_GUILD_def CHANNEL_PARTY_def word_le_nat_alt)
  have g: "getChannel sc p k c = (if isInvited (p_guid (who p)) ch then Some (PrivateRef k) else None)"
    using k(1,2) assms(2,3) by (simp add: getChannel_def)
  show ?thesis
  proof (cases "isInvited (p_guid (who p)) ch")
    case True
    then have "ns = [] \<or> (\<exists>ty'. ns = map (\<lambda>(_, u). Speech u (who p) ty' text (ch_id ch)) (users ch))"
      using assms(2,4) g by (auto simp: talkToChannel_def on_channel_def talk_def Let_def split: prod.split_asm if_split_asm)
    moreover have "\<forall>(i, u) \<in> set (users ch). u \<in> on \<and> isInvited (p_guid u) ch"
      using ch by (auto simp: private_ok_def omap_mem_iff)
    ultimately show ?thesis using True k(3) by fastforce
  next
    case False
    then show ?thesis using assms(4) g by (simp add: talkToChannel_def)
  qed
qed

text \<open>Two players; the first opens a private channel and invites the second, who enters it.\<close>

definition ann :: chatter where
  "ann = \<lparr>who = \<lparr>p_id = 1, p_guid = 11, p_name = ''Ann''\<rparr>, chat_guild = None, chat_rank_level = None,
     chat_party = None, premium = True, female = True\<rparr>"

definition ben :: chatter where
  "ben = \<lparr>who = \<lparr>p_id = 2, p_guid = 12, p_name = ''Ben''\<rparr>, chat_guild = None, chat_rank_level = None,
     chat_party = None, premium = False, female = False\<rparr>"

definition no_scripts :: scripts where
  "no_scripts = \<lparr>run_canJoin = \<lambda>_ _. True, run_onJoin = \<lambda>_ _. True, run_onSpeak = \<lambda>_ _ ty _. (True, ty)\<rparr>"

definition chat1 :: chat where "chat1 = playerCreatePrivateChannel no_scripts ann no_channels"
definition chat2 :: chat where "chat2 = fst (playerChannelInvite ann (Some (who ben)) chat1)"
definition chat3 :: chat where "chat3 = fst (snd (addUserToChannel no_scripts ben 100 chat2))"

lemma chat3_reachable: "chat_reach no_scripts ({who ann, who ben}, chat3)"
proof -
  let ?on = "{who ann, who ben}"
  have "chat_step no_scripts ({}, no_channels) ({who ben}, no_channels)" by (rule step_login) simp
  moreover have "chat_step no_scripts ({who ben}, no_channels) (?on, no_channels)"
    by (rule step_login) (simp add: ann_def ben_def)
  moreover have "chat_step no_scripts (?on, no_channels) (?on, chat1)"
    unfolding chat1_def by (rule step_create_private) simp
  moreover have "chat_step no_scripts (?on, chat1) (?on, chat2)"
    unfolding chat2_def by (rule step_invite)
  moreover have "chat_step no_scripts (?on, chat2) (?on, chat3)"
    unfolding chat3_def by (rule step_open) simp
  ultimately show ?thesis by (meson r_into_rtranclp rtranclp.rtrancl_into_rtrancl)
qed

lemma private_channel_is_private_witness:
  "set (snd (talkToChannel no_scripts ben 7 ''hi'' 100 chat3)) \<subseteq>
     {n. \<exists>u ty'. n = Speech u (who ben) ty' ''hi'' 100 \<and> isInvited (p_guid u) (the (omap_find (privateChannels chat3) 100))}"
proof -
  have "omap_find (privateChannels chat3) 100 \<noteq> None \<and> omap_find (normalChannels chat3) 100 = None" by code_simp
  then obtain ch where ch: "omap_find (privateChannels chat3) 100 = Some ch" "omap_find (normalChannels chat3) 100 = None"
    by blast
  from private_channel_is_private [OF chat3_reachable ch prod.collapse [symmetric], of ben 7 "''hi''"] ch(1)
  show ?thesis by (auto simp: subset_iff)
qed

text \<open>
  Where clones are allowed, excluding a character takes away the invitation of all its clones but removes only one of them
  from the channel: the other is not invited any more and hears everything.
\<close>

definition ben_clone :: chatter where "ben_clone = ben\<lparr>who := (who ben)\<lparr>p_id := 3\<rparr>\<rparr>"

definition chat4 :: chat where
  "chat4 = fst (playerChannelExclude ann (Some (who ben)) (fst (snd (addUserToChannel no_scripts ben_clone 100 chat3))))"

lemma excluded_clone_hears:
  "Speech (who ben_clone) (who ann) 7 ''secret'' 100 \<in> set (snd (talkToChannel no_scripts ann 7 ''secret'' 100 chat4)) \<and>
   \<not> isInvited (p_guid (who ben_clone)) (the (omap_find (privateChannels chat4) 100))"
  by code_simp

text \<open>In every reachable state each player owns at most one private channel, and private channels have
  the numbers 100 to 9999.\<close>

theorem one_private_channel_per_owner:
  assumes "chat_reach sc (on, c)" and "omap_find (privateChannels c) k = Some ch"
  shows "100 \<le> k \<and> k < 10000 \<and>
    (\<forall>k' ch'. omap_find (privateChannels c) k' = Some ch' \<longrightarrow> ch_owner ch' = ch_owner ch \<longrightarrow> k' = k)"
proof -
  have i: "private_inv on (privateChannels c)" using chat_reach_ok [OF assms(1)] by (simp add: chat_ok_def)
  then show ?thesis using private_invD [OF i assms(2)] assms(2)
    by (auto simp: private_ok_def private_inv_def om.unique_by_def)
qed

lemma one_private_channel_per_owner_witness: "(100 :: u16) \<le> 100 \<and> omap_find (privateChannels chat3) 100 \<noteq> None"
proof -
  have "omap_find (privateChannels chat3) 100 \<noteq> None" by code_simp
  then obtain ch where "omap_find (privateChannels chat3) 100 = Some ch" by blast
  from one_private_channel_per_owner [OF chat3_reachable this] this show ?thesis by blast
qed

text \<open>After a player has been removed from all channels, the player is in no channel of any kind, is
  invited to no private channel and owns none.\<close>

theorem removeUserFromAllChannels_forgets:
  fixes p :: player_ref
  assumes "omap_ok (privateChannels c)"
  defines "c' \<equiv> fst (removeUserFromAllChannels p c)"
  shows "(\<forall>k ch. omap_find (normalChannels c') k = Some ch \<longrightarrow> \<not> hasUser p ch) \<and>
    (\<forall>k ch. omap_find (partyChannels c') k = Some ch \<longrightarrow> \<not> hasUser p ch) \<and>
    (\<forall>k ch. omap_find (guildChannels c') k = Some ch \<longrightarrow> \<not> hasUser p ch) \<and>
    (\<forall>k ch. omap_find (privateChannels c') k = Some ch \<longrightarrow> \<not> hasUser p ch \<and> \<not> isInvited (p_guid p) ch)"
proof -
  have c': "normalChannels c' = omap_values (\<lambda>_ ch. snd (removeUser p ch)) (normalChannels c)"
    "partyChannels c' = omap_values (\<lambda>_ ch. snd (removeUser p ch)) (partyChannels c)"
    "guildChannels c' = omap_values (\<lambda>_ ch. snd (removeUser p ch)) (guildChannels c)"
    "privateChannels c' = fst (forget_private p (privateChannels c))"
    by (simp_all add: c'_def removeUserFromAllChannels_def case_prod_beta)
  have "\<not> hasUser p (forget_player p ch) \<and> (ch_owner ch \<noteq> p_guid p \<longrightarrow> \<not> isInvited (p_guid p) (forget_player p ch))" for ch
    by (simp add: forget_player_def isInvited_def removeUser_gone) (simp add: removeUser_def removeInvite_def)
  then show ?thesis unfolding c' using removeUser_gone forget_private_find [OF assms(1), of p]
    by (auto split: option.splits if_split_asm)
qed

lemma removeUserFromAllChannels_forgets_witness:
  "\<nexists>k ch. omap_find (privateChannels (fst (removeUserFromAllChannels (who ben) chat3))) k = Some ch \<and> isInvited 12 ch"
proof -
  have "omap_ok (privateChannels chat3)" by code_simp
  from removeUserFromAllChannels_forgets [OF this, of "who ben"] show ?thesis by (simp add: ben_def)
qed

end
