(* ===== verification/MatrixArea.thy ===== *)
theory MatrixArea
  imports Prelude
begin

text \<open>
  Combat areas, \<open>src/src/matrixarea.cpp\<close>: a matrix of booleans in row-major order with a centre,
  and its five symmetries. The valarray slices of the sources are lists of indices; a slice
  assignment that touches an index outside its array is the value \<open>None\<close>.
\<close>

record matrix_area =
  arr :: "bool list"
  center :: "u32 \<times> u32"
  rows :: u32
  cols :: u32

section \<open>Slices\<close>

type_synonym slice = "nat \<times> nat \<times> nat" \<comment> \<open>start, size, stride\<close>

fun slice_indices :: "slice \<Rightarrow> nat list" where
  "slice_indices (start, sz, stride) = map (\<lambda>k. start + k * stride) [0..<sz]"

fun copy_pairs :: "(nat \<times> nat) list \<Rightarrow> 'a list \<Rightarrow> 'a list \<Rightarrow> 'a list option" where
  "copy_pairs [] src dst = Some dst"
| "copy_pairs ((d, s) # ps) src dst =
     (if d < length dst \<and> s < length src then copy_pairs ps src (dst[d := src ! s]) else None)"

text \<open>\<open>dst[ds] = src[ss]\<close>.\<close>

definition slice_assign :: "slice \<Rightarrow> slice \<Rightarrow> 'a list \<Rightarrow> 'a list \<Rightarrow> 'a list option" where
  "slice_assign ds ss src dst = copy_pairs (zip (slice_indices ds) (slice_indices ss)) src dst"

text \<open>The loop over a list of slice assignments, all from the same source.\<close>

fun slice_loop :: "(slice \<times> slice) list \<Rightarrow> 'a list \<Rightarrow> 'a list \<Rightarrow> 'a list option" where
  "slice_loop [] src dst = Some dst"
| "slice_loop ((ds, ss) # ps) src dst =
     (case slice_assign ds ss src dst of None \<Rightarrow> None | Some dst' \<Rightarrow> slice_loop ps src dst')"

section \<open>The class\<close>

definition new_area :: "u32 \<Rightarrow> u32 \<Rightarrow> matrix_area" where
  "new_area r c = \<lparr>arr = replicate (unat (r * c)) False, center = (0, 0), rows = r, cols = c\<rparr>"

definition area_index :: "matrix_area \<Rightarrow> u32 \<Rightarrow> u32 \<Rightarrow> nat" where
  "area_index a row col = unat (row * cols a + col)"

definition setCenter :: "u32 \<Rightarrow> u32 \<Rightarrow> matrix_area \<Rightarrow> matrix_area" where
  "setCenter y x a = a\<lparr>center := (x, y)\<rparr>"

definition flip :: "matrix_area \<Rightarrow> matrix_area option" where
  "flip a =
     map_option (\<lambda>newArr. (case center a of (centerX, centerY) \<Rightarrow>
         \<lparr>arr = newArr, center = (centerX, rows a - centerY - 1), rows = rows a, cols = cols a\<rparr>))
       (slice_loop
         (map (\<lambda>i. ((unat (of_nat i * cols a), unat (cols a), 1),
                    (unat ((rows a - of_nat i - 1) * cols a), unat (cols a), 1)))
           [0..<unat (rows a)])
         (arr a) (replicate (length (arr a)) False))"

definition mirror :: "matrix_area \<Rightarrow> matrix_area option" where
  "mirror a =
     map_option (\<lambda>newArr. (case center a of (centerX, centerY) \<Rightarrow>
         \<lparr>arr = newArr, center = (cols a - centerX - 1, centerY), rows = rows a, cols = cols a\<rparr>))
       (slice_loop
         (map (\<lambda>i. ((i, unat (rows a), unat (cols a)),
                    (unat (cols a - of_nat i - 1), unat (rows a), unat (cols a))))
           [0..<unat (cols a)])
         (arr a) (replicate (length (arr a)) False))"

definition rotate90 :: "matrix_area \<Rightarrow> matrix_area option" where
  "rotate90 a =
     map_option (\<lambda>newArr. (case center a of (centerX, centerY) \<Rightarrow>
         \<lparr>arr = newArr, center = (rows a - centerY - 1, centerX), rows = cols a, cols = rows a\<rparr>))
       (slice_loop
         (map (\<lambda>i. ((i, unat (cols a), unat (rows a)),
                    (unat ((rows a - of_nat i - 1) * cols a), unat (cols a), 1)))
           [0..<unat (rows a)])
         (arr a) (replicate (length (arr a)) False))"

definition rotate180 :: "matrix_area \<Rightarrow> matrix_area option" where
  "rotate180 a =
     (case center a of (centerX, centerY) \<Rightarrow>
        Some \<lparr>arr = rev (arr a), center = (cols a - centerX - 1, rows a - centerY - 1),
              rows = rows a, cols = cols a\<rparr>)"

definition rotate270 :: "matrix_area \<Rightarrow> matrix_area option" where
  "rotate270 a =
     map_option (\<lambda>newArr. (case center a of (centerX, centerY) \<Rightarrow>
         \<lparr>arr = newArr, center = (centerY, cols a - centerX - 1), rows = cols a, cols = rows a\<rparr>))
       (slice_loop
         (map (\<lambda>i. ((unat (of_nat i * rows a), unat (rows a), 1),
                    (unat (cols a - of_nat i - 1), unat (rows a), unat (cols a))))
           [0..<unat (cols a)])
         (arr a) (replicate (length (arr a)) False))"

text \<open>The loop of \<open>createArea\<close>: \<open>x\<close>, \<open>y\<close> run over the values in row-major order.\<close>

fun fill_area :: "u32 list \<Rightarrow> u32 \<Rightarrow> u32 \<Rightarrow> u32 \<Rightarrow> matrix_area \<Rightarrow> matrix_area option" where
  "fill_area [] x y cs area = Some area"
| "fill_area (value # vec) x y cs area =
     (let i = area_index area y x in
      if (value = 1 \<or> value = 3) \<and> \<not> i < length (arr area) then None
      else
        let area1 = (if value = 1 \<or> value = 3 then area\<lparr>arr := (arr area)[i := True]\<rparr> else area);
            area2 = (if value = 2 \<or> value = 3 then setCenter y x area1 else area1);
            x' = x + 1
        in if cs = x' then fill_area vec 0 (y + 1) cs area2 else fill_area vec x' y cs area2)"

definition createArea :: "u32 list \<Rightarrow> u32 \<Rightarrow> matrix_area option" where
  "createArea vec rs =
     (let cs = (if rs = 0 then 0 else word_of_nat (length vec div unat rs))
      in fill_area vec 0 0 cs (new_area rs cs))"

section \<open>Copying along index pairs\<close>

lemma copy_pairs_append:
  "copy_pairs (ps @ qs) src dst =
     (case copy_pairs ps src dst of None \<Rightarrow> None | Some d \<Rightarrow> copy_pairs qs src d)"
  by (induction ps src dst rule: copy_pairs.induct) auto

definition loop_pairs :: "(slice \<times> slice) list \<Rightarrow> (nat \<times> nat) list" where
  "loop_pairs ps = concat (map (\<lambda>(ds, ss). zip (slice_indices ds) (slice_indices ss)) ps)"

lemma slice_loop_pairs: "slice_loop ps src dst = copy_pairs (loop_pairs ps) src dst"
  by (induction ps src dst rule: slice_loop.induct)
    (auto simp: loop_pairs_def slice_assign_def copy_pairs_append split: option.splits)

lemma copy_pairs_spec:
  assumes "\<forall>(d, s) \<in> set ps. d < length dst \<and> s < length src" and "distinct (map fst ps)"
  shows "\<exists>out. copy_pairs ps src dst = Some out \<and> length out = length dst \<and>
    (\<forall>i < length dst. out ! i = (case map_of ps i of None \<Rightarrow> dst ! i | Some s \<Rightarrow> src ! s))"
  using assms
proof (induction ps src dst rule: copy_pairs.induct)
  case (2 d s ps src dst)
  have "\<forall>(d', s') \<in> set ps. d' < length (dst[d := src ! s]) \<and> s' < length src"
    using "2.prems"(1) by auto
  with 2 obtain out where out: "copy_pairs ps src (dst[d := src ! s]) = Some out"
    "length out = length dst"
    "\<forall>i < length dst. out ! i = (case map_of ps i of None \<Rightarrow> dst[d := src ! s] ! i | Some s \<Rightarrow> src ! s)"
    by auto
  moreover have "map_of ps d = None" using "2.prems"(2) by (auto simp: map_of_eq_None_iff)
  ultimately show ?case using "2.prems"(1) by (auto split: option.splits)
qed simp

text \<open>
  Pairs given by a source index function \<open>f\<close> over a full range of destinations: the copy is
  total and lists the source in the order of \<open>f\<close>.
\<close>

lemma copy_all:
  assumes "set (map fst ps) = {..<n}" and "distinct (map fst ps)"
    and "\<And>d s. (d, s) \<in> set ps \<Longrightarrow> s = f d"
    and "length dst = n" and "\<And>i. i < n \<Longrightarrow> f i < length src"
  shows "copy_pairs ps src dst = Some (map (\<lambda>i. src ! f i) [0..<n])"
proof -
  have fst: "d < n" if "(d, s) \<in> set ps" for d s
    using that assms(1) by (metis fst_conv image_eqI list.set_map lessThan_iff)
  have "\<forall>(d, s) \<in> set ps. d < length dst \<and> s < length src" using assms(3-5) fst by fastforce
  from copy_pairs_spec [OF this assms(2)] obtain out where
    o: "copy_pairs ps src dst = Some out" "length out = n"
      "\<forall>i < n. out ! i = (case map_of ps i of None \<Rightarrow> dst ! i | Some s \<Rightarrow> src ! s)"
    using assms(4) by auto
  have "map_of ps i = Some (f i)" if "i < n" for i
  proof -
    from that assms(1) have "i \<in> fst ` set ps" by auto
    then obtain s where "(i, s) \<in> set ps" by force
    with assms(2,3) show ?thesis by (auto simp: map_of_eq_Some_iff)
  qed
  with o have "out = map (\<lambda>i. src ! f i) [0..<n]" by (intro nth_equalityI) auto
  with o show ?thesis by simp
qed

lemma zip_slices:
  "zip (slice_indices (a, n, s)) (slice_indices (b, n, t)) = map (\<lambda>k. (a + k * s, b + k * t)) [0..<n]"
  by (simp add: zip_map_map zip_same_conv_map)

lemma loop_pairs_slices:
  "loop_pairs (map (\<lambda>i. ((a i, n, s), (b i, n, t))) is) =
     concat (map (\<lambda>i. map (\<lambda>k. (a i + k * s, b i + k * t)) [0..<n]) is)"
  by (induction "is") (simp_all add: loop_pairs_def zip_slices del: slice_indices.simps)

text \<open>Rows of length \<open>C\<close> one after the other, and columns of a matrix with \<open>m\<close> columns.\<close>

lemma cell_less: "i < R \<Longrightarrow> k < C \<Longrightarrow> i * C + k < R * (C::nat)"
  by (metis Suc_leI add_less_cancel_left less_le_trans mult_Suc mult_le_mono1 add.commute)

lemma cell_inj: "k < C \<Longrightarrow> k' < C \<Longrightarrow> i * C + k = i' * C + k' \<longleftrightarrow> i = i' \<and> k = (k'::nat)"
  by (metis add.commute div_mult_self3 div_less add_left_cancel less_nat_zero_code add_0)

lemma cells:
  "distinct (concat (map (\<lambda>i. map (\<lambda>k. i * C + k) [0..<C]) [0..<R])) \<and>
   set (concat (map (\<lambda>i. map (\<lambda>k. i * C + k) [0..<C]) [0..<R])) = {..<R * (C::nat)}"
proof -
  have "concat (map (\<lambda>i. map (\<lambda>k. i * C + k) [0..<C]) [0..<R]) = [0..<R * C]"
  proof (induction R)
    case (Suc R)
    have "map (\<lambda>k. R * C + k) [0..<C] = [R * C..<R * C + C]"
      using map_add_upt [of "R * C" C] by (simp add: add.commute)
    with Suc show ?case
      using upt_add_eq_append [of 0 "R * C" C] by (simp add: add.commute)
  qed simp
  then show ?thesis by auto
qed

lemma cells_by_column:
  "distinct (concat (map (\<lambda>i. map (\<lambda>k. i + k * m) [0..<n]) [0..<m])) \<and>
   set (concat (map (\<lambda>i. map (\<lambda>k. i + k * m) [0..<n]) [0..<m])) = {..<n * (m::nat)}"
proof -
  let ?f = "\<lambda>(i, k). i + k * m"
  have eq: "concat (map (\<lambda>i. map (\<lambda>k. i + k * m) [0..<n]) [0..<m]) = map ?f (List.product [0..<m] [0..<n])"
    by (simp add: product_concat_map map_concat comp_def)
  have "inj_on ?f (set (List.product [0..<m] [0..<n]))"
    by (auto simp: inj_on_def) (metis add.commute cell_inj)+
  moreover have "?f ` ({..<m} \<times> {..<n}) = {..<n * m}"
  proof (intro set_eqI iffI)
    fix x assume "x \<in> {..<n * m}"
    then have "x mod m < m" "x div m < n" "x = x mod m + x div m * m"
      by (auto simp: less_mult_imp_div_less intro!: mod_less_divisor gr0I)
    then show "x \<in> ?f ` ({..<m} \<times> {..<n})" by (intro image_eqI [of _ _ "(x mod m, x div m)"]) auto
  next
    fix x assume "x \<in> ?f ` ({..<m} \<times> {..<n})"
    then obtain i k where "x = i + k * m" "i < m" "k < n" by auto
    then show "x \<in> {..<n * m}" using cell_less [of k n i m] by (simp add: add.commute)
  qed
  ultimately show ?thesis
    unfolding eq by (auto simp: distinct_map distinct_product atLeast0LessThan)
qed

section \<open>The symmetries, cell by cell\<close>

definition wf_area :: "matrix_area \<Rightarrow> bool" where
  "wf_area a \<longleftrightarrow> length (arr a) = unat (rows a) * unat (cols a) \<and> length (arr a) < 2 ^ 32"

definition cell :: "matrix_area \<Rightarrow> nat \<Rightarrow> nat \<Rightarrow> bool" where
  "cell a r c = arr a ! (r * unat (cols a) + c)"

lemma unat_row_start:
  assumes "unat (rs::u32) * unat (cs::u32) < 2 ^ 32" and "i < unat rs"
  shows "unat (of_nat i * cs) = i * unat cs"
proof -
  have "i * unat cs \<le> unat rs * unat cs" using assms(2) by simp
  then have "i * unat cs < 2 ^ 32" using assms(1) by linarith
  moreover have "i < 2 ^ 32" using assms(2) unsigned_less [of rs, where 'a = nat] by simp
  ultimately show ?thesis by (simp add: unat_word_ariths unat_of_nat)
qed

lemma unat_from_end:
  assumes "i < unat (rs::u32)"
  shows "unat (rs - of_nat i - 1) = unat rs - i - 1"
proof -
  have "rs - of_nat i - 1 = of_nat (unat rs - i - 1)"
    using assms by (simp add: of_nat_diff)
  moreover have "unat rs - i - 1 < 2 ^ 32" using unsigned_less [of rs, where 'a = nat] by simp
  ultimately show ?thesis by (simp add: unat_of_nat)
qed

lemma unat_row_from_end:
  assumes "unat (rs::u32) * unat (cs::u32) < 2 ^ 32" and "i < unat rs"
  shows "unat ((rs - of_nat i - 1) * cs) = (unat rs - i - 1) * unat cs"
proof -
  have "rs - of_nat i - 1 = of_nat (unat rs - i - 1)"
    using assms(2) by (simp add: of_nat_diff)
  moreover have "unat rs - i - 1 < unat rs" using assms(2) by simp
  ultimately show ?thesis using unat_row_start [OF assms(1), of "unat rs - i - 1"] by (simp only:)
qed

lemma flip_arr:
  assumes "wf_area a"
  shows "slice_loop
         (map (\<lambda>i. ((unat (of_nat i * cols a), unat (cols a), 1),
                    (unat ((rows a - of_nat i - 1) * cols a), unat (cols a), 1)))
           [0..<unat (rows a)])
         (arr a) (replicate (length (arr a)) False) =
    Some (map (\<lambda>j. arr a ! ((unat (rows a) - j div unat (cols a) - 1) * unat (cols a) + j mod unat (cols a)))
       [0..<unat (rows a) * unat (cols a)])"
proof -
  let ?R = "unat (rows a)" and ?C = "unat (cols a)"
  have wf: "?R * ?C < 2 ^ 32" "length (arr a) = ?R * ?C" using assms by (auto simp: wf_area_def)
  have L: "loop_pairs (map (\<lambda>i. ((unat (of_nat i * cols a), ?C, 1),
                    (unat ((rows a - of_nat i - 1) * cols a), ?C, 1))) [0..<?R]) =
      concat (map (\<lambda>i. map (\<lambda>k. (i * ?C + k, (?R - i - 1) * ?C + k)) [0..<?C]) [0..<?R])" (is "_ = ?ps")
    unfolding loop_pairs_slices
    by (intro arg_cong [where f = concat] map_cong refl)
      (simp add: unat_row_start [OF wf(1)] unat_row_from_end [OF wf(1)])
  have F: "map fst ?ps = concat (map (\<lambda>i. map (\<lambda>k. i * ?C + k) [0..<?C]) [0..<?R])"
    by (simp add: map_concat comp_def)
  have S: "s = (?R - d div ?C - 1) * ?C + d mod ?C" if "(d, s) \<in> set ?ps" for d s
    using that by auto
  have B: "(?R - i div ?C - 1) * ?C + i mod ?C < ?R * ?C" if "i < ?R * ?C" for i
  proof -
    have "0 < ?C" "0 < ?R" using that by (auto intro!: gr0I)
    then show ?thesis by (intro cell_less) auto
  qed
  show ?thesis
    unfolding slice_loop_pairs L
  proof (rule copy_all [OF _ _ S])
    show "set (map fst ?ps) = {..<?R * ?C}" "distinct (map fst ?ps)"
      unfolding F using cells [of ?C ?R] by (simp_all only: mult.commute)
  qed (use B in \<open>simp_all add: wf\<close>)
qed

lemma mirror_arr:
  assumes "wf_area a"
  shows "slice_loop
         (map (\<lambda>i. ((i, unat (rows a), unat (cols a)),
                    (unat (cols a - of_nat i - 1), unat (rows a), unat (cols a))))
           [0..<unat (cols a)])
         (arr a) (replicate (length (arr a)) False) =
    Some (map (\<lambda>j. arr a ! ((j div unat (cols a)) * unat (cols a) + (unat (cols a) - j mod unat (cols a) - 1)))
       [0..<unat (rows a) * unat (cols a)])"
proof -
  let ?R = "unat (rows a)" and ?C = "unat (cols a)"
  have wf: "?R * ?C < 2 ^ 32" "length (arr a) = ?R * ?C" using assms by (auto simp: wf_area_def)
  have L: "loop_pairs (map (\<lambda>i. ((i, ?R, ?C), (unat (cols a - of_nat i - 1), ?R, ?C))) [0..<?C]) =
      concat (map (\<lambda>i. map (\<lambda>k. (i + k * ?C, (?C - i - 1) + k * ?C)) [0..<?R]) [0..<?C])" (is "_ = ?ps")
    unfolding loop_pairs_slices
    by (intro arg_cong [where f = concat] map_cong refl) (simp add: unat_from_end)
  have F: "map fst ?ps = concat (map (\<lambda>i. map (\<lambda>k. i + k * ?C) [0..<?R]) [0..<?C])"
    by (simp add: map_concat comp_def)
  have S: "s = (d div ?C) * ?C + (?C - d mod ?C - 1)" if "(d, s) \<in> set ?ps" for d s
    using that by auto
  have B: "(i div ?C) * ?C + (?C - i mod ?C - 1) < ?R * ?C" if "i < ?R * ?C" for i
  proof -
    have "0 < ?C" using that by (auto intro!: gr0I)
    then show ?thesis using that by (intro cell_less) (auto simp: less_mult_imp_div_less)
  qed
  show ?thesis
    unfolding slice_loop_pairs L
  proof (rule copy_all [OF _ _ S])
    show "set (map fst ?ps) = {..<?R * ?C}" "distinct (map fst ?ps)"
      unfolding F using cells_by_column [of ?C ?R] by (simp_all only: mult.commute)
  qed (use B in \<open>simp_all add: wf\<close>)
qed

lemma rotate90_arr:
  assumes "wf_area a"
  shows "slice_loop
         (map (\<lambda>i. ((i, unat (cols a), unat (rows a)),
                    (unat ((rows a - of_nat i - 1) * cols a), unat (cols a), 1)))
           [0..<unat (rows a)])
         (arr a) (replicate (length (arr a)) False) =
    Some (map (\<lambda>j. arr a ! ((unat (rows a) - j mod unat (rows a) - 1) * unat (cols a) + j div unat (rows a)))
       [0..<unat (rows a) * unat (cols a)])"
proof -
  let ?R = "unat (rows a)" and ?C = "unat (cols a)"
  have wf: "?R * ?C < 2 ^ 32" "length (arr a) = ?R * ?C" using assms by (auto simp: wf_area_def)
  have L: "loop_pairs (map (\<lambda>i. ((i, ?C, ?R), (unat ((rows a - of_nat i - 1) * cols a), ?C, 1))) [0..<?R]) =
      concat (map (\<lambda>i. map (\<lambda>k. (i + k * ?R, (?R - i - 1) * ?C + k)) [0..<?C]) [0..<?R])" (is "_ = ?ps")
    by (subst loop_pairs_slices) (auto intro!: arg_cong [where f = concat] map_cong
        simp: unat_row_from_end [OF wf(1)])
  have F: "map fst ?ps = concat (map (\<lambda>i. map (\<lambda>k. i + k * ?R) [0..<?C]) [0..<?R])"
    by (simp add: map_concat comp_def)
  have S: "s = (?R - d mod ?R - 1) * ?C + d div ?R" if "(d, s) \<in> set ?ps" for d s
    using that by auto
  have B: "(?R - i mod ?R - 1) * ?C + i div ?R < ?R * ?C" if "i < ?R * ?C" for i
  proof -
    have "0 < ?R" using that by (auto intro!: gr0I)
    then show ?thesis using that by (intro cell_less) (auto simp: less_mult_imp_div_less mult.commute)
  qed
  show ?thesis
    unfolding slice_loop_pairs L
  proof (rule copy_all [OF _ _ S])
    show "set (map fst ?ps) = {..<?R * ?C}" "distinct (map fst ?ps)"
      unfolding F using cells_by_column [of ?R ?C] by (simp_all only: mult.commute)
  qed (use B in \<open>simp_all add: wf\<close>)
qed

lemma rotate270_arr:
  assumes "wf_area a"
  shows "slice_loop
         (map (\<lambda>i. ((unat (of_nat i * rows a), unat (rows a), 1),
                    (unat (cols a - of_nat i - 1), unat (rows a), unat (cols a))))
           [0..<unat (cols a)])
         (arr a) (replicate (length (arr a)) False) =
    Some (map (\<lambda>j. arr a ! ((j mod unat (rows a)) * unat (cols a) + (unat (cols a) - j div unat (rows a) - 1)))
       [0..<unat (rows a) * unat (cols a)])"
proof -
  let ?R = "unat (rows a)" and ?C = "unat (cols a)"
  have wf: "?R * ?C < 2 ^ 32" "?C * ?R < 2 ^ 32" "length (arr a) = ?R * ?C"
    using assms by (auto simp: wf_area_def mult.commute)
  have L: "loop_pairs (map (\<lambda>i. ((unat (of_nat i * rows a), ?R, 1), (unat (cols a - of_nat i - 1), ?R, ?C))) [0..<?C]) =
      concat (map (\<lambda>i. map (\<lambda>k. (i * ?R + k, (?C - i - 1) + k * ?C)) [0..<?R]) [0..<?C])" (is "_ = ?ps")
    by (subst loop_pairs_slices) (auto intro!: arg_cong [where f = concat] map_cong
        simp: unat_row_start [OF wf(2)] unat_from_end)
  have F: "map fst ?ps = concat (map (\<lambda>i. map (\<lambda>k. i * ?R + k) [0..<?R]) [0..<?C])"
    by (simp add: map_concat comp_def)
  have S: "s = (d mod ?R) * ?C + (?C - d div ?R - 1)" if "(d, s) \<in> set ?ps" for d s
    using that by auto
  have B: "(i mod ?R) * ?C + (?C - i div ?R - 1) < ?R * ?C" if "i < ?R * ?C" for i
  proof -
    have "0 < ?R" "0 < ?C" using that by (auto intro!: gr0I)
    then show ?thesis by (intro cell_less) auto
  qed
  show ?thesis
    unfolding slice_loop_pairs L
  proof (rule copy_all [OF _ _ S])
    show "set (map fst ?ps) = {..<?R * ?C}" "distinct (map fst ?ps)"
      unfolding F using cells [of ?R ?C] by (simp_all only: mult.commute)
  qed (use B in \<open>simp_all add: wf\<close>)
qed

section \<open>Laws of the symmetries\<close>

definition remap :: "nat \<Rightarrow> (nat \<Rightarrow> nat) \<Rightarrow> 'a list \<Rightarrow> 'a list" where
  "remap n f xs = map (\<lambda>i. xs ! f i) [0..<n]"

lemma remap_remap:
  "(\<And>i. i < n \<Longrightarrow> g i < n) \<Longrightarrow> remap n g (remap n f xs) = remap n (\<lambda>i. f (g i)) xs"
  by (simp add: remap_def)

lemma remap_id: "length xs = n \<Longrightarrow> (\<And>i. i < n \<Longrightarrow> f i = i) \<Longrightarrow> remap n f xs = xs"
  by (intro nth_equalityI) (simp_all add: remap_def)

lemma remap_cong: "(\<And>i. i < n \<Longrightarrow> f i = g i) \<Longrightarrow> remap n f xs = remap n g xs"
  by (simp add: remap_def)

lemma remap_rev: "length xs = n \<Longrightarrow> rev xs = remap n (\<lambda>i. n - 1 - i) xs"
  by (intro nth_equalityI) (simp_all add: remap_def rev_nth)

text \<open>The index maps of the symmetries of an \<open>R\<close> by \<open>C\<close> matrix.\<close>

definition flip_ix :: "nat \<Rightarrow> nat \<Rightarrow> nat \<Rightarrow> nat" where
  "flip_ix R C j = (R - j div C - 1) * C + j mod C"

definition mirror_ix :: "nat \<Rightarrow> nat \<Rightarrow> nat \<Rightarrow> nat" where
  "mirror_ix R C j = (j div C) * C + (C - j mod C - 1)"

definition rot90_ix :: "nat \<Rightarrow> nat \<Rightarrow> nat \<Rightarrow> nat" where
  "rot90_ix R C j = (R - j mod R - 1) * C + j div R"

definition rot270_ix :: "nat \<Rightarrow> nat \<Rightarrow> nat \<Rightarrow> nat" where
  "rot270_ix R C j = (j mod R) * C + (C - j div R - 1)"

lemmas ix_defs = flip_ix_def mirror_ix_def rot90_ix_def rot270_ix_def

text \<open>An index below \<open>R * C\<close> is a row and a column.\<close>

lemma cell_cases:
  assumes "j < R * (C::nat)"
  obtains r c where "j = r * C + c" "r < R" "c < C" "j div C = r" "j mod C = c"
proof -
  have "0 < C" using assms by (auto intro!: gr0I)
  then show ?thesis
    using assms by (intro that [of "j div C" "j mod C"]) (auto simp: less_mult_imp_div_less)
qed

lemma div_mod_cell [simp]:
  "c < C \<Longrightarrow> (r * C + c) div C = r" "c < C \<Longrightarrow> (r * C + c) mod C = (c::nat)"
  by (simp_all add: div_mult1_eq)

text \<open>The same for a column counted from the end, in the simplifier's normal form.\<close>

lemma div_mod_from_end [simp]:
  assumes "c < (C::nat)"
  shows "(r * C + C - Suc c) div C = r" "(r * C + C - Suc c) mod C = C - Suc c"
proof -
  have "r * C + C - Suc c = r * C + (C - c - 1)" "C - c - 1 < C" using assms by simp_all
  then show "(r * C + C - Suc c) div C = r" "(r * C + C - Suc c) mod C = C - Suc c"
    by (metis div_mod_cell(1), metis div_mod_cell(2) diff_Suc_eq_diff_pred diff_commute)
qed

lemma cell_less_from_end: "r < R \<Longrightarrow> c < C \<Longrightarrow> r * C + C - Suc c < R * (C::nat)"
  using cell_less [of r R "C - c - 1" C] by simp

lemma flip_ix_bound: "j < R * C \<Longrightarrow> flip_ix R C j < R * C"
  by (erule cell_cases) (auto simp: flip_ix_def intro: cell_less)

lemma mirror_ix_bound: "j < R * C \<Longrightarrow> mirror_ix R C j < R * C"
  by (erule cell_cases) (auto simp: mirror_ix_def intro: cell_less_from_end)

lemma rot90_ix_bound: "j < C * R \<Longrightarrow> rot90_ix R C j < R * C"
  by (erule cell_cases) (auto simp: rot90_ix_def intro: cell_less)

lemma rot270_ix_bound: "j < C * R \<Longrightarrow> rot270_ix R C j < R * C"
  by (erule cell_cases) (auto simp: rot270_ix_def intro: cell_less_from_end)

lemma flip_flip_ix: "j < R * C \<Longrightarrow> flip_ix R C (flip_ix R C j) = j"
  by (erule cell_cases) (simp add: flip_ix_def)

lemma mirror_mirror_ix: "j < R * C \<Longrightarrow> mirror_ix R C (mirror_ix R C j) = j"
  by (erule cell_cases) (simp add: mirror_ix_def)

lemma rot90_rot270_ix: "j < R * C \<Longrightarrow> rot90_ix R C (rot270_ix C R j) = j"
  by (erule cell_cases) (simp add: rot90_ix_def rot270_ix_def)

lemma rev_ix:
  assumes "j < R * C"
  shows "mirror_ix R C (flip_ix R C j) = R * C - 1 - j" "rot90_ix R C (rot90_ix C R j) = R * C - 1 - j"
proof -
  obtain r c where j: "j = r * C + c" "r < R" "c < C" using assms by (rule cell_cases)
  then obtain k where R: "R = r + k + 1" by (metis add.commute add.left_commute less_iff_Suc_add Suc_eq_plus1)
  from j obtain l where C: "C = c + l + 1" by (metis add.commute add.left_commute less_iff_Suc_add Suc_eq_plus1)
  have e: "R * C - 1 - j = k * C + l" by (simp add: j R C algebra_simps)
  have k: "R - r - 1 = k" "C - c - 1 = l" by (simp_all add: R C)
  have "l < C" "k < R" by (simp_all add: R C)
  have "flip_ix R C j = k * C + c" using j k by (simp add: flip_ix_def)
  then have "mirror_ix R C (flip_ix R C j) = k * C + (C - c - 1)" using j by (simp add: mirror_ix_def)
  then show "mirror_ix R C (flip_ix R C j) = R * C - 1 - j" by (simp only: e k)
  have "rot90_ix C R j = l * R + r" using j k by (simp add: rot90_ix_def)
  then have "rot90_ix R C (rot90_ix C R j) = (R - r - 1) * C + l" using j by (simp add: rot90_ix_def)
  then show "rot90_ix R C (rot90_ix C R j) = R * C - 1 - j" by (simp only: e k)
qed

lemma flip_eq: "wf_area a \<Longrightarrow> flip a = Some (a\<lparr>arr := remap (length (arr a)) (flip_ix (unat (rows a)) (unat (cols a))) (arr a),
     center := (fst (center a), rows a - snd (center a) - 1)\<rparr>)"
  unfolding flip_def flip_arr by (simp add: remap_def flip_ix_def wf_area_def split: prod.split)

lemma mirror_eq: "wf_area a \<Longrightarrow> mirror a = Some (a\<lparr>arr := remap (length (arr a)) (mirror_ix (unat (rows a)) (unat (cols a))) (arr a),
     center := (cols a - fst (center a) - 1, snd (center a))\<rparr>)"
  unfolding mirror_def mirror_arr by (simp add: remap_def mirror_ix_def wf_area_def split: prod.split)

lemma rotate90_eq: "wf_area a \<Longrightarrow> rotate90 a = Some
   \<lparr>arr = remap (length (arr a)) (rot90_ix (unat (rows a)) (unat (cols a))) (arr a),
    center = (rows a - snd (center a) - 1, fst (center a)), rows = cols a, cols = rows a\<rparr>"
  unfolding rotate90_def rotate90_arr by (simp add: remap_def rot90_ix_def wf_area_def split: prod.split)

lemma rotate270_eq: "wf_area a \<Longrightarrow> rotate270 a = Some
   \<lparr>arr = remap (length (arr a)) (rot270_ix (unat (rows a)) (unat (cols a))) (arr a),
    center = (snd (center a), cols a - fst (center a) - 1), rows = cols a, cols = rows a\<rparr>"
  unfolding rotate270_def rotate270_arr by (simp add: remap_def rot270_ix_def wf_area_def split: prod.split)

lemma rotate180_eq: "wf_area a \<Longrightarrow> rotate180 a = Some (a\<lparr>arr := remap (length (arr a)) (\<lambda>j. length (arr a) - 1 - j) (arr a),
     center := (cols a - fst (center a) - 1, rows a - snd (center a) - 1)\<rparr>)"
  unfolding rotate180_def by (simp add: remap_rev [OF refl] split: prod.split)

lemmas symmetry_eqs = flip_eq mirror_eq rotate90_eq rotate180_eq rotate270_eq

lemma length_remap [simp]: "length (remap n f xs) = n"
  by (simp add: remap_def)

text \<open>On every well-formed area the symmetries obey the laws of the square: flipping twice and
  mirroring twice are the identity, a quarter turn is undone by the three-quarter turn, and two
  quarter turns, like a mirror followed by a flip, are the half turn. The centre moves along.\<close>

theorem area_symmetries:
  assumes "wf_area a"
  shows "Option.bind (flip a) flip = Some a \<and> Option.bind (mirror a) mirror = Some a \<and>
    Option.bind (rotate90 a) rotate270 = Some a \<and>
    Option.bind (rotate90 a) rotate90 = rotate180 a \<and>
    Option.bind (mirror a) flip = rotate180 a"
proof -
  let ?R = "unat (rows a)" and ?C = "unat (cols a)"
  have l: "length (arr a) = ?R * ?C" "length (arr a) < 2 ^ 32" using assms by (auto simp: wf_area_def)
  have rev90: "remap (?R * ?C) (rot90_ix ?C ?R) (remap (?R * ?C) (rot90_ix ?R ?C) (arr a)) =
      remap (?R * ?C) (\<lambda>j. ?R * ?C - 1 - j) (arr a)"
    by (subst remap_remap) (auto intro: remap_cong simp: rev_ix rot90_ix_bound mult.commute)
  have revfm: "remap (?R * ?C) (flip_ix ?R ?C) (remap (?R * ?C) (mirror_ix ?R ?C) (arr a)) =
      remap (?R * ?C) (\<lambda>j. ?R * ?C - 1 - j) (arr a)"
    by (subst remap_remap) (auto intro: remap_cong simp: rev_ix flip_ix_bound)
  have "Option.bind (flip a) flip = Some a"
    using l by (simp add: flip_eq assms wf_area_def)
      (simp add: remap_remap remap_id flip_ix_bound flip_flip_ix)
  moreover have "Option.bind (mirror a) mirror = Some a"
    using l by (simp add: mirror_eq assms wf_area_def)
      (simp add: remap_remap remap_id mirror_ix_bound mirror_mirror_ix)
  moreover have "Option.bind (rotate90 a) rotate270 = Some a"
    using l by (simp add: rotate90_eq rotate270_eq assms wf_area_def mult.commute)
      (simp add: remap_remap remap_id rot270_ix_bound rot90_rot270_ix mult.commute)
  moreover have "Option.bind (rotate90 a) rotate90 = rotate180 a"
    using l rev90 by (cases a) (simp add: rotate90_eq rotate180_eq assms wf_area_def mult.commute)
  moreover have "Option.bind (mirror a) flip = rotate180 a"
    using l revfm by (cases a) (simp add: mirror_eq flip_eq rotate180_eq assms wf_area_def)
  ultimately show ?thesis by blast
qed

text \<open>The matrix of a beam with its centre, three rows of two cells.\<close>

definition sample_area :: matrix_area where
  "sample_area = \<lparr>arr = [True, False, True, True, False, False], center = (0, 1), rows = 3, cols = 2\<rparr>"

lemma area_symmetries_witness:
  "Option.bind (rotate90 sample_area) rotate90 = rotate180 sample_area \<and>
   rotate90 sample_area = Some \<lparr>arr = [False, True, True, False, True, False], center = (1, 0), rows = 2, cols = 3\<rparr>"
proof -
  have "wf_area sample_area" by (simp add: wf_area_def sample_area_def)
  from area_symmetries [OF this] show ?thesis by (auto, code_simp)
qed

section \<open>Building an area\<close>

text \<open>The value of a script matrix at a row and a column.\<close>

definition marks_hit :: "u32 \<Rightarrow> bool" where
  "marks_hit v \<longleftrightarrow> v = 1 \<or> v = 3"

lemma fill_area_spec:
  assumes "rows a = rs" "cols a = cs" "length (arr a) = unat rs * unat cs" "unat rs * unat cs < 2 ^ 32"
    and "unat y * unat cs + unat x + length vec \<le> unat rs * unat cs" "unat x < unat cs"
  shows "\<exists>a'. fill_area vec x y cs a = Some a' \<and> rows a' = rs \<and> cols a' = cs \<and>
    length (arr a') = length (arr a) \<and>
    (\<forall>i < length (arr a). arr a' ! i =
      (if unat y * unat cs + unat x \<le> i \<and> i < unat y * unat cs + unat x + length vec
         \<and> marks_hit (vec ! (i - (unat y * unat cs + unat x))) then True else arr a ! i))"
  using assms
proof (induction vec arbitrary: x y a)
  case (Cons v vec)
  let ?p = "unat y * unat cs + unat x"
  let ?a1 = "if v = 1 \<or> v = 3 then a\<lparr>arr := (arr a)[?p := True]\<rparr> else a"
  let ?a2 = "if v = 2 \<or> v = 3 then setCenter y x ?a1 else ?a1"
  have p: "?p < unat rs * unat cs" using Cons.prems(5) by simp
  have ix: "area_index a y x = ?p"
  proof -
    have "unat (y * cs) = unat y * unat cs"
      using Cons.prems(4) p by (subst unat_word_ariths) (simp add: mod_less)
    then show ?thesis
      using Cons.prems(2,4) p unfolding area_index_def by (subst unat_word_ariths) simp
  qed
  have a2: "rows ?a2 = rs" "cols ?a2 = cs" "length (arr ?a2) = length (arr a)"
    "arr ?a2 = (if marks_hit v then (arr a)[?p := True] else arr a)"
    using Cons.prems(1,2) by (auto simp: setCenter_def marks_hit_def)
  obtain x' y' where step: "fill_area (v # vec) x y cs a = fill_area vec x' y' cs ?a2"
    and pos: "vec = [] \<or> unat y' * unat cs + unat x' = Suc ?p" "unat x' < unat cs"
  proof (cases "cs = x + 1")
    case True
    have "unat (y + 1) * unat cs = Suc ?p" if "vec \<noteq> []"
    proof -
      have "unat cs = unat x + 1" using True Cons.prems(6) 
        by (metis add.commute add_0 unatSuc unsigned_0 Suc_eq_plus1 not_less_zero)
      moreover have "unat (y + 1) = unat y + 1"
      proof -
        have "unat y < unat rs" using p
          by (metis add_lessD1 mult_less_cancel2)
        then show ?thesis using unsigned_less [of rs, where 'a = nat] by (simp add: unat_word_ariths)
      qed
      ultimately show ?thesis by simp
    qed
    then show ?thesis using that [of 0 "y + 1"] True Cons.prems(3,6) p ix
      by (auto simp: Let_def)
  next
    case False
    have x1: "unat (x + 1) = unat x + 1"
      using Cons.prems(6) unsigned_less [of cs, where 'a = nat] by (simp add: unat_word_ariths)
    have "unat cs \<noteq> unat (x + 1)" using False by (simp only: unsigned_word_eqI word_unat_eq_iff not_False_eq_True)
    then have "unat x + 1 < unat cs" using x1 Cons.prems(6) by linarith
    then show ?thesis using that [of "x + 1" y] False Cons.prems(3) p ix x1
      by (simp add: Let_def)
  qed
  show ?case
  proof (cases "vec = []")
    case True
    then show ?thesis unfolding step using a2 p Cons.prems(3)
      by (auto simp: nth_list_update)
  next
    case False
    then have pos': "unat y' * unat cs + unat x' = Suc ?p" using pos(1) by simp
    have "unat y' * unat cs + unat x' + length vec \<le> unat rs * unat cs"
      using pos' Cons.prems(5) by simp
    from Cons.IH [OF a2(1,2) _ Cons.prems(4) this pos(2)] obtain a' where
      a': "fill_area vec x' y' cs ?a2 = Some a'" "rows a' = rs" "cols a' = cs"
      "length (arr a') = length (arr a)"
      "\<forall>i < length (arr a). arr a' ! i =
        (if Suc ?p \<le> i \<and> i < Suc ?p + length vec \<and> marks_hit (vec ! (i - Suc ?p)) then True else arr ?a2 ! i)"
      using a2(3) Cons.prems(3) unfolding pos' by auto
    have "arr a' ! i = (if ?p \<le> i \<and> i < ?p + length (v # vec) \<and> marks_hit ((v # vec) ! (i - ?p))
        then True else arr a ! i)" if "i < length (arr a)" for i
    proof (cases "i = ?p")
      case True
      then show ?thesis using that a'(5) a2(4) by auto
    next
      case False
      have "(v # vec) ! (i - ?p) = vec ! (i - Suc ?p)" if "?p < i"
        using that by (simp add: nth_Cons' )
      then show ?thesis using that a'(5) a2(4) False by auto
    qed
    then show ?thesis unfolding step using a' by auto
  qed
qed auto

text \<open>The centre depends only on where the twos and threes are.\<close>

definition mark_cell :: "u32 \<Rightarrow> u32 \<Rightarrow> u32 \<Rightarrow> matrix_area \<Rightarrow> matrix_area option" where
  "mark_cell v y x a =
     (if (v = 1 \<or> v = 3) \<and> \<not> area_index a y x < length (arr a) then None
      else
        let a1 = (if v = 1 \<or> v = 3 then a\<lparr>arr := (arr a)[area_index a y x := True]\<rparr> else a)
        in Some (if v = 2 \<or> v = 3 then setCenter y x a1 else a1))"

lemma fill_area_Cons:
  "fill_area (v # vec) x y cs a =
     Option.bind (mark_cell v y x a)
       (fill_area vec (if cs = x + 1 then 0 else x + 1) (if cs = x + 1 then y + 1 else y) cs)"
  by (simp add: mark_cell_def Let_def)

lemma mark_cell_center:
  "mark_cell v y x a = Some a' \<Longrightarrow> center a' = (if v = 2 \<or> v = 3 then (x, y) else center a)"
  by (auto simp: mark_cell_def setCenter_def Let_def split: if_split_asm)

lemma fill_area_center:
  "map (\<lambda>v. v = 2 \<or> v = 3) vec = map (\<lambda>v. v = 2 \<or> v = 3) vec' \<Longrightarrow> fill_area vec x y cs a = Some a' \<Longrightarrow>
     fill_area vec' x y cs b = Some b' \<Longrightarrow> center a = center b \<Longrightarrow> center a' = center b'"
proof (induction vec arbitrary: vec' x y a b)
  case (Cons v vec)
  then obtain v' vec2 where v: "vec' = v' # vec2" "(v = 2 \<or> v = 3) = (v' = 2 \<or> v' = 3)"
    "map (\<lambda>v. v = 2 \<or> v = 3) vec = map (\<lambda>v. v = 2 \<or> v = 3) vec2" by (auto simp: Cons_eq_map_conv)
  from Cons.prems(2,3) obtain a2 b2 where m: "mark_cell v y x a = Some a2" "mark_cell v' y x b = Some b2"
    and f: "fill_area vec (if cs = x + 1 then 0 else x + 1) (if cs = x + 1 then y + 1 else y) cs a2 = Some a'"
      "fill_area vec2 (if cs = x + 1 then 0 else x + 1) (if cs = x + 1 then y + 1 else y) cs b2 = Some b'"
    unfolding v(1) fill_area_Cons by (auto simp: bind_eq_Some_conv)
  have "center a2 = center b2"
    using m [THEN mark_cell_center] v(2) Cons.prems(4) by simp
  with Cons.IH [OF v(3) f] show ?case .
qed simp

text \<open>The area a script matrix becomes: its cells are the ones and threes in order.\<close>

lemma createArea_spec:
  assumes "0 < unat rs" and "length vec = unat rs * k" and "length vec < 2 ^ 32" and "0 < k"
  shows "\<exists>a. createArea vec rs = Some a \<and> wf_area a \<and> rows a = rs \<and> cols a = word_of_nat k \<and>
    unat (cols a) = k \<and> arr a = map marks_hit vec"
proof -
  let ?cs = "word_of_nat (length vec div unat rs) :: u32"
  have "k * 1 \<le> unat rs * k" using assms(1) by (simp del: One_nat_def)
  then have "k < 2 ^ 32" using assms(2,3) by linarith
  then have k: "k < 2 ^ 32" "unat ?cs = k" "?cs = word_of_nat k" using assms by (simp_all add: unat_of_nat)
  have n: "unat (rs * ?cs) = unat rs * k"
    using k(1,2) assms(2,3) by (subst unat_word_ariths) simp
  have "\<exists>a'. fill_area vec 0 0 ?cs (new_area rs ?cs) = Some a' \<and> rows a' = rs \<and> cols a' = ?cs \<and>
    length (arr a') = length (arr (new_area rs ?cs)) \<and>
    (\<forall>i < length (arr (new_area rs ?cs)). arr a' ! i =
      (if unat (0 :: u32) * unat ?cs + unat (0 :: u32) \<le> i \<and> i < unat (0 :: u32) * unat ?cs + unat (0 :: u32) + length vec
         \<and> marks_hit (vec ! (i - (unat (0 :: u32) * unat ?cs + unat (0 :: u32)))) then True else arr (new_area rs ?cs) ! i))"
    by (rule fill_area_spec) (use assms k(1,2) n in \<open>simp_all add: new_area_def\<close>)
  then obtain a where a: "fill_area vec 0 0 ?cs (new_area rs ?cs) = Some a" "rows a = rs" "cols a = ?cs"
    "length (arr a) = length vec" "\<forall>i < length vec. arr a ! i \<longleftrightarrow> marks_hit (vec ! i)"
    using n assms(2) by (auto simp: new_area_def)
  have "arr a = map marks_hit vec" using a(4,5) by (intro nth_equalityI) simp_all
  moreover have "rs \<noteq> 0" using assms(1) by auto
  ultimately show ?thesis using a(1-4) k assms
    by (intro exI [of _ a]) (simp add: createArea_def wf_area_def)
qed

text \<open>A script matrix with its rows all of one length becomes an area of that shape whose cell is
  set exactly where the script has a 1 or a 3; no index of the loop leaves the array.\<close>

theorem createArea_cells:
  assumes "0 < unat rs" and "length vec = unat rs * k" and "length vec < 2 ^ 32" and "0 < k"
  shows "\<exists>a. createArea vec rs = Some a \<and> wf_area a \<and> rows a = rs \<and> unat (cols a) = k \<and>
    (\<forall>r < unat rs. \<forall>c < k. cell a r c \<longleftrightarrow> marks_hit (vec ! (r * k + c)))"
  using createArea_spec [OF assms] assms(2) cell_less [of _ "unat rs" _ k]
  by (fastforce simp: cell_def)

lemma createArea_cells_witness:
  "\<exists>a. createArea [1, 0, 3, 1, 0, 2] 3 = Some a \<and> wf_area a \<and> cell a 1 0 \<and> \<not> cell a 2 1"
  using createArea_cells [of 3 "[1, 0, 3, 1, 0, 2]" 2]
  by (fastforce simp: marks_hit_def)

end
