(* ===== verification/CombatArea.thy ===== *)
theory CombatArea
  imports MatrixArea Positions "HOL-Library.Signed_Division" "HOL-Library.Monad_Syntax"
begin

text \<open>
  Directed combat areas, class \<open>AreaCombat\<close> of \<open>src/src/combat.cpp\<close>: the areas a spell keeps for the
  eight directions, how the scripts' shapes (matrix, beam, circle, ring) fill them, and which one a
  cast uses. An assignment to a missing vector element, or a symmetry that leaves its array, is
  \<open>None\<close>.
\<close>

record area_combat =
  areas :: "matrix_area list"
  hasExtArea :: bool

definition empty_area :: matrix_area where
  "empty_area = \<lparr>arr = [], center = (0, 0), rows = 0, cols = 0\<rparr>"

definition new_area_combat :: area_combat where
  "new_area_combat = \<lparr>areas = [], hasExtArea = False\<rparr>"

section \<open>Choosing an area\<close>

definition area_direction :: "bool \<Rightarrow> int \<Rightarrow> int \<Rightarrow> direction" where
  "area_direction ext dx dy =
     (let dir = (if dx < 0 then DIRECTION_WEST
                 else if dx > 0 then DIRECTION_EAST
                 else if dy < 0 then DIRECTION_NORTH
                 else DIRECTION_SOUTH)
      in if ext then
           (if dx < 0 \<and> dy < 0 then DIRECTION_NORTHWEST
            else if dx > 0 \<and> dy < 0 then DIRECTION_NORTHEAST
            else if dx < 0 \<and> dy > 0 then DIRECTION_SOUTHWEST
            else if dx > 0 \<and> dy > 0 then DIRECTION_SOUTHEAST
            else dir)
         else dir)"

definition getArea :: "area_combat \<Rightarrow> position \<Rightarrow> position \<Rightarrow> matrix_area" where
  "getArea ac centerPos targetPos =
     (let dir = unat (direction_value (area_direction (hasExtArea ac)
                  (getOffsetX targetPos centerPos) (getOffsetY targetPos centerPos)))
      in if dir \<ge> length (areas ac) then empty_area else areas ac ! dir)"

section \<open>Filling the areas\<close>

text \<open>\<open>std::vector::resize\<close> and an assignment to an element.\<close>

definition resize_areas :: "nat \<Rightarrow> matrix_area list \<Rightarrow> matrix_area list" where
  "resize_areas n as = take n as @ replicate (n - length as) empty_area"

definition put_area :: "direction \<Rightarrow> matrix_area \<Rightarrow> matrix_area list \<Rightarrow> matrix_area list option" where
  "put_area d a as =
     (if unat (direction_value d) < length as then Some (as[unat (direction_value d) := a]) else None)"

definition setupArea :: "u32 list \<Rightarrow> u32 \<Rightarrow> area_combat \<Rightarrow> area_combat option" where
  "setupArea vec rs ac = do {
     area \<leftarrow> createArea vec rs;
     let as0 = (if areas ac = [] then resize_areas 4 (areas ac) else areas ac);
     east \<leftarrow> rotate90 area;
     as1 \<leftarrow> put_area DIRECTION_EAST east as0;
     south \<leftarrow> rotate180 area;
     as2 \<leftarrow> put_area DIRECTION_SOUTH south as1;
     west \<leftarrow> rotate270 area;
     as3 \<leftarrow> put_area DIRECTION_WEST west as2;
     as4 \<leftarrow> put_area DIRECTION_NORTH area as3;
     Some (ac\<lparr>areas := as4\<rparr>)
   }"

definition setupExtArea :: "u32 list \<Rightarrow> u32 \<Rightarrow> area_combat \<Rightarrow> area_combat option" where
  "setupExtArea vec rs ac =
     (if vec = [] then Some ac
      else do {
        area \<leftarrow> createArea vec rs;
        let as0 = resize_areas 8 (areas ac);
        ne \<leftarrow> mirror area;
        as1 \<leftarrow> put_area DIRECTION_NORTHEAST ne as0;
        sw \<leftarrow> flip area;
        as2 \<leftarrow> put_area DIRECTION_SOUTHWEST sw as1;
        se \<leftarrow> rotate180 area;
        as3 \<leftarrow> put_area DIRECTION_SOUTHEAST se as2;
        as4 \<leftarrow> put_area DIRECTION_NORTHWEST area as3;
        Some (ac\<lparr>hasExtArea := True, areas := as4\<rparr>)
      })"

section \<open>Beams\<close>

text \<open>
  One row of the loop of \<open>setupArea(length, spread)\<close>, and the loop over the rows with the current
  spread of the columns. Overflow of the 32-bit signed intermediate values is not modelled.
\<close>

definition beam_row :: "int \<Rightarrow> int \<Rightarrow> int \<Rightarrow> int \<Rightarrow> u32 list" where
  "beam_row rs cs colSpread y =
     (let mincol = cs - colSpread + 1;
          maxcol = cs - (cs - colSpread)
      in map (\<lambda>x. if y = rs \<and> x = ((cs - cs smod 2) sdiv 2) + 1 then 3
                  else if x \<ge> mincol \<and> x \<le> maxcol then 1
                  else 0) [1..cs])"

fun beam_rows :: "nat \<Rightarrow> int \<Rightarrow> int \<Rightarrow> int \<Rightarrow> int \<Rightarrow> int \<Rightarrow> u32 list" where
  "beam_rows 0 rs cs spread colSpread y = []"
| "beam_rows (Suc n) rs cs spread colSpread y =
     beam_row rs cs colSpread y @
     beam_rows n rs cs spread
       (if spread > 0 \<and> y mod spread = 0 then colSpread - 1 else colSpread) (y + 1)"

definition beam_cols :: "int \<Rightarrow> int \<Rightarrow> int" where
  "beam_cols len spread =
     (if spread \<noteq> 0 then ((len - len smod spread) sdiv spread) * 2 + 1 else 1)"

definition setupArea_beam :: "int \<Rightarrow> int \<Rightarrow> area_combat \<Rightarrow> area_combat option" where
  "setupArea_beam len spread ac =
     (let rs = (word_of_int len :: u32); cs = beam_cols len spread
      in setupArea (beam_rows (unat rs) (uint rs) cs spread cs 1) rs ac)"

section \<open>Circles and rings\<close>

definition radius_table :: "int list list" where
  "radius_table =
    [[0, 0, 0, 0, 0, 0, 8, 0, 0, 0, 0, 0, 0], [0, 0, 0, 0, 8, 8, 7, 8, 8, 0, 0, 0, 0],
     [0, 0, 0, 8, 7, 6, 6, 6, 7, 8, 0, 0, 0], [0, 0, 8, 7, 6, 5, 5, 5, 6, 7, 8, 0, 0],
     [0, 8, 7, 6, 5, 4, 4, 4, 5, 6, 7, 8, 0], [0, 8, 6, 5, 4, 3, 2, 3, 4, 5, 6, 8, 0],
     [8, 7, 6, 5, 4, 2, 1, 2, 4, 5, 6, 7, 8], [0, 8, 6, 5, 4, 3, 2, 3, 4, 5, 6, 8, 0],
     [0, 8, 7, 6, 5, 4, 4, 4, 5, 6, 7, 8, 0], [0, 0, 8, 7, 6, 5, 5, 5, 6, 7, 8, 0, 0],
     [0, 0, 0, 8, 7, 6, 6, 6, 7, 8, 0, 0, 0], [0, 0, 0, 0, 8, 8, 7, 8, 8, 0, 0, 0, 0],
     [0, 0, 0, 0, 0, 0, 8, 0, 0, 0, 0, 0, 0]]"

definition ring_table :: "int list list" where
  "ring_table =
    [[0, 0, 0, 0, 0, 7, 7, 7, 0, 0, 0, 0, 0], [0, 0, 0, 0, 7, 6, 6, 6, 7, 0, 0, 0, 0],
     [0, 0, 0, 7, 6, 5, 5, 5, 6, 7, 0, 0, 0], [0, 0, 7, 6, 5, 4, 4, 4, 5, 6, 7, 0, 0],
     [0, 7, 6, 5, 4, 3, 3, 3, 4, 5, 6, 7, 0], [7, 6, 5, 4, 3, 2, 0, 2, 3, 4, 5, 6, 7],
     [7, 6, 5, 4, 3, 0, 1, 0, 3, 4, 5, 6, 7], [7, 6, 5, 4, 3, 2, 0, 2, 3, 4, 5, 6, 7],
     [0, 7, 6, 5, 4, 3, 3, 3, 4, 5, 6, 7, 0], [0, 0, 7, 6, 5, 4, 4, 4, 5, 6, 7, 0, 0],
     [0, 0, 0, 7, 6, 5, 5, 5, 6, 7, 0, 0, 0], [0, 0, 0, 0, 7, 6, 6, 6, 7, 0, 0, 0, 0],
     [0, 0, 0, 0, 0, 7, 7, 7, 0, 0, 0, 0, 0]]"

definition radius_vec :: "int \<Rightarrow> u32 list" where
  "radius_vec radius = map (\<lambda>c. if c = 1 then 3 else if c > 0 \<and> c \<le> radius then 1 else 0) (concat radius_table)"

definition ring_vec :: "int \<Rightarrow> u32 list" where
  "ring_vec ring = map (\<lambda>c. if c = 1 then 3 else if c > 0 \<and> c = ring then 1 else 0) (concat ring_table)"

definition setupArea_radius :: "int \<Rightarrow> area_combat \<Rightarrow> area_combat option" where
  "setupArea_radius radius ac = setupArea (radius_vec radius) 13 ac"

definition setupAreaRing :: "int \<Rightarrow> area_combat \<Rightarrow> area_combat option" where
  "setupAreaRing ring ac = setupArea (ring_vec ring) 13 ac"

section \<open>Properties\<close>

lemma direction_index [simp]:
  "unat (direction_value DIRECTION_NORTH) = 0" "unat (direction_value DIRECTION_EAST) = 1"
  "unat (direction_value DIRECTION_SOUTH) = 2" "unat (direction_value DIRECTION_WEST) = 3"
  "unat (direction_value DIRECTION_SOUTHWEST) = 4" "unat (direction_value DIRECTION_SOUTHEAST) = 5"
  "unat (direction_value DIRECTION_NORTHWEST) = 6" "unat (direction_value DIRECTION_NORTHEAST) = 7"
  by (simp_all add: DIRECTION_DIAGONAL_MASK_def)

text \<open>The turned areas exist for every well-formed area.\<close>

lemma turned_areas:
  assumes "wf_area a"
  obtains e s w f m where "rotate90 a = Some e" "rotate180 a = Some s" "rotate270 a = Some w"
    "flip a = Some f" "mirror a = Some m"
  using symmetry_eqs [OF assms] by blast

lemma setupArea_eq:
  assumes "createArea vec rs = Some area" "wf_area area" "areas ac = [] \<or> 4 \<le> length (areas ac)"
    and "rotate90 area = Some e" "rotate180 area = Some s" "rotate270 area = Some w"
  shows "setupArea vec rs ac = Some (ac\<lparr>areas := [area, e, s, w] @ drop 4 (areas ac)\<rparr>)"
proof -
  let ?as = "if areas ac = [] then resize_areas 4 (areas ac) else areas ac"
  have "4 \<le> length ?as" using assms(3) by (auto simp: resize_areas_def)
  moreover have "drop 4 ?as = drop 4 (areas ac)" by (simp add: resize_areas_def)
  ultimately have "?as[Suc 0 := e, 2 := s, 3 := w, 0 := area] = [area, e, s, w] @ drop 4 (areas ac)"
    by (intro nth_equalityI) (auto simp: nth_list_update nth_Cons' nth_append)
  then show ?thesis using assms \<open>4 \<le> length ?as\<close>
    by (auto simp: setupArea_def put_area_def Let_def simp del: direction_value.simps)
qed


text \<open>The areas of circles and rings: the centre is in the middle of a square of 13 by 13.\<close>

lemma square_table:
  assumes len: "length tbl = 13 * 13" and three: "\<And>c. f c = 3 \<longleftrightarrow> c = 1" and two: "\<And>c. f c \<noteq> 2"
    and sample: "center (the (createArea (map (\<lambda>c. if c = 1 then 3 else 0) tbl) 13)) = (6, 6)"
  shows "createArea (map f tbl) 13 = Some \<lparr>arr = map (\<lambda>c. marks_hit (f c)) tbl, center = (6, 6), rows = 13, cols = 13\<rparr>"
proof -
  have ex: "\<exists>a. createArea (map g tbl) 13 = Some a \<and> wf_area a \<and> rows a = 13 \<and> cols a = word_of_nat 13 \<and>
      unat (cols a) = 13 \<and> arr a = map marks_hit (map g tbl)" for g
    by (rule createArea_spec) (simp_all add: len)
  from ex [of f] obtain a where a: "createArea (map f tbl) 13 = Some a" "rows a = 13" "cols a = 13"
    "arr a = map (\<lambda>c. marks_hit (f c)) tbl" by (auto simp: comp_def)
  from ex [of "\<lambda>c. if c = 1 then 3 else 0"] obtain b where b: "createArea (map (\<lambda>c. if c = 1 then 3 else 0) tbl) 13 = Some b"
    by blast
  have "center a = center b"
    by (rule fill_area_center [of "map f tbl" "map (\<lambda>c. if c = 1 then 3 else 0) tbl"])
      (use a(1) b len three two in \<open>auto simp: createArea_def\<close>)
  then show ?thesis using a b sample by (cases a) auto
qed

definition symmetric_table :: "'a list \<Rightarrow> bool" where
  "symmetric_table tbl \<longleftrightarrow> length tbl = 169 \<and> remap 169 (rot90_ix 13 13) tbl = tbl \<and>
     remap 169 (rot270_ix 13 13) tbl = tbl \<and> rev tbl = tbl"

lemma remap_map: "length xs = n \<Longrightarrow> (\<And>i. i < n \<Longrightarrow> g i < n) \<Longrightarrow> remap n g (map f xs) = map f (remap n g xs)"
  by (simp add: remap_def)

lemma symmetric_table_turns:
  fixes h :: "'a \<Rightarrow> bool"
  assumes "symmetric_table tbl"
  defines "a \<equiv> \<lparr>arr = map h tbl, center = (6, 6), rows = 13, cols = 13\<rparr>"
  shows "wf_area a \<and> rotate90 a = Some a \<and> rotate180 a = Some a \<and> rotate270 a = Some a"
proof -
  have wf: "wf_area a" and l: "length tbl = 169" using assms(1) by (simp_all add: a_def wf_area_def symmetric_table_def)
  have "remap 169 (rot90_ix 13 13) (map h tbl) = map h tbl" "remap 169 (rot270_ix 13 13) (map h tbl) = map h tbl"
    using assms(1) rot90_ix_bound [of _ 13 13] rot270_ix_bound [of _ 13 13]
    by (subst remap_map; simp add: symmetric_table_def)+
  then have "rotate90 a = Some a" "rotate270 a = Some a"
    using l by (simp_all add: rotate90_eq [OF wf] rotate270_eq [OF wf]) (simp_all add: a_def)
  moreover have "rotate180 a = Some a"
    using assms(1) by (simp add: rotate180_def a_def rev_map symmetric_table_def)
  ultimately show ?thesis using wf by simp
qed

lemma tables_symmetric: "symmetric_table (concat radius_table)" "symmetric_table (concat ring_table)"
  by code_simp+

lemma radius_area:
  "createArea (radius_vec radius) 13 =
     Some \<lparr>arr = map (\<lambda>c. marks_hit (if c = 1 then 3 else if c > 0 \<and> c \<le> radius then 1 else 0)) (concat radius_table),
           center = (6, 6), rows = 13, cols = 13\<rparr>"
  unfolding radius_vec_def
  by (rule square_table) (simp add: radius_table_def, simp, simp, code_simp)

lemma ring_area:
  "createArea (ring_vec ring) 13 =
     Some \<lparr>arr = map (\<lambda>c. marks_hit (if c = 1 then 3 else if c > 0 \<and> c = ring then 1 else 0)) (concat ring_table),
           center = (6, 6), rows = 13, cols = 13\<rparr>"
  unfolding ring_vec_def
  by (rule square_table) (simp add: ring_table_def, simp, simp, code_simp)

lemma symmetric_setup:
  assumes "createArea vec 13 = Some \<lparr>arr = map h tbl, center = (6, 6), rows = 13, cols = 13\<rparr>"
    and "symmetric_table tbl"
  shows "\<exists>ac a. setupArea vec 13 new_area_combat = Some ac \<and> (\<forall>c t. getArea ac c t = a)"
proof -
  let ?a = "\<lparr>arr = map h tbl, center = (6, 6), rows = 13, cols = 13\<rparr>"
  note turns = symmetric_table_turns [OF assms(2), of h]
  have "setupArea vec 13 new_area_combat = Some (new_area_combat\<lparr>areas := [?a, ?a, ?a, ?a] @ []\<rparr>)"
    using setupArea_eq [OF assms(1), of new_area_combat] turns by (simp add: new_area_combat_def)
  moreover have "getArea (new_area_combat\<lparr>areas := [?a, ?a, ?a, ?a] @ []\<rparr>) c t = ?a" for c t
    by (simp add: getArea_def area_direction_def new_area_combat_def Let_def del: direction_value.simps)
  ultimately show ?thesis by blast
qed

text \<open>A circle or a ring of any radius is the same area in all four directions: the stored tables
  are symmetric under quarter turns about their middle, so a cast does not depend on where the
  caster stands.\<close>

theorem circles_and_rings_are_symmetric:
  "(\<exists>ac a. setupArea_radius n new_area_combat = Some ac \<and> (\<forall>c t. getArea ac c t = a)) \<and>
   (\<exists>ac a. setupAreaRing n new_area_combat = Some ac \<and> (\<forall>c t. getArea ac c t = a))"
  unfolding setupArea_radius_def setupAreaRing_def
  by (intro conjI symmetric_setup [OF radius_area tables_symmetric(1)]
      symmetric_setup [OF ring_area tables_symmetric(2)])

text \<open>After a matrix of any rectangular shape has been set up, a cast takes the script's area when the
  target is north of the caster and its quarter, half and three-quarter turns when it is east,
  south and west (east and west winning on diagonals); nothing is out of bounds.\<close>

theorem getArea_after_setup:
  assumes "0 < unat rs" and "length vec = unat rs * k" and "length vec < 2 ^ 32" and "0 < k"
  shows "\<exists>area ac. createArea vec rs = Some area \<and> setupArea vec rs new_area_combat = Some ac \<and>
    (\<forall>c t. Some (getArea ac c t) =
       (if getX t < getX c then rotate270 area else if getX c < getX t then rotate90 area
        else if getY t < getY c then Some area else rotate180 area))"
proof -
  obtain a where a: "createArea vec rs = Some a" "wf_area a" using createArea_spec [OF assms] by blast
  obtain e s w f m where t: "rotate90 a = Some e" "rotate180 a = Some s" "rotate270 a = Some w"
    "flip a = Some f" "mirror a = Some m" using turned_areas [OF a(2)] .
  have "setupArea vec rs new_area_combat = Some (new_area_combat\<lparr>areas := [a, e, s, w] @ []\<rparr>)"
    using setupArea_eq [OF a, of new_area_combat e s w] t by (simp add: new_area_combat_def)
  then show ?thesis using a(1) t
    by (auto simp: getArea_def area_direction_def new_area_combat_def Let_def getOffsetX_def getOffsetY_def
        simp del: direction_value.simps)
qed

lemma getArea_after_setup_witness:
  "\<exists>area ac. createArea [1, 1, 0, 3] 2 = Some area \<and> setupArea [1, 1, 0, 3] 2 new_area_combat = Some ac \<and>
    Some (getArea ac (Position 5 5 7) (Position 4 9 7)) = rotate270 area"
  using getArea_after_setup [of 2 "[1, 1, 0, 3]" 2] by (fastforce simp: getX_def)

end
