(* ===== verification/Rounding.thy ===== *)
theory Rounding
  imports Complex_Main
begin

text \<open>
  The arithmetic of \<open>float\<close> and \<open>double\<close>: a floating point number is the rational number it stands for, and each
  operation rounds to the nearest number of 24 or 53 significant bits, to even in a tie. The exponents are not bounded.
\<close>

section \<open>Floating point numbers\<close>

text \<open>The exponent of the leading bit of a positive number.\<close>

fun bit_length :: "nat \<Rightarrow> nat" where
  "bit_length n = (if n = 0 then 0 else Suc (bit_length (n div 2)))"

declare bit_length.simps [simp del]

definition two_to :: "int \<Rightarrow> rat" where
  "two_to e = (if e \<ge> 0 then 2 ^ nat e else 1 / 2 ^ nat (- e))"

definition exponent :: "rat \<Rightarrow> int" where
  "exponent q =
     (let (a, b) = quotient_of \<bar>q\<bar>; e = int (bit_length (nat a)) - int (bit_length (nat b))
      in if two_to e \<le> \<bar>q\<bar> then e else e - 1)"

definition round_even :: "rat \<Rightarrow> int" where
  "round_even q =
     (let n = \<lfloor>q\<rfloor>; r = q - of_int n in
      if r < 1 / 2 \<or> (r = 1 / 2 \<and> even n) then n else n + 1)"

definition round_to :: "int \<Rightarrow> rat \<Rightarrow> rat" where
  "round_to p q =
     (if q = 0 then 0
      else let ulp = two_to (exponent q - (p - 1)) in of_int (round_even (q / ulp)) * ulp)"

abbreviation to_float :: "rat \<Rightarrow> rat" where "to_float \<equiv> round_to 24"
abbreviation to_double :: "rat \<Rightarrow> rat" where "to_double \<equiv> round_to 53"

section \<open>Bounds and whole numbers\<close>

lemma two_to_powi: "two_to e = 2 powi e"
  by (simp add: two_to_def power_int_def power_divide)

lemma two_to_mono: "a \<le> b \<Longrightarrow> two_to a \<le> two_to b"
  by (simp add: two_to_powi power_int_increasing)

lemma two_to_pos [simp]: "0 < two_to e"
  by (simp add: two_to_powi)

lemma two_to_not_neg [simp]: "\<not> two_to e < 0"
  using two_to_pos [of e] by (simp del: two_to_pos)

lemma two_to_add: "two_to (a + b) = two_to a * two_to b"
  by (simp add: two_to_powi power_int_add)

lemma two_to_diff: "two_to (a - b) = two_to a / two_to b"
  by (simp add: two_to_powi power_int_diff)

lemma two_to_nat: "two_to (int k) = 2 ^ k"
  by (simp add: two_to_def)

lemma bit_length_bounds: "n > 0 \<Longrightarrow> 2 ^ (bit_length n - 1) \<le> n \<and> n < 2 ^ bit_length n \<and> bit_length n > 0"
proof (induction n rule: bit_length.induct)
  case (1 n)
  show ?case
  proof (cases "n div 2 = 0")
    case True
    then have "n = 1" using 1(2) by auto
    then show ?thesis by (simp add: bit_length.simps)
  next
    case False
    then have IH: "2 ^ (bit_length (n div 2) - 1) \<le> n div 2" "n div 2 < 2 ^ bit_length (n div 2)" "bit_length (n div 2) > 0"
      using 1 by auto
    have eq: "bit_length n = Suc (bit_length (n div 2))" using 1(2) by (simp add: bit_length.simps)
    obtain k where k: "bit_length (n div 2) = Suc k" using IH(3) by (cases "bit_length (n div 2)") auto
    define m :: nat where "m = 2 ^ k"
    have "m \<le> n div 2" "n div 2 < 2 * m" using IH(1,2) by (simp_all add: k m_def)
    then have "2 * m \<le> n \<and> n < 4 * m" by auto
    then show ?thesis by (simp add: eq k m_def)
  qed
qed

lemma exponent_bounds:
  assumes "q \<noteq> 0" shows "two_to (exponent q) \<le> \<bar>q\<bar>" and "\<bar>q\<bar> < two_to (exponent q + 1)"
proof -
  obtain a b where ab: "quotient_of \<bar>q\<bar> = (a, b)" by fastforce
  then have b: "b > 0" and q: "\<bar>q\<bar> = of_int a / of_int b"
    by (auto simp: quotient_of_denom_pos quotient_of_div)
  have a: "a > 0" using q b assms by (metis abs_of_nonneg of_int_0_less_iff of_int_pos zero_less_abs_iff zero_less_divide_iff less_asym)
  let ?la = "bit_length (nat a)" and ?lb = "bit_length (nat b)"
  have na: "2 ^ (?la - 1) \<le> nat a" "nat a < 2 ^ ?la" "?la > 0" and nb: "2 ^ (?lb - 1) \<le> nat b" "nat b < 2 ^ ?lb" "?lb > 0"
    using bit_length_bounds [of "nat a"] bit_length_bounds [of "nat b"] a b by auto
  have bounds: "(2::rat) ^ (?la - 1) \<le> of_int a" "of_int a < (2::rat) ^ ?la" "(2::rat) ^ (?lb - 1) \<le> of_int b" "of_int b < (2::rat) ^ ?lb"
    using na nb a b by (metis le_nat_iff less_le nat_less_iff of_int_le_numeral_power_cancel_iff of_int_less_numeral_power_cancel_iff
        numeral_power_le_of_int_cancel_iff nat_le_iff of_nat_le_iff of_nat_numeral of_nat_power int_nat_eq)+
  let ?e = "int ?la - int ?lb"
  have ex: "exponent q = (if two_to ?e \<le> \<bar>q\<bar> then ?e else ?e - 1)"
    by (simp add: exponent_def ab Let_def)
  have bounds': "two_to (int ?la - 1) \<le> of_int a" "of_int a < two_to (int ?la)"
      "two_to (int ?lb - 1) \<le> of_int b" "of_int b < two_to (int ?lb)"
    using bounds na(3) nb(3) two_to_nat [of "?la - 1"] two_to_nat [of "?lb - 1"] by (simp_all add: two_to_nat of_nat_diff)
  have upper: "\<bar>q\<bar> < two_to (?e + 1)"
  proof -
    have "\<bar>q\<bar> < two_to (int ?la) / two_to (int ?lb - 1)"
      unfolding q using bounds' a by (intro frac_less) auto
    then show ?thesis by (simp add: two_to_diff [symmetric] algebra_simps)
  qed
  have lower: "two_to (?e - 1) \<le> \<bar>q\<bar>"
  proof -
    have "two_to (int ?la - 1) / two_to (int ?lb) \<le> \<bar>q\<bar>"
      unfolding q using bounds' a b by (intro frac_le) auto
    then show ?thesis by (simp add: two_to_diff [symmetric] algebra_simps)
  qed
  show "two_to (exponent q) \<le> \<bar>q\<bar>" "\<bar>q\<bar> < two_to (exponent q + 1)"
    using ex upper lower by (auto split: if_splits)
qed

lemma round_even_int [simp]: "round_even (of_int n) = n"
  by (simp add: round_even_def)

lemma round_even_near: "\<bar>of_int (round_even q) - q\<bar> \<le> 1 / 2"
proof -
  have "of_int \<lfloor>q\<rfloor> \<le> q" "q < of_int \<lfloor>q\<rfloor> + 1" by linarith+
  moreover have "round_even q = \<lfloor>q\<rfloor> \<and> q - of_int \<lfloor>q\<rfloor> \<le> 1 / 2 \<or> round_even q = \<lfloor>q\<rfloor> + 1 \<and> q - of_int \<lfloor>q\<rfloor> \<ge> 1 / 2"
    by (auto simp: round_even_def Let_def)
  ultimately show ?thesis by auto
qed

text \<open>Numbers with few enough bits are not rounded.\<close>

lemma round_to_int:
  assumes "\<bar>n\<bar> < 2 ^ p" shows "round_to (int p) (of_int n) = of_int n"
proof (cases "n = 0")
  case False
  let ?e = "exponent (of_int n)"
  have "two_to ?e \<le> \<bar>of_int n\<bar>" using exponent_bounds(1) [of "of_int n"] False by simp
  also have "\<bar>of_int n\<bar> < (2::rat) ^ p"
  proof -
    have "(of_int \<bar>n\<bar> :: rat) < of_int (2 ^ p)" using assms by (simp only: of_int_less_iff)
    then show ?thesis by simp
  qed
  finally have "two_to ?e < two_to (int p)" by (simp add: two_to_nat)
  then have "?e < int p" using two_to_mono [of "int p" ?e] by (meson not_le)
  define k where "k = nat (int p - 1 - ?e)"
  have k: "?e - (int p - 1) = - int k" using \<open>?e < int p\<close> by (simp add: k_def)
  have ulp: "two_to (- int k) = 1 / 2 ^ k" by (simp add: two_to_def)
  have "of_int n / two_to (- int k) = (of_int (n * 2 ^ k) :: rat)" by (simp add: ulp)
  then have "round_to (int p) (of_int n) = of_int (n * 2 ^ k) * two_to (- int k)"
    using False unfolding round_to_def Let_def k by (simp only: round_even_int of_int_eq_0_iff if_False)
  then show ?thesis by (simp add: ulp)
qed (simp add: round_to_def)

lemma round_to_near:
  assumes "\<bar>q\<bar> < two_to e" shows "\<bar>round_to p q - q\<bar> \<le> two_to (e - 1 - p)"
proof (cases "q = 0")
  case False
  let ?u = "two_to (exponent q - (p - 1))"
  have "two_to (exponent q) < two_to e" using exponent_bounds(1) [OF False] assms by linarith
  then have "exponent q < e" using two_to_mono [of e "exponent q"] by (meson not_le)
  have "round_to p q - q = (of_int (round_even (q / ?u)) - q / ?u) * ?u"
    using False two_to_pos [of "exponent q - (p - 1)"] by (simp add: round_to_def Let_def left_diff_distrib less_imp_neq [symmetric] del: two_to_pos)
  then have "\<bar>round_to p q - q\<bar> = \<bar>of_int (round_even (q / ?u)) - q / ?u\<bar> * ?u"
    using two_to_pos [of "exponent q - (p - 1)"] by (simp add: abs_mult abs_of_pos del: two_to_pos)
  also have "\<dots> \<le> 1 / 2 * ?u" by (intro mult_right_mono round_even_near less_imp_le two_to_pos)
  also have "\<dots> = two_to (exponent q - p)"
    using two_to_add [of "exponent q - p" 1] by (simp add: algebra_simps two_to_def [of 1])
  also have "\<dots> \<le> two_to (e - 1 - p)" using \<open>exponent q < e\<close> by (intro two_to_mono) simp
  finally show ?thesis .
qed (simp add: round_to_def less_imp_le)

section \<open>Rounding keeps the order\<close>

lemma round_even_mono: assumes "x \<le> y" shows "round_even x \<le> round_even y"
proof (cases "\<lfloor>x\<rfloor> = \<lfloor>y\<rfloor>")
  case True
  then show ?thesis using assms by (auto simp: round_even_def Let_def)
next
  case False
  then have "\<lfloor>x\<rfloor> + 1 \<le> \<lfloor>y\<rfloor>" using floor_mono [OF assms] by linarith
  then show ?thesis by (auto simp: round_even_def Let_def)
qed

lemma round_even_minus: "round_even (- x) = - round_even x"
proof (cases "of_int \<lfloor>x\<rfloor> = x")
  case True
  then show ?thesis using round_even_int [of "\<lfloor>x\<rfloor>"] round_even_int [of "- \<lfloor>x\<rfloor>"] by (metis of_int_minus)
next
  case False
  then have f: "\<lfloor>- x\<rfloor> = - \<lfloor>x\<rfloor> - 1" by (simp add: floor_minus ceiling_altdef)
  show ?thesis unfolding round_even_def Let_def f by (auto simp: field_simps)
qed

lemma exponent_minus [simp]: "exponent (- q) = exponent q"
  by (simp add: exponent_def)

lemma round_to_minus: "round_to p (- q) = - round_to p q"
  by (simp add: round_to_def Let_def round_even_minus)

lemma exponent_mono:
  assumes "0 < x" "x \<le> y" shows "exponent x \<le> exponent y"
proof -
  have "two_to (exponent x) < two_to (exponent y + 1)"
    using exponent_bounds(1) [of x] exponent_bounds(2) [of y] assms by simp
  then show ?thesis using two_to_mono [of "exponent y + 1" "exponent x"] by linarith
qed

lemma round_to_bounds:
  assumes "0 < x" and p: "0 < p"
  shows "two_to (exponent x) \<le> round_to p x" and "round_to p x \<le> two_to (exponent x + 1)"
proof -
  let ?u = "two_to (exponent x - (p - 1))"
  obtain k where k: "p = int (Suc k)" using p by (metis gr0_implies_Suc pos_int_cases)
  have a: "two_to (exponent x) = 2 ^ k * ?u" "two_to (exponent x + 1) = 2 ^ Suc k * ?u"
    using two_to_add [of "int k" "exponent x - int k"] two_to_add [of "int (Suc k)" "exponent x - int k"]
    unfolding two_to_nat by (simp_all add: k algebra_simps)
  have "of_int (2 ^ k) \<le> x / ?u" "x / ?u \<le> of_int (2 ^ Suc k)"
    using exponent_bounds [of x] assms(1) by (simp_all add: a le_divide_eq divide_le_eq del: power_Suc)
  then have "round_even (of_int (2 ^ k)) \<le> round_even (x / ?u)" "round_even (x / ?u) \<le> round_even (of_int (2 ^ Suc k))"
    using round_even_mono by blast+
  then have "2 ^ k \<le> round_even (x / ?u)" "round_even (x / ?u) \<le> 2 ^ Suc k"
    by (simp_all only: round_even_int)
  then have "(2 ^ k :: rat) \<le> of_int (round_even (x / ?u))" "of_int (round_even (x / ?u)) \<le> (2 ^ Suc k :: rat)"
    by (simp_all only: of_int_le_iff [symmetric, where 'a = rat] of_int_power of_int_numeral)
  then show "two_to (exponent x) \<le> round_to p x" "round_to p x \<le> two_to (exponent x + 1)"
    using assms(1) by (simp_all add: round_to_def Let_def a del: power_Suc)
qed

lemma round_to_mono_pos:
  assumes "0 < x" "x \<le> y" "0 < p" shows "round_to p x \<le> round_to p y"
proof (cases "exponent x = exponent y")
  case True
  have "x / two_to (exponent y - (p - 1)) \<le> y / two_to (exponent y - (p - 1))" using assms
    by (intro divide_right_mono less_imp_le [OF two_to_pos]) simp
  then show ?thesis using assms round_even_mono by (simp add: round_to_def Let_def True)
next
  case False
  then have "exponent x + 1 \<le> exponent y" using exponent_mono [OF assms(1,2)] by simp
  then have "two_to (exponent x + 1) \<le> two_to (exponent y)" by (rule two_to_mono)
  then show ?thesis using round_to_bounds [of x p] round_to_bounds [of y p] assms by simp
qed

lemma round_to_0 [simp]: "round_to p 0 = 0" by (simp add: round_to_def)

lemma round_to_nonneg: "0 \<le> x \<Longrightarrow> 0 < p \<Longrightarrow> 0 \<le> round_to p x"
  using order.trans [OF less_imp_le [OF two_to_pos] round_to_bounds(1) [of x p]] by (cases "x = 0") simp_all

lemma round_to_mono:
  assumes "x \<le> y" "0 < p" shows "round_to p x \<le> round_to p y"
proof -
  consider "0 < x" | "x \<le> 0" "0 \<le> y" | "y < 0" by linarith
  then show ?thesis
  proof cases
    case 2
    then show ?thesis using round_to_nonneg [of "- x" p] round_to_nonneg [of y p] assms(2) round_to_minus [of p x] by simp
  next
    case 3
    then show ?thesis using round_to_mono_pos [of "- y" "- x" p] assms by (simp add: round_to_minus)
  qed (use assms round_to_mono_pos in blast)
qed

text \<open>Numbers of \<open>p\<close> significant bits are kept, so rounding twice is rounding once.\<close>

lemma round_to_exact:
  assumes "\<bar>n\<bar> < 2 ^ p" shows "round_to (int p) (of_int n * two_to m) = of_int n * two_to m"
proof (cases "n = 0")
  case False
  let ?q = "of_int n * two_to m"
  let ?e = "exponent ?q"
  have q: "?q \<noteq> 0" using False by (simp add: less_imp_neq [OF two_to_pos, symmetric])
  have "(of_int \<bar>n\<bar> :: rat) < of_int (2 ^ p)" using assms by (simp only: of_int_less_iff)
  then have "\<bar>?q\<bar> < 2 ^ p * two_to m" by (simp add: abs_mult abs_of_pos)
  then have "two_to ?e < two_to (int p + m)" using exponent_bounds(1) [OF q] by (simp add: two_to_add two_to_nat)
  then have "?e < int p + m" using two_to_mono [of "int p + m" ?e] by (meson not_le)
  define k where "k = nat (int p - 1 + m - ?e)"
  have k: "?e - (int p - 1) = m - int k" using \<open>?e < int p + m\<close> by (simp add: k_def)
  have ulp: "two_to (m - int k) = two_to m / 2 ^ k" by (simp add: two_to_diff two_to_nat)
  have "?q / two_to (m - int k) = (of_int (n * 2 ^ k) :: rat)"
    by (simp add: ulp less_imp_neq [OF two_to_pos, symmetric])
  then have "round_to (int p) ?q = of_int (n * 2 ^ k) * two_to (m - int k)"
    using q unfolding round_to_def Let_def k by (simp only: round_even_int if_False)
  then show ?thesis by (simp add: ulp)
qed simp

lemma round_to_idem_pos:
  assumes "0 < x" and p: "0 < p" shows "round_to p (round_to p x) = round_to p x"
proof -
  define m where "m = exponent x - (p - 1)"
  define n where "n = round_even (x / two_to m)"
  obtain k where k: "p = int (Suc k)" using p by (metis gr0_implies_Suc pos_int_cases)
  have r: "round_to p x = of_int n * two_to m" using assms(1) by (simp add: round_to_def n_def m_def Let_def)
  have b: "two_to (exponent x) \<le> of_int n * two_to m" "of_int n * two_to m \<le> two_to (exponent x + 1)"
    using round_to_bounds [OF assms] by (simp_all add: r)
  have "two_to (exponent x + 1) = 2 ^ Suc k * two_to m"
    using two_to_add [of "int (Suc k)" m] unfolding two_to_nat by (simp add: m_def k add.commute)
  then have "of_int n * two_to m \<le> of_int (2 ^ Suc k) * two_to m" "0 < of_int n * two_to m"
    using b less_le_trans [OF two_to_pos b(1)] by simp_all
  then have "(of_int n :: rat) \<le> of_int (2 ^ Suc k)" "(0 :: rat) < of_int n"
    by (simp_all add: zero_less_mult_iff not_less_iff_gr_or_eq del: of_int_power of_int_0_less_iff)
  then have n: "n \<le> 2 ^ Suc k" "0 < n" by (simp_all only: of_int_le_iff of_int_0_less_iff)
  show ?thesis
  proof (cases "n = 2 ^ Suc k")
    case True
    then have "of_int n * two_to m = of_int 1 * two_to (int (Suc k) + m)" unfolding two_to_add two_to_nat by simp
    moreover have "(1 :: int) < 2 ^ Suc k" by (rule one_less_power) simp_all
    ultimately show ?thesis using round_to_exact [of 1 "Suc k" "int (Suc k) + m"] unfolding r unfolding k by simp
  next
    case False
    then show ?thesis using n round_to_exact [of n "Suc k" m] unfolding r unfolding k by simp
  qed
qed

lemma round_to_idem: "0 < p \<Longrightarrow> round_to p (round_to p x) = round_to p x"
  using round_to_idem_pos [of x p] round_to_idem_pos [of "- x" p] by (cases x "0 :: rat" rule: linorder_cases) (simp_all add: round_to_minus)

end
