(* ===== verification/Conditions.thy ===== *)
theory Conditions
  imports "HOL-Library.Signed_Division" Prelude Rounding
begin

text \<open>
  Conditions of creatures (\<open>src/src/condition.cpp\<close>, \<open>condition.h\<close>) and the list of them that a creature keeps
  (\<open>creature.cpp\<close>, \<open>player.cpp\<close>): how they start, last, are renewed and end, and what they do to the creature
  meanwhile. The classes derived from \<open>Condition\<close> are the constructors of \<open>extra\<close>; a signed 32-bit number is a word
  that is read with \<open>sint\<close>. A condition is known by its type, id and subid, as the list has no two with the same.
  None is a crash: a division by zero, a condition cast to a class it does not have, or an overflow of the signed numbers in
  \<open>generateDamageList\<close>; sums of ticks and of speeds wrap around. What the rest of the server answers is
  the record \<open>env\<close>. Left out are messages to the clients, what idle players and monsters do when a condition is added or
  ends, that a creature which cannot move any more stops walking, the item that a dispelled condition may destroy, the task of
  a death, saving and loading, and scripts. A hit is recorded as \<open>combatChangeHealth\<close> gets it, not carried out.
\<close>

section \<open>Types\<close>

datatype ConditionType_t =
    CONDITION_NONE | CONDITION_POISON | CONDITION_FIRE | CONDITION_ENERGY | CONDITION_BLEEDING | CONDITION_HASTE
  | CONDITION_PARALYZE | CONDITION_OUTFIT | CONDITION_INVISIBLE | CONDITION_LIGHT | CONDITION_MANASHIELD | CONDITION_INFIGHT
  | CONDITION_DRUNK | CONDITION_EXHAUST_WEAPON | CONDITION_REGENERATION | CONDITION_SOUL | CONDITION_DROWN | CONDITION_MUTED
  | CONDITION_CHANNELMUTEDTICKS | CONDITION_YELLTICKS | CONDITION_ATTRIBUTES | CONDITION_FREEZING | CONDITION_DAZZLED
  | CONDITION_CURSED | CONDITION_EXHAUST_COMBAT | CONDITION_EXHAUST_HEAL | CONDITION_PACIFIED | CONDITION_CLIPORT

fun type_value :: "ConditionType_t \<Rightarrow> u32" where
  "type_value CONDITION_NONE = 0"
| "type_value CONDITION_POISON = 0x1"
| "type_value CONDITION_FIRE = 0x2"
| "type_value CONDITION_ENERGY = 0x4"
| "type_value CONDITION_BLEEDING = 0x8"
| "type_value CONDITION_HASTE = 0x10"
| "type_value CONDITION_PARALYZE = 0x20"
| "type_value CONDITION_OUTFIT = 0x40"
| "type_value CONDITION_INVISIBLE = 0x80"
| "type_value CONDITION_LIGHT = 0x100"
| "type_value CONDITION_MANASHIELD = 0x200"
| "type_value CONDITION_INFIGHT = 0x400"
| "type_value CONDITION_DRUNK = 0x800"
| "type_value CONDITION_EXHAUST_WEAPON = 0x1000"
| "type_value CONDITION_REGENERATION = 0x2000"
| "type_value CONDITION_SOUL = 0x4000"
| "type_value CONDITION_DROWN = 0x8000"
| "type_value CONDITION_MUTED = 0x10000"
| "type_value CONDITION_CHANNELMUTEDTICKS = 0x20000"
| "type_value CONDITION_YELLTICKS = 0x40000"
| "type_value CONDITION_ATTRIBUTES = 0x80000"
| "type_value CONDITION_FREEZING = 0x100000"
| "type_value CONDITION_DAZZLED = 0x200000"
| "type_value CONDITION_CURSED = 0x400000"
| "type_value CONDITION_EXHAUST_COMBAT = 0x800000"
| "type_value CONDITION_EXHAUST_HEAL = 0x1000000"
| "type_value CONDITION_PACIFIED = 0x2000000"
| "type_value CONDITION_CLIPORT = 0x4000000"

datatype CombatType_t =
    COMBAT_NONE | COMBAT_PHYSICALDAMAGE | COMBAT_ENERGYDAMAGE | COMBAT_EARTHDAMAGE | COMBAT_FIREDAMAGE
  | COMBAT_UNDEFINEDDAMAGE | COMBAT_LIFEDRAIN | COMBAT_MANADRAIN | COMBAT_HEALING | COMBAT_DROWNDAMAGE | COMBAT_ICEDAMAGE
  | COMBAT_HOLYDAMAGE | COMBAT_DEATHDAMAGE

record IntervalInfo =
  timeLeft :: u32
  damageValue :: u32
  interval :: u32

record attributes =
  skills :: "u32 list"
  skillsPercent :: "u32 list"
  specialSkills :: "u32 list"
  stats :: "u32 list"
  statsPercent :: "u32 list"
  currentSkill :: nat
  currentSpecialSkill :: nat
  currentStat :: nat
  disableDefense :: bool

record regeneration =
  internalHealthTicks :: u32
  internalManaTicks :: u32
  healthTicks :: u32
  manaTicks :: u32
  healthGain :: u32
  manaGain :: u32

record soul_gain =
  internalSoulTicks :: u32
  soulTicks :: u32
  soulGain :: u32

record damage =
  maxDamage :: u32
  minDamage :: u32
  startDamage :: u32
  periodDamage :: u32
  periodDamageTick :: u32
  tickInterval :: u32
  initDamage :: u32
  forceUpdate :: bool
  delayed :: bool
  field :: bool
  owner :: u32
  damageList :: "IntervalInfo list"

text \<open>The variables of the formula of a speed are kept as the bytes of the \<open>float\<close>s.\<close>

record speed =
  speedDelta :: u32
  mina :: u32
  minb :: u32
  maxa :: u32
  maxb :: u32

record Outfit_t =
  lookType :: u16
  lookTypeEx :: u16
  lookHead :: u8
  lookBody :: u8
  lookLegs :: u8
  lookFeet :: u8
  lookAddons :: u8
  lookPadding :: u8 \<comment> \<open>the byte that fills the structure up\<close>

record LightInfo =
  light_level :: u8
  light_color :: u8

record light =
  lightInfo :: LightInfo
  internalLightTicks :: u32
  lightChangeInterval :: u32

datatype extra =
    Generic | Attributes attributes | Regeneration regeneration | Soul soul_gain | Invisible | Damage damage
  | Speed speed | Outfit Outfit_t | Light light | Drunk u8

record condition =
  conditionType :: ConditionType_t
  conditionId :: u8 \<comment> \<open>signed\<close>
  subId :: u32
  ticks :: u32
  endTime :: int
  isBuff :: bool
  aggressive :: bool
  extra :: extra

type_synonym key = "ConditionType_t \<times> u8 \<times> u32"

definition key :: "condition \<Rightarrow> key" where
  "key c = (conditionType c, conditionId c, subId c)"

section \<open>Creatures\<close>

datatype being_kind = APlayer | AMonster | AnNpc

datatype request = ForceAdd condition | ForceRemove ConditionType_t

type_synonym hit = "u32 \<times> CombatType_t \<times> int" \<comment> \<open>attacker, kind, change of health\<close>

record being =
  being_kind :: being_kind
  conditions :: "condition list"
  baseSpeed :: u32
  varSpeed :: u32
  canUseDefense :: bool
  drunkenness :: u8
  internalLight :: LightInfo
  normalLight :: LightInfo
  currentOutfit :: Outfit_t
  defaultOutfit :: Outfit_t
  health :: u32
  healthMax :: u32
  mana :: u32
  manaMax :: u32
  soul :: u8
  magLevel :: u32
  baseSkills :: "u16 list"
  varSkills :: "u32 list"
  varSpecialSkills :: "u32 list"
  varStats :: "u32 list"
  hits :: "hit list" \<comment> \<open>what \<open>combatChangeHealth\<close> was told\<close>
  scheduled :: "request list" \<comment> \<open>events given to the scheduler\<close>

text \<open>What is asked of the rest of the server; numbers drawn at random are functions of the limits they are drawn from.\<close>

record env =
  now :: int \<comment> \<open>\<open>OTSYS_TIME()\<close>\<close>
  walkDelay :: int
  inProtection :: bool \<comment> \<open>\<open>getZone() == ZONE_PROTECTION\<close>\<close>
  suppressions :: u32
  immunities :: u32
  attackable :: bool \<comment> \<open>\<open>isAttackable() && canDoCombat(...) == RETURNVALUE_NOERROR\<close>\<close>
  isAPlayer :: "u32 \<Rightarrow> bool"
  blocked :: "hit \<Rightarrow> bool"
  changed :: "hit \<Rightarrow> bool"
  drawn :: "u32 \<Rightarrow> u32 \<Rightarrow> u32" \<comment> \<open>\<open>uniform_random\<close>\<close>
  formulaValues :: "speed \<Rightarrow> u32 \<Rightarrow> u32 \<times> u32" \<comment> \<open>the two fused products with the base speed\<close>
  fieldCombat :: "CombatType_t option" \<comment> \<open>of the field on the tile\<close>
  outfitAllowed :: bool
  infiniteMana :: bool
  soulMax :: u8
  nextAction :: "u32 option" \<comment> \<open>\<open>getNextActionTime()\<close> when the player cannot act\<close>

abbreviation isPlayer :: "being \<Rightarrow> bool" where
  "isPlayer b \<equiv> being_kind b = APlayer"

definition EVENT_CREATURE_THINK_INTERVAL :: int where "EVENT_CREATURE_THINK_INTERVAL = 250"

definition smax :: "u32 \<Rightarrow> u32 \<Rightarrow> u32" where "smax a b = (if sint a \<ge> sint b then a else b)"
definition smin :: "u32 \<Rightarrow> u32 \<Rightarrow> u32" where "smin a b = (if sint a \<le> sint b then a else b)"
definition sabs :: "u32 \<Rightarrow> u32" where "sabs a = (if sint a < 0 then - a else a)"

definition player_getMaxHealth :: "being \<Rightarrow> u32" where
  "player_getMaxHealth b = smax 1 (healthMax b + varStats b ! 0)"

definition getMaxHealth :: "being \<Rightarrow> u32" where
  "getMaxHealth b = (if isPlayer b then player_getMaxHealth b else healthMax b)"

definition getMaxMana :: "being \<Rightarrow> u32" where
  "getMaxMana b = smax 0 (manaMax b + varStats b ! 1)"

definition changeHealth :: "u32 \<Rightarrow> being \<Rightarrow> being" where
  "changeHealth d b =
     (if sint d > 0 then b\<lparr>health := health b + smin d (getMaxHealth b - health b)\<rparr>
      else b\<lparr>health := smax 0 (health b + d)\<rparr>)"

definition changeMana :: "env \<Rightarrow> u32 \<Rightarrow> being \<Rightarrow> being" where
  "changeMana e d b =
     (if infiniteMana e then b
      else if sint d > 0 then b\<lparr>mana := mana b + smin d (getMaxMana b - mana b)\<rparr>
      else b\<lparr>mana := smax 0 (mana b + d)\<rparr>)"

definition changeSoul :: "env \<Rightarrow> u32 \<Rightarrow> being \<Rightarrow> being" where
  "changeSoul e d b =
     (if sint d > 0 then b\<lparr>soul := soul b + ucast (smin d (ucast (soulMax e) - ucast (soul b)))\<rparr>
      else b\<lparr>soul := ucast (smax 0 (ucast (soul b) + d))\<rparr>)"

definition changeSpeed :: "u32 \<Rightarrow> being \<Rightarrow> being" where
  "changeSpeed d b = (let v = (baseSpeed b + varSpeed b) - baseSpeed b in b\<lparr>varSpeed := v + d\<rparr>)"

definition setVarSkill :: "nat \<Rightarrow> u32 \<Rightarrow> being \<Rightarrow> being" where
  "setVarSkill i d b = b\<lparr>varSkills := (varSkills b)[i := varSkills b ! i + d]\<rparr>"

definition setVarSpecialSkill :: "nat \<Rightarrow> u32 \<Rightarrow> being \<Rightarrow> being" where
  "setVarSpecialSkill i d b = b\<lparr>varSpecialSkills := (varSpecialSkills b)[i := varSpecialSkills b ! i + d]\<rparr>"

definition setVarStats :: "env \<Rightarrow> nat \<Rightarrow> u32 \<Rightarrow> being \<Rightarrow> being" where
  "setVarStats e i d b =
     (let b = b\<lparr>varStats := (varStats b)[i := varStats b ! i + d]\<rparr> in
      if i = 0 then (if sint (health b) > sint (getMaxHealth b) then changeHealth (getMaxHealth b - health b) b else b)
      else if i = 1 then (if mana b > getMaxMana b then changeMana e (getMaxMana b - mana b) b else b)
      else b)"

definition internalCreatureChangeOutfit :: "env \<Rightarrow> Outfit_t \<Rightarrow> being \<Rightarrow> being" where
  "internalCreatureChangeOutfit e o' b = (if outfitAllowed e then b\<lparr>currentOutfit := o'\<rparr> else b)"

section \<open>Conditions in general\<close>

definition setTicks :: "env \<Rightarrow> u32 \<Rightarrow> condition \<Rightarrow> condition" where
  "setTicks e n c = c\<lparr>ticks := n, endTime := sint n + now e\<rparr>"

definition base_start :: "env \<Rightarrow> condition \<Rightarrow> condition" where
  "base_start e c = (if sint (ticks c) > 0 then c\<lparr>endTime := sint (ticks c) + now e\<rparr> else c)"

definition base_execute :: "env \<Rightarrow> u32 \<Rightarrow> condition \<Rightarrow> bool \<times> condition" where
  "base_execute e n c =
     (if ticks c = - 1 then (True, c)
      else let c = c\<lparr>ticks := smax 0 (ticks c - n)\<rparr> in (endTime c \<ge> now e, c))"

definition base_update :: "env \<Rightarrow> condition \<Rightarrow> condition \<Rightarrow> bool" where
  "base_update e new c =
     (if conditionType c \<noteq> conditionType new then False
      else if ticks c = - 1 \<and> sint (ticks new) > 0 then False
      else if sint (ticks new) \<ge> 0 \<and> endTime c > now e + sint (ticks new) then False
      else True)"

definition isPersistent :: "condition \<Rightarrow> bool" where
  "isPersistent c =
     (if ticks c = - 1 then False
      else if \<not> (conditionId c = - 1 \<or> conditionId c = 0 \<or> conditionType c = CONDITION_MUTED) then False
      else True)"

definition isSuppress :: "env \<Rightarrow> ConditionType_t \<Rightarrow> bool" where
  "isSuppress e ty = (type_value ty AND suppressions e \<noteq> 0)"

definition isImmune :: "env \<Rightarrow> ConditionType_t \<Rightarrow> bool" where
  "isImmune e ty = (type_value ty AND immunities e \<noteq> 0)"

section \<open>Attributes\<close>

text \<open>A part of a number in percent, computed in \<open>float\<close> and cut to a whole number.\<close>

definition cut :: "rat \<Rightarrow> int" where
  "cut q = (if q \<ge> 0 then \<lfloor>q\<rfloor> else \<lceil>q\<rceil>)"

definition percent_part :: "int \<Rightarrow> u32 \<Rightarrow> u32" where
  "percent_part n pct =
     word_of_int (cut (to_float (to_float (of_int n) * to_float (to_float (of_int (sint (pct - 100))) / 100))))"

definition updatePercentSkills :: "being \<Rightarrow> attributes \<Rightarrow> attributes" where
  "updatePercentSkills b a =
     a\<lparr>skills := map (\<lambda>i. if skillsPercent a ! i = 0 then skills a ! i
        else percent_part (uint (baseSkills b ! i)) (skillsPercent a ! i)) [0..<7]\<rparr>"

definition updatePercentStats :: "being \<Rightarrow> attributes \<Rightarrow> attributes" where
  "updatePercentStats b a =
     a\<lparr>stats := map (\<lambda>i. if statsPercent a ! i = 0 then stats a ! i
        else if i = 0 then percent_part (sint (player_getMaxHealth b)) (statsPercent a ! i)
        else if i = 1 then percent_part (uint (getMaxMana b)) (statsPercent a ! i)
        else if i = 3 then percent_part (uint (magLevel b)) (statsPercent a ! i)
        else stats a ! i) [0..<4]\<rparr>"

definition updateSkills :: "attributes \<Rightarrow> being \<Rightarrow> being" where
  "updateSkills a b =
     fold (\<lambda>i. if specialSkills a ! i \<noteq> 0 then setVarSpecialSkill i (specialSkills a ! i) else id) [0..<6]
       (fold (\<lambda>i. if skills a ! i \<noteq> 0 then setVarSkill i (skills a ! i) else id) [0..<7] b)"

definition updateStats :: "env \<Rightarrow> attributes \<Rightarrow> being \<Rightarrow> being" where
  "updateStats e a b = fold (\<lambda>i. if stats a ! i \<noteq> 0 then setVarStats e i (stats a ! i) else id) [0..<4] b"

text \<open>What starting and renewing have in common.\<close>

definition apply_attributes :: "env \<Rightarrow> attributes \<Rightarrow> being \<Rightarrow> attributes \<times> being" where
  "apply_attributes e a b =
     (if isPlayer b then
        let a = updatePercentSkills b a;
            b = updateSkills a b;
            a = updatePercentStats b a
        in (a, updateStats e a b)
      else (a, b))"

definition attributes_end :: "env \<Rightarrow> attributes \<Rightarrow> being \<Rightarrow> being" where
  "attributes_end e a b =
     (let b =
        (if isPlayer b then
           fold (\<lambda>i. if stats a ! i \<noteq> 0 then setVarStats e i (- (stats a ! i)) else id) [0..<4]
             (fold (\<lambda>i. if specialSkills a ! i \<noteq> 0 then setVarSpecialSkill i (- (specialSkills a ! i)) else id) [0..<6]
               (fold (\<lambda>i. if skills a ! i \<noteq> 0 \<or> skillsPercent a ! i \<noteq> 0 then setVarSkill i (- (skills a ! i)) else id) [0..<7] b))
         else b)
      in if disableDefense a then b\<lparr>canUseDefense := True\<rparr> else b)"

section \<open>Damage\<close>

text \<open>
  One round of \<open>generateDamageList\<close>: how often \<open>i\<close> is dealt before the sum, now \<open>s\<close>, is as near to \<open>med\<close> as it gets.
  A division by zero gives infinity in both comparisons. The numbers of the code are signed and have 32 bits; an overflow is None.
\<close>

definition fits :: "int \<Rightarrow> bool" where
  "fits x = (- (2 ^ 31) \<le> x \<and> x < 2 ^ 31)"

definition how_far :: "int \<Rightarrow> int \<Rightarrow> int \<Rightarrow> rat" where
  "how_far s i med =
     \<bar>to_double (1 - to_float (to_float (to_float (of_int s) + to_float (of_int i)) / to_float (of_int med)))\<bar>"

definition how_far_now :: "int \<Rightarrow> int \<Rightarrow> rat" where
  "how_far_now s med = \<bar>to_double (1 - to_float (to_float (of_int s) / to_float (of_int med)))\<bar>"

definition nearer :: "int \<Rightarrow> int \<Rightarrow> int \<Rightarrow> bool" where
  "nearer s i med = (med \<noteq> 0 \<and> how_far s i med < how_far_now s med)"

lemma nearer_below:
  assumes "0 \<le> i" and "nearer s i med" and "0 \<le> med" shows "s < med"
proof (rule ccontr)
  assume "\<not> s < med"
  then have s: "med \<le> s" "0 < med" using assms by (auto simp: nearer_def less_le)
  let ?f = "\<lambda>n :: int. to_float (of_int n)"
  have m: "0 < ?f med" "?f med \<le> ?f s" "0 \<le> ?f i"
    using s assms(1) less_le_trans [OF two_to_pos round_to_bounds(1) [of "of_int med" 24]]
    by (simp_all add: round_to_mono round_to_nonneg)
  let ?q = "?f s / ?f med" and ?r = "to_float (?f s + ?f i) / ?f med"
  have idem: "?f s \<le> to_float (?f s + ?f i)"
  proof -
    have "?f s = to_float (?f s)" by (simp add: round_to_idem)
    also have "\<dots> \<le> to_float (?f s + ?f i)" using m by (intro round_to_mono) simp_all
    finally show ?thesis .
  qed
  have "1 \<le> ?q" "?q \<le> ?r" using m idem by (simp_all add: divide_right_mono)
  then have "to_float 1 \<le> to_float ?q" "to_float ?q \<le> to_float ?r" by (simp_all add: round_to_mono)
  moreover have "to_float 1 = 1" using round_to_int [of 1 24] by simp
  ultimately have "1 - to_float ?r \<le> 1 - to_float ?q" "1 - to_float ?q \<le> 0" by simp_all
  then have "to_double (1 - to_float ?r) \<le> to_double (1 - to_float ?q)" "to_double (1 - to_float ?q) \<le> 0"
    using round_to_mono [of "1 - to_float ?q" 0 53] by (simp_all add: round_to_mono)
  then show False using assms(2) by (simp add: nearer_def how_far_def how_far_now_def)
qed

text \<open>The inner loop, which adds at least once; \<open>i\<close> is positive. It gives the damages and the new sum.\<close>

function deal :: "int \<Rightarrow> int \<Rightarrow> int \<Rightarrow> (int list \<times> int) option" where
  "deal i med s =
     (let s = s + i in
      if \<not> fits s then None
      else if 0 < i \<and> nearer s i med then map_option (\<lambda>(l, s). (i # l, s)) (deal i med s)
      else Some ([i], s))"
  by pat_completeness auto
termination
  by (relation "measure (\<lambda>(i, med, s). nat (2 ^ 31 - s))") (auto simp: fits_def)

declare deal.simps [simp del]

text \<open>The outer loop from \<open>i\<close> down to 1.\<close>

fun damages_from :: "nat \<Rightarrow> int \<Rightarrow> int \<Rightarrow> int \<Rightarrow> int list option" where
  "damages_from 0 start amount s = Some []"
| "damages_from (Suc k) start amount s =
     (let i = int (Suc k);
          n = start + 1 - i
      in if \<not> fits (start + 1) \<or> \<not> fits (n * amount) then None
         else
           (case deal i ((n * amount) div start) s of
              None \<Rightarrow> None
            | Some (l, s) \<Rightarrow> map_option ((@) l) (damages_from k start amount s)))"

definition generateDamageList :: "int \<Rightarrow> int \<Rightarrow> int list option" where
  "generateDamageList amount start =
     (if fits \<bar>amount\<bar> then damages_from (nat start) start \<bar>amount\<bar> 0 else None)"

text \<open>Adding damage changes the condition around it as well; the tick interval is set as a parameter is.\<close>

definition add_interval :: "env \<Rightarrow> u32 \<Rightarrow> u32 \<Rightarrow> condition \<times> damage \<Rightarrow> condition \<times> damage" where
  "add_interval e time v cd =
     (case cd of (c, d) \<Rightarrow>
        (if ticks c = - 1 then c else setTicks e (ticks c + time) c,
         d\<lparr>damageList := damageList d @ [\<lparr>timeLeft = time, damageValue = v, interval = time\<rparr>]\<rparr>))"

definition addDamage :: "env \<Rightarrow> u32 \<Rightarrow> u32 \<Rightarrow> u32 \<Rightarrow> condition \<times> damage \<Rightarrow> bool \<times> condition \<times> damage" where
  "addDamage e rounds time v cd =
     (case cd of (c, d) \<Rightarrow>
        let time = smax time (word_of_int EVENT_CREATURE_THINK_INTERVAL) in
        if rounds = - 1 then (True, c\<lparr>ticks := - 1\<rparr>, d\<lparr>periodDamage := v, tickInterval := sabs time\<rparr>)
        else if sint (periodDamage d) > 0 then (False, c, d)
        else (True, (add_interval e time v ^^ nat (sint rounds)) (c, d)))"

text \<open>The start damage when none is set: a twentieth, rounded up, computed in \<open>double\<close>.\<close>

definition first_damage :: "int \<Rightarrow> u32" where
  "first_damage amount = smax 1 (word_of_int \<lceil>to_double (of_int amount / 20)\<rceil>)"

definition set_start :: "u32 \<Rightarrow> damage \<Rightarrow> damage" where
  "set_start amount d =
     (if sint (startDamage d) > sint (maxDamage d) then d\<lparr>startDamage := maxDamage d\<rparr>
      else if startDamage d = 0 then d\<lparr>startDamage := first_damage (sint amount)\<rparr>
      else d)"

definition fill_damage :: "env \<Rightarrow> int \<Rightarrow> condition \<times> damage \<Rightarrow> (condition \<times> damage) option" where
  "fill_damage e amount cd =
     map_option (\<lambda>l. fold (\<lambda>v cd. snd (addDamage e 1 (tickInterval (snd cd)) (word_of_int (- v)) cd)) l cd)
       (generateDamageList amount (sint (startDamage (snd cd))))"

definition damage_init :: "env \<Rightarrow> condition \<times> damage \<Rightarrow> (bool \<times> condition \<times> damage) option" where
  "damage_init e cd =
     (case cd of (c, d) \<Rightarrow>
        if periodDamage d \<noteq> 0 then Some (True, c, d)
        else if damageList d \<noteq> [] then Some (True, c, d)
        else
          let c = setTicks e 0 c;
              amount = drawn e (minDamage d) (maxDamage d)
          in if amount = 0 then Some (False, c, d)
             else map_option (\<lambda>cd. (damageList (snd cd) \<noteq> [], cd)) (fill_damage e (sint amount) (c, set_start amount d)))"

fun ConditionToDamageType :: "ConditionType_t \<Rightarrow> CombatType_t" where
  "ConditionToDamageType CONDITION_FIRE = COMBAT_FIREDAMAGE"
| "ConditionToDamageType CONDITION_ENERGY = COMBAT_ENERGYDAMAGE"
| "ConditionToDamageType CONDITION_BLEEDING = COMBAT_PHYSICALDAMAGE"
| "ConditionToDamageType CONDITION_DROWN = COMBAT_DROWNDAMAGE"
| "ConditionToDamageType CONDITION_POISON = COMBAT_EARTHDAMAGE"
| "ConditionToDamageType CONDITION_FREEZING = COMBAT_ICEDAMAGE"
| "ConditionToDamageType CONDITION_DAZZLED = COMBAT_HOLYDAMAGE"
| "ConditionToDamageType CONDITION_CURSED = COMBAT_DEATHDAMAGE"
| "ConditionToDamageType _ = COMBAT_NONE"

text \<open>\<open>std::round\<close> of a half, away from zero.\<close>

definition half :: "int \<Rightarrow> int" where
  "half v = (if v \<ge> 0 then (v + 1) div 2 else - ((1 - v) div 2))"

definition doDamage :: "env \<Rightarrow> ConditionType_t \<Rightarrow> damage \<Rightarrow> u32 \<Rightarrow> being \<Rightarrow> bool \<times> being" where
  "doDamage e ty d healthChange b =
     (if isSuppress e ty \<or> isImmune e ty then (False, b)
      else
        let hit = (owner d, ConditionToDamageType ty,
              if field d \<and> isPlayer b \<and> isAPlayer e (owner d) then half (sint healthChange) else sint healthChange)
        in if \<not> attackable e then (False, b)
           else if blocked e hit then (False, b)
           else (changed e hit, b\<lparr>hits := hits b @ [hit]\<rparr>))"

definition getTotalDamage :: "damage \<Rightarrow> u32" where
  "getTotalDamage d =
     sabs (if damageList d \<noteq> [] then foldl (\<lambda>r i. r + damageValue i) 0 (damageList d)
           else minDamage d + word_of_int ((sint (maxDamage d - minDamage d)) sdiv 2))"

definition damage_update :: "condition \<Rightarrow> damage \<Rightarrow> condition \<Rightarrow> damage \<Rightarrow> bool" where
  "damage_update new dn c d =
     (if forceUpdate dn then True
      else if ticks c = - 1 \<and> sint (ticks new) > 0 then False
      else sint (getTotalDamage dn) > sint (getTotalDamage d))"

definition getNextDamage :: "condition \<Rightarrow> damage \<Rightarrow> u32 option \<times> damage" where
  "getNextDamage c d =
     (if periodDamage d \<noteq> 0 then (Some (periodDamage d), d)
      else case damageList d of
        [] \<Rightarrow> (None, d)
      | i # is \<Rightarrow> (Some (damageValue i), if ticks c = - 1 then d else d\<lparr>damageList := is\<rparr>))"

definition onTickCondition :: "env \<Rightarrow> ConditionType_t \<Rightarrow> bool \<Rightarrow> bool" where
  "onTickCondition e ty bRemove =
     (case fieldCombat e of
        None \<Rightarrow> bRemove
      | Some f \<Rightarrow>
          (case ty of
             CONDITION_FIRE \<Rightarrow> f \<noteq> COMBAT_FIREDAMAGE
           | CONDITION_ENERGY \<Rightarrow> f \<noteq> COMBAT_ENERGYDAMAGE
           | CONDITION_POISON \<Rightarrow> f \<noteq> COMBAT_EARTHDAMAGE
           | CONDITION_FREEZING \<Rightarrow> f \<noteq> COMBAT_ICEDAMAGE
           | CONDITION_DAZZLED \<Rightarrow> f \<noteq> COMBAT_HOLYDAMAGE
           | CONDITION_CURSED \<Rightarrow> f \<noteq> COMBAT_DEATHDAMAGE
           | CONDITION_DROWN \<Rightarrow> f \<noteq> COMBAT_DROWNDAMAGE
           | CONDITION_BLEEDING \<Rightarrow> f \<noteq> COMBAT_PHYSICALDAMAGE
           | _ \<Rightarrow> bRemove))"

section \<open>The classes of conditions\<close>

definition attributes_start :: "env \<Rightarrow> attributes \<Rightarrow> condition \<Rightarrow> being \<Rightarrow> bool \<times> condition \<times> being" where
  "attributes_start e a c b =
     (let c = base_start e c;
          (a, b) = apply_attributes e a (b\<lparr>canUseDefense := \<not> disableDefense a\<rparr>)
      in (True, c\<lparr>extra := Attributes a\<rparr>, b))"

definition damage_start :: "env \<Rightarrow> damage \<Rightarrow> condition \<Rightarrow> being \<Rightarrow> (bool \<times> condition \<times> being) option" where
  "damage_start e d c b =
     (let c = base_start e c;
          (ok, b) = (if delayed d then (True, b) else doDamage e (conditionType c) d (initDamage d) b)
      in if \<not> ok then Some (False, c, b)
         else map_option (\<lambda>(ok, c, d). (ok, c\<lparr>extra := Damage d\<rparr>, b)) (damage_init e (c, d)))"

definition speed_start :: "env \<Rightarrow> speed \<Rightarrow> condition \<Rightarrow> being \<Rightarrow> bool \<times> condition \<times> being" where
  "speed_start e v c b =
     (let c = base_start e c;
          v = (if speedDelta v = 0
               then v\<lparr>speedDelta := case formulaValues e v (baseSpeed b) of (l, h) \<Rightarrow> drawn e l h\<rparr> else v)
      in (True, c\<lparr>extra := Speed v\<rparr>, changeSpeed (speedDelta v) b))"

definition outfit_start :: "env \<Rightarrow> Outfit_t \<Rightarrow> condition \<Rightarrow> being \<Rightarrow> bool \<times> condition \<times> being" where
  "outfit_start e o' c b = (True, base_start e c, internalCreatureChangeOutfit e o' b)"

definition light_start :: "env \<Rightarrow> light \<Rightarrow> condition \<Rightarrow> being \<Rightarrow> (bool \<times> condition \<times> being) option" where
  "light_start e l c b =
     (let c = base_start e c in
      if light_level (lightInfo l) = 0 then None
      else
        let l = l\<lparr>internalLightTicks := 0, lightChangeInterval := word_of_int (sint (ticks c) sdiv uint (light_level (lightInfo l)))\<rparr>
        in Some (True, c\<lparr>extra := Light l\<rparr>, b\<lparr>internalLight := lightInfo l\<rparr>))"

definition drunk_start :: "env \<Rightarrow> u8 \<Rightarrow> condition \<Rightarrow> being \<Rightarrow> bool \<times> condition \<times> being" where
  "drunk_start e n c b = (True, base_start e c, b\<lparr>drunkenness := n\<rparr>)"

definition startCondition :: "env \<Rightarrow> condition \<Rightarrow> being \<Rightarrow> (bool \<times> condition \<times> being) option" where
  "startCondition e c b =
     (case extra c of
        Attributes a \<Rightarrow> Some (attributes_start e a c b)
      | Damage d \<Rightarrow> damage_start e d c b
      | Speed v \<Rightarrow> Some (speed_start e v c b)
      | Outfit o' \<Rightarrow> Some (outfit_start e o' c b)
      | Light l \<Rightarrow> light_start e l c b
      | Drunk n \<Rightarrow> Some (drunk_start e n c b)
      | _ \<Rightarrow> Some (True, base_start e c, b))"

lemmas start_defs = startCondition_def attributes_start_def damage_start_def speed_start_def outfit_start_def light_start_def
  drunk_start_def

definition speed_end :: "speed \<Rightarrow> being \<Rightarrow> being" where
  "speed_end v b = changeSpeed (- speedDelta v) b"

definition outfit_end :: "env \<Rightarrow> being \<Rightarrow> being" where
  "outfit_end e b = internalCreatureChangeOutfit e (defaultOutfit b) b"

definition light_end :: "being \<Rightarrow> being" where
  "light_end b = b\<lparr>internalLight := normalLight b\<rparr>"

definition drunk_end :: "being \<Rightarrow> being" where
  "drunk_end b = b\<lparr>drunkenness := 0\<rparr>"

definition endCondition :: "env \<Rightarrow> condition \<Rightarrow> being \<Rightarrow> being" where
  "endCondition e c b =
     (case extra c of
        Attributes a \<Rightarrow> attributes_end e a b
      | Speed v \<Rightarrow> speed_end v b
      | Outfit _ \<Rightarrow> outfit_end e b
      | Light _ \<Rightarrow> light_end b
      | Drunk _ \<Rightarrow> drunk_end b
      | _ \<Rightarrow> b)"

lemmas end_defs = endCondition_def speed_end_def outfit_end_def light_end_def drunk_end_def

definition regenerate :: "env \<Rightarrow> u32 \<Rightarrow> regeneration \<Rightarrow> being \<Rightarrow> regeneration \<times> being" where
  "regenerate e n r b =
     (let r = r\<lparr>internalHealthTicks := internalHealthTicks r + n, internalManaTicks := internalManaTicks r + n\<rparr> in
      if inProtection e then (r, b)
      else
        let (r, b) = (if internalHealthTicks r \<ge> healthTicks r
               then (r\<lparr>internalHealthTicks := 0\<rparr>, changeHealth (healthGain r) b) else (r, b))
        in if internalManaTicks r \<ge> manaTicks r
           then (r\<lparr>internalManaTicks := 0\<rparr>, if isPlayer b then changeMana e (manaGain r) b else b)
           else (r, b))"

definition gain_soul :: "env \<Rightarrow> u32 \<Rightarrow> soul_gain \<Rightarrow> being \<Rightarrow> soul_gain \<times> being" where
  "gain_soul e n g b =
     (let g = g\<lparr>internalSoulTicks := internalSoulTicks g + n\<rparr> in
      if isPlayer b \<and> \<not> inProtection e \<and> internalSoulTicks g \<ge> soulTicks g
      then (g\<lparr>internalSoulTicks := 0\<rparr>, changeSoul e (soulGain g) b)
      else (g, b))"

text \<open>The damage of an interval: the damage object, the creature, and whether the end is put off.\<close>

definition tick_damage :: "env \<Rightarrow> u32 \<Rightarrow> condition \<Rightarrow> damage \<Rightarrow> being \<Rightarrow> damage \<times> being \<times> bool" where
  "tick_damage e n c d b =
     (if periodDamage d \<noteq> 0 then
        let d = d\<lparr>periodDamageTick := periodDamageTick d + n\<rparr> in
        if sint (periodDamageTick d) \<ge> sint (tickInterval d)
        then let d = d\<lparr>periodDamageTick := 0\<rparr> in (d, snd (doDamage e (conditionType c) d (periodDamage d) b), False)
        else (d, b, False)
      else
        (case damageList d of
           [] \<Rightarrow> (d, b, False)
         | i # is \<Rightarrow>
             let bRemove = onTickCondition e (conditionType c) (ticks c \<noteq> - 1);
                 i = i\<lparr>timeLeft := timeLeft i - n\<rparr>
             in if sint (timeLeft i) \<le> 0 then
                  let d = d\<lparr>damageList := if bRemove then is else i\<lparr>timeLeft := interval i\<rparr> # is\<rparr>
                  in (d, snd (doDamage e (conditionType c) d (damageValue i) b), \<not> bRemove)
                else (d\<lparr>damageList := i # is\<rparr>, b, \<not> bRemove)))"

text \<open>The light fades with the light of the creature, not with the one of the condition.\<close>

definition fade :: "u32 \<Rightarrow> light \<Rightarrow> being \<Rightarrow> light \<times> being" where
  "fade n l b =
     (let l = l\<lparr>internalLightTicks := internalLightTicks l + n\<rparr> in
      if internalLightTicks l \<ge> lightChangeInterval l then
        (l\<lparr>internalLightTicks := 0\<rparr>,
         if light_level (internalLight b) > 0
         then b\<lparr>internalLight := (internalLight b)\<lparr>light_level := light_level (internalLight b) - 1\<rparr>\<rparr> else b)
      else (l, b))"

definition damage_execute :: "env \<Rightarrow> u32 \<Rightarrow> damage \<Rightarrow> condition \<Rightarrow> being \<Rightarrow> bool \<times> condition \<times> being" where
  "damage_execute e n d c b =
     (let (d, b, putOff) = tick_damage e n c d b;
          c = c\<lparr>extra := Damage d\<rparr>;
          c = (if putOff \<and> sint (ticks c) > 0 then c\<lparr>endTime := endTime c + sint n\<rparr> else c);
          (alive, c) = base_execute e (if putOff then 0 else n) c
      in (alive, c, b))"

definition executeCondition :: "env \<Rightarrow> u32 \<Rightarrow> condition \<Rightarrow> being \<Rightarrow> bool \<times> condition \<times> being" where
  "executeCondition e n c b =
     (case extra c of
        Regeneration r \<Rightarrow>
          let (r, b) = regenerate e n r b; (alive, c) = base_execute e n (c\<lparr>extra := Regeneration r\<rparr>) in (alive, c, b)
      | Soul g \<Rightarrow>
          let (g, b) = gain_soul e n g b; (alive, c) = base_execute e n (c\<lparr>extra := Soul g\<rparr>) in (alive, c, b)
      | Damage d \<Rightarrow> damage_execute e n d c b
      | Light l \<Rightarrow>
          let (l, b) = fade n l b; (alive, c) = base_execute e n (c\<lparr>extra := Light l\<rparr>) in (alive, c, b)
      | _ \<Rightarrow> let (alive, c) = base_execute e n c in (alive, c, b))"

lemmas execute_defs = executeCondition_def damage_execute_def

text \<open>A condition \<open>c\<close> is renewed by another of its type.\<close>

definition generic_add :: "env \<Rightarrow> condition \<Rightarrow> condition \<Rightarrow> condition" where
  "generic_add e new c = (if base_update e new c then setTicks e (ticks new) c else c)"

definition attributes_add :: "env \<Rightarrow> condition \<Rightarrow> attributes \<Rightarrow> condition \<Rightarrow> attributes \<Rightarrow> being \<Rightarrow> condition \<times> being" where
  "attributes_add e new an c a b =
     (if base_update e new c then
        let c = setTicks e (ticks new) c;
            b = attributes_end e a b;
            a = a\<lparr>skills := skills an, specialSkills := specialSkills an, skillsPercent := skillsPercent an,
                  stats := stats an, statsPercent := statsPercent an, disableDefense := disableDefense an\<rparr>;
            (a, b) = apply_attributes e a b
        in (c\<lparr>extra := Attributes a\<rparr>, b)
      else (c, b))"

definition regeneration_add :: "env \<Rightarrow> condition \<Rightarrow> regeneration \<Rightarrow> condition \<Rightarrow> regeneration \<Rightarrow> condition" where
  "regeneration_add e new rn c r =
     (if base_update e new c
      then (setTicks e (ticks new) c)\<lparr>extra := Regeneration (r\<lparr>healthTicks := healthTicks rn, manaTicks := manaTicks rn,
        healthGain := healthGain rn, manaGain := manaGain rn\<rparr>)\<rparr>
      else c)"

definition soul_add :: "env \<Rightarrow> condition \<Rightarrow> soul_gain \<Rightarrow> condition \<Rightarrow> soul_gain \<Rightarrow> condition" where
  "soul_add e new gn c g =
     (if base_update e new c
      then (setTicks e (ticks new) c)\<lparr>extra := Soul (g\<lparr>soulTicks := soulTicks gn, soulGain := soulGain gn\<rparr>)\<rparr> else c)"

text \<open>The first round keeps the time left of the old one, and its damage is done at once.\<close>

definition hit_at_once :: "env \<Rightarrow> u32 \<Rightarrow> being \<Rightarrow> bool \<times> condition \<times> damage \<Rightarrow> condition \<times> being" where
  "hit_at_once e nextTimeLeft b r =
     (case r of (ok, c, d) \<Rightarrow>
        if \<not> ok then (c\<lparr>extra := Damage d\<rparr>, b)
        else
          let d = (case damageList d of [] \<Rightarrow> d | i # is \<Rightarrow> d\<lparr>damageList := i\<lparr>timeLeft := nextTimeLeft\<rparr> # is\<rparr>)
          in if delayed d then (c\<lparr>extra := Damage d\<rparr>, b)
             else
               (case getNextDamage c d of
                  (None, d) \<Rightarrow> (c\<lparr>extra := Damage d\<rparr>, b)
                | (Some v, d) \<Rightarrow> (c\<lparr>extra := Damage d\<rparr>, snd (doDamage e (conditionType c) d v b))))"

definition damage_add :: "env \<Rightarrow> condition \<Rightarrow> damage \<Rightarrow> condition \<Rightarrow> damage \<Rightarrow> being \<Rightarrow> (condition \<times> being) option" where
  "damage_add e new dn c d b =
     (if conditionType new \<noteq> conditionType c then Some (c, b)
      else if \<not> damage_update new dn c d then Some (c, b)
      else
        let c = setTicks e (ticks new) c;
            nextTimeLeft = (case damageList d of [] \<Rightarrow> tickInterval dn | i # _ \<Rightarrow> timeLeft i);
            d = d\<lparr>owner := owner dn, maxDamage := maxDamage dn, minDamage := minDamage dn, startDamage := startDamage dn,
                  tickInterval := tickInterval dn, periodDamage := periodDamage dn, damageList := damageList dn\<rparr>
        in map_option (hit_at_once e nextTimeLeft b) (damage_init e (c, d)))"

definition speed_add :: "env \<Rightarrow> condition \<Rightarrow> speed \<Rightarrow> condition \<Rightarrow> speed \<Rightarrow> being \<Rightarrow> condition \<times> being" where
  "speed_add e new vn c v b =
     (if conditionType c \<noteq> conditionType new then (c, b)
      else if ticks c = - 1 \<and> sint (ticks new) > 0 then (c, b)
      else
        let c = setTicks e (ticks new) c;
            v' = (if speedDelta vn = 0
                  then vn\<lparr>speedDelta := case formulaValues e vn (baseSpeed b) of (l, h) \<Rightarrow> drawn e l h\<rparr> else vn);
            change = speedDelta v' - speedDelta v
        in (c\<lparr>extra := Speed v'\<rparr>, if change \<noteq> 0 then changeSpeed change b else b))"

definition outfit_add :: "env \<Rightarrow> condition \<Rightarrow> Outfit_t \<Rightarrow> condition \<Rightarrow> being \<Rightarrow> condition \<times> being" where
  "outfit_add e new on c b =
     (if base_update e new c
      then ((setTicks e (ticks new) c)\<lparr>extra := Outfit on\<rparr>, internalCreatureChangeOutfit e on b)
      else (c, b))"

definition light_add :: "env \<Rightarrow> condition \<Rightarrow> light \<Rightarrow> condition \<Rightarrow> light \<Rightarrow> being \<Rightarrow> (condition \<times> being) option" where
  "light_add e new nl c l b =
     (if \<not> base_update e new c then Some (c, b)
      else if light_level (lightInfo nl) = 0 then None
      else
        let c = setTicks e (ticks new) c;
            l = l\<lparr>lightInfo := lightInfo nl, internalLightTicks := 0,
                  lightChangeInterval := word_of_int (sint (ticks c) sdiv uint (light_level (lightInfo nl)))\<rparr>
        in Some (c\<lparr>extra := Light l\<rparr>, b\<lparr>internalLight := lightInfo l\<rparr>))"

definition drunk_add :: "env \<Rightarrow> condition \<Rightarrow> u8 \<Rightarrow> condition \<Rightarrow> u8 \<Rightarrow> being \<Rightarrow> condition \<times> being" where
  "drunk_add e new m c n b =
     (if m > n then (setTicks e (ticks new) c, b\<lparr>drunkenness := m\<rparr>) else (c, b))"

text \<open>The method that is called is the one of the class of the condition that is there.\<close>

definition renew :: "env \<Rightarrow> condition \<Rightarrow> condition \<Rightarrow> being \<Rightarrow> (condition \<times> being) option" where
  "renew e new c b =
     (case (extra c, extra new) of
        (Generic, Generic) \<Rightarrow> Some (generic_add e new c, b)
      | (Invisible, Invisible) \<Rightarrow> Some (generic_add e new c, b)
      | (Attributes a, Attributes an) \<Rightarrow> Some (attributes_add e new an c a b)
      | (Regeneration r, Regeneration rn) \<Rightarrow> Some (regeneration_add e new rn c r, b)
      | (Soul g, Soul gn) \<Rightarrow> Some (soul_add e new gn c g, b)
      | (Damage d, Damage dn) \<Rightarrow> damage_add e new dn c d b
      | (Speed v, Speed vn) \<Rightarrow> Some (speed_add e new vn c v b)
      | (Outfit _, Outfit on) \<Rightarrow> Some (outfit_add e new on c b)
      | (Light l, Light l') \<Rightarrow> light_add e new l' c l b
      | (Drunk n, Drunk m) \<Rightarrow> Some (drunk_add e new m c n b)
      | _ \<Rightarrow> None)"

lemmas renew_defs = renew_def generic_add_def attributes_add_def regeneration_add_def soul_add_def damage_add_def speed_add_def
  outfit_add_def light_add_def drunk_add_def

section \<open>The conditions of a creature\<close>

definition getCondition :: "ConditionType_t \<Rightarrow> u8 \<Rightarrow> u32 \<Rightarrow> being \<Rightarrow> condition option" where
  "getCondition ty i sub b = find (\<lambda>c. conditionType c = ty \<and> conditionId c = i \<and> subId c = sub) (conditions b)"

definition hasCondition :: "env \<Rightarrow> ConditionType_t \<Rightarrow> u32 \<Rightarrow> being \<Rightarrow> bool" where
  "hasCondition e ty sub b =
     (if isSuppress e ty then False
      else list_ex (\<lambda>c. conditionType c = ty \<and> subId c = sub \<and> (endTime c \<ge> now e \<or> ticks c = - 1)) (conditions b))"

text \<open>The element of the list that a pointer points to, changed in place and erased.\<close>

fun put_at :: "key \<Rightarrow> condition \<Rightarrow> condition list \<Rightarrow> condition list" where
  "put_at k c' [] = []"
| "put_at k c' (c # cs) = (if key c = k then c' # cs else c # put_at k c' cs)"

fun erase_at :: "key \<Rightarrow> condition list \<Rightarrow> condition list" where
  "erase_at k [] = []"
| "erase_at k (c # cs) = (if key c = k then cs else c # erase_at k cs)"

definition put_condition :: "condition \<Rightarrow> being \<Rightarrow> being" where
  "put_condition c b = b\<lparr>conditions := put_at (key c) c (conditions b)\<rparr>"

text \<open>Erased from the list, ended, and deleted.\<close>

definition finish :: "env \<Rightarrow> condition \<Rightarrow> being \<Rightarrow> being" where
  "finish e c b = endCondition e c (b\<lparr>conditions := erase_at (key c) (conditions b)\<rparr>)"

definition schedule :: "request \<Rightarrow> being \<Rightarrow> being" where
  "schedule r b = b\<lparr>scheduled := scheduled b @ [r]\<rparr>"

fun remove_which :: "env \<Rightarrow> bool \<Rightarrow> (condition \<Rightarrow> bool) \<Rightarrow> condition list \<Rightarrow> being \<Rightarrow> being" where
  "remove_which e force which [] b = b"
| "remove_which e force which (c # cs) b =
     (if \<not> which c then remove_which e force which cs b
      else if \<not> force \<and> conditionType c = CONDITION_PARALYZE \<and> walkDelay e > 0 then schedule (ForceRemove (conditionType c)) b
      else remove_which e force which cs (finish e c b))"

definition removeCondition :: "env \<Rightarrow> bool \<Rightarrow> ConditionType_t \<Rightarrow> being \<Rightarrow> being" where
  "removeCondition e force ty b = remove_which e force (\<lambda>c. conditionType c = ty) (conditions b) b"

definition removeCondition_of :: "env \<Rightarrow> bool \<Rightarrow> ConditionType_t \<Rightarrow> u8 \<Rightarrow> being \<Rightarrow> being" where
  "removeCondition_of e force ty i b = remove_which e force (\<lambda>c. conditionType c = ty \<and> conditionId c = i) (conditions b) b"

definition removeCondition_at :: "env \<Rightarrow> bool \<Rightarrow> key \<Rightarrow> being \<Rightarrow> being" where
  "removeCondition_at e force k b =
     (case find (\<lambda>c. key c = k) (conditions b) of
        None \<Rightarrow> b
      | Some c \<Rightarrow>
          if \<not> force \<and> conditionType c = CONDITION_PARALYZE \<and> walkDelay e > 0 then schedule (ForceRemove (conditionType c)) b
          else finish e c b)"

text \<open>Haste and paralysis drive each other out, but not on monsters, whose \<open>onAddCondition\<close> does something else.\<close>

definition onAddCondition :: "env \<Rightarrow> ConditionType_t \<Rightarrow> being \<Rightarrow> being" where
  "onAddCondition e ty b =
     (if being_kind b = AMonster then b
      else if ty = CONDITION_PARALYZE \<and> hasCondition e CONDITION_HASTE 0 b then removeCondition e False CONDITION_HASTE b
      else if ty = CONDITION_HASTE \<and> hasCondition e CONDITION_PARALYZE 0 b then removeCondition e False CONDITION_PARALYZE b
      else b)"

definition addCondition :: "env \<Rightarrow> bool \<Rightarrow> condition \<Rightarrow> being \<Rightarrow> (bool \<times> being) option" where
  "addCondition e force c b =
     (if \<not> force \<and> conditionType c = CONDITION_HASTE \<and> hasCondition e CONDITION_PARALYZE 0 b \<and> walkDelay e > 0
      then Some (False, schedule (ForceAdd c) b)
      else
        (case getCondition (conditionType c) (conditionId c) (subId c) b of
           Some prevCond \<Rightarrow> map_option (\<lambda>(c', b). (True, put_condition c' b)) (renew e c prevCond b)
         | None \<Rightarrow>
             (case startCondition e c b of
                None \<Rightarrow> None
              | Some (True, c, b) \<Rightarrow> Some (True, onAddCondition e (conditionType c) (b\<lparr>conditions := conditions b @ [c]\<rparr>))
              | Some (False, _, b) \<Rightarrow> Some (False, b))))"

definition execute_at :: "env \<Rightarrow> u32 \<Rightarrow> key \<Rightarrow> being \<Rightarrow> being" where
  "execute_at e n k b =
     (case find (\<lambda>c. key c = k) (conditions b) of
        None \<Rightarrow> b
      | Some c \<Rightarrow>
          let (alive, c, b) = executeCondition e n c b;
              b = put_condition c b
          in if alive then b else finish e c b)"

definition executeConditions :: "env \<Rightarrow> u32 \<Rightarrow> being \<Rightarrow> being" where
  "executeConditions e n b = fold (execute_at e n) (map key (conditions b)) b"

text \<open>For players a condition of an item stays; when they cannot act, it lasts until they can.\<close>

definition onCombatRemoveCondition :: "env \<Rightarrow> key \<Rightarrow> being \<Rightarrow> being" where
  "onCombatRemoveCondition e k b =
     (if \<not> isPlayer b then removeCondition_at e False k b
      else
        (case find (\<lambda>c. key c = k) (conditions b) of
           None \<Rightarrow> b
         | Some c \<Rightarrow>
             if sint (conditionId c) > 0 then b
             else
               (case nextAction e of
                  None \<Rightarrow> removeCondition_at e False k b
                | Some delay \<Rightarrow>
                    let t = delay - delay mod word_of_int EVENT_CREATURE_THINK_INTERVAL in
                    if sint t < 0 then removeCondition_at e False k b else put_condition (setTicks e t c) b)))"

definition removeCombatCondition :: "env \<Rightarrow> ConditionType_t \<Rightarrow> being \<Rightarrow> being" where
  "removeCombatCondition e ty b =
     fold (onCombatRemoveCondition e) (map key (filter (\<lambda>c. conditionType c = ty) (conditions b))) b"

text \<open>The class that \<open>createCondition\<close> gives a condition of a type.\<close>

fun class_fits :: "ConditionType_t \<Rightarrow> extra \<Rightarrow> bool" where
  "class_fits ty (Damage _) \<longleftrightarrow> ConditionToDamageType ty \<noteq> COMBAT_NONE"
| "class_fits ty (Speed _) \<longleftrightarrow> ty = CONDITION_HASTE \<or> ty = CONDITION_PARALYZE"
| "class_fits ty Invisible \<longleftrightarrow> ty = CONDITION_INVISIBLE"
| "class_fits ty (Outfit _) \<longleftrightarrow> ty = CONDITION_OUTFIT"
| "class_fits ty (Light _) \<longleftrightarrow> ty = CONDITION_LIGHT"
| "class_fits ty (Regeneration _) \<longleftrightarrow> ty = CONDITION_REGENERATION"
| "class_fits ty (Soul _) \<longleftrightarrow> ty = CONDITION_SOUL"
| "class_fits ty (Attributes _) \<longleftrightarrow> ty = CONDITION_ATTRIBUTES"
| "class_fits ty (Drunk _) \<longleftrightarrow> ty = CONDITION_DRUNK"
| "class_fits ty Generic \<longleftrightarrow>
     ty \<in> {CONDITION_INFIGHT, CONDITION_EXHAUST_WEAPON, CONDITION_EXHAUST_COMBAT, CONDITION_EXHAUST_HEAL, CONDITION_MUTED,
       CONDITION_CHANNELMUTEDTICKS, CONDITION_YELLTICKS, CONDITION_PACIFIED, CONDITION_MANASHIELD, CONDITION_CLIPORT}"

end
