(* ===== verification/ConditionEffects.thy ===== *)
theory ConditionEffects
  imports Conditions
begin

text \<open>
  What conditions have done to a creature is undone when they end: its speed, skills, special skills and stats are at any
  time what they are without conditions and the sum of what the active conditions say. The state is a record of the creature, and
  everything that happens to it, from conditions or from outside, is a \<open>condition_event\<close>. A renewal may give the ability to
  defend back too early and may sober up. The damages of a condition that damages in rounds fall to 1
  when they are small enough for 32 bits, and overflow when they are large; a light without a level crashes the server.
\<close>

section \<open>Accounts\<close>

datatype slot = SpeedSlot | SkillSlot nat | SpecialSlot nat | StatSlot nat

fun slot_ok :: "slot \<Rightarrow> bool" where
  "slot_ok SpeedSlot = True"
| "slot_ok (SkillSlot i) = (i < 7)"
| "slot_ok (SpecialSlot i) = (i < 6)"
| "slot_ok (StatSlot i) = (i < 4)"

fun var :: "slot \<Rightarrow> being \<Rightarrow> u32" where
  "var SpeedSlot b = varSpeed b"
| "var (SkillSlot i) b = varSkills b ! i"
| "var (SpecialSlot i) b = varSpecialSkills b ! i"
| "var (StatSlot i) b = varStats b ! i"

text \<open>What a condition adds to a variable; attributes count for players only.\<close>

fun attribute_part :: "slot \<Rightarrow> attributes \<Rightarrow> u32" where
  "attribute_part SpeedSlot a = 0"
| "attribute_part (SkillSlot i) a = skills a ! i"
| "attribute_part (SpecialSlot i) a = specialSkills a ! i"
| "attribute_part (StatSlot i) a = stats a ! i"

definition part :: "bool \<Rightarrow> slot \<Rightarrow> condition \<Rightarrow> u32" where
  "part p s c =
     (case extra c of
        Speed v \<Rightarrow> if s = SpeedSlot then speedDelta v else 0
      | Attributes a \<Rightarrow> if p then attribute_part s a else 0
      | _ \<Rightarrow> 0)"

definition own :: "slot \<Rightarrow> being \<Rightarrow> u32" where
  "own s b = var s b - sum_list (map (part (isPlayer b) s) (conditions b))"

definition arrays_ok :: "being \<Rightarrow> bool" where
  "arrays_ok b \<longleftrightarrow> length (varSkills b) = 7 \<and> length (varSpecialSkills b) = 6 \<and> length (varStats b) = 4"

definition condition_ok :: "condition \<Rightarrow> bool" where
  "condition_ok c \<longleftrightarrow> class_fits (conditionType c) (extra c)"

text \<open>
  Two kinds of conditions that make the server crash when they are started: a light without a level, and a damage whose rounds
  overflow.
\<close>

definition overflows :: "env \<Rightarrow> damage \<Rightarrow> bool" where
  "overflows e d =
     (let amount = drawn e (minDamage d) (maxDamage d) in
      periodDamage d = 0 \<and> damageList d = [] \<and> amount \<noteq> 0 \<and>
      generateDamageList (sint amount) (sint (startDamage (set_start amount d))) = None)"

definition faulty :: "env \<Rightarrow> condition \<Rightarrow> bool" where
  "faulty e c =
     (case extra c of
        Light l \<Rightarrow> light_level (lightInfo l) = 0
      | Damage d \<Rightarrow> overflows e d
      | _ \<Rightarrow> False)"

definition being_ok :: "being \<Rightarrow> bool" where
  "being_ok b \<longleftrightarrow> arrays_ok b \<and> distinct (map key (conditions b)) \<and> list_all condition_ok (conditions b)"

text \<open>What the methods of conditions leave alone.\<close>

definition frame :: "being \<Rightarrow> condition list \<times> being_kind \<times> bool" where
  "frame b = (conditions b, being_kind b, arrays_ok b)"

lemma frame_eq [simp]:
  "frame b = frame b' \<longleftrightarrow> conditions b = conditions b' \<and> being_kind b = being_kind b' \<and> arrays_ok b = arrays_ok b'"
  by (auto simp: frame_def)

section \<open>Single changes\<close>

lemma changeHealth_fields [simp]:
  "conditions (changeHealth d b) = conditions b" "being_kind (changeHealth d b) = being_kind b"
  "arrays_ok (changeHealth d b) = arrays_ok b" "var s (changeHealth d b) = var s b"
  by (cases s; simp add: changeHealth_def arrays_ok_def)+

lemma changeMana_fields [simp]:
  "conditions (changeMana e d b) = conditions b" "being_kind (changeMana e d b) = being_kind b"
  "arrays_ok (changeMana e d b) = arrays_ok b" "var s (changeMana e d b) = var s b"
  by (cases s; simp add: changeMana_def arrays_ok_def)+

lemma changeSoul_fields [simp]:
  "conditions (changeSoul e d b) = conditions b" "being_kind (changeSoul e d b) = being_kind b"
  "arrays_ok (changeSoul e d b) = arrays_ok b" "var s (changeSoul e d b) = var s b"
  by (cases s; simp add: changeSoul_def arrays_ok_def)+

lemma changeSpeed_fields [simp]:
  "conditions (changeSpeed d b) = conditions b" "being_kind (changeSpeed d b) = being_kind b"
  "arrays_ok (changeSpeed d b) = arrays_ok b" "var s (changeSpeed d b) = var s b + (if s = SpeedSlot then d else 0)"
  by (cases s; simp add: changeSpeed_def arrays_ok_def)+

lemma outfit_fields [simp]:
  "conditions (internalCreatureChangeOutfit e o' b) = conditions b" "being_kind (internalCreatureChangeOutfit e o' b) = being_kind b"
  "arrays_ok (internalCreatureChangeOutfit e o' b) = arrays_ok b" "var s (internalCreatureChangeOutfit e o' b) = var s b"
  by (cases s; simp add: internalCreatureChangeOutfit_def arrays_ok_def)+

lemma update_fields [simp]:
  "var s (b\<lparr>canUseDefense := x\<rparr>) = var s b" "var s (b\<lparr>drunkenness := n\<rparr>) = var s b" "var s (b\<lparr>internalLight := l\<rparr>) = var s b"
  "var s (b\<lparr>conditions := cs\<rparr>) = var s b" "var s (b\<lparr>hits := hs\<rparr>) = var s b" "var s (b\<lparr>scheduled := rs\<rparr>) = var s b"
  "arrays_ok (b\<lparr>canUseDefense := x\<rparr>) = arrays_ok b" "arrays_ok (b\<lparr>drunkenness := n\<rparr>) = arrays_ok b"
  "arrays_ok (b\<lparr>internalLight := l\<rparr>) = arrays_ok b" "arrays_ok (b\<lparr>conditions := cs\<rparr>) = arrays_ok b"
  "arrays_ok (b\<lparr>hits := hs\<rparr>) = arrays_ok b" "arrays_ok (b\<lparr>scheduled := rs\<rparr>) = arrays_ok b"
  by (cases s; simp add: arrays_ok_def)+

lemma setVarSkill_fields [simp]:
  "conditions (setVarSkill i d b) = conditions b" "being_kind (setVarSkill i d b) = being_kind b"
  "arrays_ok (setVarSkill i d b) = arrays_ok b"
  "arrays_ok b \<Longrightarrow> slot_ok s \<Longrightarrow> var s (setVarSkill i d b) = var s b + (if s = SkillSlot i then d else 0)"
  by (simp_all add: setVarSkill_def arrays_ok_def) (cases s; auto simp: nth_list_update)

lemma setVarSpecialSkill_fields [simp]:
  "conditions (setVarSpecialSkill i d b) = conditions b" "being_kind (setVarSpecialSkill i d b) = being_kind b"
  "arrays_ok (setVarSpecialSkill i d b) = arrays_ok b"
  "arrays_ok b \<Longrightarrow> slot_ok s \<Longrightarrow> var s (setVarSpecialSkill i d b) = var s b + (if s = SpecialSlot i then d else 0)"
  by (simp_all add: setVarSpecialSkill_def arrays_ok_def) (cases s; auto simp: nth_list_update)

lemma stats_fields:
  "conditions (b\<lparr>varStats := xs\<rparr>) = conditions b" "length xs = length (varStats b) \<Longrightarrow> arrays_ok (b\<lparr>varStats := xs\<rparr>) = arrays_ok b"
  "arrays_ok b \<Longrightarrow> slot_ok s \<Longrightarrow> var s (b\<lparr>varStats := (varStats b)[i := varStats b ! i + d]\<rparr>) = var s b + (if s = StatSlot i then d else 0)"
  by (simp_all add: arrays_ok_def) (cases s; auto simp: nth_list_update)

lemma setVarStats_fields [simp]:
  "conditions (setVarStats e i d b) = conditions b" "being_kind (setVarStats e i d b) = being_kind b"
  "arrays_ok (setVarStats e i d b) = arrays_ok b"
  by (simp_all add: setVarStats_def Let_def stats_fields)

lemma setVarStats_var [simp]:
  assumes "arrays_ok b" and "slot_ok s"
  shows "var s (setVarStats e i d b) = var s b + (if s = StatSlot i then d else 0)"
proof -
  have "var s (setVarStats e i d b) = var s (b\<lparr>varStats := (varStats b)[i := varStats b ! i + d]\<rparr>)"
    unfolding setVarStats_def Let_def by (simp del: var.simps)
  then show ?thesis using stats_fields(3) [OF assms] by simp
qed

text \<open>Loops over the indices of an array.\<close>

lemma fold_fields:
  assumes "\<And>i b. conditions (f i b) = conditions b" "\<And>i b. being_kind (f i b) = being_kind b" "\<And>i b. arrays_ok (f i b) = arrays_ok b"
  shows "conditions (fold f is b) = conditions b \<and> being_kind (fold f is b) = being_kind b \<and> arrays_ok (fold f is b) = arrays_ok b"
  using assms by (induction "is" arbitrary: b) simp_all

lemma fold_var:
  assumes "\<And>i b. arrays_ok (f i b) = arrays_ok b" and "\<And>i b. arrays_ok b \<Longrightarrow> var s (f i b) = var s b + d i" and "arrays_ok b"
  shows "var s (fold f is b) = var s b + sum_list (map d is)"
  using assms(3)
proof (induction "is" arbitrary: b)
  case (Cons i "is")
  have "arrays_ok (f i b)" using Cons.prems assms(1) by simp
  then show ?case using Cons.IH [of "f i b"] assms(2) [OF Cons.prems] by (simp add: add.assoc)
qed simp

lemma sum_single: "sum_list (map (\<lambda>i. if P i \<and> j = i then x i else 0) [0..<n]) = (if j < n \<and> P j then x j else (0 :: u32))"
  by (induction n) (auto simp: less_Suc_eq)

definition guarded :: "(nat \<Rightarrow> bool) \<Rightarrow> (nat \<Rightarrow> u32 \<Rightarrow> being \<Rightarrow> being) \<Rightarrow> (nat \<Rightarrow> u32) \<Rightarrow> nat \<Rightarrow> being \<Rightarrow> being" where
  "guarded P chg x i = (if P i then chg i (x i) else id)"

lemma fold_guarded:
  assumes f: "\<And>i d b. conditions (chg i d b) = conditions b" "\<And>i d b. being_kind (chg i d b) = being_kind b"
      "\<And>i d b. arrays_ok (chg i d b) = arrays_ok b"
  shows "conditions (fold (guarded P chg x) [0..<n] b) = conditions b" "being_kind (fold (guarded P chg x) [0..<n] b) = being_kind b"
    "arrays_ok (fold (guarded P chg x) [0..<n] b) = arrays_ok b"
  using fold_fields [of "guarded P chg x" "[0..<n]" b] f by (simp_all add: guarded_def)

lemma fold_guarded_var:
  assumes f: "\<And>i d b. arrays_ok (chg i d b) = arrays_ok b"
    and v: "\<And>i d b. arrays_ok b \<Longrightarrow> slot_ok s \<Longrightarrow> var s (chg i d b) = var s b + (if s = slot i then d else 0)"
    and "arrays_ok b" and s: "slot_ok s"
  shows "var s (fold (guarded P chg x) [0..<n] b) = var s b + sum_list (map (\<lambda>i. if P i \<and> s = slot i then x i else 0) [0..<n])"
proof (intro fold_var [where d = "\<lambda>i. if P i \<and> s = slot i then x i else 0"])
  show "arrays_ok (guarded P chg x i b) = arrays_ok b" for i b by (simp add: guarded_def f)
  show "var s (guarded P chg x i b) = var s b + (if P i \<and> s = slot i then x i else 0)" if "arrays_ok b" for i b
    using v [OF that s, of i "x i"] by (cases "P i") (simp_all add: guarded_def split del: if_split)
qed fact

lemmas folds =
  fold_guarded [where chg = setVarSkill, OF setVarSkill_fields(1-3)]
  fold_guarded [where chg = setVarSpecialSkill, OF setVarSpecialSkill_fields(1-3)]
  fold_guarded [where chg = "setVarStats e" for e, OF setVarStats_fields]
  fold_guarded_var [where chg = setVarSkill and slot = SkillSlot, OF setVarSkill_fields(3,4)]
  fold_guarded_var [where chg = setVarSpecialSkill and slot = SpecialSlot, OF setVarSpecialSkill_fields(3,4)]
  fold_guarded_var [where chg = "setVarStats e" and slot = StatSlot for e, OF setVarStats_fields(3) setVarStats_var]

lemma updateSkills_guarded:
  "updateSkills a b =
     fold (guarded (\<lambda>i. specialSkills a ! i \<noteq> 0) setVarSpecialSkill (\<lambda>i. specialSkills a ! i)) [0..<6]
       (fold (guarded (\<lambda>i. skills a ! i \<noteq> 0) setVarSkill (\<lambda>i. skills a ! i)) [0..<7] b)"
  by (simp add: updateSkills_def guarded_def [abs_def])

lemma updateStats_guarded:
  "updateStats e a b = fold (guarded (\<lambda>i. stats a ! i \<noteq> 0) (setVarStats e) (\<lambda>i. stats a ! i)) [0..<4] b"
  by (simp add: updateStats_def guarded_def [abs_def])

lemma attributes_end_guarded:
  "attributes_end e a b =
     (let b =
        (if isPlayer b then
           fold (guarded (\<lambda>i. stats a ! i \<noteq> 0) (setVarStats e) (\<lambda>i. - (stats a ! i))) [0..<4]
             (fold (guarded (\<lambda>i. specialSkills a ! i \<noteq> 0) setVarSpecialSkill (\<lambda>i. - (specialSkills a ! i))) [0..<6]
               (fold (guarded (\<lambda>i. skills a ! i \<noteq> 0 \<or> skillsPercent a ! i \<noteq> 0) setVarSkill (\<lambda>i. - (skills a ! i))) [0..<7] b))
         else b)
      in if disableDefense a then b\<lparr>canUseDefense := True\<rparr> else b)"
  by (simp add: attributes_end_def guarded_def [abs_def])

section \<open>Methods\<close>

fun skill_part :: "slot \<Rightarrow> attributes \<Rightarrow> u32" where
  "skill_part (SkillSlot i) a = skills a ! i"
| "skill_part (SpecialSlot i) a = specialSkills a ! i"
| "skill_part _ a = 0"

lemma updateSkills_fields [simp]:
  "conditions (updateSkills a b) = conditions b" "being_kind (updateSkills a b) = being_kind b" "arrays_ok (updateSkills a b) = arrays_ok b"
  "arrays_ok b \<Longrightarrow> slot_ok s \<Longrightarrow> var s (updateSkills a b) = var s b + skill_part s a"
  unfolding updateSkills_guarded
  by (simp_all add: folds) (cases s; simp add: sum_single del: var.simps)

lemma updateStats_fields [simp]:
  "conditions (updateStats e a b) = conditions b" "being_kind (updateStats e a b) = being_kind b" "arrays_ok (updateStats e a b) = arrays_ok b"
  "arrays_ok b \<Longrightarrow> slot_ok s \<Longrightarrow> var s (updateStats e a b) = var s b + (case s of StatSlot i \<Rightarrow> stats a ! i | _ \<Rightarrow> 0)"
  unfolding updateStats_guarded
  by (simp_all add: folds) (cases s; simp add: sum_single del: var.simps)

lemma attributes_end_fields [simp]:
  "conditions (attributes_end e a b) = conditions b" "being_kind (attributes_end e a b) = being_kind b"
  "arrays_ok (attributes_end e a b) = arrays_ok b"
  "arrays_ok b \<Longrightarrow> slot_ok s \<Longrightarrow> var s (attributes_end e a b) = var s b - (if isPlayer b then attribute_part s a else 0)"
  unfolding attributes_end_guarded Let_def
  by (simp_all add: folds) (cases s; auto simp: sum_single simp del: var.simps)

lemma apply_attributes_fields:
  assumes "apply_attributes e a b = (a', b')"
  shows "conditions b' = conditions b" "being_kind b' = being_kind b" "arrays_ok b' = arrays_ok b"
    "arrays_ok b \<Longrightarrow> slot_ok s \<Longrightarrow> var s b' = var s b + (if isPlayer b then attribute_part s a' else 0)"
  using assms
  by (auto simp: apply_attributes_def Let_def updatePercentSkills_def updatePercentStats_def split: if_splits)
    (cases s; simp add: updatePercentSkills_def updatePercentStats_def)

lemma key_simps [simp]:
  "key (setTicks e n c) = key c" "key (c\<lparr>extra := x\<rparr>) = key c" "key (c\<lparr>ticks := t\<rparr>) = key c" "key (c\<lparr>endTime := u\<rparr>) = key c"
  "key (base_start e c) = key c"
  "extra (setTicks e n c) = extra c" "extra (base_start e c) = extra c"
  "conditionType (setTicks e n c) = conditionType c" "conditionType (base_start e c) = conditionType c"
  by (simp_all add: key_def setTicks_def base_start_def)

lemma base_execute_fields:
  "base_execute e n c = (alive, c') \<Longrightarrow> key c' = key c \<and> extra c' = extra c \<and> conditionType c' = conditionType c"
  by (auto simp: base_execute_def key_def Let_def split: if_splits)

lemma add_interval_key [simp]: "key (fst ((add_interval e t v ^^ n) cd)) = key (fst cd)"
  by (induction n) (auto simp: add_interval_def split: prod.splits)

lemma addDamage_key [simp]: "key (fst (snd (addDamage e n t v cd))) = key (fst cd)"
  by (cases cd) (simp add: addDamage_def Let_def)

lemma fold_addDamage_key: "key (fst (fold (\<lambda>v cd. snd (addDamage e n (t cd) (f v) cd)) vs cd)) = key (fst cd)"
  by (induction vs arbitrary: cd) simp_all

lemma fill_damage_key:
  assumes "fill_damage e n cd = Some (c', d')" shows "key c' = key (fst cd)"
proof -
  obtain l where "fold (\<lambda>v cd. snd (addDamage e 1 (tickInterval (snd cd)) (word_of_int (- v)) cd)) l cd = (c', d')"
    using assms by (auto simp: fill_damage_def simp del: of_int_minus)
  then show ?thesis using fold_addDamage_key [of e 1 "\<lambda>cd. tickInterval (snd cd)" "\<lambda>v. word_of_int (- v)" l cd]
    by (simp del: of_int_minus)
qed

lemma damage_init_key: assumes "damage_init e (c, d) = Some (ok, c', d')" shows "key c' = key c"
  using assms by (auto simp: damage_init_def Let_def dest!: fill_damage_key split: if_splits)

lemma damage_init_None: "damage_init e (c, d) = None \<longleftrightarrow> overflows e d"
  by (simp add: damage_init_def fill_damage_def overflows_def Let_def)

lemma type_of_key: "key c' = key c \<Longrightarrow> conditionType c' = conditionType c"
  by (simp add: key_def)

lemma doDamage_fields [simp]:
  "conditions (snd (doDamage e ty d v b)) = conditions b" "being_kind (snd (doDamage e ty d v b)) = being_kind b"
  "arrays_ok (snd (doDamage e ty d v b)) = arrays_ok b" "var s (snd (doDamage e ty d v b)) = var s b"
  by (simp_all add: doDamage_def Let_def del: var.simps)

lemma doDamage_result:
  assumes "doDamage e ty d v b = (ok, b')"
  shows "conditions b' = conditions b \<and> being_kind b' = being_kind b \<and> arrays_ok b' = arrays_ok b \<and> (\<forall>s. var s b' = var s b)"
  using doDamage_fields [where e = e and ty = ty and d = d and v = v and b = b] by (simp add: assms del: doDamage_fields var.simps)

text \<open>What a method has done: the creature is the same but for its variables, and the condition is the same one.\<close>

definition kept :: "condition \<Rightarrow> being \<Rightarrow> condition \<Rightarrow> being \<Rightarrow> bool" where
  "kept c b c' b' \<longleftrightarrow> conditions b' = conditions b \<and> being_kind b' = being_kind b \<and> arrays_ok b' = arrays_ok b \<and>
     key c' = key c \<and> (condition_ok c \<longrightarrow> condition_ok c')"

lemma keptI:
  assumes "conditions b' = conditions b" "being_kind b' = being_kind b" "arrays_ok b' = arrays_ok b" "key c' = key c"
    and "class_fits (conditionType c) (extra c) \<Longrightarrow> class_fits (conditionType c) (extra c')"
  shows "kept c b c' b'"
  using assms type_of_key [OF assms(4)] by (simp add: kept_def condition_ok_def)

lemma part_simps:
  "extra c = Speed v \<Longrightarrow> part p s c = (if s = SpeedSlot then speedDelta v else 0)"
  "extra c = Attributes a \<Longrightarrow> part p s c = (if p then attribute_part s a else 0)"
  "extra c = Generic \<Longrightarrow> part p s c = 0" "extra c = Regeneration r \<Longrightarrow> part p s c = 0" "extra c = Soul g \<Longrightarrow> part p s c = 0"
  "extra c = Invisible \<Longrightarrow> part p s c = 0" "extra c = Damage d \<Longrightarrow> part p s c = 0" "extra c = Outfit o' \<Longrightarrow> part p s c = 0"
  "extra c = Light l \<Longrightarrow> part p s c = 0" "extra c = Drunk n \<Longrightarrow> part p s c = 0"
  by (simp_all add: part_def)

lemma startCondition_effect:
  assumes "startCondition e c b = Some (ok, c', b')" and "arrays_ok b" and "slot_ok s"
  shows "kept c b c' b' \<and> var s b' = var s b + (if ok then part (isPlayer b) s c' else 0)"
proof (cases "extra c")
  case (Attributes a)
  obtain a' b2 where a: "apply_attributes e a (b\<lparr>canUseDefense := \<not> disableDefense a\<rparr>) = (a', b2)" by fastforce
  then have "ok" "c' = (base_start e c)\<lparr>extra := extra.Attributes a'\<rparr>" "b' = b2"
    using assms(1) Attributes by (auto simp: start_defs)
  then show ?thesis using apply_attributes_fields [OF a] assms(2,3) Attributes
    by (auto intro!: keptI simp: part_simps simp del: var.simps)
next
  case (Damage d)
  let ?r = "if delayed d then (True, b) else doDamage e (conditionType (base_start e c)) d (initDamage d) b"
  obtain ok1 b1 where r: "?r = (ok1, b1)" by fastforce
  have b1: "conditions b1 = conditions b" "being_kind b1 = being_kind b" "arrays_ok b1 = arrays_ok b" "var s b1 = var s b"
    using r by (auto dest: doDamage_result split: if_splits simp del: var.simps)
  show ?thesis
  proof (cases ok1)
    case False
    then have "\<not> ok" "c' = base_start e c" "b' = b1" using assms(1) Damage r by (auto simp: start_defs Let_def)
    then show ?thesis using b1 by (auto intro!: keptI)
  next
    case True
    obtain c2 d2 where i: "damage_init e (base_start e c, d) = Some (ok, c2, d2)" "c' = c2\<lparr>extra := extra.Damage d2\<rparr>" "b' = b1"
      using assms(1) Damage r True by (auto simp: start_defs Let_def split: prod.splits)
    show ?thesis using b1 i damage_init_key [OF i(1)] Damage by (auto intro!: keptI simp: part_simps simp del: var.simps)
  qed
next
  case (Light l)
  then show ?thesis using assms
    by (auto simp: start_defs Let_def part_simps simp del: var.simps split: if_splits intro!: keptI)
next
  case (Speed v)
  then show ?thesis using assms by (auto simp: start_defs Let_def part_simps simp del: var.simps intro!: keptI)
qed (use assms in \<open>auto simp: start_defs Let_def part_simps simp del: var.simps intro!: keptI\<close>)

lemma endCondition_fields [simp]:
  "conditions (endCondition e c b) = conditions b" "being_kind (endCondition e c b) = being_kind b"
  "arrays_ok (endCondition e c b) = arrays_ok b"
  "arrays_ok b \<Longrightarrow> slot_ok s \<Longrightarrow> var s (endCondition e c b) = var s b - part (isPlayer b) s c"
  by (simp_all add: end_defs part_def del: var.simps split: extra.split)

lemma regenerate_fields:
  assumes "regenerate e n r b = (r', b')"
  shows "conditions b' = conditions b \<and> being_kind b' = being_kind b \<and> arrays_ok b' = arrays_ok b \<and> (\<forall>s. var s b' = var s b)"
  using assms by (auto simp: regenerate_def Let_def split: if_splits simp del: var.simps)

lemma gain_soul_fields:
  assumes "gain_soul e n r b = (r', b')"
  shows "conditions b' = conditions b \<and> being_kind b' = being_kind b \<and> arrays_ok b' = arrays_ok b \<and> (\<forall>s. var s b' = var s b)"
  using assms by (auto simp: gain_soul_def Let_def split: if_splits simp del: var.simps)

lemma fade_fields:
  assumes "fade n l b = (l', b')"
  shows "lightInfo l' = lightInfo l \<and> conditions b' = conditions b \<and> being_kind b' = being_kind b \<and> arrays_ok b' = arrays_ok b \<and>
    (\<forall>s. var s b' = var s b)"
  using assms by (auto simp: fade_def Let_def split: if_splits simp del: var.simps)

lemma tick_damage_fields:
  assumes "tick_damage e n c d b = (d', b', putOff)"
  shows "conditions b' = conditions b \<and> being_kind b' = being_kind b \<and> arrays_ok b' = arrays_ok b \<and> (\<forall>s. var s b' = var s b)"
  using assms by (auto simp: tick_damage_def Let_def split: if_splits list.splits simp del: var.simps)

lemma executeCondition_effect:
  assumes "executeCondition e n c b = (alive, c', b')"
  shows "kept c b c' b' \<and> var s b' = var s b \<and> part p s c' = part p s c"
proof (cases "extra c")
  case (Regeneration r)
  obtain r' b1 where r: "regenerate e n r b = (r', b1)" by fastforce
  have x: "base_execute e n (c\<lparr>extra := extra.Regeneration r'\<rparr>) = (alive, c')" "b' = b1"
    using assms Regeneration r by (auto simp: execute_defs split: prod.splits)
  then show ?thesis using base_execute_fields [OF x(1)] regenerate_fields [OF r] Regeneration
    by (auto intro!: keptI simp: part_simps simp del: var.simps)
next
  case (Soul g)
  obtain g' b1 where g: "gain_soul e n g b = (g', b1)" by fastforce
  have x: "base_execute e n (c\<lparr>extra := extra.Soul g'\<rparr>) = (alive, c')" "b' = b1"
    using assms Soul g by (auto simp: execute_defs split: prod.splits)
  then show ?thesis using base_execute_fields [OF x(1)] gain_soul_fields [OF g] Soul
    by (auto intro!: keptI simp: part_simps simp del: var.simps)
next
  case (Light l)
  obtain l' b1 where l: "fade n l b = (l', b1)" by fastforce
  have x: "base_execute e n (c\<lparr>extra := extra.Light l'\<rparr>) = (alive, c')" "b' = b1"
    using assms Light l by (auto simp: execute_defs split: prod.splits)
  then show ?thesis using base_execute_fields [OF x(1)] fade_fields [OF l] Light
    by (auto intro!: keptI simp: part_simps simp del: var.simps)
next
  case (Damage d)
  obtain d' b1 putOff where d: "tick_damage e n c d b = (d', b1, putOff)" by (metis prod_cases3)
  define c1 where "c1 = (if putOff \<and> 0 < sint (ticks c) then c\<lparr>extra := extra.Damage d', endTime := endTime c + sint n\<rparr> else c\<lparr>extra := extra.Damage d'\<rparr>)"
  have x: "base_execute e (if putOff then 0 else n) c1 = (alive, c')" "b' = b1"
    using assms Damage d by (auto simp: execute_defs c1_def Let_def split: prod.splits if_splits)
  have c1: "key c1 = key c" "extra c1 = extra.Damage d'" by (simp_all add: c1_def key_def)
  show ?thesis using base_execute_fields [OF x(1)] tick_damage_fields [OF d] Damage c1 x(2)
    by (auto intro!: keptI simp: part_simps simp del: var.simps)
qed (use assms in \<open>auto simp: execute_defs part_def simp del: var.simps dest!: base_execute_fields split: prod.splits intro!: keptI\<close>)

lemma hit_at_once_fields:
  assumes "hit_at_once e t b (ok, c, d) = (c', b')"
  shows "key c' = key c \<and> (\<exists>d'. extra c' = extra.Damage d') \<and> conditions b' = conditions b \<and>
    being_kind b' = being_kind b \<and> arrays_ok b' = arrays_ok b \<and> (\<forall>s. var s b' = var s b)"
  using assms by (auto simp: hit_at_once_def Let_def split: if_splits list.splits prod.splits option.splits simp del: var.simps)

lemma damage_add_fields:
  assumes "damage_add e new dn c d b = Some (c', b')"
  shows "key c' = key c \<and> (c' = c \<or> (\<exists>d'. extra c' = extra.Damage d')) \<and> conditions b' = conditions b \<and>
    being_kind b' = being_kind b \<and> arrays_ok b' = arrays_ok b \<and> (\<forall>s. var s b' = var s b)"
proof (cases "conditionType new \<noteq> conditionType c \<or> \<not> damage_update new dn c d")
  case True
  then have "damage_add e new dn c d b = Some (c, b)"
    by (cases "conditionType new = conditionType c") (simp_all add: damage_add_def)
  then show ?thesis using assms by simp
next
  case False
  define d1 where "d1 = d\<lparr>owner := owner dn, maxDamage := maxDamage dn, minDamage := minDamage dn, startDamage := startDamage dn,
    tickInterval := tickInterval dn, periodDamage := periodDamage dn, damageList := damageList dn\<rparr>"
  obtain t ok c1 d2 where i: "damage_init e (setTicks e (ticks new) c, d1) = Some (ok, c1, d2)"
      "hit_at_once e t b (ok, c1, d2) = (c', b')"
    using assms False unfolding damage_add_def Let_def d1_def [symmetric] by auto
  have "key c1 = key c" using damage_init_key [OF i(1)] by simp
  then show ?thesis using hit_at_once_fields [OF i(2)] by simp
qed

lemma damage_add_None: "damage_add e new dn c d b = None \<Longrightarrow> overflows e dn"
  by (auto simp: damage_add_def Let_def damage_init_None overflows_def set_start_def split: if_splits)

lemma damage_start_None: "damage_start e d c b = None \<Longrightarrow> overflows e d"
  by (auto simp: damage_start_def Let_def damage_init_None split: if_splits prod.splits)

lemma condition_okD: "condition_ok c \<Longrightarrow> class_fits (conditionType c) (extra c)"
  by (simp add: condition_ok_def)

lemma renew_attributes:
  assumes "apply_attributes e a1 (attributes_end e a b) = (a', b')" and "arrays_ok b" and "slot_ok s"
  shows "conditions b' = conditions b" "being_kind b' = being_kind b" "arrays_ok b' = arrays_ok b"
    "var s b' = var s b - (if isPlayer b then attribute_part s a else 0) + (if isPlayer b then attribute_part s a' else 0)"
  using apply_attributes_fields [OF assms(1)] assms(2,3) by simp_all

lemma renew_effect:
  assumes "renew e new c b = Some (c', b')" and "arrays_ok b" and "slot_ok s" and "condition_ok new"
  shows "kept c b c' b' \<and> var s b' = var s b - part (isPlayer b) s c + part (isPlayer b) s c'"
proof (cases "extra c")
  case (Attributes a)
  then obtain an where n: "extra new = extra.Attributes an" using assms(1) by (auto simp: renew_def split: extra.splits)
  show ?thesis
  proof (cases "base_update e new c")
    case True
    let ?a = "a\<lparr>skills := skills an, specialSkills := specialSkills an, skillsPercent := skillsPercent an,
      stats := stats an, statsPercent := statsPercent an, disableDefense := disableDefense an\<rparr>"
    obtain a' b2 where x: "apply_attributes e ?a (attributes_end e a b) = (a', b2)" by fastforce
    have "c' = (setTicks e (ticks new) c)\<lparr>extra := extra.Attributes a'\<rparr>" "b' = b2"
      using assms(1) Attributes n True x by (auto simp: renew_defs Let_def)
    then show ?thesis using renew_attributes [OF x assms(2,3)] Attributes
      by (auto intro!: keptI simp: part_simps simp del: var.simps)
  next
    case False
    then show ?thesis using assms(1) Attributes n by (auto simp: renew_defs intro!: keptI)
  qed
next
  case (Damage d)
  then obtain dn where n: "extra new = extra.Damage dn" using assms(1) by (auto simp: renew_def split: extra.splits)
  then have "damage_add e new dn c d b = Some (c', b')" using assms(1) Damage by (simp add: renew_def)
  then show ?thesis using damage_add_fields [of e new dn c d b c' b'] Damage
    by (auto intro!: keptI simp: part_simps simp del: var.simps)
next
  case (Light l)
  then obtain ll where n: "extra new = extra.Light ll" using assms(1) by (auto simp: renew_def split: extra.splits)
  then show ?thesis using assms(1,4) Light
    by (auto simp: renew_defs Let_def part_simps simp del: var.simps split: if_splits intro!: keptI)
next
  case (Speed v)
  then obtain vn where n: "extra new = extra.Speed vn" using assms(1) by (auto simp: renew_def split: extra.splits)
  show ?thesis
  proof (cases "conditionType c \<noteq> conditionType new \<or> ticks c = - 1 \<and> 0 < sint (ticks new)")
    case True
    then have "c' = c" "b' = b" using assms(1) Speed n by (auto simp: renew_defs split: if_splits)
    then show ?thesis by (auto intro!: keptI)
  next
    case False
    define v' where "v' = (if speedDelta vn = 0
      then vn\<lparr>speedDelta := case formulaValues e vn (baseSpeed b) of (l, h) \<Rightarrow> drawn e l h\<rparr> else vn)"
    have "c' = (setTicks e (ticks new) c)\<lparr>extra := extra.Speed v'\<rparr>"
      "b' = (if speedDelta v' - speedDelta v \<noteq> 0 then changeSpeed (speedDelta v' - speedDelta v) b else b)"
      using assms(1) Speed n False unfolding renew_defs v'_def [symmetric] Let_def
      by (simp_all only: extra.case prod.case if_not_P [OF False] de_Morgan_disj not_not) (auto simp: v'_def [symmetric])
    then show ?thesis using Speed by (auto intro!: keptI simp: part_simps simp del: var.simps)
  qed
qed (use assms in \<open>auto simp: renew_defs part_simps simp del: var.simps split: extra.splits if_splits intro!: keptI\<close>)

lemma renew_None:
  assumes "renew e new c b = None" and "condition_ok new" and "condition_ok c" and "conditionType c = conditionType new"
  shows "faulty e new"
proof (cases "\<exists>d dn. extra c = Damage d \<and> extra new = Damage dn")
  case True
  then obtain d dn where d: "extra c = Damage d" "extra new = Damage dn" by blast
  then show ?thesis using assms(1) damage_add_None [of e new dn c d b] by (simp add: renew_def faulty_def)
next
  case False
  then show ?thesis using assms
    by (cases "extra c"; cases "extra new") (auto simp: renew_defs condition_ok_def faulty_def Let_def split: if_splits)
qed

lemma startCondition_None: "startCondition e c b = None \<Longrightarrow> faulty e c"
  by (auto simp: startCondition_def light_start_def faulty_def Let_def dest!: damage_start_None split: extra.splits if_splits)

section \<open>The list of conditions\<close>

lemma find_key: "find (\<lambda>c. key c = k) cs = Some c \<Longrightarrow> c \<in> set cs \<and> key c = k"
  by (induction cs) (auto split: if_splits)

lemma erase_at_split: "c \<in> set cs \<Longrightarrow> distinct (map key cs) \<Longrightarrow> \<exists>xs ys. cs = xs @ c # ys \<and> erase_at (key c) cs = xs @ ys"
proof (induction cs)
  case (Cons d cs)
  show ?case
  proof (cases "d = c")
    case True
    then show ?thesis by (intro exI [of _ "[]"] exI [of _ cs]) simp
  next
    case False
    then have "c \<in> set cs" "key d \<noteq> key c" using Cons.prems by auto
    moreover obtain xs ys where "cs = xs @ c # ys" "erase_at (key c) cs = xs @ ys" using Cons \<open>c \<in> set cs\<close> by auto
    ultimately show ?thesis by (intro exI [of _ "d # xs"] exI [of _ ys]) simp
  qed
qed simp

lemma put_at_split:
  assumes "c \<in> set cs" "distinct (map key cs)"
  shows "\<exists>xs ys. cs = xs @ c # ys \<and> put_at (key c) c' cs = xs @ c' # ys"
  using assms
proof (induction cs)
  case (Cons d cs)
  show ?case
  proof (cases "d = c")
    case True
    then show ?thesis by (intro exI [of _ "[]"] exI [of _ cs]) simp
  next
    case False
    then have "c \<in> set cs" "key d \<noteq> key c" using Cons.prems by auto
    moreover obtain xs ys where "cs = xs @ c # ys" "put_at (key c) c' cs = xs @ c' # ys" using Cons \<open>c \<in> set cs\<close> by auto
    ultimately show ?thesis by (intro exI [of _ "d # xs"] exI [of _ ys]) simp
  qed
qed simp

text \<open>Two states of a creature whose accounts agree.\<close>

definition balanced :: "being \<Rightarrow> being \<Rightarrow> bool" where
  "balanced b b' \<longleftrightarrow> being_ok b' \<and> being_kind b' = being_kind b \<and> (\<forall>s. slot_ok s \<longrightarrow> own s b' = own s b)"

lemma balanced_refl: "being_ok b \<Longrightarrow> balanced b b" by (simp add: balanced_def)
lemma balanced_trans: "balanced a b \<Longrightarrow> balanced b c \<Longrightarrow> balanced a c" by (simp add: balanced_def)

lemma own_simps: "own s b = var s b - sum_list (map (part (isPlayer b) s) (conditions b))" by (fact own_def)

lemma schedule_balanced: "being_ok b \<Longrightarrow> balanced b (schedule r b)"
  by (simp add: balanced_def being_ok_def own_def schedule_def del: var.simps)

lemma finish_balanced:
  assumes b: "being_ok b" and c: "c \<in> set (conditions b)"
  shows "balanced b (finish e c b)" and "set (conditions (finish e c b)) = set (conditions b) - {c}"
proof -
  have d: "distinct (map key (conditions b))" "arrays_ok b" using b by (simp_all add: being_ok_def)
  obtain xs ys where s: "conditions b = xs @ c # ys" "erase_at (key c) (conditions b) = xs @ ys" using erase_at_split [OF c d(1)] by blast
  then have "conditions (finish e c b) = xs @ ys" by (simp add: finish_def)
  moreover have "own s (finish e c b) = own s b" if "slot_ok s" for s
    using s d(2) that by (simp add: finish_def own_def del: var.simps)
  ultimately show "balanced b (finish e c b)" "set (conditions (finish e c b)) = set (conditions b) - {c}"
    using s b by (auto simp: balanced_def being_ok_def finish_def)
qed

lemma put_balanced:
  assumes b: "being_ok b" and c: "c \<in> set (conditions b)" and k: "kept c b c' b'"
    and v: "\<And>s. slot_ok s \<Longrightarrow> var s b' = var s b - part (isPlayer b) s c + part (isPlayer b) s c'"
  shows "balanced b (put_condition c' b')" and "c' \<in> set (conditions (put_condition c' b'))"
    and "map key (conditions (put_condition c' b')) = map key (conditions b)"
proof -
  have d: "distinct (map key (conditions b))" "arrays_ok b" "condition_ok c" using b c by (auto simp: being_ok_def list_all_iff)
  obtain xs ys where s: "conditions b = xs @ c # ys" "put_at (key c) c' (conditions b) = xs @ c' # ys"
    using put_at_split [OF c d(1)] by blast
  have k': "key c' = key c" "conditions b' = conditions b" "being_kind b' = being_kind b" "arrays_ok b' = arrays_ok b" "condition_ok c'"
    using k d(3) by (simp_all add: kept_def)
  have cs: "conditions (put_condition c' b') = xs @ c' # ys" using s k' by (simp add: put_condition_def)
  have "own s (put_condition c' b') = own s b" if "slot_ok s" for s
    using s cs k' v [OF that] by (simp add: put_condition_def own_def del: var.simps)
  then show "balanced b (put_condition c' b')"
    using s cs b k' by (auto simp: balanced_def being_ok_def put_condition_def)
  show "c' \<in> set (conditions (put_condition c' b'))" "map key (conditions (put_condition c' b')) = map key (conditions b)"
    using cs s k' by simp_all
qed

lemma execute_at_balanced:
  assumes b: "being_ok b" shows "balanced b (execute_at e n k b)"
proof (cases "find (\<lambda>c. key c = k) (conditions b)")
  case None
  then show ?thesis using balanced_refl [OF b] by (simp add: execute_at_def)
next
  case (Some c)
  have c: "c \<in> set (conditions b)" using find_key [OF Some] by simp
  obtain alive c' b' where x: "executeCondition e n c b = (alive, c', b')" by (metis prod_cases3)
  note f = executeCondition_effect [OF x]
  have k: "kept c b c' b'" "\<And>s. var s b' = var s b - part (isPlayer b) s c + part (isPlayer b) s c'" using f by simp_all
  note p = put_balanced [OF b c k]
  have ok: "being_ok (put_condition c' b')" using p(1) by (simp add: balanced_def)
  show ?thesis using Some x p(1) finish_balanced(1) [OF ok p(2), of e]
    by (auto simp: execute_at_def Let_def intro: balanced_trans)
qed

lemma fold_balanced:
  assumes "\<And>x b. being_ok b \<Longrightarrow> balanced b (f x b)" and "being_ok b" shows "balanced b (fold f xs b)"
  using assms(2)
proof (induction xs arbitrary: b)
  case (Cons x xs)
  have "balanced b (f x b)" using assms(1) Cons.prems by simp
  moreover then have "balanced (f x b) (fold f xs (f x b))" using Cons.IH by (simp add: balanced_def)
  ultimately show ?case by (simp add: balanced_trans)
qed (simp add: balanced_refl)

lemma executeConditions_balanced: "being_ok b \<Longrightarrow> balanced b (executeConditions e n b)"
  unfolding executeConditions_def by (rule fold_balanced [OF execute_at_balanced])

lemma remove_which_balanced:
  assumes "being_ok b" "set cs \<subseteq> set (conditions b)" "distinct cs"
  shows "balanced b (remove_which e force w cs b)"
  using assms
proof (induction cs arbitrary: b)
  case (Cons c cs)
  have "balanced b (remove_which e force w cs b)" using Cons by simp
  moreover have "balanced b (schedule r b)" for r using Cons.prems by (simp add: schedule_balanced)
  moreover have "balanced b (remove_which e force w cs (finish e c b))"
  proof -
    have f: "balanced b (finish e c b)" "set (conditions (finish e c b)) = set (conditions b) - {c}"
      using finish_balanced [of b c e] Cons.prems by simp_all
    have "balanced (finish e c b) (remove_which e force w cs (finish e c b))"
      using f Cons.prems by (intro Cons.IH) (auto simp: balanced_def)
    then show ?thesis using f(1) by (rule balanced_trans [rotated])
  qed
  ultimately show ?case by simp
qed (simp add: balanced_refl)

lemma distinct_conditions: "being_ok b \<Longrightarrow> distinct (conditions b)"
  by (simp add: being_ok_def distinct_map)

lemma removeCondition_balanced: "being_ok b \<Longrightarrow> balanced b (removeCondition e force ty b)"
  by (simp add: removeCondition_def remove_which_balanced distinct_conditions)

lemma removeCondition_of_balanced: "being_ok b \<Longrightarrow> balanced b (removeCondition_of e force ty i b)"
  by (simp add: removeCondition_of_def remove_which_balanced distinct_conditions)

lemma removeCondition_at_balanced: "being_ok b \<Longrightarrow> balanced b (removeCondition_at e force k b)"
  by (auto simp: removeCondition_at_def balanced_refl schedule_balanced finish_balanced dest!: find_key split: option.splits)

lemma onAddCondition_balanced: "being_ok b \<Longrightarrow> balanced b (onAddCondition e ty b)"
  by (simp add: onAddCondition_def balanced_refl removeCondition_balanced)

lemma setTicks_balanced: "being_ok b \<Longrightarrow> c \<in> set (conditions b) \<Longrightarrow> balanced b (put_condition (setTicks e t c) b)"
  by (rule put_balanced) (auto simp: part_def intro!: keptI)

lemma removeCombatCondition_balanced: "being_ok b \<Longrightarrow> balanced b (removeCombatCondition e ty b)"
  unfolding removeCombatCondition_def
proof (rule fold_balanced)
  show "balanced b (onCombatRemoveCondition e k b)" if "being_ok b" for k b
    using that by (auto simp: onCombatRemoveCondition_def Let_def removeCondition_at_balanced balanced_refl setTicks_balanced
      dest!: find_key split: option.splits)
qed

lemma getCondition_None: "getCondition ty i sub b = None \<longleftrightarrow> (ty, i, sub) \<notin> key ` set (conditions b)"
  by (auto simp: getCondition_def find_None_iff key_def)

lemma getCondition_Some: "getCondition ty i sub b = Some c \<Longrightarrow> c \<in> set (conditions b) \<and> key c = (ty, i, sub)"
  by (auto simp: getCondition_def find_Some_iff key_def)

lemma renewed_balanced:
  assumes b: "being_ok b" and c: "condition_ok c" and d: "d \<in> set (conditions b)" "key d = key c"
    and r: "renew e c d b = Some (c', b')"
  shows "balanced b (put_condition c' b')"
proof -
  have a: "arrays_ok b" using b by (simp add: being_ok_def)
  have "kept d b c' b'" using renew_effect [OF r a _ c, of SpeedSlot] by simp
  then show ?thesis using renew_effect [OF r a _ c] by (intro put_balanced(1) [OF b d(1)]) blast+
qed

lemma started_balanced:
  assumes b: "being_ok b" and c: "condition_ok c" and new: "key c \<notin> key ` set (conditions b)"
    and st: "startCondition e c b = Some (ok, c', b')"
  shows "balanced b (if ok then onAddCondition e ty (b'\<lparr>conditions := conditions b' @ [c']\<rparr>) else b')"
proof -
  have a: "arrays_ok b" using b by (simp add: being_ok_def)
  have k: "kept c b c' b'" using startCondition_effect [OF st a slot_ok.simps(1) [THEN iffD2, OF TrueI]] by simp
  have v: "var s b' = var s b + (if ok then part (isPlayer b) s c' else 0)" if "slot_ok s" for s
    using startCondition_effect [OF st a that] by simp
  have k': "key c' = key c" "conditions b' = conditions b" "being_kind b' = being_kind b" "arrays_ok b' = arrays_ok b" "condition_ok c'"
    using k c by (simp_all add: kept_def)
  show ?thesis
  proof (cases ok)
    case True
    let ?b = "b'\<lparr>conditions := conditions b' @ [c']\<rparr>"
    have "own s ?b = own s b" if "slot_ok s" for s using v [OF that] True k' by (simp add: own_def del: var.simps)
    then have bb: "balanced b ?b" using b new k' by (auto simp: balanced_def being_ok_def)
    then have "balanced ?b (onAddCondition e ty ?b)" by (intro onAddCondition_balanced) (simp add: balanced_def)
    then show ?thesis using True balanced_trans [OF bb] by simp
  next
    case False
    have "own s b' = own s b" if "slot_ok s" for s using v [OF that] False k' by (simp add: own_def del: var.simps)
    then show ?thesis using False b k' by (auto simp: balanced_def being_ok_def)
  qed
qed

lemma addCondition_balanced:
  assumes b: "being_ok b" and c: "condition_ok c"
  shows "case addCondition e force c b of None \<Rightarrow> faulty e c | Some (ok, b') \<Rightarrow> balanced b b'"
proof (cases "\<not> force \<and> conditionType c = CONDITION_HASTE \<and> hasCondition e CONDITION_PARALYZE 0 b \<and> walkDelay e > 0")
  case True
  then show ?thesis using b by (simp add: addCondition_def schedule_balanced)
next
  case go: False
  show ?thesis
  proof (cases "getCondition (conditionType c) (conditionId c) (subId c) b")
    case (Some d)
    then have d: "d \<in> set (conditions b)" "key d = key c" using getCondition_Some by (auto simp: key_def)
    have "condition_ok d" using b d(1) by (auto simp: being_ok_def list_all_iff)
    then show ?thesis using Some renew_None [of e c d b, OF _ c _ type_of_key [OF d(2)]] renewed_balanced [OF b c d]
      unfolding addCondition_def if_not_P [OF go] by (auto split: option.split)
  next
    case None
    then have new: "key c \<notin> key ` set (conditions b)" by (simp add: getCondition_None key_def [of c])
    show ?thesis
    proof (cases "startCondition e c b")
      case (Some r)
      then obtain ok c' b' where st: "startCondition e c b = Some (ok, c', b')" by (cases r) auto
      then show ?thesis using None started_balanced [OF b c new st, of "conditionType c'"]
        unfolding addCondition_def if_not_P [OF go] by (cases ok) simp_all
    qed (use None startCondition_None in \<open>simp add: addCondition_def if_not_P [OF go]\<close>)
  qed
qed

text \<open>A light without a level is divided by when it is started.\<close>

lemma light_without_level_crashes:
  assumes "extra c = Light l" and "light_level (lightInfo l) = 0" and "conditionType c = CONDITION_LIGHT"
    and "getCondition CONDITION_LIGHT (conditionId c) (subId c) b = None"
  shows "addCondition e force c b = None"
  using assms by (simp add: addCondition_def startCondition_def light_start_def Let_def)

section \<open>The life of a creature\<close>

text \<open>What happens to the conditions of a creature, and changes of its variables that have other causes, as equipment.\<close>

datatype condition_event =
    Added env bool condition
  | Removed env bool ConditionType_t
  | RemovedOf env bool ConditionType_t u8
  | RemovedAt env bool key
  | Dispelled env ConditionType_t
  | Executed env u32
  | SpeedChanged u32
  | SkillChanged nat u32
  | SpecialSkillChanged nat u32
  | StatChanged env nat u32

fun happens :: "condition_event \<Rightarrow> being \<Rightarrow> being option" where
  "happens (Added e force c) b = map_option snd (addCondition e force c b)"
| "happens (Removed e force ty) b = Some (removeCondition e force ty b)"
| "happens (RemovedOf e force ty i) b = Some (removeCondition_of e force ty i b)"
| "happens (RemovedAt e force k) b = Some (removeCondition_at e force k b)"
| "happens (Dispelled e ty) b = Some (removeCombatCondition e ty b)"
| "happens (Executed e n) b = Some (executeConditions e n b)"
| "happens (SpeedChanged d) b = Some (changeSpeed d b)"
| "happens (SkillChanged i d) b = Some (setVarSkill i d b)"
| "happens (SpecialSkillChanged i d) b = Some (setVarSpecialSkill i d b)"
| "happens (StatChanged e i d) b = Some (setVarStats e i d b)"

fun happen_all :: "condition_event list \<Rightarrow> being \<Rightarrow> being option" where
  "happen_all [] b = Some b"
| "happen_all (ev # evs) b = Option.bind (happens ev b) (happen_all evs)"

fun outside :: "slot \<Rightarrow> condition_event \<Rightarrow> u32" where
  "outside s (SpeedChanged d) = (if s = SpeedSlot then d else 0)"
| "outside s (SkillChanged i d) = (if s = SkillSlot i then d else 0)"
| "outside s (SpecialSkillChanged i d) = (if s = SpecialSlot i then d else 0)"
| "outside s (StatChanged e i d) = (if s = StatSlot i then d else 0)"
| "outside s _ = 0"

fun event_ok :: "condition_event \<Rightarrow> bool" where
  "event_ok (Added e force c) = condition_ok c"
| "event_ok _ = True"

text \<open>What is added there would crash the server.\<close>

fun event_faulty :: "condition_event \<Rightarrow> bool" where
  "event_faulty (Added e force c) = faulty e c"
| "event_faulty _ = False"

lemma happens_ok:
  assumes b: "being_ok b" and ev: "event_ok ev"
  shows "case happens ev b of None \<Rightarrow> event_faulty ev
    | Some b' \<Rightarrow> being_ok b' \<and> being_kind b' = being_kind b \<and> (\<forall>s. slot_ok s \<longrightarrow> own s b' = own s b + outside s ev)"
proof (cases ev)
  case (Added e force c)
  then show ?thesis using addCondition_balanced [OF b, of c e force] ev
    by (auto simp: balanced_def simp del: var.simps split: option.splits)
next
  case (StatChanged e i d)
  have "arrays_ok b" using b by (simp add: being_ok_def)
  then show ?thesis using b StatChanged by (simp add: being_ok_def own_def del: var.simps)
next
  case (Removed e force ty)
  then show ?thesis using removeCondition_balanced [OF b] by (simp add: balanced_def)
next
  case (RemovedOf e force ty i)
  then show ?thesis using removeCondition_of_balanced [OF b] by (simp add: balanced_def)
next
  case (RemovedAt e force k)
  then show ?thesis using removeCondition_at_balanced [OF b] by (simp add: balanced_def)
next
  case (Dispelled e ty)
  then show ?thesis using removeCombatCondition_balanced [OF b] by (simp add: balanced_def)
next
  case (Executed e n)
  then show ?thesis using executeConditions_balanced [OF b] by (simp add: balanced_def)
qed (use b in \<open>auto simp: being_ok_def own_def simp del: var.simps\<close>)

lemma happen_all_ok:
  assumes "being_ok b" and "list_all event_ok evs"
  shows "case happen_all evs b of None \<Rightarrow> list_ex event_faulty evs
    | Some b' \<Rightarrow> being_ok b' \<and> being_kind b' = being_kind b \<and>
        (\<forall>s. slot_ok s \<longrightarrow> own s b' = own s b + sum_list (map (outside s) evs))"
  using assms
proof (induction evs arbitrary: b)
  case (Cons ev evs)
  note h = happens_ok [of b ev]
  show ?case
  proof (cases "happens ev b")
    case None
    then show ?thesis using h Cons.prems by simp
  next
    case (Some b1)
    then have b1: "being_ok b1" "being_kind b1 = being_kind b" "\<And>s. slot_ok s \<Longrightarrow> own s b1 = own s b + outside s ev"
      using h Cons.prems by simp_all
    then show ?thesis using Some Cons.IH [OF b1(1)] Cons.prems(2) by (auto simp: add.assoc split: option.splits)
  qed
qed simp

text \<open>C5: Whatever conditions of the classes that \<open>createCondition\<close> makes a creature is given, renewed, dispelled and left to run
  out, in whatever order: nothing is divided by zero, cast to a wrong class or overflows where rounds of damage are computed,
  unless one that is given is a light without a level or a damage whose rounds overflow; and as long as this is so, no two conditions have the same type, id and subid; and the speed, each skill,
  special skill and stat differ from what they were by the changes from outside and what the conditions active now say, no
  more.\<close>

theorem conditions_are_undone:
  assumes "being_ok b" and "list_all event_ok evs"
  shows "case happen_all evs b of
      None \<Rightarrow> list_ex event_faulty evs
    | Some b' \<Rightarrow> being_ok b' \<and>
        (\<forall>s. slot_ok s \<longrightarrow>
          var s b' - sum_list (map (part (isPlayer b) s) (conditions b')) =
          var s b - sum_list (map (part (isPlayer b) s) (conditions b)) + sum_list (map (outside s) evs))"
  using happen_all_ok [OF assms] by (auto simp: own_def simp del: var.simps split: option.splits)

section \<open>Renewals that lose something\<close>

lemma fold_defense:
  "canUseDefense (fold (guarded P setVarSkill x) is b) = canUseDefense b"
  "canUseDefense (fold (guarded P setVarSpecialSkill x) is b) = canUseDefense b"
  "canUseDefense (fold (guarded P (setVarStats e) x) is b) = canUseDefense b"
  by (induction "is" arbitrary: b;
      simp add: guarded_def setVarSkill_def setVarSpecialSkill_def setVarStats_def changeHealth_def changeMana_def Let_def)+

lemma apply_attributes_defense:
  "apply_attributes e a b = (a', b') \<Longrightarrow> canUseDefense b' = canUseDefense b \<and> disableDefense a' = disableDefense a"
  by (auto simp: apply_attributes_def Let_def updateSkills_guarded updateStats_guarded fold_defense updatePercentSkills_def
    updatePercentStats_def split: if_splits)

text \<open>C22: A condition that forbids a creature to defend itself and is renewed by another that forbids it too ends up active and
  forbidding, and yet the creature can defend itself.\<close>

theorem renewal_gives_defense_back:
  assumes "extra c = Attributes a" and "disableDefense a" and "extra new = Attributes an" and "disableDefense an"
    and "base_update e new c"
  shows "\<exists>c' a' b'. renew e new c b = Some (c', b') \<and> extra c' = Attributes a' \<and> disableDefense a' \<and> canUseDefense b'"
proof -
  let ?a = "a\<lparr>skills := skills an, specialSkills := specialSkills an, skillsPercent := skillsPercent an,
    stats := stats an, statsPercent := statsPercent an, disableDefense := disableDefense an\<rparr>"
  obtain a' b' where x: "apply_attributes e ?a (attributes_end e a b) = (a', b')" by fastforce
  have "canUseDefense (attributes_end e a b)" using assms(2) by (simp add: attributes_end_def)
  then have "canUseDefense b'" "disableDefense a'" using apply_attributes_defense [OF x] assms(4) by simp_all
  then show ?thesis using assms(1,3,5) x by (simp add: renew_defs Let_def)
qed

text \<open>A strong drink after a weak one leaves the strength of the weak one with the condition, so that a third one, stronger than
  the first and weaker than the second, makes the drunk less drunk.\<close>

lemma third_drink_sobers:
  assumes "extra c = Drunk n" and "extra second = Drunk m" and "extra third = Drunk k" and "n < k" and "k < m"
  shows "\<exists>c1 b1 c2 b2. renew e second c b = Some (c1, b1) \<and> drunkenness b1 = m \<and>
    renew e third c1 b1 = Some (c2, b2) \<and> drunkenness b2 = k \<and> drunkenness b2 < drunkenness b1"
  using assms less_trans [OF assms(4,5)] by (simp add: renew_defs)

section \<open>Damage in rounds\<close>

lemma fits_nonneg: "0 \<le> x \<Longrightarrow> x < 2 ^ 31 \<Longrightarrow> fits x"
  by (simp add: fits_def)

lemma deal_result:
  assumes "0 < i" "0 \<le> med" "0 \<le> s" "max s (med - 1) + i < 2 ^ 31"
  shows "\<exists>k. deal i med s = Some (replicate (Suc k) i, s + int (Suc k) * i) \<and> s + int (Suc k) * i \<le> max s (med - 1) + i"
  using assms
proof (induction i med s rule: deal.induct)
  case (1 i med s)
  have fits: "fits (s + i)" using 1(2-5) by (simp add: fits_def)
  show ?case
  proof (cases "nearer (s + i) i med")
    case True
    then have below: "s + i < med" using nearer_below [of i "s + i" med] 1 by simp
    obtain k where k: "deal i med (s + i) = Some (replicate (Suc k) i, s + i + int (Suc k) * i)" "s + i + int (Suc k) * i \<le> max (s + i) (med - 1) + i"
      using 1(1) [OF refl] 1(2-5) True below fits by auto
    have "s + int (Suc (Suc k)) * i = s + i + int (Suc k) * i" by (simp add: algebra_simps)
    then have "deal i med s = Some (replicate (Suc (Suc k)) i, s + int (Suc (Suc k)) * i)" and "s + int (Suc (Suc k)) * i \<le> max s (med - 1) + i"
      using k 1(2,3) True below fits by (simp_all add: deal.simps [of i med s])
    then show ?thesis by blast
  next
    case False
    then have "deal i med s = Some (replicate (Suc 0) i, s + int (Suc 0) * i)" using fits by (simp add: deal.simps [of i med s])
    then show ?thesis by (intro exI [of _ 0]) simp
  qed
qed

definition triangle :: "nat \<Rightarrow> int" where "triangle k = int (k * (k + 1) div 2)"

lemma triangle_Suc: "triangle (Suc k) = triangle k + int (Suc k)"
proof -
  have "Suc k * (Suc k + 1) = k * (k + 1) + Suc k * 2" by simp
  then have "Suc k * (Suc k + 1) div 2 = k * (k + 1) div 2 + Suc k" by (simp only: div_mult_self1 [of 2])
  then show ?thesis by (simp add: triangle_def)
qed

definition dealt_well :: "nat \<Rightarrow> int \<Rightarrow> int \<Rightarrow> int list \<Rightarrow> bool" where
  "dealt_well k amount s l \<longleftrightarrow> sorted_wrt (\<ge>) l \<and> set l = {1..int k} \<and> triangle k \<le> sum_list l \<and> s + sum_list l \<le> max s amount + triangle k"

lemma dealt_well_Suc:
  assumes "dealt_well k amount (s + int (Suc j) * int (Suc k)) l" and "s + int (Suc j) * int (Suc k) \<le> max s amount + int (Suc k)"
  shows "dealt_well (Suc k) amount s (replicate (Suc j) (int (Suc k)) @ l)"
proof -
  let ?i = "int (Suc k)"
  define x where "x = int (Suc j) * ?i"
  have ih: "sorted_wrt (\<ge>) l" "set l = {1..int k}" "triangle k \<le> sum_list l" "s + x + sum_list l \<le> max (s + x) amount + triangle k"
    using assms(1) by (simp_all only: dealt_well_def x_def)
  have r: "sum_list (replicate (Suc j) ?i) = x" by (simp add: x_def sum_list_replicate algebra_simps)
  have "?i \<le> x" by (simp add: x_def algebra_simps)
  moreover have "max (s + x) amount \<le> max s amount + ?i" using assms(2) unfolding x_def [symmetric] by simp
  ultimately have low: "triangle (Suc k) \<le> x + sum_list l" and high: "s + (x + sum_list l) \<le> max s amount + triangle (Suc k)"
    using ih(3,4) unfolding triangle_Suc by linarith+
  have "sorted_wrt (\<ge>) (replicate (Suc j) ?i)" by (induction j) auto
  then have sorted: "sorted_wrt (\<ge>) (replicate (Suc j) ?i @ l)" using ih(1,2) by (auto simp: sorted_wrt_append)
  have "{1..?i} = insert ?i {1..int k}" by auto
  then have "set (replicate (Suc j) ?i @ l) = {1..?i}" unfolding set_append set_replicate_Suc ih(2) by simp
  then show ?thesis unfolding dealt_well_def using sorted low high by (simp only: sum_list_append r simp_thms)
qed

lemma damages_from_shape:
  assumes "int k \<le> start" "0 \<le> amount" "0 \<le> s" "start * amount < 2 ^ 31" "start + 1 < 2 ^ 31" "max s amount + triangle k < 2 ^ 31"
  shows "\<exists>l. damages_from k start amount s = Some l \<and> dealt_well k amount s l"
  using assms
proof (induction k arbitrary: s)
  case 0
  then show ?case by (simp add: triangle_def dealt_well_def)
next
  case (Suc k)
  let ?i = "int (Suc k)"
  let ?n = "start + 1 - ?i"
  let ?med = "?n * amount div start"
  have start: "0 < start" "0 \<le> ?n" "?n \<le> start" using Suc.prems by simp_all
  then have n: "0 \<le> ?n * amount" "?n * amount \<le> start * amount" using Suc.prems(2) mult_right_mono [of ?n start amount] by simp_all
  then have med: "0 \<le> ?med" "?med \<le> amount"
    using start zdiv_mono1 [of "?n * amount" "start * amount" start] by (simp_all add: pos_imp_zdiv_nonneg_iff)
  have fits: "fits (start + 1)" "fits (?n * amount)" 
    by (rule fits_nonneg; use n start Suc.prems(4,5) in linarith)+
  have nonneg: "0 \<le> triangle k" by (simp add: triangle_def)
  have room: "max s (?med - 1) + ?i < 2 ^ 31"
    using Suc.prems(6) nonneg med(2) unfolding triangle_Suc by (auto simp: max_def split: if_splits)
  obtain j where j: "deal ?i ?med s = Some (replicate (Suc j) ?i, s + int (Suc j) * ?i)" "s + int (Suc j) * ?i \<le> max s (?med - 1) + ?i"
    using deal_result [OF _ med(1) Suc.prems(3) room] by auto
  define x where "x = int (Suc j) * ?i"
  have "0 \<le> x" by (simp add: x_def)
  have up: "s + x \<le> max s amount + ?i" using j(2) med(2) unfolding x_def by linarith
  then have "max (s + x) amount + triangle k < 2 ^ 31" using Suc.prems(6) unfolding triangle_Suc by simp
  then obtain l where l: "damages_from k start amount (s + x) = Some l" "dealt_well k amount (s + x) l"
    using Suc.IH [of "s + x"] Suc.prems \<open>0 \<le> x\<close> by auto
  have "damages_from (Suc k) start amount s = Some (replicate (Suc j) ?i @ l)"
    unfolding damages_from.simps Let_def j(1) using fits l(1) by (simp add: x_def del: of_nat_Suc replicate_Suc)
  then show ?case using dealt_well_Suc [of k amount s j l] l(2) up unfolding x_def by blast
qed

lemma generateDamageList_shape:
  assumes "0 < start" and "start * \<bar>amount\<bar> < 2 ^ 31" and "\<bar>amount\<bar> + start * (start + 1) div 2 < 2 ^ 31"
  shows "\<exists>l. generateDamageList amount start = Some l \<and> dealt_well (nat start) \<bar>amount\<bar> 0 l" and "triangle (nat start) = start * (start + 1) div 2"
proof -
  show t: "triangle (nat start) = start * (start + 1) div 2" using assms by (simp add: triangle_def zdiv_int algebra_simps)
  have "start \<le> start * (start + 1) div 2"
  proof (cases "start = 1")
    case False
    then have "start * 2 \<le> start * (start + 1)" using assms(1) by (intro mult_left_mono) simp_all
    then show ?thesis by simp
  qed simp
  then have a: "\<bar>amount\<bar> + start < 2 ^ 31" using assms(3) by linarith
  have "start + 1 < 2 ^ 31"
  proof (cases "amount = 0")
    case True
    then show ?thesis using assms(1,3) \<open>start \<le> _\<close> zdiv_mono1 [of "start * 3" "start * (start + 1)" 2] a
      by (cases "start \<le> 2") (auto simp: mult_left_mono)
  qed (use a in simp)
  then show "\<exists>l. generateDamageList amount start = Some l \<and> dealt_well (nat start) \<bar>amount\<bar> 0 l"
    using damages_from_shape [of "nat start" start "\<bar>amount\<bar>" 0] assms a t by (simp add: generateDamageList_def fits_def)
qed

text \<open>When the start times the amount does not fit, the last rounds overflow.\<close>

lemma large_damages_overflow:
  assumes "0 < start" and "2 ^ 31 \<le> start * \<bar>amount\<bar>" shows "generateDamageList amount start = None"
proof -
  have "damages_from (Suc k) start \<bar>amount\<bar> s = None" for k s
  proof (induction k arbitrary: s)
    case 0
    have "\<not> fits (start * \<bar>amount\<bar>)" using assms(2) by (simp add: fits_def)
    then show ?case by simp
  next
    case (Suc k)
    then show ?case by (subst damages_from.simps) (auto simp: Let_def simp del: damages_from.simps split: option.split)
  qed
  then show ?thesis using assms(1) by (cases "nat start") (simp_all add: generateDamageList_def)
qed

text \<open>C31: As long as the start times the amount and the largest sum fit in 32 bits, nothing overflows and the damages of a
  condition, from a start down, end after finitely many; each whole number from the start to 1 is dealt, in falling order; and
  their sum is at least the triangle number of the start, whatever the damage meant, and exceeds the damage meant by at most
  this.\<close>

theorem damages_fall_to_one:
  assumes "0 < start" and "start * \<bar>amount\<bar> < 2 ^ 31" and "\<bar>amount\<bar> + start * (start + 1) div 2 < 2 ^ 31"
  shows "\<exists>l. generateDamageList amount start = Some l \<and> sorted_wrt (\<ge>) l \<and> set l = {1..start} \<and>
    start * (start + 1) div 2 \<le> sum_list l \<and> sum_list l \<le> \<bar>amount\<bar> + start * (start + 1) div 2"
  using generateDamageList_shape [OF assms] assms(1) by (auto simp: dealt_well_def)

lemma damages_fall_to_one_witness: "\<exists>l. generateDamageList 10 10 = Some l \<and> 55 \<le> sum_list l \<and> sum_list l \<le> 65"
  using damages_fall_to_one [of 10 10] by auto

section \<open>An example\<close>

definition noOutfit :: Outfit_t where
  "noOutfit = \<lparr>lookType = 0, lookTypeEx = 0, lookHead = 0, lookBody = 0, lookLegs = 0, lookFeet = 0, lookAddons = 0, lookPadding = 0\<rparr>"

definition someone :: being where
  "someone = \<lparr>being_kind = APlayer, conditions = [], baseSpeed = 220, varSpeed = 0, canUseDefense = True, drunkenness = 0,
     internalLight = \<lparr>light_level = 0, light_color = 215\<rparr>, normalLight = \<lparr>light_level = 0, light_color = 215\<rparr>,
     currentOutfit = noOutfit, defaultOutfit = noOutfit, health = 150, healthMax = 150, mana = 0, manaMax = 0, soul = 0, magLevel = 0,
     baseSkills = replicate 7 10, varSkills = replicate 7 0, varSpecialSkills = replicate 6 0, varStats = replicate 4 0,
     hits = [], scheduled = []\<rparr>"

definition quiet :: env where
  "quiet = \<lparr>now = 1000, walkDelay = 0, inProtection = False, suppressions = 0, immunities = 0, attackable = True,
     isAPlayer = (\<lambda>_. False), blocked = (\<lambda>_. False), changed = (\<lambda>_. True), drawn = (\<lambda>l h. l), formulaValues = (\<lambda>v s. (0, 0)),
     fieldCombat = None, outfitAllowed = True, infiniteMana = False, soulMax = 100, nextAction = None\<rparr>"

definition haste :: condition where
  "haste = \<lparr>conditionType = CONDITION_HASTE, conditionId = 0, subId = 0, ticks = 500, endTime = 0, isBuff = False,
     aggressive = False, extra = Speed \<lparr>speedDelta = 80, mina = 0, minb = 0, maxa = 0, maxb = 0\<rparr>\<rparr>"

definition weak :: attributes where
  "weak = \<lparr>skills = replicate 7 (- 5), skillsPercent = replicate 7 0, specialSkills = replicate 6 0, stats = replicate 4 0,
     statsPercent = replicate 4 0, currentSkill = 0, currentSpecialSkill = 0, currentStat = 0, disableDefense = True\<rparr>"

definition sluggish :: condition where
  "sluggish = \<lparr>conditionType = CONDITION_ATTRIBUTES, conditionId = 0, subId = 0, ticks = 500, endTime = 0, isBuff = False,
     aggressive = False, extra = Attributes weak\<rparr>"

text \<open>The events of the example: none is faulty, and after the haste is over its speed is gone.\<close>

definition some_events :: "condition_event list" where
  "some_events = [Added quiet False haste, Added quiet False sluggish, SpeedChanged 7, Removed quiet False CONDITION_HASTE]"

lemma conditions_are_undone_witness:
  "\<exists>b. happen_all some_events someone = Some b \<and> varSpeed b - sum_list (map (part True SpeedSlot) (conditions b)) = 7"
proof -
  have ok: "being_ok someone" by (simp add: being_ok_def arrays_ok_def someone_def)
  have "list_all event_ok some_events" by (simp add: some_events_def condition_ok_def haste_def sluggish_def)
  note c = conditions_are_undone [OF ok this]
  have "\<not> list_ex event_faulty some_events" by (simp add: some_events_def faulty_def haste_def sluggish_def)
  then obtain b where b: "happen_all some_events someone = Some b" using c by (auto split: option.splits)
  have "var SpeedSlot b - sum_list (map (part (isPlayer someone) SpeedSlot) (conditions b)) =
      var SpeedSlot someone - sum_list (map (part (isPlayer someone) SpeedSlot) (conditions someone)) +
      sum_list (map (outside SpeedSlot) some_events)"
    using c by (simp add: b del: var.simps)
  then show ?thesis using b by (simp add: someone_def some_events_def)
qed

lemma renewal_gives_defense_back_witness:
  "\<exists>c' a' b'. renew quiet sluggish sluggish someone = Some (c', b') \<and> extra c' = Attributes a' \<and> disableDefense a' \<and> canUseDefense b'"
  by (rule renewal_gives_defense_back [where a = weak and an = weak]) (simp_all add: sluggish_def weak_def quiet_def base_update_def)

end
