(* ===== verification/Connection.thy ===== *)
theory Connection
  imports Protocol
begin

text \<open>
  A client connection, \<open>src/src/connection.cpp\<close>: its handlers as functions on the connection's state,
  and the step relation of all interleavings of sends, completed writes, timeouts, closes and
  received packets. The socket, the timers and the dispatcher are seen through their effects: the
  bytes given to the socket, whether it is open, and the posted tasks. The handlers run under the
  connection's lock, so each is one step.
\<close>

section \<open>State\<close>

datatype delivery = FirstMessage net_message | Packet "net_message option"

record connection =
  closed :: bool
  socket_open :: bool
  registered :: bool \<comment> \<open>member of the connection manager's set\<close>
  receivedFirst :: bool
  packetsSent :: u32
  timeConnected :: int
  messageQueue :: "out_message list"
  c_msg :: net_message
  protocol :: "protocol_flags option"
  written :: "(out_message \<times> u8 list) list" \<comment> \<open>messages given to the socket, with their bytes\<close>
  releases :: nat \<comment> \<open>posted calls of \<open>release\<close>\<close>
  delivered :: "delivery list"

section \<open>Closing\<close>

definition closeSocket :: "connection \<Rightarrow> connection" where
  "closeSocket c = (if socket_open c then c\<lparr>socket_open := False\<rparr> else c)"

definition close :: "bool \<Rightarrow> connection \<Rightarrow> connection" where
  "close force c =
     (let c1 = c\<lparr>registered := False\<rparr> in
      if closed c1 then c1
      else
        let c2 = c1\<lparr>closed := True\<rparr>;
            c3 = (if protocol c2 \<noteq> None then c2\<lparr>releases := releases c2 + 1\<rparr> else c2)
        in if messageQueue c3 = [] \<or> force then closeSocket c3 else c3)"

definition handleTimeout :: "bool \<Rightarrow> connection \<Rightarrow> connection" where
  "handleTimeout aborted c = (if aborted then c else close True c)"

section \<open>Sending\<close>

text \<open>
  The message at the head of the queue is turned into its wire form in place. No protocol, a failed
  assertion or an access outside the message's buffer is \<open>None\<close>.
\<close>

definition internalSend :: "out_message \<Rightarrow> connection \<Rightarrow> connection option" where
  "internalSend msg c =
     Option.bind (protocol c) (\<lambda>p.
       Option.bind (onSendMessage p msg) (\<lambda>msg'.
         map_option (\<lambda>bs. c\<lparr>messageQueue := msg' # tl (messageQueue c), written := written c @ [(msg, bs)]\<rparr>)
           (wire_bytes msg')))"

definition send :: "out_message \<Rightarrow> connection \<Rightarrow> connection option" where
  "send msg c =
     (if closed c then Some c
      else
        let noPendingWrite = (messageQueue c = []);
            c1 = c\<lparr>messageQueue := messageQueue c @ [msg]\<rparr>
        in if noPendingWrite then internalSend msg c1 else Some c1)"

definition onWriteOperation :: "bool \<Rightarrow> connection \<Rightarrow> connection option" where
  "onWriteOperation error c =
     (let c1 = c\<lparr>messageQueue := tl (messageQueue c)\<rparr> in
      if error then Some (close True (c1\<lparr>messageQueue := []\<rparr>))
      else if messageQueue c1 \<noteq> [] then internalSend (hd (messageQueue c1)) c1
      else if closed c1 then Some (closeSocket c1)
      else Some c1)"

section \<open>Receiving\<close>

text \<open>\<open>parseHeader\<close>: the connection, and the number of body bytes to read next, if any.\<close>

definition parseHeader :: "bool \<Rightarrow> int \<Rightarrow> u32 \<Rightarrow> connection \<Rightarrow> connection \<times> u16 option" where
  "parseHeader error now maxPackets c =
     (if error then (close True c, None)
      else if closed c then (c, None)
      else
        let timePassed = max (1 :: u32) (word_of_int (now - timeConnected c + 1));
            c1 = c\<lparr>packetsSent := packetsSent c + 1\<rparr>
        in if packetsSent c1 div timePassed > maxPackets then (close False c1, None)
           else
             let c2 = (if timePassed > 2 then c1\<lparr>timeConnected := now, packetsSent := 0\<rparr> else c1);
                 sz = getLengthHeader (c_msg c2)
             in if sz = 0 \<or> unat sz \<ge> NETWORKMESSAGE_MAXSIZE - 16 then (close True c2, None)
                else (c2\<lparr>c_msg := (c_msg c2)\<lparr>info_length := sz + of_nat HEADER_LENGTH, info_position := 2\<rparr>\<rparr>, Some sz))"

text \<open>
  \<open>parsePacket\<close>, after the body has been read into the message's buffer. \<open>make_protocol\<close> is the
  choice of the service port: the protocol of the first message, told whether the checksum matched.
\<close>

definition parsePacket ::
  "bool \<Rightarrow> (bool \<Rightarrow> net_message \<Rightarrow> protocol_flags option) \<Rightarrow> connection \<Rightarrow> connection option" where
  "parsePacket error make_protocol c =
     (if error then Some (close True c)
      else if closed c then Some c
      else Option.bind (check_checksum (c_msg c)) (\<lambda>(matched, msg).
        let c1 = c\<lparr>c_msg := msg\<rparr> in
        if \<not> receivedFirst c1 then
          let c2 = c1\<lparr>receivedFirst := True\<rparr> in
          (case protocol c2 of
             None \<Rightarrow>
               (case make_protocol matched msg of
                  None \<Rightarrow> Some (close True c2)
                | Some p \<Rightarrow> Some (c2\<lparr>protocol := Some p, delivered := delivered c2 @ [FirstMessage msg]\<rparr>))
           | Some p \<Rightarrow>
               let msg' = skipBytes 1 msg in
               Some (c2\<lparr>c_msg := msg', delivered := delivered c2 @ [FirstMessage msg']\<rparr>))
        else
          Option.bind (protocol c1) (\<lambda>p.
            map_option (\<lambda>(r, msg'). c1\<lparr>c_msg := msg', delivered := delivered c1 @ [Packet r]\<rparr>)
              (onRecvMessage p msg))))"

section \<open>All interleavings\<close>

definition new_connection :: "int \<Rightarrow> connection" where
  "new_connection now = \<lparr>closed = False, socket_open = True, registered = True, receivedFirst = False,
     packetsSent = 0, timeConnected = now, messageQueue = [], c_msg = fresh_message, protocol = None,
     written = [], releases = 0, delivered = []\<rparr>"

text \<open>
  A step, with the messages accepted for sending so far. The flag tells whether failed writes are
  possible. A completed write is only reported for a write in flight. A protocol may change its
  own flags and key at any time.
\<close>

inductive conn_step :: "bool \<Rightarrow> connection \<times> out_message list \<Rightarrow> connection \<times> out_message list \<Rightarrow> bool"
  for failing :: bool where
  step_send: "send msg c = Some c' \<Longrightarrow> conn_step failing (c, acc) (c', if closed c then acc else acc @ [msg])"
| step_written: "messageQueue c \<noteq> [] \<Longrightarrow> (err \<Longrightarrow> failing) \<Longrightarrow> onWriteOperation err c = Some c' \<Longrightarrow>
    conn_step failing (c, acc) (c', acc)"
| step_close: "conn_step failing (c, acc) (close force c, acc)"
| step_timeout: "conn_step failing (c, acc) (handleTimeout aborted c, acc)"
| step_header: "conn_step failing (c, acc) (fst (parseHeader err now mx c), acc)"
| step_body: "memwrite (msg_buffer (c_msg c)) 2 bs = Some buf \<Longrightarrow>
    conn_step failing (c, acc) (c\<lparr>c_msg := (c_msg c)\<lparr>msg_buffer := buf\<rparr>\<rparr>, acc)"
| step_packet: "parsePacket err mk c = Some c' \<Longrightarrow> conn_step failing (c, acc) (c', acc)"
| step_configure: "protocol c \<noteq> None \<Longrightarrow> conn_step failing (c, acc) (c\<lparr>protocol := Some p\<rparr>, acc)"

inductive conn_reachable :: "bool \<Rightarrow> connection \<times> out_message list \<Rightarrow> bool" for failing :: bool where
  conn_start: "conn_reachable failing (new_connection now, [])"
| conn_next: "conn_reachable failing s \<Longrightarrow> conn_step failing s s' \<Longrightarrow> conn_reachable failing s'"

section \<open>Invariants\<close>

text \<open>
  The queue holds the accepted messages that are not finished. Its head is being written, in its
  wire form; the others have their original form. Messages are only lost once the connection is
  closed.
\<close>

definition queue_inv :: "connection \<times> out_message list \<Rightarrow> bool" where
  "queue_inv s = (case s of (c, acc) \<Rightarrow>
     (\<exists>pend. acc = map fst (written c) @ pend \<and>
        (if messageQueue c = [] then pend \<noteq> [] \<longrightarrow> closed c
         else tl (messageQueue c) = pend)) \<and>
     (messageQueue c \<noteq> [] \<longrightarrow> written c \<noteq> []))"

definition release_inv :: "connection \<Rightarrow> bool" where
  "release_inv c \<longleftrightarrow> releases c \<le> (if closed c then 1 else 0)"

definition socket_inv :: "connection \<Rightarrow> bool" where
  "socket_inv c \<longleftrightarrow> (closed c \<and> messageQueue c = [] \<longrightarrow> \<not> socket_open c) \<and> (\<not> closed c \<longrightarrow> socket_open c)"

lemma closeSocket_fields [simp]:
  "closed (closeSocket c) = closed c" "messageQueue (closeSocket c) = messageQueue c"
  "written (closeSocket c) = written c" "releases (closeSocket c) = releases c"
  "protocol (closeSocket c) = protocol c" "socket_open (closeSocket c) = False"
  by (simp_all add: closeSocket_def)

lemma close_fields [simp]:
  "closed (close f c) = True" "messageQueue (close f c) = messageQueue c"
  "written (close f c) = written c" "protocol (close f c) = protocol c"
  by (simp_all add: close_def Let_def)

lemma release_close [inv_intros]: "release_inv c \<Longrightarrow> release_inv (close f c)"
  by (cases "closed c") (auto simp: release_inv_def close_def Let_def)

lemma socket_close [inv_intros]: "socket_inv c \<Longrightarrow> socket_inv (close f c)"
  by (auto simp: socket_inv_def close_def Let_def)

lemma queue_close [inv_intros]: "queue_inv (c, acc) \<Longrightarrow> queue_inv (close f c, acc)"
  by (auto simp: queue_inv_def)

lemma internalSend_Some:
  "internalSend msg c = Some c' \<Longrightarrow>
     \<exists>msg' bs. c' = c\<lparr>messageQueue := msg' # tl (messageQueue c), written := written c @ [(msg, bs)]\<rparr>"
  by (auto simp: internalSend_def bind_eq_Some_conv)

lemma queue_send [inv_intros]:
  "queue_inv (c, acc) \<Longrightarrow> send msg c = Some c' \<Longrightarrow> queue_inv (c', if closed c then acc else acc @ [msg])"
  by (auto simp: send_def Let_def queue_inv_def dest!: internalSend_Some split: if_split_asm)

lemma queue_written [inv_intros]:
  "queue_inv (c, acc) \<Longrightarrow> messageQueue c \<noteq> [] \<Longrightarrow> onWriteOperation err c = Some c' \<Longrightarrow> queue_inv (c', acc)"
  by (cases "messageQueue c")
    (auto simp: onWriteOperation_def Let_def queue_inv_def neq_Nil_conv dest!: internalSend_Some split: if_split_asm)

text \<open>The receiving handlers leave the sending side alone, except that they may close.\<close>

definition same_sender :: "connection \<Rightarrow> connection \<Rightarrow> bool" where
  "same_sender c c' \<longleftrightarrow> closed c' = closed c \<and> messageQueue c' = messageQueue c \<and> written c' = written c \<and>
     releases c' = releases c \<and> socket_open c' = socket_open c"

definition same_or_closed :: "connection \<Rightarrow> connection \<Rightarrow> bool" where
  "same_or_closed c c' \<longleftrightarrow> (\<exists>d. same_sender c d \<and> (c' = d \<or> (\<exists>f. c' = close f d)))"

lemma same_or_closedI:
  "same_sender c d \<Longrightarrow> same_or_closed c d" "same_sender c d \<Longrightarrow> same_or_closed c (close f d)"
  by (auto simp: same_or_closed_def)

lemma same_or_closed_cases:
  assumes "same_or_closed c c'"
  obtains "same_sender c c'" | d f where "same_sender c d" "c' = close f d"
  using assms by (auto simp: same_or_closed_def)

lemma parseHeader_sender: "same_or_closed c (fst (parseHeader err now mx c))"
  by (simp add: parseHeader_def Let_def same_or_closedI same_sender_def)

lemma parsePacket_sender: "parsePacket err mk c = Some c' \<Longrightarrow> same_or_closed c c'"
  by (auto simp: parsePacket_def Let_def bind_eq_Some_conv same_sender_def intro: same_or_closedI
      split: if_split_asm option.splits)

lemma handleTimeout_sender: "same_or_closed c (handleTimeout aborted c)"
  by (simp add: handleTimeout_def same_or_closedI same_sender_def)

lemma inv_same_sender:
  "same_sender c c' \<Longrightarrow> queue_inv (c, acc) \<Longrightarrow> queue_inv (c', acc)"
  "same_sender c c' \<Longrightarrow> release_inv c \<Longrightarrow> release_inv c'"
  "same_sender c c' \<Longrightarrow> socket_inv c \<Longrightarrow> socket_inv c'"
  by (auto simp: same_sender_def queue_inv_def release_inv_def socket_inv_def)

lemma inv_same_or_closed:
  assumes "same_or_closed c c'"
  shows "queue_inv (c, acc) \<Longrightarrow> queue_inv (c', acc)" "release_inv c \<Longrightarrow> release_inv c'" "socket_inv c \<Longrightarrow> socket_inv c'"
  using same_or_closed_cases [OF assms] inv_same_sender queue_close release_close socket_close by metis+

lemma release_send: "release_inv c \<Longrightarrow> send msg c = Some c' \<Longrightarrow> release_inv c'"
  by (auto simp: send_def Let_def release_inv_def dest!: internalSend_Some split: if_split_asm)

lemma release_written: "release_inv c \<Longrightarrow> onWriteOperation err c = Some c' \<Longrightarrow> release_inv c'"
  using release_close [of "c\<lparr>messageQueue := []\<rparr>" True]
  by (auto simp: onWriteOperation_def Let_def release_inv_def dest!: internalSend_Some split: if_split_asm)

lemma socket_send: "socket_inv c \<Longrightarrow> send msg c = Some c' \<Longrightarrow> socket_inv c'"
  by (auto simp: send_def Let_def socket_inv_def dest!: internalSend_Some split: if_split_asm)

lemma socket_written: "socket_inv c \<Longrightarrow> onWriteOperation False c = Some c' \<Longrightarrow> socket_inv c'"
  by (auto simp: onWriteOperation_def Let_def socket_inv_def dest!: internalSend_Some split: if_split_asm)

lemma conn_step_inv:
  assumes "conn_step failing s s'"
  shows "queue_inv s \<Longrightarrow> queue_inv s'" "release_inv (fst s) \<Longrightarrow> release_inv (fst s')"
    "\<not> failing \<Longrightarrow> socket_inv (fst s) \<Longrightarrow> socket_inv (fst s')"
  using assms
proof (induction rule: conn_step.induct)
  case (step_send msg c c' acc)
  { case 1 then show ?case using step_send queue_send by blast
  next case 2 then show ?case using step_send release_send by simp
  next case 3 then show ?case using step_send socket_send by simp }
next
  case (step_written c err c' acc)
  { case 1 then show ?case using step_written queue_written by blast
  next case 2 then show ?case using step_written release_written by simp
  next case 3 then show ?case using step_written socket_written [of c c'] by (cases err) auto }
next
  case (step_header c acc err now mx)
  { case 1 then show ?case using inv_same_or_closed(1) [OF parseHeader_sender] by simp
  next case 2 then show ?case using inv_same_or_closed(2) [OF parseHeader_sender] by simp
  next case 3 then show ?case using inv_same_or_closed(3) [OF parseHeader_sender] by simp }
next
  case (step_timeout c acc aborted)
  { case 1 then show ?case using inv_same_or_closed(1) [OF handleTimeout_sender] by simp
  next case 2 then show ?case using inv_same_or_closed(2) [OF handleTimeout_sender] by simp
  next case 3 then show ?case using inv_same_or_closed(3) [OF handleTimeout_sender] by simp }
next
  case (step_packet err mk c c' acc)
  { case 1 then show ?case using inv_same_or_closed(1) [OF parsePacket_sender [OF step_packet]] by simp
  next case 2 then show ?case using inv_same_or_closed(2) [OF parsePacket_sender [OF step_packet]] by simp
  next case 3 then show ?case using inv_same_or_closed(3) [OF parsePacket_sender [OF step_packet]] by simp }
next
  case (step_close c acc force)
  { case 1 then show ?case by (rule queue_close)
  next case 2 then show ?case by (simp add: release_close)
  next case 3 then show ?case by (simp add: socket_close) }
qed (auto simp: queue_inv_def release_inv_def socket_inv_def)

lemma conn_reachable_inv:
  assumes "conn_reachable failing s"
  shows "queue_inv s \<and> release_inv (fst s) \<and> (\<not> failing \<longrightarrow> socket_inv (fst s))"
  using assms
proof induction
  case (conn_start now)
  then show ?case by (simp add: new_connection_def queue_inv_def release_inv_def socket_inv_def)
next
  case (conn_next s s')
  then show ?case using conn_step_inv [of failing s s'] by blast
qed

section \<open>Properties\<close>

text \<open>C15: whatever the interleaving of sends, completed and failed writes, closes, timeouts and received
  packets, the messages given to the socket are a prefix, in order and each once, of the messages
  accepted for sending; on an open connection exactly the messages behind the one in flight are
  still queued; and the protocol is released at most once, only after the connection closed.\<close>

theorem connection_writes_in_order:
  assumes "conn_reachable failing (c, acc)"
  shows "(\<exists>pend. acc = map fst (written c) @ pend \<and> (\<not> closed c \<longrightarrow> pend = tl (messageQueue c))) \<and>
    releases c \<le> (if closed c then 1 else 0)"
proof -
  have i: "queue_inv (c, acc)" "release_inv c" using conn_reachable_inv [OF assms] by simp_all
  from i(1) obtain pend where p: "acc = map fst (written c) @ pend"
    "if messageQueue c = [] then pend \<noteq> [] \<longrightarrow> closed c else tl (messageQueue c) = pend"
    by (auto simp: queue_inv_def)
  then have "\<not> closed c \<longrightarrow> pend = tl (messageQueue c)" by (cases "messageQueue c") auto
  with p(1) i(2) show ?thesis by (auto simp: release_inv_def)
qed

text \<open>A protocol in the clear, and a connection that is sending the greeting with it.\<close>

definition plain_flags :: protocol_flags where
  "plain_flags = \<lparr>encryptionEnabled = False, checksumEnabled = True, rawMessages = True, protocol_key = []\<rparr>"

definition accepted_conn :: connection where
  "accepted_conn = (new_connection 0)\<lparr>c_msg := fresh_message\<lparr>info_overrun := True\<rparr>, receivedFirst := True,
     protocol := Some plain_flags, delivered := [FirstMessage (fresh_message\<lparr>info_overrun := True\<rparr>)]\<rparr>"

definition sending_conn :: connection where
  "sending_conn = accepted_conn\<lparr>messageQueue := [greeting], written := [(greeting, [10, 20, 30])]\<rparr>"

lemma accepted_conn: "parsePacket False (\<lambda>_ _. Some plain_flags) (new_connection 0) = Some accepted_conn"
  by (simp add: parsePacket_def new_connection_def check_checksum_def fresh_message_def size_defs get32_def
      get_raw_def canRead_def accepted_conn_def)

lemma sending_conn: "send greeting accepted_conn = Some sending_conn"
  by (simp add: send_def accepted_conn_def sending_conn_def new_connection_def internalSend_def plain_flags_def
      onSendMessage_def wire_bytes_def memread_def greeting_def getOutputMessage_def size_defs)

lemma sending_reachable: "conn_reachable failing (sending_conn, [greeting])"
proof -
  have "conn_reachable failing (accepted_conn, [])"
    by (rule conn_next [OF conn_start step_packet [OF accepted_conn]])
  from conn_next [OF this step_send [OF sending_conn]] show ?thesis
    by (simp add: accepted_conn_def new_connection_def)
qed

lemma connection_writes_in_order_witness:
  "\<exists>pend. [greeting] = map fst (written sending_conn) @ pend \<and> pend = []"
  using connection_writes_in_order [OF sending_reachable [of False]]
  by (auto simp: sending_conn_def accepted_conn_def new_connection_def)

text \<open>As long as no write fails, a connection that is closed and has nothing left to write has closed
  its socket: a graceful close waits for the queue and not longer.\<close>

theorem closed_idle_connection_closes_socket:
  assumes "conn_reachable False (c, acc)" and "closed c" and "messageQueue c = []"
  shows "\<not> socket_open c"
  using conn_reachable_inv [OF assms(1)] assms(2,3) by (simp add: socket_inv_def)

lemma closed_idle_connection_closes_socket_witness: "\<not> socket_open (close True (new_connection 0))"
  by (rule closed_idle_connection_closes_socket [OF conn_next [OF conn_start step_close]])
    (simp_all add: new_connection_def)

text \<open>When a write fails, or the peer hangs, after a graceful close, the socket stays open: the failed
  write empties the queue, and because the connection already counts as closed neither it nor any
  later timeout or forced close closes the socket.\<close>

theorem failed_write_after_close_leaks_socket:
  "\<exists>c. conn_reachable True (c, [greeting]) \<and> closed c \<and> messageQueue c = [] \<and> socket_open c \<and>
     socket_open (handleTimeout False c) \<and> socket_open (close True c)"
proof -
  let ?c = "close False sending_conn"
  obtain d where d: "onWriteOperation True ?c = Some d" "closed d" "messageQueue d = []" "socket_open d"
    "socket_open (handleTimeout False d)" "socket_open (close True d)"
    by (simp add: onWriteOperation_def sending_conn_def accepted_conn_def new_connection_def close_def
        handleTimeout_def Let_def)
  have "messageQueue ?c \<noteq> []" by (simp add: sending_conn_def)
  then have "conn_reachable True (d, [greeting])"
    using conn_next [OF conn_next [OF sending_reachable step_close] step_written [OF _ _ d(1)]] by simp
  with d show ?thesis by blast
qed

end
