(* ===== verification/Otb.thy ===== *)
theory Otb
  imports Prelude
begin

text \<open>
  The binary tree format of item and map files, \<open>src/src/fileloader.cpp\<close> and \<open>fileloader.h\<close>: the
  loader's node scanner, the unescaping of node properties, and the property streams. A file is
  its list of bytes and an iterator is an index into it. The theorem at the end relates the
  scanner to a reference encoder of trees.
\<close>

section \<open>Nodes and the scanner\<close>

abbreviation (input) ESCAPE :: u8 where "ESCAPE \<equiv> 0xFD"
abbreviation (input) START :: u8 where "START \<equiv> 0xFE"
abbreviation (input) END :: u8 where "END \<equiv> 0xFF"

datatype otb_node =
  Node (node_children: "otb_node list") (propsBegin: nat) (propsEnd: nat) (node_type: u8)

datatype load_error = InvalidOTBFormat

text \<open>
  An open node of the parse stack. Its end of properties is set by the first child or by the END
  byte. The code appends a child to its parent when the child opens and fills it in place through
  a pointer; here it is appended when it closes.
\<close>

record frame =
  f_type :: u8
  f_begin :: nat
  f_end :: "nat option"
  f_children :: "otb_node list"

datatype scan_state = Open frame "frame list" | Closed otb_node

definition new_frame :: "u8 \<Rightarrow> nat \<Rightarrow> frame" where
  "new_frame ty p = \<lparr>f_type = ty, f_begin = p, f_end = None, f_children = []\<rparr>"

definition mark_end :: "nat \<Rightarrow> frame \<Rightarrow> frame" where
  "mark_end p f = (if f_children f = [] then f\<lparr>f_end := Some p\<rparr> else f)"

definition close_frame :: "frame \<Rightarrow> otb_node" where
  "close_frame f = Node (f_children f) (f_begin f) (case f_end f of Some e \<Rightarrow> e | None \<Rightarrow> 0) (f_type f)"

fun pop_frame :: "frame \<Rightarrow> frame list \<Rightarrow> scan_state" where
  "pop_frame f [] = Closed (close_frame f)"
| "pop_frame f (par # ps) = Open (par\<lparr>f_children := f_children par @ [close_frame f]\<rparr>) ps"

text \<open>The loop of \<open>parseTree\<close> from position \<open>p\<close>; the list holds the bytes from there on.\<close>

fun parse_loop :: "nat \<Rightarrow> u8 list \<Rightarrow> scan_state \<Rightarrow> load_error + otb_node" where
  "parse_loop p [] (Open _ _) = Inl InvalidOTBFormat"
| "parse_loop p [] (Closed root) = Inr root"
| "parse_loop p (b # bs) st =
     (if b = START then
        (case st of
           Closed _ \<Rightarrow> Inl InvalidOTBFormat
         | Open cur ps \<Rightarrow>
             (case bs of
                [] \<Rightarrow> Inl InvalidOTBFormat
              | ty # bs' \<Rightarrow> parse_loop (p + 2) bs' (Open (new_frame ty (p + 2)) (mark_end p cur # ps))))
      else if b = END then
        (case st of
           Closed _ \<Rightarrow> Inl InvalidOTBFormat
         | Open cur ps \<Rightarrow> parse_loop (p + 1) bs (pop_frame (mark_end p cur) ps))
      else if b = ESCAPE then
        (case bs of [] \<Rightarrow> Inl InvalidOTBFormat | _ # bs' \<Rightarrow> parse_loop (p + 2) bs' st)
      else parse_loop (p + 1) bs st)"

text \<open>The constructor's checks, and the scan of the file.\<close>

definition wildcard :: "u8 list" where
  "wildcard = [0, 0, 0, 0]"

definition load_file :: "u8 list \<Rightarrow> u8 list \<Rightarrow> load_error + unit" where
  "load_file acceptedIdentifier contents =
     (if length contents \<le> 4 + 1 + 1 + 1 then Inl InvalidOTBFormat
      else if take 4 contents \<noteq> acceptedIdentifier \<and> take 4 contents \<noteq> wildcard then Inl InvalidOTBFormat
      else Inr ())"

definition parseTree :: "u8 list \<Rightarrow> load_error + otb_node" where
  "parseTree contents =
     (case drop 4 contents of
        b # ty # rest \<Rightarrow>
          if b \<noteq> START then Inl InvalidOTBFormat
          else parse_loop 6 rest (Open (new_frame ty 6) [])
      | _ \<Rightarrow> Inl InvalidOTBFormat)"

definition load_tree :: "u8 list \<Rightarrow> u8 list \<Rightarrow> load_error + otb_node" where
  "load_tree acceptedIdentifier contents =
     (case load_file acceptedIdentifier contents of
        Inl e \<Rightarrow> Inl e | Inr _ \<Rightarrow> parseTree contents)"

section \<open>Properties of a node\<close>

fun unescape :: "bool \<Rightarrow> u8 list \<Rightarrow> u8 list" where
  "unescape lastEscaped [] = []"
| "unescape lastEscaped (byte # bs) =
     (let lastEscaped' = (byte = ESCAPE \<and> \<not> lastEscaped)
      in (if \<not> lastEscaped' then [byte] else []) @ unescape lastEscaped' bs)"

text \<open>\<open>getProps\<close>: \<open>None\<close> is the result \<open>false\<close>, which leaves the stream alone.\<close>

definition getProps :: "u8 list \<Rightarrow> otb_node \<Rightarrow> u8 list option" where
  "getProps contents node =
     (if propsEnd node - propsBegin node = 0 then None
      else Some (unescape False (drop (propsBegin node) (take (propsEnd node) contents))))"

section \<open>Property streams\<close>

text \<open>The state of a \<open>PropStream\<close> is the bytes between its two pointers.\<close>

fun read8 :: "u8 list \<Rightarrow> (u8 \<times> u8 list) option" where
  "read8 (a # bs) = Some (a, bs)"
| "read8 _ = None"

fun read16 :: "u8 list \<Rightarrow> (u16 \<times> u8 list) option" where
  "read16 (a # b # bs) = Some (word16 a b, bs)"
| "read16 _ = None"

fun read32 :: "u8 list \<Rightarrow> (u32 \<times> u8 list) option" where
  "read32 (a # b # c # d # bs) = Some (word32 a b c d, bs)"
| "read32 _ = None"

text \<open>\<open>readString\<close> returns the string, its success, and the stream, which is behind the length field
  also when the string itself is cut short.\<close>

definition readString :: "u8 list \<Rightarrow> (u8 list \<times> bool) \<times> u8 list" where
  "readString s =
     (case read16 s of
        None \<Rightarrow> (([], False), s)
      | Some (strLen, s1) \<Rightarrow>
          if length s1 < unat strLen then (([], False), s1)
          else ((take (unat strLen) s1, True), drop (unat strLen) s1))"

definition skip :: "nat \<Rightarrow> u8 list \<Rightarrow> bool \<times> u8 list" where
  "skip n s = (if length s < n then (False, s) else (True, drop n s))"

definition write8 :: "u8 \<Rightarrow> u8 list \<Rightarrow> u8 list" where
  "write8 v buffer = buffer @ [v]"

definition write16 :: "u16 \<Rightarrow> u8 list \<Rightarrow> u8 list" where
  "write16 v buffer = buffer @ bytes16 v"

definition write32 :: "u32 \<Rightarrow> u8 list \<Rightarrow> u8 list" where
  "write32 v buffer = buffer @ bytes32 v"

definition writeString :: "u8 list \<Rightarrow> u8 list \<Rightarrow> u8 list" where
  "writeString str buffer =
     (if length str > 65535 then write16 0 buffer
      else write16 (of_nat (length str)) buffer @ str)"

section \<open>A reference encoder\<close>

datatype otb_tree = Tree u8 "u8 list" "otb_tree list"

definition escape :: "u8 list \<Rightarrow> u8 list" where
  "escape bs = concat (map (\<lambda>b. if b \<in> {ESCAPE, START, END} then [ESCAPE, b] else [b]) bs)"

fun encode :: "otb_tree \<Rightarrow> u8 list" where
  "encode (Tree ty props kids) = START # ty # escape props @ concat (map encode kids) @ [END]"

text \<open>The tree a scanned node stands for.\<close>

fun view :: "u8 list \<Rightarrow> otb_node \<Rightarrow> otb_tree" where
  "view contents (Node kids b e ty) =
     Tree ty (case getProps contents (Node kids b e ty) of None \<Rightarrow> [] | Some ps \<Rightarrow> ps)
       (map (view contents) kids)"

lemma escape_simps [simp]:
  "escape [] = []"
  "escape (b # bs) = (if b \<in> {ESCAPE, START, END} then [ESCAPE, b] else [b]) @ escape bs"
  by (simp_all add: escape_def)

lemma escape_eq_Nil [simp]: "escape bs = [] \<longleftrightarrow> bs = []"
  by (cases bs) simp_all

lemma unescape_escape [simp]: "unescape False (escape bs) = bs"
  by (induction bs) (simp_all add: Let_def)

text \<open>The node that the scanner makes of a tree encoded at position \<open>p\<close>.\<close>

fun node_at :: "nat \<Rightarrow> otb_tree \<Rightarrow> otb_node"
and nodes_at :: "nat \<Rightarrow> otb_tree list \<Rightarrow> otb_node list" where
  "node_at p (Tree ty props kids) =
     Node (nodes_at (p + 2 + length (escape props)) kids) (p + 2) (p + 2 + length (escape props)) ty"
| "nodes_at p [] = []"
| "nodes_at p (k # ks) = node_at p k # nodes_at (p + length (encode k)) ks"

lemma length_encode: "3 \<le> length (encode t)"
  by (cases t) simp

lemma parse_loop_escape:
  "parse_loop p (escape bs @ rest) st = parse_loop (p + length (escape bs)) rest st"
  by (induction bs arbitrary: p) (simp_all add: add.commute add.left_commute)

definition add_child :: "nat \<Rightarrow> otb_node list \<Rightarrow> frame \<Rightarrow> frame" where
  "add_child p ns f = (if ns = [] then f else (mark_end p f)\<lparr>f_children := f_children f @ ns\<rparr>)"

lemma add_child_Nil [simp]: "add_child p [] f = f"
  by (simp add: add_child_def)

lemma nodes_at_eq_Nil [simp]: "nodes_at p ks = [] \<longleftrightarrow> ks = []"
  by (cases ks) simp_all

lemma add_child_Cons: "add_child q ns (add_child p [n] f) = add_child p (n # ns) f"
  by (simp add: add_child_def mark_end_def)

lemma close_after_children:
  "close_frame (mark_end (q + length (concat (map encode kids))) (add_child q (nodes_at q kids) (new_frame ty b))) =
     Node (nodes_at q kids) b q ty"
  by (cases kids) (simp_all add: close_frame_def mark_end_def add_child_def new_frame_def)

lemma parse_loop_encode:
  "parse_loop p (encode t @ rest) (Open cur ps) =
     parse_loop (p + length (encode t)) rest (Open (add_child p [node_at p t] cur) ps)"
  "parse_loop p (concat (map encode ts) @ rest) (Open cur ps) =
     parse_loop (p + length (concat (map encode ts))) rest (Open (add_child p (nodes_at p ts) cur) ps)"
proof (induction p t and p ts arbitrary: cur ps rest and cur ps rest rule: node_at_nodes_at.induct)
  case (1 p ty props kids)
  let ?q = "p + 2 + length (escape props)"
  have "parse_loop p (encode (Tree ty props kids) @ rest) (Open cur ps) =
      parse_loop ?q (concat (map encode kids) @ END # rest) (Open (new_frame ty (p + 2)) (mark_end p cur # ps))"
    by (simp add: parse_loop_escape)
  also have "\<dots> = parse_loop (?q + length (concat (map encode kids))) (END # rest)
      (Open (add_child ?q (nodes_at ?q kids) (new_frame ty (p + 2))) (mark_end p cur # ps))"
    by (rule 1)
  also have "\<dots> = parse_loop (p + length (encode (Tree ty props kids))) rest
      (Open (add_child p [node_at p (Tree ty props kids)] cur) ps)"
    using close_after_children [of ?q kids ty "p + 2"]
    by (simp add: add_child_def mark_end_def add.assoc)
  finally show ?case .
next
  case (3 p k ks)
  show ?case by (simp add: 3 add_child_Cons add.assoc)
qed simp


lemma view_encode:
  "contents = pre @ encode t @ post \<Longrightarrow> p = length pre \<Longrightarrow> view contents (node_at p t) = t"
  "contents = pre @ concat (map encode ts) @ post \<Longrightarrow> p = length pre \<Longrightarrow> map (view contents) (nodes_at p ts) = ts"
proof (induction p t and p ts arbitrary: pre post and pre post rule: node_at_nodes_at.induct)
  case (1 p ty props kids)
  let ?pre = "pre @ [START, ty] @ escape props"
  have c: "contents = ?pre @ concat (map encode kids) @ END # post" using 1 by simp
  have "map (view contents) (nodes_at (p + 2 + length (escape props)) kids) = kids"
    by (rule "1.IH" [OF c]) (simp add: 1)
  moreover have "drop (p + 2) (take (p + 2 + length (escape props)) contents) = escape props"
    by (simp add: c 1)
  ultimately show ?case by (simp add: getProps_def)
next
  case (3 p k ks)
  show ?case
    using "3.IH"(1) [of pre "concat (map encode ks) @ post"] "3.IH"(2) [of "pre @ encode k" post] 3
    by simp
qed simp

section \<open>Scanned nodes stay inside the file\<close>

inductive in_bounds :: "nat \<Rightarrow> otb_node \<Rightarrow> bool" where
  "b \<le> e \<Longrightarrow> e \<le> n \<Longrightarrow> (\<forall>k \<in> set kids. in_bounds n k) \<Longrightarrow> in_bounds n (Node kids b e ty)"

inductive_simps in_bounds_Node: "in_bounds n (Node kids b e ty)"

text \<open>An open frame at position \<open>p\<close>; all frames but the top one have met their first child.\<close>

definition frame_ok :: "nat \<Rightarrow> nat \<Rightarrow> frame \<Rightarrow> bool" where
  "frame_ok n p f \<longleftrightarrow> f_begin f \<le> p \<and> (\<forall>k \<in> set (f_children f). in_bounds n k) \<and>
     (case f_end f of None \<Rightarrow> f_children f = [] | Some e \<Rightarrow> f_begin f \<le> e \<and> e \<le> n)"

fun scan_ok :: "nat \<Rightarrow> nat \<Rightarrow> scan_state \<Rightarrow> bool" where
  "scan_ok n p (Closed root) = in_bounds n root"
| "scan_ok n p (Open cur ps) = ((\<forall>f \<in> set (cur # ps). frame_ok n p f) \<and> (\<forall>f \<in> set ps. f_end f \<noteq> None))"

lemma frame_ok_mono: "frame_ok n p f \<Longrightarrow> p \<le> q \<Longrightarrow> frame_ok n q f"
  by (auto simp: frame_ok_def)

lemma frame_ok_mark_end: "frame_ok n p f \<Longrightarrow> p \<le> n \<Longrightarrow> frame_ok n p (mark_end p f) \<and> f_end (mark_end p f) \<noteq> None"
  by (auto simp: frame_ok_def mark_end_def split: option.splits)

lemma close_frame_ok: "frame_ok n p f \<Longrightarrow> f_end f \<noteq> None \<Longrightarrow> in_bounds n (close_frame f)"
  by (auto simp: frame_ok_def close_frame_def in_bounds_Node)

lemma scan_ok_mono: "scan_ok n p st \<Longrightarrow> p \<le> q \<Longrightarrow> scan_ok n q st"
  by (cases st) (auto intro: frame_ok_mono)

lemma pop_frame_ok:
  assumes "scan_ok n p (Open cur ps)" and "p \<le> n"
  shows "scan_ok n p (pop_frame (mark_end p cur) ps)"
proof -
  have c: "in_bounds n (close_frame (mark_end p cur))"
    using assms frame_ok_mark_end close_frame_ok by fastforce
  then show ?thesis
    using assms(1) by (cases ps) (auto simp: frame_ok_def split: option.splits)
qed

lemma new_frame_ok: "q \<le> n \<Longrightarrow> frame_ok n q (new_frame ty q)"
  by (simp add: frame_ok_def new_frame_def)

lemma push_frame_ok:
  assumes "scan_ok n p (Open cur ps)" and "p + 2 \<le> n"
  shows "scan_ok n (p + 2) (Open (new_frame ty (p + 2)) (mark_end p cur # ps))"
  using assms frame_ok_mark_end [of n p cur] new_frame_ok [of "p + 2" n ty]
  by (auto intro: frame_ok_mono)

lemma parse_loop_in_bounds:
  "parse_loop p bs st = Inr root \<Longrightarrow> scan_ok n p st \<Longrightarrow> p + length bs = n \<Longrightarrow> in_bounds n root"
proof (induction p bs st rule: parse_loop.induct)
  case (3 p b bs st)
  consider "b = START" | "b = END" | "b = ESCAPE" | "b \<notin> {START, END, ESCAPE}" by blast
  then show ?case
  proof cases
    case 1
    then obtain cur ps ty bs' where s: "st = Open cur ps" "bs = ty # bs'"
      using "3.prems"(1) by (auto split: scan_state.splits list.splits)
    show ?thesis
      by (rule "3.IH"(1) [OF 1 s]) (use 1 s "3.prems" push_frame_ok [of n p cur ps ty] in auto)
  next
    case 2
    then obtain cur ps where s: "st = Open cur ps"
      using "3.prems"(1) by (auto split: scan_state.splits)
    show ?thesis
      by (rule "3.IH"(2) [OF _ 2 s])
        (use 2 s "3.prems" pop_frame_ok [of n p cur ps] scan_ok_mono [of n p _ "p + 1"] in auto)
  next
    case 3
    then obtain x bs' where s: "bs = x # bs'" using "3.prems"(1) by (auto split: list.splits)
    show ?thesis
      by (rule "3.IH"(3) [OF _ _ 3 s])
        (use 3 s "3.prems" scan_ok_mono [of n p _ "p + 2"] in auto)
  next
    case 4
    show ?thesis
      by (rule "3.IH"(4)) (use 4 "3.prems" scan_ok_mono [of n p _ "p + 1"] in auto)
  qed
qed simp_all

section \<open>Properties\<close>

text \<open>C26: a file with an accepted identifier that holds an encoded tree is loaded, and every node's
  type, unescaped properties and children are those of the tree, whatever bytes the properties
  contain. The only tree refused is the smallest one, a root alone without properties.\<close>

theorem load_tree_encode:
  assumes "length ident = 4" and "ident = acceptedIdentifier \<or> ident = wildcard"
  shows "(case load_tree acceptedIdentifier (ident @ encode t) of
      Inr root \<Rightarrow> view (ident @ encode t) root = t
    | Inl e \<Rightarrow> \<exists>ty. t = Tree ty [] [])"
proof (cases t)
  case (Tree ty props kids)
  let ?c = "ident @ encode t"
  let ?q = "6 + length (escape props)"
  have d: "drop 4 ?c = START # ty # escape props @ concat (map encode kids) @ [END]"
    using assms(1) by (simp add: Tree)
  have "parseTree ?c = parse_loop ?q (concat (map encode kids) @ [END]) (Open (new_frame ty 6) [])"
    unfolding parseTree_def d by (simp add: parse_loop_escape)
  also have "\<dots> = parse_loop (?q + length (concat (map encode kids))) [END] (Open (add_child ?q (nodes_at ?q kids) (new_frame ty 6)) [])"
    by (rule parse_loop_encode)
  also have "\<dots> = Inr (node_at 4 t)"
    using close_after_children [of ?q kids ty 6] by (simp add: Tree)
  finally have p: "parseTree ?c = Inr (node_at 4 t)" .
  have "view ?c (node_at 4 t) = t" by (rule view_encode(1) [of _ ident t "[]"]) (use assms in simp_all)
  moreover have "take 4 ?c = ident" using assms(1) by simp
  moreover have "length ?c \<le> 7 \<Longrightarrow> \<exists>ty. t = Tree ty [] []"
    using assms(1) length_encode [of "hd kids"] by (cases kids; cases props) (simp_all add: Tree split: if_split_asm)
  moreover have "load_tree acceptedIdentifier ?c = (if length ?c \<le> 7 then Inl InvalidOTBFormat else Inr (node_at 4 t))"
    unfolding load_tree_def load_file_def \<open>take 4 ?c = ident\<close> p using assms(2) by auto
  ultimately show ?thesis using Tree by (cases "length ?c \<le> 7") (simp_all only: if_True if_False sum.case simp_thms)
qed

lemma load_tree_encode_witness:
  "case load_tree [79, 84, 66, 73] ([0, 0, 0, 0] @ encode (Tree 0 [254, 1] [Tree 255 [253] []])) of
      Inr root \<Rightarrow> view ([0, 0, 0, 0] @ encode (Tree 0 [254, 1] [Tree 255 [253] []])) root = Tree 0 [254, 1] [Tree 255 [253] []]
    | Inl e \<Rightarrow> False"
  using load_tree_encode [of "[0, 0, 0, 0]" "[79, 84, 66, 73]" "Tree 0 [254, 1] [Tree 255 [253] []]"]
  by (simp add: wildcard_def split: sum.splits)

text \<open>C40: whatever the bytes of a file are, if it is accepted then the properties of every node of the
  tree begin and end, in this order, inside the file.\<close>

theorem accepted_file_in_bounds:
  assumes "load_tree acceptedIdentifier contents = Inr root"
  shows "in_bounds (length contents) root"
proof -
  obtain ty rest where d: "drop 4 contents = START # ty # rest"
    and p: "parse_loop 6 rest (Open (new_frame ty 6) []) = Inr root"
    using assms by (auto simp: load_tree_def parseTree_def split: sum.splits list.splits if_splits)
  have l: "6 + length rest = length contents"
    using arg_cong [OF d, of length] by simp
  show ?thesis
    by (rule parse_loop_in_bounds [OF p _ l]) (use l new_frame_ok [of 6 "length contents" ty] in simp)
qed

lemma accepted_file_in_bounds_witness:
  "in_bounds (length [1, 2, 3, 4, 254, 1, 9, 255 :: u8]) (Node [] 6 7 1)"
  by (rule accepted_file_in_bounds [of "[1, 2, 3, 4]"])
    (simp add: load_tree_def load_file_def parseTree_def new_frame_def mark_end_def close_frame_def)

section \<open>Streams read back what was written\<close>

datatype field = F8 u8 | F16 u16 | F32 u32 | FStr "u8 list"

fun write_field :: "field \<Rightarrow> u8 list \<Rightarrow> u8 list" where
  "write_field (F8 v) = write8 v"
| "write_field (F16 v) = write16 v"
| "write_field (F32 v) = write32 v"
| "write_field (FStr s) = writeString s"

text \<open>Reading with the types of the given fields.\<close>

fun read_field :: "field \<Rightarrow> u8 list \<Rightarrow> (field \<times> u8 list) option" where
  "read_field (F8 _) s = map_option (\<lambda>(v, s'). (F8 v, s')) (read8 s)"
| "read_field (F16 _) s = map_option (\<lambda>(v, s'). (F16 v, s')) (read16 s)"
| "read_field (F32 _) s = map_option (\<lambda>(v, s'). (F32 v, s')) (read32 s)"
| "read_field (FStr _) s =
     (case readString s of ((str, ok), s') \<Rightarrow> if ok then Some (FStr str, s') else None)"

fun read_fields :: "field list \<Rightarrow> u8 list \<Rightarrow> (field list \<times> u8 list) option" where
  "read_fields [] s = Some ([], s)"
| "read_fields (f # fs) s =
     (case read_field f s of
        None \<Rightarrow> None
      | Some (v, s') \<Rightarrow> map_option (\<lambda>(vs, s''). (v # vs, s'')) (read_fields fs s'))"

text \<open>A string longer than its length field can hold is written as the empty string.\<close>

fun stored_field :: "field \<Rightarrow> field" where
  "stored_field (FStr s) = FStr (if length s > 65535 then [] else s)"
| "stored_field f = f"

lemma write_field_append: "write_field f buffer = buffer @ write_field f []"
  by (cases f) (simp_all add: write8_def write16_def write32_def writeString_def)

lemma read_write_field: "read_field f (write_field f [] @ rest) = Some (stored_field f, rest)"
proof (cases f)
  case (FStr s)
  show ?thesis
  proof (cases "length s > 65535")
    case False
    then have "unat (word_of_nat (length s) :: u16) = length s" by (simp add: unat_of_nat)
    then show ?thesis using False FStr
      by (simp add: writeString_def write16_def readString_def bytes16_def word16_bytes)
  qed (simp add: FStr writeString_def write16_def readString_def bytes16_def word16_def)
qed (simp_all add: write8_def write16_def write32_def bytes16_def bytes32_def word16_bytes word32_bytes)

text \<open>A property stream read with the types it was written with gives back the values, in order and
  up to the end; a string over 65535 bytes comes back empty.\<close>

theorem propstream_roundtrip:
  "read_fields fs (fold write_field fs []) = Some (map stored_field fs, [])"
proof -
  have w: "fold write_field fs buffer = buffer @ fold write_field fs []" for fs buffer
  proof (induction fs arbitrary: buffer)
    case (Cons f fs)
    show ?case
      using Cons [of "write_field f buffer"] Cons [of "write_field f []"] write_field_append [of f buffer]
      by simp
  qed simp
  have "read_fields fs (fold write_field fs [] @ rest) = Some (map stored_field fs, rest)" for rest
  proof (induction fs)
    case (Cons f fs)
    then show ?case using w [of fs "write_field f []"] by (simp add: read_write_field)
  qed simp
  from this [of "[]"] show ?thesis by simp
qed

end
