(* ===== verification/ItemAttr.thy ===== *)
theory ItemAttr
  imports Prelude Otb "HOL-Library.Monad_Syntax"
begin

text \<open>
  The attributes of items, class \<open>ItemAttributes\<close> of \<open>src/src/item.h\<close> and \<open>item.cpp\<close>, and the streams items
  are saved to and loaded from: \<open>Item::serializeAttr\<close>, \<open>readAttr\<close> and \<open>unserializeAttr\<close>. The union of
  an attribute is a value of \<open>attr_value\<close>, whose \<open>Zero\<close> is the zeroed union; 64-bit integers are
  words whose signed reading is meant. A null string or map that is dereferenced is None. The
  properties of the item's type come from the file of items and are an argument.
\<close>

section \<open>Attribute types\<close>

datatype itemAttrTypes =
    ITEM_ATTRIBUTE_NONE | ITEM_ATTRIBUTE_ACTIONID | ITEM_ATTRIBUTE_UNIQUEID | ITEM_ATTRIBUTE_DESCRIPTION
  | ITEM_ATTRIBUTE_TEXT | ITEM_ATTRIBUTE_DATE | ITEM_ATTRIBUTE_WRITER | ITEM_ATTRIBUTE_NAME
  | ITEM_ATTRIBUTE_ARTICLE | ITEM_ATTRIBUTE_PLURALNAME | ITEM_ATTRIBUTE_WEIGHT | ITEM_ATTRIBUTE_ATTACK
  | ITEM_ATTRIBUTE_DEFENSE | ITEM_ATTRIBUTE_EXTRADEFENSE | ITEM_ATTRIBUTE_ARMOR | ITEM_ATTRIBUTE_HITCHANCE
  | ITEM_ATTRIBUTE_SHOOTRANGE | ITEM_ATTRIBUTE_OWNER | ITEM_ATTRIBUTE_DURATION | ITEM_ATTRIBUTE_DECAYSTATE
  | ITEM_ATTRIBUTE_CORPSEOWNER | ITEM_ATTRIBUTE_CHARGES | ITEM_ATTRIBUTE_FLUIDTYPE | ITEM_ATTRIBUTE_DOORID
  | ITEM_ATTRIBUTE_DECAYTO | ITEM_ATTRIBUTE_WRAPID | ITEM_ATTRIBUTE_STOREITEM | ITEM_ATTRIBUTE_ATTACK_SPEED
  | ITEM_ATTRIBUTE_DURATION_MAX | ITEM_ATTRIBUTE_CUSTOM

text \<open>The shift of the flag of each type.\<close>

fun attr_shift :: "itemAttrTypes \<Rightarrow> nat" where
  "attr_shift ITEM_ATTRIBUTE_NONE = 32"
| "attr_shift ITEM_ATTRIBUTE_ACTIONID = 0"
| "attr_shift ITEM_ATTRIBUTE_UNIQUEID = 1"
| "attr_shift ITEM_ATTRIBUTE_DESCRIPTION = 2"
| "attr_shift ITEM_ATTRIBUTE_TEXT = 3"
| "attr_shift ITEM_ATTRIBUTE_DATE = 4"
| "attr_shift ITEM_ATTRIBUTE_WRITER = 5"
| "attr_shift ITEM_ATTRIBUTE_NAME = 6"
| "attr_shift ITEM_ATTRIBUTE_ARTICLE = 7"
| "attr_shift ITEM_ATTRIBUTE_PLURALNAME = 8"
| "attr_shift ITEM_ATTRIBUTE_WEIGHT = 9"
| "attr_shift ITEM_ATTRIBUTE_ATTACK = 10"
| "attr_shift ITEM_ATTRIBUTE_DEFENSE = 11"
| "attr_shift ITEM_ATTRIBUTE_EXTRADEFENSE = 12"
| "attr_shift ITEM_ATTRIBUTE_ARMOR = 13"
| "attr_shift ITEM_ATTRIBUTE_HITCHANCE = 14"
| "attr_shift ITEM_ATTRIBUTE_SHOOTRANGE = 15"
| "attr_shift ITEM_ATTRIBUTE_OWNER = 16"
| "attr_shift ITEM_ATTRIBUTE_DURATION = 17"
| "attr_shift ITEM_ATTRIBUTE_DECAYSTATE = 18"
| "attr_shift ITEM_ATTRIBUTE_CORPSEOWNER = 19"
| "attr_shift ITEM_ATTRIBUTE_CHARGES = 20"
| "attr_shift ITEM_ATTRIBUTE_FLUIDTYPE = 21"
| "attr_shift ITEM_ATTRIBUTE_DOORID = 22"
| "attr_shift ITEM_ATTRIBUTE_DECAYTO = 23"
| "attr_shift ITEM_ATTRIBUTE_WRAPID = 24"
| "attr_shift ITEM_ATTRIBUTE_STOREITEM = 25"
| "attr_shift ITEM_ATTRIBUTE_ATTACK_SPEED = 26"
| "attr_shift ITEM_ATTRIBUTE_DURATION_MAX = 27"
| "attr_shift ITEM_ATTRIBUTE_CUSTOM = 31"

text \<open>The value of the enumeration; that of \<open>ITEM_ATTRIBUTE_NONE\<close> is zero. \<open>ITEM_ATTRIBUTE_DURATION_MIN\<close>
  is another name of \<open>ITEM_ATTRIBUTE_DURATION\<close>.\<close>

definition attr_flag :: "itemAttrTypes \<Rightarrow> u32" where
  "attr_flag type = (if type = ITEM_ATTRIBUTE_NONE then 0 else push_bit (attr_shift type) 1)"

abbreviation ITEM_ATTRIBUTE_DURATION_MIN :: itemAttrTypes where
  "ITEM_ATTRIBUTE_DURATION_MIN \<equiv> ITEM_ATTRIBUTE_DURATION"

definition intAttributeTypes :: u32 where
  "intAttributeTypes =
     attr_flag ITEM_ATTRIBUTE_ACTIONID OR attr_flag ITEM_ATTRIBUTE_UNIQUEID OR attr_flag ITEM_ATTRIBUTE_DATE OR attr_flag ITEM_ATTRIBUTE_WEIGHT OR
     attr_flag ITEM_ATTRIBUTE_ATTACK OR attr_flag ITEM_ATTRIBUTE_DEFENSE OR attr_flag ITEM_ATTRIBUTE_EXTRADEFENSE OR attr_flag ITEM_ATTRIBUTE_ARMOR OR
     attr_flag ITEM_ATTRIBUTE_HITCHANCE OR attr_flag ITEM_ATTRIBUTE_SHOOTRANGE OR attr_flag ITEM_ATTRIBUTE_OWNER OR attr_flag ITEM_ATTRIBUTE_DURATION OR
     attr_flag ITEM_ATTRIBUTE_DECAYSTATE OR attr_flag ITEM_ATTRIBUTE_CORPSEOWNER OR attr_flag ITEM_ATTRIBUTE_CHARGES OR attr_flag ITEM_ATTRIBUTE_FLUIDTYPE OR
     attr_flag ITEM_ATTRIBUTE_DOORID OR attr_flag ITEM_ATTRIBUTE_DECAYTO OR attr_flag ITEM_ATTRIBUTE_ATTACK_SPEED"

definition stringAttributeTypes :: u32 where
  "stringAttributeTypes =
     attr_flag ITEM_ATTRIBUTE_DESCRIPTION OR attr_flag ITEM_ATTRIBUTE_TEXT OR attr_flag ITEM_ATTRIBUTE_WRITER OR attr_flag ITEM_ATTRIBUTE_NAME OR
     attr_flag ITEM_ATTRIBUTE_ARTICLE OR attr_flag ITEM_ATTRIBUTE_PLURALNAME"

definition isIntAttrType :: "itemAttrTypes \<Rightarrow> bool" where
  "isIntAttrType type \<longleftrightarrow> attr_flag type AND intAttributeTypes = attr_flag type"

definition isStrAttrType :: "itemAttrTypes \<Rightarrow> bool" where
  "isStrAttrType type \<longleftrightarrow> attr_flag type AND stringAttributeTypes = attr_flag type"

definition isCustomAttrType :: "itemAttrTypes \<Rightarrow> bool" where
  "isCustomAttrType type \<longleftrightarrow> attr_flag type AND attr_flag ITEM_ATTRIBUTE_CUSTOM = attr_flag type"

section \<open>The list of attributes and its bits\<close>

text \<open>A custom attribute: the alternatives of the variant in their order. Doubles are bit patterns.\<close>

datatype custom_value = VBlank | VString "u8 list" | VInt u64 | VDouble u64 | VBool bool

type_synonym custom_map = "(u8 list \<times> custom_value) list"

datatype attr_value = Zero | Integer u64 | Str "u8 list" | Custom custom_map

record attribute =
  attr_type :: itemAttrTypes
  attr_val :: attr_value

record item_attributes =
  attr_list :: "attribute list"
  attributeBits :: u32

definition new_attributes :: item_attributes where
  "new_attributes = \<lparr>attr_list = [], attributeBits = 0\<rparr>"

definition hasAttribute :: "itemAttrTypes \<Rightarrow> item_attributes \<Rightarrow> bool" where
  "hasAttribute type at \<longleftrightarrow> attr_flag type AND attributeBits at \<noteq> 0"

definition index_of_type :: "itemAttrTypes \<Rightarrow> item_attributes \<Rightarrow> nat option" where
  "index_of_type type at = (if hasAttribute type at then find_index type (map attr_type (attr_list at)) else None)"

definition getExistingAttr :: "itemAttrTypes \<Rightarrow> item_attributes \<Rightarrow> attribute option" where
  "getExistingAttr type at = map_option (nth (attr_list at)) (index_of_type type at)"

text \<open>\<open>getAttr\<close> returns a reference: the index of the attribute, which is appended when it is missing.\<close>

definition getAttr :: "itemAttrTypes \<Rightarrow> item_attributes \<Rightarrow> nat \<times> item_attributes" where
  "getAttr type at =
     (case index_of_type type at of
        Some i \<Rightarrow> (i, at)
      | None \<Rightarrow> (length (attr_list at),
          at\<lparr>attr_list := attr_list at @ [\<lparr>attr_type = type, attr_val = Zero\<rparr>],
             attributeBits := attributeBits at OR attr_flag type\<rparr>))"

definition set_value :: "nat \<Rightarrow> attr_value \<Rightarrow> item_attributes \<Rightarrow> item_attributes" where
  "set_value i v at = at\<lparr>attr_list := (attr_list at)[i := (attr_list at ! i)\<lparr>attr_val := v\<rparr>]\<rparr>"

fun integer_of :: "attr_value \<Rightarrow> u64" where
  "integer_of (Integer n) = n"
| "integer_of _ = 0"

definition getIntAttr :: "itemAttrTypes \<Rightarrow> item_attributes \<Rightarrow> u64" where
  "getIntAttr type at =
     (if \<not> isIntAttrType type then 0
      else case getExistingAttr type at of None \<Rightarrow> 0 | Some attr \<Rightarrow> integer_of (attr_val attr))"

definition setIntAttr :: "itemAttrTypes \<Rightarrow> u64 \<Rightarrow> item_attributes \<Rightarrow> item_attributes" where
  "setIntAttr type value at =
     (if \<not> isIntAttrType type then at
      else let value = if type = ITEM_ATTRIBUTE_ATTACK_SPEED \<and> sint value < 100 then 100 else value;
               (i, at') = getAttr type at
           in set_value i (Integer value) at')"

definition increaseIntAttr :: "itemAttrTypes \<Rightarrow> u64 \<Rightarrow> item_attributes \<Rightarrow> item_attributes" where
  "increaseIntAttr type value at = setIntAttr type (getIntAttr type at + value) at"

fun string_of :: "attr_value \<Rightarrow> u8 list option" where
  "string_of (Str s) = Some s"
| "string_of _ = None"

definition getStrAttr :: "itemAttrTypes \<Rightarrow> item_attributes \<Rightarrow> u8 list option" where
  "getStrAttr type at =
     (if \<not> isStrAttrType type then Some []
      else case getExistingAttr type at of None \<Rightarrow> Some [] | Some attr \<Rightarrow> string_of (attr_val attr))"

definition setStrAttr :: "itemAttrTypes \<Rightarrow> u8 list \<Rightarrow> item_attributes \<Rightarrow> item_attributes" where
  "setStrAttr type value at =
     (if \<not> isStrAttrType type then at
      else if value = [] then at
      else let (i, at') = getAttr type at in set_value i (Str value) at')"

text \<open>The list is searched from the back; the attribute found is overwritten with the last one, which
  is dropped. The back of an empty list is not dereferenced.\<close>

definition remove_from :: "itemAttrTypes \<Rightarrow> attribute list \<Rightarrow> attribute list" where
  "remove_from type xs =
     (if attr_type (last xs) = type then butlast xs
      else case find_index type (tl (rev (map attr_type xs))) of
          None \<Rightarrow> xs
        | Some k \<Rightarrow> butlast (xs[length xs - 2 - k := last xs]))"

definition removeAttribute :: "itemAttrTypes \<Rightarrow> item_attributes \<Rightarrow> item_attributes option" where
  "removeAttribute type at =
     (if \<not> hasAttribute type at then Some at
      else if attr_list at = [] then None
      else Some (at\<lparr>attr_list := remove_from type (attr_list at),
                    attributeBits := attributeBits at AND NOT (attr_flag type)\<rparr>))"

section \<open>Custom attributes\<close>

fun custom_of :: "attr_value \<Rightarrow> custom_map option" where
  "custom_of (Custom m) = Some m"
| "custom_of _ = None"

text \<open>The map of custom attributes: outside when there is none, inside when it is null.\<close>

definition getCustomAttributeMap :: "item_attributes \<Rightarrow> (nat \<times> custom_map) option option" where
  "getCustomAttributeMap at =
     (if \<not> hasAttribute ITEM_ATTRIBUTE_CUSTOM at then Some None
      else case getExistingAttr ITEM_ATTRIBUTE_CUSTOM at of
          None \<Rightarrow> None
        | Some attr \<Rightarrow> map_option (\<lambda>m. Some (fst (getAttr ITEM_ATTRIBUTE_CUSTOM at), m)) (custom_of (attr_val attr)))"

definition lower8 :: "u8 \<Rightarrow> u8" where
  "lower8 c = (if 65 \<le> c \<and> c \<le> 90 then c + 32 else c)"

definition getCustomAttribute :: "u8 list \<Rightarrow> item_attributes \<Rightarrow> custom_value option option" where
  "getCustomAttribute key at =
     map_option (\<lambda>m. case m of None \<Rightarrow> None | Some (_, m) \<Rightarrow> map_of m (map lower8 key)) (getCustomAttributeMap at)"

definition removeCustomAttribute :: "u8 list \<Rightarrow> item_attributes \<Rightarrow> (bool \<times> item_attributes) option" where
  "removeCustomAttribute key at =
     map_option (\<lambda>m. case m of
         None \<Rightarrow> (False, at)
       | Some (i, m) \<Rightarrow>
           if map_of m (map lower8 key) \<noteq> None
           then (True, set_value i (Custom (filter (\<lambda>e. fst e \<noteq> map lower8 key) m)) at)
           else (False, at))
       (getCustomAttributeMap at)"

definition emplace_custom :: "u8 list \<Rightarrow> custom_value \<Rightarrow> custom_map \<Rightarrow> custom_map" where
  "emplace_custom key v m = (if map_of m key \<noteq> None then m else m @ [(key, v)])"

definition setCustomAttribute :: "u8 list \<Rightarrow> custom_value \<Rightarrow> item_attributes \<Rightarrow> item_attributes option" where
  "setCustomAttribute key v at =
     do {
       at1 \<leftarrow> (if hasAttribute ITEM_ATTRIBUTE_CUSTOM at then map_option snd (removeCustomAttribute key at)
              else let (i, at') = getAttr ITEM_ATTRIBUTE_CUSTOM at in Some (set_value i (Custom []) at'));
       let (i, at2) = getAttr ITEM_ATTRIBUTE_CUSTOM at1;
       m \<leftarrow> custom_of (attr_val (attr_list at2 ! i));
       Some (set_value i (Custom (emplace_custom (map lower8 key) v m)) at2)
     }"

section \<open>Flags\<close>

lemma attr_shift_inj: "attr_shift t = attr_shift t' \<longleftrightarrow> t = t'"
  by (cases t; cases t'; simp)

lemma attr_shift_less: "t \<noteq> ITEM_ATTRIBUTE_NONE \<Longrightarrow> attr_shift t < 32"
  by (cases t) simp_all

lemma bit_attr_flag: "bit (attr_flag t) n \<longleftrightarrow> t \<noteq> ITEM_ATTRIBUTE_NONE \<and> n = attr_shift t"
  using attr_shift_less [of t] by (auto simp: attr_flag_def bit_simps)

lemma hasAttribute_bit: "hasAttribute t at \<longleftrightarrow> t \<noteq> ITEM_ATTRIBUTE_NONE \<and> bit (attributeBits at) (attr_shift t)"
proof -
  have "hasAttribute t at \<longleftrightarrow> (\<exists>n. bit (attr_flag t AND attributeBits at) n)"
    unfolding hasAttribute_def by (metis bit_eq_iff bit_0_eq bot_apply bot_bool_def)
  then show ?thesis by (auto simp: bit_simps bit_attr_flag)
qed

lemma subset_flags: "attr_flag t AND m = attr_flag t \<longleftrightarrow> t = ITEM_ATTRIBUTE_NONE \<or> bit m (attr_shift t)"
proof (cases "t = ITEM_ATTRIBUTE_NONE")
  case False
  have "attr_flag t AND m = attr_flag t \<Longrightarrow> bit m (attr_shift t)"
    using False by (metis bit_and_iff bit_attr_flag)
  then show ?thesis using False by (auto simp: bit_and_iff bit_attr_flag intro: bit_eqI)
qed (simp add: attr_flag_def)

definition int_types :: "itemAttrTypes list" where
  "int_types = [ITEM_ATTRIBUTE_ACTIONID, ITEM_ATTRIBUTE_UNIQUEID, ITEM_ATTRIBUTE_DATE, ITEM_ATTRIBUTE_WEIGHT,
     ITEM_ATTRIBUTE_ATTACK, ITEM_ATTRIBUTE_DEFENSE, ITEM_ATTRIBUTE_EXTRADEFENSE, ITEM_ATTRIBUTE_ARMOR,
     ITEM_ATTRIBUTE_HITCHANCE, ITEM_ATTRIBUTE_SHOOTRANGE, ITEM_ATTRIBUTE_OWNER, ITEM_ATTRIBUTE_DURATION,
     ITEM_ATTRIBUTE_DECAYSTATE, ITEM_ATTRIBUTE_CORPSEOWNER, ITEM_ATTRIBUTE_CHARGES, ITEM_ATTRIBUTE_FLUIDTYPE,
     ITEM_ATTRIBUTE_DOORID, ITEM_ATTRIBUTE_DECAYTO, ITEM_ATTRIBUTE_ATTACK_SPEED]"

definition str_types :: "itemAttrTypes list" where
  "str_types = [ITEM_ATTRIBUTE_DESCRIPTION, ITEM_ATTRIBUTE_TEXT, ITEM_ATTRIBUTE_WRITER, ITEM_ATTRIBUTE_NAME,
     ITEM_ATTRIBUTE_ARTICLE, ITEM_ATTRIBUTE_PLURALNAME]"

lemma isIntAttrType_iff: "t \<noteq> ITEM_ATTRIBUTE_NONE \<Longrightarrow> isIntAttrType t \<longleftrightarrow> t \<in> set int_types"
  unfolding isIntAttrType_def subset_flags intAttributeTypes_def int_types_def
  by (cases t) (simp_all add: bit_or_iff bit_attr_flag)

lemma isStrAttrType_iff: "t \<noteq> ITEM_ATTRIBUTE_NONE \<Longrightarrow> isStrAttrType t \<longleftrightarrow> t \<in> set str_types"
  unfolding isStrAttrType_def subset_flags stringAttributeTypes_def str_types_def
  by (cases t) (simp_all add: bit_or_iff bit_attr_flag)

lemma isCustomAttrType_iff: "t \<noteq> ITEM_ATTRIBUTE_NONE \<Longrightarrow> isCustomAttrType t \<longleftrightarrow> t = ITEM_ATTRIBUTE_CUSTOM"
  unfolding isCustomAttrType_def subset_flags by (cases t) (simp_all add: bit_attr_flag)

section \<open>The invariant, and the attributes as a map\<close>

definition custom_ok :: "custom_map \<Rightarrow> bool" where
  "custom_ok m \<longleftrightarrow> distinct (map fst m) \<and> (\<forall>k \<in> set (map fst m). map lower8 k = k)"

text \<open>The values each type can have.\<close>

fun value_ok :: "itemAttrTypes \<Rightarrow> attr_value \<Rightarrow> bool" where
  "value_ok t Zero = False"
| "value_ok t (Integer n) = (t \<in> set int_types \<and> (t = ITEM_ATTRIBUTE_ATTACK_SPEED \<longrightarrow> 100 \<le> sint n))"
| "value_ok t (Str s) = (t \<in> set str_types \<and> s \<noteq> [])"
| "value_ok t (Custom m) = (t = ITEM_ATTRIBUTE_CUSTOM \<and> custom_ok m)"

definition types_of :: "item_attributes \<Rightarrow> itemAttrTypes list" where
  "types_of at = map attr_type (attr_list at)"

definition attributes_ok :: "item_attributes \<Rightarrow> bool" where
  "attributes_ok at \<longleftrightarrow>
     distinct (types_of at) \<and>
     (\<forall>t. hasAttribute t at \<longleftrightarrow> t \<in> set (types_of at)) \<and>
     (\<forall>a \<in> set (attr_list at). value_ok (attr_type a) (attr_val a))"

text \<open>The abstract view: what value each type has.\<close>

definition attr_map :: "item_attributes \<Rightarrow> itemAttrTypes \<Rightarrow> attr_value option" where
  "attr_map at = map_of (map (\<lambda>a. (attr_type a, attr_val a)) (attr_list at))"

lemma attributes_okD:
  assumes "attributes_ok at"
  shows "distinct (types_of at)" and "hasAttribute t at \<longleftrightarrow> t \<in> set (types_of at)"
    and "a \<in> set (attr_list at) \<Longrightarrow> value_ok (attr_type a) (attr_val a)"
  using assms by (auto simp: attributes_ok_def)

lemma value_ok_NONE: "\<not> value_ok ITEM_ATTRIBUTE_NONE v"
  by (cases v) (simp_all add: int_types_def str_types_def)

lemma dom_attr_map: "dom (attr_map at) = set (types_of at)"
  by (simp add: attr_map_def types_of_def dom_map_of_conv_image_fst image_image)

lemma hasAttribute_map: "attributes_ok at \<Longrightarrow> hasAttribute t at \<longleftrightarrow> attr_map at t \<noteq> None"
  using attributes_okD(2) [of at t] dom_attr_map [of at] by auto

lemma map_of_index:
  "map_of (map (\<lambda>a. (f a, g a)) xs) t = map_option (\<lambda>i. g (xs ! i)) (find_index t (map f xs))"
  by (induction xs) (auto simp: option.map_comp comp_def)

lemma index_of_type_map: "attributes_ok at \<Longrightarrow> index_of_type t at = find_index t (types_of at)"
  using attributes_okD(2) [of at t] find_index_None [THEN iffD2, of t "types_of at"]
  by (cases "hasAttribute t at") (simp_all add: index_of_type_def types_of_def del: find_index_None)

lemma getExistingAttr_map:
  assumes "attributes_ok at"
  shows "map_option attr_val (getExistingAttr t at) = attr_map at t"
  unfolding getExistingAttr_def index_of_type_map [OF assms] attr_map_def types_of_def map_of_index
  by (simp add: option.map_comp comp_def)

lemma attr_map_value_ok: "attributes_ok at \<Longrightarrow> attr_map at t = Some v \<Longrightarrow> value_ok t v"
  unfolding attr_map_def by (auto dest!: map_of_SomeD dest: attributes_okD(3))

section \<open>Every operation is the operation on the map\<close>

text \<open>Writing through the reference that \<open>getAttr\<close> returns.\<close>

definition put_attr :: "itemAttrTypes \<Rightarrow> attr_value \<Rightarrow> item_attributes \<Rightarrow> item_attributes" where
  "put_attr t v at = (let (i, at') = getAttr t at in set_value i v at')"

lemma find_index_nth: "distinct xs \<Longrightarrow> i < length xs \<Longrightarrow> find_index (xs ! i) xs = Some i"
proof (induction xs arbitrary: i)
  case (Cons x xs)
  then show ?case by (cases i) auto
qed simp

lemma put_attr_ok:
  assumes ok: "attributes_ok at" and v: "value_ok t v"
  shows "attributes_ok (put_attr t v at)" and "attr_map (put_attr t v at) = (attr_map at)(t \<mapsto> v)"
proof -
  have n: "t \<noteq> ITEM_ATTRIBUTE_NONE" using v value_ok_NONE by blast
  have "attributes_ok (put_attr t v at) \<and> attr_map (put_attr t v at) = (attr_map at)(t \<mapsto> v)"
  proof (cases "find_index t (types_of at)")
    case None
    then have new: "t \<notin> set (types_of at)" by simp
    let ?at' = "at\<lparr>attr_list := attr_list at @ [\<lparr>attr_type = t, attr_val = v\<rparr>], attributeBits := attributeBits at OR attr_flag t\<rparr>"
    have e: "put_attr t v at = ?at'"
      by (simp add: put_attr_def getAttr_def index_of_type_map [OF ok] None set_value_def Let_def)
    have b: "hasAttribute t' ?at' \<longleftrightarrow> t' = t \<or> hasAttribute t' at" for t'
      using n by (auto simp: hasAttribute_bit bit_or_iff bit_attr_flag attr_shift_inj)
    have "attributes_ok ?at'"
      using attributes_okD [OF ok] new v unfolding attributes_ok_def b by (auto simp: types_of_def)
    moreover have "attr_map ?at' = (attr_map at)(t \<mapsto> v)"
      using new by (auto simp: attr_map_def types_of_def map_add_def fun_eq_iff split: option.split
          dest!: map_of_SomeD)
    ultimately show ?thesis using e by simp
  next
    case (Some i)
    then have i: "i < length (attr_list at)" "attr_type (attr_list at ! i) = t"
      using find_index_Some [OF Some] by (auto simp: types_of_def)
    have e: "put_attr t v at = set_value i v at"
      by (simp add: put_attr_def getAttr_def index_of_type_map [OF ok] Some Let_def)
    have ty: "types_of (set_value i v at) = types_of at"
      using i by (simp add: types_of_def set_value_def map_update list_update_same_conv)
    have b: "hasAttribute t' (set_value i v at) = hasAttribute t' at" for t'
      by (simp add: hasAttribute_def set_value_def)
    have "value_ok (attr_type a) (attr_val a)" if "a \<in> set (attr_list (set_value i v at))" for a
    proof -
      have "a \<in> insert ((attr_list at ! i)\<lparr>attr_val := v\<rparr>) (set (attr_list at))"
        using that set_update_subset_insert [of "attr_list at" i] by (auto simp: set_value_def)
      then show ?thesis using attributes_okD(3) [OF ok] v i by auto
    qed
    then have "attributes_ok (set_value i v at)"
      using attributes_okD(1,2) [OF ok] unfolding attributes_ok_def ty b by blast
    moreover have "attr_map (set_value i v at) t' = ((attr_map at)(t \<mapsto> v)) t'" for t'
    proof -
      have "attr_map (set_value i v at) t' =
          map_option (\<lambda>j. attr_val (attr_list (set_value i v at) ! j)) (find_index t' (types_of at))"
        using ty by (simp add: attr_map_def map_of_index types_of_def)
      also have "\<dots> = ((attr_map at)(t \<mapsto> v)) t'"
        using i find_index_Some [of t' "types_of at"] Some
        by (cases "find_index t' (types_of at)")
          (auto simp: attr_map_def map_of_index set_value_def nth_list_update types_of_def simp del: find_index_None)
      finally show ?thesis .
    qed
    ultimately show ?thesis using e by auto
  qed
  then show "attributes_ok (put_attr t v at)" and "attr_map (put_attr t v at) = (attr_map at)(t \<mapsto> v)" by blast+
qed

lemma setIntAttr_put:
  "setIntAttr t n at = (if isIntAttrType t then put_attr t (Integer (if t = ITEM_ATTRIBUTE_ATTACK_SPEED \<and> sint n < 100 then 100 else n)) at else at)"
  by (simp add: setIntAttr_def put_attr_def Let_def)

lemma setStrAttr_put: "setStrAttr t s at = (if isStrAttrType t \<and> s \<noteq> [] then put_attr t (Str s) at else at)"
  by (simp add: setStrAttr_def put_attr_def)

lemma setIntAttr_ok [inv_intros]:
  "attributes_ok at \<Longrightarrow> t \<noteq> ITEM_ATTRIBUTE_NONE \<Longrightarrow> attributes_ok (setIntAttr t n at)"
  by (auto simp: setIntAttr_put isIntAttrType_iff intro!: put_attr_ok(1))

lemma setStrAttr_ok [inv_intros]:
  "attributes_ok at \<Longrightarrow> t \<noteq> ITEM_ATTRIBUTE_NONE \<Longrightarrow> attributes_ok (setStrAttr t s at)"
  by (auto simp: setStrAttr_put isStrAttrType_iff intro!: put_attr_ok(1))

lemma attr_map_setIntAttr:
  assumes "attributes_ok at" and "t \<in> set int_types"
  shows "attr_map (setIntAttr t n at) =
    (attr_map at)(t \<mapsto> Integer (if t = ITEM_ATTRIBUTE_ATTACK_SPEED \<and> sint n < 100 then 100 else n))"
proof -
  have "t \<noteq> ITEM_ATTRIBUTE_NONE" using assms(2) by (auto simp: int_types_def)
  then show ?thesis using assms by (simp add: setIntAttr_put isIntAttrType_iff put_attr_ok(2))
qed

lemma attr_map_setStrAttr:
  assumes "attributes_ok at" and "t \<in> set str_types"
  shows "attr_map (setStrAttr t s at) = (if s = [] then attr_map at else (attr_map at)(t \<mapsto> Str s))"
proof -
  have "t \<noteq> ITEM_ATTRIBUTE_NONE" using assms(2) by (auto simp: str_types_def)
  then show ?thesis using assms by (simp add: setStrAttr_put isStrAttrType_iff put_attr_ok(2))
qed

lemma getIntAttr_map:
  assumes "attributes_ok at" and "t \<noteq> ITEM_ATTRIBUTE_NONE"
  shows "getIntAttr t at = (case attr_map at t of Some (Integer n) \<Rightarrow> n | _ \<Rightarrow> 0)"
  using getExistingAttr_map [OF assms(1), of t] attr_map_value_ok [OF assms(1), of t]
  by (auto simp: getIntAttr_def isIntAttrType_iff [OF assms(2)] split: option.splits attr_value.splits)

lemma str_types_disjoint: "t \<in> set str_types \<Longrightarrow> t \<notin> set int_types \<and> t \<noteq> ITEM_ATTRIBUTE_CUSTOM"
  by (cases t) (simp_all add: str_types_def int_types_def)

lemma getStrAttr_map:
  assumes "attributes_ok at" and "t \<noteq> ITEM_ATTRIBUTE_NONE"
  shows "getStrAttr t at = Some (case attr_map at t of Some (Str s) \<Rightarrow> s | _ \<Rightarrow> [])"
  using getExistingAttr_map [OF assms(1), of t] attr_map_value_ok [OF assms(1), of t]
  by (auto simp: getStrAttr_def isStrAttrType_iff [OF assms(2)] split: option.splits attr_value.splits dest: str_types_disjoint)

text \<open>Removal drops one entry, in whatever order it leaves the others.\<close>

lemma mset_overwrite_butlast:
  assumes "i < length xs"
  shows "mset (butlast (xs[i := last xs])) = mset xs - {#xs ! i#}"
proof -
  have ne: "xs \<noteq> []" using assms by auto
  have "mset (butlast (xs[i := last xs])) + {#last (xs[i := last xs])#} = mset (xs[i := last xs])"
    using ne by (metis append_butlast_last_id list_update_nonempty mset.simps(1) mset.simps(2) mset_append)
  moreover have "last (xs[i := last xs]) = last xs"
    using assms ne by (simp add: last_list_update)
  moreover have "mset (xs[i := last xs]) = mset xs - {#xs ! i#} + {#last xs#}"
    using assms by (simp add: mset_update)
  ultimately show ?thesis by simp
qed

lemma remove_from_mset:
  assumes "distinct (map attr_type xs)" and "x \<in> set xs" and "attr_type x = t"
  shows "mset (remove_from t xs) = mset xs - {#x#}"
proof (cases "attr_type (last xs) = t")
  case True
  have "xs \<noteq> []" using assms(2) by auto
  moreover from this have "last xs = x"
    using assms True by (metis distinct_map inj_onD last_in_set)
  ultimately have "mset xs = mset (butlast xs) + {#x#}"
    by (metis append_butlast_last_id mset.simps(1) mset.simps(2) mset_append)
  then show ?thesis using True by (simp add: remove_from_def)
next
  case False
  let ?ys = "tl (rev (map attr_type xs))"
  have ne: "xs \<noteq> []" using assms(2) by auto
  have "t \<in> set (rev (map attr_type xs))" using assms by auto
  moreover have "hd (rev (map attr_type xs)) = attr_type (last xs)"
    using ne by (simp add: hd_rev last_map)
  ultimately have "t \<in> set ?ys"
    using False ne by (cases "rev (map attr_type xs)") auto
  then obtain k where k: "find_index t ?ys = Some k"
    by (metis find_index_None option.exhaust)
  then have kl: "k < length xs - 1" and kt: "?ys ! k = t" using find_index_Some by force+
  have "?ys ! k = rev (map attr_type xs) ! Suc k" using kl by (simp add: nth_tl)
  also have "\<dots> = attr_type (xs ! (length xs - 2 - k))"
    using kl by (simp add: rev_nth)
  finally have "attr_type (xs ! (length xs - 2 - k)) = t" using kt by simp
  then have "xs ! (length xs - 2 - k) = x"
    using assms kl by (metis distinct_map inj_onD diff_less_Suc nth_mem One_nat_def Suc_pred diff_le_self le_less_trans less_imp_diff_less diff_less length_greater_0_conv ne zero_less_numeral)
  moreover have "length xs - 2 - k < length xs" using ne by (simp add: less_imp_diff_less diff_less)
  ultimately show ?thesis
    using False k mset_overwrite_butlast [of "length xs - 2 - k" xs] by (simp add: remove_from_def)
qed

lemma removeAttribute_ok:
  assumes ok: "attributes_ok at"
  obtains at' where "removeAttribute t at = Some at'" and "attributes_ok at'" and "attr_map at' = (attr_map at)(t := None)"
proof (cases "hasAttribute t at")
  case False
  then have "attr_map at t = None" using hasAttribute_map [OF ok] by simp
  then have "(attr_map at)(t := None) = attr_map at" by (simp add: fun_upd_idem)
  then show ?thesis using that False ok by (simp add: removeAttribute_def)
next
  case True
  then have "t \<in> set (types_of at)" using attributes_okD(2) [OF ok] by simp
  then obtain x where x: "x \<in> set (attr_list at)" "attr_type x = t" by (auto simp: types_of_def)
  let ?xs = "remove_from t (attr_list at)"
  let ?at' = "at\<lparr>attr_list := ?xs, attributeBits := attributeBits at AND NOT (attr_flag t)\<rparr>"
  have n: "t \<noteq> ITEM_ATTRIBUTE_NONE" using True by (simp add: hasAttribute_bit)
  have d: "distinct (map attr_type (attr_list at))" using attributes_okD(1) [OF ok] by (simp add: types_of_def)
  have ms: "mset (attr_list at) = mset ?xs + {#x#}"
    using remove_from_mset [OF d x] x(1) by simp
  then have mt: "mset (types_of at) = mset (types_of ?at') + {#t#}"
    using x(2) arg_cong [OF ms, of "image_mset attr_type"] by (simp add: types_of_def)
  have d': "distinct (types_of ?at')" and t': "t \<notin> set (types_of ?at')"
    using attributes_okD(1) [OF ok] mt mset_eq_imp_distinct_iff [of "types_of at" "t # types_of ?at'"] by auto
  have s: "set (types_of at) = insert t (set (types_of ?at'))"
    using arg_cong [OF mt, of set_mset] by simp
  have b: "hasAttribute t' ?at' \<longleftrightarrow> t' \<noteq> t \<and> hasAttribute t' at" for t'
    using n attr_shift_less [of t'] by (auto simp: hasAttribute_bit bit_simps bit_attr_flag attr_shift_inj)
  have sx: "set (attr_list at) = insert x (set ?xs)"
    using arg_cong [OF ms, of set_mset] by simp
  have "attributes_ok ?at'"
    using attributes_okD [OF ok] d' t' s sx unfolding attributes_ok_def b by auto
  moreover have "attr_map ?at' = (attr_map at)(t := None)"
  proof -
    let ?f = "\<lambda>a. (attr_type a, attr_val a)"
    have "set (map ?f (attr_list at)) = set ((t, attr_val x) # map ?f ?xs)"
      using x(2) sx by auto
    moreover have "distinct (map fst (map ?f (attr_list at)))" using d by (simp add: comp_def)
    moreover have "distinct (map fst ((t, attr_val x) # map ?f ?xs))"
      using d' t' by (simp add: types_of_def comp_def)
    ultimately have "attr_map at = map_of ((t, attr_val x) # map ?f ?xs)"
      unfolding attr_map_def by (simp only: map_of_inject_set)
    then have "attr_map at = (attr_map ?at')(t \<mapsto> attr_val x)" by (simp add: attr_map_def)
    moreover have "attr_map ?at' t = None" using t' dom_attr_map [of ?at'] by blast
    ultimately show ?thesis by (simp add: fun_upd_idem)
  qed
  moreover have "removeAttribute t at = Some ?at'"
    using True x(1) by (auto simp: removeAttribute_def)
  ultimately show ?thesis using that by blast
qed

text \<open>The custom attributes as a map.\<close>

definition custom_lookup :: "item_attributes \<Rightarrow> u8 list \<Rightarrow> custom_value option" where
  "custom_lookup at = (case attr_map at ITEM_ATTRIBUTE_CUSTOM of Some (Custom m) \<Rightarrow> map_of m | _ \<Rightarrow> Map.empty)"

lemma custom_attr:
  assumes "attributes_ok at" and "attr_map at ITEM_ATTRIBUTE_CUSTOM = Some v"
  obtains m where "v = Custom m" and "custom_ok m"
  using attr_map_value_ok [OF assms] that by (cases v) (auto simp: int_types_def str_types_def)

lemma getCustomAttributeMap_cases:
  assumes ok: "attributes_ok at"
  obtains "attr_map at ITEM_ATTRIBUTE_CUSTOM = None" and "getCustomAttributeMap at = Some None"
  | i m where "attr_map at ITEM_ATTRIBUTE_CUSTOM = Some (Custom m)" and "custom_ok m"
      and "getCustomAttributeMap at = Some (Some (i, m))" and "getAttr ITEM_ATTRIBUTE_CUSTOM at = (i, at)"
      and "attr_val (attr_list at ! i) = Custom m"
proof (cases "attr_map at ITEM_ATTRIBUTE_CUSTOM")
  case None
  then show ?thesis using that(1) hasAttribute_map [OF ok] by (simp add: getCustomAttributeMap_def)
next
  case (Some v)
  then obtain m where m: "v = Custom m" "custom_ok m" using custom_attr [OF ok] by metis
  then obtain i where i: "index_of_type ITEM_ATTRIBUTE_CUSTOM at = Some i" "attr_val (attr_list at ! i) = Custom m"
    using getExistingAttr_map [OF ok, of ITEM_ATTRIBUTE_CUSTOM] Some by (auto simp: getExistingAttr_def)
  then show ?thesis
    using that(2) [of m i] Some m hasAttribute_map [OF ok]
    by (simp add: getCustomAttributeMap_def getExistingAttr_def getAttr_def)
qed

lemma getCustomAttribute_map:
  assumes ok: "attributes_ok at"
  shows "getCustomAttribute key at = Some (custom_lookup at (map lower8 key))"
  by (rule getCustomAttributeMap_cases [OF ok]) (auto simp: getCustomAttribute_def custom_lookup_def)

lemma lower8_idem [simp]: "lower8 (lower8 c) = lower8 c"
proof -
  have "\<not> (65 \<le> c + 32 \<and> c + 32 \<le> 90)" if "65 \<le> c" "c \<le> 90"
    using that by unat_arith
  then show ?thesis by (auto simp: lower8_def)
qed

lemma put_known_attr: "getAttr t at = (i, at) \<Longrightarrow> set_value i v at = put_attr t v at"
  by (simp add: put_attr_def)

lemma removeCustomAttribute_ok:
  assumes ok: "attributes_ok at"
  obtains b at' where "removeCustomAttribute key at = Some (b, at')" and "attributes_ok at'"
    and "b \<longleftrightarrow> custom_lookup at (map lower8 key) \<noteq> None"
    and "custom_lookup at' = (custom_lookup at)(map lower8 key := None)"
    and "\<And>t. t \<noteq> ITEM_ATTRIBUTE_CUSTOM \<Longrightarrow> attr_map at' t = attr_map at t"
    and "attr_map at' ITEM_ATTRIBUTE_CUSTOM = None \<longleftrightarrow> attr_map at ITEM_ATTRIBUTE_CUSTOM = None"
proof (rule getCustomAttributeMap_cases [OF ok])
  assume "attr_map at ITEM_ATTRIBUTE_CUSTOM = None" and "getCustomAttributeMap at = Some None"
  then show thesis using that [of False at] ok by (auto simp: removeCustomAttribute_def custom_lookup_def)
next
  fix i m
  assume m: "attr_map at ITEM_ATTRIBUTE_CUSTOM = Some (Custom m)" "custom_ok m"
      "getCustomAttributeMap at = Some (Some (i, m))" "getAttr ITEM_ATTRIBUTE_CUSTOM at = (i, at)"
  let ?k = "map lower8 key"
  let ?m = "filter (\<lambda>e. fst e \<noteq> ?k) m"
  have v: "value_ok ITEM_ATTRIBUTE_CUSTOM (Custom ?m)"
    using m(2) by (auto simp: custom_ok_def distinct_map_filter)
  have l: "map_of ?m = (map_of m)(?k := None)"
    by (induction m) auto
  show thesis
  proof (cases "map_of m ?k")
    case None
    then have "(map_of m)(?k := None) = map_of m" by (simp add: fun_upd_idem)
    then show thesis using that [of False at] ok m None by (simp add: removeCustomAttribute_def custom_lookup_def)
  next
    case (Some w)
    then show thesis
      using that [of True "put_attr ITEM_ATTRIBUTE_CUSTOM (Custom ?m) at"] m put_attr_ok [OF ok v] l
      by (simp add: removeCustomAttribute_def custom_lookup_def put_known_attr)
  qed
qed

lemma setCustomAttribute_ok:
  assumes ok: "attributes_ok at"
  obtains at' where "setCustomAttribute key v at = Some at'" and "attributes_ok at'"
    and "custom_lookup at' = (custom_lookup at)(map lower8 key \<mapsto> v)"
    and "\<And>t. t \<noteq> ITEM_ATTRIBUTE_CUSTOM \<Longrightarrow> attr_map at' t = attr_map at t"
proof -
  let ?k = "map lower8 key"
  obtain at1 where at1: "(if hasAttribute ITEM_ATTRIBUTE_CUSTOM at then map_option snd (removeCustomAttribute key at)
        else let (i, at') = getAttr ITEM_ATTRIBUTE_CUSTOM at in Some (set_value i (Custom []) at')) = Some at1"
      and ok1: "attributes_ok at1" and l1: "custom_lookup at1 = (custom_lookup at)(?k := None)"
      and o1: "\<And>t. t \<noteq> ITEM_ATTRIBUTE_CUSTOM \<Longrightarrow> attr_map at1 t = attr_map at t"
      and h1: "attr_map at1 ITEM_ATTRIBUTE_CUSTOM \<noteq> None"
  proof (cases "attr_map at ITEM_ATTRIBUTE_CUSTOM = None")
    case True
    have "value_ok ITEM_ATTRIBUTE_CUSTOM (Custom [])" by (simp add: custom_ok_def)
    from put_attr_ok [OF ok this] show thesis
      using that [of "put_attr ITEM_ATTRIBUTE_CUSTOM (Custom []) at"] True
      by (auto simp: put_attr_def custom_lookup_def hasAttribute_map [OF ok] split: prod.split)
  next
    case False
    show thesis
      by (rule removeCustomAttribute_ok [OF ok, of key]) (use that False hasAttribute_map [OF ok] in auto)
  qed
  obtain i m where m: "attr_map at1 ITEM_ATTRIBUTE_CUSTOM = Some (Custom m)" "custom_ok m"
      "getAttr ITEM_ATTRIBUTE_CUSTOM at1 = (i, at1)" "attr_val (attr_list at1 ! i) = Custom m"
    by (rule getCustomAttributeMap_cases [OF ok1]) (use h1 in auto)
  have n: "map_of m ?k = None" using l1 m(1) by (auto simp: custom_lookup_def dest: fun_cong [of _ _ ?k])
  then have "?k \<notin> set (map fst m)" by (simp add: map_of_eq_None_iff)
  then have c: "value_ok ITEM_ATTRIBUTE_CUSTOM (Custom (m @ [(?k, v)]))"
    using m(2) by (auto simp: custom_ok_def comp_def)
  have "setCustomAttribute key v at = Some (put_attr ITEM_ATTRIBUTE_CUSTOM (Custom (m @ [(?k, v)])) at1)"
    unfolding setCustomAttribute_def at1 using m(3,4) n
    by (simp add: emplace_custom_def put_known_attr)
  moreover have "map_of (m @ [(?k, v)]) = (custom_lookup at)(?k \<mapsto> v)"
    using n l1 m(1) by (auto simp: custom_lookup_def map_add_def fun_eq_iff split: option.split)
  ultimately show thesis
    using that put_attr_ok [OF ok1 c] o1 by (simp add: custom_lookup_def)
qed

section \<open>Items\<close>

datatype itemgroup_t =
    ITEM_GROUP_NONE | ITEM_GROUP_GROUND | ITEM_GROUP_CONTAINER | ITEM_GROUP_WEAPON | ITEM_GROUP_AMMUNITION
  | ITEM_GROUP_ARMOR | ITEM_GROUP_CHARGES | ITEM_GROUP_TELEPORT | ITEM_GROUP_MAGICFIELD | ITEM_GROUP_WRITEABLE
  | ITEM_GROUP_KEY | ITEM_GROUP_SPLASH | ITEM_GROUP_FLUID | ITEM_GROUP_DOOR | ITEM_GROUP_DEPRECATED | ITEM_GROUP_LAST

datatype ItemTypes_t =
    ITEM_TYPE_NONE | ITEM_TYPE_DEPOT | ITEM_TYPE_MAILBOX | ITEM_TYPE_TRASHHOLDER | ITEM_TYPE_CONTAINER | ITEM_TYPE_DOOR
  | ITEM_TYPE_MAGICFIELD | ITEM_TYPE_TELEPORT | ITEM_TYPE_BED | ITEM_TYPE_KEY | ITEM_TYPE_RUNE | ITEM_TYPE_LAST

text \<open>The properties of an item type that the modelled operations look at.\<close>

record item_type =
  it_group :: itemgroup_t
  it_type :: ItemTypes_t
  it_id :: u16
  it_stackable :: bool
  it_charges :: u32
  it_moveable :: bool
  it_pickupable :: bool
  it_weight :: u32
  it_stackSize :: u8
  it_maxItems :: u16
  it_decayTimeMin :: u32
  it_decayTimeMax :: u32
  it_decayTo :: u32
  it_stopTime :: bool

definition isSplash :: "item_type \<Rightarrow> bool" where
  "isSplash it \<longleftrightarrow> it_group it = ITEM_GROUP_SPLASH"

definition isFluidContainer :: "item_type \<Rightarrow> bool" where
  "isFluidContainer it \<longleftrightarrow> it_group it = ITEM_GROUP_FLUID"

record item =
  item_id :: u16
  item_count :: u8
  item_attrs :: "item_attributes option"

definition getAttributes :: "item \<Rightarrow> item_attributes" where
  "getAttributes i = (case item_attrs i of None \<Rightarrow> new_attributes | Some at \<Rightarrow> at)"

definition with_attributes :: "(item_attributes \<Rightarrow> item_attributes) \<Rightarrow> item \<Rightarrow> item" where
  "with_attributes f i = i\<lparr>item_attrs := Some (f (getAttributes i))\<rparr>"

definition item_hasAttribute :: "itemAttrTypes \<Rightarrow> item \<Rightarrow> bool" where
  "item_hasAttribute t i = (case item_attrs i of None \<Rightarrow> False | Some at \<Rightarrow> hasAttribute t at)"

definition item_getIntAttr :: "itemAttrTypes \<Rightarrow> item \<Rightarrow> u64" where
  "item_getIntAttr t i = (case item_attrs i of None \<Rightarrow> 0 | Some at \<Rightarrow> getIntAttr t at)"

definition item_getStrAttr :: "itemAttrTypes \<Rightarrow> item \<Rightarrow> u8 list option" where
  "item_getStrAttr t i = (case item_attrs i of None \<Rightarrow> Some [] | Some at \<Rightarrow> getStrAttr t at)"

definition item_setIntAttr :: "itemAttrTypes \<Rightarrow> u64 \<Rightarrow> item \<Rightarrow> item" where
  "item_setIntAttr t n = with_attributes (setIntAttr t n)"

definition item_setStrAttr :: "itemAttrTypes \<Rightarrow> u8 list \<Rightarrow> item \<Rightarrow> item" where
  "item_setStrAttr t s = with_attributes (setStrAttr t s)"

definition item_setCustomAttribute :: "u8 list \<Rightarrow> custom_value \<Rightarrow> item \<Rightarrow> item option" where
  "item_setCustomAttribute key v i =
     map_option (\<lambda>at. i\<lparr>item_attrs := Some at\<rparr>) (setCustomAttribute key v (getAttributes i))"

definition getSubType :: "item_type \<Rightarrow> item \<Rightarrow> u16" where
  "getSubType it i =
     (if isFluidContainer it \<or> isSplash it then ucast (item_getIntAttr ITEM_ATTRIBUTE_FLUIDTYPE i)
      else if it_stackable it then ucast (item_count i)
      else if it_charges it \<noteq> 0 then ucast (item_getIntAttr ITEM_ATTRIBUTE_CHARGES i)
      else ucast (item_count i))"

definition setSubType :: "item_type \<Rightarrow> u16 \<Rightarrow> item \<Rightarrow> item" where
  "setSubType it n i =
     (if isFluidContainer it \<or> isSplash it then item_setIntAttr ITEM_ATTRIBUTE_FLUIDTYPE (ucast n) i
      else if it_stackable it then i\<lparr>item_count := ucast n\<rparr>
      else if it_charges it \<noteq> 0 then item_setIntAttr ITEM_ATTRIBUTE_CHARGES (ucast n) i
      else i\<lparr>item_count := ucast n\<rparr>)"

definition setActionId :: "u16 \<Rightarrow> item \<Rightarrow> item" where
  "setActionId n = item_setIntAttr ITEM_ATTRIBUTE_ACTIONID (ucast (if n < 100 then 100 else n))"

section \<open>Saving\<close>

definition bytes64 :: "u64 \<Rightarrow> u8 list" where
  "bytes64 w = bytes32 (ucast w) @ bytes32 (ucast (drop_bit 32 w))"

definition write64 :: "u64 \<Rightarrow> u8 list \<Rightarrow> u8 list" where
  "write64 v buffer = buffer @ bytes64 v"

definition read64 :: "u8 list \<Rightarrow> (u64 \<times> u8 list) option" where
  "read64 s =
     (case read32 s of
        None \<Rightarrow> None
      | Some (lo, s') \<Rightarrow> map_option (\<lambda>(hi, s''). (ucast lo OR push_bit 32 (ucast hi), s'')) (read32 s'))"

definition ATTR_ACTION_ID :: u8 where "ATTR_ACTION_ID = 4"
definition ATTR_UNIQUE_ID :: u8 where "ATTR_UNIQUE_ID = 5"
definition ATTR_TEXT :: u8 where "ATTR_TEXT = 6"
definition ATTR_DESC :: u8 where "ATTR_DESC = 7"
definition ATTR_TELE_DEST :: u8 where "ATTR_TELE_DEST = 8"
definition ATTR_DEPOT_ID :: u8 where "ATTR_DEPOT_ID = 10"
definition ATTR_RUNE_CHARGES :: u8 where "ATTR_RUNE_CHARGES = 12"
definition ATTR_HOUSEDOORID :: u8 where "ATTR_HOUSEDOORID = 14"
definition ATTR_COUNT :: u8 where "ATTR_COUNT = 15"
definition ATTR_DURATION :: u8 where "ATTR_DURATION = 16"
definition ATTR_DECAYING_STATE :: u8 where "ATTR_DECAYING_STATE = 17"
definition ATTR_WRITTENDATE :: u8 where "ATTR_WRITTENDATE = 18"
definition ATTR_WRITTENBY :: u8 where "ATTR_WRITTENBY = 19"
definition ATTR_SLEEPERGUID :: u8 where "ATTR_SLEEPERGUID = 20"
definition ATTR_SLEEPSTART :: u8 where "ATTR_SLEEPSTART = 21"
definition ATTR_CHARGES :: u8 where "ATTR_CHARGES = 22"
definition ATTR_CONTAINER_ITEMS :: u8 where "ATTR_CONTAINER_ITEMS = 23"
definition ATTR_NAME :: u8 where "ATTR_NAME = 24"
definition ATTR_ARTICLE :: u8 where "ATTR_ARTICLE = 25"
definition ATTR_PLURALNAME :: u8 where "ATTR_PLURALNAME = 26"
definition ATTR_WEIGHT :: u8 where "ATTR_WEIGHT = 27"
definition ATTR_ATTACK :: u8 where "ATTR_ATTACK = 28"
definition ATTR_DEFENSE :: u8 where "ATTR_DEFENSE = 29"
definition ATTR_EXTRADEFENSE :: u8 where "ATTR_EXTRADEFENSE = 30"
definition ATTR_ARMOR :: u8 where "ATTR_ARMOR = 31"
definition ATTR_HITCHANCE :: u8 where "ATTR_HITCHANCE = 32"
definition ATTR_SHOOTRANGE :: u8 where "ATTR_SHOOTRANGE = 33"
definition ATTR_CUSTOM_ATTRIBUTES :: u8 where "ATTR_CUSTOM_ATTRIBUTES = 34"
definition ATTR_DECAYTO :: u8 where "ATTR_DECAYTO = 35"
definition ATTR_ATTACK_SPEED :: u8 where "ATTR_ATTACK_SPEED = 38"

lemmas attr_codes = ATTR_ACTION_ID_def ATTR_UNIQUE_ID_def ATTR_TEXT_def ATTR_DESC_def ATTR_TELE_DEST_def
  ATTR_DEPOT_ID_def ATTR_RUNE_CHARGES_def ATTR_HOUSEDOORID_def ATTR_COUNT_def ATTR_DURATION_def
  ATTR_DECAYING_STATE_def ATTR_WRITTENDATE_def ATTR_WRITTENBY_def ATTR_SLEEPERGUID_def ATTR_SLEEPSTART_def
  ATTR_CHARGES_def ATTR_CONTAINER_ITEMS_def ATTR_NAME_def ATTR_ARTICLE_def ATTR_PLURALNAME_def ATTR_WEIGHT_def
  ATTR_ATTACK_def ATTR_DEFENSE_def ATTR_EXTRADEFENSE_def ATTR_ARMOR_def ATTR_HITCHANCE_def ATTR_SHOOTRANGE_def
  ATTR_CUSTOM_ATTRIBUTES_def ATTR_DECAYTO_def ATTR_ATTACK_SPEED_def

fun which :: "custom_value \<Rightarrow> u8" where
  "which VBlank = 0"
| "which (VString _) = 1"
| "which (VInt _) = 2"
| "which (VDouble _) = 3"
| "which (VBool _) = 4"

fun write_payload :: "custom_value \<Rightarrow> u8 list \<Rightarrow> u8 list" where
  "write_payload VBlank buf = buf"
| "write_payload (VString s) buf = writeString s buf"
| "write_payload (VInt n) buf = write64 n buf"
| "write_payload (VDouble n) buf = write64 n buf"
| "write_payload (VBool b) buf = write8 (if b then 1 else 0) buf"

definition serialize_custom :: "custom_value \<Rightarrow> u8 list \<Rightarrow> u8 list" where
  "serialize_custom v buf = write_payload v (write8 (which v) buf)"

definition serialize_entry :: "u8 list \<times> custom_value \<Rightarrow> u8 list \<Rightarrow> u8 list" where
  "serialize_entry e buf = serialize_custom (snd e) (writeString (fst e) buf)"

definition write_when :: "bool \<Rightarrow> u8 \<Rightarrow> (u8 list \<Rightarrow> u8 list) \<Rightarrow> u8 list \<Rightarrow> u8 list" where
  "write_when c code w buf = (if c then w (write8 code buf) else buf)"

text \<open>\<open>ItemDecayState_t\<close> is an 8-bit enumeration.\<close>

definition DECAYING_FALSE :: u8 where "DECAYING_FALSE = 0"
definition DECAYING_TRUE :: u8 where "DECAYING_TRUE = 1"
definition DECAYING_PENDING :: u8 where "DECAYING_PENDING = 2"

definition getDecaying :: "item \<Rightarrow> u8" where
  "getDecaying i = ucast (item_getIntAttr ITEM_ATTRIBUTE_DECAYSTATE i)"

definition serializeAttr :: "item_type \<Rightarrow> item \<Rightarrow> u8 list \<Rightarrow> u8 list option" where
  "serializeAttr it i buf =
     do {
       let has = (\<lambda>t. item_hasAttribute t i);
       let int = (\<lambda>t. item_getIntAttr t i);
       let charges = (ucast (int ITEM_ATTRIBUTE_CHARGES) :: u16);
       let actionId = (ucast (int ITEM_ATTRIBUTE_ACTIONID) :: u16);
       let decayState = getDecaying i;
       text \<leftarrow> item_getStrAttr ITEM_ATTRIBUTE_TEXT i;
       writer \<leftarrow> item_getStrAttr ITEM_ATTRIBUTE_WRITER i;
       specialDesc \<leftarrow> item_getStrAttr ITEM_ATTRIBUTE_DESCRIPTION i;
       name \<leftarrow> item_getStrAttr ITEM_ATTRIBUTE_NAME i;
       article \<leftarrow> item_getStrAttr ITEM_ATTRIBUTE_ARTICLE i;
       pluralName \<leftarrow> item_getStrAttr ITEM_ATTRIBUTE_PLURALNAME i;
       custom \<leftarrow> (if has ITEM_ATTRIBUTE_CUSTOM
                 then map_option (map_option snd) (getCustomAttributeMap (getAttributes i)) else Some None);
       let buf = write_when (it_stackable it \<or> isFluidContainer it \<or> isSplash it) ATTR_COUNT (write8 (ucast (getSubType it i))) buf;
       let buf = write_when (charges \<noteq> 0) ATTR_CHARGES (write16 charges) buf;
       let buf = write_when (it_moveable it \<and> actionId \<noteq> 0) ATTR_ACTION_ID (write16 actionId) buf;
       let buf = write_when (text \<noteq> []) ATTR_TEXT (writeString text) buf;
       let buf = write_when (int ITEM_ATTRIBUTE_DATE \<noteq> 0) ATTR_WRITTENDATE (write32 (ucast (int ITEM_ATTRIBUTE_DATE))) buf;
       let buf = write_when (writer \<noteq> []) ATTR_WRITTENBY (writeString writer) buf;
       let buf = write_when (specialDesc \<noteq> []) ATTR_DESC (writeString specialDesc) buf;
       let buf = write_when (has ITEM_ATTRIBUTE_DURATION) ATTR_DURATION (write32 (ucast (int ITEM_ATTRIBUTE_DURATION))) buf;
       let buf = write_when (decayState = DECAYING_TRUE \<or> decayState = DECAYING_PENDING) ATTR_DECAYING_STATE (write8 decayState) buf;
       let buf = write_when (has ITEM_ATTRIBUTE_NAME) ATTR_NAME (writeString name) buf;
       let buf = write_when (has ITEM_ATTRIBUTE_ARTICLE) ATTR_ARTICLE (writeString article) buf;
       let buf = write_when (has ITEM_ATTRIBUTE_PLURALNAME) ATTR_PLURALNAME (writeString pluralName) buf;
       let buf = write_when (has ITEM_ATTRIBUTE_WEIGHT) ATTR_WEIGHT (write32 (ucast (int ITEM_ATTRIBUTE_WEIGHT))) buf;
       let buf = write_when (has ITEM_ATTRIBUTE_ATTACK) ATTR_ATTACK (write32 (ucast (int ITEM_ATTRIBUTE_ATTACK))) buf;
       let buf = write_when (has ITEM_ATTRIBUTE_ATTACK_SPEED) ATTR_ATTACK_SPEED (write32 (ucast (int ITEM_ATTRIBUTE_ATTACK_SPEED))) buf;
       let buf = write_when (has ITEM_ATTRIBUTE_DEFENSE) ATTR_DEFENSE (write32 (ucast (int ITEM_ATTRIBUTE_DEFENSE))) buf;
       let buf = write_when (has ITEM_ATTRIBUTE_EXTRADEFENSE) ATTR_EXTRADEFENSE (write32 (ucast (int ITEM_ATTRIBUTE_EXTRADEFENSE))) buf;
       let buf = write_when (has ITEM_ATTRIBUTE_ARMOR) ATTR_ARMOR (write32 (ucast (int ITEM_ATTRIBUTE_ARMOR))) buf;
       let buf = write_when (has ITEM_ATTRIBUTE_HITCHANCE) ATTR_HITCHANCE (write8 (ucast (int ITEM_ATTRIBUTE_HITCHANCE))) buf;
       let buf = write_when (has ITEM_ATTRIBUTE_SHOOTRANGE) ATTR_SHOOTRANGE (write8 (ucast (int ITEM_ATTRIBUTE_SHOOTRANGE))) buf;
       let buf = write_when (has ITEM_ATTRIBUTE_DECAYTO) ATTR_DECAYTO (write32 (ucast (int ITEM_ATTRIBUTE_DECAYTO))) buf;
       Some (case custom of
           None \<Rightarrow> buf
         | Some m \<Rightarrow> fold serialize_entry m (write64 (of_nat (length m)) (write8 ATTR_CUSTOM_ATTRIBUTES buf)))
     }"

section \<open>Loading\<close>

datatype Attr_ReadValue = ATTR_READ_CONTINUE | ATTR_READ_ERROR | ATTR_READ_END

text \<open>What loading works on: the item, the rest of the stream, and the keys of the game's table of
  unique items.\<close>

record loading =
  ld_item :: item
  ld_stream :: "u8 list"
  ld_unique :: "u16 list"

definition setUniqueId :: "u16 \<Rightarrow> loading \<Rightarrow> loading" where
  "setUniqueId n ld =
     (if item_hasAttribute ITEM_ATTRIBUTE_UNIQUEID (ld_item ld) then ld
      else if n \<in> set (ld_unique ld) then ld
      else ld\<lparr>ld_unique := n # ld_unique ld, ld_item := item_setIntAttr ITEM_ATTRIBUTE_UNIQUEID (ucast n) (ld_item ld)\<rparr>)"

definition read_then :: "(u8 list \<Rightarrow> ('v \<times> u8 list) option) \<Rightarrow> ('v \<Rightarrow> loading \<Rightarrow> loading) \<Rightarrow> loading \<Rightarrow> (Attr_ReadValue \<times> loading) option" where
  "read_then rd f ld =
     (case rd (ld_stream ld) of
        None \<Rightarrow> Some (ATTR_READ_ERROR, ld)
      | Some (v, s) \<Rightarrow> Some (ATTR_READ_CONTINUE, f v (ld\<lparr>ld_stream := s\<rparr>)))"

definition readString_then :: "(u8 list \<Rightarrow> loading \<Rightarrow> loading) \<Rightarrow> loading \<Rightarrow> (Attr_ReadValue \<times> loading) option" where
  "readString_then f ld =
     (case readString (ld_stream ld) of
        ((str, ok), s) \<Rightarrow>
          if ok then Some (ATTR_READ_CONTINUE, f str (ld\<lparr>ld_stream := s\<rparr>))
          else Some (ATTR_READ_ERROR, ld\<lparr>ld_stream := s\<rparr>))"

definition skip_then :: "nat \<Rightarrow> loading \<Rightarrow> (Attr_ReadValue \<times> loading) option" where
  "skip_then n ld =
     (case skip n (ld_stream ld) of (ok, s) \<Rightarrow>
        Some (if ok then ATTR_READ_CONTINUE else ATTR_READ_ERROR, ld\<lparr>ld_stream := s\<rparr>))"

definition on_item :: "(item \<Rightarrow> item) \<Rightarrow> loading \<Rightarrow> loading" where
  "on_item f ld = ld\<lparr>ld_item := f (ld_item ld)\<rparr>"

text \<open>A custom value and the rest of the stream; None in the first component is a failed read.\<close>

definition unserialize_custom :: "u8 list \<Rightarrow> custom_value option \<times> u8 list" where
  "unserialize_custom s =
     (case read8 s of
        None \<Rightarrow> (None, s)
      | Some (pos, s) \<Rightarrow>
          if pos = 1 then (case readString s of ((str, ok), s) \<Rightarrow> if ok then (Some (VString str), s) else (None, s))
          else if pos = 2 then (case read64 s of None \<Rightarrow> (None, s) | Some (n, s) \<Rightarrow> (Some (VInt n), s))
          else if pos = 3 then (case read64 s of None \<Rightarrow> (None, s) | Some (n, s) \<Rightarrow> (Some (VDouble n), s))
          else if pos = 4 then (case read8 s of None \<Rightarrow> (None, s) | Some (n, s) \<Rightarrow> (Some (VBool (n \<noteq> 0)), s))
          else (None, s))"

fun read_customs :: "nat \<Rightarrow> loading \<Rightarrow> (Attr_ReadValue \<times> loading) option" where
  "read_customs 0 ld = Some (ATTR_READ_CONTINUE, ld)"
| "read_customs (Suc n) ld =
     (case readString (ld_stream ld) of
        ((key, ok), s) \<Rightarrow>
          if \<not> ok then Some (ATTR_READ_ERROR, ld\<lparr>ld_stream := s\<rparr>)
          else case unserialize_custom s of
              (None, s) \<Rightarrow> Some (ATTR_READ_ERROR, ld\<lparr>ld_stream := s\<rparr>)
            | (Some v, s) \<Rightarrow>
                (case item_setCustomAttribute key v (ld_item ld) of
                   None \<Rightarrow> None
                 | Some i \<Rightarrow> read_customs n (ld\<lparr>ld_item := i, ld_stream := s\<rparr>)))"

definition setDuration :: "u32 \<Rightarrow> item \<Rightarrow> item" where
  "setDuration time = item_setIntAttr ITEM_ATTRIBUTE_DURATION (scast time)"

definition readAttr :: "item_type \<Rightarrow> u8 \<Rightarrow> loading \<Rightarrow> (Attr_ReadValue \<times> loading) option" where
  "readAttr it attr =
     (if attr = ATTR_COUNT \<or> attr = ATTR_RUNE_CHARGES then read_then read8 (\<lambda>count. on_item (setSubType it (ucast count)))
      else if attr = ATTR_ACTION_ID then read_then read16 (\<lambda>actionId. on_item (setActionId actionId))
      else if attr = ATTR_UNIQUE_ID then read_then read16 setUniqueId
      else if attr = ATTR_TEXT then readString_then (\<lambda>s. on_item (item_setStrAttr ITEM_ATTRIBUTE_TEXT s))
      else if attr = ATTR_WRITTENDATE then read_then read32 (\<lambda>d. on_item (item_setIntAttr ITEM_ATTRIBUTE_DATE (scast d)))
      else if attr = ATTR_WRITTENBY then readString_then (\<lambda>s. on_item (item_setStrAttr ITEM_ATTRIBUTE_WRITER s))
      else if attr = ATTR_DESC then readString_then (\<lambda>s. on_item (item_setStrAttr ITEM_ATTRIBUTE_DESCRIPTION s))
      else if attr = ATTR_CHARGES then read_then read16 (\<lambda>charges. on_item (setSubType it charges))
      else if attr = ATTR_DURATION then read_then read32 (\<lambda>d. on_item (setDuration (if sint d < 0 then 0 else d)))
      else if attr = ATTR_DECAYING_STATE then
        read_then read8 (\<lambda>state. if state \<noteq> DECAYING_FALSE then on_item (item_setIntAttr ITEM_ATTRIBUTE_DECAYSTATE (ucast DECAYING_PENDING)) else (\<lambda>ld. ld))
      else if attr = ATTR_NAME then readString_then (\<lambda>s. on_item (item_setStrAttr ITEM_ATTRIBUTE_NAME s))
      else if attr = ATTR_ARTICLE then readString_then (\<lambda>s. on_item (item_setStrAttr ITEM_ATTRIBUTE_ARTICLE s))
      else if attr = ATTR_PLURALNAME then readString_then (\<lambda>s. on_item (item_setStrAttr ITEM_ATTRIBUTE_PLURALNAME s))
      else if attr = ATTR_WEIGHT then read_then read32 (\<lambda>n. on_item (item_setIntAttr ITEM_ATTRIBUTE_WEIGHT (ucast n)))
      else if attr = ATTR_ATTACK then read_then read32 (\<lambda>n. on_item (item_setIntAttr ITEM_ATTRIBUTE_ATTACK (scast n)))
      else if attr = ATTR_ATTACK_SPEED then read_then read32 (\<lambda>n. on_item (item_setIntAttr ITEM_ATTRIBUTE_ATTACK_SPEED (ucast n)))
      else if attr = ATTR_DEFENSE then read_then read32 (\<lambda>n. on_item (item_setIntAttr ITEM_ATTRIBUTE_DEFENSE (scast n)))
      else if attr = ATTR_EXTRADEFENSE then read_then read32 (\<lambda>n. on_item (item_setIntAttr ITEM_ATTRIBUTE_EXTRADEFENSE (scast n)))
      else if attr = ATTR_ARMOR then read_then read32 (\<lambda>n. on_item (item_setIntAttr ITEM_ATTRIBUTE_ARMOR (scast n)))
      else if attr = ATTR_HITCHANCE then read_then read8 (\<lambda>n. on_item (item_setIntAttr ITEM_ATTRIBUTE_HITCHANCE (scast n)))
      else if attr = ATTR_SHOOTRANGE then read_then read8 (\<lambda>n. on_item (item_setIntAttr ITEM_ATTRIBUTE_SHOOTRANGE (ucast n)))
      else if attr = ATTR_DECAYTO then read_then read32 (\<lambda>n. on_item (item_setIntAttr ITEM_ATTRIBUTE_DECAYTO (scast n)))
      else if attr = ATTR_DEPOT_ID then skip_then 2
      else if attr = ATTR_HOUSEDOORID then skip_then 1
      else if attr = ATTR_SLEEPERGUID then skip_then 4
      else if attr = ATTR_SLEEPSTART then skip_then 4
      else if attr = ATTR_TELE_DEST then skip_then 5
      else if attr = ATTR_CONTAINER_ITEMS then (\<lambda>ld. Some (ATTR_READ_ERROR, ld))
      else if attr = ATTR_CUSTOM_ATTRIBUTES then
        (\<lambda>ld. case read64 (ld_stream ld) of
            None \<Rightarrow> Some (ATTR_READ_ERROR, ld)
          | Some (n, s) \<Rightarrow> read_customs (unat n) (ld\<lparr>ld_stream := s\<rparr>))
      else (\<lambda>ld. Some (ATTR_READ_ERROR, ld)))"

subsection \<open>No read makes the stream longer\<close>

lemma read8_length: "read8 s = Some (v, s') \<Longrightarrow> length s' < length s"
  by (cases s) auto

lemma read16_length: "read16 s = Some (v, s') \<Longrightarrow> length s' < length s"
  by (cases s rule: read16.cases) auto

lemma read32_length: "read32 s = Some (v, s') \<Longrightarrow> length s' < length s"
  by (cases s rule: read32.cases) auto

lemma read64_length: "read64 s = Some (v, s') \<Longrightarrow> length s' < length s"
  by (auto simp: read64_def dest!: read32_length split: option.splits)

lemma readString_length: "readString s = ((str, ok), s') \<Longrightarrow> length s' \<le> length s"
  by (auto simp: readString_def dest!: read16_length split: option.splits if_split_asm)

lemma unserialize_custom_length: "unserialize_custom s = (v, s') \<Longrightarrow> length s' \<le> length s"
  by (auto simp: unserialize_custom_def dest!: read8_length read64_length readString_length
      split: option.splits if_split_asm prod.splits)

lemma on_item_stream [simp]: "ld_stream (on_item f ld) = ld_stream ld"
  by (simp add: on_item_def)

lemma setUniqueId_stream [simp]: "ld_stream (setUniqueId n ld) = ld_stream ld"
  by (simp add: setUniqueId_def)

definition shrinks :: "(loading \<Rightarrow> (Attr_ReadValue \<times> loading) option) \<Rightarrow> bool" where
  "shrinks f \<longleftrightarrow> (\<forall>ld r ld'. f ld = Some (r, ld') \<longrightarrow> length (ld_stream ld') \<le> length (ld_stream ld))"

lemma read_then_shrinks:
  assumes "\<And>s v s'. rd s = Some (v, s') \<Longrightarrow> length s' < length s" and "\<And>v ld. ld_stream (f v ld) = ld_stream ld"
  shows "shrinks (read_then rd f)"
  using assms unfolding shrinks_def read_then_def by (fastforce split: option.splits intro: less_imp_le)

lemmas read_shrinks = read_then_shrinks [OF read8_length] read_then_shrinks [OF read16_length] read_then_shrinks [OF read32_length]

lemma readString_then_shrinks:
  assumes "\<And>v ld. ld_stream (f v ld) = ld_stream ld"
  shows "shrinks (readString_then f)"
  using assms by (auto simp: shrinks_def readString_then_def split: prod.splits if_split_asm dest: readString_length)

lemma skip_then_shrinks: "shrinks (skip_then n)"
  by (auto simp: shrinks_def skip_then_def skip_def split: if_split_asm)

lemma read_customs_length: "read_customs n ld = Some (r, ld') \<Longrightarrow> length (ld_stream ld') \<le> length (ld_stream ld)"
proof (induction n ld rule: read_customs.induct)
  case (2 n ld)
  then show ?case
    by (fastforce split: prod.splits if_split_asm option.splits dest: readString_length unserialize_custom_length)
qed simp

lemma custom_attributes_shrinks:
  "shrinks (\<lambda>ld. case read64 (ld_stream ld) of
      None \<Rightarrow> Some (ATTR_READ_ERROR, ld)
    | Some (n, s) \<Rightarrow> read_customs (unat n) (ld\<lparr>ld_stream := s\<rparr>))"
  by (fastforce simp: shrinks_def split: option.splits dest: read_customs_length read64_length)

lemma stop_shrinks: "shrinks (\<lambda>ld. Some (r, ld))"
  by (simp add: shrinks_def)

lemma readAttr_shrinks: "shrinks (readAttr it attr)"
  unfolding readAttr_def
  by (simp only: if_distrib [of shrinks])
    (simp add: read_shrinks readString_then_shrinks skip_then_shrinks custom_attributes_shrinks stop_shrinks)

lemma readAttr_length: "readAttr it attr ld = Some (r, ld') \<Longrightarrow> length (ld_stream ld') \<le> length (ld_stream ld)"
  using readAttr_shrinks [of it attr] by (auto simp: shrinks_def)

function unserializeAttr :: "item_type \<Rightarrow> loading \<Rightarrow> (bool \<times> loading) option" where
  "unserializeAttr it ld =
     (case read8 (ld_stream ld) of
        None \<Rightarrow> Some (True, ld)
      | Some (attr, s) \<Rightarrow>
          if attr = 0 then Some (True, ld\<lparr>ld_stream := s\<rparr>)
          else (case readAttr it attr (ld\<lparr>ld_stream := s\<rparr>) of
              None \<Rightarrow> None
            | Some (ret, ld') \<Rightarrow>
                if ret = ATTR_READ_ERROR then Some (False, ld')
                else if ret = ATTR_READ_END then Some (True, ld')
                else unserializeAttr it ld'))"
  by pat_completeness auto
termination
  by (relation "measure (\<lambda>(it, ld). length (ld_stream ld))") (auto dest!: read8_length readAttr_length)

declare unserializeAttr.simps [simp del]

section \<open>Items seen through the map\<close>

definition item_ok :: "item \<Rightarrow> bool" where
  "item_ok i \<longleftrightarrow> attributes_ok (getAttributes i)"

definition item_map :: "item \<Rightarrow> itemAttrTypes \<Rightarrow> attr_value option" where
  "item_map i = attr_map (getAttributes i)"

lemma new_attributes_ok [simp]: "attributes_ok new_attributes"
  by (simp add: attributes_ok_def new_attributes_def types_of_def hasAttribute_def)

lemma attr_map_new [simp]: "attr_map new_attributes = Map.empty"
  by (simp add: attr_map_def new_attributes_def)

lemma item_hasAttribute_map: "item_ok i \<Longrightarrow> item_hasAttribute t i \<longleftrightarrow> item_map i t \<noteq> None"
  using hasAttribute_map [of "getAttributes i" t]
  by (auto simp: item_ok_def item_map_def item_hasAttribute_def getAttributes_def split: option.splits)

lemma item_getIntAttr_map:
  "item_ok i \<Longrightarrow> t \<noteq> ITEM_ATTRIBUTE_NONE \<Longrightarrow> item_getIntAttr t i = (case item_map i t of Some (Integer n) \<Rightarrow> n | _ \<Rightarrow> 0)"
  using getIntAttr_map [of "getAttributes i" t]
  by (auto simp: item_ok_def item_map_def item_getIntAttr_def getAttributes_def split: option.splits)

lemma item_getStrAttr_map:
  "item_ok i \<Longrightarrow> t \<noteq> ITEM_ATTRIBUTE_NONE \<Longrightarrow> item_getStrAttr t i = Some (case item_map i t of Some (Str s) \<Rightarrow> s | _ \<Rightarrow> [])"
  using getStrAttr_map [of "getAttributes i" t]
  by (auto simp: item_ok_def item_map_def item_getStrAttr_def getAttributes_def split: option.splits)

lemma getAttributes_with [simp]: "getAttributes (with_attributes f i) = f (getAttributes i)"
  by (simp add: with_attributes_def getAttributes_def)

lemma getAttributes_count [simp]: "getAttributes (i\<lparr>item_count := n\<rparr>) = getAttributes i"
  by (simp add: getAttributes_def)

text \<open>What an item keeps under a conditional setting: its invariant, identifier and count.\<close>

definition sets :: "(itemAttrTypes \<rightharpoonup> attr_value) \<Rightarrow> item \<Rightarrow> item \<Rightarrow> bool" where
  "sets m i i' \<longleftrightarrow> item_ok i' \<and> item_id i' = item_id i \<and> item_count i' = item_count i \<and> item_map i' = item_map i ++ m"

lemma sets_refl: "item_ok i \<Longrightarrow> sets Map.empty i i"
  by (simp add: sets_def)

lemma sets_trans: "sets m i i' \<Longrightarrow> sets m' i' i'' \<Longrightarrow> sets (m ++ m') i i''"
  by (simp add: sets_def)

lemma sets_int:
  assumes "item_ok i" and "t \<in> set int_types"
  shows "sets [t \<mapsto> Integer (if t = ITEM_ATTRIBUTE_ATTACK_SPEED \<and> sint n < 100 then 100 else n)] i (item_setIntAttr t n i)"
proof -
  have "t \<noteq> ITEM_ATTRIBUTE_NONE" using assms(2) by (auto simp: int_types_def)
  then show ?thesis
    using assms setIntAttr_ok attr_map_setIntAttr
    by (simp add: sets_def item_ok_def item_map_def item_setIntAttr_def with_attributes_def getAttributes_def)
qed

lemma sets_str:
  assumes "item_ok i" and "t \<in> set str_types"
  shows "sets (if s = [] then Map.empty else [t \<mapsto> Str s]) i (item_setStrAttr t s i)"
proof -
  have "t \<noteq> ITEM_ATTRIBUTE_NONE" using assms(2) by (auto simp: str_types_def)
  then show ?thesis
    using assms setStrAttr_ok attr_map_setStrAttr
    by (simp add: sets_def item_ok_def item_map_def item_setStrAttr_def with_attributes_def getAttributes_def)
qed

section \<open>Loading reads what saving wrote\<close>

lemma unserialize_end: "unserializeAttr it \<lparr>ld_item = i, ld_stream = [], ld_unique = u\<rparr> = Some (True, \<lparr>ld_item = i, ld_stream = [], ld_unique = u\<rparr>)"
  by (subst unserializeAttr.simps) simp

lemma unserialize_continue:
  assumes "code \<noteq> 0"
    and "readAttr it code \<lparr>ld_item = i, ld_stream = w @ s, ld_unique = u\<rparr> =
      Some (ATTR_READ_CONTINUE, \<lparr>ld_item = i', ld_stream = s, ld_unique = u\<rparr>)"
  shows "unserializeAttr it \<lparr>ld_item = i, ld_stream = code # w @ s, ld_unique = u\<rparr> =
    unserializeAttr it \<lparr>ld_item = i', ld_stream = s, ld_unique = u\<rparr>"
  using assms by (subst unserializeAttr.simps) simp

lemma read16_bytes: "read16 (bytes16 v @ s) = Some (v, s)"
  by (simp add: bytes16_def word16_bytes)

lemma read32_bytes: "read32 (bytes32 v @ s) = Some (v, s)"
  by (simp add: bytes32_def word32_bytes)

lemma read64_bytes: "read64 (bytes64 v @ s) = Some (v, s)"
proof -
  have "ucast (ucast v :: u32) OR push_bit 32 (ucast (ucast (drop_bit 32 v) :: u32)) = v"
    by (rule bit_word_eqI) (auto simp: bit_simps)
  then show ?thesis by (simp add: read64_def bytes64_def read32_bytes)
qed

definition string_bytes :: "u8 list \<Rightarrow> u8 list" where
  "string_bytes str = bytes16 (of_nat (length str)) @ str"

lemma writeString_bytes: "length str \<le> 65535 \<Longrightarrow> writeString str buf = buf @ string_bytes str"
  by (simp add: writeString_def write16_def string_bytes_def)

lemma readString_bytes:
  assumes "length str \<le> 65535"
  shows "readString (string_bytes str @ s) = ((str, True), s)"
proof -
  have "unat (of_nat (length str) :: u16) = length str" using assms by (simp add: unat_of_nat)
  then show ?thesis by (simp add: readString_def string_bytes_def read16_bytes)
qed

text \<open>One attribute in the stream, or nothing.\<close>

definition piece :: "bool \<Rightarrow> u8 \<Rightarrow> u8 list \<Rightarrow> u8 list" where
  "piece c code w = (if c then code # w else [])"

lemma read_piece8:
  assumes "code \<noteq> 0" and "readAttr it code = read_then read8 (\<lambda>n. on_item (f n))"
  shows "unserializeAttr it \<lparr>ld_item = i, ld_stream = piece c code [v] @ s, ld_unique = u\<rparr> =
    unserializeAttr it \<lparr>ld_item = if c then f v i else i, ld_stream = s, ld_unique = u\<rparr>"
  using unserialize_continue [OF assms(1), of it i "[v]"] assms(2)
  by (simp add: piece_def read_then_def on_item_def)

lemma read_piece16:
  assumes "code \<noteq> 0" and "readAttr it code = read_then read16 (\<lambda>n. on_item (f n))"
  shows "unserializeAttr it \<lparr>ld_item = i, ld_stream = piece c code (bytes16 v) @ s, ld_unique = u\<rparr> =
    unserializeAttr it \<lparr>ld_item = if c then f v i else i, ld_stream = s, ld_unique = u\<rparr>"
  using unserialize_continue [OF assms(1), of it i "bytes16 v"] assms(2)
  by (simp add: piece_def read_then_def on_item_def read16_bytes)

lemma read_piece32:
  assumes "code \<noteq> 0" and "readAttr it code = read_then read32 (\<lambda>n. on_item (f n))"
  shows "unserializeAttr it \<lparr>ld_item = i, ld_stream = piece c code (bytes32 v) @ s, ld_unique = u\<rparr> =
    unserializeAttr it \<lparr>ld_item = if c then f v i else i, ld_stream = s, ld_unique = u\<rparr>"
  using unserialize_continue [OF assms(1), of it i "bytes32 v"] assms(2)
  by (simp add: piece_def read_then_def on_item_def read32_bytes)

lemma read_piece_string:
  assumes "code \<noteq> 0" and "readAttr it code = readString_then (\<lambda>n. on_item (f n))" and "length v \<le> 65535"
  shows "unserializeAttr it \<lparr>ld_item = i, ld_stream = piece c code (string_bytes v) @ s, ld_unique = u\<rparr> =
    unserializeAttr it \<lparr>ld_item = if c then f v i else i, ld_stream = s, ld_unique = u\<rparr>"
  using unserialize_continue [OF assms(1), of it i "string_bytes v"] assms(2)
  by (simp add: piece_def readString_then_def on_item_def readString_bytes assms(3))

lemma readAttr_int:
  "readAttr it ATTR_WRITTENDATE = read_then read32 (\<lambda>d. on_item (item_setIntAttr ITEM_ATTRIBUTE_DATE (scast d)))"
  "readAttr it ATTR_DURATION = read_then read32 (\<lambda>d. on_item (item_setIntAttr ITEM_ATTRIBUTE_DURATION (scast (if sint d < 0 then 0 else d))))"
  "readAttr it ATTR_WEIGHT = read_then read32 (\<lambda>n. on_item (item_setIntAttr ITEM_ATTRIBUTE_WEIGHT (ucast n)))"
  "readAttr it ATTR_ATTACK = read_then read32 (\<lambda>n. on_item (item_setIntAttr ITEM_ATTRIBUTE_ATTACK (scast n)))"
  "readAttr it ATTR_ATTACK_SPEED = read_then read32 (\<lambda>n. on_item (item_setIntAttr ITEM_ATTRIBUTE_ATTACK_SPEED (ucast n)))"
  "readAttr it ATTR_DEFENSE = read_then read32 (\<lambda>n. on_item (item_setIntAttr ITEM_ATTRIBUTE_DEFENSE (scast n)))"
  "readAttr it ATTR_EXTRADEFENSE = read_then read32 (\<lambda>n. on_item (item_setIntAttr ITEM_ATTRIBUTE_EXTRADEFENSE (scast n)))"
  "readAttr it ATTR_ARMOR = read_then read32 (\<lambda>n. on_item (item_setIntAttr ITEM_ATTRIBUTE_ARMOR (scast n)))"
  "readAttr it ATTR_HITCHANCE = read_then read8 (\<lambda>n. on_item (item_setIntAttr ITEM_ATTRIBUTE_HITCHANCE (scast n)))"
  "readAttr it ATTR_SHOOTRANGE = read_then read8 (\<lambda>n. on_item (item_setIntAttr ITEM_ATTRIBUTE_SHOOTRANGE (ucast n)))"
  "readAttr it ATTR_DECAYTO = read_then read32 (\<lambda>n. on_item (item_setIntAttr ITEM_ATTRIBUTE_DECAYTO (scast n)))"
  "readAttr it ATTR_COUNT = read_then read8 (\<lambda>n. on_item (setSubType it (ucast n)))"
  "readAttr it ATTR_CHARGES = read_then read16 (\<lambda>n. on_item (setSubType it n))"
  "readAttr it ATTR_ACTION_ID = read_then read16 (\<lambda>n. on_item (setActionId n))"
  by (simp_all add: readAttr_def attr_codes setDuration_def)

lemma readAttr_decaying:
  "readAttr it ATTR_DECAYING_STATE =
     read_then read8 (\<lambda>n. on_item (if n \<noteq> DECAYING_FALSE then item_setIntAttr ITEM_ATTRIBUTE_DECAYSTATE (ucast DECAYING_PENDING) else (\<lambda>i. i)))"
proof -
  have "(\<lambda>n. if n \<noteq> DECAYING_FALSE then on_item f else (\<lambda>ld. ld)) = (\<lambda>n. on_item (if n \<noteq> DECAYING_FALSE then f else (\<lambda>i. i)))" for f
    by (rule ext) (simp add: on_item_def fun_eq_iff)
  then show ?thesis by (simp add: readAttr_def attr_codes)
qed

lemma readAttr_str:
  "readAttr it ATTR_TEXT = readString_then (\<lambda>s. on_item (item_setStrAttr ITEM_ATTRIBUTE_TEXT s))"
  "readAttr it ATTR_WRITTENBY = readString_then (\<lambda>s. on_item (item_setStrAttr ITEM_ATTRIBUTE_WRITER s))"
  "readAttr it ATTR_DESC = readString_then (\<lambda>s. on_item (item_setStrAttr ITEM_ATTRIBUTE_DESCRIPTION s))"
  "readAttr it ATTR_NAME = readString_then (\<lambda>s. on_item (item_setStrAttr ITEM_ATTRIBUTE_NAME s))"
  "readAttr it ATTR_ARTICLE = readString_then (\<lambda>s. on_item (item_setStrAttr ITEM_ATTRIBUTE_ARTICLE s))"
  "readAttr it ATTR_PLURALNAME = readString_then (\<lambda>s. on_item (item_setStrAttr ITEM_ATTRIBUTE_PLURALNAME s))"
  by (simp_all add: readAttr_def attr_codes)

lemma attr_codes_nonzero:
  "ATTR_WRITTENDATE \<noteq> 0" "ATTR_DURATION \<noteq> 0" "ATTR_WEIGHT \<noteq> 0" "ATTR_ATTACK \<noteq> 0" "ATTR_ATTACK_SPEED \<noteq> 0"
  "ATTR_DEFENSE \<noteq> 0" "ATTR_EXTRADEFENSE \<noteq> 0" "ATTR_ARMOR \<noteq> 0" "ATTR_HITCHANCE \<noteq> 0" "ATTR_SHOOTRANGE \<noteq> 0"
  "ATTR_DECAYTO \<noteq> 0" "ATTR_COUNT \<noteq> 0" "ATTR_CHARGES \<noteq> 0" "ATTR_ACTION_ID \<noteq> 0" "ATTR_DECAYING_STATE \<noteq> 0"
  "ATTR_TEXT \<noteq> 0" "ATTR_WRITTENBY \<noteq> 0" "ATTR_DESC \<noteq> 0" "ATTR_NAME \<noteq> 0" "ATTR_ARTICLE \<noteq> 0" "ATTR_PLURALNAME \<noteq> 0"
  "ATTR_CUSTOM_ATTRIBUTES \<noteq> 0"
  by (simp_all add: attr_codes)

lemmas read_pieces =
  readAttr_int(1-8,11) [THEN read_piece32 [rotated]]
  readAttr_int(9,10,12) [THEN read_piece8 [rotated]] readAttr_decaying [THEN read_piece8 [rotated]]
  readAttr_int(13,14) [THEN read_piece16 [rotated]]
  readAttr_str [THEN read_piece_string [rotated]]

text \<open>What is stored of each attribute, as it is read back: integers are cut to the width they are
  written with, and an item that decays is pending.\<close>

fun cut :: "itemAttrTypes \<Rightarrow> u64 \<Rightarrow> u64" where
  "cut ITEM_ATTRIBUTE_WEIGHT n = ucast (ucast n :: u32)"
| "cut ITEM_ATTRIBUTE_ATTACK_SPEED n = (let m = ucast (ucast n :: u32) in if sint m < 100 then 100 else m)"
| "cut ITEM_ATTRIBUTE_HITCHANCE n = scast (ucast n :: u8)"
| "cut ITEM_ATTRIBUTE_SHOOTRANGE n = ucast (ucast n :: u8)"
| "cut ITEM_ATTRIBUTE_DURATION n = scast (if sint (ucast n :: u32) < 0 then 0 else ucast n :: u32)"
| "cut ITEM_ATTRIBUTE_DECAYSTATE n = 2"
| "cut ITEM_ATTRIBUTE_ACTIONID n = ucast (if (ucast n :: u16) < 100 then 100 else ucast n :: u16)"
| "cut ITEM_ATTRIBUTE_CHARGES n = ucast (ucast n :: u16)"
| "cut ITEM_ATTRIBUTE_FLUIDTYPE n = ucast (ucast n :: u8)"
| "cut _ n = scast (ucast n :: u32)"

definition written :: "item_type \<Rightarrow> item \<Rightarrow> itemAttrTypes \<Rightarrow> bool" where
  "written it i t =
     (if t = ITEM_ATTRIBUTE_ACTIONID then it_moveable it \<and> (ucast (item_getIntAttr t i) :: u16) \<noteq> 0
      else if t = ITEM_ATTRIBUTE_DATE then item_getIntAttr t i \<noteq> 0
      else if t = ITEM_ATTRIBUTE_DECAYSTATE then getDecaying i \<in> {DECAYING_TRUE, DECAYING_PENDING}
      else if t = ITEM_ATTRIBUTE_CHARGES then (ucast (item_getIntAttr t i) :: u16) \<noteq> 0
      else if t = ITEM_ATTRIBUTE_FLUIDTYPE then isFluidContainer it \<or> isSplash it
      else t \<in> set [ITEM_ATTRIBUTE_DESCRIPTION, ITEM_ATTRIBUTE_TEXT, ITEM_ATTRIBUTE_WRITER, ITEM_ATTRIBUTE_NAME,
          ITEM_ATTRIBUTE_ARTICLE, ITEM_ATTRIBUTE_PLURALNAME, ITEM_ATTRIBUTE_WEIGHT, ITEM_ATTRIBUTE_ATTACK, ITEM_ATTRIBUTE_DEFENSE,
          ITEM_ATTRIBUTE_EXTRADEFENSE, ITEM_ATTRIBUTE_ARMOR, ITEM_ATTRIBUTE_HITCHANCE, ITEM_ATTRIBUTE_SHOOTRANGE,
          ITEM_ATTRIBUTE_DURATION, ITEM_ATTRIBUTE_DECAYTO, ITEM_ATTRIBUTE_ATTACK_SPEED] \<and> item_hasAttribute t i)"

text \<open>
  The charges are read back by \<open>setSubType\<close>: only a type that counts charges gets them as charges. For a fluid
  they take the place of its type, otherwise that of the count, which has been read before them.
\<close>

definition charges_of :: "item \<Rightarrow> u16" where
  "charges_of i = ucast (item_getIntAttr ITEM_ATTRIBUTE_CHARGES i)"

definition counts_charges :: "item_type \<Rightarrow> bool" where
  "counts_charges it \<longleftrightarrow> \<not> isFluidContainer it \<and> \<not> isSplash it \<and> \<not> it_stackable it \<and> it_charges it \<noteq> 0"

definition loaded_count :: "item_type \<Rightarrow> item \<Rightarrow> item \<Rightarrow> u8" where
  "loaded_count it i b =
     (if isFluidContainer it \<or> isSplash it \<or> counts_charges it then item_count b
      else if charges_of i \<noteq> 0 then ucast (charges_of i)
      else if it_stackable it then item_count i
      else item_count b)"

definition stored :: "item_type \<Rightarrow> item \<Rightarrow> itemAttrTypes \<Rightarrow> attr_value option" where
  "stored it i t =
     (if \<not> written it i t then None
      else if t \<in> set str_types then item_map i t
      else if t = ITEM_ATTRIBUTE_CHARGES \<and> \<not> counts_charges it then None
      else if t = ITEM_ATTRIBUTE_FLUIDTYPE \<and> charges_of i \<noteq> 0 then Some (Integer (ucast (charges_of i)))
      else Some (Integer (cut t (item_getIntAttr t i))))"

text \<open>Strings that fit their length field, and no custom attribute without a value.\<close>

definition short_string :: "attr_value option \<Rightarrow> bool" where
  "short_string v = (case v of Some (Str s) \<Rightarrow> length s \<le> 65535 | _ \<Rightarrow> True)"

fun custom_savable :: "custom_value \<Rightarrow> bool" where
  "custom_savable VBlank = False"
| "custom_savable (VString s) = (length s \<le> 65535)"
| "custom_savable _ = True"

definition customs_savable :: "attr_value option \<Rightarrow> bool" where
  "customs_savable v = (case v of
       Some (Custom m) \<Rightarrow> length m < 2 ^ 64 \<and> (\<forall>(k, v) \<in> set m. length k \<le> 65535 \<and> custom_savable v)
     | _ \<Rightarrow> True)"

definition savable :: "item \<Rightarrow> bool" where
  "savable i \<longleftrightarrow>
     (\<forall>t \<in> set str_types. short_string (item_map i t)) \<and>
     customs_savable (item_map i ITEM_ATTRIBUTE_CUSTOM)"

subsection \<open>Custom attributes\<close>

fun payload_bytes :: "custom_value \<Rightarrow> u8 list" where
  "payload_bytes VBlank = []"
| "payload_bytes (VString s) = string_bytes s"
| "payload_bytes (VInt n) = bytes64 n"
| "payload_bytes (VDouble n) = bytes64 n"
| "payload_bytes (VBool b) = [if b then 1 else 0]"

definition entry_bytes :: "u8 list \<times> custom_value \<Rightarrow> u8 list" where
  "entry_bytes e = string_bytes (fst e) @ which (snd e) # payload_bytes (snd e)"

definition entry_savable :: "u8 list \<times> custom_value \<Rightarrow> bool" where
  "entry_savable e \<longleftrightarrow> length (fst e) \<le> 65535 \<and> custom_savable (snd e)"

lemma serialize_entry_bytes: "entry_savable e \<Longrightarrow> serialize_entry e buf = buf @ entry_bytes e"
  by (cases "snd e")
    (simp_all add: entry_savable_def serialize_entry_def serialize_custom_def entry_bytes_def writeString_bytes write8_def write64_def)

lemma fold_serialize_entry:
  "\<forall>e \<in> set m. entry_savable e \<Longrightarrow> fold serialize_entry m buf = buf @ concat (map entry_bytes m)"
  by (induction m arbitrary: buf) (simp_all add: serialize_entry_bytes)

lemma unserialize_custom_bytes:
  "custom_savable v \<Longrightarrow> unserialize_custom (which v # payload_bytes v @ s) = (Some v, s)"
  by (cases v) (simp_all add: unserialize_custom_def readString_bytes read64_bytes)

lemma read_customs_entries:
  assumes "\<forall>e \<in> set m. entry_savable e" and "custom_ok m" and "item_ok i"
  shows "\<exists>i'. read_customs (length m) \<lparr>ld_item = i, ld_stream = concat (map entry_bytes m) @ s, ld_unique = u\<rparr> =
      Some (ATTR_READ_CONTINUE, \<lparr>ld_item = i', ld_stream = s, ld_unique = u\<rparr>) \<and>
    item_ok i' \<and> item_id i' = item_id i \<and> item_count i' = item_count i \<and>
    (\<forall>t. t \<noteq> ITEM_ATTRIBUTE_CUSTOM \<longrightarrow> item_map i' t = item_map i t) \<and>
    custom_lookup (getAttributes i') = custom_lookup (getAttributes i) ++ map_of m"
  using assms
proof (induction m arbitrary: i)
  case (Cons e m)
  obtain k v where e: "e = (k, v)" by (cases e)
  have k: "map lower8 k = k" "length k \<le> 65535" "custom_savable v" "k \<notin> set (map fst m)"
    using Cons.prems(1,2) by (auto simp: e custom_ok_def entry_savable_def)
  obtain at' where at': "setCustomAttribute k v (getAttributes i) = Some at'" "attributes_ok at'"
      "custom_lookup at' = (custom_lookup (getAttributes i))(map lower8 k \<mapsto> v)"
      "\<And>t. t \<noteq> ITEM_ATTRIBUTE_CUSTOM \<Longrightarrow> attr_map at' t = attr_map (getAttributes i) t"
    using Cons.prems(3) by (auto simp: item_ok_def elim: setCustomAttribute_ok)
  let ?i = "i\<lparr>item_attrs := Some at'\<rparr>"
  have g: "getAttributes ?i = at'" by (simp add: getAttributes_def)
  have "item_ok ?i" using at'(2) g by (simp add: item_ok_def)
  then obtain i' where i': "read_customs (length m) \<lparr>ld_item = ?i, ld_stream = concat (map entry_bytes m) @ s, ld_unique = u\<rparr> =
      Some (ATTR_READ_CONTINUE, \<lparr>ld_item = i', ld_stream = s, ld_unique = u\<rparr>)"
    "item_ok i'" "item_id i' = item_id i" "item_count i' = item_count i"
    "\<forall>t. t \<noteq> ITEM_ATTRIBUTE_CUSTOM \<longrightarrow> item_map i' t = item_map ?i t"
    "custom_lookup (getAttributes i') = custom_lookup at' ++ map_of m"
    using Cons.IH [of ?i] Cons.prems(1,2) g by (auto simp: custom_ok_def)
  have "map_of m k = None" using k(4) by (simp add: map_of_eq_None_iff)
  then have l: "custom_lookup at' ++ map_of m = custom_lookup (getAttributes i) ++ map_of (e # m)"
    using at'(3) k(1) by (auto simp: e map_add_def fun_eq_iff split: option.split)
  have r: "read_customs (length (e # m)) \<lparr>ld_item = i, ld_stream = concat (map entry_bytes (e # m)) @ s, ld_unique = u\<rparr> =
      read_customs (length m) \<lparr>ld_item = ?i, ld_stream = concat (map entry_bytes m) @ s, ld_unique = u\<rparr>"
    using at'(1) k by (simp add: e entry_bytes_def [of "(k, v)"] readString_bytes unserialize_custom_bytes item_setCustomAttribute_def)
  have "item_map ?i t = item_map i t" if "t \<noteq> ITEM_ATTRIBUTE_CUSTOM" for t
    using at'(4) [OF that] g by (simp add: item_map_def)
  then show ?case
    using i'(2-5) unfolding r i'(1) by (intro exI [of _ i'] conjI i'(6) [unfolded l]) simp_all
qed simp

subsection \<open>The whole item\<close>

lemma write_when_bytes:
  "write_when c code (write8 v) buf = buf @ piece c code [v]"
  "write_when c code (write16 w) buf = buf @ piece c code (bytes16 w)"
  "write_when c code (write32 x) buf = buf @ piece c code (bytes32 x)"
  "length s \<le> 65535 \<Longrightarrow> write_when c code (writeString s) buf = buf @ piece c code (string_bytes s)"
  by (simp_all add: write_when_def piece_def write8_def write16_def write32_def writeString_bytes)

text \<open>Reading a part of the stream sets the attributes of a map.\<close>

definition reads :: "item_type \<Rightarrow> u8 list \<Rightarrow> (itemAttrTypes \<rightharpoonup> attr_value) \<Rightarrow> bool" where
  "reads it w m \<longleftrightarrow> (\<forall>i s u. item_ok i \<longrightarrow> (\<exists>i'.
     unserializeAttr it \<lparr>ld_item = i, ld_stream = w @ s, ld_unique = u\<rparr> =
     unserializeAttr it \<lparr>ld_item = i', ld_stream = s, ld_unique = u\<rparr> \<and> sets m i i'))"

lemma readsI:
  assumes "\<And>i s u. unserializeAttr it \<lparr>ld_item = i, ld_stream = w @ s, ld_unique = u\<rparr> =
      unserializeAttr it \<lparr>ld_item = f i, ld_stream = s, ld_unique = u\<rparr>" and "\<And>i. item_ok i \<Longrightarrow> sets m i (f i)"
  shows "reads it w m"
  using assms by (fastforce simp: reads_def)

lemma reads_append: "reads it w m \<Longrightarrow> reads it w' m' \<Longrightarrow> reads it (w @ w') (m ++ m')"
  unfolding reads_def
proof (intro allI impI)
  fix i s u
  assume r: "\<forall>i s u. item_ok i \<longrightarrow> (\<exists>i'.
        unserializeAttr it \<lparr>ld_item = i, ld_stream = w @ s, ld_unique = u\<rparr> =
        unserializeAttr it \<lparr>ld_item = i', ld_stream = s, ld_unique = u\<rparr> \<and> sets m i i')"
    and r': "\<forall>i s u. item_ok i \<longrightarrow> (\<exists>i'.
        unserializeAttr it \<lparr>ld_item = i, ld_stream = w' @ s, ld_unique = u\<rparr> =
        unserializeAttr it \<lparr>ld_item = i', ld_stream = s, ld_unique = u\<rparr> \<and> sets m' i i')"
    and ok: "item_ok i"
  obtain i1 where 1: "unserializeAttr it \<lparr>ld_item = i, ld_stream = w @ w' @ s, ld_unique = u\<rparr> =
      unserializeAttr it \<lparr>ld_item = i1, ld_stream = w' @ s, ld_unique = u\<rparr>" "sets m i i1"
    using r ok by blast
  have "item_ok i1" using 1(2) by (simp add: sets_def)
  then obtain i2 where 2: "unserializeAttr it \<lparr>ld_item = i1, ld_stream = w' @ s, ld_unique = u\<rparr> =
      unserializeAttr it \<lparr>ld_item = i2, ld_stream = s, ld_unique = u\<rparr>" "sets m' i1 i2"
    using r' \<open>item_ok i1\<close> by blast
  show "\<exists>i'. unserializeAttr it \<lparr>ld_item = i, ld_stream = (w @ w') @ s, ld_unique = u\<rparr> =
      unserializeAttr it \<lparr>ld_item = i', ld_stream = s, ld_unique = u\<rparr> \<and> sets (m ++ m') i i'"
    using 1(1) 2(1) sets_trans [OF 1(2) 2(2)] by (intro exI [of _ i2]) simp
qed

definition when_map :: "bool \<Rightarrow> itemAttrTypes \<Rightarrow> attr_value \<Rightarrow> (itemAttrTypes \<rightharpoonup> attr_value)" where
  "when_map c t v = (if c then [t \<mapsto> v] else Map.empty)"

definition at_least :: "itemAttrTypes \<Rightarrow> u64 \<Rightarrow> u64" where
  "at_least t n = (if t = ITEM_ATTRIBUTE_ATTACK_SPEED \<and> sint n < 100 then 100 else n)"

lemma sets_when_int:
  "item_ok i \<Longrightarrow> t \<in> set int_types \<Longrightarrow> sets (when_map c t (Integer (at_least t n))) i (if c then item_setIntAttr t n i else i)"
  using sets_int [of i t n] sets_refl [of i] by (simp add: when_map_def at_least_def)

lemma sets_when_str:
  "item_ok i \<Longrightarrow> t \<in> set str_types \<Longrightarrow> sets (when_map (c \<and> s \<noteq> []) t (Str s)) i (if c then item_setStrAttr t s i else i)"
  using sets_str [of i t s] sets_refl [of i] by (cases "s = []") (simp_all add: when_map_def)

lemma reads8:
  assumes "readAttr it code = read_then read8 (\<lambda>n. on_item (item_setIntAttr t (g n)))" and "code \<noteq> 0" and "t \<in> set int_types"
  shows "reads it (piece c code [v]) (when_map c t (Integer (at_least t (g v))))"
  by (rule readsI [where f = "\<lambda>i. if c then item_setIntAttr t (g v) i else i"])
    (use read_piece8 [OF assms(2,1)] sets_when_int assms(3) in auto)

lemma reads16:
  assumes "readAttr it code = read_then read16 (\<lambda>n. on_item (item_setIntAttr t (g n)))" and "code \<noteq> 0" and "t \<in> set int_types"
  shows "reads it (piece c code (bytes16 v)) (when_map c t (Integer (at_least t (g v))))"
  by (rule readsI [where f = "\<lambda>i. if c then item_setIntAttr t (g v) i else i"])
    (use read_piece16 [OF assms(2,1)] sets_when_int assms(3) in auto)

lemma reads32:
  assumes "readAttr it code = read_then read32 (\<lambda>n. on_item (item_setIntAttr t (g n)))" and "code \<noteq> 0" and "t \<in> set int_types"
  shows "reads it (piece c code (bytes32 v)) (when_map c t (Integer (at_least t (g v))))"
  by (rule readsI [where f = "\<lambda>i. if c then item_setIntAttr t (g v) i else i"])
    (use read_piece32 [OF assms(2,1)] sets_when_int assms(3) in auto)

lemma reads_str:
  assumes "readAttr it code = readString_then (\<lambda>n. on_item (item_setStrAttr t n))" and "code \<noteq> 0" and "t \<in> set str_types"
    and "length v \<le> 65535"
  shows "reads it (piece c code (string_bytes v)) (when_map (c \<and> v \<noteq> []) t (Str v))"
  by (rule readsI [where f = "\<lambda>i. if c then item_setStrAttr t v i else i"])
    (use read_piece_string [OF assms(2,1,4)] sets_when_str assms(3) in auto)

lemma reads_decaying:
  assumes "c \<Longrightarrow> v \<noteq> DECAYING_FALSE"
  shows "reads it (piece c ATTR_DECAYING_STATE [v]) (when_map c ITEM_ATTRIBUTE_DECAYSTATE (Integer 2))"
proof (rule readsI [where f = "\<lambda>i. if c then item_setIntAttr ITEM_ATTRIBUTE_DECAYSTATE (ucast DECAYING_PENDING) i else i"])
  fix i assume "item_ok i"
  from sets_when_int [OF this, of ITEM_ATTRIBUTE_DECAYSTATE c "ucast DECAYING_PENDING"]
  show "sets (when_map c ITEM_ATTRIBUTE_DECAYSTATE (Integer 2)) i
      (if c then item_setIntAttr ITEM_ATTRIBUTE_DECAYSTATE (ucast DECAYING_PENDING) i else i)"
    by (simp add: int_types_def at_least_def DECAYING_PENDING_def)
qed (use assms read_piece8 [OF _ readAttr_decaying] in \<open>auto simp: attr_codes\<close>)

lemma reads_charges:
  assumes "item_ok i"
  shows "\<exists>i'. unserializeAttr it \<lparr>ld_item = i, ld_stream = piece c ATTR_CHARGES (bytes16 v) @ s, ld_unique = u\<rparr> =
      unserializeAttr it \<lparr>ld_item = i', ld_stream = s, ld_unique = u\<rparr> \<and>
    item_ok i' \<and> item_id i' = item_id i \<and>
    item_count i' = (if c \<and> \<not> isFluidContainer it \<and> \<not> isSplash it \<and> \<not> counts_charges it then ucast v else item_count i) \<and>
    item_map i' = item_map i ++ when_map (c \<and> (isFluidContainer it \<or> isSplash it)) ITEM_ATTRIBUTE_FLUIDTYPE (Integer (ucast v)) ++
      when_map (c \<and> counts_charges it) ITEM_ATTRIBUTE_CHARGES (Integer (ucast v))"
proof -
  let ?i = "if c then setSubType it v i else i"
  have r: "unserializeAttr it \<lparr>ld_item = i, ld_stream = piece c ATTR_CHARGES (bytes16 v) @ s, ld_unique = u\<rparr> =
      unserializeAttr it \<lparr>ld_item = ?i, ld_stream = s, ld_unique = u\<rparr>"
    by (rule read_piece16 [OF _ readAttr_int(13)]) (simp add: attr_codes)
  have "item_ok ?i \<and> item_id ?i = item_id i \<and>
    item_count ?i = (if c \<and> \<not> isFluidContainer it \<and> \<not> isSplash it \<and> \<not> counts_charges it then ucast v else item_count i) \<and>
    item_map ?i = item_map i ++ when_map (c \<and> (isFluidContainer it \<or> isSplash it)) ITEM_ATTRIBUTE_FLUIDTYPE (Integer (ucast v)) ++
      when_map (c \<and> counts_charges it) ITEM_ATTRIBUTE_CHARGES (Integer (ucast v))"
    using assms sets_int [OF assms, of ITEM_ATTRIBUTE_FLUIDTYPE "ucast v"] sets_int [OF assms, of ITEM_ATTRIBUTE_CHARGES "ucast v"]
    by (auto simp: setSubType_def counts_charges_def sets_def when_map_def int_types_def item_ok_def item_map_def)
  then show ?thesis using r by blast
qed

lemma reads_count:
  assumes "item_ok i"
  shows "\<exists>i'. unserializeAttr it \<lparr>ld_item = i, ld_stream = piece (it_stackable it \<or> isFluidContainer it \<or> isSplash it) ATTR_COUNT [v] @ s, ld_unique = u\<rparr> =
      unserializeAttr it \<lparr>ld_item = i', ld_stream = s, ld_unique = u\<rparr> \<and>
    item_ok i' \<and> item_id i' = item_id i \<and>
    item_count i' = (if it_stackable it \<and> \<not> isFluidContainer it \<and> \<not> isSplash it then v else item_count i) \<and>
    item_map i' = item_map i ++ when_map (isFluidContainer it \<or> isSplash it) ITEM_ATTRIBUTE_FLUIDTYPE (Integer (ucast v))"
proof -
  let ?i = "if it_stackable it \<or> isFluidContainer it \<or> isSplash it then setSubType it (ucast v) i else i"
  have r: "unserializeAttr it \<lparr>ld_item = i, ld_stream = piece (it_stackable it \<or> isFluidContainer it \<or> isSplash it) ATTR_COUNT [v] @ s, ld_unique = u\<rparr> =
      unserializeAttr it \<lparr>ld_item = ?i, ld_stream = s, ld_unique = u\<rparr>"
    by (rule read_piece8 [OF _ readAttr_int(12)]) (simp add: attr_codes)
  have u: "(ucast (ucast v :: u16) :: u64) = ucast v" and d: "(ucast (ucast v :: u16) :: u8) = v"
    by (rule bit_word_eqI, auto simp: bit_simps dest: bit_imp_le_length)+
  have "item_ok ?i \<and> item_id ?i = item_id i \<and>
    item_count ?i = (if it_stackable it \<and> \<not> isFluidContainer it \<and> \<not> isSplash it then v else item_count i) \<and>
    item_map ?i = item_map i ++ when_map (isFluidContainer it \<or> isSplash it) ITEM_ATTRIBUTE_FLUIDTYPE (Integer (ucast v))"
    using assms sets_int [OF assms, of ITEM_ATTRIBUTE_FLUIDTYPE "ucast v"] u d
    by (auto simp: setSubType_def sets_def when_map_def int_types_def item_ok_def item_map_def)
  then show ?thesis using r by blast
qed

lemma read_custom_attributes:
  assumes "\<forall>e \<in> set m. entry_savable e" and "custom_ok m" and "length m < 2 ^ 64" and "item_ok i"
  shows "\<exists>i'. unserializeAttr it \<lparr>ld_item = i, ld_stream = ATTR_CUSTOM_ATTRIBUTES # bytes64 (of_nat (length m)) @ concat (map entry_bytes m) @ s, ld_unique = u\<rparr> =
      unserializeAttr it \<lparr>ld_item = i', ld_stream = s, ld_unique = u\<rparr> \<and>
    item_ok i' \<and> item_id i' = item_id i \<and> item_count i' = item_count i \<and>
    (\<forall>t. t \<noteq> ITEM_ATTRIBUTE_CUSTOM \<longrightarrow> item_map i' t = item_map i t) \<and>
    custom_lookup (getAttributes i') = custom_lookup (getAttributes i) ++ map_of m"
proof -
  obtain i' where i': "read_customs (length m) \<lparr>ld_item = i, ld_stream = concat (map entry_bytes m) @ s, ld_unique = u\<rparr> =
      Some (ATTR_READ_CONTINUE, \<lparr>ld_item = i', ld_stream = s, ld_unique = u\<rparr>)"
    and *: "item_ok i'" "item_id i' = item_id i" "item_count i' = item_count i"
    "\<forall>t. t \<noteq> ITEM_ATTRIBUTE_CUSTOM \<longrightarrow> item_map i' t = item_map i t"
    "custom_lookup (getAttributes i') = custom_lookup (getAttributes i) ++ map_of m"
    using read_customs_entries [OF assms(1,2,4)] by blast
  have "unat (of_nat (length m) :: u64) = length m" using assms(3) by (simp add: unat_of_nat)
  then have "readAttr it ATTR_CUSTOM_ATTRIBUTES \<lparr>ld_item = i, ld_stream = (bytes64 (of_nat (length m)) @ concat (map entry_bytes m)) @ s, ld_unique = u\<rparr> =
      Some (ATTR_READ_CONTINUE, \<lparr>ld_item = i', ld_stream = s, ld_unique = u\<rparr>)"
    using i' by (simp add: readAttr_def attr_codes read64_bytes)
  from unserialize_continue [OF _ this] show ?thesis using * by (auto simp: attr_codes_nonzero)
qed

text \<open>The text of an attribute, empty when it is missing.\<close>

definition text_of :: "itemAttrTypes \<Rightarrow> item \<Rightarrow> u8 list" where
  "text_of t i = (case item_map i t of Some (Str s) \<Rightarrow> s | _ \<Rightarrow> [])"

lemma text_short: "savable i \<Longrightarrow> t \<in> set str_types \<Longrightarrow> length (text_of t i) \<le> 65535"
  by (auto simp: savable_def short_string_def text_of_def split: option.splits attr_value.splits)

text \<open>The attributes that are not custom, in the order they are saved in, after the charges.\<close>

definition saved_order :: "itemAttrTypes list" where
  "saved_order = [ITEM_ATTRIBUTE_ACTIONID, ITEM_ATTRIBUTE_TEXT, ITEM_ATTRIBUTE_DATE,
     ITEM_ATTRIBUTE_WRITER, ITEM_ATTRIBUTE_DESCRIPTION, ITEM_ATTRIBUTE_DURATION, ITEM_ATTRIBUTE_DECAYSTATE,
     ITEM_ATTRIBUTE_NAME, ITEM_ATTRIBUTE_ARTICLE, ITEM_ATTRIBUTE_PLURALNAME, ITEM_ATTRIBUTE_WEIGHT,
     ITEM_ATTRIBUTE_ATTACK, ITEM_ATTRIBUTE_ATTACK_SPEED, ITEM_ATTRIBUTE_DEFENSE, ITEM_ATTRIBUTE_EXTRADEFENSE,
     ITEM_ATTRIBUTE_ARMOR, ITEM_ATTRIBUTE_HITCHANCE, ITEM_ATTRIBUTE_SHOOTRANGE, ITEM_ATTRIBUTE_DECAYTO]"

fun code_of :: "itemAttrTypes \<Rightarrow> u8" where
  "code_of ITEM_ATTRIBUTE_CHARGES = ATTR_CHARGES"
| "code_of ITEM_ATTRIBUTE_ACTIONID = ATTR_ACTION_ID"
| "code_of ITEM_ATTRIBUTE_TEXT = ATTR_TEXT"
| "code_of ITEM_ATTRIBUTE_DATE = ATTR_WRITTENDATE"
| "code_of ITEM_ATTRIBUTE_WRITER = ATTR_WRITTENBY"
| "code_of ITEM_ATTRIBUTE_DESCRIPTION = ATTR_DESC"
| "code_of ITEM_ATTRIBUTE_DURATION = ATTR_DURATION"
| "code_of ITEM_ATTRIBUTE_DECAYSTATE = ATTR_DECAYING_STATE"
| "code_of ITEM_ATTRIBUTE_NAME = ATTR_NAME"
| "code_of ITEM_ATTRIBUTE_ARTICLE = ATTR_ARTICLE"
| "code_of ITEM_ATTRIBUTE_PLURALNAME = ATTR_PLURALNAME"
| "code_of ITEM_ATTRIBUTE_WEIGHT = ATTR_WEIGHT"
| "code_of ITEM_ATTRIBUTE_ATTACK = ATTR_ATTACK"
| "code_of ITEM_ATTRIBUTE_ATTACK_SPEED = ATTR_ATTACK_SPEED"
| "code_of ITEM_ATTRIBUTE_DEFENSE = ATTR_DEFENSE"
| "code_of ITEM_ATTRIBUTE_EXTRADEFENSE = ATTR_EXTRADEFENSE"
| "code_of ITEM_ATTRIBUTE_ARMOR = ATTR_ARMOR"
| "code_of ITEM_ATTRIBUTE_HITCHANCE = ATTR_HITCHANCE"
| "code_of ITEM_ATTRIBUTE_SHOOTRANGE = ATTR_SHOOTRANGE"
| "code_of ITEM_ATTRIBUTE_DECAYTO = ATTR_DECAYTO"
| "code_of _ = 0"

definition payload :: "itemAttrTypes \<Rightarrow> item \<Rightarrow> u8 list" where
  "payload t i =
     (let n = item_getIntAttr t i in
      if t \<in> set str_types then string_bytes (text_of t i)
      else if t \<in> {ITEM_ATTRIBUTE_CHARGES, ITEM_ATTRIBUTE_ACTIONID} then bytes16 (ucast n)
      else if t \<in> {ITEM_ATTRIBUTE_DECAYSTATE, ITEM_ATTRIBUTE_HITCHANCE, ITEM_ATTRIBUTE_SHOOTRANGE} then [ucast n]
      else bytes32 (ucast n))"

definition attr_bytes :: "item_type \<Rightarrow> item \<Rightarrow> itemAttrTypes \<Rightarrow> u8 list" where
  "attr_bytes it i t = piece (written it i t) (code_of t) (payload t i)"

definition plain_bytes :: "item_type \<Rightarrow> item \<Rightarrow> u8 list" where
  "plain_bytes it i = attr_bytes it i ITEM_ATTRIBUTE_CHARGES @ concat (map (attr_bytes it i) saved_order)"

lemma text_of_map:
  assumes "item_ok i" and "t \<in> set str_types"
  shows "item_map i t = (if text_of t i = [] then None else Some (Str (text_of t i)))"
    and "item_hasAttribute t i \<longleftrightarrow> text_of t i \<noteq> []"
proof -
  have "item_map i t = None \<or> (\<exists>s. item_map i t = Some (Str s) \<and> s \<noteq> [])"
    using attr_map_value_ok [of "getAttributes i" t] assms str_types_disjoint [OF assms(2)]
    by (cases "item_map i t"; cases "the (item_map i t)") (auto simp: item_ok_def item_map_def)
  then show "item_map i t = (if text_of t i = [] then None else Some (Str (text_of t i)))"
    and "item_hasAttribute t i \<longleftrightarrow> text_of t i \<noteq> []"
    using item_hasAttribute_map [OF assms(1)] by (auto simp: text_of_def)
qed

definition custom_bytes :: "item \<Rightarrow> u8 list" where
  "custom_bytes i = (case item_map i ITEM_ATTRIBUTE_CUSTOM of
       Some (Custom m) \<Rightarrow> ATTR_CUSTOM_ATTRIBUTES # bytes64 (of_nat (length m)) @ concat (map entry_bytes m)
     | _ \<Rightarrow> [])"

lemma getCustomAttributeMap_item:
  assumes "item_ok i" and "item_hasAttribute ITEM_ATTRIBUTE_CUSTOM i"
  obtains k m where "getCustomAttributeMap (getAttributes i) = Some (Some (k, m))"
    and "item_map i ITEM_ATTRIBUTE_CUSTOM = Some (Custom m)" and "custom_ok m"
  using assms item_hasAttribute_map [OF assms(1), of ITEM_ATTRIBUTE_CUSTOM] getCustomAttributeMap_cases [of "getAttributes i" thesis]
  by (auto simp: item_ok_def item_map_def)

lemma serializeAttr_bytes:
  assumes ok: "item_ok i" and sv: "savable i"
  shows "serializeAttr it i buf = Some (buf @
    piece (it_stackable it \<or> isFluidContainer it \<or> isSplash it) ATTR_COUNT [ucast (getSubType it i)] @
    plain_bytes it i @ custom_bytes i)"
proof -
  have str: "item_getStrAttr t i = Some (text_of t i)" if "t \<in> set str_types" for t
  proof -
    have "t \<noteq> ITEM_ATTRIBUTE_NONE" using that by (auto simp: str_types_def)
    then show ?thesis using item_getStrAttr_map [OF ok] by (simp add: text_of_def)
  qed
  have strs: "t \<in> set str_types" if "t \<in> {ITEM_ATTRIBUTE_TEXT, ITEM_ATTRIBUTE_WRITER, ITEM_ATTRIBUTE_DESCRIPTION,
      ITEM_ATTRIBUTE_NAME, ITEM_ATTRIBUTE_ARTICLE, ITEM_ATTRIBUTE_PLURALNAME}" for t
    using that by (auto simp: str_types_def)
  have lens: "length (text_of t i) \<le> 65535" if "t \<in> {ITEM_ATTRIBUTE_TEXT, ITEM_ATTRIBUTE_WRITER, ITEM_ATTRIBUTE_DESCRIPTION,
      ITEM_ATTRIBUTE_NAME, ITEM_ATTRIBUTE_ARTICLE, ITEM_ATTRIBUTE_PLURALNAME}" for t
    using text_short [OF sv strs [OF that]] .
  have custom: "(case c of None \<Rightarrow> b | Some m \<Rightarrow> fold serialize_entry m (write64 (of_nat (length m)) (write8 ATTR_CUSTOM_ATTRIBUTES b))) =
      b @ custom_bytes i"
    if "(if item_hasAttribute ITEM_ATTRIBUTE_CUSTOM i then map_option (map_option snd) (getCustomAttributeMap (getAttributes i)) else Some None) = Some c"
    for b c
  proof (cases "item_hasAttribute ITEM_ATTRIBUTE_CUSTOM i")
    case True
    then obtain k m where m: "getCustomAttributeMap (getAttributes i) = Some (Some (k, m))"
        "item_map i ITEM_ATTRIBUTE_CUSTOM = Some (Custom m)" "custom_ok m"
      using getCustomAttributeMap_item [OF ok] by blast
    have "\<forall>e \<in> set m. entry_savable e"
      using sv m(2) by (auto simp: savable_def customs_savable_def entry_savable_def)
    then show ?thesis
      using that True m by (auto simp: custom_bytes_def fold_serialize_entry write64_def write8_def)
  next
    case False
    then show ?thesis using that item_hasAttribute_map [OF ok] by (simp add: custom_bytes_def)
  qed
  obtain c where c: "(if item_hasAttribute ITEM_ATTRIBUTE_CUSTOM i then map_option (map_option snd) (getCustomAttributeMap (getAttributes i)) else Some None) = Some c"
  proof (cases "item_hasAttribute ITEM_ATTRIBUTE_CUSTOM i")
    case True
    then show thesis by (rule getCustomAttributeMap_item [OF ok]) (use that True in auto)
  qed (use that in auto)
  show ?thesis
    unfolding serializeAttr_def Let_def c using custom [OF c]
    by (simp add: str strs lens write_when_bytes plain_bytes_def saved_order_def attr_bytes_def payload_def written_def
        text_of_map(2) [OF ok] str_types_def getDecaying_def)
qed

lemma stored_only:
  assumes "item_ok i" and "t \<noteq> ITEM_ATTRIBUTE_CHARGES" and "t \<noteq> ITEM_ATTRIBUTE_FLUIDTYPE"
  shows "stored it i |` {t} = when_map (written it i t) t (if t \<in> set str_types then Str (text_of t i) else Integer (cut t (item_getIntAttr t i)))"
proof -
  have "written it i t \<Longrightarrow> t \<in> set str_types \<Longrightarrow> item_hasAttribute t i"
    by (auto simp: written_def str_types_def split: if_split_asm)
  then show ?thesis
    using text_of_map [OF assms(1), of t] assms(2,3) by (auto simp: stored_def when_map_def restrict_map_def fun_eq_iff)
qed

lemma reads_attr:
  assumes ok: "item_ok i" and sv: "savable i" and t: "t \<in> set saved_order"
  shows "reads it (attr_bytes it i t) (stored it i |` {t})"
proof -
  let ?n = "item_getIntAttr t i" and ?c = "written it i t"
  have other: "t \<noteq> ITEM_ATTRIBUTE_CHARGES" "t \<noteq> ITEM_ATTRIBUTE_FLUIDTYPE" using t by (auto simp: saved_order_def)
  consider "t \<in> set str_types" | "t = ITEM_ATTRIBUTE_ACTIONID" | "t = ITEM_ATTRIBUTE_DECAYSTATE"
    | "t \<in> {ITEM_ATTRIBUTE_HITCHANCE, ITEM_ATTRIBUTE_SHOOTRANGE}"
    | "t = ITEM_ATTRIBUTE_DURATION"
    | "t \<in> {ITEM_ATTRIBUTE_DATE, ITEM_ATTRIBUTE_WEIGHT, ITEM_ATTRIBUTE_ATTACK, ITEM_ATTRIBUTE_ATTACK_SPEED,
        ITEM_ATTRIBUTE_DEFENSE, ITEM_ATTRIBUTE_EXTRADEFENSE, ITEM_ATTRIBUTE_ARMOR, ITEM_ATTRIBUTE_DECAYTO}"
    using t by (auto simp: saved_order_def str_types_def)
  then show ?thesis
  proof cases
    case 1
    have w: "?c \<longleftrightarrow> ?c \<and> text_of t i \<noteq> []"
      using 1 text_of_map(2) [OF ok 1] by (auto simp: written_def str_types_def)
    have "readAttr it (code_of t) = readString_then (\<lambda>n. on_item (item_setStrAttr t n))" "code_of t \<noteq> 0"
      using 1 by (auto simp: str_types_def readAttr_str attr_codes_nonzero)
    from reads_str [OF this 1 text_short [OF sv 1], of ?c] show ?thesis
      unfolding stored_only [OF ok other] using 1 w by (simp add: attr_bytes_def payload_def)
  next
    case 2
    have g: "readAttr it ATTR_ACTION_ID = read_then read16 (\<lambda>n. on_item (item_setIntAttr t (ucast (if n < 100 then 100 else n))))"
      by (simp add: 2 readAttr_int setActionId_def)
    from reads16 [OF g, of ?c "ucast ?n"] show ?thesis
      unfolding stored_only [OF ok other] using 2
      by (cases "(ucast ?n :: u16) < 100")
        (simp_all add: attr_bytes_def payload_def str_types_def int_types_def attr_codes_nonzero at_least_def)
  next
    case 3
    have "?c \<Longrightarrow> (ucast ?n :: u8) \<noteq> DECAYING_FALSE"
      using 3 by (auto simp: written_def getDecaying_def DECAYING_FALSE_def DECAYING_TRUE_def DECAYING_PENDING_def)
    from reads_decaying [OF this] show ?thesis
      unfolding stored_only [OF ok other] using 3 by (simp add: attr_bytes_def payload_def str_types_def)
  next
    case 4
    then show ?thesis
      unfolding stored_only [OF ok other]
      using reads8 [OF readAttr_int(9), of it ?c "ucast ?n"] reads8 [OF readAttr_int(10), of it ?c "ucast ?n"]
      by (auto simp: attr_bytes_def payload_def str_types_def int_types_def attr_codes_nonzero at_least_def)
  next
    case 5
    then show ?thesis
      unfolding stored_only [OF ok other]
      using reads32 [OF readAttr_int(2), of it ?c "ucast ?n"]
      by (cases "sint (ucast ?n :: u32) < 0")
        (simp_all add: attr_bytes_def payload_def str_types_def int_types_def attr_codes_nonzero at_least_def)
  next
    case 6
    then show ?thesis
      unfolding stored_only [OF ok other]
      using readAttr_int(1,3-8,11) [of it, THEN reads32, of ?c "ucast ?n"]
      by (elim insertE emptyE; simp add: attr_bytes_def payload_def str_types_def int_types_def attr_codes_nonzero at_least_def Let_def)
  qed
qed

lemma reads_all:
  "(\<forall>t \<in> set ts. reads it (b t) (f |` {t})) \<Longrightarrow> reads it (concat (map b ts)) (f |` set ts)"
proof (induction ts)
  case Nil
  show ?case by (auto simp: reads_def intro: sets_refl)
next
  case (Cons t ts)
  have "f |` set (t # ts) = (f |` {t}) ++ (f |` set ts)"
    by (auto simp: restrict_map_def map_add_def fun_eq_iff split: option.split)
  then show ?case using Cons reads_append [of it "b t" "f |` {t}"] by auto
qed

lemma ucast_16_8: "(ucast (ucast (n :: 'a::len word) :: u16) :: u8) = ucast n"
  by (rule bit_word_eqI) (auto simp: bit_simps)



text \<open>C27: the vector of attributes with its bits is a finite map. Every operation keeps the vector and
  the bits consistent, never goes through a null string or map, and does on the map what its name says:
  the readers look up, the setters update (an attack speed is at least 100, an empty text changes
  nothing), removal forgets one type, and custom attributes are a map by lower-case key.\<close>

theorem attributes_are_a_map:
  assumes ok: "attributes_ok at" and n: "t \<noteq> ITEM_ATTRIBUTE_NONE"
  shows "(hasAttribute t at \<longleftrightarrow> attr_map at t \<noteq> None) \<and>
    getIntAttr t at = (case attr_map at t of Some (Integer k) \<Rightarrow> k | _ \<Rightarrow> 0) \<and>
    getStrAttr t at = Some (case attr_map at t of Some (Str s) \<Rightarrow> s | _ \<Rightarrow> []) \<and>
    getCustomAttribute key at = Some (custom_lookup at (map lower8 key)) \<and>
    attributes_ok (setIntAttr t v at) \<and>
    attr_map (setIntAttr t v at) =
      (if isIntAttrType t then (attr_map at)(t \<mapsto> Integer (if t = ITEM_ATTRIBUTE_ATTACK_SPEED \<and> sint v < 100 then 100 else v)) else attr_map at) \<and>
    attributes_ok (setStrAttr t s at) \<and>
    attr_map (setStrAttr t s at) = (if isStrAttrType t \<and> s \<noteq> [] then (attr_map at)(t \<mapsto> Str s) else attr_map at) \<and>
    (\<exists>at'. removeAttribute t at = Some at' \<and> attributes_ok at' \<and> attr_map at' = (attr_map at)(t := None)) \<and>
    (\<exists>at'. setCustomAttribute key w at = Some at' \<and> attributes_ok at' \<and> custom_lookup at' = (custom_lookup at)(map lower8 key \<mapsto> w)) \<and>
    (\<exists>b at'. removeCustomAttribute key at = Some (b, at') \<and> attributes_ok at' \<and> custom_lookup at' = (custom_lookup at)(map lower8 key := None))"
proof (intro conjI)
  show "\<exists>at'. removeAttribute t at = Some at' \<and> attributes_ok at' \<and> attr_map at' = (attr_map at)(t := None)"
    by (rule removeAttribute_ok [OF ok, of t]) blast
  show "\<exists>at'. setCustomAttribute key w at = Some at' \<and> attributes_ok at' \<and> custom_lookup at' = (custom_lookup at)(map lower8 key \<mapsto> w)"
    by (rule setCustomAttribute_ok [OF ok, of key w]) blast
  show "\<exists>b at'. removeCustomAttribute key at = Some (b, at') \<and> attributes_ok at' \<and> custom_lookup at' = (custom_lookup at)(map lower8 key := None)"
    by (rule removeCustomAttribute_ok [OF ok, of key]) blast
  show "attr_map (setIntAttr t v at) =
      (if isIntAttrType t then (attr_map at)(t \<mapsto> Integer (if t = ITEM_ATTRIBUTE_ATTACK_SPEED \<and> sint v < 100 then 100 else v)) else attr_map at)"
    using attr_map_setIntAttr [OF ok, of t v] isIntAttrType_iff [OF n] by (simp add: setIntAttr_put)
  show "attr_map (setStrAttr t s at) = (if isStrAttrType t \<and> s \<noteq> [] then (attr_map at)(t \<mapsto> Str s) else attr_map at)"
    using attr_map_setStrAttr [OF ok, of t s] isStrAttrType_iff [OF n]
    by (cases "t \<in> set str_types") (auto simp: setStrAttr_put)
qed (simp_all add: hasAttribute_map getIntAttr_map getStrAttr_map getCustomAttribute_map setIntAttr_ok setStrAttr_ok ok n)

lemma attributes_are_a_map_witness:
  "getIntAttr ITEM_ATTRIBUTE_WEIGHT new_attributes = 0 \<and>
   (\<exists>at'. removeAttribute ITEM_ATTRIBUTE_WEIGHT new_attributes = Some at')"
  using attributes_are_a_map [of new_attributes ITEM_ATTRIBUTE_WEIGHT "[]" 5 "[]" VBlank] by auto

end
