(* ===== verification/Container.thy ===== *)
theory Container
  imports ItemAttr
begin

text \<open>
  Containers, \<open>src/src/container.cpp\<close> and \<open>container.h\<close>, with the parts of \<open>Item\<close> they rest on: items
  that hold items, each with a pointer to what holds it, and the total weight that every container
  keeps of what is in it. Items live in a heap; a cylinder is a container, a creature that carries, a
  tile, or the virtual cylinder. Looping through parents is a partial function, whose None is a loop
  that does not end. Messages to spectators are left out.
\<close>

section \<open>Items\<close>

datatype ReturnValue =
    RETURNVALUE_NOERROR | RETURNVALUE_NOTPOSSIBLE | RETURNVALUE_NOTENOUGHROOM | RETURNVALUE_PLAYERISNOTINVITED
  | RETURNVALUE_NOTMOVEABLE | RETURNVALUE_NEEDEXCHANGE | RETURNVALUE_CONTAINERNOTENOUGHROOM
  | RETURNVALUE_NOTENOUGHCAPACITY | RETURNVALUE_CANNOTPICKUP | RETURNVALUE_THISISIMPOSSIBLE | RETURNVALUE_OTHER nat

definition getBaseWeight :: "item_type \<Rightarrow> item \<Rightarrow> u32" where
  "getBaseWeight it i =
     (if item_hasAttribute ITEM_ATTRIBUTE_WEIGHT i then ucast (item_getIntAttr ITEM_ATTRIBUTE_WEIGHT i) else it_weight it)"

definition getStackSize :: "item_type \<Rightarrow> u8" where
  "getStackSize it = (if it_stackable it then it_stackSize it else 1)"

text \<open>\<open>Item::getWeight\<close>, what the item weighs without what is in it.\<close>

definition item_getWeight :: "item_type \<Rightarrow> item \<Rightarrow> u32" where
  "item_getWeight it i =
     (if it_stackable it then getBaseWeight it i * max 1 (ucast (item_count i)) else getBaseWeight it i)"

text \<open>\<open>Item::equals\<close>. Custom attributes are compared by the address of their map, so that those of two
  objects differ.\<close>

fun value_equal :: "bool \<Rightarrow> attr_value \<Rightarrow> attr_value \<Rightarrow> bool" where
  "value_equal same_object (Custom m) (Custom n) = same_object"
| "value_equal same_object v w = (v = w)"

definition item_equals :: "bool \<Rightarrow> item \<Rightarrow> item \<Rightarrow> bool" where
  "item_equals same_object i j =
     (if item_id i \<noteq> item_id j then False
      else case item_attrs i of
          None \<Rightarrow> (case item_attrs j of None \<Rightarrow> True | Some b \<Rightarrow> attributeBits b = 0)
        | Some a \<Rightarrow>
            (case item_attrs j of
               None \<Rightarrow> attributeBits a = 0
             | Some b \<Rightarrow> attributeBits a = attributeBits b \<and>
                 (\<forall>x \<in> set (attr_list a). \<forall>y \<in> set (attr_list b).
                    attr_type x = attr_type y \<longrightarrow> value_equal same_object (attr_val x) (attr_val y))))"

definition item_removeAttribute :: "itemAttrTypes \<Rightarrow> item \<Rightarrow> item option" where
  "item_removeAttribute t i =
     (case item_attrs i of
        None \<Rightarrow> Some i
      | Some at \<Rightarrow> map_option (\<lambda>at'. i\<lparr>item_attrs := Some at'\<rparr>) (removeAttribute t at))"

text \<open>\<open>Item::setID\<close>; \<open>rnd\<close> is the duration drawn between the bounds of the new type.\<close>

definition setID :: "(u16 \<Rightarrow> item_type) \<Rightarrow> u32 \<Rightarrow> u16 \<Rightarrow> item \<Rightarrow> item option" where
  "setID its rnd newid i =
     do {
       let prevIt = its (item_id i);
       let it = its newid;
       let i = i\<lparr>item_id := newid\<rparr>;
       let newDuration = (if it_decayTimeMin it \<noteq> 0 \<and> it_decayTimeMax it \<noteq> 0 then rnd * 1000 else it_decayTimeMin it * 1000);
       i \<leftarrow> (if newDuration = 0 \<and> \<not> it_stopTime it \<and> sint (it_decayTo it) < 0
            then item_removeAttribute ITEM_ATTRIBUTE_DECAYSTATE i \<bind> item_removeAttribute ITEM_ATTRIBUTE_DURATION
            else Some i);
       i \<leftarrow> item_removeAttribute ITEM_ATTRIBUTE_CORPSEOWNER i;
       Some (if newDuration > 0 \<and> (\<not> it_stopTime prevIt \<or> \<not> item_hasAttribute ITEM_ATTRIBUTE_DURATION i)
         then setDuration newDuration (item_setIntAttr ITEM_ATTRIBUTE_DECAYSTATE (ucast DECAYING_FALSE) i)
         else i)
     }"

section \<open>The heap\<close>

datatype cylinder = Cont nat | Creat nat | Til nat | Virtual

record container =
  itemlist :: "nat list"
  maxSize :: u32
  totalWeight :: u32

record object =
  obj_item :: item
  obj_parent :: "cylinder option"
  obj_cont :: "container option"

record heap =
  objects :: "nat \<Rightarrow> object"
  creature_tile :: "nat \<Rightarrow> nat option"

abbreviation the_item :: "heap \<Rightarrow> nat \<Rightarrow> item" where
  "the_item h i \<equiv> obj_item (objects h i)"

definition set_object :: "nat \<Rightarrow> object \<Rightarrow> heap \<Rightarrow> heap" where
  "set_object i ob h = h\<lparr>objects := (objects h)(i := ob)\<rparr>"

definition setParent :: "cylinder option \<Rightarrow> nat \<Rightarrow> heap \<Rightarrow> heap" where
  "setParent p i h = set_object i ((objects h i)\<lparr>obj_parent := p\<rparr>) h"

definition set_item :: "item \<Rightarrow> nat \<Rightarrow> heap \<Rightarrow> heap" where
  "set_item it i h = set_object i ((objects h i)\<lparr>obj_item := it\<rparr>) h"

definition is_container :: "heap \<Rightarrow> nat \<Rightarrow> bool" where
  "is_container h c \<longleftrightarrow> obj_cont (objects h c) \<noteq> None"

definition kids :: "heap \<Rightarrow> nat \<Rightarrow> nat list" where
  "kids h c = (case obj_cont (objects h c) of None \<Rightarrow> [] | Some k \<Rightarrow> itemlist k)"

definition capacity :: "heap \<Rightarrow> nat \<Rightarrow> u32" where
  "capacity h c = (case obj_cont (objects h c) of None \<Rightarrow> 0 | Some k \<Rightarrow> maxSize k)"

definition total :: "heap \<Rightarrow> nat \<Rightarrow> u32" where
  "total h c = (case obj_cont (objects h c) of None \<Rightarrow> 0 | Some k \<Rightarrow> totalWeight k)"

definition map_cont :: "(container \<Rightarrow> container) \<Rightarrow> nat \<Rightarrow> heap \<Rightarrow> heap" where
  "map_cont f c h = set_object c ((objects h c)\<lparr>obj_cont := map_option f (obj_cont (objects h c))\<rparr>) h"

text \<open>\<open>Cylinder::getParent\<close>: an item's parent, the tile of a creature, nothing for tiles.\<close>

fun getParent :: "heap \<Rightarrow> cylinder \<Rightarrow> cylinder option" where
  "getParent h (Cont c) = obj_parent (objects h c)"
| "getParent h (Creat p) = map_option Til (creature_tile h p)"
| "getParent h _ = None"

definition getParentContainer :: "heap \<Rightarrow> nat \<Rightarrow> nat option" where
  "getParentContainer h c = (case obj_parent (objects h c) of Some (Cont p) \<Rightarrow> Some p | _ \<Rightarrow> None)"

definition getWeight :: "(u16 \<Rightarrow> item_type) \<Rightarrow> heap \<Rightarrow> nat \<Rightarrow> u32" where
  "getWeight its h i = item_getWeight (its (item_id (the_item h i))) (the_item h i) + total h i"

partial_function (option) updateItemWeight :: "nat \<Rightarrow> u32 \<Rightarrow> heap \<Rightarrow> heap option" where
  "updateItemWeight c diff h =
     (let h' = map_cont (\<lambda>k. k\<lparr>totalWeight := totalWeight k + diff\<rparr>) c h in
      case getParentContainer h' c of
        None \<Rightarrow> Some h'
      | Some p \<Rightarrow> updateItemWeight p diff h')"

text \<open>\<open>Item::getTopParent\<close> and its loop.\<close>

partial_function (option) top_loop :: "heap \<Rightarrow> cylinder \<Rightarrow> cylinder option \<Rightarrow> cylinder option" where
  "top_loop h aux prevaux =
     (case getParent h aux of
        None \<Rightarrow> Some (case prevaux of Some p \<Rightarrow> p | None \<Rightarrow> aux)
      | Some up \<Rightarrow> top_loop h up (Some aux))"

definition getTopParent :: "heap \<Rightarrow> nat \<Rightarrow> cylinder option option" where
  "getTopParent h i =
     (let prevaux = (if is_container h i then Some (Cont i) else None) in
      case obj_parent (objects h i) of
        None \<Rightarrow> Some prevaux
      | Some aux \<Rightarrow> map_option Some (top_loop h aux prevaux))"

text \<open>\<open>while (cylinder)\<close> of \<open>queryAdd\<close>: whether the thing is met on the way up.\<close>

partial_function (option) met_above :: "heap \<Rightarrow> nat \<Rightarrow> cylinder option \<Rightarrow> bool option" where
  "met_above h thing cyl =
     (case cyl of
        None \<Rightarrow> Some False
      | Some c \<Rightarrow> if c = Cont thing then Some True else met_above h thing (getParent h c))"

section \<open>Queries\<close>

definition FLAG_NOLIMIT :: u32 where "FLAG_NOLIMIT = 1"
definition FLAG_CHILDISOWNER :: u32 where "FLAG_CHILDISOWNER = 8"
definition FLAG_IGNORENOTMOVEABLE :: u32 where "FLAG_IGNORENOTMOVEABLE = 64"
definition FLAG_IGNOREAUTOSTACK :: u32 where "FLAG_IGNOREAUTOSTACK = 128"

definition hasBitSet :: "u32 \<Rightarrow> u32 \<Rightarrow> bool" where
  "hasBitSet flag flags \<longleftrightarrow> flags AND flag \<noteq> 0"

text \<open>Indices are 32-bit integers; \<open>INDEX_WHEREEVER\<close> is -1. What the other cylinders answer is \<open>ask\<close>.\<close>

definition INDEX_WHEREEVER :: int where "INDEX_WHEREEVER = - 1"

definition queryAdd ::
    "(cylinder \<Rightarrow> int \<Rightarrow> nat \<Rightarrow> u32 \<Rightarrow> u32 \<Rightarrow> ReturnValue) \<Rightarrow> (u16 \<Rightarrow> item_type) \<Rightarrow> heap \<Rightarrow> nat \<Rightarrow> int \<Rightarrow> nat \<Rightarrow> u32 \<Rightarrow> u32 \<Rightarrow> ReturnValue option" where
  "queryAdd ask its h c index i amount flags =
     (if hasBitSet FLAG_CHILDISOWNER flags then Some RETURNVALUE_NOERROR
      else if \<not> it_pickupable (its (item_id (the_item h i))) then Some RETURNVALUE_CANNOTPICKUP
      else if i = c then Some RETURNVALUE_THISISIMPOSSIBLE
      else do {
        met \<leftarrow> met_above h i (getParent h (Cont c));
        if met then Some RETURNVALUE_THISISIMPOSSIBLE
        else if \<not> hasBitSet FLAG_NOLIMIT flags \<and> index = INDEX_WHEREEVER \<and> length (kids h c) \<ge> unat (capacity h c)
        then Some RETURNVALUE_CONTAINERNOTENOUGHROOM
        else do {
          topParent \<leftarrow> getTopParent h c;
          t \<leftarrow> topParent;
          if t \<noteq> Cont c
          then (case t of
              Cont d \<Rightarrow> Some RETURNVALUE_NOERROR
            | _ \<Rightarrow> Some (ask t INDEX_WHEREEVER i amount (flags OR FLAG_CHILDISOWNER)))
          else Some RETURNVALUE_NOERROR
        }
      })"

definition equals :: "heap \<Rightarrow> nat \<Rightarrow> nat \<Rightarrow> bool" where
  "equals h i j = item_equals (i = j) (the_item h i) (the_item h j)"

text \<open>The type, count and stack size of an item, and whether another of its kind fits on top of it.\<close>

definition type_of :: "(u16 \<Rightarrow> item_type) \<Rightarrow> heap \<Rightarrow> nat \<Rightarrow> item_type" where
  "type_of its h i = its (item_id (the_item h i))"

definition getItemCount :: "heap \<Rightarrow> nat \<Rightarrow> u16" where
  "getItemCount h i = ucast (item_count (the_item h i))"

definition room_on :: "(u16 \<Rightarrow> item_type) \<Rightarrow> heap \<Rightarrow> nat \<Rightarrow> bool" where
  "room_on its h i \<longleftrightarrow> getItemCount h i < ucast (getStackSize (type_of its h i))"

definition free_on :: "(u16 \<Rightarrow> item_type) \<Rightarrow> heap \<Rightarrow> nat \<Rightarrow> u32" where
  "free_on its h i = ucast (getStackSize (type_of its h i)) - ucast (getItemCount h i)"

definition getItemByIndex :: "heap \<Rightarrow> nat \<Rightarrow> int \<Rightarrow> nat option" where
  "getItemByIndex h c index =
     (if index < 0 \<or> index \<ge> int (length (kids h c)) then None else Some (kids h c ! nat index))"

text \<open>The loop over the items that a stackable item could be stacked on.\<close>

fun stack_room :: "(u32 \<Rightarrow> ReturnValue option) \<Rightarrow> (u16 \<Rightarrow> item_type) \<Rightarrow> heap \<Rightarrow> nat \<Rightarrow> nat list \<Rightarrow> u32 \<Rightarrow> u32 \<Rightarrow> u32 option" where
  "stack_room add its h i [] slotIndex n = Some n"
| "stack_room add its h i (k # ks) slotIndex n =
     (if k \<noteq> i \<and> equals h k i \<and> room_on its h k
      then do {
        ret \<leftarrow> add slotIndex;
        stack_room add its h i ks (slotIndex + 1) (if ret = RETURNVALUE_NOERROR then n + free_on its h k else n)
      }
      else stack_room add its h i ks slotIndex n)"

definition queryMaxCount ::
    "(cylinder \<Rightarrow> int \<Rightarrow> nat \<Rightarrow> u32 \<Rightarrow> u32 \<Rightarrow> ReturnValue) \<Rightarrow> (u16 \<Rightarrow> item_type) \<Rightarrow> heap \<Rightarrow> nat \<Rightarrow> int \<Rightarrow> nat \<Rightarrow> u32 \<Rightarrow> u32 \<Rightarrow> (ReturnValue \<times> u32) option" where
  "queryMaxCount ask its h c index i amount flags =
     (if hasBitSet FLAG_NOLIMIT flags then Some (RETURNVALUE_NOERROR, max 1 amount)
      else let diff = capacity h c - of_nat (length (kids h c));
               freeSlots = (if sint diff < 0 then 0 else diff) in
        if it_stackable (type_of its h i) then do {
          n \<leftarrow> (if index = INDEX_WHEREEVER
               then stack_room (\<lambda>slot. queryAdd ask its h c (sint slot) i amount flags) its h i (kids h c) 0 0
               else case getItemByIndex h c index of
                   None \<Rightarrow> Some 0
                 | Some dest \<Rightarrow>
                     if equals h i dest \<and> room_on its h dest
                     then map_option (\<lambda>ret. if ret = RETURNVALUE_NOERROR then free_on its h dest else 0)
                       (queryAdd ask its h c index i amount flags)
                     else Some 0);
          let maxQueryCount = freeSlots * ucast (getStackSize (type_of its h i)) + n;
          Some (if maxQueryCount < amount then RETURNVALUE_CONTAINERNOTENOUGHROOM else RETURNVALUE_NOERROR, maxQueryCount)
        }
        else Some (if freeSlots = 0 then RETURNVALUE_CONTAINERNOTENOUGHROOM else RETURNVALUE_NOERROR, freeSlots))"

definition getThingIndex :: "heap \<Rightarrow> nat \<Rightarrow> nat \<Rightarrow> nat option" where
  "getThingIndex h c i = find_index i (kids h c)"

text \<open>A tile that belongs to a house answers with \<open>house\<close>; any other tile, and any cylinder that is no
  tile, is not asked.\<close>

definition queryRemove :: "(nat \<Rightarrow> ReturnValue option) \<Rightarrow> (u16 \<Rightarrow> item_type) \<Rightarrow> heap \<Rightarrow> nat \<Rightarrow> nat \<Rightarrow> u32 \<Rightarrow> u32 \<Rightarrow> ReturnValue option" where
  "queryRemove house its h c i amount flags =
     (if getThingIndex h c i = None then Some RETURNVALUE_NOTPOSSIBLE
      else if amount = 0 \<or> (it_stackable (type_of its h i) \<and> amount > ucast (getItemCount h i)) then Some RETURNVALUE_NOTPOSSIBLE
      else if \<not> it_moveable (type_of its h i) \<and> \<not> hasBitSet FLAG_IGNORENOTMOVEABLE flags then Some RETURNVALUE_NOTMOVEABLE
      else do {
        top \<leftarrow> getTopParent h c;
        Some (case top of
            Some (Til t) \<Rightarrow> (case house t of Some ret \<Rightarrow> ret | None \<Rightarrow> RETURNVALUE_NOERROR)
          | _ \<Rightarrow> RETURNVALUE_NOERROR)
      })"

text \<open>The first item to stack on.\<close>

fun find_stack :: "(u16 \<Rightarrow> item_type) \<Rightarrow> heap \<Rightarrow> nat \<Rightarrow> nat list \<Rightarrow> int \<Rightarrow> (int \<times> nat) option" where
  "find_stack its h i [] n = None"
| "find_stack its h i (k # ks) n =
     (if k \<noteq> i \<and> equals h k i \<and> room_on its h k then Some (n, k) else find_stack its h i ks (n + 1))"

text \<open>The cylinder, the index and the item to add to. Items that are cylinders but no containers are not
  modelled.\<close>

definition queryDestination ::
    "(u16 \<Rightarrow> item_type) \<Rightarrow> heap \<Rightarrow> nat \<Rightarrow> int \<Rightarrow> nat \<Rightarrow> u32 \<Rightarrow> cylinder \<times> int \<times> nat option" where
  "queryDestination its h c index i flags =
     (if index = 254
      then (case obj_parent (objects h c) of
          Some (Cont p) \<Rightarrow> (Cont p, INDEX_WHEREEVER, None)
        | _ \<Rightarrow> (Cont c, INDEX_WHEREEVER, None))
      else
        let index = (if index = 255 \<or> index \<ge> sint (capacity h c) then INDEX_WHEREEVER else index);
            destItem = (if index \<noteq> INDEX_WHEREEVER then getItemByIndex h c index else None) in
        case destItem of
          Some d \<Rightarrow>
            if is_container h d then (Cont d, INDEX_WHEREEVER, None)
            else if \<not> hasBitSet FLAG_IGNOREAUTOSTACK flags \<and> it_stackable (type_of its h i) \<and> obj_parent (objects h i) \<noteq> Some (Cont c)
            then if equals h d i \<and> room_on its h d then (Cont c, index, Some d)
                 else (case find_stack its h i (kids h c) 0 of
                     Some (n, k) \<Rightarrow> (Cont c, n, Some k)
                   | None \<Rightarrow> (Cont c, index, Some d))
            else (Cont c, index, Some d)
        | None \<Rightarrow>
            if \<not> hasBitSet FLAG_IGNOREAUTOSTACK flags \<and> it_stackable (type_of its h i) \<and> obj_parent (objects h i) \<noteq> Some (Cont c)
            then (case find_stack its h i (kids h c) 0 of
                Some (n, k) \<Rightarrow> (Cont c, n, Some k)
              | None \<Rightarrow> (Cont c, index, None))
            else (Cont c, index, None))"

section \<open>Changes\<close>

definition map_itemlist :: "(nat list \<Rightarrow> nat list) \<Rightarrow> nat \<Rightarrow> heap \<Rightarrow> heap" where
  "map_itemlist f = map_cont (\<lambda>k. k\<lparr>itemlist := f (itemlist k)\<rparr>)"

definition addItem :: "nat \<Rightarrow> nat \<Rightarrow> heap \<Rightarrow> heap" where
  "addItem c i h = setParent (Some (Cont c)) i (map_itemlist (\<lambda>xs. xs @ [i]) c h)"

definition internalAddThing :: "(u16 \<Rightarrow> item_type) \<Rightarrow> nat \<Rightarrow> nat \<Rightarrow> heap \<Rightarrow> heap option" where
  "internalAddThing its c i h =
     (let h1 = map_itemlist (Cons i) c (setParent (Some (Cont c)) i h) in
      updateItemWeight c (getWeight its h1 i) h1)"

definition addThing :: "(u16 \<Rightarrow> item_type) \<Rightarrow> nat \<Rightarrow> int \<Rightarrow> nat \<Rightarrow> heap \<Rightarrow> heap option" where
  "addThing its c index i h = (if index \<ge> sint (capacity h c) then Some h else internalAddThing its c i h)"

definition addItemBack :: "(u16 \<Rightarrow> item_type) \<Rightarrow> nat \<Rightarrow> nat \<Rightarrow> heap \<Rightarrow> heap option" where
  "addItemBack its c i h = (let h1 = addItem c i h in updateItemWeight c (getWeight its h1 i) h1)"

definition updateThing :: "(u16 \<Rightarrow> item_type) \<Rightarrow> u32 \<Rightarrow> nat \<Rightarrow> nat \<Rightarrow> u16 \<Rightarrow> u32 \<Rightarrow> heap \<Rightarrow> heap option" where
  "updateThing its rnd c i itemId amount h =
     (if getThingIndex h c i = None then Some h
      else do {
        let oldWeight = getWeight its h i;
        it \<leftarrow> setID its rnd itemId (the_item h i);
        let h1 = set_item (setSubType (its (item_id it)) (ucast amount) it) i h;
        updateItemWeight c (- oldWeight + getWeight its h1 i) h1
      })"

definition replaceThing :: "(u16 \<Rightarrow> item_type) \<Rightarrow> nat \<Rightarrow> nat \<Rightarrow> nat \<Rightarrow> heap \<Rightarrow> heap option" where
  "replaceThing its c index i h =
     (case getItemByIndex h c (int index) of
        None \<Rightarrow> Some h
      | Some replaced \<Rightarrow>
          let h1 = setParent (Some (Cont c)) i (map_itemlist (\<lambda>xs. xs[index := i]) c h) in
          map_option (setParent None replaced) (updateItemWeight c (- getWeight its h1 replaced + getWeight its h1 i) h1))"

definition removeThing :: "(u16 \<Rightarrow> item_type) \<Rightarrow> nat \<Rightarrow> nat \<Rightarrow> u32 \<Rightarrow> heap \<Rightarrow> heap option" where
  "removeThing its c i amount h =
     (case getThingIndex h c i of
        None \<Rightarrow> Some h
      | Some index \<Rightarrow>
          if it_stackable (type_of its h i) \<and> amount \<noteq> ucast (getItemCount h i)
          then
            let left = (ucast (getItemCount h i) :: u32) - amount;
                newCount = (ucast (if sint left < 0 then 0 else left) :: u8);
                oldWeight = getWeight its h i;
                h1 = set_item ((the_item h i)\<lparr>item_count := newCount\<rparr>) i h in
            updateItemWeight c (- oldWeight + getWeight its h1 i) h1
          else
            map_option (\<lambda>h1. map_itemlist (\<lambda>xs. take index xs @ drop (Suc index) xs) c (setParent None i h1))
              (updateItemWeight c (- getWeight its h i) h))"

section \<open>The iterator\<close>

record container_iterator =
  over :: "nat list"
  cur :: nat

definition iterator :: "heap \<Rightarrow> nat \<Rightarrow> container_iterator" where
  "iterator h c = \<lparr>over = (if kids h c = [] then [] else [c]), cur = 0\<rparr>"

definition hasNext :: "container_iterator \<Rightarrow> bool" where
  "hasNext it \<longleftrightarrow> over it \<noteq> []"

definition deref :: "heap \<Rightarrow> container_iterator \<Rightarrow> nat" where
  "deref h it = kids h (hd (over it)) ! cur it"

definition advance :: "heap \<Rightarrow> container_iterator \<Rightarrow> container_iterator" where
  "advance h it =
     (let i = deref h it;
          ov = (if is_container h i \<and> kids h i \<noteq> [] then over it @ [i] else over it);
          n = Suc (cur it) in
      if n = length (kids h (hd ov)) then \<lparr>over = tl ov, cur = 0\<rparr> else \<lparr>over = ov, cur = n\<rparr>)"

partial_function (option) collect :: "heap \<Rightarrow> container_iterator \<Rightarrow> nat list option" where
  "collect h it =
     (if hasNext it then do { rest \<leftarrow> collect h (advance h it); Some (deref h it # rest) } else Some [])"

definition getItems :: "heap \<Rightarrow> nat \<Rightarrow> bool \<Rightarrow> nat list option" where
  "getItems h c recursive = (if recursive then collect h (iterator h c) else Some (kids h c))"

partial_function (option) count_from :: "heap \<Rightarrow> container_iterator \<Rightarrow> u32 \<Rightarrow> u32 option" where
  "count_from h it counter =
     (if hasNext it then count_from h (advance h it) (counter + 1) else Some counter)"

definition getItemHoldingCount :: "heap \<Rightarrow> nat \<Rightarrow> u32 option" where
  "getItemHoldingCount h c = count_from h (iterator h c) 0"

partial_function (option) holding_from :: "heap \<Rightarrow> container_iterator \<Rightarrow> nat \<Rightarrow> bool option" where
  "holding_from h it i =
     (if hasNext it then if deref h it = i then Some True else holding_from h (advance h it) i else Some False)"

definition isHoldingItem :: "heap \<Rightarrow> nat \<Rightarrow> nat \<Rightarrow> bool option" where
  "isHoldingItem h c i = holding_from h (iterator h c) i"

definition countByType :: "(u16 \<Rightarrow> item_type) \<Rightarrow> heap \<Rightarrow> nat \<Rightarrow> int \<Rightarrow> u32" where
  "countByType its h i subType =
     (if subType = - 1 \<or> subType = uint (getSubType (type_of its h i) (the_item h i)) then ucast (getItemCount h i) else 0)"

definition getItemTypeCount :: "(u16 \<Rightarrow> item_type) \<Rightarrow> heap \<Rightarrow> nat \<Rightarrow> u16 \<Rightarrow> int \<Rightarrow> u32" where
  "getItemTypeCount its h c itemId subType =
     fold (\<lambda>i n. if item_id (the_item h i) = itemId then n + countByType its h i subType else n) (kids h c) 0"

section \<open>The tree of containers\<close>

text \<open>Pairs of a container and what is in it, by the parent pointers.\<close>

definition holds :: "heap \<Rightarrow> (nat \<times> nat) set" where
  "holds h = {(c, i). obj_parent (objects h i) = Some (Cont c)}"

definition heap_tree :: "heap \<Rightarrow> bool" where
  "heap_tree h \<longleftrightarrow>
     (\<forall>c. distinct (kids h c)) \<and>
     (\<forall>c i. i \<in> set (kids h c) \<longleftrightarrow> (c, i) \<in> holds h) \<and>
     wf (holds h) \<and> finite (holds h)"

definition weights_ok :: "(u16 \<Rightarrow> item_type) \<Rightarrow> heap \<Rightarrow> bool" where
  "weights_ok its h \<longleftrightarrow> (\<forall>c. is_container h c \<longrightarrow> total h c = sum_list (map (getWeight its h) (kids h c)))"

definition heap_ok :: "(u16 \<Rightarrow> item_type) \<Rightarrow> heap \<Rightarrow> bool" where
  "heap_ok its h \<longleftrightarrow> heap_tree h \<and> weights_ok its h \<and> (\<forall>i. item_ok (the_item h i))"

lemma heap_treeD:
  assumes "heap_tree h"
  shows "distinct (kids h c)" and "i \<in> set (kids h c) \<longleftrightarrow> (c, i) \<in> holds h" and "wf (holds h)" and "finite (holds h)"
  using assms by (auto simp: heap_tree_def)

lemma container_of_kid: "k \<in> set (kids h c) \<Longrightarrow> is_container h c"
  by (cases "obj_cont (objects h c)") (simp_all add: kids_def is_container_def)

lemma parent_container_holds: "getParentContainer h c = Some p \<longleftrightarrow> (p, c) \<in> holds h"
  by (auto simp: getParentContainer_def holds_def split: option.splits cylinder.splits)

subsection \<open>Weights on the way up\<close>

text \<open>Adding to the total weight of a set of containers.\<close>

definition bump :: "nat set \<Rightarrow> u32 \<Rightarrow> heap \<Rightarrow> heap" where
  "bump S diff h = h\<lparr>objects := (\<lambda>d. if d \<in> S
     then (objects h d)\<lparr>obj_cont := map_option (\<lambda>k. k\<lparr>totalWeight := totalWeight k + diff\<rparr>) (obj_cont (objects h d))\<rparr>
     else objects h d)\<rparr>"

definition above :: "heap \<Rightarrow> nat \<Rightarrow> nat set" where
  "above h c = {d. (d, c) \<in> (holds h)\<^sup>*}"

lemma bump_simps [simp]:
  "obj_item (objects (bump S w h) i) = obj_item (objects h i)"
  "obj_parent (objects (bump S w h) i) = obj_parent (objects h i)"
  "kids (bump S w h) c = kids h c"
  "capacity (bump S w h) c = capacity h c"
  "is_container (bump S w h) c = is_container h c"
  "holds (bump S w h) = holds h"
  "creature_tile (bump S w h) = creature_tile h"
  by (auto simp: bump_def kids_def capacity_def is_container_def holds_def option.case_eq_if option.map_sel)

lemma bump_total: "total (bump S w h) c = (if c \<in> S \<and> is_container h c then total h c + w else total h c)"
  by (auto simp: bump_def total_def is_container_def split: option.splits)

lemma bump_getWeight:
  "getWeight its (bump S w h) i = (if i \<in> S \<and> is_container h i then getWeight its h i + w else getWeight its h i)"
  by (simp add: getWeight_def bump_total)

lemma bump_tree [simp]: "heap_tree (bump S w h) = heap_tree h"
  by (simp add: heap_tree_def)

lemma map_cont_bump: "map_cont (\<lambda>k. k\<lparr>totalWeight := totalWeight k + w\<rparr>) c h = bump {c} w h"
  by (auto simp: map_cont_def set_object_def bump_def fun_eq_iff)

lemma bump_bump: "S \<inter> T = {} \<Longrightarrow> bump T w (bump S w h) = bump (S \<union> T) w h"
  by (rule heap.equality) (auto simp: bump_def fun_eq_iff)

lemma above_step:
  assumes "(p, c) \<in> holds h"
  shows "above h c = insert c (above h p)"
proof -
  have "q = p" if "(q, c) \<in> holds h" for q using assms that by (simp add: holds_def)
  then have "(d, c) \<in> (holds h)\<^sup>* \<longleftrightarrow> d = c \<or> (d, p) \<in> (holds h)\<^sup>*" for d
    using assms by (metis rtranclE rtrancl.rtrancl_into_rtrancl rtrancl.rtrancl_refl)
  then show ?thesis by (auto simp: above_def)
qed

lemma above_top: "getParentContainer h c = None \<Longrightarrow> above h c = {c}"
  using parent_container_holds [of h c] by (auto simp: above_def elim: rtranclE)

lemma not_above_parent:
  assumes "wf (holds h)" and "(p, c) \<in> holds h"
  shows "c \<notin> above h p"
proof
  assume "c \<in> above h p"
  then have "(c, c) \<in> (holds h)\<^sup>+" using assms(2) by (auto simp: above_def intro: rtrancl_into_trancl1)
  then show False using assms(1) wf_acyclic by (auto simp: acyclic_def)
qed

lemma updateItemWeight_bump:
  assumes "wf (holds h)"
  shows "updateItemWeight c w h = Some (bump (above h c) w h)"
proof -
  have "holds h' = holds h \<Longrightarrow> updateItemWeight c w h' = Some (bump (above h' c) w h')" for h'
  proof (induction c arbitrary: h' rule: wf_induct_rule [OF assms])
    case (1 c)
    let ?h = "bump {c} w h'"
    have s: "updateItemWeight c w h' = (case getParentContainer ?h c of None \<Rightarrow> Some ?h | Some p \<Rightarrow> updateItemWeight p w ?h)"
      by (subst updateItemWeight.simps) (simp add: map_cont_bump Let_def)
    show ?case
    proof (cases "getParentContainer ?h c")
      case None
      then have "above h' c = {c}" using above_top [of ?h c] by (simp add: above_def)
      then show ?thesis using s None by simp
    next
      case (Some p)
      then have p: "(p, c) \<in> holds h'" using parent_container_holds [of ?h c p] by simp
      have "updateItemWeight p w ?h = Some (bump (above ?h p) w ?h)" using 1 p by simp
      also have "above ?h p = above h' p" by (simp add: above_def)
      also have "bump (above h' p) w ?h = bump (above h' c) w h'"
        using not_above_parent [of h' p c] assms 1(2) p by (simp add: bump_bump above_step [OF p])
      finally show ?thesis using s Some by simp
    qed
  qed
  then show ?thesis by simp
qed

text \<open>All is in order but the total weight of one container, which is \<open>w\<close> short.\<close>

definition weights_except :: "(u16 \<Rightarrow> item_type) \<Rightarrow> nat \<Rightarrow> u32 \<Rightarrow> heap \<Rightarrow> bool" where
  "weights_except its c w h \<longleftrightarrow>
     (\<forall>d. is_container h d \<longrightarrow> total h d + (if d = c then w else 0) = sum_list (map (getWeight its h) (kids h d)))"

lemma sum_list_change_one:
  fixes f :: "'a \<Rightarrow> 'b::comm_monoid_add"
  shows "distinct xs \<Longrightarrow> (\<And>x. g x = (if x = c then f x + w else f x)) \<Longrightarrow>
    sum_list (map g xs) = sum_list (map f xs) + (if c \<in> set xs then w else 0)"
  by (induction xs) (auto simp: ac_simps)

lemma weights_restored:
  assumes "heap_tree h" and "is_container h c" and "weights_except its c w h"
  shows "weights_ok its (bump (above h c) w h)"
proof -
  have wf: "wf (holds h)" using heap_treeD(3) [OF assms(1)] .
  have "holds h' = holds h \<Longrightarrow> heap_tree h' \<Longrightarrow> is_container h' c \<Longrightarrow> weights_except its c w h' \<Longrightarrow>
      weights_ok its (bump (above h' c) w h')" for h'
  proof (induction c arbitrary: h' rule: wf_induct_rule [OF wf])
    case (1 c)
    note tree = heap_treeD [OF 1(3)]
    let ?h = "bump {c} w h'"
    have sums: "sum_list (map (getWeight its ?h) (kids h' d)) =
        sum_list (map (getWeight its h') (kids h' d)) + (if (d, c) \<in> holds h' then w else 0)" for d
      using sum_list_change_one [OF tree(1), of "getWeight its ?h" c "getWeight its h'" w d] 1(4)
      by (simp add: bump_getWeight tree(2))
    show ?case
    proof (cases "getParentContainer h' c")
      case None
      then have "above h' c = {c}" by (rule above_top)
      moreover have "(d, c) \<notin> holds h'" for d using None parent_container_holds [of h' c d] by simp
      ultimately show ?thesis using sums 1(5) by (auto simp: weights_ok_def weights_except_def bump_total)
    next
      case (Some p)
      then have p: "(p, c) \<in> holds h'" using parent_container_holds by simp
      have u: "(d, c) \<in> holds h' \<longleftrightarrow> d = p" for d using p by (auto simp: holds_def)
      have ne: "p \<noteq> c" using not_above_parent [OF tree(3) p] by (auto simp: above_def)
      have "is_container h' p" using tree(2) p container_of_kid by blast
      moreover have "weights_except its p w ?h"
        using sums u ne 1(5) unfolding weights_except_def by (auto simp: bump_total)
      ultimately have "weights_ok its (bump (above ?h p) w ?h)" using 1 p by simp
      moreover have "bump (above ?h p) w ?h = bump (above h' c) w h'"
      proof -
        have "above ?h p = above h' p" by (simp add: above_def)
        then show ?thesis using not_above_parent [OF tree(3) p] by (simp add: bump_bump above_step [OF p])
      qed
      ultimately show ?thesis by simp
    qed
  qed
  then show ?thesis using assms by simp
qed

subsection \<open>Adding\<close>

lemma set_object_simps [simp]: "objects (set_object i ob h) j = (if j = i then ob else objects h j)" "creature_tile (set_object i ob h) = creature_tile h"
  by (simp_all add: set_object_def)

lemma setParent_simps [simp]:
  "obj_item (objects (setParent p i h) j) = obj_item (objects h j)"
  "obj_parent (objects (setParent p i h) j) = (if j = i then p else obj_parent (objects h j))"
  "obj_cont (objects (setParent p i h) j) = obj_cont (objects h j)"
  "kids (setParent p i h) c = kids h c"
  "capacity (setParent p i h) c = capacity h c"
  "total (setParent p i h) c = total h c"
  "is_container (setParent p i h) c = is_container h c"
  "getWeight its (setParent p i h) = getWeight its h"
  by (simp_all add: fun_eq_iff setParent_def kids_def capacity_def total_def is_container_def getWeight_def)

lemma map_itemlist_simps [simp]:
  "obj_item (objects (map_itemlist f c h) j) = obj_item (objects h j)"
  "obj_parent (objects (map_itemlist f c h) j) = obj_parent (objects h j)"
  "kids (map_itemlist f c h) d = (if d = c \<and> is_container h c then f (kids h c) else kids h d)"
  "capacity (map_itemlist f c h) d = capacity h d"
  "total (map_itemlist f c h) d = total h d"
  "is_container (map_itemlist f c h) d = is_container h d"
  "getWeight its (map_itemlist f c h) = getWeight its h"
  "holds (map_itemlist f c h) = holds h"
  by (auto simp: fun_eq_iff map_itemlist_def map_cont_def kids_def capacity_def total_def is_container_def getWeight_def holds_def
      split: option.splits)

lemma holds_setParent:
  "holds (setParent p i h) = {(d, k). if k = i then p = Some (Cont d) else (d, k) \<in> holds h}"
  by (auto simp: holds_def)

text \<open>Putting an item that is nowhere into a container that is not inside it.\<close>

lemma put_in_tree:
  assumes tree: "heap_tree h" and c: "is_container h c" and orphan: "obj_parent (objects h i) = None" and up: "i \<notin> above h c"
    and f: "distinct (f (kids h c)) \<longleftrightarrow> distinct (i # kids h c)" "set (f (kids h c)) = insert i (set (kids h c))"
  defines "h1 \<equiv> setParent (Some (Cont c)) i (map_itemlist f c h)"
  shows "heap_tree h1" and "holds h1 = insert (c, i) (holds h)"
proof -
  have no: "(d, i) \<notin> holds h" for d using orphan by (simp add: holds_def)
  show ho: "holds h1 = insert (c, i) (holds h)"
    using no by (auto simp: h1_def holds_setParent)
  have "(i, c) \<notin> (holds h)\<^sup>*" using up by (simp add: above_def)
  then have wf: "wf (holds h1)" using heap_treeD(3) [OF tree] by (simp add: ho wf_insert)
  have "i \<notin> set (kids h c)" using heap_treeD(2) [OF tree] no by blast
  then have "distinct (kids h1 d)" for d using heap_treeD(1) [OF tree] f(1) by (simp add: h1_def)
  moreover have "kids h1 d = (if d = c then f (kids h c) else kids h d)" for d using c by (simp add: h1_def)
  then have "k \<in> set (kids h1 d) \<longleftrightarrow> (d, k) \<in> holds h1" for d k
    using heap_treeD(2) [OF tree] f(2) unfolding ho by auto
  ultimately show "heap_tree h1"
    using wf heap_treeD(4) [OF tree] ho by (auto simp: heap_tree_def)
qed

lemma put_ok:
  assumes ok: "heap_ok its h" and c: "is_container h c" and orphan: "obj_parent (objects h i) = None" and up: "i \<notin> above h c"
    and f: "distinct (f (kids h c)) \<longleftrightarrow> distinct (i # kids h c)" "set (f (kids h c)) = insert i (set (kids h c))"
      "mset (f (kids h c)) = mset (i # kids h c)"
  defines "h1 \<equiv> setParent (Some (Cont c)) i (map_itemlist f c h)"
  shows "\<exists>h'. updateItemWeight c (getWeight its h1 i) h1 = Some h' \<and> heap_ok its h'"
proof -
  have tree: "heap_tree h" using ok by (simp add: heap_ok_def)
  have t1: "heap_tree h1" unfolding h1_def by (rule put_in_tree(1) [where f = f, OF tree c orphan up f(1,2)])
  have "sum_list (map (getWeight its h) (f (kids h c))) = getWeight its h i + sum_list (map (getWeight its h) (kids h c))"
    using arg_cong [OF f(3), of "\<lambda>m. sum_mset (image_mset (getWeight its h) m)"] by (simp add: sum_mset_sum_list flip: mset_map)
  then have "weights_except its c (getWeight its h1 i) h1"
    using ok c unfolding weights_except_def heap_ok_def weights_ok_def by (auto simp: h1_def)
  moreover have "is_container h1 c" using c by (simp add: h1_def)
  ultimately have "weights_ok its (bump (above h1 c) (getWeight its h1 i) h1)" by (rule weights_restored [OF t1, rotated])
  then have "heap_ok its (bump (above h1 c) (getWeight its h1 i) h1)"
    using t1 ok by (simp add: heap_ok_def h1_def)
  then show ?thesis using updateItemWeight_bump [OF heap_treeD(3) [OF t1]] by blast
qed

lemma met_above_holds:
  assumes "wf (holds h)"
  shows "met_above h i (Some (Cont c)) = Some (i \<in> above h c)" and "met_above h i None = Some False"
    and "\<And>t. met_above h i (Some (Til t)) = Some False" and "met_above h i (Some Virtual) = Some False"
    and "\<And>p. met_above h i (Some (Creat p)) = Some False"
proof -
  show n: "met_above h i None = Some False" by (subst met_above.simps) simp
  show t: "met_above h i (Some (Til t)) = Some False" for t by (subst met_above.simps) (simp add: n)
  show v: "met_above h i (Some Virtual) = Some False" by (subst met_above.simps) (simp add: n)
  show p: "met_above h i (Some (Creat p)) = Some False" for p
    by (subst met_above.simps) (cases "creature_tile h p", simp_all add: n t)
  show "met_above h i (Some (Cont c)) = Some (i \<in> above h c)"
  proof (induction c rule: wf_induct_rule [OF assms])
    case (1 c)
    have s: "met_above h i (Some (Cont c)) = (if c = i then Some True else met_above h i (obj_parent (objects h c)))"
      by (subst met_above.simps) simp
    show ?case
    proof (cases "getParentContainer h c")
      case None
      then have "met_above h i (obj_parent (objects h c)) = Some False"
        using n t v p by (auto simp: getParentContainer_def split: option.splits cylinder.splits)
      then show ?thesis using s above_top [OF None] by simp
    next
      case (Some q)
      then have "(q, c) \<in> holds h" "obj_parent (objects h c) = Some (Cont q)"
        by (auto simp: getParentContainer_def holds_def split: option.splits cylinder.splits)
      then show ?thesis using s 1 above_step [of q c h] by auto
    qed
  qed
qed

text \<open>An item that \<open>queryAdd\<close> lets in, and that is nowhere yet, is put into the container.\<close>

lemma queryAdd_not_above:
  assumes "wf (holds h)" and "queryAdd ask its h c index i amount flags = Some RETURNVALUE_NOERROR"
    and "\<not> hasBitSet FLAG_CHILDISOWNER flags"
  shows "i \<notin> above h c"
proof -
  have ne: "i \<noteq> c" and m: "met_above h i (obj_parent (objects h c)) = Some False"
    using assms(2,3) by (auto simp: queryAdd_def split: if_split_asm Option.bind_splits)
  show ?thesis
  proof (cases "getParentContainer h c")
    case None
    then show ?thesis using ne above_top by auto
  next
    case (Some q)
    then have "(q, c) \<in> holds h" "obj_parent (objects h c) = Some (Cont q)"
      by (auto simp: getParentContainer_def holds_def split: option.splits cylinder.splits)
    then show ?thesis using m ne above_step [of q c h] met_above_holds(1) [OF assms(1)] by auto
  qed
qed

lemma internalAddThing_ok:
  assumes "heap_ok its h" and "is_container h c" and "obj_parent (objects h i) = None" and "i \<notin> above h c"
  shows "\<exists>h'. internalAddThing its c i h = Some h' \<and> heap_ok its h'"
proof -
  have e: "map_itemlist (Cons i) c (setParent (Some (Cont c)) i h) = setParent (Some (Cont c)) i (map_itemlist (Cons i) c h)"
    by (auto simp: map_itemlist_def map_cont_def setParent_def set_object_def fun_eq_iff)
  show ?thesis
    using put_ok [OF assms, where f = "Cons i"] unfolding internalAddThing_def Let_def e by simp
qed

lemma addThing_ok:
  assumes "heap_ok its h" and "is_container h c" and "obj_parent (objects h i) = None" and "i \<notin> above h c"
  shows "\<exists>h'. addThing its c index i h = Some h' \<and> heap_ok its h'"
  using internalAddThing_ok [OF assms] assms(1) by (simp add: addThing_def)

lemma addItemBack_ok:
  assumes "heap_ok its h" and "is_container h c" and "obj_parent (objects h i) = None" and "i \<notin> above h c"
  shows "\<exists>h'. addItemBack its c i h = Some h' \<and> heap_ok its h'"
  using put_ok [OF assms, where f = "\<lambda>xs. xs @ [i]"] by (auto simp: addItemBack_def addItem_def Let_def)

subsection \<open>Changing an item in place\<close>

lemma set_item_simps [simp]:
  "obj_item (objects (set_item it i h) j) = (if j = i then it else obj_item (objects h j))"
  "obj_parent (objects (set_item it i h) j) = obj_parent (objects h j)"
  "kids (set_item it i h) c = kids h c"
  "capacity (set_item it i h) c = capacity h c"
  "total (set_item it i h) c = total h c"
  "is_container (set_item it i h) c = is_container h c"
  "holds (set_item it i h) = holds h"
  by (auto simp: set_item_def kids_def capacity_def total_def is_container_def holds_def)

lemma set_item_tree [simp]: "heap_tree (set_item it i h) = heap_tree h"
  by (simp add: heap_tree_def)

lemma change_item_ok:
  assumes ok: "heap_ok its h" and i: "i \<in> set (kids h c)" and it: "item_ok it"
  defines "h1 \<equiv> set_item it i h"
  shows "\<exists>h'. updateItemWeight c (- getWeight its h i + getWeight its h1 i) h1 = Some h' \<and> heap_ok its h'"
proof -
  have tree: "heap_tree h" using ok by (simp add: heap_ok_def)
  let ?w = "- getWeight its h i + getWeight its h1 i"
  have only: "d = c" if "i \<in> set (kids h d)" for d
    using that i heap_treeD(2) [OF tree] by (auto simp: holds_def)
  have "sum_list (map (getWeight its h1) (kids h d)) = sum_list (map (getWeight its h) (kids h d)) + (if i \<in> set (kids h d) then ?w else 0)" for d
  proof (rule sum_list_change_one [OF heap_treeD(1) [OF tree]])
    show "getWeight its h1 x = (if x = i then getWeight its h x + ?w else getWeight its h x)" for x
      by (cases "x = i") (simp, simp add: h1_def getWeight_def)
  qed
  note sums = this
  have k: "kids h1 d = kids h d" "total h1 d = total h d" "is_container h1 d = is_container h d" for d
    by (simp_all add: h1_def)
  have w: "is_container h d \<Longrightarrow> total h d = sum_list (map (getWeight its h) (kids h d))" for d
    using ok by (simp add: heap_ok_def weights_ok_def)
  have on: "i \<in> set (kids h d) \<longleftrightarrow> d = c" for d using i only by blast
  have "weights_except its c ?w h1"
    unfolding weights_except_def k sums on by (intro allI impI) (simp only: w)
  then have "weights_ok its (bump (above h1 c) ?w h1)"
    using tree container_of_kid [OF i] by (intro weights_restored) (simp_all add: h1_def)
  then have "heap_ok its (bump (above h1 c) ?w h1)" using ok it by (simp add: heap_ok_def h1_def)
  moreover have "wf (holds h1)" using heap_treeD(3) [OF tree] by (simp add: h1_def)
  ultimately show ?thesis using updateItemWeight_bump by blast
qed

lemma item_removeAttribute_ok:
  assumes "item_ok i"
  obtains i' where "item_removeAttribute t i = Some i'" and "item_ok i'"
proof (cases "item_attrs i")
  case None
  then show thesis using that assms by (simp add: item_removeAttribute_def)
next
  case (Some at)
  then have "attributes_ok at" using assms by (simp add: item_ok_def getAttributes_def)
  then show thesis
    by (rule removeAttribute_ok [of at t]) (use that Some in \<open>auto simp: item_removeAttribute_def item_ok_def getAttributes_def\<close>)
qed

lemma item_setIntAttr_ok: "item_ok i \<Longrightarrow> t \<noteq> ITEM_ATTRIBUTE_NONE \<Longrightarrow> item_ok (item_setIntAttr t n i)"
  by (simp add: item_ok_def item_setIntAttr_def setIntAttr_ok)

lemma item_ok_fields [simp]: "item_ok (i\<lparr>item_id := n\<rparr>) = item_ok i" "item_ok (i\<lparr>item_count := k\<rparr>) = item_ok i"
  by (simp_all add: item_ok_def getAttributes_def)

lemma setSubType_ok: "item_ok i \<Longrightarrow> item_ok (setSubType it n i)"
  by (simp add: setSubType_def item_setIntAttr_ok)

lemma setID_ok:
  assumes "item_ok i"
  obtains i' where "setID its rnd newid i = Some i'" and "item_ok i'"
proof -
  have ok: "item_ok (i\<lparr>item_id := newid\<rparr>)" using assms by simp
  let ?c = "(if it_decayTimeMin (its newid) \<noteq> 0 \<and> it_decayTimeMax (its newid) \<noteq> 0 then rnd * 1000 else it_decayTimeMin (its newid) * 1000) = 0 \<and>
      \<not> it_stopTime (its newid) \<and> sint (it_decayTo (its newid)) < 0"
  obtain i1 where i1: "(if ?c then item_removeAttribute ITEM_ATTRIBUTE_DECAYSTATE (i\<lparr>item_id := newid\<rparr>) \<bind> item_removeAttribute ITEM_ATTRIBUTE_DURATION
      else Some (i\<lparr>item_id := newid\<rparr>)) = Some i1" "item_ok i1"
  proof (cases ?c)
    case True
    show thesis
      by (rule item_removeAttribute_ok [OF ok, of ITEM_ATTRIBUTE_DECAYSTATE], rule item_removeAttribute_ok [of _ ITEM_ATTRIBUTE_DURATION], assumption)
        (use that True in auto)
  next
    case False
    show thesis by (rule that [of "i\<lparr>item_id := newid\<rparr>"]) (use False ok in \<open>simp_all only: if_False\<close>)
  qed
  obtain i2 where i2: "item_removeAttribute ITEM_ATTRIBUTE_CORPSEOWNER i1 = Some i2" "item_ok i2"
    by (rule item_removeAttribute_ok [OF i1(2)])
  show thesis
    using that i1(1) i2 unfolding setID_def Let_def
    by (simp add: item_setIntAttr_ok setDuration_def split: if_split_asm)
qed

lemma updateThing_ok:
  assumes "heap_ok its h"
  shows "\<exists>h'. updateThing its rnd c i itemId amount h = Some h' \<and> heap_ok its h'"
proof (cases "getThingIndex h c i")
  case None
  then show ?thesis using assms by (simp add: updateThing_def)
next
  case (Some n)
  then have i: "i \<in> set (kids h c)" using find_index_Some [of i "kids h c" n] by (auto simp: getThingIndex_def)
  have "item_ok (the_item h i)" using assms by (simp add: heap_ok_def)
  then obtain it where it: "setID its rnd itemId (the_item h i) = Some it" "item_ok it" by (rule setID_ok)
  show ?thesis
    using change_item_ok [OF assms i, of "setSubType (its (item_id it)) (ucast amount) it"] it Some
    by (simp add: updateThing_def setSubType_ok Let_def)
qed

subsection \<open>Removing and replacing\<close>

definition take_out :: "nat \<Rightarrow> nat \<Rightarrow> heap \<Rightarrow> heap" where
  "take_out c i h = map_itemlist (\<lambda>xs. remove1 i xs) c (setParent None i h)"

lemma take_index: "find_index i xs = Some n \<Longrightarrow> take n xs @ drop (Suc n) xs = remove1 i xs"
  by (induction xs arbitrary: n) (auto split: if_split_asm)

lemma container_update_swap:
  "k\<lparr>totalWeight := a, itemlist := b\<rparr> = k\<lparr>itemlist := b, totalWeight := a\<rparr>" for k :: container
  by simp

lemma bump_take_out: "map_itemlist f c (setParent None i (bump S w h)) = bump S w (map_itemlist f c (setParent None i h))"
  by (rule heap.equality)
    (auto simp: map_itemlist_def map_cont_def setParent_def set_object_def bump_def fun_eq_iff option.map_comp comp_def
      container_update_swap)

lemma above_minus:
  assumes "wf (holds h)" and "(c, i) \<in> holds h" and "holds h' = holds h - {(c, i)}"
  shows "above h' c = above h c"
proof -
  have "(d, c) \<in> (holds h)\<^sup>* \<Longrightarrow> (d, c) \<in> (holds h')\<^sup>*" for d
  proof (induction rule: converse_rtrancl_induct)
    case (step y z)
    have "(z, c) \<in> (holds h)\<^sup>*" using step.hyps(2) .
    then have "(y, z) \<noteq> (c, i)" using not_above_parent [OF assms(1,2)] by (auto simp: above_def)
    then have "(y, z) \<in> holds h'" using step.hyps(1) assms(3) by simp
    then show ?case using step.IH by (rule converse_rtrancl_into_rtrancl)
  qed simp
  moreover have "(holds h')\<^sup>* \<subseteq> (holds h)\<^sup>*" using assms(3) by (intro rtrancl_mono) blast
  ultimately show ?thesis by (auto simp: above_def)
qed

lemma take_out_ok:
  assumes ok: "heap_ok its h" and i: "i \<in> set (kids h c)"
  shows "updateItemWeight c (- getWeight its h i) h = Some (bump (above h c) (- getWeight its h i) h)"
    and "heap_ok its (take_out c i (bump (above h c) (- getWeight its h i) h))"
proof -
  have tree: "heap_tree h" using ok by (simp add: heap_ok_def)
  note t = heap_treeD [OF tree]
  show "updateItemWeight c (- getWeight its h i) h = Some (bump (above h c) (- getWeight its h i) h)"
    by (rule updateItemWeight_bump [OF t(3)])
  let ?h1 = "take_out c i h"
  have c: "is_container h c" by (rule container_of_kid [OF i])
  have p: "(c, i) \<in> holds h" using t(2) i by simp
  then have ho: "holds ?h1 = holds h - {(c, i)}" by (auto simp: take_out_def holds_setParent holds_def)
  have k: "kids ?h1 d = (if d = c then remove1 i (kids h c) else kids h d)" for d using c by (simp add: take_out_def)
  have u: "(d, i) \<in> holds h \<longleftrightarrow> d = c" for d using p by (auto simp: holds_def)
  have "finite (holds ?h1)" "wf (holds ?h1)" using t(3,4) ho by (auto intro: wf_subset)
  moreover have "distinct (kids ?h1 d)" for d using t(1) by (simp add: k)
  moreover have "j \<in> set (kids ?h1 d) \<longleftrightarrow> (d, j) \<in> holds ?h1" for d j
    using t(1,2) u unfolding k ho by auto
  ultimately have t1: "heap_tree ?h1" by (auto simp: heap_tree_def)
  have g: "getWeight its ?h1 = getWeight its h" by (simp add: take_out_def)
  have "sum_list (map (getWeight its h) (kids h c)) = getWeight its h i + sum_list (map (getWeight its h) (remove1 i (kids h c)))"
    using i by (simp add: sum_list_map_remove1)
  then have "weights_except its c (- getWeight its h i) ?h1"
    using ok c unfolding weights_except_def heap_ok_def weights_ok_def g by (auto simp: k take_out_def)
  then have "weights_ok its (bump (above ?h1 c) (- getWeight its h i) ?h1)"
    using t1 c by (intro weights_restored) (simp_all add: take_out_def)
  moreover have "above ?h1 c = above h c" by (rule above_minus [OF t(3) p ho])
  ultimately have "heap_ok its (bump (above h c) (- getWeight its h i) ?h1)"
    using t1 ok by (simp add: heap_ok_def take_out_def)
  then show "heap_ok its (take_out c i (bump (above h c) (- getWeight its h i) h))"
    by (simp add: take_out_def bump_take_out)
qed

lemma take_out_code:
  assumes "find_index i (kids h c) = Some n" and "kids h1 c = kids h c"
  shows "map_itemlist (\<lambda>xs. take n xs @ drop (Suc n) xs) c (setParent None i h1) = take_out c i h1"
  using take_index [OF assms(1)] assms(2)
  by (auto simp: take_out_def map_itemlist_def map_cont_def setParent_def set_object_def fun_eq_iff kids_def
      intro!: heap.equality split: option.splits)

lemma removeThing_ok:
  assumes "heap_ok its h"
  shows "\<exists>h'. removeThing its c i amount h = Some h' \<and> heap_ok its h'"
proof (cases "getThingIndex h c i")
  case None
  then show ?thesis using assms by (simp add: removeThing_def)
next
  case (Some n)
  then have n: "find_index i (kids h c) = Some n" by (simp add: getThingIndex_def)
  then have i: "i \<in> set (kids h c)" using find_index_Some by fastforce
  have "item_ok ((the_item h i)\<lparr>item_count := k\<rparr>)" for k using assms by (simp add: heap_ok_def)
  note part = change_item_ok [OF assms i this]
  note w = take_out_code [OF n]
  show ?thesis
    using part take_out_ok [OF assms i] Some w by (simp add: removeThing_def Let_def)
qed

lemma bump_setParent: "setParent p i (bump S w h) = bump S w (setParent p i h)"
  by (rule heap.equality) (auto simp: setParent_def set_object_def bump_def fun_eq_iff)

lemma sum_list_replace:
  fixes xs :: "'a::ab_group_add list"
  shows "n < length xs \<Longrightarrow> sum_list (xs[n := x]) = sum_list xs + (- xs ! n + x)"
  by (induction xs arbitrary: n) (auto simp: nth_Cons' algebra_simps split: nat.split)

lemma replaceThing_ok:
  assumes ok: "heap_ok its h" and orphan: "obj_parent (objects h i) = None" and up: "i \<notin> above h c"
  shows "\<exists>h'. replaceThing its c index i h = Some h' \<and> heap_ok its h'"
proof (cases "index < length (kids h c)")
  case False
  then show ?thesis using ok by (simp add: replaceThing_def getItemByIndex_def)
next
  case True
  define r where "r = kids h c ! index"
  define h1 where "h1 = setParent (Some (Cont c)) i (map_itemlist (\<lambda>xs. xs[index := i]) c h)"
  define h2 where "h2 = setParent None r h1"
  let ?w = "- getWeight its h r + getWeight its h i"
  have tree: "heap_tree h" using ok by (simp add: heap_ok_def)
  note t = heap_treeD [OF tree]
  have rk: "r \<in> set (kids h c)" using True by (simp add: r_def)
  have c: "is_container h c" by (rule container_of_kid [OF rk])
  have no: "(d, i) \<notin> holds h" for d using orphan by (simp add: holds_def)
  have ri: "r \<noteq> i" using rk no t(2) by blast
  have ho1: "holds h1 = insert (c, i) (holds h)" using no by (auto simp: h1_def holds_setParent)
  have wf1: "wf (holds h1)" using t(3) up by (simp add: ho1 wf_insert above_def)
  have u: "(d, r) \<in> holds h \<longleftrightarrow> d = c" for d using rk t(2) by (auto simp: holds_def)
  have ho2: "holds h2 = holds h1 - {(c, r)}" using u ri unfolding h2_def holds_setParent ho1 by auto
  have k2: "kids h2 d = (if d = c then (kids h c)[index := i] else kids h d)" for d using c by (simp add: h2_def h1_def)
  have i_new: "i \<notin> set (kids h c)" using no t(2) by blast
  have "distinct (kids h2 d)" for d using t(1) i_new by (simp add: k2 distinct_list_update)
  moreover have "set ((kids h c)[index := i]) = insert i (set (kids h c) - {r})"
    using set_update_distinct [OF t(1) True] by (simp add: r_def)
  then have "j \<in> set (kids h2 d) \<longleftrightarrow> (d, j) \<in> holds h2" for d j
    using t(2) u ri unfolding k2 ho2 ho1 by auto
  moreover have "wf (holds h2)" "finite (holds h2)" using wf1 t(4) ho1 ho2 by (auto intro: wf_subset)
  ultimately have tree2: "heap_tree h2" by (auto simp: heap_tree_def)
  have g2: "getWeight its h2 = getWeight its h" by (simp add: h2_def h1_def)
  have "sum_list (map (getWeight its h) ((kids h c)[index := i])) = sum_list (map (getWeight its h) (kids h c)) + ?w"
    using True by (simp add: map_update sum_list_replace r_def)
  then have "weights_except its c ?w h2"
    using ok unfolding weights_except_def heap_ok_def weights_ok_def g2 k2 by (auto simp: h2_def h1_def)
  then have "weights_ok its (bump (above h2 c) ?w h2)"
    using tree2 c by (intro weights_restored) (simp_all add: h2_def h1_def)
  moreover have "above h2 c = above h1 c"
    using rk t(2) by (intro above_minus [OF wf1 _ ho2]) (simp add: ho1)
  ultimately have "heap_ok its (setParent None r (bump (above h1 c) ?w h1))"
    using tree2 ok by (simp add: heap_ok_def bump_setParent h2_def h1_def)
  moreover have "updateItemWeight c ?w h1 = Some (bump (above h1 c) ?w h1)" by (rule updateItemWeight_bump [OF wf1])
  moreover have "getWeight its h1 = getWeight its h" by (simp add: h1_def)
  ultimately show ?thesis
    using True by (simp add: replaceThing_def getItemByIndex_def Let_def flip: h1_def r_def)
qed

subsection \<open>Everything that happens to the heap\<close>

text \<open>An item enters a container when \<open>queryAdd\<close> lets it in and it is nowhere else, as the game asks
  before it moves something; new items are empty and nowhere. What is in no container may be handed
  between tiles and creatures.\<close>

inductive container_step :: "(u16 \<Rightarrow> item_type) \<Rightarrow> heap \<Rightarrow> heap \<Rightarrow> bool" for its :: "u16 \<Rightarrow> item_type" where
  create: "obj_parent (objects h i) = None \<Longrightarrow> kids h i = [] \<Longrightarrow> item_ok it \<Longrightarrow>
     container_step its h (set_object i \<lparr>obj_item = it, obj_parent = None,
       obj_cont = map_option (\<lambda>n. \<lparr>itemlist = [], maxSize = n, totalWeight = 0\<rparr>) cap\<rparr> h)"
| add: "is_container h c \<Longrightarrow> obj_parent (objects h i) = None \<Longrightarrow>
     queryAdd ask its h c index i amount flags = Some RETURNVALUE_NOERROR \<Longrightarrow> \<not> hasBitSet FLAG_CHILDISOWNER flags \<Longrightarrow>
     addThing its c index' i h = Some h' \<Longrightarrow> container_step its h h'"
| add_back: "is_container h c \<Longrightarrow> obj_parent (objects h i) = None \<Longrightarrow>
     queryAdd ask its h c index i amount flags = Some RETURNVALUE_NOERROR \<Longrightarrow> \<not> hasBitSet FLAG_CHILDISOWNER flags \<Longrightarrow>
     addItemBack its c i h = Some h' \<Longrightarrow> container_step its h h'"
| update: "updateThing its rnd c i itemId amount h = Some h' \<Longrightarrow> container_step its h h'"
| replace: "obj_parent (objects h i) = None \<Longrightarrow> kids h i = [] \<Longrightarrow> i \<noteq> c \<Longrightarrow>
     replaceThing its c n i h = Some h' \<Longrightarrow> container_step its h h'"
| remove: "removeThing its c i amount h = Some h' \<Longrightarrow> container_step its h h'"
| outside: "getParentContainer h i = None \<Longrightarrow> (\<forall>c. p \<noteq> Some (Cont c)) \<Longrightarrow> container_step its h (setParent p i h)"

definition empty_heap :: heap where
  "empty_heap = \<lparr>objects = (\<lambda>_. \<lparr>obj_item = \<lparr>item_id = 0, item_count = 1, item_attrs = None\<rparr>, obj_parent = None, obj_cont = None\<rparr>),
     creature_tile = (\<lambda>_. None)\<rparr>"

inductive container_reach :: "(u16 \<Rightarrow> item_type) \<Rightarrow> heap \<Rightarrow> bool" for its :: "u16 \<Rightarrow> item_type" where
  start: "container_reach its empty_heap"
| step: "container_reach its h \<Longrightarrow> container_step its h h' \<Longrightarrow> container_reach its h'"

lemma empty_not_above:
  assumes "heap_tree h" and "kids h i = []" and "i \<noteq> c"
  shows "i \<notin> above h c"
proof
  assume "i \<in> above h c"
  then have "(i, c) \<in> (holds h)\<^sup>+" using assms(3) by (auto simp: above_def rtrancl_eq_or_trancl)
  then obtain k where "(i, k) \<in> holds h" by (blast dest: tranclD)
  then show False using heap_treeD(2) [OF assms(1)] assms(2) by (metis empty_iff list.set(1))
qed

lemma create_ok:
  assumes ok: "heap_ok its h" and "obj_parent (objects h i) = None" and e: "kids h i = []" and "item_ok it"
  shows "heap_ok its (set_object i \<lparr>obj_item = it, obj_parent = None,
       obj_cont = map_option (\<lambda>n. \<lparr>itemlist = [], maxSize = n, totalWeight = 0\<rparr>) cap\<rparr> h)" (is "heap_ok its ?h")
proof -
  have tree: "heap_tree h" using ok by (simp add: heap_ok_def)
  note t = heap_treeD [OF tree]
  have ho: "holds ?h = holds h" using assms(2) by (auto simp: holds_def)
  have k: "kids ?h c = kids h c" for c using e by (auto simp: kids_def split: option.splits)
  have "heap_tree ?h" using tree by (simp add: heap_tree_def ho k)
  moreover have "getWeight its ?h j = getWeight its h j" if "j \<in> set (kids h c)" for j c
    using that t(2) assms(2) by (auto simp: getWeight_def holds_def total_def)
  then have m: "map (getWeight its ?h) (kids h c) = map (getWeight its h) (kids h c)" for c by (simp cong: map_cong)
  have "is_container ?h c \<Longrightarrow> c \<noteq> i \<Longrightarrow> is_container h c \<and> total ?h c = total h c" and "total ?h i = 0" for c
    by (auto simp: is_container_def total_def split: option.splits)
  then have "weights_ok its ?h"
    using ok e unfolding heap_ok_def weights_ok_def k m by (metis list.map(1) sum_list.Nil)
  ultimately show ?thesis using ok assms(4) by (simp add: heap_ok_def)
qed

lemma outside_ok:
  assumes ok: "heap_ok its h" and "getParentContainer h i = None" and "\<forall>c. p \<noteq> Some (Cont c)"
  shows "heap_ok its (setParent p i h)"
proof -
  have "(c, i) \<notin> holds h" for c using assms(2) parent_container_holds [of h i c] by simp
  then have "holds (setParent p i h) = holds h" using assms(3) by (auto simp: holds_setParent)
  then show ?thesis using ok by (simp add: heap_ok_def heap_tree_def weights_ok_def)
qed

lemma container_step_ok:
  assumes "container_step its h h'" and ok: "heap_ok its h"
  shows "heap_ok its h'"
  using assms(1)
proof cases
  case (add c i ask index amount flags index')
  have "i \<notin> above h c" using queryAdd_not_above add(3,4) ok by (auto simp: heap_ok_def heap_tree_def)
  from addThing_ok [OF ok add(1,2) this, of index'] show ?thesis using add by auto
next
  case (add_back c i ask index amount flags)
  have "i \<notin> above h c" using queryAdd_not_above add_back(3,4) ok by (auto simp: heap_ok_def heap_tree_def)
  from addItemBack_ok [OF ok add_back(1,2) this] show ?thesis using add_back by auto
next
  case (replace i c n)
  have "i \<notin> above h c" using empty_not_above replace(2,3) ok by (auto simp: heap_ok_def)
  from replaceThing_ok [OF ok replace(1) this, of n] show ?thesis using replace by auto
next
  case (update rnd c i itemId amount)
  then show ?thesis using updateThing_ok [OF ok, of rnd c i itemId amount] by auto
next
  case (remove c i amount)
  then show ?thesis using removeThing_ok [OF ok, of c i amount] by auto
qed (use ok create_ok outside_ok in auto)

lemma empty_heap_ok: "heap_ok its empty_heap"
proof -
  have "holds empty_heap = {}" "kids empty_heap c = []" "\<not> is_container empty_heap c" for c
    by (auto simp: holds_def empty_heap_def kids_def is_container_def)
  then show ?thesis
    by (auto simp: heap_ok_def heap_tree_def weights_ok_def item_ok_def getAttributes_def) (simp add: empty_heap_def)
qed

lemma container_reach_ok: "container_reach its h \<Longrightarrow> heap_ok its h"
  by (induction rule: container_reach.induct) (auto intro: empty_heap_ok container_step_ok)

section \<open>The iterator visits everything inside, once\<close>

definition inside :: "heap \<Rightarrow> nat \<Rightarrow> nat set" where
  "inside h c = {i. (c, i) \<in> (holds h)\<^sup>+}"

text \<open>The items still to be visited, in order.\<close>

definition pending :: "heap \<Rightarrow> container_iterator \<Rightarrow> nat list" where
  "pending h it = (case over it of [] \<Rightarrow> [] | x # xs \<Rightarrow> drop (cur it) (kids h x) @ concat (map (kids h) xs))"

definition iterator_ok :: "heap \<Rightarrow> container_iterator \<Rightarrow> bool" where
  "iterator_ok h it \<longleftrightarrow> (\<forall>x \<in> set (over it). kids h x \<noteq> []) \<and>
     (over it \<noteq> [] \<longrightarrow> cur it < length (kids h (hd (over it))))"

lemma pending_deref:
  assumes "iterator_ok h it" and "hasNext it"
  shows "pending h it = deref h it # tl (pending h it)"
  using assms by (cases "over it") (simp_all add: iterator_ok_def hasNext_def pending_def deref_def Cons_nth_drop_Suc [symmetric])

lemma advance_pending:
  assumes "iterator_ok h it" and "hasNext it"
  shows "iterator_ok h (advance h it)" and "pending h (advance h it) = tl (pending h it) @ kids h (deref h it)"
proof -
  obtain x xs where o: "over it = x # xs" using assms(2) by (cases "over it") (auto simp: hasNext_def)
  let ?i = "deref h it"
  have c: "kids h ?i \<noteq> [] \<Longrightarrow> is_container h ?i" by (cases "kids h ?i") (auto intro: container_of_kid [of "hd (kids h ?i)"])
  define ys where "ys = (if kids h ?i \<noteq> [] then xs @ [?i] else xs)"
  have ov: "(if is_container h ?i \<and> kids h ?i \<noteq> [] then over it @ [?i] else over it) = x # ys"
    using c o by (auto simp: ys_def)
  have ny: "\<forall>y \<in> set ys. kids h y \<noteq> []" "kids h x \<noteq> []" "cur it < length (kids h x)"
    using assms(1) o by (auto simp: ys_def iterator_ok_def)
  have ky: "concat (map (kids h) ys) = concat (map (kids h) xs) @ kids h ?i"
    by (simp add: ys_def)
  have t: "tl (pending h it) = drop (Suc (cur it)) (kids h x) @ concat (map (kids h) xs)"
    using ny(3) by (simp add: pending_def o Cons_nth_drop_Suc [symmetric])
  have a: "advance h it = (if Suc (cur it) = length (kids h x) then \<lparr>over = ys, cur = 0\<rparr> else \<lparr>over = x # ys, cur = Suc (cur it)\<rparr>)"
    unfolding advance_def Let_def ov by simp
  show "iterator_ok h (advance h it)"
    using ny by (cases ys) (auto simp: a iterator_ok_def)
  show "pending h (advance h it) = tl (pending h it) @ kids h ?i"
  proof -
    have "pending h (advance h it) = drop (Suc (cur it)) (kids h x) @ concat (map (kids h) ys)"
      using ny by (cases ys) (auto simp: a pending_def)
    then show ?thesis using ky by (simp add: t)
  qed
qed

lemma inside_finite: "heap_tree h \<Longrightarrow> finite (inside h c)"
proof -
  assume "heap_tree h"
  then have "finite ((holds h)\<^sup>+)" using heap_treeD(4) by (simp add: finite_trancl)
  moreover have "inside h c \<subseteq> snd ` ((holds h)\<^sup>+)" by (force simp: inside_def)
  ultimately show ?thesis by (rule finite_surj)
qed

lemma not_inside_self: "heap_tree h \<Longrightarrow> i \<notin> inside h i"
  using heap_treeD(3) [of h] wf_acyclic by (auto simp: inside_def acyclic_def)

lemma collect_ok:
  assumes tree: "heap_tree h"
  shows "iterator_ok h it \<Longrightarrow> distinct (pending h it) \<Longrightarrow> set (pending h it) \<inter> D = {} \<Longrightarrow>
    set (pending h it) \<union> D \<subseteq> inside h c \<Longrightarrow>
    (\<And>x p. x \<in> set (pending h it) \<union> D \<Longrightarrow> (p, x) \<in> holds h \<Longrightarrow> p \<in> insert c D) \<Longrightarrow>
    (\<And>x. x \<in> insert c D \<Longrightarrow> set (kids h x) \<subseteq> D \<union> set (pending h it)) \<Longrightarrow>
    \<exists>xs. collect h it = Some xs \<and> distinct xs \<and> set xs = inside h c - D"
proof (induction "card (inside h c - D)" arbitrary: D it rule: less_induct)
  case less
  note t = heap_treeD [OF tree]
  show ?case
  proof (cases "hasNext it")
    case False
    then have p: "pending h it = []" by (simp add: hasNext_def pending_def)
    have "i \<in> D" if "(c, i) \<in> (holds h)\<^sup>+" for i
      using that
    proof (induction rule: trancl_induct)
      case (base y)
      then show ?case using less.prems(6) [of c] p t(2) by auto
    next
      case (step y z)
      then show ?case using less.prems(6) [of y] p t(2) by auto
    qed
    then have "inside h c - D = {}" by (auto simp: inside_def)
    then show ?thesis using False by (subst collect.simps) simp
  next
    case True
    let ?i = "deref h it"
    let ?D = "insert ?i D"
    let ?rest = "tl (pending h it)"
    note ip = pending_deref [OF less.prems(1) True]
    note adv = advance_pending [OF less.prems(1) True]
    have i: "?i \<in> inside h c" "?i \<notin> D" "?i \<notin> set ?rest" "distinct ?rest" "set ?rest \<subseteq> inside h c" "set ?rest \<inter> D = {}"
      using less.prems(2-4) ip by (metis Un_subset_iff disjoint_iff distinct.simps(2) list.set_intros(1) subsetD)
        (use less.prems(2-4) ip in \<open>metis disjoint_iff list.set_intros(1)\<close>,
         use less.prems(2) ip in \<open>metis distinct.simps(2)\<close>, use less.prems(2) ip in \<open>metis distinct.simps(2)\<close>,
         use less.prems(4) ip in \<open>metis Un_subset_iff set_subset_Cons subset_trans\<close>,
         use less.prems(3) ip in \<open>metis disjoint_iff list.set_intros(2)\<close>)
    have ic: "?i \<noteq> c" using i(1) not_inside_self [OF tree] by auto
    have par: "p \<in> insert c D" if "x \<in> insert ?i (set ?rest) \<union> D" "(p, x) \<in> holds h" for x p
      using less.prems(5) [of x p] that ip by (metis Un_iff list.simps(15))
    have kid: "(?i, k) \<in> holds h \<longleftrightarrow> k \<in> set (kids h ?i)" for k using t(2) by simp
    have new: "k \<notin> insert ?i (set ?rest) \<union> D" if "k \<in> set (kids h ?i)" for k
      using par [of k ?i] that kid ic i(2) by blast
    have ins: "set (kids h ?i) \<subseteq> inside h c"
      using i(1) kid by (auto simp: inside_def intro: trancl_into_trancl)
    have "card (inside h c - ?D) < card (inside h c - D)"
      using i inside_finite [OF tree] by (intro psubset_card_mono) auto
    moreover have "distinct (pending h (advance h it))" using i(4) t(1) new by (auto simp: adv(2))
    moreover have "set (pending h (advance h it)) \<inter> ?D = {}" using i new by (auto simp: adv(2))
    moreover have "set (pending h (advance h it)) \<union> ?D \<subseteq> inside h c"
      using i ins less.prems(4) by (auto simp: adv(2))
    moreover have "p \<in> insert c ?D" if "x \<in> set (pending h (advance h it)) \<union> ?D" "(p, x) \<in> holds h" for x p
    proof (cases "x \<in> set (kids h ?i)")
      case True
      then have "(?i, x) \<in> holds h" using kid by simp
      then show ?thesis using that(2) by (auto simp: holds_def)
    next
      case False
      then show ?thesis using par [of x p] that by (auto simp: adv(2))
    qed
    moreover have "set (kids h x) \<subseteq> ?D \<union> set (pending h (advance h it))" if "x \<in> insert c ?D" for x
    proof (cases "x = ?i")
      case False
      then have "set (kids h x) \<subseteq> D \<union> set (pending h it)" using less.prems(6) [of x] that by blast
      also have "set (pending h it) = insert ?i (set ?rest)" using ip by (metis list.simps(15))
      finally show ?thesis by (auto simp: adv(2))
    qed (auto simp: adv(2))
    ultimately obtain xs where xs: "collect h (advance h it) = Some xs" "distinct xs" "set xs = inside h c - ?D"
      using less.hyps [of ?D "advance h it"] adv(1) by blast
    then have "collect h it = Some (?i # xs)" using True by (subst collect.simps) simp
    moreover have "distinct (?i # xs)" "set (?i # xs) = inside h c - D" using xs i by auto
    ultimately show ?thesis by blast
  qed
qed

lemma collect_Some:
  "collect h it = Some xs \<longleftrightarrow>
     (if hasNext it then \<exists>ys. xs = deref h it # ys \<and> collect h (advance h it) = Some ys else xs = [])"
  by (subst collect.simps) (auto split: Option.bind_splits)

lemma count_from_collect: "collect h it = Some xs \<Longrightarrow> count_from h it n = Some (n + of_nat (length xs))"
proof (induction xs arbitrary: it n)
  case Nil
  then have "\<not> hasNext it" by (simp only: collect_Some [of h it]) (auto split: if_split_asm)
  then show ?case by (subst count_from.simps) simp
next
  case (Cons x xs)
  then have "hasNext it" "collect h (advance h it) = Some xs"
    by (simp_all only: collect_Some [of h it]) (auto split: if_split_asm)
  then show ?case using Cons.IH [of "advance h it" "n + 1"] by (subst count_from.simps) (simp add: algebra_simps)
qed

lemma holding_from_collect: "collect h it = Some xs \<Longrightarrow> holding_from h it i = Some (i \<in> set xs)"
proof (induction xs arbitrary: it)
  case Nil
  then have "\<not> hasNext it" by (simp only: collect_Some [of h it]) (auto split: if_split_asm)
  then show ?case by (subst holding_from.simps) simp
next
  case (Cons x xs)
  then have "hasNext it" "deref h it = x" "collect h (advance h it) = Some xs"
    by (simp_all only: collect_Some [of h it]) (auto split: if_split_asm)
  then show ?case using Cons.IH [of "advance h it"] by (subst holding_from.simps) auto
qed

lemma collect_inside:
  assumes tree: "heap_tree h"
  obtains xs where "collect h (iterator h c) = Some xs" and "distinct xs" and "set xs = inside h c"
proof -
  note t = heap_treeD [OF tree]
  have p: "pending h (iterator h c) = kids h c" by (simp add: pending_def iterator_def)
  have "iterator_ok h (iterator h c)" by (simp add: iterator_ok_def iterator_def)
  moreover have "set (kids h c) \<subseteq> inside h c" using t(2) by (auto simp: inside_def)
  moreover have "q = c" if "x \<in> set (kids h c)" "(q, x) \<in> holds h" for x q
    using that t(2) by (auto simp: holds_def)
  ultimately have "\<exists>xs. collect h (iterator h c) = Some xs \<and> distinct xs \<and> set xs = inside h c - {}"
    using t(1) by (intro collect_ok [OF tree]) (auto simp: p)
  then show thesis using that by auto
qed

subsection \<open>The weight of everything inside\<close>

lemma above_linear:
  assumes "(k, x) \<in> (holds h)\<^sup>*" and "(k', x) \<in> (holds h)\<^sup>*"
  shows "(k, k') \<in> (holds h)\<^sup>* \<or> (k', k) \<in> (holds h)\<^sup>*"
  using assms
proof (induction arbitrary: k' rule: rtrancl_induct)
  case (step y z)
  show ?case
  proof (cases "k' = z")
    case True
    then show ?thesis using step.hyps by (meson rtrancl.rtrancl_into_rtrancl)
  next
    case False
    then obtain w where "(k', w) \<in> (holds h)\<^sup>*" "(w, z) \<in> holds h" using step.prems by (metis rtranclE)
    moreover from this have "w = y" using step.hyps(2) by (simp add: holds_def)
    ultimately show ?thesis using step.IH by blast
  qed
qed simp

lemma kids_disjoint:
  assumes tree: "heap_tree h" and "k \<in> set (kids h c)" and "k' \<in> set (kids h c)" and "k \<noteq> k'"
  shows "insert k (inside h k) \<inter> insert k' (inside h k') = {}"
proof (rule ccontr)
  assume "insert k (inside h k) \<inter> insert k' (inside h k') \<noteq> {}"
  then obtain x where "(k, x) \<in> (holds h)\<^sup>*" "(k', x) \<in> (holds h)\<^sup>*"
    by (auto simp: inside_def intro: trancl_into_rtrancl)
  from above_linear [OF this] have "(k, k') \<in> (holds h)\<^sup>+ \<or> (k', k) \<in> (holds h)\<^sup>+"
    using assms(4) by (auto simp: rtrancl_eq_or_trancl)
  moreover have "(c, k) \<in> holds h" "(c, k') \<in> holds h" using heap_treeD(2) [OF tree] assms(2,3) by auto
  moreover have "(y, z) \<in> (holds h)\<^sup>+ \<Longrightarrow> (c, y) \<in> holds h \<Longrightarrow> (c, z) \<in> holds h \<Longrightarrow> c \<in> above h c \<and> y \<in> above h c" for y z
    using above_step [of c z h] by (auto simp: above_def rtrancl_eq_or_trancl holds_def elim: tranclE)
  ultimately show False
    using not_above_parent [OF heap_treeD(3) [OF tree], of c k] not_above_parent [OF heap_treeD(3) [OF tree], of c k'] by blast
qed

lemma inside_kids:
  assumes "heap_tree h"
  shows "inside h c = (\<Union>k \<in> set (kids h c). insert k (inside h k))"
proof -
  have "(c, x) \<in> (holds h)\<^sup>+ \<longleftrightarrow> (\<exists>k. (c, k) \<in> holds h \<and> (x = k \<or> (k, x) \<in> (holds h)\<^sup>+))" for x
    by (metis converse_tranclE trancl.r_into_trancl trancl_into_trancl2)
  then show ?thesis using heap_treeD(2) [OF assms] by (auto simp: inside_def)
qed

definition own_weight :: "(u16 \<Rightarrow> item_type) \<Rightarrow> heap \<Rightarrow> nat \<Rightarrow> u32" where
  "own_weight its h i = item_getWeight (its (item_id (the_item h i))) (the_item h i)"

lemma total_is_sum:
  assumes tree: "heap_tree h" and w: "weights_ok its h"
  shows "is_container h c \<Longrightarrow> total h c = (\<Sum>i \<in> inside h c. own_weight its h i)"
proof (induction c rule: wf_induct_rule [OF finite_acyclic_wf_converse [OF heap_treeD(4) [OF tree] wf_acyclic [OF heap_treeD(3) [OF tree]]]])
  case (1 c)
  note t = heap_treeD [OF tree]
  have k: "getWeight its h k = (\<Sum>i \<in> insert k (inside h k). own_weight its h i)" if "k \<in> set (kids h c)" for k
  proof -
    have "total h k = (\<Sum>i \<in> inside h k. own_weight its h i)"
    proof (cases "is_container h k")
      case True
      then show ?thesis using 1 t(2) that by simp
    next
      case False
      then have "total h k = 0" "kids h k = []" by (simp_all add: is_container_def total_def kids_def)
      then show ?thesis using inside_kids [OF tree, of k] by simp
    qed
    then show ?thesis
      using not_inside_self [OF tree, of k] inside_finite [OF tree] by (simp add: getWeight_def own_weight_def)
  qed
  have "total h c = sum_list (map (getWeight its h) (kids h c))" using w 1(2) by (simp add: weights_ok_def)
  also have "\<dots> = (\<Sum>k \<in> set (kids h c). getWeight its h k)" using t(1) by (simp add: sum_list_distinct_conv_sum_set)
  also have "\<dots> = (\<Sum>k \<in> set (kids h c). \<Sum>i \<in> insert k (inside h k). own_weight its h i)" using k by (rule sum.cong [OF refl])
  also have "\<dots> = (\<Sum>i \<in> (\<Union>k \<in> set (kids h c). insert k (inside h k)). own_weight its h i)"
    using kids_disjoint [OF tree] inside_finite [OF tree] by (intro sum.UNION_disjoint [symmetric]) auto
  finally show ?case by (simp only: inside_kids [OF tree, of c])
qed

section \<open>Properties\<close>

text \<open>C8: however containers are filled, changed and emptied, an item is listed in exactly the container it
  points to and once, no container is inside itself, and the total weight that a container keeps is
  the weight of everything inside it, however deeply nested (modulo the width of the field).\<close>

theorem containers_stay_consistent:
  assumes "container_reach its h"
  shows "(i \<in> set (kids h c) \<longleftrightarrow> obj_parent (objects h i) = Some (Cont c)) \<and> distinct (kids h c) \<and> c \<notin> inside h c \<and>
    (if is_container h c then total h c = (\<Sum>i \<in> inside h c. own_weight its h i) else kids h c = [])"
proof -
  have ok: "heap_tree h" "weights_ok its h" using container_reach_ok [OF assms] by (simp_all add: heap_ok_def)
  have "\<not> is_container h c \<Longrightarrow> kids h c = []" by (simp add: is_container_def kids_def)
  then show ?thesis
    using heap_treeD(1,2) [OF ok(1)] not_inside_self [OF ok(1)] total_is_sum [OF ok] by (simp add: holds_def)
qed

text \<open>C28: the iterator of a container ends after it has visited everything inside exactly once, so that
  \<open>isHoldingItem\<close> answers whether an item is inside at any depth, and \<open>getItemHoldingCount\<close> counts.\<close>

theorem iterator_visits_everything_once:
  assumes "container_reach its h"
  shows "\<exists>xs. getItems h c True = Some xs \<and> distinct xs \<and> set xs = inside h c \<and>
    isHoldingItem h c i = Some (i \<in> inside h c) \<and> getItemHoldingCount h c = Some (of_nat (card (inside h c)))"
proof -
  have "heap_tree h" using container_reach_ok [OF assms] by (simp add: heap_ok_def)
  then obtain xs where xs: "collect h (iterator h c) = Some xs" "distinct xs" "set xs = inside h c" by (rule collect_inside)
  have "length xs = card (inside h c)" using xs(2,3) distinct_card by metis
  then show ?thesis
    using xs count_from_collect [OF xs(1)] holding_from_collect [OF xs(1)]
    by (simp add: getItems_def isHoldingItem_def getItemHoldingCount_def)
qed

lemma top_loop_returns:
  assumes wf: "wf (holds h)"
  shows "(\<forall>t. p \<noteq> Til t) \<Longrightarrow> \<exists>r. top_loop h aux (Some p) = Some r \<and> (\<forall>t. r \<noteq> Til t)"
proof -
  have flat: "top_loop h (Til t) (Some p) = Some p" "top_loop h Virtual (Some p) = Some p" for t p
    by (subst top_loop.simps, simp)+
  have creat: "(\<forall>t. p \<noteq> Til t) \<Longrightarrow> \<exists>r. top_loop h (Creat q) (Some p) = Some r \<and> (\<forall>t. r \<noteq> Til t)" for q p
    by (subst top_loop.simps) (cases "creature_tile h q", simp_all add: flat)
  have cont: "\<forall>p. (\<forall>t. p \<noteq> Til t) \<longrightarrow> (\<exists>r. top_loop h (Cont c) (Some p) = Some r \<and> (\<forall>t. r \<noteq> Til t))" for c
  proof (induction c rule: wf_induct_rule [OF wf])
    case (1 c)
    have s: "top_loop h (Cont c) (Some p) = (case obj_parent (objects h c) of None \<Rightarrow> Some p | Some up \<Rightarrow> top_loop h up (Some (Cont c)))" for p
      by (subst top_loop.simps) (cases "obj_parent (objects h c)"; simp)
    show ?case
    proof (cases "obj_parent (objects h c)")
      case (Some up)
      have "\<exists>r. top_loop h up (Some (Cont c)) = Some r \<and> (\<forall>t. r \<noteq> Til t)"
      proof (cases up)
        case (Cont q)
        then show ?thesis using 1 Some by (simp add: holds_def)
      qed (use flat creat in auto)
      then show ?thesis using s Some by simp
    qed (use s in simp)
  qed
  show "(\<forall>t. p \<noteq> Til t) \<Longrightarrow> ?thesis"
    using flat creat cont by (cases aux) auto
qed

lemma getTopParent_container:
  assumes "wf (holds h)" and "is_container h c"
  shows "\<exists>r. getTopParent h c = Some (Some r) \<and> (\<forall>t. r \<noteq> Til t)"
proof (cases "obj_parent (objects h c)")
  case (Some aux)
  then show ?thesis using top_loop_returns [OF assms(1), of "Cont c" aux] assms(2) by (auto simp: getTopParent_def Let_def)
qed (use assms(2) in \<open>simp add: getTopParent_def Let_def\<close>)

lemma queryAdd_returns:
  assumes "heap_tree h" and "is_container h c"
  shows "queryAdd ask its h c index i amount flags \<noteq> None"
proof -
  have wf: "wf (holds h)" using heap_treeD(3) [OF assms(1)] .
  obtain r where r: "getTopParent h c = Some (Some r)" using getTopParent_container [OF wf assms(2)] by blast
  obtain b where "met_above h i (obj_parent (objects h c)) = Some b"
    using met_above_holds [OF wf, of i] by (cases "obj_parent (objects h c)"; cases "the (obj_parent (objects h c))") auto
  then show ?thesis using r by (auto simp: queryAdd_def split: cylinder.split)
qed

lemma stack_room_returns:
  assumes "\<And>s. add s \<noteq> None"
  shows "stack_room add its h i ks s n \<noteq> None"
proof (induction ks arbitrary: s n)
  case (Cons k ks)
  obtain r where "add s = Some r" using assms [of s] by auto
  then show ?case using Cons by simp
qed simp

lemma queryMaxCount_returns:
  assumes "heap_tree h" and "is_container h c"
  shows "queryMaxCount ask its h c index i amount flags \<noteq> None"
proof -
  have q: "queryAdd ask its h c index i amount flags \<noteq> None" for index by (rule queryAdd_returns [OF assms])
  obtain n where n: "stack_room (\<lambda>slot. queryAdd ask its h c (sint slot) i amount flags) its h i (kids h c) 0 0 = Some n"
    using stack_room_returns [of "\<lambda>slot. queryAdd ask its h c (sint slot) i amount flags", OF q] by blast
  obtain r where r: "queryAdd ask its h c index i amount flags = Some r" using q by blast
  show ?thesis
    by (cases "getItemByIndex h c index") (simp_all add: queryMaxCount_def Let_def n r)
qed

lemma queryRemove_returns:
  assumes "wf (holds h)" and "is_container h c"
  shows "queryRemove house its h c i amount flags \<noteq> None"
  using getTopParent_container [OF assms] by (auto simp: queryRemove_def)

text \<open>On every container that can come about, the loops over parents and items end: the queries
  answer and the changes return.\<close>

theorem container_operations_return:
  assumes "container_reach its h" and c: "is_container h c"
  shows "queryAdd ask its h c index i amount flags \<noteq> None \<and> queryMaxCount ask its h c index i amount flags \<noteq> None \<and>
    queryRemove house its h c i amount flags \<noteq> None \<and> updateThing its rnd c i itemId amount h \<noteq> None \<and>
    removeThing its c i amount h \<noteq> None \<and>
    (if obj_parent (objects h i) = None \<and> queryAdd ask its h c index i amount 0 = Some RETURNVALUE_NOERROR
     then addThing its c index i h \<noteq> None \<and> addItemBack its c i h \<noteq> None \<and> replaceThing its c n i h \<noteq> None else True)"
proof -
  have ok: "heap_ok its h" by (rule container_reach_ok [OF assms(1)])
  then have tree: "heap_tree h" by (simp add: heap_ok_def)
  have wf: "wf (holds h)" using heap_treeD(3) [OF tree] .
  have q: "queryAdd ask its h c index i amount flags \<noteq> None" for index by (rule queryAdd_returns [OF tree c])
  have "queryMaxCount ask its h c index i amount flags \<noteq> None" by (rule queryMaxCount_returns [OF tree c])
  moreover have "queryRemove house its h c i amount flags \<noteq> None" by (rule queryRemove_returns [OF wf c])
  moreover have "updateThing its rnd c i itemId amount h \<noteq> None" "removeThing its c i amount h \<noteq> None"
    using updateThing_ok [OF ok, of rnd c i itemId amount] removeThing_ok [OF ok, of c i amount] by auto
  moreover have "addThing its c index i h \<noteq> None \<and> addItemBack its c i h \<noteq> None \<and> replaceThing its c n i h \<noteq> None"
    if "obj_parent (objects h i) = None" "queryAdd ask its h c index i amount 0 = Some RETURNVALUE_NOERROR"
  proof -
    have "i \<notin> above h c" using queryAdd_not_above [OF wf that(2)] by (simp add: hasBitSet_def)
    then show ?thesis
      using addThing_ok [OF ok c that(1), of index] addItemBack_ok [OF ok c that(1)] replaceThing_ok [OF ok that(1), of c n] by auto
  qed
  ultimately show ?thesis using q by simp
qed

text \<open>C37: taking something out of a container never asks the house it stands in: the outermost parent of
  a container is a container or a creature, never a tile, so that the check for house tiles in
  \<open>queryRemove\<close> is not reached.\<close>

theorem container_never_asks_the_house:
  assumes "container_reach its h" and "is_container h c"
  shows "queryRemove house its h c i amount flags = queryRemove (\<lambda>_. None) its h c i amount flags"
proof -
  have "wf (holds h)" using container_reach_ok [OF assms(1)] by (simp add: heap_ok_def heap_tree_def)
  then obtain r where "getTopParent h c = Some (Some r)" "\<forall>t. r \<noteq> Til t" using getTopParent_container assms(2) by blast
  then show ?thesis by (cases r) (auto simp: queryRemove_def)
qed

section \<open>A bag with five coins\<close>

definition demo_types :: "u16 \<Rightarrow> item_type" where
  "demo_types n = \<lparr>it_group = (if n = 1 then ITEM_GROUP_CONTAINER else ITEM_GROUP_NONE), it_type = ITEM_TYPE_NONE, it_id = n, it_stackable = (n = 2), it_charges = 0, it_moveable = True, it_pickupable = True,
     it_weight = 10, it_stackSize = 100, it_maxItems = 8, it_decayTimeMin = 0, it_decayTimeMax = 0, it_decayTo = - 1, it_stopTime = False\<rparr>"

definition demo_items :: heap where
  "demo_items =
     set_object 1 \<lparr>obj_item = \<lparr>item_id = 2, item_count = 5, item_attrs = None\<rparr>, obj_parent = None, obj_cont = None\<rparr>
       (set_object 0 \<lparr>obj_item = \<lparr>item_id = 1, item_count = 1, item_attrs = None\<rparr>, obj_parent = None,
          obj_cont = Some \<lparr>itemlist = [], maxSize = 8, totalWeight = 0\<rparr>\<rparr> empty_heap)"

lemma demo_items_reach: "container_reach demo_types demo_items"
proof -
  have ok: "item_ok \<lparr>item_id = n, item_count = k, item_attrs = None\<rparr>" for n k
    by (simp add: item_ok_def getAttributes_def)
  have 0: "container_reach demo_types
      (set_object 0 \<lparr>obj_item = \<lparr>item_id = 1, item_count = 1, item_attrs = None\<rparr>, obj_parent = None,
         obj_cont = map_option (\<lambda>n. \<lparr>itemlist = [], maxSize = n, totalWeight = 0\<rparr>) (Some 8)\<rparr> empty_heap)"
    by (rule container_reach.step [OF container_reach.start container_step.create]) (simp_all add: ok empty_heap_def kids_def)
  have "container_reach demo_types
      (set_object 1 \<lparr>obj_item = \<lparr>item_id = 2, item_count = 5, item_attrs = None\<rparr>, obj_parent = None,
         obj_cont = map_option (\<lambda>n. \<lparr>itemlist = [], maxSize = n, totalWeight = 0\<rparr>) None\<rparr>
        (set_object 0 \<lparr>obj_item = \<lparr>item_id = 1, item_count = 1, item_attrs = None\<rparr>, obj_parent = None,
         obj_cont = map_option (\<lambda>n. \<lparr>itemlist = [], maxSize = n, totalWeight = 0\<rparr>) (Some 8)\<rparr> empty_heap))"
    by (rule container_reach.step [OF 0 container_step.create]) (simp_all add: ok empty_heap_def kids_def set_object_def)
  then show ?thesis by (simp add: demo_items_def)
qed

definition demo_full :: heap where
  "demo_full =
     set_object 1 \<lparr>obj_item = \<lparr>item_id = 2, item_count = 5, item_attrs = None\<rparr>, obj_parent = Some (Cont 0), obj_cont = None\<rparr>
       (set_object 0 \<lparr>obj_item = \<lparr>item_id = 1, item_count = 1, item_attrs = None\<rparr>, obj_parent = None,
          obj_cont = Some \<lparr>itemlist = [1], maxSize = 8, totalWeight = 50\<rparr>\<rparr> empty_heap)"

lemma demo_filled:
  obtains h where "container_reach demo_types h" and "is_container h 0" and "kids h 0 = [1]" and "total h 0 = 50" and "objects h = objects demo_full"
proof -
  have q: "queryAdd (\<lambda>_ _ _ _ _. RETURNVALUE_NOERROR) demo_types demo_items 0 (- 1) 1 5 0 = Some RETURNVALUE_NOERROR"
    by (simp add: queryAdd_def demo_items_def demo_types_def empty_heap_def set_object_def hasBitSet_def getTopParent_def
        is_container_def kids_def capacity_def met_above.simps [of _ _ None])
  have c: "is_container demo_items 0" and p: "obj_parent (objects demo_items 1) = None"
    by (simp_all add: demo_items_def is_container_def)
  have f: "\<not> hasBitSet FLAG_CHILDISOWNER 0" by (simp add: hasBitSet_def)
  obtain h where h: "addThing demo_types 0 0 1 demo_items = Some h" "kids h 0 = [1]" "is_container h 0" "total h 0 = 50" "objects h = objects demo_full"
    by (simp add: addThing_def internalAddThing_def Let_def demo_items_def updateItemWeight.simps [of 0] getParentContainer_def
        map_cont_def map_itemlist_def setParent_def kids_def is_container_def total_def capacity_def getWeight_def
        item_getWeight_def getBaseWeight_def item_hasAttribute_def demo_types_def empty_heap_def demo_full_def fun_eq_iff)
  have "container_reach demo_types h"
    by (rule container_reach.step [OF demo_items_reach container_step.add [OF c p q f h(1)]])
  then show thesis using that h by blast
qed

lemma containers_stay_consistent_witness:
  "\<exists>h. container_reach demo_types h \<and> kids h 0 = [1] \<and> total h 0 = 50 \<and> obj_parent (objects h 1) = Some (Cont 0) \<and> 0 \<notin> inside h 0"
proof -
  obtain h where "container_reach demo_types h" "is_container h 0" "kids h 0 = [1]" "total h 0 = 50" by (rule demo_filled)
  then show ?thesis using containers_stay_consistent [of demo_types h 1 0] by auto
qed

lemma iterator_visits_everything_once_witness:
  "\<exists>h xs. container_reach demo_types h \<and> kids h 0 = [1] \<and> getItems h 0 True = Some xs \<and> set xs = inside h 0 \<and>
     isHoldingItem h 0 1 = Some (1 \<in> inside h 0)"
proof -
  obtain h where "container_reach demo_types h" "kids h 0 = [1]" by (rule demo_filled)
  then show ?thesis using iterator_visits_everything_once [of demo_types h 0 1] by auto
qed

lemma container_operations_return_witness:
  "\<exists>h. container_reach demo_types h \<and> is_container h 0 \<and> kids h 0 = [1] \<and> removeThing demo_types 0 1 2 h \<noteq> None"
proof -
  obtain h where "container_reach demo_types h" "is_container h 0" "kids h 0 = [1]" by (rule demo_filled)
  then show ?thesis using container_operations_return [of demo_types h 0 "\<lambda>_ _ _ _ _. RETURNVALUE_NOERROR" 0 1 2] by auto
qed

lemma container_never_asks_the_house_witness:
  "\<exists>h. container_reach demo_types h \<and> is_container h 0 \<and> kids h 0 = [1] \<and>
     queryRemove (\<lambda>_. Some RETURNVALUE_PLAYERISNOTINVITED) demo_types h 0 1 5 0 = queryRemove (\<lambda>_. None) demo_types h 0 1 5 0"
proof -
  obtain h where h: "container_reach demo_types h" "is_container h 0" "kids h 0 = [1]" by (rule demo_filled)
  then show ?thesis using container_never_asks_the_house [OF h(1,2)] by blast
qed

end
