(* ===== verification/Dispatcher.thy ===== *)
theory Dispatcher
  imports Prelude
begin

text \<open>
  The dispatcher, \<open>src/src/tasks.cpp\<close> and \<open>src/src/tasks.h\<close>, with the thread state of
  \<open>src/src/thread_holder_base.h\<close>: any thread adds tasks to a list under a lock, and one thread takes the
  whole list and runs it. The critical sections are the steps of a relation, and so is the notification
  that \<open>addTask\<close> sends after it has released the lock; the steps of all threads interleave as they may.
  A condition variable may wake its waiter without a notification, as the standard allows. What a task
  does to the dispatcher is further steps of the relation: the lock is not held while a task runs.
\<close>

section \<open>Tasks\<close>

text \<open>A task has a number to tell it from others and what its function is: work, or the end of the dispatcher.\<close>

datatype task_func = Work | Terminate

record task =
  task_id :: nat
  func :: task_func
  expiration :: int

definition SYSTEM_TIME_ZERO :: int where "SYSTEM_TIME_ZERO = 0"

definition createTask :: "nat \<Rightarrow> task_func \<Rightarrow> task" where
  "createTask i f = \<lparr>task_id = i, func = f, expiration = SYSTEM_TIME_ZERO\<rparr>"

definition createTask_expiring :: "nat \<Rightarrow> int \<Rightarrow> u32 \<Rightarrow> task_func \<Rightarrow> task" where
  "createTask_expiring i now ms f = \<lparr>task_id = i, func = f, expiration = now + uint ms\<rparr>"

definition setDontExpire :: "task \<Rightarrow> task" where
  "setDontExpire t = t\<lparr>expiration := SYSTEM_TIME_ZERO\<rparr>"

definition hasExpired :: "int \<Rightarrow> task \<Rightarrow> bool" where
  "hasExpired now t = (if expiration t = SYSTEM_TIME_ZERO then False else expiration t < now)"

section \<open>The dispatcher\<close>

datatype thread_state = THREAD_STATE_RUNNING | THREAD_STATE_CLOSING | THREAD_STATE_TERMINATED

text \<open>Where the dispatcher's thread is: at the head of the loop, before the lock, waiting for a signal,
  signalled but without the lock, running the tasks it took, or gone.\<close>

datatype place = Checking | Locking | Waiting | Woken | Running | Gone

record dispatcher =
  threadState :: thread_state
  taskList :: "task list"
  tmpTaskList :: "task list"
  dispatcherCycle :: u64
  place :: place
  notifying :: nat \<comment> \<open>threads that have still to call \<open>notify_one\<close>\<close>
  accepted :: "task list" \<comment> \<open>every task that ever got into the list\<close>
  finished :: "(task \<times> bool) list" \<comment> \<open>tasks taken out and deleted, and whether they were executed\<close>

definition new_dispatcher :: dispatcher where
  "new_dispatcher = \<lparr>threadState = THREAD_STATE_TERMINATED, taskList = [], tmpTaskList = [], dispatcherCycle = 0,
     place = Gone, notifying = 0, accepted = [], finished = []\<rparr>"

text \<open>\<open>ThreadHolder::start\<close> and \<open>ThreadHolder::stop\<close>; the dispatcher is started once.\<close>

definition start :: "dispatcher \<Rightarrow> dispatcher" where
  "start d = d\<lparr>threadState := THREAD_STATE_RUNNING, place := Checking\<rparr>"

definition stop :: "dispatcher \<Rightarrow> dispatcher" where
  "stop d = d\<lparr>threadState := THREAD_STATE_CLOSING\<rparr>"

text \<open>The critical section of \<open>addTask\<close>; the signal follows when the list was empty.\<close>

definition addTask :: "task \<Rightarrow> dispatcher \<Rightarrow> dispatcher" where
  "addTask t d =
     (if threadState d = THREAD_STATE_RUNNING then
        let do_signal = (taskList d = []) in
        d\<lparr>taskList := taskList d @ [t], accepted := accepted d @ [t],
          notifying := (if do_signal then notifying d + 1 else notifying d)\<rparr>
      else d)"

text \<open>\<open>notify_one\<close>: the waiting thread, if there is one, goes on.\<close>

definition notify_one :: "dispatcher \<Rightarrow> dispatcher" where
  "notify_one d = (if place d = Waiting then d\<lparr>place := Woken\<rparr> else d)"

text \<open>\<open>shutdown\<close> adds its task whatever the state is, and signals while it holds the lock.\<close>

definition shutdown :: "nat \<Rightarrow> dispatcher \<Rightarrow> dispatcher" where
  "shutdown i d =
     (let t = createTask i Terminate in
      notify_one (d\<lparr>taskList := taskList d @ [t], accepted := accepted d @ [t]\<rparr>))"

text \<open>The head of the loop of \<open>threadMain\<close>, and the critical section, which waits or takes the list. After
  a wait the list is taken, empty or not, without another look at the state.\<close>

definition check_state :: "dispatcher \<Rightarrow> dispatcher" where
  "check_state d = (if threadState d \<noteq> THREAD_STATE_TERMINATED then d\<lparr>place := Locking\<rparr> else d\<lparr>place := Gone\<rparr>)"

definition take_tasks :: "dispatcher \<Rightarrow> dispatcher" where
  "take_tasks d = d\<lparr>tmpTaskList := taskList d, taskList := [], place := Running\<rparr>"

definition lock_list :: "dispatcher \<Rightarrow> dispatcher" where
  "lock_list d = (if taskList d = [] then d\<lparr>place := Waiting\<rparr> else take_tasks d)"

text \<open>One round of the inner loop: the next task is executed, unless it has expired, and deleted.\<close>

definition run_task :: "int \<Rightarrow> dispatcher \<Rightarrow> dispatcher" where
  "run_task now d =
     (case tmpTaskList d of
        [] \<Rightarrow> d\<lparr>place := Checking\<rparr>
      | t # ts \<Rightarrow>
          let d1 = d\<lparr>tmpTaskList := ts, finished := finished d @ [(t, \<not> hasExpired now t)]\<rparr> in
          if hasExpired now t then d1
          else
            let d2 = d1\<lparr>dispatcherCycle := dispatcherCycle d1 + 1\<rparr> in
            (case func t of
               Work \<Rightarrow> d2
             | Terminate \<Rightarrow> notify_one (d2\<lparr>threadState := THREAD_STATE_TERMINATED\<rparr>)))"

text \<open>A step of the dispatcher's thread; it does not step while it waits or when it is gone.\<close>

definition thread_step :: "int \<Rightarrow> dispatcher \<Rightarrow> dispatcher" where
  "thread_step now d =
     (case place d of
        Checking \<Rightarrow> check_state d
      | Locking \<Rightarrow> lock_list d
      | Woken \<Rightarrow> take_tasks d
      | Running \<Rightarrow> run_task now d
      | Waiting \<Rightarrow> d
      | Gone \<Rightarrow> d)"

text \<open>
  All threads. The number of a new task is one that no task has; only \<open>shutdown\<close> makes a task that ends the
  dispatcher. The game stops the dispatcher only before it shuts it down.
\<close>

inductive dispatcher_step :: "dispatcher \<Rightarrow> dispatcher \<Rightarrow> bool" where
  thread: "dispatcher_step d (thread_step now d)"
| spurious: "place d = Waiting \<Longrightarrow> dispatcher_step d (d\<lparr>place := Woken\<rparr>)"
| add: "func t = Work \<Longrightarrow> task_id t \<notin> task_id ` set (accepted d) \<Longrightarrow> dispatcher_step d (addTask t d)"
| notify: "notifying d > 0 \<Longrightarrow> dispatcher_step d (notify_one (d\<lparr>notifying := notifying d - 1\<rparr>))"
| stop: "threadState d \<noteq> THREAD_STATE_TERMINATED \<Longrightarrow> dispatcher_step d (stop d)"
| shutdown: "i \<notin> task_id ` set (accepted d) \<Longrightarrow> dispatcher_step d (shutdown i d)"

abbreviation dispatcher_reach :: "dispatcher \<Rightarrow> bool" where
  "dispatcher_reach \<equiv> dispatcher_step\<^sup>*\<^sup>* (start new_dispatcher)"

section \<open>The invariant\<close>

definition dispatcher_ok :: "dispatcher \<Rightarrow> bool" where
  "dispatcher_ok d \<longleftrightarrow>
     map fst (finished d) @ tmpTaskList d @ taskList d = accepted d \<and>
     distinct (map task_id (accepted d)) \<and>
     (place d \<noteq> Running \<longrightarrow> tmpTaskList d = []) \<and>
     (place d = Waiting \<and> taskList d \<noteq> [] \<longrightarrow> notifying d > 0) \<and>
     (place d = Gone \<longrightarrow> threadState d = THREAD_STATE_TERMINATED) \<and>
     (threadState d = THREAD_STATE_TERMINATED \<longrightarrow> Terminate \<in> func ` fst ` set (finished d))"

lemma start_ok: "dispatcher_ok (start new_dispatcher)"
  by (simp add: dispatcher_ok_def start_def new_dispatcher_def)

lemma notify_ok: "dispatcher_ok d \<Longrightarrow> dispatcher_ok (notify_one (d\<lparr>notifying := n\<rparr>))"
  by (auto simp: dispatcher_ok_def notify_one_def)

lemma take_ok: "dispatcher_ok d \<Longrightarrow> place d \<noteq> Running \<Longrightarrow> place d \<noteq> Gone \<Longrightarrow> dispatcher_ok (take_tasks d)"
  by (auto simp: dispatcher_ok_def take_tasks_def)

lemma run_task_ok: "dispatcher_ok d \<Longrightarrow> place d = Running \<Longrightarrow> dispatcher_ok (run_task now d)"
  by (auto simp: dispatcher_ok_def run_task_def notify_one_def Let_def hasExpired_def split: list.split task_func.split)

lemma thread_step_ok: "dispatcher_ok d \<Longrightarrow> dispatcher_ok (thread_step now d)"
  by (cases "place d")
    (auto simp: thread_step_def lock_list_def check_state_def intro: take_ok run_task_ok, auto simp: dispatcher_ok_def)

lemma addTask_ok: "dispatcher_ok d \<Longrightarrow> task_id t \<notin> task_id ` set (accepted d) \<Longrightarrow> dispatcher_ok (addTask t d)"
  by (auto simp: dispatcher_ok_def addTask_def Let_def)

lemma shutdown_ok: "dispatcher_ok d \<Longrightarrow> i \<notin> task_id ` set (accepted d) \<Longrightarrow> dispatcher_ok (shutdown i d)"
  by (auto simp: dispatcher_ok_def shutdown_def notify_one_def createTask_def Let_def)

lemma dispatcher_step_ok: "dispatcher_step d d' \<Longrightarrow> dispatcher_ok d \<Longrightarrow> dispatcher_ok d'"
proof (induction rule: dispatcher_step.induct)
  case (stop d)
  then show ?case by (auto simp: dispatcher_ok_def stop_def)
next
  case (spurious d)
  then show ?case by (auto simp: dispatcher_ok_def)
qed (simp_all add: thread_step_ok addTask_ok shutdown_ok notify_ok)

lemma reach_dispatcher_ok: "dispatcher_reach d \<Longrightarrow> dispatcher_ok d"
  by (induction rule: rtranclp_induct) (auto intro: start_ok dispatcher_step_ok)

text \<open>C29: However threads interleave, every task that was accepted is taken out once, in the order in which the
  tasks were accepted: those finished, those taken and those waiting make up the accepted ones, no two of
  which are the same. And no wake-up is lost: when the dispatcher waits although tasks are in the list, a
  thread is about to signal it.\<close>

theorem tasks_run_once_in_order:
  assumes "dispatcher_reach d"
  shows "map fst (finished d) @ tmpTaskList d @ taskList d = accepted d \<and> distinct (map task_id (accepted d)) \<and>
    (place d = Waiting \<and> taskList d \<noteq> [] \<longrightarrow> notifying d > 0)"
  using reach_dispatcher_ok [OF assms] by (auto simp: dispatcher_ok_def)

section \<open>Shutting down\<close>

text \<open>Running the tasks taken, when none of them ends the dispatcher before the last.\<close>

lemma thread_runs_batch:
  assumes "place d = Running" "Terminate \<notin> func ` set (butlast (tmpTaskList d))"
    "tmpTaskList d \<noteq> [] \<Longrightarrow> func (last (tmpTaskList d)) = Terminate \<Longrightarrow> \<not> hasExpired now (last (tmpTaskList d))"
  shows "\<exists>n d'. (thread_step now ^^ n) d = d' \<and> place d' = Checking \<and> tmpTaskList d' = [] \<and> taskList d' = taskList d \<and>
    accepted d' = accepted d \<and> map fst (finished d') = map fst (finished d) @ tmpTaskList d \<and>
    threadState d' = (if Terminate \<in> func ` set (tmpTaskList d) then THREAD_STATE_TERMINATED else threadState d)"
  using assms
proof (induction "tmpTaskList d" arbitrary: d)
  case Nil
  then have "(thread_step now ^^ 1) d = d\<lparr>place := Checking\<rparr>" by (simp add: thread_step_def run_task_def)
  then show ?case using Nil by (intro exI [of _ 1] exI [of _ "d\<lparr>place := Checking\<rparr>"]) auto
next
  case (Cons t ts)
  let ?d = "run_task now d"
  have step: "thread_step now d = ?d" using Cons.prems(1) by (simp add: thread_step_def)
  have tmp: "tmpTaskList d = t # ts" using Cons.hyps(2) by simp
  have d: "place ?d = Running" "tmpTaskList ?d = ts" "taskList ?d = taskList d" "accepted ?d = accepted d"
    "map fst (finished ?d) = map fst (finished d) @ [t]"
    using Cons.prems(1) by (auto simp: run_task_def tmp Let_def notify_one_def split: task_func.split)
  have live: "func t = Terminate \<Longrightarrow> ts = [] \<and> \<not> hasExpired now t"
    using Cons.prems(2,3) by (auto simp: tmp split: if_splits)
  have state: "threadState ?d = (if func t = Terminate then THREAD_STATE_TERMINATED else threadState d)"
    using live by (cases "func t") (auto simp: run_task_def tmp Let_def notify_one_def)
  have "Terminate \<notin> func ` set (butlast (tmpTaskList ?d))"
    "tmpTaskList ?d \<noteq> [] \<Longrightarrow> func (last (tmpTaskList ?d)) = Terminate \<Longrightarrow> \<not> hasExpired now (last (tmpTaskList ?d))"
    using Cons.prems(2,3) by (auto simp: d(2) tmp split: if_splits)
  from Cons.hyps(1) [OF d(2) [symmetric] d(1) this] obtain n d' where
    "(thread_step now ^^ n) ?d = d'" "place d' = Checking" "tmpTaskList d' = []" "taskList d' = taskList d" "accepted d' = accepted d"
    "map fst (finished d') = map fst (finished d) @ t # ts"
    "threadState d' = (if Terminate \<in> func ` set ts then THREAD_STATE_TERMINATED else threadState ?d)"
    using d by auto
  then show ?case using step state live
    by (intro exI [of _ "Suc n"] exI [of _ d']) (auto simp: tmp funpow_swap1)
qed

definition runs_to :: "int \<Rightarrow> dispatcher \<Rightarrow> dispatcher \<Rightarrow> bool" where
  "runs_to now d d' \<longleftrightarrow> (\<exists>n. (thread_step now ^^ n) d = d')"

lemma runs_to_trans: "runs_to now d d' \<Longrightarrow> runs_to now d' d'' \<Longrightarrow> runs_to now d d''"
  unfolding runs_to_def by (metis comp_apply funpow_add)

lemma runs_to_step: "runs_to now (thread_step now d) d' \<Longrightarrow> runs_to now d d'"
  unfolding runs_to_def by (metis comp_apply funpow_Suc_right)

lemma runs_to_one: "thread_step now d = d' \<Longrightarrow> runs_to now d d'"
  unfolding runs_to_def by (rule exI [of _ 1]) simp

text \<open>The end of a dispatcher whose last task ends it.\<close>

definition ends :: "int \<Rightarrow> dispatcher \<Rightarrow> bool" where
  "ends now d \<longleftrightarrow> (\<exists>d'. runs_to now d d' \<and> place d' = Gone \<and>
     map fst (finished d') = map fst (finished d) @ tmpTaskList d @ taskList d \<and> accepted d' = accepted d)"

lemma last_batch_ends:
  assumes "place d = Running" "tmpTaskList d = L @ [createTask i Terminate]" "Terminate \<notin> func ` set L" "taskList d = []"
  shows "ends now d"
proof -
  from thread_runs_batch [of d now] assms obtain d' where
    d': "runs_to now d d'" "place d' = Checking" "taskList d' = []" "accepted d' = accepted d"
      "map fst (finished d') = map fst (finished d) @ tmpTaskList d" "threadState d' = THREAD_STATE_TERMINATED"
    by (fastforce simp: createTask_def hasExpired_def runs_to_def)
  from runs_to_trans [OF d'(1) runs_to_one [OF refl]] have "runs_to now d (thread_step now d')" .
  then show ?thesis using d' assms(4)
    by (auto simp: ends_def thread_step_def check_state_def)
qed

lemma taking_ends:
  assumes "place d = Woken \<or> place d = Locking \<or> (place d = Checking \<and> threadState d \<noteq> THREAD_STATE_TERMINATED)"
    "tmpTaskList d = []" "taskList d = L @ [createTask i Terminate]" "Terminate \<notin> func ` set L"
  shows "ends now d"
proof -
  have "ends now (take_tasks (d\<lparr>place := p\<rparr>))" for p
    using assms by (intro last_batch_ends [of _ L i]) (simp_all add: take_tasks_def)
  moreover have "runs_to now d (take_tasks (d\<lparr>place := Locking\<rparr>)) \<or> runs_to now d (take_tasks d)"
  proof -
    have "thread_step now (d\<lparr>place := Locking\<rparr>) = take_tasks (d\<lparr>place := Locking\<rparr>)"
      using assms(3) by (simp add: thread_step_def lock_list_def)
    then have lock: "runs_to now (d\<lparr>place := Locking\<rparr>) (take_tasks (d\<lparr>place := Locking\<rparr>))"
      by (rule runs_to_one)
    from assms(1) show ?thesis
    proof (elim disjE conjE)
      assume "place d = Woken"
      then have "thread_step now d = take_tasks d" by (simp add: thread_step_def)
      then show ?thesis using runs_to_one by blast
    next
      assume "place d = Locking"
      then have "thread_step now d = take_tasks d" using assms(3) by (simp add: thread_step_def lock_list_def)
      then show ?thesis using runs_to_one by blast
    next
      assume "place d = Checking" "threadState d \<noteq> THREAD_STATE_TERMINATED"
      then have "thread_step now d = d\<lparr>place := Locking\<rparr>" by (simp add: thread_step_def check_state_def)
      then show ?thesis using lock runs_to_step by metis
    qed
  qed
  moreover have "take_tasks d = take_tasks (d\<lparr>place := place d\<rparr>)" by simp
  ultimately obtain d1 p where d1: "runs_to now d d1" "d1 = take_tasks (d\<lparr>place := p\<rparr>)" "ends now d1" by metis
  then show ?thesis using runs_to_trans [OF d1(1)] assms(2)
    by (auto simp: ends_def take_tasks_def)
qed

text \<open>C30: Shutting down works: when the dispatcher has not been told to end before, then from any point its thread
  gets to its end without any further signal, and every task that was accepted before has been taken out by
  then, in order, and executed unless it had expired; the task that ends the dispatcher was the last.\<close>

theorem shutdown_completes:
  assumes "dispatcher_reach d" and "threadState d \<noteq> THREAD_STATE_TERMINATED"
    and "Terminate \<notin> func ` set (tmpTaskList d @ taskList d)" and "i \<notin> task_id ` set (accepted d)"
  shows "\<exists>n. place ((thread_step now ^^ n) (shutdown i d)) = Gone \<and>
    map fst (finished ((thread_step now ^^ n) (shutdown i d))) = accepted d @ [createTask i Terminate]"
proof -
  have ok: "dispatcher_ok d" by (rule reach_dispatcher_ok [OF assms(1)])
  let ?s = "shutdown i d"
  have s: "taskList ?s = taskList d @ [createTask i Terminate]" "tmpTaskList ?s = tmpTaskList d" "finished ?s = finished d"
    "threadState ?s = threadState d" "place ?s = (if place d = Waiting then Woken else place d)"
    by (simp_all add: shutdown_def notify_one_def Let_def)
  have "place d \<noteq> Gone" using ok assms(2) by (auto simp: dispatcher_ok_def)
  have "ends now ?s"
  proof (cases "place d = Running")
    case False
    then have "tmpTaskList d = []" using ok by (simp add: dispatcher_ok_def)
    then show ?thesis using False \<open>place d \<noteq> Gone\<close> assms(2,3)
      by (intro taking_ends [of _ "taskList d" i]) (auto simp: s split: place.splits intro: place.exhaust [of "place d"])
  next
    case True
    then have run: "place ?s = Running" by (simp add: s)
    have quiet: "Terminate \<notin> func ` set (tmpTaskList ?s)" using assms(3) by (auto simp: s)
    then have "Terminate \<notin> func ` set (butlast (tmpTaskList ?s))" by (auto dest: in_set_butlastD)
    moreover have "tmpTaskList ?s \<noteq> [] \<Longrightarrow> func (last (tmpTaskList ?s)) \<noteq> Terminate" using quiet by (metis imageI last_in_set)
    ultimately obtain d' where d': "runs_to now ?s d'" "place d' = Checking" "tmpTaskList d' = []"
      "taskList d' = taskList ?s" "accepted d' = accepted ?s" "map fst (finished d') = map fst (finished ?s) @ tmpTaskList ?s"
      "threadState d' = threadState d"
      using thread_runs_batch [OF run, of now] quiet by (auto simp: runs_to_def s(4))
    have "ends now d'" using d' assms(2,3)
      by (intro taking_ends [of _ "taskList d" i]) (auto simp: s)
    then show ?thesis using d' runs_to_trans [OF d'(1)] by (auto simp: ends_def)
  qed
  moreover have "map fst (finished d) @ tmpTaskList d @ taskList d = accepted d" using ok by (simp add: dispatcher_ok_def)
  ultimately show ?thesis by (auto simp: ends_def runs_to_def s)
qed

section \<open>A run\<close>

lemma one_task: "dispatcher_reach (addTask (createTask 1 Work) (start new_dispatcher))"
  by (rule r_into_rtranclp, rule dispatcher_step.add) (simp_all add: createTask_def start_def new_dispatcher_def)

lemma tasks_run_once_in_order_witness:
  "taskList (addTask (createTask 1 Work) (start new_dispatcher)) = [createTask 1 Work]"
  using tasks_run_once_in_order [OF one_task]
  by (simp add: addTask_def createTask_def start_def new_dispatcher_def Let_def)

lemma shutdown_completes_witness:
  "\<exists>n. map fst (finished ((thread_step 0 ^^ n) (shutdown 2 (addTask (createTask 1 Work) (start new_dispatcher))))) =
     [createTask 1 Work, createTask 2 Terminate]"
proof -
  let ?d = "addTask (createTask 1 Work) (start new_dispatcher)"
  have st: "threadState ?d \<noteq> THREAD_STATE_TERMINATED" "Terminate \<notin> func ` set (tmpTaskList ?d @ taskList ?d)"
    "2 \<notin> task_id ` set (accepted ?d)" and acc: "accepted ?d = [createTask 1 Work]"
    by (simp_all add: addTask_def createTask_def start_def new_dispatcher_def Let_def)
  from shutdown_completes [OF one_task st, of 0] show ?thesis
    unfolding acc append.simps by (elim exE conjE) (rule exI)
qed

end
