(* ===== verification/ItemMove.thy ===== *)
theory ItemMove
  imports Container
begin

text \<open>
  Moving items between containers, \<open>Game::internalMoveItem\<close> and \<open>Game::internalRemoveItem\<close> of
  \<open>src/src/game.cpp\<close>, and making and cloning items, \<open>Item::CreateItem\<close> and \<open>Item::clone\<close> of
  \<open>item.cpp\<close>. The new object of a clone is \<open>fresh\<close>, drawn durations are \<open>rnd\<close>, and the verdicts of the
  scripts are arguments. Notifications and the list of decaying items are left out. For every type
  \<open>amount_of\<close> counts the pieces that lie in containers: a move keeps them.
\<close>

section \<open>Making items\<close>

definition isDepot :: "item_type \<Rightarrow> bool" where "isDepot it \<longleftrightarrow> it_type it = ITEM_TYPE_DEPOT"

definition isContainer :: "item_type \<Rightarrow> bool" where "isContainer it \<longleftrightarrow> it_group it = ITEM_GROUP_CONTAINER"

text \<open>\<open>setDefaultDuration\<close>, and the constructor of \<open>Item\<close>.\<close>

definition setDefaultDuration :: "item_type \<Rightarrow> u32 \<Rightarrow> item \<Rightarrow> item" where
  "setDefaultDuration it rnd i =
     (let duration = (if it_decayTimeMax it * 1000 \<noteq> 0 then rnd else it_decayTimeMin it * 1000) in
      if duration \<noteq> 0 then setDuration duration i else i)"

definition new_item :: "(u16 \<Rightarrow> item_type) \<Rightarrow> u32 \<Rightarrow> u16 \<Rightarrow> u16 \<Rightarrow> item" where
  "new_item its rnd type amount =
     (let it = its type;
          i = \<lparr>item_id = type, item_count = 1, item_attrs = None\<rparr>;
          i = (if isFluidContainer it \<or> isSplash it then item_setIntAttr ITEM_ATTRIBUTE_FLUIDTYPE (ucast amount) i
               else if it_stackable it
               then (if amount \<noteq> 0 then i\<lparr>item_count := ucast amount\<rparr>
                     else if it_charges it \<noteq> 0 then i\<lparr>item_count := ucast (it_charges it)\<rparr> else i)
               else if it_charges it \<noteq> 0
               then (if amount \<noteq> 0 then item_setIntAttr ITEM_ATTRIBUTE_CHARGES (ucast amount) i
                     else item_setIntAttr ITEM_ATTRIBUTE_CHARGES (ucast (ucast (it_charges it) :: u16)) i)
               else i)
      in setDefaultDuration it rnd i)"

text \<open>The item and, for a container, its size. Only the state of items and containers is modelled; the
  other classes are made from the type with no count.\<close>

definition CreateItem :: "(u16 \<Rightarrow> item_type) \<Rightarrow> u32 \<Rightarrow> u16 \<Rightarrow> u16 \<Rightarrow> (item \<times> u32 option) option" where
  "CreateItem its rnd type amount =
     (let it = its type in
      if it_group it = ITEM_GROUP_DEPRECATED then None
      else
        let amount = (if it_stackable it \<and> amount = 0 then 1 else amount) in
        if it_id it = 0 then None
        else if isDepot it \<or> isContainer it then Some (new_item its rnd type 0, Some (ucast (it_maxItems it)))
        else if it_type it \<in> {ITEM_TYPE_TELEPORT, ITEM_TYPE_MAGICFIELD, ITEM_TYPE_DOOR, ITEM_TYPE_TRASHHOLDER, ITEM_TYPE_MAILBOX, ITEM_TYPE_BED}
        then Some (new_item its rnd type 0, None)
        else
          let type' = (if 2210 \<le> it_id it \<and> it_id it \<le> 2212 then type - 3
                       else if it_id it = 2215 \<or> it_id it = 2216 then type - 2
                       else if 2202 \<le> it_id it \<and> it_id it \<le> 2206 then type - 37
                       else if it_id it = 2640 then 6132
                       else if it_id it = 6301 then 6300
                       else type)
          in Some (new_item its rnd type' amount, None))"

definition getDuration :: "item \<Rightarrow> u32" where
  "getDuration i = ucast (item_getIntAttr ITEM_ATTRIBUTE_DURATION i)"

definition setDecaying :: "u8 \<Rightarrow> item \<Rightarrow> item" where
  "setDecaying state = item_setIntAttr ITEM_ATTRIBUTE_DECAYSTATE (ucast state)"

text \<open>\<open>Item::clone\<close>; None when the type cannot be made any more, where the code goes on with a null item.
  The override for containers, which also clones what is in them, is not modelled: only stackable items
  are cloned in a move.\<close>

definition clone :: "(u16 \<Rightarrow> item_type) \<Rightarrow> u32 \<Rightarrow> item \<Rightarrow> (item \<times> u32 option) option" where
  "clone its rnd i =
     map_option (\<lambda>(new, size).
       (case item_attrs i of
          None \<Rightarrow> new
        | Some at \<Rightarrow>
            let copy = new\<lparr>item_attrs := Some at\<rparr> in
            if getDuration copy > 0 then setDecaying DECAYING_TRUE copy else copy,
        size))
       (CreateItem its rnd (item_id i) (ucast (item_count i)))"

definition place_new :: "nat \<Rightarrow> item \<times> u32 option \<Rightarrow> heap \<Rightarrow> heap" where
  "place_new fresh new h =
     set_object fresh \<lparr>obj_item = fst new, obj_parent = None,
       obj_cont = map_option (\<lambda>n. \<lparr>itemlist = [], maxSize = n, totalWeight = 0\<rparr>) (snd new)\<rparr> h"

section \<open>Moving\<close>

definition MAP_MAX_LAYERS :: nat where "MAP_MAX_LAYERS = 16"

text \<open>The loop over \<open>queryDestination\<close>, at most sixteen changes of the container.\<close>

fun find_destination ::
    "(u16 \<Rightarrow> item_type) \<Rightarrow> heap \<Rightarrow> nat \<Rightarrow> nat \<Rightarrow> int \<Rightarrow> nat \<Rightarrow> u32 \<Rightarrow> nat \<times> int \<times> nat option \<times> u32" where
  "find_destination its h 0 c index i flags = (c, index, None, flags)"
| "find_destination its h (Suc n) c index i flags =
     (case queryDestination its h c index i flags of
        (Cont d, index', toItem) \<Rightarrow>
          if d = c then (c, index', toItem, flags)
          else if n = 0 then (d, index', toItem, 0)
          else find_destination its h n d index' i 0
      | (_, index', toItem) \<Rightarrow> (c, index', toItem, flags))"

record move_env =
  me_ask :: "cylinder \<Rightarrow> int \<Rightarrow> nat \<Rightarrow> u32 \<Rightarrow> u32 \<Rightarrow> ReturnValue"
  me_house :: "nat \<Rightarrow> ReturnValue option"
  me_event :: ReturnValue
  me_exchange_event :: ReturnValue
  me_tradeItem :: "nat option"
  me_fresh :: nat
  me_rnd :: u32

text \<open>\<open>tradeItem\<close> must not be the destination or around it.\<close>

definition trade_in_the_way :: "heap \<Rightarrow> nat option \<Rightarrow> nat \<Rightarrow> bool option" where
  "trade_in_the_way h tradeItem c = (case tradeItem of None \<Rightarrow> Some False | Some t \<Rightarrow> met_above h t (Some (Cont c)))"

text \<open>The exchange with the item at the destination: what it is put into its place for. None is a null
  item that is dereferenced. The result is an error to return at once, or the heap, the remaining
  verdict and the item to stack on.\<close>

definition exchange_items ::
    "move_env \<Rightarrow> (u16 \<Rightarrow> item_type) \<Rightarrow> heap \<Rightarrow> nat \<Rightarrow> nat \<Rightarrow> int \<Rightarrow> nat \<Rightarrow> u32 \<Rightarrow> u32 \<Rightarrow> nat option \<Rightarrow>
     (ReturnValue + heap \<times> ReturnValue \<times> nat option) option" where
  "exchange_items env its h from to index i amount flags toItem =
     do {
       t \<leftarrow> toItem;
       ret \<leftarrow> queryAdd (me_ask env) its h from (case getThingIndex h from i of None \<Rightarrow> - 1 | Some n \<Rightarrow> int n) t (ucast (getItemCount h t)) 0;
       if ret \<noteq> RETURNVALUE_NOERROR then Some (Inr (h, ret, toItem))
       else if me_exchange_event env \<noteq> RETURNVALUE_NOERROR then Some (Inl (me_exchange_event env))
       else do {
         (retMax, maxExchange) \<leftarrow> queryMaxCount (me_ask env) its h from INDEX_WHEREEVER t (ucast (getItemCount h t)) 0;
         if retMax \<noteq> RETURNVALUE_NOERROR \<and> maxExchange = 0 then Some (Inl retMax)
         else do {
           rem \<leftarrow> queryRemove (me_house env) its h to t (ucast (getItemCount h t)) flags;
           if rem \<noteq> RETURNVALUE_NOERROR then Some (Inr (h, ret, toItem))
           else do {
             h1 \<leftarrow> removeThing its to t (ucast (getItemCount h t)) h;
             h2 \<leftarrow> addThing its from 0 t h1;
             ret' \<leftarrow> queryAdd (me_ask env) its h2 to index i amount flags;
             Some (Inr (h2, ret', None))
           }
         }
       }
     }"

text \<open>From the removal on: \<open>m\<close> pieces leave \<open>from\<close>, are stacked on \<open>toItem\<close> as far as they fit, and the
  rest enters \<open>to\<close>.\<close>

definition carry_over ::
    "move_env \<Rightarrow> (u16 \<Rightarrow> item_type) \<Rightarrow> heap \<Rightarrow> nat \<Rightarrow> nat \<Rightarrow> int \<Rightarrow> nat \<Rightarrow> u32 \<Rightarrow> nat option \<Rightarrow> (heap \<times> nat option) option" where
  "carry_over env its h from to index i m toItem =
     do {
       h1 \<leftarrow> removeThing its from i m h;
       if it_stackable (type_of its h1 i)
       then do {
         (h2, n) \<leftarrow> (case toItem of
             Some t \<Rightarrow>
               if equals h1 i t
               then let n = min (free_on its h1 t) m in
                 map_option (\<lambda>h2. (h2, n)) (updateThing its (me_rnd env) to t (item_id (the_item h1 t)) (ucast (getItemCount h1 t) + n) h1)
               else Some (h1, 0)
           | None \<Rightarrow> Some (h1, 0));
         let newCount = m - n;
         if 0 < sint newCount
         then do {
           (new, size) \<leftarrow> clone its (me_rnd env) (the_item h2 i);
           let h3 = place_new (me_fresh env) (new\<lparr>item_count := ucast newCount\<rparr>, size) h2;
           h4 \<leftarrow> addThing its to index (me_fresh env) h3;
           Some (h4, Some (me_fresh env))
         }
         else Some (h2, None)
       }
       else map_option (\<lambda>h2. (h2, Some i)) (addThing its to index i h1)
     }"

definition internalMoveItem ::
    "move_env \<Rightarrow> (u16 \<Rightarrow> item_type) \<Rightarrow> nat \<Rightarrow> nat \<Rightarrow> int \<Rightarrow> nat \<Rightarrow> u32 \<Rightarrow> u32 \<Rightarrow> heap \<Rightarrow> (ReturnValue \<times> heap) option" where
  "internalMoveItem env its from toContainer index0 i amount flags0 h =
     (if me_event env \<noteq> RETURNVALUE_NOERROR then Some (me_event env, h)
      else case find_destination its h MAP_MAX_LAYERS toContainer index0 i flags0 of
        (to, index, toItem, flags) \<Rightarrow>
          if toItem = Some i then Some (RETURNVALUE_NOERROR, h)
          else do {
            add \<leftarrow> queryAdd (me_ask env) its h to index i amount flags;
            exchanged \<leftarrow> (if add = RETURNVALUE_NEEDEXCHANGE
              then exchange_items env its h from to index i amount flags toItem
              else Some (Inr (h, add, toItem)));
            case exchanged of
              Inl ret \<Rightarrow> Some (ret, h)
            | Inr (h, ret, toItem) \<Rightarrow>
                if ret \<noteq> RETURNVALUE_NOERROR then Some (ret, h)
                else do {
                  (retMaxCount, maxQueryCount) \<leftarrow> queryMaxCount (me_ask env) its h to index i amount flags;
                  if retMaxCount \<noteq> RETURNVALUE_NOERROR \<and> maxQueryCount = 0 then Some (retMaxCount, h)
                  else do {
                    let m = (if it_stackable (type_of its h i) then min amount maxQueryCount else maxQueryCount);
                    rem \<leftarrow> queryRemove (me_house env) its h from i m flags;
                    if rem \<noteq> RETURNVALUE_NOERROR then Some (rem, h)
                    else do {
                      blocked \<leftarrow> trade_in_the_way h (me_tradeItem env) to;
                      if blocked then Some (RETURNVALUE_NOTENOUGHROOM, h)
                      else do {
                        (h', moveItem) \<leftarrow> carry_over env its h from to index i m toItem;
                        if it_stackable (type_of its h' i) \<and> maxQueryCount < amount then Some (retMaxCount, h')
                        else Some (rem, case moveItem of
                            None \<Rightarrow> h'
                          | Some k \<Rightarrow>
                              if getDuration (the_item h' k) > 0 \<and> getDecaying (the_item h' k) \<noteq> DECAYING_TRUE
                              then set_item (setDecaying DECAYING_TRUE (the_item h' k)) k h'
                              else h')
                      }
                    }
                  }
                }
          })"

text \<open>\<open>internalRemoveItem\<close> of an item in a container; \<open>count\<close> is -1 for all of it.\<close>

definition internalRemoveItem ::
    "(nat \<Rightarrow> ReturnValue option) \<Rightarrow> (u16 \<Rightarrow> item_type) \<Rightarrow> nat \<Rightarrow> u32 \<Rightarrow> bool \<Rightarrow> bool \<Rightarrow> u32 \<Rightarrow> heap \<Rightarrow> (ReturnValue \<times> heap) option" where
  "internalRemoveItem house its i amount test canRemove flags h =
     (case getParentContainer h i of
        None \<Rightarrow> Some (RETURNVALUE_NOTPOSSIBLE, h)
      | Some c \<Rightarrow>
          let amount = (if amount = - 1 then ucast (getItemCount h i) else amount) in
          do {
            ret \<leftarrow> queryRemove house its h c i amount (flags OR FLAG_IGNORENOTMOVEABLE);
            if ret \<noteq> RETURNVALUE_NOERROR then Some (ret, h)
            else if \<not> canRemove then Some (RETURNVALUE_NOTPOSSIBLE, h)
            else if test then Some (RETURNVALUE_NOERROR, h)
            else map_option (\<lambda>h'. (RETURNVALUE_NOERROR, h')) (removeThing its c i amount h)
          })"

section \<open>How much there is\<close>

text \<open>How many pieces of each type lie in containers.\<close>

definition stored :: "heap \<Rightarrow> nat set" where
  "stored h = {i. \<exists>c. (c, i) \<in> holds h}"

definition pieces :: "heap \<Rightarrow> u16 \<Rightarrow> nat \<Rightarrow> nat" where
  "pieces h ty i = (if item_id (the_item h i) = ty then unat (item_count (the_item h i)) else 0)"

definition amount_of :: "heap \<Rightarrow> u16 \<Rightarrow> nat" where
  "amount_of h ty = (\<Sum>i \<in> stored h. pieces h ty i)"

lemma stored_iff: "heap_tree h \<Longrightarrow> i \<in> stored h \<longleftrightarrow> (\<exists>c. i \<in> set (kids h c))"
  using heap_treeD(2) by (auto simp: stored_def)

lemma finite_stored: "heap_tree h \<Longrightarrow> finite (stored h)"
  using finite_imageI [OF heap_treeD(4), of h snd] by (rule finite_subset [rotated]) (auto simp: stored_def intro: rev_image_eqI)

lemma bump_amount [simp]: "stored (bump S w h) = stored h" "pieces (bump S w h) = pieces h" "amount_of (bump S w h) = amount_of h"
  by (simp_all add: stored_def pieces_def amount_of_def fun_eq_iff cong: if_cong)

lemma amount_put:
  assumes "heap_tree h" and "obj_parent (objects h i) = None"
  shows "amount_of (setParent (Some (Cont c)) i (map_itemlist f c h)) ty = amount_of h ty + pieces h ty i"
proof -
  have s: "stored (setParent (Some (Cont c)) i (map_itemlist f c h)) = insert i (stored h)"
    by (auto simp: stored_def holds_setParent)
  have "i \<notin> stored h" using assms(2) by (auto simp: stored_def holds_def)
  then show ?thesis using finite_stored [OF assms(1)] by (simp add: amount_of_def s) (simp add: pieces_def cong: if_cong)
qed

lemma amount_take:
  assumes "heap_tree h" and "(c, i) \<in> holds h"
  shows "amount_of h ty = amount_of (take_out c i h) ty + pieces h ty i"
proof -
  have s: "stored (take_out c i h) = stored h - {i}"
    by (auto simp: stored_def take_out_def holds_setParent)
  have "i \<in> stored h" using assms(2) by (auto simp: stored_def)
  then show ?thesis using sum.remove [OF finite_stored [OF assms(1)], of i "pieces h ty"]
    by (simp add: amount_of_def s) (simp add: take_out_def pieces_def cong: if_cong)
qed

lemma amount_set_item:
  assumes "heap_tree h" and "(c, i) \<in> holds h"
  shows "amount_of (set_item it i h) ty + pieces h ty i = amount_of h ty + (if item_id it = ty then unat (item_count it) else 0)"
proof -
  have s: "stored (set_item it i h) = stored h" by (simp add: stored_def)
  have i: "i \<in> stored h" using assms(2) by (auto simp: stored_def)
  have "(\<Sum>x \<in> stored h - {i}. pieces (set_item it i h) ty x) = (\<Sum>x \<in> stored h - {i}. pieces h ty x)"
    by (rule sum.cong) (auto simp: pieces_def)
  then show ?thesis
    using sum.remove [OF finite_stored [OF assms(1)] i, of "pieces h ty"] sum.remove [OF finite_stored [OF assms(1)] i, of "pieces (set_item it i h) ty"]
    by (simp add: amount_of_def s) (simp add: pieces_def)
qed

text \<open>What each operation on a container does to the amounts.\<close>

lemma addThing_amount:
  assumes ok: "heap_ok its h" and c: "is_container h c" and o: "obj_parent (objects h i) = None" and up: "i \<notin> above h c"
    and "index < sint (capacity h c)" and r: "addThing its c index i h = Some h'"
  shows "amount_of h' ty = amount_of h ty + pieces h ty i"
proof -
  have tree: "heap_tree h" using ok by (simp add: heap_ok_def)
  let ?h1 = "setParent (Some (Cont c)) i (map_itemlist (Cons i) c h)"
  have e: "map_itemlist (Cons i) c (setParent (Some (Cont c)) i h) = ?h1"
    by (rule heap.equality) (auto simp: map_itemlist_def map_cont_def setParent_def set_object_def fun_eq_iff)
  have "heap_tree ?h1" by (rule put_in_tree(1) [OF tree c o up]) auto
  then have "h' = bump (above ?h1 c) (getWeight its ?h1 i) ?h1"
    using r assms(5) by (simp add: addThing_def internalAddThing_def Let_def e updateItemWeight_bump [OF heap_treeD(3)])
  then show ?thesis using amount_put [OF tree o] by simp
qed

lemma updateItemWeight_amount:
  assumes "heap_tree h" and "updateItemWeight c w h = Some h'"
  shows "amount_of h' ty = amount_of h ty" and "holds h' = holds h" and "the_item h' i = the_item h i"
    and "kids h' d = kids h d" and "capacity h' d = capacity h d" and "is_container h' d = is_container h d"
    and "obj_parent (objects h' i) = obj_parent (objects h i)"
  using assms(2) updateItemWeight_bump [OF heap_treeD(3) [OF assms(1)]] by auto

lemma count32: "unat (ucast (ucast (k :: u8) :: u16) :: u32) = unat k" "unat (ucast k :: u16) = unat k"
proof -
  show k: "unat (ucast k :: u16) = unat k"
    using unsigned_less [of k, where 'a = nat] by (simp add: unsigned_ucast_eq take_bit_nat_eq_self)
  have "unat (ucast w :: u32) = unat w" for w :: u16
    using unsigned_less [of w, where 'a = nat] by (simp add: unsigned_ucast_eq take_bit_nat_eq_self)
  then show "unat (ucast (ucast k :: u16) :: u32) = unat k" using k by metis
qed

lemma sint_small:
  assumes "unat (w :: u32) < 2 ^ 31"
  shows "sint w = int (unat w)"
proof -
  have u: "uint w = int (unat w)" by simp
  have "unat w < 2147483648" using assms by simp
  then have "uint w < 2147483648" unfolding u by linarith
  then have "sint w = uint w"
    by (simp add: sint_uint signed_take_bit_eq_if_positive bit_iff_odd take_bit_int_eq_self)
  then show ?thesis unfolding u .
qed

lemma item_count_left:
  assumes "it_stackable (type_of its h i)" and "m \<le> ucast (getItemCount h i)"
  defines "left \<equiv> (ucast (getItemCount h i) :: u32) - m"
  shows "unat (ucast (if sint left < 0 then 0 else left) :: u8) + unat m = unat (item_count (the_item h i))"
proof -
  have c: "unat (ucast (getItemCount h i) :: u32) = unat (item_count (the_item h i))"
    by (simp add: getItemCount_def count32)
  have b: "unat (item_count (the_item h i)) < 256" using unsigned_less [of "item_count (the_item h i)", where 'a = nat] by simp
  have l: "unat left = unat (item_count (the_item h i)) - unat m"
    using assms(2) c by (simp add: left_def unat_sub)
  have lb: "unat left < 256" using l b by simp
  then have "sint left = int (unat left)" by (simp add: sint_small)
  then have "\<not> sint left < 0" by simp
  moreover have "unat (ucast left :: u8) = unat left" using lb by (simp add: unsigned_ucast_eq take_bit_nat_eq_self)
  ultimately show ?thesis using l assms(2) c by (simp add: word_le_nat_alt)
qed

definition removed :: "(u16 \<Rightarrow> item_type) \<Rightarrow> heap \<Rightarrow> nat \<Rightarrow> u32 \<Rightarrow> bool" where
  "removed its h i m \<longleftrightarrow> \<not> (it_stackable (type_of its h i) \<and> m \<noteq> ucast (getItemCount h i))"

lemma removeThing_amount:
  assumes ok: "heap_ok its h" and i: "i \<in> set (kids h c)" and m: "it_stackable (type_of its h i) \<Longrightarrow> m \<le> ucast (getItemCount h i)"
    and r: "removeThing its c i m h = Some h'"
  shows "amount_of h ty = amount_of h' ty +
      (if item_id (the_item h i) = ty then if it_stackable (type_of its h i) then unat m else unat (item_count (the_item h i)) else 0)"
    and "holds h' = (if removed its h i m then holds h - {(c, i)} else holds h)"
    and "the_item h' j = (if j = i \<and> \<not> removed its h i m then (the_item h i)\<lparr>item_count := item_count (the_item h' i)\<rparr> else the_item h j)"
    and "capacity h' d = capacity h d" and "is_container h' d = is_container h d"
    and "obj_parent (objects h' j) = (if j = i \<and> removed its h i m then None else obj_parent (objects h j))"
proof -
  have tree: "heap_tree h" using ok by (simp add: heap_ok_def)
  have hold: "(c, i) \<in> holds h" using heap_treeD(2) [OF tree] i by blast
  obtain n where n: "getThingIndex h c i = Some n" using i by (cases "getThingIndex h c i") (auto simp: getThingIndex_def)
  have "(amount_of h ty = amount_of h' ty +
      (if item_id (the_item h i) = ty then if it_stackable (type_of its h i) then unat m else unat (item_count (the_item h i)) else 0)) \<and>
    holds h' = (if removed its h i m then holds h - {(c, i)} else holds h) \<and>
    (\<forall>j. the_item h' j = (if j = i \<and> \<not> removed its h i m then (the_item h i)\<lparr>item_count := item_count (the_item h' i)\<rparr> else the_item h j)) \<and>
    (\<forall>d. capacity h' d = capacity h d \<and> is_container h' d = is_container h d) \<and>
    (\<forall>j. obj_parent (objects h' j) = (if j = i \<and> removed its h i m then None else obj_parent (objects h j)))"
  proof (cases "removed its h i m")
    case True
    let ?h1 = "bump (above h c) (- getWeight its h i) h"
    have e: "h' = take_out c i ?h1"
      using r True n take_out_ok(1) [OF ok i] take_out_code [of i h c n ?h1]
      by (auto simp: removeThing_def removed_def getThingIndex_def)
    have a: "amount_of ?h1 ty = amount_of h' ty + pieces ?h1 ty i"
      unfolding e by (rule amount_take) (use tree hold in simp_all)
    have "unat m = unat (item_count (the_item h i))" if "it_stackable (type_of its h i)"
      using True that by (simp add: removed_def getItemCount_def count32)
    then show ?thesis using a True
      using tree by (auto simp: e pieces_def take_out_def holds_setParent) (use hold in \<open>auto simp: holds_def\<close>)
  next
    case False
    let ?left = "(ucast (getItemCount h i) :: u32) - m"
    let ?k = "ucast (if sint ?left < 0 then 0 else ?left) :: u8"
    let ?h1 = "set_item ((the_item h i)\<lparr>item_count := ?k\<rparr>) i h"
    have u: "updateItemWeight c (- getWeight its h i + getWeight its ?h1 i) ?h1 = Some h'"
      using r False n by (simp add: removeThing_def removed_def Let_def)
    have t1: "heap_tree ?h1" using tree by simp
    note h' = updateItemWeight_amount [OF t1 u]
    have st: "it_stackable (type_of its h i)" using False by (simp add: removed_def)
    have a: "amount_of ?h1 ty + pieces h ty i = amount_of h ty + (if item_id (the_item h i) = ty then unat ?k else 0)"
      using amount_set_item [OF tree hold, of "(the_item h i)\<lparr>item_count := ?k\<rparr>" ty] by simp
    have "unat ?k + unat m = unat (item_count (the_item h i))" by (rule item_count_left [OF st m [OF st]])
    then have "amount_of h ty = amount_of h' ty + (if item_id (the_item h i) = ty then unat m else 0)"
      using a by (simp add: h'(1) pieces_def split: if_split_asm)
    then show ?thesis using False st by (simp add: h'(2-7))
  qed
  then show "amount_of h ty = amount_of h' ty +
      (if item_id (the_item h i) = ty then if it_stackable (type_of its h i) then unat m else unat (item_count (the_item h i)) else 0)"
    and "holds h' = (if removed its h i m then holds h - {(c, i)} else holds h)"
    and "the_item h' j = (if j = i \<and> \<not> removed its h i m then (the_item h i)\<lparr>item_count := item_count (the_item h' i)\<rparr> else the_item h j)"
    and "capacity h' d = capacity h d" and "is_container h' d = is_container h d"
    and "obj_parent (objects h' j) = (if j = i \<and> removed its h i m then None else obj_parent (objects h j))" by blast+
qed

lemma setID_same:
  assumes "setID its rnd (item_id i) i = Some i'"
  shows "item_id i' = item_id i" and "item_count i' = item_count i"
proof -
  have r: "item_removeAttribute t k = Some k' \<Longrightarrow> item_id k' = item_id k \<and> item_count k' = item_count k" for t k k'
    by (auto simp: item_removeAttribute_def split: option.splits)
  have s: "item_id (item_setIntAttr t n k) = item_id k" "item_count (item_setIntAttr t n k) = item_count k" for t n k
    by (simp_all add: item_setIntAttr_def with_attributes_def)
  have "item_id i' = item_id i \<and> item_count i' = item_count i"
    using assms unfolding setID_def Let_def
    by (auto simp: s setDuration_def bind_eq_Some_conv dest!: r split: if_split_asm)
  then show "item_id i' = item_id i" and "item_count i' = item_count i" by auto
qed

text \<open>Writing a new count on a stack.\<close>

definition plain_stack :: "item_type \<Rightarrow> bool" where
  "plain_stack it \<longleftrightarrow> \<not> isFluidContainer it \<and> \<not> isSplash it \<and> \<not> isContainer it \<and> \<not> isDepot it"

lemma updateThing_amount:
  assumes ok: "heap_ok its h" and i: "i \<in> set (kids h c)" and st: "it_stackable (type_of its h i)" "plain_stack (type_of its h i)"
    and n: "unat n < 256" and r: "updateThing its rnd c i (item_id (the_item h i)) n h = Some h'"
  shows "amount_of h' ty + pieces h ty i = amount_of h ty + (if item_id (the_item h i) = ty then unat n else 0)"
    and "holds h' = holds h" and "j \<noteq> i \<Longrightarrow> the_item h' j = the_item h j"
    and "capacity h' d = capacity h d" and "is_container h' d = is_container h d"
    and "item_id (the_item h' i) = item_id (the_item h i)" and "obj_parent (objects h' k) = obj_parent (objects h k)"
proof -
  have tree: "heap_tree h" using ok by (simp add: heap_ok_def)
  have hold: "(c, i) \<in> holds h" using heap_treeD(2) [OF tree] i by blast
  have k: "getThingIndex h c i \<noteq> None" using i by (simp add: getThingIndex_def)
  have "item_ok (the_item h i)" using ok by (simp add: heap_ok_def)
  then obtain it where it: "setID its rnd (item_id (the_item h i)) (the_item h i) = Some it" by (rule setID_ok)
  note same = setID_same [OF it]
  let ?it = "setSubType (its (item_id it)) (ucast n) it"
  let ?h1 = "set_item ?it i h"
  have e: "?it = it\<lparr>item_count := ucast (ucast n :: u16)\<rparr>"
    using st by (simp add: setSubType_def same type_of_def plain_stack_def)
  have n16: "unat (ucast n :: u16) = unat n"
    using n by (simp add: unsigned_ucast_eq take_bit_nat_eq_self)
  have "unat (ucast w :: u8) = unat w" if "unat w < 256" for w :: u16
    using that by (simp add: unsigned_ucast_eq take_bit_nat_eq_self)
  from this [of "ucast n"] have nn: "unat (ucast (ucast n :: u16) :: u8) = unat n" unfolding n16 using n by blast
  have u: "updateItemWeight c (- getWeight its h i + getWeight its ?h1 i) ?h1 = Some h'"
    using r k it by (simp add: updateThing_def Let_def)
  have t1: "heap_tree ?h1" using tree by simp
  note h' = updateItemWeight_amount [OF t1 u]
  show "amount_of h' ty + pieces h ty i = amount_of h ty + (if item_id (the_item h i) = ty then unat n else 0)"
    using amount_set_item [OF tree hold, of ?it ty] nn unfolding h'(1) e by (simp add: same)
  show "holds h' = holds h" "j \<noteq> i \<Longrightarrow> the_item h' j = the_item h j" "capacity h' d = capacity h d" "is_container h' d = is_container h d"
    "item_id (the_item h' i) = item_id (the_item h i)" "obj_parent (objects h' k) = obj_parent (objects h k)"
    by (simp_all add: h' e [unfolded same] same)
qed

subsection \<open>New items\<close>

text \<open>Types that can be made under their own number: not one of the numbers that are made as another.\<close>

definition makeable :: "(u16 \<Rightarrow> item_type) \<Rightarrow> u16 \<Rightarrow> bool" where
  "makeable its ty \<longleftrightarrow> it_group (its ty) \<noteq> ITEM_GROUP_DEPRECATED \<and> it_id (its ty) = ty \<and> ty \<noteq> 0 \<and>
     ty \<notin> {2202, 2203, 2204, 2205, 2206, 2210, 2211, 2212, 2215, 2216, 2640, 6301}"

lemma not_remade:
  fixes ty :: u16
  assumes "ty \<notin> {2202, 2203, 2204, 2205, 2206, 2210, 2211, 2212, 2215, 2216, 2640, 6301}"
  shows "\<not> (2210 \<le> ty \<and> ty \<le> 2212)" and "\<not> (2202 \<le> ty \<and> ty \<le> 2206)"
proof -
  have e: "ty = of_nat k" if "unat ty = k" for k unfolding that [symmetric] by simp
  show "\<not> (2210 \<le> ty \<and> ty \<le> 2212)"
  proof
    assume "2210 \<le> ty \<and> ty \<le> 2212"
    then have "2210 \<le> unat ty \<and> unat ty \<le> 2212" by (simp add: word_le_nat_alt)
    then have "unat ty = 2210 \<or> unat ty = 2211 \<or> unat ty = 2212" by arith
    then show False using assms e [of 2210] e [of 2211] e [of 2212] by auto
  qed
  show "\<not> (2202 \<le> ty \<and> ty \<le> 2206)"
  proof
    assume "2202 \<le> ty \<and> ty \<le> 2206"
    then have "2202 \<le> unat ty \<and> unat ty \<le> 2206" by (simp add: word_le_nat_alt)
    then have "unat ty = 2202 \<or> unat ty = 2203 \<or> unat ty = 2204 \<or> unat ty = 2205 \<or> unat ty = 2206" by arith
    then show False using assms e [of 2202] e [of 2203] e [of 2204] e [of 2205] e [of 2206] by auto
  qed
qed

lemma item_setIntAttr_fields [simp]:
  "item_id (item_setIntAttr t n k) = item_id k" "item_count (item_setIntAttr t n k) = item_count k"
  by (simp_all add: item_setIntAttr_def with_attributes_def)

lemma new_item_ok: "item_ok (new_item its rnd ty n)" and new_item_id: "item_id (new_item its rnd ty n) = ty"
proof -
  have "item_ok \<lparr>item_id = ty, item_count = k, item_attrs = None\<rparr>" for k
    by (simp add: item_ok_def getAttributes_def)
  then show "item_ok (new_item its rnd ty n)" "item_id (new_item its rnd ty n) = ty"
    by (simp_all add: new_item_def Let_def setDefaultDuration_def setDuration_def item_setIntAttr_ok)
qed

lemma clone_ok:
  assumes "makeable its (item_id i)" and "item_ok i"
  obtains new size where "clone its rnd i = Some (new, size)" and "item_id new = item_id i" and "item_ok new"
proof -
  have "\<exists>n size. CreateItem its rnd (item_id i) (ucast (item_count i)) = Some (new_item its rnd (item_id i) n, size)"
    using assms(1) not_remade [of "item_id i"] by (auto simp: makeable_def CreateItem_def Let_def)
  then obtain n size where c: "CreateItem its rnd (item_id i) (ucast (item_count i)) = Some (new_item its rnd (item_id i) n, size)"
    by blast
  have "item_ok (k\<lparr>item_attrs := Some at\<rparr>)" if "item_attrs i = Some at" for k at
    using assms(2) that by (simp add: item_ok_def getAttributes_def)
  then have "\<exists>new. clone its rnd i = Some (new, size) \<and> item_id new = item_id i \<and> item_ok new"
    by (cases "item_attrs i") (simp_all add: clone_def c Let_def setDecaying_def new_item_ok new_item_id item_setIntAttr_ok)
  then show thesis using that by blast
qed

section \<open>Moving keeps what there is\<close>

text \<open>What is assumed of the table of types and of the stacks: stackable types are plain and can be made,
  and no stack is higher than its type allows. Sizes are below \<open>2 ^ 31\<close>.\<close>

definition types_ok :: "(u16 \<Rightarrow> item_type) \<Rightarrow> bool" where
  "types_ok its \<longleftrightarrow> (\<forall>ty. it_stackable (its ty) \<longrightarrow> plain_stack (its ty) \<and> makeable its ty)"

definition stacks_ok :: "(u16 \<Rightarrow> item_type) \<Rightarrow> heap \<Rightarrow> bool" where
  "stacks_ok its h \<longleftrightarrow> (\<forall>i. it_stackable (type_of its h i) \<longrightarrow> item_count (the_item h i) \<le> it_stackSize (type_of its h i))"

definition small_containers :: "heap \<Rightarrow> bool" where
  "small_containers h \<longleftrightarrow> (\<forall>c. unat (capacity h c) < 2 ^ 31 \<and> length (kids h c) < 2 ^ 31)"

lemma above_mono: "holds h' \<subseteq> holds h \<Longrightarrow> above h' c \<subseteq> above h c"
  unfolding above_def using rtrancl_mono by blast

lemma free_on_nat:
  assumes "it_stackable (type_of its h t)" and "item_count (the_item h t) \<le> it_stackSize (type_of its h t)"
  shows "unat (free_on its h t) + unat (item_count (the_item h t)) = unat (it_stackSize (type_of its h t))"
    and "unat (free_on its h t) < 256"
proof -
  have s: "unat (ucast (it_stackSize (type_of its h t)) :: u32) = unat (it_stackSize (type_of its h t))"
    by (simp add: unsigned_ucast_eq take_bit_nat_eq_self order.strict_trans [OF unsigned_less])
  have c: "unat (ucast (getItemCount h t) :: u32) = unat (item_count (the_item h t))"
    by (simp add: getItemCount_def count32)
  have "unat (free_on its h t) = unat (it_stackSize (type_of its h t)) - unat (item_count (the_item h t))"
    using assms c s by (simp add: free_on_def getStackSize_def unat_sub word_le_nat_alt)
  moreover have "unat (it_stackSize (type_of its h t)) < 256"
    using unsigned_less [of "it_stackSize (type_of its h t)", where 'a = nat] by simp
  ultimately show "unat (free_on its h t) + unat (item_count (the_item h t)) = unat (it_stackSize (type_of its h t))"
    and "unat (free_on its h t) < 256"
    using assms(2) by (simp_all add: word_le_nat_alt)
qed

text \<open>Stacking as much as fits.\<close>

lemma stack_on_ok:
  assumes ok: "heap_ok its h" and t: "t \<in> set (kids h c)" and st: "it_stackable (type_of its h t)" "plain_stack (type_of its h t)"
    and cnt: "item_count (the_item h t) \<le> it_stackSize (type_of its h t)"
    and n_def: "n = min (free_on its h t) m"
  shows "\<exists>h'. updateThing its rnd c t (item_id (the_item h t)) (ucast (getItemCount h t) + n) h = Some h' \<and> heap_ok its h' \<and>
    (\<forall>ty. amount_of h' ty = amount_of h ty + (if item_id (the_item h t) = ty then unat n else 0)) \<and>
    holds h' = holds h \<and> (\<forall>j. j \<noteq> t \<longrightarrow> the_item h' j = the_item h j) \<and> (\<forall>d. capacity h' d = capacity h d) \<and>
    (\<forall>d. is_container h' d = is_container h d) \<and> (\<forall>j. obj_parent (objects h' j) = obj_parent (objects h j))"
proof -
  have f: "unat (free_on its h t) + unat (item_count (the_item h t)) = unat (it_stackSize (type_of its h t))"
    by (rule free_on_nat(1) [OF st(1) cnt])
  have ss: "unat (it_stackSize (type_of its h t)) < 256"
    using unsigned_less [of "it_stackSize (type_of its h t)", where 'a = nat] by simp
  have c: "unat (ucast (getItemCount h t) :: u32) = unat (item_count (the_item h t))"
    by (simp add: getItemCount_def count32)
  have n: "unat n \<le> unat (free_on its h t)" by (simp add: n_def min_def word_le_nat_alt)
  then have s: "unat (item_count (the_item h t)) + unat n < 256" using f ss by linarith
  then have u: "unat ((ucast (getItemCount h t) :: u32) + n) = unat (item_count (the_item h t)) + unat n"
    using c by (simp add: unat_word_ariths)
  obtain h' where h': "updateThing its rnd c t (item_id (the_item h t)) (ucast (getItemCount h t) + n) h = Some h'" "heap_ok its h'"
    using updateThing_ok [OF ok] by blast
  have lt: "unat ((ucast (getItemCount h t) :: u32) + n) < 256" using u s by simp
  note a = updateThing_amount [OF ok t st lt h'(1)]
  have "amount_of h' ty = amount_of h ty + (if item_id (the_item h t) = ty then unat n else 0)" for ty
    using a(1) [of ty] unfolding u pieces_def by (simp split: if_split_asm)
  then show ?thesis using h' a(2-5,7) by (intro exI [of _ h']) simp
qed

lemma type_of_same: "the_item h' i = (the_item h i)\<lparr>item_count := k\<rparr> \<Longrightarrow> type_of its h' i = type_of its h i"
  "the_item h' i = the_item h i \<Longrightarrow> type_of its h' i = type_of its h i"
  by (simp_all add: type_of_def)

lemma equals_id: "equals h i j \<Longrightarrow> item_id (the_item h i) = item_id (the_item h j)"
  by (simp add: equals_def item_equals_def split: if_split_asm)

lemma equals_same: 
  assumes "the_item h' i = (the_item h i)\<lparr>item_count := k\<rparr> \<or> the_item h' i = the_item h i" and "the_item h' j = the_item h j"
  shows "equals h' i j = equals h i j"
  using assms by (auto simp: equals_def item_equals_def)

text \<open>A new object enters a container.\<close>

lemma place_new_ok:
  assumes ok: "heap_ok its h" and o: "obj_parent (objects h fresh) = None" and k: "kids h fresh = []" and new: "item_ok (fst new)"
  shows "heap_ok its (place_new fresh new h)" and "amount_of (place_new fresh new h) ty = amount_of h ty"
    and "pieces (place_new fresh new h) ty fresh = (if item_id (fst new) = ty then unat (item_count (fst new)) else 0)"
    and "holds (place_new fresh new h) = holds h"
    and "d \<noteq> fresh \<Longrightarrow> capacity (place_new fresh new h) d = capacity h d \<and> is_container (place_new fresh new h) d = is_container h d"
    and "obj_parent (objects (place_new fresh new h) fresh) = None"
proof -
  show "heap_ok its (place_new fresh new h)"
    unfolding place_new_def by (rule create_ok [OF ok o k new])
  have h: "holds (place_new fresh new h) = holds h" using o by (auto simp: place_new_def holds_def)
  then show "holds (place_new fresh new h) = holds h" .
  have "fresh \<notin> stored h" using o by (simp add: stored_def holds_def)
  then have "pieces (place_new fresh new h) ty i = pieces h ty i" if "i \<in> stored h" for i
    using that by (auto simp: pieces_def place_new_def)
  then show "amount_of (place_new fresh new h) ty = amount_of h ty"
    by (simp add: amount_of_def stored_def h)
qed (auto simp: pieces_def place_new_def capacity_def is_container_def)

lemma enter_new_ok:
  assumes ok: "heap_ok its h" and c: "is_container h c" and o: "obj_parent (objects h fresh) = None" and k: "kids h fresh = []" "fresh \<noteq> c"
    and new: "item_ok (fst new)" and idx: "index < sint (capacity h c)"
  shows "\<exists>h'. addThing its c index fresh (place_new fresh new h) = Some h' \<and> heap_ok its h' \<and>
    (\<forall>ty. amount_of h' ty = amount_of h ty + (if item_id (fst new) = ty then unat (item_count (fst new)) else 0))"
proof -
  note p = place_new_ok [OF ok o k(1) new]
  let ?h = "place_new fresh new h"
  have pc: "is_container ?h c" "capacity ?h c = capacity h c" using p(5) [of c] k(2) c by auto
  have "fresh \<notin> above h c" by (rule empty_not_above [OF _ k]) (use ok in \<open>simp add: heap_ok_def\<close>)
  then have up: "fresh \<notin> above ?h c" by (simp add: above_def p(4))
  have idx': "index < sint (capacity ?h c)" using idx pc by simp
  obtain h' where h': "addThing its c index fresh ?h = Some h'" "heap_ok its h'"
    using addThing_ok [OF p(1) pc(1) p(6) up] by blast
  have "amount_of h' ty = amount_of h ty + (if item_id (fst new) = ty then unat (item_count (fst new)) else 0)" for ty
    using addThing_amount [OF p(1) pc(1) p(6) up idx' h'(1), of ty] p(2,3) by simp
  then show ?thesis using h' by blast
qed

text \<open>The part of a stack that goes on top of the item at the destination, after the removal.\<close>

lemma stack_part_ok:
  assumes ok: "heap_ok its h1" and ty: "types_ok its" and sk: "stacks_ok its h" and st: "it_stackable (type_of its h i)"
    and i1: "the_item h1 i = (the_item h i)\<lparr>item_count := item_count (the_item h1 i)\<rparr> \<or> the_item h1 i = the_item h i"
    and id1: "item_id (the_item h1 i) = item_id (the_item h i)"
    and t: "\<And>t. toItem = Some t \<Longrightarrow> t \<in> set (kids h1 to) \<and> the_item h1 t = the_item h t" and ti: "\<And>t. toItem = Some t \<Longrightarrow> t \<noteq> i"
    and idx: "index < sint (capacity h to) \<or>
      it_stackable (type_of its h i) \<and> (\<exists>t. toItem = Some t \<and> equals h i t \<and> m \<le> free_on its h t)"
  shows "\<exists>h2 n. (case toItem of
        Some t \<Rightarrow> if equals h1 i t
          then let n = min (free_on its h1 t) m in
            map_option (\<lambda>h2. (h2, n)) (updateThing its rnd to t (item_id (the_item h1 t)) (ucast (getItemCount h1 t) + n) h1)
          else Some (h1, 0)
      | None \<Rightarrow> Some (h1, 0)) = Some (h2, n) \<and> heap_ok its h2 \<and>
      holds h2 = holds h1 \<and> the_item h2 i = the_item h1 i \<and> (\<forall>d. capacity h2 d = capacity h1 d) \<and>
      (\<forall>d. is_container h2 d = is_container h1 d) \<and> (\<forall>j. obj_parent (objects h2 j) = obj_parent (objects h1 j)) \<and>
      (\<forall>ty. amount_of h2 ty = amount_of h1 ty + (if item_id (the_item h i) = ty then unat n else 0)) \<and>
      n \<le> m \<and> (index < sint (capacity h to) \<or> n = m)"
proof (cases "\<exists>t. toItem = Some t \<and> equals h1 i t")
  case True
  then obtain t' where t': "toItem = Some t'" "equals h1 i t'" by blast
  have tk1: "t' \<in> set (kids h1 to)" and t1: "the_item h1 t' = the_item h t'" and tn: "t' \<noteq> i" using t [OF t'(1)] ti [OF t'(1)] by auto
  have id: "item_id (the_item h1 t') = item_id (the_item h i)" using equals_id [OF t'(2)] id1 by simp
  then have tt: "type_of its h1 t' = type_of its h i" by (simp add: type_of_def)
  have st1: "it_stackable (type_of its h1 t')" "plain_stack (type_of its h1 t')" using ty tt st
    by (auto simp: types_ok_def type_of_def)
  have cnt: "item_count (the_item h1 t') \<le> it_stackSize (type_of its h1 t')"
    using sk st1(1) unfolding stacks_ok_def type_of_def t1 by blast
  obtain h2 where h2: "updateThing its rnd to t' (item_id (the_item h1 t')) (ucast (getItemCount h1 t') + min (free_on its h1 t') m) h1 = Some h2"
      "heap_ok its h2" "\<And>ty. amount_of h2 ty = amount_of h1 ty + (if item_id (the_item h1 t') = ty then unat (min (free_on its h1 t') m) else 0)"
      "holds h2 = holds h1" "\<And>j. j \<noteq> t' \<Longrightarrow> the_item h2 j = the_item h1 j" "\<And>d. capacity h2 d = capacity h1 d"
      "\<And>d. is_container h2 d = is_container h1 d" "\<And>j. obj_parent (objects h2 j) = obj_parent (objects h1 j)"
    using stack_on_ok [OF ok tk1 st1 cnt refl, of rnd m] by blast
  have "free_on its h1 t' = free_on its h t'" by (simp add: free_on_def type_of_def getItemCount_def t1)
  moreover have "index < sint (capacity h to) \<or> m \<le> free_on its h t'" using idx t'(1) by auto
  ultimately have "index < sint (capacity h to) \<or> min (free_on its h1 t') m = m" by (auto simp: min_def)
  then show ?thesis
    using t' h2(1,2,4-8) h2(3) tn id by (intro exI [of _ h2] exI [of _ "min (free_on its h1 t') m"]) (simp add: Let_def)
next
  case False
  have "\<not> equals h i t'" if "toItem = Some t'" for t'
    using False that equals_same [OF i1, of t'] t [OF that] by auto
  then have "index < sint (capacity h to)" using idx by blast
  moreover have "\<not> equals h1 i t'" if "toItem = Some t'" for t' using False that by blast
  ultimately show ?thesis using ok by (intro exI [of _ h1] exI [of _ 0]) (auto split: option.split)
qed

text \<open>From the removal on.\<close>

lemma carry_over_ok:
  assumes ok: "heap_ok its h" and ty: "types_ok its" and sk: "stacks_ok its h" and i: "i \<in> set (kids h from)" and to: "is_container h to"
    and up: "i \<notin> above h to" and m: "it_stackable (type_of its h i) \<Longrightarrow> m \<le> ucast (getItemCount h i)"
    and t: "\<And>t. toItem = Some t \<Longrightarrow> t \<in> set (kids h to) \<and> t \<noteq> i"
    and idx: "index < sint (capacity h to) \<or>
      it_stackable (type_of its h i) \<and> (\<exists>t. toItem = Some t \<and> equals h i t \<and> m \<le> free_on its h t)"
    and fresh: "obj_parent (objects h (me_fresh env)) = None" "kids h (me_fresh env) = []" "me_fresh env \<noteq> to"
  shows "\<exists>h' k. carry_over env its h from to index i m toItem = Some (h', k) \<and> heap_ok its h' \<and> (\<forall>ty. amount_of h' ty = amount_of h ty)"
proof -
  have tree: "heap_tree h" using ok by (simp add: heap_ok_def)
  have hold: "(from, i) \<in> holds h" using heap_treeD(2) [OF tree] i by blast
  obtain h1 where h1: "removeThing its from i m h = Some h1" "heap_ok its h1" using removeThing_ok [OF ok] by blast
  have tree1: "heap_tree h1" using h1(2) by (simp add: heap_ok_def)
  note r = removeThing_amount [OF ok i m h1(1)]
  have sub: "holds h1 \<subseteq> holds h" using r(2) by auto
  have i1: "the_item h1 i = (the_item h i)\<lparr>item_count := item_count (the_item h1 i)\<rparr> \<or> the_item h1 i = the_item h i"
    using r(3) [of i] by (auto split: if_split_asm)
  have id1: "item_id (the_item h1 i) = item_id (the_item h i)" using i1 by (auto dest: arg_cong [of _ _ item_id])
  then have ti: "type_of its h1 i = type_of its h i" by (simp add: type_of_def)
  show ?thesis
  proof (cases "it_stackable (type_of its h i)")
    case False
    then have gone: "removed its h i m" by (simp add: removed_def)
    have o1: "obj_parent (objects h1 i) = None" using r(6) gone by simp
    have "i \<notin> above h1 to" using above_mono [OF sub] up by blast
    note a = addThing_ok [OF h1(2) _ o1 this] addThing_amount [OF h1(2) _ o1 this]
    have c1: "is_container h1 to" using to r(5) by simp
    obtain h2 where h2: "addThing its to index i h1 = Some h2" "heap_ok its h2" using a(1) [OF c1] by blast
    have "index < sint (capacity h1 to)" using idx False r(4) by simp
    note b = a(2) [OF c1 this h2(1)]
    have "amount_of h2 ty = amount_of h ty" for ty
      using b [of ty] r(1) [of ty] r(3) [of i] False gone by (simp add: pieces_def)
    then show ?thesis using h1(1) h2 False ti by (simp add: carry_over_def)
  next
    case True
    let ?step = "case toItem of
        Some t \<Rightarrow> if equals h1 i t
          then let n = min (free_on its h1 t) m in
            map_option (\<lambda>h2. (h2, n)) (updateThing its (me_rnd env) to t (item_id (the_item h1 t)) (ucast (getItemCount h1 t) + n) h1)
          else Some (h1, 0)
      | None \<Rightarrow> Some (h1, 0)"
    have tk: "t' \<in> set (kids h1 to) \<and> the_item h1 t' = the_item h t'" if "toItem = Some t'" for t'
    proof -
      have "(to, t') \<in> holds h1" using heap_treeD(2) [OF tree] t [OF that] r(2) by auto
      then show ?thesis using heap_treeD(2) [OF tree1] r(3) [of t'] t [OF that] by auto
    qed
    obtain h2 n where h2: "?step = Some (h2, n)" "heap_ok its h2"
      "holds h2 = holds h1 \<and> the_item h2 i = the_item h1 i \<and> (\<forall>d. capacity h2 d = capacity h1 d) \<and>
      (\<forall>d. is_container h2 d = is_container h1 d) \<and> (\<forall>j. obj_parent (objects h2 j) = obj_parent (objects h1 j)) \<and>
      (\<forall>ty. amount_of h2 ty = amount_of h1 ty + (if item_id (the_item h i) = ty then unat n else 0)) \<and>
      n \<le> m \<and> (index < sint (capacity h to) \<or> n = m)"
      using stack_part_ok [OF h1(2) ty sk True i1 id1 tk _ idx] t by blast
    have tree2: "heap_tree h2" using h2(2) by (simp add: heap_ok_def)
    have id2: "item_id (the_item h2 i) = item_id (the_item h i)" using h2(3) id1 by simp
    have mn: "unat (m - n) = unat m - unat n" using h2(3) by (simp add: unat_sub)
    have "unat (ucast (getItemCount h i) :: u32) < 256"
      using unsigned_less [of "item_count (the_item h i)", where 'a = nat] by (simp add: getItemCount_def count32)
    then have m256: "unat m < 256" using m [OF True] by (simp add: word_le_nat_alt)
    have all: "amount_of h ty = amount_of h2 ty + (if item_id (the_item h i) = ty then unat (m - n) else 0)" for ty
    proof -
      have "amount_of h2 ty = amount_of h1 ty + (if item_id (the_item h i) = ty then unat n else 0)" "unat n \<le> unat m"
        using h2(3) by (auto simp: word_le_nat_alt)
      then show ?thesis using r(1) [of ty] True mn by simp
    qed
    show ?thesis
    proof (cases "0 < sint (m - n)")
      case False
      have "unat (m - n) < 2 ^ 31" using mn m256 by simp
      then have "sint (m - n) = int (unat (m - n))" by (rule sint_small)
      then have "unat (m - n) = 0" using False by linarith
      then have "amount_of h2 ty = amount_of h ty" for ty using all [of ty] by simp
      then show ?thesis using h1(1) h2(1,2) False True ti by (simp add: carry_over_def)
    next
      case pos: True
      then have idx2: "index < sint (capacity h2 to)" using h2(3) r(4) by auto
      have mk: "makeable its (item_id (the_item h2 i))" using ty True id2 by (simp add: types_ok_def type_of_def)
      have "item_ok (the_item h2 i)" using h2(2) by (simp add: heap_ok_def)
      then obtain new size where new: "clone its (me_rnd env) (the_item h2 i) = Some (new, size)" "item_id new = item_id (the_item h i)" "item_ok new"
        by (rule clone_ok [OF mk]) (use id2 in simp)
      have fr: "obj_parent (objects h2 (me_fresh env)) = None" using fresh(1) h2(3) r(6) by simp
      have "(me_fresh env, k) \<notin> holds h2" for k
        using fresh(2) heap_treeD(2) [OF tree, of k "me_fresh env"] h2(3) sub by auto
      then have fk: "kids h2 (me_fresh env) = []" using heap_treeD(2) [OF tree2, of _ "me_fresh env"] by (metis list.set_intros(1) neq_Nil_conv)
      have c2: "is_container h2 to" using to h2(3) r(5) by simp
      have new': "item_ok (fst (new\<lparr>item_count := ucast (m - n)\<rparr>, size))" using new(3) by simp
      have cn: "unat (ucast (m - n) :: u8) = unat (m - n)" using mn m256 by (simp add: unsigned_ucast_eq take_bit_nat_eq_self)
      obtain h4 where h4: "addThing its to index (me_fresh env) (place_new (me_fresh env) (new\<lparr>item_count := ucast (m - n)\<rparr>, size) h2) = Some h4"
          "heap_ok its h4" "\<And>ty. amount_of h4 ty = amount_of h2 ty + (if item_id new = ty then unat (ucast (m - n) :: u8) else 0)"
        using enter_new_ok [OF h2(2) c2 fr fk fresh(3) new' idx2] by auto
      have "amount_of h4 ty = amount_of h ty" for ty using all [of ty] h4(3) [of ty] cn new(2) by simp
      then show ?thesis using h1(1) h2(1) h4(1,2) new(1) pos True ti by (simp add: carry_over_def Let_def)
    qed
  qed
qed

subsection \<open>Where it goes\<close>

definition destination_ok :: "(u16 \<Rightarrow> item_type) \<Rightarrow> heap \<Rightarrow> nat \<Rightarrow> nat \<Rightarrow> int \<Rightarrow> nat option \<Rightarrow> bool" where
  "destination_ok its h i d index t \<longleftrightarrow> is_container h d \<and> (\<forall>k. t = Some k \<longrightarrow> k \<in> set (kids h d)) \<and>
     (index < sint (capacity h d) \<or>
      it_stackable (type_of its h i) \<and> (\<exists>k. t = Some k \<and> getItemByIndex h d index = Some k))"

lemma find_stack_Some:
  "find_stack its h i ks n0 = Some (n, k) \<Longrightarrow> \<exists>j < length ks. n = n0 + int j \<and> ks ! j = k"
proof (induction ks arbitrary: n0)
  case (Cons a ks)
  show ?case
  proof (cases "a \<noteq> i \<and> equals h a i \<and> room_on its h a")
    case False
    then have "find_stack its h i ks (n0 + 1) = Some (n, k)" using Cons.prems by (simp split: if_split_asm)
    then obtain j where "j < length ks" "n = n0 + 1 + int j" "ks ! j = k" using Cons.IH by blast
    then show ?thesis by (intro exI [of _ "Suc j"]) simp
  qed (use Cons.prems in \<open>auto intro: exI [of _ 0]\<close>)
qed simp

lemma capacity_sint: "small_containers h \<Longrightarrow> sint (capacity h c) = int (unat (capacity h c))"
  by (rule sint_small) (simp add: small_containers_def)

lemma queryDestination_ok:
  assumes tree: "heap_tree h" and small: "small_containers h" and c: "is_container h c"
  shows "\<exists>d index' t. queryDestination its h c index i flags = (Cont d, index', t) \<and> destination_ok its h i d index' t"
proof -
  have pos: "INDEX_WHEREEVER < sint (capacity h d)" for d using capacity_sint [OF small, of d] unfolding INDEX_WHEREEVER_def by linarith
  have at: "k \<in> set (kids h c)" if "getItemByIndex h c n = Some k" for n k
    using that by (auto simp: getItemByIndex_def split: if_split_asm)
  have fs: "destination_ok its h i c n (Some k)" if "find_stack its h i (kids h c) 0 = Some (n, k)" "it_stackable (type_of its h i)" for n k
  proof -
    have "\<exists>j < length (kids h c). n = int j \<and> kids h c ! j = k" using find_stack_Some [of its h i "kids h c" 0 n k] that by simp
    then obtain j where "j < length (kids h c)" "n = int j" "kids h c ! j = k" by blast
    then have "getItemByIndex h c n = Some k" by (simp add: getItemByIndex_def)
    then show ?thesis using at that(2) c by (auto simp: destination_ok_def)
  qed
  have par: "is_container h p" if "obj_parent (objects h c) = Some (Cont p)" for p
    using container_of_kid [of c h p] heap_treeD(2) [OF tree] that by (simp add: holds_def)
  show ?thesis
  proof (cases "index = 254")
    case True
    then show ?thesis using pos par c
      by (auto simp: queryDestination_def destination_ok_def split: option.split cylinder.split)
  next
    case False
    define j where "j = (if index = 255 \<or> index \<ge> sint (capacity h c) then INDEX_WHEREEVER else index)"
    have j: "j < sint (capacity h c)" using pos by (simp add: j_def)
    have plain: "destination_ok its h i c j (if j \<noteq> INDEX_WHEREEVER then getItemByIndex h c j else None)"
      using j c at by (auto simp: destination_ok_def)
    have inner: "destination_ok its h i d INDEX_WHEREEVER None" if "is_container h d" for d
      using that pos by (simp add: destination_ok_def)
    show ?thesis
      using plain fs inner False unfolding queryDestination_def j_def [symmetric] Let_def
      by (auto split: option.splits)
  qed
qed

lemma find_destination_ok:
  assumes tree: "heap_tree h" and small: "small_containers h" and n: "n > 0"
  shows "is_container h c \<Longrightarrow> \<exists>d index' t flags'. find_destination its h n c index i flags = (d, index', t, flags') \<and>
    destination_ok its h i d index' t \<and> flags' \<in> {flags, 0}"
  using n
proof (induction n arbitrary: c index flags)
  case (Suc n)
  obtain d index' t where q: "queryDestination its h c index i flags = (Cont d, index', t)" "destination_ok its h i d index' t"
    using queryDestination_ok [OF tree small Suc.prems(1)] by blast
  then have d: "is_container h d" by (simp add: destination_ok_def)
  show ?case
  proof (cases "d = c \<or> n = 0")
    case False
    then have "n > 0" by simp
    from Suc.IH [OF d this, of index' 0] show ?thesis using q False by auto
  qed (use q in auto)
qed simp

lemma overfull_has_no_slots:
  assumes small: "small_containers h" and "getItemByIndex h c index = Some k" and "\<not> index < sint (capacity h c)"
  shows "sint (capacity h c - of_nat (length (kids h c))) < 0"
proof -
  define C where "C = unat (capacity h c)"
  define L where "L = length (kids h c)"
  have "int C < int L" using assms(2,3) capacity_sint [OF small] by (auto simp: getItemByIndex_def C_def L_def split: if_split_asm)
  moreover have "L < 2 ^ 31" using small by (simp add: small_containers_def L_def)
  ultimately have r: "- (2 ^ 31) \<le> int C - int L" "int C - int L < 0" by simp_all
  have "capacity h c = of_nat C" by (simp add: C_def)
  then have "capacity h c - of_nat (length (kids h c)) = word_of_int (int C - int L)" by (simp add: L_def)
  then have "sint (capacity h c - of_nat (length (kids h c))) = signed_take_bit 31 (int C - int L)"
    using signed_of_int [of "int C - int L", where 'a = int and 'b = 32] by (simp only: ) simp
  also have "\<dots> = int C - int L" by (rule signed_take_bit_int_eq_self) (use r in simp_all)
  finally show ?thesis using r by simp
qed

lemma overfull_stacks_only:
  assumes small: "small_containers h" and "getItemByIndex h c index = Some k" and "\<not> index < sint (capacity h c)"
    and "it_stackable (type_of its h i)" and "\<not> hasBitSet FLAG_NOLIMIT flags"
    and "queryMaxCount ask its h c index i amount flags = Some (ret, n)" and "n \<noteq> 0"
  shows "equals h i k \<and> n = free_on its h k"
proof -
  have "index \<noteq> INDEX_WHEREEVER" using assms(2) by (auto simp: getItemByIndex_def INDEX_WHEREEVER_def)
  then show ?thesis
    using assms(2,4-7) overfull_has_no_slots [OF assms(1-3)]
    by (auto simp: queryMaxCount_def Let_def bind_eq_Some_conv split: if_split_asm)
qed

subsection \<open>The move\<close>

lemma queryAdd_no_exchange:
  assumes "\<And>a b c d e. ask a b c d e \<noteq> RETURNVALUE_NEEDEXCHANGE"
  shows "queryAdd ask its h c index i amount flags \<noteq> Some RETURNVALUE_NEEDEXCHANGE"
  using assms by (auto simp: queryAdd_def bind_eq_Some_conv split: if_split_asm cylinder.split_asm)

lemma queryRemove_NOERROR:
  assumes "queryRemove house its h c i amount flags = Some RETURNVALUE_NOERROR"
  shows "i \<in> set (kids h c)" and "amount \<noteq> 0" and "it_stackable (type_of its h i) \<Longrightarrow> amount \<le> ucast (getItemCount h i)"
  using assms by (auto simp: queryRemove_def getThingIndex_def split: if_split_asm)

lemma map_of_decaying:
  assumes "item_ok i"
  shows "item_map (item_setIntAttr ITEM_ATTRIBUTE_DECAYSTATE n i) ITEM_ATTRIBUTE_WEIGHT = item_map i ITEM_ATTRIBUTE_WEIGHT"
  using sets_int [OF assms, of ITEM_ATTRIBUTE_DECAYSTATE n] by (simp add: sets_def int_types_def)

lemma weight_of_decaying: "item_ok i \<Longrightarrow> item_getWeight it (setDecaying s i) = item_getWeight it i"
  by (simp add: item_getWeight_def getBaseWeight_def setDecaying_def item_hasAttribute_map item_getIntAttr_map item_setIntAttr_ok map_of_decaying)

lemma set_decaying_ok:
  assumes "heap_ok its h"
  shows "heap_ok its (set_item (setDecaying s (the_item h k)) k h)" and "amount_of (set_item (setDecaying s (the_item h k)) k h) ty = amount_of h ty"
proof -
  let ?h = "set_item (setDecaying s (the_item h k)) k h"
  have ok: "item_ok (the_item h i)" for i using assms by (simp add: heap_ok_def)
  have id: "item_id (setDecaying s (the_item h k)) = item_id (the_item h k)" by (simp add: setDecaying_def)
  have "getWeight its ?h i = getWeight its h i" for i
    using weight_of_decaying [OF ok] by (simp add: getWeight_def id)
  then have w: "getWeight its ?h = getWeight its h" by (rule ext)
  show "heap_ok its ?h" using assms w by (simp add: heap_ok_def weights_ok_def setDecaying_def item_setIntAttr_ok)
  have "pieces ?h ty i = pieces h ty i" for i by (simp add: pieces_def setDecaying_def)
  then show "amount_of ?h ty = amount_of h ty" by (simp add: amount_of_def stored_def)
qed

lemma trade_in_the_way_returns:
  "wf (holds h) \<Longrightarrow> trade_in_the_way h tradeItem c \<noteq> None"
  using met_above_holds(1) [of h] by (cases tradeItem) (simp_all add: trade_in_the_way_def)

text \<open>An object that is in use nowhere.\<close>

definition unused :: "heap \<Rightarrow> nat \<Rightarrow> bool" where
  "unused h i \<longleftrightarrow> obj_parent (objects h i) = None \<and> \<not> is_container h i"

lemma internalMoveItem_ok:
  assumes ok: "heap_ok its h" and ty: "types_ok its" and sk: "stacks_ok its h" and small: "small_containers h"
    and src: "is_container h source" and to: "is_container h toContainer" and fresh: "unused h (me_fresh env)"
    and no_exchange: "\<And>a b c d e. me_ask env a b c d e \<noteq> RETURNVALUE_NEEDEXCHANGE"
    and flags: "\<not> hasBitSet FLAG_CHILDISOWNER flags" "\<not> hasBitSet FLAG_NOLIMIT flags"
  shows "\<exists>ret h'. internalMoveItem env its source toContainer index i amount flags h = Some (ret, h') \<and> heap_ok its h' \<and> (\<forall>ty. amount_of h' ty = amount_of h ty)"
proof (cases "me_event env = RETURNVALUE_NOERROR")
  case True
  have tree: "heap_tree h" using ok by (simp add: heap_ok_def)
  note wf = heap_treeD(3) [OF tree]
  obtain d index' t flags' where fd: "find_destination its h MAP_MAX_LAYERS toContainer index i flags = (d, index', t, flags')"
      "destination_ok its h i d index' t" "flags' \<in> {flags, 0}"
    using find_destination_ok [OF tree small _ to, where n = MAP_MAX_LAYERS and index = index and i = i and flags = flags and its = its] by (auto simp: MAP_MAX_LAYERS_def)
  have fl: "\<not> hasBitSet FLAG_CHILDISOWNER flags'" "\<not> hasBitSet FLAG_NOLIMIT flags'" using fd(3) flags by (auto simp: hasBitSet_def)
  have d: "is_container h d" using fd(2) by (simp add: destination_ok_def)
  obtain add where add: "queryAdd (me_ask env) its h d index' i amount flags' = Some add" using queryAdd_returns [OF tree d] by blast
  have ne: "add \<noteq> RETURNVALUE_NEEDEXCHANGE" 
    using queryAdd_no_exchange [of "me_ask env" its h d index' i amount flags'] no_exchange add by auto
  obtain rmc mx where mx: "queryMaxCount (me_ask env) its h d index' i amount flags' = Some (rmc, mx)"
    using queryMaxCount_returns [OF tree d, of "me_ask env" its index' i amount flags'] by auto
  define m where "m = (if it_stackable (type_of its h i) then min amount mx else mx)"
  obtain rem where rem: "queryRemove (me_house env) its h source i m flags' = Some rem" using queryRemove_returns [OF wf src] by blast
  obtain blocked where bl: "trade_in_the_way h (me_tradeItem env) d = Some blocked" using trade_in_the_way_returns [OF wf] by blast
  have run: "internalMoveItem env its source toContainer index i amount flags h =
      (if t = Some i then Some (RETURNVALUE_NOERROR, h)
       else if add \<noteq> RETURNVALUE_NOERROR then Some (add, h)
       else if rmc \<noteq> RETURNVALUE_NOERROR \<and> mx = 0 then Some (rmc, h)
       else if rem \<noteq> RETURNVALUE_NOERROR then Some (rem, h)
       else if blocked then Some (RETURNVALUE_NOTENOUGHROOM, h)
       else do {
         (h', k) \<leftarrow> carry_over env its h source d index' i m t;
         if it_stackable (type_of its h' i) \<and> mx < amount then Some (rmc, h')
         else Some (rem, case k of None \<Rightarrow> h'
           | Some k \<Rightarrow> if getDuration (the_item h' k) > 0 \<and> getDecaying (the_item h' k) \<noteq> DECAYING_TRUE
               then set_item (setDecaying DECAYING_TRUE (the_item h' k)) k h' else h')
       })"
    using rem by (simp add: internalMoveItem_def True fd(1) add ne mx bl m_def Let_def)
  show ?thesis
  proof (cases "t \<noteq> Some i \<and> add = RETURNVALUE_NOERROR \<and> \<not> (rmc \<noteq> RETURNVALUE_NOERROR \<and> mx = 0) \<and> rem = RETURNVALUE_NOERROR \<and> \<not> blocked")
    case False
    then have "\<exists>ret. internalMoveItem env its source toContainer index i amount flags h = Some (ret, h)"
      unfolding run
      by (cases "t = Some i"; cases "add = RETURNVALUE_NOERROR"; cases "rmc \<noteq> RETURNVALUE_NOERROR \<and> mx = 0";
          cases "rem = RETURNVALUE_NOERROR"; cases blocked) simp_all
    then show ?thesis using ok by blast
  next
    case go: True
    have up: "i \<notin> above h d" using queryAdd_not_above [OF wf _ fl(1)] add go by blast
    have rem': "queryRemove (me_house env) its h source i m flags' = Some RETURNVALUE_NOERROR" using rem go by simp
    note q = queryRemove_NOERROR [OF rem']
    have idx: "index' < sint (capacity h d) \<or>
        it_stackable (type_of its h i) \<and> (\<exists>k. t = Some k \<and> equals h i k \<and> m \<le> free_on its h k)"
    proof (cases "index' < sint (capacity h d)")
      case False
      then obtain k where k: "t = Some k" "getItemByIndex h d index' = Some k" "it_stackable (type_of its h i)"
        using fd(2) by (auto simp: destination_ok_def)
      have "mx \<noteq> 0" using q(2) k(3) by (auto simp: m_def min_def split: if_split_asm)
      from overfull_stacks_only [OF small k(2) False k(3) fl(2) mx this] show ?thesis using k by (auto simp: m_def)
    qed simp
    have tk: "k \<in> set (kids h d) \<and> k \<noteq> i" if "t = Some k" for k using that fd(2) go by (auto simp: destination_ok_def)
    have fr: "obj_parent (objects h (me_fresh env)) = None" "kids h (me_fresh env) = []" "me_fresh env \<noteq> d"
      using fresh d container_of_kid [of _ h "me_fresh env"] by (auto simp: unused_def is_container_def kids_def)
    obtain h' k where h': "carry_over env its h source d index' i m t = Some (h', k)" "heap_ok its h'" "\<And>ty. amount_of h' ty = amount_of h ty"
      using carry_over_ok [OF ok ty sk q(1) d up q(3) tk idx fr] by blast
    have fin: "heap_ok its (set_item (setDecaying DECAYING_TRUE (the_item h' j)) j h')"
      "amount_of (set_item (setDecaying DECAYING_TRUE (the_item h' j)) j h') ty = amount_of h ty" for j ty
      using set_decaying_ok [OF h'(2)] h'(3) by simp_all
    have no: "(t = Some i) = False" "(add \<noteq> RETURNVALUE_NOERROR) = False" "(rmc \<noteq> RETURNVALUE_NOERROR \<and> mx = 0) = False"
      "(rem \<noteq> RETURNVALUE_NOERROR) = False" "blocked = False" using go by blast+
    show ?thesis unfolding run no if_False by (cases k) (use h' fin in simp_all)
  qed
qed (use ok in \<open>simp add: internalMoveItem_def\<close>)

text \<open>C10: moving items between containers neither creates nor destroys anything: whatever is moved
  where, stacked, split, refused, or moved in part, of every type there are as many pieces in the
  containers as before, and what every container keeps of its contents is still right.\<close>

theorem moving_keeps_what_there_is:
  assumes "container_reach its h" and "types_ok its" and "stacks_ok its h" and "small_containers h"
    and "is_container h source" and "is_container h toContainer" and "unused h (me_fresh env)"
    and "\<And>cyl n k c f. me_ask env cyl n k c f \<noteq> RETURNVALUE_NEEDEXCHANGE"
    and "\<not> hasBitSet FLAG_CHILDISOWNER flags" and "\<not> hasBitSet FLAG_NOLIMIT flags"
  shows "\<exists>ret h'. internalMoveItem env its source toContainer index i amount flags h = Some (ret, h') \<and>
    (\<forall>ty. amount_of h' ty = amount_of h ty) \<and> heap_tree h' \<and> weights_ok its h'"
  using internalMoveItem_ok [OF container_reach_ok [OF assms(1)] assms(2-10), of index i amount] unfolding heap_ok_def by blast

lemma moving_keeps_what_there_is_witness:
  "\<exists>h ret h'. container_reach demo_types h \<and> kids h 0 = [1] \<and>
     internalMoveItem \<lparr>me_ask = (\<lambda>_ _ _ _ _. RETURNVALUE_NOERROR), me_house = (\<lambda>_. None), me_event = RETURNVALUE_NOERROR,
       me_exchange_event = RETURNVALUE_NOERROR, me_tradeItem = None, me_fresh = 2, me_rnd = 0\<rparr> demo_types 0 0 255 1 3 0 h = Some (ret, h') \<and>
     amount_of h' 2 = amount_of h 2"
proof -
  let ?env = "\<lparr>me_ask = (\<lambda>_ _ _ _ _. RETURNVALUE_NOERROR), me_house = (\<lambda>_. None), me_event = RETURNVALUE_NOERROR,
       me_exchange_event = RETURNVALUE_NOERROR, me_tradeItem = None, me_fresh = 2, me_rnd = 0\<rparr>"
  obtain h where h: "container_reach demo_types h" "is_container h 0" "kids h 0 = [1]" "objects h = objects demo_full"
    by (rule demo_filled)
  have "unused h 2" "stacks_ok demo_types h" "small_containers h"
    by (simp_all add: h(4) demo_full_def empty_heap_def unused_def is_container_def stacks_ok_def type_of_def demo_types_def
        small_containers_def capacity_def kids_def)
  moreover  have "types_ok demo_types"
    by (auto simp: types_ok_def demo_types_def plain_stack_def isFluidContainer_def isSplash_def isContainer_def isDepot_def makeable_def split: if_split_asm)
  ultimately show ?thesis
    using moving_keeps_what_there_is [of demo_types h 0 0 ?env 0 255 1 3] h by (auto simp: hasBitSet_def)
qed
end
