(* ===== verification/Lifetimes.thy ===== *)
theory Lifetimes
  imports Prelude "HOL-Library.Monad_Syntax" "HOL-Library.Numeral_Type"
begin

text \<open>
  How long creatures live (\<open>src/src/creature.cpp\<close>, \<open>creature.h\<close>, \<open>monster.cpp\<close>, \<open>game.cpp\<close>). A creature is an object
  with a reference counter and is deleted when the counter reaches 0. The game counts a reference while the creature is
  on the map, while it is in one of the lists that are gone through every second, and until references released are
  cleaned up; a monster counts one for each of its targets and friends, and a creature one for each of its summons.
  A pointer to a creature that was deleted must not be followed: every operation that follows one is \<open>None\<close>.
  Counters are integers here, the number of holders is far below \<open>2\<^sup>3\<^sup>2\<close>.
\<close>

section \<open>State\<close>

type_synonym cid = u32 \<comment> \<open>creature\<close>
type_synonym slot = "10" \<comment> \<open>index below \<open>EVENT_CREATURECOUNT\<close>\<close>

record world =
  counter :: "cid \<Rightarrow> int" \<comment> \<open>\<open>referenceCounter\<close>\<close>
  freed :: "cid set" \<comment> \<open>deleted\<close>
  placed :: "cid set" \<comment> \<open>on the map and in the lists of the game\<close>
  removed :: "cid set" \<comment> \<open>\<open>isInternalRemoved\<close>\<close>
  dead :: "cid set" \<comment> \<open>\<open>health <= 0\<close>\<close>
  creatureCheck :: "cid \<Rightarrow> bool"
  inCheckCreaturesVector :: "cid \<Rightarrow> bool"
  checkCreatureLists :: "slot \<Rightarrow> cid list"
  toRelease :: "cid list"
  masters :: "cid \<Rightarrow> cid option"
  summons :: "cid \<Rightarrow> cid list"
  targetList :: "cid \<Rightarrow> cid list"
  friendList :: "cid \<Rightarrow> cid list"
  isIdle :: "cid \<Rightarrow> bool"
  isMasterInRange :: "cid \<Rightarrow> bool"
  others :: "cid \<Rightarrow> nat" \<comment> \<open>references counted elsewhere: spawns and the protocols of players\<close>

text \<open>What the operations ask about the creatures, the map and chance.\<close>

record env =
  isPlayer :: "cid \<Rightarrow> bool"
  isMonster :: "cid \<Rightarrow> bool"
  ignoredByMonsters :: "cid \<Rightarrow> bool"
  partners :: "cid \<Rightarrow> cid \<Rightarrow> bool"
  sees :: "cid \<Rightarrow> cid \<Rightarrow> bool" \<comment> \<open>\<open>canSee(creature->getPosition())\<close>\<close>
  isAggressive :: "cid \<Rightarrow> bool" \<comment> \<open>has an aggressive condition\<close>
  spectators :: "cid \<Rightarrow> cid list" \<comment> \<open>around the position of a creature, with itself\<close>
  chosen :: "cid \<Rightarrow> slot" \<comment> \<open>\<open>uniform_random\<close>\<close>

definition emptyWorld :: world where
  "emptyWorld = \<lparr>counter = (\<lambda>_. 0), freed = {}, placed = {}, removed = {}, dead = {}, creatureCheck = (\<lambda>_. False),
     inCheckCreaturesVector = (\<lambda>_. False), checkCreatureLists = (\<lambda>_. []), toRelease = [], masters = (\<lambda>_. None),
     summons = (\<lambda>_. []), targetList = (\<lambda>_. []), friendList = (\<lambda>_. []), isIdle = (\<lambda>_. False), isMasterInRange = (\<lambda>_. True),
     others = (\<lambda>_. 0)\<rparr>"

text \<open>Following a pointer.\<close>

definition deref :: "cid \<Rightarrow> world \<Rightarrow> world option" where
  "deref c w = (if c \<in> freed w then None else Some w)"

definition derefMaster :: "cid \<Rightarrow> world \<Rightarrow> world option" where
  "derefMaster m w = (case masters w m of None \<Rightarrow> Some w | Some p \<Rightarrow> deref p w)"

primrec run_all :: "('a \<Rightarrow> world \<Rightarrow> world option) \<Rightarrow> 'a list \<Rightarrow> world \<Rightarrow> world option" where
  "run_all f [] w = Some w"
| "run_all f (x # xs) w = do { w \<leftarrow> f x w; run_all f xs w }"

section \<open>Counting references\<close>

definition incrementReferenceCounter :: "cid \<Rightarrow> world \<Rightarrow> world option" where
  "incrementReferenceCounter c w = do { w \<leftarrow> deref c w; Some (w\<lparr>counter := (counter w)(c := counter w c + 1)\<rparr>) }"

text \<open>What the destructors of a monster and of a creature still hold references to, and what they leave behind.\<close>

definition held_by :: "cid \<Rightarrow> world \<Rightarrow> cid list" where
  "held_by c w = targetList w c @ friendList w c @ filter (\<lambda>s. masters w s \<noteq> None) (summons w c)"

definition destroy :: "cid \<Rightarrow> world \<Rightarrow> world" where
  "destroy c w = w\<lparr>freed := insert c (freed w), targetList := (targetList w)(c := []), friendList := (friendList w)(c := []),
     masters := (\<lambda>s. if s \<in> set (summons w c) then None else masters w s), summons := (summons w)(c := [])\<rparr>"

text \<open>
  Gives back a list of references, one after the other; an object whose counter reaches 0 is deleted, and its
  destructors give back what it holds before anything else happens.
\<close>

function unref :: "cid list \<Rightarrow> world \<Rightarrow> world option" where
  "unref [] w = Some w"
| "unref (c # cs) w =
     (if c \<in> freed w then None
      else
        let w1 = w\<lparr>counter := (counter w)(c := counter w c - 1)\<rparr> in
        if counter w1 c = 0 then unref (held_by c w1 @ cs) (destroy c w1) else unref cs w1)"
  by pat_completeness auto

termination
proof (relation "inv_image (less_than <*lex*> less_than) (\<lambda>(cs, w). (card (- freed w), length cs))", goal_cases)
  case (2 c cs w w1)
  then have "- freed (destroy c w1) = - freed w - {c}" "c \<in> - freed w" by (auto simp: destroy_def)
  then show ?case using card_Diff1_less [of "- freed w" c] by simp
qed auto

definition decrementReferenceCounter :: "cid \<Rightarrow> world \<Rightarrow> world option" where
  "decrementReferenceCounter c w = unref [c] w"

text \<open>A method of \<open>m\<close> gives back references and goes on with \<open>m\<close>.\<close>

definition give_back :: "cid \<Rightarrow> cid list \<Rightarrow> world \<Rightarrow> world option" where
  "give_back m cs w = do { w \<leftarrow> unref cs w; deref m w }"

section \<open>Friends and targets of a monster\<close>

definition addFriend :: "cid \<Rightarrow> cid \<Rightarrow> world \<Rightarrow> world option" where
  "addFriend m c w =
     (if c \<in> set (friendList w m) then Some w
      else incrementReferenceCounter c (w\<lparr>friendList := (friendList w)(m := friendList w m @ [c])\<rparr>))"

definition removeFriend :: "cid \<Rightarrow> cid \<Rightarrow> world \<Rightarrow> world option" where
  "removeFriend m c w =
     (if c \<in> set (friendList w m)
      then give_back m [c] (w\<lparr>friendList := (friendList w)(m := remove1 c (friendList w m))\<rparr>) else Some w)"

definition addTarget :: "cid \<Rightarrow> bool \<Rightarrow> cid \<Rightarrow> world \<Rightarrow> world option" where
  "addTarget m pushFront c w =
     (if c \<notin> set (targetList w m)
      then incrementReferenceCounter c
        (w\<lparr>targetList := (targetList w)(m := if pushFront then c # targetList w m else targetList w m @ [c])\<rparr>)
      else Some w)"

definition removeTarget :: "cid \<Rightarrow> cid \<Rightarrow> world \<Rightarrow> world option" where
  "removeTarget m c w =
     (if c \<in> set (targetList w m)
      then give_back m [c] (w\<lparr>targetList := (targetList w)(m := remove1 c (targetList w m))\<rparr>) else Some w)"

definition clearTargetList :: "cid \<Rightarrow> world \<Rightarrow> world option" where
  "clearTargetList m w = give_back m (targetList w m) (w\<lparr>targetList := (targetList w)(m := [])\<rparr>)"

definition clearFriendList :: "cid \<Rightarrow> world \<Rightarrow> world option" where
  "clearFriendList m w = give_back m (friendList w m) (w\<lparr>friendList := (friendList w)(m := [])\<rparr>)"

definition isSummon :: "cid \<Rightarrow> world \<Rightarrow> bool" where
  "isSummon m w = (masters w m \<noteq> None)"

definition summon_of_player :: "env \<Rightarrow> cid \<Rightarrow> world \<Rightarrow> bool" where
  "summon_of_player e c w = (case masters w c of None \<Rightarrow> False | Some p \<Rightarrow> isPlayer e p)"

definition isFriend :: "env \<Rightarrow> cid \<Rightarrow> cid \<Rightarrow> world \<Rightarrow> bool" where
  "isFriend e m c w =
     (if summon_of_player e m w then
        let p = the (masters w m);
            tmp = (if isPlayer e c then Some c else if summon_of_player e c w then masters w c else None) in
        (case tmp of None \<Rightarrow> False | Some t \<Rightarrow> t = p \<or> partners e p t)
      else isMonster e c \<and> \<not> isSummon c w)"

definition isOpponent :: "env \<Rightarrow> cid \<Rightarrow> cid \<Rightarrow> world \<Rightarrow> bool" where
  "isOpponent e m c w =
     (if summon_of_player e m w then masters w m \<noteq> Some c
      else isPlayer e c \<and> \<not> ignoredByMonsters e c \<or> summon_of_player e c w)"

text \<open>Following the pointers to the masters of both, as \<open>isFriend\<close> and \<open>isOpponent\<close> do.\<close>

definition look_at :: "cid \<Rightarrow> cid \<Rightarrow> world \<Rightarrow> world option" where
  "look_at m c w = do { w \<leftarrow> deref c w; w \<leftarrow> derefMaster m w; derefMaster c w }"

section \<open>Lists of creatures that think\<close>

definition addCreatureCheck :: "env \<Rightarrow> cid \<Rightarrow> world \<Rightarrow> world option" where
  "addCreatureCheck e c w =
     (let w = w\<lparr>creatureCheck := (creatureCheck w)(c := True)\<rparr> in
      if inCheckCreaturesVector w c then deref c w
      else incrementReferenceCounter c
        (w\<lparr>inCheckCreaturesVector := (inCheckCreaturesVector w)(c := True),
           checkCreatureLists := (checkCreatureLists w)(chosen e c := checkCreatureLists w (chosen e c) @ [c])\<rparr>))"

definition removeCreatureCheck :: "cid \<Rightarrow> world \<Rightarrow> world option" where
  "removeCreatureCheck c w = do {
     w \<leftarrow> deref c w;
     Some (if inCheckCreaturesVector w c then w\<lparr>creatureCheck := (creatureCheck w)(c := False)\<rparr> else w)
   }"

definition releaseCreature :: "cid \<Rightarrow> world \<Rightarrow> world option" where
  "releaseCreature c w = Some (w\<lparr>toRelease := toRelease w @ [c]\<rparr>)"

definition cleanup :: "world \<Rightarrow> world option" where
  "cleanup w = unref (toRelease w) (w\<lparr>toRelease := []\<rparr>)"

section \<open>A monster looks around\<close>

definition setIdle :: "env \<Rightarrow> cid \<Rightarrow> bool \<Rightarrow> world \<Rightarrow> world option" where
  "setIdle e m idle w =
     (if m \<in> removed w \<or> m \<in> dead w then Some w
      else
        let w = w\<lparr>isIdle := (isIdle w)(m := idle)\<rparr> in
        if \<not> idle then addCreatureCheck e m w
        else do { w \<leftarrow> clearTargetList m w; w \<leftarrow> clearFriendList m w; removeCreatureCheck m w })"

definition updateIdleStatus :: "env \<Rightarrow> cid \<Rightarrow> world \<Rightarrow> world option" where
  "updateIdleStatus e m w = setIdle e m (\<not> isSummon m w \<and> targetList w m = [] \<and> \<not> isAggressive e m) w"

definition onCreatureFound :: "env \<Rightarrow> cid \<Rightarrow> bool \<Rightarrow> cid \<Rightarrow> world \<Rightarrow> world option" where
  "onCreatureFound e m pushFront c w =
     (if \<not> sees e m c then deref c w
      else do {
        w \<leftarrow> look_at m c w;
        w \<leftarrow> (if isFriend e m c w then addFriend m c w else Some w);
        w \<leftarrow> (if isOpponent e m c w then addTarget m pushFront c w else Some w);
        updateIdleStatus e m w
      })"

text \<open>Forgets a friend or target that is dead or out of sight.\<close>

definition is_gone :: "env \<Rightarrow> cid \<Rightarrow> cid \<Rightarrow> world \<Rightarrow> bool" where
  "is_gone e m c w = (c \<in> dead w \<or> \<not> sees e m c)"

definition forget_friend :: "env \<Rightarrow> cid \<Rightarrow> cid \<Rightarrow> world \<Rightarrow> world option" where
  "forget_friend e m c w = do { w \<leftarrow> deref c w; if is_gone e m c w then removeFriend m c w else Some w }"

definition forget_target :: "env \<Rightarrow> cid \<Rightarrow> cid \<Rightarrow> world \<Rightarrow> world option" where
  "forget_target e m c w = do { w \<leftarrow> deref c w; if is_gone e m c w then removeTarget m c w else Some w }"

text \<open>\<open>Map::getSpectators\<close> finds only what is on the map.\<close>

definition around :: "env \<Rightarrow> cid \<Rightarrow> world \<Rightarrow> cid list" where
  "around e c w = filter (\<lambda>s. s \<in> placed w) (spectators e c)"

definition updateTargetList :: "env \<Rightarrow> cid \<Rightarrow> world \<Rightarrow> world option" where
  "updateTargetList e m w = do {
     w \<leftarrow> run_all (forget_friend e m) (friendList w m) w;
     w \<leftarrow> run_all (forget_target e m) (targetList w m) w;
     run_all (onCreatureFound e m False) (filter (\<lambda>c. c \<noteq> m) (around e m w)) w
   }"

definition onCreatureEnter :: "env \<Rightarrow> cid \<Rightarrow> cid \<Rightarrow> world \<Rightarrow> world option" where
  "onCreatureEnter e m c w =
     onCreatureFound e m True c (if masters w m = Some c then w\<lparr>isMasterInRange := (isMasterInRange w)(m := True)\<rparr> else w)"

text \<open>Walking back to the place of spawning is left out.\<close>

definition onCreatureLeave :: "env \<Rightarrow> cid \<Rightarrow> cid \<Rightarrow> world \<Rightarrow> world option" where
  "onCreatureLeave e m c w = do {
     let w = (if masters w m = Some c then w\<lparr>isMasterInRange := (isMasterInRange w)(m := False)\<rparr> else w);
     w \<leftarrow> look_at m c w;
     w \<leftarrow> (if isFriend e m c w then removeFriend m c w else Some w);
     if isOpponent e m c w then do { w \<leftarrow> removeTarget m c w; updateIdleStatus e m w } else Some w
   }"

definition look_for_master :: "env \<Rightarrow> cid \<Rightarrow> world \<Rightarrow> world option" where
  "look_for_master e m w = (case masters w m of None \<Rightarrow> Some w
     | Some p \<Rightarrow> do { w \<leftarrow> deref p w; Some (w\<lparr>isMasterInRange := (isMasterInRange w)(m := sees e m p)\<rparr>) })"

definition look_around :: "env \<Rightarrow> cid \<Rightarrow> world \<Rightarrow> world option" where
  "look_around e m w = do { w \<leftarrow> look_for_master e m w; w \<leftarrow> updateTargetList e m w; updateIdleStatus e m w }"

definition onCreatureAppear :: "env \<Rightarrow> cid \<Rightarrow> cid \<Rightarrow> world \<Rightarrow> world option" where
  "onCreatureAppear e c m w =
     (if \<not> isMonster e m then Some w else if c = m then look_around e m w else onCreatureEnter e m c w)"

text \<open>
  A creature moved; \<open>saw\<close> and \<open>now\<close> tell whether the monster sees the old and the new position. Which of its targets
  the monster attacks and follows is not modelled.
\<close>

definition onCreatureMove :: "env \<Rightarrow> bool \<Rightarrow> bool \<Rightarrow> cid \<Rightarrow> cid \<Rightarrow> world \<Rightarrow> world option" where
  "onCreatureMove e saw now c m w =
     (if \<not> isMonster e m then Some w
      else if c = m then look_around e m w
      else do {
        w \<leftarrow> (if now \<and> \<not> saw then onCreatureEnter e m c w else if \<not> now \<and> saw then onCreatureLeave e m c w else Some w);
        let w = (if now \<and> masters w m = Some c then w\<lparr>isMasterInRange := (isMasterInRange w)(m := True)\<rparr> else w);
        updateIdleStatus e m w
      })"

definition onFollowCreatureComplete :: "bool \<Rightarrow> cid \<Rightarrow> cid \<Rightarrow> world \<Rightarrow> world option" where
  "onFollowCreatureComplete hasFollowPath m c w =
     (if c \<in> set (targetList w m) then
        let rest = remove1 c (targetList w m) in
        if hasFollowPath then Some (w\<lparr>targetList := (targetList w)(m := c # rest)\<rparr>)
        else if \<not> isSummon m w then Some (w\<lparr>targetList := (targetList w)(m := rest @ [c])\<rparr>)
        else give_back m [c] (w\<lparr>targetList := (targetList w)(m := rest)\<rparr>)
      else Some w)"

section \<open>Masters and summons\<close>

definition setMaster :: "cid \<Rightarrow> cid option \<Rightarrow> world \<Rightarrow> world option" where
  "setMaster c newMaster w =
     (if newMaster = None \<and> masters w c = None then Some w
      else do {
        w1 \<leftarrow> (case newMaster of None \<Rightarrow> Some w
          | Some p \<Rightarrow> do {
              w \<leftarrow> incrementReferenceCounter c w;
              w \<leftarrow> deref p w;
              Some (w\<lparr>summons := (summons w)(p := summons w p @ [c])\<rparr>) });
        let w2 = w1\<lparr>masters := (masters w1)(c := newMaster)\<rparr>;
        (case masters w c of None \<Rightarrow> Some w2
         | Some p \<Rightarrow> do {
             w3 \<leftarrow> deref p w2;
             if c \<in> set (summons w3 p)
             then unref [c] (w3\<lparr>summons := (summons w3)(p := remove1 c (summons w3 p))\<rparr>) else Some w3 })
      })"

section \<open>Arriving and leaving\<close>

definition internalPlaceCreature :: "bool \<Rightarrow> cid \<Rightarrow> world \<Rightarrow> world option" where
  "internalPlaceCreature room c w =
     (if c \<in> placed w \<or> \<not> room then deref c w
      else do { w \<leftarrow> incrementReferenceCounter c w; Some (w\<lparr>placed := insert c (placed w)\<rparr>) })"

text \<open>The reference that \<open>Tile::postAddNotification\<close> holds while scripts run is given back at the next cleanup.\<close>

definition postAddNotification :: "cid \<Rightarrow> world \<Rightarrow> world option" where
  "postAddNotification c w = do { w \<leftarrow> incrementReferenceCounter c w; releaseCreature c w }"

definition placeCreature :: "env \<Rightarrow> bool \<Rightarrow> cid \<Rightarrow> world \<Rightarrow> world option" where
  "placeCreature e room c w =
     (if c \<in> placed w \<or> \<not> room then deref c w
      else do {
        w \<leftarrow> internalPlaceCreature room c w;
        w \<leftarrow> run_all (onCreatureAppear e c) (around e c w) w;
        w \<leftarrow> postAddNotification c w;
        addCreatureCheck e c w
      })"

definition onRemoveCreature :: "env \<Rightarrow> cid \<Rightarrow> cid \<Rightarrow> world \<Rightarrow> world option" where
  "onRemoveCreature e c s w = do {
     w \<leftarrow> (case masters w c of
         Some p \<Rightarrow> if c = s then do { w \<leftarrow> deref p w; if p \<notin> removed w then setMaster c None w else Some w } else Some w
       | None \<Rightarrow> Some w);
     if \<not> isMonster e s then Some w
     else if c = s then setIdle e s True w
     else onCreatureLeave e s c w
   }"

definition take_off :: "env \<Rightarrow> cid \<Rightarrow> world \<Rightarrow> world option" where
  "take_off e c w = do {
     w \<leftarrow> run_all (onRemoveCreature e c) (around e c w) w;
     let w = w\<lparr>placed := placed w - {c}, removed := insert c (removed w)\<rparr>;
     w \<leftarrow> releaseCreature c w;
     removeCreatureCheck c w
   }"

text \<open>Removes the creatures of a list, each with its summons and theirs before the next.\<close>

partial_function (option) removeCreatures :: "env \<Rightarrow> cid list \<Rightarrow> world \<Rightarrow> world option" where
  "removeCreatures e cs w = (case cs of
       [] \<Rightarrow> Some w
     | c # rest \<Rightarrow> do {
         w \<leftarrow> deref c w;
         if c \<in> removed w then removeCreatures e rest w
         else do { w \<leftarrow> take_off e c w; removeCreatures e (summons w c @ rest) w } })"

definition removeCreature :: "env \<Rightarrow> cid \<Rightarrow> world \<Rightarrow> world option" where
  "removeCreature e c w = removeCreatures e [c] w"

section \<open>Death\<close>

definition monster_death :: "cid \<Rightarrow> world \<Rightarrow> world option" where
  "monster_death m w = do {
     w \<leftarrow> run_all (\<lambda>s w. do { w \<leftarrow> deref s w; Some (w\<lparr>dead := insert s (dead w)\<rparr>) }) (summons w m) w;
     let w = w\<lparr>summons := (summons w)(m := [])\<rparr>;
     w \<leftarrow> clearTargetList m w;
     clearFriendList m w
   }"

definition onDeath :: "env \<Rightarrow> bool \<Rightarrow> cid \<Rightarrow> world \<Rightarrow> world option" where
  "onDeath e droppedCorpse c w = do {
     w \<leftarrow> (if isMonster e c then monster_death c w else Some w);
     w \<leftarrow> (if masters w c \<noteq> None
        then do { w \<leftarrow> setMaster c None w; w \<leftarrow> deref c w; if isMonster e c then give_back c [c] w else Some w }
        else Some w);
     if droppedCorpse then removeCreature e c w else Some w
   }"

definition executeDeath :: "env \<Rightarrow> bool \<Rightarrow> cid \<Rightarrow> world \<Rightarrow> world option" where
  "executeDeath e droppedCorpse c w = (if c \<in> placed w \<and> c \<notin> removed w then onDeath e droppedCorpse c w else Some w)"

section \<open>The round of checks\<close>

text \<open>What a creature does when it thinks is the argument; creatures it adds to the list are reached in the same round.\<close>

partial_function (option) check_from ::
    "(cid \<Rightarrow> world \<Rightarrow> world option) \<Rightarrow> slot \<Rightarrow> nat \<Rightarrow> world \<Rightarrow> world option" where
  "check_from think i k w =
     (if k < length (checkCreatureLists w i) then
        let c = checkCreatureLists w i ! k in do {
          w \<leftarrow> deref c w;
          if creatureCheck w c
          then do { w \<leftarrow> (if c \<notin> dead w then think c w else Some w); check_from think i (k + 1) w }
          else do {
            w \<leftarrow> releaseCreature c (w\<lparr>inCheckCreaturesVector := (inCheckCreaturesVector w)(c := False),
              checkCreatureLists := (checkCreatureLists w)(i := take k (checkCreatureLists w i) @ drop (k + 1) (checkCreatureLists w i))\<rparr>);
            check_from think i k w
          }
        }
      else Some w)"

definition checkCreatures :: "(cid \<Rightarrow> world \<Rightarrow> world option) \<Rightarrow> slot \<Rightarrow> world \<Rightarrow> world option" where
  "checkCreatures think i w = do { w \<leftarrow> check_from think i 0 w; cleanup w }"

declare removeCreatures.simps [code] check_from.simps [code]

section \<open>Sound worlds\<close>

definition tally :: "('k :: finite \<Rightarrow> 'a list) \<Rightarrow> 'a \<Rightarrow> nat" where
  "tally h c = (\<Sum>k\<in>UNIV. count_list (h k) c)"

definition refs :: "world \<Rightarrow> cid \<Rightarrow> nat" where
  "refs w c = (if c \<in> placed w then 1 else 0) + tally (checkCreatureLists w) c + count_list (toRelease w) c +
     tally (targetList w) c + tally (friendList w) c + tally (summons w) c + others w c"

text \<open>
  What is held by nobody may be deleted, nothing deleted is held, masters and summons know each other, and a creature
  is in the lists of creatures that think exactly when its flag says so.
\<close>

definition wf :: "world \<Rightarrow> bool" where
  "wf w \<longleftrightarrow>
     (\<forall>c\<in>freed w. refs w c = 0 \<and> targetList w c = [] \<and> friendList w c = [] \<and> summons w c = []) \<and>
     (\<forall>c m. masters w c = Some m \<longleftrightarrow> c \<in> set (summons w m)) \<and>
     (\<forall>c m. masters w c = Some m \<longrightarrow> c \<in> placed w \<union> removed w) \<and>
     (\<forall>m. distinct (targetList w m) \<and> distinct (friendList w m) \<and> distinct (summons w m)) \<and>
     (\<forall>c. tally (checkCreatureLists w) c = (if inCheckCreaturesVector w c then 1 else 0))"

text \<open>The counters count the references and those in \<open>cs\<close> that are still to be given back.\<close>

definition counted :: "cid list \<Rightarrow> world \<Rightarrow> bool" where
  "counted cs w \<longleftrightarrow> (\<forall>c. if c \<in> freed w then c \<notin> set cs else counter w c = int (refs w c) + int (count_list cs c))"

definition sound :: "world \<Rightarrow> bool" where
  "sound w \<longleftrightarrow> wf w \<and> counted [] w"

lemma tally_upd: "tally (h(k := xs)) c + count_list (h k) c = tally h c + count_list xs c"
proof -
  have "tally (h(k := xs)) c = count_list xs c + (\<Sum>j\<in>UNIV - {k}. count_list (h j) c)"
    unfolding tally_def by (subst sum.remove [of _ k]) (auto intro!: sum.cong)
  moreover have "tally h c = count_list (h k) c + (\<Sum>j\<in>UNIV - {k}. count_list (h j) c)"
    unfolding tally_def by (subst sum.remove [of _ k]) auto
  ultimately show ?thesis by simp
qed

lemma tally_eq_0: "tally h c = 0 \<longleftrightarrow> (\<forall>k. c \<notin> set (h k))"
  by (simp add: tally_def count_list_0_iff)

lemma count_list_remove1: "c \<in> set xs \<Longrightarrow> count_list (remove1 c xs) x + (if x = c then 1 else 0) = count_list xs x"
  by (induction xs) auto

lemma tally_drop: "tally (h(k := [])) c + count_list (h k) c = tally h c"
  using tally_upd [of h k "[]" c] by simp

lemma tally_remove1: "c \<in> set (h k) \<Longrightarrow> tally (h(k := remove1 c (h k))) x + (if x = c then 1 else 0) = tally h x"
  using tally_upd [of h k "remove1 c (h k)" x] count_list_remove1 [of c "h k" x] by simp

lemma tally_append1: "tally (h(k := h k @ [c])) x = tally h x + (if x = c then 1 else 0)"
  using tally_upd [of h k "h k @ [c]" x] by (simp split: if_splits)

lemma tally_Cons1: "tally (h(k := c # h k)) x = tally h x + (if x = c then 1 else 0)"
  using tally_upd [of h k "c # h k" x] by (simp split: if_splits)

lemma placed_alive: "wf w \<Longrightarrow> c \<in> placed w \<Longrightarrow> c \<notin> freed w"
  by (auto simp: wf_def refs_def)

lemma held_alive:
  "wf w \<Longrightarrow> c \<in> set (targetList w m) \<Longrightarrow> c \<notin> freed w"
  "wf w \<Longrightarrow> c \<in> set (friendList w m) \<Longrightarrow> c \<notin> freed w"
  "wf w \<Longrightarrow> c \<in> set (summons w m) \<Longrightarrow> c \<notin> freed w"
  "wf w \<Longrightarrow> c \<in> set (checkCreatureLists w i) \<Longrightarrow> c \<notin> freed w"
  by (auto simp: wf_def refs_def tally_eq_0)

lemma master_alive: "wf w \<Longrightarrow> masters w c = Some m \<Longrightarrow> m \<notin> freed w"
  unfolding wf_def by (metis list.set(1) empty_iff)

text \<open>What giving back references leaves alone.\<close>

definition same :: "world \<Rightarrow> world \<Rightarrow> bool" where
  "same w w' \<longleftrightarrow> placed w' = placed w \<and> removed w' = removed w \<and> dead w' = dead w \<and> creatureCheck w' = creatureCheck w \<and>
     inCheckCreaturesVector w' = inCheckCreaturesVector w \<and> checkCreatureLists w' = checkCreatureLists w \<and>
     toRelease w' = toRelease w \<and> others w' = others w \<and> freed w \<subseteq> freed w' \<and>
     (\<forall>m. m \<notin> freed w' \<longrightarrow> targetList w' m = targetList w m \<and> friendList w' m = friendList w m \<and> summons w' m = summons w m)"

lemma same_refl [simp]: "same w w"
  by (simp add: same_def)

lemma same_trans: "same u v \<Longrightarrow> same v w \<Longrightarrow> same u w"
  unfolding same_def by (elim conjE, intro conjI) (blast | simp)+

lemma refs_destroy: "refs (destroy c w) x + count_list (targetList w c @ friendList w c @ summons w c) x = refs w x"
  using tally_drop [of "targetList w" c x] tally_drop [of "friendList w" c x] tally_drop [of "summons w" c x]
  by (simp add: refs_def destroy_def)

lemma wf_destroy:
  assumes w: "wf w" and r: "refs w c = 0"
  shows "wf (destroy c w)"
proof -
  have le: "refs (destroy c w) x \<le> refs w x" for x using refs_destroy [of c w x] by linarith
  have f: "refs (destroy c w) x = 0 \<and> targetList (destroy c w) x = [] \<and> friendList (destroy c w) x = [] \<and> summons (destroy c w) x = []"
    if "x \<in> freed (destroy c w)" for x
  proof -
    have "x = c \<or> x \<in> freed w" using that by (simp add: destroy_def)
    then have "refs w x = 0" "x = c \<or> targetList w x = [] \<and> friendList w x = [] \<and> summons w x = []"
      using w r by (auto simp: wf_def)
    then show ?thesis using le [of x] by (auto simp: destroy_def)
  qed
  have m: "masters (destroy c w) s = Some m \<longleftrightarrow> s \<in> set (summons (destroy c w) m)" for s m
  proof -
    have "masters w s = Some m \<longleftrightarrow> s \<in> set (summons w m)" "masters w s = Some c \<longleftrightarrow> s \<in> set (summons w c)"
      using w by (simp_all add: wf_def)
    then show ?thesis by (auto simp: destroy_def)
  qed
  have p: "masters (destroy c w) s = Some m \<longrightarrow> s \<in> placed (destroy c w) \<union> removed (destroy c w)" for s m
  proof
    assume "masters (destroy c w) s = Some m"
    then have "masters w s = Some m" by (simp add: destroy_def split: if_splits)
    moreover have "\<forall>s m. masters w s = Some m \<longrightarrow> s \<in> placed w \<union> removed w" using w unfolding wf_def by blast
    ultimately have "s \<in> placed w \<union> removed w" by blast
    then show "s \<in> placed (destroy c w) \<union> removed (destroy c w)" by (simp add: destroy_def)
  qed
  have d: "distinct (targetList (destroy c w) m) \<and> distinct (friendList (destroy c w) m) \<and> distinct (summons (destroy c w) m)" for m
    using w by (simp add: wf_def destroy_def)
  have k: "tally (checkCreatureLists (destroy c w)) x = (if inCheckCreaturesVector (destroy c w) x then 1 else 0)" for x
    using w by (simp add: wf_def destroy_def)
  show ?thesis unfolding wf_def using f m p d k by blast
qed

lemma same_destroy: "same w (destroy c w)"
  by (auto simp: same_def destroy_def)

lemma refs_counter [simp]: "refs (w\<lparr>counter := f\<rparr>) = refs w" "wf (w\<lparr>counter := f\<rparr>) = wf w"
  by (simp_all add: refs_def fun_eq_iff wf_def)

lemma unref_ok:
  assumes "wf w" and "counted cs w"
  shows "\<exists>w'. unref cs w = Some w' \<and> sound w' \<and> same w w'"
  using assms
proof (induction cs w rule: unref.induct)
  case (1 w)
  then show ?case by (simp add: sound_def)
next
  case (2 c cs w)
  let ?w1 = "w\<lparr>counter := (counter w)(c := counter w c - 1)\<rparr>"
  have c: "c \<notin> freed w" using "2.prems"(2) by (auto simp: counted_def split: if_splits)
  then have n: "counter w c = int (refs w c) + int (count_list cs c) + 1" using "2.prems"(2) by (simp add: counted_def)
  have w1: "wf ?w1" using "2.prems"(1) by simp
  show ?case
  proof (cases "counter ?w1 c = 0")
    case True
    then have "refs w c = 0 \<and> count_list cs c = 0" using n by simp
    then have z: "refs w c = 0" "c \<notin> set cs" by (simp_all add: count_list_0_iff)
    have h: "held_by c ?w1 = targetList w c @ friendList w c @ summons w c"
      using "2.prems"(1) by (auto simp: held_by_def wf_def filter_id_conv)
    have r: "refs (destroy c ?w1) x + count_list (held_by c ?w1) x = refs w x" for x
      using refs_destroy [of c ?w1 x] unfolding h by simp
    have "counted (held_by c ?w1 @ cs) (destroy c ?w1)"
      unfolding counted_def
    proof
      fix x
      show "if x \<in> freed (destroy c ?w1) then x \<notin> set (held_by c ?w1 @ cs)
        else counter (destroy c ?w1) x = int (refs (destroy c ?w1) x) + int (count_list (held_by c ?w1 @ cs) x)"
      proof (cases "x = c \<or> x \<in> freed w")
        case True
        moreover have "x \<in> freed w \<Longrightarrow> x \<notin> set cs" using "2.prems"(2) unfolding counted_def by (metis list.set_intros(2))
        moreover have "x \<in> freed w \<Longrightarrow> refs w x = 0" using "2.prems"(1) by (simp add: wf_def)
        ultimately have "refs w x = 0" "x \<notin> set cs" using z by blast+
        then have "count_list (held_by c ?w1) x = 0" using r [of x] by simp
        then show ?thesis using True \<open>x \<notin> set cs\<close> by (auto simp: destroy_def count_list_0_iff)
      next
        case False
        then have "counter w x = int (refs w x) + int (count_list cs x)" using "2.prems"(2) by (auto simp: counted_def)
        then show ?thesis using False r [of x] by (simp add: destroy_def)
      qed
    qed
    moreover have "wf (destroy c ?w1)" using wf_destroy [OF w1] z by simp
    ultimately obtain w' where w': "unref (held_by c ?w1 @ cs) (destroy c ?w1) = Some w'" "sound w'" "same (destroy c ?w1) w'"
      using "2.IH"(1) [OF c refl True] by blast
    have "same w ?w1" by (simp add: same_def)
    then have "same w w'" using same_trans same_destroy w'(3) by blast
    then show ?thesis using c True w' by auto
  next
    case False
    have "counted cs ?w1" using "2.prems"(2) c by (auto simp: counted_def split: if_splits)
    then obtain w' where "unref cs ?w1 = Some w'" "sound w'" "same ?w1 w'" using "2.IH"(2) [OF c refl False w1] by blast
    moreover have "same w ?w1" by (simp add: same_def)
    ultimately show ?thesis using c False same_trans by auto
  qed
qed

section \<open>Operations keep worlds sound\<close>

text \<open>
  An operation on a sound world returns a sound world in which the same creatures are on the map, and in which creatures
  that were removed keep their summons.
\<close>

definition keeps :: "world \<Rightarrow> world \<Rightarrow> bool" where
  "keeps w w' \<longleftrightarrow> placed w' = placed w \<and> removed w' = removed w \<and> set (toRelease w) \<subseteq> set (toRelease w') \<and> freed w \<subseteq> freed w' \<and>
     (\<forall>p\<in>removed w. p \<notin> freed w' \<longrightarrow> set (summons w p) \<subseteq> set (summons w' p))"

lemma keeps_refl [simp]: "keeps w w"
  by (simp add: keeps_def)

lemma keeps_eq [simp]:
  "placed v = placed w \<Longrightarrow> removed v = removed w \<Longrightarrow> toRelease v = toRelease w \<Longrightarrow> freed v = freed w \<Longrightarrow>
   summons v = summons w \<Longrightarrow> keeps w v"
  by (simp add: keeps_def)

lemma keeps_trans: "keeps u v \<Longrightarrow> keeps v w \<Longrightarrow> keeps u w"
  unfolding keeps_def by (elim conjE, intro conjI) (simp_all, blast+)

lemma same_keeps: "same w w' \<Longrightarrow> keeps w w'"
  by (simp add: same_def keeps_def)

definition goes :: "world \<Rightarrow> world option \<Rightarrow> (world \<Rightarrow> bool) \<Rightarrow> bool" where
  "goes w r Q \<longleftrightarrow> (\<exists>w'. r = Some w' \<and> sound w' \<and> keeps w w' \<and> Q w')"

lemma goes_Some: "sound w' \<Longrightarrow> keeps w w' \<Longrightarrow> Q w' \<Longrightarrow> goes w (Some w') Q"
  by (simp add: goes_def)

lemma goes_bind:
  assumes "goes w r Q"
    and "\<And>w'. sound w' \<Longrightarrow> placed w' = placed w \<Longrightarrow> removed w' = removed w \<Longrightarrow> Q w' \<Longrightarrow> goes w' (g w') R"
  shows "goes w (r \<bind> g) R"
proof -
  obtain w' where w': "r = Some w'" "sound w'" "keeps w w'" "Q w'"
    using assms(1) by (auto simp: goes_def)
  then have "goes w' (g w') R" by (intro assms(2)) (simp_all add: keeps_def)
  then show ?thesis using w' keeps_trans by (auto simp: goes_def)
qed

lemma goes_weaken: "goes w r Q \<Longrightarrow> (\<And>w'. Q w' \<Longrightarrow> R w') \<Longrightarrow> goes w r R"
  by (auto simp: goes_def)

lemma goes_from: "keeps w v \<Longrightarrow> goes v r Q \<Longrightarrow> goes w r Q"
  using keeps_trans by (auto simp: goes_def)

lemma goes_deref: "sound w \<Longrightarrow> c \<notin> freed w \<Longrightarrow> goes w (deref c w) (\<lambda>w'. w' = w)"
  by (simp add: goes_def deref_def)

lemma sound_placed: "sound w \<Longrightarrow> c \<in> placed w \<Longrightarrow> c \<notin> freed w"
  by (simp add: sound_def placed_alive)

text \<open>One more reference, and references to be given back.\<close>

lemma sound_more:
  assumes "sound w" and "c \<notin> freed w" and "freed w' = freed w" and "counter w' = (counter w)(c := counter w c + 1)"
    and "\<And>x. refs w' x = refs w x + (if x = c then 1 else 0)" and "wf w'"
  shows "sound w'"
  using assms by (auto simp: sound_def counted_def)

lemma counted_less:
  assumes "sound w" and "freed w' = freed w" and "counter w' = counter w"
    and "\<And>x. refs w' x + count_list cs x = refs w x"
  shows "counted cs w'"
  unfolding counted_def
proof
  fix c
  have r: "refs w' c + count_list cs c = refs w c" by (rule assms(4))
  show "if c \<in> freed w' then c \<notin> set cs else counter w' c = int (refs w' c) + int (count_list cs c)"
  proof (cases "c \<in> freed w")
    case True
    then have "refs w c = 0" using assms(1) by (simp add: sound_def wf_def)
    then show ?thesis using r True assms(2) by (auto simp: count_list_0_iff)
  next
    case False
    then have "counter w c = int (refs w c)" using assms(1) by (simp add: sound_def counted_def)
    then show ?thesis using r False assms(2,3) by simp
  qed
qed

lemma give_back_goes:
  assumes "wf w" and "counted cs w" and "m \<in> placed w"
  shows "goes w (give_back m cs w) (same w)"
proof -
  obtain w' where w': "unref cs w = Some w'" "sound w'" "same w w'" using unref_ok [OF assms(1,2)] by blast
  then have "m \<notin> freed w'" using assms(3) sound_placed [of w' m] by (simp add: same_def)
  then show ?thesis using w' same_keeps by (simp add: give_back_def deref_def goes_def)
qed

lemma wf_change:
  assumes "wf w" and "freed w' = freed w" and "masters w' = masters w" and "summons w' = summons w"
    and "placed w \<subseteq> placed w'" and "removed w \<subseteq> removed w'"
    and "\<And>m. distinct (targetList w' m) \<and> distinct (friendList w' m)"
    and "\<And>m. m \<in> freed w \<Longrightarrow> targetList w' m = [] \<and> friendList w' m = []"
    and "\<And>x. x \<in> freed w \<Longrightarrow> refs w' x = 0"
    and "\<And>x. tally (checkCreatureLists w') x = (if inCheckCreaturesVector w' x then 1 else 0)"
  shows "wf w'"
  using assms unfolding wf_def by (simp add: subset_eq) blast

lemma wf_refs: "wf w \<Longrightarrow> x \<in> freed w \<Longrightarrow> refs w x = 0"
  by (simp add: wf_def)

lemma wf_lists: "wf w \<Longrightarrow> distinct (targetList w m) \<and> distinct (friendList w m) \<and> distinct (summons w m)"
  by (simp add: wf_def)

lemma wf_freed: "wf w \<Longrightarrow> m \<in> freed w \<Longrightarrow> targetList w m = [] \<and> friendList w m = [] \<and> summons w m = []"
  by (simp add: wf_def)

lemma wf_checks: "wf w \<Longrightarrow> tally (checkCreatureLists w) x = (if inCheckCreaturesVector w x then 1 else 0)"
  by (simp add: wf_def)

lemma addFriend_goes:
  assumes w: "sound w" and m: "m \<in> placed w" and c: "c \<notin> freed w"
  shows "goes w (addFriend m c w) (\<lambda>w'. freed w' = freed w)"
proof (cases "c \<in> set (friendList w m)")
  case True
  then show ?thesis using w by (simp add: addFriend_def goes_def)
next
  case False
  let ?v = "w\<lparr>friendList := (friendList w)(m := friendList w m @ [c])\<rparr>"
  let ?w = "?v\<lparr>counter := (counter ?v)(c := counter ?v c + 1)\<rparr>"
  have wf: "wf w" using w by (simp add: sound_def)
  have r: "refs ?w x = refs w x + (if x = c then 1 else 0)" for x
    using tally_append1 [of "friendList w" m c x] by (simp add: refs_def)
  have "wf ?w"
    by (rule wf_change [OF wf])
      (use r False c m wf_refs [OF wf] wf_lists [OF wf] wf_freed [OF wf] wf_checks [OF wf] placed_alive [OF wf m] in auto)
  then have "sound ?w" by (intro sound_more [OF w c]) (use r in simp_all)
  then show ?thesis using False c by (simp add: addFriend_def incrementReferenceCounter_def deref_def goes_def)
qed

lemma addTarget_goes:
  assumes w: "sound w" and m: "m \<in> placed w" and c: "c \<notin> freed w"
  shows "goes w (addTarget m front c w) (\<lambda>w'. freed w' = freed w)"
proof (cases "c \<in> set (targetList w m)")
  case True
  then show ?thesis using w by (simp add: addTarget_def goes_def)
next
  case False
  let ?v = "w\<lparr>targetList := (targetList w)(m := if front then c # targetList w m else targetList w m @ [c])\<rparr>"
  let ?w = "?v\<lparr>counter := (counter ?v)(c := counter ?v c + 1)\<rparr>"
  have wf: "wf w" using w by (simp add: sound_def)
  have r: "refs ?w x = refs w x + (if x = c then 1 else 0)" for x
    using tally_append1 [of "targetList w" m c x] tally_Cons1 [of "targetList w" m c x]
    by (cases front; cases "x = c") (simp_all add: refs_def)
  have "wf ?w"
    by (rule wf_change [OF wf])
      (use r False c m wf_refs [OF wf] wf_lists [OF wf] wf_freed [OF wf] wf_checks [OF wf] placed_alive [OF wf m] in auto)
  then have "sound ?w" by (intro sound_more [OF w c]) (use r in simp_all)
  then show ?thesis using False c by (simp add: addTarget_def incrementReferenceCounter_def deref_def goes_def)
qed

text \<open>Taking references out of a list of friends or of targets.\<close>

lemma fewer_friends_goes:
  assumes w: "sound w" and m: "m \<in> placed w" and d: "distinct xs"
    and split: "\<And>x. count_list xs x + count_list cs x = count_list (friendList w m) x"
  shows "goes w (give_back m cs (w\<lparr>friendList := (friendList w)(m := xs)\<rparr>)) (same (w\<lparr>friendList := (friendList w)(m := xs)\<rparr>))"
proof -
  let ?w = "w\<lparr>friendList := (friendList w)(m := xs)\<rparr>"
  have wf: "wf w" using w by (simp add: sound_def)
  have r: "refs ?w x + count_list cs x = refs w x" for x
    using tally_upd [of "friendList w" m xs x] split [of x] by (simp add: refs_def)
  have "refs ?w x = 0" if "x \<in> freed w" for x using r [of x] wf_refs [OF wf that] by simp
  then have "wf ?w"
    by (intro wf_change [OF wf]) (use d m wf_lists [OF wf] wf_freed [OF wf] wf_checks [OF wf] placed_alive [OF wf m] in auto)
  moreover have "counted cs ?w" by (rule counted_less [OF w]) (use r in simp_all)
  ultimately have "goes ?w (give_back m cs ?w) (same ?w)" by (rule give_back_goes) (simp add: m)
  then show ?thesis by (rule goes_from [rotated]) (simp add: keeps_def)
qed

lemma fewer_targets_goes:
  assumes w: "sound w" and m: "m \<in> placed w" and d: "distinct xs"
    and split: "\<And>x. count_list xs x + count_list cs x = count_list (targetList w m) x"
  shows "goes w (give_back m cs (w\<lparr>targetList := (targetList w)(m := xs)\<rparr>)) (same (w\<lparr>targetList := (targetList w)(m := xs)\<rparr>))"
proof -
  let ?w = "w\<lparr>targetList := (targetList w)(m := xs)\<rparr>"
  have wf: "wf w" using w by (simp add: sound_def)
  have r: "refs ?w x + count_list cs x = refs w x" for x
    using tally_upd [of "targetList w" m xs x] split [of x] by (simp add: refs_def)
  have "refs ?w x = 0" if "x \<in> freed w" for x using r [of x] wf_refs [OF wf that] by simp
  then have "wf ?w"
    by (intro wf_change [OF wf]) (use d m wf_lists [OF wf] wf_freed [OF wf] wf_checks [OF wf] placed_alive [OF wf m] in auto)
  moreover have "counted cs ?w" by (rule counted_less [OF w]) (use r in simp_all)
  ultimately have "goes ?w (give_back m cs ?w) (same ?w)" by (rule give_back_goes) (simp add: m)
  then show ?thesis by (rule goes_from [rotated]) (simp add: keeps_def)
qed

lemma count_remove1: "c \<in> set xs \<Longrightarrow> count_list (remove1 c xs) x + count_list [c] x = count_list xs x"
  using count_list_remove1 [of c xs x] by (auto split: if_splits)

lemma removeFriend_goes:
  assumes "sound w" and "m \<in> placed w"
  shows "goes w (removeFriend m c w) (\<lambda>w'. set (friendList w m) - {c} \<subseteq> set (friendList w' m) \<and> targetList w' m = targetList w m)"
proof (cases "c \<in> set (friendList w m)")
  case True
  have d: "distinct (friendList w m)" using assms(1) wf_lists by (simp add: sound_def)
  have "goes w (removeFriend m c w) (same (w\<lparr>friendList := (friendList w)(m := remove1 c (friendList w m))\<rparr>))"
    using True fewer_friends_goes [OF assms distinct_remove1 [OF d] count_remove1 [OF True]] by (simp add: removeFriend_def)
  then obtain w' where w': "removeFriend m c w = Some w'" "sound w'" "keeps w w'"
    "same (w\<lparr>friendList := (friendList w)(m := remove1 c (friendList w m))\<rparr>) w'"
    by (auto simp: goes_def)
  have "m \<notin> freed w'" using sound_placed [OF w'(2)] w'(3) assms(2) by (simp add: keeps_def)
  then have "friendList w' m = remove1 c (friendList w m)" "targetList w' m = targetList w m"
    using w'(4) by (simp_all add: same_def)
  then show ?thesis using w' d by (auto simp: goes_def)
next
  case False
  then show ?thesis using assms(1) by (auto simp: removeFriend_def goes_def)
qed

lemma removeTarget_goes:
  assumes "sound w" and "m \<in> placed w"
  shows "goes w (removeTarget m c w) (\<lambda>w'. set (targetList w m) - {c} \<subseteq> set (targetList w' m) \<and> friendList w' m = friendList w m)"
proof (cases "c \<in> set (targetList w m)")
  case True
  have d: "distinct (targetList w m)" using assms(1) wf_lists by (simp add: sound_def)
  have "goes w (removeTarget m c w) (same (w\<lparr>targetList := (targetList w)(m := remove1 c (targetList w m))\<rparr>))"
    using True fewer_targets_goes [OF assms distinct_remove1 [OF d] count_remove1 [OF True]] by (simp add: removeTarget_def)
  then obtain w' where w': "removeTarget m c w = Some w'" "sound w'" "keeps w w'"
    "same (w\<lparr>targetList := (targetList w)(m := remove1 c (targetList w m))\<rparr>) w'"
    by (auto simp: goes_def)
  have "m \<notin> freed w'" using sound_placed [OF w'(2)] w'(3) assms(2) by (simp add: keeps_def)
  then have "targetList w' m = remove1 c (targetList w m)" "friendList w' m = friendList w m"
    using w'(4) by (simp_all add: same_def)
  then show ?thesis using w' d by (auto simp: goes_def)
next
  case False
  then show ?thesis using assms(1) by (auto simp: removeTarget_def goes_def)
qed

lemma same_masters: "same w w' \<Longrightarrow> wf w \<Longrightarrow> wf w' \<Longrightarrow> masters w c = None \<Longrightarrow> masters w' c = None"
proof (rule ccontr)
  assume a: "same w w'" "wf w" "wf w'" "masters w c = None" "masters w' c \<noteq> None"
  then obtain m where m: "masters w' c = Some m" by blast
  have "m \<notin> freed w'" using master_alive [OF a(3) m] .
  moreover have "c \<in> set (summons w' m)" using a(3) m by (simp add: wf_def)
  ultimately have "c \<in> set (summons w m)" using a(1) by (simp add: same_def)
  moreover have "masters w c = Some m \<longleftrightarrow> c \<in> set (summons w m)" using a(2) by (simp add: wf_def)
  ultimately show False using a(4) by simp
qed

lemma wf_fewer:
  assumes "wf w" and "m \<in> placed w"
  shows "wf (w\<lparr>targetList := (targetList w)(m := [])\<rparr>)" and "wf (w\<lparr>friendList := (friendList w)(m := [])\<rparr>)"
proof -
  have "refs (w\<lparr>targetList := (targetList w)(m := [])\<rparr>) x \<le> refs w x" for x
    using tally_drop [of "targetList w" m x] by (simp add: refs_def)
  then have "refs (w\<lparr>targetList := (targetList w)(m := [])\<rparr>) x = 0" if "x \<in> freed w" for x
    using wf_refs [OF assms(1) that] by (metis le_zero_eq)
  then show "wf (w\<lparr>targetList := (targetList w)(m := [])\<rparr>)"
    by (intro wf_change [OF assms(1)]) (use wf_lists [OF assms(1)] wf_freed [OF assms(1)] wf_checks [OF assms(1)] in auto)
  have "refs (w\<lparr>friendList := (friendList w)(m := [])\<rparr>) x \<le> refs w x" for x
    using tally_drop [of "friendList w" m x] by (simp add: refs_def)
  then have "refs (w\<lparr>friendList := (friendList w)(m := [])\<rparr>) x = 0" if "x \<in> freed w" for x
    using wf_refs [OF assms(1) that] by (metis le_zero_eq)
  then show "wf (w\<lparr>friendList := (friendList w)(m := [])\<rparr>)"
    by (intro wf_change [OF assms(1)]) (use wf_lists [OF assms(1)] wf_freed [OF assms(1)] wf_checks [OF assms(1)] in auto)
qed

lemma clear_goes:
  assumes w: "sound w" and m: "m \<in> placed w"
  shows "goes w (clearTargetList m w) (\<lambda>v. \<forall>c. masters w c = None \<longrightarrow> masters v c = None)"
    and "goes w (clearFriendList m w) (\<lambda>v. \<forall>c. masters w c = None \<longrightarrow> masters v c = None)"
proof -
  have wf: "wf w" using w by (simp add: sound_def)
  obtain v where v: "clearTargetList m w = Some v" "sound v" "keeps w v" "same (w\<lparr>targetList := (targetList w)(m := [])\<rparr>) v"
    using fewer_targets_goes [OF w m, of "[]" "targetList w m"] by (auto simp: clearTargetList_def goes_def)
  then show "goes w (clearTargetList m w) (\<lambda>v. \<forall>c. masters w c = None \<longrightarrow> masters v c = None)"
    using same_masters [OF v(4) wf_fewer(1) [OF wf m]] by (simp add: goes_def sound_def)
  obtain u where u: "clearFriendList m w = Some u" "sound u" "keeps w u" "same (w\<lparr>friendList := (friendList w)(m := [])\<rparr>) u"
    using fewer_friends_goes [OF w m, of "[]" "friendList w m"] by (auto simp: clearFriendList_def goes_def)
  then show "goes w (clearFriendList m w) (\<lambda>v. \<forall>c. masters w c = None \<longrightarrow> masters v c = None)"
    using same_masters [OF u(4) wf_fewer(2) [OF wf m]] by (simp add: goes_def sound_def)
qed

lemma refs_flags [simp]:
  "refs (w\<lparr>isIdle := f\<rparr>) = refs w" "refs (w\<lparr>isMasterInRange := f\<rparr>) = refs w" "refs (w\<lparr>creatureCheck := f\<rparr>) = refs w"
  "refs (w\<lparr>dead := D\<rparr>) = refs w"
  by (simp_all add: refs_def fun_eq_iff)

lemma sound_flags:
  assumes "sound w"
  shows "sound (w\<lparr>isIdle := f\<rparr>)" and "sound (w\<lparr>isMasterInRange := f\<rparr>)" and "sound (w\<lparr>creatureCheck := f\<rparr>)"
    and "sound (w\<lparr>dead := D\<rparr>)"
  using assms by (simp_all add: sound_def wf_def counted_def)

lemma addCreatureCheck_goes:
  assumes w: "sound w" and c: "c \<notin> freed w"
  shows "goes w (addCreatureCheck e c w) (\<lambda>w'. freed w' = freed w)"
proof -
  let ?u = "w\<lparr>creatureCheck := (creatureCheck w)(c := True)\<rparr>"
  have wf: "wf w" using w by (simp add: sound_def)
  have su: "sound ?u" using w by (rule sound_flags)
  show ?thesis
  proof (cases "inCheckCreaturesVector w c")
    case True
    then show ?thesis using su c by (simp add: addCreatureCheck_def deref_def goes_def)
  next
    case False
    let ?v = "?u\<lparr>inCheckCreaturesVector := (inCheckCreaturesVector w)(c := True),
           checkCreatureLists := (checkCreatureLists w)(chosen e c := checkCreatureLists w (chosen e c) @ [c])\<rparr>"
    let ?w = "?v\<lparr>counter := (counter ?v)(c := counter ?v c + 1)\<rparr>"
    have k: "tally (checkCreatureLists ?w) x = tally (checkCreatureLists w) x + (if x = c then 1 else 0)" for x
      using tally_append1 [of "checkCreatureLists w" "chosen e c" c x] by simp
    have r: "refs ?w x = refs w x + (if x = c then 1 else 0)" for x using k [of x] by (simp add: refs_def)
    have t: "tally (checkCreatureLists ?w) x = (if inCheckCreaturesVector ?w x then 1 else 0)" for x
      using k [of x] wf_checks [OF wf, of x] False by (cases "x = c") simp_all
    have "refs ?w x = 0" if "x \<in> freed w" for x using r [of x] wf_refs [OF wf that] c that by auto
    then have "wf ?w"
      by (intro wf_change [OF wf]) (use t wf_lists [OF wf] wf_freed [OF wf] in auto)
    then have "sound ?w" by (intro sound_more [OF w c]) (use r in simp_all)
    then show ?thesis using False c by (simp add: addCreatureCheck_def incrementReferenceCounter_def deref_def goes_def)
  qed
qed

lemma removeCreatureCheck_goes:
  "sound w \<Longrightarrow> c \<notin> freed w \<Longrightarrow> goes w (removeCreatureCheck c w) (\<lambda>w'. summons w' = summons w \<and> freed w' = freed w)"
  by (simp add: removeCreatureCheck_def deref_def goes_def sound_flags)

lemma setIdle_goes:
  assumes w: "sound w" and m: "m \<in> placed w"
  shows "goes w (setIdle e m idle w) (\<lambda>_. True)"
proof -
  let ?w = "w\<lparr>isIdle := (isIdle w)(m := idle)\<rparr>"
  have s: "sound ?w" using w by (rule sound_flags)
  have "goes ?w (addCreatureCheck e m ?w) (\<lambda>_. True)"
    by (rule goes_weaken [OF addCreatureCheck_goes [OF s]]) (use sound_placed [OF w m] in simp_all)
  moreover have "goes ?w (do { w \<leftarrow> clearTargetList m ?w; w \<leftarrow> clearFriendList m w; removeCreatureCheck m w }) (\<lambda>_. True)"
    by (rule goes_bind [OF clear_goes(1)], rule s, use m in simp)
      (rule goes_bind [OF clear_goes(2)], assumption, use m in simp,
        rule goes_weaken [OF removeCreatureCheck_goes], assumption, use m sound_placed in auto)
  ultimately have "goes w (addCreatureCheck e m ?w) (\<lambda>_. True)"
    "goes w (do { w \<leftarrow> clearTargetList m ?w; w \<leftarrow> clearFriendList m w; removeCreatureCheck m w }) (\<lambda>_. True)"
    by (auto intro: goes_from [rotated])
  then show ?thesis using w by (cases idle) (simp_all add: setIdle_def goes_Some Let_def)
qed

lemma updateIdleStatus_goes: "sound w \<Longrightarrow> m \<in> placed w \<Longrightarrow> goes w (updateIdleStatus e m w) (\<lambda>_. True)"
  unfolding updateIdleStatus_def by (rule setIdle_goes)

lemma look_at_goes:
  assumes "sound w" and "c \<notin> freed w"
  shows "goes w (look_at m c w) (\<lambda>w'. w' = w)"
proof -
  have "derefMaster x w = Some w" for x
    using assms(1) master_alive [of w x] by (auto simp: derefMaster_def deref_def sound_def split: option.splits)
  then show ?thesis using assms by (simp add: look_at_def deref_def goes_def)
qed

lemma onCreatureFound_goes:
  assumes w: "sound w" and m: "m \<in> placed w" and c: "c \<in> placed w"
  shows "goes w (onCreatureFound e m front c w) (\<lambda>_. True)"
proof (cases "sees e m c")
  case True
  have c': "c \<notin> freed w" using sound_placed [OF w c] .
  have "goes w (do {
        w \<leftarrow> look_at m c w;
        w \<leftarrow> (if isFriend e m c w then addFriend m c w else Some w);
        w \<leftarrow> (if isOpponent e m c w then addTarget m front c w else Some w);
        updateIdleStatus e m w }) (\<lambda>_. True)"
  proof (rule goes_bind [OF look_at_goes [OF w c']], hypsubst, rule goes_bind [where Q = "\<lambda>_. True"], goal_cases)
    case 1
    show ?case using w m c' goes_weaken [OF addFriend_goes [OF w m c']] by (simp add: goes_Some)
  next
    case (2 v u)
    then have u: "m \<in> placed u" "c \<notin> freed u" using m c sound_placed [of u c] by simp_all
    show ?case
    proof (rule goes_bind [where Q = "\<lambda>_. True"], goal_cases)
      case 1
      show ?case using 2 u goes_weaken [OF addTarget_goes [OF _ u]] by (simp add: goes_Some)
    next
      case (2 t)
      then show ?case using u by (intro updateIdleStatus_goes) simp_all
    qed
  qed
  then show ?thesis using True by (simp add: onCreatureFound_def)
next
  case False
  then show ?thesis using goes_weaken [OF goes_deref [OF w sound_placed [OF w c]]] by (simp add: onCreatureFound_def)
qed

text \<open>Running an operation on a list of creatures.\<close>

lemma run_all_goes:
  assumes "sound w" and "I w"
    and "\<And>x w. x \<in> set xs \<Longrightarrow> sound w \<Longrightarrow> placed w = P \<Longrightarrow> removed w = R \<Longrightarrow> I w \<Longrightarrow> goes w (f x w) I"
    and "placed w = P" and "removed w = R"
  shows "goes w (run_all f xs w) I"
  using assms
proof (induction xs arbitrary: w)
  case Nil
  then show ?case by (simp add: goes_Some)
next
  case (Cons x xs)
  have "goes w (f x w) I" using Cons.prems by simp
  then show ?case unfolding run_all.simps
  proof (rule goes_bind, goal_cases)
    case (1 v)
    show ?case by (rule Cons.IH) (use 1 Cons.prems in auto)
  qed
qed

lemma forget_friends_goes:
  assumes "sound w" and "m \<in> placed w" and "set xs \<subseteq> set (friendList w m)" and "distinct xs"
  shows "goes w (run_all (forget_friend e m) xs w) (\<lambda>_. True)"
  using assms
proof (induction xs arbitrary: w)
  case Nil
  then show ?case by (simp add: goes_Some)
next
  case (Cons x xs)
  have x: "x \<notin> freed w" using Cons.prems held_alive(2) [of w x m] by (simp add: sound_def)
  have "goes w (forget_friend e m x w) (\<lambda>v. set xs \<subseteq> set (friendList v m))"
    unfolding forget_friend_def
  proof (rule goes_bind [OF goes_deref [OF Cons.prems(1) x]], simp, intro conjI impI, goal_cases)
    case 1
    show ?case by (rule goes_weaken [OF removeFriend_goes [OF Cons.prems(1,2)]]) (use Cons.prems in auto)
  next
    case 2
    show ?case by (rule goes_Some) (use Cons.prems in simp_all)
  qed
  then show ?case unfolding run_all.simps
    by (rule goes_bind) (use Cons.prems in \<open>auto intro: Cons.IH\<close>)
qed

lemma forget_targets_goes:
  assumes "sound w" and "m \<in> placed w" and "set xs \<subseteq> set (targetList w m)" and "distinct xs"
  shows "goes w (run_all (forget_target e m) xs w) (\<lambda>_. True)"
  using assms
proof (induction xs arbitrary: w)
  case Nil
  then show ?case by (simp add: goes_Some)
next
  case (Cons x xs)
  have x: "x \<notin> freed w" using Cons.prems held_alive(1) [of w x m] by (simp add: sound_def)
  have "goes w (forget_target e m x w) (\<lambda>v. set xs \<subseteq> set (targetList v m))"
    unfolding forget_target_def
  proof (rule goes_bind [OF goes_deref [OF Cons.prems(1) x]], simp, intro conjI impI, goal_cases)
    case 1
    show ?case by (rule goes_weaken [OF removeTarget_goes [OF Cons.prems(1,2)]]) (use Cons.prems in auto)
  next
    case 2
    show ?case by (rule goes_Some) (use Cons.prems in simp_all)
  qed
  then show ?case unfolding run_all.simps
    by (rule goes_bind) (use Cons.prems in \<open>auto intro: Cons.IH\<close>)
qed

lemma updateTargetList_goes:
  assumes w: "sound w" and m: "m \<in> placed w"
  shows "goes w (updateTargetList e m w) (\<lambda>_. True)"
  unfolding updateTargetList_def
proof (rule goes_bind [where Q = "\<lambda>_. True"], goal_cases)
  case 1
  show ?case by (rule forget_friends_goes [OF w m]) (use w wf_lists in \<open>auto simp: sound_def\<close>)
next
  case (2 v)
  show ?case
  proof (rule goes_bind [where Q = "\<lambda>_. True"], goal_cases)
    case 1
    show ?case by (rule forget_targets_goes) (use 2 m wf_lists in \<open>auto simp: sound_def\<close>)
  next
    case (2 u)
    show ?case
      by (rule run_all_goes [where P = "placed u" and R = "removed u"])
        (use 2 \<open>placed v = placed w\<close> m in \<open>auto simp: around_def intro: onCreatureFound_goes\<close>)
  qed
qed

lemma onCreatureEnter_goes:
  assumes "sound w" and "m \<in> placed w" and "c \<in> placed w"
  shows "goes w (onCreatureEnter e m c w) (\<lambda>_. True)"
proof -
  let ?w = "if masters w m = Some c then w\<lparr>isMasterInRange := (isMasterInRange w)(m := True)\<rparr> else w"
  have "goes ?w (onCreatureFound e m True c ?w) (\<lambda>_. True)"
    by (rule onCreatureFound_goes) (use assms in \<open>simp_all add: sound_flags\<close>)
  then show ?thesis unfolding onCreatureEnter_def by (rule goes_from [rotated]) (simp add: keeps_def)
qed

lemma onCreatureLeave_goes:
  assumes "sound w" and m: "m \<in> placed w" and c: "c \<in> placed w"
  shows "goes w (onCreatureLeave e m c w) (\<lambda>_. True)"
proof -
  let ?w = "if masters w m = Some c then w\<lparr>isMasterInRange := (isMasterInRange w)(m := False)\<rparr> else w"
  have w: "sound ?w" "placed ?w = placed w" "removed ?w = removed w" using assms(1) by (simp_all add: sound_flags)
  have c': "c \<notin> freed ?w" using sound_placed [OF w(1)] c w(2) by simp
  have "goes ?w (do {
      w \<leftarrow> look_at m c ?w;
      w \<leftarrow> (if isFriend e m c w then removeFriend m c w else Some w);
      if isOpponent e m c w then do { w \<leftarrow> removeTarget m c w; updateIdleStatus e m w } else Some w }) (\<lambda>_. True)"
  proof (rule goes_bind [OF look_at_goes [OF w(1) c']], hypsubst, rule goes_bind [where Q = "\<lambda>_. True"], goal_cases)
    case 1
    show ?case using w m goes_weaken [OF removeFriend_goes [OF w(1), of m c]] by (simp add: goes_Some)
  next
    case (2 v u)
    have "goes u (do { w \<leftarrow> removeTarget m c u; updateIdleStatus e m w }) (\<lambda>_. True)"
    proof (rule goes_bind [where Q = "\<lambda>_. True"], goal_cases)
      case 1
      show ?case by (rule goes_weaken [OF removeTarget_goes]) (use 2 w(2) m in auto)
    next
      case (2 t)
      then show ?case using \<open>placed u = _\<close> w(2) m by (intro updateIdleStatus_goes) simp_all
    qed
    then show ?case using 2 by (simp add: goes_Some)
  qed
  then show ?thesis unfolding onCreatureLeave_def Let_def by (rule goes_from [rotated]) simp
qed

lemma look_around_goes:
  assumes w: "sound w" and m: "m \<in> placed w"
  shows "goes w (look_around e m w) (\<lambda>_. True)"
  unfolding look_around_def
proof (rule goes_bind [where Q = "\<lambda>_. True"], goal_cases)
  case 1
  show ?case using w master_alive [of w m]
    by (auto simp: look_for_master_def deref_def goes_def sound_flags split: option.splits) (auto simp: sound_def)
next
  case (2 v)
  show ?case
  proof (rule goes_bind [where Q = "\<lambda>_. True"], goal_cases)
    case 1
    show ?case by (rule updateTargetList_goes) (use 2 m in simp_all)
  next
    case (2 u)
    then show ?case using \<open>placed v = placed w\<close> m by (intro updateIdleStatus_goes) simp_all
  qed
qed

lemma onCreatureAppear_goes:
  "sound w \<Longrightarrow> m \<in> placed w \<Longrightarrow> c \<in> placed w \<Longrightarrow> goes w (onCreatureAppear e c m w) (\<lambda>_. True)"
  by (simp add: onCreatureAppear_def goes_Some look_around_goes onCreatureEnter_goes)

lemma onCreatureMove_goes:
  assumes w: "sound w" and m: "m \<in> placed w" and c: "c \<in> placed w"
  shows "goes w (onCreatureMove e saw now c m w) (\<lambda>_. True)"
proof -
  have "goes w (do {
        w \<leftarrow> (if now \<and> \<not> saw then onCreatureEnter e m c w else if \<not> now \<and> saw then onCreatureLeave e m c w else Some w);
        let w = (if now \<and> masters w m = Some c then w\<lparr>isMasterInRange := (isMasterInRange w)(m := True)\<rparr> else w);
        updateIdleStatus e m w }) (\<lambda>_. True)"
  proof (rule goes_bind [where Q = "\<lambda>_. True"], goal_cases)
    case 1
    show ?case using onCreatureEnter_goes [OF w m c, of e] onCreatureLeave_goes [OF w m c, of e] w by (simp add: goes_Some)
  next
    case (2 v)
    let ?v = "if now \<and> masters v m = Some c then v\<lparr>isMasterInRange := (isMasterInRange v)(m := True)\<rparr> else v"
    have "goes ?v (updateIdleStatus e m ?v) (\<lambda>_. True)"
      by (rule updateIdleStatus_goes) (use 2 m in \<open>simp_all add: sound_flags\<close>)
    then have "goes v (updateIdleStatus e m ?v) (\<lambda>_. True)" by (rule goes_from [rotated]) (simp add: keeps_def)
    then show ?case by (simp only: Let_def)
  qed
  then show ?thesis using w m by (simp add: onCreatureMove_def goes_Some look_around_goes)
qed

lemma reordered_targets_sound:
  assumes w: "sound w" and m: "m \<in> placed w" and d: "distinct xs" and c: "\<And>x. count_list xs x = count_list (targetList w m) x"
  shows "sound (w\<lparr>targetList := (targetList w)(m := xs)\<rparr>)"
proof -
  have "goes w (give_back m [] (w\<lparr>targetList := (targetList w)(m := xs)\<rparr>)) (same (w\<lparr>targetList := (targetList w)(m := xs)\<rparr>))"
    by (rule fewer_targets_goes [OF w m d]) (simp add: c)
  then show ?thesis by (auto simp: goes_def give_back_def deref_def split: if_splits)
qed

lemma onFollowCreatureComplete_goes:
  assumes w: "sound w" and m: "m \<in> placed w"
  shows "goes w (onFollowCreatureComplete path m c w) (\<lambda>_. True)"
proof (cases "c \<in> set (targetList w m)")
  case True
  have d: "distinct (targetList w m)" using w wf_lists by (simp add: sound_def)
  have n: "Suc (count_list (targetList w m) c - Suc 0) = count_list (targetList w m) c"
    using True by (cases "count_list (targetList w m) c") (auto simp: count_list_0_iff)
  have f: "sound (w\<lparr>targetList := (targetList w)(m := c # remove1 c (targetList w m))\<rparr>)"
    by (rule reordered_targets_sound [OF w m]) (use d n in auto)
  have b: "sound (w\<lparr>targetList := (targetList w)(m := remove1 c (targetList w m) @ [c])\<rparr>)"
    by (rule reordered_targets_sound [OF w m]) (use d n in auto)
  have "goes w (give_back m [c] (w\<lparr>targetList := (targetList w)(m := remove1 c (targetList w m))\<rparr>)) (\<lambda>_. True)"
    by (rule goes_weaken [OF fewer_targets_goes [OF w m distinct_remove1 [OF d] count_remove1 [OF True]]]) simp
  then show ?thesis using True f b by (simp add: onFollowCreatureComplete_def Let_def goes_Some)
next
  case False
  then show ?thesis using w by (simp add: onFollowCreatureComplete_def goes_Some)
qed

lemma wf_masters:
  assumes "wf w"
    and "\<And>c m. M c = Some m \<longleftrightarrow> c \<in> set (S m)" and "\<And>c m. M c = Some m \<Longrightarrow> c \<in> placed w \<union> removed w"
    and "\<And>m. distinct (S m)" and "\<And>m. m \<in> freed w \<Longrightarrow> S m = []"
    and "\<And>x. x \<in> freed w \<Longrightarrow> refs (w\<lparr>counter := f, masters := M, summons := S\<rparr>) x = 0"
  shows "wf (w\<lparr>counter := f, masters := M, summons := S\<rparr>)"
  using assms unfolding wf_def by simp

lemma setMaster_goes:
  assumes w: "sound w" and c: "c \<in> placed w" and p: "\<And>p. newMaster = Some p \<Longrightarrow> p \<in> placed w"
    and old: "\<And>q. masters w c = Some q \<Longrightarrow> q \<notin> removed w"
  shows "goes w (setMaster c newMaster w) (\<lambda>_. True)"
proof (cases "newMaster = None \<and> masters w c = None")
  case True
  then show ?thesis using w by (simp add: setMaster_def goes_Some)
next
  case some: False
  define n :: nat where "n = (if newMaster = None then 0 else 1)"
  define A where "A = (case newMaster of None \<Rightarrow> summons w | Some p \<Rightarrow> (summons w)(p := summons w p @ [c]))"
  define S where "S = (case masters w c of None \<Rightarrow> A | Some q \<Rightarrow> A(q := remove1 c (A q)))"
  define f where "f = (counter w)(c := counter w c + int n)"
  define M where "M = (masters w)(c := newMaster)"
  let ?w = "w\<lparr>counter := f, masters := M, summons := S\<rparr>"
  have wf: "wf w" using w by (simp add: sound_def)
  have alive: "c \<notin> freed w" using sound_placed [OF w c] .
  have p': "newMaster = Some p \<Longrightarrow> p \<notin> freed w" for p using p sound_placed [OF w] by blast
  have iff: "masters w x = Some m \<longleftrightarrow> x \<in> set (summons w m)" for x m using wf by (simp add: wf_def)
  have d: "distinct (summons w m)" for m using wf_lists [OF wf] by blast
  have A: "tally A x = tally (summons w) x + (if x = c then n else 0)" for x
    using tally_append1 [of "summons w" _ c x] by (cases newMaster) (simp_all add: A_def n_def)
  have sA: "set (A m) = set (summons w m) \<union> (if newMaster = Some m then {c} else {})" for m
    by (cases newMaster) (auto simp: A_def)
  have dA: "m \<noteq> the (masters w c) \<or> masters w c = None \<Longrightarrow> distinct (A m)" "distinct (remove1 c (A m))" for m
    using d [of m] iff [of c m] by (cases newMaster; auto simp: A_def remove1_append)+
  have S: "tally S x + (if x = c \<and> masters w c \<noteq> None then 1 else 0) = tally A x" for x
  proof (cases "masters w c")
    case (Some q)
    then have "c \<in> set (A q)" using sA iff by blast
    then show ?thesis using tally_remove1 [of c A q x] Some by (simp add: S_def)
  qed (simp add: S_def)
  have sS: "set (S m) = (set (summons w m) - {c}) \<union> (if newMaster = Some m then {c} else {})" for m
  proof (cases "masters w c")
    case None
    then have "c \<notin> set (summons w m)" using iff [of c m] by simp
    then show ?thesis using None sA [of m] by (simp add: S_def)
  next
    case (Some q)
    show ?thesis
    proof (cases "m = q")
      case True
      have "c \<in> set (summons w q)" using iff [of c q] Some by simp
      then have "set (remove1 c (A q)) = (set (summons w q) - {c}) \<union> (if newMaster = Some q then {c} else {})"
        using d [of q] by (cases newMaster) (auto simp: A_def remove1_append)
      then show ?thesis using Some True by (simp add: S_def)
    next
      case False
      then have "c \<notin> set (summons w m)" using iff [of c m] Some by simp
      then show ?thesis using Some False sA [of m] by (simp add: S_def)
    qed
  qed
  have dS: "distinct (S m)" for m
    using dA [of m] by (cases "masters w c") (auto simp: S_def)
  have r: "refs ?w x + (if x = c \<and> masters w c \<noteq> None then 1 else 0) = refs w x + (if x = c then n else 0)" for x
  proof -
    have "refs ?w x + tally (summons w) x = refs w x + tally S x" by (simp add: refs_def)
    then show ?thesis using S [of x] A [of x] by linarith
  qed
  have k: "keeps w ?w" using sS iff old by (fastforce simp: keeps_def)
  have wf': "wf ?w"
  proof (rule wf_masters [OF wf], goal_cases)
    case (1 x m)
    show ?case using sS [of m] iff [of x m] by (auto simp: M_def)
  next
    case (2 x m)
    then show ?case using c wf unfolding wf_def by (auto simp: M_def split: if_splits)
  next
    case (3 m)
    show ?case by (rule dS)
  next
    case (4 m)
    then have "set (S m) = {}" using sS [of m] wf_freed [OF wf] p' by auto
    then show ?case by simp
  next
    case (5 x)
    then show ?case using r [of x] wf_refs [OF wf] alive by (auto split: if_splits)
  qed
  show ?thesis
  proof (cases "masters w c")
    case None
    then obtain q where q: "newMaster = Some q" using some by auto
    have "sound ?w"
      by (rule sound_more [OF w alive _ _ _ wf']) (use r None q in \<open>auto simp: f_def n_def\<close>)
    moreover have "setMaster c newMaster w = Some ?w"
      using None q alive p' [OF q] by (simp add: setMaster_def incrementReferenceCounter_def deref_def f_def M_def S_def A_def n_def)
    ultimately show ?thesis using k by (simp add: goes_Some)
  next
    case (Some q)
    have "counted [c] ?w" unfolding counted_def
    proof
      fix x
      have "x \<notin> freed w \<Longrightarrow> counter w x = int (refs w x)" using w by (simp add: sound_def counted_def)
      then show "if x \<in> freed ?w then x \<notin> set [c] else counter ?w x = int (refs ?w x) + int (count_list [c] x)"
        using r [of x] Some alive by (cases "x = c") (simp_all add: f_def)
    qed
    then obtain w' where w': "unref [c] ?w = Some w'" "sound w'" "same ?w w'" using unref_ok [OF wf'] by blast
    have "q \<notin> freed w" using master_alive [OF wf Some] .
    moreover have "c \<in> set (A q)" using sA iff Some by blast
    ultimately have "setMaster c newMaster w = unref [c] ?w"
      using some alive p' Some
      by (cases newMaster) (simp_all add: setMaster_def incrementReferenceCounter_def deref_def f_def M_def S_def A_def n_def Let_def del: unref.simps)
    then show ?thesis using w' keeps_trans [OF k same_keeps] by (auto simp: goes_def)
  qed
qed

text \<open>Operations after which other creatures are on the map.\<close>

lemma internalPlaceCreature_sound:
  assumes w: "sound w" and c: "c \<notin> freed w" and new: "c \<notin> placed w"
  shows "\<exists>w'. internalPlaceCreature True c w = Some w' \<and> sound w' \<and> placed w' = insert c (placed w) \<and> removed w' = removed w"
proof -
  let ?w = "w\<lparr>counter := (counter w)(c := counter w c + 1), placed := insert c (placed w)\<rparr>"
  have wf: "wf w" using w by (simp add: sound_def)
  have r: "refs ?w x = refs w x + (if x = c then 1 else 0)" for x using new by (simp add: refs_def)
  have "refs ?w x = 0" if "x \<in> freed w" for x using r [of x] wf_refs [OF wf that] c that by auto
  then have "wf ?w"
    by (intro wf_change [OF wf]) (use wf_lists [OF wf] wf_freed [OF wf] wf_checks [OF wf] in auto)
  then have "sound ?w" by (intro sound_more [OF w c]) (use r in simp_all)
  then show ?thesis using c new by (simp add: internalPlaceCreature_def incrementReferenceCounter_def deref_def)
qed

lemma postAddNotification_goes:
  assumes w: "sound w" and c: "c \<notin> freed w"
  shows "goes w (postAddNotification c w) (\<lambda>_. True)"
proof -
  let ?w = "w\<lparr>counter := (counter w)(c := counter w c + 1), toRelease := toRelease w @ [c]\<rparr>"
  have wf: "wf w" using w by (simp add: sound_def)
  have r: "refs ?w x = refs w x + (if x = c then 1 else 0)" for x by (simp add: refs_def)
  have "refs ?w x = 0" if "x \<in> freed w" for x using r [of x] wf_refs [OF wf that] c that by auto
  then have "wf ?w"
    by (intro wf_change [OF wf]) (use wf_lists [OF wf] wf_freed [OF wf] wf_checks [OF wf] in auto)
  then have "sound ?w" by (intro sound_more [OF w c]) (use r in simp_all)
  then show ?thesis using c by (simp add: postAddNotification_def incrementReferenceCounter_def releaseCreature_def deref_def goes_def keeps_def subset_insertI)
qed

lemma placeCreature_sound:
  assumes w: "sound w" and c: "c \<notin> freed w"
  shows "\<exists>w'. placeCreature e room c w = Some w' \<and> sound w'"
proof (cases "c \<in> placed w \<or> \<not> room")
  case True
  then show ?thesis using w c by (auto simp: placeCreature_def deref_def)
next
  case False
  then obtain v where v: "internalPlaceCreature room c w = Some v" "sound v" "placed v = insert c (placed w)"
    using internalPlaceCreature_sound [OF w c] by auto
  have "goes v (do {
        w \<leftarrow> run_all (onCreatureAppear e c) (around e c v) v;
        w \<leftarrow> postAddNotification c w;
        addCreatureCheck e c w }) (\<lambda>_. True)"
  proof (rule goes_bind [where Q = "\<lambda>_. True"], goal_cases)
    case 1
    show ?case
      by (rule run_all_goes [where P = "placed v" and R = "removed v"])
        (use v in \<open>auto simp: around_def intro: onCreatureAppear_goes\<close>)
  next
    case (2 u)
    then have u: "c \<notin> freed u" using v(3) sound_placed [of u c] by simp
    show ?case
    proof (rule goes_bind [OF postAddNotification_goes [OF 2(1) u]], goal_cases)
      case (1 t)
      then have "c \<notin> freed t" using v(3) 2 sound_placed [of t c] by simp
      then show ?case by (rule goes_weaken [OF addCreatureCheck_goes [OF 1(1)]]) simp
    qed
  qed
  then show ?thesis using False v by (auto simp: placeCreature_def goes_def)
qed

lemma onRemoveCreature_goes:
  assumes w: "sound w" and c: "c \<in> placed w" and s: "s \<in> placed w"
  shows "goes w (onRemoveCreature e c s w) (\<lambda>_. True)"
  unfolding onRemoveCreature_def
proof (rule goes_bind [where Q = "\<lambda>_. True"], goal_cases)
  case 1
  show ?case
  proof (cases "masters w c")
    case (Some p)
    have "p \<notin> freed w" using master_alive [of w c p] w Some by (simp add: sound_def)
    then show ?thesis using Some w setMaster_goes [OF w c, of None] by (auto simp: deref_def goes_Some)
  qed (use w in \<open>simp add: goes_Some\<close>)
next
  case (2 v)
  then show ?case using c s by (simp add: goes_Some setIdle_goes onCreatureLeave_goes)
qed

lemma take_off_sound:
  assumes w: "sound w" and c: "c \<in> placed w"
  shows "\<exists>w'. take_off e c w = Some w' \<and> sound w' \<and> placed w' = placed w - {c} \<and> removed w' = insert c (removed w) \<and>
    insert c (set (toRelease w)) \<subseteq> set (toRelease w') \<and>
    (\<forall>p\<in>removed w. p \<notin> freed w' \<longrightarrow> set (summons w p) \<subseteq> set (summons w' p))"
proof -
  have "goes w (run_all (onRemoveCreature e c) (around e c w) w) (\<lambda>_. True)"
    by (rule run_all_goes [where P = "placed w" and R = "removed w"])
      (use w c in \<open>auto simp: around_def intro: onRemoveCreature_goes\<close>)
  then obtain v where v: "run_all (onRemoveCreature e c) (around e c w) w = Some v" "sound v" "keeps w v"
    by (auto simp: goes_def)
  have k: "placed v = placed w" "removed v = removed w" using v(3) by (simp_all add: keeps_def)
  let ?u = "v\<lparr>placed := placed v - {c}, removed := insert c (removed v), toRelease := toRelease v @ [c]\<rparr>"
  have r: "refs ?u x = refs v x" for x using c k by (cases "x = c") (simp_all add: refs_def)
  have wf: "wf v" using v(2) by (simp add: sound_def)
  have "wf ?u" using wf r unfolding wf_def by (simp add: Ball_def) blast
  then have u: "sound ?u" using v(2) r by (simp add: sound_def counted_def)
  have "c \<notin> freed ?u" using sound_placed [OF v(2)] c k by simp
  from removeCreatureCheck_goes [OF u this] obtain w' where w': "removeCreatureCheck c ?u = Some w'" "sound w'" "keeps ?u w'"
    "summons w' = summons ?u" "freed w' = freed ?u"
    by (auto simp: goes_def)
  have "take_off e c w = Some w'" using v(1) w'(1) by (simp add: take_off_def releaseCreature_def)
  moreover have "placed w' = placed w - {c} \<and> removed w' = insert c (removed w) \<and> insert c (set (toRelease w)) \<subseteq> set (toRelease w')"
    using w'(3) v(3) by (auto simp: keeps_def)
  moreover have "\<forall>p\<in>removed w. p \<notin> freed w' \<longrightarrow> set (summons w p) \<subseteq> set (summons w' p)"
    using v(3) w'(4,5) by (simp add: keeps_def)
  ultimately show ?thesis using w'(2) by blast
qed

text \<open>While creatures are removed, those that are still to come are held by the map, by the queue or by their master.\<close>

definition pinned :: "world \<Rightarrow> cid \<Rightarrow> bool" where
  "pinned w x \<longleftrightarrow> x \<in> placed w \<union> removed w \<and>
     (x \<in> placed w \<or> x \<in> set (toRelease w) \<or> (\<exists>p \<in> removed w \<inter> set (toRelease w). x \<in> set (summons w p)))"

lemma queued_alive: "sound w \<Longrightarrow> c \<in> set (toRelease w) \<Longrightarrow> c \<notin> freed w"
  by (auto simp: sound_def wf_def refs_def count_list_0_iff)

lemma pinned_alive: "sound w \<Longrightarrow> pinned w x \<Longrightarrow> x \<notin> freed w"
  using sound_placed queued_alive held_alive(3) by (auto simp: pinned_def sound_def)

lemma summons_listed: "sound w \<Longrightarrow> set (summons w c) \<subseteq> placed w \<union> removed w"
  unfolding sound_def wf_def by blast

lemma pinned_after:
  assumes "pinned w x" and v: "sound v" "placed v = placed w - {c}" "removed v = insert c (removed w)"
    and q: "insert c (set (toRelease w)) \<subseteq> set (toRelease v)"
    and s: "\<forall>p\<in>removed w. p \<notin> freed v \<longrightarrow> set (summons w p) \<subseteq> set (summons v p)"
  shows "pinned v x"
proof -
  have "x \<in> set (summons v p)" if "p \<in> removed w" "p \<in> set (toRelease w)" "x \<in> set (summons w p)" for p
    using that s queued_alive [OF v(1), of p] q by blast
  then show ?thesis using assms(1) q v(2,3) unfolding pinned_def by blast
qed

lemma removeCreatures_sound:
  assumes "sound w" and "\<forall>c\<in>set cs. pinned w c"
  shows "\<exists>w'. removeCreatures e cs w = Some w' \<and> sound w'"
  using assms
proof (induction "card (- removed w)" arbitrary: cs w rule: less_induct)
  case less
  from less.prems show ?case
  proof (induction cs)
    case Nil
    then show ?case by (simp add: removeCreatures.simps)
  next
    case (Cons c rest)
    have alive: "c \<notin> freed w" using Cons.prems pinned_alive by simp
    show ?case
    proof (cases "c \<in> removed w")
      case True
      then show ?thesis using Cons alive by (subst removeCreatures.simps) (simp add: deref_def)
    next
      case False
      then have c: "c \<in> placed w" using Cons.prems by (auto simp: pinned_def)
      obtain v where v: "take_off e c w = Some v" "sound v" "placed v = placed w - {c}" "removed v = insert c (removed w)"
        "insert c (set (toRelease w)) \<subseteq> set (toRelease v)"
        "\<forall>p\<in>removed w. p \<notin> freed v \<longrightarrow> set (summons w p) \<subseteq> set (summons v p)"
        using take_off_sound [OF Cons.prems(1) c] by blast
      have "- removed v = - removed w - {c}" "c \<in> - removed w" using v(4) False by auto
      then have smaller: "card (- removed v) < card (- removed w)" using card_Diff1_less [of "- removed w" c] by simp
      have "pinned v x" if "x \<in> set (summons v c)" for x
        using that v(4,5) summons_listed [OF v(2), of c] unfolding pinned_def by blast
      moreover have "pinned v x" if "x \<in> set rest" for x
        using pinned_after [OF _ v(2-6)] Cons.prems(2) that by simp
      ultimately have "\<forall>x\<in>set (summons v c @ rest). pinned v x" by auto
      from less.hyps [OF smaller v(2) this] show ?thesis
        using v(1) alive False by (subst removeCreatures.simps) (simp add: deref_def)
    qed
  qed
qed

lemma removeCreature_sound: "sound w \<Longrightarrow> c \<in> placed w \<Longrightarrow> \<exists>w'. removeCreature e c w = Some w' \<and> sound w'"
  unfolding removeCreature_def by (rule removeCreatures_sound) (simp_all add: pinned_def)

lemma lone_death_sound:
  assumes w: "sound w" and c: "c \<in> placed w" and lone: "masters w c = None" "summons w c = []"
  shows "\<exists>w'. executeDeath e droppedCorpse c w = Some w' \<and> sound w'"
proof -
  have "goes w (if isMonster e c then monster_death c w else Some w) (\<lambda>v. masters v c = None)"
  proof (cases "isMonster e c")
    case True
    have none: "(summons w)(c := []) = summons w" using lone(2) by auto
    then have "w\<lparr>summons := (summons w)(c := [])\<rparr> = w" by simp
    have "goes w (do { w \<leftarrow> clearTargetList c w; clearFriendList c w }) (\<lambda>v. masters v c = None)"
      by (rule goes_bind [OF clear_goes(1) [OF w c]]) (rule goes_weaken [OF clear_goes(2)], use c lone(1) in auto)
    then show ?thesis using True lone(2) none by (simp add: monster_death_def)
  qed (use w lone in \<open>simp add: goes_Some\<close>)
  then obtain v where v: "(if isMonster e c then monster_death c w else Some w) = Some v" "sound v" "keeps w v" "masters v c = None"
    by (auto simp: goes_def)
  have "c \<in> placed v" using v(3) c by (simp add: keeps_def)
  then show ?thesis using w v removeCreature_sound [OF v(2)] c by (auto simp: executeDeath_def onDeath_def)
qed

lemma cleanup_sound:
  assumes w: "sound w"
  shows "\<exists>w'. cleanup w = Some w' \<and> sound w'"
proof -
  let ?w = "w\<lparr>toRelease := []\<rparr>"
  have wf: "wf w" using w by (simp add: sound_def)
  have r: "refs ?w x + count_list (toRelease w) x = refs w x" for x by (simp add: refs_def)
  have "refs ?w x = 0" if "x \<in> freed w" for x using r [of x] wf_refs [OF wf that] by simp
  then have "wf ?w" using wf by (simp add: wf_def)
  moreover have "counted (toRelease w) ?w" by (rule counted_less [OF w]) (use r in simp_all)
  ultimately show ?thesis using unref_ok unfolding cleanup_def by blast
qed

lemma distinct_count: "(\<And>x. count_list xs x \<le> 1) \<Longrightarrow> distinct xs"
proof (induction xs)
  case (Cons y ys)
  have "count_list ys x \<le> 1" for x using Cons.prems [of x] by (auto split: if_splits)
  moreover have "count_list ys y = 0" using Cons.prems [of y] by simp
  ultimately show ?case using Cons.IH by (simp add: count_list_0_iff)
qed simp

lemma tally_le: "count_list (h k) x \<le> tally h x"
  unfolding tally_def by (rule member_le_sum) simp_all

lemma check_list_length: "wf w \<Longrightarrow> length (checkCreatureLists w i) \<le> CARD(cid)"
proof -
  assume wf: "wf w"
  have "count_list (checkCreatureLists w i) x \<le> 1" for x
    using tally_le [of "checkCreatureLists w" i x] wf_checks [OF wf, of x] by (simp split: if_splits)
  then have "distinct (checkCreatureLists w i)" by (rule distinct_count)
  then have "length (checkCreatureLists w i) = card (set (checkCreatureLists w i))" by (simp add: distinct_card)
  also have "\<dots> \<le> CARD(cid)" by (rule card_mono) simp_all
  finally show ?thesis .
qed

lemma count_erase: "k < length xs \<Longrightarrow> count_list (take k xs @ drop (k + 1) xs) x + (if x = xs ! k then 1 else 0) = count_list xs x"
  by (subst (3) id_take_nth_drop [of k xs]) simp_all

lemma erase_check_sound:
  assumes w: "sound w" and k: "k < length (checkCreatureLists w i)"
  shows "sound (w\<lparr>inCheckCreaturesVector := (inCheckCreaturesVector w)(checkCreatureLists w i ! k := False),
      checkCreatureLists := (checkCreatureLists w)(i := take k (checkCreatureLists w i) @ drop (k + 1) (checkCreatureLists w i)),
      toRelease := toRelease w @ [checkCreatureLists w i ! k]\<rparr>)" (is "sound ?w")
proof -
  let ?c = "checkCreatureLists w i ! k"
  have wf: "wf w" using w by (simp add: sound_def)
  have t: "tally (checkCreatureLists ?w) x + (if x = ?c then 1 else 0) = tally (checkCreatureLists w) x" for x
    using tally_upd [of "checkCreatureLists w" i "take k (checkCreatureLists w i) @ drop (k + 1) (checkCreatureLists w i)" x]
      count_erase [OF k, of x] by simp
  have r: "refs ?w x = refs w x" for x using t [of x] by (cases "x = ?c") (simp_all add: refs_def)
  have "tally (checkCreatureLists ?w) x = (if inCheckCreaturesVector ?w x then 1 else 0)" for x
    using t [of x] wf_checks [OF wf, of x] by (cases "x = ?c") (simp_all split: if_splits)
  then have "wf ?w"
    by (intro wf_change [OF wf]) (use r wf_refs [OF wf] wf_lists [OF wf] wf_freed [OF wf] in auto)
  then show ?thesis using w r by (simp add: sound_def counted_def)
qed

lemma check_from_sound:
  assumes think: "\<And>c w. sound w \<Longrightarrow> \<exists>w'. think c w = Some w' \<and> sound w'" and "sound w"
  shows "\<exists>w'. check_from think i k w = Some w' \<and> sound w'"
  using assms(2)
proof (induction "CARD(cid) - k" arbitrary: k w rule: less_induct)
  case outer: less
  from outer.prems show ?case
  proof (induction "length (checkCreatureLists w i)" arbitrary: w rule: less_induct)
    case inner: less
    show ?case
    proof (cases "k < length (checkCreatureLists w i)")
      case False
      then show ?thesis using inner.prems by (subst check_from.simps) simp
    next
      case True
      let ?c = "checkCreatureLists w i ! k"
      have wf: "wf w" using inner.prems by (simp add: sound_def)
      have alive: "?c \<notin> freed w" using held_alive(4) [OF wf nth_mem [OF True]] .
      show ?thesis
      proof (cases "creatureCheck w ?c")
        case check: True
        obtain v where v: "(if ?c \<notin> dead w then think ?c w else Some w) = Some v" "sound v"
          using think [OF inner.prems, of ?c] inner.prems by (cases "?c \<notin> dead w") auto
        have "CARD(cid) - (k + 1) < CARD(cid) - k" using True check_list_length [OF wf, of i] by linarith
        from outer.hyps [OF this v(2)] obtain u where "check_from think i (k + 1) v = Some u" "sound u" by blast
        then show ?thesis using True alive check v(1) by (subst check_from.simps) (simp add: Let_def deref_def)
      next
        case False
        let ?v = "w\<lparr>inCheckCreaturesVector := (inCheckCreaturesVector w)(?c := False),
          checkCreatureLists := (checkCreatureLists w)(i := take k (checkCreatureLists w i) @ drop (k + 1) (checkCreatureLists w i)),
          toRelease := toRelease w @ [?c]\<rparr>"
        have "length (checkCreatureLists ?v i) < length (checkCreatureLists w i)" using True by simp
        from inner.hyps [OF this erase_check_sound [OF inner.prems True]]
        obtain u where "check_from think i k ?v = Some u" "sound u" by blast
        then show ?thesis using True alive False
          by (subst check_from.simps) (simp add: Let_def deref_def releaseCreature_def)
      qed
    qed
  qed
qed

section \<open>The whole life\<close>

text \<open>
  What the rest of the server does with creatures: it shows monsters creatures on the map, places and removes creatures,
  gives them masters, lets them die, and counts references of its own. An action that it cannot take in a world leaves
  the world as it is. Deaths of creatures with a master or with summons are not among them; see below.
\<close>

datatype action =
    Appear cid cid
  | Move bool bool cid cid
  | Followed bool cid cid
  | Obey cid "cid option"
  | Place bool cid
  | Remove cid
  | Hurt cid
  | Die bool cid
  | Update cid
  | Hold cid
  | Drop cid

definition hold :: "cid \<Rightarrow> world \<Rightarrow> world option" where
  "hold c w = do { w \<leftarrow> incrementReferenceCounter c w; Some (w\<lparr>others := (others w)(c := others w c + 1)\<rparr>) }"

definition let_go :: "cid \<Rightarrow> world \<Rightarrow> world option" where
  "let_go c w = decrementReferenceCounter c (w\<lparr>others := (others w)(c := others w c - 1)\<rparr>)"

fun possible :: "action \<Rightarrow> world \<Rightarrow> bool" where
  "possible (Appear c m) w = (c \<in> placed w \<and> m \<in> placed w)"
| "possible (Move saw now c m) w = (c \<in> placed w \<and> m \<in> placed w)"
| "possible (Followed path c m) w = (m \<in> placed w)"
| "possible (Obey c newMaster) w =
     (c \<in> placed w \<and> (case newMaster of None \<Rightarrow> True | Some p \<Rightarrow> p \<in> placed w) \<and>
      (case masters w c of None \<Rightarrow> True | Some q \<Rightarrow> q \<notin> removed w))"
| "possible (Place room c) w = (c \<notin> freed w)"
| "possible (Remove c) w = (c \<in> placed w)"
| "possible (Hurt c) w = True"
| "possible (Die corpse c) w = (c \<in> placed w \<and> masters w c = None \<and> summons w c = [])"
| "possible (Update m) w = (m \<in> placed w)"
| "possible (Hold c) w = (c \<notin> freed w)"
| "possible (Drop c) w = (0 < others w c)"

fun act :: "env \<Rightarrow> action \<Rightarrow> world \<Rightarrow> world option" where
  "act e (Appear c m) w = onCreatureAppear e c m w"
| "act e (Move saw now c m) w = onCreatureMove e saw now c m w"
| "act e (Followed path c m) w = onFollowCreatureComplete path m c w"
| "act e (Obey c newMaster) w = setMaster c newMaster w"
| "act e (Place room c) w = placeCreature e room c w"
| "act e (Remove c) w = removeCreature e c w"
| "act e (Hurt c) w = Some (w\<lparr>dead := insert c (dead w)\<rparr>)"
| "act e (Die corpse c) w = executeDeath e corpse c w"
| "act e (Update m) w = updateIdleStatus e m w"
| "act e (Hold c) w = hold c w"
| "act e (Drop c) w = let_go c w"

definition perform :: "env \<Rightarrow> action \<Rightarrow> world \<Rightarrow> world option" where
  "perform e a w = (if possible a w then act e a w else Some w)"

datatype event =
    Act env action
  | Check env "cid \<Rightarrow> action list" slot \<comment> \<open>a round, with what the creatures do when they think\<close>
  | Clean

fun happen :: "event \<Rightarrow> world \<Rightarrow> world option" where
  "happen (Act e a) w = perform e a w"
| "happen (Check e thoughts i) w = checkCreatures (\<lambda>c. run_all (perform e) (thoughts c)) i w"
| "happen Clean w = cleanup w"

lemma hold_sound:
  assumes w: "sound w" and c: "c \<notin> freed w"
  shows "\<exists>w'. hold c w = Some w' \<and> sound w'"
proof -
  let ?w = "w\<lparr>counter := (counter w)(c := counter w c + 1), others := (others w)(c := others w c + 1)\<rparr>"
  have wf: "wf w" using w by (simp add: sound_def)
  have r: "refs ?w x = refs w x + (if x = c then 1 else 0)" for x by (simp add: refs_def)
  have "refs ?w x = 0" if "x \<in> freed w" for x using r [of x] wf_refs [OF wf that] c that by auto
  then have "wf ?w"
    by (intro wf_change [OF wf]) (use wf_lists [OF wf] wf_freed [OF wf] wf_checks [OF wf] in auto)
  then have "sound ?w" by (intro sound_more [OF w c]) (use r in simp_all)
  then show ?thesis using c by (simp add: hold_def incrementReferenceCounter_def deref_def)
qed

lemma let_go_sound:
  assumes w: "sound w" and c: "0 < others w c"
  shows "\<exists>w'. let_go c w = Some w' \<and> sound w'"
proof -
  let ?w = "w\<lparr>others := (others w)(c := others w c - 1)\<rparr>"
  have wf: "wf w" using w by (simp add: sound_def)
  have r: "refs ?w x + count_list [c] x = refs w x" for x using c by (cases "x = c") (simp_all add: refs_def)
  have "refs ?w x = 0" if "x \<in> freed w" for x using r [of x] wf_refs [OF wf that] by simp
  then have "wf ?w"
    by (intro wf_change [OF wf]) (use wf_lists [OF wf] wf_freed [OF wf] wf_checks [OF wf] in auto)
  moreover have "counted [c] ?w" by (rule counted_less [OF w]) (use r in simp_all)
  ultimately show ?thesis using unref_ok unfolding let_go_def decrementReferenceCounter_def by blast
qed

lemma goes_sound: "goes w r Q \<Longrightarrow> \<exists>w'. r = Some w' \<and> sound w'"
  by (auto simp: goes_def)

lemma perform_sound:
  assumes w: "sound w"
  shows "\<exists>w'. perform e a w = Some w' \<and> sound w'"
proof (cases "possible a w")
  case True
  have "\<exists>w'. act e a w = Some w' \<and> sound w'"
  proof (cases a)
    case (Obey c newMaster)
    have "\<exists>w'. setMaster c newMaster w = Some w' \<and> sound w'"
      by (rule goes_sound [OF setMaster_goes [OF w]]) (use True Obey in \<open>auto split: option.splits\<close>)
    then show ?thesis using Obey by simp
  qed (use True w goes_sound [OF onCreatureAppear_goes [OF w]] goes_sound [OF onCreatureMove_goes [OF w]]
      goes_sound [OF onFollowCreatureComplete_goes [OF w]] placeCreature_sound [OF w]
      removeCreature_sound [OF w] lone_death_sound [OF w] goes_sound [OF updateIdleStatus_goes [OF w]]
      hold_sound [OF w] let_go_sound [OF w] sound_flags(4) [OF w] in auto)
  then show ?thesis using True by (simp add: perform_def)
next
  case False
  then show ?thesis using w by (simp add: perform_def)
qed

lemma run_all_sound:
  assumes "\<And>x w. sound w \<Longrightarrow> \<exists>w'. f x w = Some w' \<and> sound w'" and "sound w"
  shows "\<exists>w'. run_all f xs w = Some w' \<and> sound w'"
  using assms(2)
proof (induction xs arbitrary: w)
  case (Cons x xs)
  obtain v where "f x w = Some v" "sound v" using assms(1) [OF Cons.prems] by blast
  then show ?case using Cons.IH by simp
qed simp

lemma happen_sound: "sound w \<Longrightarrow> \<exists>w'. happen ev w = Some w' \<and> sound w'"
proof (cases ev)
  case (Check e thoughts i)
  assume w: "sound w"
  obtain v where "check_from (\<lambda>c. run_all (perform e) (thoughts c)) i 0 w = Some v" "sound v"
    using check_from_sound [of "\<lambda>c. run_all (perform e) (thoughts c)", OF run_all_sound w] perform_sound by blast
  then show ?thesis using Check cleanup_sound by (simp add: checkCreatures_def)
qed (simp_all add: perform_sound cleanup_sound)

lemma emptyWorld_sound: "sound emptyWorld"
  by (simp add: sound_def wf_def counted_def refs_def emptyWorld_def tally_def)

text \<open>C2: Whatever happens in the world of creatures, in any order and with any creatures around, no deleted creature is
  ever touched, every round of checks ends, and the counter of every creature that lives is the number of its holders:
  monsters that have it as a target or friend, its master, the lists of the game and the queue of releases. (The two
  ways in which a creature with a master or with summons can die are excepted.)\<close>

theorem lifetimes_are_safe: "\<exists>w. run_all happen evs emptyWorld = Some w \<and> sound w"
  by (rule run_all_sound [OF happen_sound emptyWorld_sound])

section \<open>Deaths of summons and of masters\<close>

text \<open>A player 1 with a monster 2, in slots 1 and 0.\<close>

definition duel :: env where
  "duel = \<lparr>isPlayer = (\<lambda>c. c = 1), isMonster = (\<lambda>c. c \<noteq> 1), ignoredByMonsters = (\<lambda>_. False), partners = (\<lambda>_ _. False),
     sees = (\<lambda>_ _. True), isAggressive = (\<lambda>_. False), spectators = (\<lambda>_. [1, 2, 3]), chosen = (\<lambda>c. if c = 2 then 0 else 1)\<rparr>"

definition conjured :: "world option" where
  "conjured = do {
     w \<leftarrow> placeCreature duel True 1 emptyWorld;
     w \<leftarrow> placeCreature duel True 2 w;
     w \<leftarrow> setMaster 2 (Some 1) w;
     w \<leftarrow> cleanup w;
     Some (w\<lparr>dead := {2}\<rparr>)
   }"

text \<open>C23: A summon that dies while its master lives gives its master's reference back twice: once when it loses its master
  and once more right after. One reference too few is counted from then on, so the next cleanup deletes the dead
  summon while the game still has it in a list of creatures that think, and the round of that list follows the
  pointer to the deleted object.\<close>

theorem summon_death_is_used_after_free:
  "(case do { w \<leftarrow> conjured; w \<leftarrow> executeDeath duel True 2 w; checkCreatures (\<lambda>c w. Some w) 1 w } of
      None \<Rightarrow> False
    | Some w \<Rightarrow> 2 \<in> freed w \<and> 2 \<in> set (checkCreatureLists w 0) \<and> checkCreatures (\<lambda>c w. Some w) 0 w = None)"
  by code_simp

text \<open>A monster 2 with a summon 3 of its own.\<close>

definition led :: "world option" where
  "led = do {
     w \<leftarrow> placeCreature duel True 1 emptyWorld;
     w \<leftarrow> placeCreature duel True 2 w;
     w \<leftarrow> placeCreature duel True 3 w;
     w \<leftarrow> setMaster 3 (Some 2) w;
     w \<leftarrow> cleanup w;
     Some (w\<lparr>dead := {2}\<rparr>)
   }"

text \<open>A monster that dies kills its summons and forgets them, but they do not forget it. When a round of checks comes
  between its death and theirs, it is deleted and its summons are left with a pointer to it, which their own
  death follows.\<close>

theorem master_death_leaves_dangling_pointer:
  "(case do { w \<leftarrow> led; w \<leftarrow> executeDeath duel True 2 w; checkCreatures (\<lambda>c w. Some w) 0 w } of
      None \<Rightarrow> False
    | Some w \<Rightarrow> 3 \<in> placed w \<and> masters w 3 = Some 2 \<and> 2 \<in> freed w \<and> executeDeath duel True 3 w = None)"
  by code_simp
end
