(* ===== verification/MapTree.thy ===== *)
theory MapTree
  imports Positions
begin

text \<open>
  The map of tiles, \<open>src/src/map.h\<close> and \<open>src/src/map.cpp\<close>: a tree of four children per node
  over the upper thirteen bits of the coordinates, whose leaves hold sixteen floors of eight by eight
  tiles and are linked to their neighbours in the south and in the east. Leaves are kept in a store under
  their address, since the tree and the neighbours point at them. What happens to the contents of a tile
  that is set where there already is one (\<open>Tile::addThing\<close>) is the argument \<open>merge\<close>.
\<close>

definition MAP_MAX_LAYERS :: u8 where "MAP_MAX_LAYERS = 16"
definition FLOOR_BITS :: u32 where "FLOOR_BITS = 3"
definition FLOOR_SIZE :: u32 where "FLOOR_SIZE = 8"
definition FLOOR_MASK :: u16 where "FLOOR_MASK = 7"

datatype qtree = QLeaf nat | QNode "qtree option" "qtree option" "qtree option" "qtree option"

type_synonym 'tile floor = "u16 \<Rightarrow> u16 \<Rightarrow> 'tile option"

record 'tile leaf =
  leafS :: "nat option"
  leafE :: "nat option"
  floor_array :: "u8 \<Rightarrow> 'tile floor option"
  creature_list :: "nat list"
  player_list :: "nat list"

record 'tile game_map =
  root :: qtree
  leaf_store :: "nat \<rightharpoonup> 'tile leaf"

section \<open>The tree\<close>

definition child_index :: "u32 \<Rightarrow> u32 \<Rightarrow> u32" where
  "child_index x y = drop_bit 15 (x AND 0x8000) OR drop_bit 14 (y AND 0x8000)"

fun get_child :: "u32 \<Rightarrow> qtree option \<Rightarrow> qtree option \<Rightarrow> qtree option \<Rightarrow> qtree option \<Rightarrow> qtree option" where
  "get_child i a b c d = (if i = 0 then a else if i = 1 then b else if i = 2 then c else d)"

fun set_child :: "u32 \<Rightarrow> qtree \<Rightarrow> qtree option \<Rightarrow> qtree option \<Rightarrow> qtree option \<Rightarrow> qtree option \<Rightarrow> qtree" where
  "set_child i n a b c d =
     (if i = 0 then QNode (Some n) b c d else if i = 1 then QNode a (Some n) c d
      else if i = 2 then QNode a b (Some n) d else QNode a b c (Some n))"

lemma get_child_size [termination_simp]:
  "get_child i a b c d = Some n \<Longrightarrow> size n < Suc (size_option size a + size_option size b + size_option size c + size_option size d)"
  by (auto split: if_splits)

function (sequential) getLeaf :: "qtree \<Rightarrow> u32 \<Rightarrow> u32 \<Rightarrow> nat option" where
  "getLeaf (QLeaf l) x y = Some l"
| "getLeaf (QNode a b c d) x y =
     (case get_child (child_index x y) a b c d of
        None \<Rightarrow> None
      | Some n \<Rightarrow> getLeaf n (push_bit 1 x) (push_bit 1 y))"
  by pat_completeness auto
termination
  by (relation "measure (\<lambda>(t, _). size t)") (auto simp del: get_child.simps dest: get_child_size)

text \<open>\<open>getLeafStatic\<close>: the same search as a loop that starts below its argument.\<close>

function (sequential) getLeafStatic :: "qtree \<Rightarrow> u32 \<Rightarrow> u32 \<Rightarrow> nat option" where
  "getLeafStatic (QNode a b c d) x y =
     (case get_child (child_index x y) a b c d of
        None \<Rightarrow> None
      | Some (QLeaf l) \<Rightarrow> Some l
      | Some n \<Rightarrow> getLeafStatic n (push_bit 1 x) (push_bit 1 y))"
| "getLeafStatic (QLeaf l) x y = None"
  by pat_completeness auto
termination
  by (relation "measure (\<lambda>(t, _). size t)") (auto simp del: get_child.simps dest!: get_child_size)

text \<open>
  \<open>createLeaf\<close> finds or makes the leaf; \<open>fresh\<close> is where a new one is allocated. The result is the tree,
  the leaf and the flag \<open>newLeaf\<close>. It would not end below level 3, hence the optional result.
\<close>

partial_function (option) createLeaf :: "nat \<Rightarrow> qtree \<Rightarrow> u32 \<Rightarrow> u32 \<Rightarrow> u32 \<Rightarrow> (qtree \<times> nat \<times> bool) option" where
  "createLeaf fresh t x y level =
     (case t of
        QLeaf l \<Rightarrow> Some (t, l, False)
      | QNode a b c d \<Rightarrow>
          (let i = child_index x y;
               (n, made) = (case get_child i a b c d of
                   Some n \<Rightarrow> (n, False)
                 | None \<Rightarrow> if level \<noteq> FLOOR_BITS then (QNode None None None None, False) else (QLeaf fresh, True))
           in Option.bind (createLeaf fresh n (x * 2) (y * 2) (level - 1))
                (\<lambda>(n', l, newLeaf). Some (set_child i n' a b c d, l, newLeaf \<or> made))))"

section \<open>Tiles\<close>

definition new_leaf :: "'tile leaf" where
  "new_leaf = \<lparr>leafS = None, leafE = None, floor_array = (\<lambda>_. None), creature_list = [], player_list = []\<rparr>"

definition getTile :: "'tile game_map \<Rightarrow> u16 \<Rightarrow> u16 \<Rightarrow> u8 \<Rightarrow> 'tile option" where
  "getTile m x y z =
     (if z \<ge> MAP_MAX_LAYERS then None
      else case getLeafStatic (root m) (ucast x) (ucast y) of
        None \<Rightarrow> None
      | Some l \<Rightarrow> (case leaf_store m l of
          None \<Rightarrow> None
        | Some lf \<Rightarrow> (case floor_array lf z of None \<Rightarrow> None | Some fl \<Rightarrow> fl (x AND FLOOR_MASK) (y AND FLOOR_MASK))))"

definition change_leaf :: "nat option \<Rightarrow> ('tile leaf \<Rightarrow> 'tile leaf) \<Rightarrow> (nat \<rightharpoonup> 'tile leaf) \<Rightarrow> (nat \<rightharpoonup> 'tile leaf)" where
  "change_leaf a f st =
     (case a of None \<Rightarrow> st | Some l \<Rightarrow> (case st l of None \<Rightarrow> st | Some lf \<Rightarrow> st(l \<mapsto> f lf)))"

text \<open>Linking a new leaf with its four neighbours.\<close>

definition link_leaf :: "nat \<Rightarrow> qtree \<Rightarrow> u16 \<Rightarrow> u16 \<Rightarrow> (nat \<rightharpoonup> 'tile leaf) \<Rightarrow> (nat \<rightharpoonup> 'tile leaf)" where
  "link_leaf l t x y st =
     (let st1 = change_leaf (getLeaf t (ucast x) (ucast y - FLOOR_SIZE)) (\<lambda>n. n\<lparr>leafS := Some l\<rparr>) st;
          st2 = change_leaf (getLeaf t (ucast x - FLOOR_SIZE) (ucast y)) (\<lambda>n. n\<lparr>leafE := Some l\<rparr>) st1;
          st3 = (case getLeaf t (ucast x) (ucast y + FLOOR_SIZE) of
                   None \<Rightarrow> st2 | Some s \<Rightarrow> change_leaf (Some l) (\<lambda>n. n\<lparr>leafS := Some s\<rparr>) st2)
      in (case getLeaf t (ucast x + FLOOR_SIZE) (ucast y) of
            None \<Rightarrow> st3 | Some e \<Rightarrow> change_leaf (Some l) (\<lambda>n. n\<lparr>leafE := Some e\<rparr>) st3))"

definition createFloor :: "u8 \<Rightarrow> 'tile leaf \<Rightarrow> 'tile leaf" where
  "createFloor z lf = (if floor_array lf z = None then lf\<lparr>floor_array := (floor_array lf)(z \<mapsto> (\<lambda>_ _. None))\<rparr> else lf)"

definition put_tile :: "('tile \<Rightarrow> 'tile \<Rightarrow> 'tile) \<Rightarrow> u16 \<Rightarrow> u16 \<Rightarrow> u8 \<Rightarrow> 'tile \<Rightarrow> 'tile leaf \<Rightarrow> 'tile leaf" where
  "put_tile merge x y z t lf =
     (let lf1 = createFloor z lf;
          fl = the (floor_array lf1 z);
          ox = x AND FLOOR_MASK;
          oy = y AND FLOOR_MASK;
          t' = (case fl ox oy of None \<Rightarrow> t | Some old \<Rightarrow> merge old t)
      in lf1\<lparr>floor_array := (floor_array lf1)(z \<mapsto> fl(ox := (fl ox)(oy \<mapsto> t')))\<rparr>)"

definition setTile :: "('tile \<Rightarrow> 'tile \<Rightarrow> 'tile) \<Rightarrow> nat \<Rightarrow> u16 \<Rightarrow> u16 \<Rightarrow> u8 \<Rightarrow> 'tile \<Rightarrow> 'tile game_map \<Rightarrow> 'tile game_map option" where
  "setTile merge fresh x y z t m =
     (if z \<ge> MAP_MAX_LAYERS then Some m
      else Option.bind (createLeaf fresh (root m) (ucast x) (ucast y) 15) (\<lambda>(r, l, newLeaf).
        let st = (if newLeaf then link_leaf l r x y ((leaf_store m)(l \<mapsto> new_leaf)) else leaf_store m)
        in Some \<lparr>root = r, leaf_store = change_leaf (Some l) (put_tile merge x y z t) st\<rparr>))"

definition empty_map :: "'tile game_map" where
  "empty_map = \<lparr>root = QNode None None None None, leaf_store = Map.empty\<rparr>"

section \<open>Paths\<close>

text \<open>The children a search goes through, given the coordinates' bits from the fifteenth down.\<close>

fun path :: "nat \<Rightarrow> u32 \<Rightarrow> u32 \<Rightarrow> u32 list" where
  "path 0 x y = []"
| "path (Suc n) x y = child_index x y # path n (push_bit 1 x) (push_bit 1 y)"

fun wf_tree :: "nat \<Rightarrow> qtree \<Rightarrow> bool" where
  "wf_tree 0 t = (\<exists>l. t = QLeaf l)"
| "wf_tree (Suc n) (QLeaf l) = False"
| "wf_tree (Suc n) (QNode a b c d) = (\<forall>t \<in> set_option a \<union> set_option b \<union> set_option c \<union> set_option d. wf_tree n t)"

fun at_path :: "u32 list \<Rightarrow> qtree \<Rightarrow> nat option" where
  "at_path [] (QLeaf l) = Some l"
| "at_path (i # is) (QNode a b c d) = (case get_child i a b c d of None \<Rightarrow> None | Some n \<Rightarrow> at_path is n)"
| "at_path _ _ = None"

lemma get_child_wf: "wf_tree (Suc n) (QNode a b c d) \<Longrightarrow> get_child i a b c d = Some t \<Longrightarrow> wf_tree n t"
  by (auto split: if_splits)

lemma wf_SucE: "wf_tree (Suc n) t \<Longrightarrow> (\<And>a b c d. t = QNode a b c d \<Longrightarrow> P) \<Longrightarrow> P"
  by (cases t) auto

lemma getLeaf_path: "wf_tree n t \<Longrightarrow> getLeaf t x y = at_path (path n x y) t"
proof (induction n arbitrary: t x y)
  case (Suc n)
  then obtain a b c d where t: "t = QNode a b c d" by (auto elim: wf_SucE)
  show ?case
    using Suc.IH get_child_wf [OF Suc.prems [unfolded t]] unfolding t
    by (auto simp del: get_child.simps wf_tree.simps split: option.split)
qed auto

lemma getLeafStatic_eq: "wf_tree (Suc n) t \<Longrightarrow> getLeafStatic t x y = getLeaf t x y"
proof (induction n arbitrary: t x y)
  case (0 t x y)
  then obtain a b c d where t: "t = QNode a b c d" by (auto elim: wf_SucE)
  show ?case
  proof (cases "get_child (child_index x y) a b c d")
    case (Some s)
    then obtain l where "s = QLeaf l" using get_child_wf [OF 0 [unfolded t]] by fastforce
    then show ?thesis using Some t by (simp del: get_child.simps)
  qed (simp add: t del: get_child.simps)
next
  case (Suc n)
  then obtain a b c d where t: "t = QNode a b c d" by (auto elim: wf_SucE)
  show ?case
  proof (cases "get_child (child_index x y) a b c d")
    case (Some s)
    then have wf: "wf_tree (Suc n) s" using get_child_wf [OF Suc.prems [unfolded t]] by blast
    then obtain a' b' c' d' where "s = QNode a' b' c' d'" by (auto elim: wf_SucE)
    then show ?thesis using Some t Suc.IH [OF wf] by (simp del: get_child.simps)
  qed (simp add: t del: get_child.simps)
qed

text \<open>Two places have the same path just when they agree from the third bit to the fifteenth.\<close>

lemma child_index_eq:
  "child_index x y = child_index x' y' \<longleftrightarrow> bit x 15 = bit x' 15 \<and> bit y 15 = bit y' 15"
proof -
  have i: "bit (child_index x y) n \<longleftrightarrow> n = 0 \<and> bit x 15 \<or> n = 1 \<and> bit y 15" for x y n
    unfolding child_index_def by (auto simp: bit_simps numeral_eq_Suc less_Suc_eq)
  show ?thesis
  proof
    assume e: "child_index x y = child_index x' y'"
    have "bit (child_index x y) 0 = bit (child_index x' y') 0" "bit (child_index x y) 1 = bit (child_index x' y') 1"
      by (simp_all only: e)
    then show "bit x 15 = bit x' 15 \<and> bit y 15 = bit y' 15" by (simp add: i)
  qed (auto intro!: bit_word_eqI simp: i)
qed

lemma bit_push1: "bit (push_bit 1 (v :: u32)) j \<longleftrightarrow> 1 \<le> j \<and> j < 32 \<and> bit v (j - 1)"
  by (auto simp only: bit_simps) auto

lemma path_eq:
  "n \<le> 13 \<Longrightarrow> path n x y = path n x' y' \<longleftrightarrow>
     (\<forall>i. 15 - n < i \<and> i \<le> 15 \<longrightarrow> bit x i = bit x' i \<and> bit y i = bit y' i)"
proof (induction n arbitrary: x y x' y')
  case (Suc n)
  have shift: "(\<forall>i. 15 - n < i \<and> i \<le> 15 \<longrightarrow> bit (push_bit 1 v) i = bit (push_bit 1 w) i) \<longleftrightarrow>
      (\<forall>i. 15 - Suc n < i \<and> i < 15 \<longrightarrow> bit v i = bit w i)" for v w :: u32
  proof (rule iffI; intro allI impI)
    fix i assume a: "\<forall>i. 15 - n < i \<and> i \<le> 15 \<longrightarrow> bit (push_bit 1 v) i = bit (push_bit 1 w) i" "15 - Suc n < i \<and> i < 15"
    then have "bit (push_bit 1 v) (Suc i) = bit (push_bit 1 w) (Suc i)" using Suc.prems by auto
    then show "bit v i = bit w i" using a(2) by (simp only: bit_push1) simp
  next
    fix i assume a: "\<forall>i. 15 - Suc n < i \<and> i < 15 \<longrightarrow> bit v i = bit w i" "15 - n < i \<and> i \<le> 15"
    then have "15 - Suc n < i - 1 \<and> i - 1 < 15" using Suc.prems by arith
    with a(1) have "bit v (i - 1) = bit w (i - 1)" by blast
    then show "bit (push_bit 1 v) i = bit (push_bit 1 w) i" by (simp only: bit_push1)
  qed
  have rest: "path n (push_bit 1 x) (push_bit 1 y) = path n (push_bit 1 x') (push_bit 1 y') \<longleftrightarrow>
      (\<forall>i. 15 - n < i \<and> i \<le> 15 \<longrightarrow> bit (push_bit 1 x) i = bit (push_bit 1 x') i) \<and>
      (\<forall>i. 15 - n < i \<and> i \<le> 15 \<longrightarrow> bit (push_bit 1 y) i = bit (push_bit 1 y') i)"
    using Suc.IH [OF Suc_leD [OF Suc.prems], of "push_bit 1 x" "push_bit 1 y" "push_bit 1 x'" "push_bit 1 y'"] by blast
  have "path (Suc n) x y = path (Suc n) x' y' \<longleftrightarrow> (bit x 15 = bit x' 15 \<and> bit y 15 = bit y' 15) \<and>
      (\<forall>i. 15 - Suc n < i \<and> i < 15 \<longrightarrow> bit x i = bit x' i) \<and> (\<forall>i. 15 - Suc n < i \<and> i < 15 \<longrightarrow> bit y i = bit y' i)"
    by (simp only: path.simps list.inject child_index_eq rest shift)
  also have "\<dots> \<longleftrightarrow> (\<forall>i. 15 - Suc n < i \<and> i \<le> 15 \<longrightarrow> bit x i = bit x' i \<and> bit y i = bit y' i)"
  proof -
    have "15 - Suc n < 15" by simp
    then show ?thesis unfolding le_less [of _ "15 :: nat"] by blast
  qed
  finally show ?case .
qed auto

text \<open>The block of eight by eight that a leaf stands for.\<close>

abbreviation block_path :: "u32 \<Rightarrow> u32 \<Rightarrow> u32 list" where
  "block_path \<equiv> path 13"

definition block :: "u32 \<Rightarrow> nat" where
  "block v = unat v div 8 mod 8192"

lemma block_bits: "block v = block w \<longleftrightarrow> (\<forall>i. 2 < i \<and> i \<le> 15 \<longrightarrow> bit v i = bit w i)"
proof -
  have b: "bit (block v) i \<longleftrightarrow> i < 13 \<and> bit v (i + 3)" for v i
  proof -
    have "block v = take_bit 13 (drop_bit 3 (unat v))"
      by (simp add: block_def take_bit_eq_mod drop_bit_eq_div)
    then show ?thesis by (simp only: bit_take_bit_iff bit_drop_bit_eq comp_def bit_unsigned_iff) (auto simp: ac_simps)
  qed
  show ?thesis
  proof
    assume e: "block v = block w"
    show "\<forall>i. 2 < i \<and> i \<le> 15 \<longrightarrow> bit v i = bit w i"
    proof (intro allI impI)
      fix i :: nat assume "2 < i \<and> i \<le> 15"
      then have "i - 3 < 13" "i - 3 + 3 = i" by auto
      then show "bit v i = bit w i" using b [of v "i - 3"] b [of w "i - 3"] e by simp
    qed
  qed (auto simp: bit_eq_iff [of "block v"] b)
qed

lemma block_path_eq: "block_path x y = block_path x' y' \<longleftrightarrow> block x = block x' \<and> block y = block y'"
  unfolding path_eq [OF order_refl] block_bits by auto

lemma block_add: "block (v + FLOOR_SIZE) = (block v + 1) mod 8192"
proof -
  have "unat (v + 8) = (unat v + 8) mod 2 ^ 32" by (simp add: unat_word_ariths)
  moreover have "(a + 8) mod 2 ^ 32 div 8 mod 8192 = (a div 8 + 1) mod 8192" for a :: nat
  proof -
    have "(a + 8) mod (8 * 536870912) div 8 = (a + 8) div 8 mod 536870912"
      unfolding mod_mult2_eq by simp
    moreover have "(a + 8) div 8 mod 536870912 mod 8192 = (a + 8) div 8 mod 8192"
      by (rule mod_mod_cancel) simp
    moreover have "(a + 8) div 8 = a div 8 + 1" using div_add_self2 [of 8 a] by simp
    ultimately show ?thesis by simp
  qed
  ultimately show ?thesis by (simp add: block_def FLOOR_SIZE_def mod_Suc_eq)
qed

lemma block_range: "block v < 8192"
  by (simp add: block_def)

lemma block_add_iff: "block (v + FLOOR_SIZE) = block w \<longleftrightarrow> block v = block (w - FLOOR_SIZE)"
proof -
  have "block w = (block (w - FLOOR_SIZE) + 1) mod 8192"
    using block_add [of "w - FLOOR_SIZE"] by simp
  moreover have "(p + 1) mod 8192 = (q + 1) mod 8192 \<longleftrightarrow> p = q" if "p < 8192" "q < 8192" for p q :: nat
  proof -
    have "(r + 1) mod 8192 = (if r = 8191 then 0 else r + 1)" if "r < 8192" for r :: nat using that by auto
    then show ?thesis using that by auto
  qed
  ultimately show ?thesis
    using block_range [of v] block_range [of "w - FLOOR_SIZE"] unfolding block_add by metis
qed

section \<open>Making a leaf\<close>

lemma child_index_range: "child_index x y \<in> {0, 1, 2, 3}"
proof -
  have "child_index x y = of_bool (bit x 15) OR push_bit 1 (of_bool (bit y 15))"
    unfolding child_index_def
    by (rule bit_word_eqI) (auto simp: bit_simps numeral_eq_Suc less_Suc_eq)
  then show ?thesis by (cases "bit x 15"; cases "bit y 15") simp_all
qed

lemma get_set_child:
  assumes "i \<in> {0, 1, 2, 3}" "j \<in> {0, 1, 2, 3}" "set_child i n a b c d = QNode a' b' c' d'"
  shows "get_child j a' b' c' d' = (if j = i then Some n else get_child j a b c d)"
  using assms by auto

lemma set_child_wf:
  assumes "wf_tree (Suc m) (QNode a b c d)" "wf_tree m n"
  shows "\<exists>a' b' c' d'. set_child i n a b c d = QNode a' b' c' d' \<and> wf_tree (Suc m) (QNode a' b' c' d')"
  using assms by auto

lemma level_down: "of_nat (Suc n + 2) - 1 = (of_nat (n + 2) :: u32)"
  by simp

lemma level_leaf: "n \<le> 13 \<Longrightarrow> of_nat (Suc n + 2) = FLOOR_BITS \<longleftrightarrow> n = 0"
proof -
  assume n: "n \<le> 13"
  have "unat (of_nat (Suc n + 2) :: u32) = Suc n + 2" using n by (simp only: unat_of_nat) (simp add: take_bit_nat_eq_self)
  moreover have "unat FLOOR_BITS = 3" by (simp add: FLOOR_BITS_def)
  ultimately show ?thesis unfolding word_unat_eq_iff by simp
qed

definition createLeaf_post :: "nat \<Rightarrow> nat \<Rightarrow> qtree \<Rightarrow> u32 \<Rightarrow> u32 \<Rightarrow> qtree \<times> nat \<times> bool \<Rightarrow> bool" where
  "createLeaf_post n fresh t x y res = (case res of (t', l, new) \<Rightarrow>
     wf_tree n t' \<and> at_path (path n x y) t' = Some l \<and>
     (\<forall>x' y'. path n x' y' \<noteq> path n x y \<longrightarrow> at_path (path n x' y') t' = at_path (path n x' y') t) \<and>
     (if new then at_path (path n x y) t = None \<and> l = fresh else at_path (path n x y) t = Some l))"

lemma at_path_node:
  "at_path (path (Suc n) x y) (QNode a b c d) =
     (case get_child (child_index x y) a b c d of None \<Rightarrow> None | Some s \<Rightarrow> at_path (path n (push_bit 1 x) (push_bit 1 y)) s)"
  by (simp only: path.simps at_path.simps)

lemma empty_node: "wf_tree (Suc m) (QNode None None None None)" "at_path (path (Suc m) x y) (QNode None None None None) = None"
  by (simp_all add: at_path_node)

lemma createLeaf_ok:
  "n \<le> 13 \<Longrightarrow> wf_tree n t \<Longrightarrow> \<exists>res. createLeaf fresh t x y (of_nat (n + 2)) = Some res \<and> createLeaf_post n fresh t x y res"
proof (induction n arbitrary: t x y)
  case 0
  then obtain l where "t = QLeaf l" by auto
  then show ?case by (subst createLeaf.simps) (simp add: createLeaf_post_def)
next
  case (Suc n)
  from Suc.prems obtain a b c d where t: "t = QNode a b c d" by (auto elim: wf_SucE)
  let ?i = "child_index x y" and ?x = "push_bit 1 x" and ?y = "push_bit 1 y"
  obtain s made where s: "(case get_child ?i a b c d of
      Some n \<Rightarrow> (n, False)
    | None \<Rightarrow> if of_nat (Suc n + 2) \<noteq> FLOOR_BITS then (QNode None None None None, False) else (QLeaf fresh, True)) = (s, made)"
    by (cases "case get_child ?i a b c d of
      Some n \<Rightarrow> (n, False)
    | None \<Rightarrow> if of_nat (Suc n + 2) \<noteq> FLOOR_BITS then (QNode None None None None, False) else (QLeaf fresh, True)")
  have n: "n \<le> 13" using Suc.prems(1) by simp
  have old: "get_child ?i a b c d = Some s \<and> \<not> made \<or>
      get_child ?i a b c d = None \<and> (if n = 0 then s = QLeaf fresh \<and> made else s = QNode None None None None \<and> \<not> made)"
    using s level_leaf [OF n] by (auto simp del: get_child.simps split: option.splits if_split_asm)
  have wf_s: "wf_tree n s"
    using old get_child_wf [OF Suc.prems(2) [unfolded t]] by (cases n) (auto simp del: get_child.simps)
  obtain s' l new where IH: "createLeaf fresh s ?x ?y (of_nat (n + 2)) = Some (s', l, new)"
    "createLeaf_post n fresh s ?x ?y (s', l, new)"
    using Suc.IH [OF n wf_s, of ?x ?y] by (metis prod_cases3)
  have post: "wf_tree n s'" "at_path (path n ?x ?y) s' = Some l"
    "\<And>x' y'. path n x' y' \<noteq> path n ?x ?y \<Longrightarrow> at_path (path n x' y') s' = at_path (path n x' y') s"
    "if new then at_path (path n ?x ?y) s = None \<and> l = fresh else at_path (path n ?x ?y) s = Some l"
    using IH(2) by (auto simp: createLeaf_post_def)
  obtain a' b' c' d' where q: "set_child ?i s' a b c d = QNode a' b' c' d'" "wf_tree (Suc n) (QNode a' b' c' d')"
    using set_child_wf [OF Suc.prems(2) [unfolded t] post(1)] by blast
  have eq: "createLeaf fresh t x y (of_nat (Suc n + 2)) = Some (QNode a' b' c' d', l, new \<or> made)"
  proof -
    have "createLeaf fresh s (x * 2) (y * 2) (of_nat (Suc n + 2) - 1) = Some (s', l, new)"
      using IH(1) unfolding level_down by (simp add: push_bit_eq_mult)
    then show ?thesis unfolding t
      by (subst createLeaf.simps) (simp only: qtree.case Let_def s prod.case bind.simps q(1))
  qed
  have child: "get_child (child_index x' y') a' b' c' d' = (if child_index x' y' = ?i then Some s' else get_child (child_index x' y') a b c d)" for x' y'
    by (rule get_set_child [OF child_index_range child_index_range q(1)])
  have other: "at_path (path (Suc n) x' y') (QNode a' b' c' d') = at_path (path (Suc n) x' y') t"
    if "path (Suc n) x' y' \<noteq> path (Suc n) x y" for x' y'
  proof (cases "child_index x' y' = ?i")
    case True
    then have p: "path n (push_bit 1 x') (push_bit 1 y') \<noteq> path n ?x ?y" using that by simp
    have "at_path (path n (push_bit 1 x') (push_bit 1 y')) s = None" if "get_child ?i a b c d = None"
    proof (cases n)
      case 0
      then show ?thesis using p by simp
    next
      case (Suc m)
      then have "s = QNode None None None None" using old that by simp
      then show ?thesis by (simp only: Suc empty_node(2))
    qed
    then show ?thesis
      unfolding t at_path_node child True using post(3) [OF p] old
      by (auto simp del: get_child.simps split: option.split)
  next
    case False
    then show ?thesis unfolding t at_path_node child by simp
  qed
  have here: "at_path (path (Suc n) x y) (QNode a' b' c' d') = Some l"
    unfolding at_path_node child using post(2) by simp
  have fresh_none: "at_path (path n x0 y0) s = None" if "get_child ?i a b c d = None" "n \<noteq> 0" for x0 y0
  proof (cases n)
    case (Suc m)
    then have "s = QNode None None None None" using old that by simp
    then show ?thesis by (simp only: Suc empty_node(2))
  qed (use that in simp)
  have before: "if new \<or> made then at_path (path (Suc n) x y) t = None \<and> l = fresh else at_path (path (Suc n) x y) t = Some l"
  proof (cases "get_child ?i a b c d")
    case None
    then show ?thesis
      using old post(4) fresh_none [OF None, of ?x ?y] unfolding t at_path_node
      by (cases "n = 0") (auto simp del: get_child.simps split: if_split_asm)
  next
    case (Some s0)
    then show ?thesis using old post(4) unfolding t at_path_node by (auto simp del: get_child.simps)
  qed
  show ?case
    unfolding eq createLeaf_post_def using q(2) here other before by auto
qed

section \<open>Setting a tile\<close>

text \<open>
  A map is well formed when the tree has its depth, every leaf of it is in the store and stands for one
  block, and the links of a leaf lead to the leaves of the blocks in the south and in the east, if they
  are there.
\<close>

definition map_ok :: "'tile game_map \<Rightarrow> bool" where
  "map_ok m \<longleftrightarrow> wf_tree 13 (root m) \<and>
     (\<forall>x y l. getLeaf (root m) x y = Some l \<longrightarrow> (\<exists>lf. leaf_store m l = Some lf \<and>
        leafS lf = getLeaf (root m) x (y + FLOOR_SIZE) \<and> leafE lf = getLeaf (root m) (x + FLOOR_SIZE) y)) \<and>
     (\<forall>x y x' y' l. getLeaf (root m) x y = Some l \<longrightarrow> getLeaf (root m) x' y' = Some l \<longrightarrow> block x = block x' \<and> block y = block y')"

lemma map_okD:
  assumes "map_ok m"
  shows "wf_tree 13 (root m)"
    "getLeaf (root m) x y = Some l \<Longrightarrow> \<exists>lf. leaf_store m l = Some lf \<and>
        leafS lf = getLeaf (root m) x (y + FLOOR_SIZE) \<and> leafE lf = getLeaf (root m) (x + FLOOR_SIZE) y"
    "getLeaf (root m) x y = Some l \<Longrightarrow> getLeaf (root m) x' y' = Some l \<Longrightarrow> block x = block x' \<and> block y = block y'"
  using assms unfolding map_ok_def by blast+

lemma getLeaf_block: "wf_tree 13 t \<Longrightarrow> block x = block x' \<Longrightarrow> block y = block y' \<Longrightarrow> getLeaf t x y = getLeaf t x' y'"
  using block_path_eq [of x y x' y'] by (metis getLeaf_path)

text \<open>The tree after making a leaf, seen through \<open>getLeaf\<close>.\<close>

lemma createLeaf_getLeaf:
  assumes "wf_tree 13 t"
  shows "\<exists>t' l new. createLeaf fresh t x y 15 = Some (t', l, new) \<and> wf_tree 13 t' \<and>
    (\<forall>x' y'. getLeaf t' x' y' = (if block x' = block x \<and> block y' = block y then Some l else getLeaf t x' y')) \<and>
    (if new then getLeaf t x y = None \<and> l = fresh else getLeaf t x y = Some l)"
proof -
  have "(15 :: u32) = of_nat (13 + 2)" by simp
  then obtain t' l new where c: "createLeaf fresh t x y 15 = Some (t', l, new)" "createLeaf_post 13 fresh t x y (t', l, new)"
    using createLeaf_ok [OF order_refl assms, of fresh x y] by (metis prod_cases3)
  then have wf: "wf_tree 13 t'" by (simp add: createLeaf_post_def)
  have "getLeaf t' x' y' = (if block x' = block x \<and> block y' = block y then Some l else getLeaf t x' y')" for x' y'
    using c(2) block_path_eq [of x' y' x y] unfolding getLeaf_path [OF wf] getLeaf_path [OF assms] createLeaf_post_def by auto
  then show ?thesis using c wf by (auto simp: createLeaf_post_def getLeaf_path [OF assms])
qed

text \<open>What linking changes: the links only.\<close>

lemma change_leaf_at:
  "change_leaf a f st k = (if a = Some k then map_option f (st k) else st k)"
  by (cases a; cases "st (the a)") (auto simp: change_leaf_def)

lemma link_leaf_at:
  fixes x y
  defines "N \<equiv> \<lambda>t. getLeaf t (ucast x) (ucast y - FLOOR_SIZE)" and "W \<equiv> \<lambda>t. getLeaf t (ucast x - FLOOR_SIZE) (ucast y)"
    and "S \<equiv> \<lambda>t. getLeaf t (ucast x) (ucast y + FLOOR_SIZE)" and "E \<equiv> \<lambda>t. getLeaf t (ucast x + FLOOR_SIZE) (ucast y)"
  assumes "N t \<noteq> Some l" "W t \<noteq> Some l" "st l = Some new_leaf"
  shows "link_leaf l t x y st k = map_option (\<lambda>lf. lf\<lparr>
     leafS := (if k = l then S t else if N t = Some k then Some l else leafS lf),
     leafE := (if k = l then E t else if W t = Some k then Some l else leafE lf)\<rparr>) (st k)"
  using assms(5-)
  by (cases "k = l"; cases "st k") (auto simp: link_leaf_def change_leaf_at Let_def N_def W_def S_def E_def new_leaf_def option.map_comp option.map_ident comp_def
      split: option.splits)

lemma setTile_shape:
  assumes ok: "map_ok m" and fresh: "leaf_store m fresh = None" and z: "z < MAP_MAX_LAYERS"
  shows "\<exists>r l st. setTile merge fresh x y z t m = Some \<lparr>root = r, leaf_store = change_leaf (Some l) (put_tile merge x y z t) st\<rparr> \<and>
    map_ok \<lparr>root = r, leaf_store = st\<rparr> \<and>
    (\<forall>x' y'. getLeaf r x' y' = (if block x' = block (ucast x) \<and> block y' = block (ucast y) then Some l else getLeaf (root m) x' y')) \<and>
    (\<forall>k. k \<noteq> l \<longrightarrow> map_option floor_array (st k) = map_option floor_array (leaf_store m k)) \<and>
    map_option floor_array (st l) = Some (case getLeaf (root m) (ucast x) (ucast y) of None \<Rightarrow> (\<lambda>_. None) | Some l \<Rightarrow> floor_array (the (leaf_store m l))) \<and>
    (l = fresh \<or> leaf_store m l \<noteq> None)"
proof -
  note okD = map_okD [OF ok]
  let ?x = "ucast x :: u32" and ?y = "ucast y :: u32"
  obtain r l new where c: "createLeaf fresh (root m) ?x ?y 15 = Some (r, l, new)" "wf_tree 13 r"
    "\<And>x' y'. getLeaf r x' y' = (if block x' = block ?x \<and> block y' = block ?y then Some l else getLeaf (root m) x' y')"
    "if new then getLeaf (root m) ?x ?y = None \<and> l = fresh else getLeaf (root m) ?x ?y = Some l"
    using createLeaf_getLeaf [OF okD(1), of fresh ?x ?y] by (elim exE conjE) (rule that; blast)
  show ?thesis
  proof (cases new)
    case False
    then have l: "getLeaf (root m) ?x ?y = Some l" using c(4) by simp
    have same: "getLeaf r x' y' = getLeaf (root m) x' y'" for x' y'
    proof (cases "block x' = block ?x \<and> block y' = block ?y")
      case True
      then have "getLeaf (root m) x' y' = Some l" using l getLeaf_block [OF okD(1), of x' ?x y' ?y] by metis
      then show ?thesis using True unfolding c(3) by simp
    next
      case False
      then show ?thesis unfolding c(3) by (simp only: if_False)
    qed
    have "map_ok \<lparr>root = r, leaf_store = leaf_store m\<rparr>"
      using ok c(2) unfolding map_ok_def by (simp only: same game_map.simps) blast
    moreover have "setTile merge fresh x y z t m =
        Some \<lparr>root = r, leaf_store = change_leaf (Some l) (put_tile merge x y z t) (leaf_store m)\<rparr>"
      using False c(1) z by (simp add: setTile_def)
    moreover obtain lf where "leaf_store m l = Some lf" using okD(2) [OF l] by blast
    ultimately show ?thesis using c(3) l
      by (intro exI [of _ r] exI [of _ l] exI [of _ "leaf_store m"] conjI allI) simp_all
  next
    case True
    then have none: "getLeaf (root m) ?x ?y = None" and l: "l = fresh" using c(4) by auto
    have other: "getLeaf (root m) x' y' \<noteq> Some l" for x' y'
      using okD(2) [of x' y' l] fresh l by auto
    have one: "1 < (8192 :: nat)" by simp
    have N: "getLeaf r ?x (?y - FLOOR_SIZE) \<noteq> Some l" and W: "getLeaf r (?x - FLOOR_SIZE) ?y \<noteq> Some l"
      unfolding c(3) using other block_add [of "?y - FLOOR_SIZE"] block_add [of "?x - FLOOR_SIZE"] block_range
      by (auto simp: mod_Suc split: if_split_asm)
    define st where "st = link_leaf l r x y ((leaf_store m)(l \<mapsto> new_leaf))"
    have st: "st k = map_option (\<lambda>lf. lf\<lparr>
        leafS := (if k = l then getLeaf r ?x (?y + FLOOR_SIZE) else if getLeaf r ?x (?y - FLOOR_SIZE) = Some k then Some l else leafS lf),
        leafE := (if k = l then getLeaf r (?x + FLOOR_SIZE) ?y else if getLeaf r (?x - FLOOR_SIZE) ?y = Some k then Some l else leafE lf)\<rparr>)
        (((leaf_store m)(l \<mapsto> new_leaf)) k)" for k
      unfolding st_def by (rule link_leaf_at [OF N W]) simp
    have inj: "block a = block a' \<and> block b = block b'"
      if "getLeaf r a b = Some k" "getLeaf r a' b' = Some k" for a b a' b' k
    proof -
      have in_block: "block a = block ?x \<and> block b = block ?y" if "getLeaf r a b = Some l" for a b
        using that other [of a b] unfolding c(3) by (simp split: if_split_asm)
      have old: "getLeaf (root m) a b = Some k" if "getLeaf r a b = Some k" "k \<noteq> l" for a b
        using that unfolding c(3) by (simp split: if_split_asm)
      show ?thesis
      proof (cases "k = l")
        case True
        then show ?thesis using in_block that by metis
      next
        case False
        then show ?thesis using okD(3) old that by blast
      qed
    qed
    have links: "\<exists>lf. st k = Some lf \<and> leafS lf = getLeaf r a (b + FLOOR_SIZE) \<and> leafE lf = getLeaf r (a + FLOOR_SIZE) b"
      if k: "getLeaf r a b = Some k" for a b k
    proof (cases "block a = block ?x \<and> block b = block ?y")
      case True
      then have "k = l" using k unfolding c(3) by simp
      moreover have "getLeaf r a (b + FLOOR_SIZE) = getLeaf r ?x (?y + FLOOR_SIZE)" "getLeaf r (a + FLOOR_SIZE) b = getLeaf r (?x + FLOOR_SIZE) ?y"
        using True by (intro getLeaf_block [OF c(2)]; simp add: block_add)+
      ultimately show ?thesis by (simp add: st)
    next
      case False
      then have old: "getLeaf (root m) a b = Some k" using k unfolding c(3) by (simp only: if_False)
      then have kl: "k \<noteq> l" using other by blast
      obtain lf where lf: "leaf_store m k = Some lf" "leafS lf = getLeaf (root m) a (b + FLOOR_SIZE)" "leafE lf = getLeaf (root m) (a + FLOOR_SIZE) b"
        using okD(2) [OF old] by blast
      have south: "getLeaf r ?x (?y - FLOOR_SIZE) = Some k \<longleftrightarrow> block a = block ?x \<and> block (b + FLOOR_SIZE) = block ?y"
        using inj [OF k, of ?x "?y - FLOOR_SIZE"] getLeaf_block [OF c(2), of a ?x b "?y - FLOOR_SIZE"] k
        unfolding block_add_iff by metis
      have east: "getLeaf r (?x - FLOOR_SIZE) ?y = Some k \<longleftrightarrow> block (a + FLOOR_SIZE) = block ?x \<and> block b = block ?y"
        using inj [OF k, of "?x - FLOOR_SIZE" ?y] getLeaf_block [OF c(2), of a "?x - FLOOR_SIZE" b ?y] k
        unfolding block_add_iff by metis
      show ?thesis
        unfolding st using lf kl south east c(3) [of a "b + FLOOR_SIZE"] c(3) [of "a + FLOOR_SIZE" b] by simp
    qed
    have "map_ok \<lparr>root = r, leaf_store = st\<rparr>"
      unfolding map_ok_def game_map.simps using c(2) links inj by blast
    moreover have "setTile merge fresh x y z t m = Some \<lparr>root = r, leaf_store = change_leaf (Some l) (put_tile merge x y z t) st\<rparr>"
      using True c(1) z by (simp add: setTile_def st_def)
    moreover have "map_option floor_array (st k) = map_option floor_array (leaf_store m k)" if "k \<noteq> l" for k
      using that by (simp add: st option.map_comp comp_def)
    moreover have "map_option floor_array (st l) = Some (\<lambda>_. None)" by (simp add: st new_leaf_def)
    ultimately show ?thesis using c(3) none l
      by (intro exI [of _ r] exI [of _ l] exI [of _ st] conjI allI) simp_all
  qed
qed

text \<open>Coordinates are a block and an offset within it.\<close>

lemma block_ucast: "block (ucast (x :: u16)) = unat x div 8"
proof -
  have "unat x < 65536" using unsigned_less [of x, where 'a = nat] by simp
  moreover have "unat (ucast x :: u32) = unat x"
    using \<open>unat x < 65536\<close> by (simp add: unsigned_ucast_eq take_bit_nat_eq_self)
  ultimately show ?thesis by (simp add: block_def)
qed

lemma unat_offset: "unat (x AND FLOOR_MASK) = unat x mod 8"
proof -
  have "x AND FLOOR_MASK = take_bit 3 x"
    by (simp add: FLOOR_MASK_def take_bit_eq_mask mask_numeral)
  then show ?thesis by (simp only: unsigned_take_bit_eq) (simp add: take_bit_eq_mod)
qed

lemma coordinate_split:
  "x = x' \<longleftrightarrow> block (ucast x) = block (ucast x') \<and> x AND FLOOR_MASK = x' AND FLOOR_MASK" for x x' :: u16
proof
  assume "block (ucast x) = block (ucast x') \<and> x AND FLOOR_MASK = x' AND FLOOR_MASK"
  then have "unat x div 8 = unat x' div 8" "unat x mod 8 = unat x' mod 8"
    using unat_offset [of x] unat_offset [of x'] by (simp_all add: block_ucast)
  then show "x = x'" by (metis div_mult_mod_eq word_unat_eq_iff)
qed simp

definition floor_of :: "'tile game_map \<Rightarrow> u16 \<Rightarrow> u16 \<Rightarrow> u8 \<Rightarrow> 'tile floor option" where
  "floor_of m x y = (case getLeaf (root m) (ucast x) (ucast y) of None \<Rightarrow> (\<lambda>_. None) | Some l \<Rightarrow> floor_array (the (leaf_store m l)))"

lemma getTile_floor:
  assumes "map_ok m"
  shows "getTile m x y z = (if z \<ge> MAP_MAX_LAYERS then None
    else case floor_of m x y z of None \<Rightarrow> None | Some fl \<Rightarrow> fl (x AND FLOOR_MASK) (y AND FLOOR_MASK))"
proof -
  have "wf_tree (Suc 12) (root m)" using map_okD(1) [OF assms] by (simp add: numeral_eq_Suc)
  from getLeafStatic_eq [OF this] show ?thesis
    using map_okD(2) [OF assms, of "ucast x" "ucast y"]
    by (auto simp: getTile_def floor_of_def split: option.split)
qed

lemma map_ok_change:
  assumes "map_ok \<lparr>root = r, leaf_store = st\<rparr>" "\<And>lf. leafS (f lf) = leafS lf" "\<And>lf. leafE (f lf) = leafE lf"
  shows "map_ok \<lparr>root = r, leaf_store = change_leaf a f st\<rparr>"
proof -
  have "\<exists>lf. change_leaf a f st l = Some lf \<and> leafS lf = s \<and> leafE lf = e"
    if "\<exists>lf. st l = Some lf \<and> leafS lf = s \<and> leafE lf = e" for l s e
    using that assms(2,3) by (auto simp: change_leaf_at)
  then show ?thesis using assms(1) unfolding map_ok_def game_map.simps by blast
qed

definition tile_at :: "'tile game_map \<Rightarrow> position \<Rightarrow> 'tile option" where
  "tile_at m p = getTile m (pos_x p) (pos_y p) (pos_z p)"

text \<open>The specification: a map from positions to tiles.\<close>

definition set_tile_spec :: "('tile \<Rightarrow> 'tile \<Rightarrow> 'tile) \<Rightarrow> position \<Rightarrow> 'tile \<Rightarrow> (position \<rightharpoonup> 'tile) \<Rightarrow> (position \<rightharpoonup> 'tile)" where
  "set_tile_spec merge p t f =
     (if pos_z p < MAP_MAX_LAYERS then f(p \<mapsto> (case f p of None \<Rightarrow> t | Some old \<Rightarrow> merge old t)) else f)"

lemma setTile_ok:
  assumes ok: "map_ok m" and fresh: "leaf_store m fresh = None"
  shows "\<exists>m'. setTile merge fresh (pos_x p) (pos_y p) (pos_z p) t m = Some m' \<and> map_ok m' \<and>
    tile_at m' = set_tile_spec merge p t (tile_at m) \<and> (\<forall>k. leaf_store m' k \<noteq> None \<longrightarrow> k = fresh \<or> leaf_store m k \<noteq> None)"
proof (cases "pos_z p < MAP_MAX_LAYERS")
  case False
  then have "MAP_MAX_LAYERS \<le> pos_z p" by simp
  with False show ?thesis using ok by (simp add: setTile_def set_tile_spec_def del: not_less)
next
  case z: True
  obtain x y h where p: "p = Position x y h" by (cases p)
  have h: "h < MAP_MAX_LAYERS" using z p by simp
  obtain r l st where S: "setTile merge fresh x y h t m = Some \<lparr>root = r, leaf_store = change_leaf (Some l) (put_tile merge x y h t) st\<rparr> \<and>
    map_ok \<lparr>root = r, leaf_store = st\<rparr> \<and>
    (\<forall>x' y'. getLeaf r x' y' = (if block x' = block (ucast x) \<and> block y' = block (ucast y) then Some l else getLeaf (root m) x' y')) \<and>
    (\<forall>k. k \<noteq> l \<longrightarrow> map_option floor_array (st k) = map_option floor_array (leaf_store m k)) \<and>
    map_option floor_array (st l) = Some (floor_of m x y) \<and> (l = fresh \<or> leaf_store m l \<noteq> None)"
    using setTile_shape [OF ok fresh h, of merge x y t, folded floor_of_def] by (elim exE) (rule that)
  note s = S [THEN conjunct1] S [THEN conjunct2, THEN conjunct1] S [THEN conjunct2, THEN conjunct2, THEN conjunct1, rule_format]
    S [THEN conjunct2, THEN conjunct2, THEN conjunct2, THEN conjunct1, rule_format]
    S [THEN conjunct2, THEN conjunct2, THEN conjunct2, THEN conjunct2, THEN conjunct1]
    S [THEN conjunct2, THEN conjunct2, THEN conjunct2, THEN conjunct2, THEN conjunct2]
  define m' where "m' = \<lparr>root = r, leaf_store = change_leaf (Some l) (put_tile merge x y h t) st\<rparr>"
  have ok': "map_ok m'" unfolding m'_def
    by (rule map_ok_change [OF s(2)]) (simp_all add: put_tile_def createFloor_def Let_def)
  obtain lf where lf: "st l = Some lf" "floor_array lf = floor_of m x y" using s(5) by auto
  define ox oy where "ox = x AND FLOOR_MASK" and "oy = y AND FLOOR_MASK"
  define fl where "fl = (case floor_of m x y h of None \<Rightarrow> (\<lambda>_ _. None) | Some fl \<Rightarrow> fl)"
  define t' where "t' = (case fl ox oy of None \<Rightarrow> t | Some old \<Rightarrow> merge old t)"
  have put: "floor_array (put_tile merge x y h t lf) = (floor_of m x y)(h \<mapsto> fl(ox := (fl ox)(oy \<mapsto> t')))"
    using lf(2) by (simp add: put_tile_def createFloor_def Let_def fl_def t'_def ox_def oy_def split: option.splits)
  have floor: "floor_of m' x' y' = (if block (ucast x') = block (ucast x) \<and> block (ucast y') = block (ucast y)
      then (floor_of m x y)(h \<mapsto> fl(ox := (fl ox)(oy \<mapsto> t'))) else floor_of m x' y')" for x' y'
  proof (cases "block (ucast x') = block (ucast x) \<and> block (ucast y') = block (ucast y)")
    case True
    then show ?thesis by (simp add: floor_of_def m'_def s(3) change_leaf_at lf(1) put del: fun_upd_apply)
  next
    case False
    have "floor_array (the (change_leaf (Some l) (put_tile merge x y h t) st k)) = floor_array (the (leaf_store m k))"
      if k: "getLeaf (root m) (ucast x') (ucast y') = Some k" for k
    proof -
      have "getLeaf r (ucast x') (ucast y') = Some k" unfolding s(3) using False k by auto
      moreover have "getLeaf r (ucast x) (ucast y) = Some l" unfolding s(3) by simp
      ultimately have "k \<noteq> l" using map_okD(3) [OF s(2), of "ucast x'" "ucast y'" k "ucast x" "ucast y"] False by auto
      moreover obtain lf' where "leaf_store m k = Some lf'" using map_okD(2) [OF ok k] by blast
      ultimately show ?thesis using s(4) [of k] by (auto simp: change_leaf_at)
    qed
    then show ?thesis using False by (auto simp: floor_of_def m'_def s(3) split: option.split)
  qed
  have same_floor: "floor_of m x' y' = floor_of m x y"
    if "block (ucast x') = block (ucast x)" "block (ucast y') = block (ucast y)" for x' y'
    using getLeaf_block [OF map_okD(1) [OF ok] that] by (simp add: floor_of_def)
  have here: "getTile m x y h = fl ox oy"
    using z by (auto simp: getTile_floor [OF ok] p fl_def ox_def oy_def split: option.split)
  have "tile_at m' q = set_tile_spec merge p t (tile_at m) q" for q
  proof -
    obtain x' y' h' where q: "q = Position x' y' h'" by (cases q)
    show ?thesis
    proof (cases "block (ucast x') = block (ucast x) \<and> block (ucast y') = block (ucast y)")
      case True
      then have off: "x' = x \<longleftrightarrow> x' AND FLOOR_MASK = ox" "y' = y \<longleftrightarrow> y' AND FLOOR_MASK = oy"
        using coordinate_split [of x' x] coordinate_split [of y' y] by (simp_all add: ox_def oy_def)
      have old: "getTile m x' y' h' = (if h' \<ge> MAP_MAX_LAYERS then None
          else case floor_of m x y h' of None \<Rightarrow> None | Some fl \<Rightarrow> fl (x' AND FLOOR_MASK) (y' AND FLOOR_MASK))"
        using True same_floor [of x' y'] by (simp add: getTile_floor [OF ok])
      have new: "getTile m' x' y' h' = (if h' \<ge> MAP_MAX_LAYERS then None
          else case ((floor_of m x y)(h \<mapsto> fl(ox := (fl ox)(oy \<mapsto> t')))) h' of None \<Rightarrow> None
            | Some fl \<Rightarrow> fl (x' AND FLOOR_MASK) (y' AND FLOOR_MASK))"
        using True floor [of x' y'] by (simp add: getTile_floor [OF ok'])
      have t': "t' = (case getTile m x y h of None \<Rightarrow> t | Some old \<Rightarrow> merge old t)" by (simp add: t'_def here)
      have "getTile m' x' y' h' = (if h' = h \<and> x' = x \<and> y' = y then Some t' else getTile m x' y' h')"
        using h unfolding new old off by (auto simp: fl_def split: option.split)
      then show ?thesis using z h by (simp add: tile_at_def q p set_tile_spec_def t' conj_ac)
    next
      case False
      then have "floor_of m' x' y' = floor_of m x' y'" using floor [of x' y'] by (simp only: if_False)
      moreover have "q \<noteq> p" using False by (auto simp: q p)
      then have "set_tile_spec merge p t (tile_at m) q = tile_at m q" by (simp add: set_tile_spec_def)
      ultimately show ?thesis
        by (simp add: tile_at_def q getTile_floor [OF ok'] getTile_floor [OF ok])
    qed
  qed
  moreover have "k = fresh \<or> leaf_store m k \<noteq> None" if "leaf_store m' k \<noteq> None" for k
    using that s(4) [of k] s(6) by (cases "k = l") (auto simp: m'_def change_leaf_at)
  ultimately show ?thesis using s(1) ok' unfolding p m'_def [symmetric] by (auto simp: fun_eq_iff)
qed

text \<open>Loading a map sets tiles one after the other; the leaves are allocated at \<open>i\<close>, \<open>i + 1\<close> and so on.\<close>

fun set_tiles :: "('tile \<Rightarrow> 'tile \<Rightarrow> 'tile) \<Rightarrow> nat \<Rightarrow> (position \<times> 'tile) list \<Rightarrow> 'tile game_map \<Rightarrow> 'tile game_map option" where
  "set_tiles merge i [] m = Some m"
| "set_tiles merge i ((p, t) # ts) m =
     Option.bind (setTile merge i (pos_x p) (pos_y p) (pos_z p) t m) (set_tiles merge (Suc i) ts)"

lemma set_tiles_ok:
  "map_ok m \<Longrightarrow> \<forall>k \<ge> i. leaf_store m k = None \<Longrightarrow>
   \<exists>m'. set_tiles merge i ts m = Some m' \<and> map_ok m' \<and> tile_at m' = fold (\<lambda>(p, t). set_tile_spec merge p t) ts (tile_at m)"
proof (induction ts arbitrary: i m)
  case (Cons pt ts)
  obtain p t where pt: "pt = (p, t)" by (cases pt)
  obtain m1 where m1: "setTile merge i (pos_x p) (pos_y p) (pos_z p) t m = Some m1" "map_ok m1"
    "tile_at m1 = set_tile_spec merge p t (tile_at m)" "\<forall>k. leaf_store m1 k \<noteq> None \<longrightarrow> k = i \<or> leaf_store m k \<noteq> None"
    using setTile_ok [OF Cons.prems(1), of i merge p t] Cons.prems(2) by auto
  have "\<forall>k \<ge> Suc i. leaf_store m1 k = None" using m1(4) Cons.prems(2) by (metis Suc_leD not_less_eq_eq)
  from Cons.IH [OF m1(2) this] show ?case using m1(1,3) by (auto simp: pt)
qed simp

lemma empty_map_ok: "map_ok empty_map"
proof -
  have eq: "(13 :: nat) = Suc 12" by simp
  have "wf_tree 13 (QNode None None None None)"
    unfolding eq wf_tree.simps by simp
  then show ?thesis unfolding map_ok_def by (simp only: empty_map_def game_map.simps getLeaf.simps) simp
qed

text \<open>C13: The tree with its linked leaves implements a map from positions to tiles: whatever tiles are set in
  whatever order, every \<open>setTile\<close> returns, and looking a position up gives what the map would give, with a
  tile set twice merged into the first; layers from 16 on stay empty.\<close>

theorem tree_implements_map:
  "\<exists>m. set_tiles merge 0 ts empty_map = Some m \<and>
     tile_at m = fold (\<lambda>(p, t) f. if pos_z p < 16 then f(p \<mapsto> (case f p of None \<Rightarrow> t | Some old \<Rightarrow> merge old t)) else f) ts Map.empty"
proof -
  have empty: "tile_at empty_map = Map.empty"
    by (rule ext) (simp add: tile_at_def getTile_floor [OF empty_map_ok] floor_of_def, simp add: empty_map_def)
  have spec: "(\<lambda>(p, t). set_tile_spec merge p t) =
      (\<lambda>(p, t) f. if pos_z p < 16 then f(p \<mapsto> (case f p of None \<Rightarrow> t | Some old \<Rightarrow> merge old t)) else f)"
    by (simp add: fun_eq_iff set_tile_spec_def MAP_MAX_LAYERS_def split: prod.split)
  have "\<forall>k \<ge> 0. leaf_store empty_map k = None" by (simp add: empty_map_def)
  from set_tiles_ok [OF empty_map_ok this, of merge ts, unfolded spec empty] show ?thesis by blast
qed

end
