(* ===== verification/WalkCache.thy ===== *)
theory WalkCache
  imports Positions
begin

text \<open>
  The walk cache of creatures, \<open>src/src/creature.cpp\<close>: a window of 23 by 23 verdicts around a
  creature saying which tiles it could enter. The cache is filled once and then kept up to date by
  shifting rows and columns when its creature steps, and by single cells when tiles change.
  The map is a function from positions to tiles, and what \<open>Tile::queryAdd\<close> answers for this creature
  is an argument.
\<close>

type_synonym walk_cache = "int \<Rightarrow> int \<Rightarrow> bool" \<comment> \<open>\<open>localMapCache[row][column]\<close>\<close>

definition maxWalkCacheWidth :: int where "maxWalkCacheWidth = 11"
definition maxWalkCacheHeight :: int where "maxWalkCacheHeight = 11"
definition mapWalkWidth :: int where "mapWalkWidth = 23"
definition mapWalkHeight :: int where "mapWalkHeight = 23"

lemmas window_defs = maxWalkCacheWidth_def maxWalkCacheHeight_def mapWalkWidth_def mapWalkHeight_def

definition set_cell :: "int \<Rightarrow> int \<Rightarrow> bool \<Rightarrow> walk_cache \<Rightarrow> walk_cache" where
  "set_cell r k v c = c(r := (c r)(k := v))"

definition tile_verdict :: "('tile \<Rightarrow> bool) \<Rightarrow> 'tile option \<Rightarrow> bool" where
  "tile_verdict can t = (case t of None \<Rightarrow> False | Some tile \<Rightarrow> can tile)"

definition updateTileCache_at :: "('tile \<Rightarrow> bool) \<Rightarrow> 'tile option \<Rightarrow> int \<Rightarrow> int \<Rightarrow> walk_cache \<Rightarrow> walk_cache" where
  "updateTileCache_at can t dx dy c =
     (if \<bar>dx\<bar> \<le> maxWalkCacheWidth \<and> \<bar>dy\<bar> \<le> maxWalkCacheHeight
      then set_cell (maxWalkCacheHeight + dy) (maxWalkCacheWidth + dx) (tile_verdict can t) c else c)"

definition updateTileCache :: "('tile \<Rightarrow> bool) \<Rightarrow> position \<Rightarrow> 'tile option \<Rightarrow> position \<Rightarrow> walk_cache \<Rightarrow> walk_cache" where
  "updateTileCache can me t p c =
     (if pos_z p = pos_z me then updateTileCache_at can t (getOffsetX p me) (getOffsetY p me) c else c)"

text \<open>The position at an offset; its coordinates wrap at 16 bits.\<close>

definition offset_pos :: "position \<Rightarrow> int \<Rightarrow> int \<Rightarrow> position" where
  "offset_pos me dx dy = Position (word_of_int (getX me + dx)) (word_of_int (getY me + dy)) (pos_z me)"

definition updateMapCache :: "(position \<Rightarrow> 'tile option) \<Rightarrow> ('tile \<Rightarrow> bool) \<Rightarrow> position \<Rightarrow> walk_cache \<Rightarrow> walk_cache" where
  "updateMapCache getTile can me c =
     fold (\<lambda>y. fold (\<lambda>x. updateTileCache can me (getTile (offset_pos me x y)) (offset_pos me x y))
       [- maxWalkCacheWidth..maxWalkCacheWidth]) [- maxWalkCacheHeight..maxWalkCacheHeight] c"

text \<open>The answer is 0 for blocked, 1 for free and 2 for not known.\<close>

definition getWalkCache :: "bool \<Rightarrow> position \<Rightarrow> position \<Rightarrow> walk_cache \<Rightarrow> int" where
  "getWalkCache useCacheMap me p c =
     (if \<not> useCacheMap then 2
      else if pos_z me \<noteq> pos_z p then 0
      else if p = me then 1
      else
        let dx = getOffsetX p me in
        if \<bar>dx\<bar> \<le> maxWalkCacheWidth then
          let dy = getOffsetY p me in
          if \<bar>dy\<bar> \<le> maxWalkCacheHeight then
            if c (maxWalkCacheHeight + dy) (maxWalkCacheWidth + dx) then 1 else 0
          else 2
        else 2)"

section \<open>Following a step\<close>

definition shift_south :: "walk_cache \<Rightarrow> walk_cache" where
  "shift_south c = fold (\<lambda>y c. c(y + 1 := c y)) (rev [0..mapWalkHeight - 2]) c"

definition shift_north :: "walk_cache \<Rightarrow> walk_cache" where
  "shift_north c = fold (\<lambda>y c. c(y := c (y + 1))) [0..mapWalkHeight - 2] c"

definition shift_west :: "int \<Rightarrow> int \<Rightarrow> walk_cache \<Rightarrow> walk_cache" where
  "shift_west starty endy c =
     fold (\<lambda>y. fold (\<lambda>x c. set_cell y x (c y (x + 1)) c) [0..mapWalkWidth - 2]) [starty..endy] c"

definition shift_east :: "int \<Rightarrow> int \<Rightarrow> walk_cache \<Rightarrow> walk_cache" where
  "shift_east starty endy c =
     fold (\<lambda>y. fold (\<lambda>x c. set_cell y (x + 1) (c y x) c) (rev [0..mapWalkWidth - 2])) [starty..endy] c"

definition update_row :: "(position \<Rightarrow> 'tile option) \<Rightarrow> ('tile \<Rightarrow> bool) \<Rightarrow> position \<Rightarrow> int \<Rightarrow> walk_cache \<Rightarrow> walk_cache" where
  "update_row getTile can me dy c =
     fold (\<lambda>x. updateTileCache_at can (getTile (offset_pos me x dy)) x dy) [- maxWalkCacheWidth..maxWalkCacheWidth] c"

definition update_column :: "(position \<Rightarrow> 'tile option) \<Rightarrow> ('tile \<Rightarrow> bool) \<Rightarrow> position \<Rightarrow> int \<Rightarrow> walk_cache \<Rightarrow> walk_cache" where
  "update_column getTile can me dx c =
     fold (\<lambda>y. updateTileCache_at can (getTile (offset_pos me dx y)) dx y) [- maxWalkCacheHeight..maxWalkCacheHeight] c"

text \<open>The rows that are shifted sideways: the code excludes the row it has just filled in.\<close>

definition side_rows :: "position \<Rightarrow> position \<Rightarrow> int \<times> int" where
  "side_rows oldPos newPos =
     (let dy = getDistanceY oldPos newPos;
          starty = 0;
          endy = mapWalkHeight - 1
      in if dy < 0 then (starty, endy + dy) else if dy > 0 then (dy, endy) else (starty, endy))"

definition follow_step :: "(position \<Rightarrow> 'tile option) \<Rightarrow> ('tile \<Rightarrow> bool) \<Rightarrow> bool \<Rightarrow> position \<Rightarrow> position \<Rightarrow> walk_cache \<Rightarrow> walk_cache" where
  "follow_step getTile can teleport oldPos newPos c =
     (if teleport \<or> pos_z oldPos \<noteq> pos_z newPos then updateMapCache getTile can newPos c
      else
        let c1 = (if pos_y oldPos > pos_y newPos then update_row getTile can newPos (- maxWalkCacheHeight) (shift_south c)
                  else if pos_y oldPos < pos_y newPos then update_row getTile can newPos maxWalkCacheHeight (shift_north c)
                  else c);
            (starty, endy) = side_rows oldPos newPos;
            c2 = (if pos_x oldPos < pos_x newPos then update_column getTile can newPos maxWalkCacheWidth (shift_west starty endy c1)
                  else if pos_x oldPos > pos_x newPos then update_column getTile can newPos (- maxWalkCacheWidth) (shift_east starty endy c1)
                  else c1)
        in updateTileCache can newPos (getTile oldPos) oldPos c2)"

section \<open>Events\<close>

record walker =
  isMapLoaded :: bool
  localMapCache :: walk_cache

definition load_map_cache :: "(position \<Rightarrow> 'tile option) \<Rightarrow> ('tile \<Rightarrow> bool) \<Rightarrow> position \<Rightarrow> walker \<Rightarrow> walker" where
  "load_map_cache getTile can me w = w\<lparr>isMapLoaded := True, localMapCache := updateMapCache getTile can me (localMapCache w)\<rparr>"

definition onThink_cache :: "(position \<Rightarrow> 'tile option) \<Rightarrow> ('tile \<Rightarrow> bool) \<Rightarrow> bool \<Rightarrow> position \<Rightarrow> walker \<Rightarrow> walker" where
  "onThink_cache getTile can useCacheMap me w = (if \<not> isMapLoaded w \<and> useCacheMap then load_map_cache getTile can me w else w)"

definition refresh_cell :: "('tile \<Rightarrow> bool) \<Rightarrow> position \<Rightarrow> 'tile option \<Rightarrow> position \<Rightarrow> walker \<Rightarrow> walker" where
  "refresh_cell can me t p w = w\<lparr>localMapCache := updateTileCache can me t p (localMapCache w)\<rparr>"

definition onAddTileItem :: "('tile \<Rightarrow> bool) \<Rightarrow> position \<Rightarrow> 'tile option \<Rightarrow> position \<Rightarrow> walker \<Rightarrow> walker" where
  "onAddTileItem can me t p w = (if isMapLoaded w \<and> pos_z p = pos_z me then refresh_cell can me t p w else w)"

record item_flags =
  blockSolid :: bool
  blockPathFind :: bool
  isGroundTile :: bool

definition onUpdateTileItem :: "('tile \<Rightarrow> bool) \<Rightarrow> position \<Rightarrow> 'tile option \<Rightarrow> position \<Rightarrow> item_flags \<Rightarrow> item_flags \<Rightarrow> walker \<Rightarrow> walker" where
  "onUpdateTileItem can me t p oldType newType w =
     (if \<not> isMapLoaded w then w
      else if blockSolid oldType \<or> blockPathFind oldType \<or> blockPathFind newType \<or> blockSolid newType then
        if pos_z p = pos_z me then refresh_cell can me t p w else w
      else w)"

definition onRemoveTileItem :: "('tile \<Rightarrow> bool) \<Rightarrow> position \<Rightarrow> 'tile option \<Rightarrow> position \<Rightarrow> item_flags \<Rightarrow> walker \<Rightarrow> walker" where
  "onRemoveTileItem can me t p iType w =
     (if \<not> isMapLoaded w then w
      else if blockSolid iType \<or> blockPathFind iType \<or> isGroundTile iType then
        if pos_z p = pos_z me then refresh_cell can me t p w else w
      else w)"

text \<open>\<open>self\<close>: the event is about the creature that owns the cache.\<close>

definition onCreatureAppear_cache :: "(position \<Rightarrow> 'tile option) \<Rightarrow> ('tile \<Rightarrow> bool) \<Rightarrow> bool \<Rightarrow> bool \<Rightarrow> position \<Rightarrow> position \<Rightarrow> walker \<Rightarrow> walker" where
  "onCreatureAppear_cache getTile can useCacheMap self me p w =
     (if self then (if useCacheMap then load_map_cache getTile can me w else w)
      else if isMapLoaded w \<and> pos_z p = pos_z me then refresh_cell can me (getTile p) p w else w)"

definition onRemoveCreature_cache :: "(position \<Rightarrow> 'tile option) \<Rightarrow> ('tile \<Rightarrow> bool) \<Rightarrow> bool \<Rightarrow> position \<Rightarrow> position \<Rightarrow> walker \<Rightarrow> walker" where
  "onRemoveCreature_cache getTile can self me p w =
     (if self then w
      else if isMapLoaded w \<and> pos_z p = pos_z me then refresh_cell can me (getTile p) p w else w)"

definition onCreatureMove_cache :: "(position \<Rightarrow> 'tile option) \<Rightarrow> ('tile \<Rightarrow> bool) \<Rightarrow> bool \<Rightarrow> position \<Rightarrow> position \<Rightarrow> position \<Rightarrow> bool \<Rightarrow> walker \<Rightarrow> walker" where
  "onCreatureMove_cache getTile can self me newPos oldPos teleport w =
     (if \<not> isMapLoaded w then w
      else if self then w\<lparr>localMapCache := follow_step getTile can teleport oldPos newPos (localMapCache w)\<rparr>
      else
        let w1 = (if pos_z newPos = pos_z me then refresh_cell can me (getTile newPos) newPos w else w)
        in if pos_z oldPos = pos_z me then refresh_cell can me (getTile oldPos) oldPos w1 else w1)"

section \<open>What the loops compute\<close>

lemma fold_up: "fold (\<lambda>i f. f(i + 1 := f i)) (rev [a..b]) f = (\<lambda>r :: int. if a < r \<and> r \<le> b + 1 then f (r - 1) else f r)"
proof (induction a b arbitrary: f rule: upto.induct)
  case (1 a b)
  show ?case
  proof (cases "a \<le> b")
    case True
    then have "rev [a..b] = rev [a + 1..b] @ [a]" by (subst upto.simps) simp
    then show ?thesis using 1 [OF True, of f] True by (auto simp: fun_eq_iff)
  qed (auto simp: fun_eq_iff)
qed

lemma fold_down: "fold (\<lambda>i f. f(i := f (i + 1))) [a..b] f = (\<lambda>r :: int. if a \<le> r \<and> r \<le> b then f (r + 1) else f r)"
proof (induction a b arbitrary: f rule: upto.induct)
  case (1 a b)
  show ?case
  proof (cases "a \<le> b")
    case True
    then have "[a..b] = a # [a + 1..b]" by (subst upto.simps) simp
    then show ?thesis using 1 [OF True, of "f(a := f (a + 1))"] True by (auto simp: fun_eq_iff)
  qed (auto simp: fun_eq_iff)
qed

lemma fold_rows: "fold (\<lambda>y c. c(y := g (c y))) [a..b] c = (\<lambda>r :: int. if a \<le> r \<and> r \<le> b then g (c r) else c r)"
proof (induction a b arbitrary: c rule: upto.induct)
  case (1 a b)
  show ?case
  proof (cases "a \<le> b")
    case True
    then have "[a..b] = a # [a + 1..b]" by (subst upto.simps) simp
    then show ?thesis using 1 [OF True, of "c(a := g (c a))"] True by (auto simp: fun_eq_iff)
  qed (auto simp: fun_eq_iff)
qed

text \<open>The verdict the cache holds for a position of the window.\<close>

definition in_window :: "position \<Rightarrow> position \<Rightarrow> bool" where
  "in_window me p \<longleftrightarrow> pos_z p = pos_z me \<and> \<bar>getOffsetX p me\<bar> \<le> 11 \<and> \<bar>getOffsetY p me\<bar> \<le> 11"

definition cell_of :: "position \<Rightarrow> walk_cache \<Rightarrow> position \<Rightarrow> bool" where
  "cell_of me c p = c (11 + getOffsetY p me) (11 + getOffsetX p me)"

lemma cell_update_at:
  "\<bar>dx\<bar> \<le> 11 \<Longrightarrow> \<bar>dy\<bar> \<le> 11 \<Longrightarrow>
   cell_of me (updateTileCache_at can t dx dy c) p =
     (if getOffsetX p me = dx \<and> getOffsetY p me = dy then tile_verdict can t else cell_of me c p)"
  by (auto simp: cell_of_def updateTileCache_at_def set_cell_def window_defs)

lemma same_offsets: "getOffsetX p me = getOffsetX q me \<Longrightarrow> getOffsetY p me = getOffsetY q me \<Longrightarrow> pos_z p = pos_z q \<Longrightarrow> p = q"
  by (rule position_eqI) (auto simp: getOffsetX_def getOffsetY_def)

lemma cell_update:
  assumes "in_window me p"
  shows "cell_of me (updateTileCache can me t q c) p = (if q = p then tile_verdict can t else cell_of me c p)"
proof (cases "in_window me q")
  case True
  then have "updateTileCache can me t q c = updateTileCache_at can t (getOffsetX q me) (getOffsetY q me) c"
    by (simp add: updateTileCache_def in_window_def)
  moreover have "q = p" if "getOffsetX p me = getOffsetX q me" "getOffsetY p me = getOffsetY q me"
    using that assms True by (intro same_offsets [of q me p]) (auto simp: in_window_def)
  ultimately show ?thesis using True cell_update_at [of "getOffsetX q me" "getOffsetY q me" me can t c p]
    by (auto simp: in_window_def)
next
  case False
  then show ?thesis using assms by (auto simp: updateTileCache_def updateTileCache_at_def in_window_def window_defs)
qed

lemma cell_fold:
  assumes "in_window me p"
  shows "cell_of me (fold (\<lambda>q. updateTileCache can me (getTile q) q) qs c) p =
    (if p \<in> set qs then tile_verdict can (getTile p) else cell_of me c p)"
  by (induction qs arbitrary: c) (simp_all add: cell_update [OF assms])

lemma offset_pos_back: "in_window me p \<Longrightarrow> offset_pos me (getOffsetX p me) (getOffsetY p me) = p"
  by (cases p) (simp add: offset_pos_def in_window_def getOffsetX_def getOffsetY_def getX_def getY_def)

lemma fold_concat': "fold f (concat xss) c = fold (fold f) xss c"
  by (induction xss arbitrary: c) simp_all

lemma updateMapCache_fold:
  "updateMapCache getTile can me c =
     fold (\<lambda>q. updateTileCache can me (getTile q) q)
       (concat (map (\<lambda>y. map (\<lambda>x. offset_pos me x y) [- maxWalkCacheWidth..maxWalkCacheWidth]) [- maxWalkCacheHeight..maxWalkCacheHeight])) c"
  by (simp add: updateMapCache_def fold_concat' fold_map comp_def del: concat_map_singleton)

lemma rebuilt_cell:
  assumes "in_window me p"
  shows "cell_of me (updateMapCache getTile can me c) p = tile_verdict can (getTile p)"
proof -
  have x: "getOffsetX p me \<in> set [- maxWalkCacheWidth..maxWalkCacheWidth]"
    and y: "getOffsetY p me \<in> set [- maxWalkCacheHeight..maxWalkCacheHeight]"
    using assms unfolding set_upto by (auto simp: in_window_def window_defs)
  have "offset_pos me (getOffsetX p me) (getOffsetY p me)
      \<in> set (concat (map (\<lambda>y. map (\<lambda>x. offset_pos me x y) [- maxWalkCacheWidth..maxWalkCacheWidth]) [- maxWalkCacheHeight..maxWalkCacheHeight]))"
    unfolding set_concat set_map by (rule UN_I [OF imageI [OF y]], subst set_map, rule imageI [OF x])
  then show ?thesis unfolding updateMapCache_fold cell_fold [OF assms] offset_pos_back [OF assms] by simp
qed

lemma row_cells:
  "\<bar>dy\<bar> \<le> 11 \<Longrightarrow> set xs \<subseteq> {-11..11} \<Longrightarrow>
   cell_of me (fold (\<lambda>x. updateTileCache_at can (getTile (offset_pos me x dy)) x dy) xs c) p =
     (if getOffsetY p me = dy \<and> getOffsetX p me \<in> set xs
      then tile_verdict can (getTile (offset_pos me (getOffsetX p me) dy)) else cell_of me c p)"
  by (induction xs arbitrary: c) (auto simp: cell_update_at)

lemma column_cells:
  "\<bar>dx\<bar> \<le> 11 \<Longrightarrow> set ys \<subseteq> {-11..11} \<Longrightarrow>
   cell_of me (fold (\<lambda>y. updateTileCache_at can (getTile (offset_pos me dx y)) dx y) ys c) p =
     (if getOffsetX p me = dx \<and> getOffsetY p me \<in> set ys
      then tile_verdict can (getTile (offset_pos me dx (getOffsetY p me))) else cell_of me c p)"
  by (induction ys arbitrary: c) (auto simp: cell_update_at)

lemma updated_row:
  assumes "\<bar>dy\<bar> \<le> 11" "in_window me p"
  shows "cell_of me (update_row getTile can me dy c) p =
    (if getOffsetY p me = dy then tile_verdict can (getTile p) else cell_of me c p)"
proof -
  have s: "set [- maxWalkCacheWidth..maxWalkCacheWidth] = {-11..11}" unfolding set_upto by (simp add: window_defs)
  show ?thesis
    using row_cells [OF assms(1) equalityD1 [OF s], of me can getTile c p] offset_pos_back [OF assms(2)] assms(2)
    unfolding update_row_def s by (auto simp: in_window_def)
qed

lemma updated_column:
  assumes "\<bar>dx\<bar> \<le> 11" "in_window me p"
  shows "cell_of me (update_column getTile can me dx c) p =
    (if getOffsetX p me = dx then tile_verdict can (getTile p) else cell_of me c p)"
proof -
  have s: "set [- maxWalkCacheHeight..maxWalkCacheHeight] = {-11..11}" unfolding set_upto by (simp add: window_defs)
  show ?thesis
    using column_cells [OF assms(1) equalityD1 [OF s], of me can getTile c p] offset_pos_back [OF assms(2)] assms(2)
    unfolding update_column_def s by (auto simp: in_window_def)
qed

text \<open>The four shifts, cell by cell.\<close>

lemma shifted_south: "shift_south c = (\<lambda>r. if 1 \<le> r \<and> r \<le> 22 then c (r - 1) else c r)"
  unfolding shift_south_def window_defs fold_up by (simp add: fun_eq_iff)

lemma shifted_north: "shift_north c = (\<lambda>r. if 0 \<le> r \<and> r \<le> 21 then c (r + 1) else c r)"
  unfolding shift_north_def window_defs fold_down by (simp add: fun_eq_iff)

lemma fold_in_row:
  "fold (\<lambda>x c. set_cell y (a x) (c y (b x)) c) xs c = c(y := fold (\<lambda>x f. f(a x := f (b x))) xs (c y))"
proof (induction xs arbitrary: c)
  case (Cons x xs)
  show ?case
    by (simp only: fold_simps Cons.IH) (simp only: set_cell_def fun_upd_same fun_upd_upd)
qed simp

lemma shifted_west:
  "shift_west s e c = (\<lambda>r. if s \<le> r \<and> r \<le> e then (\<lambda>k. if 0 \<le> k \<and> k \<le> 21 then c r (k + 1) else c r k) else c r)"
  unfolding shift_west_def fold_in_row window_defs
    fold_rows [of "\<lambda>f. fold (\<lambda>x f. f(x := f (x + 1))) [0..23 - 2] f"] unfolding fold_down by (simp add: fun_eq_iff)

lemma shifted_east:
  "shift_east s e c = (\<lambda>r. if s \<le> r \<and> r \<le> e then (\<lambda>k. if 1 \<le> k \<and> k \<le> 22 then c r (k - 1) else c r k) else c r)"
  unfolding shift_east_def fold_in_row window_defs
    fold_rows [of "\<lambda>f. fold (\<lambda>x f. f(x + 1 := f x)) (rev [0..23 - 2]) f"] unfolding fold_up by (simp add: fun_eq_iff)

section \<open>The cache after a step\<close>

text \<open>The cache gives the right verdict everywhere in the window but at the positions \<open>X\<close>.\<close>

definition valid_cache :: "(position \<Rightarrow> 'tile option) \<Rightarrow> ('tile \<Rightarrow> bool) \<Rightarrow> position \<Rightarrow> position set \<Rightarrow> walk_cache \<Rightarrow> bool" where
  "valid_cache getTile can me X c \<longleftrightarrow> (\<forall>p. in_window me p \<longrightarrow> p \<notin> X \<longrightarrow> cell_of me c p = tile_verdict can (getTile p))"

lemma valid_rebuild: "valid_cache getTile can me X (updateMapCache getTile can me c)"
  by (simp add: valid_cache_def rebuilt_cell)

lemma valid_refresh:
  "valid_cache getTile can me (insert q X) c \<Longrightarrow> valid_cache getTile can me X (updateTileCache can me (getTile q) q c)"
  by (simp add: valid_cache_def cell_update)

lemma refresh_keeps: "valid_cache getTile can me X c \<Longrightarrow> valid_cache getTile can me X (updateTileCache can me (getTile q) q c)"
  by (simp add: valid_cache_def cell_update)

text \<open>Where the window of the new position reads the old window.\<close>

definition near :: "position \<Rightarrow> position \<Rightarrow> bool" where
  "near a b \<longleftrightarrow> areInRange3 1 1 0 a b"

lemma near_steps:
  assumes "near a b"
  shows "pos_z a = pos_z b" "getX b - getX a \<in> {-1, 0, 1}" "getY b - getY a \<in> {-1, 0, 1}"
    "pos_x a < pos_x b \<longleftrightarrow> getX b - getX a = 1" "pos_x a > pos_x b \<longleftrightarrow> getX b - getX a = -1"
    "pos_y a < pos_y b \<longleftrightarrow> getY b - getY a = 1" "pos_y a > pos_y b \<longleftrightarrow> getY b - getY a = -1"
  using assms by (auto simp: near_def areInRange3_def distance_defs word_less_def word_uint_eq_iff)

lemma follow_near:
  assumes "near a b"
  shows "follow_step getTile can False a b c =
    updateTileCache can b (getTile a) a
      (let dx = getX b - getX a; dy = getY b - getY a;
           c1 = (if dy = -1 then update_row getTile can b (-11) (shift_south c) else if dy = 1 then update_row getTile can b 11 (shift_north c) else c);
           s = (if dy = 0 then 0 else 1)
       in if dx = 1 then update_column getTile can b 11 (shift_west s 22 c1)
          else if dx = -1 then update_column getTile can b (-11) (shift_east s 22 c1) else c1)"
proof -
  have "side_rows a b = (if getY b - getY a = 0 then 0 else 1, 22)"
    using near_steps(3) [OF assms] by (auto simp: side_rows_def window_defs getDistanceY_def getOffsetY_def)
  then show ?thesis
    using near_steps [OF assms] by (simp add: follow_step_def window_defs Let_def)
qed

lemma row_only: "r \<noteq> 11 + dy \<Longrightarrow> update_row getTile can me dy c r = c r"
proof -
  have "r \<noteq> 11 + dy \<Longrightarrow> fold (\<lambda>x. updateTileCache_at can (getTile (offset_pos me x dy)) x dy) xs c r = c r" for xs
    by (induction xs arbitrary: c) (auto simp: updateTileCache_at_def set_cell_def window_defs)
  then show "r \<noteq> 11 + dy \<Longrightarrow> ?thesis" by (simp add: update_row_def del: upto.simps)
qed

lemma column_only: "k \<noteq> 11 + dx \<Longrightarrow> update_column getTile can me dx c r k = c r k"
proof -
  have "k \<noteq> 11 + dx \<Longrightarrow> fold (\<lambda>y. updateTileCache_at can (getTile (offset_pos me dx y)) dx y) ys c r k = c r k" for ys
    by (induction ys arbitrary: c) (auto simp: updateTileCache_at_def set_cell_def window_defs)
  then show "k \<noteq> 11 + dx \<Longrightarrow> ?thesis" by (simp add: update_column_def del: upto.simps)
qed

text \<open>The rows after the first shift: the fresh one, and the others moved by \<open>dy\<close>.\<close>

definition moved_rows :: "(position \<Rightarrow> 'tile option) \<Rightarrow> ('tile \<Rightarrow> bool) \<Rightarrow> position \<Rightarrow> int \<Rightarrow> walk_cache \<Rightarrow> walk_cache" where
  "moved_rows getTile can b dy c =
     (if dy = -1 then update_row getTile can b (-11) (shift_south c) else if dy = 1 then update_row getTile can b 11 (shift_north c) else c)"

lemma moved_rows_old:
  "dy \<in> {-1, 0, 1} \<Longrightarrow> 0 \<le> r \<Longrightarrow> r \<le> 22 \<Longrightarrow> dy = 0 \<or> r \<noteq> 11 + 11 * dy \<Longrightarrow> moved_rows getTile can b dy c r = c (r + dy)"
  by (auto simp: moved_rows_def row_only shifted_south shifted_north)

lemma moved_rows_fresh:
  "in_window b p \<Longrightarrow> dy \<in> {-1, 1} \<Longrightarrow> getOffsetY p b = 11 * dy \<Longrightarrow>
   moved_rows getTile can b dy c (11 + 11 * dy) (11 + getOffsetX p b) = tile_verdict can (getTile p)"
  using updated_row [of "11 * dy" b p getTile can] by (auto simp: moved_rows_def cell_of_def)

text \<open>A step that is not diagonal to the south leaves every cell of the new window right.\<close>

lemma step_cell:
  assumes near: "near a b" and p: "in_window b p" "p \<noteq> a"
    and south: "getY b - getY a = 1 \<longrightarrow> getX b - getX a = 0"
  shows "cell_of b (follow_step getTile can False a b c) p = tile_verdict can (getTile p) \<or>
    in_window a p \<and> cell_of b (follow_step getTile can False a b c) p = cell_of a c p"
proof -
  define dx dy where "dx = getX b - getX a" and "dy = getY b - getY a"
  define c1 where "c1 = moved_rows getTile can b dy c"
  define s :: int where "s = (if dy = 0 then 0 else 1)"
  define c2 where "c2 = (if dx = 1 then update_column getTile can b 11 (shift_west s 22 c1)
          else if dx = -1 then update_column getTile can b (-11) (shift_east s 22 c1) else c1)"
  let ?r = "11 + getOffsetY p b" and ?k = "11 + getOffsetX p b"
  have d: "dx \<in> {-1, 0, 1}" "dy \<in> {-1, 0, 1}" using near_steps [OF near] by (simp_all add: dx_def dy_def)
  have "follow_step getTile can False a b c = updateTileCache can b (getTile a) a c2"
    by (simp add: follow_near [OF near] Let_def c2_def c1_def s_def moved_rows_def dx_def dy_def)
  then have cell: "cell_of b (follow_step getTile can False a b c) p = c2 ?r ?k"
    using cell_update [OF p(1), of can "getTile a" a c2] p(2) by (simp add: cell_of_def)
  have rk: "0 \<le> ?r" "?r \<le> 22" "0 \<le> ?k" "?k \<le> 22" using p(1) by (auto simp: in_window_def)
  have off: "getOffsetX p a = getOffsetX p b + dx" "getOffsetY p a = getOffsetY p b + dy"
    by (simp_all add: dx_def dy_def getOffsetX_def getOffsetY_def)
  show ?thesis
  proof (cases "dx \<noteq> 0 \<and> getOffsetX p b = 11 * dx")
    case True
    then have "c2 ?r ?k = tile_verdict can (getTile p)"
      using d(1) updated_column [of "11 * dx" b p getTile can] p(1) by (auto simp: c2_def cell_of_def)
    then show ?thesis by (simp add: cell)
  next
    case col: False
    have k: "?k \<noteq> 11 + 11 * dx \<or> dx = 0" using col by auto
    have shift: "c2 ?r ?k = (if s \<le> ?r then c1 ?r (?k + dx) else c1 ?r ?k)"
      using d(1) k rk by (auto simp: c2_def column_only shifted_west shifted_east)
    show ?thesis
    proof (cases "dy \<noteq> 0 \<and> getOffsetY p b = 11 * dy")
      case True
      have "c2 ?r ?k = c1 ?r ?k"
        using shift True south d rk by (auto simp: s_def dx_def [symmetric] dy_def [symmetric])
      also have "\<dots> = tile_verdict can (getTile p)"
        using True d(2) moved_rows_fresh [OF p(1), of dy] by (auto simp: c1_def)
      finally show ?thesis by (simp add: cell)
    next
      case False
      have "s \<le> ?r \<or> dx = 0" using False d(2) rk south by (auto simp: s_def dx_def [symmetric] dy_def [symmetric])
      then have "c2 ?r ?k = c1 ?r (?k + dx)" using shift by auto
      also have "\<dots> = c (?r + dy) (?k + dx)"
        using False rk d(2) by (simp add: c1_def moved_rows_old)
      also have "\<dots> = cell_of a c p" by (simp add: cell_of_def off algebra_simps)
      finally have "c2 ?r ?k = cell_of a c p" .
      moreover have "in_window a p"
        using p(1) col False d near_steps(1) [OF near] unfolding in_window_def off by auto
      ultimately show ?thesis by (simp add: cell)
    qed
  qed
qed

text \<open>C25: The walk cache a creature keeps up to date while it walks is the one it would get by looking at
  every tile of its window again, as long as it does not step diagonally to the south: a cache that was
  right around the old position but for the two tiles of the step is right around the new one but for the
  creature's own tile, which is never looked up; and a teleport or a change of floor rebuilds it.\<close>

theorem walk_cache_follows_steps:
  assumes "valid_cache getTile can oldPos {oldPos, newPos} c"
    and "areInRange3 1 1 0 oldPos newPos"
    and "\<not> (pos_y oldPos < pos_y newPos \<and> pos_x oldPos \<noteq> pos_x newPos)"
    and "p \<noteq> newPos"
  shows "(getWalkCache True newPos p (follow_step getTile can False oldPos newPos c)
         = getWalkCache True newPos p (updateMapCache getTile can newPos c0)) \<and>
    (getWalkCache True newPos p (follow_step getTile can True oldPos newPos c)
         = getWalkCache True newPos p (updateMapCache getTile can newPos c0))"
proof -
  have near: "near oldPos newPos" using assms(2) by (simp add: near_def)
  have south: "getY newPos - getY oldPos = 1 \<longrightarrow> getX newPos - getX oldPos = 0"
    using assms(3) near_steps [OF near] by (auto simp: word_less_def getX_def)
  have same: "getWalkCache True newPos p c1 = getWalkCache True newPos p c2"
    if "in_window newPos p \<Longrightarrow> cell_of newPos c1 p = cell_of newPos c2 p" for c1 c2
    using that by (auto simp: getWalkCache_def in_window_def cell_of_def window_defs Let_def)
  have "cell_of newPos (follow_step getTile can False oldPos newPos c) p = tile_verdict can (getTile p)" if "in_window newPos p"
  proof (cases "p = oldPos")
    case True
    then show ?thesis unfolding follow_near [OF near] Let_def cell_update [OF that] by simp
  next
    case False
    then show ?thesis using step_cell [OF near that False south, of getTile can c] assms(1,4)
      by (auto simp: valid_cache_def)
  qed
  then show ?thesis by (auto intro!: same simp: rebuilt_cell follow_step_def)
qed

text \<open>After a diagonal step to the south the last row of the window, filled in for the new position just
  before, is shifted once more: each of its cells but one tells the verdict of the tile next to the one it
  stands for, on the side the creature is moving to.\<close>

theorem south_diagonal_spoils_last_row:
  assumes "areInRange3 1 1 0 oldPos newPos" "pos_y oldPos < pos_y newPos" "pos_x oldPos \<noteq> pos_x newPos"
    and "pos_z p = pos_z newPos" "pos_z q = pos_z newPos"
    and "getOffsetY p newPos = 11" "getOffsetY q newPos = 11"
    and "getOffsetX q p = getOffsetX newPos oldPos" "\<bar>getOffsetX p newPos\<bar> \<le> 11" "\<bar>getOffsetX q newPos\<bar> \<le> 11"
  shows "cell_of newPos (follow_step getTile can False oldPos newPos c) p = tile_verdict can (getTile q)"
proof -
  have near: "near oldPos newPos" using assms(1) by (simp add: near_def)
  have dy: "getY newPos - getY oldPos = 1" using assms(2) near_steps [OF near] by simp
  have dx: "getX newPos - getX oldPos = 1 \<or> getX newPos - getX oldPos = -1"
    using assms(3) near_steps(2) [OF near] by (auto simp: getX_def word_uint_eq_iff)
  have w: "in_window newPos p" "in_window newPos q" using assms(4-10) by (simp_all add: in_window_def)
  have "p \<noteq> oldPos" using assms(6) dy by (auto simp: getOffsetY_def)
  then have cell: "cell_of newPos (updateTileCache can newPos (getTile oldPos) oldPos c2) p = cell_of newPos c2 p" for c2
    unfolding cell_update [OF w(1)] by auto
  have q: "moved_rows getTile can newPos 1 c 22 (11 + getOffsetX q newPos) = tile_verdict can (getTile q)"
    using moved_rows_fresh [OF w(2), of 1] assms(7) by simp
  have c1: "update_row getTile can newPos 11 (shift_north c) = moved_rows getTile can newPos 1 c"
    by (simp add: moved_rows_def)
  from dx show ?thesis
  proof
    assume d: "getX newPos - getX oldPos = 1"
    have off: "getOffsetX q newPos = getOffsetX p newPos + 1" using assms(8) d by (simp add: getOffsetX_def)
    then have "11 + getOffsetX q newPos = 12 + getOffsetX p newPos" by simp
    from q [unfolded this] off have "moved_rows getTile can newPos 1 c 22 (12 + getOffsetX p newPos) = tile_verdict can (getTile q)"
      and "getOffsetX p newPos \<noteq> 11" using q assms(10) by (simp_all add: algebra_simps)
    then show ?thesis using d dy assms(6,9)
      unfolding follow_near [OF near] Let_def cell c1
      by (auto simp: cell_of_def column_only shifted_west algebra_simps)
  next
    assume d: "getX newPos - getX oldPos = -1"
    have off: "getOffsetX q newPos = getOffsetX p newPos - 1" using assms(8) d by (simp add: getOffsetX_def)
    then have "11 + getOffsetX q newPos = 10 + getOffsetX p newPos" by simp
    from q [unfolded this] off have "moved_rows getTile can newPos 1 c 22 (10 + getOffsetX p newPos) = tile_verdict can (getTile q)"
      and "getOffsetX p newPos \<noteq> -11" using q assms(10) by (simp_all add: algebra_simps)
    then show ?thesis using d dy assms(6,9)
      unfolding follow_near [OF near] Let_def cell c1
      by (auto simp: cell_of_def column_only shifted_east algebra_simps)
  qed
qed

text \<open>An open plain but for one blocked tile, seen from a creature that walks south-east.\<close>

definition plain :: "position \<Rightarrow> bool option" where
  "plain p = Some (p \<noteq> Position 105 112 7)"

lemma plain_step:
  "valid_cache plain (\<lambda>t. t) (Position 100 100 7) {Position 100 100 7, Position 100 101 7} (updateMapCache plain (\<lambda>t. t) (Position 100 100 7) c)"
  by (rule valid_rebuild)

lemma walk_cache_follows_steps_witness:
  "getWalkCache True (Position 100 101 7) (Position 105 112 7)
     (follow_step plain (\<lambda>t. t) False (Position 100 100 7) (Position 100 101 7) (updateMapCache plain (\<lambda>t. t) (Position 100 100 7) (\<lambda>_ _. False))) =
   getWalkCache True (Position 100 101 7) (Position 105 112 7) (updateMapCache plain (\<lambda>t. t) (Position 100 101 7) (\<lambda>_ _. False))"
  using walk_cache_follows_steps [OF plain_step, of "Position 105 112 7" "\<lambda>_ _. False"]
  by (simp add: areInRange3_def distance_defs)

lemma south_diagonal_spoils_last_row_witness:
  "cell_of (Position 101 101 7) (follow_step plain (\<lambda>t. t) False (Position 100 100 7) (Position 101 101 7) (\<lambda>_ _. True)) (Position 104 112 7) = False"
  using south_diagonal_spoils_last_row [of "Position 100 100 7" "Position 101 101 7" "Position 104 112 7" "Position 105 112 7" plain "\<lambda>t. t" "\<lambda>_ _. True"]
  by (simp add: areInRange3_def distance_defs plain_def tile_verdict_def)

section \<open>The cache after changes of the map\<close>

text \<open>A loaded cache that is right but for a tile on the creature's floor is right everywhere after the
  creature is told of that tile: of an item added there, of an item replaced or removed there that blocks
  the way, of a creature that appears or disappears there, or that moves to or from it.\<close>

theorem events_repair_the_cache:
  assumes "isMapLoaded w" and "valid_cache getTile can me {q} (localMapCache w)" and "pos_z q = pos_z me"
    and "blockSolid i \<or> blockPathFind i"
  shows "valid_cache getTile can me {} (localMapCache (onAddTileItem can me (getTile q) q w)) \<and>
    valid_cache getTile can me {} (localMapCache (onUpdateTileItem can me (getTile q) q i j w)) \<and>
    valid_cache getTile can me {} (localMapCache (onUpdateTileItem can me (getTile q) q j i w)) \<and>
    valid_cache getTile can me {} (localMapCache (onRemoveTileItem can me (getTile q) q i w)) \<and>
    valid_cache getTile can me {} (localMapCache (onCreatureAppear_cache getTile can u False me q w)) \<and>
    valid_cache getTile can me {} (localMapCache (onRemoveCreature_cache getTile can False me q w)) \<and>
    valid_cache getTile can me {} (localMapCache (onCreatureMove_cache getTile can False me q p t w)) \<and>
    valid_cache getTile can me {} (localMapCache (onCreatureMove_cache getTile can False me p q t w))"
proof -
  have r: "valid_cache getTile can me {} (updateTileCache can me (getTile q) q (localMapCache w))"
    by (rule valid_refresh) (use assms(2) in simp)
  have r2: "valid_cache getTile can me {} (updateTileCache can me (getTile q) q (updateTileCache can me (getTile p) p (localMapCache w)))"
    by (rule valid_refresh) (use refresh_keeps [OF assms(2)] in simp)
  show ?thesis
    using assms(1,3,4) r r2 refresh_keeps [OF r, of p]
    by (auto simp: onAddTileItem_def onUpdateTileItem_def onRemoveTileItem_def onCreatureAppear_cache_def
        onRemoveCreature_cache_def onCreatureMove_cache_def refresh_cell_def Let_def)
qed

lemma events_repair_the_cache_witness:
  "valid_cache plain (\<lambda>t. t) (Position 100 100 7) {} (localMapCache
     (onAddTileItem (\<lambda>t. t) (Position 100 100 7) (plain (Position 101 100 7)) (Position 101 100 7)
       \<lparr>isMapLoaded = True, localMapCache = updateMapCache plain (\<lambda>t. t) (Position 100 100 7) (\<lambda>_ _. False)\<rparr>))"
  using events_repair_the_cache [of "\<lparr>isMapLoaded = True, localMapCache = updateMapCache plain (\<lambda>t. t) (Position 100 100 7) (\<lambda>_ _. False)\<rparr>"
      plain "\<lambda>t. t" "Position 100 100 7" "Position 101 100 7" "\<lparr>blockSolid = True, blockPathFind = False, isGroundTile = False\<rparr>"] valid_rebuild
  by fastforce

end
