(* ===== verification/MonsterStep.thy ===== *)
theory MonsterStep
  imports WalkCache
begin

text \<open>
  How a monster chooses its next step when it does not follow a path: \<open>getRandomStep\<close>,
  \<open>getDanceStep\<close>, \<open>getDistanceStep\<close>, \<open>canWalkTo\<close> and \<open>updateLookDirection\<close> of
  \<open>src/src/monster.cpp\<close>. What the drawn random numbers are, what the tiles answer and whether lines
  of sight are clear are arguments. The lemmas show that a step is always to a tile that can be
  walked on, that stepping back never leads nearer unless a fleeing monster has only tiles towards the
  target to go to, and that dancing keeps the distance and the attack.
\<close>

section \<open>Where it may walk\<close>

definition isInZone :: "position \<Rightarrow> int \<Rightarrow> position \<Rightarrow> bool" where
  "isInZone centerPos radius pos =
     (if radius = - 1 then True
      else getX pos \<ge> getX centerPos - radius \<and> getX pos \<le> getX centerPos + radius \<and>
           getY pos \<ge> getY centerPos - radius \<and> getY pos \<le> getY centerPos + radius)"

record monster_env =
  spawn :: bool \<comment> \<open>belongs to a spawn\<close>
  masterPos :: position
  despawnRadius :: int
  despawnRange :: int
  useCache :: bool \<comment> \<open>\<open>useCacheMap\<close>\<close>
  cache :: walk_cache
  free_tile :: "position \<Rightarrow> bool" \<comment> \<open>there is a tile, no visible creature on it, and \<open>queryAdd\<close> lets the monster in\<close>
  sightClear :: "position \<Rightarrow> position \<Rightarrow> bool" \<comment> \<open>\<open>isSightClear\<close> with \<open>floorCheck\<close>\<close>
  targetDistance :: int
  isHostile :: bool
  attackRanges :: "u32 list" \<comment> \<open>the ranges of the attack spells\<close>

definition isInSpawnRange :: "monster_env \<Rightarrow> position \<Rightarrow> bool" where
  "isInSpawnRange m pos =
     (if \<not> spawn m then True
      else if despawnRadius m = 0 then True
      else if \<not> isInZone (masterPos m) (despawnRadius m) pos then False
      else if despawnRange m = 0 then True
      else if getDistanceZ pos (masterPos m) > despawnRange m then False
      else True)"

text \<open>The monster stands at \<open>me\<close>, where its walk cache is centred; \<open>pos\<close> is where the step starts.\<close>

definition canWalkTo :: "monster_env \<Rightarrow> position \<Rightarrow> position \<Rightarrow> direction \<Rightarrow> bool" where
  "canWalkTo m me pos dir =
     (let pos = getNextPosition dir pos in
      if isInSpawnRange m pos then
        if getWalkCache (useCache m) me pos (cache m) = 0 then False
        else free_tile m pos
      else False)"

section \<open>A random step\<close>

text \<open>\<open>dirList\<close> is the shuffled list of the four directions. The result says whether there is a step, and
  the direction, which stays \<open>dir\<close> where the code leaves it.\<close>

fun getRandomStep :: "(direction \<Rightarrow> bool) \<Rightarrow> direction list \<Rightarrow> direction \<Rightarrow> bool \<times> direction" where
  "getRandomStep walk [] dir = (False, dir)"
| "getRandomStep walk (d # dirList) dir = (if walk d then (True, d) else getRandomStep walk dirList dir)"

section \<open>Dancing around the target\<close>

definition canUseAttack :: "monster_env \<Rightarrow> position \<Rightarrow> position \<Rightarrow> bool" where
  "canUseAttack m pos targetPos =
     (if isHostile m then
        let distance = max (getDistanceX pos targetPos) (getDistanceY pos targetPos) in
        if \<exists>r \<in> set (attackRanges m). r \<noteq> 0 \<and> distance \<le> uint r then sightClear m pos targetPos else False
      else True)"

text \<open>The four tests have the same form: the distance after the step, whether the tile can be walked on,
  and, if the attack is to be kept, whether the target can still be attacked from there.\<close>

definition dance_candidate :: "monster_env \<Rightarrow> position \<Rightarrow> position \<Rightarrow> bool \<Rightarrow> int \<Rightarrow> bool \<Rightarrow> direction \<Rightarrow> direction list" where
  "dance_candidate m creaturePos centerPos keepAttack tmpDist wanted dir =
     (let centerToDist = max (getDistanceX creaturePos centerPos) (getDistanceY creaturePos centerPos);
          canDoAttackNow = canUseAttack m creaturePos centerPos in
      if wanted \<and> tmpDist = centerToDist \<and> canWalkTo m creaturePos creaturePos dir \<and>
         (keepAttack \<longrightarrow> \<not> canDoAttackNow \<or> canUseAttack m (getNextPosition dir creaturePos) centerPos)
      then [dir] else [])"

text \<open>\<open>pick\<close> chooses from the shuffled candidates.\<close>

definition getDanceStep ::
    "monster_env \<Rightarrow> (direction list \<Rightarrow> direction) \<Rightarrow> position \<Rightarrow> position \<Rightarrow> bool \<Rightarrow> bool \<Rightarrow> direction \<Rightarrow> bool \<times> direction" where
  "getDanceStep m pick creaturePos centerPos keepAttack keepDistance dir =
     (let offset_x = getOffsetX creaturePos centerPos;
          offset_y = getOffsetY creaturePos centerPos;
          distance_x = \<bar>offset_x\<bar>;
          distance_y = \<bar>offset_y\<bar>;
          cand = dance_candidate m creaturePos centerPos keepAttack;
          dirList =
            cand (max distance_x \<bar>getY creaturePos - 1 - getY centerPos\<bar>) (\<not> keepDistance \<or> offset_y \<ge> 0) DIRECTION_NORTH @
            cand (max distance_x \<bar>getY creaturePos + 1 - getY centerPos\<bar>) (\<not> keepDistance \<or> offset_y \<le> 0) DIRECTION_SOUTH @
            cand (max \<bar>getX creaturePos + 1 - getX centerPos\<bar> distance_y) (\<not> keepDistance \<or> offset_x \<le> 0) DIRECTION_EAST @
            cand (max \<bar>getX creaturePos - 1 - getX centerPos\<bar> distance_y) (\<not> keepDistance \<or> offset_x \<ge> 0) DIRECTION_WEST
      in if dirList \<noteq> [] then (True, pick dirList) else (False, dir))"

section \<open>Keeping a distance\<close>

text \<open>The four blocks for a target on a diagonal. \<open>a\<close> and \<open>b\<close> lead away, \<open>ab\<close> is the diagonal between
  them; \<open>c\<close> and \<open>d\<close> are for a fleeing monster; \<open>e\<close> and \<open>f\<close> are taken when the diagonal beside them is
  free. \<open>coin\<close> is \<open>boolean_random\<close>.\<close>

definition escape_diagonal ::
    "(direction \<Rightarrow> bool) \<Rightarrow> bool \<Rightarrow> bool \<Rightarrow> direction \<Rightarrow> direction \<Rightarrow> direction \<Rightarrow> direction \<Rightarrow> direction \<Rightarrow>
     direction \<times> direction \<Rightarrow> direction \<times> direction \<Rightarrow> direction \<Rightarrow> direction" where
  "escape_diagonal walk coin flee a b ab c d e f dir =
     (if walk a \<and> walk b then (if coin then a else b)
      else if walk a then a
      else if walk b then b
      else if walk ab then ab
      else if flee \<and> walk c \<and> walk d then (if coin then c else d)
      else if flee \<and> walk c then c
      else if flee \<and> walk d then d
      else if walk (fst e) \<and> walk (snd e) then fst e
      else if walk (fst f) \<and> walk (snd f) then fst f
      else dir)"

text \<open>The four cases for a target straight ahead. \<open>offset\<close> is the offset on the other axis, \<open>low\<close> and
  \<open>high\<close> the steps to the side, \<open>p\<close> and \<open>q\<close> pairs of a side and a diagonal away, in the order of the
  source.\<close>

definition escape_straight ::
    "(direction \<Rightarrow> bool) \<Rightarrow> bool \<Rightarrow> bool \<Rightarrow> int \<Rightarrow> direction \<Rightarrow> direction \<Rightarrow> direction \<Rightarrow>
     direction \<times> direction \<Rightarrow> direction \<times> direction \<Rightarrow> direction \<Rightarrow> direction \<Rightarrow> direction" where
  "escape_straight walk coin flee offset away low high p q toward dir =
     (if walk away then away
      else if walk low \<and> walk high \<and> offset = 0 then (if coin then low else high)
      else if walk low \<and> offset \<le> 0 then low
      else if walk high \<and> offset \<ge> 0 then high
      else if flee \<and> walk low \<and> walk high then (if coin then low else high)
      else if flee \<and> walk low then low
      else if flee \<and> walk high then high
      else if walk (snd p) \<or> walk (snd q) then
        if walk (snd p) \<and> walk (snd q) then (if coin then snd p else snd q)
        else if walk (fst p) then fst p
        else if walk (snd p) then snd p
        else if walk (fst q) then fst q
        else if walk (snd q) then snd q
        else dir
      else if flee \<and> walk toward then toward
      else dir)"

text \<open>The eight cases, named by where the target is.\<close>

definition player_northwest :: "(direction \<Rightarrow> bool) \<Rightarrow> bool \<Rightarrow> bool \<Rightarrow> direction \<Rightarrow> direction" where
  "player_northwest walk coin flee dir =
     escape_diagonal walk coin flee DIRECTION_SOUTH DIRECTION_EAST DIRECTION_SOUTHEAST DIRECTION_NORTH DIRECTION_WEST
       (DIRECTION_WEST, DIRECTION_SOUTHWEST) (DIRECTION_NORTH, DIRECTION_NORTHEAST) dir"

definition player_southeast :: "(direction \<Rightarrow> bool) \<Rightarrow> bool \<Rightarrow> bool \<Rightarrow> direction \<Rightarrow> direction" where
  "player_southeast walk coin flee dir =
     escape_diagonal walk coin flee DIRECTION_WEST DIRECTION_NORTH DIRECTION_NORTHWEST DIRECTION_SOUTH DIRECTION_EAST
       (DIRECTION_SOUTH, DIRECTION_SOUTHWEST) (DIRECTION_EAST, DIRECTION_NORTHEAST) dir"

definition player_southwest :: "(direction \<Rightarrow> bool) \<Rightarrow> bool \<Rightarrow> bool \<Rightarrow> direction \<Rightarrow> direction" where
  "player_southwest walk coin flee dir =
     escape_diagonal walk coin flee DIRECTION_NORTH DIRECTION_EAST DIRECTION_NORTHEAST DIRECTION_SOUTH DIRECTION_WEST
       (DIRECTION_WEST, DIRECTION_NORTHWEST) (DIRECTION_SOUTH, DIRECTION_SOUTHEAST) dir"

definition player_northeast :: "(direction \<Rightarrow> bool) \<Rightarrow> bool \<Rightarrow> bool \<Rightarrow> direction \<Rightarrow> direction" where
  "player_northeast walk coin flee dir =
     escape_diagonal walk coin flee DIRECTION_WEST DIRECTION_SOUTH DIRECTION_SOUTHWEST DIRECTION_NORTH DIRECTION_EAST
       (DIRECTION_EAST, DIRECTION_SOUTHEAST) (DIRECTION_NORTH, DIRECTION_NORTHWEST) dir"

definition player_north :: "(direction \<Rightarrow> bool) \<Rightarrow> bool \<Rightarrow> bool \<Rightarrow> int \<Rightarrow> direction \<Rightarrow> direction" where
  "player_north walk coin flee offsetx dir =
     escape_straight walk coin flee offsetx DIRECTION_SOUTH DIRECTION_WEST DIRECTION_EAST
       (DIRECTION_WEST, DIRECTION_SOUTHWEST) (DIRECTION_EAST, DIRECTION_SOUTHEAST) DIRECTION_NORTH dir"

definition player_south :: "(direction \<Rightarrow> bool) \<Rightarrow> bool \<Rightarrow> bool \<Rightarrow> int \<Rightarrow> direction \<Rightarrow> direction" where
  "player_south walk coin flee offsetx dir =
     escape_straight walk coin flee offsetx DIRECTION_NORTH DIRECTION_WEST DIRECTION_EAST
       (DIRECTION_WEST, DIRECTION_NORTHWEST) (DIRECTION_EAST, DIRECTION_NORTHEAST) DIRECTION_SOUTH dir"

definition player_west :: "(direction \<Rightarrow> bool) \<Rightarrow> bool \<Rightarrow> bool \<Rightarrow> int \<Rightarrow> direction \<Rightarrow> direction" where
  "player_west walk coin flee offsety dir =
     escape_straight walk coin flee offsety DIRECTION_EAST DIRECTION_NORTH DIRECTION_SOUTH
       (DIRECTION_SOUTH, DIRECTION_SOUTHEAST) (DIRECTION_NORTH, DIRECTION_NORTHEAST) DIRECTION_WEST dir"

definition player_east :: "(direction \<Rightarrow> bool) \<Rightarrow> bool \<Rightarrow> bool \<Rightarrow> int \<Rightarrow> direction \<Rightarrow> direction" where
  "player_east walk coin flee offsety dir =
     escape_straight walk coin flee offsety DIRECTION_WEST DIRECTION_NORTH DIRECTION_SOUTH
       (DIRECTION_NORTH, DIRECTION_NORTHWEST) (DIRECTION_SOUTH, DIRECTION_SOUTHWEST) DIRECTION_EAST dir"

lemmas player_defs = player_northwest_def player_southeast_def player_southwest_def player_northeast_def player_north_def player_south_def player_west_def player_east_def

text \<open>How often the target was near, between 0 and 2.\<close>

definition next_stepDuration :: "int \<Rightarrow> int \<Rightarrow> int \<Rightarrow> int" where
  "next_stepDuration dx dy stepDuration =
     (if dx \<le> 1 \<and> dy \<le> 1 then if stepDuration < 2 then stepDuration + 1 else stepDuration
      else if stepDuration > 0 then stepDuration - 1
      else stepDuration)"

definition getDistanceStep ::
    "monster_env \<Rightarrow> bool \<Rightarrow> direction list \<Rightarrow> position \<Rightarrow> position \<Rightarrow> bool \<Rightarrow> int \<Rightarrow> direction \<Rightarrow> (bool \<times> direction) \<times> int" where
  "getDistanceStep m coin shuffled creaturePos targetPos flee stepDuration dir =
     (let dx = getDistanceX creaturePos targetPos;
          dy = getDistanceY creaturePos targetPos;
          distance = max dx dy in
      if \<not> flee \<and> (distance > targetDistance m \<or> \<not> sightClear m creaturePos targetPos) then ((False, dir), stepDuration)
      else if \<not> flee \<and> distance = targetDistance m then ((True, dir), stepDuration)
      else
        let offsetx = getOffsetX creaturePos targetPos;
            offsety = getOffsetY creaturePos targetPos;
            walk = canWalkTo m creaturePos creaturePos in
        (if offsetx = 0 \<and> offsety = 0 then getRandomStep walk shuffled dir
         else (True,
           if dx = dy \<and> offsetx \<ge> 1 \<and> offsety \<ge> 1 then
             player_northwest walk coin flee dir
           else if dx = dy \<and> offsetx \<le> - 1 \<and> offsety \<le> - 1 then
             player_southeast walk coin flee dir
           else if dx = dy \<and> offsetx \<ge> 1 \<and> offsety \<le> - 1 then
             player_southwest walk coin flee dir
           else if dx = dy \<and> offsetx \<le> - 1 \<and> offsety \<ge> 1 then
             player_northeast walk coin flee dir
           else if dy > dx then
             if \<not> offsety < 0 then
               player_north walk coin flee offsetx dir
             else
               player_south walk coin flee offsetx dir
           else
             if \<not> offsetx < 0 then
               player_west walk coin flee offsety dir
             else
               player_east walk coin flee offsety dir),
         next_stepDuration dx dy stepDuration))"

section \<open>Looking at the target\<close>

definition updateLookDirection :: "position \<Rightarrow> position option \<Rightarrow> direction \<Rightarrow> direction" where
  "updateLookDirection pos attacked dir =
     (case attacked of
        None \<Rightarrow> dir
      | Some attackedPos \<Rightarrow>
          let offsetx = getOffsetX attackedPos pos;
              offsety = getOffsetY attackedPos pos;
              dx = \<bar>offsetx\<bar>;
              dy = \<bar>offsety\<bar>;
              turn = (\<lambda>vertical horizontal opposite.
                if dir = DIRECTION_SOUTH \<or> dir = DIRECTION_NORTH then horizontal
                else if dir = opposite then vertical else dir) in
          if dx > dy then (if offsetx < 0 then DIRECTION_WEST else DIRECTION_EAST)
          else if dx < dy then (if offsety < 0 then DIRECTION_NORTH else DIRECTION_SOUTH)
          else if offsetx < 0 \<and> offsety < 0 then turn DIRECTION_NORTH DIRECTION_WEST DIRECTION_EAST
          else if offsetx < 0 \<and> offsety > 0 then turn DIRECTION_SOUTH DIRECTION_WEST DIRECTION_EAST
          else if offsetx > 0 \<and> offsety < 0 then turn DIRECTION_NORTH DIRECTION_EAST DIRECTION_WEST
          else turn DIRECTION_SOUTH DIRECTION_EAST DIRECTION_WEST)"

section \<open>Distances after a step\<close>

definition away_from_edges :: "position \<Rightarrow> bool" where
  "away_from_edges p \<longleftrightarrow> 0 < getX p \<and> getX p < 65535 \<and> 0 < getY p \<and> getY p < 65535"

lemma word16_step:
  fixes w :: u16
  shows "0 < uint w \<Longrightarrow> uint (w - 1) = uint w - 1" and "uint w < 65535 \<Longrightarrow> uint (w + 1) = uint w + 1"
  by (simp_all add: uint_sub_if' uint_plus_if')

fun step_x :: "direction \<Rightarrow> int" where
  "step_x DIRECTION_WEST = - 1" | "step_x DIRECTION_SOUTHWEST = - 1" | "step_x DIRECTION_NORTHWEST = - 1"
| "step_x DIRECTION_EAST = 1" | "step_x DIRECTION_SOUTHEAST = 1" | "step_x DIRECTION_NORTHEAST = 1"
| "step_x _ = 0"

fun step_y :: "direction \<Rightarrow> int" where
  "step_y DIRECTION_NORTH = - 1" | "step_y DIRECTION_NORTHWEST = - 1" | "step_y DIRECTION_NORTHEAST = - 1"
| "step_y DIRECTION_SOUTH = 1" | "step_y DIRECTION_SOUTHWEST = 1" | "step_y DIRECTION_SOUTHEAST = 1"
| "step_y _ = 0"

lemma offset_after_step:
  assumes "away_from_edges p"
  shows "getOffsetX (getNextPosition d p) q = getOffsetX p q + step_x d" and "getOffsetY (getNextPosition d p) q = getOffsetY p q + step_y d"
  using assms by (cases p; cases d; simp add: away_from_edges_def offset_defs word16_step)+

definition apart :: "position \<Rightarrow> position \<Rightarrow> int" where
  "apart p q = max (getDistanceX p q) (getDistanceY p q)"

lemma random_step_walks: "getRandomStep walk dirs dir = (True, d) \<Longrightarrow> d \<in> set dirs \<and> walk d"
  by (induction dirs) (auto split: if_split_asm)

lemma escape_diagonal_walks:
  "escape_diagonal walk coin flee a b ab c d e f dir = r \<Longrightarrow> r \<in> {a, b, ab, c, d, fst e, fst f, dir} \<and> (r = dir \<or> walk r)"
  by (auto simp: escape_diagonal_def split: if_split_asm)

lemma holds_of_if: "(c \<Longrightarrow> P a) \<Longrightarrow> (\<not> c \<Longrightarrow> P b) \<Longrightarrow> P (if c then a else b)"
  by simp

text \<open>Only a fleeing monster that can go nowhere else goes towards the target.\<close>

lemma escape_straight_walks:
  fixes p q :: "direction \<times> direction"
  assumes "escape_straight walk coin flee off away low high p q toward dir = r"
  shows "r = dir \<or> walk r \<and> r \<in> {away, low, high, fst p, snd p, fst q, snd q} \<or>
    r = toward \<and> walk toward \<and> flee \<and> \<not> walk away \<and> \<not> walk low \<and> \<not> walk high \<and> \<not> walk (snd p) \<and> \<not> walk (snd q)"
    (is "?P r")
proof -
  define Q where "Q = (\<lambda>r. ?P r)"
  have Q: "Q r \<longleftrightarrow> ?P r" for r by (simp only: Q_def)
  have "Q (escape_straight walk coin flee off away low high p q toward dir)"
    unfolding escape_straight_def by (intro holds_of_if [where P = Q]) (simp_all add: Q)
  then show ?thesis unfolding assms Q .
qed

text \<open>
  Of the eight tiles around only some of the three on the side of the target can be walked on: every step that is possible
  leads nearer on the axis on which the target is farther. Two of the three lie on a diagonal and may keep the larger of the
  two distances.
\<close>

definition only_towards :: "monster_env \<Rightarrow> position \<Rightarrow> position \<Rightarrow> bool" where
  "only_towards m p q \<longleftrightarrow> (\<forall>d. d \<noteq> DIRECTION_NONE \<and> canWalkTo m p p d \<longrightarrow>
     (if getDistanceY p q > getDistanceX p q then getDistanceY (getNextPosition d p) q < getDistanceY p q
      else getDistanceX (getNextPosition d p) q < getDistanceX p q))"

lemma diagonal_not_nearer:
  assumes e: "away_from_edges p" and eq: "getDistanceX p q = getDistanceY p q"
    and d: "step_x d = 0 \<or> step_y d = 0 \<or> step_x d * getOffsetX p q > 0"
  shows "apart p q \<le> apart (getNextPosition d p) q"
proof -
  have s: "step_x d \<in> {- 1, 0, 1}" "step_y d \<in> {- 1, 0, 1}" by (cases d; simp)+
  note o = offset_after_step [OF e, of d q]
  show ?thesis
    unfolding apart_def getDistanceX_def getDistanceY_def o
    using eq d s by (auto simp: getDistanceX_def getDistanceY_def zero_less_mult_iff)
qed

lemma straight_not_nearer:
  assumes e: "away_from_edges p" and ne: "getDistanceX p q \<noteq> getDistanceY p q"
    and y: "getDistanceY p q > getDistanceX p q \<Longrightarrow> step_y d * getOffsetY p q \<ge> 0"
    and x: "getDistanceX p q > getDistanceY p q \<Longrightarrow> step_x d * getOffsetX p q \<ge> 0"
  shows "apart p q \<le> apart (getNextPosition d p) q"
proof -
  have s: "step_x d \<in> {- 1, 0, 1}" "step_y d \<in> {- 1, 0, 1}" by (cases d; simp)+
  note o = offset_after_step [OF e, of d q]
  show ?thesis
  proof (cases "getDistanceY p q > getDistanceX p q")
    case True
    then have "\<bar>getOffsetY p q\<bar> \<le> \<bar>getOffsetY p q + step_y d\<bar>"
      using y s(2) by (auto simp: getDistanceX_def getDistanceY_def zero_le_mult_iff)
    then show ?thesis using True unfolding apart_def getDistanceX_def getDistanceY_def o by linarith
  next
    case False
    then have "getDistanceX p q > getDistanceY p q" using ne by simp
    then have "\<bar>getOffsetX p q\<bar> \<le> \<bar>getOffsetX p q + step_x d\<bar>"
      using x s(1) by (auto simp: getDistanceX_def getDistanceY_def zero_le_mult_iff)
    then show ?thesis using False unfolding apart_def getDistanceX_def getDistanceY_def o by linarith
  qed
qed

lemma dist_abs: "getDistanceX p q = \<bar>getOffsetX p q\<bar>" "getDistanceY p q = \<bar>getOffsetY p q\<bar>"
  by (simp_all add: getDistanceX_def getDistanceY_def)

lemma only_towards_y:
  assumes e: "away_from_edges p" and far: "getDistanceY p q > getDistanceX p q"
    and "\<And>d. d \<noteq> DIRECTION_NONE \<Longrightarrow> canWalkTo m p p d \<Longrightarrow> step_y d * getOffsetY p q < 0"
  shows "only_towards m p q"
  unfolding only_towards_def
proof (intro allI impI)
  fix d assume "d \<noteq> DIRECTION_NONE \<and> canWalkTo m p p d"
  then have "step_y d * getOffsetY p q < 0" using assms(3) by blast
  moreover have "step_y d \<in> {- 1, 0, 1}" by (cases d; simp)
  ultimately have "\<bar>getOffsetY p q + step_y d\<bar> < \<bar>getOffsetY p q\<bar>" by (auto simp: mult_less_0_iff)
  then show "if getDistanceY p q > getDistanceX p q then getDistanceY (getNextPosition d p) q < getDistanceY p q
      else getDistanceX (getNextPosition d p) q < getDistanceX p q"
    using far offset_after_step(2) [OF e, of d q] by (simp add: dist_abs)
qed

lemma only_towards_x:
  assumes e: "away_from_edges p" and far: "\<not> getDistanceY p q > getDistanceX p q"
    and "\<And>d. d \<noteq> DIRECTION_NONE \<Longrightarrow> canWalkTo m p p d \<Longrightarrow> step_x d * getOffsetX p q < 0"
  shows "only_towards m p q"
  unfolding only_towards_def
proof (intro allI impI)
  fix d assume "d \<noteq> DIRECTION_NONE \<and> canWalkTo m p p d"
  then have "step_x d * getOffsetX p q < 0" using assms(3) by blast
  moreover have "step_x d \<in> {- 1, 0, 1}" by (cases d; simp)
  ultimately have "\<bar>getOffsetX p q + step_x d\<bar> < \<bar>getOffsetX p q\<bar>" by (auto simp: mult_less_0_iff)
  then show "if getDistanceY p q > getDistanceX p q then getDistanceY (getNextPosition d p) q < getDistanceY p q
      else getDistanceX (getNextPosition d p) q < getDistanceX p q"
    using far offset_after_step(1) [OF e, of d q] by (simp add: dist_abs)
qed

text \<open>What a step means for the distance.\<close>

definition good_step :: "monster_env \<Rightarrow> bool \<Rightarrow> position \<Rightarrow> position \<Rightarrow> direction \<Rightarrow> bool" where
  "good_step m flee p q d \<longleftrightarrow> d \<noteq> DIRECTION_NONE \<longrightarrow>
     canWalkTo m p p d \<and> (apart p q \<le> apart (getNextPosition d p) q \<or> flee \<and> only_towards m p q)"

definition walkable_directions :: "direction set" where
  "walkable_directions = {DIRECTION_NORTH, DIRECTION_EAST, DIRECTION_SOUTH, DIRECTION_WEST, DIRECTION_SOUTHWEST, DIRECTION_SOUTHEAST,
     DIRECTION_NORTHWEST, DIRECTION_NORTHEAST}"

lemma walkable_directions_all: "d \<noteq> DIRECTION_NONE \<Longrightarrow> d \<in> walkable_directions"
  by (cases d) (simp_all add: walkable_directions_def)

lemma quadrants:
  fixes x y :: int
  assumes "\<not> (x = 0 \<and> y = 0)"
  shows "\<bar>x\<bar> = \<bar>y\<bar> \<and> 1 \<le> x \<and> 1 \<le> y \<or> \<bar>x\<bar> = \<bar>y\<bar> \<and> x \<le> - 1 \<and> y \<le> - 1 \<or>
    \<bar>x\<bar> = \<bar>y\<bar> \<and> 1 \<le> x \<and> y \<le> - 1 \<or> \<bar>x\<bar> = \<bar>y\<bar> \<and> x \<le> - 1 \<and> 1 \<le> y \<or>
    \<bar>x\<bar> < \<bar>y\<bar> \<and> 1 \<le> y \<or> \<bar>x\<bar> < \<bar>y\<bar> \<and> y \<le> - 1 \<or> \<bar>y\<bar> < \<bar>x\<bar> \<and> 1 \<le> x \<or> \<bar>y\<bar> < \<bar>x\<bar> \<and> x \<le> - 1"
proof -
  have "1 \<le> x \<or> x = 0 \<or> x \<le> - 1" and "1 \<le> y \<or> y = 0 \<or> y \<le> - 1" by linarith+
  moreover have "\<bar>x\<bar> = \<bar>y\<bar> \<or> \<bar>x\<bar> < \<bar>y\<bar> \<or> \<bar>y\<bar> < \<bar>x\<bar>" by linarith
  ultimately show ?thesis using assms by (elim disjE) simp_all
qed

lemma diagonal_good:
  assumes e: "away_from_edges p" and eq: "getDistanceX p q = getDistanceY p q"
    and d: "escape_diagonal (canWalkTo m p p) coin flee a b ab c d' f g DIRECTION_NONE = d"
    and t: "\<And>x. x \<in> {a, b, ab, c, d', fst f, fst g} \<Longrightarrow> step_x x = 0 \<or> step_y x = 0 \<or> step_x x * getOffsetX p q > 0"
  shows "good_step m flee p q d"
proof -
  have "d = DIRECTION_NONE \<or> canWalkTo m p p d \<and> d \<in> {a, b, ab, c, d', fst f, fst g}"
    using escape_diagonal_walks [OF d] by blast
  then show ?thesis using diagonal_not_nearer [OF e eq t] by (auto simp: good_step_def)
qed

lemma straight_y_good:
  assumes e: "away_from_edges p" and far: "getDistanceY p q > getDistanceX p q"
    and d: "escape_straight (canWalkTo m p p) coin flee off away low high p1 p2 toward DIRECTION_NONE = d"
    and t: "\<And>x. x \<in> {away, low, high, fst p1, snd p1, fst p2, snd p2} \<Longrightarrow> step_y x * getOffsetY p q \<ge> 0"
    and rest: "\<forall>x \<in> walkable_directions. x \<in> {away, low, high, snd p1, snd p2} \<or> step_y x * getOffsetY p q < 0"
  shows "good_step m flee p q d"
proof -
  consider "d = DIRECTION_NONE" | "canWalkTo m p p d" "d \<in> {away, low, high, fst p1, snd p1, fst p2, snd p2}"
    | "canWalkTo m p p d" flee "\<And>x. x \<in> {away, low, high, snd p1, snd p2} \<Longrightarrow> \<not> canWalkTo m p p x"
    using escape_straight_walks [OF d] by blast
  then show ?thesis
  proof cases
    case 2
    have "apart p q \<le> apart (getNextPosition d p) q"
      by (rule straight_not_nearer [OF e]) (use far t [OF 2(2)] in auto)
    then show ?thesis using 2 by (simp add: good_step_def)
  next
    case 3
    have "only_towards m p q" by (rule only_towards_y [OF e far]) (use 3(3) rest walkable_directions_all in blast)
    then show ?thesis using 3 by (simp add: good_step_def)
  qed (simp add: good_step_def)
qed

lemma straight_x_good:
  assumes e: "away_from_edges p" and far: "getDistanceX p q > getDistanceY p q"
    and d: "escape_straight (canWalkTo m p p) coin flee off away low high p1 p2 toward DIRECTION_NONE = d"
    and t: "\<And>x. x \<in> {away, low, high, fst p1, snd p1, fst p2, snd p2} \<Longrightarrow> step_x x * getOffsetX p q \<ge> 0"
    and rest: "\<forall>x \<in> walkable_directions. x \<in> {away, low, high, snd p1, snd p2} \<or> step_x x * getOffsetX p q < 0"
  shows "good_step m flee p q d"
proof -
  consider "d = DIRECTION_NONE" | "canWalkTo m p p d" "d \<in> {away, low, high, fst p1, snd p1, fst p2, snd p2}"
    | "canWalkTo m p p d" flee "\<And>x. x \<in> {away, low, high, snd p1, snd p2} \<Longrightarrow> \<not> canWalkTo m p p x"
    using escape_straight_walks [OF d] by blast
  then show ?thesis
  proof cases
    case 2
    have "apart p q \<le> apart (getNextPosition d p) q"
      by (rule straight_not_nearer [OF e]) (use far t [OF 2(2)] in auto)
    then show ?thesis using 2 by (simp add: good_step_def)
  next
    case 3
    have "only_towards m p q" by (rule only_towards_x [OF e]) (use far in simp, use 3(3) rest walkable_directions_all in blast)
    then show ?thesis using 3 by (simp add: good_step_def)
  qed (simp add: good_step_def)
qed

lemma distance_step_good:
  assumes edges: "away_from_edges me"
    and step: "getDistanceStep m coin shuffled me target flee n DIRECTION_NONE = ((found, d), n')" and some: "d \<noteq> DIRECTION_NONE"
  shows "found \<and> good_step m flee me target d"
proof -
  let ?walk = "canWalkTo m me me"
  let ?ox = "getOffsetX me target" and ?oy = "getOffsetY me target"
  show ?thesis
  proof (cases "?ox = 0 \<and> ?oy = 0")
    case True
    then have "(found, d) = getRandomStep ?walk shuffled DIRECTION_NONE"
      using step some unfolding getDistanceStep_def Let_def by (simp split: if_split_asm)
    moreover from this have found using some by (induction shuffled) (auto split: if_split_asm)
    ultimately have "found" "?walk d" using random_step_walks [of ?walk shuffled DIRECTION_NONE d] by auto
    then show ?thesis using True by (simp add: good_step_def apart_def dist_abs le_max_iff_disj)
  next
    case False
    let ?dx = "getDistanceX me target" and ?dy = "getDistanceY me target"
    note step' = step [unfolded getDistanceStep_def Let_def if_not_P [OF False] player_defs]
    consider (nw) "?dx = ?dy" "?ox \<ge> 1" "?oy \<ge> 1"
      | (se) "?dx = ?dy" "?ox \<le> - 1" "?oy \<le> - 1"
      | (sw) "?dx = ?dy" "?ox \<ge> 1" "?oy \<le> - 1"
      | (ne) "?dx = ?dy" "?ox \<le> - 1" "?oy \<ge> 1"
      | (n) "?dx < ?dy" "?oy \<ge> 1"
      | (s) "?dx < ?dy" "?oy \<le> - 1"
      | (w) "?dy < ?dx" "?ox \<ge> 1"
      | (e) "?dy < ?dx" "?ox \<le> - 1"
      using quadrants [OF False] by (auto simp: dist_abs)
    then show ?thesis
    proof cases
      case nw
      then have f: found and d: "escape_diagonal ?walk coin flee DIRECTION_SOUTH DIRECTION_EAST DIRECTION_SOUTHEAST DIRECTION_NORTH DIRECTION_WEST
        (DIRECTION_WEST, DIRECTION_SOUTHWEST) (DIRECTION_NORTH, DIRECTION_NORTHEAST) DIRECTION_NONE = d"
        using step' some by (simp_all split: if_split_asm)
      have "good_step m flee me target d" by (rule diagonal_good [OF edges nw(1) d]) (use nw in \<open>auto\<close>)
      then show ?thesis using f by blast
    next
      case se
      then have f: found and d: "escape_diagonal ?walk coin flee DIRECTION_WEST DIRECTION_NORTH DIRECTION_NORTHWEST DIRECTION_SOUTH DIRECTION_EAST
        (DIRECTION_SOUTH, DIRECTION_SOUTHWEST) (DIRECTION_EAST, DIRECTION_NORTHEAST) DIRECTION_NONE = d"
        using step' some by (simp_all split: if_split_asm)
      have "good_step m flee me target d" by (rule diagonal_good [OF edges se(1) d]) (use se in \<open>auto\<close>)
      then show ?thesis using f by blast
    next
      case sw
      then have f: found and d: "escape_diagonal ?walk coin flee DIRECTION_NORTH DIRECTION_EAST DIRECTION_NORTHEAST DIRECTION_SOUTH DIRECTION_WEST
        (DIRECTION_WEST, DIRECTION_NORTHWEST) (DIRECTION_SOUTH, DIRECTION_SOUTHEAST) DIRECTION_NONE = d"
        using step' some by (simp_all split: if_split_asm)
      have "good_step m flee me target d" by (rule diagonal_good [OF edges sw(1) d]) (use sw in \<open>auto\<close>)
      then show ?thesis using f by blast
    next
      case ne
      then have f: found and d: "escape_diagonal ?walk coin flee DIRECTION_WEST DIRECTION_SOUTH DIRECTION_SOUTHWEST DIRECTION_NORTH DIRECTION_EAST
        (DIRECTION_EAST, DIRECTION_SOUTHEAST) (DIRECTION_NORTH, DIRECTION_NORTHWEST) DIRECTION_NONE = d"
        using step' some by (simp_all split: if_split_asm)
      have "good_step m flee me target d" by (rule diagonal_good [OF edges ne(1) d]) (use ne in \<open>auto\<close>)
      then show ?thesis using f by blast
    next
      case n
      then have f: found and d: "escape_straight ?walk coin flee ?ox DIRECTION_SOUTH DIRECTION_WEST DIRECTION_EAST
        (DIRECTION_WEST, DIRECTION_SOUTHWEST) (DIRECTION_EAST, DIRECTION_SOUTHEAST) DIRECTION_NORTH DIRECTION_NONE = d"
        using step' some by (simp_all split: if_split_asm)
      have "good_step m flee me target d" by (rule straight_y_good [OF edges n(1) d]) (use n in \<open>auto simp: walkable_directions_def\<close>)
      then show ?thesis using f by blast
    next
      case s
      then have f: found and d: "escape_straight ?walk coin flee ?ox DIRECTION_NORTH DIRECTION_WEST DIRECTION_EAST
        (DIRECTION_WEST, DIRECTION_NORTHWEST) (DIRECTION_EAST, DIRECTION_NORTHEAST) DIRECTION_SOUTH DIRECTION_NONE = d"
        using step' some by (simp_all split: if_split_asm)
      have "good_step m flee me target d" by (rule straight_y_good [OF edges s(1) d]) (use s in \<open>auto simp: walkable_directions_def\<close>)
      then show ?thesis using f by blast
    next
      case w
      then have f: found and d: "escape_straight ?walk coin flee ?oy DIRECTION_EAST DIRECTION_NORTH DIRECTION_SOUTH
        (DIRECTION_SOUTH, DIRECTION_SOUTHEAST) (DIRECTION_NORTH, DIRECTION_NORTHEAST) DIRECTION_WEST DIRECTION_NONE = d"
        using step' some by (simp_all split: if_split_asm)
      have "good_step m flee me target d" by (rule straight_x_good [OF edges w(1) d]) (use w in \<open>auto simp: walkable_directions_def\<close>)
      then show ?thesis using f by blast
    next
      case e
      then have f: found and d: "escape_straight ?walk coin flee ?oy DIRECTION_WEST DIRECTION_NORTH DIRECTION_SOUTH
        (DIRECTION_NORTH, DIRECTION_NORTHWEST) (DIRECTION_SOUTH, DIRECTION_SOUTHWEST) DIRECTION_EAST DIRECTION_NONE = d"
        using step' some by (simp_all split: if_split_asm)
      have "good_step m flee me target d" by (rule straight_x_good [OF edges e(1) d]) (use e in \<open>auto simp: walkable_directions_def\<close>)
      then show ?thesis using f by blast
    qed
  qed
qed

text \<open>C19: A monster that steps back from its target steps onto a tile it can walk on, and the larger of the two distances to
  the target does not shrink, unless it flees and can walk on none of the five tiles beside and behind it, as seen from the
  target. (It then takes the straight step towards the target without trying the diagonal ones, which may keep the
  distance. Positions at the edge of the map, where coordinates would wrap around, are left aside; the direction starts
  as none, as in \<open>goToFollowCreature\<close>.)\<close>

theorem stepping_back_never_comes_nearer:
  assumes "away_from_edges me"
    and "getDistanceStep m coin shuffled me target flee n DIRECTION_NONE = ((found, d), n')" and "d \<noteq> DIRECTION_NONE"
  shows "found \<and> canWalkTo m me me d \<and> (apart me target \<le> apart (getNextPosition d me) target \<or> flee \<and> only_towards m me target)"
  using distance_step_good [OF assms] assms(3) by (simp add: good_step_def)

text \<open>A monster in a narrow passage, east of its target, that could only go on to the west.\<close>

definition open_field :: "(position \<Rightarrow> bool) \<Rightarrow> monster_env" where
  "open_field free = \<lparr>spawn = False, masterPos = Position 0 0 0, despawnRadius = 0, despawnRange = 0, useCache = False,
     cache = (\<lambda>_ _. False), free_tile = free, sightClear = (\<lambda>_ _. True), targetDistance = 4, isHostile = True, attackRanges = [7]\<rparr>"

lemma stepping_back_never_comes_nearer_witness:
  "getDistanceStep (open_field (\<lambda>p. p = Position 101 100 7)) True [] (Position 102 100 7) (Position 100 100 7) True 0 DIRECTION_NONE =
     ((True, DIRECTION_WEST), 0) \<and>
   canWalkTo (open_field (\<lambda>p. p = Position 101 100 7)) (Position 102 100 7) (Position 102 100 7) DIRECTION_WEST \<and>
   only_towards (open_field (\<lambda>p. p = Position 101 100 7)) (Position 102 100 7) (Position 100 100 7)"
proof -
  let ?m = "open_field (\<lambda>p. p = Position 101 100 7)" and ?me = "Position 102 100 7" and ?t = "Position 100 100 7"
  have run: "getDistanceStep ?m True [] ?me ?t True 0 DIRECTION_NONE = ((True, DIRECTION_WEST), 0)"
    by (simp add: getDistanceStep_def open_field_def distance_defs player_defs escape_straight_def canWalkTo_def isInSpawnRange_def getWalkCache_def
        next_stepDuration_def)
  have "away_from_edges ?me" by (simp add: away_from_edges_def getX_def getY_def)
  from stepping_back_never_comes_nearer [OF this run] show ?thesis
    by (simp add: run apart_def distance_defs)
qed

text \<open>A fleeing monster south of its target, with a free tile to the north and one to the northeast: it goes north and comes
  nearer, although the step to the northeast would keep the distance.\<close>

lemma fleeing_monster_comes_nearer:
  defines "m \<equiv> open_field (\<lambda>p. p = Position 101 101 7 \<or> p = Position 102 101 7)"
  shows "getDistanceStep m coin dirs (Position 101 102 7) (Position 100 100 7) True 0 DIRECTION_NONE = ((True, DIRECTION_NORTH), 0)"
    and "apart (getNextPosition DIRECTION_NORTH (Position 101 102 7)) (Position 100 100 7) < apart (Position 101 102 7) (Position 100 100 7)"
    and "canWalkTo m (Position 101 102 7) (Position 101 102 7) DIRECTION_NORTHEAST"
    and "apart (getNextPosition DIRECTION_NORTHEAST (Position 101 102 7)) (Position 100 100 7) = apart (Position 101 102 7) (Position 100 100 7)"
  by (simp_all add: m_def getDistanceStep_def open_field_def distance_defs player_defs escape_straight_def canWalkTo_def isInSpawnRange_def
      getWalkCache_def next_stepDuration_def apart_def)

lemma picked:
  "(if D \<noteq> [] then (True, pick D) else (False, dir)) = (True, d) \<Longrightarrow> (\<And>D. D \<noteq> [] \<Longrightarrow> pick D \<in> set D) \<Longrightarrow> d \<in> set D"
  by (auto split: if_split_asm)

text \<open>C37: a monster that dances around its target steps onto a tile it can walk on, stays as far from the
  target as it was, and, if it is to keep its attack, can still attack from there.\<close>

theorem dancing_keeps_distance_and_attack:
  assumes "away_from_edges me" and pick: "\<And>dirs. dirs \<noteq> [] \<Longrightarrow> pick dirs \<in> set dirs"
    and "getDanceStep m pick me target keepAttack keepDistance dir = (True, d)"
  shows "canWalkTo m me me d \<and> apart (getNextPosition d me) target = apart me target \<and>
    (if keepAttack \<and> canUseAttack m me target then canUseAttack m (getNextPosition d me) target else True)"
proof -
  let ?ok = "\<lambda>tmp d. canWalkTo m me me d \<and> tmp = apart me target \<and>
    (keepAttack \<longrightarrow> \<not> canUseAttack m me target \<or> canUseAttack m (getNextPosition d me) target)"
  have c: "x \<in> set (dance_candidate m me target keepAttack tmp wanted dir) \<longleftrightarrow> x = dir \<and> wanted \<and> ?ok tmp dir" for x tmp wanted dir
    by (auto simp: dance_candidate_def apart_def Let_def)
  let ?cand = "dance_candidate m me target keepAttack"
  let ?dirs = "?cand (max \<bar>getOffsetX me target\<bar> \<bar>getY me - 1 - getY target\<bar>) (\<not> keepDistance \<or> getOffsetY me target \<ge> 0) DIRECTION_NORTH @
      ?cand (max \<bar>getOffsetX me target\<bar> \<bar>getY me + 1 - getY target\<bar>) (\<not> keepDistance \<or> getOffsetY me target \<le> 0) DIRECTION_SOUTH @
      ?cand (max \<bar>getX me + 1 - getX target\<bar> \<bar>getOffsetY me target\<bar>) (\<not> keepDistance \<or> getOffsetX me target \<le> 0) DIRECTION_EAST @
      ?cand (max \<bar>getX me - 1 - getX target\<bar> \<bar>getOffsetY me target\<bar>) (\<not> keepDistance \<or> getOffsetX me target \<ge> 0) DIRECTION_WEST"
  have "(if ?dirs \<noteq> [] then (True, pick ?dirs) else (False, dir)) = (True, d)"
    using assms(3) unfolding getDanceStep_def Let_def .
  then have "d \<in> set ?dirs" by (rule picked) (rule pick)
  then have "\<exists>tmp. (d = DIRECTION_NORTH \<and> tmp = max \<bar>getOffsetX me target\<bar> \<bar>getY me - 1 - getY target\<bar> \<or>
      d = DIRECTION_SOUTH \<and> tmp = max \<bar>getOffsetX me target\<bar> \<bar>getY me + 1 - getY target\<bar> \<or>
      d = DIRECTION_EAST \<and> tmp = max \<bar>getX me + 1 - getX target\<bar> \<bar>getOffsetY me target\<bar> \<or>
      d = DIRECTION_WEST \<and> tmp = max \<bar>getX me - 1 - getX target\<bar> \<bar>getOffsetY me target\<bar>) \<and> ?ok tmp d"
    unfolding set_append Un_iff c by blast
  then show ?thesis
    using offset_after_step [OF assms(1), of d target] 
    by (elim exE conjE disjE) (simp_all add: apart_def dist_abs getOffsetX_def getOffsetY_def algebra_simps)
qed

lemma dancing_keeps_distance_and_attack_witness:
  "getDanceStep (open_field (\<lambda>p. p = Position 102 101 7)) hd (Position 102 100 7) (Position 100 100 7) True True DIRECTION_NONE = (True, DIRECTION_SOUTH) \<and>
   apart (getNextPosition DIRECTION_SOUTH (Position 102 100 7)) (Position 100 100 7) = apart (Position 102 100 7) (Position 100 100 7)"
proof -
  let ?m = "open_field (\<lambda>p. p = Position 102 101 7)" and ?me = "Position 102 100 7" and ?t = "Position 100 100 7"
  have run: "getDanceStep ?m hd ?me ?t True True DIRECTION_NONE = (True, DIRECTION_SOUTH)"
    by (simp add: getDanceStep_def dance_candidate_def open_field_def distance_defs canWalkTo_def isInSpawnRange_def getWalkCache_def canUseAttack_def)
  have "away_from_edges ?me" by (simp add: away_from_edges_def getX_def getY_def)
  from dancing_keeps_distance_and_attack [OF this _ run] show ?thesis using run by simp
qed

end
