(* ===== verification/Party.thy ===== *)
theory Party
  imports OrderedMap Positions
begin

text \<open>
  Parties, \<open>src/src/party.cpp\<close>, with the requests of \<open>game.cpp\<close> and the players' side of an invitation
  in \<open>player.cpp\<close>. Players and parties are numbers, a party object lives in a store, and the
  pointers of the code are entries of the store and of the players. A null or dangling pointer that
  is followed is \<open>None\<close>. The verdicts of the Lua events are arguments. Messages and icons sent to
  clients do not change this state and are left out.
\<close>

type_synonym pid = nat

record party =
  leader :: "pid option"
  memberList :: "pid list"
  inviteList :: "pid list"
  sharedExpActive :: bool
  sharedExpEnabled :: bool
  ticksMap :: "pid \<rightharpoonup> u64"

record world =
  parties :: "nat \<rightharpoonup> party"
  party_of :: "pid \<Rightarrow> nat option" \<comment> \<open>\<open>Player::party\<close>\<close>
  invitePartyList :: "pid \<Rightarrow> nat list"

text \<open>What decides on sharing experience, and the verdicts of the events.\<close>

record env =
  level :: "pid \<Rightarrow> nat"
  pos :: "pid \<Rightarrow> position"
  notGainInFight :: "pid \<Rightarrow> bool"
  now :: u64
  pz_locked :: u64
  on_disband :: "nat \<Rightarrow> bool"
  on_leave :: bool
  on_join :: bool
  on_invite :: bool
  on_revoke :: bool
  on_pass :: bool

definition EXPERIENCE_SHARE_RANGE :: int where "EXPERIENCE_SHARE_RANGE = 30"
definition EXPERIENCE_SHARE_FLOORS :: int where "EXPERIENCE_SHARE_FLOORS = 1"

definition new_party :: "pid \<Rightarrow> party" where
  "new_party l = \<lparr>leader = Some l, memberList = [], inviteList = [], sharedExpActive = False,
     sharedExpEnabled = False, ticksMap = Map.empty\<rparr>"

definition party_empty :: "party \<Rightarrow> bool" where
  "party_empty P \<longleftrightarrow> memberList P = [] \<and> inviteList P = []"

definition isPlayerInvited :: "pid \<Rightarrow> party \<Rightarrow> bool" where
  "isPlayerInvited p P \<longleftrightarrow> p \<in> set (inviteList P)"

definition setParty :: "pid \<Rightarrow> nat option \<Rightarrow> world \<Rightarrow> world" where
  "setParty p k w = w\<lparr>party_of := (party_of w)(p := k)\<rparr>"

definition addPartyInvitation :: "pid \<Rightarrow> nat \<Rightarrow> world \<Rightarrow> world" where
  "addPartyInvitation p k w =
     (if k \<in> set (invitePartyList w p) then w
      else w\<lparr>invitePartyList := (invitePartyList w)(p := k # invitePartyList w p)\<rparr>)"

definition removePartyInvitation :: "pid \<Rightarrow> nat \<Rightarrow> world \<Rightarrow> world" where
  "removePartyInvitation p k w = w\<lparr>invitePartyList := (invitePartyList w)(p := removeAll k (invitePartyList w p))\<rparr>"

definition put_party :: "nat \<Rightarrow> party \<Rightarrow> world \<Rightarrow> world" where
  "put_party k P w = w\<lparr>parties := (parties w)(k \<mapsto> P)\<rparr>"

section \<open>Sharing experience\<close>

text \<open>
  The least level is \<open>ceil(highest * 2 / 3)\<close>, computed by the code in single precision; that is exact
  for levels below \<open>2 ^ 22\<close>.
\<close>

definition min_share_level :: "nat \<Rightarrow> nat" where
  "min_share_level highestLevel = (highestLevel * 2 + 2) div 3"

definition highest_level :: "env \<Rightarrow> pid \<Rightarrow> pid list \<Rightarrow> nat" where
  "highest_level e l ms = fold (\<lambda>m h. if level e m > h then level e m else h) ms (level e l)"

definition canUseSharedExperience :: "env \<Rightarrow> pid \<Rightarrow> party \<Rightarrow> bool option" where
  "canUseSharedExperience e p P =
     (if memberList P = [] then Some False
      else case leader P of
        None \<Rightarrow> None
      | Some l \<Rightarrow> Some (
          if level e p < min_share_level (highest_level e l (memberList P)) then False
          else if \<not> areInRange3 EXPERIENCE_SHARE_RANGE EXPERIENCE_SHARE_RANGE EXPERIENCE_SHARE_FLOORS (pos e l) (pos e p) then False
          else if \<not> notGainInFight e p then
            (case ticksMap P p of None \<Rightarrow> False | Some t \<Rightarrow> \<not> now e - t > pz_locked e)
          else True))"

fun all_can_share :: "env \<Rightarrow> pid list \<Rightarrow> party \<Rightarrow> bool option" where
  "all_can_share e [] P = Some True"
| "all_can_share e (p # ps) P =
     (case canUseSharedExperience e p P of
        None \<Rightarrow> None | Some b \<Rightarrow> if \<not> b then Some False else all_can_share e ps P)"

definition canEnableSharedExperience :: "env \<Rightarrow> party \<Rightarrow> bool option" where
  "canEnableSharedExperience e P =
     (case leader P of None \<Rightarrow> (if memberList P = [] then Some False else None) | Some l \<Rightarrow> all_can_share e (l # memberList P) P)"

definition updateSharedExperience :: "env \<Rightarrow> party \<Rightarrow> party option" where
  "updateSharedExperience e P =
     (if sharedExpActive P then map_option (\<lambda>r. P\<lparr>sharedExpEnabled := r\<rparr>) (canEnableSharedExperience e P)
      else Some P)"

definition setSharedExperience :: "env \<Rightarrow> pid \<Rightarrow> bool \<Rightarrow> party \<Rightarrow> (bool \<times> party) option" where
  "setSharedExperience e p active P =
     (if leader P \<noteq> Some p then Some (False, P)
      else if sharedExpActive P = active then Some (True, P)
      else
        let P1 = P\<lparr>sharedExpActive := active\<rparr> in
        if active then map_option (\<lambda>r. (True, P1\<lparr>sharedExpEnabled := r\<rparr>)) (canEnableSharedExperience e P1)
        else Some (True, P1))"

definition updatePlayerTicks :: "env \<Rightarrow> pid \<Rightarrow> nat \<Rightarrow> party \<Rightarrow> party option" where
  "updatePlayerTicks e p points P =
     (if points \<noteq> 0 \<and> \<not> notGainInFight e p then
        updateSharedExperience e (P\<lparr>ticksMap := (ticksMap P)(p \<mapsto> now e)\<rparr>)
      else Some P)"

definition clearPlayerPoints :: "env \<Rightarrow> pid \<Rightarrow> party \<Rightarrow> party option" where
  "clearPlayerPoints e p P =
     (if ticksMap P p \<noteq> None then updateSharedExperience e (P\<lparr>ticksMap := (ticksMap P)(p := None)\<rparr>)
      else Some P)"

text \<open>\<open>shareExperience\<close>: the experience each of the crew gains, members first.\<close>

definition shareExperience :: "(u64 \<Rightarrow> u64) \<Rightarrow> u64 \<Rightarrow> party \<Rightarrow> (pid \<times> u64) list option" where
  "shareExperience on_share experience P =
     (let s = on_share experience in
      case leader P of None \<Rightarrow> None | Some l \<Rightarrow> Some (map (\<lambda>m. (m, s)) (memberList P) @ [(l, s)]))"

section \<open>Membership\<close>

definition disband :: "env \<Rightarrow> nat \<Rightarrow> world \<Rightarrow> world option" where
  "disband e k w =
     (case parties w k of
        None \<Rightarrow> None
      | Some P \<Rightarrow>
          if \<not> on_disband e k then Some w
          else (case leader P of
              None \<Rightarrow> None
            | Some currentLeader \<Rightarrow>
                let w1 = setParty currentLeader None w;
                    w2 = fold (\<lambda>i. removePartyInvitation i k) (inviteList P) w1;
                    w3 = fold (\<lambda>m. setParty m None) (memberList P) w2
                in Some (w3\<lparr>parties := (parties w3)(k := None)\<rparr>)))"

definition passPartyLeadership :: "env \<Rightarrow> pid option \<Rightarrow> bool \<Rightarrow> nat \<Rightarrow> world \<Rightarrow> (bool \<times> world) option" where
  "passPartyLeadership e player forceRemove k w =
     (case parties w k of
        None \<Rightarrow> None
      | Some P \<Rightarrow>
          (case player of
             None \<Rightarrow> Some (False, w)
           | Some p \<Rightarrow>
               if leader P = Some p \<or> party_of w p \<noteq> Some k then Some (False, w)
               else if \<not> on_pass e \<and> \<not> forceRemove then Some (False, w)
               else (case leader P of
                   None \<Rightarrow> None
                 | Some oldLeader \<Rightarrow>
                     map_option (\<lambda>P'. (True, put_party k P' w))
                       (updateSharedExperience e
                         (P\<lparr>leader := Some p, memberList := oldLeader # remove1 p (memberList P)\<rparr>)))))"

definition missing_leader :: "pid \<Rightarrow> party \<Rightarrow> bool" where
  "missing_leader p P \<longleftrightarrow> leader P = Some p \<and> (memberList P = [] \<or> length (memberList P) = 1 \<and> inviteList P = [])"

text \<open>Leaving once a leader's party has been handed over; \<open>missingLeader\<close> when there is nobody to lead.\<close>

definition finish_leaving :: "env \<Rightarrow> pid \<Rightarrow> bool \<Rightarrow> nat \<Rightarrow> world \<Rightarrow> (bool \<times> world) option" where
  "finish_leaving e p missingLeader k w =
     (case parties w k of
        None \<Rightarrow> None
      | Some P \<Rightarrow>
          let P1 = P\<lparr>memberList := remove1 p (memberList P)\<rparr>;
              w1 = setParty p None w
          in if leader P1 = None then None
             else Option.bind (Option.bind (updateSharedExperience e P1) (clearPlayerPoints e p))
               (\<lambda>P2. let w2 = put_party k P2 w1 in
                 if missingLeader \<or> party_empty P2 then map_option (\<lambda>w3. (True, w3)) (disband e k w2)
                 else Some (True, w2)))"

definition leaveParty :: "env \<Rightarrow> pid \<Rightarrow> bool \<Rightarrow> nat \<Rightarrow> world \<Rightarrow> (bool \<times> world) option" where
  "leaveParty e p forceRemove k w =
     (case parties w k of
        None \<Rightarrow> None
      | Some P \<Rightarrow>
          if party_of w p \<noteq> Some k \<and> leader P \<noteq> Some p then Some (False, w)
          else if \<not> forceRemove \<and> \<not> on_leave e then Some (False, w)
          else
            Option.bind (if leader P = Some p \<and> \<not> missing_leader p P
                         then map_option snd (passPartyLeadership e (Some (hd (memberList P))) True k w)
                         else Some w)
              (finish_leaving e p (missing_leader p P) k))"

definition joinParty :: "env \<Rightarrow> pid \<Rightarrow> nat \<Rightarrow> world \<Rightarrow> (bool \<times> world) option" where
  "joinParty e p k w =
     (case parties w k of
        None \<Rightarrow> None
      | Some P \<Rightarrow>
          if \<not> on_join e then Some (False, w)
          else if p \<notin> set (inviteList P) then Some (False, w)
          else if leader P = None then None
          else
            let P1 = P\<lparr>inviteList := remove1 p (inviteList P), memberList := memberList P @ [p]\<rparr>;
                w1 = removePartyInvitation p k (setParty p (Some k) w)
            in map_option (\<lambda>P2. (True, put_party k P2 w1)) (updateSharedExperience e P1))"

definition removeInvite :: "env \<Rightarrow> pid \<Rightarrow> bool \<Rightarrow> nat \<Rightarrow> world \<Rightarrow> (bool \<times> world) option" where
  "removeInvite e p removeFromPlayer k w =
     (case parties w k of
        None \<Rightarrow> None
      | Some P \<Rightarrow>
          if p \<notin> set (inviteList P) then Some (False, w)
          else if leader P = None then None
          else
            let P1 = P\<lparr>inviteList := remove1 p (inviteList P)\<rparr>;
                w1 = put_party k P1 w;
                w2 = (if removeFromPlayer then removePartyInvitation p k w1 else w1)
            in if party_empty P1 then map_option (\<lambda>w3. (True, w3)) (disband e k w2) else Some (True, w2))"

definition revokeInvitation :: "env \<Rightarrow> pid \<Rightarrow> nat \<Rightarrow> world \<Rightarrow> world option" where
  "revokeInvitation e p k w =
     (if \<not> on_revoke e then Some w else map_option snd (removeInvite e p True k w))"

definition invitePlayer :: "pid \<Rightarrow> nat \<Rightarrow> world \<Rightarrow> (bool \<times> world) option" where
  "invitePlayer p k w =
     (case parties w k of
        None \<Rightarrow> None
      | Some P \<Rightarrow>
          if isPlayerInvited p P then Some (False, w)
          else if leader P = None then None
          else Some (True, addPartyInvitation p k (put_party k (P\<lparr>inviteList := inviteList P @ [p]\<rparr>) w)))"

fun drop_invitations :: "env \<Rightarrow> pid \<Rightarrow> nat list \<Rightarrow> world \<Rightarrow> world option" where
  "drop_invitations e p [] w = Some w"
| "drop_invitations e p (k # ks) w =
     (case removeInvite e p False k w of None \<Rightarrow> None | Some (_, w') \<Rightarrow> drop_invitations e p ks w')"

definition clearPartyInvitations :: "env \<Rightarrow> pid \<Rightarrow> world \<Rightarrow> world option" where
  "clearPartyInvitations e p w =
     map_option (\<lambda>w'. w'\<lparr>invitePartyList := (invitePartyList w')(p := [])\<rparr>)
       (drop_invitations e p (invitePartyList w p) w)"

definition isInviting :: "pid \<Rightarrow> pid \<Rightarrow> world \<Rightarrow> bool" where
  "isInviting self p w =
     (case party_of w self of
        None \<Rightarrow> False
      | Some k \<Rightarrow> (case parties w k of None \<Rightarrow> False | Some P \<Rightarrow> leader P = Some self \<and> isPlayerInvited p P))"

definition isPartner :: "pid \<Rightarrow> pid \<Rightarrow> world \<Rightarrow> bool" where
  "isPartner self p w \<longleftrightarrow> party_of w self \<noteq> None \<and> p \<noteq> self \<and> party_of w self = party_of w p"

section \<open>Requests of players\<close>

text \<open>
  \<open>fresh\<close> is where a new party object is allocated: not the place of a living one.
\<close>

definition playerInviteToParty :: "env \<Rightarrow> nat \<Rightarrow> pid \<Rightarrow> pid \<Rightarrow> world \<Rightarrow> world option" where
  "playerInviteToParty e fresh player invited w =
     (if player = invited then Some w
      else if isInviting invited player w then Some w
      else if party_of w invited \<noteq> None then Some w
      else
        let (k, w1, go) =
              (case party_of w player of
                 None \<Rightarrow> (fresh, setParty player (Some fresh) (put_party fresh (new_party player) w), True)
               | Some k \<Rightarrow> (k, w, case parties w k of Some P \<Rightarrow> leader P = Some player | None \<Rightarrow> False))
        in if \<not> go then Some w1
           else (case parties w1 k of
               None \<Rightarrow> None
             | Some P \<Rightarrow>
                 if \<not> on_invite e then
                   Some (if party_empty P then (setParty player None w1)\<lparr>parties := (parties w1)(k := None)\<rparr> else w1)
                 else map_option snd (invitePlayer invited k w1)))"

definition playerJoinParty :: "env \<Rightarrow> pid \<Rightarrow> pid \<Rightarrow> world \<Rightarrow> world option" where
  "playerJoinParty e player ldr w =
     (if \<not> isInviting ldr player w then Some w
      else case party_of w ldr of
        None \<Rightarrow> Some w
      | Some k \<Rightarrow>
          (case parties w k of
             None \<Rightarrow> None
           | Some P \<Rightarrow>
               if leader P \<noteq> Some ldr then Some w
               else if party_of w player \<noteq> None then Some w
               else map_option snd (joinParty e player k w)))"

definition leads :: "pid \<Rightarrow> nat \<Rightarrow> world \<Rightarrow> bool" where
  "leads p k w \<longleftrightarrow> (case parties w k of None \<Rightarrow> False | Some P \<Rightarrow> leader P = Some p)"

definition playerRevokePartyInvitation :: "env \<Rightarrow> pid \<Rightarrow> pid \<Rightarrow> world \<Rightarrow> world option" where
  "playerRevokePartyInvitation e player invited w =
     (case party_of w player of
        None \<Rightarrow> Some w
      | Some k \<Rightarrow>
          if \<not> leads player k w then Some w
          else if \<not> isInviting player invited w then Some w
          else revokeInvitation e invited k w)"

definition playerPassPartyLeadership :: "env \<Rightarrow> pid \<Rightarrow> pid \<Rightarrow> world \<Rightarrow> world option" where
  "playerPassPartyLeadership e player newLeader w =
     (case party_of w player of
        None \<Rightarrow> Some w
      | Some k \<Rightarrow>
          if \<not> leads player k w then Some w
          else if \<not> isPartner player newLeader w then Some w
          else map_option snd (passPartyLeadership e (Some newLeader) False k w))"

definition playerLeaveParty :: "env \<Rightarrow> bool \<Rightarrow> pid \<Rightarrow> world \<Rightarrow> world option" where
  "playerLeaveParty e inFight player w =
     (case party_of w player of
        None \<Rightarrow> Some w
      | Some k \<Rightarrow> if inFight then Some w else map_option snd (leaveParty e player False k w))"

definition playerEnableSharedPartyExperience :: "env \<Rightarrow> bool \<Rightarrow> bool \<Rightarrow> pid \<Rightarrow> bool \<Rightarrow> world \<Rightarrow> world option" where
  "playerEnableSharedPartyExperience e inFight inProtection player active w =
     (case party_of w player of
        None \<Rightarrow> Some w
      | Some k \<Rightarrow>
          if inFight \<and> \<not> inProtection then Some w
          else case parties w k of
            None \<Rightarrow> None
          | Some P \<Rightarrow> map_option (\<lambda>(_, P'). put_party k P' w) (setSharedExperience e player active P))"

text \<open>The part of \<open>Player::onRemoveCreature\<close> about parties.\<close>

definition party_logout :: "env \<Rightarrow> pid \<Rightarrow> world \<Rightarrow> world option" where
  "party_logout e p w =
     Option.bind (clearPartyInvitations e p w) (\<lambda>w1.
       case party_of w1 p of None \<Rightarrow> Some w1 | Some k \<Rightarrow> map_option snd (leaveParty e p True k w1))"

section \<open>Consistency\<close>

definition crew :: "party \<Rightarrow> pid set" where
  "crew P = set_option (leader P) \<union> set (memberList P)"

text \<open>A party and its players point at each other.\<close>

definition party_ok :: "world \<Rightarrow> nat \<Rightarrow> party \<Rightarrow> bool" where
  "party_ok w k P \<longleftrightarrow> (\<exists>l. leader P = Some l \<and> l \<notin> set (memberList P)) \<and> distinct (memberList P) \<and>
     (\<forall>m \<in> crew P. party_of w m = Some k) \<and> distinct (inviteList P) \<and>
     (\<forall>i \<in> set (inviteList P). k \<in> set (invitePartyList w i)) \<and> \<not> party_empty P"

text \<open>
  The invariant with two exceptions for the middle of an operation: the party \<open>k0\<close>, which may be in any
  shape but has no other party's players, and the players \<open>X\<close>, whose lists of invitations may be out
  of date.
\<close>

definition in_crew :: "world \<Rightarrow> nat \<Rightarrow> pid \<Rightarrow> bool" where
  "in_crew w k p = (case parties w k of None \<Rightarrow> False | Some P \<Rightarrow> p \<in> crew P)"

definition is_invited :: "world \<Rightarrow> nat \<Rightarrow> pid \<Rightarrow> bool" where
  "is_invited w k p = (case parties w k of None \<Rightarrow> False | Some P \<Rightarrow> p \<in> set (inviteList P))"

definition world_but :: "nat option \<Rightarrow> pid set \<Rightarrow> world \<Rightarrow> bool" where
  "world_but k0 X w \<longleftrightarrow>
     (\<forall>k P. parties w k = Some P \<longrightarrow> k0 \<noteq> Some k \<longrightarrow> party_ok w k P) \<and>
     (\<forall>k P. parties w k = Some P \<longrightarrow> k0 = Some k \<longrightarrow> leader P \<noteq> None \<and> (\<forall>m \<in> crew P. party_of w m \<in> {Some k, None})) \<and>
     (\<forall>p k. party_of w p = Some k \<longrightarrow> in_crew w k p) \<and>
     (\<forall>p k. p \<notin> X \<longrightarrow> k \<in> set (invitePartyList w p) \<longrightarrow> is_invited w k p) \<and>
     (\<forall>p. distinct (invitePartyList w p))"

lemma in_crew_iff: "in_crew w k p \<longleftrightarrow> (\<exists>P. parties w k = Some P \<and> p \<in> crew P)"
  by (simp add: in_crew_def split: option.splits)

lemma is_invited_iff: "is_invited w k p \<longleftrightarrow> (\<exists>P. parties w k = Some P \<and> p \<in> set (inviteList P))"
  by (simp add: is_invited_def split: option.splits)

lemma world_butI:
  assumes "\<And>k P. parties w k = Some P \<Longrightarrow> k0 \<noteq> Some k \<Longrightarrow> party_ok w k P"
    and "\<And>k P m. parties w k = Some P \<Longrightarrow> k0 = Some k \<Longrightarrow> leader P \<noteq> None"
    and "\<And>k P m. parties w k = Some P \<Longrightarrow> k0 = Some k \<Longrightarrow> m \<in> crew P \<Longrightarrow> party_of w m \<in> {Some k, None}"
    and "\<And>p k. party_of w p = Some k \<Longrightarrow> in_crew w k p"
    and "\<And>p k. p \<notin> X \<Longrightarrow> k \<in> set (invitePartyList w p) \<Longrightarrow> is_invited w k p"
    and "\<And>p. distinct (invitePartyList w p)"
  shows "world_but k0 X w"
  using assms unfolding world_but_def by simp

abbreviation world_ok :: "world \<Rightarrow> bool" where
  "world_ok \<equiv> world_but None {}"

lemma world_but_okD: "world_but None X w \<Longrightarrow> parties w k = Some P \<Longrightarrow> party_ok w k P"
  by (simp add: world_but_def)

lemma world_but_partyD: "world_but k0 X w \<Longrightarrow> party_of w p = Some k \<Longrightarrow> \<exists>P. parties w k = Some P \<and> p \<in> crew P"
  by (simp add: world_but_def in_crew_iff)

lemma world_but_inviteD:
  "world_but k0 X w \<Longrightarrow> p \<notin> X \<Longrightarrow> k \<in> set (invitePartyList w p) \<Longrightarrow> \<exists>P. parties w k = Some P \<and> p \<in> set (inviteList P)"
  by (simp add: world_but_def is_invited_iff)

lemma world_but_distinct: "world_but k0 X w \<Longrightarrow> distinct (invitePartyList w p)"
  by (simp add: world_but_def)

lemma crewD: "party_ok w k P \<Longrightarrow> m \<in> crew P \<Longrightarrow> party_of w m = Some k"
  by (simp add: party_ok_def)

lemma fold_setParty:
  "party_of (fold (\<lambda>m. setParty m None) ms w) p = (if p \<in> set ms then None else party_of w p)"
  "parties (fold (\<lambda>m. setParty m None) ms w) = parties w"
  "invitePartyList (fold (\<lambda>m. setParty m None) ms w) = invitePartyList w"
  by (induction ms arbitrary: w) (simp_all add: setParty_def)

lemma fold_removePartyInvitation:
  "invitePartyList (fold (\<lambda>i. removePartyInvitation i k) is w) p =
     (if p \<in> set is then removeAll k (invitePartyList w p) else invitePartyList w p)"
  "parties (fold (\<lambda>i. removePartyInvitation i k) is w) = parties w"
  "party_of (fold (\<lambda>i. removePartyInvitation i k) is w) = party_of w"
  by (induction "is" arbitrary: w) (simp_all add: removePartyInvitation_def)

lemma disband_eq:
  assumes "parties w k = Some P" "leader P = Some l" "on_disband e k"
  shows "\<exists>w'. disband e k w = Some w' \<and> parties w' = (parties w)(k := None) \<and>
    party_of w' = (\<lambda>p. if p \<in> crew P then None else party_of w p) \<and>
    invitePartyList w' = (\<lambda>p. if p \<in> set (inviteList P) then removeAll k (invitePartyList w p) else invitePartyList w p)"
  using assms
  by (auto simp: disband_def Let_def fold_setParty fold_removePartyInvitation setParty_def crew_def fun_eq_iff)

lemma disband_ok:
  assumes "world_but (Some k) X w" "parties w k = Some P" "on_disband e k"
  shows "\<exists>w'. disband e k w = Some w' \<and> world_but None X w' \<and> parties w' = (parties w)(k := None) \<and>
    (\<forall>p. party_of w' p = (if p \<in> crew P then None else party_of w p))"
proof -
  obtain l where "leader P = Some l" using assms(1,2) by (auto simp: world_but_def)
  from disband_eq [OF assms(2) this assms(3)] obtain w' where w': "disband e k w = Some w'"
    "parties w' = (parties w)(k := None)" "party_of w' = (\<lambda>p. if p \<in> crew P then None else party_of w p)"
    "invitePartyList w' = (\<lambda>p. if p \<in> set (inviteList P) then removeAll k (invitePartyList w p) else invitePartyList w p)"
    by blast
  have Q: "party_ok w' k' Q" if "k' \<noteq> k" "parties w k' = Some Q" for k' Q
  proof -
    have ok: "party_ok w k' Q" using that assms(1) by (auto simp: world_but_def)
    have "m \<notin> crew P" if "m \<in> crew Q" for m
      using ok that \<open>k' \<noteq> k\<close> assms(1,2) unfolding world_but_def party_ok_def by force
    then show ?thesis using ok that(1) unfolding party_ok_def w'(3,4) by auto
  qed
  have B: "in_crew w' k' p" if "party_of w' p = Some k'" for p k'
    using that world_but_partyD [OF assms(1), of p k'] assms(2) w'(2,3)
    by (auto simp: in_crew_iff split: if_split_asm)
  have C: "is_invited w' k' p" if "p \<notin> X" "k' \<in> set (invitePartyList w' p)" for p k'
    using that world_but_inviteD [OF assms(1), of p k'] assms(2) w'(2,4)
    by (auto simp: is_invited_iff split: if_split_asm)
  have D: "distinct (invitePartyList w' p)" for p
    using world_but_distinct [OF assms(1), of p] w'(4) by (simp add: distinct_removeAll)
  have "world_but None X w'"
    using Q B C D w'(2) by (intro world_butI) (auto split: if_split_asm)
  then show ?thesis using w' by simp
qed

section \<open>Sharing does not touch membership\<close>

definition same_lists :: "party \<Rightarrow> party \<Rightarrow> bool" where
  "same_lists P Q \<longleftrightarrow> leader Q = leader P \<and> memberList Q = memberList P \<and> inviteList Q = inviteList P"

lemma same_lists_refl [simp]: "same_lists P P"
  by (simp add: same_lists_def)

lemma same_lists_trans: "same_lists P Q \<Longrightarrow> same_lists Q R \<Longrightarrow> same_lists P R"
  by (simp add: same_lists_def)

lemma same_lists_simps:
  "same_lists P Q \<Longrightarrow> crew Q = crew P" "same_lists P Q \<Longrightarrow> party_empty Q = party_empty P"
  "same_lists P Q \<Longrightarrow> party_ok w k Q = party_ok w k P"
  by (simp_all add: same_lists_def crew_def party_empty_def party_ok_def)

lemma all_can_share_total: "leader P \<noteq> None \<Longrightarrow> \<exists>b. all_can_share e ps P = Some b"
  by (induction ps) (auto simp: canUseSharedExperience_def)

lemma updateShared_total:
  assumes "leader P \<noteq> None"
  shows "\<exists>Q. updateSharedExperience e P = Some Q \<and> same_lists P Q"
proof -
  obtain l where "leader P = Some l" using assms by auto
  then show ?thesis using all_can_share_total [OF assms, of e "l # memberList P"]
    by (auto simp: updateSharedExperience_def canEnableSharedExperience_def same_lists_def)
qed

lemma clearPlayerPoints_total:
  assumes "leader P \<noteq> None"
  shows "\<exists>Q. clearPlayerPoints e p P = Some Q \<and> same_lists P Q"
  using updateShared_total [of "P\<lparr>ticksMap := (ticksMap P)(p := None)\<rparr>" e] assms
  by (auto simp: clearPlayerPoints_def same_lists_def)

lemma setShared_total:
  assumes "leader P \<noteq> None"
  shows "\<exists>b Q. setSharedExperience e p active P = Some (b, Q) \<and> same_lists P Q"
proof -
  obtain l where "leader P = Some l" using assms by auto
  then show ?thesis
    using all_can_share_total [of "P\<lparr>sharedExpActive := True\<rparr>" e "l # memberList P"]
    by (auto simp: setSharedExperience_def canEnableSharedExperience_def same_lists_def Let_def)
qed

section \<open>Operations keep parties and players consistent\<close>

text \<open>Changes of one party \<open>k\<close> and of what players say of it.\<close>

definition only_about :: "nat \<Rightarrow> world \<Rightarrow> world \<Rightarrow> bool" where
  "only_about k w w' \<longleftrightarrow> (\<forall>k'. k' \<noteq> k \<longrightarrow> parties w' k' = parties w k') \<and>
     (\<forall>p k'. k' \<noteq> k \<longrightarrow> party_of w' p = Some k' \<longleftrightarrow> party_of w p = Some k') \<and>
     (\<forall>p k'. k' \<noteq> k \<longrightarrow> k' \<in> set (invitePartyList w' p) \<longleftrightarrow> k' \<in> set (invitePartyList w p)) \<and>
     (\<forall>p. distinct (invitePartyList w p) \<longrightarrow> distinct (invitePartyList w' p))"

lemma local_change:
  assumes "world_but k0 X w" "k0 \<in> {None, Some k}" "only_about k w w'" "parties w' k = Some Q"
    and "\<And>p. party_of w' p = Some k \<Longrightarrow> p \<in> crew Q"
    and "\<And>p. p \<notin> X \<Longrightarrow> k \<in> set (invitePartyList w' p) \<Longrightarrow> p \<in> set (inviteList Q)"
    and "k1 = None \<and> party_ok w' k Q \<or> k1 = Some k \<and> leader Q \<noteq> None \<and> (\<forall>m \<in> crew Q. party_of w' m \<in> {Some k, None})"
  shows "world_but k1 X w'"
proof (rule world_butI)
  have other: "parties w' k' = parties w k'" if "k' \<noteq> k" for k' using assms(3) that by (simp add: only_about_def)
  show "party_ok w' k' R" if "parties w' k' = Some R" "k1 \<noteq> Some k'" for k' R
  proof (cases "k' = k")
    case True
    then show ?thesis using that assms(4,7) by auto
  next
    case False
    then have "party_ok w k' R" using that other assms(1,2) by (auto simp: world_but_def)
    then show ?thesis using False assms(3) by (auto simp: party_ok_def only_about_def)
  qed
  show "in_crew w' k' p" if "party_of w' p = Some k'" for p k'
    using that assms(3,4,5) world_but_partyD [OF assms(1), of p k'] other [of k']
    by (cases "k' = k") (auto simp: in_crew_iff only_about_def)
  show "is_invited w' k' p" if "p \<notin> X" "k' \<in> set (invitePartyList w' p)" for p k'
    using that assms(3,4,6) world_but_inviteD [OF assms(1), of p k'] other [of k']
    by (cases "k' = k") (auto simp: is_invited_iff only_about_def)
  show "distinct (invitePartyList w' p)" for p
    using world_but_distinct [OF assms(1)] assms(3) by (simp add: only_about_def)
qed (use assms(4,7) in auto)

lemma only_about_intros [inv_intros]:
  "only_about k w w"
  "only_about k w w' \<Longrightarrow> only_about k w (put_party k Q w')"
  "only_about k w w' \<Longrightarrow> party_of w' p \<in> {None, Some k} \<Longrightarrow> j \<in> {None, Some k} \<Longrightarrow> only_about k w (setParty p j w')"
  "only_about k w w' \<Longrightarrow> only_about k w (removePartyInvitation p k w')"
  "only_about k w w' \<Longrightarrow> only_about k w (addPartyInvitation p k w')"
  by (auto simp: only_about_def put_party_def setParty_def removePartyInvitation_def addPartyInvitation_def distinct_removeAll)
    (metis option.distinct(1) option.inject)+

named_theorems world_simps \<open>what the setters of the state leave alone\<close>

lemma setters [world_simps]:
  "parties (setParty p j w) = parties w" "invitePartyList (setParty p j w) = invitePartyList w"
  "party_of (setParty p j w) = (party_of w)(p := j)"
  "parties (removePartyInvitation p k w) = parties w" "party_of (removePartyInvitation p k w) = party_of w"
  "invitePartyList (removePartyInvitation p k w) = (invitePartyList w)(p := removeAll k (invitePartyList w p))"
  "parties (addPartyInvitation p k w) = parties w" "party_of (addPartyInvitation p k w) = party_of w"
  "set (invitePartyList (addPartyInvitation p k w) q) = (if q = p then insert k else (\<lambda>s. s)) (set (invitePartyList w q))"
  "parties (put_party k Q w) = (parties w)(k \<mapsto> Q)" "party_of (put_party k Q w) = party_of w"
  "invitePartyList (put_party k Q w) = invitePartyList w"
  by (auto simp: put_party_def setParty_def removePartyInvitation_def addPartyInvitation_def)

text \<open>Replacing a party by one with the same lists.\<close>

lemma put_same:
  assumes "world_but None X w" "parties w k = Some P" "same_lists P Q"
  shows "world_but None X (put_party k Q w)"
proof (rule local_change [OF assms(1) _ only_about_intros(2) [OF only_about_intros(1)]])
  have ok: "party_ok w k Q" using world_but_okD [OF assms(1,2)] same_lists_simps(3) [OF assms(3)] by simp
  then show "None = None \<and> party_ok (put_party k Q w) k Q \<or> None = Some k \<and> leader Q \<noteq> None \<and>
      (\<forall>m \<in> crew Q. party_of (put_party k Q w) m \<in> {Some k, None})"
    by (simp add: party_ok_def world_simps)
qed (use world_but_partyD [OF assms(1), of _ k] world_but_inviteD [OF assms(1), of _ k] assms(2,3) same_lists_simps(1) [OF assms(3)]
     in \<open>auto simp: world_simps same_lists_def\<close>)

lemma removeInvite_ok:
  assumes ok: "world_but None X w" and P: "parties w k = Some P" and p: "p \<in> set (inviteList P)"
    and d: "on_disband e k" and rm: "rm \<or> p \<in> X"
  shows "\<exists>w'. removeInvite e p rm k w = Some (True, w') \<and> world_but None X w' \<and>
    (\<forall>k' q. is_invited w' k' q \<longleftrightarrow> is_invited w k' q \<and> (k' = k \<longrightarrow> q \<noteq> p)) \<and> (\<forall>q. party_of w q = None \<longrightarrow> party_of w' q = None)"
proof -
  define P1 where "P1 = P\<lparr>inviteList := remove1 p (inviteList P)\<rparr>"
  define w2 where "w2 = (if rm then removePartyInvitation p k (put_party k P1 w) else put_party k P1 w)"
  have pok: "party_ok w k P" by (rule world_but_okD [OF ok P])
  then have l: "leader P \<noteq> None" and di: "distinct (inviteList P)" by (auto simp: party_ok_def)
  have eq: "removeInvite e p rm k w = (if party_empty P1 then map_option (\<lambda>w3. (True, w3)) (disband e k w2) else Some (True, w2))"
    using P p l by (simp add: removeInvite_def P1_def [symmetric] w2_def Let_def del: not_None_eq)
  have about: "only_about k w w2" by (simp add: w2_def only_about_intros)
  have w2: "parties w2 = (parties w)(k \<mapsto> P1)" "party_of w2 = party_of w" by (simp_all add: w2_def world_simps)
  have inv: "is_invited w2 k' q \<longleftrightarrow> is_invited w k' q \<and> (k' = k \<longrightarrow> q \<noteq> p)" for k' q
    using P di by (auto simp: is_invited_iff w2 P1_def)
  have crew: "crew P1 = crew P" by (simp add: crew_def P1_def)
  have lP: "leader P1 = leader P" by (simp add: P1_def)
  have A: "q \<in> crew P1" if "party_of w2 q = Some k" for q
    using world_but_partyD [OF ok, of q k] that P w2 crew by auto
  have B: "q \<in> set (inviteList P1)" if "q \<notin> X" "k \<in> set (invitePartyList w2 q)" for q
    using world_but_inviteD [OF ok, of q k] that P rm di by (auto simp: w2_def P1_def world_simps split: if_split_asm)
  show ?thesis
  proof (cases "party_empty P1")
    case True
    have "world_but (Some k) X w2"
      by (rule local_change [OF ok _ about _ A B]) (use pok l crewD [OF pok] in \<open>auto simp: w2 crew lP\<close>)
    moreover have "parties w2 k = Some P1" by (simp add: w2)
    ultimately obtain w' where "disband e k w2 = Some w'" "world_but None X w'" "parties w' = (parties w2)(k := None)"
      "\<forall>p. party_of w' p = (if p \<in> crew P1 then None else party_of w2 p)"
      using disband_ok [OF _ _ d] by blast
    moreover have "is_invited w' k' q \<longleftrightarrow> is_invited w2 k' q" for k' q
      using True \<open>parties w' = _\<close> by (auto simp: is_invited_iff w2 party_empty_def)
    ultimately show ?thesis using True by (simp add: eq inv w2)
  next
    case False
    then have "party_ok w2 k P1"
      using pok di by (auto simp: party_ok_def w2 P1_def crew_def w2_def world_simps)
    then have "world_but None X w2"
      by (intro local_change [OF ok _ about _ A B]) (auto simp: w2)
    then show ?thesis using False by (simp add: eq inv w2)
  qed
qed

lemma drop_invitations_ok:
  assumes "world_but None X w" "p \<in> X" "\<And>k. on_disband e k" "distinct ks" "\<forall>k. is_invited w k p \<longleftrightarrow> k \<in> set ks"
  shows "\<exists>w'. drop_invitations e p ks w = Some w' \<and> world_but None X w' \<and> (\<forall>k. \<not> is_invited w' k p) \<and>
    (\<forall>q. party_of w q = None \<longrightarrow> party_of w' q = None)"
  using assms
proof (induction ks arbitrary: w)
  case (Cons k ks)
  obtain P where P: "parties w k = Some P" "p \<in> set (inviteList P)" using Cons.prems(5) by (auto simp: is_invited_iff)
  obtain w1 where w1: "removeInvite e p False k w = Some (True, w1)" "world_but None X w1"
    "\<forall>k' q. is_invited w1 k' q \<longleftrightarrow> is_invited w k' q \<and> (k' = k \<longrightarrow> q \<noteq> p)" "\<forall>q. party_of w q = None \<longrightarrow> party_of w1 q = None"
    using removeInvite_ok [OF Cons.prems(1) P Cons.prems(3), of False] Cons.prems(2) by blast
  have "\<forall>k'. is_invited w1 k' p \<longleftrightarrow> k' \<in> set ks" using w1(3) Cons.prems(4,5) by auto
  from Cons.IH [OF w1(2) Cons.prems(2,3) _ this] Cons.prems(4) w1(1,4) show ?case by auto
qed auto

lemma clear_ok:
  assumes ok: "world_ok w" and d: "\<And>k. on_disband e k"
  shows "\<exists>w'. clearPartyInvitations e p w = Some w' \<and> world_ok w' \<and> (\<forall>k. \<not> is_invited w' k p) \<and> invitePartyList w' p = [] \<and>
    (\<forall>q. party_of w q = None \<longrightarrow> party_of w' q = None)"
proof -
  have "world_but None {p} w" using ok by (simp add: world_but_def)
  moreover have "\<forall>k. is_invited w k p \<longleftrightarrow> k \<in> set (invitePartyList w p)"
    using ok by (auto simp: world_but_def is_invited_iff party_ok_def)
  ultimately obtain w' where w': "drop_invitations e p (invitePartyList w p) w = Some w'" "world_but None {p} w'"
    "\<forall>k. \<not> is_invited w' k p" "\<forall>q. party_of w q = None \<longrightarrow> party_of w' q = None"
    using drop_invitations_ok [OF _ insertI1 d world_but_distinct [OF ok, of p]] by blast
  let ?w = "w'\<lparr>invitePartyList := (invitePartyList w')(p := [])\<rparr>"
  have inv: "is_invited ?w k q = is_invited w' k q" for k q by (simp add: is_invited_def)
  have "world_ok ?w"
  proof (rule world_butI)
    show "party_ok ?w k P" if "parties ?w k = Some P" for k P
    proof -
      have "party_ok w' k P" using that world_but_okD [OF w'(2)] by simp
      moreover have "p \<notin> set (inviteList P)" using that w'(3) by (auto simp: is_invited_iff)
      ultimately show ?thesis by (auto simp: party_ok_def)
    qed
    show "in_crew ?w k q" if "party_of ?w q = Some k" for q k
      using that world_but_partyD [OF w'(2), of q k] by (simp add: in_crew_iff)
    show "is_invited ?w k q" if "k \<in> set (invitePartyList ?w q)" for q k
      using that world_but_inviteD [OF w'(2), of q k] by (auto simp: is_invited_iff split: if_split_asm)
    show "distinct (invitePartyList ?w q)" for q
      using world_but_distinct [OF w'(2), of q] by simp
  qed simp_all
  then show ?thesis using w' by (simp add: clearPartyInvitations_def inv)
qed

lemma join_ok:
  assumes ok: "world_ok w" and P: "parties w k = Some P" and p: "party_of w p = None"
  shows "\<exists>b w'. joinParty e p k w = Some (b, w') \<and> world_ok w'"
proof (cases "on_join e \<and> p \<in> set (inviteList P)")
  case True
  define P1 where "P1 = P\<lparr>inviteList := remove1 p (inviteList P), memberList := memberList P @ [p]\<rparr>"
  have pok: "party_ok w k P" by (rule world_but_okD [OF ok P])
  then obtain l where l: "leader P = Some l" by (auto simp: party_ok_def)
  obtain P2 where P2: "updateSharedExperience e P1 = Some P2" "same_lists P1 P2"
    using updateShared_total [of P1 e] l by (auto simp: P1_def)
  let ?w = "put_party k P2 (removePartyInvitation p k (setParty p (Some k) w))"
  have lists: "memberList P2 = memberList P @ [p]" "inviteList P2 = remove1 p (inviteList P)" "leader P2 = leader P"
    using P2(2) by (simp_all add: same_lists_def P1_def)
  then have crew: "crew P2 = insert p (crew P)" by (auto simp: crew_def)
  have new: "p \<notin> crew P" using crewD [OF pok, of p] p by auto
  have "world_but None {} ?w"
  proof (rule local_change [OF ok, of k ?w P2])
    show "only_about k w ?w" by (intro only_about_intros) (simp_all add: p)
    show "q \<in> crew P2" if "party_of ?w q = Some k" for q
      using that world_but_partyD [OF ok, of q k] P by (auto simp: world_simps crew split: if_split_asm)
    show "q \<in> set (inviteList P2)" if "k \<in> set (invitePartyList ?w q)" for q
      using that world_but_inviteD [OF ok, of q k] P pok by (auto simp: world_simps lists party_ok_def split: if_split_asm)
    have "party_ok ?w k P2"
      using pok new crewD [OF pok]
      by (auto simp: party_ok_def crew lists world_simps party_empty_def) (auto simp: crew_def)
    then show "None = None \<and> party_ok ?w k P2 \<or> None = Some k \<and> leader P2 \<noteq> None \<and> (\<forall>m \<in> crew P2. party_of ?w m \<in> {Some k, None})"
      by simp
  qed (simp_all add: world_simps)
  then show ?thesis using True P l P2(1) by (auto simp: joinParty_def Let_def P1_def)
qed (use P ok in \<open>auto simp: joinParty_def\<close>)

lemma pass_ok:
  assumes ok: "world_ok w" and P: "parties w k = Some P" "leader P = Some l"
    and p: "party_of w p = Some k" "p \<noteq> l" "on_pass e \<or> f"
  shows "\<exists>Q. passPartyLeadership e (Some p) f k w = Some (True, put_party k Q w) \<and> world_ok (put_party k Q w) \<and>
    leader Q = Some p \<and> memberList Q = l # remove1 p (memberList P) \<and> inviteList Q = inviteList P"
proof -
  define P1 where "P1 = P\<lparr>leader := Some p, memberList := l # remove1 p (memberList P)\<rparr>"
  have pok: "party_ok w k P" by (rule world_but_okD [OF ok P(1)])
  obtain Q where Q: "updateSharedExperience e P1 = Some Q" "same_lists P1 Q"
    using updateShared_total [of P1 e] by (auto simp: P1_def)
  have lists: "memberList Q = l # remove1 p (memberList P)" "inviteList Q = inviteList P" "leader Q = Some p"
    using Q(2) by (simp_all add: same_lists_def P1_def)
  have p_in: "p \<in> crew P" using world_but_partyD [OF ok p(1)] P(1) by simp
  then have crew: "crew Q = crew P" using P(2) p(2) pok by (auto simp: crew_def lists party_ok_def)
  have "party_ok (put_party k Q w) k Q"
    using pok P(2) p(2) by (auto simp: party_ok_def crew lists world_simps party_empty_def)
  then have "world_ok (put_party k Q w)"
    by (intro local_change [OF ok, of k _ Q])
      (use world_but_partyD [OF ok, of _ k] world_but_inviteD [OF ok, of _ k] P(1)
       in \<open>auto simp: world_simps only_about_intros lists crew\<close>)
  then show ?thesis using P p Q(1) lists
    by (intro exI [of _ Q]) (simp add: passPartyLeadership_def P1_def)
qed

text \<open>The first half of leaving: a leader who leaves others behind hands over.\<close>

lemma leave_handover:
  assumes ok: "world_ok w" and P: "parties w k = Some P" and p: "party_of w p = Some k"
  shows "\<exists>w1 P1. (if leader P = Some p \<and> \<not> missing_leader p P
      then map_option snd (passPartyLeadership e (Some (hd (memberList P))) True k w) else Some w) = Some w1 \<and>
    world_ok w1 \<and> parties w1 k = Some P1 \<and> party_of w1 = party_of w \<and> (\<forall>k' q. is_invited w1 k' q \<longrightarrow> is_invited w k' q) \<and> (\<not> missing_leader p P \<longrightarrow> leader P1 \<noteq> Some p)"
proof (cases "leader P = Some p \<and> \<not> missing_leader p P")
  case True
  have pok: "party_ok w k P" by (rule world_but_okD [OF ok P])
  obtain m ms where m: "memberList P = m # ms" using True by (cases "memberList P") (auto simp: missing_leader_def)
  then have q: "party_of w m = Some k" "m \<noteq> p"
    using crewD [OF pok, of m] pok True by (auto simp: crew_def party_ok_def)
  obtain Q where Q: "passPartyLeadership e (Some m) True k w = Some (True, put_party k Q w)"
    "world_ok (put_party k Q w)" "leader Q = Some m" "inviteList Q = inviteList P"
    using pass_ok [OF ok P conjunct1 [OF True] q disjI2 [OF TrueI], of e] by blast
  have "parties (put_party k Q w) k = Some Q" "party_of (put_party k Q w) = party_of w"
    by (simp_all add: put_party_def)
  moreover have "is_invited w k' q" if "is_invited (put_party k Q w) k' q" for k' q
    using that P Q(4) by (auto simp: is_invited_iff put_party_def split: if_split_asm)
  ultimately show ?thesis using True Q m q(2)
    by (intro exI [of _ "put_party k Q w"] exI [of _ Q]) simp
next
  case False
  then have "leader P \<noteq> Some p \<or> missing_leader p P" by blast
  then show ?thesis using ok P by (intro exI [of _ w] exI [of _ P]) auto
qed

lemma leave_ok:
  assumes ok: "world_ok w" and p: "party_of w p = Some k" and d: "on_disband e k"
  shows "\<exists>b w'. leaveParty e p f k w = Some (b, w') \<and> world_ok w' \<and> (f \<longrightarrow> party_of w' p = None) \<and>
    (\<forall>k' q. is_invited w' k' q \<longrightarrow> is_invited w k' q)"
proof -
  obtain P where P: "parties w k = Some P" using world_but_partyD [OF ok p] by blast
  define missing where "missing = missing_leader p P"
  show ?thesis
  proof (cases "\<not> f \<and> \<not> on_leave e")
    case True
    then show ?thesis using P p ok by (intro exI [of _ False] exI [of _ w]) (simp add: leaveParty_def)
  next
    case False
    obtain w1 P1 where w1: "(if leader P = Some p \<and> \<not> missing then map_option snd (passPartyLeadership e (Some (hd (memberList P))) True k w)
        else Some w) = Some w1" "world_ok w1" "parties w1 k = Some P1" "party_of w1 = party_of w"
      "\<forall>k' q. is_invited w1 k' q \<longrightarrow> is_invited w k' q" "\<not> missing \<longrightarrow> leader P1 \<noteq> Some p"
      using leave_handover [OF ok P p, of e, folded missing_def] by blast
    have pok: "party_ok w1 k P1" by (rule world_but_okD [OF w1(2,3)])
    then obtain l where l: "leader P1 = Some l" by (auto simp: party_ok_def)
    define P2 where "P2 = P1\<lparr>memberList := remove1 p (memberList P1)\<rparr>"
    obtain P2' where P2': "updateSharedExperience e P2 = Some P2'" "same_lists P2 P2'"
      using updateShared_total [of P2 e] l by (auto simp: P2_def)
    have "leader P2' \<noteq> None" using P2'(2) l by (auto simp: same_lists_def P2_def)
    then obtain P3 where P3: "clearPlayerPoints e p P2' = Some P3" "same_lists P2' P3"
      using clearPlayerPoints_total [of P2' e p] by blast
    have lists: "memberList P3 = remove1 p (memberList P1)" "inviteList P3 = inviteList P1" "leader P3 = Some l"
      using P2'(2) P3(2) l by (simp_all add: same_lists_def P2_def)
    let ?w = "put_party k P3 (setParty p None w1)"
    have eq: "leaveParty e p f k w = (if missing \<or> party_empty P3 then map_option (\<lambda>w4. (True, w4)) (disband e k ?w) else Some (True, ?w))"
    proof -
      have "leaveParty e p f k w = Option.bind (Some w1) (finish_leaving e p missing k)"
        using P p False by (cases f) (simp_all add: leaveParty_def missing_def [symmetric] w1(1) [symmetric])
      moreover have "leader P2 \<noteq> None" using l by (simp add: P2_def)
      ultimately show ?thesis using w1(3) P2' P3(1) by (simp add: finish_leaving_def Let_def P2_def [symmetric])
    qed
    have about: "only_about k w1 ?w" by (intro only_about_intros) (simp_all add: w1(4) p)
    have A: "q \<in> crew P3" if "party_of ?w q = Some k" for q
    proof -
      have "q \<noteq> p" "q \<in> crew P1"
        using that world_but_partyD [OF w1(2), of q k] w1(3) by (auto simp: world_simps split: if_split_asm)
      then show ?thesis using l by (auto simp: crew_def lists)
    qed
    have B: "q \<in> set (inviteList P3)" if "q \<notin> {}" "k \<in> set (invitePartyList ?w q)" for q
      using that world_but_inviteD [OF w1(2), of q k] w1(3) by (simp add: world_simps lists)
    have I: "is_invited w k' q" if "is_invited ?w k' q" for k' q
      using that w1(3,5) by (auto simp: is_invited_iff world_simps lists split: if_split_asm)
    have sub: "m \<in> crew P1" if "m \<in> crew P3" for m
      using that l notin_set_remove1 by (fastforce simp: crew_def lists)
    show ?thesis
    proof (cases "missing \<or> party_empty P3")
      case True
      have "world_but (Some k) {} ?w"
        by (rule local_change [OF w1(2) _ about _ A B]) (use sub crewD [OF pok] lists in \<open>auto simp: world_simps\<close>)
      moreover have "parties ?w k = Some P3" by (simp add: world_simps)
      ultimately obtain w' where w': "disband e k ?w = Some w'" "world_ok w'" "parties w' = (parties ?w)(k := None)"
          "\<forall>q. party_of w' q = (if q \<in> crew P3 then None else party_of ?w q)"
        using disband_ok [OF _ _ d] by blast
      have "is_invited w k' q" if "is_invited w' k' q" for k' q
        using that I [of k' q] by (auto simp: is_invited_iff w'(3) split: if_split_asm)
      then show ?thesis using True w' by (intro exI [of _ True] exI [of _ w']) (simp add: eq world_simps)
    next
      case False
      have "p \<notin> crew P3" using False w1(6) l pok by (auto simp: crew_def lists party_ok_def)
      then have "party_ok ?w k P3"
        using pok False sub crewD [OF pok] l by (auto simp: party_ok_def world_simps lists dest: notin_set_remove1)
      then have "world_ok ?w"
        by (intro local_change [OF w1(2) _ about _ A B]) (auto simp: world_simps)
      then show ?thesis using False I by (intro exI [of _ True] exI [of _ ?w]) (simp add: eq world_simps)
    qed
  qed
qed

section \<open>All requests\<close>

datatype request =
    Invite pid pid
  | Join pid pid
  | Revoke pid pid
  | PassLeadership pid pid
  | Leave bool pid
  | ShareExperience bool bool pid bool
  | Logout pid

fun handle :: "env \<Rightarrow> nat \<Rightarrow> request \<Rightarrow> world \<Rightarrow> world option" where
  "handle e fresh (Invite p i) w = playerInviteToParty e fresh p i w"
| "handle e fresh (Join p l) w = playerJoinParty e p l w"
| "handle e fresh (Revoke p i) w = playerRevokePartyInvitation e p i w"
| "handle e fresh (PassLeadership p q) w = playerPassPartyLeadership e p q w"
| "handle e fresh (Leave fight p) w = playerLeaveParty e fight p w"
| "handle e fresh (ShareExperience fight pz p b) w = playerEnableSharedPartyExperience e fight pz p b w"
| "handle e fresh (Logout p) w = party_logout e p w"

lemma new_party_ok:
  assumes ok: "world_ok w" and f: "parties w k = None" and l: "party_of w l = None"
  defines "w1 \<equiv> setParty l (Some k) (put_party k (new_party l) w)"
  shows "world_but (Some k) {} w1" "only_about k w w1" "parties w1 k = Some (new_party l)"
    "(setParty l None w1)\<lparr>parties := (parties w1)(k := None)\<rparr> = w"
proof -
  show about: "only_about k w w1"
    unfolding w1_def by (intro only_about_intros) (simp_all add: world_simps l)
  show "parties w1 k = Some (new_party l)" by (simp add: w1_def world_simps)
  show "world_but (Some k) {} w1"
    by (rule local_change [OF ok, of k _ "new_party l"])
      (use about world_but_partyD [OF ok, of _ k] world_but_inviteD [OF ok, of _ k] f
       in \<open>auto simp: w1_def world_simps new_party_def crew_def split: if_split_asm\<close>)
  have "(party_of w)(l := None) = party_of w" "(parties w)(k := None) = parties w" using l f by auto
  then show "(setParty l None w1)\<lparr>parties := (parties w1)(k := None)\<rparr> = w"
    by (simp add: w1_def setParty_def put_party_def)
qed

lemma invite_ok:
  assumes ok: "world_but k0 {} w" and k0: "k0 \<in> {None, Some k}" and P: "parties w k = Some P"
    and new: "k0 = Some k \<Longrightarrow> P = new_party l \<and> party_of w l = Some k"
  shows "\<exists>b w'. invitePlayer p k w = Some (b, w') \<and> world_ok w'"
proof (cases "isPlayerInvited p P")
  case True
  then have "k0 = None" using new k0 by (auto simp: isPlayerInvited_def new_party_def)
  then show ?thesis using True P ok by (intro exI [of _ False] exI [of _ w]) (simp add: invitePlayer_def)
next
  case False
  define Q where "Q = P\<lparr>inviteList := inviteList P @ [p]\<rparr>"
  let ?w = "addPartyInvitation p k (put_party k Q w)"
  have lists: "memberList Q = memberList P" "leader Q = leader P" "inviteList Q = inviteList P @ [p]" "crew Q = crew P"
    by (simp_all add: Q_def crew_def)
  have base: "(\<exists>l. leader P = Some l \<and> l \<notin> set (memberList P)) \<and> distinct (memberList P) \<and> (\<forall>m \<in> crew P. party_of w m = Some k) \<and>
      distinct (inviteList P) \<and> (\<forall>i \<in> set (inviteList P). k \<in> set (invitePartyList w i))"
  proof (cases "k0 = None")
    case True
    then show ?thesis using world_but_okD [of "{}" w k P] ok P by (simp add: party_ok_def)
  next
    case False
    then show ?thesis using new k0 by (auto simp: new_party_def crew_def)
  qed
  then obtain l' where l': "leader P = Some l'" by blast
  have "party_ok ?w k Q"
    using base False by (auto simp: party_ok_def lists world_simps party_empty_def isPlayerInvited_def)
  then have "world_ok ?w"
    by (intro local_change [OF ok k0, of _ Q])
      (use world_but_partyD [OF ok, of _ k] world_but_inviteD [OF ok, of _ k] P
       in \<open>auto simp: world_simps only_about_intros lists split: if_split_asm\<close>)
  then show ?thesis using False P l'
    by (intro exI [of _ True] exI [of _ ?w]) (simp add: invitePlayer_def Q_def)
qed

lemma Invite_ok:
  assumes ok: "world_ok w" and f: "parties w fresh = None"
  shows "\<exists>w'. playerInviteToParty e fresh p i w = Some w' \<and> world_ok w'"
proof (cases "p = i \<or> isInviting i p w \<or> party_of w i \<noteq> None")
  case True
  then show ?thesis using ok by (auto simp: playerInviteToParty_def)
next
  case go: False
  show ?thesis
  proof (cases "party_of w p")
    case None
    note new = new_party_ok [OF ok f None]
    define w1 where "w1 = setParty p (Some fresh) (put_party fresh (new_party p) w)"
    have "party_of w1 p = Some fresh" by (simp add: w1_def world_simps)
    then obtain b w' where w': "invitePlayer i fresh w1 = Some (b, w')" "world_ok w'"
      using invite_ok [OF new(1) _ new(3), of p i] by (auto simp: w1_def)
    have "party_empty (new_party p)" by (simp add: party_empty_def new_party_def)
    then show ?thesis using go None new(3,4) w' ok
      by (simp add: playerInviteToParty_def Let_def w1_def [symmetric])
  next
    case (Some k)
    obtain P where P: "parties w k = Some P" using world_but_partyD [OF ok Some] by blast
    have "\<not> party_empty P" using world_but_okD [OF ok P] by (simp add: party_ok_def)
    moreover obtain b w' where "invitePlayer i k w = Some (b, w')" "world_ok w'"
      using invite_ok [OF ok _ P, of p i] by auto
    ultimately show ?thesis using go Some P ok
      by (simp add: playerInviteToParty_def Let_def)
  qed
qed

text \<open>One request in a world whose events let parties disband.\<close>

lemma handle_ok:
  assumes ok: "world_ok w" and d: "\<And>k. on_disband e k" and f: "parties w fresh = None"
  shows "\<exists>w'. handle e fresh r w = Some w' \<and> world_ok w'"
proof (cases r)
  case (Invite p i)
  then show ?thesis using Invite_ok [OF ok f] by simp
next
  case (Join p l)
  show ?thesis
  proof (cases "party_of w l")
    case (Some k)
    obtain P where P: "parties w k = Some P" using world_but_partyD [OF ok Some] by blast
    show ?thesis
    proof (cases "party_of w p")
      case None
      obtain b w' where "joinParty e p k w = Some (b, w')" "world_ok w'" using join_ok [OF ok P None] by blast
      then show ?thesis using Join Some P None ok by (simp add: playerJoinParty_def)
    qed (use Join Some P ok in \<open>simp add: playerJoinParty_def\<close>)
  qed (use Join ok in \<open>simp add: playerJoinParty_def\<close>)
next
  case (Revoke p i)
  show ?thesis
  proof (cases "party_of w p")
    case (Some k)
    obtain P where P: "parties w k = Some P" using world_but_partyD [OF ok Some] by blast
    show ?thesis
    proof (cases "i \<in> set (inviteList P)")
      case True
      obtain w' where "removeInvite e i True k w = Some (True, w')" "world_ok w'"
        using removeInvite_ok [OF ok P True d, of True] by blast
      then show ?thesis using Revoke Some ok
        by (simp add: playerRevokePartyInvitation_def revokeInvitation_def)
    next
      case False
      then show ?thesis using Revoke Some P ok
        by (simp add: playerRevokePartyInvitation_def isInviting_def isPlayerInvited_def)
    qed
  qed (use Revoke ok in \<open>simp add: playerRevokePartyInvitation_def\<close>)
next
  case (PassLeadership p q)
  show ?thesis
  proof (cases "party_of w p")
    case (Some k)
    obtain P where P: "parties w k = Some P" using world_but_partyD [OF ok Some] by blast
    obtain l where l: "leader P = Some l" using world_but_okD [OF ok P] by (auto simp: party_ok_def)
    show ?thesis
    proof (cases "party_of w q = Some k \<and> q \<noteq> l \<and> on_pass e")
      case True
      obtain Q where "passPartyLeadership e (Some q) False k w = Some (True, put_party k Q w)" "world_ok (put_party k Q w)"
        using pass_ok [OF ok P l, of q e False] True by blast
      then show ?thesis using PassLeadership Some ok by (simp add: playerPassPartyLeadership_def)
    next
      case False
      then have "passPartyLeadership e (Some q) False k w = Some (False, w)"
        using P l by (auto simp: passPartyLeadership_def)
      then show ?thesis using PassLeadership Some ok by (simp add: playerPassPartyLeadership_def)
    qed
  qed (use PassLeadership ok in \<open>simp add: playerPassPartyLeadership_def\<close>)
next
  case (Leave fight p)
  show ?thesis
  proof (cases "party_of w p")
    case (Some k)
    obtain b w' where "leaveParty e p False k w = Some (b, w')" "world_ok w'"
      using leave_ok [OF ok Some d, of False] by blast
    then show ?thesis using Leave Some ok by (simp add: playerLeaveParty_def)
  qed (use Leave ok in \<open>simp add: playerLeaveParty_def\<close>)
next
  case (ShareExperience fight pz p b)
  show ?thesis
  proof (cases "party_of w p")
    case (Some k)
    obtain P where P: "parties w k = Some P" using world_but_partyD [OF ok Some] by blast
    obtain l where l: "leader P = Some l" using world_but_okD [OF ok P] by (auto simp: party_ok_def)
    obtain c Q where "setSharedExperience e p b P = Some (c, Q)" "same_lists P Q"
      using setShared_total [of P e p b] l by blast
    then show ?thesis using ShareExperience Some P ok put_same [OF ok P]
      by (simp add: playerEnableSharedPartyExperience_def)
  qed (use ShareExperience ok in \<open>simp add: playerEnableSharedPartyExperience_def\<close>)
next
  case (Logout p)
  obtain w1 where w1: "clearPartyInvitations e p w = Some w1" "world_ok w1" using clear_ok [OF ok d] by blast
  show ?thesis
  proof (cases "party_of w1 p")
    case (Some k)
    obtain b w' where "leaveParty e p True k w1 = Some (b, w')" "world_ok w'"
      using leave_ok [OF w1(2) Some d, of True] by blast
    then show ?thesis using Logout Some w1 by (simp add: party_logout_def)
  qed (use Logout w1 in \<open>simp add: party_logout_def\<close>)
qed

inductive party_reach :: "world \<Rightarrow> bool" where
  start: "party_reach \<lparr>parties = Map.empty, party_of = (\<lambda>_. None), invitePartyList = (\<lambda>_. [])\<rparr>"
| step: "party_reach w \<Longrightarrow> (\<And>k. on_disband e k) \<Longrightarrow> parties w fresh = None \<Longrightarrow> handle e fresh r w = Some w' \<Longrightarrow> party_reach w'"



lemma reach_ok: "party_reach w \<Longrightarrow> world_ok w"
proof (induction rule: party_reach.induct)
  case (step w e fresh r w')
  then show ?case using handle_ok [OF step.IH, of e fresh r] by simp
qed (simp add: world_but_def)

section \<open>Properties\<close>

text \<open>C12: If the scripts let parties disband, then in every state that requests of players can reach, every
  next request is carried out without following a null or dangling pointer, a party has a leader who is not
  on the list of members, its leader and members all belong to it and nobody else does, the invitations it
  keeps are those the players keep, and no party is empty.\<close>

theorem parties_are_consistent:
  assumes "party_reach w"
  shows "(\<forall>e fresh r. (\<forall>k. on_disband e k) \<longrightarrow> parties w fresh = None \<longrightarrow> (\<exists>w'. handle e fresh r w = Some w')) \<and>
    (\<forall>k P. parties w k = Some P \<longrightarrow> (\<exists>l. leader P = Some l \<and> l \<notin> set (memberList P)) \<and> distinct (memberList P) \<and>
       (\<forall>p. party_of w p = Some k \<longleftrightarrow> p \<in> crew P) \<and>
       (\<forall>p. k \<in> set (invitePartyList w p) \<longleftrightarrow> p \<in> set (inviteList P)) \<and>
       (memberList P \<noteq> [] \<or> inviteList P \<noteq> [])) \<and>
    (\<forall>p k. party_of w p = Some k \<longrightarrow> parties w k \<noteq> None)"
proof (intro conjI allI impI)
  have ok: "world_ok w" by (rule reach_ok [OF assms])
  show "\<exists>w'. handle e fresh r w = Some w'" if "\<forall>k. on_disband e k" "parties w fresh = None" for e fresh r
    using handle_ok [OF ok, of e fresh r] that by blast
  show "parties w k \<noteq> None" if "party_of w p = Some k" for p k
    using world_but_partyD [OF ok that] by auto
  fix k P
  assume P: "parties w k = Some P"
  have pok: "party_ok w k P" by (rule world_but_okD [OF ok P])
  then show "\<exists>l. leader P = Some l \<and> l \<notin> set (memberList P)" "distinct (memberList P)" "memberList P \<noteq> [] \<or> inviteList P \<noteq> []"
    by (simp_all add: party_ok_def party_empty_def)
  show "party_of w p = Some k \<longleftrightarrow> p \<in> crew P" for p
    using world_but_partyD [OF ok, of p k] crewD [OF pok] P by auto
  show "k \<in> set (invitePartyList w p) \<longleftrightarrow> p \<in> set (inviteList P)" for p
    using world_but_inviteD [OF ok, of p k] P pok by (auto simp: party_ok_def)
qed

text \<open>A party of two with a third player invited.\<close>

definition env0 :: env where
  "env0 = \<lparr>level = (\<lambda>_. 100), pos = (\<lambda>_. Position 100 100 7), notGainInFight = (\<lambda>_. False), now = 0, pz_locked = 0,
     on_disband = (\<lambda>_. True), on_leave = True, on_join = True, on_invite = True, on_revoke = True, on_pass = True\<rparr>"

definition world0 :: world where
  "world0 = \<lparr>parties = [7 \<mapsto> \<lparr>leader = Some 1, memberList = [2], inviteList = [3], sharedExpActive = False,
     sharedExpEnabled = False, ticksMap = Map.empty\<rparr>], party_of = (\<lambda>_. None)(1 := Some 7, 2 := Some 7), invitePartyList = (\<lambda>_. [])(3 := [7])\<rparr>"

lemma world0_reach: "party_reach world0"
proof -
  let ?w0 = "\<lparr>parties = Map.empty, party_of = (\<lambda>_. None), invitePartyList = (\<lambda>_. [])\<rparr> :: world"
  have d: "on_disband env0 k" for k by (simp add: env0_def)
  have [simp]: "(\<lambda>_. [] :: nat list)(2 := []) = (\<lambda>_. [])" by auto
  have "\<exists>w1 w2. handle env0 7 (Invite 1 2) ?w0 = Some w1 \<and> handle env0 8 (Join 2 1) w1 = Some w2 \<and>
      handle env0 8 (Invite 1 3) w2 = Some world0 \<and> parties w1 8 = None \<and> parties w2 8 = None"
    by (simp add: playerInviteToParty_def playerJoinParty_def isInviting_def isPlayerInvited_def setParty_def put_party_def
        new_party_def invitePlayer_def party_empty_def env0_def addPartyInvitation_def joinParty_def removePartyInvitation_def
        updateSharedExperience_def Let_def world0_def fun_upd_twist)
  then obtain w1 w2 where "handle env0 7 (Invite 1 2) ?w0 = Some w1" "handle env0 8 (Join 2 1) w1 = Some w2"
      "handle env0 8 (Invite 1 3) w2 = Some world0" "parties w1 8 = None" "parties w2 8 = None"
    by blast
  then show ?thesis
    using party_reach.step [OF start d, of 7 "Invite 1 2" w1] party_reach.step [OF _ d, of w1 8 "Join 2 1" w2]
      party_reach.step [OF _ d, of w2 8 "Invite 1 3" world0] by simp
qed

lemma parties_are_consistent_witness:
  "party_reach world0 \<and> parties world0 7 \<noteq> None \<and> (\<exists>w'. handle env0 8 (Logout 1) world0 = Some w')"
proof -
  have "on_disband env0 k" for k by (simp add: env0_def)
  moreover have "parties world0 7 \<noteq> None" "parties world0 8 = None" by (simp_all add: world0_def)
  ultimately show ?thesis using parties_are_consistent [OF world0_reach] world0_reach by blast
qed

text \<open>A player who logs out is, in every reachable state, in no party and on no list of invitations
  afterwards, and keeps none.\<close>

theorem logout_leaves_no_trace:
  assumes "party_reach w" and "\<forall>k. on_disband e k"
  shows "\<exists>w'. party_logout e p w = Some w' \<and> party_of w' p = None \<and> invitePartyList w' p = [] \<and>
    (\<forall>k P. parties w' k = Some P \<longrightarrow> p \<notin> crew P \<and> p \<notin> set (inviteList P))"
proof -
  have d: "on_disband e k" for k using assms(2) by blast
  obtain w1 where w1: "clearPartyInvitations e p w = Some w1" "world_ok w1" "\<forall>k. \<not> is_invited w1 k p"
    using clear_ok [OF reach_ok [OF assms(1)] d] by blast
  have "\<exists>w'. party_logout e p w = Some w' \<and> world_ok w' \<and> party_of w' p = None \<and> (\<forall>k. \<not> is_invited w' k p)"
  proof (cases "party_of w1 p")
    case None
    then show ?thesis using w1 by (simp add: party_logout_def)
  next
    case (Some k)
    obtain b w' where "leaveParty e p True k w1 = Some (b, w')" "world_ok w'" "party_of w' p = None"
      "\<forall>k' q. is_invited w' k' q \<longrightarrow> is_invited w1 k' q"
      using leave_ok [OF w1(2) Some d, of True] by blast
    then show ?thesis using Some w1 by (auto simp: party_logout_def)
  qed
  then obtain w' where w': "party_logout e p w = Some w'" "world_ok w'" "party_of w' p = None" "\<forall>k. \<not> is_invited w' k p"
    by blast
  have "k \<notin> set (invitePartyList w' p)" for k
    using world_but_inviteD [OF w'(2), of p k] w'(4) by (auto simp: is_invited_iff)
  then have "invitePartyList w' p = []" by (metis list.set_intros(1) neq_Nil_conv)
  moreover have "p \<notin> crew P \<and> p \<notin> set (inviteList P)" if "parties w' k = Some P" for k P
    using that w'(3,4) crewD [OF world_but_okD [OF w'(2) that], of p] by (auto simp: is_invited_iff)
  ultimately show ?thesis using w' by blast
qed

lemma logout_leaves_no_trace_witness: "\<exists>w'. party_logout env0 3 world0 = Some w' \<and> invitePartyList w' 3 = []"
  using logout_leaves_no_trace [OF world0_reach, of env0 3] by (auto simp: env0_def)

text \<open>When the script vetoes the disbanding of a party, a leader who is its only member can still
  log out: the party stays with the departed player as its leader, whom the object no longer outlives.\<close>

theorem vetoed_disband_keeps_departed_leader:
  assumes "parties w k = Some P" "leader P = Some p" "memberList P = []" "\<not> on_disband e k"
    and "sharedExpActive P = False" "ticksMap P p = None"
  shows "\<exists>w' P'. leaveParty e p True k w = Some (True, w') \<and> parties w' k = Some P' \<and> leader P' = Some p \<and>
    party_of w' p = None"
  using assms
  by (simp add: leaveParty_def missing_leader_def finish_leaving_def updateSharedExperience_def clearPlayerPoints_def Let_def
      disband_def world_simps)

lemma vetoed_disband_keeps_departed_leader_witness:
  "\<exists>w' P'. leaveParty (env0\<lparr>on_disband := (\<lambda>_. False)\<rparr>) 1 True 7
      (put_party 7 (new_party 1) world0) = Some (True, w') \<and> parties w' 7 = Some P' \<and> leader P' = Some 1 \<and> party_of w' 1 = None"
  by (rule vetoed_disband_keeps_departed_leader [of _ _ "new_party 1"])
    (simp_all add: put_party_def new_party_def)

end
