(* ===== verification/Pathfinding.thy ===== *)
theory Pathfinding
  imports WalkCache
begin

text \<open>
  The search for paths: \<open>Map::getPathMatching\<close>, \<open>Map::canWalkTo\<close> and \<open>AStarNodes\<close> of
  \<open>src/src/map.cpp\<close>, and \<open>FrozenPathingConditionCall\<close> and \<open>Creature::getPathTo\<close> of
  \<open>src/src/creature.cpp\<close>. At most 512 nodes are kept in an array; a pointer to a node is its index.
  The search opens the cheapest node, stops at a node that satisfies the path condition, and otherwise
  relaxes its neighbours. What the tiles and the creature say of themselves (may it enter, who stands
  there, which field burns there) is a record of functions, and so is the line of sight.
  Costs are natural numbers: they are sums of the two constants, and are shown to stay far below
  the limits of the integer types of the code.
\<close>

section \<open>Parameters of a search\<close>

record find_path_params =
  fullPathSearch :: bool
  clearSight :: bool
  allowDiagonal :: bool
  keepDistance :: bool
  maxSearchDist :: int
  minTargetDist :: int
  maxTargetDist :: int

text \<open>The default member initialisers.\<close>

definition default_params :: find_path_params where
  "default_params = \<lparr>fullPathSearch = True, clearSight = True, allowDiagonal = True, keepDistance = False,
     maxSearchDist = 0, minTargetDist = - 1, maxTargetDist = - 1\<rparr>"

text \<open>What the search asks the creature, its tile and the map.\<close>

record 'tile pathfinder =
  mapTile :: "position \<Rightarrow> 'tile option" \<comment> \<open>\<open>Map::getTile\<close>\<close>
  creaturePos :: position
  creatureTile :: "'tile option" \<comment> \<open>\<open>Creature::getTile\<close>\<close>
  useCacheMap :: bool
  walkCache :: walk_cache
  canAdd :: "'tile \<Rightarrow> u32 \<Rightarrow> bool" \<comment> \<open>\<open>Tile::queryAdd\<close> for the creature, with flags, finds no error\<close>
  isPlayer :: bool
  isMonster :: bool
  topVisibleCreature :: "'tile \<Rightarrow> bool" \<comment> \<open>\<open>Tile::getTopVisibleCreature\<close> is not null\<close>
  fieldType :: "'tile \<Rightarrow> nat option" \<comment> \<open>the combat type of \<open>Tile::getFieldItem\<close>\<close>
  immuneTo :: "nat \<Rightarrow> bool"
  hasDamageCondition :: "nat \<Rightarrow> bool"
  canWalkOnField :: "nat \<Rightarrow> bool"
  sightClear :: "position \<Rightarrow> position \<Rightarrow> bool" \<comment> \<open>\<open>Game::isSightClear\<close> with \<open>sameFloor\<close>\<close>

section \<open>When a position will do\<close>

definition isInRange :: "position \<Rightarrow> position \<Rightarrow> position \<Rightarrow> find_path_params \<Rightarrow> bool" where
  "isInRange targetPos startPos testPos fpp =
     (if fullPathSearch fpp then
        if getX testPos > getX targetPos + maxTargetDist fpp then False
        else if getX testPos < getX targetPos - maxTargetDist fpp then False
        else if getY testPos > getY targetPos + maxTargetDist fpp then False
        else if getY testPos < getY targetPos - maxTargetDist fpp then False
        else True
      else
        let dx = getOffsetX startPos targetPos;
            dxMax = (if dx \<ge> 0 then maxTargetDist fpp else 0);
            dxMin = (if dx \<le> 0 then maxTargetDist fpp else 0);
            dy = getOffsetY startPos targetPos;
            dyMax = (if dy \<ge> 0 then maxTargetDist fpp else 0);
            dyMin = (if dy \<le> 0 then maxTargetDist fpp else 0)
        in if getX testPos > getX targetPos + dxMax then False
           else if getX testPos < getX targetPos - dxMin then False
           else if getY testPos > getY targetPos + dyMax then False
           else if getY testPos < getY targetPos - dyMin then False
           else True)"

text \<open>The answer and the new value of \<open>bestMatchDist\<close>.\<close>

definition pathCondition ::
  "(position \<Rightarrow> position \<Rightarrow> bool) \<Rightarrow> position \<Rightarrow> position \<Rightarrow> position \<Rightarrow> find_path_params \<Rightarrow> int \<Rightarrow> bool \<times> int" where
  "pathCondition sight targetPos startPos testPos fpp bestMatchDist =
     (if \<not> isInRange targetPos startPos testPos fpp then (False, bestMatchDist)
      else if clearSight fpp \<and> \<not> sight testPos targetPos then (False, bestMatchDist)
      else
        let testDist = max (getDistanceX targetPos testPos) (getDistanceY targetPos testPos) in
        if maxTargetDist fpp = 1 then
          if testDist < minTargetDist fpp \<or> testDist > maxTargetDist fpp then (False, bestMatchDist)
          else (True, bestMatchDist)
        else if testDist \<le> maxTargetDist fpp then
          if testDist < minTargetDist fpp then (False, bestMatchDist)
          else if testDist = maxTargetDist fpp then (True, 0)
          else if testDist > bestMatchDist then (True, testDist)
          else (False, bestMatchDist)
        else (False, bestMatchDist))"

section \<open>Tiles\<close>

definition FLAG_PATHFINDING :: u32 where "FLAG_PATHFINDING = push_bit 4 1"
definition FLAG_IGNOREFIELDDAMAGE :: u32 where "FLAG_IGNOREFIELDDAMAGE = push_bit 5 1"

definition canWalkTo :: "'tile pathfinder \<Rightarrow> position \<Rightarrow> 'tile option" where
  "canWalkTo c pos =
     (let wc = getWalkCache (useCacheMap c) (creaturePos c) pos (walkCache c) in
      if wc = 0 then None
      else if wc = 1 then mapTile c pos
      else
        let tile = mapTile c pos in
        if creatureTile c \<noteq> tile then
          case tile of
            None \<Rightarrow> None
          | Some t \<Rightarrow>
              let flags = (if \<not> isPlayer c then FLAG_PATHFINDING OR FLAG_IGNOREFIELDDAMAGE else FLAG_PATHFINDING)
              in if \<not> canAdd c t flags then None else Some t
        else tile)"

definition MAP_NORMALWALKCOST :: nat where "MAP_NORMALWALKCOST = 10"
definition MAP_DIAGONALWALKCOST :: nat where "MAP_DIAGONALWALKCOST = 25"

definition getTileWalkCost :: "'tile pathfinder \<Rightarrow> 'tile \<Rightarrow> nat" where
  "getTileWalkCost c tile =
     (if topVisibleCreature c tile then MAP_NORMALWALKCOST * 3 else 0) +
     (case fieldType c tile of
        None \<Rightarrow> 0
      | Some combatType \<Rightarrow>
          if \<not> immuneTo c combatType \<and> \<not> hasDamageCondition c combatType \<and>
             (isMonster c \<and> \<not> canWalkOnField c combatType)
          then MAP_NORMALWALKCOST * 18 else 0)"

section \<open>The nodes\<close>

text \<open>
  The array \<open>openNodes\<close> runs parallel to \<open>nodes\<close>: its entry is a field of the node. The two arrays
  are lists of the \<open>curNode\<close> nodes in use.
\<close>

record astar_node =
  parent :: "nat option"
  node_f :: nat
  node_x :: u16
  node_y :: u16
  is_open :: bool

record astar_nodes =
  nodes :: "astar_node list"
  nodeTable :: "u32 \<rightharpoonup> nat"
  closedNodes :: int

definition MAX_NODES :: nat where "MAX_NODES = 512"

abbreviation curNode :: "astar_nodes \<Rightarrow> nat" where
  "curNode s \<equiv> length (nodes s)"

definition node_key :: "u16 \<Rightarrow> u16 \<Rightarrow> u32" where
  "node_key x y = push_bit 16 (ucast x) OR ucast y"

definition new_nodes :: "u16 \<Rightarrow> u16 \<Rightarrow> astar_nodes" where
  "new_nodes x y =
     \<lparr>nodes = [\<lparr>parent = None, node_f = 0, node_x = x, node_y = y, is_open = True\<rparr>],
      nodeTable = [node_key x y \<mapsto> 0], closedNodes = 0\<rparr>"

definition createOpenNode :: "nat \<Rightarrow> u16 \<Rightarrow> u16 \<Rightarrow> nat \<Rightarrow> astar_nodes \<Rightarrow> astar_nodes option" where
  "createOpenNode par x y f s =
     (if curNode s \<ge> MAX_NODES then None
      else Some (s\<lparr>nodes := nodes s @ [\<lparr>parent = Some par, node_f = f, node_x = x, node_y = y, is_open = True\<rparr>],
                   nodeTable := (nodeTable s)(node_key x y \<mapsto> curNode s)\<rparr>))"

text \<open>The first of the cheapest open nodes; a node must cost less than the greatest 32-bit integer.\<close>

definition getBestNode :: "astar_nodes \<Rightarrow> nat option" where
  "getBestNode s =
     snd (fold (\<lambda>i (best_f, best).
            if is_open (nodes s ! i) \<and> node_f (nodes s ! i) < best_f then (node_f (nodes s ! i), Some i)
            else (best_f, best))
          [0..<curNode s] (2147483647, None))"

definition update_node :: "nat \<Rightarrow> (astar_node \<Rightarrow> astar_node) \<Rightarrow> astar_nodes \<Rightarrow> astar_nodes" where
  "update_node i g s = s\<lparr>nodes := (nodes s)[i := g (nodes s ! i)]\<rparr>"

definition closeNode :: "nat \<Rightarrow> astar_nodes \<Rightarrow> astar_nodes" where
  "closeNode i s = (update_node i (is_open_update (\<lambda>_. False)) s)\<lparr>closedNodes := closedNodes s + 1\<rparr>"

definition openNode :: "nat \<Rightarrow> astar_nodes \<Rightarrow> astar_nodes" where
  "openNode i s =
     (if \<not> is_open (nodes s ! i)
      then (update_node i (is_open_update (\<lambda>_. True)) s)\<lparr>closedNodes := closedNodes s - 1\<rparr>
      else s)"

definition getNodeByPosition :: "u16 \<Rightarrow> u16 \<Rightarrow> astar_nodes \<Rightarrow> nat option" where
  "getNodeByPosition x y s = nodeTable s (node_key x y)"

definition getMapWalkCost :: "astar_node \<Rightarrow> position \<Rightarrow> nat" where
  "getMapWalkCost nd p =
     (if \<bar>uint (node_x nd) - uint (pos_x p)\<bar> = \<bar>uint (node_y nd) - uint (pos_y p)\<bar> then MAP_DIAGONALWALKCOST
      else MAP_NORMALWALKCOST)"

section \<open>The search\<close>

fun dirNeighbors :: "direction \<Rightarrow> (int \<times> int) list" where
  "dirNeighbors DIRECTION_NORTH = [(-1, 0), (0, 1), (1, 0), (1, 1), (-1, 1)]"
| "dirNeighbors DIRECTION_EAST = [(-1, 0), (0, 1), (0, -1), (-1, -1), (-1, 1)]"
| "dirNeighbors DIRECTION_SOUTH = [(-1, 0), (1, 0), (0, -1), (-1, -1), (1, -1)]"
| "dirNeighbors DIRECTION_WEST = [(0, 1), (1, 0), (0, -1), (1, -1), (1, 1)]"
| "dirNeighbors DIRECTION_SOUTHWEST = [(1, 0), (0, -1), (-1, -1), (1, -1), (1, 1)]"
| "dirNeighbors DIRECTION_SOUTHEAST = [(-1, 0), (0, -1), (-1, -1), (1, -1), (-1, 1)]"
| "dirNeighbors DIRECTION_NORTHWEST = [(0, 1), (1, 0), (1, -1), (1, 1), (-1, 1)]"
| "dirNeighbors DIRECTION_NORTHEAST = [(-1, 0), (0, 1), (-1, -1), (1, 1), (-1, 1)]"
| "dirNeighbors DIRECTION_NONE = []"

definition allNeighbors :: "(int \<times> int) list" where
  "allNeighbors = [(-1, 0), (0, 1), (1, 0), (0, -1), (-1, -1), (1, -1), (1, 1), (-1, 1)]"

text \<open>The side of a node on which its parent lies.\<close>

definition parent_side :: "bool \<Rightarrow> astar_node \<Rightarrow> astar_node \<Rightarrow> direction" where
  "parent_side diagonal par nd =
     (let offset_x = uint (node_x par) - uint (node_x nd);
          offset_y = uint (node_y par) - uint (node_y nd) in
      if offset_y = 0 then
        if offset_x = - 1 then DIRECTION_WEST else DIRECTION_EAST
      else if \<not> diagonal \<or> offset_x = 0 then
        if offset_y = - 1 then DIRECTION_NORTH else DIRECTION_SOUTH
      else if offset_y = - 1 then
        if offset_x = - 1 then DIRECTION_NORTHWEST else DIRECTION_NORTHEAST
      else if offset_x = - 1 then DIRECTION_SOUTHWEST
      else DIRECTION_SOUTHEAST)"

definition neighbors_of :: "bool \<Rightarrow> astar_nodes \<Rightarrow> nat \<Rightarrow> (int \<times> int) list" where
  "neighbors_of diagonal s n =
     (case parent (nodes s ! n) of
        Some p \<Rightarrow> take (if diagonal then 5 else 3) (dirNeighbors (parent_side diagonal (nodes s ! p) (nodes s ! n)))
      | None \<Rightarrow> allNeighbors)"

text \<open>
  One neighbour: it is passed over, made cheaper and opened again, or becomes a new node. The code
  would read through a null tile where the tile of a known node is gone.
\<close>

datatype visited = NullTile | ArrayFull | Next astar_nodes

definition visit :: "'tile pathfinder \<Rightarrow> position \<Rightarrow> find_path_params \<Rightarrow> nat \<Rightarrow> nat \<Rightarrow> int \<times> int \<Rightarrow> astar_nodes \<Rightarrow> visited" where
  "visit c targetPos fpp n f d s =
     (let x = uint (node_x (nodes s ! n)); y = uint (node_y (nodes s ! n));
          startPos = creaturePos c;
          pos = Position (word_of_int (x + fst d)) (word_of_int (y + snd d)) (pos_z startPos) in
      if maxSearchDist fpp \<noteq> 0 \<and>
         (getDistanceX startPos pos > maxSearchDist fpp \<or> getDistanceY startPos pos > maxSearchDist fpp)
      then Next s
      else if keepDistance fpp \<and> \<not> isInRange targetPos startPos pos fpp then Next s
      else case getNodeByPosition (pos_x pos) (pos_y pos) s of
        Some m \<Rightarrow>
          (case mapTile c pos of
             None \<Rightarrow> NullTile
           | Some tile \<Rightarrow>
               let newf = f + getMapWalkCost (nodes s ! n) pos + getTileWalkCost c tile in
               if node_f (nodes s ! m) \<le> newf then Next s
               else Next (openNode m (update_node m (\<lambda>nd. nd\<lparr>node_f := newf, parent := Some n\<rparr>) s)))
      | None \<Rightarrow>
          (case canWalkTo c pos of
             None \<Rightarrow> Next s
           | Some tile \<Rightarrow>
               let newf = f + getMapWalkCost (nodes s ! n) pos + getTileWalkCost c tile in
               case createOpenNode n (pos_x pos) (pos_y pos) newf s of
                 None \<Rightarrow> ArrayFull
               | Some s' \<Rightarrow> Next s'))"

text \<open>All neighbours in turn. The answer is the nodes and whether the array was full.\<close>

fun expand :: "'tile pathfinder \<Rightarrow> position \<Rightarrow> find_path_params \<Rightarrow> nat \<Rightarrow> nat \<Rightarrow> (int \<times> int) list \<Rightarrow> astar_nodes
    \<Rightarrow> (astar_nodes \<times> bool) option" where
  "expand c targetPos fpp n f [] s = Some (s, False)"
| "expand c targetPos fpp n f (d # ds) s =
     (case visit c targetPos fpp n f d s of
        NullTile \<Rightarrow> None
      | ArrayFull \<Rightarrow> Some (s, True)
      | Next s' \<Rightarrow> expand c targetPos fpp n f ds s')"

section \<open>Why the search ends\<close>

lemma best_fold:
  assumes "\<And>i. best = Some i \<Longrightarrow> P i \<and> F i = bf" and "\<And>i. i \<in> set is \<Longrightarrow> Q i \<Longrightarrow> P i"
  shows "snd (fold (\<lambda>i (bf, b). if Q i \<and> F i < bf then (F i, Some i) else (bf, b)) is (bf, best)) = Some j
    \<Longrightarrow> P j"
  using assms by (induction "is" arbitrary: bf best) (auto split: if_splits)

lemma getBestNode_open:
  assumes "getBestNode s = Some n" shows "n < curNode s \<and> is_open (nodes s ! n)"
  using assms unfolding getBestNode_def
  by (rule best_fold [where P = "\<lambda>n. n < curNode s \<and> is_open (nodes s ! n)", rotated 2]) auto

definition total_f :: "astar_nodes \<Rightarrow> nat" where
  "total_f s = sum_list (map node_f (nodes s))"

definition open_count :: "astar_nodes \<Rightarrow> nat" where
  "open_count s = length (filter is_open (nodes s))"

text \<open>An expansion leaves the nodes as they are, or adds nodes, or makes some cheaper.\<close>

definition progress :: "astar_nodes \<Rightarrow> astar_nodes \<Rightarrow> bool" where
  "progress s s' \<longleftrightarrow> nodes s' = nodes s \<or> (curNode s < curNode s' \<and> curNode s' \<le> MAX_NODES) \<or>
     (curNode s' = curNode s \<and> total_f s' < total_f s)"

lemma progress_refl: "nodes s' = nodes s \<Longrightarrow> progress s s'"
  by (simp add: progress_def)

lemma progress_trans: "progress s s' \<Longrightarrow> progress s' s'' \<Longrightarrow> progress s s''"
  by (auto simp: progress_def total_f_def)

lemma nodes_openNode: "nodes (openNode m s) =
    (if is_open (nodes s ! m) then nodes s else (nodes s)[m := (nodes s ! m)\<lparr>is_open := True\<rparr>])"
  by (simp add: openNode_def update_node_def)

lemma progress_relax:
  assumes "f < node_f (nodes s ! m)"
  shows "progress s (openNode m (update_node m (\<lambda>nd. nd\<lparr>node_f := f, parent := Some n\<rparr>) s))"
proof (cases "m < curNode s")
  case True
  then have "sum_list ((map node_f (nodes s))[m := f]) < sum_list (map node_f (nodes s))"
    using assms True elem_le_sum_list [of m "map node_f (nodes s)"] by (simp add: sum_list_update)
  moreover have "map node_f (nodes (openNode m (update_node m (\<lambda>nd. nd\<lparr>node_f := f, parent := Some n\<rparr>) s)))
      = (map node_f (nodes s))[m := f]"
    using True by (auto simp: nodes_openNode update_node_def map_update)
  ultimately show ?thesis by (simp add: progress_def total_f_def nodes_openNode update_node_def)
next
  case False
  then have "(nodes s)[m := nd] = nodes s" for nd by (simp add: list_update_beyond)
  then show ?thesis by (simp add: progress_def nodes_openNode update_node_def)
qed

lemma progress_create: "createOpenNode n x y f s = Some s' \<Longrightarrow> progress s s'"
  by (auto simp: createOpenNode_def progress_def split: if_splits)

lemma visit_progress: "visit c targetPos fpp n f d s = Next s' \<Longrightarrow> progress s s'"
  by (auto simp: visit_def Let_def progress_refl split: if_splits option.splits
      intro: progress_relax progress_create)

lemma expand_progress: "expand c targetPos fpp n f ds s = Some (s', full) \<Longrightarrow> progress s s'"
  by (induction ds arbitrary: s)
    (auto simp: progress_refl split: visited.splits dest: visit_progress intro: progress_trans)

lemma node_f_closeNode: "map node_f (nodes (closeNode n s)) = map node_f (nodes s)"
proof (rule nth_equalityI)
  show "map node_f (nodes (closeNode n s)) ! i = map node_f (nodes s) ! i" if "i < length (map node_f (nodes (closeNode n s)))" for i
    using that by (cases "i = n") (simp_all add: closeNode_def update_node_def)
qed (simp add: closeNode_def update_node_def)

lemma total_f_closeNode [simp]: "total_f (closeNode n s) = total_f s"
  by (simp add: total_f_def node_f_closeNode)

lemma curNode_closeNode [simp]: "curNode (closeNode n s) = curNode s"
  by (simp add: closeNode_def update_node_def)

lemma open_count_close:
  assumes "n < curNode s" "is_open (nodes s ! n)" "nodes s' = nodes s"
  shows "open_count (closeNode n s') < open_count s"
proof -
  have "nodes s = take n (nodes s) @ nodes s ! n # drop (Suc n) (nodes s)"
    using assms(1) by (rule id_take_nth_drop)
  then have "filter is_open (nodes s) = filter is_open (take n (nodes s)) @ filter is_open (nodes s ! n # drop (Suc n) (nodes s))"
    by (metis filter_append)
  then show ?thesis
    using assms by (simp add: open_count_def closeNode_def update_node_def upd_conv_take_nth_drop)
qed

definition search_order :: "(astar_nodes \<times> astar_nodes) set" where
  "search_order = measures [\<lambda>s. MAX_NODES - curNode s, total_f, open_count]"

lemma search_step:
  assumes "getBestNode s = Some n" and "expand c targetPos fpp n f ds s = Some (s', full)"
  shows "(closeNode n s', s) \<in> search_order"
proof -
  note n = getBestNode_open [OF assms(1)]
  from expand_progress [OF assms(2)] show ?thesis unfolding progress_def
  proof (elim disjE)
    assume "nodes s' = nodes s"
    then show ?thesis using n open_count_close [of n s s'] by (simp add: search_order_def total_f_def node_f_closeNode)
  qed (auto simp: search_order_def)
qed

section \<open>The search and the path it finds\<close>

text \<open>
  The node found with its position, when there is one, and the nodes at the end. The answer is
  nothing when an expansion read through a null tile.
\<close>

function search :: "'tile pathfinder \<Rightarrow> position \<Rightarrow> find_path_params \<Rightarrow> (nat \<times> position) option \<Rightarrow> int \<Rightarrow> astar_nodes
    \<Rightarrow> ((nat \<times> position) option \<times> astar_nodes) option" where
  "search c targetPos fpp found bestMatch s =
     (if maxSearchDist fpp \<noteq> 0 \<or> closedNodes s < 100 then
        case getBestNode s of
          None \<Rightarrow> Some (found, s)
        | Some n \<Rightarrow>
            let pos = Position (node_x (nodes s ! n)) (node_y (nodes s ! n)) (pos_z (creaturePos c));
                (ok, best) = pathCondition (sightClear c) targetPos (creaturePos c) pos fpp bestMatch;
                found' = (if ok then Some (n, pos) else found) in
            if ok \<and> best = 0 then Some (found', s)
            else
              (case expand c targetPos fpp n (node_f (nodes s ! n)) (neighbors_of (allowDiagonal fpp) s n) s of
                 None \<Rightarrow> None
               | Some (s', full) \<Rightarrow>
                   if full \<and> found' = None then Some (None, s')
                   else search c targetPos fpp found' best (closeNode n s'))
      else Some (found, s))"
  by pat_completeness auto

termination
  by (relation "inv_image search_order (\<lambda>(c, t, fpp, found, best, s). s)")
    (simp add: search_order_def, simp only: in_inv_image prod.case, erule search_step, hypsubst, assumption)

declare search.simps [simp del]

fun step_direction :: "int \<Rightarrow> int \<Rightarrow> direction list" where
  "step_direction dx dy =
     (if dx = 1 \<and> dy = 1 then [DIRECTION_NORTHWEST]
      else if dx = - 1 \<and> dy = 1 then [DIRECTION_NORTHEAST]
      else if dx = 1 \<and> dy = - 1 then [DIRECTION_SOUTHWEST]
      else if dx = - 1 \<and> dy = - 1 then [DIRECTION_SOUTHEAST]
      else if dx = 1 then [DIRECTION_WEST]
      else if dx = - 1 then [DIRECTION_EAST]
      else if dy = 1 then [DIRECTION_NORTH]
      else if dy = - 1 then [DIRECTION_SOUTH]
      else [])"

text \<open>From a node to the start, along the parents; a circle of parents is never left.\<close>

partial_function (option) walk_back :: "astar_nodes \<Rightarrow> nat option \<Rightarrow> u16 \<Rightarrow> u16 \<Rightarrow> direction list \<Rightarrow> direction list option" where
  "walk_back s found prevx prevy dirList =
     (case found of
        None \<Rightarrow> Some dirList
      | Some i \<Rightarrow>
          let x = node_x (nodes s ! i); y = node_y (nodes s ! i) in
          walk_back s (parent (nodes s ! i)) x y
            (dirList @ step_direction (uint x - uint prevx) (uint y - uint prevy)))"

declare walk_back.simps [code]

text \<open>The answer of the function and the list of directions, of which the last is walked first.\<close>

definition getPathMatching ::
  "'tile pathfinder \<Rightarrow> direction list \<Rightarrow> position \<Rightarrow> find_path_params \<Rightarrow> (bool \<times> direction list) option" where
  "getPathMatching c dirList targetPos fpp =
     (case search c targetPos fpp None 0 (new_nodes (pos_x (creaturePos c)) (pos_y (creaturePos c))) of
        None \<Rightarrow> None
      | Some (None, _) \<Rightarrow> Some (False, dirList)
      | Some (Some (n, endPos), s) \<Rightarrow>
          map_option (Pair True) (walk_back s (parent (nodes s ! n)) (pos_x endPos) (pos_y endPos) dirList))"

definition getPathTo ::
  "'tile pathfinder \<Rightarrow> direction list \<Rightarrow> position \<Rightarrow> int \<Rightarrow> int \<Rightarrow> bool \<Rightarrow> bool \<Rightarrow> int \<Rightarrow> (bool \<times> direction list) option" where
  "getPathTo c dirList targetPos minDist maxDist full sight searchDist =
     getPathMatching c dirList targetPos
       (default_params\<lparr>fullPathSearch := full, maxSearchDist := searchDist, clearSight := sight,
          minTargetDist := minDist, maxTargetDist := maxDist\<rparr>)"

section \<open>What the nodes mean\<close>

text \<open>A position the search may step on.\<close>

definition admissible :: "'tile pathfinder \<Rightarrow> position \<Rightarrow> find_path_params \<Rightarrow> position \<Rightarrow> bool" where
  "admissible c targetPos fpp p \<longleftrightarrow>
     canWalkTo c p \<noteq> None \<and>
     (maxSearchDist fpp = 0 \<or> areInRange (maxSearchDist fpp) (maxSearchDist fpp) (creaturePos c) p) \<and>
     (keepDistance fpp \<longrightarrow> isInRange targetPos (creaturePos c) p fpp)"

definition pos_of :: "'tile pathfinder \<Rightarrow> astar_node \<Rightarrow> position" where
  "pos_of c nd = Position (node_x nd) (node_y nd) (pos_z (creaturePos c))"

text \<open>One of the eight steps, as the code computes it: coordinates wrap.\<close>

definition step_to :: "position \<Rightarrow> position \<Rightarrow> bool" where
  "step_to p q \<longleftrightarrow> (\<exists>d \<in> set allNeighbors. q = Position (pos_x p + word_of_int (fst d)) (pos_y p + word_of_int (snd d)) (pos_z p))"

text \<open>
  A node is the start, or is dearer than its parent, from which one step leads to it. The cost of
  a node is bounded by its place in the array, since it is one step from an older node, or was.
\<close>

definition node_ok :: "'tile pathfinder \<Rightarrow> position \<Rightarrow> find_path_params \<Rightarrow> astar_nodes \<Rightarrow> nat \<Rightarrow> bool" where
  "node_ok c targetPos fpp s i \<longleftrightarrow> node_f (nodes s ! i) \<le> 235 * i \<and>
     (case parent (nodes s ! i) of
        None \<Rightarrow> i = 0 \<and> pos_of c (nodes s ! i) = creaturePos c
      | Some p \<Rightarrow> p < curNode s \<and> node_f (nodes s ! p) + 10 \<le> node_f (nodes s ! i) \<and>
          step_to (pos_of c (nodes s ! p)) (pos_of c (nodes s ! i)) \<and>
          admissible c targetPos fpp (pos_of c (nodes s ! i)))"

definition nodes_ok :: "'tile pathfinder \<Rightarrow> position \<Rightarrow> find_path_params \<Rightarrow> astar_nodes \<Rightarrow> bool" where
  "nodes_ok c targetPos fpp s \<longleftrightarrow> curNode s \<le> MAX_NODES \<and> (\<forall>i < curNode s. node_ok c targetPos fpp s i) \<and>
     (\<forall>x y m. getNodeByPosition x y s = Some m \<longrightarrow> m < curNode s \<and> node_x (nodes s ! m) = x \<and> node_y (nodes s ! m) = y)"

lemma node_key_inj [simp]: "node_key x y = node_key x' y' \<longleftrightarrow> x = x' \<and> y = y'"
proof
  assume eq: "node_key x y = node_key x' y'"
  have "x = ucast (drop_bit 16 (node_key x y)) \<and> y = ucast (node_key x y)" for x y
    unfolding node_key_def by (auto intro!: bit_word_eqI simp: bit_simps impossible_bit)
  from this [of x y] this [of x' y'] eq show "x = x' \<and> y = y'" by simp
qed simp

lemma nodes_ok_new: "nodes_ok c targetPos fpp (new_nodes (pos_x (creaturePos c)) (pos_y (creaturePos c)))"
  by (auto simp: nodes_ok_def new_nodes_def node_ok_def pos_of_def getNodeByPosition_def MAX_NODES_def split: if_splits)

lemma getTileWalkCost_le: "getTileWalkCost c tile \<le> 210"
  by (auto simp: getTileWalkCost_def MAP_NORMALWALKCOST_def split: option.split)

lemma getMapWalkCost_bounds: "10 \<le> getMapWalkCost nd p" "getMapWalkCost nd p \<le> 25"
  by (auto simp: getMapWalkCost_def MAP_NORMALWALKCOST_def MAP_DIAGONALWALKCOST_def)

lemma canWalkTo_tile: "canWalkTo c p = Some tile \<Longrightarrow> mapTile c p = Some tile"
  by (auto simp: canWalkTo_def Let_def split: if_splits option.splits)

text \<open>Making node \<open>m\<close> cheaper, as a child of \<open>n\<close>.\<close>

lemma nodes_ok_relax:
  assumes ok: "nodes_ok c t fpp s" and n: "n < curNode s" and m: "m < curNode s"
    and less: "f < node_f (nodes s ! m)" and more: "node_f (nodes s ! n) + 10 \<le> f"
    and step: "step_to (pos_of c (nodes s ! n)) (pos_of c (nodes s ! m))"
    and adm: "admissible c t fpp (pos_of c (nodes s ! m))"
  shows "nodes_ok c t fpp (openNode m (update_node m (\<lambda>nd. nd\<lparr>node_f := f, parent := Some n\<rparr>) s))" (is "nodes_ok c t fpp ?s")
proof -
  have nm: "n \<noteq> m" using less more by auto
  have len: "curNode ?s = curNode s" and table: "nodeTable ?s = nodeTable s"
    by (simp_all add: openNode_def update_node_def)
  have at: "parent (nodes ?s ! i) = (if i = m then Some n else parent (nodes s ! i))"
    "node_f (nodes ?s ! i) = (if i = m then f else node_f (nodes s ! i))"
    "node_x (nodes ?s ! i) = node_x (nodes s ! i)" "node_y (nodes ?s ! i) = node_y (nodes s ! i)" for i
    using m by (auto simp: openNode_def update_node_def nth_list_update)
  then have pos: "pos_of c (nodes ?s ! i) = pos_of c (nodes s ! i)" for i by (simp add: pos_of_def)
  have old: "node_ok c t fpp s i" if "i < curNode s" for i using ok that by (simp add: nodes_ok_def)
  have "node_ok c t fpp ?s i" if i: "i < curNode s" for i
  proof (cases "i = m")
    case True
    then show ?thesis using old [OF m] n more step adm less nm unfolding node_ok_def len at pos by simp
  next
    case False
    then show ?thesis using old [OF i] less unfolding node_ok_def len at pos by (auto split: option.splits)
  qed
  then show ?thesis using ok by (simp add: nodes_ok_def len at getNodeByPosition_def table)
qed

lemma nodes_ok_create:
  assumes ok: "nodes_ok c t fpp s" and n: "n < curNode s" and new: "createOpenNode n x y f s = Some s'"
    and more: "node_f (nodes s ! n) + 10 \<le> f" "f \<le> node_f (nodes s ! n) + 235"
    and step: "step_to (pos_of c (nodes s ! n)) (Position x y (pos_z (creaturePos c)))"
    and adm: "admissible c t fpp (Position x y (pos_z (creaturePos c)))"
  shows "nodes_ok c t fpp s'"
proof -
  define nd where "nd = \<lparr>parent = Some n, node_f = f, node_x = x, node_y = y, is_open = True\<rparr>"
  have s': "s' = s\<lparr>nodes := nodes s @ [nd], nodeTable := (nodeTable s)(node_key x y \<mapsto> curNode s)\<rparr>"
    and room: "curNode s < MAX_NODES"
    using new by (auto simp: createOpenNode_def nd_def split: if_splits)
  have old: "node_ok c t fpp s i" if "i < curNode s" for i using ok that by (simp add: nodes_ok_def)
  have "node_f (nodes s ! n) \<le> 235 * n" using old [OF n] by (simp add: node_ok_def)
  then have bound: "f \<le> 235 * curNode s" using more(2) n by linarith
  have "node_ok c t fpp s' i" if "i < Suc (curNode s)" for i
  proof (cases "i = curNode s")
    case True
    then show ?thesis using bound n more step adm by (simp add: s' node_ok_def nd_def nth_append pos_of_def)
  next
    case False
    then show ?thesis using old [of i] that by (auto simp: s' node_ok_def nth_append split: option.splits)
  qed
  then show ?thesis using ok room
    by (auto simp: nodes_ok_def s' getNodeByPosition_def nd_def nth_append intro: less_SucI)
qed

text \<open>Nodes keep their places and coordinates.\<close>

definition extends :: "astar_nodes \<Rightarrow> astar_nodes \<Rightarrow> bool" where
  "extends s s' \<longleftrightarrow> curNode s \<le> curNode s' \<and>
     (\<forall>i < curNode s. node_x (nodes s' ! i) = node_x (nodes s ! i) \<and> node_y (nodes s' ! i) = node_y (nodes s ! i))"

lemma extends_refl: "extends s s"
  by (simp add: extends_def)

lemma extends_trans: "extends s s' \<Longrightarrow> extends s' s'' \<Longrightarrow> extends s s''"
  by (auto simp: extends_def)

lemma extends_pos: "extends s s' \<Longrightarrow> i < curNode s \<Longrightarrow> pos_of c (nodes s' ! i) = pos_of c (nodes s ! i)"
  by (simp add: extends_def pos_of_def)

lemma relax_at:
  assumes "m < curNode s"
  shows "node_f (nodes (openNode m (update_node m (\<lambda>nd. nd\<lparr>node_f := f, parent := Some n\<rparr>) s)) ! i)
      = (if i = m then f else node_f (nodes s ! i))"
    "extends s (openNode m (update_node m (\<lambda>nd. nd\<lparr>node_f := f, parent := Some n\<rparr>) s))"
  using assms by (auto simp: openNode_def update_node_def nth_list_update extends_def)

lemma create_at:
  assumes "createOpenNode n x y f s = Some s'"
  shows "i < curNode s \<Longrightarrow> nodes s' ! i = nodes s ! i" "extends s s'"
  using assms by (auto simp: createOpenNode_def nth_append extends_def split: if_splits)

definition expanding :: "'tile pathfinder \<Rightarrow> position \<Rightarrow> find_path_params \<Rightarrow> nat \<Rightarrow> nat \<Rightarrow> astar_nodes \<Rightarrow> bool" where
  "expanding c t fpp n f s \<longleftrightarrow> nodes_ok c t fpp s \<and> n < curNode s \<and> node_f (nodes s ! n) = f"

lemma known_node_tile:
  assumes "nodes_ok c t fpp s" "mapTile c (creaturePos c) \<noteq> None" "m < curNode s"
  shows "mapTile c (pos_of c (nodes s ! m)) \<noteq> None"
proof -
  have "node_ok c t fpp s m" using assms(1,3) by (simp add: nodes_ok_def)
  then show ?thesis using assms(2)
    by (auto simp: node_ok_def admissible_def split: option.splits dest: canWalkTo_tile)
qed

lemma visit_cost:
  "10 \<le> getMapWalkCost nd q + getTileWalkCost c tile" "getMapWalkCost nd q + getTileWalkCost c tile \<le> 235"
  using getMapWalkCost_bounds [of nd q] getTileWalkCost_le [of c tile] by auto

lemma visit_known_ok:
  assumes start: "mapTile c (creaturePos c) \<noteq> None" and ok: "expanding c t fpp n f s"
    and m: "m < curNode s" "step_to (pos_of c (nodes s ! n)) (pos_of c (nodes s ! m))"
    and cost: "f + 10 \<le> newf" and dearer: "newf < node_f (nodes s ! m)"
    and s': "s' = openNode m (update_node m (\<lambda>nd. nd\<lparr>node_f := newf, parent := Some n\<rparr>) s)"
  shows "expanding c t fpp n f s' \<and> extends s s'"
proof -
  have n: "n < curNode s" and nodes: "nodes_ok c t fpp s" and f: "node_f (nodes s ! n) = f"
    using ok by (auto simp: expanding_def)
  have "m \<noteq> 0" using dearer nodes m(1) by (auto simp: nodes_ok_def node_ok_def)
  then have "parent (nodes s ! m) \<noteq> None"
    using nodes m(1) by (auto simp: nodes_ok_def node_ok_def split: option.splits)
  then have "admissible c t fpp (pos_of c (nodes s ! m))"
    using nodes m(1) by (auto simp: nodes_ok_def node_ok_def split: option.splits)
  then have "nodes_ok c t fpp s'" unfolding s'
    using nodes_ok_relax [OF nodes n m(1) dearer] cost f m(2) by simp
  moreover have "m \<noteq> n" using dearer cost f by auto
  ultimately show ?thesis
    using n f relax_at [OF m(1), where f = newf and n = n] by (auto simp: s' expanding_def extends_def)
qed

lemma visit_new_ok:
  assumes ok: "expanding c t fpp n f s" and adm: "admissible c t fpp p"
    and step: "step_to (pos_of c (nodes s ! n)) p" and z: "pos_z p = pos_z (creaturePos c)"
    and cost: "f + 10 \<le> newf" "newf \<le> f + 235" and new: "createOpenNode n (pos_x p) (pos_y p) newf s = Some s'"
  shows "expanding c t fpp n f s' \<and> extends s s'"
proof -
  have n: "n < curNode s" and nodes: "nodes_ok c t fpp s" and f: "node_f (nodes s ! n) = f"
    using ok by (auto simp: expanding_def)
  have "Position (pos_x p) (pos_y p) (pos_z (creaturePos c)) = p" by (simp flip: z)
  then have "nodes_ok c t fpp s'" using nodes_ok_create [OF nodes n new] f cost step adm by simp
  then show ?thesis using create_at [OF new] n f by (auto simp: expanding_def extends_def)
qed

text \<open>A visit within the bounds of the search, with the position of the neighbour named.\<close>

lemma visit_near:
  assumes p_def: "p = Position (word_of_int (uint (node_x (nodes s ! n)) + fst d))
    (word_of_int (uint (node_y (nodes s ! n)) + snd d)) (pos_z (creaturePos c))"
  assumes "visit c t fpp n f d s \<noteq> Next s"
  shows "maxSearchDist fpp = 0 \<or> areInRange (maxSearchDist fpp) (maxSearchDist fpp) (creaturePos c) p"
    and "keepDistance fpp \<Longrightarrow> isInRange t (creaturePos c) p fpp"
    and "visit c t fpp n f d s = (case getNodeByPosition (pos_x p) (pos_y p) s of
        Some m \<Rightarrow> (case mapTile c p of None \<Rightarrow> NullTile | Some tile \<Rightarrow>
          let newf = f + getMapWalkCost (nodes s ! n) p + getTileWalkCost c tile in
          if node_f (nodes s ! m) \<le> newf then Next s
          else Next (openNode m (update_node m (\<lambda>nd. nd\<lparr>node_f := newf, parent := Some n\<rparr>) s)))
      | None \<Rightarrow> (case canWalkTo c p of None \<Rightarrow> Next s | Some tile \<Rightarrow>
          let newf = f + getMapWalkCost (nodes s ! n) p + getTileWalkCost c tile in
          case createOpenNode n (pos_x p) (pos_y p) newf s of None \<Rightarrow> ArrayFull | Some s' \<Rightarrow> Next s'))"
proof -
  let ?far = "maxSearchDist fpp \<noteq> 0 \<and> (getDistanceX (creaturePos c) p > maxSearchDist fpp \<or> getDistanceY (creaturePos c) p > maxSearchDist fpp)"
  let ?out = "keepDistance fpp \<and> \<not> isInRange t (creaturePos c) p fpp"
  have "\<not> ?far" using assms(2) unfolding visit_def Let_def p_def by argo
  moreover have "\<not> ?out" using assms(2) unfolding visit_def Let_def p_def by argo
  ultimately show "maxSearchDist fpp = 0 \<or> areInRange (maxSearchDist fpp) (maxSearchDist fpp) (creaturePos c) p"
    "keepDistance fpp \<Longrightarrow> isInRange t (creaturePos c) p fpp"
    by (auto simp: areInRange_def)
  from \<open>\<not> ?far\<close> \<open>\<not> ?out\<close> show "visit c t fpp n f d s = (case getNodeByPosition (pos_x p) (pos_y p) s of
        Some m \<Rightarrow> (case mapTile c p of None \<Rightarrow> NullTile | Some tile \<Rightarrow>
          let newf = f + getMapWalkCost (nodes s ! n) p + getTileWalkCost c tile in
          if node_f (nodes s ! m) \<le> newf then Next s
          else Next (openNode m (update_node m (\<lambda>nd. nd\<lparr>node_f := newf, parent := Some n\<rparr>) s)))
      | None \<Rightarrow> (case canWalkTo c p of None \<Rightarrow> Next s | Some tile \<Rightarrow>
          let newf = f + getMapWalkCost (nodes s ! n) p + getTileWalkCost c tile in
          case createOpenNode n (pos_x p) (pos_y p) newf s of None \<Rightarrow> ArrayFull | Some s' \<Rightarrow> Next s'))"
    unfolding visit_def Let_def p_def by (simp only: if_False)
qed

lemma visit_ok:
  assumes start: "mapTile c (creaturePos c) \<noteq> None" and ok: "expanding c t fpp n f s" and d: "d \<in> set allNeighbors"
  shows "visit c t fpp n f d s \<noteq> NullTile \<and>
    (\<forall>s'. visit c t fpp n f d s = Next s' \<longrightarrow> expanding c t fpp n f s' \<and> extends s s')"
proof (cases "visit c t fpp n f d s = Next s")
  case True
  then show ?thesis using ok by (simp add: extends_refl)
next
  case False
  define p where "p = Position (word_of_int (uint (node_x (nodes s ! n)) + fst d))
    (word_of_int (uint (node_y (nodes s ! n)) + snd d)) (pos_z (creaturePos c))"
  have step: "step_to (pos_of c (nodes s ! n)) p"
    using d unfolding step_to_def by (intro bexI [of _ d]) (simp_all add: p_def pos_of_def)
  note near = visit_near [OF p_def False]
  show ?thesis
  proof (cases "getNodeByPosition (pos_x p) (pos_y p) s")
    case (Some m)
    then have m: "m < curNode s" and p: "p = pos_of c (nodes s ! m)"
      using ok by (auto simp: expanding_def nodes_ok_def pos_of_def p_def)
    from known_node_tile [OF _ start m] ok obtain tile where tile: "mapTile c p = Some tile"
      by (auto simp: p expanding_def)
    let ?newf = "f + getMapWalkCost (nodes s ! n) p + getTileWalkCost c tile"
    let ?s' = "openNode m (update_node m (\<lambda>nd. nd\<lparr>node_f := ?newf, parent := Some n\<rparr>) s)"
    have nxt: "visit c t fpp n f d s = (if node_f (nodes s ! m) \<le> ?newf then Next s else Next ?s')"
      unfolding near(3) Some by (simp add: tile Let_def)
    have "f + 10 \<le> ?newf" using visit_cost(1) [of "nodes s ! n" p c tile] by simp
    then have "expanding c t fpp n f ?s' \<and> extends s ?s'"
      using visit_known_ok [OF start ok m step [unfolded p], of ?newf] False nxt by (simp split: if_splits)
    then show ?thesis using False unfolding nxt by (auto split: if_splits)
  next
    case None
    have "expanding c t fpp n f s' \<and> extends s s'" if "visit c t fpp n f d s = Next s'" for s'
    proof (cases "canWalkTo c p")
      case (Some tile)
      have adm: "admissible c t fpp p" using near(1,2) Some by (auto simp: admissible_def)
      have z: "pos_z p = pos_z (creaturePos c)" by (simp add: p_def)
      let ?newf = "f + getMapWalkCost (nodes s ! n) p + getTileWalkCost c tile"
      have "createOpenNode n (pos_x p) (pos_y p) ?newf s = Some s'"
        using that unfolding near(3) None by (simp add: Some Let_def split: option.splits)
      from visit_new_ok [OF ok adm step z _ _ this] visit_cost [of "nodes s ! n" p c tile] show ?thesis by simp
    qed (use that False ok in \<open>auto simp: near(3) None extends_refl\<close>)
    moreover have "visit c t fpp n f d s \<noteq> NullTile"
      by (simp add: near(3) None Let_def split: option.split)
    ultimately show ?thesis by blast
  qed
qed

lemma expand_ok:
  assumes "mapTile c (creaturePos c) \<noteq> None" "expanding c t fpp n f s" "set ds \<subseteq> set allNeighbors"
  shows "\<exists>s' full. expand c t fpp n f ds s = Some (s', full) \<and> expanding c t fpp n f s' \<and> extends s s'"
  using assms(2,3)
proof (induction ds arbitrary: s)
  case Nil
  then show ?case by (intro exI [of _ s] exI [of _ False]) (simp add: extends_refl)
next
  case (Cons d ds)
  have "d \<in> set allNeighbors" using Cons.prems(2) by simp
  note visit = visit_ok [OF assms(1) Cons.prems(1) this]
  show ?case
  proof (cases "visit c t fpp n f d s")
    case NullTile
    with visit show ?thesis by simp
  next
    case ArrayFull
    then show ?thesis using Cons.prems(1) by (intro exI [of _ s] exI [of _ True]) (simp add: extends_refl)
  next
    case (Next s1)
    with visit have s1: "expanding c t fpp n f s1" "extends s s1" by auto
    have "set ds \<subseteq> set allNeighbors" using Cons.prems(2) by simp
    from Cons.IH [OF s1(1) this] Next s1(2) show ?thesis by (auto intro: extends_trans)
  qed
qed

lemma dirNeighbors_subset: "set (dirNeighbors d) \<subseteq> set allNeighbors"
  by (cases d) (simp_all add: allNeighbors_def)

lemma neighbors_of_subset: "set (neighbors_of diagonal s n) \<subseteq> set allNeighbors"
  by (auto simp: neighbors_of_def split: option.split dest!: in_set_takeD subsetD [OF dirNeighbors_subset])

lemma close_at:
  "parent (nodes (closeNode n s) ! i) = parent (nodes s ! i)" "node_f (nodes (closeNode n s) ! i) = node_f (nodes s ! i)"
  "node_x (nodes (closeNode n s) ! i) = node_x (nodes s ! i)" "node_y (nodes (closeNode n s) ! i) = node_y (nodes s ! i)"
  by (cases "i = n"; cases "n < curNode s"; simp add: closeNode_def update_node_def list_update_beyond)+

lemma extends_closeNode: "extends s (closeNode n s)"
  by (simp add: extends_def close_at)

lemma nodes_ok_closeNode: "nodes_ok c t fpp s \<Longrightarrow> nodes_ok c t fpp (closeNode n s)"
proof -
  have "getNodeByPosition x y (closeNode n s) = getNodeByPosition x y s" for x y
    by (simp add: getNodeByPosition_def closeNode_def update_node_def)
  then show "nodes_ok c t fpp s \<Longrightarrow> nodes_ok c t fpp (closeNode n s)"
    by (simp add: nodes_ok_def node_ok_def pos_of_def close_at cong: option.case_cong)
qed

section \<open>What is found\<close>

text \<open>A position that satisfies the path condition, for some best match so far.\<close>

definition fits :: "'tile pathfinder \<Rightarrow> position \<Rightarrow> find_path_params \<Rightarrow> position \<Rightarrow> bool" where
  "fits c targetPos fpp p \<longleftrightarrow> isInRange targetPos (creaturePos c) p fpp \<and>
     (clearSight fpp \<longrightarrow> sightClear c p targetPos) \<and>
     (let dist = max (getDistanceX targetPos p) (getDistanceY targetPos p)
      in minTargetDist fpp \<le> dist \<and> dist \<le> maxTargetDist fpp)"

lemma pathCondition_fits:
  "pathCondition (sightClear c) t (creaturePos c) p fpp best = (True, best') \<Longrightarrow> fits c t fpp p"
  by (auto simp: pathCondition_def fits_def Let_def split: if_splits)

definition found_ok :: "'tile pathfinder \<Rightarrow> position \<Rightarrow> find_path_params \<Rightarrow> astar_nodes \<Rightarrow> (nat \<times> position) option \<Rightarrow> bool" where
  "found_ok c t fpp s found \<longleftrightarrow> (case found of None \<Rightarrow> True
     | Some (n, p) \<Rightarrow> n < curNode s \<and> p = pos_of c (nodes s ! n) \<and> fits c t fpp p)"

lemma found_ok_extends: "found_ok c t fpp s found \<Longrightarrow> extends s s' \<Longrightarrow> found_ok c t fpp s' found"
  by (auto simp: found_ok_def extends_pos extends_def split: option.splits)

text \<open>The search answers, with at most 512 nodes of the right kind and a fitting node.\<close>

lemma search_ok:
  assumes "mapTile c (creaturePos c) \<noteq> None" "nodes_ok c t fpp s" "found_ok c t fpp s found"
  shows "\<exists>found' s'. search c t fpp found best s = Some (found', s') \<and> nodes_ok c t fpp s' \<and> found_ok c t fpp s' found'"
  using assms
proof (induction c t fpp found best s rule: search.induct)
  case (1 c t fpp found best s)
  show ?case
  proof (cases "(maxSearchDist fpp \<noteq> 0 \<or> closedNodes s < 100) \<and> getBestNode s \<noteq> None")
    case False
    then show ?thesis using 1(3,4) by (auto simp: search.simps [of c t fpp found best s])
  next
    case True
    then obtain n where go: "maxSearchDist fpp \<noteq> 0 \<or> closedNodes s < 100" and n: "getBestNode s = Some n" by auto
    let ?p = "pos_of c (nodes s ! n)"
    obtain ok best' where cond: "pathCondition (sightClear c) t (creaturePos c) ?p fpp best = (ok, best')" by fastforce
    define found' where "found' = (if ok then Some (n, ?p) else found)"
    have "n < curNode s" using getBestNode_open [OF n] by simp
    then have f': "found_ok c t fpp s found'"
      using 1(4) pathCondition_fits [of c t ?p fpp best] cond by (auto simp: found'_def found_ok_def)
    have "expanding c t fpp n (node_f (nodes s ! n)) s" using 1(3) \<open>n < curNode s\<close> by (simp add: expanding_def)
    from expand_ok [OF 1(2) this neighbors_of_subset, of "allowDiagonal fpp" s n] obtain s' full where
      ex: "expand c t fpp n (node_f (nodes s ! n)) (neighbors_of (allowDiagonal fpp) s n) s = Some (s', full)"
      and s': "nodes_ok c t fpp s'" "extends s s'" by (auto simp: expanding_def)
    have eq: "search c t fpp found best s = (if ok \<and> best' = 0 then Some (found', s)
        else if full \<and> found' = None then Some (None, s') else search c t fpp found' best' (closeNode n s'))"
      using go n cond ex by (simp add: search.simps [of c t fpp found best s] Let_def found'_def pos_of_def)
    have next_ok: "nodes_ok c t fpp (closeNode n s')" "found_ok c t fpp (closeNode n s') found'"
      using s' f' by (blast intro: nodes_ok_closeNode found_ok_extends extends_trans extends_closeNode)+
    show ?thesis
    proof (cases "(ok \<and> best' = 0) \<or> (full \<and> found' = None)")
      case True
      then show ?thesis using eq f' s' 1(3) by (auto simp: found_ok_def split: if_splits)
    next
      case False
      then have stop: "\<not> (ok \<and> best' = 0)" and full: "\<not> (full \<and> found' = None)" by auto
      from 1(1) [OF go n refl refl cond [symmetric, unfolded pos_of_def] refl stop ex refl
          full [unfolded found'_def pos_of_def] 1(2) next_ok(1) next_ok(2) [unfolded found'_def pos_of_def]]
      show ?thesis unfolding eq if_not_P [OF stop] if_not_P [OF full] by (simp only: found'_def pos_of_def)
    qed
  qed
qed

section \<open>Walking the path\<close>

text \<open>Where a creature gets to that takes the directions in turn, and what it walks over.\<close>

fun route :: "position \<Rightarrow> direction list \<Rightarrow> position list" where
  "route p [] = []"
| "route p (d # ds) = getNextPosition d p # route (getNextPosition d p) ds"

definition walk_end :: "position \<Rightarrow> direction list \<Rightarrow> position" where
  "walk_end p ds = fold getNextPosition ds p"

lemma route_append: "route p (ds @ es) = route p ds @ route (walk_end p ds) es"
  by (induction ds arbitrary: p) (simp_all add: walk_end_def)

lemma walk_end_append [simp]: "walk_end p (ds @ es) = walk_end (walk_end p ds) es"
  by (simp add: walk_end_def)

lemma uint_add_step:
  fixes w :: u16
  assumes "w \<noteq> 0" "w + word_of_int d \<noteq> 0" "d \<in> {- 1, 0, 1}"
  shows "uint (w + word_of_int d) = uint w + d"
proof -
  have w: "0 < uint w" "uint w < 65536"
    using assms(1) unsigned_less [of w, where 'a = int] unsigned_greater_eq [of w, where 'a = int]
    by (auto simp: unsigned_eq_0_iff order_less_le)
  have "uint (w + word_of_int d) = (uint w + d) mod 65536"
    by (simp add: uint_word_ariths uint_word_of_int mod_add_right_eq)
  moreover have "uint (w + word_of_int d) \<noteq> 0" using assms(2) by (simp add: unsigned_eq_0_iff)
  moreover have "0 \<le> uint w + d" "uint w + d \<le> 65536" using w assms(3) by auto
  ultimately show ?thesis by (cases "uint w + d = 65536") simp_all
qed

lemma step_direction_leads:
  assumes "step_to p q" and "pos_x p \<noteq> 0" "pos_y p \<noteq> 0" "pos_x q \<noteq> 0" "pos_y q \<noteq> 0"
  shows "\<exists>d. step_direction (uint (pos_x p) - uint (pos_x q)) (uint (pos_y p) - uint (pos_y q)) = [d] \<and> getNextPosition d p = q"
proof -
  from assms(1) obtain dx dy where d: "(dx, dy) \<in> set allNeighbors"
    and q: "q = Position (pos_x p + word_of_int dx) (pos_y p + word_of_int dy) (pos_z p)"
    by (auto simp: step_to_def)
  have small: "dx \<in> {- 1, 0, 1}" "dy \<in> {- 1, 0, 1}" using d by (auto simp: allNeighbors_def)
  have "uint (pos_x q) = uint (pos_x p) + dx" "uint (pos_y q) = uint (pos_y p) + dy"
    using assms small by (auto simp: q intro: uint_add_step)
  then have "step_direction (uint (pos_x p) - uint (pos_x q)) (uint (pos_y p) - uint (pos_y q)) = step_direction (- dx) (- dy)"
    by simp
  then show ?thesis using d by (cases p) (auto simp: q allNeighbors_def)
qed

text \<open>
  The reversed list of directions leads from the start to a node, over positions the search may step
  on. No tile lies at a coordinate zero, so no step wraps.
\<close>

lemma walk_back_route:
  assumes ok: "nodes_ok c t fpp s" and start: "mapTile c (creaturePos c) \<noteq> None"
    and border: "\<And>p. mapTile c p \<noteq> None \<Longrightarrow> pos_x p \<noteq> 0 \<and> pos_y p \<noteq> 0"
  shows "i < curNode s \<Longrightarrow> \<exists>r. walk_back s (parent (nodes s ! i)) (node_x (nodes s ! i)) (node_y (nodes s ! i)) ds = Some (ds @ r) \<and>
    walk_end (creaturePos c) (rev r) = pos_of c (nodes s ! i) \<and>
    set (route (creaturePos c) (rev r)) \<subseteq> Collect (admissible c t fpp)"
proof (induction "node_f (nodes s ! i)" arbitrary: i ds rule: less_induct)
  case less
  then have i: "node_ok c t fpp s i" using ok by (simp add: nodes_ok_def)
  show ?case
  proof (cases "parent (nodes s ! i)")
    case None
    then show ?thesis using i by (auto simp: walk_back.simps [of s None] node_ok_def walk_end_def)
  next
    case (Some p)
    let ?i = "pos_of c (nodes s ! i)" and ?p = "pos_of c (nodes s ! p)"
    have p: "p < curNode s" "node_f (nodes s ! p) < node_f (nodes s ! i)" "step_to ?p ?i" "admissible c t fpp ?i"
      using i Some by (auto simp: node_ok_def)
    have "mapTile c ?p \<noteq> None" "mapTile c ?i \<noteq> None"
      using known_node_tile [OF ok start] p(1) less.prems by auto
    from step_direction_leads [OF p(3)] border [OF this(1)] border [OF this(2)] obtain d where
      d: "step_direction (uint (node_x (nodes s ! p)) - uint (node_x (nodes s ! i)))
           (uint (node_y (nodes s ! p)) - uint (node_y (nodes s ! i))) = [d]"
        "getNextPosition d ?p = ?i" by (auto simp: pos_of_def)
    from less.hyps [OF p(2,1), of "ds @ [d]"] obtain r where
      r: "walk_back s (parent (nodes s ! p)) (node_x (nodes s ! p)) (node_y (nodes s ! p)) (ds @ [d]) = Some ((ds @ [d]) @ r)"
        "walk_end (creaturePos c) (rev r) = ?p" "set (route (creaturePos c) (rev r)) \<subseteq> Collect (admissible c t fpp)"
      by blast
    have "walk_back s (Some p) (node_x (nodes s ! i)) (node_y (nodes s ! i)) ds = Some (ds @ d # r)"
      using r(1) by (simp add: walk_back.simps [of s "Some p"] Let_def d(1) del: step_direction.simps)
    moreover have "walk_end (creaturePos c) (rev (d # r)) = ?i"
      using r(2) d(2) by (simp add: walk_end_def)
    moreover have "set (route (creaturePos c) (rev (d # r))) \<subseteq> Collect (admissible c t fpp)"
      using r(2,3) d(2) p(4) by (simp add: route_append)
    ultimately show ?thesis unfolding Some by blast
  qed
qed

text \<open>C6: A path that is found leads to its goal. Walking its directions from the back of the list, as
  creatures do, the creature only steps on positions it may walk to and that lie within the bounds of the
  search, and it arrives at a position in range of the target, in sight of it where that is asked for, and at
  a distance between the two that were asked for. The creature must stand on a tile, and no tile may lie at a
  coordinate zero.\<close>

theorem found_path_leads_to_goal:
  assumes "mapTile c (creaturePos c) \<noteq> None"
    and "\<nexists>p. mapTile c p \<noteq> None \<and> (pos_x p = 0 \<or> pos_y p = 0)"
    and "getPathMatching c [] t fpp = Some (True, dirs)"
  shows "set (route (creaturePos c) (rev dirs)) \<subseteq> Collect (admissible c t fpp) \<and>
    fits c t fpp (walk_end (creaturePos c) (rev dirs))"
proof -
  from search_ok [OF assms(1) nodes_ok_new, of t fpp None 0] obtain found s where
    s: "search c t fpp None 0 (new_nodes (pos_x (creaturePos c)) (pos_y (creaturePos c))) = Some (found, s)"
    "nodes_ok c t fpp s" and found: "found_ok c t fpp s found"
    by (auto simp: found_ok_def)
  then obtain n p where np: "found = Some (n, p)"
    using assms(3) by (cases found) (auto simp: getPathMatching_def)
  note s(1) [unfolded np] and found [unfolded np]
  then have n: "n < curNode s" "p = pos_of c (nodes s ! n)" "fits c t fpp p" by (auto simp: found_ok_def)
  have "pos_x p \<noteq> 0 \<and> pos_y p \<noteq> 0" if "mapTile c p \<noteq> None" for p using assms(2) that by blast
  from walk_back_route [OF s(2) assms(1) this n(1), of "[]"] obtain r where
    r: "walk_back s (parent (nodes s ! n)) (node_x (nodes s ! n)) (node_y (nodes s ! n)) [] = Some r"
      "walk_end (creaturePos c) (rev r) = p" "set (route (creaturePos c) (rev r)) \<subseteq> Collect (admissible c t fpp)"
    by (auto simp: n(2))
  then have "r = dirs" using assms(3) n(2) by (simp add: getPathMatching_def s(1) np pos_of_def)
  then show ?thesis using r n(3) by simp
qed

text \<open>C35: The search always answers: it never reads through a null tile and never runs around a circle
  of parents. It ends with at most 512 nodes, none of them dearer than 120085, far below the limits of the
  integers of the code.\<close>

theorem path_search_answers:
  assumes "mapTile c (creaturePos c) \<noteq> None"
    and "\<nexists>p. mapTile c p \<noteq> None \<and> (pos_x p = 0 \<or> pos_y p = 0)"
  shows "getPathMatching c dirList t fpp \<noteq> None \<and>
    (\<exists>found s. search c t fpp None 0 (new_nodes (pos_x (creaturePos c)) (pos_y (creaturePos c))) = Some (found, s) \<and>
       curNode s \<le> 512 \<and> set (map node_f (nodes s)) \<subseteq> {0..120085})"
proof -
  from search_ok [OF assms(1) nodes_ok_new, of t fpp None 0] obtain found s where
    s: "search c t fpp None 0 (new_nodes (pos_x (creaturePos c)) (pos_y (creaturePos c))) = Some (found, s)"
    "nodes_ok c t fpp s" and f: "found_ok c t fpp s found"
    by (auto simp: found_ok_def)
  have "curNode s \<le> 512" using s(2) by (simp add: nodes_ok_def MAX_NODES_def)
  have "node_f (nodes s ! i) \<le> 120085" if "i < curNode s" for i
  proof -
    have "node_f (nodes s ! i) \<le> 235 * i" using s(2) that by (simp add: nodes_ok_def node_ok_def)
    then show ?thesis using that \<open>curNode s \<le> 512\<close> by linarith
  qed
  then have "set (map node_f (nodes s)) \<subseteq> {0..120085}" by (auto simp: in_set_conv_nth)
  moreover have "getPathMatching c dirList t fpp \<noteq> None"
  proof (cases found)
    case (Some np)
    obtain n p where np: "np = (n, p)" by fastforce
    have "n < curNode s" "p = pos_of c (nodes s ! n)" using f by (auto simp: Some np found_ok_def)
    moreover have "pos_x p \<noteq> 0 \<and> pos_y p \<noteq> 0" if "mapTile c p \<noteq> None" for p using assms(2) that by blast
    ultimately show ?thesis using walk_back_route [OF s(2) assms(1), of n dirList]
      by (auto simp: getPathMatching_def s(1) Some np pos_of_def)
  qed (simp add: getPathMatching_def s(1))
  ultimately show ?thesis using s(1) \<open>curNode s \<le> 512\<close> by blast
qed

section \<open>A corridor\<close>

text \<open>A corridor of five tiles, with a field on the second, which costs more, and a wall on the fourth.\<close>

definition corridor :: "position pathfinder" where
  "corridor = \<lparr>mapTile = (\<lambda>p. if pos_y p = 5 \<and> pos_z p = 7 \<and> 5 \<le> pos_x p \<and> pos_x p \<le> 9 then Some p else None),
     creaturePos = Position 5 5 7, creatureTile = Some (Position 5 5 7), useCacheMap = False, walkCache = (\<lambda>_ _. False),
     canAdd = (\<lambda>p flags. p \<noteq> Position 8 5 7), isPlayer = False, isMonster = True,
     topVisibleCreature = (\<lambda>p. False), fieldType = (\<lambda>p. if pos_x p = 6 then Some 1 else None), immuneTo = (\<lambda>t. False),
     hasDamageCondition = (\<lambda>t. False), canWalkOnField = (\<lambda>t. False), sightClear = (\<lambda>p q. True)\<rparr>"

lemmas search_eval = getBestNode_def pathCondition_def isInRange_def distance_defs default_params_def
  new_nodes_def neighbors_of_def allNeighbors_def visit_def getNodeByPosition_def canWalkTo_def getWalkCache_def
  createOpenNode_def MAX_NODES_def getMapWalkCost_def getTileWalkCost_def MAP_NORMALWALKCOST_def MAP_DIAGONALWALKCOST_def
  closeNode_def update_node_def openNode_def corridor_def parent_side_def

abbreviation next_to :: find_path_params where
  "next_to \<equiv> default_params\<lparr>maxSearchDist := 10, minTargetDist := 1, maxTargetDist := 1\<rparr>"

lemma corridor_path: "getPathMatching corridor [] (Position 8 5 7) next_to = Some (True, [DIRECTION_EAST, DIRECTION_EAST])"
  unfolding getPathMatching_def
  by ((subst search.simps, simp add: search_eval Let_def upt_rec)+, simp add: walk_back.simps Let_def)

lemma corridor_border:
  "mapTile corridor (creaturePos corridor) \<noteq> None"
  "\<nexists>p. mapTile corridor p \<noteq> None \<and> (pos_x p = 0 \<or> pos_y p = 0)"
  by (auto simp: corridor_def split: if_splits)

lemma found_path_leads_to_goal_witness:
  "admissible corridor (Position 8 5 7) next_to (Position 6 5 7) \<and> fits corridor (Position 8 5 7) next_to (Position 7 5 7)"
  using found_path_leads_to_goal [OF corridor_border corridor_path]
  by (simp add: walk_end_def) (simp add: corridor_def)

lemma path_search_answers_witness: "getPathMatching corridor [] (Position 9 5 7) next_to \<noteq> None"
  using path_search_answers [OF corridor_border] by blast

end
