(* ===== verification/Sight.thy ===== *)
theory Sight
  imports Rounding Positions
begin

text \<open>
  Lines of sight: \<open>Map::isSightClear\<close>, \<open>Map::canThrowObjectTo\<close>, \<open>Map::isTileClear\<close> and the two line
  checks of \<open>src/src/map.cpp\<close>. The line checks compute in \<open>float\<close>, with one addition in \<open>double\<close>: each
  operation rounds as in Rounding; the numbers here lie between \<open>1 / 65535\<close> and \<open>131072\<close>, or are zero.
\<close>

section \<open>Tiles\<close>

text \<open>What the sight asks of the map: the tile of a position, and of a tile whether it has a ground and
  whether it blocks projectiles.\<close>

record 'tile sight_map =
  sightTile :: "u16 \<Rightarrow> u16 \<Rightarrow> u8 \<Rightarrow> 'tile option"
  hasGround :: "'tile \<Rightarrow> bool"
  blocksProjectile :: "'tile \<Rightarrow> bool"

definition isTileClear :: "'tile sight_map \<Rightarrow> u16 \<Rightarrow> u16 \<Rightarrow> u8 \<Rightarrow> bool \<Rightarrow> bool" where
  "isTileClear m x y z blockFloor =
     (case sightTile m x y z of
        None \<Rightarrow> True
      | Some tile \<Rightarrow> if blockFloor \<and> hasGround m tile then False else \<not> blocksProjectile m tile)"

section \<open>Lines\<close>

text \<open>\<open>std::floor(yi + 0.1)\<close> as a coordinate.\<close>

definition line_coord :: "rat \<Rightarrow> u16" where
  "line_coord yi = word_of_int \<lfloor>to_double (yi + to_double (1 / 10))\<rfloor>"

definition line_slope :: "u16 \<Rightarrow> u16 \<Rightarrow> u16 \<Rightarrow> u16 \<Rightarrow> rat" where
  "line_slope x0 y0 x1 y1 =
     (let dx = of_int (uint x1 - uint x0) in
      if dx = 0 then 1 else to_float (of_int (uint y1 - uint y0) / dx))"

text \<open>The loop of both checks; they differ in which way round a tile is looked up.\<close>

function line_loop :: "(u16 \<Rightarrow> u16 \<Rightarrow> bool) \<Rightarrow> rat \<Rightarrow> u16 \<Rightarrow> u16 \<Rightarrow> rat \<Rightarrow> bool" where
  "line_loop clear slope x1 x yi =
     (if x < x1 then
        if \<not> clear x (line_coord yi) then False
        else line_loop clear slope x1 (x + 1) (to_float (yi + slope))
      else True)"
  by pat_completeness auto

termination
proof (relation "measure (\<lambda>(clear, slope, x1, x, yi). unat x1 - unat x)")
  fix x x1 :: u16
  assume "x < x1"
  then have "unat (x + 1) = unat x + 1"
    using unsigned_less [of x1, where 'a = nat] by (simp add: unat_word_ariths word_less_nat_alt)
  with \<open>x < x1\<close> show "((clear, slope, x1, x + 1, to_float (yi + slope)), clear, slope, x1, x, yi)
      \<in> measure (\<lambda>(clear, slope, x1, x, yi). unat x1 - unat x)" for clear slope yi
    by (simp add: word_less_nat_alt)
qed simp

declare line_loop.simps [simp del]

definition checkSteepLine :: "'tile sight_map \<Rightarrow> u16 \<Rightarrow> u16 \<Rightarrow> u16 \<Rightarrow> u16 \<Rightarrow> u8 \<Rightarrow> bool" where
  "checkSteepLine m x0 y0 x1 y1 z =
     (let slope = line_slope x0 y0 x1 y1 in
      line_loop (\<lambda>x y. isTileClear m y x z False) slope x1 (x0 + 1) (to_float (of_int (uint y0) + slope)))"

definition checkSlightLine :: "'tile sight_map \<Rightarrow> u16 \<Rightarrow> u16 \<Rightarrow> u16 \<Rightarrow> u16 \<Rightarrow> u8 \<Rightarrow> bool" where
  "checkSlightLine m x0 y0 x1 y1 z =
     (let slope = line_slope x0 y0 x1 y1 in
      line_loop (\<lambda>x y. isTileClear m x y z False) slope x1 (x0 + 1) (to_float (of_int (uint y0) + slope)))"

definition checkSightLine :: "'tile sight_map \<Rightarrow> u16 \<Rightarrow> u16 \<Rightarrow> u16 \<Rightarrow> u16 \<Rightarrow> u8 \<Rightarrow> bool" where
  "checkSightLine m x0 y0 x1 y1 z =
     (if x0 = x1 \<and> y0 = y1 then True
      else if \<bar>uint y1 - uint y0\<bar> > \<bar>uint x1 - uint x0\<bar> then
        if y1 > y0 then checkSteepLine m y0 x0 y1 x1 z
        else checkSteepLine m y1 x1 y0 x0 z
      else if x0 > x1 then checkSlightLine m x1 y1 x0 y0 z
      else checkSlightLine m x0 y0 x1 y1 z)"

section \<open>Sight\<close>

definition isSightClear :: "'tile sight_map \<Rightarrow> position \<Rightarrow> position \<Rightarrow> bool \<Rightarrow> bool" where
  "isSightClear m fromPos toPos sameFloor =
     (let line = checkSightLine m (pos_x fromPos) (pos_y fromPos) (pos_x toPos) (pos_y toPos) in
      if pos_z fromPos = pos_z toPos then
        if getDistanceX fromPos toPos < 2 \<and> getDistanceY fromPos toPos < 2 then True
        else
          let sightClear = line (pos_z fromPos) in
          if sightClear \<or> sameFloor then sightClear
          else if pos_z fromPos = 0 then True
          else
            let newZ = pos_z fromPos - 1 in
            isTileClear m (pos_x fromPos) (pos_y fromPos) newZ True \<and>
            isTileClear m (pos_x toPos) (pos_y toPos) newZ True \<and> line newZ
      else if sameFloor then False
      else if (pos_z fromPos < 8 \<and> pos_z toPos > 7) \<or> (pos_z fromPos > 7 \<and> pos_z toPos < 8) then False
      else if pos_z fromPos > pos_z toPos then
        if getDistanceZ fromPos toPos > 1 then False
        else
          let newZ = pos_z fromPos - 1 in
          isTileClear m (pos_x fromPos) (pos_y fromPos) newZ True \<and> line newZ
      else if \<not> list_all (\<lambda>z. isTileClear m (pos_x toPos) (pos_y toPos) (of_nat z) True)
                [unat (pos_z fromPos)..<unat (pos_z toPos)] then False
      else line (pos_z fromPos))"

definition canThrowObjectTo :: "'tile sight_map \<Rightarrow> position \<Rightarrow> position \<Rightarrow> bool \<Rightarrow> bool \<Rightarrow> int \<Rightarrow> int \<Rightarrow> bool" where
  "canThrowObjectTo m fromPos toPos checkLineOfSight sameFloor rangex rangey =
     (if getDistanceX fromPos toPos > rangex \<or> getDistanceY fromPos toPos > rangey then False
      else \<not> checkLineOfSight \<or> isSightClear m fromPos toPos sameFloor)"

section \<open>Sight goes both ways\<close>

lemma checkSightLine_sym: "checkSightLine m x0 y0 x1 y1 z = checkSightLine m x1 y1 x0 y0 z"
proof (cases "x0 = x1 \<and> y0 = y1")
  case False
  show ?thesis
  proof (cases "\<bar>uint y1 - uint y0\<bar> > \<bar>uint x1 - uint x0\<bar>")
    case True
    then have "y0 \<noteq> y1" by auto
    then show ?thesis using True False
      by (auto simp: checkSightLine_def abs_minus_commute not_less_iff_gr_or_eq)
  next
    case flat: False
    have "x0 \<noteq> x1"
    proof
      assume "x0 = x1"
      with flat have "uint y1 = uint y0" by simp
      with \<open>x0 = x1\<close> False show False by (simp add: word_uint_eq_iff)
    qed
    then show ?thesis using flat False
      by (auto simp: checkSightLine_def abs_minus_commute)
  qed
qed auto

text \<open>On one floor sight goes both ways: whatever the map, and however the line between two positions is
  rounded, one position is in sight of the other exactly when the other is in sight of the one. The same
  holds of throwing.\<close>

theorem sight_goes_both_ways:
  assumes "pos_z p = pos_z q"
  shows "isSightClear m p q sameFloor = isSightClear m q p sameFloor \<and>
    canThrowObjectTo m p q check sameFloor rx ry = canThrowObjectTo m q p check sameFloor rx ry"
proof -
  have sym: "getDistanceX p q = getDistanceX q p" "getDistanceY p q = getDistanceY q p"
    by (simp_all add: distance_defs)
  have "isSightClear m p q sameFloor = isSightClear m q p sameFloor"
    using assms checkSightLine_sym [of m "pos_x p" "pos_y p" "pos_x q" "pos_y q"]
    by (auto simp: isSightClear_def Let_def sym)
  then show ?thesis by (simp add: canThrowObjectTo_def sym)
qed

section \<open>Whole coordinates\<close>

text \<open>On a line that only meets whole coordinates, the coordinate is found exactly.\<close>

lemma line_coord_int:
  assumes "0 \<le> n" "n < 65536" shows "line_coord (of_int n) = word_of_int n"
proof -
  let ?d = "to_double (1 / 10)"
  have "\<bar>?d - 1 / 10\<bar> \<le> two_to (0 - 1 - 53)" by (rule round_to_near) (simp add: two_to_def)
  moreover have small: "two_to (17 - 1 - 53) \<le> 1 / 100" "two_to (0 - 1 - 53) \<le> 1 / 100" by (simp_all add: two_to_def)
  ultimately have d: "9 / 100 \<le> ?d" "?d \<le> 11 / 100" by linarith+
  have n: "0 \<le> (of_int n :: rat)" "(of_int n :: rat) \<le> 65535"
    using assms of_int_le_iff [of n 65535, where 'a = rat] by simp_all
  have "\<bar>of_int n + ?d\<bar> < two_to 17" using n d by (simp add: two_to_def)
  then have "\<bar>to_double (of_int n + ?d) - (of_int n + ?d)\<bar> \<le> two_to (17 - 1 - 53)" by (rule round_to_near)
  then have "of_int n \<le> to_double (of_int n + ?d)" "to_double (of_int n + ?d) < of_int n + 1"
    using d small by linarith+
  then have "\<lfloor>to_double (of_int n + ?d)\<rfloor> = n" by (simp add: floor_eq_iff)
  then show ?thesis by (simp add: line_coord_def)
qed

section \<open>Straight and diagonal lines\<close>

lemma line_slope_whole:
  assumes "uint x1 - uint x0 = int k" "k > 0" "uint y1 - uint y0 = int k * s" "s \<in> {- 1, 0, 1}"
  shows "line_slope x0 y0 x1 y1 = of_int s"
proof -
  have "of_int (int k * s) / of_int (int k) = (of_int s :: rat)" using assms(2) by simp
  moreover have "to_float (of_int s) = of_int s" using round_to_int [of s 24] assms(4) by auto
  ultimately show ?thesis using assms(2) by (simp add: line_slope_def assms(1,3) Let_def del: of_int_mult)
qed

lemma line_loop_whole:
  assumes "unat x1 = unat x + n" "s \<in> {- 1, 0, 1}" "\<And>i. i < n \<Longrightarrow> 0 \<le> y + s * int i \<and> y + s * int i < 65536"
  shows "line_loop clear (of_int s) x1 x (of_int y) \<longleftrightarrow>
    (\<nexists>i. i < n \<and> \<not> clear (x + of_nat i) (word_of_int (y + s * int i)))"
  using assms(1,3)
proof (induction n arbitrary: x y)
  case 0
  then show ?case by (simp add: line_loop.simps word_less_nat_alt)
next
  case (Suc n)
  have less: "x < x1" using Suc.prems(1) by (simp add: word_less_nat_alt)
  have y: "0 \<le> y" "y < 65536" using Suc.prems(2) [of 0] by auto
  have next_x: "unat x1 = unat (x + 1) + n"
    using Suc.prems(1) unsigned_less [of x1, where 'a = nat] by (simp add: unat_word_ariths)
  have next_y: "0 \<le> (y + s) + s * int i \<and> (y + s) + s * int i < 65536" if "i < n" for i
    using Suc.prems(2) [of "Suc i"] that by (simp add: algebra_simps)
  have "to_float (of_int (y + s)) = of_int (y + s)"
    using y assms(2) by (intro round_to_int [of _ 24, simplified]) auto
  then have "line_loop clear (of_int s) x1 x (of_int y) \<longleftrightarrow>
      clear x (word_of_int y) \<and> line_loop clear (of_int s) x1 (x + 1) (of_int (y + s))"
    using less y by (simp add: line_loop.simps [of _ _ x1 x] line_coord_int)
  also have "\<dots> \<longleftrightarrow> clear x (word_of_int y) \<and> (\<nexists>i. i < n \<and> \<not> clear (x + of_nat (Suc i)) (word_of_int (y + s * int (Suc i))))"
    using Suc.IH [OF next_x next_y] by (simp add: algebra_simps)
  also have "\<dots> \<longleftrightarrow> (\<nexists>i. i < Suc n \<and> \<not> clear (x + of_nat i) (word_of_int (y + s * int i)))"
    by (simp add: Ex_less_Suc2)
  finally show ?case .
qed

lemma checkSlightLine_whole:
  assumes "uint x1 = uint x0 + int k" "k > 0" "uint y1 = uint y0 + int k * s" "s \<in> {- 1, 0, 1}"
  shows "line_loop clear (line_slope x0 y0 x1 y1) x1 (x0 + 1) (to_float (of_int (uint y0) + line_slope x0 y0 x1 y1)) \<longleftrightarrow>
    (\<nexists>i. 0 < i \<and> i < k \<and> \<not> clear (x0 + of_nat i) (y0 + word_of_int (s * int i)))"
proof -
  have slope: "line_slope x0 y0 x1 y1 = of_int s" using line_slope_whole [of x1 x0 k y1 y0 s] assms by simp
  obtain n where k: "k = Suc n" using assms(2) by (cases k) auto
  have bounds: "0 \<le> uint y" "uint y < 65536" for y :: u16
    using unsigned_less [of y, where 'a = int] by auto
  have "int (unat x1) = int (unat x0 + k)" using assms(1) by simp
  then have "unat x1 = unat x0 + k" by (simp only: of_nat_eq_iff)
  then have x: "unat x1 = unat (x0 + 1) + n"
    using k unsigned_less [of x1, where 'a = nat] by (simp add: unat_word_ariths)
  have y: "0 \<le> (uint y0 + s) + s * int i \<and> (uint y0 + s) + s * int i < 65536" if "i < n" for i
    using assms(3,4) bounds [of y0] bounds [of y1] that k by auto
  have "- 1 \<le> s" "s \<le> 1" using assms(4) by auto
  then have "\<bar>uint y0 + s\<bar> < 16777216" using bounds [of y0] by linarith
  then have "to_float (of_int (uint y0 + s)) = of_int (uint y0 + s)" using round_to_int [of "uint y0 + s" 24] by simp
  then have "line_loop clear (of_int s) x1 (x0 + 1) (to_float (of_int (uint y0) + of_int s)) \<longleftrightarrow>
      (\<nexists>i. i < n \<and> \<not> clear (x0 + of_nat (Suc i)) (y0 + word_of_int (s * int (Suc i))))"
    using line_loop_whole [OF x assms(4) y, of clear] by (simp add: algebra_simps)
  also have "\<dots> \<longleftrightarrow> (\<nexists>i. 0 < i \<and> i < k \<and> \<not> clear (x0 + of_nat i) (y0 + word_of_int (s * int i)))"
    unfolding k by (metis Suc_less_eq Suc_pred zero_less_Suc)
  finally show ?thesis by (simp add: slope)
qed

text \<open>To the east, north-east and south-east, and to the south.\<close>

lemma sight_line_forward:
  assumes "uint x1 = uint x0 + int k * sx" "uint y1 = uint y0 + int k * sy" "sy \<in> {- 1, 0, 1}"
    and "sx = 1 \<or> (sx = 0 \<and> sy = 1)"
  shows "checkSightLine m x0 y0 x1 y1 z \<longleftrightarrow>
    (\<nexists>i. 0 < i \<and> i < k \<and> \<not> isTileClear m (x0 + word_of_int (sx * int i)) (y0 + word_of_int (sy * int i)) z False)"
proof (cases "k = 0")
  case True
  then show ?thesis using assms by (simp add: checkSightLine_def word_uint_eq_iff)
next
  case False
  then have ne: "\<not> (x0 = x1 \<and> y0 = y1)" using assms(1,2,4) by auto
  show ?thesis
  proof (cases "sx = 1")
    case True
    have "\<not> \<bar>uint y1 - uint y0\<bar> > \<bar>uint x1 - uint x0\<bar>" "\<not> x0 > x1"
      using assms(1-3) True by (auto simp: word_less_def)
    then have "checkSightLine m x0 y0 x1 y1 z = checkSlightLine m x0 y0 x1 y1 z"
      using ne by (auto simp: checkSightLine_def)
    then show ?thesis
      using checkSlightLine_whole [of x1 x0 k y1 y0 sy "\<lambda>x y. isTileClear m x y z False"] assms(1-3) True False
      by (simp add: checkSlightLine_def Let_def)
  next
    case down: False
    then have s: "sx = 0" "sy = 1" using assms(4) by auto
    have "\<bar>uint y1 - uint y0\<bar> > \<bar>uint x1 - uint x0\<bar>" "y1 > y0"
      using assms(1,2) s False by (auto simp: word_less_def)
    then have "checkSightLine m x0 y0 x1 y1 z = checkSteepLine m y0 x0 y1 x1 z"
      using ne by (auto simp: checkSightLine_def)
    then show ?thesis
      using checkSlightLine_whole [of y1 y0 k x1 x0 0 "\<lambda>x y. isTileClear m y x z False"] assms(1,2) s False
      by (simp add: checkSteepLine_def Let_def)
  qed
qed

lemma ex_mirror: "(\<exists>i. 0 < i \<and> i < k \<and> P (k - i)) \<longleftrightarrow> (\<exists>i :: nat. 0 < i \<and> i < k \<and> P i)"
proof
  assume "\<exists>i. 0 < i \<and> i < k \<and> P i"
  then obtain i where "0 < i" "i < k" "P i" by blast
  then show "\<exists>i. 0 < i \<and> i < k \<and> P (k - i)" by (intro exI [of _ "k - i"]) simp
next
  assume "\<exists>i. 0 < i \<and> i < k \<and> P (k - i)"
  then obtain i where "0 < i" "i < k" "P (k - i)" by blast
  then show "\<exists>i. 0 < i \<and> i < k \<and> P i" by (intro exI [of _ "k - i"]) simp
qed

text \<open>C32: Along the eight directions of the map the rounding of the line check does no harm: the line between
  two positions is clear exactly when each tile strictly between them on the straight or diagonal line is
  clear, whichever way it is looked at, up to the edges of the map.\<close>

theorem straight_sight_exact:
  assumes "uint x1 = uint x0 + int k * sx" "uint y1 = uint y0 + int k * sy" "sx \<in> {- 1, 0, 1}" "sy \<in> {- 1, 0, 1}"
    and "sx \<noteq> 0 \<or> sy \<noteq> 0"
  shows "checkSightLine m x0 y0 x1 y1 z \<longleftrightarrow>
    (\<nexists>i. 0 < i \<and> i < k \<and> \<not> isTileClear m (x0 + word_of_int (sx * int i)) (y0 + word_of_int (sy * int i)) z False)"
proof (cases "sx = 1 \<or> (sx = 0 \<and> sy = 1)")
  case True
  then show ?thesis using sight_line_forward assms by blast
next
  case False
  have flip: "uint x0 = uint x1 + int k * (- sx)" "uint y0 = uint y1 + int k * (- sy)" "- sy \<in> {- 1, 0, 1}" "- sx = 1 \<or> (- sx = 0 \<and> - sy = 1)"
    using assms False by auto
  have "x1 = word_of_int (uint x0 + int k * sx)" "y1 = word_of_int (uint y0 + int k * sy)"
    using assms(1,2) by (metis word_of_int_uint)+
  then have x1: "x1 = x0 + word_of_int (sx * int k)" "y1 = y0 + word_of_int (sy * int k)"
    by (simp_all add: mult.commute)
  have mirror: "x1 + word_of_int (- sx * int i) = x0 + word_of_int (sx * int (k - i))"
    "y1 + word_of_int (- sy * int i) = y0 + word_of_int (sy * int (k - i))" if "i < k" for i
    using that by (simp_all add: x1 of_nat_diff algebra_simps)
  have "checkSightLine m x0 y0 x1 y1 z \<longleftrightarrow> checkSightLine m x1 y1 x0 y0 z" by (rule checkSightLine_sym)
  also have "\<dots> \<longleftrightarrow> (\<nexists>i. 0 < i \<and> i < k \<and> \<not> isTileClear m (x1 + word_of_int (- sx * int i)) (y1 + word_of_int (- sy * int i)) z False)"
    by (rule sight_line_forward [OF flip])
  also have "\<dots> \<longleftrightarrow> (\<nexists>i. 0 < i \<and> i < k \<and> \<not> isTileClear m (x0 + word_of_int (sx * int (k - i))) (y0 + word_of_int (sy * int (k - i))) z False)"
    by (intro arg_cong [where f = Not] iff_exI conj_cong refl) (simp only: mirror)
  also have "\<dots> \<longleftrightarrow> (\<nexists>i. 0 < i \<and> i < k \<and> \<not> isTileClear m (x0 + word_of_int (sx * int i)) (y0 + word_of_int (sy * int i)) z False)"
    by (simp only: ex_mirror [where P = "\<lambda>i. \<not> isTileClear m (x0 + word_of_int (sx * int i)) (y0 + word_of_int (sy * int i)) z False"])
  finally show ?thesis .
qed

section \<open>A pillar\<close>

definition pillar :: "unit sight_map" where
  "pillar = \<lparr>sightTile = (\<lambda>x y z. if x = 12 \<and> y = 12 \<and> z = 7 then Some () else None), hasGround = (\<lambda>_. True), blocksProjectile = (\<lambda>_. True)\<rparr>"

lemma straight_sight_exact_witness: "\<not> checkSightLine pillar 14 10 10 14 7"
proof -
  let ?at = "\<lambda>i :: nat. isTileClear pillar (14 + word_of_int (- 1 * int i)) (10 + word_of_int (1 * int i)) 7 False"
  have "0 < (2 :: nat) \<and> 2 < (4 :: nat) \<and> \<not> ?at 2" by (simp add: isTileClear_def pillar_def)
  then have "\<exists>i. 0 < i \<and> i < 4 \<and> \<not> ?at i" by (rule exI)
  moreover have "checkSightLine pillar 14 10 10 14 7 \<longleftrightarrow> (\<nexists>i. 0 < i \<and> i < 4 \<and> \<not> ?at i)"
    by (rule straight_sight_exact) simp_all
  ultimately show ?thesis by blast
qed

lemma sight_goes_both_ways_witness:
  "isSightClear pillar (Position 13 11 7) (Position 10 12 7) True = isSightClear pillar (Position 10 12 7) (Position 13 11 7) True"
  using sight_goes_both_ways [of "Position 13 11 7" "Position 10 12 7" pillar True False 8 6] by simp

end
