(* ===== verification/Progress.thy ===== *)
theory Progress
  imports Sight "HOL-Library.Monad_Syntax"
begin

text \<open>
  How players progress: experience and levels, skills and magic level, and what a death takes away
  (\<open>src/src/player.cpp\<close>, \<open>player.h\<close>). What a vocation gains per level and what the next skill or magic
  level requires (\<open>Vocation\<close>, from the file of vocations) are arguments, and so are the scripts that may
  change an amount. Doubles are rounded as in Sight. Messages to the client are left out.
\<close>

section \<open>State\<close>

record vocation =
  gainHP :: u32
  gainMana :: u32
  gainCap :: u32
  reqSkillTries :: "nat \<Rightarrow> u16 \<Rightarrow> u64"
  reqMana :: "u32 \<Rightarrow> u64"
  no_vocation :: bool \<comment> \<open>\<open>VOCATION_NONE\<close>\<close>

record skill =
  tries :: u64
  level16 :: u16
  percent :: u16

definition MINIMUM_SKILL_LEVEL :: u16 where "MINIMUM_SKILL_LEVEL = 10"

record player =
  experience :: u64
  level :: u32
  levelPercent :: u8
  health :: u32
  healthMax :: u32
  mana :: u32
  manaMax :: u32
  capacity :: u32
  manaSpent :: u64
  magLevel :: u32
  magLevelPercent :: u16
  skills :: "nat \<Rightarrow> skill"
  varMaxHealth :: u32 \<comment> \<open>\<open>varStats[STAT_MAXHITPOINTS]\<close>\<close>
  varMaxMana :: u32
  blessings :: "nat set"

text \<open>\<open>int32_t\<close> members are words, and \<open>max<int32_t>\<close> reads them as signed.\<close>

definition max0 :: "u32 \<Rightarrow> u32" where
  "max0 n = (if sint n < 0 then 0 else n)"

definition getMaxHealth :: "player \<Rightarrow> u32" where
  "getMaxHealth p = (let n = healthMax p + varMaxHealth p in if sint n < 1 then 1 else n)"

definition getMaxMana :: "player \<Rightarrow> u32" where
  "getMaxMana p = max0 (manaMax p + varMaxMana p)"

definition getExpForLevel :: "u64 \<Rightarrow> u64" where
  "getExpForLevel lv = (((lv - 6) * lv + 17) * lv - 12) div 6 * 100"

text \<open>The quotient as a double, cut to 16 bits.\<close>

definition as_double :: "u64 \<Rightarrow> rat" where
  "as_double n = to_double (of_int (uint n))"

definition getBasisPointLevel :: "u64 \<Rightarrow> u64 \<Rightarrow> u16" where
  "getBasisPointLevel n nextLevelCount =
     (if nextLevelCount = 0 then 0
      else
        let result = word_of_int \<lfloor>to_double (to_double (as_double n * 10000) / as_double nextLevelCount)\<rfloor> in
        if result > 10000 then 0 else result)"

section \<open>Experience\<close>

definition gain_level :: "vocation \<Rightarrow> player \<Rightarrow> player" where
  "gain_level voc p =
     p\<lparr>level := level p + 1, healthMax := healthMax p + gainHP voc, health := health p + gainHP voc,
       manaMax := manaMax p + gainMana voc, mana := mana p + gainMana voc, capacity := capacity p + gainCap voc\<rparr>"

partial_function (option) level_up :: "vocation \<Rightarrow> u64 \<Rightarrow> u64 \<Rightarrow> player \<Rightarrow> (player \<times> u64 \<times> u64) option" where
  "level_up voc currLevelExp nextLevelExp p =
     (if experience p \<ge> nextLevelExp then
        let p' = gain_level voc p;
            next' = getExpForLevel (ucast (level p' + 1)) in
        if nextLevelExp \<ge> next' then Some (p', nextLevelExp, next') else level_up voc nextLevelExp next' p'
      else Some (p, currLevelExp, nextLevelExp))"

definition levelPercent_of :: "u64 \<Rightarrow> u64 \<Rightarrow> u64 \<Rightarrow> u8" where
  "levelPercent_of e currLevelExp nextLevelExp =
     (if nextLevelExp > currLevelExp
      then ucast (getBasisPointLevel (e - currLevelExp) (nextLevelExp - currLevelExp) div 100) else 0)"

definition refill :: "player \<Rightarrow> player" where
  "refill p = p\<lparr>health := getMaxHealth p, mana := getMaxMana p\<rparr>"

definition addExperience :: "vocation \<Rightarrow> (u64 \<Rightarrow> u64) \<Rightarrow> u64 \<Rightarrow> player \<Rightarrow> player option" where
  "addExperience voc event e p =
     (let currLevelExp = getExpForLevel (ucast (level p));
          nextLevelExp = getExpForLevel (ucast (level p + 1)) in
      if currLevelExp \<ge> nextLevelExp then Some (p\<lparr>levelPercent := 0\<rparr>)
      else
        let e = event e in
        if e = 0 then Some p
        else do {
          (p', currLevelExp, nextLevelExp) \<leftarrow> level_up voc currLevelExp nextLevelExp (p\<lparr>experience := experience p + e\<rparr>);
          let p' = (if level p \<noteq> level p' then refill p' else p');
          Some (p'\<lparr>levelPercent := levelPercent_of (experience p') currLevelExp nextLevelExp\<rparr>)
        })"

definition lose_level :: "vocation \<Rightarrow> player \<Rightarrow> player" where
  "lose_level voc p =
     p\<lparr>level := level p - 1, healthMax := max0 (healthMax p - gainHP voc), manaMax := max0 (manaMax p - gainMana voc),
       capacity := max0 (capacity p - gainCap voc)\<rparr>"

function level_down :: "vocation \<Rightarrow> player \<Rightarrow> player" where
  "level_down voc p =
     (if level p > 1 \<and> experience p < getExpForLevel (ucast (level p)) then level_down voc (lose_level voc p) else p)"
  by pat_completeness auto

termination
proof (relation "measure (\<lambda>(voc, p). unat (level p))", goal_cases)
  case (2 voc p)
  then have "1 < unat (level p)" by (simp add: word_less_nat_alt)
  then show ?case by (simp add: lose_level_def unat_sub word_le_nat_alt)
qed simp

declare level_down.simps [simp del]

text \<open>\<open>std::max<int64_t>(0, experience - exp)\<close>: the difference of two unsigned numbers, read as signed.\<close>

definition max0_64 :: "u64 \<Rightarrow> u64" where
  "max0_64 n = (if sint n < 0 then 0 else n)"

definition removeExperience :: "vocation \<Rightarrow> (u64 \<Rightarrow> u64) \<Rightarrow> u64 \<Rightarrow> player \<Rightarrow> player" where
  "removeExperience voc event e p =
     (if experience p = 0 \<or> e = 0 then p
      else
        let e = event e in
        if e = 0 then p
        else
          let p1 = level_down voc (p\<lparr>experience := max0_64 (experience p - e)\<rparr>);
              p2 = (if level p \<noteq> level p1 then refill p1 else p1);
              currLevelExp = getExpForLevel (ucast (level p2));
              nextLevelExp = getExpForLevel (ucast (level p2 + 1)) in
          p2\<lparr>levelPercent := levelPercent_of (experience p2) currLevelExp nextLevelExp\<rparr>)"

section \<open>Skills\<close>

partial_function (option) skill_up :: "(u16 \<Rightarrow> u64) \<Rightarrow> u64 \<Rightarrow> u64 \<Rightarrow> u64 \<Rightarrow> skill \<Rightarrow> (skill \<times> u64 \<times> u64 \<times> u64) option" where
  "skill_up req n currReqTries nextReqTries s =
     (if tries s + n \<ge> nextReqTries then
        let n' = n - (nextReqTries - tries s);
            s' = \<lparr>tries = 0, level16 = level16 s + 1, percent = 0\<rparr>;
            next' = req (level16 s' + 1) in
        if nextReqTries \<ge> next' then Some (s', 0, nextReqTries, next') else skill_up req n' nextReqTries next' s'
      else Some (s, n, currReqTries, nextReqTries))"

text \<open>The new percentage is cut to eight bits.\<close>

definition addSkillAdvance :: "(u16 \<Rightarrow> u64) \<Rightarrow> (u64 \<Rightarrow> u64) \<Rightarrow> u64 \<Rightarrow> skill \<Rightarrow> skill option" where
  "addSkillAdvance req event n s =
     (let currReqTries = req (level16 s);
          nextReqTries = req (level16 s + 1) in
      if currReqTries \<ge> nextReqTries then Some s
      else
        let n = event n in
        if n = 0 then Some s
        else do {
          (s, n, currReqTries, nextReqTries) \<leftarrow> skill_up req n currReqTries nextReqTries s;
          let s = s\<lparr>tries := tries s + n\<rparr>;
          let newPercent = (if nextReqTries > currReqTries then getBasisPointLevel (tries s) nextReqTries else 0);
          Some (if percent s \<noteq> newPercent then s\<lparr>percent := ucast (ucast newPercent :: u8)\<rparr> else s)
        })"

text \<open>The loop ends at the lowest level, where everything left is taken.\<close>

function skill_down :: "(u16 \<Rightarrow> u64) \<Rightarrow> u64 \<Rightarrow> skill \<Rightarrow> skill \<times> u64" where
  "skill_down req n s =
     (if n > tries s then
        if level16 s \<le> MINIMUM_SKILL_LEVEL
        then (s\<lparr>level16 := MINIMUM_SKILL_LEVEL, tries := 0\<rparr>, 0)
        else skill_down req (n - tries s) (s\<lparr>tries := req (level16 s), level16 := level16 s - 1\<rparr>)
      else (s, n))"
  by pat_completeness auto

termination
proof (relation "measure (\<lambda>(req, n, s). unat (level16 s))", goal_cases)
  case (2 req n s)
  then have "10 < unat (level16 s)" by (simp add: MINIMUM_SKILL_LEVEL_def word_less_nat_alt not_le)
  then show ?case by (simp add: unat_sub word_le_nat_alt)
qed simp

declare skill_down.simps [simp del]

text \<open>\<open>std::max<int32_t>(0, tries - count)\<close>: the difference is cut to 32 bits.\<close>

definition max0_32 :: "u64 \<Rightarrow> u64" where
  "max0_32 n = (let k = ucast n :: u32 in if sint k < 0 then 0 else ucast k)"

definition removeSkillTries :: "(u16 \<Rightarrow> u64) \<Rightarrow> u64 \<Rightarrow> skill \<Rightarrow> skill" where
  "removeSkillTries req n s =
     (let (s, n) = skill_down req n s;
          s = s\<lparr>tries := max0_32 (tries s - n)\<rparr>
      in s\<lparr>percent := getBasisPointLevel (tries s) (req (level16 s))\<rparr>)"

section \<open>Magic\<close>

text \<open>The loop of \<open>addManaSpent\<close>; None in the second component is the return at the highest level.\<close>

partial_function (option) mana_up :: "(u32 \<Rightarrow> u64) \<Rightarrow> u64 \<Rightarrow> u64 \<Rightarrow> u64 \<Rightarrow> player \<Rightarrow> (player \<times> (u64 \<times> u64 \<times> u64) option) option" where
  "mana_up req amount currReqMana nextReqMana p =
     (if manaSpent p + amount \<ge> nextReqMana then
        let amount' = amount - (nextReqMana - manaSpent p);
            p' = p\<lparr>magLevel := magLevel p + 1, manaSpent := 0\<rparr>;
            next' = req (magLevel p' + 1) in
        if nextReqMana \<ge> next' then Some (p', None) else mana_up req amount' nextReqMana next' p'
      else Some (p, Some (amount, currReqMana, nextReqMana)))"

definition addManaSpent :: "bool \<Rightarrow> (u32 \<Rightarrow> u64) \<Rightarrow> (u64 \<Rightarrow> u64) \<Rightarrow> u64 \<Rightarrow> player \<Rightarrow> player option" where
  "addManaSpent notGainMana req event amount p =
     (if notGainMana then Some p
      else
        let currReqMana = req (magLevel p);
            nextReqMana = req (magLevel p + 1) in
        if currReqMana \<ge> nextReqMana then Some p
        else
          let amount = event amount in
          if amount = 0 then Some p
          else do {
            (p', rest) \<leftarrow> mana_up req amount currReqMana nextReqMana p;
            Some (case rest of
                None \<Rightarrow> p'
              | Some (amount, currReqMana, nextReqMana) \<Rightarrow>
                  let p' = p'\<lparr>manaSpent := manaSpent p' + amount\<rparr> in
                  p'\<lparr>magLevelPercent := (if nextReqMana > currReqMana then getBasisPointLevel (manaSpent p') nextReqMana else 0)\<rparr>)
          })"

function mana_down :: "(u32 \<Rightarrow> u64) \<Rightarrow> u64 \<Rightarrow> player \<Rightarrow> player \<times> u64" where
  "mana_down req amount p =
     (if amount > manaSpent p \<and> magLevel p > 0
      then mana_down req (amount - manaSpent p) (p\<lparr>manaSpent := req (magLevel p), magLevel := magLevel p - 1\<rparr>)
      else (p, amount))"
  by pat_completeness auto

termination
proof (relation "measure (\<lambda>(req, n, p). unat (magLevel p))", goal_cases)
  case (2 req n p)
  then have "0 < unat (magLevel p)" by (simp add: word_less_nat_alt)
  then show ?case by (simp add: unat_sub word_le_nat_alt)
qed simp

declare mana_down.simps [simp del]

definition removeManaSpent :: "(u32 \<Rightarrow> u64) \<Rightarrow> u64 \<Rightarrow> player \<Rightarrow> player" where
  "removeManaSpent req amount p =
     (if amount = 0 then p
      else
        let (p1, amount) = mana_down req amount p;
            p1 = p1\<lparr>manaSpent := manaSpent p1 - amount\<rparr>;
            nextReqMana = req (magLevel p1 + 1) in
        p1\<lparr>magLevelPercent := (if nextReqMana > req (magLevel p1) then getBasisPointLevel (manaSpent p1) nextReqMana else 0)\<rparr>)"

section \<open>Death\<close>

text \<open>\<open>deathLosePercent\<close> is the configured percentage, or -1 for the formula.\<close>

definition getLostPercent :: "int \<Rightarrow> bool \<Rightarrow> player \<Rightarrow> rat" where
  "getLostPercent deathLosePercent promoted p =
     (if deathLosePercent \<noteq> - 1 then
        to_double (of_int (max 0 (deathLosePercent - (if promoted then 3 else 0) - int (card (blessings p)))) / 100)
      else
        let lossPercent = (if level p \<ge> 25 then
              let tmpLevel = to_double (of_int (uint (level p)) + to_double (of_int (uint (levelPercent p)) / 100)) in
              to_double (to_double (to_double (to_double (tmpLevel + 50) * 50) *
                to_double (to_double (to_double (tmpLevel * tmpLevel) - to_double (5 * tmpLevel)) + 8)) / as_double (experience p))
            else 10);
            percentReduction = (if promoted then 30 else 0) + rat_of_nat (card (blessings p)) * 8 in
        to_double (to_double (lossPercent * to_double (1 - to_double (percentReduction / 100))) / 100))"

definition part_of :: "rat \<Rightarrow> u64 \<Rightarrow> u64" where
  "part_of share n = word_of_int \<lfloor>to_double (as_double n * share)\<rfloor>"

text \<open>What all the levels up to the present one required.\<close>

definition sum_mana :: "(u32 \<Rightarrow> u64) \<Rightarrow> u32 \<Rightarrow> u64" where
  "sum_mana req l = sum_list (map (\<lambda>i. req (of_nat i)) [1..<Suc (unat l)])"

definition sum_tries :: "(u16 \<Rightarrow> u64) \<Rightarrow> u16 \<Rightarrow> u64" where
  "sum_tries req l = sum_list (map (\<lambda>i. req (of_nat i)) [11..<Suc (unat l)])"

definition lose_skills :: "vocation \<Rightarrow> rat \<Rightarrow> player \<Rightarrow> player" where
  "lose_skills voc loss p =
     p\<lparr>skills := (\<lambda>i. if i \<le> 6
       then removeSkillTries (reqSkillTries voc i) (part_of loss (sum_tries (reqSkillTries voc i) (level16 (skills p i)) + tries (skills p i))) (skills p i)
       else skills p i)\<rparr>"

definition lose_experience :: "vocation \<Rightarrow> u64 \<Rightarrow> player \<Rightarrow> player" where
  "lose_experience voc expLoss p =
     (if expLoss = 0 then p
      else
        let p1 = (if no_vocation voc \<or> level p > 7 then p\<lparr>experience := experience p - expLoss\<rparr> else p);
            p2 = level_down voc p1;
            currLevelExp = getExpForLevel (ucast (level p2));
            nextLevelExp = getExpForLevel (ucast (level p2 + 1)) in
        p2\<lparr>levelPercent := levelPercent_of (experience p2) currLevelExp nextLevelExp\<rparr>)"

text \<open>The losses of a death in which skills are lost. What happens to the conditions is not modelled.\<close>

definition death_losses :: "vocation \<Rightarrow> int \<Rightarrow> bool \<Rightarrow> (u64 \<Rightarrow> u64) \<Rightarrow> bool \<Rightarrow> bool \<Rightarrow> player \<Rightarrow> player" where
  "death_losses voc deathLosePercent promoted event lastHitPlayer blackSkull p =
     (let loss = getLostPercent deathLosePercent promoted p;
          p1 = removeManaSpent (reqMana voc) (part_of loss (sum_mana (reqMana voc) (magLevel p) + manaSpent p)) p;
          p2 = lose_skills voc loss p1;
          p3 = lose_experience voc (event (part_of loss (experience p2))) p2;
          p4 = p3\<lparr>blessings := (if 5 \<in> blessings p3 then (if lastHitPlayer then blessings p3 - {5} else {5}) else {})\<rparr>
      in p4\<lparr>health := (if blackSkull then 40 else healthMax p4), mana := (if blackSkull then 0 else manaMax p4)\<rparr>)"

section \<open>Levels\<close>

text \<open>The experience a level requires, without wrap-around.\<close>

primrec hundreds :: "nat \<Rightarrow> nat" where
  "hundreds 0 = 0"
| "hundreds (Suc n) = hundreds n + Suc (n * (n - 1) div 2)"

definition level_exp :: "nat \<Rightarrow> nat" where
  "level_exp l = 100 * hundreds (l - 1)"

lemma hundreds_closed: "6 * int (hundreds n) = int n * int n * int n - 3 * int n * int n + 8 * int n"
proof (induction n)
  case (Suc n)
  have "even (n * (n - 1))" by (cases n) simp_all
  then have e: "2 * (n * (n - 1) div 2) = n * (n - 1)" by (rule dvd_mult_div_cancel)
  have "6 * int (n * (n - 1) div 2) = 3 * (int n * (int n - 1))"
  proof -
    have "6 * int (n * (n - 1) div 2) = 3 * int (2 * (n * (n - 1) div 2))" by simp
    also have "\<dots> = 3 * int (n * (n - 1))" by (simp only: e)
    also have "\<dots> = 3 * (int n * (int n - 1))" by (cases n) (simp_all add: algebra_simps)
    finally show ?thesis .
  qed
  then show ?case using Suc.IH by (simp add: algebra_simps)
qed simp

lemma hundreds_mono: "m \<le> n \<Longrightarrow> hundreds m \<le> hundreds n"
  by (induction n) (auto simp: le_Suc_eq)

definition max_level :: nat where "max_level = 800000"

lemma hundreds_bound: "n < max_level \<Longrightarrow> 6 * hundreds n < 6 * 92233720368547758"
proof -
  assume "n < max_level"
  then have "hundreds n \<le> hundreds 800000" by (intro hundreds_mono) (simp add: max_level_def)
  moreover have "6 * int (hundreds 800000) = 800000 * 800000 * 800000 - 3 * 800000 * 800000 + 8 * 800000"
    using hundreds_closed [of 800000] by simp
  ultimately show ?thesis by simp
qed

lemma unat_u64: "n < 18446744073709551616 \<Longrightarrow> unat (of_nat n :: u64) = n"
  by (simp add: unsigned_of_nat take_bit_nat_eq_self)

lemma getExpForLevel_nat:
  assumes "n < max_level"
  shows "unat (getExpForLevel (of_nat (Suc n))) = 100 * hundreds n"
proof -
  let ?w = "of_nat (Suc n) :: u64"
  have "((?w - 6) * ?w + 17) * ?w - 12 = of_int (((int (Suc n) - 6) * int (Suc n) + 17) * int (Suc n) - 12)"
    by simp
  also have "((int (Suc n) - 6) * int (Suc n) + 17) * int (Suc n) - 12 = int (6 * hundreds n)"
    using hundreds_closed [of n] by (simp add: algebra_simps)
  finally have w: "((?w - 6) * ?w + 17) * ?w - 12 = of_nat (6 * hundreds n)" by simp
  have b: "hundreds n < 92233720368547758" using hundreds_bound [OF assms] by simp
  have "unat (of_nat (6 * hundreds n) :: u64) = 6 * hundreds n" by (rule unat_u64) (use b in linarith)
  then have "unat (of_nat (6 * hundreds n) div 6 :: u64) = hundreds n" by (simp only: unat_div unat_numeral) simp
  then have "of_nat (unat (of_nat (6 * hundreds n) div 6 :: u64)) = (of_nat (hundreds n) :: u64)" by (rule arg_cong)
  then have d: "(of_nat (6 * hundreds n) div 6 :: u64) = of_nat (hundreds n)" by (simp only: of_nat_unat ucast_id)
  have "getExpForLevel ?w = of_nat (100 * hundreds n)" unfolding getExpForLevel_def w d by simp
  moreover have "unat (of_nat (100 * hundreds n) :: u64) = 100 * hundreds n" by (rule unat_u64) (use b in linarith)
  ultimately show ?thesis by (simp only:)
qed

lemma exp_of_level:
  fixes l :: u32
  assumes "1 \<le> unat l" and "unat l \<le> max_level"
  shows "unat (getExpForLevel (ucast l)) = level_exp (unat l)"
proof -
  have "(ucast l :: u64) = of_nat (Suc (unat l - 1))" using assms(1) by simp
  then show ?thesis using getExpForLevel_nat [of "unat l - 1"] assms by (simp add: level_exp_def)
qed

lemma level_exp_less: "1 \<le> l \<Longrightarrow> l < l' \<Longrightarrow> level_exp l < level_exp l'"
proof -
  assume a: "1 \<le> l" "l < l'"
  have "hundreds (Suc (l - 1)) \<le> hundreds (l' - 1)" by (rule hundreds_mono) (use a in simp)
  then show ?thesis by (simp add: level_exp_def)
qed

lemma level_exp_le_iff: "1 \<le> l \<Longrightarrow> 1 \<le> l' \<Longrightarrow> level_exp l \<le> level_exp l' \<longleftrightarrow> l \<le> l'"
  using level_exp_less [of l l'] level_exp_less [of l' l] by (cases l l' rule: linorder_cases) auto

lemma level_exp_bound: "l \<le> max_level \<Longrightarrow> level_exp l < 2 ^ 63"
  using hundreds_bound [of "l - 1"] by (cases l) (simp_all add: level_exp_def max_level_def)

section \<open>Experience and levels agree\<close>

text \<open>The level is the one that the experience is enough for.\<close>

definition level_ok :: "player \<Rightarrow> bool" where
  "level_ok p \<longleftrightarrow> 1 \<le> unat (level p) \<and> unat (level p) < max_level \<and>
     level_exp (unat (level p)) \<le> unat (experience p) \<and> unat (experience p) < level_exp (Suc (unat (level p)))"

lemma level_ok_unique: "level_ok p \<Longrightarrow> level_ok q \<Longrightarrow> experience p = experience q \<Longrightarrow> level p = level q"
proof (rule ccontr)
  assume a: "level_ok p" "level_ok q" "experience p = experience q" "level p \<noteq> level q"
  then have "unat (level p) < unat (level q) \<or> unat (level q) < unat (level p)" by (metis linorder_neqE_nat unsigned_word_eqI)
  then have "Suc (unat (level p)) \<le> unat (level q) \<or> Suc (unat (level q)) \<le> unat (level p)" by linarith
  then have "level_exp (Suc (unat (level p))) \<le> level_exp (unat (level q)) \<or> level_exp (Suc (unat (level q))) \<le> level_exp (unat (level p))"
    using a(1,2) level_exp_le_iff by (auto simp: level_ok_def)
  then show False using a(1-3) by (auto simp: level_ok_def)
qed

lemma unat_Suc_level: "unat (l :: u32) < max_level \<Longrightarrow> unat (l + 1) = Suc (unat l)"
  by (simp add: max_level_def unat_word_ariths)

lemma unat_level_minus: "1 < (l :: u32) \<Longrightarrow> unat (l - 1) = unat l - 1 \<and> 1 \<le> unat (l - 1)"
  by (simp add: unat_sub word_less_nat_alt word_le_nat_alt)

lemma gain_levels [simp]:
  "experience ((gain_level voc ^^ n) p) = experience p" "level ((gain_level voc ^^ n) p) = level p + of_nat n"
  "healthMax ((gain_level voc ^^ n) p) = healthMax p + of_nat n * gainHP voc"
  "manaMax ((gain_level voc ^^ n) p) = manaMax p + of_nat n * gainMana voc"
  "capacity ((gain_level voc ^^ n) p) = capacity p + of_nat n * gainCap voc"
  by (induction n) (simp_all add: gain_level_def algebra_simps)

lemma lose_levels [simp]: "experience ((lose_level voc ^^ n) p) = experience p" "level ((lose_level voc ^^ n) p) = level p - of_nat n"
  by (induction n) (simp_all add: lose_level_def algebra_simps)

lemma level_up_ok:
  assumes "1 \<le> unat (level p)" and "unat (level p) < max_level" and "level_exp (unat (level p)) \<le> unat (experience p)"
    and "unat (experience p) < level_exp max_level"
  shows "\<exists>n. level_up voc (getExpForLevel (ucast (level p))) (getExpForLevel (ucast (level p + 1))) p =
      Some ((gain_level voc ^^ n) p, getExpForLevel (ucast (level p + of_nat n)), getExpForLevel (ucast (level p + of_nat n + 1))) \<and>
    level_ok ((gain_level voc ^^ n) p) \<and> unat (level p) + n < max_level"
  using assms
proof (induction "max_level - unat (level p)" arbitrary: p rule: less_induct)
  case less
  let ?l = "unat (level p)"
  have s: "unat (level p + 1) = Suc ?l" by (rule unat_Suc_level) (rule less.prems(2))
  have nx: "unat (getExpForLevel (ucast (level p + 1))) = level_exp (Suc ?l)"
    using exp_of_level [of "level p + 1"] less.prems(2) s by simp
  show ?case
  proof (cases "experience p \<ge> getExpForLevel (ucast (level p + 1))")
    case False
    then have "unat (experience p) < level_exp (Suc ?l)" using nx by (simp add: word_less_nat_alt not_le)
    then have "level_ok p" using less.prems by (simp add: level_ok_def)
    then show ?thesis using False less.prems(2) by (intro exI [of _ 0]) (subst level_up.simps, simp)
  next
    case True
    then have ge: "level_exp (Suc ?l) \<le> unat (experience p)" using nx by (simp add: word_le_nat_alt)
    then have "level_exp (Suc ?l) < level_exp max_level" using less.prems(4) by simp
    then have lt: "Suc ?l < max_level"
      using level_exp_le_iff [of max_level "Suc ?l"] less.prems(2) by (simp add: max_level_def not_le [symmetric])
    have ss: "unat (level p + 1 + 1) = Suc (Suc ?l)" using unat_Suc_level [of "level p + 1"] s lt by simp
    have "unat (getExpForLevel (ucast (level p + 1 + 1))) = level_exp (Suc (Suc ?l))"
      using exp_of_level [of "level p + 1 + 1"] ss lt by simp
    then have more: "\<not> getExpForLevel (ucast (level p + 1 + 1)) \<le> getExpForLevel (ucast (level p + 1))"
      using nx level_exp_less [of "Suc ?l" "Suc (Suc ?l)"] by (simp add: word_le_nat_alt)
    let ?p = "gain_level voc p"
    have g: "level ?p = level p + 1" "experience ?p = experience p" by (simp_all add: gain_level_def)
    obtain n where n: "level_up voc (getExpForLevel (ucast (level ?p))) (getExpForLevel (ucast (level ?p + 1))) ?p =
        Some ((gain_level voc ^^ n) ?p, getExpForLevel (ucast (level ?p + of_nat n)), getExpForLevel (ucast (level ?p + of_nat n + 1)))"
      "level_ok ((gain_level voc ^^ n) ?p)" "unat (level ?p) + n < max_level"
    proof -
      have "max_level - unat (level ?p) < max_level - ?l" "1 \<le> unat (level ?p)" "unat (level ?p) < max_level"
        "level_exp (unat (level ?p)) \<le> unat (experience ?p)" "unat (experience ?p) < level_exp max_level"
        using g s lt ge less.prems by simp_all
      from less.hyps [OF this] show thesis using that by blast
    qed
    have o: "level p + of_nat (Suc n) = level p + 1 + of_nat n" by simp
    have "level_up voc (getExpForLevel (ucast (level p))) (getExpForLevel (ucast (level p + 1))) p =
        level_up voc (getExpForLevel (ucast (level p + 1))) (getExpForLevel (ucast (level p + 1 + 1))) ?p"
      by (subst level_up.simps) (simp only: Let_def g if_P [OF True] if_not_P [OF more])
    then have "level_up voc (getExpForLevel (ucast (level p))) (getExpForLevel (ucast (level p + 1))) p =
        Some ((gain_level voc ^^ Suc n) p, getExpForLevel (ucast (level p + of_nat (Suc n))), getExpForLevel (ucast (level p + of_nat (Suc n) + 1)))"
      using n(1) unfolding o g(1) funpow_Suc_right o_apply by (rule trans)
    moreover have "level_ok ((gain_level voc ^^ Suc n) p)" using n(2) by (simp only: funpow_Suc_right o_apply)
    moreover have "?l + Suc n < max_level" using n(3) unfolding g(1) s by simp
    ultimately show ?thesis by blast
  qed
qed

lemma level_down_ok:
  assumes "1 \<le> unat (level p)" and "unat (level p) < max_level" and "unat (experience p) < level_exp (Suc (unat (level p)))"
  shows "\<exists>n. level_down voc p = (lose_level voc ^^ n) p \<and> level_ok ((lose_level voc ^^ n) p) \<and> n < unat (level p)"
  using assms
proof (induction voc p rule: level_down.induct)
  case (1 voc p)
  have e: "unat (getExpForLevel (ucast (level p))) = level_exp (unat (level p))"
    using exp_of_level [of "level p"] "1.prems" by simp
  show ?case
  proof (cases "level p > 1 \<and> experience p < getExpForLevel (ucast (level p))")
    case True
    have m: "unat (level p - 1) = unat (level p) - 1" "1 \<le> unat (level p - 1)" using unat_level_minus [of "level p"] True by blast+
    have g: "level (lose_level voc p) = level p - 1" "experience (lose_level voc p) = experience p" by (simp_all add: lose_level_def)
    have "unat (experience p) < level_exp (unat (level p))" using True e by (simp add: word_less_nat_alt)
    then have "1 \<le> unat (level (lose_level voc p))" "unat (level (lose_level voc p)) < max_level"
      "unat (experience (lose_level voc p)) < level_exp (Suc (unat (level (lose_level voc p))))"
      using g m "1.prems" by (simp_all add: less_imp_diff_less)
    from "1.IH" [OF True this] obtain n where n: "level_down voc (lose_level voc p) = (lose_level voc ^^ n) (lose_level voc p)"
        "level_ok ((lose_level voc ^^ n) (lose_level voc p))" "n < unat (level (lose_level voc p))"
      by blast
    then show ?thesis using True g m
      by (intro exI [of _ "Suc n"], subst level_down.simps) (simp add: funpow_swap1)
  next
    case False
    have "level_exp (unat (level p)) \<le> unat (experience p)"
    proof (cases "level p > 1")
      case True
      then show ?thesis using False e by (simp add: word_less_nat_alt)
    next
      case f: False
      then have "unat (level p) = 1" using "1.prems"(1) by (simp add: word_less_nat_alt)
      then show ?thesis by (simp add: level_exp_def)
    qed
    then have "level_ok p" using "1.prems" by (simp add: level_ok_def)
    then show ?thesis using False "1.prems"(1) by (intro exI [of _ 0], subst level_down.simps) auto
  qed
qed

lemma level_ok_cong:
  "level p = level q \<Longrightarrow> experience p = experience q \<Longrightarrow> level_ok p \<longleftrightarrow> level_ok q"
  by (simp add: level_ok_def)

lemma level_ok_open:
  assumes "level_ok p"
  shows "\<not> getExpForLevel (ucast (level p + 1)) \<le> getExpForLevel (ucast (level p))"
proof -
  have l: "1 \<le> unat (level p)" "unat (level p) < max_level" using assms by (simp_all add: level_ok_def)
  have s: "unat (level p + 1) = Suc (unat (level p))" by (rule unat_Suc_level) (rule l(2))
  have "unat (getExpForLevel (ucast (level p))) = level_exp (unat (level p))"
    "unat (getExpForLevel (ucast (level p + 1))) = level_exp (Suc (unat (level p)))"
    using exp_of_level [of "level p"] exp_of_level [of "level p + 1"] l s by simp_all
  then show ?thesis using level_exp_less [of "unat (level p)" "Suc (unat (level p))"] l by (simp add: word_le_nat_alt)
qed

lemma refill_simps [simp]:
  "experience (refill p) = experience p" "level (refill p) = level p" "healthMax (refill p) = healthMax p"
  "manaMax (refill p) = manaMax p" "capacity (refill p) = capacity p"
  by (simp_all add: refill_def)

text \<open>What current values a player has after a change: the old ones on the same level, otherwise all that there can be.\<close>

definition refilled_from :: "player \<Rightarrow> player \<Rightarrow> bool" where
  "refilled_from p q \<longleftrightarrow> varMaxHealth q = varMaxHealth p \<and> varMaxMana q = varMaxMana p \<and>
     (if level q = level p then health q = health p \<and> mana q = mana p else health q = getMaxHealth q \<and> mana q = getMaxMana q)"

lemma kept_by_levels [simp]:
  "varMaxHealth ((gain_level voc ^^ n) p) = varMaxHealth p" "varMaxMana ((gain_level voc ^^ n) p) = varMaxMana p"
  "health ((lose_level voc ^^ n) p) = health p" "mana ((lose_level voc ^^ n) p) = mana p"
  "varMaxHealth ((lose_level voc ^^ n) p) = varMaxHealth p" "varMaxMana ((lose_level voc ^^ n) p) = varMaxMana p"
  by (induction n arbitrary: p) (simp_all add: gain_level_def lose_level_def)

lemma addExperience_gains:
  assumes ok: "level_ok p" and room: "unat (experience p) + unat (event e) < level_exp max_level"
  shows "\<exists>n p'. addExperience voc event e p = Some p' \<and> level_ok p' \<and> experience p' = experience p + event e \<and>
     unat (level p') = unat (level p) + n \<and> healthMax p' = healthMax p + of_nat n * gainHP voc \<and>
     manaMax p' = manaMax p + of_nat n * gainMana voc \<and> capacity p' = capacity p + of_nat n * gainCap voc \<and> refilled_from p p'"
proof (cases "event e = 0")
  case True
  then have "addExperience voc event e p = Some p" using level_ok_open [OF ok] by (simp add: addExperience_def Let_def)
  then show ?thesis using ok True by (intro exI [of _ 0] exI [of _ p]) (simp add: refilled_from_def)
next
  case False
  let ?p = "p\<lparr>experience := experience p + event e\<rparr>"
  have b: "unat (experience p) + unat (event e) < 2 ^ 64" using room level_exp_bound [of max_level] by simp
  then have u: "unat (experience p + event e) = unat (experience p) + unat (event e)" by (simp add: unat_word_ariths)
  have l: "1 \<le> unat (level ?p)" "unat (level ?p) < max_level" "level_exp (unat (level ?p)) \<le> unat (experience ?p)"
    "unat (experience ?p) < level_exp max_level"
    using ok room u by (simp_all add: level_ok_def)
  from level_up_ok [OF this, of voc] obtain n where n:
    "level_up voc (getExpForLevel (ucast (level p))) (getExpForLevel (ucast (level p + 1))) ?p =
      Some ((gain_level voc ^^ n) ?p, getExpForLevel (ucast (level p + of_nat n)), getExpForLevel (ucast (level p + of_nat n + 1)))"
    "level_ok ((gain_level voc ^^ n) ?p)" "unat (level p) + n < max_level"
    by auto
  let ?q = "(gain_level voc ^^ n) ?p"
  let ?r = "if level p \<noteq> level ?q then refill ?q else ?q"
  let ?p' = "?r\<lparr>levelPercent := levelPercent_of (experience ?r) (getExpForLevel (ucast (level p + of_nat n))) (getExpForLevel (ucast (level p + of_nat n + 1)))\<rparr>"
  have a: "addExperience voc event e p = Some ?p'"
    unfolding addExperience_def Let_def using level_ok_open [OF ok] False n(1) by simp
  have f: "experience ?p' = experience p + event e" "level ?p' = level p + of_nat n" "healthMax ?p' = healthMax p + of_nat n * gainHP voc"
    "manaMax ?p' = manaMax p + of_nat n * gainMana voc" "capacity ?p' = capacity p + of_nat n * gainCap voc"
    by simp_all
  have "unat (level p + of_nat n) = unat (level p) + n"
    using n(3) by (simp add: unat_word_ariths unsigned_of_nat take_bit_nat_eq_self max_level_def)
  moreover have "level_ok ?p'" by (rule level_ok_cong [THEN iffD1, OF _ _ n(2)]) (simp_all)
  moreover from calculation have "level p + of_nat n = level p \<Longrightarrow> n = 0" by simp
  then have "refilled_from p ?p'" by (cases "n = 0") (auto simp: refilled_from_def refill_def getMaxHealth_def getMaxMana_def)
  ultimately show ?thesis using a f by metis
qed

lemma odd_half: "0 \<le> (u :: int) \<Longrightarrow> u < 2 * m \<Longrightarrow> odd (u div m) \<longleftrightarrow> m \<le> u"
proof (cases "m \<le> u")
  case True
  assume "0 \<le> u" "u < 2 * m"
  then have "u div m = 1" using True by (intro int_div_pos_eq [of _ _ _ "u - m"]) simp_all
  then show ?thesis using True by simp
qed (simp add: div_pos_pos_trivial)

lemma sint_neg_u64: "sint (w :: u64) < 0 \<longleftrightarrow> 2 ^ 63 \<le> unat w"
proof -
  have "sint w < 0 \<longleftrightarrow> odd (uint w div 9223372036854775808)" by (simp add: sint_uint bit_iff_odd)
  also have "\<dots> \<longleftrightarrow> 9223372036854775808 \<le> uint w"
    by (rule odd_half) (use uint_bounded [of w] in simp_all)
  finally have "sint w < 0 \<longleftrightarrow> 9223372036854775808 \<le> uint w" .
  moreover have "uint w = int (unat w)" by simp
  ultimately have "sint w < 0 \<longleftrightarrow> 9223372036854775808 \<le> unat w" by linarith
  then show ?thesis by simp
qed

lemma max0_64_diff:
  assumes "unat (a :: u64) < 2 ^ 63" and "unat b \<le> 2 ^ 63"
  shows "unat (max0_64 (a - b)) = unat a - unat b"
proof (cases "b \<le> a")
  case True
  then have u: "unat (a - b) = unat a - unat b" by (simp add: unat_sub)
  then have "\<not> sint (a - b) < 0" unfolding sint_neg_u64 using assms by simp
  then show ?thesis using u by (simp add: max0_64_def)
next
  case False
  then have lt: "unat a < unat b" by (simp add: word_less_nat_alt not_le)
  have b: "unat b - unat a \<le> 2 ^ 63" "0 < unat b - unat a" using assms lt by simp_all
  have "a - b = of_nat (2 ^ 64 - (unat b - unat a))" using b lt by (simp add: of_nat_diff)
  then have "unat (a - b) = 2 ^ 64 - (unat b - unat a)"
    using b by (simp only: ) (rule unat_u64, simp)
  then have "2 ^ 63 \<le> unat (a - b)" using b by simp
  then show ?thesis using lt by (simp add: max0_64_def sint_neg_u64)
qed

definition shrink :: "u32 \<Rightarrow> u32 \<Rightarrow> u32" where "shrink g h = max0 (h - g)"

lemma lose_levels_stats [simp]:
  "healthMax ((lose_level voc ^^ n) p) = (shrink (gainHP voc) ^^ n) (healthMax p)"
  "manaMax ((lose_level voc ^^ n) p) = (shrink (gainMana voc) ^^ n) (manaMax p)"
  "capacity ((lose_level voc ^^ n) p) = (shrink (gainCap voc) ^^ n) (capacity p)"
  by (induction n) (simp_all add: lose_level_def shrink_def)

lemma sint_pos_u32: "unat (w :: u32) < 2 ^ 31 \<Longrightarrow> \<not> sint w < 0"
proof -
  assume a: "unat (w :: u32) < 2 ^ 31"
  have "sint w < 0 \<longleftrightarrow> odd (uint w div 2147483648)" by (simp add: sint_uint bit_iff_odd)
  also have "\<dots> \<longleftrightarrow> 2147483648 \<le> uint w"
    by (rule odd_half) (use uint_bounded [of w] in simp_all)
  finally have "sint w < 0 \<longleftrightarrow> 2147483648 \<le> uint w" .
  moreover have "uint w = int (unat w)" "unat w < 2147483648" using a by simp_all
  ultimately show ?thesis by linarith
qed

lemma unat_u32: "n < 4294967296 \<Longrightarrow> unat (of_nat n :: u32) = n"
  by (simp add: unsigned_of_nat take_bit_nat_eq_self)

lemma shrink_undoes:
  assumes "unat h + n * unat g < 2 ^ 31"
  shows "(shrink g ^^ n) (h + of_nat n * g) = h"
  using assms
proof (induction n)
  case (Suc n)
  have "h + of_nat n * g = of_nat (unat h + n * unat g)" by simp
  then have "unat (h + of_nat n * g) = unat h + n * unat g"
    using Suc.prems by (simp only:) (rule unat_u32, simp)
  then have "\<not> sint (h + of_nat n * g) < 0" using Suc.prems by (intro sint_pos_u32) simp
  then have "shrink g (h + of_nat (Suc n) * g) = h + of_nat n * g"
    by (simp add: shrink_def max0_def algebra_simps)
  then show ?case using Suc by (simp add: funpow_swap1 del: funpow.simps(2) of_nat_Suc add: funpow_Suc_right)
qed simp

lemma removeExperience_loses:
  assumes ok: "level_ok p" and small: "unat (event e) \<le> 2 ^ 63"
  shows "\<exists>n. let p' = removeExperience voc event e p in level_ok p' \<and>
     unat (experience p') = unat (experience p) - (if e = 0 then 0 else unat (event e)) \<and>
     unat (level p') + n = unat (level p) \<and> healthMax p' = (shrink (gainHP voc) ^^ n) (healthMax p) \<and>
     manaMax p' = (shrink (gainMana voc) ^^ n) (manaMax p) \<and> capacity p' = (shrink (gainCap voc) ^^ n) (capacity p) \<and>
     refilled_from p p'"
proof (cases "experience p = 0 \<or> e = 0 \<or> event e = 0")
  case True
  then have "removeExperience voc event e p = p" by (auto simp: removeExperience_def)
  then show ?thesis using ok True by (intro exI [of _ 0]) (auto simp: Let_def refilled_from_def)
next
  case False
  let ?p = "p\<lparr>experience := max0_64 (experience p - event e)\<rparr>"
  have "unat (experience p) < level_exp (Suc (unat (level p)))" "Suc (unat (level p)) \<le> max_level"
    using ok by (simp_all add: level_ok_def)
  then have "unat (experience p) < 2 ^ 63" using level_exp_bound [of "Suc (unat (level p))"] by linarith
  then have u: "unat (max0_64 (experience p - event e)) = unat (experience p) - unat (event e)"
    using small by (rule max0_64_diff)
  have "1 \<le> unat (level ?p)" "unat (level ?p) < max_level" "unat (experience ?p) < level_exp (Suc (unat (level ?p)))"
    using ok u by (simp_all add: level_ok_def less_imp_diff_less)
  from level_down_ok [OF this, of voc] obtain n where n: "level_down voc ?p = (lose_level voc ^^ n) ?p"
    "level_ok ((lose_level voc ^^ n) ?p)" "n < unat (level p)"
    by auto
  let ?q = "(lose_level voc ^^ n) ?p"
  let ?r = "if level p \<noteq> level ?q then refill ?q else ?q"
  let ?p' = "?r\<lparr>levelPercent := levelPercent_of (experience ?r) (getExpForLevel (ucast (level ?r))) (getExpForLevel (ucast (level ?r + 1)))\<rparr>"
  have r: "removeExperience voc event e p = ?p'"
    unfolding removeExperience_def Let_def n(1) using False by simp
  have nn: "unat (of_nat n :: u32) = n" using n(3) unsigned_less [of "level p", where 'a = nat]
    by (simp add: unsigned_of_nat take_bit_nat_eq_self)
  then have "unat (level p - of_nat n) + n = unat (level p)"
    using n(3) by (simp add: unat_sub word_le_nat_alt)
  moreover have "level_ok ?p'" by (rule level_ok_cong [THEN iffD1, OF _ _ n(2)]) (simp_all)
  moreover have "unat (experience ?p') = unat (experience p) - (if e = 0 then 0 else unat (event e))" using False u by simp
  moreover have "level ?p' = level p - of_nat n" "healthMax ?p' = (shrink (gainHP voc) ^^ n) (healthMax p)"
    "manaMax ?p' = (shrink (gainMana voc) ^^ n) (manaMax p)" "capacity ?p' = (shrink (gainCap voc) ^^ n) (capacity p)"
    by simp_all
  moreover have "refilled_from p ?p'" by (simp add: refilled_from_def refill_def getMaxHealth_def getMaxMana_def)
  ultimately show ?thesis unfolding r Let_def by metis
qed

text \<open>C9: Gaining experience takes a player to the level that the sum is enough for and ends, as long as the sum stays
  under what level 800000 requires; losing experience takes them back to the level of what is left (nothing when the
  loss is greater); the level always is the one whose requirement the experience meets, and never falls below 1.\<close>

theorem level_follows_experience:
  assumes "level_ok p" and "unat (experience p) + unat (event e) < level_exp max_level" and "unat (event' e') \<le> 2 ^ 63"
  shows "(\<exists>p'. addExperience voc event e p = Some p' \<and> level_ok p' \<and> experience p' = experience p + event e) \<and>
    level_ok (removeExperience voc event' e' p) \<and>
    unat (experience (removeExperience voc event' e' p)) = unat (experience p) - (if e' = 0 then 0 else unat (event' e'))"
  using addExperience_gains [of p event e voc] removeExperience_loses [of p event' e' voc] assms
  by (auto simp: Let_def)

text \<open>C21: Experience that is gained and lost again leaves no trace in experience, level, capacity and the most hit points and
  mana points: as long as these values stay in 31 bits, the levels lost take back exactly what the levels gained gave. The
  present hit points and mana points are what they were only when no level was gained on the way; otherwise the player
  ends up with as many as there can be.\<close>

theorem gain_then_loss_restores:
  assumes ok: "level_ok p" and room: "unat (experience p) + unat (event e) < level_exp max_level" and "e \<noteq> 0"
    and gain: "addExperience voc event e p = Some p'"
    and "unat (healthMax p) + (unat (level p') - unat (level p)) * unat (gainHP voc) < 2 ^ 31"
    and "unat (manaMax p) + (unat (level p') - unat (level p)) * unat (gainMana voc) < 2 ^ 31"
    and "unat (capacity p) + (unat (level p') - unat (level p)) * unat (gainCap voc) < 2 ^ 31"
  shows "let q = removeExperience voc event e p' in
    experience q = experience p \<and> level q = level p \<and> healthMax q = healthMax p \<and> manaMax q = manaMax p \<and> capacity q = capacity p \<and>
    (health q, mana q) = (if level p' = level p then (health p, mana p) else (getMaxHealth p, getMaxMana p))"
proof -
  obtain n where n: "level_ok p'" "experience p' = experience p + event e" "unat (level p') = unat (level p) + n"
    "healthMax p' = healthMax p + of_nat n * gainHP voc" "manaMax p' = manaMax p + of_nat n * gainMana voc"
    "capacity p' = capacity p + of_nat n * gainCap voc" "refilled_from p p'"
    using addExperience_gains [where p = p and event = event and e = e and voc = voc, OF ok room] gain by auto
  have b: "unat (experience p) + unat (event e) < 2 ^ 63" using room level_exp_bound [of max_level] by simp
  then have s: "unat (experience p') = unat (experience p) + unat (event e)" by (simp add: n(2) unat_word_ariths)
  have "unat (event e) \<le> 2 ^ 63" using b by simp
  from removeExperience_loses [where p = p' and event = event and e = e and voc = voc, OF n(1) this] obtain m where m:
    "level_ok (removeExperience voc event e p')" "unat (experience (removeExperience voc event e p')) = unat (experience p') - unat (event e)"
    "unat (level (removeExperience voc event e p')) + m = unat (level p')"
    "healthMax (removeExperience voc event e p') = (shrink (gainHP voc) ^^ m) (healthMax p')"
    "manaMax (removeExperience voc event e p') = (shrink (gainMana voc) ^^ m) (manaMax p')"
    "capacity (removeExperience voc event e p') = (shrink (gainCap voc) ^^ m) (capacity p')"
    "refilled_from p' (removeExperience voc event e p')"
    using assms(3) by (auto simp: Let_def)
  have x: "experience (removeExperience voc event e p') = experience p" using m(2) s by (simp add: word_unat_eq_iff)
  then have l: "level (removeExperience voc event e p') = level p" by (rule level_ok_unique [OF m(1) ok])
  then have "m = n" using m(3) n(3) by simp
  then have max: "healthMax (removeExperience voc event e p') = healthMax p" "manaMax (removeExperience voc event e p') = manaMax p"
    "capacity (removeExperience voc event e p') = capacity p"
    using m(4-6) n(3-6) assms(5-) by (simp_all add: shrink_undoes)
  then show ?thesis using x l m(7) n(7) by (auto simp: Let_def refilled_from_def getMaxHealth_def getMaxMana_def)
qed

definition knight :: vocation where
  "knight = \<lparr>gainHP = 15, gainMana = 5, gainCap = 2500, reqSkillTries = (\<lambda>i l. 50 * ucast l), reqMana = (\<lambda>l. 1600 * ucast l),
     no_vocation = False\<rparr>"

definition hero :: player where
  "hero = \<lparr>experience = 4200, level = 8, levelPercent = 0, health = 185, healthMax = 185, mana = 35, manaMax = 35, capacity = 47000,
     manaSpent = 0, magLevel = 0, magLevelPercent = 0, skills = (\<lambda>_. \<lparr>tries = 0, level16 = 10, percent = 0\<rparr>),
     varMaxHealth = 0, varMaxMana = 0, blessings = {}\<rparr>"

lemma level_exp_values: "level_exp 8 = 4200" "level_exp 9 = 6400" "level_exp 10 = 9300" "level_exp 11 = 13000"
  using hundreds_closed [of 7] hundreds_closed [of 8] hundreds_closed [of 9] hundreds_closed [of 10]
  by (simp_all add: level_exp_def)

lemma hero_ok: "level_ok hero"
  by (simp add: level_ok_def hero_def max_level_def level_exp_values)

lemma max_level_room: "10000 < level_exp max_level"
  using level_exp_less [of 11 max_level] by (simp add: max_level_def level_exp_values)

lemma level_follows_experience_witness:
  "(\<exists>p'. addExperience knight id 3000 hero = Some p' \<and> level_ok p' \<and> experience p' = 7200) \<and>
   level_ok (removeExperience knight id 200 hero) \<and> unat (experience (removeExperience knight id 200 hero)) = 4000"
proof -
  have "unat (experience hero) + unat (id 3000 :: u64) < level_exp max_level"
    using max_level_room by (simp add: hero_def)
  from level_follows_experience [where p = hero and event = id and e = 3000 and event' = id and e' = 200 and voc = knight, OF hero_ok this]
  show ?thesis by (simp add: hero_def)
qed

lemma gain_then_loss_restores_witness:
  "\<exists>p'. addExperience knight id 3000 hero = Some p' \<and> level p' = 9 \<and>
    (let q = removeExperience knight id 3000 p' in
     experience q = 4200 \<and> level q = 8 \<and> healthMax q = 185 \<and> manaMax q = 35 \<and> capacity q = 47000 \<and> health q = 185 \<and> mana q = 35)"
proof -
  have r: "unat (experience hero) + unat (id 3000 :: u64) < level_exp max_level"
    using max_level_room by (simp add: hero_def)
  from addExperience_gains [where p = hero and event = id and e = 3000 and voc = knight, OF hero_ok this]
  obtain p' where p: "addExperience knight id 3000 hero = Some p'" "level_ok p'" "experience p' = 7200"
    by (auto simp: hero_def)
  have "level_exp (unat (level p')) \<le> 7200" "7200 < level_exp (Suc (unat (level p')))" "1 \<le> unat (level p')"
    using p(2,3) by (simp_all add: level_ok_def)
  then have "\<not> level_exp 10 \<le> level_exp (unat (level p'))" "\<not> level_exp (Suc (unat (level p'))) \<le> level_exp 9" "1 \<le> unat (level p')"
    by (simp_all add: level_exp_values)
  then have u: "unat (level p') = 9" using level_exp_le_iff [of 10 "unat (level p')"] level_exp_le_iff [of "Suc (unat (level p'))" 9]
    by linarith
  then have l: "level p' = 9" by (simp add: word_unat_eq_iff)
  have "(3000 :: u64) \<noteq> 0" by simp
  from gain_then_loss_restores [where p = hero and event = id and e = 3000 and voc = knight, OF hero_ok r this p(1)]
  show ?thesis using p(1) l u by (simp add: Let_def hero_def knight_def getMaxHealth_def getMaxMana_def max0_def)
qed

section \<open>Skill points\<close>

text \<open>All the tries a skill stands for: those of the levels above the lowest and those of the present one.\<close>

primrec tries_for :: "(u16 \<Rightarrow> u64) \<Rightarrow> nat \<Rightarrow> nat" where
  "tries_for req 0 = 0"
| "tries_for req (Suc k) = tries_for req k + unat (req (of_nat (11 + k)))"

definition skill_points :: "(u16 \<Rightarrow> u64) \<Rightarrow> skill \<Rightarrow> nat" where
  "skill_points req s = tries_for req (unat (level16 s) - 10) + unat (tries s)"

text \<open>Each level up to \<open>most\<close> takes more tries than the one before, and none takes more than 31 bits.\<close>

definition growing :: "(u16 \<Rightarrow> u64) \<Rightarrow> nat \<Rightarrow> bool" where
  "growing req most \<longleftrightarrow> most < 65536 \<and> unat (req (of_nat most)) < 2 ^ 31 \<and>
     (\<forall>i\<in>{10..<most}. unat (req (of_nat i)) < unat (req (of_nat (Suc i))))"

definition skill_ok :: "(u16 \<Rightarrow> u64) \<Rightarrow> nat \<Rightarrow> skill \<Rightarrow> bool" where
  "skill_ok req most s \<longleftrightarrow> 10 \<le> unat (level16 s) \<and> unat (level16 s) < most \<and>
     unat (tries s) < unat (req (level16 s + 1))"

lemma growing_mono: "growing req most \<Longrightarrow> 10 \<le> i \<Longrightarrow> i \<le> j \<Longrightarrow> j \<le> most \<Longrightarrow> unat (req (of_nat i)) \<le> unat (req (of_nat j))"
proof (induction j)
  case (Suc j)
  show ?case
  proof (cases "i = Suc j")
    case False
    then have "i \<le> j" "j \<le> most" "j \<in> {10..<most}" using Suc.prems by simp_all
    moreover have "unat (req (of_nat j)) < unat (req (of_nat (Suc j)))"
      using Suc.prems(1) \<open>j \<in> _\<close> unfolding growing_def by blast
    ultimately show ?thesis using Suc.IH Suc.prems(1,2) by linarith
  qed simp
qed simp

lemma growing_top: "growing req most \<Longrightarrow> 10 \<le> i \<Longrightarrow> i \<le> most \<Longrightarrow> unat (req (of_nat i)) < 2 ^ 31"
  using growing_mono [of req most i most] unfolding growing_def by linarith

lemma unat_Suc16: "unat (l :: u16) < most \<Longrightarrow> most < 65536 \<Longrightarrow> unat (l + 1) = Suc (unat l) \<and> l + 1 = of_nat (Suc (unat l))"
  by (simp add: unat_word_ariths)

lemma growing_word:
  assumes "growing req most" and "10 \<le> unat (l :: u16)" and "unat l < most"
  shows "unat (req l) < unat (req (l + 1))" and "unat (req (l + 1)) \<le> unat (req (of_nat most))"
    and "unat (l + 1) = Suc (unat l)"
proof -
  have t: "most < 65536" using assms(1) by (simp add: growing_def)
  have s: "unat (l + 1) = Suc (unat l)" "l + 1 = of_nat (Suc (unat l))" using unat_Suc16 [OF assms(3) t] by blast+
  have "unat (req (of_nat (unat l))) < unat (req (of_nat (Suc (unat l))))"
    using assms unfolding growing_def by (meson atLeastLessThan_iff)
  then show "unat (req l) < unat (req (l + 1))" unfolding s(2) by simp
  show "unat (req (l + 1)) \<le> unat (req (of_nat most))" unfolding s(2)
    by (rule growing_mono [OF assms(1)]) (use assms in simp_all)
  show "unat (l + 1) = Suc (unat l)" by (rule s(1))
qed

lemma tries_for_step:
  assumes "10 \<le> unat (l :: u16)" and "unat (l + 1) = Suc (unat l)"
  shows "tries_for req (unat (l + 1) - 10) = tries_for req (unat l - 10) + unat (req (l + 1))"
proof -
  have "unat (l + 1) - 10 = Suc (unat l - 10)" using assms by simp
  moreover have "(of_nat (11 + (unat l - 10)) :: u16) = l + 1"
  proof -
    have "11 + (unat l - 10) = Suc (unat l)" using assms(1) by simp
    then show ?thesis by simp
  qed
  ultimately show ?thesis by (simp only: tries_for.simps)
qed

lemma skill_up_ok:
  assumes "growing req most" and "10 \<le> unat (level16 s)" and "unat (level16 s) < most"
    and "unat (tries s) + unat n < unat (req (of_nat most))" and "unat (tries s) < unat (req (level16 s + 1))"
  shows "\<exists>s' n'. skill_up req n (req (level16 s)) (req (level16 s + 1)) s = Some (s', n', req (level16 s'), req (level16 s' + 1)) \<and>
    unat (level16 s) \<le> unat (level16 s') \<and> unat (level16 s') < most \<and> unat (tries s') + unat n' < unat (req (level16 s' + 1)) \<and>
    skill_points req s' + unat n' = skill_points req s + unat n"
  using assms(2-)
proof (induction "most - unat (level16 s)" arbitrary: s n rule: less_induct)
  case less
  let ?l = "level16 s"
  note g = growing_word [OF assms(1) less.prems(1,2)]
  have most: "unat (req (of_nat most)) < 2 ^ 31" using assms(1) by (simp add: growing_def)
  have sum: "unat (tries s + n) = unat (tries s) + unat n" using less.prems(3) most by (simp add: unat_word_ariths)
  show ?case
  proof (cases "tries s + n \<ge> req (?l + 1)")
    case False
    then have "unat (tries s) + unat n < unat (req (?l + 1))" using sum by (simp add: word_less_nat_alt not_le)
    then show ?thesis using False less.prems(2)
      by (intro exI [of _ s] exI [of _ n]) (subst skill_up.simps, simp)
  next
    case True
    let ?s = "\<lparr>tries = 0, level16 = ?l + 1, percent = 0\<rparr>"
    let ?n = "n - (req (?l + 1) - tries s)"
    have ge: "unat (req (?l + 1)) \<le> unat (tries s) + unat n" using True sum by (simp add: word_le_nat_alt)
    have lt: "Suc (unat ?l) < most"
    proof (rule ccontr)
      assume "\<not> Suc (unat ?l) < most"
      then have "most = Suc (unat ?l)" using less.prems(2) by simp
      then have "req (of_nat most) = req (?l + 1)" by (simp add: add.commute)
      then show False using ge less.prems(3) by simp
    qed
    have d: "unat (req (?l + 1) - tries s) = unat (req (?l + 1)) - unat (tries s)"
      using less.prems(4) by (simp add: unat_sub word_le_nat_alt)
    then have n: "unat ?n = unat n - (unat (req (?l + 1)) - unat (tries s))"
      using ge by (simp add: unat_sub word_le_nat_alt)
    have p1: "10 \<le> unat (level16 ?s)" "unat (level16 ?s) < most" using g(3) lt less.prems(1) by simp_all
    note g' = growing_word [OF assms(1) p1]
    have more: "\<not> req (?l + 1 + 1) \<le> req (?l + 1)" using g'(1) by (simp add: word_le_nat_alt)
    have "most - unat (level16 ?s) < most - unat ?l" using g(3) less.prems(2) by simp
    moreover have "unat (tries ?s) + unat ?n < unat (req (of_nat most))" using n less.prems(3) by simp
    moreover have "unat (tries ?s) < unat (req (level16 ?s + 1))" using g'(1) by simp
    ultimately obtain s' n' where r: "skill_up req ?n (req (level16 ?s)) (req (level16 ?s + 1)) ?s = Some (s', n', req (level16 s'), req (level16 s' + 1))"
      "unat (level16 ?s) \<le> unat (level16 s')" "unat (level16 s') < most" "unat (tries s') + unat n' < unat (req (level16 s' + 1))"
      "skill_points req s' + unat n' = skill_points req ?s + unat ?n"
      using less.hyps [OF _ p1] by blast
    have "skill_up req n (req ?l) (req (?l + 1)) s = skill_up req ?n (req (?l + 1)) (req (?l + 1 + 1)) ?s"
      by (subst skill_up.simps) (simp only: Let_def skill.simps if_P [OF True] if_not_P [OF more])
    then have "skill_up req n (req ?l) (req (?l + 1)) s = Some (s', n', req (level16 s'), req (level16 s' + 1))"
      using r(1) by simp
    moreover have "skill_points req s' + unat n' = skill_points req s + unat n"
      using r(5) n ge less.prems(4) tries_for_step [OF less.prems(1) g(3), of req] by (simp add: skill_points_def)
    moreover have "unat ?l \<le> unat (level16 s')" using r(2) g(3) by simp
    ultimately show ?thesis using r(3,4) by blast
  qed
qed

lemma skill_down_ok:
  assumes "growing req most" and "10 \<le> unat (level16 s)" and "unat (level16 s) < most"
    and "unat (tries s) - unat n < unat (req (level16 s + 1))" and "unat (tries s) \<le> unat (req (level16 s + 1))"
  shows "\<exists>s' n'. skill_down req n s = (s', n') \<and> 10 \<le> unat (level16 s') \<and> unat (level16 s') < most \<and>
    unat (tries s') - unat n' < unat (req (level16 s' + 1)) \<and> unat (tries s') \<le> unat (req (level16 s' + 1)) \<and>
    unat n' \<le> unat (tries s') \<and> unat (level16 s') \<le> unat (level16 s) \<and>
    skill_points req s' - unat n' = skill_points req s - unat n"
  using assms
proof (induction req n s rule: skill_down.induct)
  case (1 req n s)
  note g = growing_word [OF "1.prems"(1-3)]
  show ?case
  proof (cases "n > tries s")
    case False
    then have "skill_down req n s = (s, n)" by (simp add: skill_down.simps)
    moreover have "unat n \<le> unat (tries s)" using False by (simp add: word_le_nat_alt not_less)
    ultimately show ?thesis using "1.prems" by (intro exI [of _ s] exI [of _ n]) simp
  next
    case more: True
    then have lt: "unat (tries s) < unat n" by (simp add: word_less_nat_alt)
    show ?thesis
    proof (cases "level16 s \<le> MINIMUM_SKILL_LEVEL")
      case True
      then have l: "unat (level16 s) = 10" "level16 s = 10"
        using "1.prems"(2) by (simp_all add: MINIMUM_SKILL_LEVEL_def word_le_nat_alt word_unat_eq_iff)
      have "skill_down req n s = (s\<lparr>level16 := 10, tries := 0\<rparr>, 0)"
        using more True by (subst skill_down.simps) (simp add: MINIMUM_SKILL_LEVEL_def)
      moreover have "0 < unat (req (10 + 1))" using g(1) unfolding l by linarith
      ultimately show ?thesis using "1.prems"(3) l lt
        by (intro exI [of _ "s\<lparr>level16 := 10, tries := 0\<rparr>"] exI [of _ "0 :: u64"]) (simp add: skill_points_def)
    next
      case False
      then have ten: "10 < unat (level16 s)" by (simp add: MINIMUM_SKILL_LEVEL_def word_le_nat_alt)
      let ?s = "s\<lparr>tries := req (level16 s), level16 := level16 s - 1\<rparr>"
      have m: "unat (level16 s - 1) = unat (level16 s) - 1" using ten by (simp add: unat_sub word_le_nat_alt)
      have l: "10 \<le> unat (level16 s - 1)" "unat (level16 s - 1) < most" using m ten "1.prems"(3) by simp_all
      note h = growing_word [OF "1.prems"(1) l]
      have lv: "level16 s - 1 + 1 = level16 s" by simp
      have n: "unat (n - tries s) = unat n - unat (tries s)" using lt by (simp add: unat_sub word_le_nat_alt)
      have pre: "10 \<le> unat (level16 ?s)" "unat (level16 ?s) < most"
        "unat (tries ?s) - unat (n - tries s) < unat (req (level16 ?s + 1))" "unat (tries ?s) \<le> unat (req (level16 ?s + 1))"
        using l h(1) n lt unfolding lv by simp_all
      have pts: "skill_points req ?s - unat (n - tries s) = skill_points req s - unat n"
        using tries_for_step [OF l(1) h(3), of req] n lt unfolding lv by (simp add: skill_points_def)
      have down: "unat (level16 ?s) \<le> unat (level16 s)" using m by simp
      have run: "skill_down req n s = skill_down req (n - tries s) ?s"
        using more False by (subst skill_down.simps) simp
      show ?thesis using "1.IH" [OF more False "1.prems"(1) pre] unfolding run pts using down le_trans by blast
    qed
  qed
qed

lemma max0_32_small: "unat n < 2 ^ 31 \<Longrightarrow> max0_32 n = n"
proof -
  assume n: "unat n < 2 ^ 31"
  then have u: "unat (ucast n :: u32) = unat n"
    by (simp add: unsigned_ucast_eq unsigned_take_bit_eq take_bit_nat_eq_self)
  then have "\<not> sint (ucast n :: u32) < 0" using n by (intro sint_pos_u32) simp
  moreover have "ucast (ucast n :: u32) = n" using u by (simp add: word_unat_eq_iff unsigned_ucast_eq unsigned_take_bit_eq take_bit_nat_eq_self)
  ultimately show ?thesis by (simp add: max0_32_def Let_def)
qed

lemma removeSkillTries_points:
  assumes "growing req most" and "skill_ok req most s"
  shows "skill_ok req most (removeSkillTries req n s)" and "skill_points req (removeSkillTries req n s) = skill_points req s - unat n"
proof -
  obtain s' n' where r: "skill_down req n s = (s', n')" "10 \<le> unat (level16 s')" "unat (level16 s') < most"
    "unat (tries s') - unat n' < unat (req (level16 s' + 1))" "unat (tries s') \<le> unat (req (level16 s' + 1))"
    "unat n' \<le> unat (tries s')" "skill_points req s' - unat n' = skill_points req s - unat n"
    using skill_down_ok [of req most s n] assms unfolding skill_ok_def by (auto simp: less_imp_diff_less)
  have d: "unat (tries s' - n') = unat (tries s') - unat n'" using r(6) by (simp add: unat_sub word_le_nat_alt)
  have "unat (req (of_nat most)) < 2 ^ 31" using assms(1) by (simp add: growing_def)
  then have "unat (tries s' - n') < 2 ^ 31" using growing_word(2) [OF assms(1) r(2,3)] r(5) d by linarith
  then have m: "max0_32 (tries s' - n') = tries s' - n'" by (rule max0_32_small)
  let ?r = "removeSkillTries req n s"
  have f: "level16 ?r = level16 s'" "tries ?r = tries s' - n'" by (simp_all add: removeSkillTries_def r(1) m Let_def)
  show "skill_ok req most ?r" using r(2-4) d by (simp add: skill_ok_def f)
  show "skill_points req ?r = skill_points req s - unat n" using r(6,7) d by (simp add: skill_points_def f)
qed

lemma addSkillAdvance_points:
  assumes g: "growing req most" and ok: "skill_ok req most s" and room: "unat (tries s) + unat (event n) < unat (req (of_nat most))"
  shows "\<exists>s'. addSkillAdvance req event n s = Some s' \<and> skill_ok req most s' \<and> skill_points req s' = skill_points req s + unat (event n)"
proof -
  have l: "10 \<le> unat (level16 s)" "unat (level16 s) < most" "unat (tries s) < unat (req (level16 s + 1))"
    using ok by (simp_all add: skill_ok_def)
  have opn: "\<not> req (level16 s + 1) \<le> req (level16 s)" using growing_word(1) [OF g l(1,2)] by (simp add: word_le_nat_alt)
  show ?thesis
  proof (cases "event n = 0")
    case True
    then have "addSkillAdvance req event n s = Some s" using opn by (simp add: addSkillAdvance_def Let_def)
    then show ?thesis using ok True by simp
  next
    case False
    obtain s' n' where r: "skill_up req (event n) (req (level16 s)) (req (level16 s + 1)) s = Some (s', n', req (level16 s'), req (level16 s' + 1))"
      "unat (level16 s) \<le> unat (level16 s')" "unat (level16 s') < most" "unat (tries s') + unat n' < unat (req (level16 s' + 1))"
      "skill_points req s' + unat n' = skill_points req s + unat (event n)"
      using skill_up_ok [OF g l(1,2) room l(3)] by blast
    have ten: "10 \<le> unat (level16 s')" using r(2) l(1) by simp
    have "unat (req (of_nat most)) < 2 ^ 31" using g by (simp add: growing_def)
    then have "unat (tries s') + unat n' < 2 ^ 31" using growing_word(2) [OF g ten r(3)] r(4) by linarith
    then have t: "unat (tries s' + n') = unat (tries s') + unat n'" by (simp add: unat_word_ariths)
    obtain q where q: "addSkillAdvance req event n s = Some q" "level16 q = level16 s'" "tries q = tries s' + n'"
    proof -
      show thesis using that opn False r(1) by (simp add: addSkillAdvance_def Let_def split: if_splits)
    qed
    have "skill_ok req most q" using ten r(3,4) t by (simp add: skill_ok_def q)
    moreover have "skill_points req q = skill_points req s + unat (event n)" using r(5) t by (simp add: skill_points_def q)
    ultimately show ?thesis using q(1) by blast
  qed
qed

lemma tries_for_mono: "j \<le> k \<Longrightarrow> tries_for req j \<le> tries_for req k"
  by (induction k) (auto simp: le_Suc_eq)

lemma skill_points_less:
  assumes "growing req most" and "skill_ok req most s" and "skill_ok req most t" and "unat (level16 s) < unat (level16 t)"
  shows "skill_points req s < skill_points req t"
proof -
  have l: "10 \<le> unat (level16 s)" "unat (level16 s) < most" "unat (tries s) < unat (req (level16 s + 1))"
    using assms(2) by (simp_all add: skill_ok_def)
  note g = growing_word [OF assms(1) l(1,2)]
  have "skill_points req s < tries_for req (unat (level16 s + 1) - 10)"
    using tries_for_step [OF l(1) g(3), of req] l(3) by (simp add: skill_points_def)
  also have "\<dots> \<le> tries_for req (unat (level16 t) - 10)" by (rule tries_for_mono) (use assms(4) g(3) in simp)
  finally show ?thesis by (simp add: skill_points_def)
qed

lemma skill_points_unique:
  assumes "growing req most" and "skill_ok req most s" and "skill_ok req most t" and "skill_points req s = skill_points req t"
  shows "level16 s = level16 t \<and> tries s = tries t"
proof -
  have "unat (level16 s) = unat (level16 t)"
    using skill_points_less [OF assms(1-3)] skill_points_less [OF assms(1,3,2)] assms(4) by (cases "unat (level16 s)" "unat (level16 t)" rule: linorder_cases) auto
  then show ?thesis using assms(4) by (simp add: skill_points_def word_unat_eq_iff)
qed

text \<open>C20: Training adds exactly the tries gained to the total of tries that a skill stands for, and a loss takes away
  exactly the tries lost (everything when they are more), whatever number of levels is passed on the way; so a gain that
  is lost again leaves the level and the tries as they were. This needs that each level takes more tries than the one
  before it and that no level in reach takes more than 31 bits.\<close>

theorem skill_points_are_exact:
  assumes "growing req most" and "skill_ok req most s" and "unat (tries s) + unat (event n) < unat (req (of_nat most))"
  shows "\<exists>s'. addSkillAdvance req event n s = Some s' \<and>
    skill_points req s' = skill_points req s + unat (event n) \<and>
    skill_points req (removeSkillTries req m s) = skill_points req s - unat m \<and>
    level16 (removeSkillTries req (event n) s') = level16 s \<and> tries (removeSkillTries req (event n) s') = tries s"
proof -
  obtain s' where s': "addSkillAdvance req event n s = Some s'" "skill_ok req most s'" "skill_points req s' = skill_points req s + unat (event n)"
    using addSkillAdvance_points [OF assms(1,2), of event n] assms(3) by blast
  have "skill_points req (removeSkillTries req (event n) s') = skill_points req s"
    using removeSkillTries_points(2) [OF assms(1) s'(2), of "event n"] s'(3) by simp
  from skill_points_unique [OF assms(1) removeSkillTries_points(1) [OF assms(1) s'(2)] assms(2) this]
  show ?thesis using s'(1,3) removeSkillTries_points(2) [OF assms(1,2), of m] by blast
qed

lemma skill_points_are_exact_witness:
  "\<exists>s'. addSkillAdvance (\<lambda>l. 50 * ucast l) id 2000 \<lparr>tries = 7, level16 = 10, percent = 0\<rparr> = Some s' \<and>
    skill_points (\<lambda>l. 50 * ucast l) s' = 2007 \<and>
    level16 (removeSkillTries (\<lambda>l. 50 * ucast l) 2000 s') = 10 \<and> tries (removeSkillTries (\<lambda>l. 50 * ucast l) 2000 s') = 7"
proof -
  have "growing (\<lambda>l. 50 * ucast l) 100"
    by (simp add: growing_def unat_word_ariths unsigned_ucast_eq unsigned_of_nat take_bit_nat_eq_self)
  moreover have "skill_ok (\<lambda>l. 50 * ucast l) 100 \<lparr>tries = 7, level16 = 10, percent = 0\<rparr>"
    by (simp add: skill_ok_def)
  moreover have "unat (tries \<lparr>tries = 7, level16 = 10, percent = 0\<rparr>) + unat (id 2000 :: u64) < unat (50 * ucast (of_nat 100 :: u16) :: u64)"
    by simp
  ultimately show ?thesis
    using skill_points_are_exact [where req = "\<lambda>l. 50 * ucast l" and most = 100 and s = "\<lparr>tries = 7, level16 = 10, percent = 0\<rparr>" and event = id and n = 2000 and m = 0]
    by (auto simp: skill_points_def)
qed

section \<open>Points of mana\<close>

primrec mana_for :: "(u32 \<Rightarrow> u64) \<Rightarrow> nat \<Rightarrow> nat" where
  "mana_for req 0 = 0"
| "mana_for req (Suc k) = mana_for req k + unat (req (of_nat (Suc k)))"

definition mana_points :: "(u32 \<Rightarrow> u64) \<Rightarrow> player \<Rightarrow> nat" where
  "mana_points req p = mana_for req (unat (magLevel p)) + unat (manaSpent p)"

lemma mana_down_points:
  "\<exists>q n. mana_down req amount p = (q, n) \<and> int (mana_points req q) - int (unat n) = int (mana_points req p) - int (unat amount) \<and>
     (unat n \<le> unat (manaSpent q) \<or> magLevel q = 0)"
proof (induction req amount p rule: mana_down.induct)
  case (1 req amount p)
  show ?case
  proof (cases "amount > manaSpent p \<and> magLevel p > 0")
    case False
    then have "unat amount \<le> unat (manaSpent p) \<or> magLevel p = 0" by (auto simp: word_le_nat_alt word_less_nat_alt word_unat_eq_iff)
    moreover have "mana_down req amount p = (p, amount)" using False by (subst mana_down.simps) (simp only: if_False)
    ultimately show ?thesis by (intro exI [of _ p] exI [of _ amount]) simp
  next
    case True
    let ?p = "p\<lparr>manaSpent := req (magLevel p), magLevel := magLevel p - 1\<rparr>"
    have lt: "unat (manaSpent p) < unat amount" using True by (simp add: word_less_nat_alt)
    then have n: "int (unat (amount - manaSpent p)) = int (unat amount) - int (unat (manaSpent p))"
      by (simp add: unat_sub word_le_nat_alt of_nat_diff)
    have k: "unat (magLevel p) = Suc (unat (magLevel p - 1))"
      using True by (simp add: unat_sub word_less_nat_alt word_le_nat_alt)
    have "mana_for req (unat (magLevel p)) = mana_for req (unat (magLevel p - 1)) + unat (req (of_nat (Suc (unat (magLevel p - 1)))))"
      unfolding k by simp
    then have "mana_for req (unat (magLevel p)) = mana_for req (unat (magLevel p - 1)) + unat (req (magLevel p))"
      unfolding k [symmetric] by simp
    moreover have "mana_points req ?p = mana_for req (unat (magLevel p - 1)) + unat (req (magLevel p))"
      by (simp add: mana_points_def)
    ultimately have pts: "int (mana_points req ?p) - int (unat (amount - manaSpent p)) = int (mana_points req p) - int (unat amount)"
      using n mana_points_def [of req p] by linarith
    have "mana_down req amount p = mana_down req (amount - manaSpent p) ?p" using True by (subst mana_down.simps) simp
    then show ?thesis using "1.IH" [OF True] unfolding pts by simp
  qed
qed

text \<open>C36: A loss of mana spent takes exactly the loss from all that the player spent, over as many magic levels as it
  takes. When the loss is greater than that, magic level 0 is left and there the subtraction wraps around: the
  player has then spent nearly \<open>2\<^sup>6\<^sup>4\<close> points of mana.\<close>

theorem mana_loss_wraps_below_zero:
  "let q = removeManaSpent req amount p in
   if unat amount \<le> mana_points req p then mana_points req q = mana_points req p - unat amount
   else magLevel q = 0 \<and> unat (manaSpent q) = 2 ^ 64 + mana_points req p - unat amount"
proof (cases "amount = 0")
  case True
  then show ?thesis by (simp add: removeManaSpent_def)
next
  case False
  obtain q n where r: "mana_down req amount p = (q, n)"
    "int (mana_points req q) - int (unat n) = int (mana_points req p) - int (unat amount)"
    "unat n \<le> unat (manaSpent q) \<or> magLevel q = 0"
    using mana_down_points by blast
  let ?q = "removeManaSpent req amount p"
  have f: "magLevel ?q = magLevel q" "manaSpent ?q = manaSpent q - n"
    using False r(1) by (simp_all add: removeManaSpent_def Let_def)
  have bound: "unat n < 2 ^ 64" "unat (manaSpent q) < 2 ^ 64" using unsigned_less [of n, where 'a = nat] unsigned_less [of "manaSpent q", where 'a = nat] by simp_all
  show ?thesis
  proof (cases "unat n \<le> unat (manaSpent q)")
    case True
    then have "unat (manaSpent q - n) = unat (manaSpent q) - unat n" by (simp add: unat_sub word_le_nat_alt)
    then have "mana_points req ?q + unat n = mana_points req q" using True by (simp add: mana_points_def f)
    then have "unat amount \<le> mana_points req p" "mana_points req ?q = mana_points req p - unat amount" using r(2) by linarith+
    then show ?thesis by (simp add: Let_def)
  next
    case c: False
    then have z: "magLevel q = 0" using r(3) by blast
    then have p: "mana_points req q = unat (manaSpent q)" by (simp add: mana_points_def)
    have "unat (n - manaSpent q) = unat n - unat (manaSpent q)" using c by (simp add: unat_sub word_le_nat_alt)
    have "manaSpent q - n = of_nat (2 ^ 64 - (unat n - unat (manaSpent q)))" using c bound by (simp add: of_nat_diff)
    then have "unat (manaSpent q - n) = 2 ^ 64 - (unat n - unat (manaSpent q))"
      using c by (simp only:) (rule unat_u64, simp)
    then have "\<not> unat amount \<le> mana_points req p" "unat (manaSpent ?q) = 2 ^ 64 + mana_points req p - unat amount"
      using r(2) p c bound unfolding f by linarith+
    then show ?thesis using z by (simp add: Let_def f)
  qed
qed

end
