(* ===== verification/Spectators.thy ===== *)
theory Spectators
  imports MapTree
begin

text \<open>
  Who sees what happens on the map: \<open>Map::getSpectatorsInternal\<close> and \<open>Map::getSpectators\<close> of
  \<open>src/src/map.cpp\<close>, the lists of creatures in the leaves of the tree, and the caches of spectators that
  the tiles of \<open>tile.cpp\<close> clear. Creatures are numbers; \<open>is_player\<close> says which of them are players.
\<close>

section \<open>Creatures in leaves\<close>

definition addCreature :: "(nat \<Rightarrow> bool) \<Rightarrow> nat \<Rightarrow> 'tile leaf \<Rightarrow> 'tile leaf" where
  "addCreature is_player c lf =
     (let lf1 = lf\<lparr>creature_list := creature_list lf @ [c]\<rparr>
      in if is_player c then lf1\<lparr>player_list := player_list lf1 @ [c]\<rparr> else lf1)"

definition removeCreature :: "(nat \<Rightarrow> bool) \<Rightarrow> nat \<Rightarrow> 'tile leaf \<Rightarrow> 'tile leaf" where
  "removeCreature is_player c lf =
     (let lf1 = lf\<lparr>creature_list := swap_pop c (creature_list lf)\<rparr>
      in if is_player c then lf1\<lparr>player_list := swap_pop c (player_list lf1)\<rparr> else lf1)"

definition getQTNode :: "'tile game_map \<Rightarrow> position \<Rightarrow> nat option" where
  "getQTNode m p = getLeafStatic (root m) (ucast (pos_x p)) (ucast (pos_y p))"

section \<open>The scan\<close>

definition maxViewportX :: int where "maxViewportX = 11"
definition maxViewportY :: int where "maxViewportY = 11"

definition clamp16 :: "int \<Rightarrow> int" where
  "clamp16 v = min 0xFFFF (max 0 v)"

text \<open>The tests on the position of a creature.\<close>

definition sees_from :: "position \<Rightarrow> int \<Rightarrow> int \<Rightarrow> int \<Rightarrow> int \<Rightarrow> int \<Rightarrow> int \<Rightarrow> position \<Rightarrow> bool" where
  "sees_from centerPos minRangeX maxRangeX minRangeY maxRangeY minRangeZ maxRangeZ cpos =
     (let min_y = getY centerPos + minRangeY;
          min_x = getX centerPos + minRangeX;
          max_y = getY centerPos + maxRangeY;
          max_x = getX centerPos + maxRangeX
      in if minRangeZ > getZ cpos \<or> maxRangeZ < getZ cpos then False
         else
           let offsetZ = getOffsetZ centerPos cpos
           in \<not> (min_y + offsetZ > getY cpos \<or> max_y + offsetZ < getY cpos \<or>
                 min_x + offsetZ > getX cpos \<or> max_x + offsetZ < getX cpos))"

definition leaf_list :: "bool \<Rightarrow> 'tile game_map \<Rightarrow> nat \<Rightarrow> nat list" where
  "leaf_list onlyPlayers m l =
     (case leaf_store m l of None \<Rightarrow> [] | Some lf \<Rightarrow> if onlyPlayers then player_list lf else creature_list lf)"

definition east_of :: "'tile game_map \<Rightarrow> nat \<Rightarrow> nat option" where
  "east_of m l = (case leaf_store m l of None \<Rightarrow> None | Some lf \<Rightarrow> leafE lf)"

definition south_of :: "'tile game_map \<Rightarrow> nat \<Rightarrow> nat option" where
  "south_of m l = (case leaf_store m l of None \<Rightarrow> None | Some lf \<Rightarrow> leafS lf)"

text \<open>One row of leaves; \<open>cur\<close> is the leaf at \<open>nx\<close>, if there is one.\<close>

function scan_row :: "'tile game_map \<Rightarrow> (nat \<Rightarrow> nat list) \<Rightarrow> int \<Rightarrow> int \<Rightarrow> int \<Rightarrow> nat option \<Rightarrow> nat list" where
  "scan_row m visit nx endx2 ny cur =
     (if nx \<le> endx2 then
        (case cur of
           Some l \<Rightarrow> visit l @ scan_row m visit (nx + 8) endx2 ny (east_of m l)
         | None \<Rightarrow> scan_row m visit (nx + 8) endx2 ny (getLeafStatic (root m) (word_of_int (nx + 8)) (word_of_int ny)))
      else [])"
  by pat_completeness auto
termination
  by (relation "measure (\<lambda>(m, visit, nx, endx2, ny, e). nat (endx2 + 1 - nx))") auto

function scan :: "'tile game_map \<Rightarrow> (nat \<Rightarrow> nat list) \<Rightarrow> int \<Rightarrow> int \<Rightarrow> int \<Rightarrow> int \<Rightarrow> nat option \<Rightarrow> nat list" where
  "scan m visit startx1 endx2 ny endy2 cur =
     (if ny \<le> endy2 then
        scan_row m visit startx1 endx2 ny cur @
        scan m visit startx1 endx2 (ny + 8) endy2
          (case cur of Some l \<Rightarrow> south_of m l | None \<Rightarrow> getLeafStatic (root m) (word_of_int startx1) (word_of_int (ny + 8)))
      else [])"
  by pat_completeness auto
termination
  by (relation "measure (\<lambda>(m, visit, sx, ex, ny, ey, s). nat (ey + 1 - ny))") auto

declare scan_row.simps [simp del] scan.simps [simp del]

definition getSpectatorsInternal ::
  "'tile game_map \<Rightarrow> (nat \<Rightarrow> position) \<Rightarrow> nat list \<Rightarrow> position \<Rightarrow> int \<Rightarrow> int \<Rightarrow> int \<Rightarrow> int \<Rightarrow> int \<Rightarrow> int \<Rightarrow> bool \<Rightarrow> nat list" where
  "getSpectatorsInternal m cpos spectators centerPos minRangeX maxRangeX minRangeY maxRangeY minRangeZ maxRangeZ onlyPlayers =
     (let min_y = getY centerPos + minRangeY;
          min_x = getX centerPos + minRangeX;
          max_y = getY centerPos + maxRangeY;
          max_x = getX centerPos + maxRangeX;
          minoffset = getZ centerPos - maxRangeZ;
          x1 = clamp16 (min_x + minoffset);
          y1 = clamp16 (min_y + minoffset);
          maxoffset = getZ centerPos - minRangeZ;
          x2 = clamp16 (max_x + maxoffset);
          y2 = clamp16 (max_y + maxoffset);
          startx1 = x1 - x1 mod 8;
          starty1 = y1 - y1 mod 8;
          endx2 = x2 - x2 mod 8;
          endy2 = y2 - y2 mod 8;
          visit = (\<lambda>l. filter (\<lambda>c. sees_from centerPos minRangeX maxRangeX minRangeY maxRangeY minRangeZ maxRangeZ (cpos c)) (leaf_list onlyPlayers m l))
      in spectators @ scan m visit startx1 endx2 starty1 endy2 (getLeafStatic (root m) (word_of_int startx1) (word_of_int starty1)))"

section \<open>Asking for spectators\<close>

definition addSpectators :: "nat list \<Rightarrow> nat list \<Rightarrow> nat list" where
  "addSpectators new vec = fold (\<lambda>s v. if s \<in> set v then v else v @ [s]) new vec"

definition floor_range :: "bool \<Rightarrow> position \<Rightarrow> int \<times> int" where
  "floor_range multifloor centerPos =
     (if multifloor then
        if pos_z centerPos > 7 then (max (getZ centerPos - 2) 0, min (getZ centerPos + 2) 15)
        else if pos_z centerPos = 6 then (0, 8)
        else if pos_z centerPos = 7 then (0, 9)
        else (0, 7)
      else (getZ centerPos, getZ centerPos))"

record 'tile spectator_state =
  game :: "'tile game_map"
  whereabouts :: "nat \<Rightarrow> position"
  spectatorCache :: "position \<rightharpoonup> nat list"
  playersSpectatorCache :: "position \<rightharpoonup> nat list"

definition range_low :: "int \<Rightarrow> int \<Rightarrow> int" where "range_low viewport r = (if r = 0 then - viewport else - r)"
definition range_high :: "int \<Rightarrow> int \<Rightarrow> int" where "range_high viewport r = (if r = 0 then viewport else r)"

text \<open>A request for the whole viewport over several floors is answered from the caches when it can be.\<close>

definition usual_request :: "bool \<Rightarrow> int \<Rightarrow> int \<Rightarrow> int \<Rightarrow> int \<Rightarrow> bool" where
  "usual_request multifloor minRangeX maxRangeX minRangeY maxRangeY \<longleftrightarrow>
     minRangeX = - maxViewportX \<and> maxRangeX = maxViewportX \<and> minRangeY = - maxViewportY \<and> maxRangeY = maxViewportY \<and> multifloor"

definition cached_spectators ::
  "(nat \<Rightarrow> bool) \<Rightarrow> nat list \<Rightarrow> position \<Rightarrow> bool \<Rightarrow> 'tile spectator_state \<Rightarrow> nat list option" where
  "cached_spectators is_player spectators centerPos onlyPlayers s =
     (if onlyPlayers \<and> playersSpectatorCache s centerPos \<noteq> None then
        map_option (\<lambda>v. if spectators \<noteq> [] then addSpectators v spectators else v) (playersSpectatorCache s centerPos)
      else
        map_option (\<lambda>v. if \<not> onlyPlayers then (if spectators \<noteq> [] then addSpectators v spectators else v)
                        else spectators @ filter is_player v) (spectatorCache s centerPos))"

definition getSpectators ::
  "(nat \<Rightarrow> bool) \<Rightarrow> nat list \<Rightarrow> position \<Rightarrow> bool \<Rightarrow> bool \<Rightarrow> int \<Rightarrow> int \<Rightarrow> int \<Rightarrow> int \<Rightarrow> 'tile spectator_state \<Rightarrow> nat list \<times> 'tile spectator_state" where
  "getSpectators is_player spectators centerPos multifloor onlyPlayers rx1 rx2 ry1 ry2 s =
     (if pos_z centerPos \<ge> MAP_MAX_LAYERS then (spectators, s)
      else
        let minRangeX = range_low maxViewportX rx1;
            maxRangeX = range_high maxViewportX rx2;
            minRangeY = range_low maxViewportY ry1;
            maxRangeY = range_high maxViewportY ry2;
            usual = usual_request multifloor minRangeX maxRangeX minRangeY maxRangeY
        in case if usual then cached_spectators is_player spectators centerPos onlyPlayers s else None of
             Some v \<Rightarrow> (v, s)
           | None \<Rightarrow>
               let minRangeZ = fst (floor_range multifloor centerPos);
                   maxRangeZ = snd (floor_range multifloor centerPos);
                   v = getSpectatorsInternal (game s) (whereabouts s) spectators centerPos minRangeX maxRangeX minRangeY maxRangeY minRangeZ maxRangeZ onlyPlayers
               in (v, if \<not> usual then s
                      else if onlyPlayers then s\<lparr>playersSpectatorCache := (playersSpectatorCache s)(centerPos \<mapsto> v)\<rparr>
                      else s\<lparr>spectatorCache := (spectatorCache s)(centerPos \<mapsto> v)\<rparr>))"

text \<open>What \<open>Tile::addThing\<close>, \<open>Tile::internalAddThing\<close> and \<open>Tile::removeThing\<close> do to the caches for a creature.\<close>

definition clear_caches :: "(nat \<Rightarrow> bool) \<Rightarrow> nat \<Rightarrow> 'tile spectator_state \<Rightarrow> 'tile spectator_state" where
  "clear_caches is_player c s =
     (let s1 = s\<lparr>spectatorCache := Map.empty\<rparr> in if is_player c then s1\<lparr>playersSpectatorCache := Map.empty\<rparr> else s1)"

definition on_leaf :: "nat option \<Rightarrow> ('tile leaf \<Rightarrow> 'tile leaf) \<Rightarrow> 'tile spectator_state \<Rightarrow> 'tile spectator_state" where
  "on_leaf l f s = s\<lparr>game := (game s)\<lparr>leaf_store := change_leaf l f (leaf_store (game s))\<rparr>\<rparr>"

text \<open>Placing a creature at its destination, moving it, and taking it off the map.\<close>

definition place_creature :: "(nat \<Rightarrow> bool) \<Rightarrow> nat \<Rightarrow> position \<Rightarrow> 'tile spectator_state \<Rightarrow> 'tile spectator_state" where
  "place_creature is_player c dest s =
     (let s1 = clear_caches is_player c (s\<lparr>whereabouts := (whereabouts s)(c := dest)\<rparr>)
      in on_leaf (getQTNode (game s1) dest) (addCreature is_player c) s1)"

definition move_creature :: "(nat \<Rightarrow> bool) \<Rightarrow> nat \<Rightarrow> position \<Rightarrow> 'tile spectator_state \<Rightarrow> 'tile spectator_state" where
  "move_creature is_player c newPos s =
     (let oldPos = whereabouts s c;
          s1 = clear_caches is_player c s;
          leaf = getQTNode (game s1) oldPos;
          new_leaf = getQTNode (game s1) newPos;
          s2 = (if leaf \<noteq> new_leaf then on_leaf new_leaf (addCreature is_player c) (on_leaf leaf (removeCreature is_player c) s1) else s1)
      in clear_caches is_player c (s2\<lparr>whereabouts := (whereabouts s2)(c := newPos)\<rparr>))"

definition remove_creature :: "(nat \<Rightarrow> bool) \<Rightarrow> nat \<Rightarrow> 'tile spectator_state \<Rightarrow> 'tile spectator_state" where
  "remove_creature is_player c s =
     clear_caches is_player c (on_leaf (getQTNode (game s) (whereabouts s c)) (removeCreature is_player c) s)"

text \<open>
  \<open>Game::removeCreature\<close> tells the players around where in the tile the creature stood:
  \<open>oldStackPosVector\<close> has an entry for every player, \<open>-1\<close> for those who cannot see the creature.
\<close>

definition oldStackPosVector :: "(nat \<Rightarrow> bool) \<Rightarrow> (nat \<Rightarrow> bool) \<Rightarrow> (nat \<Rightarrow> int) \<Rightarrow> nat list \<Rightarrow> int list" where
  "oldStackPosVector is_player can_see stackpos spectators =
     map (\<lambda>p. if can_see p then stackpos p else -1) (filter is_player spectators)"

fun send_removed :: "(nat \<Rightarrow> bool) \<Rightarrow> (nat \<Rightarrow> bool) \<Rightarrow> int list \<Rightarrow> nat \<Rightarrow> nat list \<Rightarrow> (nat \<times> int) list" where
  "send_removed is_player can_see vec i [] = []"
| "send_removed is_player can_see vec i (p # ps) =
     (if is_player p \<and> can_see p then (p, vec ! i) # send_removed is_player can_see vec (i + 1) ps
      else send_removed is_player can_see vec i ps)"

text \<open>A player behind one who cannot see the creature is sent the entry of that one.\<close>

lemma removed_creature_wrong_stackpos:
  assumes "is_player p" "is_player q" "\<not> can_see p" "can_see q"
  shows "send_removed is_player can_see (oldStackPosVector is_player can_see stackpos [p, q]) 0 [p, q] = [(q, -1)]"
  using assms by (simp add: oldStackPosVector_def)

section \<open>What the scan finds\<close>

text \<open>The coordinates a loop in steps of eight goes through.\<close>

function eights :: "int \<Rightarrow> int \<Rightarrow> int list" where
  "eights a b = (if a \<le> b then a # eights (a + 8) b else [])"
  by pat_completeness auto
termination
  by (relation "measure (\<lambda>(a, b). nat (b + 1 - a))") auto

declare eights.simps [simp del]

lemma eights_mem: "v \<in> set (eights a b) \<longleftrightarrow> a \<le> v \<and> v \<le> b \<and> 8 dvd v - a"
proof (induction a b rule: eights.induct)
  case (1 a b)
  show ?case
  proof (cases "a \<le> b")
    case True
    have "a < v \<and> 8 dvd v - a \<longleftrightarrow> a + 8 \<le> v \<and> 8 dvd v - (a + 8)"
      by presburger
    then show ?thesis using 1 [OF True] True by (subst eights.simps) auto
  qed (subst eights.simps, auto)
qed

lemma eights_distinct: "distinct (eights a b)"
proof (induction a b rule: eights.induct)
  case (1 a b)
  have "a \<notin> set (eights (a + 8) b)" by (simp add: eights_mem)
  then show ?case using 1 by (subst eights.simps) simp
qed

definition leaf_at :: "'tile game_map \<Rightarrow> int \<Rightarrow> int \<Rightarrow> nat option" where
  "leaf_at m nx ny = getLeaf (root m) (word_of_int nx) (word_of_int ny)"

definition visit_at :: "'tile game_map \<Rightarrow> (nat \<Rightarrow> nat list) \<Rightarrow> int \<Rightarrow> int \<Rightarrow> nat list" where
  "visit_at m visit nx ny = (case leaf_at m nx ny of None \<Rightarrow> [] | Some l \<Rightarrow> visit l)"

lemma getLeafStatic_ok:
  assumes "map_ok m"
  shows "getLeafStatic (root m) x y = getLeaf (root m) x y"
proof -
  have eq: "(13 :: nat) = Suc 12" by simp
  show ?thesis by (rule getLeafStatic_eq [OF map_okD(1) [OF assms, unfolded eq]])
qed

lemma links:
  assumes "map_ok m" "leaf_at m nx ny = Some l"
  shows "east_of m l = leaf_at m (nx + 8) ny" "south_of m l = leaf_at m nx (ny + 8)"
  using map_okD(2) [OF assms(1) assms(2) [unfolded leaf_at_def]]
  by (auto simp: east_of_def south_of_def leaf_at_def FLOOR_SIZE_def wi_hom_add [symmetric])

lemma scan_row_eq:
  "map_ok m \<Longrightarrow> scan_row m visit nx endx ny (leaf_at m nx ny) = concat (map (\<lambda>x. visit_at m visit x ny) (eights nx endx))"
proof (induction nx endx rule: eights.induct)
  case (1 nx endx)
  show ?case
  proof (cases "nx \<le> endx")
    case True
    have next_leaf: "(case leaf_at m nx ny of Some l \<Rightarrow> east_of m l
        | None \<Rightarrow> getLeafStatic (root m) (word_of_int (nx + 8)) (word_of_int ny)) = leaf_at m (nx + 8) ny"
      using links(1) [OF "1.prems"] by (auto simp: getLeafStatic_ok [OF "1.prems"] leaf_at_def split: option.split)
    show ?thesis
      using 1 True next_leaf
      by (subst scan_row.simps, subst eights.simps) (auto simp: visit_at_def split: option.splits)
  qed (subst scan_row.simps, subst eights.simps, simp)
qed

lemma scan_eq:
  "map_ok m \<Longrightarrow> scan m visit sx ex ny ey (leaf_at m sx ny) =
     concat (map (\<lambda>y. concat (map (\<lambda>x. visit_at m visit x y) (eights sx ex))) (eights ny ey))"
proof (induction ny ey rule: eights.induct)
  case (1 ny ey)
  show ?case
  proof (cases "ny \<le> ey")
    case True
    have next_leaf: "(case leaf_at m sx ny of Some l \<Rightarrow> south_of m l
        | None \<Rightarrow> getLeafStatic (root m) (word_of_int sx) (word_of_int (ny + 8))) = leaf_at m sx (ny + 8)"
      using links(2) [OF "1.prems"] by (auto simp: getLeafStatic_ok [OF "1.prems"] leaf_at_def split: option.split)
    show ?thesis
      using 1 True next_leaf scan_row_eq [OF "1.prems"]
      by (subst scan.simps, subst (2) eights.simps) simp
  qed (subst scan.simps, subst (2) eights.simps, simp)
qed

text \<open>
  Every creature of a leaf is at a place of the leaf's block, and the players of a leaf are the players
  among its creatures.
\<close>

definition at_block :: "position \<Rightarrow> u32 \<Rightarrow> u32 \<Rightarrow> bool" where
  "at_block p x y \<longleftrightarrow> block (ucast (pos_x p)) = block x \<and> block (ucast (pos_y p)) = block y"

definition lists_ok :: "(nat \<Rightarrow> bool) \<Rightarrow> 'tile game_map \<Rightarrow> (nat \<Rightarrow> position) \<Rightarrow> bool" where
  "lists_ok is_player m cpos \<longleftrightarrow> (\<forall>x y l. getLeaf (root m) x y = Some l \<longrightarrow>
     (\<forall>b. distinct (leaf_list b m l)) \<and> set (leaf_list True m l) = {c \<in> set (leaf_list False m l). is_player c} \<and>
     (\<forall>c \<in> set (leaf_list False m l). at_block (cpos c) x y))"

definition on_map :: "'tile game_map \<Rightarrow> (nat \<Rightarrow> position) \<Rightarrow> nat \<Rightarrow> bool" where
  "on_map m cpos c \<longleftrightarrow> (\<exists>l. getQTNode m (cpos c) = Some l \<and> c \<in> set (leaf_list False m l))"

lemma lists_okD:
  assumes "lists_ok is_player m cpos" "getLeaf (root m) x y = Some l"
  shows "distinct (leaf_list b m l)" "c \<in> set (leaf_list b m l) \<longleftrightarrow> c \<in> set (leaf_list False m l) \<and> (b \<longrightarrow> is_player c)"
    "c \<in> set (leaf_list b m l) \<Longrightarrow> at_block (cpos c) x y"
proof -
  show "distinct (leaf_list b m l)" using assms unfolding lists_ok_def by blast
  show mem: "c \<in> set (leaf_list b m l) \<longleftrightarrow> c \<in> set (leaf_list False m l) \<and> (b \<longrightarrow> is_player c)"
    using assms unfolding lists_ok_def by (cases b) auto
  show "c \<in> set (leaf_list b m l) \<Longrightarrow> at_block (cpos c) x y"
    using assms mem unfolding lists_ok_def by blast
qed

lemma getQTNode_ok: "map_ok m \<Longrightarrow> getQTNode m p = getLeaf (root m) (ucast (pos_x p)) (ucast (pos_y p))"
  by (simp add: getQTNode_def getLeafStatic_ok)

lemma at_block_leaf:
  assumes "map_ok m" "at_block p x y"
  shows "getLeaf (root m) x y = getQTNode m p"
  unfolding getQTNode_ok [OF assms(1)]
  by (rule getLeaf_block [OF map_okD(1) [OF assms(1)]]) (use assms(2) in \<open>simp_all add: at_block_def\<close>)

lemma distinct_concat_map:
  "distinct ps \<Longrightarrow> (\<And>p. p \<in> set ps \<Longrightarrow> distinct (f p)) \<Longrightarrow>
   (\<And>p q c. p \<in> set ps \<Longrightarrow> q \<in> set ps \<Longrightarrow> c \<in> set (f p) \<Longrightarrow> c \<in> set (f q) \<Longrightarrow> p = q) \<Longrightarrow> distinct (concat (map f ps))"
proof (induction ps)
  case (Cons p ps)
  have "set (f p) \<inter> set (f q) = {}" if "q \<in> set ps" for q
    using that Cons.prems(1) Cons.prems(3) [of p q] by auto
  then show ?case using Cons.IH Cons.prems by auto
qed simp

lemma block_int: "0 \<le> v \<Longrightarrow> v < 65536 \<Longrightarrow> int (block (word_of_int v)) = v div 8"
proof -
  assume v: "0 \<le> v" "v < 65536"
  then have "unat (word_of_int v :: u32) = nat v" by (simp add: unsigned_of_int take_bit_int_eq_self)
  moreover have "nat v div 8 < 8192" using v by (simp add: div_less_iff_less_mult)
  ultimately show ?thesis using v by (simp add: block_def nat_div_distrib zdiv_int)
qed

lemma block_pos: "int (block (ucast (w :: u16))) = uint w div 8"
  by (simp add: block_ucast zdiv_int)

lemma clamp16_bounds: "0 \<le> clamp16 v" "clamp16 v \<le> 65535" "0 \<le> c \<Longrightarrow> c \<le> 65535 \<Longrightarrow> v \<le> c \<Longrightarrow> clamp16 v \<le> c"
  "0 \<le> c \<Longrightarrow> c \<le> 65535 \<Longrightarrow> c \<le> v \<Longrightarrow> c \<le> clamp16 v"
  by (auto simp: clamp16_def)

lemma floor8: "0 \<le> a - a mod 8 \<or> a < 0" "8 dvd a - a mod 8" "a - a mod 8 \<le> a" "a \<le> b \<Longrightarrow> a - a mod 8 \<le> b - b mod 8"
  "(a - a mod 8) div 8 = a div 8" for a :: int
  by presburger+

lemma internal_exact:
  assumes ok: "map_ok m" and lists: "lists_ok is_player m cpos"
  shows "distinct (getSpectatorsInternal m cpos [] p a b c d e f only) \<and>
    set (getSpectatorsInternal m cpos [] p a b c d e f only) =
      {k. on_map m cpos k \<and> (only \<longrightarrow> is_player k) \<and> sees_from p a b c d e f (cpos k)}"
proof -
  define x1 y1 x2 y2 where "x1 = clamp16 (getX p + a + (getZ p - f))" and "y1 = clamp16 (getY p + c + (getZ p - f))"
    and "x2 = clamp16 (getX p + b + (getZ p - e))" and "y2 = clamp16 (getY p + d + (getZ p - e))"
  let ?sx = "x1 - x1 mod 8" and ?sy = "y1 - y1 mod 8" and ?ex = "x2 - x2 mod 8" and ?ey = "y2 - y2 mod 8"
  define visit where "visit = (\<lambda>l. filter (\<lambda>k. sees_from p a b c d e f (cpos k)) (leaf_list only m l))"
  define row where "row = (\<lambda>y. concat (map (\<lambda>x. visit_at m visit x y) (eights ?sx ?ex)))"
  have v: "getSpectatorsInternal m cpos [] p a b c d e f only = concat (map row (eights ?sy ?ey))"
    unfolding getSpectatorsInternal_def Let_def row_def
      scan_eq [OF ok, of visit ?sx ?ex ?sy ?ey, unfolded leaf_at_def, symmetric] getLeafStatic_ok [OF ok]
    by (simp add: visit_def x1_def y1_def x2_def y2_def)
  have range: "0 \<le> ?sx" "0 \<le> ?sy" "?ex \<le> 65535" "?ey \<le> 65535" "8 dvd ?sx" "8 dvd ?sy"
    using clamp16_bounds floor8 unfolding x1_def y1_def x2_def y2_def by (smt (verit))+
  have visited: "getLeaf (root m) (word_of_int x) (word_of_int y) = getQTNode m (cpos k) \<and> k \<in> set (leaf_list False m (the (getQTNode m (cpos k)))) \<and>
      getQTNode m (cpos k) \<noteq> None \<and> (only \<longrightarrow> is_player k) \<and> sees_from p a b c d e f (cpos k) \<and> at_block (cpos k) (word_of_int x) (word_of_int y)"
    if "k \<in> set (visit_at m visit x y)" for k x y
  proof -
    have "leaf_at m x y \<noteq> None" using that by (cases "leaf_at m x y") (auto simp: visit_at_def)
    then obtain l where l: "getLeaf (root m) (word_of_int x) (word_of_int y) = Some l" "leaf_at m x y = Some l"
      unfolding leaf_at_def by blast
    then have "k \<in> set (visit l)" using that by (simp add: visit_at_def)
    then have k: "k \<in> set (leaf_list only m l)" "sees_from p a b c d e f (cpos k)" by (auto simp: visit_def)
    note D = lists_okD [OF lists l(1)]
    have "at_block (cpos k) (word_of_int x) (word_of_int y)" by (rule D(3) [OF k(1)])
    then show ?thesis using at_block_leaf [OF ok] l(1) k D(2) [of k only] by fastforce
  qed
  have same: "x = x'" if "x \<in> set (eights s t)" "x' \<in> set (eights s t)" "8 dvd s" "0 \<le> s" "t \<le> 65535"
      "block (word_of_int x) = block (word_of_int x')" for x x' s t
  proof -
    have b: "0 \<le> x" "x < 65536" "0 \<le> x'" "x' < 65536" using that(1,2,4,5) by (simp_all add: eights_mem)
    have d: "8 dvd x" "8 dvd x'" using that(1,2) dvd_add [OF _ that(3)] by (fastforce simp: eights_mem)+
    have "x div 8 = x' div 8" using block_int [OF b(1,2)] block_int [OF b(3,4)] that(6) by simp
    then show ?thesis using d by (metis dvd_mult_div_cancel)
  qed
  have "distinct (concat (map row (eights ?sy ?ey)))"
  proof (rule distinct_concat_map [OF eights_distinct])
    show "distinct (row y)" for y
      unfolding row_def
    proof (rule distinct_concat_map [OF eights_distinct])
      show "distinct (visit_at m visit x y)" for x
        using lists_okD(1) [OF lists] by (auto simp: visit_at_def leaf_at_def visit_def split: option.split)
      show "x = x'" if "x \<in> set (eights ?sx ?ex)" "x' \<in> set (eights ?sx ?ex)" "k \<in> set (visit_at m visit x y)" "k \<in> set (visit_at m visit x' y)" for x x' k
        using same [OF that(1,2)] range visited [OF that(3)] visited [OF that(4)] by (auto simp: at_block_def)
    qed
    show "y = y'" if y: "y \<in> set (eights ?sy ?ey)" "y' \<in> set (eights ?sy ?ey)" and k: "k \<in> set (row y)" "k \<in> set (row y')" for y y' k
    proof -
      obtain x x' where v: "k \<in> set (visit_at m visit x y)" "k \<in> set (visit_at m visit x' y')"
        using k by (auto simp: row_def)
      have "at_block (cpos k) (word_of_int x) (word_of_int y)" "at_block (cpos k) (word_of_int x') (word_of_int y')"
        using visited [OF v(1)] visited [OF v(2)] by blast+
      then have "block (word_of_int y) = block (word_of_int y')" by (simp add: at_block_def)
      then show ?thesis by (rule same [OF y range(6,2,4)])
    qed
  qed
  moreover have "set (concat (map row (eights ?sy ?ey))) = {k. on_map m cpos k \<and> (only \<longrightarrow> is_player k) \<and> sees_from p a b c d e f (cpos k)}" (is "?L = ?R")
  proof
    show "?L \<subseteq> ?R"
      using visited by (fastforce simp: row_def on_map_def)
  next
    show "?R \<subseteq> ?L"
    proof
      fix k assume "k \<in> ?R"
      then obtain l where l: "getQTNode m (cpos k) = Some l" "k \<in> set (leaf_list False m l)" "only \<longrightarrow> is_player k" and see: "sees_from p a b c d e f (cpos k)"
        by (auto simp: on_map_def)
      let ?cx = "getX (cpos k)" and ?cy = "getY (cpos k)"
      let ?nx = "?cx - ?cx mod 8" and ?ny = "?cy - ?cy mod 8"
      have c: "0 \<le> ?cx" "?cx \<le> 65535" "0 \<le> ?cy" "?cy \<le> 65535" using coordinate_range [of "cpos k"] by auto
      have "x1 \<le> ?cx" "?cx \<le> x2" "y1 \<le> ?cy" "?cy \<le> y2"
        using see c unfolding x1_def x2_def y1_def y2_def
        by (auto simp: sees_from_def Let_def getOffsetZ_def intro!: clamp16_bounds split: if_split_asm)
      then have mem: "?nx \<in> set (eights ?sx ?ex)" "?ny \<in> set (eights ?sy ?ey)"
        unfolding eights_mem using floor8 by presburger+
      have "block (word_of_int ?nx) = block (ucast (pos_x (cpos k)))" "block (word_of_int ?ny) = block (ucast (pos_y (cpos k)))"
        using block_int [of ?nx] block_int [of ?ny] block_pos [of "pos_x (cpos k)"] block_pos [of "pos_y (cpos k)"] c floor8
        unfolding getX_def getY_def by (smt (verit) of_nat_eq_iff)+
      then have "at_block (cpos k) (word_of_int ?nx) (word_of_int ?ny)" by (simp add: at_block_def)
      then have leaf: "getLeaf (root m) (word_of_int ?nx) (word_of_int ?ny) = Some l" using at_block_leaf [OF ok] l(1) by simp
      then have "k \<in> set (visit_at m visit ?nx ?ny)"
        using lists_okD(2) [OF lists leaf, of k only] l see by (simp add: visit_at_def leaf_at_def visit_def)
      then show "k \<in> ?L" using mem by (auto simp: row_def)
    qed
  qed
  ultimately show ?thesis by (simp add: v)
qed

section \<open>Placing, moving and removing\<close>

abbreviation change_map :: "nat option \<Rightarrow> ('tile leaf \<Rightarrow> 'tile leaf) \<Rightarrow> 'tile game_map \<Rightarrow> 'tile game_map" where
  "change_map a f m \<equiv> m\<lparr>leaf_store := change_leaf a f (leaf_store m)\<rparr>"

lemma change_map_ok:
  assumes "map_ok m" "\<And>lf. leafS (f lf) = leafS lf" "\<And>lf. leafE (f lf) = leafE lf"
  shows "map_ok (change_map a f m)"
  using map_ok_change [of "root m" "leaf_store m" f a] assms by (cases m) simp

lemma leaf_links: "leafS (addCreature ip c lf) = leafS lf" "leafE (addCreature ip c lf) = leafE lf"
  "leafS (removeCreature ip c lf) = leafS lf" "leafE (removeCreature ip c lf) = leafE lf"
  by (simp_all add: addCreature_def removeCreature_def Let_def)

lemma add_list:
  "leaf_store m l = Some lf \<Longrightarrow> leaf_list b (change_map (Some l) (addCreature ip c) m) k =
     (if k = l \<and> (b \<longrightarrow> ip c) then leaf_list b m k @ [c] else leaf_list b m k)"
  by (auto simp: leaf_list_def change_leaf_at addCreature_def Let_def split: option.split)

lemma remove_list:
  "leaf_store m l = Some lf \<Longrightarrow> leaf_list b (change_map (Some l) (removeCreature ip c) m) k =
     (if k = l \<and> (b \<longrightarrow> ip c) then swap_pop c (leaf_list b m k) else leaf_list b m k)"
  by (auto simp: leaf_list_def change_leaf_at removeCreature_def Let_def split: option.split)

definition in_no_list :: "'tile game_map \<Rightarrow> nat \<Rightarrow> bool" where
  "in_no_list m c \<longleftrightarrow> (\<forall>x y l. getLeaf (root m) x y = Some l \<longrightarrow> c \<notin> set (leaf_list False m l))"

lemma not_on_map:
  assumes "map_ok m" "lists_ok ip m cpos" "\<not> on_map m cpos c"
  shows "in_no_list m c"
  unfolding in_no_list_def
proof (intro allI impI notI)
  fix x y l assume l: "getLeaf (root m) x y = Some l" "c \<in> set (leaf_list False m l)"
  then have "getQTNode m (cpos c) = Some l" using at_block_leaf [OF assms(1) lists_okD(3) [OF assms(2) l]] by simp
  then show False using l(2) assms(3) by (auto simp: on_map_def)
qed

lemma add_ok:
  assumes ok: "map_ok m" "lists_ok ip m cpos" and new: "in_no_list m c" and l: "getQTNode m dest = Some l"
  defines "m' \<equiv> change_map (Some l) (addCreature ip c) m" and "cpos' \<equiv> cpos(c := dest)"
  shows "map_ok m' \<and> lists_ok ip m' cpos' \<and> (\<forall>k. on_map m' cpos' k \<longleftrightarrow> k = c \<or> on_map m cpos k)"
proof -
  have leaf: "getLeaf (root m) (ucast (pos_x dest)) (ucast (pos_y dest)) = Some l" using l by (simp add: getQTNode_ok [OF ok(1)])
  obtain lf where lf: "leaf_store m l = Some lf" using map_okD(2) [OF ok(1) leaf] by blast
  note L = add_list [OF lf, of _ ip c, folded m'_def]
  have root: "root m' = root m" by (simp add: m'_def)
  have node: "getQTNode m' p = getQTNode m p" for p by (simp add: getQTNode_def root)
  have "lists_ok ip m' cpos'"
    unfolding lists_ok_def root
  proof (intro allI impI)
    fix x y k assume k: "getLeaf (root m) x y = Some k"
    note D = lists_okD [OF ok(2) k]
    have c: "c \<notin> set (leaf_list b m k)" for b using new k D(2) [of c b] by (auto simp: in_no_list_def)
    have "at_block dest x y" if "k = l"
      using map_okD(3) [OF ok(1) leaf, of x y] k that by (simp add: at_block_def)
    then have "\<forall>c \<in> set (leaf_list False m' k). at_block (cpos' c) x y"
      using D(3) [of _ False] c [of False] by (auto simp: L cpos'_def)
    moreover have "\<forall>b. distinct (leaf_list b m' k)" using D(1) c by (auto simp: L)
    moreover have "set (leaf_list True m' k) = {c \<in> set (leaf_list False m' k). ip c}"
      using D(2) [of _ True] by (auto simp: L)
    ultimately show "(\<forall>b. distinct (leaf_list b m' k)) \<and> set (leaf_list True m' k) = {c \<in> set (leaf_list False m' k). ip c} \<and>
        (\<forall>c \<in> set (leaf_list False m' k). at_block (cpos' c) x y)" by blast
  qed
  moreover have "on_map m' cpos' k \<longleftrightarrow> k = c \<or> on_map m cpos k" for k
  proof (cases "k = c")
    case True
    then show ?thesis using l by (simp add: on_map_def node L cpos'_def)
  next
    case False
    then show ?thesis by (auto simp: on_map_def node L cpos'_def)
  qed
  ultimately show ?thesis using change_map_ok [OF ok(1) leaf_links(1,2)] by (simp add: m'_def)
qed

lemma remove_ok:
  assumes ok: "map_ok m" "lists_ok ip m cpos" and l: "getQTNode m (cpos c) = Some l"
  defines "m' \<equiv> change_map (Some l) (removeCreature ip c) m"
  shows "map_ok m' \<and> lists_ok ip m' cpos \<and> (\<forall>k. on_map m' cpos k \<longleftrightarrow> k \<noteq> c \<and> on_map m cpos k) \<and> in_no_list m' c"
proof -
  have leaf: "getLeaf (root m) (ucast (pos_x (cpos c))) (ucast (pos_y (cpos c))) = Some l" using l by (simp add: getQTNode_ok [OF ok(1)])
  obtain lf where lf: "leaf_store m l = Some lf" using map_okD(2) [OF ok(1) leaf] by blast
  note L = remove_list [OF lf, of _ ip c, folded m'_def]
  have root: "root m' = root m" by (simp add: m'_def)
  have node: "getQTNode m' p = getQTNode m p" for p by (simp add: getQTNode_def root)
  note pop = set_swap_pop distinct_swap_pop
  have only: "k = l" if "getLeaf (root m) x y = Some k" "c \<in> set (leaf_list False m k)" for x y k
    using at_block_leaf [OF ok(1) lists_okD(3) [OF ok(2) that]] that(1) l by simp
  have L': "set (leaf_list b m' k) = {j \<in> set (leaf_list b m k). j \<noteq> c} \<and> distinct (leaf_list b m' k)"
    if k: "getLeaf (root m) x y = Some k" for x y k b
  proof -
    have "c \<notin> set (leaf_list b m k)" if "k \<noteq> l \<or> b \<and> \<not> ip c"
      using that only [OF k] lists_okD(2) [OF ok(2) k, of c b] by auto
    then show ?thesis using pop [OF lists_okD(1) [OF ok(2) k, of b], of c] lists_okD(1) [OF ok(2) k, of b] by (auto simp: L)
  qed
  have "lists_ok ip m' cpos"
    unfolding lists_ok_def root
  proof (intro allI impI)
    fix x y k assume k: "getLeaf (root m) x y = Some k"
    have "set (leaf_list True m' k) = {c \<in> set (leaf_list False m' k). ip c}"
      using L' [OF k, of True] L' [OF k, of False] lists_okD(2) [OF ok(2) k, of _ True] by auto
    moreover have "\<forall>c \<in> set (leaf_list False m' k). at_block (cpos c) x y"
      using L' [OF k, of False] lists_okD(3) [OF ok(2) k, of _ False] by auto
    ultimately show "(\<forall>b. distinct (leaf_list b m' k)) \<and> set (leaf_list True m' k) = {c \<in> set (leaf_list False m' k). ip c} \<and>
        (\<forall>c \<in> set (leaf_list False m' k). at_block (cpos c) x y)" using L' [OF k] by blast
  qed
  moreover have "on_map m' cpos k \<longleftrightarrow> k \<noteq> c \<and> on_map m cpos k" for k
  proof (cases "getQTNode m (cpos k)")
    case (Some j)
    then have "getLeaf (root m) (ucast (pos_x (cpos k))) (ucast (pos_y (cpos k))) = Some j" by (simp add: getQTNode_ok [OF ok(1)])
    from L' [OF this, of False] show ?thesis using Some by (auto simp: on_map_def node)
  qed (simp add: on_map_def node)
  moreover have "in_no_list m' c" using L' by (auto simp: in_no_list_def root)
  ultimately show ?thesis using change_map_ok [OF ok(1) leaf_links(3,4)] by (simp add: m'_def)
qed

section \<open>Every question is answered exactly\<close>

text \<open>
  The specification keeps only where each creature is. \<open>represents\<close> relates it to the tree, its lists and
  the caches: a cached answer is the answer a scan would give now.
\<close>

definition usual_view :: "position \<Rightarrow> position \<Rightarrow> bool" where
  "usual_view p q \<longleftrightarrow> sees_from p (-11) 11 (-11) 11 (fst (floor_range True p)) (snd (floor_range True p)) q"

definition cache_ok :: "(nat \<Rightarrow> bool) \<Rightarrow> (nat \<rightharpoonup> position) \<Rightarrow> (position \<rightharpoonup> nat list) \<Rightarrow> bool" where
  "cache_ok want A cache \<longleftrightarrow>
     (\<forall>p v. cache p = Some v \<longrightarrow> distinct v \<and> set v = {c. want c \<and> (\<exists>q. A c = Some q \<and> usual_view p q)})"

definition represents :: "(nat \<Rightarrow> bool) \<Rightarrow> 'tile spectator_state \<Rightarrow> (nat \<rightharpoonup> position) \<Rightarrow> bool" where
  "represents ip s A \<longleftrightarrow> map_ok (game s) \<and> lists_ok ip (game s) (whereabouts s) \<and>
     A = (\<lambda>c. if on_map (game s) (whereabouts s) c then Some (whereabouts s c) else None) \<and>
     cache_ok (\<lambda>_. True) A (spectatorCache s) \<and> cache_ok ip A (playersSpectatorCache s)"

definition spectators_spec :: "(nat \<Rightarrow> bool) \<Rightarrow> position \<Rightarrow> bool \<Rightarrow> bool \<Rightarrow> int \<Rightarrow> int \<Rightarrow> int \<Rightarrow> int \<Rightarrow> (nat \<rightharpoonup> position) \<Rightarrow> nat set" where
  "spectators_spec ip p multifloor onlyPlayers rx1 rx2 ry1 ry2 A =
     {c. (onlyPlayers \<longrightarrow> ip c) \<and> pos_z p < MAP_MAX_LAYERS \<and> (\<exists>q. A c = Some q \<and>
        sees_from p (range_low maxViewportX rx1) (range_high maxViewportX rx2) (range_low maxViewportY ry1) (range_high maxViewportY ry2)
          (fst (floor_range multifloor p)) (snd (floor_range multifloor p)) q)}"

lemma represents_cached:
  "represents ip s A \<Longrightarrow> cache_ok (\<lambda>_. True) A v \<Longrightarrow> represents ip (s\<lparr>spectatorCache := v\<rparr>) A"
  "represents ip s A \<Longrightarrow> cache_ok ip A v \<Longrightarrow> represents ip (s\<lparr>playersSpectatorCache := v\<rparr>) A"
proof -
  have "game (s\<lparr>spectatorCache := v\<rparr>) = game s" "whereabouts (s\<lparr>spectatorCache := v\<rparr>) = whereabouts s"
    "game (s\<lparr>playersSpectatorCache := v\<rparr>) = game s" "whereabouts (s\<lparr>playersSpectatorCache := v\<rparr>) = whereabouts s"
    "spectatorCache (s\<lparr>spectatorCache := v\<rparr>) = v" "playersSpectatorCache (s\<lparr>spectatorCache := v\<rparr>) = playersSpectatorCache s"
    "spectatorCache (s\<lparr>playersSpectatorCache := v\<rparr>) = spectatorCache s" "playersSpectatorCache (s\<lparr>playersSpectatorCache := v\<rparr>) = v"
    by simp_all
  then show "represents ip s A \<Longrightarrow> cache_ok (\<lambda>_. True) A v \<Longrightarrow> represents ip (s\<lparr>spectatorCache := v\<rparr>) A"
    "represents ip s A \<Longrightarrow> cache_ok ip A v \<Longrightarrow> represents ip (s\<lparr>playersSpectatorCache := v\<rparr>) A"
    unfolding represents_def by metis+
qed

lemma ask_ok:
  assumes r: "represents ip s A"
  shows "distinct (fst (getSpectators ip [] p mf only a b c d s)) \<and>
    set (fst (getSpectators ip [] p mf only a b c d s)) = spectators_spec ip p mf only a b c d A \<and>
    represents ip (snd (getSpectators ip [] p mf only a b c d s)) A"
proof (cases "pos_z p \<ge> MAP_MAX_LAYERS")
  case True
  then have "\<not> pos_z p < MAP_MAX_LAYERS" by simp
  with True show ?thesis using r by (simp add: getSpectators_def spectators_spec_def del: not_less)
next
  case z: False
  let ?a = "range_low maxViewportX a" and ?b = "range_high maxViewportX b"
    and ?c = "range_low maxViewportY c" and ?d = "range_high maxViewportY d"
  let ?e = "fst (floor_range mf p)" and ?f = "snd (floor_range mf p)"
  define usual where "usual = usual_request mf ?a ?b ?c ?d"
  define v where "v = getSpectatorsInternal (game s) (whereabouts s) [] p ?a ?b ?c ?d ?e ?f only"
  have inv: "map_ok (game s)" "lists_ok ip (game s) (whereabouts s)"
    "A = (\<lambda>c. if on_map (game s) (whereabouts s) c then Some (whereabouts s c) else None)"
    "cache_ok (\<lambda>_. True) A (spectatorCache s)" "cache_ok ip A (playersSpectatorCache s)"
    using r unfolding represents_def by blast+
  have v: "distinct v" "set v = spectators_spec ip p mf only a b c d A"
    using internal_exact [OF inv(1,2), of p ?a ?b ?c ?d ?e ?f only] z
    unfolding v_def [symmetric] by (auto simp: spectators_spec_def inv(3))
  have view: "spectators_spec ip p mf only a b c d A = {c. (only \<longrightarrow> ip c) \<and> (\<exists>q. A c = Some q \<and> usual_view p q)}" if usual
    using that z by (auto simp: spectators_spec_def usual_def usual_request_def usual_view_def maxViewportX_def maxViewportY_def)
  define cached where "cached = (if usual then cached_spectators ip [] p only s else None)"
  have cached: "cached = (if \<not> usual then None
      else if only \<and> playersSpectatorCache s p \<noteq> None then playersSpectatorCache s p
      else map_option (\<lambda>w. if \<not> only then w else filter ip w) (spectatorCache s p))"
    by (cases only; cases "playersSpectatorCache s p") (simp_all add: cached_def cached_spectators_def option.map_ident)
  have eq: "getSpectators ip [] p mf only a b c d s = (case cached of Some w \<Rightarrow> (w, s)
      | None \<Rightarrow> (v, if \<not> usual then s else if only then s\<lparr>playersSpectatorCache := (playersSpectatorCache s)(p \<mapsto> v)\<rparr>
           else s\<lparr>spectatorCache := (spectatorCache s)(p \<mapsto> v)\<rparr>))"
    unfolding getSpectators_def Let_def v_def usual_def cached_def using z by (simp only: if_False)
  show ?thesis
  proof (cases cached)
    case (Some w)
    have "usual" using Some by (auto simp: cached split: if_split_asm)
    then have "distinct w \<and> set w = {c. (only \<longrightarrow> ip c) \<and> (\<exists>q. A c = Some q \<and> usual_view p q)}"
      using Some inv(4,5) by (auto simp: cached cache_ok_def filter_id_conv split: if_split_asm)
    then show ?thesis using Some r view [OF \<open>usual\<close>] by (simp add: eq)
  next
    case None
    have "cache_ok (\<lambda>_. True) A ((spectatorCache s)(p \<mapsto> v))" if "usual" "\<not> only"
      using inv(4) v view [OF that(1)] that(2) by (simp add: cache_ok_def)
    moreover have "cache_ok ip A ((playersSpectatorCache s)(p \<mapsto> v))" if "usual" "only"
      using inv(5) v view [OF that(1)] that(2) by (simp add: cache_ok_def)
    ultimately show ?thesis using None v r by (simp add: eq represents_cached)
  qed
qed

lemma cache_cleared: "cache_ok want A Map.empty"
  by (simp add: cache_ok_def)

text \<open>The caches after clearing them for \<open>c\<close>: the one that stays holds players only.\<close>

lemma represents_cleared:
  assumes "map_ok m" "lists_ok ip m pos"
    and "A' = (\<lambda>k. if on_map m pos k then Some (pos k) else None)"
    and "cache_ok ip A (playersSpectatorCache s)" "\<And>k. k \<noteq> c \<Longrightarrow> A' k = A k" "game s = m" "whereabouts s = pos"
  shows "represents ip (clear_caches ip c s) A'"
proof -
  have "cache_ok ip A' (playersSpectatorCache s)" if "\<not> ip c"
  proof -
    have "(ip k \<and> (\<exists>q. A' k = Some q \<and> usual_view p q)) = (ip k \<and> (\<exists>q. A k = Some q \<and> usual_view p q))" for k p
      using assms(5) [of k] that by (cases "k = c") auto
    then show ?thesis using assms(4) by (simp add: cache_ok_def)
  qed
  then show ?thesis
    using assms(1-3,6,7) cache_cleared by (auto simp: represents_def clear_caches_def Let_def)
qed

lemma clear_simps:
  "game (clear_caches ip c s) = game s" "whereabouts (clear_caches ip c s) = whereabouts s"
  "on_leaf a f (clear_caches ip c s) = clear_caches ip c (on_leaf a f s)"
  "(clear_caches ip c s)\<lparr>whereabouts := w\<rparr> = clear_caches ip c (s\<lparr>whereabouts := w\<rparr>)"
  "clear_caches ip c (clear_caches ip c s) = clear_caches ip c s"
  by (simp_all add: clear_caches_def on_leaf_def Let_def)

lemma on_leaf_simps:
  "game (on_leaf a f s) = change_map a f (game s)" "whereabouts (on_leaf a f s) = whereabouts s"
  "playersSpectatorCache (on_leaf a f s) = playersSpectatorCache s"
  by (simp_all add: on_leaf_def)

inductive spectator_step :: "(nat \<Rightarrow> bool) \<Rightarrow> 'tile spectator_state \<times> (nat \<rightharpoonup> position) \<Rightarrow> 'tile spectator_state \<times> (nat \<rightharpoonup> position) \<Rightarrow> bool"
  for ip where
  step_place: "A c = None \<Longrightarrow> getQTNode (game s) dest \<noteq> None \<Longrightarrow>
     spectator_step ip (s, A) (place_creature ip c dest s, A(c \<mapsto> dest))"
| step_move: "A c \<noteq> None \<Longrightarrow> getQTNode (game s) dest \<noteq> None \<Longrightarrow>
     spectator_step ip (s, A) (move_creature ip c dest s, A(c \<mapsto> dest))"
| step_remove: "A c \<noteq> None \<Longrightarrow> spectator_step ip (s, A) (remove_creature ip c s, A(c := None))"
| step_ask: "spectator_step ip (s, A) (snd (getSpectators ip [] p mf only a b d e s), A)"

lemma step_ok:
  assumes "spectator_step ip (s, A) (s', A')" "represents ip s A"
  shows "represents ip s' A'"
  using assms(1)
proof cases
  case (step_place c dest)
  have inv: "map_ok (game s)" "lists_ok ip (game s) (whereabouts s)"
    "A = (\<lambda>c. if on_map (game s) (whereabouts s) c then Some (whereabouts s c) else None)" "cache_ok ip A (playersSpectatorCache s)"
    using assms(2) unfolding represents_def by blast+
  obtain l where l: "getQTNode (game s) dest = Some l" using step_place(4) by blast
  have "in_no_list (game s) c" by (rule not_on_map [OF inv(1,2)]) (use step_place(3) inv(3) in \<open>auto split: if_split_asm\<close>)
  note A = add_ok [OF inv(1,2) this l]
  have s': "s' = clear_caches ip c (on_leaf (Some l) (addCreature ip c) (s\<lparr>whereabouts := (whereabouts s)(c := dest)\<rparr>))"
    using step_place(1) l by (simp add: place_creature_def Let_def clear_simps)
  show ?thesis
    unfolding s' step_place(2)
    by (rule represents_cleared [where m = "change_map (Some l) (addCreature ip c) (game s)" and pos = "(whereabouts s)(c := dest)" and A = A])
      (use A inv in \<open>auto simp: on_leaf_simps fun_eq_iff\<close>)
next
  case (step_move c dest)
  have inv: "map_ok (game s)" "lists_ok ip (game s) (whereabouts s)"
    "A = (\<lambda>c. if on_map (game s) (whereabouts s) c then Some (whereabouts s c) else None)" "cache_ok ip A (playersSpectatorCache s)"
    using assms(2) unfolding represents_def by blast+
  obtain l where l: "getQTNode (game s) dest = Some l" using step_move(4) by blast
  have on: "on_map (game s) (whereabouts s) c" using step_move(3) inv(3) by (auto split: if_split_asm)
  then obtain l0 where l0: "getQTNode (game s) (whereabouts s c) = Some l0" by (auto simp: on_map_def)
  show ?thesis
  proof (cases "l0 = l")
    case True
    have eq: "on_map (game s) ((whereabouts s)(c := dest)) k = on_map (game s) (whereabouts s) k" for k
      using l l0 True by (simp add: on_map_def)
    have "lists_ok ip (game s) ((whereabouts s)(c := dest))"
      unfolding lists_ok_def
    proof (intro allI impI)
      fix x y k assume k: "getLeaf (root (game s)) x y = Some k"
      note D = lists_okD [OF inv(2) k]
      have "at_block dest x y" if "c \<in> set (leaf_list False (game s) k)"
      proof -
        have "k = l" using at_block_leaf [OF inv(1) D(3) [OF that]] k l0 True by simp
        then show ?thesis using map_okD(3) [OF inv(1) k] l by (simp add: at_block_def getQTNode_ok [OF inv(1)])
      qed
      then show "(\<forall>b. distinct (leaf_list b (game s) k)) \<and>
          set (leaf_list True (game s) k) = {c \<in> set (leaf_list False (game s) k). ip c} \<and>
          (\<forall>j \<in> set (leaf_list False (game s) k). at_block (((whereabouts s)(c := dest)) j) x y)"
        using inv(2) k unfolding lists_ok_def by auto
    qed
    moreover have "s' = clear_caches ip c (s\<lparr>whereabouts := (whereabouts s)(c := dest)\<rparr>)"
      using step_move(1) l l0 True by (simp add: move_creature_def Let_def clear_simps)
    ultimately show ?thesis
      unfolding step_move(2)
      by (simp only:) (rule represents_cleared [where m = "game s" and pos = "(whereabouts s)(c := dest)" and A = A],
        use inv on eq in \<open>auto simp: fun_eq_iff\<close>)
  next
    case False
    let ?m1 = "change_map (Some l0) (removeCreature ip c) (game s)"
    note R = remove_ok [OF inv(1,2) l0]
    have l1: "getQTNode ?m1 dest = Some l" using l by (simp add: getQTNode_def)
    have m1: "map_ok ?m1" "lists_ok ip ?m1 (whereabouts s)" "in_no_list ?m1 c"
      "\<And>k. on_map ?m1 (whereabouts s) k \<longleftrightarrow> k \<noteq> c \<and> on_map (game s) (whereabouts s) k" using R by blast+
    note A = add_ok [OF m1(1-3) l1]
    have s': "s' = clear_caches ip c ((on_leaf (Some l) (addCreature ip c) (on_leaf (Some l0) (removeCreature ip c) s))\<lparr>whereabouts := (whereabouts s)(c := dest)\<rparr>)"
      using step_move(1) l l0 False by (simp add: move_creature_def Let_def clear_simps on_leaf_simps)
    show ?thesis
      unfolding s' step_move(2)
      by (rule represents_cleared [where m = "change_map (Some l) (addCreature ip c) ?m1" and pos = "(whereabouts s)(c := dest)" and A = A])
        (use A m1(4) inv in \<open>auto simp: on_leaf_simps fun_eq_iff\<close>)
  qed
next
  case (step_remove c)
  have inv: "map_ok (game s)" "lists_ok ip (game s) (whereabouts s)"
    "A = (\<lambda>c. if on_map (game s) (whereabouts s) c then Some (whereabouts s c) else None)" "cache_ok ip A (playersSpectatorCache s)"
    using assms(2) unfolding represents_def by blast+
  have "on_map (game s) (whereabouts s) c" using step_remove(3) inv(3) by (auto split: if_split_asm)
  then obtain l0 where l0: "getQTNode (game s) (whereabouts s c) = Some l0" by (auto simp: on_map_def)
  note R = remove_ok [OF inv(1,2) l0]
  have s': "s' = clear_caches ip c (on_leaf (Some l0) (removeCreature ip c) s)"
    using step_remove(1) l0 by (simp add: remove_creature_def)
  show ?thesis
    unfolding s' step_remove(2)
    by (rule represents_cleared [where m = "change_map (Some l0) (removeCreature ip c) (game s)" and pos = "whereabouts s" and A = A])
      (use R inv in \<open>auto simp: on_leaf_simps fun_eq_iff\<close>)
next
  case (step_ask p mf only a b d e)
  then show ?thesis using ask_ok [OF assms(2)] by simp
qed

text \<open>A map that has just been loaded holds no creatures.\<close>

definition no_creatures :: "(nat \<rightharpoonup> 'tile leaf) \<Rightarrow> bool" where
  "no_creatures st \<longleftrightarrow> (\<forall>k lf. st k = Some lf \<longrightarrow> creature_list lf = [] \<and> player_list lf = [])"

lemma no_creatures_change:
  "no_creatures st \<Longrightarrow> (\<And>lf. creature_list (f lf) = creature_list lf) \<Longrightarrow> (\<And>lf. player_list (f lf) = player_list lf) \<Longrightarrow>
   no_creatures (change_leaf a f st)"
  by (auto simp: no_creatures_def change_leaf_at split: if_split_asm)

lemma no_creatures_set:
  assumes "setTile merge fresh x y z t m = Some m'" "no_creatures (leaf_store m)"
  shows "no_creatures (leaf_store m')"
proof -
  have link: "no_creatures (link_leaf l r x y st)" if "no_creatures st" for l r st
    unfolding link_leaf_def Let_def
    by (auto intro!: no_creatures_change that split: option.split)
  have put: "creature_list (put_tile merge x y z t lf) = creature_list lf" "player_list (put_tile merge x y z t lf) = player_list lf" for lf
    by (simp_all add: put_tile_def createFloor_def Let_def)
  have new: "no_creatures ((leaf_store m)(l \<mapsto> new_leaf))" for l
    using assms(2) by (auto simp: no_creatures_def new_leaf_def)
  show ?thesis
    using assms by (auto simp: setTile_def Let_def bind_eq_Some_conv put intro!: no_creatures_change link new split: if_split_asm)
qed

lemma no_creatures_loaded:
  "set_tiles merge i ts m = Some m' \<Longrightarrow> no_creatures (leaf_store m) \<Longrightarrow> no_creatures (leaf_store m')"
  by (induction merge i ts m rule: set_tiles.induct) (auto simp: bind_eq_Some_conv dest: no_creatures_set)

lemma loaded_represents:
  assumes "set_tiles merge 0 ts empty_map = Some m"
  shows "represents ip \<lparr>game = m, whereabouts = w, spectatorCache = Map.empty, playersSpectatorCache = Map.empty\<rparr> Map.empty"
proof -
  have "\<forall>k \<ge> 0. leaf_store empty_map k = None" by (simp add: empty_map_def)
  from set_tiles_ok [OF empty_map_ok this, of merge ts] assms have ok: "map_ok m" by auto
  have "no_creatures (leaf_store m)"
    by (rule no_creatures_loaded [OF assms]) (simp add: no_creatures_def empty_map_def)
  then have "leaf_list b m k = []" for b k by (auto simp: leaf_list_def no_creatures_def split: option.split)
  then show ?thesis using ok by (simp add: represents_def lists_ok_def on_map_def cache_cleared)
qed

lemma reach_represents:
  assumes "(spectator_step ip)\<^sup>*\<^sup>* (s0, A0) (s, A)" "represents ip s0 A0"
  shows "represents ip s A"
  using assms
proof (induction "(s, A)" arbitrary: s A rule: rtranclp_induct)
  case (step sA s A)
  obtain s1 A1 where "sA = (s1, A1)" by (cases sA)
  then show ?case using step step_ok by blast
qed simp

section \<open>Properties\<close>

text \<open>C1: Whatever creatures are placed on a loaded map, move and disappear, and whatever has been asked before,
  asking who sees a position gives, each once, exactly the creatures (or the players) that are on the map
  and lie in the viewport around it, on the floors that can be seen from there: the links between the
  leaves, the lists of the leaves and the caches never lose one or show one that has gone.\<close>

theorem spectators_are_exact:
  assumes "set_tiles merge 0 ts empty_map = Some m"
    and "(spectator_step ip)\<^sup>*\<^sup>* (\<lparr>game = m, whereabouts = w, spectatorCache = Map.empty, playersSpectatorCache = Map.empty\<rparr>, Map.empty) (s, A)"
  shows "distinct (fst (getSpectators ip [] p mf only a b c d s)) \<and>
    set (fst (getSpectators ip [] p mf only a b c d s)) = spectators_spec ip p mf only a b c d A"
  using ask_ok [OF reach_represents [OF assms(2) loaded_represents [OF assms(1)]]] by blast

text \<open>Two tiles in neighbouring blocks, a player on one of them.\<close>

lemma spectators_are_exact_witness:
  "\<exists>m. set_tiles (\<lambda>a b. a) 0 [(Position 7 5 7, ()), (Position 8 5 7, ())] empty_map = Some m \<and>
    set (fst (getSpectators (\<lambda>_. True) [] (Position 8 5 7) True False 0 0 0 0
      (place_creature (\<lambda>_. True) 3 (Position 7 5 7) \<lparr>game = m, whereabouts = (\<lambda>_. Position 0 0 0), spectatorCache = Map.empty, playersSpectatorCache = Map.empty\<rparr>))) = {3}"
  (is "\<exists>m. ?load = Some m \<and> ?seen m")
proof -
  have "\<forall>k \<ge> 0. leaf_store empty_map k = None" by (simp add: empty_map_def)
  from set_tiles_ok [OF empty_map_ok this] obtain m where m: "?load = Some m" "map_ok m" by blast
  have "tile_at m (Position 7 5 7) = Some ()"
    using set_tiles_ok [OF empty_map_ok \<open>\<forall>k \<ge> 0. leaf_store empty_map k = None\<close>, of "\<lambda>a b. a" "[(Position 7 5 7, ()), (Position 8 5 7, ())]"] m(1)
    by (auto simp: set_tile_spec_def MAP_MAX_LAYERS_def)
  then have "getQTNode m (Position 7 5 7) \<noteq> None"
    by (auto simp: tile_at_def getTile_def getQTNode_def MAP_MAX_LAYERS_def split: option.splits)
  then have "(spectator_step (\<lambda>_. True))\<^sup>*\<^sup>*
      (\<lparr>game = m, whereabouts = (\<lambda>_. Position 0 0 0), spectatorCache = Map.empty, playersSpectatorCache = Map.empty\<rparr>, Map.empty)
      (place_creature (\<lambda>_. True) 3 (Position 7 5 7) \<lparr>game = m, whereabouts = (\<lambda>_. Position 0 0 0), spectatorCache = Map.empty, playersSpectatorCache = Map.empty\<rparr>,
       Map.empty(3 \<mapsto> Position 7 5 7))"
    by (intro r_into_rtranclp step_place) simp_all
  from spectators_are_exact [OF m(1) this, of "Position 8 5 7" True False 0 0 0 0] show ?thesis
    using m(1) by (auto simp: spectators_spec_def sees_from_def floor_range_def range_low_def range_high_def maxViewportX_def
        maxViewportY_def MAP_MAX_LAYERS_def Let_def offset_defs split: if_split_asm)
qed

end
