(* ===== verification/Tiles.thy ===== *)
theory Tiles
  imports Prelude
begin

text \<open>
  A tile of the map (\<open>src/src/tile.cpp\<close>, \<open>tile.h\<close>): its ground, the vector of its items with the ordinary items first,
  the last one put down in front, and after them those that stay on top in the order of their kind, its creatures, and
  the flags that sum up what its items do. Items are objects, here by their address, with the heap in the tile.
  Messages, events for creatures and the list of tiles to clean are left out; thrown-away items are kept in a list.
\<close>

section \<open>Items and tiles\<close>

type_synonym iid = nat
type_synonym cid = nat

record item_type =
  isGroundTile :: bool
  alwaysOnTop :: bool
  alwaysOnTopOrder :: u8
  isSplash :: bool
  isMagicField :: bool
  stackable :: bool
  moveable :: bool
  blockSolid :: bool
  blockProjectile :: bool
  blockPathFind :: bool
  hasHeight :: bool
  pickupable :: bool
  isBed :: bool
  ignoreBlocking :: bool
  isHangable :: bool
  lookThrough :: bool
  isVertical :: bool
  isHorizontal :: bool
  floorChange :: u8
  replaceable :: bool
  isFluidContainer :: bool
  charges :: u32

datatype item_class = PlainItem | Teleport | MagicField | Mailbox | TrashHolder | BedItem | DepotLocker

record item =
  kind :: item_type
  cls :: item_class \<comment> \<open>the class of the object\<close>
  uniqueId :: bool \<comment> \<open>\<open>hasAttribute(ITEM_ATTRIBUTE_UNIQUEID)\<close>\<close>
  itemCount :: u8

record tile =
  heap :: "iid \<Rightarrow> item"
  ground :: "iid option"
  items :: "iid list"
  downItemCount :: nat
  creatures :: "cid list"
  tflags :: u32
  thrown :: "iid list" \<comment> \<open>\<open>g_game.ReleaseItem\<close>\<close>

abbreviation kind_of :: "tile \<Rightarrow> iid \<Rightarrow> item_type" where
  "kind_of t i \<equiv> kind (heap t i)"

datatype thing = Creature cid | Item iid

section \<open>Flags\<close>

definition TILESTATE_FLOORCHANGE :: u32 where "TILESTATE_FLOORCHANGE = 127"
definition TILESTATE_TELEPORT :: u32 where "TILESTATE_TELEPORT = push_bit 11 1"
definition TILESTATE_MAGICFIELD :: u32 where "TILESTATE_MAGICFIELD = push_bit 12 1"
definition TILESTATE_MAILBOX :: u32 where "TILESTATE_MAILBOX = push_bit 13 1"
definition TILESTATE_TRASHHOLDER :: u32 where "TILESTATE_TRASHHOLDER = push_bit 14 1"
definition TILESTATE_BED :: u32 where "TILESTATE_BED = push_bit 15 1"
definition TILESTATE_DEPOT :: u32 where "TILESTATE_DEPOT = push_bit 16 1"
definition TILESTATE_BLOCKSOLID :: u32 where "TILESTATE_BLOCKSOLID = push_bit 17 1"
definition TILESTATE_BLOCKPATH :: u32 where "TILESTATE_BLOCKPATH = push_bit 18 1"
definition TILESTATE_IMMOVABLEBLOCKSOLID :: u32 where "TILESTATE_IMMOVABLEBLOCKSOLID = push_bit 19 1"
definition TILESTATE_IMMOVABLEBLOCKPATH :: u32 where "TILESTATE_IMMOVABLEBLOCKPATH = push_bit 20 1"
definition TILESTATE_IMMOVABLENOFIELDBLOCKPATH :: u32 where "TILESTATE_IMMOVABLENOFIELDBLOCKPATH = push_bit 21 1"
definition TILESTATE_NOFIELDBLOCKPATH :: u32 where "TILESTATE_NOFIELDBLOCKPATH = push_bit 22 1"
definition TILESTATE_SUPPORTS_HANGABLE :: u32 where "TILESTATE_SUPPORTS_HANGABLE = push_bit 23 1"

lemmas tile_flag_defs =
  TILESTATE_TELEPORT_def TILESTATE_MAGICFIELD_def TILESTATE_MAILBOX_def TILESTATE_TRASHHOLDER_def TILESTATE_BED_def
  TILESTATE_DEPOT_def TILESTATE_BLOCKSOLID_def TILESTATE_BLOCKPATH_def TILESTATE_IMMOVABLEBLOCKSOLID_def
  TILESTATE_IMMOVABLEBLOCKPATH_def TILESTATE_IMMOVABLENOFIELDBLOCKPATH_def TILESTATE_NOFIELDBLOCKPATH_def
  TILESTATE_SUPPORTS_HANGABLE_def

definition hasFlag :: "u32 \<Rightarrow> tile \<Rightarrow> bool" where "hasFlag f t = (tflags t AND f \<noteq> 0)"
definition setFlag :: "u32 \<Rightarrow> tile \<Rightarrow> tile" where "setFlag f t = t\<lparr>tflags := tflags t OR f\<rparr>"
definition resetFlag :: "u32 \<Rightarrow> tile \<Rightarrow> tile" where "resetFlag f t = t\<lparr>tflags := tflags t AND NOT f\<rparr>"

definition set_if :: "bool \<Rightarrow> u32 \<Rightarrow> tile \<Rightarrow> tile" where "set_if b f t = (if b then setFlag f t else t)"
definition reset_if :: "bool \<Rightarrow> u32 \<Rightarrow> tile \<Rightarrow> tile" where "reset_if b f t = (if b then resetFlag f t else t)"

datatype ITEMPROPERTY =
    CONST_PROP_BLOCKSOLID
  | CONST_PROP_HASHEIGHT
  | CONST_PROP_BLOCKPROJECTILE
  | CONST_PROP_BLOCKPATH
  | CONST_PROP_ISVERTICAL
  | CONST_PROP_ISHORIZONTAL
  | CONST_PROP_MOVEABLE
  | CONST_PROP_IMMOVABLEBLOCKSOLID
  | CONST_PROP_IMMOVABLEBLOCKPATH
  | CONST_PROP_IMMOVABLENOFIELDBLOCKPATH
  | CONST_PROP_NOFIELDBLOCKPATH
  | CONST_PROP_SUPPORTHANGABLE

fun item_hasProperty :: "ITEMPROPERTY \<Rightarrow> item \<Rightarrow> bool" where
  "item_hasProperty CONST_PROP_BLOCKSOLID i = blockSolid (kind i)"
| "item_hasProperty CONST_PROP_MOVEABLE i = (moveable (kind i) \<and> \<not> uniqueId i)"
| "item_hasProperty CONST_PROP_HASHEIGHT i = hasHeight (kind i)"
| "item_hasProperty CONST_PROP_BLOCKPROJECTILE i = blockProjectile (kind i)"
| "item_hasProperty CONST_PROP_BLOCKPATH i = blockPathFind (kind i)"
| "item_hasProperty CONST_PROP_ISVERTICAL i = isVertical (kind i)"
| "item_hasProperty CONST_PROP_ISHORIZONTAL i = isHorizontal (kind i)"
| "item_hasProperty CONST_PROP_IMMOVABLEBLOCKSOLID i = (blockSolid (kind i) \<and> (\<not> moveable (kind i) \<or> uniqueId i))"
| "item_hasProperty CONST_PROP_IMMOVABLEBLOCKPATH i = (blockPathFind (kind i) \<and> (\<not> moveable (kind i) \<or> uniqueId i))"
| "item_hasProperty CONST_PROP_IMMOVABLENOFIELDBLOCKPATH i =
     (\<not> isMagicField (kind i) \<and> blockPathFind (kind i) \<and> (\<not> moveable (kind i) \<or> uniqueId i))"
| "item_hasProperty CONST_PROP_NOFIELDBLOCKPATH i = (\<not> isMagicField (kind i) \<and> blockPathFind (kind i))"
| "item_hasProperty CONST_PROP_SUPPORTHANGABLE i = (isHorizontal (kind i) \<or> isVertical (kind i))"

definition all_items :: "tile \<Rightarrow> iid list" where
  "all_items t = (case ground t of None \<Rightarrow> [] | Some g \<Rightarrow> [g]) @ items t"

definition hasProperty :: "ITEMPROPERTY \<Rightarrow> tile \<Rightarrow> bool" where
  "hasProperty p t = list_ex (\<lambda>i. item_hasProperty p (heap t i)) (all_items t)"

definition hasProperty_without :: "iid \<Rightarrow> ITEMPROPERTY \<Rightarrow> tile \<Rightarrow> bool" where
  "hasProperty_without exclude p t = list_ex (\<lambda>i. i \<noteq> exclude \<and> item_hasProperty p (heap t i)) (all_items t)"

definition setTileFlags :: "iid \<Rightarrow> tile \<Rightarrow> tile" where
  "setTileFlags i t =
     (let it = heap t i;
          t = set_if (\<not> hasFlag TILESTATE_FLOORCHANGE t \<and> floorChange (kind it) \<noteq> 0) (ucast (floorChange (kind it))) t;
          t = set_if (item_hasProperty CONST_PROP_IMMOVABLEBLOCKSOLID it) TILESTATE_IMMOVABLEBLOCKSOLID t;
          t = set_if (item_hasProperty CONST_PROP_BLOCKPATH it) TILESTATE_BLOCKPATH t;
          t = set_if (item_hasProperty CONST_PROP_NOFIELDBLOCKPATH it) TILESTATE_NOFIELDBLOCKPATH t;
          t = set_if (item_hasProperty CONST_PROP_IMMOVABLENOFIELDBLOCKPATH it) TILESTATE_IMMOVABLENOFIELDBLOCKPATH t;
          t = set_if (cls it = Teleport) TILESTATE_TELEPORT t;
          t = set_if (cls it = MagicField) TILESTATE_MAGICFIELD t;
          t = set_if (cls it = Mailbox) TILESTATE_MAILBOX t;
          t = set_if (cls it = TrashHolder) TILESTATE_TRASHHOLDER t;
          t = set_if (item_hasProperty CONST_PROP_BLOCKSOLID it) TILESTATE_BLOCKSOLID t;
          t = set_if (cls it = BedItem) TILESTATE_BED t;
          t = set_if (cls it = DepotLocker) TILESTATE_DEPOT t
      in set_if (item_hasProperty CONST_PROP_SUPPORTHANGABLE it) TILESTATE_SUPPORTS_HANGABLE t)"

definition reset_prop :: "iid \<Rightarrow> ITEMPROPERTY \<Rightarrow> u32 \<Rightarrow> tile \<Rightarrow> tile" where
  "reset_prop i p f t = reset_if (item_hasProperty p (heap t i) \<and> \<not> hasProperty_without i p t) f t"

definition resetTileFlags :: "iid \<Rightarrow> tile \<Rightarrow> tile" where
  "resetTileFlags i t =
     (let it = heap t i;
          t = reset_if (floorChange (kind it) \<noteq> 0) TILESTATE_FLOORCHANGE t;
          t = reset_prop i CONST_PROP_BLOCKSOLID TILESTATE_BLOCKSOLID t;
          t = reset_prop i CONST_PROP_IMMOVABLEBLOCKSOLID TILESTATE_IMMOVABLEBLOCKSOLID t;
          t = reset_prop i CONST_PROP_BLOCKPATH TILESTATE_BLOCKPATH t;
          t = reset_prop i CONST_PROP_NOFIELDBLOCKPATH TILESTATE_NOFIELDBLOCKPATH t;
          t = reset_prop i CONST_PROP_IMMOVABLEBLOCKPATH TILESTATE_IMMOVABLEBLOCKPATH t;
          t = reset_prop i CONST_PROP_IMMOVABLENOFIELDBLOCKPATH TILESTATE_IMMOVABLENOFIELDBLOCKPATH t;
          t = reset_if (cls it = Teleport) TILESTATE_TELEPORT t;
          t = reset_if (cls it = MagicField) TILESTATE_MAGICFIELD t;
          t = reset_if (cls it = Mailbox) TILESTATE_MAILBOX t;
          t = reset_if (cls it = TrashHolder) TILESTATE_TRASHHOLDER t;
          t = reset_if (cls it = BedItem) TILESTATE_BED t;
          t = reset_if (cls it = DepotLocker) TILESTATE_DEPOT t
      in reset_if (item_hasProperty CONST_PROP_SUPPORTHANGABLE it) TILESTATE_SUPPORTS_HANGABLE t)"

section \<open>Looking things up\<close>

definition downItems :: "tile \<Rightarrow> iid list" where "downItems t = take (downItemCount t) (items t)"
definition topItems :: "tile \<Rightarrow> iid list" where "topItems t = drop (downItemCount t) (items t)"
definition getTopItemCount :: "tile \<Rightarrow> nat" where "getTopItemCount t = length (items t) - downItemCount t"

text \<open>The loops of \<open>getThingIndex\<close> count upwards from \<open>n\<close> as far as the thing.\<close>

fun count_to :: "'a \<Rightarrow> 'a list \<Rightarrow> int \<Rightarrow> int option" where
  "count_to x [] n = None"
| "count_to x (y # ys) n = (if y = x then Some (n + 1) else count_to x ys (n + 1))"

definition getThingIndex :: "thing \<Rightarrow> tile \<Rightarrow> int" where
  "getThingIndex th t =
     (if ground t \<noteq> None \<and> th = Item (the (ground t)) then 0
      else
        let n = (if ground t = None then - 1 else 0) in
        case th of
          Creature c \<Rightarrow> (case count_to c (creatures t) (n + int (getTopItemCount t)) of Some k \<Rightarrow> k | None \<Rightarrow> - 1)
        | Item i \<Rightarrow>
            if alwaysOnTop (kind_of t i)
            then (case count_to i (topItems t) n of Some k \<Rightarrow> k | None \<Rightarrow> - 1)
            else (case count_to i (downItems t) (n + int (getTopItemCount t) + int (length (creatures t))) of Some k \<Rightarrow> k | None \<Rightarrow> - 1))"

definition getThing :: "nat \<Rightarrow> tile \<Rightarrow> thing option" where
  "getThing index t =
     (if ground t \<noteq> None \<and> index = 0 then map_option Item (ground t)
      else
        let index = (if ground t \<noteq> None then index - 1 else index) in
        if index < getTopItemCount t then Some (Item (items t ! (downItemCount t + index)))
        else
          let index = index - getTopItemCount t in
          if index < length (creatures t) then Some (Creature (creatures t ! index))
          else
            let index = index - length (creatures t) in
            if index < downItemCount t then Some (Item (items t ! index)) else None)"

text \<open>Where a player who sees the creatures in \<open>see\<close> is shown an item and a creature; -1 when they are not there.\<close>

definition getStackposOfItem :: "(cid \<Rightarrow> bool) \<Rightarrow> iid \<Rightarrow> tile \<Rightarrow> int" where
  "getStackposOfItem see i t =
     (if ground t = Some i then 0
      else
        let n = (if ground t = None then - 1 else 0) in
        if alwaysOnTop (kind_of t i)
        then (case count_to i (topItems t) n of Some k \<Rightarrow> k | None \<Rightarrow> - 1)
        else (case count_to i (downItems t) (n + int (getTopItemCount t) + int (length (filter see (creatures t)))) of Some k \<Rightarrow> k | None \<Rightarrow> - 1))"

fun count_visible :: "(cid \<Rightarrow> bool) \<Rightarrow> cid \<Rightarrow> cid list \<Rightarrow> int \<Rightarrow> int" where
  "count_visible see c [] n = - 1"
| "count_visible see c (d # ds) n = (if d = c then n else count_visible see c ds (if see d then n + 1 else n))"

definition getClientIndexOfCreature :: "(cid \<Rightarrow> bool) \<Rightarrow> cid \<Rightarrow> tile \<Rightarrow> int" where
  "getClientIndexOfCreature see c t =
     count_visible see c (rev (creatures t)) ((if ground t = None then 0 else 1) + int (getTopItemCount t))"

definition getTopCreature :: "tile \<Rightarrow> cid option" where
  "getTopCreature t = (case creatures t of [] \<Rightarrow> None | c # _ \<Rightarrow> Some c)"

definition getBottomCreature :: "tile \<Rightarrow> cid option" where
  "getBottomCreature t = (case rev (creatures t) of [] \<Rightarrow> None | c # _ \<Rightarrow> Some c)"

definition getTopTopItem :: "tile \<Rightarrow> iid option" where
  "getTopTopItem t = (if getTopItemCount t = 0 then None else Some (last (items t)))"

definition getTopDownItem :: "tile \<Rightarrow> iid option" where
  "getTopDownItem t = (if downItemCount t = 0 then None else Some (hd (items t)))"

definition getItemByTopOrder :: "u8 \<Rightarrow> tile \<Rightarrow> iid option" where
  "getItemByTopOrder topOrder t = find (\<lambda>i. alwaysOnTopOrder (kind_of t i) = topOrder) (rev (topItems t))"

text \<open>The creature that can be seen first, which is a function of who looks, then the first thing one cannot look through.\<close>

definition getTopVisibleCreature :: "(cid \<Rightarrow> bool) \<Rightarrow> tile \<Rightarrow> cid option" where
  "getTopVisibleCreature see t = find see (creatures t)"

definition getBottomVisibleCreature :: "(cid \<Rightarrow> bool) \<Rightarrow> tile \<Rightarrow> cid option" where
  "getBottomVisibleCreature see t = find see (rev (creatures t))"

definition getTopVisibleThing :: "(cid \<Rightarrow> bool) \<Rightarrow> tile \<Rightarrow> thing option" where
  "getTopVisibleThing see t =
     (case getTopVisibleCreature see t of Some c \<Rightarrow> Some (Creature c)
      | None \<Rightarrow>
        (case find (\<lambda>i. \<not> lookThrough (kind_of t i)) (downItems t @ rev (topItems t)) of
           Some i \<Rightarrow> Some (Item i)
         | None \<Rightarrow> map_option Item (ground t)))"

text \<open>What an index stands for when it is used: the ground when there is nothing else, never a creature.\<close>

definition getUseItem :: "nat \<Rightarrow> tile \<Rightarrow> iid option" where
  "getUseItem index t =
     (if items t = [] then ground t
      else case getThing index t of Some (Item i) \<Rightarrow> Some i | _ \<Rightarrow> None)"

text \<open>\<open>getTeleportItem\<close>, \<open>getFieldItem\<close>, \<open>getTrashHolder\<close>, \<open>getMailbox\<close> and \<open>getBedItem\<close>; the first does not look at the ground.\<close>

definition getSpecial :: "item_class \<Rightarrow> u32 \<Rightarrow> tile \<Rightarrow> iid option" where
  "getSpecial k f t =
     (if \<not> hasFlag f t then None
      else
        let at_ground = (case ground t of None \<Rightarrow> None | Some g \<Rightarrow> if cls (heap t g) = k then Some g else None) in
        if k \<noteq> Teleport \<and> at_ground \<noteq> None then at_ground
        else find (\<lambda>i. cls (heap t i) = k) (rev (items t)))"

definition getFieldItem :: "tile \<Rightarrow> iid option" where "getFieldItem = getSpecial MagicField TILESTATE_MAGICFIELD"
definition getTeleportItem :: "tile \<Rightarrow> iid option" where "getTeleportItem = getSpecial Teleport TILESTATE_TELEPORT"
definition getTrashHolder :: "tile \<Rightarrow> iid option" where "getTrashHolder = getSpecial TrashHolder TILESTATE_TRASHHOLDER"
definition getMailbox :: "tile \<Rightarrow> iid option" where "getMailbox = getSpecial Mailbox TILESTATE_MAILBOX"
definition getBedItem :: "tile \<Rightarrow> iid option" where "getBedItem = getSpecial BedItem TILESTATE_BED"

fun height_reached :: "nat \<Rightarrow> tile \<Rightarrow> iid list \<Rightarrow> nat \<Rightarrow> bool" where
  "height_reached n t [] h = False"
| "height_reached n t (i # is) h =
     (let h = (if hasHeight (kind_of t i) then h + 1 else h) in h = n \<or> height_reached n t is h)"

definition tile_hasHeight :: "nat \<Rightarrow> tile \<Rightarrow> bool" where
  "tile_hasHeight n t = height_reached n t (all_items t) 0"

definition getThingCount :: "tile \<Rightarrow> nat" where
  "getThingCount t = length (creatures t) + length (items t) + (if ground t = None then 0 else 1)"

definition isMoveableBlocking :: "tile \<Rightarrow> bool" where
  "isMoveableBlocking t = (ground t = None \<or> hasFlag TILESTATE_BLOCKSOLID t)"

section \<open>Changing a tile\<close>

definition throw_away :: "iid \<Rightarrow> tile \<Rightarrow> tile" where "throw_away i t = t\<lparr>thrown := thrown t @ [i]\<rparr>"

definition add_creature :: "cid \<Rightarrow> tile \<Rightarrow> tile" where "add_creature c t = t\<lparr>creatures := c # creatures t\<rparr>"

text \<open>The loops that insert among the items on top: before the first of which \<open>before\<close> holds, otherwise at the end.\<close>

fun insert_before :: "('a \<Rightarrow> bool) \<Rightarrow> 'a \<Rightarrow> 'a list \<Rightarrow> 'a list" where
  "insert_before before x [] = [x]"
| "insert_before before x (y # ys) = (if before y then x # y # ys else y # insert_before before x ys)"

definition put_on_top :: "(iid \<Rightarrow> bool) \<Rightarrow> iid \<Rightarrow> tile \<Rightarrow> tile" where
  "put_on_top before i t = t\<lparr>items := downItems t @ insert_before before i (topItems t)\<rparr>"

definition put_down :: "iid \<Rightarrow> tile \<Rightarrow> tile" where
  "put_down i t = t\<lparr>items := i # items t, downItemCount := downItemCount t + 1\<rparr>"

definition onAddTileItem :: "iid \<Rightarrow> tile \<Rightarrow> tile" where "onAddTileItem i t = setTileFlags i t"
definition onRemoveTileItem :: "iid \<Rightarrow> tile \<Rightarrow> tile" where "onRemoveTileItem i t = resetTileFlags i t"

definition set_count :: "iid \<Rightarrow> u8 \<Rightarrow> tile \<Rightarrow> tile" where
  "set_count i n t = t\<lparr>heap := (heap t)(i := (heap t i)\<lparr>itemCount := n\<rparr>)\<rparr>"

text \<open>\<open>max<int32_t>(0, getItemCount() - count)\<close> cut to eight bits.\<close>

definition remaining :: "u8 \<Rightarrow> u32 \<Rightarrow> u8" where
  "remaining n cnt = (let d = ucast n - cnt in if sint d < 0 then 0 else ucast d)"

definition removeThing :: "thing \<Rightarrow> u32 \<Rightarrow> tile \<Rightarrow> tile" where
  "removeThing th cnt t =
     (case th of
        Creature c \<Rightarrow> t\<lparr>creatures := remove1 c (creatures t)\<rparr>
      | Item i \<Rightarrow>
          if getThingIndex th t = - 1 then t
          else if ground t = Some i then onRemoveTileItem i (t\<lparr>ground := None\<rparr>)
          else if alwaysOnTop (kind_of t i) then
            if i \<notin> set (topItems t) then t
            else onRemoveTileItem i (t\<lparr>items := downItems t @ remove1 i (topItems t)\<rparr>)
          else if i \<notin> set (downItems t) then t
          else if stackable (kind_of t i) \<and> cnt \<noteq> ucast (itemCount (heap t i))
            then set_count i (remaining (itemCount (heap t i)) cnt) t
          else onRemoveTileItem i (t\<lparr>items := remove1 i (downItems t) @ topItems t, downItemCount := downItemCount t - 1\<rparr>))"

definition removeCreature :: "cid \<Rightarrow> tile \<Rightarrow> tile" where "removeCreature c t = removeThing (Creature c) 0 t"

definition addThing :: "thing \<Rightarrow> tile \<Rightarrow> tile" where
  "addThing th t =
     (case th of
        Creature c \<Rightarrow> add_creature c t
      | Item i \<Rightarrow>
          if length (items t) \<ge> 65535 then t
          else if isGroundTile (kind_of t i) then
            (case ground t of
               None \<Rightarrow> onAddTileItem i (t\<lparr>ground := Some i\<rparr>)
             | Some g \<Rightarrow> setTileFlags i (resetTileFlags g ((throw_away g t)\<lparr>ground := Some i\<rparr>)))
          else if alwaysOnTop (kind_of t i) then
            let t1 = (case find (\<lambda>j. isSplash (kind_of t j)) (topItems t) of
                  Some old \<Rightarrow> if isSplash (kind_of t i) then throw_away old (removeThing (Item old) 1 t) else t
                | None \<Rightarrow> t)
            in onAddTileItem i
                 (put_on_top (\<lambda>j. alwaysOnTopOrder (kind_of t1 i) \<le> alwaysOnTopOrder (kind_of t1 j)) i t1)
          else
            (case (if isMagicField (kind_of t i) then find (\<lambda>j. cls (heap t j) = MagicField) (downItems t) else None) of
               Some old \<Rightarrow>
                 if replaceable (kind_of t old)
                 then onAddTileItem i (put_down i (throw_away old (removeThing (Item old) 1 t)))
                 else throw_away i t
             | None \<Rightarrow> onAddTileItem i (put_down i t)))"

text \<open>While the map is loaded.\<close>

definition internalAddThing :: "thing \<Rightarrow> tile \<Rightarrow> tile" where
  "internalAddThing th t =
     (case th of
        Creature c \<Rightarrow> add_creature c t
      | Item i \<Rightarrow>
          if isGroundTile (kind_of t i) then
            (case ground t of None \<Rightarrow> setTileFlags i (t\<lparr>ground := Some i\<rparr>) | Some _ \<Rightarrow> t)
          else if length (items t) \<ge> 65535 then t
          else if alwaysOnTop (kind_of t i)
            then setTileFlags i (put_on_top (\<lambda>j. alwaysOnTopOrder (kind_of t j) > alwaysOnTopOrder (kind_of t i)) i t)
          else setTileFlags i (put_down i t))"

text \<open>The subtype of an item is its count, unless its kind makes it a fluid or a number of charges, which are attributes.\<close>

definition setSubType :: "u16 \<Rightarrow> item \<Rightarrow> item" where
  "setSubType n i =
     (if isFluidContainer (kind i) \<or> isSplash (kind i) then i
      else if stackable (kind i) then i\<lparr>itemCount := ucast n\<rparr>
      else if charges (kind i) \<noteq> 0 then i
      else i\<lparr>itemCount := ucast n\<rparr>)"

lemma setSubType_simps [simp]: "kind (setSubType n i) = kind i" "cls (setSubType n i) = cls i" "uniqueId (setSubType n i) = uniqueId i"
  by (simp_all add: setSubType_def)

text \<open>Changes the kind of an item on the tile; \<open>k\<close> is the new kind.\<close>

definition updateThing :: "iid \<Rightarrow> item_type \<Rightarrow> u32 \<Rightarrow> tile \<Rightarrow> tile" where
  "updateThing i k cnt t =
     (if getThingIndex (Item i) t = - 1 then t
      else
        let t1 = resetTileFlags i t;
            t2 = t1\<lparr>heap := (heap t1)(i := setSubType (ucast cnt) ((heap t1 i)\<lparr>kind := k\<rparr>))\<rparr>
        in setTileFlags i t2)"

text \<open>Puts an item in the place of the one at an index; an index of a creature and one beyond the end change nothing.\<close>

definition replaceThing :: "nat \<Rightarrow> iid \<Rightarrow> tile \<Rightarrow> tile" where
  "replaceThing index i t =
     (case getThing index t of
        Some (Item old) \<Rightarrow>
          setTileFlags i (resetTileFlags old
            (if ground t \<noteq> None \<and> index = 0 then t\<lparr>ground := Some i\<rparr>
             else
               let k = index - (if ground t = None then 0 else 1) in
               if k < getTopItemCount t then t\<lparr>items := (items t)[downItemCount t + k := i]\<rparr>
               else t\<lparr>items := (items t)[k - getTopItemCount t - length (creatures t) := i]\<rparr>))
      | _ \<Rightarrow> t)"

section \<open>Stacks\<close>

text \<open>
  The items of a tile: ordinary ones first, then those on top in the order of their kind; grounds only as ground; the
  number of ordinary items fits its sixteen bits.
\<close>

definition stack_ok :: "tile \<Rightarrow> bool" where
  "stack_ok t \<longleftrightarrow>
     downItemCount t \<le> length (items t) \<and> length (items t) \<le> 65535 \<and> distinct (all_items t) \<and> distinct (creatures t) \<and>
     (\<forall>i\<in>set (downItems t). \<not> alwaysOnTop (kind_of t i)) \<and>
     (\<forall>i\<in>set (topItems t). alwaysOnTop (kind_of t i))"

text \<open>The order among the items on top, which a change of kind may break.\<close>

definition top_in_order :: "tile \<Rightarrow> bool" where
  "top_in_order t \<longleftrightarrow> sorted (map (\<lambda>i. unat (alwaysOnTopOrder (kind_of t i))) (topItems t))"

text \<open>What is drawn, from the bottom to the top of the list of indices.\<close>

definition stack :: "tile \<Rightarrow> thing list" where
  "stack t = (case ground t of None \<Rightarrow> [] | Some g \<Rightarrow> [Item g]) @ map Item (topItems t) @ map Creature (creatures t) @ map Item (downItems t)"

lemma set_flag_simps [simp]:
  "heap (set_if b f t) = heap t" "ground (set_if b f t) = ground t" "items (set_if b f t) = items t"
  "downItemCount (set_if b f t) = downItemCount t" "creatures (set_if b f t) = creatures t" "thrown (set_if b f t) = thrown t"
  "heap (reset_if b f t) = heap t" "ground (reset_if b f t) = ground t" "items (reset_if b f t) = items t"
  "downItemCount (reset_if b f t) = downItemCount t" "creatures (reset_if b f t) = creatures t" "thrown (reset_if b f t) = thrown t"
  by (simp_all add: set_if_def reset_if_def setFlag_def resetFlag_def)

lemma reset_prop_simps [simp]:
  "heap (reset_prop i p f t) = heap t" "ground (reset_prop i p f t) = ground t" "items (reset_prop i p f t) = items t"
  "downItemCount (reset_prop i p f t) = downItemCount t" "creatures (reset_prop i p f t) = creatures t" "thrown (reset_prop i p f t) = thrown t"
  by (simp_all add: reset_prop_def)

lemma tile_flags_simps [simp]:
  "heap (setTileFlags i t) = heap t" "ground (setTileFlags i t) = ground t" "items (setTileFlags i t) = items t"
  "downItemCount (setTileFlags i t) = downItemCount t" "creatures (setTileFlags i t) = creatures t" "thrown (setTileFlags i t) = thrown t"
  "heap (resetTileFlags i t) = heap t" "ground (resetTileFlags i t) = ground t" "items (resetTileFlags i t) = items t"
  "downItemCount (resetTileFlags i t) = downItemCount t" "creatures (resetTileFlags i t) = creatures t" "thrown (resetTileFlags i t) = thrown t"
  by (simp_all add: setTileFlags_def resetTileFlags_def Let_def)

lemma stack_ok_cong:
  "heap s = heap t \<Longrightarrow> ground s = ground t \<Longrightarrow> items s = items t \<Longrightarrow> downItemCount s = downItemCount t \<Longrightarrow>
   creatures s = creatures t \<Longrightarrow> stack_ok s = stack_ok t"
  by (simp add: stack_ok_def all_items_def downItems_def topItems_def)

lemma stack_ok_flags [simp]: "stack_ok (setTileFlags i t) = stack_ok t" "stack_ok (resetTileFlags i t) = stack_ok t"
  by (rule stack_ok_cong; simp)+

lemma count_to_find: "count_to x xs n = map_option (\<lambda>k. n + 1 + int k) (find_index x xs)"
  by (induction x xs n rule: count_to.induct) (auto simp: option.map_comp o_def intro!: option.map_cong)

lemma find_index_append:
  "find_index x (xs @ ys) = (case find_index x xs of Some k \<Rightarrow> Some k | None \<Rightarrow> map_option (\<lambda>k. length xs + k) (find_index x ys))"
  by (cases "find_index x ys"; induction xs) (simp_all del: find_index_None split: option.splits)

lemma find_index_map_inj: "inj f \<Longrightarrow> find_index (f x) (map f xs) = find_index x xs"
  by (induction xs) (auto dest: injD)

lemma tile_find_index_nth: "distinct xs \<Longrightarrow> k < length xs \<Longrightarrow> find_index (xs ! k) xs = Some k"
proof (induction xs arbitrary: k)
  case (Cons x xs)
  then show ?case by (cases k) auto
qed simp

lemma items_split: "items t = downItems t @ topItems t"
  by (simp add: downItems_def topItems_def)

lemma getTopItemCount_length: "getTopItemCount t = length (topItems t)"
  by (simp add: getTopItemCount_def topItems_def)

section \<open>Indices\<close>

lemma find_index_thing:
  assumes "stack_ok t"
  shows "getThingIndex th t = (case find_index th (stack t) of Some k \<Rightarrow> int k | None \<Rightarrow> - 1)"
proof -
  have top: "\<forall>i\<in>set (topItems t). alwaysOnTop (kind_of t i)" and down: "\<forall>i\<in>set (downItems t). \<not> alwaysOnTop (kind_of t i)"
    using assms by (simp_all add: stack_ok_def)
  have inj: "inj Item" "inj Creature" by (simp_all add: inj_def)
  have none: "find_index (Item i) (map Creature cs) = None" "find_index (Creature c) (map Item is) = None" for i c cs "is"
    by auto
  have rest: "find_index (Item i) (map Item (topItems t) @ map Creature (creatures t) @ map Item (downItems t)) =
      (if alwaysOnTop (kind_of t i) then find_index i (topItems t)
       else map_option (\<lambda>k. length (topItems t) + length (creatures t) + k) (find_index i (downItems t)))" for i
  proof (cases "alwaysOnTop (kind_of t i)")
    case True
    then have "i \<notin> set (downItems t)" using down by blast
    then have "find_index i (downItems t) = None" by simp
    then show ?thesis using True by (simp add: find_index_append find_index_map_inj inj none del: find_index_None split: option.splits)
  next
    case False
    then have "i \<notin> set (topItems t)" using top by blast
    then have "find_index i (topItems t) = None" by simp
    then show ?thesis using False
      by (cases "find_index i (downItems t)") (simp_all add: find_index_append find_index_map_inj inj none del: find_index_None)
  qed
  have crest: "find_index (Creature c) (map Item (topItems t) @ map Creature (creatures t) @ map Item (downItems t)) =
      map_option (\<lambda>k. length (topItems t) + k) (find_index c (creatures t))" for c
    by (simp add: find_index_append find_index_map_inj inj none del: find_index_None split: option.splits)
  show ?thesis
  proof (cases th)
    case (Creature c)
    show ?thesis
      by (cases "ground t"; cases "find_index c (creatures t)")
        (simp_all add: Creature getThingIndex_def Let_def count_to_find stack_def crest getTopItemCount_length del: find_index_None)
  next
    case (Item i)
    show ?thesis
      by (cases "ground t"; cases "find_index i (topItems t)"; cases "find_index i (downItems t)")
        (simp_all add: Item getThingIndex_def Let_def count_to_find stack_def rest getTopItemCount_length del: find_index_None)
  qed
qed

lemma getThing_nth:
  assumes "stack_ok t"
  shows "getThing k t = (if k < length (stack t) then Some (stack t ! k) else None)"
proof -
  have n: "downItemCount t \<le> length (items t)" using assms by (simp add: stack_ok_def)
  have len: "length (downItems t) = downItemCount t" using n by (simp add: downItems_def)
  have top: "j < getTopItemCount t \<Longrightarrow> items t ! (downItemCount t + j) = topItems t ! j" for j
    using n by (simp add: topItems_def getTopItemCount_def)
  have down: "j < downItemCount t \<Longrightarrow> items t ! j = downItems t ! j" for j by (simp add: downItems_def)
  have top0: "0 < getTopItemCount t \<Longrightarrow> items t ! downItemCount t = topItems t ! 0" using top [of 0] by simp
  have topS: "Suc j < getTopItemCount t \<Longrightarrow> items t ! Suc (downItemCount t + j) = topItems t ! Suc j" for j using top [of "Suc j"] by simp
  show ?thesis
    using n top top0 topS down len
    by (cases "ground t"; cases k) (auto simp: getThing_def stack_def Let_def nth_append getTopItemCount_length nth_Cons')
qed

lemma distinct_stack: "stack_ok t \<Longrightarrow> distinct (stack t)"
  unfolding stack_ok_def stack_def all_items_def
  by (subst (asm) items_split) (auto simp: distinct_map inj_on_def split: option.splits)

text \<open>C17: The index of a thing on a tile is its place in the stack of ground, items on top, creatures and ordinary items, and
  -1 when it is not there; looking up an index finds the thing at that place; so the index of what is found
  at an index is that index again.\<close>

theorem indices_follow_the_stack:
  assumes "stack_ok t"
  shows "getThingIndex th t = (case find_index th (stack t) of Some k \<Rightarrow> int k | None \<Rightarrow> - 1) \<and>
    getThing k t = (if k < length (stack t) then Some (stack t ! k) else None) \<and>
    (getThing k t = Some th \<longleftrightarrow> getThingIndex th t = int k)"
proof -
  have i: "getThingIndex th t = (case find_index th (stack t) of Some k \<Rightarrow> int k | None \<Rightarrow> - 1)"
    by (rule find_index_thing [OF assms])
  have g: "getThing k t = (if k < length (stack t) then Some (stack t ! k) else None)" by (rule getThing_nth [OF assms])
  have "getThing k t = Some th \<longleftrightarrow> getThingIndex th t = int k"
  proof
    assume "getThing k t = Some th"
    then have "k < length (stack t)" "stack t ! k = th" using g by (auto split: if_splits)
    then show "getThingIndex th t = int k" using tile_find_index_nth [OF distinct_stack [OF assms]] i by auto
  next
    assume "getThingIndex th t = int k"
    then have "find_index th (stack t) = Some k" using i by (auto split: option.splits)
    then show "getThing k t = Some th" using g find_index_Some by fastforce
  qed
  then show ?thesis using i g by blast
qed

section \<open>Operations keep the stack in order\<close>

lemma insert_before_split: "\<exists>ys zs. xs = ys @ zs \<and> insert_before before x xs = ys @ x # zs \<and> (\<forall>y\<in>set ys. \<not> before y) \<and> (zs \<noteq> [] \<longrightarrow> before (hd zs))"
proof (induction xs)
  case (Cons a xs)
  show ?case
  proof (cases "before a")
    case True
    then show ?thesis by (intro exI [of _ "[]"] exI [of _ "a # xs"]) simp
  next
    case False
    from Cons.IH obtain ys zs where "xs = ys @ zs" "insert_before before x xs = ys @ x # zs" "\<forall>y\<in>set ys. \<not> before y" "zs \<noteq> [] \<longrightarrow> before (hd zs)"
      by blast
    then show ?thesis using False by (intro exI [of _ "a # ys"] exI [of _ zs]) simp
  qed
qed simp

lemma set_insert_before [simp]: "set (insert_before before x xs) = insert x (set xs)"
  by (induction xs) auto

lemma length_insert_before [simp]: "length (insert_before before x xs) = Suc (length xs)"
  by (induction xs) auto

lemma distinct_insert_before: "distinct (insert_before before x xs) \<longleftrightarrow> x \<notin> set xs \<and> distinct xs"
  by (induction xs) auto

text \<open>Both ways of inserting among sorted items keep them sorted.\<close>

lemma sorted_insert_before:
  fixes f :: "'a \<Rightarrow> nat"
  assumes "sorted (map f xs)" and "\<And>y. before y \<Longrightarrow> f x \<le> f y" and "\<And>y. \<not> before y \<Longrightarrow> f y \<le> f x"
  shows "sorted (map f (insert_before before x xs))"
proof -
  obtain ys zs where s: "xs = ys @ zs" "insert_before before x xs = ys @ x # zs" "\<forall>y\<in>set ys. \<not> before y" "zs \<noteq> [] \<longrightarrow> before (hd zs)"
    using insert_before_split [of xs before x] by blast
  have "f x \<le> f z" if "z \<in> set zs" for z
  proof -
    have zs: "sorted (map f zs)" using assms(1) s(1) by (simp add: sorted_append)
    have "zs \<noteq> []" using that by auto
    then obtain a as where a: "zs = a # as" by (cases zs) simp_all
    have "f x \<le> f a" using s(4) assms(2) a by simp
    moreover have "f a \<le> f z" using zs that a by auto
    ultimately show ?thesis by (rule order_trans)
  qed
  moreover have "f y \<le> f x" if "y \<in> set ys" for y using assms(3) s(3) that by blast
  moreover have "sorted (map f ys)" "sorted (map f zs)" "\<forall>y\<in>set ys. \<forall>z\<in>set zs. f y \<le> f z"
    using assms(1) s(1) by (simp_all add: sorted_append)
  ultimately show ?thesis unfolding s(2) by (auto simp: sorted_append)
qed

lemma sorted_remove1_map: "sorted (map f xs) \<Longrightarrow> sorted (map f (remove1 x xs))"
proof (induction xs)
  case (Cons y ys)
  have "set (map f (remove1 x ys)) \<subseteq> set (map f ys)" by (auto dest: notin_set_remove1 [rotated] set_remove1_subset [THEN subsetD])
  then show ?case using Cons by auto
qed simp

lemma stack_okI:
  assumes "items t = d @ u" and "downItemCount t = length d" and "length d + length u \<le> 65535"
    and "distinct (case ground t of None \<Rightarrow> [] | Some g \<Rightarrow> [g])" and "\<And>g. ground t = Some g \<Longrightarrow> g \<notin> set d \<union> set u"
    and "distinct d" and "distinct u" and "set d \<inter> set u = {}" and "distinct (creatures t)"
    and "\<And>i. i \<in> set d \<Longrightarrow> \<not> alwaysOnTop (kind_of t i)" and "\<And>i. i \<in> set u \<Longrightarrow> alwaysOnTop (kind_of t i)"
  shows "stack_ok t"
proof -
  have "downItems t = d" "topItems t = u" using assms(1,2) by (simp_all add: downItems_def topItems_def)
  then show ?thesis using assms by (auto simp: stack_ok_def all_items_def split: option.splits)
qed

lemma stack_okD:
  assumes "stack_ok t"
  shows "downItemCount t = length (downItems t)" and "length (downItems t) + length (topItems t) \<le> 65535"
    and "\<And>g. ground t = Some g \<Longrightarrow> g \<notin> set (downItems t) \<union> set (topItems t)"
    and "distinct (downItems t)" and "distinct (topItems t)" and "set (downItems t) \<inter> set (topItems t) = {}"
    and "distinct (creatures t)" and "\<And>i. i \<in> set (downItems t) \<Longrightarrow> \<not> alwaysOnTop (kind_of t i)"
    and "\<And>i. i \<in> set (topItems t) \<Longrightarrow> alwaysOnTop (kind_of t i)"
proof -
  have d: "distinct (items t)" "\<And>g. ground t = Some g \<Longrightarrow> g \<notin> set (items t)" using assms by (auto simp: stack_ok_def all_items_def)
  have n: "downItemCount t \<le> length (items t)" using assms by (simp add: stack_ok_def)
  show "downItemCount t = length (downItems t)" using n by (simp add: downItems_def)
  show "length (downItems t) + length (topItems t) \<le> 65535" using assms n by (simp add: stack_ok_def downItems_def topItems_def)
  show "ground t = Some g \<Longrightarrow> g \<notin> set (downItems t) \<union> set (topItems t)" for g using d(2) by (auto simp: items_split [of t])
  show "distinct (downItems t)" "distinct (topItems t)" "set (downItems t) \<inter> set (topItems t) = {}"
    using d(1) by (subst (asm) items_split, simp)+
qed (use assms in \<open>simp_all add: stack_ok_def\<close>)

lemma put_down_ok:
  assumes t: "stack_ok t" and i: "i \<notin> set (all_items t)" "\<not> alwaysOnTop (kind_of t i)" "length (items t) < 65535"
  shows "stack_ok (put_down i t)"
proof -
  note d = stack_okD [OF t]
  have n: "length (items t) = length (downItems t) + length (topItems t)" by (simp add: items_split [of t])
  show ?thesis
    by (rule stack_okI [where d = "i # downItems t" and u = "topItems t"])
      (use d i n in \<open>auto simp: put_down_def all_items_def items_split [of t] split: option.splits\<close>)
qed

lemma put_on_top_ok:
  assumes t: "stack_ok t" and i: "i \<notin> set (all_items t)" "alwaysOnTop (kind_of t i)" "length (items t) < 65535"
  shows "stack_ok (put_on_top before i t)"
proof -
  note d = stack_okD [OF t]
  have n: "length (items t) = length (downItems t) + length (topItems t)" by (simp add: items_split [of t])
  show ?thesis
    by (rule stack_okI [where d = "downItems t" and u = "insert_before before i (topItems t)"])
      (use d i n in
        \<open>auto simp: put_on_top_def all_items_def items_split [of t] distinct_insert_before split: option.splits\<close>)
qed

lemma set_count_simps [simp]:
  "kind (heap (set_count i n t) j) = kind_of t j" "items (set_count i n t) = items t" "ground (set_count i n t) = ground t"
  "downItemCount (set_count i n t) = downItemCount t" "creatures (set_count i n t) = creatures t"
  "cls (heap (set_count i n t) j) = cls (heap t j)" "uniqueId (heap (set_count i n t) j) = uniqueId (heap t j)"
  by (simp_all add: set_count_def)

lemma tile_removeThing_ok:
  assumes t: "stack_ok t"
  shows "stack_ok (removeThing th n t)"
proof (cases th)
  case (Creature c)
  show ?thesis
    by (rule stack_okI [where d = "downItems t" and u = "topItems t"])
      (use stack_okD [OF t] in \<open>auto simp: Creature removeThing_def items_split [of t] distinct_remove1 split: option.splits\<close>)
next
  case (Item i)
  note d = stack_okD [OF t]
  have g: "stack_ok (t\<lparr>ground := None\<rparr>)"
    by (rule stack_okI [where d = "downItems t" and u = "topItems t"]) (use d in \<open>auto simp: items_split [of t]\<close>)
  have u: "stack_ok (t\<lparr>items := downItems t @ remove1 i (topItems t)\<rparr>)" if "i \<in> set (topItems t)"
    by (rule stack_okI [where d = "downItems t" and u = "remove1 i (topItems t)"])
      (use d that in \<open>auto simp: distinct_remove1 length_remove1 split: option.splits dest: notin_set_remove1\<close>)
  have c: "stack_ok (set_count i m t)" for m
    by (rule stack_okI [where d = "downItems t" and u = "topItems t"])
      (use d in \<open>auto simp: items_split [of t] split: option.splits\<close>)
  have w: "stack_ok (t\<lparr>items := remove1 i (downItems t) @ topItems t, downItemCount := downItemCount t - 1\<rparr>)" if "i \<in> set (downItems t)"
    by (rule stack_okI [where d = "remove1 i (downItems t)" and u = "topItems t"])
      (use d that in \<open>auto simp: distinct_remove1 length_remove1 split: option.splits dest: notin_set_remove1\<close>)
  show ?thesis using t g u c w by (simp add: Item removeThing_def onRemoveTileItem_def)
qed

section \<open>Flags sum up the items\<close>

text \<open>The flags that a removal resets only when no other item needs them.\<close>

definition kept_flags :: "(nat \<times> ITEMPROPERTY) set" where
  "kept_flags = {(17, CONST_PROP_BLOCKSOLID), (18, CONST_PROP_BLOCKPATH), (19, CONST_PROP_IMMOVABLEBLOCKSOLID),
     (21, CONST_PROP_IMMOVABLENOFIELDBLOCKPATH), (22, CONST_PROP_NOFIELDBLOCKPATH)}"

definition flags_ok :: "tile \<Rightarrow> bool" where
  "flags_ok t \<longleftrightarrow> (\<forall>(k, p)\<in>kept_flags. bit (tflags t) k = hasProperty p t)"

lemma bit_set_if [simp]: "bit (tflags (set_if b f t)) k \<longleftrightarrow> bit (tflags t) k \<or> b \<and> bit f k"
  by (simp add: set_if_def setFlag_def bit_or_iff)

lemma bit_reset_if [simp]: "bit (tflags (reset_if b f t)) k \<longleftrightarrow> bit (tflags t) k \<and> \<not> (b \<and> bit f k)"
proof (cases "k < 32")
  case True
  then show ?thesis by (simp add: reset_if_def resetFlag_def bit_and_iff bit_not_iff)
next
  case False
  then show ?thesis by (simp add: impossible_bit)
qed

lemma hasFlag_bit: "k < 32 \<Longrightarrow> hasFlag (push_bit k 1) t \<longleftrightarrow> bit (tflags t) k"
proof -
  assume k: "k < 32"
  have "tflags t AND push_bit k 1 \<noteq> 0 \<longleftrightarrow> bit (tflags t) k"
    using k bit_eq_iff [of "tflags t AND push_bit k 1" 0] by (auto simp: bit_simps)
  then show ?thesis by (simp add: hasFlag_def)
qed

lemma hasProperty_set: "hasProperty p t \<longleftrightarrow> (\<exists>j\<in>set (all_items t). item_hasProperty p (heap t j))"
  by (simp add: hasProperty_def list_ex_iff)

lemma hasProperty_without_set: "hasProperty_without i p t \<longleftrightarrow> (\<exists>j\<in>set (all_items t) - {i}. item_hasProperty p (heap t j))"
  by (auto simp: hasProperty_without_def list_ex_iff)

lemma all_items_flags [simp]:
  "all_items (set_if b f t) = all_items t" "all_items (reset_if b f t) = all_items t" "all_items (setTileFlags i t) = all_items t"
  "all_items (resetTileFlags i t) = all_items t" "all_items (reset_prop i p f t) = all_items t"
  by (simp_all add: all_items_def)

lemma hasProperty_flags [simp]:
  "hasProperty p (setTileFlags i t) = hasProperty p t" "hasProperty p (resetTileFlags i t) = hasProperty p t"
  "hasProperty_without j p (reset_if b f t) = hasProperty_without j p t"
  "hasProperty_without j p (reset_prop i q f t) = hasProperty_without j p t"
  by (simp_all add: hasProperty_set hasProperty_without_set)

lemma set_bits:
  assumes "(k, p) \<in> kept_flags"
  shows "bit (tflags (setTileFlags i t)) k \<longleftrightarrow> bit (tflags t) k \<or> item_hasProperty p (heap t i)"
proof -
  have big: "\<not> bit (ucast (floorChange (kind (heap t i))) :: u32) k"
    using assms by (auto simp: kept_flags_def bit_ucast_iff impossible_bit)
  show ?thesis
    using assms big unfolding kept_flags_def
    by (elim insertE emptyE) (simp_all add: setTileFlags_def Let_def tile_flag_defs bit_simps)
qed

lemma reset_bits:
  assumes "(k, p) \<in> kept_flags"
  shows "bit (tflags (resetTileFlags i t)) k \<longleftrightarrow> bit (tflags t) k \<and> \<not> (item_hasProperty p (heap t i) \<and> \<not> hasProperty_without i p t)"
proof -
  have low: "\<not> bit TILESTATE_FLOORCHANGE k" using assms by (auto simp: kept_flags_def TILESTATE_FLOORCHANGE_def bit_iff_odd)
  show ?thesis
    using assms low unfolding kept_flags_def
    by (elim insertE emptyE) (simp_all add: resetTileFlags_def reset_prop_def Let_def tile_flag_defs bit_simps)
qed

lemma flags_okI: "(\<And>k p. (k, p) \<in> kept_flags \<Longrightarrow> bit (tflags t) k = hasProperty p t) \<Longrightarrow> flags_ok t"
  by (auto simp: flags_ok_def)

lemma flags_okD: "flags_ok t \<Longrightarrow> (k, p) \<in> kept_flags \<Longrightarrow> bit (tflags t) k = hasProperty p t"
  by (auto simp: flags_ok_def)

lemma flags_after_add:
  assumes "flags_ok t" and "tflags t' = tflags t" and "heap t' = heap t" and "set (all_items t') = insert i (set (all_items t))"
  shows "flags_ok (setTileFlags i t')"
  by (rule flags_okI) (use assms flags_okD [OF assms(1)] in \<open>auto simp: set_bits hasProperty_set\<close>)

lemma flags_after_removal:
  assumes "flags_ok t" and "tflags t' = tflags t" and "heap t' = heap t"
    and "set (all_items t) = insert i (set (all_items t'))" and "i \<notin> set (all_items t')"
  shows "flags_ok (resetTileFlags i t')"
  by (rule flags_okI) (use assms flags_okD [OF assms(1)] in \<open>auto simp: reset_bits hasProperty_set hasProperty_without_set\<close>)

lemma flags_after_exchange:
  assumes "flags_ok t" and "tflags t' = tflags t" and "heap t' = heap t"
    and "insert g (set (all_items t')) = insert i (set (all_items t))" and "g \<notin> set (all_items t')" and "g \<in> set (all_items t)"
    and "i \<in> set (all_items t')" and "i \<notin> set (all_items t)"
  shows "flags_ok (setTileFlags i (resetTileFlags g t'))"
proof (rule flags_okI)
  fix k p
  assume k: "(k, p) \<in> kept_flags"
  have t: "set (all_items t) = insert g (set (all_items t') - {i})" using assms(4-8) by blast
  have "hasProperty_without g p t' \<longleftrightarrow> hasProperty p t'" using assms(5) by (auto simp: hasProperty_set hasProperty_without_set)
  moreover have "hasProperty p t \<longleftrightarrow> item_hasProperty p (heap t g) \<or> (\<exists>j\<in>set (all_items t') - {i}. item_hasProperty p (heap t j))"
    unfolding hasProperty_set t by blast
  moreover have "hasProperty p t' \<longleftrightarrow> item_hasProperty p (heap t i) \<or> (\<exists>j\<in>set (all_items t') - {i}. item_hasProperty p (heap t j))"
    unfolding hasProperty_set assms(3) using assms(7) by blast
  ultimately show "bit (tflags (setTileFlags i (resetTileFlags g t'))) k = hasProperty p (setTileFlags i (resetTileFlags g t'))"
    using flags_okD [OF assms(1) k] assms(2,3) by (auto simp: set_bits [OF k] reset_bits [OF k])
qed

lemma flags_after_update:
  assumes "flags_ok t" and i: "i \<in> set (all_items t)"
  shows "flags_ok (setTileFlags i ((resetTileFlags i t)\<lparr>heap := (heap t)(i := x)\<rparr>))" (is "flags_ok (setTileFlags i ?t)")
proof (rule flags_okI)
  fix k p
  assume k: "(k, p) \<in> kept_flags"
  have a: "all_items ?t = all_items t" by (simp add: all_items_def)
  have "hasProperty p ?t \<longleftrightarrow> item_hasProperty p x \<or> hasProperty_without i p t"
    unfolding hasProperty_set hasProperty_without_set a using i by auto
  moreover have "hasProperty p t \<longleftrightarrow> item_hasProperty p (heap t i) \<or> hasProperty_without i p t"
    unfolding hasProperty_set hasProperty_without_set using i by auto
  ultimately show "bit (tflags (setTileFlags i ?t)) k = hasProperty p (setTileFlags i ?t)"
    using flags_okD [OF assms(1) k] by (auto simp: set_bits [OF k] reset_bits [OF k])
qed

section \<open>Tiles stay in order\<close>

definition tile_ok :: "tile \<Rightarrow> bool" where
  "tile_ok t \<longleftrightarrow> stack_ok t \<and> flags_ok t"

lemma tflags_changes [simp]:
  "tflags (put_down i t) = tflags t" "tflags (put_on_top b i t) = tflags t" "tflags (throw_away i t) = tflags t"
  "tflags (set_count i n t) = tflags t" "tflags (add_creature c t) = tflags t"
  "heap (put_down i t) = heap t" "heap (put_on_top b i t) = heap t" "heap (throw_away i t) = heap t" "heap (add_creature c t) = heap t"
  by (simp_all add: put_down_def put_on_top_def throw_away_def set_count_def add_creature_def)

lemma all_items_changes [simp]:
  "set (all_items (put_down i t)) = insert i (set (all_items t))"
  "set (all_items (put_on_top b i t)) = insert i (set (all_items t))"
  "all_items (throw_away i t) = all_items t" "all_items (add_creature c t) = all_items t" "all_items (set_count i n t) = all_items t"
proof -
  show "set (all_items (put_on_top b i t)) = insert i (set (all_items t))"
    using arg_cong [OF items_split [of t], of set] by (auto simp: put_on_top_def all_items_def split: option.splits)
qed (auto simp: put_down_def throw_away_def add_creature_def set_count_def all_items_def split: option.splits)

lemma add_creature_ok: "tile_ok t \<Longrightarrow> c \<notin> set (creatures t) \<Longrightarrow> tile_ok (add_creature c t)"
  by (auto simp: tile_ok_def stack_ok_def flags_ok_def hasProperty_set add_creature_def all_items_def downItems_def topItems_def)

lemma flags_set_count: "flags_ok t \<Longrightarrow> flags_ok (set_count i n t)"
proof (rule flags_okI)
  fix k p
  assume "flags_ok t" "(k, p) \<in> kept_flags"
  moreover have "item_hasProperty p (heap (set_count i n t) j) = item_hasProperty p (heap t j)" for j by (cases p) simp_all
  ultimately show "bit (tflags (set_count i n t)) k = hasProperty p (set_count i n t)"
    using flags_okD by (simp add: hasProperty_set)
qed

text \<open>What a removal leaves, and that the item is gone unless only its count was changed.\<close>

lemma removeThing_tile_ok:
  assumes t: "tile_ok t"
  shows "tile_ok (removeThing th n t)"
proof -
  have s: "stack_ok t" and f: "flags_ok t" using t by (simp_all add: tile_ok_def)
  note d = stack_okD [OF s]
  have set_items: "set (items t) = set (downItems t) \<union> set (topItems t)" by (subst items_split) simp
  have "flags_ok (removeThing th n t)"
  proof (cases th)
    case (Creature c)
    then show ?thesis using f by (simp add: removeThing_def flags_ok_def hasProperty_set all_items_def)
  next
    case (Item i)
    have g: "flags_ok (resetTileFlags i (t\<lparr>ground := None\<rparr>))" if "ground t = Some i"
      by (rule flags_after_removal [OF f]) (use that d(3) set_items in \<open>auto simp: all_items_def\<close>)
    have ng: "ground t \<noteq> Some i" if "i \<in> set (downItems t) \<union> set (topItems t)" using d(3) that by auto
    have u: "flags_ok (resetTileFlags i (t\<lparr>items := downItems t @ remove1 i (topItems t)\<rparr>))" if "i \<in> set (topItems t)"
      by (rule flags_after_removal [OF f])
        (use that d(5,6) ng set_items in \<open>auto simp: all_items_def split: option.splits\<close>)
    have w: "flags_ok (resetTileFlags i (t\<lparr>items := remove1 i (downItems t) @ topItems t, downItemCount := downItemCount t - 1\<rparr>))"
      if "i \<in> set (downItems t)"
      by (rule flags_after_removal [OF f])
        (use that d(4,6) ng set_items in \<open>auto simp: all_items_def split: option.splits\<close>)
    show ?thesis using f g u w flags_set_count by (simp add: Item removeThing_def onRemoveTileItem_def)
  qed
  then show ?thesis using tile_removeThing_ok [OF s] by (simp add: tile_ok_def)
qed

lemma removeThing_items: "set (all_items (removeThing th n t)) \<subseteq> set (all_items t)"
proof (cases th)
  case (Item i)
  have "set (items t) = set (downItems t) \<union> set (topItems t)" by (subst items_split) simp
  then show ?thesis
    by (auto simp: Item removeThing_def onRemoveTileItem_def all_items_def split: option.splits if_splits dest: notin_set_remove1 [rotated])
qed (simp add: removeThing_def all_items_def)

lemma removeThing_kind [simp]: "kind (heap (removeThing th n t) j) = kind_of t j"
  by (cases th) (simp_all add: removeThing_def onRemoveTileItem_def)

lemma removeThing_length: "length (items (removeThing th n t)) \<le> length (items t)"
proof -
  have "length (items t) = length (downItems t) + length (topItems t)" by (subst items_split) simp
  then show ?thesis by (cases th) (auto simp: removeThing_def onRemoveTileItem_def length_remove1)
qed

lemma tile_ok_throw [simp]: "tile_ok (throw_away i t) = tile_ok t"
  by (simp add: tile_ok_def throw_away_def stack_ok_def flags_ok_def hasProperty_set all_items_def downItems_def topItems_def)

lemma put_down_tile_ok:
  assumes "tile_ok t" and "i \<notin> set (all_items t)" and "\<not> alwaysOnTop (kind_of t i)" and "length (items t) < 65535"
  shows "tile_ok (setTileFlags i (put_down i t))"
  using assms put_down_ok [of t i] flags_after_add [of t "put_down i t" i] by (simp add: tile_ok_def)

lemma put_on_top_tile_ok:
  assumes "tile_ok t" and "i \<notin> set (all_items t)" and "alwaysOnTop (kind_of t i)" and "length (items t) < 65535"
  shows "tile_ok (setTileFlags i (put_on_top before i t))"
  using assms put_on_top_ok [of t i before] flags_after_add [of t "put_on_top before i t" i] by (simp add: tile_ok_def)

lemma first_ground_ok:
  assumes t: "tile_ok t" and i: "i \<notin> set (all_items t)" and g: "ground t = None"
  shows "tile_ok (setTileFlags i (t\<lparr>ground := Some i\<rparr>))"
proof -
  have s: "stack_ok t" and f: "flags_ok t" using t by (simp_all add: tile_ok_def)
  have "stack_ok (t\<lparr>ground := Some i\<rparr>)" using s i g by (auto simp: stack_ok_def all_items_def downItems_def topItems_def)
  moreover have "flags_ok (setTileFlags i (t\<lparr>ground := Some i\<rparr>))"
    by (rule flags_after_add [OF f]) (use g in \<open>simp_all add: all_items_def\<close>)
  ultimately show ?thesis by (simp add: tile_ok_def)
qed

lemma next_ground_ok:
  assumes t: "tile_ok t" and i: "i \<notin> set (all_items t)" and g: "ground t = Some g"
  shows "tile_ok (setTileFlags i (resetTileFlags g (t\<lparr>ground := Some i\<rparr>)))"
proof -
  have s: "stack_ok t" and f: "flags_ok t" using t by (simp_all add: tile_ok_def)
  have d: "g \<notin> set (items t)" using s g by (auto simp: stack_ok_def all_items_def)
  have "stack_ok (t\<lparr>ground := Some i\<rparr>)" using s i g by (auto simp: stack_ok_def all_items_def downItems_def topItems_def)
  moreover have "flags_ok (setTileFlags i (resetTileFlags g (t\<lparr>ground := Some i\<rparr>)))"
    by (rule flags_after_exchange [OF f]) (use g i d in \<open>auto simp: all_items_def\<close>)
  ultimately show ?thesis by (simp add: tile_ok_def)
qed

lemma tile_addThing_ok:
  assumes t: "tile_ok t" and new: "\<And>i. th = Item i \<Longrightarrow> i \<notin> set (all_items t)" "\<And>c. th = Creature c \<Longrightarrow> c \<notin> set (creatures t)"
  shows "tile_ok (addThing th t)"
proof (cases th)
  case (Creature c)
  then show ?thesis using add_creature_ok [OF t] new by (simp add: addThing_def)
next
  case (Item i)
  have i: "i \<notin> set (all_items t)" using new Item by blast
  consider "length (items t) \<ge> 65535" | (g) "length (items t) < 65535" "isGroundTile (kind_of t i)"
    | (u) "length (items t) < 65535" "\<not> isGroundTile (kind_of t i)" "alwaysOnTop (kind_of t i)"
    | (d) "length (items t) < 65535" "\<not> isGroundTile (kind_of t i)" "\<not> alwaysOnTop (kind_of t i)"
    by linarith
  then show ?thesis
  proof cases
    case 1
    then show ?thesis using t by (simp add: Item addThing_def)
  next
    case g
    have "tile_ok (setTileFlags i (resetTileFlags j ((throw_away j t)\<lparr>ground := Some i\<rparr>)))" if "ground t = Some j" for j
    proof -
      have "ground (throw_away j t) = Some j" using that by (simp add: throw_away_def)
      then show ?thesis using next_ground_ok [of "throw_away j t" i j] t i by simp
    qed
    then show ?thesis using g first_ground_ok [OF t i]
      by (cases "ground t") (simp_all add: Item addThing_def onAddTileItem_def)
  next
    case u
    define s where "s = (case find (\<lambda>j. isSplash (kind_of t j)) (topItems t) of
                  Some old \<Rightarrow> if isSplash (kind_of t i) then throw_away old (removeThing (Item old) 1 t) else t
                | None \<Rightarrow> t)"
    have "tile_ok s" using t removeThing_tile_ok [OF t] by (auto simp: s_def split: option.splits)
    moreover have "i \<notin> set (all_items s)" using i by (auto simp: s_def split: option.splits dest: subsetD [OF removeThing_items])
    moreover have "kind_of s j = kind_of t j" for j by (simp add: s_def split: option.splits)
    moreover have "length (items s) < 65535"
      using u(1) le_less_trans [OF removeThing_length] by (auto simp: s_def throw_away_def split: option.splits)
    ultimately have "tile_ok (setTileFlags i (put_on_top (\<lambda>j. alwaysOnTopOrder (kind_of s i) \<le> alwaysOnTopOrder (kind_of s j)) i s))"
      using u(3) by (intro put_on_top_tile_ok) simp_all
    then show ?thesis using u by (simp add: Item addThing_def onAddTileItem_def Let_def s_def)
  next
    case d
    have replaced: "tile_ok (setTileFlags i (put_down i (throw_away old (removeThing (Item old) 1 t))))" for old
    proof (rule put_down_tile_ok)
      show "tile_ok (throw_away old (removeThing (Item old) 1 t))" using removeThing_tile_ok [OF t] by simp
      show "i \<notin> set (all_items (throw_away old (removeThing (Item old) 1 t)))"
        using i by (auto dest: subsetD [OF removeThing_items])
      show "length (items (throw_away old (removeThing (Item old) 1 t))) < 65535"
        using d(1) le_less_trans [OF removeThing_length] by (simp add: throw_away_def)
    qed (use d in simp)
    show ?thesis
      using d t i replaced put_down_tile_ok [OF t i]
      by (auto simp: Item addThing_def onAddTileItem_def split: option.splits)
  qed
qed

lemma tile_internalAddThing_ok:
  assumes t: "tile_ok t" and new: "\<And>i. th = Item i \<Longrightarrow> i \<notin> set (all_items t)" "\<And>c. th = Creature c \<Longrightarrow> c \<notin> set (creatures t)"
  shows "tile_ok (internalAddThing th t)"
proof (cases th)
  case (Creature c)
  then show ?thesis using add_creature_ok [OF t] new by (simp add: internalAddThing_def)
next
  case (Item i)
  have i: "i \<notin> set (all_items t)" using new Item by blast
  show ?thesis
    using t i first_ground_ok [OF t i] put_down_tile_ok [OF t i]
      put_on_top_tile_ok [OF t i, of "\<lambda>j. alwaysOnTopOrder (kind_of t j) > alwaysOnTopOrder (kind_of t i)"]
    by (auto simp: Item internalAddThing_def split: option.splits)
qed

text \<open>Only kinds that stay in the same part of the vector are exchanged in place.\<close>

definition same_place :: "item_type \<Rightarrow> item_type \<Rightarrow> bool" where
  "same_place k k' \<longleftrightarrow> alwaysOnTop k = alwaysOnTop k'"

lemma index_found: "stack_ok t \<Longrightarrow> getThingIndex (Item i) t \<noteq> - 1 \<Longrightarrow> i \<in> set (all_items t)"
proof -
  assume t: "stack_ok t" and n: "getThingIndex (Item i) t \<noteq> - 1"
  have "set (items t) = set (downItems t) \<union> set (topItems t)" by (subst items_split) simp
  moreover have "Item i \<in> set (stack t)"
    by (rule ccontr) (use n find_index_thing [OF t, of "Item i"] in \<open>simp flip: find_index_None\<close>)
  ultimately show ?thesis by (auto simp: stack_def all_items_def split: option.splits)
qed

lemma tile_updateThing_ok:
  assumes t: "tile_ok t" and k: "same_place (kind_of t i) k"
  shows "tile_ok (updateThing i k n t)"
proof (cases "getThingIndex (Item i) t = - 1")
  case True
  then show ?thesis using t by (simp add: updateThing_def)
next
  case False
  have s: "stack_ok t" and f: "flags_ok t" using t by (simp_all add: tile_ok_def)
  let ?x = "setSubType (ucast n) ((heap t i)\<lparr>kind := k\<rparr>)"
  let ?t = "(resetTileFlags i t)\<lparr>heap := (heap t)(i := ?x)\<rparr>"
  have e: "updateThing i k n t = setTileFlags i ?t" using False by (simp add: updateThing_def Let_def)
  have same: "alwaysOnTop (kind_of ?t j) = alwaysOnTop (kind_of t j)" for j
    using k by (simp add: same_place_def)
  have "stack_ok ?t" using s unfolding stack_ok_def same by (simp add: all_items_def downItems_def topItems_def)
  moreover have "flags_ok (setTileFlags i ?t)" by (rule flags_after_update [OF f index_found [OF s False]])
  ultimately show ?thesis unfolding e by (simp add: tile_ok_def)
qed

lemma getThing_Item:
  assumes s: "stack_ok t" and g: "getThing k t = Some (Item old)"
  shows "ground t \<noteq> None \<and> k = 0 \<and> ground t = Some old \<or>
    (\<exists>j<length (topItems t). k = j + (if ground t = None then 0 else 1) \<and> topItems t ! j = old) \<or>
    (\<exists>j<length (downItems t). k = j + length (topItems t) + length (creatures t) + (if ground t = None then 0 else 1) \<and> downItems t ! j = old)"
proof -
  have n: "downItemCount t \<le> length (items t)" using s by (simp add: stack_ok_def)
  have len: "length (downItems t) = downItemCount t" using n by (simp add: downItems_def)
  have top: "j < getTopItemCount t \<Longrightarrow> items t ! (downItemCount t + j) = topItems t ! j" for j
    using n by (simp add: topItems_def getTopItemCount_def)
  have down: "j < downItemCount t \<Longrightarrow> items t ! j = downItems t ! j" for j by (simp add: downItems_def)
  show ?thesis
  proof (cases "ground t \<noteq> None \<and> k = 0")
    case True
    then show ?thesis using g by (auto simp: getThing_def)
  next
    case False
    define o' where "o' = (if ground t = None then 0 else 1 :: nat)"
    define j where "j = k - o'"
    have k: "k = j + o'" using False by (auto simp: j_def o'_def)
    have kj: "(if ground t \<noteq> None then k - 1 else k) = j" by (simp add: j_def o'_def)
    have r: "(if j < getTopItemCount t then Some (Item (items t ! (downItemCount t + j)))
        else if j - getTopItemCount t < length (creatures t) then Some (Creature (creatures t ! (j - getTopItemCount t)))
        else if j - getTopItemCount t - length (creatures t) < downItemCount t
          then Some (Item (items t ! (j - getTopItemCount t - length (creatures t)))) else None) = Some (Item old)"
      using g False unfolding getThing_def Let_def kj by (simp only: if_False)
    show ?thesis
    proof (cases "j < getTopItemCount t")
      case True
      then have "topItems t ! j = old" using r top by simp
      then show ?thesis using True k unfolding o'_def getTopItemCount_length by blast
    next
      case f: False
      define m where "m = j - getTopItemCount t - length (creatures t)"
      have "\<not> j - getTopItemCount t < length (creatures t)" "m < downItemCount t" "items t ! m = old"
        using r f by (auto simp: m_def split: if_splits)
      then have "m < length (downItems t)" "downItems t ! m = old" "k = m + length (topItems t) + length (creatures t) + o'"
        using down [of m] f k by (simp_all add: len m_def getTopItemCount_length)
      then show ?thesis unfolding o'_def by blast
    qed
  qed
qed

lemma tile_replaceThing_ok:
  assumes t: "tile_ok t" and i: "i \<notin> set (all_items t)"
    and k: "\<And>old. getThing index t = Some (Item old) \<Longrightarrow> same_place (kind_of t old) (kind_of t i)"
  shows "tile_ok (replaceThing index i t)"
proof (cases "getThing index t")
  case None
  then show ?thesis using t by (simp add: replaceThing_def)
next
  case (Some th)
  have s: "stack_ok t" and f: "flags_ok t" using t by (simp_all add: tile_ok_def)
  note d = stack_okD [OF s]
  have all: "set (items t) = set (downItems t) \<union> set (topItems t)" by (subst items_split) simp
  show ?thesis
  proof (cases th)
    case (Creature c)
    then show ?thesis using t Some by (simp add: replaceThing_def)
  next
    case (Item old)
    have p: "same_place (kind_of t old) (kind_of t i)" using k Some Item by blast
    define n where "n = (if ground t = None then 0 else 1 :: nat)"
    from getThing_Item [OF s] Some Item
    consider (g) "index = 0" "ground t = Some old"
      | (u) j where "j < length (topItems t)" "index = j + n" "topItems t ! j = old"
      | (w) j where "j < length (downItems t)" "index = j + length (topItems t) + length (creatures t) + n" "downItems t ! j = old"
      unfolding n_def by blast
    then show ?thesis
    proof cases
      case g
      then show ?thesis using next_ground_ok [OF t i g(2)] Some Item by (simp add: replaceThing_def)
    next
      case u
      let ?t = "t\<lparr>items := downItems t @ (topItems t)[j := i]\<rparr>"
      have old: "old \<in> set (topItems t)" using u by (auto simp: in_set_conv_nth)
      have "(items t)[downItemCount t + j := i] = downItems t @ (topItems t)[j := i]"
        by (subst items_split) (simp add: d(1) list_update_append)
      moreover have c: "(ground t \<noteq> None \<and> index = 0) = False" and "index - n = j" using u(2) by (auto simp: n_def)
      ultimately have e: "replaceThing index i t = setTileFlags i (resetTileFlags old ?t)"
        unfolding replaceThing_def Let_def n_def [symmetric] c using Some Item u(1) by (simp add: getTopItemCount_length)
      have dist: "distinct ((topItems t)[j := i])" using d(5) i all by (intro distinct_list_update) (auto simp: all_items_def)
      have set_u: "set ((topItems t)[j := i]) = insert i (set (topItems t) - {old})"
        using set_update_distinct [OF d(5) u(1), of i] u(3) by simp
      have "stack_ok ?t"
        by (rule stack_okI [where d = "downItems t" and u = "(topItems t)[j := i]"])
          (use d dist set_u i all old p d(9) [OF old] in \<open>auto simp: all_items_def same_place_def split: option.splits\<close>)
      moreover have "flags_ok (setTileFlags i (resetTileFlags old ?t))"
        by (rule flags_after_exchange [OF f])
          (use set_u i all old d(3,6) in \<open>auto simp: all_items_def split: option.splits\<close>)
      ultimately show ?thesis unfolding e by (simp add: tile_ok_def)
    next
      case w
      let ?t = "t\<lparr>items := (downItems t)[j := i] @ topItems t\<rparr>"
      have old: "old \<in> set (downItems t)" using w by (auto simp: in_set_conv_nth)
      have "(items t)[j := i] = (downItems t)[j := i] @ topItems t"
        by (subst items_split) (simp add: w(1) list_update_append)
      moreover have c: "(ground t \<noteq> None \<and> index = 0) = False" and "\<not> index - n < length (topItems t)"
        "index - n - length (topItems t) - length (creatures t) = j"
        using w(2) by (auto simp: n_def)
      ultimately have e: "replaceThing index i t = setTileFlags i (resetTileFlags old ?t)"
        unfolding replaceThing_def Let_def n_def [symmetric] c using Some Item by (simp add: getTopItemCount_length)
      have dist: "distinct ((downItems t)[j := i])" using d(4) i all by (intro distinct_list_update) (auto simp: all_items_def)
      have set_u: "set ((downItems t)[j := i]) = insert i (set (downItems t) - {old})"
        using set_update_distinct [OF d(4) w(1), of i] w(3) by simp
      have "stack_ok ?t"
        by (rule stack_okI [where d = "(downItems t)[j := i]" and u = "topItems t"])
          (use d dist set_u i all old p d(8) [OF old] in \<open>auto simp: all_items_def same_place_def split: option.splits\<close>)
      moreover have "flags_ok (setTileFlags i (resetTileFlags old ?t))"
        by (rule flags_after_exchange [OF f])
          (use set_u i all old d(3,6) in \<open>auto simp: all_items_def split: option.splits\<close>)
      ultimately show ?thesis unfolding e by (simp add: tile_ok_def)
    qed
  qed
qed

section \<open>Questions\<close>

datatype ReturnValue =
    RETURNVALUE_NOERROR
  | RETURNVALUE_NOTPOSSIBLE
  | RETURNVALUE_NOTENOUGHROOM
  | RETURNVALUE_NEEDEXCHANGE
  | RETURNVALUE_NOTMOVEABLE
  | RETURNVALUE_PLAYERISPZLOCKED
  | RETURNVALUE_PLAYERISPZLOCKEDENTERPVPZONE
  | RETURNVALUE_PLAYERISPZLOCKEDLEAVEPVPZONE

definition TILESTATE_PROTECTIONZONE :: u32 where "TILESTATE_PROTECTIONZONE = push_bit 7 1"
definition TILESTATE_NOPVPZONE :: u32 where "TILESTATE_NOPVPZONE = push_bit 8 1"
definition TILESTATE_NOLOGOUT :: u32 where "TILESTATE_NOLOGOUT = push_bit 9 1"
definition TILESTATE_PVPZONE :: u32 where "TILESTATE_PVPZONE = push_bit 10 1"

record query_flags =
  NOLIMIT :: bool
  IGNOREBLOCKITEM :: bool
  IGNOREBLOCKCREATURE :: bool
  PATHFINDING :: bool
  IGNOREFIELDDAMAGE :: bool
  IGNORENOTMOVEABLE :: bool

text \<open>What a tile asks the creature that comes, about itself and about the creatures and fields on the tile.\<close>

record visitor =
  v_isMonster :: bool
  v_isPlayer :: bool
  canPushCreatures :: bool
  canPushItems :: bool
  v_isSummon :: bool
  isImmuneTo :: "iid \<Rightarrow> bool" \<comment> \<open>to the combat type of a field\<close>
  canWalkOnField :: "iid \<Rightarrow> bool"
  isIgnoringFieldDamage :: bool
  isAccessPlayer :: bool
  canWalkthrough :: "cid \<Rightarrow> bool"
  isPlaced :: bool \<comment> \<open>\<open>getParent()\<close>\<close>
  isPzLocked :: bool
  from_flags :: "u32 option" \<comment> \<open>flags of the tile the player is on\<close>
  inGhostMode :: "cid \<Rightarrow> bool"
  playerInGhostMode :: "cid \<Rightarrow> bool"
  pushableMonster :: "cid \<Rightarrow> bool" \<comment> \<open>a monster that can be pushed and is not the summon of a player\<close>
  fieldDamage :: "iid \<Rightarrow> int"

definition query_monster :: "visitor \<Rightarrow> query_flags \<Rightarrow> tile \<Rightarrow> ReturnValue" where
  "query_monster v q t =
     (if hasFlag (TILESTATE_PROTECTIONZONE OR TILESTATE_FLOORCHANGE OR TILESTATE_TELEPORT) t then RETURNVALUE_NOTPOSSIBLE
      else if canPushCreatures v \<and> \<not> v_isSummon v \<and> list_ex (\<lambda>c. \<not> playerInGhostMode v c \<and> \<not> pushableMonster v c) (creatures t)
        then RETURNVALUE_NOTPOSSIBLE
      else if \<not> (canPushCreatures v \<and> \<not> v_isSummon v) \<and> list_ex (\<lambda>c. \<not> inGhostMode v c) (creatures t)
        then RETURNVALUE_NOTENOUGHROOM
      else if hasFlag TILESTATE_IMMOVABLEBLOCKSOLID t then RETURNVALUE_NOTPOSSIBLE
      else if PATHFINDING q \<and> hasFlag TILESTATE_IMMOVABLENOFIELDBLOCKPATH t then RETURNVALUE_NOTPOSSIBLE
      else if (hasFlag TILESTATE_BLOCKSOLID t \<or> PATHFINDING q \<and> hasFlag TILESTATE_NOFIELDBLOCKPATH t) \<and>
          \<not> (canPushItems v \<or> IGNOREBLOCKITEM q)
        then RETURNVALUE_NOTPOSSIBLE
      else
        (case getFieldItem t of
           None \<Rightarrow> RETURNVALUE_NOERROR
         | Some f \<Rightarrow>
             if blockSolid (kind_of t f) \<or> fieldDamage v f = 0 then RETURNVALUE_NOERROR
             else if \<not> isImmuneTo v f \<and> \<not> (IGNOREFIELDDAMAGE q \<and> (canWalkOnField v f \<or> isIgnoringFieldDamage v))
               then RETURNVALUE_NOTPOSSIBLE
             else RETURNVALUE_NOERROR))"

definition pz_answer :: "visitor \<Rightarrow> tile \<Rightarrow> ReturnValue" where
  "pz_answer v t =
     (case from_flags v of
        None \<Rightarrow> RETURNVALUE_NOERROR
      | Some fl \<Rightarrow>
          if \<not> isPzLocked v then RETURNVALUE_NOERROR
          else if fl AND TILESTATE_PVPZONE = 0 \<and> hasFlag TILESTATE_PVPZONE t then RETURNVALUE_PLAYERISPZLOCKEDENTERPVPZONE
          else if fl AND TILESTATE_PVPZONE \<noteq> 0 \<and> \<not> hasFlag TILESTATE_PVPZONE t then RETURNVALUE_PLAYERISPZLOCKEDLEAVEPVPZONE
          else if fl AND TILESTATE_NOPVPZONE = 0 \<and> hasFlag TILESTATE_NOPVPZONE t \<or>
              fl AND TILESTATE_PROTECTIONZONE = 0 \<and> hasFlag TILESTATE_PROTECTIONZONE t
            then RETURNVALUE_PLAYERISPZLOCKED
          else RETURNVALUE_NOERROR)"

definition query_blocking_items :: "query_flags \<Rightarrow> tile \<Rightarrow> ReturnValue" where
  "query_blocking_items q t =
     (if \<not> IGNOREBLOCKITEM q then (if hasFlag TILESTATE_BLOCKSOLID t then RETURNVALUE_NOTENOUGHROOM else RETURNVALUE_NOERROR)
      else if list_ex (\<lambda>i. blockSolid (kind_of t i) \<and> (\<not> moveable (kind_of t i) \<or> uniqueId (heap t i))) (all_items t)
        then RETURNVALUE_NOTPOSSIBLE
      else RETURNVALUE_NOERROR)"

definition query_creature :: "visitor \<Rightarrow> query_flags \<Rightarrow> tile \<Rightarrow> ReturnValue" where
  "query_creature v q t =
     (if NOLIMIT q then RETURNVALUE_NOERROR
      else if PATHFINDING q \<and> hasFlag (TILESTATE_FLOORCHANGE OR TILESTATE_TELEPORT) t then RETURNVALUE_NOTPOSSIBLE
      else if ground t = None then RETURNVALUE_NOTPOSSIBLE
      else if v_isMonster v then query_monster v q t
      else if v_isPlayer v then
        if \<not> IGNOREBLOCKCREATURE q \<and> \<not> isAccessPlayer v \<and> list_ex (\<lambda>c. \<not> canWalkthrough v c) (creatures t) then RETURNVALUE_NOTPOSSIBLE
        else if (case getFieldItem t of None \<Rightarrow> False | Some f \<Rightarrow> fieldDamage v f \<noteq> 0 \<and> PATHFINDING q \<and> \<not> IGNOREFIELDDAMAGE q)
          then RETURNVALUE_NOTPOSSIBLE
        else if \<not> isPlaced v \<and> hasFlag TILESTATE_NOLOGOUT t then RETURNVALUE_NOTPOSSIBLE
        else if pz_answer v t \<noteq> RETURNVALUE_NOERROR then pz_answer v t
        else query_blocking_items q t
      else if \<not> IGNOREBLOCKCREATURE q \<and> list_ex (\<lambda>c. \<not> inGhostMode v c) (creatures t) then RETURNVALUE_NOTENOUGHROOM
      else query_blocking_items q t)"

text \<open>Whether an item on the tile leaves no room for another: whether it blocks, and whether things can be put on it.\<close>

definition in_the_way :: "item_type \<Rightarrow> item_type \<Rightarrow> bool" where
  "in_the_way new old =
     (blockSolid old \<and> (\<not> ignoreBlocking old \<or> isMagicField new \<or> blockSolid new) \<and>
      (\<not> pickupable new \<or> \<not> hasHeight old \<or> pickupable old \<or> isBed old))"

definition query_item :: "visitor \<Rightarrow> query_flags \<Rightarrow> iid \<Rightarrow> tile \<Rightarrow> ReturnValue" where
  "query_item v q i t =
     (if length (items t) \<ge> 65535 then RETURNVALUE_NOTPOSSIBLE
      else if NOLIMIT q then RETURNVALUE_NOERROR
      else if ground t = None \<and> \<not> isHangable (kind_of t i) then RETURNVALUE_NOTPOSSIBLE
      else if blockSolid (kind_of t i) \<and> \<not> IGNOREBLOCKCREATURE q \<and> list_ex (\<lambda>c. \<not> inGhostMode v c) (creatures t)
        then RETURNVALUE_NOTENOUGHROOM
      else if isHangable (kind_of t i) \<and> hasFlag TILESTATE_SUPPORTS_HANGABLE t then
        if list_ex (\<lambda>j. isHangable (kind_of t j)) (items t) then RETURNVALUE_NEEDEXCHANGE else RETURNVALUE_NOERROR
      else if list_ex (\<lambda>j. in_the_way (kind_of t i) (kind_of t j)) (all_items t) then RETURNVALUE_NOTENOUGHROOM
      else RETURNVALUE_NOERROR)"

definition queryAdd :: "visitor \<Rightarrow> query_flags \<Rightarrow> thing \<Rightarrow> tile \<Rightarrow> ReturnValue" where
  "queryAdd v q th t = (case th of Creature _ \<Rightarrow> query_creature v q t | Item i \<Rightarrow> query_item v q i t)"

definition queryRemove :: "query_flags \<Rightarrow> thing \<Rightarrow> u32 \<Rightarrow> tile \<Rightarrow> ReturnValue" where
  "queryRemove q th n t =
     (if getThingIndex th t = - 1 then RETURNVALUE_NOTPOSSIBLE
      else case th of
        Creature _ \<Rightarrow> RETURNVALUE_NOTPOSSIBLE
      | Item i \<Rightarrow>
          if n = 0 \<or> stackable (kind_of t i) \<and> n > ucast (itemCount (heap t i)) then RETURNVALUE_NOTPOSSIBLE
          else if \<not> moveable (kind_of t i) \<and> \<not> IGNORENOTMOVEABLE q then RETURNVALUE_NOTMOVEABLE
          else RETURNVALUE_NOERROR)"

definition queryMaxCount :: "u32 \<Rightarrow> u32" where
  "queryMaxCount n = max 1 n"

section \<open>Stairs and holes\<close>

definition TILESTATE_FLOORCHANGE_DOWN :: u32 where "TILESTATE_FLOORCHANGE_DOWN = push_bit 0 1"
definition TILESTATE_FLOORCHANGE_NORTH :: u32 where "TILESTATE_FLOORCHANGE_NORTH = push_bit 1 1"
definition TILESTATE_FLOORCHANGE_SOUTH :: u32 where "TILESTATE_FLOORCHANGE_SOUTH = push_bit 2 1"
definition TILESTATE_FLOORCHANGE_EAST :: u32 where "TILESTATE_FLOORCHANGE_EAST = push_bit 3 1"
definition TILESTATE_FLOORCHANGE_WEST :: u32 where "TILESTATE_FLOORCHANGE_WEST = push_bit 4 1"
definition TILESTATE_FLOORCHANGE_SOUTH_ALT :: u32 where "TILESTATE_FLOORCHANGE_SOUTH_ALT = push_bit 5 1"
definition TILESTATE_FLOORCHANGE_EAST_ALT :: u32 where "TILESTATE_FLOORCHANGE_EAST_ALT = push_bit 6 1"

text \<open>Places of the map, with the tiles there; coordinates wrap around as they do in the code.\<close>

type_synonym place = "u16 \<times> u16 \<times> u8"

definition has_tile_flag :: "(place \<Rightarrow> tile option) \<Rightarrow> place \<Rightarrow> u32 \<Rightarrow> bool" where
  "has_tile_flag m p f = (case m p of None \<Rightarrow> False | Some t \<Rightarrow> hasFlag f t)"

text \<open>Where stairs upwards lead to, from their own flags, and where one lands who falls upon stairs, from the flags of these.\<close>

definition stairs_up :: "tile \<Rightarrow> place \<Rightarrow> place" where
  "stairs_up t p =
     (case p of (x, y, z) \<Rightarrow>
        (x + (if hasFlag TILESTATE_FLOORCHANGE_EAST t then 1 else 0) - (if hasFlag TILESTATE_FLOORCHANGE_WEST t then 1 else 0) +
           (if hasFlag TILESTATE_FLOORCHANGE_EAST_ALT t then 2 else 0),
         y - (if hasFlag TILESTATE_FLOORCHANGE_NORTH t then 1 else 0) + (if hasFlag TILESTATE_FLOORCHANGE_SOUTH t then 1 else 0) +
           (if hasFlag TILESTATE_FLOORCHANGE_SOUTH_ALT t then 2 else 0),
         z - 1))"

definition foot_of_stairs :: "tile \<Rightarrow> place \<Rightarrow> place" where
  "foot_of_stairs t p =
     (case p of (x, y, z) \<Rightarrow>
        (x - (if hasFlag TILESTATE_FLOORCHANGE_EAST t then 1 else 0) - (if hasFlag TILESTATE_FLOORCHANGE_EAST_ALT t then 2 else 0) +
           (if hasFlag TILESTATE_FLOORCHANGE_WEST t then 1 else 0),
         y + (if hasFlag TILESTATE_FLOORCHANGE_NORTH t then 1 else 0) - (if hasFlag TILESTATE_FLOORCHANGE_SOUTH t then 1 else 0) -
           (if hasFlag TILESTATE_FLOORCHANGE_SOUTH_ALT t then 2 else 0),
         z))"

text \<open>The tile on the map that \<open>queryDestination\<close> chooses for a tile at a place, if any.\<close>

definition floor_destination :: "(place \<Rightarrow> tile option) \<Rightarrow> tile \<Rightarrow> place \<Rightarrow> place option" where
  "floor_destination m t p =
     (case p of (x, y, z) \<Rightarrow>
        if hasFlag TILESTATE_FLOORCHANGE_DOWN t then
          (if has_tile_flag m (x, y - 1, z + 1) TILESTATE_FLOORCHANGE_SOUTH_ALT then Some (x, y - 2, z + 1)
           else if has_tile_flag m (x - 1, y, z + 1) TILESTATE_FLOORCHANGE_EAST_ALT then Some (x - 2, y, z + 1)
           else map_option (\<lambda>d. foot_of_stairs d (x, y, z + 1)) (m (x, y, z + 1)))
        else if hasFlag TILESTATE_FLOORCHANGE t then Some (stairs_up t p)
        else None)"

text \<open>The place and the tile one gets to, the item in front there, and whether limits are ignored from then on.\<close>

definition queryDestination :: "(place \<Rightarrow> tile option) \<Rightarrow> tile \<Rightarrow> place \<Rightarrow> bool \<Rightarrow> place \<times> tile \<times> iid option \<times> bool" where
  "queryDestination m t p nolimit =
     (case floor_destination m t p of
        None \<Rightarrow> (p, t, getTopDownItem t, nolimit)
      | Some p' \<Rightarrow>
          (case m p' of
             None \<Rightarrow> (p, t, getTopDownItem t, nolimit)
           | Some d \<Rightarrow> (p', d, getTopDownItem d, True)))"

lemma queryDestination_on_map:
  "queryDestination m t p f = (p', d, i, f') \<Longrightarrow> (p' = p \<and> d = t \<and> f' = f) \<or> (m p' = Some d \<and> f')"
  by (auto simp: queryDestination_def split: option.splits)

text \<open>
  The six kinds of stairs: the flag, the direction in which one climbs them and how many tiles further one comes out above.
  The hole from which one gets back is one step back from there: the stairs themselves stand below it, or for the wide ones
  the tile before the last.
\<close>

definition stairs_ways :: "(u32 \<times> u16 \<times> u16 \<times> u16) list" where
  "stairs_ways =
     [(TILESTATE_FLOORCHANGE_NORTH, 0, - 1, 1), (TILESTATE_FLOORCHANGE_SOUTH, 0, 1, 1), (TILESTATE_FLOORCHANGE_EAST, 1, 0, 1),
      (TILESTATE_FLOORCHANGE_WEST, - 1, 0, 1), (TILESTATE_FLOORCHANGE_SOUTH_ALT, 0, 1, 2), (TILESTATE_FLOORCHANGE_EAST_ALT, 1, 0, 2)]"

definition only_way :: "u32 \<Rightarrow> tile \<Rightarrow> bool" where
  "only_way f t \<longleftrightarrow> \<not> hasFlag TILESTATE_FLOORCHANGE_DOWN t \<and> list_all (\<lambda>(g, _). hasFlag g t \<longleftrightarrow> g = f) stairs_ways"

lemma stairs_flags:
  "TILESTATE_FLOORCHANGE_DOWN = 1" "TILESTATE_FLOORCHANGE_NORTH = 2" "TILESTATE_FLOORCHANGE_SOUTH = 4" "TILESTATE_FLOORCHANGE_EAST = 8"
  "TILESTATE_FLOORCHANGE_WEST = 16" "TILESTATE_FLOORCHANGE_SOUTH_ALT = 32" "TILESTATE_FLOORCHANGE_EAST_ALT = 64"
  by (simp_all add: TILESTATE_FLOORCHANGE_DOWN_def TILESTATE_FLOORCHANGE_NORTH_def TILESTATE_FLOORCHANGE_SOUTH_def
    TILESTATE_FLOORCHANGE_EAST_def TILESTATE_FLOORCHANGE_WEST_def TILESTATE_FLOORCHANGE_SOUTH_ALT_def TILESTATE_FLOORCHANGE_EAST_ALT_def)

lemma hasFlag_part: "hasFlag f t \<Longrightarrow> f AND g = f \<Longrightarrow> hasFlag g t"
proof -
  assume f: "hasFlag f t" and p: "f AND g = f"
  have "tflags t AND f = (tflags t AND g) AND f" by (subst p [symmetric]) (simp only: ac_simps)
  then show "hasFlag g t" using f by (auto simp: hasFlag_def)
qed

lemma stairs_way_cases:
  assumes "(f, a, b, k) \<in> set stairs_ways"
  obtains (north) "f = 2" "a = 0" "b = - 1" "k = 1" | (south) "f = 4" "a = 0" "b = 1" "k = 1"
    | (east) "f = 8" "a = 1" "b = 0" "k = 1" | (west) "f = 16" "a = - 1" "b = 0" "k = 1"
    | (south_alt) "f = 32" "a = 0" "b = 1" "k = 2" | (east_alt) "f = 64" "a = 1" "b = 0" "k = 2"
  using assms unfolding stairs_ways_def stairs_flags by auto

lemma only_wayD:
  assumes "(f, a, b, k) \<in> set stairs_ways" and "only_way f t"
  shows "hasFlag TILESTATE_FLOORCHANGE t" and "stairs_up t (x, y, z + 1) = (x + k * a, y + k * b, z)"
    and "k = 1 \<Longrightarrow> foot_of_stairs t (x, y, z + 1) = (x - a, y - b, z + 1)"
proof -
  have "hasFlag f t" using assms by (auto simp: only_way_def stairs_ways_def)
  then show "hasFlag TILESTATE_FLOORCHANGE t"
    by (rule hasFlag_part) (use assms(1) in \<open>cases rule: stairs_way_cases; simp add: TILESTATE_FLOORCHANGE_def\<close>)
  show "stairs_up t (x, y, z + 1) = (x + k * a, y + k * b, z)"
    using assms(1)
    by (cases rule: stairs_way_cases) (use assms(2) in \<open>simp_all add: only_way_def stairs_ways_def stairs_flags stairs_up_def\<close>)
  show "k = 1 \<Longrightarrow> foot_of_stairs t (x, y, z + 1) = (x - a, y - b, z + 1)"
    using assms(1)
    by (cases rule: stairs_way_cases) (use assms(2) in \<open>simp_all add: only_way_def stairs_ways_def stairs_flags foot_of_stairs_def\<close>)
qed

text \<open>C38: Climbing stairs and stepping back leads down to where one went onto the stairs from: stairs at (x, y) that lead up in
  one direction only let one out on the floor above one tile further (two tiles for the wide stairs); the hole one step
  back from there leads down again to the tile before the stairs, on the side opposite to where one came out, as long as
  no other wide stairs stand to the north or west below the hole.\<close>

theorem climbing_and_stepping_back:
  assumes way: "(f, a, b, k) \<in> set stairs_ways" "only_way f stairs"
    and hole: "hasFlag TILESTATE_FLOORCHANGE_DOWN hole" "(u, v) = (x + (k - 1) * a, y + (k - 1) * b)"
    and map: "m (x, y, z + 1) = Some stairs" "m (x + k * a, y + k * b, z) = Some t1" "m (x - a, y - b, z + 1) = Some t2"
    and others: "has_tile_flag m (u, v - 1, z + 1) TILESTATE_FLOORCHANGE_SOUTH_ALT \<Longrightarrow> (u, v - 1) = (x, y)"
      "has_tile_flag m (u - 1, v, z + 1) TILESTATE_FLOORCHANGE_EAST_ALT \<Longrightarrow> (u - 1, v) = (x, y)"
  shows "queryDestination m stairs (x, y, z + 1) nolimit = ((u + a, v + b, z), t1, getTopDownItem t1, True) \<and>
    queryDestination m hole (u, v, z) nolimit' = ((x - a, y - b, z + 1), t2, getTopDownItem t2, True)"
proof -
  note w = only_wayD [OF way]
  have down: "\<not> hasFlag TILESTATE_FLOORCHANGE_DOWN stairs" using way(2) by (simp add: only_way_def)
  have up: "(u + a, v + b) = (x + k * a, y + k * b)" using hole(2) by (simp add: algebra_simps)
  have "floor_destination m hole (u, v, z) = Some (x - a, y - b, z + 1)"
  proof -
    consider (narrow) "k = 1" | (south) "f = TILESTATE_FLOORCHANGE_SOUTH_ALT" "a = 0" "b = 1" "k = 2"
      | (east) "f = TILESTATE_FLOORCHANGE_EAST_ALT" "a = 1" "b = 0" "k = 2"
      using way(1) by (auto simp: stairs_ways_def)
    then show ?thesis
    proof cases
      case narrow
      then have "u = x" "v = y" using hole(2) by simp_all
      then show ?thesis using hole(1) map(1) others w(3) [OF narrow] by (auto simp: floor_destination_def)
    next
      case south
      then have "u = x" "v = y + 1" using hole(2) by simp_all
      moreover have "has_tile_flag m (x, y, z + 1) TILESTATE_FLOORCHANGE_SOUTH_ALT"
        using way(2) map(1) by (simp add: only_way_def stairs_ways_def has_tile_flag_def south(1) stairs_flags)
      ultimately show ?thesis using hole(1) by (simp add: floor_destination_def south(2,3))
    next
      case east
      then have "u = x + 1" "v = y" using hole(2) by simp_all
      moreover have "has_tile_flag m (x, y, z + 1) TILESTATE_FLOORCHANGE_EAST_ALT"
        using way(2) map(1) by (simp add: only_way_def stairs_ways_def has_tile_flag_def east(1) stairs_flags)
      ultimately show ?thesis using hole(1) others(1) by (auto simp: floor_destination_def east(2,3))
    qed
  qed
  then show ?thesis using map(2,3) w(1,2) down up by (simp add: queryDestination_def floor_destination_def)
qed

section \<open>The life of a tile\<close>

text \<open>
  A new tile has no things and only flags of its zone. What happens to it: things are added, loaded with the map and taken;
  the kind of an item is changed in place; an item takes the place of another; and, when its kind goes from the ordinary
  items to those on top or back, an item is taken off, changed and put on the tile again.
\<close>

definition turn_into :: "iid \<Rightarrow> item_type \<Rightarrow> u32 option \<Rightarrow> tile \<Rightarrow> tile" where
  "turn_into i k n t =
     (let t = removeThing (Item i) (ucast (itemCount (heap t i))) t;
          it = (heap t i)\<lparr>kind := k\<rparr>;
          it = (case n of None \<Rightarrow> it | Some m \<Rightarrow> setSubType (ucast m) it)
      in addThing (Item i) (t\<lparr>heap := (heap t)(i := it)\<rparr>))"

datatype change =
    Add thing
  | Load thing
  | Take thing u32
  | Update iid item_type u32
  | Replace nat iid
  | TurnInto iid item_type "u32 option"

definition newTile :: "(iid \<Rightarrow> item) \<Rightarrow> u32 \<Rightarrow> tile" where
  "newTile h zone = \<lparr>heap = h, ground = None, items = [], downItemCount = 0, creatures = [], tflags = zone AND 1920, thrown = []\<rparr>"

fun make :: "change \<Rightarrow> tile \<Rightarrow> tile" where
  "make (Add th) t = addThing th t"
| "make (Load th) t = internalAddThing th t"
| "make (Take th n) t = removeThing th n t"
| "make (Update i k n) t = updateThing i k n t"
| "make (Replace index i) t = replaceThing index i t"
| "make (TurnInto i k n) t = turn_into i k n t"

text \<open>
  What the server takes care of: it adds only things that are not there yet, and in \<open>transformItem\<close> it changes a kind in
  place, and puts an item in the place of another, only when both kinds belong to the same part of the vector.
\<close>

fun is_new :: "thing \<Rightarrow> tile \<Rightarrow> bool" where
  "is_new (Item i) t = (i \<notin> set (all_items t))"
| "is_new (Creature c) t = (c \<notin> set (creatures t))"

fun allowed :: "change \<Rightarrow> tile \<Rightarrow> bool" where
  "allowed (Add th) t = is_new th t"
| "allowed (Load th) t = is_new th t"
| "allowed (Take th n) t = True"
| "allowed (Update i k n) t = same_place (kind_of t i) k"
| "allowed (Replace index i) t =
     (i \<notin> set (all_items t) \<and>
      (case getThing index t of Some (Item old) \<Rightarrow> same_place (kind_of t old) (kind_of t i) | _ \<Rightarrow> True))"
| "allowed (TurnInto i k n) t = (i \<in> set (all_items t))"

text \<open>What it does not look at: whether a change in place keeps the order among the items on top.\<close>

fun keeps_order :: "change \<Rightarrow> tile \<Rightarrow> bool" where
  "keeps_order (Update i k n) t = (alwaysOnTopOrder (kind_of t i) = alwaysOnTopOrder k)"
| "keeps_order (Replace index i) t =
     (case getThing index t of Some (Item old) \<Rightarrow> alwaysOnTopOrder (kind_of t old) = alwaysOnTopOrder (kind_of t i) | _ \<Rightarrow> True)"
| "keeps_order _ t = True"

text \<open>All changes of a list, and whether each has a property on the tile that it meets.\<close>

definition make_all :: "change list \<Rightarrow> tile \<Rightarrow> tile" where
  "make_all cs t = foldl (\<lambda>t c. make c t) t cs"

fun each :: "(change \<Rightarrow> tile \<Rightarrow> bool) \<Rightarrow> change list \<Rightarrow> tile \<Rightarrow> bool" where
  "each P [] t = True"
| "each P (c # cs) t = (P c t \<and> each P cs (make c t))"

lemma newTile_ok: "tile_ok (newTile h zone)"
proof -
  have "\<not> bit (zone AND 1920) k" if "(k, p) \<in> kept_flags" for k p
    using that by (auto simp: kept_flags_def bit_and_iff bit_iff_odd [of "1920 :: u32"])
  then show ?thesis
    by (auto simp: tile_ok_def stack_ok_def flags_ok_def hasProperty_set newTile_def all_items_def downItems_def topItems_def)
qed

lemma found_index:
  assumes "stack_ok t" and "i \<in> set (all_items t)"
  shows "getThingIndex (Item i) t \<noteq> - 1"
proof -
  have "set (items t) = set (downItems t) \<union> set (topItems t)" by (subst items_split) simp
  then have "Item i \<in> set (stack t)" using assms(2) by (auto simp: stack_def all_items_def split: option.splits)
  then obtain m where "find_index (Item i) (stack t) = Some m" by (cases "find_index (Item i) (stack t)") simp_all
  then show ?thesis using find_index_thing [OF assms(1), of "Item i"] by simp
qed

text \<open>An item that is taken with its whole count is gone.\<close>

lemma taken_whole:
  assumes "stack_ok t"
  shows "i \<notin> set (all_items (removeThing (Item i) (ucast (itemCount (heap t i))) t))"
proof (cases "i \<in> set (all_items t)")
  case True
  note d = stack_okD [OF assms]
  have all: "set (items t) = set (downItems t) \<union> set (topItems t)" by (subst items_split) simp
  show ?thesis
    using found_index [OF assms True] True d(3-6) d(8,9) [of i] all
    by (auto simp: removeThing_def onRemoveTileItem_def all_items_def split: option.splits)
next
  case False
  then show ?thesis using removeThing_items [of "Item i" _ t] by blast
qed

lemma tile_ok_elsewhere:
  assumes "tile_ok t" and "i \<notin> set (all_items t)"
  shows "tile_ok (t\<lparr>heap := (heap t)(i := x)\<rparr>)"
proof -
  have a: "all_items (t\<lparr>heap := (heap t)(i := x)\<rparr>) = all_items t" by (simp add: all_items_def)
  have "set (items t) = set (downItems t) \<union> set (topItems t)" by (subst items_split) simp
  then have "i \<notin> set (downItems t)" "i \<notin> set (topItems t)" using assms(2) by (auto simp: all_items_def)
  then show ?thesis
    using assms unfolding tile_ok_def stack_ok_def flags_ok_def hasProperty_set a
    by (auto simp: downItems_def topItems_def)
qed

lemma turn_into_ok: "tile_ok t \<Longrightarrow> tile_ok (turn_into i k n t)"
proof -
  assume t: "tile_ok t"
  let ?t = "removeThing (Item i) (ucast (itemCount (heap t i))) t"
  have new: "i \<notin> set (all_items ?t)" using t taken_whole by (simp add: tile_ok_def)
  have "tile_ok (addThing (Item i) (?t\<lparr>heap := (heap ?t)(i := x)\<rparr>))" for x
    by (rule tile_addThing_ok [OF tile_ok_elsewhere [OF removeThing_tile_ok [OF t] new]]) (use new in \<open>auto simp: all_items_def\<close>)
  then show ?thesis by (simp add: turn_into_def Let_def)
qed

lemma make_ok: "tile_ok t \<Longrightarrow> allowed c t \<Longrightarrow> tile_ok (make c t)"
proof (cases c)
  case (Add th)
  assume "tile_ok t" "allowed c t"
  then show ?thesis using Add tile_addThing_ok [of t th] by (cases th) auto
next
  case (Load th)
  assume "tile_ok t" "allowed c t"
  then show ?thesis using Load tile_internalAddThing_ok [of t th] by (cases th) auto
qed (auto simp: removeThing_tile_ok tile_updateThing_ok turn_into_ok intro!: tile_replaceThing_ok)

lemma make_all_ok: "tile_ok t \<Longrightarrow> each allowed cs t \<Longrightarrow> tile_ok (make_all cs t)"
  by (induction cs arbitrary: t) (simp_all add: make_all_def make_ok)

section \<open>The order of the items on top\<close>

lemma top_in_order_cong:
  "topItems s = topItems t \<Longrightarrow> (\<And>j. j \<in> set (topItems t) \<Longrightarrow> kind_of s j = kind_of t j) \<Longrightarrow> top_in_order s = top_in_order t"
  by (simp add: top_in_order_def cong: map_cong)

lemma top_flags [simp]:
  "topItems (setTileFlags i t) = topItems t" "topItems (resetTileFlags i t) = topItems t" "topItems (throw_away i t) = topItems t"
  "topItems (set_count i n t) = topItems t" "topItems (add_creature c t) = topItems t" "topItems (put_down i t) = topItems t"
  "topItems (t\<lparr>ground := g\<rparr>) = topItems t" "topItems (t\<lparr>heap := h\<rparr>) = topItems t" "topItems (t\<lparr>creatures := cs\<rparr>) = topItems t"
  by (simp_all add: topItems_def [of "throw_away i t"] topItems_def [of "add_creature c t"] topItems_def [of "put_down i t"]
    throw_away_def add_creature_def put_down_def) (simp_all add: topItems_def)

lemma put_on_top_order:
  assumes "stack_ok t" and "top_in_order t"
    and "\<And>j. before j \<Longrightarrow> unat (alwaysOnTopOrder (kind_of t i)) \<le> unat (alwaysOnTopOrder (kind_of t j))"
    and "\<And>j. \<not> before j \<Longrightarrow> unat (alwaysOnTopOrder (kind_of t j)) \<le> unat (alwaysOnTopOrder (kind_of t i))"
  shows "top_in_order (put_on_top before i t)"
proof -
  have "topItems (put_on_top before i t) = insert_before before i (topItems t)"
    using stack_okD(1) [OF assms(1)] by (simp add: put_on_top_def topItems_def [of "t\<lparr>items := xs\<rparr>" for xs])
  then show ?thesis
    using sorted_insert_before [of "\<lambda>i. unat (alwaysOnTopOrder (kind_of t i))" "topItems t" before i] assms(2-)
    by (simp add: top_in_order_def)
qed

lemma removeThing_top:
  assumes "stack_ok t"
  shows "\<exists>x. topItems (removeThing th n t) = topItems t \<or> topItems (removeThing th n t) = remove1 x (topItems t)"
proof -
  have c: "downItemCount t = length (downItems t)" by (rule stack_okD(1) [OF assms])
  have u: "topItems (t\<lparr>items := downItems t @ remove1 i (topItems t)\<rparr>) = remove1 i (topItems t)" for i
    using c by (simp add: topItems_def [of "t\<lparr>items := xs\<rparr>" for xs])
  have w: "topItems (t\<lparr>items := remove1 i (downItems t) @ topItems t, downItemCount := downItemCount t - 1\<rparr>) = topItems t"
    if "i \<in> set (downItems t)" for i
    using c that by (simp add: topItems_def [of "t\<lparr>items := xs, downItemCount := m\<rparr>" for xs m] length_remove1)
  show ?thesis using u w by (cases th) (auto simp: removeThing_def onRemoveTileItem_def)
qed

lemma removeThing_order: "stack_ok t \<Longrightarrow> top_in_order t \<Longrightarrow> top_in_order (removeThing th n t)"
  using removeThing_top [of t th n] by (auto simp: top_in_order_def sorted_remove1_map)

lemma top_in_order_flags [simp]:
  "top_in_order (setTileFlags i t) = top_in_order t" "top_in_order (resetTileFlags i t) = top_in_order t"
  "top_in_order (throw_away i t) = top_in_order t" "top_in_order (add_creature c t) = top_in_order t"
  "top_in_order (put_down i t) = top_in_order t" "top_in_order (t\<lparr>ground := g\<rparr>) = top_in_order t"
  by (simp_all add: top_in_order_def)

lemma addThing_order:
  assumes t: "tile_ok t" and o: "top_in_order t"
  shows "top_in_order (addThing th t)"
proof (cases th)
  case (Creature c)
  then show ?thesis using o by (simp add: addThing_def)
next
  case (Item i)
  have stack: "stack_ok t" using t by (simp add: tile_ok_def)
  define s where "s = (case find (\<lambda>j. isSplash (kind_of t j)) (topItems t) of
      Some old \<Rightarrow> if isSplash (kind_of t i) then throw_away old (removeThing (Item old) 1 t) else t
    | None \<Rightarrow> t)"
  have s: "tile_ok s" "top_in_order s"
    using t o removeThing_tile_ok [OF t] removeThing_order [OF stack o] by (simp_all add: s_def split: option.split)
  have top: "top_in_order (put_on_top (\<lambda>j. alwaysOnTopOrder (kind_of s i) \<le> alwaysOnTopOrder (kind_of s j)) i s)"
    by (rule put_on_top_order) (use s in \<open>simp_all add: tile_ok_def word_le_nat_alt\<close>)
  have down: "top_in_order (put_down i (throw_away old (removeThing (Item old) 1 t)))" for old
    using removeThing_order [OF _ o] t by (simp add: tile_ok_def)
  show ?thesis
    using o top down by (auto simp: Item addThing_def onAddTileItem_def Let_def s_def [symmetric] split: option.splits)
qed

lemma internalAddThing_order:
  assumes t: "tile_ok t" and o: "top_in_order t"
  shows "top_in_order (internalAddThing th t)"
proof -
  have "top_in_order (put_on_top (\<lambda>j. alwaysOnTopOrder (kind_of t j) > alwaysOnTopOrder (kind_of t i)) i t)" for i
    by (rule put_on_top_order) (use t o in \<open>simp_all add: tile_ok_def word_less_nat_alt\<close>)
  then show ?thesis using o by (auto simp: internalAddThing_def split: thing.splits option.splits)
qed

lemma updateThing_order:
  assumes "top_in_order t" and "alwaysOnTopOrder (kind_of t i) = alwaysOnTopOrder k"
  shows "top_in_order (updateThing i k n t)"
proof -
  have "alwaysOnTopOrder (kind_of (updateThing i k n t) j) = alwaysOnTopOrder (kind_of t j)" for j
    using assms(2) by (simp add: updateThing_def Let_def)
  moreover have "topItems (updateThing i k n t) = topItems t" by (simp add: updateThing_def Let_def)
  ultimately show ?thesis using assms(1) by (simp add: top_in_order_def)
qed

lemma replaceThing_order:
  assumes s: "stack_ok t" and o: "top_in_order t"
    and k: "\<And>old. getThing index t = Some (Item old) \<Longrightarrow> alwaysOnTopOrder (kind_of t old) = alwaysOnTopOrder (kind_of t i)"
  shows "top_in_order (replaceThing index i t)"
proof (cases "getThing index t")
  case None
  then show ?thesis using o by (simp add: replaceThing_def)
next
  case (Some th)
  note d = stack_okD [OF s]
  show ?thesis
  proof (cases th)
    case (Creature c)
    then show ?thesis using o Some by (simp add: replaceThing_def)
  next
    case (Item old)
    have p: "alwaysOnTopOrder (kind_of t old) = alwaysOnTopOrder (kind_of t i)" using k Some Item by blast
    have at: "ground t \<noteq> None \<and> index = 0 \<and> ground t = Some old \<or>
      (\<exists>j<length (topItems t). index = j + (if ground t = None then 0 else 1) \<and> topItems t ! j = old) \<or>
      (\<exists>j<length (downItems t). index = j + length (topItems t) + length (creatures t) + (if ground t = None then 0 else 1) \<and> downItems t ! j = old)"
      using getThing_Item [OF s] Some Item by blast
    define n where "n = (if ground t = None then 0 else 1 :: nat)"
    define m where "m = index - n"
    have e: "replaceThing index i t = setTileFlags i (resetTileFlags old
        (if ground t \<noteq> None \<and> index = 0 then t\<lparr>ground := Some i\<rparr>
         else if m < length (topItems t) then t\<lparr>items := (items t)[downItemCount t + m := i]\<rparr>
         else t\<lparr>items := (items t)[m - length (topItems t) - length (creatures t) := i]\<rparr>))"
      using Some Item by (simp add: replaceThing_def Let_def m_def n_def getTopItemCount_length)
    have top: "top_in_order (t\<lparr>items := (items t)[downItemCount t + m := i]\<rparr>)"
      if "m < length (topItems t)" "\<not> (ground t \<noteq> None \<and> index = 0)"
    proof -
      have "topItems t ! m = old"
        using at that by (auto simp: m_def n_def split: if_splits)
      then have "map (\<lambda>i. unat (alwaysOnTopOrder (kind_of t i))) ((topItems t)[m := i]) = map (\<lambda>i. unat (alwaysOnTopOrder (kind_of t i))) (topItems t)"
        using p by (simp add: map_update list_update_same_conv that(1))
      then show ?thesis using o d(1) by (simp add: top_in_order_def topItems_def drop_update_swap)
    qed
    have down: "top_in_order (t\<lparr>items := (items t)[m - length (topItems t) - length (creatures t) := i]\<rparr>)"
      if "\<not> m < length (topItems t)" "\<not> (ground t \<noteq> None \<and> index = 0)"
    proof -
      have "m - length (topItems t) - length (creatures t) < downItemCount t"
        using at that d(1) by (auto simp: m_def n_def split: if_splits)
      then show ?thesis using o by (simp add: top_in_order_def topItems_def drop_update_cancel)
    qed
    show ?thesis unfolding e using o top down by simp
  qed
qed

lemma turn_into_order:
  assumes t: "tile_ok t" and o: "top_in_order t"
  shows "top_in_order (turn_into i k n t)"
proof -
  let ?t = "removeThing (Item i) (ucast (itemCount (heap t i))) t"
  have s: "tile_ok ?t" by (rule removeThing_tile_ok [OF t])
  have new: "i \<notin> set (all_items ?t)" using t taken_whole by (simp add: tile_ok_def)
  have "set (items ?t) = set (downItems ?t) \<union> set (topItems ?t)" by (subst items_split) simp
  then have "i \<notin> set (topItems ?t)" using new by (auto simp: all_items_def)
  then have "top_in_order (?t\<lparr>heap := (heap ?t)(i := x)\<rparr>) = top_in_order ?t" for x by (intro top_in_order_cong) auto
  moreover have "top_in_order ?t" using removeThing_order o t by (simp add: tile_ok_def)
  ultimately show ?thesis using addThing_order [OF tile_ok_elsewhere [OF s new]] by (simp add: turn_into_def Let_def)
qed

lemma make_order: "tile_ok t \<Longrightarrow> top_in_order t \<Longrightarrow> keeps_order c t \<Longrightarrow> top_in_order (make c t)"
  by (cases c) (auto simp: addThing_order internalAddThing_order removeThing_order updateThing_order turn_into_order tile_ok_def
    intro!: replaceThing_order)

lemma make_all_order:
  "tile_ok t \<Longrightarrow> top_in_order t \<Longrightarrow> each allowed cs t \<Longrightarrow> each keeps_order cs t \<Longrightarrow> top_in_order (make_all cs t)"
  by (induction cs arbitrary: t) (simp_all add: make_all_def make_ok make_order)


lemma hasFlag_or: "hasFlag (f OR g) t \<longleftrightarrow> hasFlag f t \<or> hasFlag g t"
  by (auto simp: hasFlag_def bit_eq_iff [where 'a = "32 word"] bit_simps)


section \<open>Lost flags\<close>

text \<open>
  The flags of the other things an item can be are reset by every removal of such an item, and then the functions that look
  for one do not look any more.
\<close>

definition special_flags :: "(item_class \<times> u32) list" where
  "special_flags = [(Teleport, TILESTATE_TELEPORT), (MagicField, TILESTATE_MAGICFIELD), (Mailbox, TILESTATE_MAILBOX),
     (TrashHolder, TILESTATE_TRASHHOLDER), (BedItem, TILESTATE_BED)]"

lemma special_bits:
  "cls (heap t i) = Teleport \<Longrightarrow> \<not> bit (tflags (resetTileFlags i t)) 11"
  "cls (heap t i) = MagicField \<Longrightarrow> \<not> bit (tflags (resetTileFlags i t)) 12"
  "cls (heap t i) = Mailbox \<Longrightarrow> \<not> bit (tflags (resetTileFlags i t)) 13"
  "cls (heap t i) = TrashHolder \<Longrightarrow> \<not> bit (tflags (resetTileFlags i t)) 14"
  "cls (heap t i) = BedItem \<Longrightarrow> \<not> bit (tflags (resetTileFlags i t)) 15"
  by (simp_all add: resetTileFlags_def Let_def tile_flag_defs bit_simps)

lemma special_reset:
  assumes "(k, f) \<in> set special_flags" and "cls (heap t i) = k"
  shows "\<not> hasFlag f (resetTileFlags i t)"
proof -
  have "\<exists>n<32. f = push_bit n 1 \<and> \<not> bit (tflags (resetTileFlags i t)) n"
    using assms special_bits [of t i] unfolding special_flags_def tile_flag_defs
    by (auto intro: exI [of _ 11] exI [of _ 12] exI [of _ 13] exI [of _ 14] exI [of _ 15])
  then show ?thesis using hasFlag_bit by auto
qed

text \<open>C24: When one of two mailboxes (or teleports, magic fields, trash holders, beds) on a tile is removed, the tile forgets that
  it has the other: the other is still on it, but the flag is gone and the lookup finds nothing.\<close>

theorem removal_hides_the_other:
  assumes "tile_ok t" and "(k, f) \<in> set special_flags" and "i \<in> set (items t)" and "j \<in> set (items t)" and "i \<noteq> j"
    and "cls (heap t i) = k" and "cls (heap t j) = k" and "\<not> stackable (kind_of t i)"
  shows "j \<in> set (items (removeThing (Item i) n t)) \<and> cls (heap (removeThing (Item i) n t) j) = k \<and>
    getSpecial k f (removeThing (Item i) n t) = None"
proof -
  have s: "stack_ok t" using assms(1) by (simp add: tile_ok_def)
  note d = stack_okD [OF s]
  have all: "set (items t) = set (downItems t) \<union> set (topItems t)" by (subst items_split) simp
  have "Item i \<in> set (stack t)" using assms(3) all by (auto simp: stack_def)
  then obtain m where "find_index (Item i) (stack t) = Some m" by (cases "find_index (Item i) (stack t)") simp_all
  then have found: "getThingIndex (Item i) t \<noteq> - 1" using find_index_thing [OF s, of "Item i"] by simp
  have ng: "ground t \<noteq> Some i" using assms(3) d(3) all by auto
  show ?thesis
  proof (cases "alwaysOnTop (kind_of t i)")
    case True
    then have top: "i \<in> set (topItems t)" using d(8) assms(3) all by auto
    let ?t = "t\<lparr>items := downItems t @ remove1 i (topItems t)\<rparr>"
    have "removeThing (Item i) n t = resetTileFlags i ?t"
      using found ng True top by (simp add: removeThing_def onRemoveTileItem_def)
    moreover have "\<not> hasFlag f (resetTileFlags i ?t)" by (rule special_reset [OF assms(2)]) (use assms(6) in simp)
    ultimately show ?thesis using assms(4,5,7) all by (auto simp: getSpecial_def)
  next
    case False
    then have down: "i \<in> set (downItems t)" using d(9) assms(3) all by auto
    let ?t = "t\<lparr>items := remove1 i (downItems t) @ topItems t, downItemCount := downItemCount t - 1\<rparr>"
    have "removeThing (Item i) n t = resetTileFlags i ?t"
      using found ng False down assms(8) by (simp add: removeThing_def onRemoveTileItem_def)
    moreover have "\<not> hasFlag f (resetTileFlags i ?t)" by (rule special_reset [OF assms(2)]) (use assms(6) in simp)
    ultimately show ?thesis using assms(4,5,7) all by (auto simp: getSpecial_def)
  qed
qed

section \<open>An example\<close>

definition plainKind :: item_type where
  "plainKind = \<lparr>isGroundTile = False, alwaysOnTop = False, alwaysOnTopOrder = 0, isSplash = False, isMagicField = False,
     stackable = False, moveable = True, blockSolid = False, blockProjectile = False, blockPathFind = False, hasHeight = False,
     pickupable = True, isBed = False, ignoreBlocking = False, isHangable = False, lookThrough = False, isVertical = False,
     isHorizontal = False, floorChange = 0, replaceable = True,
     isFluidContainer = False, charges = 0\<rparr>"

text \<open>Item 0 is a ground, 1 and 2 are mailboxes, 3 is a border.\<close>

definition someItem :: "iid \<Rightarrow> item" where
  "someItem i = \<lparr>kind = plainKind\<lparr>isGroundTile := (i = 0), alwaysOnTop := (i = 3), blockSolid := (i = 1 \<or> i = 2)\<rparr>,
     cls = (if i = 1 \<or> i = 2 then Mailbox else PlainItem), uniqueId = False, itemCount = 1\<rparr>"

definition someChanges :: "change list" where
  "someChanges = [Load (Item 0), Load (Item 3), Add (Item 1), Add (Item 2), Add (Creature 7)]"

definition someTile :: tile where
  "someTile = make_all someChanges (newTile someItem 0)"

lemmas tile_operation_defs =
  newTile_def addThing_def internalAddThing_def onAddTileItem_def add_creature_def all_items_def topItems_def downItems_def
  put_down_def put_on_top_def someChanges_def make_all_def

lemma someTile_value:
  "heap someTile = someItem" "ground someTile = Some 0" "items someTile = [2, 1, 3]" "downItemCount someTile = 2"
  "creatures someTile = [7]"
  by (simp_all add: someTile_def tile_operation_defs someItem_def plainKind_def)

lemma someChanges_allowed: "each allowed someChanges (newTile someItem 0)"
  by (simp add: tile_operation_defs someItem_def plainKind_def)

lemma someTile_ok: "tile_ok someTile"
  unfolding someTile_def by (rule make_all_ok [OF newTile_ok someChanges_allowed])


text \<open>Of two borders the one below is changed into one that belongs above: it stays where it is.\<close>

lemma order_on_top_is_lost:
  fixes t
  defines "t \<equiv> make_all [Load (Item 3), Load (Item 4)] (newTile (someItem(4 := someItem 3)) 0)"
  shows "allowed (Update 3 ((kind_of t 3)\<lparr>alwaysOnTopOrder := 1\<rparr>) 1) t"
    and "top_in_order t" and "\<not> top_in_order (make (Update 3 ((kind_of t 3)\<lparr>alwaysOnTopOrder := 1\<rparr>) 1) t)"
proof -
  have t: "topItems t = [3, 4]" "items t = [3, 4]" "downItemCount t = 0" "ground t = None" "heap t = someItem(4 := someItem 3)"
    by (simp_all add: t_def tile_operation_defs someItem_def plainKind_def)
  show "allowed (Update 3 ((kind_of t 3)\<lparr>alwaysOnTopOrder := 1\<rparr>) 1) t" by (simp add: same_place_def)
  show "top_in_order t" by (simp add: top_in_order_def t someItem_def plainKind_def)
  let ?t = "updateThing 3 ((kind_of t 3)\<lparr>alwaysOnTopOrder := 1\<rparr>) 1 t"
  have "topItems ?t = [3, 4]" using t(1) by (simp add: updateThing_def Let_def)
  moreover have "alwaysOnTopOrder (kind_of ?t 3) = 1" "alwaysOnTopOrder (kind_of ?t 4) = 0"
    by (simp_all add: updateThing_def Let_def getThingIndex_def t someItem_def plainKind_def)
  ultimately show "\<not> top_in_order (make (Update 3 ((kind_of t 3)\<lparr>alwaysOnTopOrder := 1\<rparr>) 1) t)" by (simp add: top_in_order_def)
qed

lemma someTile_flags: "tflags someTile = 139264"
  by (simp add: someTile_def tile_operation_defs someItem_def plainKind_def
    setTileFlags_def Let_def set_if_def setFlag_def hasFlag_def tile_flag_defs)

lemma indices_follow_the_stack_witness:
  "getThingIndex (Item 1) someTile = 4 \<and> getThing 4 someTile = Some (Item 1) \<and> getThingIndex (Item 9) someTile = - 1"
proof -
  have s: "stack_ok someTile" using someTile_ok by (simp add: tile_ok_def)
  have st: "stack someTile = [Item 0, Item 3, Creature 7, Item 2, Item 1]"
    by (simp add: stack_def downItems_def topItems_def someTile_value)
  show ?thesis
    using indices_follow_the_stack [OF s, of "Item 1" 4] indices_follow_the_stack [OF s, of "Item 9" 0] by (simp add: st)
qed

definition rat :: visitor where
  "rat = \<lparr>v_isMonster = True, v_isPlayer = False, canPushCreatures = False, canPushItems = True, v_isSummon = False,
     isImmuneTo = (\<lambda>_. False), canWalkOnField = (\<lambda>_. False), isIgnoringFieldDamage = False, isAccessPlayer = False,
     canWalkthrough = (\<lambda>_. False), isPlaced = True, isPzLocked = False, from_flags = None, inGhostMode = (\<lambda>_. True),
     playerInGhostMode = (\<lambda>_. False), pushableMonster = (\<lambda>_. False), fieldDamage = (\<lambda>_. 0)\<rparr>"

definition noFlags :: query_flags where
  "noFlags = \<lparr>NOLIMIT = False, IGNOREBLOCKITEM = False, IGNOREBLOCKCREATURE = False, PATHFINDING = False,
     IGNOREFIELDDAMAGE = False, IGNORENOTMOVEABLE = False\<rparr>"


lemma removal_hides_the_other_witness:
  "2 \<in> set (items (removeThing (Item 1) 1 someTile)) \<and> cls (someItem 2) = Mailbox \<and> getMailbox (removeThing (Item 1) 1 someTile) = None"
proof -
  have "(Mailbox, TILESTATE_MAILBOX) \<in> set special_flags" by (simp add: special_flags_def)
  from removal_hides_the_other [OF someTile_ok this, of 1 2 1] show ?thesis
    by (simp add: someTile_value someItem_def plainKind_def getMailbox_def)
qed

text \<open>A hole at (10, 10, 6), stairs to the north below it, and grass around.\<close>

definition bare :: "u32 \<Rightarrow> tile" where
  "bare f = \<lparr>heap = someItem, ground = Some 0, items = [], downItemCount = 0, creatures = [], tflags = f, thrown = []\<rparr>"

definition someMap :: "place \<Rightarrow> tile option" where
  "someMap p = (if p = (10, 10, 6) then Some (bare 1) else if p = (10, 10, 7) then Some (bare 2) else Some (bare 0))"

lemma climbing_and_stepping_back_witness:
  "queryDestination someMap (bare 2) (10, 10, 7) False = ((10, 9, 6), bare 0, None, True) \<and>
   queryDestination someMap (bare 1) (10, 10, 6) False = ((10, 11, 7), bare 0, None, True)"
proof -
  have w: "(TILESTATE_FLOORCHANGE_NORTH, 0, - 1, 1) \<in> set stairs_ways" by (simp add: stairs_ways_def)
  have o: "only_way TILESTATE_FLOORCHANGE_NORTH (bare 2)"
    by (simp add: only_way_def stairs_ways_def stairs_flags bare_def hasFlag_def)
  have "getTopDownItem (bare 0) = None" by (simp add: getTopDownItem_def bare_def)
  with climbing_and_stepping_back [OF w o, of "bare 1" 10 10 10 10 someMap 6 "bare 0" "bare 0" False False] show ?thesis
    by (simp add: someMap_def bare_def hasFlag_def has_tile_flag_def stairs_flags)
qed
end
