(* ===== verification/Trade.thy ===== *)
theory Trade
  imports Prelude
begin

text \<open>
  Safe trading between players, \<open>src/src/game.cpp\<close> and \<open>src/src/player.cpp\<close>: the request, the answer of
  the partner, the two acceptances, the exchange, and everything that cancels a trade. The state is that
  of all players and of the table \<open>tradeItems\<close> of the items being traded. Players and items are named by
  numbers; a pointer that may be null is an option. Where an item may go is decided by the cylinders of
  the items: the verdicts of \<open>internalAddItem\<close>, \<open>internalRemoveItem\<close> and \<open>internalMoveItem\<close>, and those of
  the scripts, are arguments. Reading through a null item is the result \<open>None\<close>.
\<close>

section \<open>Traders\<close>

datatype tradestate = TRADE_NONE | TRADE_INITIATED | TRADE_ACCEPT | TRADE_ACKNOWLEDGE | TRADE_TRANSFER

type_synonym pid = nat
type_synonym item = nat

record trader =
  tradeState :: tradestate
  tradePartner :: "pid option"
  tradeItem :: "item option"

datatype return_value = RETURNVALUE_NOERROR | RETURNVALUE_NOTPOSSIBLE | RETURNVALUE_NOTENOUGHROOM | OtherError

datatype trade_event = ON_TRADE_TRANSFER | ON_TRADE_CANCEL

record trade_world =
  online :: "pid set"
  traders :: "pid \<Rightarrow> trader"
  tradeItems :: "item \<rightharpoonup> pid"
  references :: "item \<Rightarrow> nat" \<comment> \<open>how often a trade has taken a reference to an item\<close>
  toReleaseItems :: "item list" \<comment> \<open>the references that are given back\<close>
  trade_events :: "(item \<times> trade_event \<times> pid) list" \<comment> \<open>the calls of \<open>Item::onTradeEvent\<close>\<close>
  moves :: "(item \<times> pid \<times> return_value) list" \<comment> \<open>the calls of \<open>internalMoveItem\<close>: what, to whom, and its answer\<close>

definition not_trading :: trader where
  "not_trading = \<lparr>tradeState = TRADE_NONE, tradePartner = None, tradeItem = None\<rparr>"

definition new_trade_world :: "pid set \<Rightarrow> trade_world" where
  "new_trade_world ps = \<lparr>online = ps, traders = (\<lambda>_. not_trading), tradeItems = Map.empty, references = (\<lambda>_. 0),
     toReleaseItems = [], trade_events = [], moves = []\<rparr>"

abbreviation trader_at :: "trade_world \<Rightarrow> pid \<Rightarrow> trader" where
  "trader_at w p \<equiv> traders w p"

definition set_trader :: "pid \<Rightarrow> (trader \<Rightarrow> trader) \<Rightarrow> trade_world \<Rightarrow> trade_world" where
  "set_trader p f w = w\<lparr>traders := (traders w)(p := f (traders w p))\<rparr>"

section \<open>Starting a trade\<close>

definition internalStartTrade :: "pid \<Rightarrow> pid \<Rightarrow> item \<Rightarrow> trade_world \<Rightarrow> bool \<times> trade_world" where
  "internalStartTrade player partner it w =
     (let p = traders w player; q = traders w partner in
      if tradeState p \<noteq> TRADE_NONE \<and> \<not> (tradeState p = TRADE_ACKNOWLEDGE \<and> tradePartner p = Some partner) then (False, w)
      else if tradeState q \<noteq> TRADE_NONE \<and> tradePartner q \<noteq> Some player then (False, w)
      else
        let w1 = set_trader player (\<lambda>t. t\<lparr>tradePartner := Some partner, tradeItem := Some it, tradeState := TRADE_INITIATED\<rparr>) w;
            w2 = w1\<lparr>references := (references w1)(it := references w1 it + 1), tradeItems := (tradeItems w1)(it \<mapsto> player)\<rparr>
        in if tradeState (traders w2 partner) = TRADE_NONE
           then (True, set_trader partner (\<lambda>t. t\<lparr>tradeState := TRADE_ACKNOWLEDGE, tradePartner := Some player\<rparr>) w2)
           else (True, w2))"

text \<open>What a request finds out about the players, the item and the map. \<open>holds c i\<close> says that the container
  \<open>c\<close> holds \<open>i\<close>, at any depth.\<close>

record request_env =
  partnerNear :: bool
  partnerInSight :: bool
  thingAt :: "item option"
  sameSprite :: "item \<Rightarrow> bool"
  pickupable :: "item \<Rightarrow> bool"
  hasUniqueId :: "item \<Rightarrow> bool"
  houseForbids :: "item \<Rightarrow> bool" \<comment> \<open>the item lies in a house the player is not invited to, and that matters\<close>
  sameFloor :: "item \<Rightarrow> bool"
  itemNear :: "item \<Rightarrow> bool"
  isContainer :: "item \<Rightarrow> bool"
  holds :: "item \<Rightarrow> item \<Rightarrow> bool"
  itemHoldingCount :: "item \<Rightarrow> nat"
  onTradeRequest :: "pid \<Rightarrow> pid \<Rightarrow> item \<Rightarrow> bool"

definition already_traded :: "request_env \<Rightarrow> item \<Rightarrow> item \<Rightarrow> bool" where
  "already_traded e it other =
     (if isContainer e it then it = other \<or> holds e it other \<or> (isContainer e other \<and> holds e other it)
      else it = other \<or> (isContainer e other \<and> holds e other it))"

text \<open>The loops over \<open>tradeItems\<close> look at every item of the table; the table is finite, so its items can be
  listed, in whatever order the hash map has them.\<close>

definition playerRequestTrade :: "request_env \<Rightarrow> pid \<Rightarrow> pid \<Rightarrow> item list \<Rightarrow> trade_world \<Rightarrow> trade_world" where
  "playerRequestTrade e player partner table w =
     (if player \<notin> online w then w
      else if partner \<notin> online w \<or> partner = player then w
      else if \<not> partnerNear e then w
      else if \<not> partnerInSight e then w
      else case thingAt e of
        None \<Rightarrow> w
      | Some it \<Rightarrow>
          if \<not> sameSprite e it \<or> \<not> pickupable e it \<or> hasUniqueId e it then w
          else if houseForbids e it then w
          else if \<not> sameFloor e it then w
          else if \<not> itemNear e it then w \<comment> \<open>the player walks there and asks again\<close>
          else if list_ex (already_traded e it) table then w
          else if isContainer e it \<and> itemHoldingCount e it + 1 > 100 then w
          else if \<not> onTradeRequest e player partner it then w
          else snd (internalStartTrade player partner it w))"

section \<open>Closing a trade\<close>

definition release_traded :: "item option \<Rightarrow> trade_world \<Rightarrow> trade_world" where
  "release_traded it w =
     (case it of
        None \<Rightarrow> w
      | Some i \<Rightarrow>
          if tradeItems w i \<noteq> None
          then w\<lparr>toReleaseItems := toReleaseItems w @ [i], tradeItems := (tradeItems w)(i := None)\<rparr>
          else w)"

definition onTradeEvent :: "item option \<Rightarrow> trade_event \<Rightarrow> pid \<Rightarrow> trade_world \<Rightarrow> trade_world" where
  "onTradeEvent it ev p w = (case it of None \<Rightarrow> w | Some i \<Rightarrow> w\<lparr>trade_events := trade_events w @ [(i, ev, p)]\<rparr>)"

definition cancel_side :: "pid \<Rightarrow> trade_world \<Rightarrow> trade_world" where
  "cancel_side p w =
     set_trader p (\<lambda>t. t\<lparr>tradeItem := None, tradeState := TRADE_NONE, tradePartner := None\<rparr>)
       (onTradeEvent (tradeItem (traders w p)) ON_TRADE_CANCEL p (release_traded (tradeItem (traders w p)) w))"

definition internalCloseTrade :: "pid \<Rightarrow> trade_world \<Rightarrow> trade_world" where
  "internalCloseTrade player w =
     (let partner = tradePartner (traders w player) in
      if (case partner of None \<Rightarrow> False | Some q \<Rightarrow> tradeState (traders w q) = TRADE_TRANSFER) \<or>
         tradeState (traders w player) = TRADE_TRANSFER
      then w
      else
        let w1 = cancel_side player w in
        (case partner of None \<Rightarrow> w1 | Some q \<Rightarrow> cancel_side q w1))"

definition playerCloseTrade :: "pid \<Rightarrow> trade_world \<Rightarrow> trade_world" where
  "playerCloseTrade player w = (if player \<notin> online w then w else internalCloseTrade player w)"

section \<open>Accepting a trade\<close>

record accept_env =
  inSight :: bool
  onTradeAccept :: "(pid \<Rightarrow> pid \<Rightarrow> item \<Rightarrow> item \<Rightarrow> bool) option" \<comment> \<open>the script, when there is one\<close>
  onTradeCompleted :: bool \<comment> \<open>whether there is a script for completed trades\<close>
  backpack :: "pid \<Rightarrow> item option"
  slotItem :: "pid \<Rightarrow> item \<Rightarrow> item option" \<comment> \<open>what a player wears in the slot an item belongs to\<close>
  addItem :: "pid \<Rightarrow> item \<Rightarrow> return_value" \<comment> \<open>\<open>internalAddItem\<close> as a test\<close>
  removeItem :: "item \<Rightarrow> return_value" \<comment> \<open>\<open>internalRemoveItem\<close> as a test\<close>
  moveItem :: "item \<Rightarrow> pid \<Rightarrow> return_value" \<comment> \<open>the first \<open>internalMoveItem\<close>\<close>
  moveItemBack :: "item \<Rightarrow> pid \<Rightarrow> return_value" \<comment> \<open>the second one, after the first has succeeded\<close>

text \<open>A script that is given a null item reads through it.\<close>

definition script_verdict :: "accept_env \<Rightarrow> pid \<Rightarrow> pid \<Rightarrow> item option \<Rightarrow> item option \<Rightarrow> bool option" where
  "script_verdict e player partner mine theirs =
     (case onTradeAccept e of
        None \<Rightarrow> Some True
      | Some f \<Rightarrow> (case (mine, theirs) of (Some i, Some j) \<Rightarrow> Some (f player partner i j) | _ \<Rightarrow> None))"

definition completed_script :: "accept_env \<Rightarrow> item option \<Rightarrow> item option \<Rightarrow> unit option" where
  "completed_script e mine theirs = (if onTradeCompleted e \<and> (mine = None \<or> theirs = None) then None else Some ())"

text \<open>A player who trades the backpack they wear needs room for the other item in its slot.\<close>

definition backpack_check :: "accept_env \<Rightarrow> pid \<Rightarrow> item option \<Rightarrow> item option \<Rightarrow> return_value option" where
  "backpack_check e p given taken =
     (if backpack e p = given then
        (case taken of
           None \<Rightarrow> None
         | Some j \<Rightarrow> Some (if slotItem e p j \<noteq> None then RETURNVALUE_NOTENOUGHROOM else RETURNVALUE_NOERROR))
      else Some RETURNVALUE_NOERROR)"

definition test_add :: "accept_env \<Rightarrow> pid \<Rightarrow> item option \<Rightarrow> return_value" where
  "test_add e p it = (case it of None \<Rightarrow> RETURNVALUE_NOTPOSSIBLE | Some i \<Rightarrow> addItem e p i)"

text \<open>The two checks and the exchange: \<open>isSuccess\<close> and the calls of \<open>internalMoveItem\<close>. What the second call answers is not
  looked at.\<close>

definition exchange ::
    "accept_env \<Rightarrow> pid \<Rightarrow> pid \<Rightarrow> item option \<Rightarrow> item option \<Rightarrow> (bool \<times> (item \<times> pid \<times> return_value) list) option" where
  "exchange e player partner mine theirs =
     Option.bind (backpack_check e partner theirs mine) (\<lambda>partnerRet.
     Option.bind (backpack_check e player mine theirs) (\<lambda>ownRet.
       let playerRet = (if backpack e player = mine \<and> backpack e partner = theirs then RETURNVALUE_NOTENOUGHROOM else ownRet) in
       if partnerRet = RETURNVALUE_NOERROR \<and> playerRet = RETURNVALUE_NOERROR \<and>
          test_add e partner mine = RETURNVALUE_NOERROR \<and> test_add e player theirs = RETURNVALUE_NOERROR
       then
         (case (mine, theirs) of
            (Some i, Some j) \<Rightarrow>
              if removeItem e i = RETURNVALUE_NOERROR \<and> removeItem e j = RETURNVALUE_NOERROR then
                if moveItem e i partner = RETURNVALUE_NOERROR
                then Some (True, [(i, partner, RETURNVALUE_NOERROR), (j, player, moveItemBack e j player)])
                else Some (False, [(i, partner, moveItem e i partner)])
              else Some (False, [])
          | _ \<Rightarrow> None)
       else Some (False, [])))"

definition end_side :: "pid \<Rightarrow> trade_world \<Rightarrow> trade_world" where
  "end_side p w = set_trader p (\<lambda>t. t\<lparr>tradeState := TRADE_NONE, tradeItem := None, tradePartner := None\<rparr>) w"

definition settle :: "accept_env \<Rightarrow> pid \<Rightarrow> pid \<Rightarrow> trade_world \<Rightarrow> trade_world option" where
  "settle e player partner w =
     (let mine = tradeItem (traders w player); theirs = tradeItem (traders w partner);
          w1 = set_trader partner (tradeState_update (\<lambda>_. TRADE_TRANSFER)) (set_trader player (tradeState_update (\<lambda>_. TRADE_TRANSFER)) w);
          w2 = release_traded theirs (release_traded mine w1)
      in Option.bind (exchange e player partner mine theirs) (\<lambda>(isSuccess, ms).
         let w2 = w2\<lparr>moves := moves w2 @ ms\<rparr>;
             w3 = (if isSuccess then onTradeEvent theirs ON_TRADE_TRANSFER player (onTradeEvent mine ON_TRADE_TRANSFER partner w2)
                   else onTradeEvent (tradeItem (traders w2 player)) ON_TRADE_CANCEL player
                          (onTradeEvent (tradeItem (traders w2 partner)) ON_TRADE_CANCEL partner w2))
         in Option.bind (completed_script e mine theirs) (\<lambda>_. Some (end_side partner (end_side player w3)))))"

definition playerAcceptTrade :: "accept_env \<Rightarrow> pid \<Rightarrow> trade_world \<Rightarrow> trade_world option" where
  "playerAcceptTrade e player w =
     (if player \<notin> online w then Some w
      else if \<not> (tradeState (traders w player) = TRADE_ACKNOWLEDGE \<or> tradeState (traders w player) = TRADE_INITIATED) then Some w
      else case tradePartner (traders w player) of
        None \<Rightarrow> Some w
      | Some partner \<Rightarrow>
          let w1 = set_trader player (tradeState_update (\<lambda>_. TRADE_ACCEPT)) w in
          if tradeState (traders w1 partner) \<noteq> TRADE_ACCEPT then Some w1
          else if \<not> inSight e then Some (internalCloseTrade player w1)
          else
            Option.bind (script_verdict e player partner (tradeItem (traders w1 player)) (tradeItem (traders w1 partner))) (\<lambda>ok.
              if \<not> ok then Some (internalCloseTrade player w1) else settle e player partner w1))"

section \<open>What cancels a trade\<close>

text \<open>The containers an item lies in, from the inside out.\<close>

definition checkTradeState :: "pid \<Rightarrow> item \<Rightarrow> item list \<Rightarrow> trade_world \<Rightarrow> trade_world" where
  "checkTradeState p it parents w =
     (case tradeItem (traders w p) of
        None \<Rightarrow> w
      | Some i \<Rightarrow>
          if tradeState (traders w p) = TRADE_TRANSFER then w
          else if i = it then internalCloseTrade p w
          else if i \<in> set parents then internalCloseTrade p w
          else w)"

text \<open>The item, or a container that holds the traded item, leaves a tile or a slot of the player.\<close>

definition onRemoveTileItem :: "(item \<Rightarrow> item \<Rightarrow> bool) \<Rightarrow> pid \<Rightarrow> item \<Rightarrow> item list \<Rightarrow> trade_world \<Rightarrow> trade_world" where
  "onRemoveTileItem in_container p it parents w =
     (if tradeState (traders w p) \<noteq> TRADE_TRANSFER then
        let w1 = checkTradeState p it parents w in
        (case tradeItem (traders w1 p) of
           None \<Rightarrow> w1
         | Some i \<Rightarrow> if in_container it i then internalCloseTrade p w1 else w1)
      else w)"

definition onUpdateTileItem :: "(item \<Rightarrow> item \<Rightarrow> bool) \<Rightarrow> pid \<Rightarrow> item \<Rightarrow> item \<Rightarrow> item list \<Rightarrow> trade_world \<Rightarrow> trade_world" where
  "onUpdateTileItem in_container p old new parents w =
     (let w1 = (if old \<noteq> new then onRemoveTileItem in_container p old parents w else w) in
      if tradeState (traders w1 p) \<noteq> TRADE_TRANSFER \<and> tradeItem (traders w1 p) = Some old then internalCloseTrade p w1 else w1)"

text \<open>An item leaves the container \<open>c\<close>; \<open>direct\<close> says that \<open>c\<close> is the parent of the traded item.\<close>

definition onRemoveContainerItem :: "(item \<Rightarrow> item \<Rightarrow> bool) \<Rightarrow> (item \<Rightarrow> item \<Rightarrow> bool) \<Rightarrow> pid \<Rightarrow> item \<Rightarrow> item \<Rightarrow> item list \<Rightarrow> trade_world \<Rightarrow> trade_world" where
  "onRemoveContainerItem in_container direct p c it parents w =
     (if tradeState (traders w p) \<noteq> TRADE_TRANSFER then
        let w1 = checkTradeState p it parents w in
        (case tradeItem (traders w1 p) of
           None \<Rightarrow> w1
         | Some i \<Rightarrow> if \<not> direct c i \<and> in_container c i then internalCloseTrade p w1 else w1)
      else w)"

definition onUpdateContainerItem :: "(item \<Rightarrow> item \<Rightarrow> bool) \<Rightarrow> (item \<Rightarrow> item \<Rightarrow> bool) \<Rightarrow> pid \<Rightarrow> item \<Rightarrow> item \<Rightarrow> item \<Rightarrow> item list \<Rightarrow> trade_world \<Rightarrow> trade_world" where
  "onUpdateContainerItem in_container direct p c old new parents w =
     (let w1 = (if old \<noteq> new then onRemoveContainerItem in_container direct p c old parents w else w) in
      if tradeState (traders w1 p) \<noteq> TRADE_TRANSFER then checkTradeState p old parents w1 else w1)"

definition onRemoveInventoryItem :: "(item \<Rightarrow> item \<Rightarrow> bool) \<Rightarrow> pid \<Rightarrow> item \<Rightarrow> item list \<Rightarrow> trade_world \<Rightarrow> trade_world" where
  "onRemoveInventoryItem in_container p it parents w = onRemoveTileItem in_container p it parents w"

definition onUpdateInventoryItem :: "(item \<Rightarrow> item \<Rightarrow> bool) \<Rightarrow> pid \<Rightarrow> item \<Rightarrow> item \<Rightarrow> item list \<Rightarrow> trade_world \<Rightarrow> trade_world" where
  "onUpdateInventoryItem in_container p old new parents w =
     (let w1 = (if old \<noteq> new then onRemoveInventoryItem in_container p old parents w else w) in
      if tradeState (traders w1 p) \<noteq> TRADE_TRANSFER then checkTradeState p old parents w1 else w1)"

text \<open>The player moved: is the item still next to the player, and the partner near?\<close>

definition onCreatureMove_trade :: "(item \<Rightarrow> bool) \<Rightarrow> (pid \<Rightarrow> bool) \<Rightarrow> pid \<Rightarrow> trade_world \<Rightarrow> trade_world" where
  "onCreatureMove_trade item_near partner_near p w =
     (if tradeState (traders w p) \<noteq> TRADE_TRANSFER then
        let w1 = (case tradeItem (traders w p) of Some i \<Rightarrow> if \<not> item_near i then internalCloseTrade p w else w | None \<Rightarrow> w) in
        (case tradePartner (traders w1 p) of Some q \<Rightarrow> if \<not> partner_near q then internalCloseTrade p w1 else w1 | None \<Rightarrow> w1)
      else w)"

text \<open>The player leaves the game.\<close>

definition onRemoveCreature_trade :: "pid \<Rightarrow> trade_world \<Rightarrow> trade_world" where
  "onRemoveCreature_trade p w =
     (let w1 = (if tradePartner (traders w p) \<noteq> None then internalCloseTrade p w else w) in w1\<lparr>online := online w1 - {p}\<rparr>)"

section \<open>All steps\<close>

text \<open>A house is traded with a new item that stands for it; its owner never owns the partner's house too, so the
  two are different players.\<close>

inductive trade_step :: "trade_world \<Rightarrow> trade_world \<Rightarrow> bool" where
  request: "set table = dom (tradeItems w) \<Longrightarrow> trade_step w (playerRequestTrade e p q table w)"
| house: "i \<notin> dom (tradeItems w) \<Longrightarrow> p \<noteq> q \<Longrightarrow> p \<in> online w \<Longrightarrow> q \<in> online w \<Longrightarrow> trade_step w (snd (internalStartTrade p q i w))"
| accept: "playerAcceptTrade a p w = Some w' \<Longrightarrow> trade_step w w'"
| close: "trade_step w (playerCloseTrade p w)"
| tile_item: "trade_step w (onUpdateTileItem h p i j ps w)"
| tile_remove: "trade_step w (onRemoveTileItem h p i ps w)"
| container_add: "trade_step w (checkTradeState p i ps w)"
| container_item: "trade_step w (onUpdateContainerItem h d p c i j ps w)"
| container_remove: "trade_step w (onRemoveContainerItem h d p c i ps w)"
| inventory_item: "trade_step w (onUpdateInventoryItem h p i j ps w)"
| inventory_remove: "trade_step w (onRemoveInventoryItem h p i ps w)"
| moved: "trade_step w (onCreatureMove_trade near pnear p w)"
| logout: "trade_step w (onRemoveCreature_trade p w)"
| login: "p \<notin> online w \<Longrightarrow> trade_step w (w\<lparr>online := insert p (online w)\<rparr>)"

abbreviation trade_reach :: "trade_world \<Rightarrow> bool" where
  "trade_reach \<equiv> trade_step\<^sup>*\<^sup>* (new_trade_world {})"

section \<open>The invariant\<close>

text \<open>Partners are mutual; who has no partner is not trading; who was asked and has not answered, and who does
  not trade, has nothing on the table; the transfer is over when a handler ends; in every trade something is
  on the table.\<close>

definition pairs_ok :: "pid set \<Rightarrow> (pid \<Rightarrow> trader) \<Rightarrow> bool" where
  "pairs_ok on T \<longleftrightarrow>
     (\<forall>p q. tradePartner (T p) = Some q \<longrightarrow> tradePartner (T q) = Some p \<and> p \<noteq> q \<and> p \<in> on \<and>
        (tradeItem (T p) \<noteq> None \<or> tradeItem (T q) \<noteq> None)) \<and>
     (\<forall>p. (tradePartner (T p) = None \<longleftrightarrow> tradeState (T p) = TRADE_NONE) \<and> tradeState (T p) \<noteq> TRADE_TRANSFER \<and>
        (tradeState (T p) \<in> {TRADE_NONE, TRADE_ACKNOWLEDGE} \<longrightarrow> tradeItem (T p) = None) \<and>
        (tradeState (T p) = TRADE_INITIATED \<longrightarrow> tradeItem (T p) \<noteq> None))"

text \<open>The table holds exactly the items that players trade; for every reference taken to an item one has been
  given back, and one verdict has been told to the item, unless it is being traded now.\<close>

definition items_ok :: "trade_world \<Rightarrow> bool" where
  "items_ok w \<longleftrightarrow>
     (\<forall>i p. tradeItems w i = Some p \<longleftrightarrow> tradeItem (traders w p) = Some i) \<and>
     (\<forall>i. references w i = count_list (toReleaseItems w) i + (if tradeItems w i = None then 0 else 1)) \<and>
     (\<forall>i. references w i = count_list (map fst (trade_events w)) i + (if tradeItems w i = None then 0 else 1))"

definition trade_ok :: "trade_world \<Rightarrow> bool" where
  "trade_ok w \<longleftrightarrow> pairs_ok (online w) (traders w) \<and> items_ok w"

lemma new_trade_world_ok: "trade_ok (new_trade_world ps)"
  by (simp add: trade_ok_def pairs_ok_def items_ok_def new_trade_world_def not_trading_def)

lemma count_list_append [simp]: "count_list (xs @ ys) i = count_list xs i + count_list ys i"
  by (induction xs) simp_all

lemma pairs_okD:
  assumes "pairs_ok on T" "tradePartner (T p) = Some q"
  shows "tradePartner (T q) = Some p" "p \<noteq> q" "p \<in> on" "q \<in> on" "tradeItem (T p) \<noteq> None \<or> tradeItem (T q) \<noteq> None"
  using assms unfolding pairs_ok_def by metis+

lemma pairs_ok_state:
  assumes "pairs_ok on T"
  shows "tradePartner (T p) = None \<longleftrightarrow> tradeState (T p) = TRADE_NONE" "tradeState (T p) \<noteq> TRADE_TRANSFER"
    "tradeState (T p) \<in> {TRADE_NONE, TRADE_ACKNOWLEDGE} \<Longrightarrow> tradeItem (T p) = None"
    "tradeState (T p) = TRADE_INITIATED \<Longrightarrow> tradeItem (T p) \<noteq> None"
  using assms unfolding pairs_ok_def by blast+

text \<open>Setting both sides of a trade, or a player who does not trade, back.\<close>

lemma pairs_ok_clear:
  assumes ok: "pairs_ok on T" and partner: "\<And>q. tradePartner (T p) = Some q \<Longrightarrow> T' q = not_trading"
    and p: "T' p = not_trading" and others: "\<And>r. r \<noteq> p \<Longrightarrow> tradePartner (T p) \<noteq> Some r \<Longrightarrow> T' r = T r"
  shows "pairs_ok on T'"
proof -
  have T': "T' r = (if r = p \<or> tradePartner (T p) = Some r then not_trading else T r)" for r
    using partner p others by metis
  have away: "tradePartner (T r) \<noteq> Some p \<and> (tradePartner (T p) = Some s \<longrightarrow> tradePartner (T r) \<noteq> Some s)"
    if "r \<noteq> p" "tradePartner (T p) \<noteq> Some r" for r s
    using that pairs_okD(1) [OF ok] by (metis option.inject)
  show ?thesis unfolding pairs_ok_def
  proof (intro conjI allI impI)
    fix r s
    assume "tradePartner (T' r) = Some s"
    then have r: "r \<noteq> p" "tradePartner (T p) \<noteq> Some r" "tradePartner (T r) = Some s"
      by (auto simp: T' not_trading_def split: if_splits)
    then have s: "s \<noteq> p" "tradePartner (T p) \<noteq> Some s" using away [OF r(1,2)] by auto
    show "tradePartner (T' s) = Some r" "r \<noteq> s" "r \<in> on" "tradeItem (T' r) \<noteq> None \<or> tradeItem (T' s) \<noteq> None"
      using pairs_okD [OF ok r(3)] r s by (simp_all add: T')
  qed (use pairs_ok_state [OF ok] in \<open>auto simp: T' not_trading_def\<close>)
qed

lemma traders_release [simp]: "traders (release_traded it w) = traders w" "online (release_traded it w) = online w"
  "references (release_traded it w) = references w" "moves (release_traded it w) = moves w" "trade_events (release_traded it w) = trade_events w"
  by (simp_all add: release_traded_def split: option.split)

lemma traders_event [simp]: "traders (onTradeEvent it ev p w) = traders w" "online (onTradeEvent it ev p w) = online w"
  "references (onTradeEvent it ev p w) = references w" "moves (onTradeEvent it ev p w) = moves w" "tradeItems (onTradeEvent it ev p w) = tradeItems w"
  "toReleaseItems (onTradeEvent it ev p w) = toReleaseItems w"
  by (simp_all add: onTradeEvent_def split: option.split)

lemma set_trader_simps [simp]: "traders (set_trader p f w) = (traders w)(p := f (traders w p))"
  "online (set_trader p f w) = online w" "references (set_trader p f w) = references w" "moves (set_trader p f w) = moves w"
  "tradeItems (set_trader p f w) = tradeItems w" "toReleaseItems (set_trader p f w) = toReleaseItems w"
  "trade_events (set_trader p f w) = trade_events w"
  by (simp_all add: set_trader_def)

lemma clear_trader [simp]:
  "t\<lparr>tradeItem := None, tradeState := TRADE_NONE, tradePartner := None\<rparr> = not_trading"
  "t\<lparr>tradeState := TRADE_NONE, tradeItem := None, tradePartner := None\<rparr> = not_trading"
  by (cases t; simp add: not_trading_def)+

lemma not_trading_simps [simp]: "tradeItem not_trading = None" "tradeState not_trading = TRADE_NONE" "tradePartner not_trading = None"
  by (simp_all add: not_trading_def)

lemma cancel_side_traders [simp]: "traders (cancel_side p w) = (traders w)(p := not_trading)" "online (cancel_side p w) = online w"
  "moves (cancel_side p w) = moves w"
  by (simp_all add: cancel_side_def)

lemma items_okD:
  assumes "items_ok w"
  shows "tradeItem (traders w p) = Some i \<longleftrightarrow> tradeItems w i = Some p"
    "references w i = count_list (toReleaseItems w) i + (if tradeItems w i = None then 0 else 1)"
    "references w i = count_list (map fst (trade_events w)) i + (if tradeItems w i = None then 0 else 1)"
  using assms unfolding items_ok_def by blast+

lemma items_ok_cong:
  assumes "items_ok w" "\<And>p. tradeItem (traders w' p) = tradeItem (traders w p)" "tradeItems w' = tradeItems w"
    "references w' = references w" "toReleaseItems w' = toReleaseItems w" "trade_events w' = trade_events w"
  shows "items_ok w'"
  using assms(1) unfolding items_ok_def assms(2-) .

lemma cancel_side_items: assumes ok: "items_ok w" shows "items_ok (cancel_side p w)"
proof (cases "tradeItem (traders w p)")
  case None
  then have "tradeItems w i \<noteq> Some p" for i using items_okD(1) [OF ok, of p i] by simp
  then show ?thesis using ok None
    by (auto simp: items_ok_def cancel_side_def release_traded_def onTradeEvent_def)
next
  case (Some i)
  then have own: "tradeItems w i = Some p" using items_okD(1) [OF ok] by simp
  let ?w = "cancel_side p w"
  have w: "tradeItems ?w = (tradeItems w)(i := None)" "toReleaseItems ?w = toReleaseItems w @ [i]"
    "trade_events ?w = trade_events w @ [(i, ON_TRADE_CANCEL, p)]" "references ?w = references w"
    by (simp_all add: cancel_side_def Some release_traded_def own onTradeEvent_def)
  show ?thesis unfolding items_ok_def
  proof (intro conjI allI)
    show "tradeItems ?w j = Some r \<longleftrightarrow> tradeItem (traders ?w r) = Some j" for j r
      using own items_okD(1) [OF ok, of r j] Some by (auto simp: w)
    show "references ?w j = count_list (toReleaseItems ?w) j + (if tradeItems ?w j = None then 0 else 1)"
      "references ?w j = count_list (map fst (trade_events ?w)) j + (if tradeItems ?w j = None then 0 else 1)" for j
      using own items_okD(2,3) [OF ok, of j] by (auto simp: w)
  qed
qed

lemma internalCloseTrade_traders:
  assumes "pairs_ok (online w) (traders w)"
  shows "traders (internalCloseTrade p w) r = (if r = p \<or> tradePartner (traders w p) = Some r then not_trading else traders w r)"
    "online (internalCloseTrade p w) = online w"
  using pairs_ok_state(2) [OF assms] by (auto simp: internalCloseTrade_def Let_def split: option.split)

lemma internalCloseTrade_ok: assumes "trade_ok w" shows "trade_ok (internalCloseTrade p w)"
proof -
  have ok: "pairs_ok (online w) (traders w)" "items_ok w" using assms by (simp_all add: trade_ok_def)
  have "pairs_ok (online w) (traders (internalCloseTrade p w))"
    by (rule pairs_ok_clear [OF ok(1), of p]) (simp_all add: internalCloseTrade_traders [OF ok(1)])
  moreover have "items_ok (internalCloseTrade p w)"
    using ok(2) by (simp add: internalCloseTrade_def Let_def cancel_side_items split: option.split)
  ultimately show ?thesis by (simp add: trade_ok_def internalCloseTrade_traders [OF ok(1)])
qed

section \<open>Every step keeps the invariant\<close>

lemma internalStartTrade_ok:
  assumes ok: "trade_ok w" and fresh: "tradeItems w i = None" and pq: "p \<noteq> q" "p \<in> online w" "q \<in> online w"
  shows "trade_ok (snd (internalStartTrade p q i w))"
proof -
  let ?p = "traders w p" and ?q = "traders w q"
  have pairs: "pairs_ok (online w) (traders w)" and items: "items_ok w" using ok by (simp_all add: trade_ok_def)
  note st = pairs_ok_state [OF pairs] and pr = pairs_okD [OF pairs]
  show ?thesis
  proof (cases "(tradeState ?p \<noteq> TRADE_NONE \<and> \<not> (tradeState ?p = TRADE_ACKNOWLEDGE \<and> tradePartner ?p = Some q)) \<or>
      (tradeState ?q \<noteq> TRADE_NONE \<and> tradePartner ?q \<noteq> Some p)")
    case True
    then show ?thesis using ok by (auto simp: internalStartTrade_def Let_def)
  next
    case False
    let ?w = "snd (internalStartTrade p q i w)"
    have "tradeState ?p = TRADE_NONE \<and> tradeState ?q = TRADE_NONE \<or>
        tradeState ?p = TRADE_ACKNOWLEDGE \<and> tradePartner ?p = Some q \<and> tradePartner ?q = Some p"
      using False st(1) [of p] st(1) [of q] pr(1) [of p q] pr(1) [of q p] by auto
    moreover have none: "tradeItem ?p = None" using False st(3) [of p] by auto
    ultimately have T: "traders ?w = (traders w)(p := \<lparr>tradeState = TRADE_INITIATED, tradePartner = Some q, tradeItem = Some i\<rparr>,
        q := (if tradeState ?q = TRADE_NONE then \<lparr>tradeState = TRADE_ACKNOWLEDGE, tradePartner = Some p, tradeItem = None\<rparr> else ?q))"
      and on: "online ?w = online w" and old: "tradeState ?q = TRADE_NONE \<and> tradeState ?p = TRADE_NONE \<or> tradePartner ?q = Some p \<and> tradePartner ?p = Some q"
      using False pq(1) st(3) [of q] by (auto simp: internalStartTrade_def Let_def set_trader_def fun_eq_iff intro!: trader.equality)
    have "pairs_ok (online w) (traders ?w)"
      unfolding pairs_ok_def
    proof (intro conjI allI impI)
      fix r s
      assume r: "tradePartner (traders ?w r) = Some s"
      have away: "tradePartner (traders w r) = Some s \<Longrightarrow> r \<noteq> p \<Longrightarrow> r \<noteq> q \<Longrightarrow> s \<noteq> p \<and> s \<noteq> q"
        using old pr(1) [of r s] st(1) [of p] st(1) [of q] by auto
      show "tradePartner (traders ?w s) = Some r" "r \<noteq> s" "r \<in> online w"
          "tradeItem (traders ?w r) \<noteq> None \<or> tradeItem (traders ?w s) \<noteq> None"
        using r pr [of r s] away pq old st(1) [of q] by (auto simp: T split: if_splits)
    qed (use st old pq in \<open>auto simp: T split: if_splits\<close>)
    moreover have "items_ok ?w"
    proof -
      have "tradeItem (traders ?w r) = (if r = p then Some i else tradeItem (traders w r))" for r
        using st(3) [of q] pq(1) by (auto simp: T)
      moreover have "tradeItems ?w = (tradeItems w)(i \<mapsto> p)" "references ?w = (references w)(i := references w i + 1)"
        "toReleaseItems ?w = toReleaseItems w" "trade_events ?w = trade_events w"
        using False by (auto simp: internalStartTrade_def Let_def)
      moreover have "tradeItems w j \<noteq> Some p" for j using none items_okD(1) [OF items, of p j] by simp
      ultimately show ?thesis unfolding items_ok_def
        using items_okD [OF items] fresh by (auto split: if_splits)
    qed
    ultimately show ?thesis by (simp add: trade_ok_def on)
  qed
qed

lemma playerRequestTrade_ok:
  assumes "trade_ok w" "set table = dom (tradeItems w)" shows "trade_ok (playerRequestTrade e p q table w)"
proof -
  have "tradeItems w i = None" if "\<not> list_ex (already_traded e i) table" for i
  proof (rule ccontr)
    assume "tradeItems w i \<noteq> None"
    then have "i \<in> set table" using assms(2) by auto
    moreover have "already_traded e i i" by (simp add: already_traded_def)
    ultimately show False using that by (auto simp: list_ex_iff)
  qed
  then show ?thesis using assms(1)
    by (auto simp: playerRequestTrade_def intro!: internalStartTrade_ok split: option.split)
qed

text \<open>The acceptance of one side alone.\<close>

lemma set_accept_ok:
  assumes "trade_ok w" "tradeState (traders w p) \<noteq> TRADE_NONE"
  shows "trade_ok (set_trader p (tradeState_update (\<lambda>_. TRADE_ACCEPT)) w)"
proof -
  have pairs: "pairs_ok (online w) (traders w)" and items: "items_ok w" using assms(1) by (simp_all add: trade_ok_def)
  let ?T = "(traders w)(p := (traders w p)\<lparr>tradeState := TRADE_ACCEPT\<rparr>)"
  have same: "tradePartner (?T r) = tradePartner (traders w r)" "tradeItem (?T r) = tradeItem (traders w r)" for r by simp_all
  have "pairs_ok (online w) ?T" unfolding pairs_ok_def same
  proof (intro conjI allI impI)
    fix r s
    assume "tradePartner (traders w r) = Some s"
    from pairs_okD [OF pairs this] show "tradePartner (traders w s) = Some r" "r \<noteq> s" "r \<in> online w"
      "tradeItem (traders w r) \<noteq> None \<or> tradeItem (traders w s) \<noteq> None" by blast+
  qed (use pairs_ok_state [OF pairs] assms(2) in \<open>auto split: if_splits\<close>)
  moreover have "items_ok (set_trader p (tradeState_update (\<lambda>_. TRADE_ACCEPT)) w)"
    by (rule items_ok_cong [OF items]) simp_all
  ultimately show ?thesis by (simp add: trade_ok_def)
qed

text \<open>How an exchange may come out: both items are told that they changed hands, the first has been moved and a move of the
  second has been tried; or all are told that the trade is cancelled, and no move has succeeded.\<close>

definition exchanged :: "accept_env \<Rightarrow> pid \<Rightarrow> pid \<Rightarrow> trade_world \<Rightarrow> trade_world \<Rightarrow> bool" where
  "exchanged e p q w w' \<longleftrightarrow>
     (\<exists>i j. tradeItem (traders w p) = Some i \<and> tradeItem (traders w q) = Some j \<and>
        trade_events w' = trade_events w @ [(i, ON_TRADE_TRANSFER, q), (j, ON_TRADE_TRANSFER, p)] \<and>
        moves w' = moves w @ [(i, q, RETURNVALUE_NOERROR), (j, p, moveItemBack e j p)])"

definition cancelled :: "pid \<Rightarrow> pid \<Rightarrow> trade_world \<Rightarrow> trade_world \<Rightarrow> bool" where
  "cancelled p q w w' \<longleftrightarrow>
     (\<exists>evs. trade_events w' = trade_events w @ evs \<and> distinct evs \<and>
        set evs = {(i, ON_TRADE_CANCEL, r) | i r. r \<in> {p, q} \<and> tradeItem (traders w r) = Some i}) \<and>
     (\<exists>ms. moves w' = moves w @ ms \<and> RETURNVALUE_NOERROR \<notin> set (map (snd \<circ> snd) ms))"

text \<open>The exchange. Whatever comes of it, both sides are done, their items are off the table, and each item has
  been told one thing: that it changed hands, both of them, or that the trade was cancelled.\<close>

lemma settle_effect:
  assumes items: "items_ok w" and pq: "p \<noteq> q" and s: "settle e p q w = Some w'"
  shows "traders w' = (traders w)(p := not_trading, q := not_trading)" "online w' = online w"
    "items_ok w'"
    "exchanged e p q w w' \<or> cancelled p q w w'"
proof -
  let ?mine = "tradeItem (traders w p)" and ?theirs = "tradeItem (traders w q)"
  define w1 where "w1 = set_trader q (tradeState_update (\<lambda>_. TRADE_TRANSFER)) (set_trader p (tradeState_update (\<lambda>_. TRADE_TRANSFER)) w)"
  define w2 where "w2 = release_traded ?theirs (release_traded ?mine w1)"
  have w1: "tradeItem (traders w1 r) = tradeItem (traders w r)" "tradeItems w1 = tradeItems w" "toReleaseItems w1 = toReleaseItems w"
      "references w1 = references w" "trade_events w1 = trade_events w" "online w1 = online w" "moves w1 = moves w" for r
    by (simp_all add: w1_def)
  obtain ok ms where ok: "exchange e p q ?mine ?theirs = Some (ok, ms)" and
    w': "w' = end_side q (end_side p (if ok then onTradeEvent ?theirs ON_TRADE_TRANSFER p (onTradeEvent ?mine ON_TRADE_TRANSFER q (w2\<lparr>moves := moves w2 @ ms\<rparr>))
           else onTradeEvent ?mine ON_TRADE_CANCEL p (onTradeEvent ?theirs ON_TRADE_CANCEL q (w2\<lparr>moves := moves w2 @ ms\<rparr>))))"
    using s by (auto simp: settle_def Let_def w1_def [symmetric] w2_def [symmetric] w1 bind_eq_Some_conv)
      (auto simp: w2_def w1)
  have both: "\<exists>i j. ?mine = Some i \<and> ?theirs = Some j \<and> ms = [(i, q, RETURNVALUE_NOERROR), (j, p, moveItemBack e j p)]" if ok
    using ok that by (auto simp: exchange_def Let_def bind_eq_Some_conv split: if_splits option.splits)
  have none: "RETURNVALUE_NOERROR \<notin> set (map (snd \<circ> snd) ms)" if "\<not> ok"
    using ok that by (auto simp: exchange_def Let_def bind_eq_Some_conv split: if_splits option.splits)
  show T: "traders w' = (traders w)(p := not_trading, q := not_trading)" and on: "online w' = online w"
    using pq by (auto simp: w' end_side_def w2_def w1 fun_eq_iff) (auto simp: w1_def)
  have own: "?mine = Some i \<Longrightarrow> tradeItems w i = Some p" "?theirs = Some i \<Longrightarrow> tradeItems w i = Some q" for i
    using items_okD(1) [OF items] by auto
  have left: "tradeItems w' i = (if ?mine = Some i \<or> ?theirs = Some i then None else tradeItems w i)" for i
    by (auto simp: w' end_side_def w2_def release_traded_def w1 split: option.split)
  have counts: "count_list (toReleaseItems w') i = count_list (toReleaseItems w) i + (if ?mine = Some i \<or> ?theirs = Some i then 1 else 0)"
    "count_list (map fst (trade_events w')) i = count_list (map fst (trade_events w)) i + (if ?mine = Some i \<or> ?theirs = Some i then 1 else 0)"
    "references w' i = references w i" for i
    using own pq both
    by (cases ?mine; cases ?theirs; auto simp: w' end_side_def w2_def release_traded_def w1 onTradeEvent_def split: if_splits)+
  show "items_ok w'"
    unfolding items_ok_def
  proof (intro conjI allI)
    show "tradeItems w' i = Some r \<longleftrightarrow> tradeItem (traders w' r) = Some i" for i r
      using items_okD(1) [OF items, of r i] own [of i] by (auto simp: left T)
    show "references w' i = count_list (toReleaseItems w') i + (if tradeItems w' i = None then 0 else 1)"
      "references w' i = count_list (map fst (trade_events w')) i + (if tradeItems w' i = None then 0 else 1)" for i
      using items_okD(2,3) [OF items, of i] own [of i] by (auto simp: left counts)
  qed
  have m: "moves w' = moves w @ ms" by (simp add: w' end_side_def w2_def w1)
  show "exchanged e p q w w' \<or> cancelled p q w w'"
  proof (cases ok)
    case True
    then show ?thesis using both by (auto simp: exchanged_def m) (auto simp: w' end_side_def w2_def w1 onTradeEvent_def)
  next
    case False
    have "\<exists>evs. trade_events w' = trade_events w @ evs \<and> distinct evs \<and>
        set evs = {(i, ON_TRADE_CANCEL, r) | i r. r \<in> {p, q} \<and> tradeItem (traders w r) = Some i}"
      using pq False
      by (intro exI [of _ "(case ?theirs of None \<Rightarrow> [] | Some j \<Rightarrow> [(j, ON_TRADE_CANCEL, q)]) @
          (case ?mine of None \<Rightarrow> [] | Some i \<Rightarrow> [(i, ON_TRADE_CANCEL, p)])"])
        (auto simp: w' end_side_def w2_def w1 onTradeEvent_def split: option.splits)
    then show ?thesis using none [OF False] m by (auto simp: cancelled_def)
  qed
qed

lemma settle_ok:
  assumes "trade_ok w" "tradePartner (traders w p) = Some q" "settle e p q w = Some w'"
  shows "trade_ok w'"
proof -
  have ok: "pairs_ok (online w) (traders w)" "items_ok w" using assms(1) by (simp_all add: trade_ok_def)
  note effect = settle_effect [OF ok(2) pairs_okD(2) [OF ok(1) assms(2)] assms(3)]
  have "pairs_ok (online w) (traders w')"
    by (rule pairs_ok_clear [OF ok(1), of p]) (auto simp: effect(1) assms(2))
  then show ?thesis using effect by (simp add: trade_ok_def)
qed

lemma playerAcceptTrade_ok: "trade_ok w \<Longrightarrow> playerAcceptTrade e p w = Some w' \<Longrightarrow> trade_ok w'"
  unfolding playerAcceptTrade_def
  by (auto simp: Let_def bind_eq_Some_conv split: if_splits option.splits
      intro!: set_accept_ok internalCloseTrade_ok elim!: settle_ok [rotated 2])

lemma checkTradeState_ok: "trade_ok w \<Longrightarrow> trade_ok (checkTradeState p i ps w)"
  by (simp add: checkTradeState_def internalCloseTrade_ok split: option.split)

lemma onRemoveTileItem_ok: "trade_ok w \<Longrightarrow> trade_ok (onRemoveTileItem h p i ps w)"
  by (simp add: onRemoveTileItem_def Let_def internalCloseTrade_ok checkTradeState_ok split: option.split)

lemma onRemoveContainerItem_ok: "trade_ok w \<Longrightarrow> trade_ok (onRemoveContainerItem h d p c i ps w)"
  by (simp add: onRemoveContainerItem_def Let_def internalCloseTrade_ok checkTradeState_ok split: option.split)

lemmas item_handlers_ok = checkTradeState_ok onRemoveTileItem_ok onRemoveContainerItem_ok internalCloseTrade_ok

lemma onCreatureMove_trade_ok: "trade_ok w \<Longrightarrow> trade_ok (onCreatureMove_trade near pnear p w)"
  by (simp add: onCreatureMove_trade_def Let_def internalCloseTrade_ok split: option.split)

lemma onRemoveCreature_trade_ok:
  assumes "trade_ok w" shows "trade_ok (onRemoveCreature_trade p w)"
proof -
  define w1 where "w1 = (if tradePartner (traders w p) \<noteq> None then internalCloseTrade p w else w)"
  have pairs: "pairs_ok (online w) (traders w)" using assms by (simp add: trade_ok_def)
  have ok: "trade_ok w1" using assms by (simp add: w1_def internalCloseTrade_ok)
  have "tradePartner (traders w1 p) = None" by (simp add: w1_def internalCloseTrade_traders [OF pairs])
  then have "pairs_ok (online w1 - {p}) (traders w1)"
    using ok unfolding trade_ok_def pairs_ok_def by (metis Diff_iff option.distinct(1) singletonD)
  moreover have "items_ok (w1\<lparr>online := online w1 - {p}\<rparr>)"
    by (rule items_ok_cong [of w1]) (use ok in \<open>simp_all add: trade_ok_def\<close>)
  moreover have "onRemoveCreature_trade p w = w1\<lparr>online := online w1 - {p}\<rparr>"
    by (simp add: onRemoveCreature_trade_def w1_def Let_def)
  ultimately show ?thesis by (simp add: trade_ok_def)
qed

lemma pairs_ok_mono: "pairs_ok on T \<Longrightarrow> on \<subseteq> on' \<Longrightarrow> pairs_ok on' T"
  unfolding pairs_ok_def by blast

lemma login_ok: "trade_ok w \<Longrightarrow> trade_ok (w\<lparr>online := insert p (online w)\<rparr>)"
  using pairs_ok_mono [of "online w" "traders w" "insert p (online w)"] items_ok_cong [of w "w\<lparr>online := insert p (online w)\<rparr>"]
  by (simp add: trade_ok_def subset_insertI)

lemma update_handlers_ok:
  assumes "trade_ok w"
  shows "trade_ok (onUpdateTileItem h p i j ps w)" "trade_ok (onUpdateContainerItem h d p c i j ps w)"
    "trade_ok (onRemoveInventoryItem h p i ps w)" "trade_ok (onUpdateInventoryItem h p i j ps w)" "trade_ok (playerCloseTrade p w)"
  using assms
  by (simp_all add: onUpdateTileItem_def onUpdateContainerItem_def onRemoveInventoryItem_def onUpdateInventoryItem_def
      playerCloseTrade_def Let_def item_handlers_ok)

lemma trade_step_ok: "trade_step w w' \<Longrightarrow> trade_ok w \<Longrightarrow> trade_ok w'"
proof (induction rule: trade_step.induct)
  case (house i w p q)
  then show ?case by (intro internalStartTrade_ok) auto
qed (simp_all only: playerRequestTrade_ok playerAcceptTrade_ok item_handlers_ok update_handlers_ok onCreatureMove_trade_ok
    onRemoveCreature_trade_ok login_ok)

lemma trade_reach_ok: "trade_reach w \<Longrightarrow> trade_ok w"
  by (induction rule: rtranclp_induct) (auto intro: new_trade_world_ok trade_step_ok)

section \<open>Properties\<close>

text \<open>C3: However players request, accept and cancel trades, move, log out, and whatever happens to the items, the
  partners of a trade are always each other's and in the game, in every trade something is on the table, the
  table of traded items lists exactly the items that players have on the table, and for every time an item
  was put on the table its reference was given back once and it was told once what became of the trade,
  unless it is on the table still.\<close>

theorem trades_are_consistent:
  assumes "trade_reach w"
  shows "(\<forall>p q. tradePartner (traders w p) = Some q \<longrightarrow> tradePartner (traders w q) = Some p \<and> p \<noteq> q \<and> p \<in> online w \<and>
      (tradeItem (traders w p) \<noteq> None \<or> tradeItem (traders w q) \<noteq> None)) \<and>
    (\<forall>i p. tradeItems w i = Some p \<longleftrightarrow> tradeItem (traders w p) = Some i) \<and>
    (\<forall>i. references w i = count_list (toReleaseItems w) i + (if tradeItems w i = None then 0 else 1) \<and>
       references w i = count_list (map fst (trade_events w)) i + (if tradeItems w i = None then 0 else 1))"
  using trade_reach_ok [OF assms] unfolding trade_ok_def pairs_ok_def items_ok_def by blast

text \<open>What closing a trade does, side by side.\<close>

lemma cancelled_events:
  assumes "trade_ok w" "tradePartner (traders w p) = Some q"
  shows "cancelled p q w (internalCloseTrade p w)"
proof -
  have pairs: "pairs_ok (online w) (traders w)" using assms(1) by (simp add: trade_ok_def)
  have "p \<noteq> q" by (rule pairs_okD(2) [OF pairs assms(2)])
  then have "\<exists>evs. trade_events (internalCloseTrade p w) = trade_events w @ evs \<and> distinct evs \<and>
    set evs = {(i, ON_TRADE_CANCEL, r) | i r. r \<in> {p, q} \<and> tradeItem (traders w r) = Some i}"
    using pairs_ok_state(2) [OF pairs] assms(2)
    by (intro exI [of _ "(case tradeItem (traders w p) of None \<Rightarrow> [] | Some i \<Rightarrow> [(i, ON_TRADE_CANCEL, p)]) @
          (case tradeItem (traders w q) of None \<Rightarrow> [] | Some j \<Rightarrow> [(j, ON_TRADE_CANCEL, q)])"])
      (auto simp: internalCloseTrade_def Let_def cancel_side_def onTradeEvent_def split: option.splits)
  moreover have "moves (internalCloseTrade p w) = moves w" by (simp add: internalCloseTrade_def Let_def split: option.split)
  ultimately show ?thesis by (simp add: cancelled_def)
qed

lemma free_trader_off_table:
  assumes "trade_ok w" "traders w p = not_trading" shows "tradeItems w i \<noteq> Some p"
  using items_okD(1) [of w p i] assms by (simp add: trade_ok_def)

text \<open>C11: When both have accepted, the trade is over: both players are free, their items are off the table, and no other
  player is touched. Either both items are told that they changed hands: then the item of the one who accepted last has
  been moved to the partner, and the item of the partner was tried to be moved, which may have failed, as that answer is not
  looked at. Or every item on the table is told that the trade was cancelled, and no move has succeeded.\<close>

theorem accepted_trade_is_settled:
  assumes "trade_reach w" and "tradePartner (traders w p) = Some q" and "tradeState (traders w q) = TRADE_ACCEPT"
    and "tradeState (traders w p) \<noteq> TRADE_ACCEPT" and "playerAcceptTrade e p w = Some w'"
  shows "traders w' = (traders w)(p := not_trading, q := not_trading) \<and>
    (\<nexists>i. tradeItems w' i \<in> {Some p, Some q}) \<and>
    (exchanged e p q w w' \<or> cancelled p q w w')"
proof -
  have ok: "trade_ok w" by (rule trade_reach_ok [OF assms(1)])
  then have pairs: "pairs_ok (online w) (traders w)" by (simp add: trade_ok_def)
  note pq = pairs_okD [OF pairs assms(2)] and st = pairs_ok_state [OF pairs, of p]
  define w1 where "w1 = set_trader p (tradeState_update (\<lambda>_. TRADE_ACCEPT)) w"
  have busy: "tradeState (traders w p) = TRADE_ACKNOWLEDGE \<or> tradeState (traders w p) = TRADE_INITIATED"
    using st(1,2) assms(2,4) by (cases "tradeState (traders w p)") auto
  have ok1: "trade_ok w1" unfolding w1_def by (rule set_accept_ok [OF ok]) (use busy in auto)
  have w1: "tradePartner (traders w1 r) = tradePartner (traders w r)" "tradeItem (traders w1 r) = tradeItem (traders w r)"
    "trade_events w1 = trade_events w" "moves w1 = moves w" for r by (simp_all add: w1_def)
  then have same: "exchanged e p q w1 w' = exchanged e p q w w'" "cancelled p q w1 w' = cancelled p q w w'"
    by (simp_all add: exchanged_def cancelled_def)
  have ok': "trade_ok w'" by (rule playerAcceptTrade_ok [OF ok assms(5)])
  have over: "(traders w1)(p := not_trading, q := not_trading) = (traders w)(p := not_trading, q := not_trading)"
    by (simp add: w1_def fun_eq_iff)
  have partner1: "tradePartner (traders w1 p) = Some q" using assms(2) by (simp add: w1)
  have items1: "items_ok w1" and pairs1: "pairs_ok (online w1) (traders w1)" using ok1 by (simp_all add: trade_ok_def)
  have "w' = internalCloseTrade p w1 \<or> settle e p q w1 = Some w'"
    using assms(2,3,5) busy pq(2,3)
    by (auto simp: playerAcceptTrade_def w1_def [symmetric] Let_def bind_eq_Some_conv split: if_splits) (auto simp: w1_def)
  then have "traders w' = (traders w)(p := not_trading, q := not_trading) \<and>
    (exchanged e p q w w' \<or> cancelled p q w w')"
  proof
    assume w': "w' = internalCloseTrade p w1"
    have "traders w' = (traders w1)(p := not_trading, q := not_trading)"
      by (auto simp: w' fun_eq_iff internalCloseTrade_traders(1) [OF pairs1] partner1)
    then show ?thesis using cancelled_events [OF ok1 partner1] same by (simp add: over w1 w' [symmetric])
  next
    assume "settle e p q w1 = Some w'"
    from settle_effect(1,4) [OF items1 pq(2) this] show ?thesis by (simp add: over w1 same)
  qed
  then show ?thesis using free_trader_off_table [OF ok'] pq(2) by auto
qed

text \<open>Accepting reads through a null item only when one of the two has nothing on the table. The code lets a
  player accept who was asked and has offered nothing, and then it can happen.\<close>

theorem accept_fails_only_without_offer:
  assumes "trade_reach w" and "playerAcceptTrade e p w = None"
  shows "\<exists>q. tradePartner (traders w p) = Some q \<and> tradeState (traders w q) = TRADE_ACCEPT \<and>
    (tradeItem (traders w p) = None \<longleftrightarrow> tradeItem (traders w q) \<noteq> None)"
proof -
  have ok: "trade_ok w" by (rule trade_reach_ok [OF assms(1)])
  then have pairs: "pairs_ok (online w) (traders w)" by (simp add: trade_ok_def)
  obtain q where q: "tradePartner (traders w p) = Some q"
    using assms(2) by (cases "tradePartner (traders w p)") (auto simp: playerAcceptTrade_def split: if_splits)
  note pq = pairs_okD [OF pairs q]
  define w1 where "w1 = set_trader p (tradeState_update (\<lambda>_. TRADE_ACCEPT)) w"
  have w1: "traders w1 q = traders w q" "tradeItem (traders w1 p) = tradeItem (traders w p)"
    using pq(2) by (simp_all add: w1_def)
  have accepted: "tradeState (traders w q) = TRADE_ACCEPT" and
    fails: "script_verdict e p q (tradeItem (traders w p)) (tradeItem (traders w q)) = None \<or> settle e p q w1 = None"
    using assms(2) by (auto simp: playerAcceptTrade_def w1_def [symmetric] w1 q Let_def bind_eq_None_conv split: if_splits)
  have "tradeItem (traders w p) = None \<or> tradeItem (traders w q) = None"
    using fails
    by (auto simp: script_verdict_def settle_def exchange_def backpack_check_def completed_script_def w1 Let_def
        bind_eq_None_conv bind_eq_Some_conv split: option.splits if_splits)
  then show ?thesis using pq accepted q by auto
qed

section \<open>Two players\<close>

definition offer :: "item \<Rightarrow> request_env" where
  "offer i = \<lparr>partnerNear = True, partnerInSight = True, thingAt = Some i, sameSprite = (\<lambda>_. True), pickupable = (\<lambda>_. True),
     hasUniqueId = (\<lambda>_. False), houseForbids = (\<lambda>_. False), sameFloor = (\<lambda>_. True), itemNear = (\<lambda>_. True), isContainer = (\<lambda>_. False),
     holds = (\<lambda>_ _. False), itemHoldingCount = (\<lambda>_. 0), onTradeRequest = (\<lambda>_ _ _. True)\<rparr>"

text \<open>Nothing is in the way of an exchange; player 1 wears the item 7 as a backpack.\<close>

definition no_trouble :: accept_env where
  "no_trouble = \<lparr>inSight = True, onTradeAccept = None, onTradeCompleted = False, backpack = (\<lambda>p. if p = 1 then Some 7 else Some 9),
     slotItem = (\<lambda>_ _. None), addItem = (\<lambda>_ _. RETURNVALUE_NOERROR), removeItem = (\<lambda>_. RETURNVALUE_NOERROR), moveItem = (\<lambda>_ _. RETURNVALUE_NOERROR),
     moveItemBack = (\<lambda>_ _. RETURNVALUE_NOERROR)\<rparr>"

definition two_players :: trade_world where
  "two_players = new_trade_world {}\<lparr>online := {2, 1}\<rparr>"

text \<open>Player 1 has offered 7 and accepted; player 2 has offered nothing yet, or 8.\<close>

definition one_sided :: trade_world where
  "one_sided = set_trader 1 (tradeState_update (\<lambda>_. TRADE_ACCEPT)) (playerRequestTrade (offer 7) 1 2 [] two_players)"

definition two_sided :: trade_world where
  "two_sided = playerRequestTrade (offer 8) 2 1 [7] one_sided"

lemmas trade_eval = playerRequestTrade_def playerAcceptTrade_def internalStartTrade_def settle_def exchange_def
  backpack_check_def script_verdict_def completed_script_def offer_def no_trouble_def already_traded_def test_add_def
  new_trade_world_def not_trading_def set_trader_def Let_def

lemma one_sided_reach: "trade_reach one_sided"
proof -
  let ?w1 = "new_trade_world {}\<lparr>online := {1}\<rparr>" and ?w2 = "two_players"
  have "trade_step (new_trade_world {}) ?w1" using trade_step.login [of 1 "new_trade_world {}"] by (simp add: new_trade_world_def)
  moreover have "trade_step ?w1 ?w2" using trade_step.login [of 2 ?w1] by (simp add: two_players_def)
  moreover have "trade_step ?w2 (playerRequestTrade (offer 7) 1 2 [] ?w2)"
    by (rule trade_step.request) (simp add: two_players_def new_trade_world_def)
  moreover have "trade_step (playerRequestTrade (offer 7) 1 2 [] ?w2) one_sided"
    by (rule trade_step.accept [of no_trouble 1]) (simp add: trade_eval two_players_def one_sided_def)
  ultimately show ?thesis by (meson converse_rtranclp_into_rtranclp rtranclp.rtrancl_refl)
qed

lemma two_sided_reach: "trade_reach two_sided"
proof -
  have "trade_step one_sided two_sided" unfolding two_sided_def
    by (rule trade_step.request) (auto simp: trade_eval one_sided_def two_players_def split: if_splits)
  then show ?thesis using one_sided_reach by simp
qed

lemma trades_are_consistent_witness: "tradePartner (traders one_sided 1) = Some 2 \<and> tradePartner (traders one_sided 2) = Some 1"
  using trades_are_consistent [OF one_sided_reach] by (simp add: one_sided_def trade_eval two_players_def)

lemma accept_fails_only_without_offer_witness:
  "playerAcceptTrade no_trouble 2 one_sided = None \<and> tradeItem (traders one_sided 2) = None"
proof -
  have fails: "playerAcceptTrade no_trouble 2 one_sided = None" by (simp add: one_sided_def two_players_def trade_eval)
  from accept_fails_only_without_offer [OF one_sided_reach this] show ?thesis
    by (simp add: fails one_sided_def two_players_def trade_eval)
qed

text \<open>Player 2 gives 8 and does not get 7 for it: the second move finds no room, and both items are told that they changed hands.\<close>

lemma no_room_for_second:
  defines "e \<equiv> no_trouble\<lparr>backpack := (\<lambda>_. Some 9), moveItemBack := (\<lambda>_ _. RETURNVALUE_NOTENOUGHROOM)\<rparr>"
  shows "\<exists>w'. playerAcceptTrade e 2 two_sided = Some w' \<and>
    trade_events w' = [(8, ON_TRADE_TRANSFER, 1), (7, ON_TRADE_TRANSFER, 2)] \<and>
    moves w' = [(8, 1, RETURNVALUE_NOERROR), (7, 2, RETURNVALUE_NOTENOUGHROOM)]"
  by (simp add: e_def two_sided_def one_sided_def two_players_def trade_eval onTradeEvent_def release_traded_def end_side_def)

lemma accepted_trade_is_settled_witness:
  "\<exists>w'. playerAcceptTrade (no_trouble\<lparr>backpack := (\<lambda>_. Some 9)\<rparr>) 2 two_sided = Some w' \<and> traders w' 1 = not_trading \<and>
    traders w' 2 = not_trading"
proof -
  let ?e = "no_trouble\<lparr>backpack := (\<lambda>_. Some 9)\<rparr>"
  have "tradePartner (traders two_sided 2) = Some 1" "tradeState (traders two_sided 1) = TRADE_ACCEPT"
    "tradeState (traders two_sided 2) \<noteq> TRADE_ACCEPT" and "playerAcceptTrade ?e 2 two_sided \<noteq> None"
    by (simp_all add: two_sided_def one_sided_def two_players_def trade_eval)
  then obtain w' where "playerAcceptTrade ?e 2 two_sided = Some w'" by blast
  with accepted_trade_is_settled [OF two_sided_reach \<open>tradePartner _ = _\<close> \<open>tradeState _ = _\<close> \<open>tradeState _ \<noteq> _\<close> this]
  show ?thesis by simp
qed

end
