(* ===== verification/Spec2Isabelle.thy ===== *)
theory Spec2Isabelle
  imports Autosend Ban Chat CombatArea ConditionEffects Conditions Connection Container Dispatcher ItemAttr ItemMove Lifetimes MatrixArea MapTree MonsterStep NetworkMessage OrderedMap Otb Party Pathfinding PlayerIndex Positions Progress Protocol Rounding Sight Spectators Tiles Trade WalkCache Wildcard Xtea
begin

text \<open>
  A verification development for the game server in \<open>src/src\<close>, a C++ server for a two-dimensional
  multi-player world. Clients connect, are framed and encrypted (\<open>connection.cpp\<close>, \<open>protocol.cpp\<close>,
  \<open>networkmessage.cpp\<close>, \<open>xtea.cpp\<close>), their requests become tasks of one game thread (\<open>tasks.cpp\<close>),
  and that thread works on one world: a map of tiles with creatures on it (\<open>map.cpp\<close>,
  \<open>creature.cpp\<close>), the players online (\<open>game.cpp\<close>), and what players have among themselves: trades,
  parties and chat channels (\<open>game.cpp\<close>, \<open>party.cpp\<close>, \<open>chat.cpp\<close>).

  \<^bold>\<open>How the code is represented.\<close>
  A struct or class is a record, an enumeration a datatype, a machine integer a word of its width
  (\<open>u8\<close>, \<open>u16\<close>, \<open>u32\<close>, \<open>u64\<close> of Prelude), so that arithmetic wraps where the code wraps; C++'s signed
  differences that the code computes in \<open>int32_t\<close> are \<open>int\<close> where their range is bounded by the types
  they come from. A \<open>std::map\<close> or \<open>std::set\<close> is an association list in ascending order of keys
  (OrderedMap), so that iteration has the order of the source. A read or write past the end of a
  buffer, a dereferenced null pointer and a violated \<open>assert\<close> are the result None; a function that
  returns an error code or false returns the corresponding value. State is passed explicitly; code
  that runs from outside events is a step relation on that state. Objects that others point to live
  in a store (a function from references to records), and a pointer is an optional reference.
  Scripts, clocks, sockets and what other subsystems answer are arguments of the definitions that
  use them: no law is assumed of them unless a theorem says so as a hypothesis.

  \<^bold>\<open>Network side.\<close>
  \<^item> NetworkMessage: the message buffer (\<open>networkmessage.h\<close>, \<open>networkmessage.cpp\<close>). Every operation keeps
    the buffer at its size and its position within it, but reading backwards at the front and a padding whose size wraps
    around, which leave it; what is written is what is read.
  \<^item> Xtea: the cipher (\<open>xtea.cpp\<close>): decryption undoes encryption on buffers of any number of blocks.
  \<^item> Protocol: output messages, the Adler checksum, padding, encryption and the receiving side
    (\<open>outputmessage.h\<close>, \<open>protocol.cpp\<close>, \<open>tools.cpp\<close>): a message sent is the message received.
  \<^item> Connection: the handlers of one connection (\<open>connection.cpp\<close>) as steps: at most one write pending,
    messages written in the order sent, a closed idle connection closes its socket.
  \<^item> Autosend: the pool of protocols whose buffers are flushed periodically (\<open>outputmessage.cpp\<close>).
  \<^item> Ban: flood protection and ban decisions (\<open>ban.cpp\<close>): a flood is refused, however often
    it tries again, and a patient client accepted.
  \<^item> Dispatcher: the queue of tasks and its thread (\<open>tasks.cpp\<close>, \<open>thread_holder_base.h\<close>), as
    interleaved critical sections: tasks are taken out once and in order, no wake-up is lost, and a
    shutdown ends the thread.

  \<^bold>\<open>World side.\<close>
  \<^item> Positions: coordinates, their order, directions (\<open>position.h\<close>, \<open>tools.cpp\<close>).
  \<^item> MapTree: the tree of tiles with its linked leaves (\<open>map.h\<close>, \<open>map.cpp\<close>), refining a partial map
    from coordinates to tiles.
  \<^item> Spectators: the leaves' lists of creatures, the search for spectators and its two caches
    (\<open>map.cpp\<close>): the search with its caches gives exactly the creatures within the range.
  \<^item> Rounding: rounding to \<open>float\<close> and \<open>double\<close>, for the parts that compute with them. Sight: lines of sight (\<open>map.cpp\<close>).
  \<^item> Pathfinding: the path search over a node pool of 512 (\<open>map.cpp\<close>): it answers, and the path it
    answers with leads over tiles that can be entered to a position that satisfies the goal.
  \<^item> WalkCache: a creature's window of 23 by 23 verdicts (\<open>creature.cpp\<close>) and its updates under steps.
  \<^item> MatrixArea, CombatArea: the areas of spells as matrices and their directions (\<open>matrixarea.cpp\<close>,
    \<open>combat.cpp\<close>).
  \<^item> Otb: the binary tree format of item and map files and property streams (\<open>fileloader.cpp\<close>).

  \<^bold>\<open>Players among themselves.\<close>
  \<^item> Wildcard, PlayerIndex: the tree of names and the registry of online players
    (\<open>wildcardtree.cpp\<close>, \<open>game.cpp\<close>).
  \<^item> Chat: normal, guild, party and private channels (\<open>chat.cpp\<close>), over logins, logouts and the ids drawn anew at each:
    who hears a private channel has been invited, unless it is the clone of a player.
  \<^item> Party: membership, invitations, leadership, shared experience (\<open>party.cpp\<close>).
  \<^item> Trade: safe trading (\<open>game.cpp\<close>, \<open>player.cpp\<close>): what an accepted trade moves, and that one player may give and get
    nothing when the second move fails.

  \<^bold>\<open>Things.\<close>
  \<^item> ItemAttr: the attributes of an item and their saving and loading (\<open>item.h\<close>, \<open>item.cpp\<close>): the vector
    with its bit mask is a map, and what is saved is loaded back.
  \<^item> Container: what a container holds, its weight, its queries and its iterator (\<open>container.cpp\<close>), on a
    heap of objects that point to their parents: an item is listed once where it points to, nothing
    is inside itself, and the loops over parents end.
  \<^item> ItemMove: moving, splitting, merging, cloning and removing items between containers
    (\<open>Game::internalMoveItem\<close>, \<open>Game::internalRemoveItem\<close>, \<open>item.cpp\<close>): of every type there are as many pieces
    after a move as before it.
  \<^item> Tiles: the ground, the vector of items and the creatures of a tile, its flags, indices, queries and the
    way to other floors (\<open>tile.cpp\<close>, \<open>tile.h\<close>): the vector stays in order unless an item is turned in
    place into one of another order on top, the flags for blocking say what the items do, an index is a position in what is
    drawn, and whoever climbs stairs and steps back is where the way began. Flags of mailboxes and the like are lost.

  \<^bold>\<open>Creatures.\<close>
  \<^item> Lifetimes: reference counts, masters and summons, targets and friends of monsters, the slots in which
    creatures wait for their turn, placing, removal and death (\<open>creature.cpp\<close>, \<open>monster.cpp\<close>, \<open>game.cpp\<close>): in
    every order of events the counts are right and no freed creature is used, as long as no summon and no master dies; when
    a summon does, it is used after it has been freed.
  \<^item> MonsterStep: how a monster dances around its target, keeps a distance and flees (\<open>monster.cpp\<close>):
    stepping back comes no nearer, but for a fleeing monster in a corner.
  \<^item> Progress: experience, levels, skills, mana spent and what a death costs (\<open>player.cpp\<close>, \<open>player.h\<close>,
    \<open>vocation.cpp\<close>), on words of their widths: the level is the one the experience gives, up to a level of 800000.
  \<^item> Conditions: haste, poison, light, drunkenness and the rest: how they start, last, are renewed and end, and the list
    that a creature keeps of them (\<open>condition.cpp\<close>, \<open>creature.cpp\<close>, \<open>player.cpp\<close>). ConditionEffects: in every order of
    events what they did to speed, skills and stats is undone, while a renewal may give the defense back too early; a light
    without a level and a damage too large for 32 bits crash.

  \<^bold>\<open>Interfaces.\<close>
  Two contracts are stated as locales and interpreted on the code's model: \<open>keyed_store\<close> (lookup,
  insertion and erasure of an ordered map, provided by OrderedMap, relied upon by Chat) and
  \<open>name_index\<close> (insertion, removal and completion of names, provided by Wildcard, relied upon by
  PlayerIndex). The path search uses the line of sight, and the spectator search the map tree, through
  their definitions.

  \<^bold>\<open>What the groups of lemmas show.\<close>
  For every stateful component there is an invariant (\<open>*_ok\<close>, \<open>*_inv\<close>), a lemma per operation that
  preserves it, and a property over all reachable states by rule induction. Routines with an obvious
  meaning are compared with it: spectators with the set of creatures in range, the map tree with a
  partial map, the checksum with Adler-32, the rounded line with the tiles between its ends, the walk
  cache with a recomputed one. Formats have round trips. Where the code goes wrong the theorem says
  when: an accepted trade without an offer or without room for the second item, an item turned into one of another order on
  top, the clone of an excluded player, the shifted walk cache on a southern diagonal, a socket
  left open after a failed write, a disband that a script vetoes, the death of a summon, the second mailbox on a
  tile, a renewed condition against defense, a light without a level, and a loss of mana that exceeds what was spent.

  \<^bold>\<open>Bounds.\<close>
  The path search has a pool of 512 nodes and its costs stay below \<open>2 ^ 31\<close>, which is proved with its
  termination; the recursion is well-founded without fuel. The tree of tiles has the fixed depth that
  16-bit coordinates and leaves of 8 by 8 tiles give. Line lengths are at most 65535, for which the
  rounded slopes are bounded. Lists as buffers have the sizes of the code's arrays. Experience is followed up to level
  800000, below which the products of its formula fit their 64 bits. Reference counts are integers: 32 bits
  would need more references than a server has memory for.

  \<^bold>\<open>Not modelled\<close> (the manifest lists each part): the bindings for scripts, which only pass arguments
  between two interpreters; the database and the files of configuration, which are input and output;
  the client protocol's field-by-field messages; sockets and signals; and, of the world, combat
  formulas, spawns, houses, and the scripts, teleports and mailboxes that tiles tell of what is put
  on them, which the modelled parts see through arguments.
\<close>

end
